(* ===== verification/Brix_Prelude.thy ===== *)
theory Brix_Prelude
  imports "HOL-Library.Word"
begin

text \<open>
  Shared vocabulary of the development: the machine types of the C code, byte buffers and
  \<open>memcpy\<close>, little- and big-endian views of machine words, and NUL-free C strings with the
  few \<open><string.h>\<close> primitives the sources rely on.  The simp collections declared here
  (\<open>codec_simps\<close>, \<open>path_simps\<close>, \<open>acc_simps\<close>, \<open>kv_simps\<close>) are filled by the
  component theories.
\<close>

unbundle bit_operations_syntax

section \<open>Collections and type names\<close>

named_theorems codec_simps \<open>unfolding of wire tables, packers and unpackers\<close>
named_theorems path_simps \<open>unfolding of lexical path predicates\<close>
named_theorems acc_simps \<open>unfolding of the authorization engine's small predicates\<close>
named_theorems kv_simps \<open>unfolding of the shared-memory table accessors\<close>

type_synonym byte = "8 word"
type_synonym u16 = "16 word"
type_synonym u32 = "32 word"
type_synonym u64 = "64 word"
type_synonym bytes = "byte list"

text \<open>The return codes of nginx; where a result comes with a success, it is the left injection of the other two.\<close>

datatype ngx_rc = NGX_OK | NGX_DECLINED | NGX_ERROR

section \<open>Byte buffers\<close>

text \<open>\<open>memcpy(dst + off, src, length src)\<close> on a buffer that is long enough.\<close>

definition memcpy_at :: "nat \<Rightarrow> 'a list \<Rightarrow> 'a list \<Rightarrow> 'a list" where
  "memcpy_at off src dst = take off dst @ src @ drop (off + length src) dst"

text \<open>The \<open>n\<close> bytes at \<open>buf + off\<close>.\<close>

definition slice :: "nat \<Rightarrow> nat \<Rightarrow> 'a list \<Rightarrow> 'a list" where
  "slice off n buf = take n (drop off buf)"

lemma length_memcpy_at [simp]:
  "off + length src \<le> length dst \<Longrightarrow> length (memcpy_at off src dst) = length dst"
  by (simp add: memcpy_at_def)

lemma length_slice [simp]: "off + n \<le> length buf \<Longrightarrow> length (slice off n buf) = n"
  by (simp add: slice_def)

lemma slice_all [simp]: "n = length xs \<Longrightarrow> slice 0 n xs = xs"
  by (simp add: slice_def)

lemma slice_one [simp]: "off < length buf \<Longrightarrow> [hd (slice off (Suc 0) buf)] = slice off (Suc 0) buf"
  by (simp add: slice_def take_Suc hd_drop_conv_nth)

lemma nth_memcpy_at:
  assumes "off + length src \<le> length dst"
  shows "memcpy_at off src dst ! i =
    (if off \<le> i \<and> i < off + length src then src ! (i - off) else dst ! i)"
proof -
  consider "i < off" | "off \<le> i" "i < off + length src" | "off + length src \<le> i" by linarith
  then show ?thesis
    using assms by cases (auto simp: memcpy_at_def nth_append min_absorb2)
qed

lemma nth_slice: "i < n \<Longrightarrow> off + n \<le> length buf \<Longrightarrow> slice off n buf ! i = buf ! (off + i)"
  by (simp add: slice_def)

lemma slice_memcpy_same [simp]:
  assumes "off + length src \<le> length dst" and "n = length src"
  shows "slice off n (memcpy_at off src dst) = src"
  using assms by (intro nth_equalityI) (auto simp: nth_slice nth_memcpy_at)

lemma slice_memcpy_other:
  assumes "off + length src \<le> length dst" "o2 + n \<le> length dst"
    and "o2 + n \<le> off \<or> off + length src \<le> o2"
  shows "slice o2 n (memcpy_at off src dst) = slice o2 n dst"
  using assms by (intro nth_equalityI) (auto simp: nth_slice nth_memcpy_at)

lemma slice_append_left: "off + n \<le> length xs \<Longrightarrow> slice off n (xs @ ys) = slice off n xs"
  by (simp add: slice_def)

lemma slice_append_right: "length xs \<le> off \<Longrightarrow> slice off n (xs @ ys) = slice (off - length xs) n ys"
  by (simp add: slice_def)

lemma slice_split: "m \<le> n \<Longrightarrow> slice off n b = slice off m b @ slice (off + m) (n - m) b"
  using take_add [of m "n - m" "drop off b"] by (simp add: slice_def add.commute)

lemma take_eq_mono:
  assumes "take e xs = take e ys" "n \<le> e"
  shows "take n xs = take n ys"
proof -
  have "take n (take e xs) = take n (take e ys)" using assms(1) by simp
  then show ?thesis using assms(2) by (simp add: min_absorb1)
qed

lemma slice_of_take_eq:
  "take e xs = take e ys \<Longrightarrow> off + n \<le> e \<Longrightarrow> slice off n xs = slice off n ys"
  using take_eq_mono [of e xs ys "off + n"] by (simp add: slice_def take_drop add.commute)

lemma list_update_memcpy: "off < length xs \<Longrightarrow> xs[off := v] = memcpy_at off [v] xs"
  by (simp add: memcpy_at_def upd_conv_take_nth_drop)

lemma memcpy_at_append:
  assumes "off + length xs + length ys \<le> length dst"
  shows "memcpy_at (off + length xs) ys (memcpy_at off xs dst) = memcpy_at off (xs @ ys) dst"
  using assms by (intro nth_equalityI) (auto simp: nth_memcpy_at nth_append)

lemma memcpy_at_prepend:
  assumes "off + length xs + length ys \<le> length dst"
  shows "memcpy_at off xs (memcpy_at (off + length xs) ys dst) = memcpy_at off (xs @ ys) dst"
  using assms by (intro nth_equalityI) (auto simp: nth_memcpy_at nth_append)

lemma memcpy_at_Nil [simp]: "memcpy_at off [] dst = dst"
  by (simp add: memcpy_at_def)

text \<open>The bytes of a string literal.\<close>

definition chars :: "string \<Rightarrow> bytes" where
  "chars s = map (\<lambda>c. of_nat (of_char c)) s"

lemma length_chars [simp]: "length (chars s) = length s"
  by (simp add: chars_def)

section \<open>Exclusive or on words\<close>

lemma word_xor_cancel_right [simp]: "(a::'a::len word) XOR c = b XOR c \<longleftrightarrow> a = b"
proof
  assume "a XOR c = b XOR c"
  then have "(a XOR c) XOR c = (b XOR c) XOR c" by simp
  then show "a = b" by (simp add: xor.assoc)
qed simp

lemma word_xor_cancel_left [simp]: "c XOR (a::'a::len word) = c XOR b \<longleftrightarrow> a = b"
  using word_xor_cancel_right [of a c b] by (simp add: xor.commute)

lemma word_xor_eq_0 [simp]: "(a::'a::len word) XOR b = 0 \<longleftrightarrow> a = b"
  using word_xor_cancel_right [of a b b] by simp

section \<open>Widening\<close>

lemma ucast_u64_u32 [simp]: "ucast (ucast (c::u32) :: u64) = c"
  by (rule bit_word_eqI) (simp add: bit_simps)

lemma ucast_u64_inj: "(ucast (x::u32) :: u64) = ucast y \<longleftrightarrow> x = y"
  by (metis ucast_u64_u32)

lemma ucast_u64_0 [simp]: "(ucast (x::u32) :: u64) = 0 \<longleftrightarrow> x = 0"
  using ucast_u64_inj [of x 0] by simp

section \<open>Words as byte sequences\<close>

text \<open>The \<open>n\<close> low bytes of a word, least significant first (the native x86-64 order).\<close>

definition le_bytes :: "nat \<Rightarrow> 'a::len word \<Rightarrow> bytes" where
  "le_bytes n v = map (\<lambda>i. ucast (drop_bit (8 * i) v)) [0..<n]"

fun le_word :: "bytes \<Rightarrow> 'a::len word" where
  "le_word [] = 0"
| "le_word (b # bs) = ucast b OR push_bit 8 (le_word bs)"

text \<open>Network order is the reverse.\<close>

definition be_bytes :: "nat \<Rightarrow> 'a::len word \<Rightarrow> bytes" where
  "be_bytes n v = rev (le_bytes n v)"

definition be_word :: "bytes \<Rightarrow> 'a::len word" where
  "be_word bs = le_word (rev bs)"

lemma length_le_bytes [simp]: "length (le_bytes n v) = n"
  by (simp add: le_bytes_def)

lemma length_be_bytes [simp]: "length (be_bytes n v) = n"
  by (simp add: be_bytes_def)

lemma bit_le_word:
  "bit (le_word bs :: 'a::len word) k \<longleftrightarrow>
     k < LENGTH('a) \<and> k div 8 < length bs \<and> bit (bs ! (k div 8)) (k mod 8)"
proof (induction bs arbitrary: k)
  case Nil
  then show ?case by simp
next
  case (Cons b bs)
  show ?case
  proof (cases "k < 8")
    case True
    then show ?thesis by (auto simp: bit_simps)
  next
    case False
    have k8: "k div 8 = Suc ((k - 8) div 8)" "(k - 8) mod 8 = k mod 8"
      using False by (simp_all add: le_div_geq le_mod_geq)
    have "\<not> bit b k" using False bit_imp_le_length [of b k] by auto
    with False k8 show ?thesis by (auto simp: bit_simps Cons.IH)
  qed
qed

lemma le_word_le_bytes [simp]:
  assumes "LENGTH('a) \<le> 8 * n"
  shows "le_word (le_bytes n (v::'a::len word)) = v"
proof (rule bit_word_eqI)
  fix k assume k: "k < LENGTH('a)"
  then have "k div 8 < n" using assms by auto
  then show "bit (le_word (le_bytes n v) :: 'a word) k = bit v k"
    using k by (simp add: bit_le_word le_bytes_def bit_simps)
qed

lemma le_bytes_le_word [simp]:
  assumes "n = length bs" "8 * n \<le> LENGTH('a)"
  shows "le_bytes n (le_word bs :: 'a::len word) = bs"
proof (rule nth_equalityI)
  show "length (le_bytes n (le_word bs :: 'a word)) = length bs" using assms by simp
next
  fix i assume "i < length (le_bytes n (le_word bs :: 'a word))"
  then have i: "i < length bs" "i < n" using assms by simp_all
  show "le_bytes n (le_word bs :: 'a word) ! i = bs ! i"
  proof (rule bit_word_eqI)
    fix j assume j: "j < LENGTH(8)"
    have "8 * i + j < LENGTH('a)" using i j assms by simp
    moreover have "(8 * i + j) div 8 = i" "(8 * i + j) mod 8 = j" using j by simp_all
    ultimately show "bit (le_bytes n (le_word bs :: 'a word) ! i) j = bit (bs ! i) j"
      using i j by (simp add: le_bytes_def bit_simps bit_le_word)
  qed
qed

lemma be_word_be_bytes [simp]:
  "LENGTH('a) \<le> 8 * n \<Longrightarrow> be_word (be_bytes n (v::'a::len word)) = v"
  by (simp add: be_word_def be_bytes_def)

lemma be_bytes_be_word [simp]:
  "n = length bs \<Longrightarrow> 8 * n \<le> LENGTH('a) \<Longrightarrow> be_bytes n (be_word bs :: 'a::len word) = bs"
  by (simp add: be_word_def be_bytes_def)

lemma be_bytes_inject:
  "LENGTH('a) \<le> 8 * n \<Longrightarrow> be_bytes n (v::'a::len word) = be_bytes n w \<longleftrightarrow> v = w"
  by (metis be_word_be_bytes)

end
