(* ===== verification/Wire_Codec.thy ===== *)
theory Wire_Codec
  imports Brix_Prelude
begin

text \<open>
  The field-table engine of \<^verbatim>\<open>src/protocols/root/protocol/codec/wire_codec.h\<close>: big-endian
  field helpers, one row per fixed field of the 16-byte request body, and the pack and unpack
  drivers that walk the same table in both directions.

  A decoded C struct is an Isabelle record \<open>'r\<close>.  A row's \<open>struct_off\<close> is the pair of the
  field's selector and update; its type tag and byte length are the constructor of
  \<open>xrdw_access\<close>.  The locale \<open>xrdw_message\<close> is the contract a table must satisfy;
  the theory \<open>Wire_Messages\<close> interprets it on every request table of the program.
\<close>

section \<open>Big-endian field helpers\<close>

definition xrdw_put_u16 :: "bytes \<Rightarrow> nat \<Rightarrow> u16 \<Rightarrow> bytes" where
  "xrdw_put_u16 p o1 v = p[o1 := ucast (drop_bit 8 v), o1 + 1 := ucast v]"

definition xrdw_put_u32 :: "bytes \<Rightarrow> nat \<Rightarrow> u32 \<Rightarrow> bytes" where
  "xrdw_put_u32 p o1 v = p[o1 := ucast (drop_bit 24 v), o1 + 1 := ucast (drop_bit 16 v),
     o1 + 2 := ucast (drop_bit 8 v), o1 + 3 := ucast v]"

definition xrdw_get_u16 :: "bytes \<Rightarrow> nat \<Rightarrow> u16" where
  "xrdw_get_u16 p o1 = push_bit 8 (ucast (p ! o1)) OR ucast (p ! (o1 + 1))"

definition xrdw_get_u32 :: "bytes \<Rightarrow> nat \<Rightarrow> u32" where
  "xrdw_get_u32 p o1 = push_bit 24 (ucast (p ! o1)) OR push_bit 16 (ucast (p ! (o1 + 1)))
     OR push_bit 8 (ucast (p ! (o1 + 2))) OR ucast (p ! (o1 + 3))"

definition xrdw_put_u64 :: "bytes \<Rightarrow> nat \<Rightarrow> u64 \<Rightarrow> bytes" where
  "xrdw_put_u64 p o1 v = xrdw_put_u32 (xrdw_put_u32 p o1 (ucast (drop_bit 32 v))) (o1 + 4) (ucast v)"

definition xrdw_get_u64 :: "bytes \<Rightarrow> nat \<Rightarrow> u64" where
  "xrdw_get_u64 p o1 = push_bit 32 (ucast (xrdw_get_u32 p o1)) OR ucast (xrdw_get_u32 p (o1 + 4))"

section \<open>The field table and its engine\<close>

datatype xrdw_error = XRDW_EINVAL

abbreviation (input) XRDW_BODY_LEN :: nat where "XRDW_BODY_LEN \<equiv> 16"
abbreviation (input) XRDW_FHANDLE_LEN :: nat where "XRDW_FHANDLE_LEN \<equiv> 4"

datatype (dead 'r) xrdw_access =
    XRDW_F_U8 "'r \<Rightarrow> byte" "byte \<Rightarrow> 'r \<Rightarrow> 'r"
  | XRDW_F_U16 "'r \<Rightarrow> u16" "u16 \<Rightarrow> 'r \<Rightarrow> 'r"
  | XRDW_F_U32 "'r \<Rightarrow> u32" "u32 \<Rightarrow> 'r \<Rightarrow> 'r"
  | XRDW_F_U64 "'r \<Rightarrow> u64" "u64 \<Rightarrow> 'r \<Rightarrow> 'r"
  | XRDW_F_BYTES nat "'r \<Rightarrow> bytes" "bytes \<Rightarrow> 'r \<Rightarrow> 'r"

record 'r xrdw_field_t =
  wire_off :: nat
  faccess :: "'r xrdw_access"

abbreviation xrdw_row :: "nat \<Rightarrow> 'r xrdw_access \<Rightarrow> 'r xrdw_field_t" where
  "xrdw_row o1 a \<equiv> \<lparr>wire_off = o1, faccess = a\<rparr>"

definition xrdw_field_put :: "bytes \<Rightarrow> 'r \<Rightarrow> 'r xrdw_field_t \<Rightarrow> bytes" where
  "xrdw_field_put body r f = (case faccess f of
      XRDW_F_U8 g s \<Rightarrow> body[wire_off f := g r]
    | XRDW_F_U16 g s \<Rightarrow> xrdw_put_u16 body (wire_off f) (g r)
    | XRDW_F_U32 g s \<Rightarrow> xrdw_put_u32 body (wire_off f) (g r)
    | XRDW_F_U64 g s \<Rightarrow> xrdw_put_u64 body (wire_off f) (g r)
    | XRDW_F_BYTES n g s \<Rightarrow> memcpy_at (wire_off f) (take n (g r)) body)"

definition xrdw_field_get :: "bytes \<Rightarrow> 'r \<Rightarrow> 'r xrdw_field_t \<Rightarrow> 'r" where
  "xrdw_field_get body r f = (case faccess f of
      XRDW_F_U8 g s \<Rightarrow> s (body ! wire_off f) r
    | XRDW_F_U16 g s \<Rightarrow> s (xrdw_get_u16 body (wire_off f)) r
    | XRDW_F_U32 g s \<Rightarrow> s (xrdw_get_u32 body (wire_off f)) r
    | XRDW_F_U64 g s \<Rightarrow> s (xrdw_get_u64 body (wire_off f)) r
    | XRDW_F_BYTES n g s \<Rightarrow> s (slice (wire_off f) n body) r)"

text \<open>
  \<open>None\<close> is the NULL pointer of either argument; success carries the packed body (whose
  length the C function returns) or the filled struct.
\<close>

definition xrdw_pack_fields ::
    "'r option \<Rightarrow> bytes option \<Rightarrow> 'r xrdw_field_t list \<Rightarrow> xrdw_error + bytes" where
  "xrdw_pack_fields r body tab = (case r of None \<Rightarrow> Inl XRDW_EINVAL
     | Some r' \<Rightarrow> (case body of None \<Rightarrow> Inl XRDW_EINVAL
         | Some _ \<Rightarrow> Inr (foldl (\<lambda>b f. xrdw_field_put b r' f) (replicate XRDW_BODY_LEN 0) tab)))"

definition xrdw_unpack_fields ::
    "bytes option \<Rightarrow> 'r option \<Rightarrow> 'r xrdw_field_t list \<Rightarrow> xrdw_error + 'r" where
  "xrdw_unpack_fields body r tab = (case body of None \<Rightarrow> Inl XRDW_EINVAL
     | Some b \<Rightarrow> (case r of None \<Rightarrow> Inl XRDW_EINVAL
         | Some r' \<Rightarrow> Inr (foldl (\<lambda>s f. xrdw_field_get b s f) r' tab)))"

section \<open>What a row denotes\<close>

text \<open>
  The specification side of a row: its width, the bytes it puts on the wire and the way bytes
  taken off the wire are stored back.
\<close>

definition xrdw_width :: "'r xrdw_field_t \<Rightarrow> nat" where
  "xrdw_width f = (case faccess f of XRDW_F_U8 g s \<Rightarrow> 1 | XRDW_F_U16 g s \<Rightarrow> 2
     | XRDW_F_U32 g s \<Rightarrow> 4 | XRDW_F_U64 g s \<Rightarrow> 8 | XRDW_F_BYTES n g s \<Rightarrow> n)"

definition xrdw_value :: "'r xrdw_field_t \<Rightarrow> 'r \<Rightarrow> bytes" where
  "xrdw_value f r = (case faccess f of XRDW_F_U8 g s \<Rightarrow> [g r] | XRDW_F_U16 g s \<Rightarrow> be_bytes 2 (g r)
     | XRDW_F_U32 g s \<Rightarrow> be_bytes 4 (g r) | XRDW_F_U64 g s \<Rightarrow> be_bytes 8 (g r)
     | XRDW_F_BYTES n g s \<Rightarrow> take n (g r))"

definition xrdw_store :: "'r xrdw_field_t \<Rightarrow> bytes \<Rightarrow> 'r \<Rightarrow> 'r" where
  "xrdw_store f bs = (case faccess f of XRDW_F_U8 g s \<Rightarrow> s (hd bs) | XRDW_F_U16 g s \<Rightarrow> s (be_word bs)
     | XRDW_F_U32 g s \<Rightarrow> s (be_word bs) | XRDW_F_U64 g s \<Rightarrow> s (be_word bs)
     | XRDW_F_BYTES n g s \<Rightarrow> s bs)"

text \<open>Rows stand in increasing wire order, do not overlap and stay inside the body.\<close>

fun xrdw_layout_from :: "nat \<Rightarrow> 'r xrdw_field_t list \<Rightarrow> bool" where
  "xrdw_layout_from n [] = (n \<le> XRDW_BODY_LEN)"
| "xrdw_layout_from n (f # fs) = (n \<le> wire_off f \<and> xrdw_layout_from (wire_off f + xrdw_width f) fs)"

lemma xrdw_layout_bound: "xrdw_layout_from n tab \<Longrightarrow> n \<le> XRDW_BODY_LEN"
  by (induction tab arbitrary: n) fastforce+

lemma xrdw_layout_row:
  "xrdw_layout_from n tab \<Longrightarrow> f \<in> set tab \<Longrightarrow> n \<le> wire_off f \<and> wire_off f + xrdw_width f \<le> XRDW_BODY_LEN"
  by (induction tab arbitrary: n) (fastforce dest: xrdw_layout_bound)+

lemmas xrdw_row_simps [codec_simps] = xrdw_width_def xrdw_value_def xrdw_store_def

lemma xrdw_put_u16_memcpy:
  "o1 + 2 \<le> length p \<Longrightarrow> xrdw_put_u16 p o1 v = memcpy_at o1 (be_bytes 2 v) p"
  by (intro nth_equalityI)
     (auto simp: xrdw_put_u16_def nth_memcpy_at nth_list_update be_bytes_def le_bytes_def
        rev_nth nth_Cons' upt_rec)

lemma xrdw_put_u32_memcpy:
  "o1 + 4 \<le> length p \<Longrightarrow> xrdw_put_u32 p o1 v = memcpy_at o1 (be_bytes 4 v) p"
  by (intro nth_equalityI)
     (auto simp: xrdw_put_u32_def nth_memcpy_at nth_list_update be_bytes_def le_bytes_def
        rev_nth nth_Cons' upt_rec)

lemma be_bytes_split: "be_bytes 8 (v::u64) = be_bytes 4 (ucast (drop_bit 32 v) :: u32) @ be_bytes 4 (ucast v :: u32)"
proof -
  have "le_bytes 4 (ucast v :: u32) = map (\<lambda>i. ucast (drop_bit (8 * i) v)) [0..<4]"
    unfolding le_bytes_def
    by (rule map_cong [OF refl]) (auto intro!: bit_word_eqI simp: bit_simps)
  moreover have "le_bytes 4 (ucast (drop_bit 32 v) :: u32)
      = map (\<lambda>i. ucast (drop_bit (8 * i) v)) (map (\<lambda>i. i + 4) [0..<4])"
    unfolding le_bytes_def map_map
    by (rule map_cong [OF refl]) (auto intro!: bit_word_eqI simp: bit_simps ac_simps)
  moreover have "[0..<8] = [0..<4] @ map (\<lambda>i. i + 4) [0..<(4::nat)]"
    by (simp add: upt_rec)
  ultimately show ?thesis
    by (simp add: be_bytes_def le_bytes_def)
qed

lemma xrdw_put_u64_memcpy:
  assumes "o1 + 8 \<le> length p"
  shows "xrdw_put_u64 p o1 v = memcpy_at o1 (be_bytes 8 v) p"
  using assms
  by (intro nth_equalityI)
     (auto simp: xrdw_put_u64_def xrdw_put_u32_memcpy nth_memcpy_at be_bytes_split nth_append)

lemma xrdw_get_u16_be: "o1 + 2 \<le> length p \<Longrightarrow> xrdw_get_u16 p o1 = be_word (slice o1 2 p)"
proof -
  assume a: "o1 + 2 \<le> length p"
  have "slice o1 2 p = [p ! o1, p ! (o1 + 1)]"
    using a by (intro nth_equalityI) (auto simp: nth_slice nth_Cons' less_2_cases_iff)
  then show ?thesis by (simp add: xrdw_get_u16_def be_word_def or.commute)
qed

lemma xrdw_get_u32_be: "o1 + 4 \<le> length p \<Longrightarrow> xrdw_get_u32 p o1 = be_word (slice o1 4 p)"
proof -
  assume a: "o1 + 4 \<le> length p"
  have "slice o1 4 p = [p ! o1, p ! (o1 + 1), p ! (o1 + 2), p ! (o1 + 3)]"
    using a by (intro nth_equalityI) (auto simp: nth_slice nth_Cons' eval_nat_numeral less_Suc_eq)
  then show ?thesis
    by (simp add: xrdw_get_u32_def be_word_def push_bit_or or.assoc or.commute or.left_commute)
qed

lemma be_word_append8:
  assumes "length xs = 4" "length ys = 4"
  shows "push_bit 32 (ucast (be_word xs :: u32)) OR ucast (be_word ys :: u32) = (be_word (xs @ ys) :: u64)"
proof (rule bit_word_eqI)
  fix k assume k: "k < LENGTH(64)"
  have m: "(k - 32) mod 8 = k mod 8" "(k - 32) div 8 = k div 8 - 4" "4 \<le> k div 8" if "32 \<le> k"
    using le_Suc_ex [OF that] mod_mult_self2 [of _ "8::nat" 4] by (auto simp: add.commute)
  have l: "k < 64" "k div 8 < 8" "k < 32 \<Longrightarrow> k div 8 < 4" using k by simp_all
  then have l2: "k - 32 < 32" "k - 32 < 64" "k div 8 - 4 < 4" by linarith+
  show "bit (push_bit 32 (ucast (be_word xs :: u32)) OR ucast (be_word ys :: u32) :: u64) k
      = bit (be_word (xs @ ys) :: u64) k"
    using l l2 assms m
    by (cases "k < 32") (auto simp: be_word_def bit_simps bit_le_word nth_append)
qed

lemma xrdw_get_u64_be: "o1 + 8 \<le> length p \<Longrightarrow> xrdw_get_u64 p o1 = be_word (slice o1 8 p)"
proof -
  assume a: "o1 + 8 \<le> length p"
  have "slice o1 8 p = slice o1 4 p @ slice (o1 + 4) 4 p"
    using a by (intro nth_equalityI) (auto simp: nth_slice nth_append)
  with a show ?thesis by (simp add: xrdw_get_u64_def xrdw_get_u32_be be_word_append8)
qed

lemma xrdw_field_put_memcpy:
  assumes "wire_off f + xrdw_width f \<le> length body" "length (xrdw_value f r) = xrdw_width f"
  shows "xrdw_field_put body r f = memcpy_at (wire_off f) (xrdw_value f r) body"
  using assms
  by (auto simp: xrdw_field_put_def xrdw_row_simps list_update_memcpy xrdw_put_u16_memcpy
      xrdw_put_u32_memcpy xrdw_put_u64_memcpy split: xrdw_access.splits)

lemma xrdw_field_get_store:
  assumes "wire_off f + xrdw_width f \<le> length body"
  shows "xrdw_field_get body r f = xrdw_store f (slice (wire_off f) (xrdw_width f) body) r"
proof -
  have "hd (slice (wire_off f) 1 body) = body ! wire_off f" if "wire_off f < length body"
    using that by (simp add: slice_def hd_drop_conv_nth)
  then show ?thesis
    using assms
    by (auto simp: xrdw_field_get_def xrdw_row_simps xrdw_get_u16_be xrdw_get_u32_be xrdw_get_u64_be
        split: xrdw_access.splits)
qed

section \<open>Walking a table\<close>

lemma xrdw_pack_walk:
  assumes "xrdw_layout_from n tab" "length b = XRDW_BODY_LEN"
    and "\<forall>f \<in> set tab. length (xrdw_value f r) = xrdw_width f"
  defines "b' \<equiv> foldl (\<lambda>b f. xrdw_field_put b r f) b tab"
  shows "length b' = XRDW_BODY_LEN \<and> take n b' = take n b
    \<and> (\<forall>f \<in> set tab. slice (wire_off f) (xrdw_width f) b' = xrdw_value f r)"
  using assms(1-3) unfolding b'_def
proof (induction tab arbitrary: n b)
  case Nil
  then show ?case by simp
next
  case (Cons f fs)
  let ?b1 = "xrdw_field_put b r f"
  let ?e = "wire_off f + xrdw_width f"
  have wf: "length (xrdw_value f r) = xrdw_width f" using Cons.prems(3) by simp
  have lay: "xrdw_layout_from ?e fs" "n \<le> wire_off f" using Cons.prems(1) by simp_all
  have e: "?e \<le> 16" using xrdw_layout_bound [OF lay(1)] .
  have b1: "?b1 = memcpy_at (wire_off f) (xrdw_value f r) b"
    using e wf Cons.prems(2) by (intro xrdw_field_put_memcpy) simp_all
  have len1: "length ?b1 = 16" using b1 e wf Cons.prems(2) by simp
  from Cons.IH [OF lay(1) len1] Cons.prems(3)
  have ih: "length (foldl (\<lambda>b f. xrdw_field_put b r f) ?b1 fs) = 16"
    "take ?e (foldl (\<lambda>b f. xrdw_field_put b r f) ?b1 fs) = take ?e ?b1"
    "\<forall>g \<in> set fs. slice (wire_off g) (xrdw_width g) (foldl (\<lambda>b f. xrdw_field_put b r f) ?b1 fs) = xrdw_value g r"
    by simp_all
  have "take n (foldl (\<lambda>b f. xrdw_field_put b r f) ?b1 fs) = take n ?b1"
    using take_eq_mono [OF ih(2)] lay(2) by simp
  moreover have "take n ?b1 = take n b"
    using lay(2) e Cons.prems(2) by (simp add: b1 memcpy_at_def min_absorb1)
  moreover have "slice (wire_off f) (xrdw_width f) (foldl (\<lambda>b f. xrdw_field_put b r f) ?b1 fs)
      = xrdw_value f r"
    using slice_of_take_eq [OF ih(2), of "wire_off f" "xrdw_width f"] b1 e wf Cons.prems(2) by simp
  ultimately show ?case using ih by simp
qed

lemma xrdw_unpack_walk:
  assumes "xrdw_layout_from n tab" "length b = XRDW_BODY_LEN"
  shows "foldl (\<lambda>s f. xrdw_field_get b s f) s tab
    = foldl (\<lambda>s f. xrdw_store f (slice (wire_off f) (xrdw_width f) b) s) s tab"
  using xrdw_layout_row [OF assms(1)] assms(2)
  by (intro foldl_cong refl) (simp add: xrdw_field_get_store)

text \<open>The bytes of the body that some row owns; the others are the protocol's reserved bytes.\<close>

definition xrdw_owned :: "'r xrdw_field_t list \<Rightarrow> nat \<Rightarrow> bool" where
  "xrdw_owned tab i = (\<exists>f \<in> set tab. wire_off f \<le> i \<and> i < wire_off f + xrdw_width f)"

definition xrdw_scrub :: "'r xrdw_field_t list \<Rightarrow> bytes \<Rightarrow> bytes" where
  "xrdw_scrub tab b = map (\<lambda>i. if xrdw_owned tab i then b ! i else 0) [0..<XRDW_BODY_LEN]"

lemma xrdw_pack_reserved:
  assumes "xrdw_layout_from n tab" "length b = XRDW_BODY_LEN"
    and "\<forall>f \<in> set tab. length (xrdw_value f r) = xrdw_width f" and "\<not> xrdw_owned tab i"
  shows "foldl (\<lambda>b f. xrdw_field_put b r f) b tab ! i = b ! i"
  using assms
proof (induction tab arbitrary: n b)
  case Nil
  then show ?case by simp
next
  case (Cons f fs)
  let ?e = "wire_off f + xrdw_width f"
  have lay: "xrdw_layout_from ?e fs" using Cons.prems(1) by simp
  have e: "?e \<le> 16" using xrdw_layout_bound [OF lay] .
  have b1: "xrdw_field_put b r f = memcpy_at (wire_off f) (xrdw_value f r) b"
    using e Cons.prems(2,3) by (intro xrdw_field_put_memcpy) simp_all
  have "foldl (\<lambda>b f. xrdw_field_put b r f) (xrdw_field_put b r f) fs ! i = xrdw_field_put b r f ! i"
    using Cons.prems lay e by (intro Cons.IH [OF lay]) (auto simp: b1 xrdw_owned_def)
  also have "\<dots> = b ! i"
    using Cons.prems e by (auto simp: b1 nth_memcpy_at xrdw_owned_def)
  finally show ?case by simp
qed

section \<open>The contract of a request table\<close>

text \<open>
  What a message's table promises: rows stand in order inside the body, a well-formed struct has
  fields of the declared widths, the rows between them determine the whole struct (nothing the
  struct holds is left off the wire), and a struct filled from the wire is well-formed and reads
  back what was on the wire.
\<close>

definition xrdw_codec_ok :: "'r xrdw_field_t list \<Rightarrow> ('r \<Rightarrow> bool)
    \<Rightarrow> ('r option \<Rightarrow> bytes option \<Rightarrow> xrdw_error + bytes)
    \<Rightarrow> (bytes option \<Rightarrow> 'r option \<Rightarrow> xrdw_error + 'r) \<Rightarrow> bool" where
  "xrdw_codec_ok tab valid pack unpack \<longleftrightarrow>
     (\<forall>r b0 s. valid r \<longrightarrow> (\<exists>b. pack (Some r) (Some b0) = Inr b \<and> length b = XRDW_BODY_LEN
        \<and> unpack (Some b) (Some s) = Inr r))
   \<and> (\<forall>b b0 s. length b = XRDW_BODY_LEN \<longrightarrow> (\<exists>r. unpack (Some b) (Some s) = Inr r \<and> valid r
        \<and> pack (Some r) (Some b0) = Inr (xrdw_scrub tab b)))
   \<and> (\<forall>r body. r = None \<or> body = None \<longrightarrow> pack r body = Inl XRDW_EINVAL \<and> unpack body r = Inl XRDW_EINVAL)"

locale xrdw_message =
  fixes tab :: "'r xrdw_field_t list"
    and valid :: "'r \<Rightarrow> bool"
  assumes layout: "xrdw_layout_from 0 tab"
    and width: "valid r \<Longrightarrow> f \<in> set tab \<Longrightarrow> length (xrdw_value f r) = xrdw_width f"
    and rebuild: "valid r \<Longrightarrow> foldl (\<lambda>s f. xrdw_store f (xrdw_value f r) s) s tab = r"
    and filled: "length b = XRDW_BODY_LEN \<Longrightarrow>
      valid (foldl (\<lambda>s f. xrdw_store f (slice (wire_off f) (xrdw_width f) b) s) s tab)"
    and readback: "length b = XRDW_BODY_LEN \<Longrightarrow> f \<in> set tab \<Longrightarrow>
      xrdw_value f (foldl (\<lambda>s f. xrdw_store f (slice (wire_off f) (xrdw_width f) b) s) s tab)
        = slice (wire_off f) (xrdw_width f) b"
begin

lemma pack_ok:
  assumes "valid r"
  shows "\<exists>b. xrdw_pack_fields (Some r) (Some b0) tab = Inr b \<and> length b = XRDW_BODY_LEN
    \<and> (\<forall>f \<in> set tab. slice (wire_off f) (xrdw_width f) b = xrdw_value f r)
    \<and> (\<forall>i < XRDW_BODY_LEN. \<not> xrdw_owned tab i \<longrightarrow> b ! i = 0)"
proof -
  let ?z = "replicate XRDW_BODY_LEN 0 :: bytes"
  let ?b = "foldl (\<lambda>b f. xrdw_field_put b r f) ?z tab"
  have w: "\<forall>f \<in> set tab. length (xrdw_value f r) = xrdw_width f" using width assms by blast
  have "?b ! i = 0" if "i < XRDW_BODY_LEN" "\<not> xrdw_owned tab i" for i
    using xrdw_pack_reserved [OF layout _ w that(2), of ?z] that(1) by simp
  with xrdw_pack_walk [OF layout _ w, of ?z] show ?thesis by (simp add: xrdw_pack_fields_def)
qed

theorem unpack_pack:
  assumes "valid r"
  shows "\<exists>b. xrdw_pack_fields (Some r) (Some b0) tab = Inr b \<and> length b = XRDW_BODY_LEN
    \<and> xrdw_unpack_fields (Some b) (Some s) tab = Inr r"
proof -
  obtain b where b: "xrdw_pack_fields (Some r) (Some b0) tab = Inr b" "length b = XRDW_BODY_LEN"
    "\<forall>f \<in> set tab. slice (wire_off f) (xrdw_width f) b = xrdw_value f r"
    using pack_ok [OF assms] by blast
  have "foldl (\<lambda>s f. xrdw_field_get b s f) s tab = foldl (\<lambda>s f. xrdw_store f (xrdw_value f r) s) s tab"
    unfolding xrdw_unpack_walk [OF layout b(2)] using b(3) by (intro foldl_cong refl) simp
  then show ?thesis using b(1,2) rebuild [OF assms] by (simp add: xrdw_unpack_fields_def)
qed

theorem pack_unpack:
  assumes "length b = XRDW_BODY_LEN"
  shows "\<exists>r. xrdw_unpack_fields (Some b) (Some s) tab = Inr r \<and> valid r
    \<and> xrdw_pack_fields (Some r) (Some b0) tab = Inr (xrdw_scrub tab b)"
proof -
  let ?r = "foldl (\<lambda>s f. xrdw_store f (slice (wire_off f) (xrdw_width f) b) s) s tab"
  obtain b' where b': "xrdw_pack_fields (Some ?r) (Some b0) tab = Inr b'" "length b' = XRDW_BODY_LEN"
    "\<forall>f \<in> set tab. slice (wire_off f) (xrdw_width f) b' = xrdw_value f ?r"
    "\<forall>i < XRDW_BODY_LEN. \<not> xrdw_owned tab i \<longrightarrow> b' ! i = 0"
    using pack_ok [OF filled [OF assms]] by blast
  have "b' ! i = b ! i" if own: "xrdw_owned tab i" for i
  proof -
    obtain f where f: "f \<in> set tab" "wire_off f \<le> i" "i < wire_off f + xrdw_width f"
      using own by (auto simp: xrdw_owned_def)
    have "slice (wire_off f) (xrdw_width f) b' ! (i - wire_off f)
        = slice (wire_off f) (xrdw_width f) b ! (i - wire_off f)"
      using b'(3) readback assms f(1) by simp
    then show ?thesis
      using f xrdw_layout_row [OF layout f(1)] b'(2) assms by (simp add: nth_slice)
  qed
  then have "b' = xrdw_scrub tab b"
    using b'(2,4) by (intro nth_equalityI) (auto simp: xrdw_scrub_def)
  then show ?thesis
    using b'(1) filled [OF assms] by (simp add: xrdw_unpack_fields_def xrdw_unpack_walk [OF layout assms])
qed

theorem codec_ok:
  "xrdw_codec_ok tab valid (\<lambda>r body. xrdw_pack_fields r body tab) (\<lambda>body r. xrdw_unpack_fields body r tab)"
  using unpack_pack pack_unpack
  by (auto simp: xrdw_codec_ok_def xrdw_pack_fields_def xrdw_unpack_fields_def split: option.splits)

end

end
