(* ===== verification/Wire_Messages.thy ===== *)
theory Wire_Messages
  imports Wire_Codec
begin

text \<open>
  The request bodies of \<^verbatim>\<open>wire_codec_file.c\<close>, \<^verbatim>\<open>wire_codec_meta.c\<close>, \<^verbatim>\<open>wire_codec_ns.c\<close> and
  \<^verbatim>\<open>wire_codec_session.c\<close>: for each message its decoded struct (a record whose fields carry the
  message's name first, because the C structs share field names), its field table, its pack and
  unpack entry points, and the interpretation of the contract \<open>xrdw_message\<close> on the table.
  Signed fields are kept as the machine word the engine copies.  A \<open>_wf\<close> predicate states the
  lengths of the struct's fixed C arrays.
\<close>

section \<open>File family (\<^verbatim>\<open>wire_codec_file.c\<close>)\<close>

record xrdw_open_req_t =
  open_mode :: u16
  open_options :: u16
  open_optiont :: u16
  open_fhtemplt :: bytes

definition xrdw_open_req_wf :: "xrdw_open_req_t \<Rightarrow> bool" where
  "xrdw_open_req_wf r = (length (open_fhtemplt r) = 4)"

definition xrdw_open_fields :: "xrdw_open_req_t xrdw_field_t list" where
  "xrdw_open_fields = [
     xrdw_row 0 (XRDW_F_U16 open_mode (\<lambda>v. open_mode_update (\<lambda>_. v))),
     xrdw_row 2 (XRDW_F_U16 open_options (\<lambda>v. open_options_update (\<lambda>_. v))),
     xrdw_row 4 (XRDW_F_U16 open_optiont (\<lambda>v. open_optiont_update (\<lambda>_. v))),
     xrdw_row 12 (XRDW_F_BYTES 4 open_fhtemplt (\<lambda>v. open_fhtemplt_update (\<lambda>_. v)))]"

definition xrdw_open_req_pack :: "xrdw_open_req_t option \<Rightarrow> bytes option \<Rightarrow> xrdw_error + bytes" where
  "xrdw_open_req_pack r body = xrdw_pack_fields r body xrdw_open_fields"

definition xrdw_open_req_unpack :: "bytes option \<Rightarrow> xrdw_open_req_t option \<Rightarrow> xrdw_error + xrdw_open_req_t" where
  "xrdw_open_req_unpack body r = xrdw_unpack_fields body r xrdw_open_fields"

lemmas xrdw_open_defs = xrdw_open_fields_def xrdw_open_req_wf_def

interpretation open_msg: xrdw_message xrdw_open_fields xrdw_open_req_wf
  by unfold_locales (auto simp: xrdw_open_defs codec_simps)

lemmas xrdw_open_codec_ok = open_msg.codec_ok [folded xrdw_open_req_pack_def xrdw_open_req_unpack_def]

record xrdw_close_req_t =
  close_fhandle :: bytes

definition xrdw_close_req_wf :: "xrdw_close_req_t \<Rightarrow> bool" where
  "xrdw_close_req_wf r = (length (close_fhandle r) = 4)"

definition xrdw_close_fields :: "xrdw_close_req_t xrdw_field_t list" where
  "xrdw_close_fields = [
     xrdw_row 0 (XRDW_F_BYTES 4 close_fhandle (\<lambda>v. close_fhandle_update (\<lambda>_. v)))]"

definition xrdw_close_req_pack :: "xrdw_close_req_t option \<Rightarrow> bytes option \<Rightarrow> xrdw_error + bytes" where
  "xrdw_close_req_pack r body = xrdw_pack_fields r body xrdw_close_fields"

definition xrdw_close_req_unpack :: "bytes option \<Rightarrow> xrdw_close_req_t option \<Rightarrow> xrdw_error + xrdw_close_req_t" where
  "xrdw_close_req_unpack body r = xrdw_unpack_fields body r xrdw_close_fields"

lemmas xrdw_close_defs = xrdw_close_fields_def xrdw_close_req_wf_def

interpretation close_msg: xrdw_message xrdw_close_fields xrdw_close_req_wf
  by unfold_locales (auto simp: xrdw_close_defs codec_simps)

lemmas xrdw_close_codec_ok = close_msg.codec_ok [folded xrdw_close_req_pack_def xrdw_close_req_unpack_def]

record xrdw_sync_req_t =
  sync_fhandle :: bytes

definition xrdw_sync_req_wf :: "xrdw_sync_req_t \<Rightarrow> bool" where
  "xrdw_sync_req_wf r = (length (sync_fhandle r) = 4)"

definition xrdw_sync_fields :: "xrdw_sync_req_t xrdw_field_t list" where
  "xrdw_sync_fields = [
     xrdw_row 0 (XRDW_F_BYTES 4 sync_fhandle (\<lambda>v. sync_fhandle_update (\<lambda>_. v)))]"

definition xrdw_sync_req_pack :: "xrdw_sync_req_t option \<Rightarrow> bytes option \<Rightarrow> xrdw_error + bytes" where
  "xrdw_sync_req_pack r body = xrdw_pack_fields r body xrdw_sync_fields"

definition xrdw_sync_req_unpack :: "bytes option \<Rightarrow> xrdw_sync_req_t option \<Rightarrow> xrdw_error + xrdw_sync_req_t" where
  "xrdw_sync_req_unpack body r = xrdw_unpack_fields body r xrdw_sync_fields"

lemmas xrdw_sync_defs = xrdw_sync_fields_def xrdw_sync_req_wf_def

interpretation sync_msg: xrdw_message xrdw_sync_fields xrdw_sync_req_wf
  by unfold_locales (auto simp: xrdw_sync_defs codec_simps)

lemmas xrdw_sync_codec_ok = sync_msg.codec_ok [folded xrdw_sync_req_pack_def xrdw_sync_req_unpack_def]

record xrdw_read_req_t =
  read_fhandle :: bytes
  read_offset :: u64
  read_rlen :: u32

definition xrdw_read_req_wf :: "xrdw_read_req_t \<Rightarrow> bool" where
  "xrdw_read_req_wf r = (length (read_fhandle r) = 4)"

definition xrdw_read_fields :: "xrdw_read_req_t xrdw_field_t list" where
  "xrdw_read_fields = [
     xrdw_row 0 (XRDW_F_BYTES 4 read_fhandle (\<lambda>v. read_fhandle_update (\<lambda>_. v))),
     xrdw_row 4 (XRDW_F_U64 read_offset (\<lambda>v. read_offset_update (\<lambda>_. v))),
     xrdw_row 12 (XRDW_F_U32 read_rlen (\<lambda>v. read_rlen_update (\<lambda>_. v)))]"

definition xrdw_read_req_pack :: "xrdw_read_req_t option \<Rightarrow> bytes option \<Rightarrow> xrdw_error + bytes" where
  "xrdw_read_req_pack r body = xrdw_pack_fields r body xrdw_read_fields"

definition xrdw_read_req_unpack :: "bytes option \<Rightarrow> xrdw_read_req_t option \<Rightarrow> xrdw_error + xrdw_read_req_t" where
  "xrdw_read_req_unpack body r = xrdw_unpack_fields body r xrdw_read_fields"

lemmas xrdw_read_defs = xrdw_read_fields_def xrdw_read_req_wf_def

interpretation read_msg: xrdw_message xrdw_read_fields xrdw_read_req_wf
  by unfold_locales (auto simp: xrdw_read_defs codec_simps)

lemmas xrdw_read_codec_ok = read_msg.codec_ok [folded xrdw_read_req_pack_def xrdw_read_req_unpack_def]

record xrdw_pgread_req_t =
  pgread_fhandle :: bytes
  pgread_offset :: u64
  pgread_rlen :: u32

definition xrdw_pgread_req_wf :: "xrdw_pgread_req_t \<Rightarrow> bool" where
  "xrdw_pgread_req_wf r = (length (pgread_fhandle r) = 4)"

definition xrdw_pgread_fields :: "xrdw_pgread_req_t xrdw_field_t list" where
  "xrdw_pgread_fields = [
     xrdw_row 0 (XRDW_F_BYTES 4 pgread_fhandle (\<lambda>v. pgread_fhandle_update (\<lambda>_. v))),
     xrdw_row 4 (XRDW_F_U64 pgread_offset (\<lambda>v. pgread_offset_update (\<lambda>_. v))),
     xrdw_row 12 (XRDW_F_U32 pgread_rlen (\<lambda>v. pgread_rlen_update (\<lambda>_. v)))]"

definition xrdw_pgread_req_pack :: "xrdw_pgread_req_t option \<Rightarrow> bytes option \<Rightarrow> xrdw_error + bytes" where
  "xrdw_pgread_req_pack r body = xrdw_pack_fields r body xrdw_pgread_fields"

definition xrdw_pgread_req_unpack :: "bytes option \<Rightarrow> xrdw_pgread_req_t option \<Rightarrow> xrdw_error + xrdw_pgread_req_t" where
  "xrdw_pgread_req_unpack body r = xrdw_unpack_fields body r xrdw_pgread_fields"

lemmas xrdw_pgread_defs = xrdw_pgread_fields_def xrdw_pgread_req_wf_def

interpretation pgread_msg: xrdw_message xrdw_pgread_fields xrdw_pgread_req_wf
  by unfold_locales (auto simp: xrdw_pgread_defs codec_simps)

lemmas xrdw_pgread_codec_ok = pgread_msg.codec_ok [folded xrdw_pgread_req_pack_def xrdw_pgread_req_unpack_def]

record xrdw_write_req_t =
  write_fhandle :: bytes
  write_offset :: u64
  write_pathid :: byte

definition xrdw_write_req_wf :: "xrdw_write_req_t \<Rightarrow> bool" where
  "xrdw_write_req_wf r = (length (write_fhandle r) = 4)"

definition xrdw_write_fields :: "xrdw_write_req_t xrdw_field_t list" where
  "xrdw_write_fields = [
     xrdw_row 0 (XRDW_F_BYTES 4 write_fhandle (\<lambda>v. write_fhandle_update (\<lambda>_. v))),
     xrdw_row 4 (XRDW_F_U64 write_offset (\<lambda>v. write_offset_update (\<lambda>_. v))),
     xrdw_row 12 (XRDW_F_U8 write_pathid (\<lambda>v. write_pathid_update (\<lambda>_. v)))]"

definition xrdw_write_req_pack :: "xrdw_write_req_t option \<Rightarrow> bytes option \<Rightarrow> xrdw_error + bytes" where
  "xrdw_write_req_pack r body = xrdw_pack_fields r body xrdw_write_fields"

definition xrdw_write_req_unpack :: "bytes option \<Rightarrow> xrdw_write_req_t option \<Rightarrow> xrdw_error + xrdw_write_req_t" where
  "xrdw_write_req_unpack body r = xrdw_unpack_fields body r xrdw_write_fields"

lemmas xrdw_write_defs = xrdw_write_fields_def xrdw_write_req_wf_def

interpretation write_msg: xrdw_message xrdw_write_fields xrdw_write_req_wf
  by unfold_locales (auto simp: xrdw_write_defs codec_simps)

lemmas xrdw_write_codec_ok = write_msg.codec_ok [folded xrdw_write_req_pack_def xrdw_write_req_unpack_def]

record xrdw_pgwrite_req_t =
  pgwrite_fhandle :: bytes
  pgwrite_offset :: u64
  pgwrite_pathid :: byte
  pgwrite_reqflags :: byte

definition xrdw_pgwrite_req_wf :: "xrdw_pgwrite_req_t \<Rightarrow> bool" where
  "xrdw_pgwrite_req_wf r = (length (pgwrite_fhandle r) = 4)"

definition xrdw_pgwrite_fields :: "xrdw_pgwrite_req_t xrdw_field_t list" where
  "xrdw_pgwrite_fields = [
     xrdw_row 0 (XRDW_F_BYTES 4 pgwrite_fhandle (\<lambda>v. pgwrite_fhandle_update (\<lambda>_. v))),
     xrdw_row 4 (XRDW_F_U64 pgwrite_offset (\<lambda>v. pgwrite_offset_update (\<lambda>_. v))),
     xrdw_row 12 (XRDW_F_U8 pgwrite_pathid (\<lambda>v. pgwrite_pathid_update (\<lambda>_. v))),
     xrdw_row 13 (XRDW_F_U8 pgwrite_reqflags (\<lambda>v. pgwrite_reqflags_update (\<lambda>_. v)))]"

definition xrdw_pgwrite_req_pack :: "xrdw_pgwrite_req_t option \<Rightarrow> bytes option \<Rightarrow> xrdw_error + bytes" where
  "xrdw_pgwrite_req_pack r body = xrdw_pack_fields r body xrdw_pgwrite_fields"

definition xrdw_pgwrite_req_unpack :: "bytes option \<Rightarrow> xrdw_pgwrite_req_t option \<Rightarrow> xrdw_error + xrdw_pgwrite_req_t" where
  "xrdw_pgwrite_req_unpack body r = xrdw_unpack_fields body r xrdw_pgwrite_fields"

lemmas xrdw_pgwrite_defs = xrdw_pgwrite_fields_def xrdw_pgwrite_req_wf_def

interpretation pgwrite_msg: xrdw_message xrdw_pgwrite_fields xrdw_pgwrite_req_wf
  by unfold_locales (auto simp: xrdw_pgwrite_defs codec_simps)

lemmas xrdw_pgwrite_codec_ok = pgwrite_msg.codec_ok [folded xrdw_pgwrite_req_pack_def xrdw_pgwrite_req_unpack_def]

record xrdw_truncate_req_t =
  truncate_fhandle :: bytes
  truncate_offset :: u64

definition xrdw_truncate_req_wf :: "xrdw_truncate_req_t \<Rightarrow> bool" where
  "xrdw_truncate_req_wf r = (length (truncate_fhandle r) = 4)"

definition xrdw_truncate_fields :: "xrdw_truncate_req_t xrdw_field_t list" where
  "xrdw_truncate_fields = [
     xrdw_row 0 (XRDW_F_BYTES 4 truncate_fhandle (\<lambda>v. truncate_fhandle_update (\<lambda>_. v))),
     xrdw_row 4 (XRDW_F_U64 truncate_offset (\<lambda>v. truncate_offset_update (\<lambda>_. v)))]"

definition xrdw_truncate_req_pack :: "xrdw_truncate_req_t option \<Rightarrow> bytes option \<Rightarrow> xrdw_error + bytes" where
  "xrdw_truncate_req_pack r body = xrdw_pack_fields r body xrdw_truncate_fields"

definition xrdw_truncate_req_unpack :: "bytes option \<Rightarrow> xrdw_truncate_req_t option \<Rightarrow> xrdw_error + xrdw_truncate_req_t" where
  "xrdw_truncate_req_unpack body r = xrdw_unpack_fields body r xrdw_truncate_fields"

lemmas xrdw_truncate_defs = xrdw_truncate_fields_def xrdw_truncate_req_wf_def

interpretation truncate_msg: xrdw_message xrdw_truncate_fields xrdw_truncate_req_wf
  by unfold_locales (auto simp: xrdw_truncate_defs codec_simps)

lemmas xrdw_truncate_codec_ok = truncate_msg.codec_ok [folded xrdw_truncate_req_pack_def xrdw_truncate_req_unpack_def]

record xrdw_writev_req_t =
  writev_options :: byte

definition xrdw_writev_req_wf :: "xrdw_writev_req_t \<Rightarrow> bool" where
  "xrdw_writev_req_wf r = (True)"

definition xrdw_writev_fields :: "xrdw_writev_req_t xrdw_field_t list" where
  "xrdw_writev_fields = [
     xrdw_row 0 (XRDW_F_U8 writev_options (\<lambda>v. writev_options_update (\<lambda>_. v)))]"

definition xrdw_writev_req_pack :: "xrdw_writev_req_t option \<Rightarrow> bytes option \<Rightarrow> xrdw_error + bytes" where
  "xrdw_writev_req_pack r body = xrdw_pack_fields r body xrdw_writev_fields"

definition xrdw_writev_req_unpack :: "bytes option \<Rightarrow> xrdw_writev_req_t option \<Rightarrow> xrdw_error + xrdw_writev_req_t" where
  "xrdw_writev_req_unpack body r = xrdw_unpack_fields body r xrdw_writev_fields"

lemmas xrdw_writev_defs = xrdw_writev_fields_def xrdw_writev_req_wf_def

interpretation writev_msg: xrdw_message xrdw_writev_fields xrdw_writev_req_wf
  by unfold_locales (auto simp: xrdw_writev_defs codec_simps)

lemmas xrdw_writev_codec_ok = writev_msg.codec_ok [folded xrdw_writev_req_pack_def xrdw_writev_req_unpack_def]

record xrdw_clone_req_t =
  clone_dst_fhandle :: bytes

definition xrdw_clone_req_wf :: "xrdw_clone_req_t \<Rightarrow> bool" where
  "xrdw_clone_req_wf r = (length (clone_dst_fhandle r) = 4)"

definition xrdw_clone_fields :: "xrdw_clone_req_t xrdw_field_t list" where
  "xrdw_clone_fields = [
     xrdw_row 0 (XRDW_F_BYTES 4 clone_dst_fhandle (\<lambda>v. clone_dst_fhandle_update (\<lambda>_. v)))]"

definition xrdw_clone_req_pack :: "xrdw_clone_req_t option \<Rightarrow> bytes option \<Rightarrow> xrdw_error + bytes" where
  "xrdw_clone_req_pack r body = xrdw_pack_fields r body xrdw_clone_fields"

definition xrdw_clone_req_unpack :: "bytes option \<Rightarrow> xrdw_clone_req_t option \<Rightarrow> xrdw_error + xrdw_clone_req_t" where
  "xrdw_clone_req_unpack body r = xrdw_unpack_fields body r xrdw_clone_fields"

lemmas xrdw_clone_defs = xrdw_clone_fields_def xrdw_clone_req_wf_def

interpretation clone_msg: xrdw_message xrdw_clone_fields xrdw_clone_req_wf
  by unfold_locales (auto simp: xrdw_clone_defs codec_simps)

lemmas xrdw_clone_codec_ok = clone_msg.codec_ok [folded xrdw_clone_req_pack_def xrdw_clone_req_unpack_def]

record xrdw_chkpoint_req_t =
  chkpoint_fhandle :: bytes
  chkpoint_opcode :: byte

definition xrdw_chkpoint_req_wf :: "xrdw_chkpoint_req_t \<Rightarrow> bool" where
  "xrdw_chkpoint_req_wf r = (length (chkpoint_fhandle r) = 4)"

definition xrdw_chkpoint_fields :: "xrdw_chkpoint_req_t xrdw_field_t list" where
  "xrdw_chkpoint_fields = [
     xrdw_row 0 (XRDW_F_BYTES 4 chkpoint_fhandle (\<lambda>v. chkpoint_fhandle_update (\<lambda>_. v))),
     xrdw_row 15 (XRDW_F_U8 chkpoint_opcode (\<lambda>v. chkpoint_opcode_update (\<lambda>_. v)))]"

definition xrdw_chkpoint_req_pack :: "xrdw_chkpoint_req_t option \<Rightarrow> bytes option \<Rightarrow> xrdw_error + bytes" where
  "xrdw_chkpoint_req_pack r body = xrdw_pack_fields r body xrdw_chkpoint_fields"

definition xrdw_chkpoint_req_unpack :: "bytes option \<Rightarrow> xrdw_chkpoint_req_t option \<Rightarrow> xrdw_error + xrdw_chkpoint_req_t" where
  "xrdw_chkpoint_req_unpack body r = xrdw_unpack_fields body r xrdw_chkpoint_fields"

lemmas xrdw_chkpoint_defs = xrdw_chkpoint_fields_def xrdw_chkpoint_req_wf_def

interpretation chkpoint_msg: xrdw_message xrdw_chkpoint_fields xrdw_chkpoint_req_wf
  by unfold_locales (auto simp: xrdw_chkpoint_defs codec_simps)

lemmas xrdw_chkpoint_codec_ok = chkpoint_msg.codec_ok [folded xrdw_chkpoint_req_pack_def xrdw_chkpoint_req_unpack_def]

section \<open>Metadata family (\<^verbatim>\<open>wire_codec_meta.c\<close>)\<close>

record xrdw_stat_req_t =
  stat_options :: byte
  stat_wants :: u32
  stat_fhandle :: bytes

definition xrdw_stat_req_wf :: "xrdw_stat_req_t \<Rightarrow> bool" where
  "xrdw_stat_req_wf r = (length (stat_fhandle r) = 4)"

definition xrdw_stat_fields :: "xrdw_stat_req_t xrdw_field_t list" where
  "xrdw_stat_fields = [
     xrdw_row 0 (XRDW_F_U8 stat_options (\<lambda>v. stat_options_update (\<lambda>_. v))),
     xrdw_row 8 (XRDW_F_U32 stat_wants (\<lambda>v. stat_wants_update (\<lambda>_. v))),
     xrdw_row 12 (XRDW_F_BYTES 4 stat_fhandle (\<lambda>v. stat_fhandle_update (\<lambda>_. v)))]"

definition xrdw_stat_req_pack :: "xrdw_stat_req_t option \<Rightarrow> bytes option \<Rightarrow> xrdw_error + bytes" where
  "xrdw_stat_req_pack r body = xrdw_pack_fields r body xrdw_stat_fields"

definition xrdw_stat_req_unpack :: "bytes option \<Rightarrow> xrdw_stat_req_t option \<Rightarrow> xrdw_error + xrdw_stat_req_t" where
  "xrdw_stat_req_unpack body r = xrdw_unpack_fields body r xrdw_stat_fields"

lemmas xrdw_stat_defs = xrdw_stat_fields_def xrdw_stat_req_wf_def

interpretation stat_msg: xrdw_message xrdw_stat_fields xrdw_stat_req_wf
  by unfold_locales (auto simp: xrdw_stat_defs codec_simps)

lemmas xrdw_stat_codec_ok = stat_msg.codec_ok [folded xrdw_stat_req_pack_def xrdw_stat_req_unpack_def]

record xrdw_statx_req_t =
  statx_options :: byte
  statx_fhandle :: bytes

definition xrdw_statx_req_wf :: "xrdw_statx_req_t \<Rightarrow> bool" where
  "xrdw_statx_req_wf r = (length (statx_fhandle r) = 4)"

definition xrdw_statx_fields :: "xrdw_statx_req_t xrdw_field_t list" where
  "xrdw_statx_fields = [
     xrdw_row 0 (XRDW_F_U8 statx_options (\<lambda>v. statx_options_update (\<lambda>_. v))),
     xrdw_row 12 (XRDW_F_BYTES 4 statx_fhandle (\<lambda>v. statx_fhandle_update (\<lambda>_. v)))]"

definition xrdw_statx_req_pack :: "xrdw_statx_req_t option \<Rightarrow> bytes option \<Rightarrow> xrdw_error + bytes" where
  "xrdw_statx_req_pack r body = xrdw_pack_fields r body xrdw_statx_fields"

definition xrdw_statx_req_unpack :: "bytes option \<Rightarrow> xrdw_statx_req_t option \<Rightarrow> xrdw_error + xrdw_statx_req_t" where
  "xrdw_statx_req_unpack body r = xrdw_unpack_fields body r xrdw_statx_fields"

lemmas xrdw_statx_defs = xrdw_statx_fields_def xrdw_statx_req_wf_def

interpretation statx_msg: xrdw_message xrdw_statx_fields xrdw_statx_req_wf
  by unfold_locales (auto simp: xrdw_statx_defs codec_simps)

lemmas xrdw_statx_codec_ok = statx_msg.codec_ok [folded xrdw_statx_req_pack_def xrdw_statx_req_unpack_def]

record xrdw_dirlist_req_t =
  dirlist_options :: byte

definition xrdw_dirlist_req_wf :: "xrdw_dirlist_req_t \<Rightarrow> bool" where
  "xrdw_dirlist_req_wf r = (True)"

definition xrdw_dirlist_fields :: "xrdw_dirlist_req_t xrdw_field_t list" where
  "xrdw_dirlist_fields = [
     xrdw_row 15 (XRDW_F_U8 dirlist_options (\<lambda>v. dirlist_options_update (\<lambda>_. v)))]"

definition xrdw_dirlist_req_pack :: "xrdw_dirlist_req_t option \<Rightarrow> bytes option \<Rightarrow> xrdw_error + bytes" where
  "xrdw_dirlist_req_pack r body = xrdw_pack_fields r body xrdw_dirlist_fields"

definition xrdw_dirlist_req_unpack :: "bytes option \<Rightarrow> xrdw_dirlist_req_t option \<Rightarrow> xrdw_error + xrdw_dirlist_req_t" where
  "xrdw_dirlist_req_unpack body r = xrdw_unpack_fields body r xrdw_dirlist_fields"

lemmas xrdw_dirlist_defs = xrdw_dirlist_fields_def xrdw_dirlist_req_wf_def

interpretation dirlist_msg: xrdw_message xrdw_dirlist_fields xrdw_dirlist_req_wf
  by unfold_locales (auto simp: xrdw_dirlist_defs codec_simps)

lemmas xrdw_dirlist_codec_ok = dirlist_msg.codec_ok [folded xrdw_dirlist_req_pack_def xrdw_dirlist_req_unpack_def]

record xrdw_query_req_t =
  query_infotype :: u16
  query_fhandle :: bytes

definition xrdw_query_req_wf :: "xrdw_query_req_t \<Rightarrow> bool" where
  "xrdw_query_req_wf r = (length (query_fhandle r) = 4)"

definition xrdw_query_fields :: "xrdw_query_req_t xrdw_field_t list" where
  "xrdw_query_fields = [
     xrdw_row 0 (XRDW_F_U16 query_infotype (\<lambda>v. query_infotype_update (\<lambda>_. v))),
     xrdw_row 4 (XRDW_F_BYTES 4 query_fhandle (\<lambda>v. query_fhandle_update (\<lambda>_. v)))]"

definition xrdw_query_req_pack :: "xrdw_query_req_t option \<Rightarrow> bytes option \<Rightarrow> xrdw_error + bytes" where
  "xrdw_query_req_pack r body = xrdw_pack_fields r body xrdw_query_fields"

definition xrdw_query_req_unpack :: "bytes option \<Rightarrow> xrdw_query_req_t option \<Rightarrow> xrdw_error + xrdw_query_req_t" where
  "xrdw_query_req_unpack body r = xrdw_unpack_fields body r xrdw_query_fields"

lemmas xrdw_query_defs = xrdw_query_fields_def xrdw_query_req_wf_def

interpretation query_msg: xrdw_message xrdw_query_fields xrdw_query_req_wf
  by unfold_locales (auto simp: xrdw_query_defs codec_simps)

lemmas xrdw_query_codec_ok = query_msg.codec_ok [folded xrdw_query_req_pack_def xrdw_query_req_unpack_def]

record xrdw_locate_req_t =
  locate_options :: u16

definition xrdw_locate_req_wf :: "xrdw_locate_req_t \<Rightarrow> bool" where
  "xrdw_locate_req_wf r = (True)"

definition xrdw_locate_fields :: "xrdw_locate_req_t xrdw_field_t list" where
  "xrdw_locate_fields = [
     xrdw_row 0 (XRDW_F_U16 locate_options (\<lambda>v. locate_options_update (\<lambda>_. v)))]"

definition xrdw_locate_req_pack :: "xrdw_locate_req_t option \<Rightarrow> bytes option \<Rightarrow> xrdw_error + bytes" where
  "xrdw_locate_req_pack r body = xrdw_pack_fields r body xrdw_locate_fields"

definition xrdw_locate_req_unpack :: "bytes option \<Rightarrow> xrdw_locate_req_t option \<Rightarrow> xrdw_error + xrdw_locate_req_t" where
  "xrdw_locate_req_unpack body r = xrdw_unpack_fields body r xrdw_locate_fields"

lemmas xrdw_locate_defs = xrdw_locate_fields_def xrdw_locate_req_wf_def

interpretation locate_msg: xrdw_message xrdw_locate_fields xrdw_locate_req_wf
  by unfold_locales (auto simp: xrdw_locate_defs codec_simps)

lemmas xrdw_locate_codec_ok = locate_msg.codec_ok [folded xrdw_locate_req_pack_def xrdw_locate_req_unpack_def]

record xrdw_fattr_req_t =
  fattr_fhandle :: bytes
  fattr_subcode :: byte
  fattr_numattr :: byte
  fattr_options :: byte

definition xrdw_fattr_req_wf :: "xrdw_fattr_req_t \<Rightarrow> bool" where
  "xrdw_fattr_req_wf r = (length (fattr_fhandle r) = 4)"

definition xrdw_fattr_fields :: "xrdw_fattr_req_t xrdw_field_t list" where
  "xrdw_fattr_fields = [
     xrdw_row 0 (XRDW_F_BYTES 4 fattr_fhandle (\<lambda>v. fattr_fhandle_update (\<lambda>_. v))),
     xrdw_row 4 (XRDW_F_U8 fattr_subcode (\<lambda>v. fattr_subcode_update (\<lambda>_. v))),
     xrdw_row 5 (XRDW_F_U8 fattr_numattr (\<lambda>v. fattr_numattr_update (\<lambda>_. v))),
     xrdw_row 6 (XRDW_F_U8 fattr_options (\<lambda>v. fattr_options_update (\<lambda>_. v)))]"

definition xrdw_fattr_req_pack :: "xrdw_fattr_req_t option \<Rightarrow> bytes option \<Rightarrow> xrdw_error + bytes" where
  "xrdw_fattr_req_pack r body = xrdw_pack_fields r body xrdw_fattr_fields"

definition xrdw_fattr_req_unpack :: "bytes option \<Rightarrow> xrdw_fattr_req_t option \<Rightarrow> xrdw_error + xrdw_fattr_req_t" where
  "xrdw_fattr_req_unpack body r = xrdw_unpack_fields body r xrdw_fattr_fields"

lemmas xrdw_fattr_defs = xrdw_fattr_fields_def xrdw_fattr_req_wf_def

interpretation fattr_msg: xrdw_message xrdw_fattr_fields xrdw_fattr_req_wf
  by unfold_locales (auto simp: xrdw_fattr_defs codec_simps)

lemmas xrdw_fattr_codec_ok = fattr_msg.codec_ok [folded xrdw_fattr_req_pack_def xrdw_fattr_req_unpack_def]

section \<open>Namespace family (\<^verbatim>\<open>wire_codec_ns.c\<close>)\<close>

record xrdw_mkdir_req_t =
  mkdir_options :: byte
  mkdir_mode :: u16

definition xrdw_mkdir_req_wf :: "xrdw_mkdir_req_t \<Rightarrow> bool" where
  "xrdw_mkdir_req_wf r = (True)"

definition xrdw_mkdir_fields :: "xrdw_mkdir_req_t xrdw_field_t list" where
  "xrdw_mkdir_fields = [
     xrdw_row 0 (XRDW_F_U8 mkdir_options (\<lambda>v. mkdir_options_update (\<lambda>_. v))),
     xrdw_row 14 (XRDW_F_U16 mkdir_mode (\<lambda>v. mkdir_mode_update (\<lambda>_. v)))]"

definition xrdw_mkdir_req_pack :: "xrdw_mkdir_req_t option \<Rightarrow> bytes option \<Rightarrow> xrdw_error + bytes" where
  "xrdw_mkdir_req_pack r body = xrdw_pack_fields r body xrdw_mkdir_fields"

definition xrdw_mkdir_req_unpack :: "bytes option \<Rightarrow> xrdw_mkdir_req_t option \<Rightarrow> xrdw_error + xrdw_mkdir_req_t" where
  "xrdw_mkdir_req_unpack body r = xrdw_unpack_fields body r xrdw_mkdir_fields"

lemmas xrdw_mkdir_defs = xrdw_mkdir_fields_def xrdw_mkdir_req_wf_def

interpretation mkdir_msg: xrdw_message xrdw_mkdir_fields xrdw_mkdir_req_wf
  by unfold_locales (auto simp: xrdw_mkdir_defs codec_simps)

lemmas xrdw_mkdir_codec_ok = mkdir_msg.codec_ok [folded xrdw_mkdir_req_pack_def xrdw_mkdir_req_unpack_def]

record xrdw_chmod_req_t =
  chmod_mode :: u16

definition xrdw_chmod_req_wf :: "xrdw_chmod_req_t \<Rightarrow> bool" where
  "xrdw_chmod_req_wf r = (True)"

definition xrdw_chmod_fields :: "xrdw_chmod_req_t xrdw_field_t list" where
  "xrdw_chmod_fields = [
     xrdw_row 14 (XRDW_F_U16 chmod_mode (\<lambda>v. chmod_mode_update (\<lambda>_. v)))]"

definition xrdw_chmod_req_pack :: "xrdw_chmod_req_t option \<Rightarrow> bytes option \<Rightarrow> xrdw_error + bytes" where
  "xrdw_chmod_req_pack r body = xrdw_pack_fields r body xrdw_chmod_fields"

definition xrdw_chmod_req_unpack :: "bytes option \<Rightarrow> xrdw_chmod_req_t option \<Rightarrow> xrdw_error + xrdw_chmod_req_t" where
  "xrdw_chmod_req_unpack body r = xrdw_unpack_fields body r xrdw_chmod_fields"

lemmas xrdw_chmod_defs = xrdw_chmod_fields_def xrdw_chmod_req_wf_def

interpretation chmod_msg: xrdw_message xrdw_chmod_fields xrdw_chmod_req_wf
  by unfold_locales (auto simp: xrdw_chmod_defs codec_simps)

lemmas xrdw_chmod_codec_ok = chmod_msg.codec_ok [folded xrdw_chmod_req_pack_def xrdw_chmod_req_unpack_def]

record xrdw_set_req_t =
  set_modifier :: byte

definition xrdw_set_req_wf :: "xrdw_set_req_t \<Rightarrow> bool" where
  "xrdw_set_req_wf r = (True)"

definition xrdw_set_fields :: "xrdw_set_req_t xrdw_field_t list" where
  "xrdw_set_fields = [
     xrdw_row 0 (XRDW_F_U8 set_modifier (\<lambda>v. set_modifier_update (\<lambda>_. v)))]"

definition xrdw_set_req_pack :: "xrdw_set_req_t option \<Rightarrow> bytes option \<Rightarrow> xrdw_error + bytes" where
  "xrdw_set_req_pack r body = xrdw_pack_fields r body xrdw_set_fields"

definition xrdw_set_req_unpack :: "bytes option \<Rightarrow> xrdw_set_req_t option \<Rightarrow> xrdw_error + xrdw_set_req_t" where
  "xrdw_set_req_unpack body r = xrdw_unpack_fields body r xrdw_set_fields"

lemmas xrdw_set_defs = xrdw_set_fields_def xrdw_set_req_wf_def

interpretation set_msg: xrdw_message xrdw_set_fields xrdw_set_req_wf
  by unfold_locales (auto simp: xrdw_set_defs codec_simps)

lemmas xrdw_set_codec_ok = set_msg.codec_ok [folded xrdw_set_req_pack_def xrdw_set_req_unpack_def]

record xrdw_twopath_req_t =
  twopath_arg1len :: u16

definition xrdw_twopath_req_wf :: "xrdw_twopath_req_t \<Rightarrow> bool" where
  "xrdw_twopath_req_wf r = (True)"

definition xrdw_twopath_fields :: "xrdw_twopath_req_t xrdw_field_t list" where
  "xrdw_twopath_fields = [
     xrdw_row 14 (XRDW_F_U16 twopath_arg1len (\<lambda>v. twopath_arg1len_update (\<lambda>_. v)))]"

definition xrdw_twopath_req_pack :: "xrdw_twopath_req_t option \<Rightarrow> bytes option \<Rightarrow> xrdw_error + bytes" where
  "xrdw_twopath_req_pack r body = xrdw_pack_fields r body xrdw_twopath_fields"

definition xrdw_twopath_req_unpack :: "bytes option \<Rightarrow> xrdw_twopath_req_t option \<Rightarrow> xrdw_error + xrdw_twopath_req_t" where
  "xrdw_twopath_req_unpack body r = xrdw_unpack_fields body r xrdw_twopath_fields"

lemmas xrdw_twopath_defs = xrdw_twopath_fields_def xrdw_twopath_req_wf_def

interpretation twopath_msg: xrdw_message xrdw_twopath_fields xrdw_twopath_req_wf
  by unfold_locales (auto simp: xrdw_twopath_defs codec_simps)

lemmas xrdw_twopath_codec_ok = twopath_msg.codec_ok [folded xrdw_twopath_req_pack_def xrdw_twopath_req_unpack_def]

text \<open>The all-reserved body shared by rm, rmdir, readlink, setattr and ping.\<close>

definition xrdw_empty_req_pack :: "bytes option \<Rightarrow> xrdw_error + bytes" where
  "xrdw_empty_req_pack body = (case body of None \<Rightarrow> Inl XRDW_EINVAL | Some _ \<Rightarrow> Inr (replicate XRDW_BODY_LEN 0))"

definition xrdw_empty_req_unpack :: "bytes option \<Rightarrow> xrdw_error + unit" where
  "xrdw_empty_req_unpack body = (case body of None \<Rightarrow> Inl XRDW_EINVAL | Some _ \<Rightarrow> Inr ())"

section \<open>Session family (\<^verbatim>\<open>wire_codec_session.c\<close>)\<close>

record xrdw_login_req_t =
  login_pid :: u32
  login_username :: bytes
  login_ability2 :: byte
  login_ability :: byte
  login_capver :: byte

definition xrdw_login_req_wf :: "xrdw_login_req_t \<Rightarrow> bool" where
  "xrdw_login_req_wf r = (length (login_username r) = 8)"

definition xrdw_login_fields :: "xrdw_login_req_t xrdw_field_t list" where
  "xrdw_login_fields = [
     xrdw_row 0 (XRDW_F_U32 login_pid (\<lambda>v. login_pid_update (\<lambda>_. v))),
     xrdw_row 4 (XRDW_F_BYTES 8 login_username (\<lambda>v. login_username_update (\<lambda>_. v))),
     xrdw_row 12 (XRDW_F_U8 login_ability2 (\<lambda>v. login_ability2_update (\<lambda>_. v))),
     xrdw_row 13 (XRDW_F_U8 login_ability (\<lambda>v. login_ability_update (\<lambda>_. v))),
     xrdw_row 14 (XRDW_F_U8 login_capver (\<lambda>v. login_capver_update (\<lambda>_. v)))]"

definition xrdw_login_req_pack :: "xrdw_login_req_t option \<Rightarrow> bytes option \<Rightarrow> xrdw_error + bytes" where
  "xrdw_login_req_pack r body = xrdw_pack_fields r body xrdw_login_fields"

definition xrdw_login_req_unpack :: "bytes option \<Rightarrow> xrdw_login_req_t option \<Rightarrow> xrdw_error + xrdw_login_req_t" where
  "xrdw_login_req_unpack body r = xrdw_unpack_fields body r xrdw_login_fields"

lemmas xrdw_login_defs = xrdw_login_fields_def xrdw_login_req_wf_def

interpretation login_msg: xrdw_message xrdw_login_fields xrdw_login_req_wf
  by unfold_locales (auto simp: xrdw_login_defs codec_simps)

lemmas xrdw_login_codec_ok = login_msg.codec_ok [folded xrdw_login_req_pack_def xrdw_login_req_unpack_def]

record xrdw_auth_req_t =
  auth_credtype :: bytes

definition xrdw_auth_req_wf :: "xrdw_auth_req_t \<Rightarrow> bool" where
  "xrdw_auth_req_wf r = (length (auth_credtype r) = 4)"

definition xrdw_auth_fields :: "xrdw_auth_req_t xrdw_field_t list" where
  "xrdw_auth_fields = [
     xrdw_row 12 (XRDW_F_BYTES 4 auth_credtype (\<lambda>v. auth_credtype_update (\<lambda>_. v)))]"

definition xrdw_auth_req_pack :: "xrdw_auth_req_t option \<Rightarrow> bytes option \<Rightarrow> xrdw_error + bytes" where
  "xrdw_auth_req_pack r body = xrdw_pack_fields r body xrdw_auth_fields"

definition xrdw_auth_req_unpack :: "bytes option \<Rightarrow> xrdw_auth_req_t option \<Rightarrow> xrdw_error + xrdw_auth_req_t" where
  "xrdw_auth_req_unpack body r = xrdw_unpack_fields body r xrdw_auth_fields"

lemmas xrdw_auth_defs = xrdw_auth_fields_def xrdw_auth_req_wf_def

interpretation auth_msg: xrdw_message xrdw_auth_fields xrdw_auth_req_wf
  by unfold_locales (auto simp: xrdw_auth_defs codec_simps)

lemmas xrdw_auth_codec_ok = auth_msg.codec_ok [folded xrdw_auth_req_pack_def xrdw_auth_req_unpack_def]

record xrdw_protocol_req_t =
  protocol_clientpv :: u32
  protocol_flags :: byte
  protocol_expect :: byte

definition xrdw_protocol_req_wf :: "xrdw_protocol_req_t \<Rightarrow> bool" where
  "xrdw_protocol_req_wf r = (True)"

definition xrdw_protocol_fields :: "xrdw_protocol_req_t xrdw_field_t list" where
  "xrdw_protocol_fields = [
     xrdw_row 0 (XRDW_F_U32 protocol_clientpv (\<lambda>v. protocol_clientpv_update (\<lambda>_. v))),
     xrdw_row 4 (XRDW_F_U8 protocol_flags (\<lambda>v. protocol_flags_update (\<lambda>_. v))),
     xrdw_row 5 (XRDW_F_U8 protocol_expect (\<lambda>v. protocol_expect_update (\<lambda>_. v)))]"

definition xrdw_protocol_req_pack :: "xrdw_protocol_req_t option \<Rightarrow> bytes option \<Rightarrow> xrdw_error + bytes" where
  "xrdw_protocol_req_pack r body = xrdw_pack_fields r body xrdw_protocol_fields"

definition xrdw_protocol_req_unpack :: "bytes option \<Rightarrow> xrdw_protocol_req_t option \<Rightarrow> xrdw_error + xrdw_protocol_req_t" where
  "xrdw_protocol_req_unpack body r = xrdw_unpack_fields body r xrdw_protocol_fields"

lemmas xrdw_protocol_defs = xrdw_protocol_fields_def xrdw_protocol_req_wf_def

interpretation protocol_msg: xrdw_message xrdw_protocol_fields xrdw_protocol_req_wf
  by unfold_locales (auto simp: xrdw_protocol_defs codec_simps)

lemmas xrdw_protocol_codec_ok = protocol_msg.codec_ok [folded xrdw_protocol_req_pack_def xrdw_protocol_req_unpack_def]

record xrdw_sessid_req_t =
  sessid_sessid :: bytes

definition xrdw_sessid_req_wf :: "xrdw_sessid_req_t \<Rightarrow> bool" where
  "xrdw_sessid_req_wf r = (length (sessid_sessid r) = 16)"

definition xrdw_sessid_fields :: "xrdw_sessid_req_t xrdw_field_t list" where
  "xrdw_sessid_fields = [
     xrdw_row 0 (XRDW_F_BYTES 16 sessid_sessid (\<lambda>v. sessid_sessid_update (\<lambda>_. v)))]"

definition xrdw_sessid_req_pack :: "xrdw_sessid_req_t option \<Rightarrow> bytes option \<Rightarrow> xrdw_error + bytes" where
  "xrdw_sessid_req_pack r body = xrdw_pack_fields r body xrdw_sessid_fields"

definition xrdw_sessid_req_unpack :: "bytes option \<Rightarrow> xrdw_sessid_req_t option \<Rightarrow> xrdw_error + xrdw_sessid_req_t" where
  "xrdw_sessid_req_unpack body r = xrdw_unpack_fields body r xrdw_sessid_fields"

lemmas xrdw_sessid_defs = xrdw_sessid_fields_def xrdw_sessid_req_wf_def

interpretation sessid_msg: xrdw_message xrdw_sessid_fields xrdw_sessid_req_wf
  by unfold_locales (auto simp: xrdw_sessid_defs codec_simps)

lemmas xrdw_sessid_codec_ok = sessid_msg.codec_ok [folded xrdw_sessid_req_pack_def xrdw_sessid_req_unpack_def]

record xrdw_sigver_req_t =
  sigver_expectrid :: u16
  sigver_version :: byte
  sigver_flags :: byte
  sigver_seqno :: u64
  sigver_crypto :: byte

definition xrdw_sigver_req_wf :: "xrdw_sigver_req_t \<Rightarrow> bool" where
  "xrdw_sigver_req_wf r = (True)"

definition xrdw_sigver_fields :: "xrdw_sigver_req_t xrdw_field_t list" where
  "xrdw_sigver_fields = [
     xrdw_row 0 (XRDW_F_U16 sigver_expectrid (\<lambda>v. sigver_expectrid_update (\<lambda>_. v))),
     xrdw_row 2 (XRDW_F_U8 sigver_version (\<lambda>v. sigver_version_update (\<lambda>_. v))),
     xrdw_row 3 (XRDW_F_U8 sigver_flags (\<lambda>v. sigver_flags_update (\<lambda>_. v))),
     xrdw_row 4 (XRDW_F_U64 sigver_seqno (\<lambda>v. sigver_seqno_update (\<lambda>_. v))),
     xrdw_row 12 (XRDW_F_U8 sigver_crypto (\<lambda>v. sigver_crypto_update (\<lambda>_. v)))]"

definition xrdw_sigver_req_pack :: "xrdw_sigver_req_t option \<Rightarrow> bytes option \<Rightarrow> xrdw_error + bytes" where
  "xrdw_sigver_req_pack r body = xrdw_pack_fields r body xrdw_sigver_fields"

definition xrdw_sigver_req_unpack :: "bytes option \<Rightarrow> xrdw_sigver_req_t option \<Rightarrow> xrdw_error + xrdw_sigver_req_t" where
  "xrdw_sigver_req_unpack body r = xrdw_unpack_fields body r xrdw_sigver_fields"

lemmas xrdw_sigver_defs = xrdw_sigver_fields_def xrdw_sigver_req_wf_def

interpretation sigver_msg: xrdw_message xrdw_sigver_fields xrdw_sigver_req_wf
  by unfold_locales (auto simp: xrdw_sigver_defs codec_simps)

lemmas xrdw_sigver_codec_ok = sigver_msg.codec_ok [folded xrdw_sigver_req_pack_def xrdw_sigver_req_unpack_def]

record xrdw_prepare_req_t =
  prepare_options :: byte
  prepare_prty :: byte
  prepare_port :: u16
  prepare_optionX :: u16

definition xrdw_prepare_req_wf :: "xrdw_prepare_req_t \<Rightarrow> bool" where
  "xrdw_prepare_req_wf r = (True)"

definition xrdw_prepare_fields :: "xrdw_prepare_req_t xrdw_field_t list" where
  "xrdw_prepare_fields = [
     xrdw_row 0 (XRDW_F_U8 prepare_options (\<lambda>v. prepare_options_update (\<lambda>_. v))),
     xrdw_row 1 (XRDW_F_U8 prepare_prty (\<lambda>v. prepare_prty_update (\<lambda>_. v))),
     xrdw_row 2 (XRDW_F_U16 prepare_port (\<lambda>v. prepare_port_update (\<lambda>_. v))),
     xrdw_row 4 (XRDW_F_U16 prepare_optionX (\<lambda>v. prepare_optionX_update (\<lambda>_. v)))]"

definition xrdw_prepare_req_pack :: "xrdw_prepare_req_t option \<Rightarrow> bytes option \<Rightarrow> xrdw_error + bytes" where
  "xrdw_prepare_req_pack r body = xrdw_pack_fields r body xrdw_prepare_fields"

definition xrdw_prepare_req_unpack :: "bytes option \<Rightarrow> xrdw_prepare_req_t option \<Rightarrow> xrdw_error + xrdw_prepare_req_t" where
  "xrdw_prepare_req_unpack body r = xrdw_unpack_fields body r xrdw_prepare_fields"

lemmas xrdw_prepare_defs = xrdw_prepare_fields_def xrdw_prepare_req_wf_def

interpretation prepare_msg: xrdw_message xrdw_prepare_fields xrdw_prepare_req_wf
  by unfold_locales (auto simp: xrdw_prepare_defs codec_simps)

lemmas xrdw_prepare_codec_ok = prepare_msg.codec_ok [folded xrdw_prepare_req_pack_def xrdw_prepare_req_unpack_def]

section \<open>The codec is lossless\<close>

text \<open>
  For every body a server can receive and every struct a client can build, the file codecs
  (open, close, sync, read, pgread, write, pgwrite, truncate, writev, clone, chkpoint)
  accept it, unpacking a packed struct gives the struct back, and re-packing an unpacked
  body reproduces it with the reserved bytes cleared; a NULL argument is refused.
\<close>

theorem wire_file_codec:
  "xrdw_codec_ok xrdw_open_fields xrdw_open_req_wf xrdw_open_req_pack xrdw_open_req_unpack
   \<and> xrdw_codec_ok xrdw_close_fields xrdw_close_req_wf xrdw_close_req_pack xrdw_close_req_unpack
   \<and> xrdw_codec_ok xrdw_sync_fields xrdw_sync_req_wf xrdw_sync_req_pack xrdw_sync_req_unpack
   \<and> xrdw_codec_ok xrdw_read_fields xrdw_read_req_wf xrdw_read_req_pack xrdw_read_req_unpack
   \<and> xrdw_codec_ok xrdw_pgread_fields xrdw_pgread_req_wf xrdw_pgread_req_pack xrdw_pgread_req_unpack
   \<and> xrdw_codec_ok xrdw_write_fields xrdw_write_req_wf xrdw_write_req_pack xrdw_write_req_unpack
   \<and> xrdw_codec_ok xrdw_pgwrite_fields xrdw_pgwrite_req_wf xrdw_pgwrite_req_pack xrdw_pgwrite_req_unpack
   \<and> xrdw_codec_ok xrdw_truncate_fields xrdw_truncate_req_wf xrdw_truncate_req_pack xrdw_truncate_req_unpack
   \<and> xrdw_codec_ok xrdw_writev_fields xrdw_writev_req_wf xrdw_writev_req_pack xrdw_writev_req_unpack
   \<and> xrdw_codec_ok xrdw_clone_fields xrdw_clone_req_wf xrdw_clone_req_pack xrdw_clone_req_unpack
   \<and> xrdw_codec_ok xrdw_chkpoint_fields xrdw_chkpoint_req_wf xrdw_chkpoint_req_pack xrdw_chkpoint_req_unpack"
  by (intro conjI) (fact xrdw_open_codec_ok xrdw_close_codec_ok xrdw_sync_codec_ok xrdw_read_codec_ok xrdw_pgread_codec_ok xrdw_write_codec_ok xrdw_pgwrite_codec_ok xrdw_truncate_codec_ok xrdw_writev_codec_ok xrdw_clone_codec_ok xrdw_chkpoint_codec_ok)+

text \<open>
  For every body a server can receive and every struct a client can build, the session
  codecs (login, auth, protocol, sessid, sigver, prepare) accept it, unpacking a packed
  struct gives the struct back, and re-packing an unpacked body reproduces it with the
  reserved bytes cleared; a NULL argument is refused.
\<close>

theorem wire_session_codec:
  "xrdw_codec_ok xrdw_login_fields xrdw_login_req_wf xrdw_login_req_pack xrdw_login_req_unpack
   \<and> xrdw_codec_ok xrdw_auth_fields xrdw_auth_req_wf xrdw_auth_req_pack xrdw_auth_req_unpack
   \<and> xrdw_codec_ok xrdw_protocol_fields xrdw_protocol_req_wf xrdw_protocol_req_pack xrdw_protocol_req_unpack
   \<and> xrdw_codec_ok xrdw_sessid_fields xrdw_sessid_req_wf xrdw_sessid_req_pack xrdw_sessid_req_unpack
   \<and> xrdw_codec_ok xrdw_sigver_fields xrdw_sigver_req_wf xrdw_sigver_req_pack xrdw_sigver_req_unpack
   \<and> xrdw_codec_ok xrdw_prepare_fields xrdw_prepare_req_wf xrdw_prepare_req_pack xrdw_prepare_req_unpack"
  by (intro conjI) (fact xrdw_login_codec_ok xrdw_auth_codec_ok xrdw_protocol_codec_ok xrdw_sessid_codec_ok xrdw_sigver_codec_ok xrdw_prepare_codec_ok)+

text \<open>
  For every body a server can receive and every struct a client can build, the metadata and
  namespace codecs (stat, statx, dirlist, query, locate, fattr, mkdir, chmod, set, twopath)
  accept it, unpacking a packed struct gives the struct back, and re-packing an unpacked
  body reproduces it with the reserved bytes cleared; a NULL argument is refused.
\<close>

theorem wire_metadata_codec:
  "xrdw_codec_ok xrdw_stat_fields xrdw_stat_req_wf xrdw_stat_req_pack xrdw_stat_req_unpack
   \<and> xrdw_codec_ok xrdw_statx_fields xrdw_statx_req_wf xrdw_statx_req_pack xrdw_statx_req_unpack
   \<and> xrdw_codec_ok xrdw_dirlist_fields xrdw_dirlist_req_wf xrdw_dirlist_req_pack xrdw_dirlist_req_unpack
   \<and> xrdw_codec_ok xrdw_query_fields xrdw_query_req_wf xrdw_query_req_pack xrdw_query_req_unpack
   \<and> xrdw_codec_ok xrdw_locate_fields xrdw_locate_req_wf xrdw_locate_req_pack xrdw_locate_req_unpack
   \<and> xrdw_codec_ok xrdw_fattr_fields xrdw_fattr_req_wf xrdw_fattr_req_pack xrdw_fattr_req_unpack
   \<and> xrdw_codec_ok xrdw_mkdir_fields xrdw_mkdir_req_wf xrdw_mkdir_req_pack xrdw_mkdir_req_unpack
   \<and> xrdw_codec_ok xrdw_chmod_fields xrdw_chmod_req_wf xrdw_chmod_req_pack xrdw_chmod_req_unpack
   \<and> xrdw_codec_ok xrdw_set_fields xrdw_set_req_wf xrdw_set_req_pack xrdw_set_req_unpack
   \<and> xrdw_codec_ok xrdw_twopath_fields xrdw_twopath_req_wf xrdw_twopath_req_pack xrdw_twopath_req_unpack"
  by (intro conjI) (fact xrdw_stat_codec_ok xrdw_statx_codec_ok xrdw_dirlist_codec_ok xrdw_query_codec_ok xrdw_locate_codec_ok xrdw_fattr_codec_ok xrdw_mkdir_codec_ok xrdw_chmod_codec_ok xrdw_set_codec_ok xrdw_twopath_codec_ok)+

text \<open>
  The octets a client puts on the wire for the hot read request: the four handle bytes, the
  64-bit offset and the 32-bit length, both most significant byte first; and for login: process id,
  eight user-name bytes, the two ability bytes, the capability version and one zero byte.
\<close>

theorem wire_read_login_image:
  assumes "xrdw_read_req_wf r" "xrdw_login_req_wf q"
  shows "xrdw_read_req_pack (Some r) (Some b0)
       = Inr (read_fhandle r @ be_bytes 8 (read_offset r) @ be_bytes 4 (read_rlen r))
    \<and> xrdw_login_req_pack (Some q) (Some b0)
       = Inr (be_bytes 4 (login_pid q) @ login_username q
              @ [login_ability2 q, login_ability q, login_capver q, 0])"
proof
  obtain b where b: "xrdw_read_req_pack (Some r) (Some b0) = Inr b" "length b = 16"
    "\<forall>f \<in> set xrdw_read_fields. slice (wire_off f) (xrdw_width f) b = xrdw_value f r"
    using read_msg.pack_ok [OF assms(1), of b0] by (auto simp: xrdw_read_req_pack_def)
  have "b = slice 0 4 b @ slice 4 8 b @ slice 12 4 b"
    using slice_split [of 4 16 0 b] slice_split [of 8 12 4 b] b(2) by simp
  also have "\<dots> = read_fhandle r @ be_bytes 8 (read_offset r) @ be_bytes 4 (read_rlen r)"
    using b(3) assms(1) by (simp add: xrdw_read_defs codec_simps)
  finally show "xrdw_read_req_pack (Some r) (Some b0)
       = Inr (read_fhandle r @ be_bytes 8 (read_offset r) @ be_bytes 4 (read_rlen r))"
    using b(1) by simp
next
  obtain b where b: "xrdw_login_req_pack (Some q) (Some b0) = Inr b" "length b = 16"
    "\<forall>f \<in> set xrdw_login_fields. slice (wire_off f) (xrdw_width f) b = xrdw_value f q"
    "\<not> xrdw_owned xrdw_login_fields 15 \<longrightarrow> b ! 15 = 0"
    using login_msg.pack_ok [OF assms(2), of b0] by (auto simp: xrdw_login_req_pack_def)
  have z: "b ! 15 = 0" using b(4) by (simp add: xrdw_owned_def xrdw_login_defs codec_simps)
  then have "slice 15 (Suc 0) b = [0]"
    using b(2) by (intro nth_equalityI) (auto simp: nth_slice)
  moreover have "b = slice 0 4 b @ slice 4 8 b @ slice 12 (Suc 0) b @ slice 13 (Suc 0) b
      @ slice 14 (Suc 0) b @ slice 15 (Suc 0) b"
    using slice_split [of 4 16 0 b] slice_split [of 8 12 4 b] slice_split [of "Suc 0" 4 12 b]
      slice_split [of "Suc 0" 3 13 b] slice_split [of "Suc 0" 2 14 b] b(2) by (simp add: numeral_2_eq_2)
  moreover have "slice 0 4 b @ slice 4 8 b @ slice 12 (Suc 0) b @ slice 13 (Suc 0) b
      @ slice 14 (Suc 0) b = be_bytes 4 (login_pid q) @ login_username q
      @ [login_ability2 q, login_ability q, login_capver q]"
    using b(3) assms(2) by (simp add: xrdw_login_defs codec_simps)
  ultimately have "b = be_bytes 4 (login_pid q) @ login_username q
      @ [login_ability2 q, login_ability q, login_capver q, 0]"
    by (metis append_Cons append_Nil append_assoc)
  then show "xrdw_login_req_pack (Some q) (Some b0)
       = Inr (be_bytes 4 (login_pid q) @ login_username q
              @ [login_ability2 q, login_ability q, login_capver q, 0])"
    using b(1) by simp
qed

theorem wire_read_login_image_witness:
  "xrdw_read_req_pack (Some \<lparr>read_fhandle = [0, 0, 0, 7], read_offset = 0x1122334455, read_rlen = 4096\<rparr>) (Some [])
     = Inr [0, 0, 0, 7, 0, 0, 0, 0x11, 0x22, 0x33, 0x44, 0x55, 0, 0, 0x10, 0]
   \<and> xrdw_login_req_pack (Some \<lparr>login_pid = 258, login_username = [97, 98, 99, 0, 0, 0, 0, 0],
        login_ability2 = 1, login_ability = 2, login_capver = 5\<rparr>) (Some [])
     = Inr [0, 0, 1, 2, 97, 98, 99, 0, 0, 0, 0, 0, 1, 2, 5, 0]"
  using wire_read_login_image [of
      "\<lparr>read_fhandle = [0, 0, 0, 7], read_offset = 0x1122334455, read_rlen = 4096\<rparr>"
      "\<lparr>login_pid = 258, login_username = [97, 98, 99, 0, 0, 0, 0, 0],
        login_ability2 = 1, login_ability = 2, login_capver = 5\<rparr>" "[]"]
  by (simp add: xrdw_read_req_wf_def xrdw_login_req_wf_def be_bytes_def le_bytes_def upt_rec)

end
