(* ===== verification/Crc32c.thy ===== *)
theory Crc32c
  imports Brix_Prelude
begin

text \<open>
  The CRC-32c engine of \<^verbatim>\<open>src/core/compat/crc32c.c\<close> and \<^verbatim>\<open>src/core/compat/crc32c_hw.c\<close>: the bit-serial
  software path, the serial and three-way SSE4.2 paths with their GF(2) recombination tables, the
  ARMv8 path, the fused copy-and-checksum variants and the dispatch.  A buffer \<open>[p, p + len)\<close> is
  the list of its bytes; the alignment of \<open>p\<close> is an explicit argument where the code looks at it.

  The CRC machine instructions are not part of the program: they are the fields of
  \<open>crc_platform\<close>, and \<open>crc_platform_documented\<close> states what the instruction-set manuals
  say of them.  Under that hypothesis every path returns the same checksum as the software
  path, whatever the platform, the length and the alignment.
\<close>

section \<open>The software path\<close>

abbreviation (input) BRIX_CRC32C_POLY :: u32 where "BRIX_CRC32C_POLY \<equiv> 0x82F63B78"
abbreviation (input) BRIX_CRC32C_SHORT :: nat where "BRIX_CRC32C_SHORT \<equiv> 256"
abbreviation (input) BRIX_CRC32C_LONG :: nat where "BRIX_CRC32C_LONG \<equiv> 8192"
abbreviation (input) crc_ones :: u32 where "crc_ones \<equiv> 0xFFFFFFFF"

text \<open>One round of the inner \<open>for\<close> loop, and the loop body for one byte.\<close>

definition crc_bit :: "u32 \<Rightarrow> u32" where
  "crc_bit crc = drop_bit 1 crc XOR (BRIX_CRC32C_POLY AND (- (crc AND 1)))"

definition crc_byte :: "u32 \<Rightarrow> byte \<Rightarrow> u32" where
  "crc_byte crc b = (crc_bit ^^ 8) (crc XOR ucast b)"

definition brix_crc32c_sw_extend :: "u32 \<Rightarrow> bytes \<Rightarrow> u32" where
  "brix_crc32c_sw_extend crc p = foldl crc_byte (crc XOR crc_ones) p XOR crc_ones"

text \<open>The copy loop stores each byte at the advancing cursor \<open>d\<close> of the destination buffer.\<close>

fun crc32c_copy_sw_loop :: "u32 \<Rightarrow> bytes \<Rightarrow> bytes \<Rightarrow> nat \<Rightarrow> u32 \<times> bytes" where
  "crc32c_copy_sw_loop crc [] dst d = (crc, dst)"
| "crc32c_copy_sw_loop crc (b # src) dst d = crc32c_copy_sw_loop (crc_byte crc b) src (dst[d := b]) (d + 1)"

definition brix_crc32c_copy_sw :: "bytes \<Rightarrow> bytes \<Rightarrow> nat \<Rightarrow> u32 \<times> bytes" where
  "brix_crc32c_copy_sw src dst d =
     (let (crc, dst') = crc32c_copy_sw_loop crc_ones src dst d in (crc XOR crc_ones, dst'))"

section \<open>The processor's CRC instructions\<close>

datatype crc_arch = CRC_X86_64 | CRC_ARM64 | CRC_GENERIC

record crc_platform =
  crc_arch :: crc_arch
  cpu_supports_sse42 :: bool
  brix_crc32c_has_sse42 :: int
  mm_crc32_u8 :: "u32 \<Rightarrow> byte \<Rightarrow> u32"
  mm_crc32_u32 :: "u32 \<Rightarrow> u32 \<Rightarrow> u32"
  mm_crc32_u64 :: "u64 \<Rightarrow> u64 \<Rightarrow> u64"
  arm_crc32cb :: "u32 \<Rightarrow> byte \<Rightarrow> u32"
  arm_crc32ch :: "u32 \<Rightarrow> u16 \<Rightarrow> u32"
  arm_crc32cw :: "u32 \<Rightarrow> u32 \<Rightarrow> u32"
  arm_crc32cd :: "u32 \<Rightarrow> u64 \<Rightarrow> u32"

text \<open>
  What the manuals document: each instruction divides by the Castagnoli polynomial, taking the
  operand least significant byte first; the 64-bit form reads the low half of the accumulator
  and clears the high half of its result.
\<close>

definition crc_platform_documented :: "crc_platform \<Rightarrow> bool" where
  "crc_platform_documented pl \<longleftrightarrow>
     (\<forall>c v. mm_crc32_u8 pl c v = foldl crc_byte c [v])
   \<and> (\<forall>c v. mm_crc32_u32 pl c v = foldl crc_byte c (le_bytes 4 v))
   \<and> (\<forall>c v. mm_crc32_u64 pl c v = ucast (foldl crc_byte (ucast c) (le_bytes 8 v)))
   \<and> (\<forall>c v. arm_crc32cb pl c v = foldl crc_byte c [v])
   \<and> (\<forall>c v. arm_crc32ch pl c v = foldl crc_byte c (le_bytes 2 v))
   \<and> (\<forall>c v. arm_crc32cw pl c v = foldl crc_byte c (le_bytes 4 v))
   \<and> (\<forall>c v. arm_crc32cd pl c v = foldl crc_byte c (le_bytes 8 v))"

definition brix_crc32c_sse42_available :: "crc_platform \<Rightarrow> bool \<times> crc_platform" where
  "brix_crc32c_sse42_available pl =
     (let c = (if brix_crc32c_has_sse42 pl < 0 then (if cpu_supports_sse42 pl then 1 else 0)
               else brix_crc32c_has_sse42 pl)
      in (c \<noteq> 0, pl\<lparr>brix_crc32c_has_sse42 := c\<rparr>))"

section \<open>The serial SSE4.2 path\<close>

fun hw_u64_loop :: "crc_platform \<Rightarrow> u64 \<Rightarrow> bytes \<Rightarrow> u64 \<times> bytes" where
  "hw_u64_loop pl state p =
     (if 8 \<le> length p then hw_u64_loop pl (mm_crc32_u64 pl state (le_word (take 8 p))) (drop 8 p)
      else (state, p))"

declare hw_u64_loop.simps [simp del]

definition hw_u8_step :: "crc_platform \<Rightarrow> u64 \<Rightarrow> byte \<Rightarrow> u64" where
  "hw_u8_step pl state b = ucast (mm_crc32_u8 pl (ucast state) b)"

definition brix_crc32c_hw_extend :: "crc_platform \<Rightarrow> u32 \<Rightarrow> bytes \<Rightarrow> u32" where
  "brix_crc32c_hw_extend pl crc p =
     (let (state, p) = hw_u64_loop pl (ucast (crc XOR crc_ones)) p;
          (state, p) = (if 4 \<le> length p
             then (ucast (mm_crc32_u32 pl (ucast state) (le_word (take 4 p))), drop 4 p)
             else (state, p));
          state = foldl (hw_u8_step pl) state p
      in ucast state XOR crc_ones)"

text \<open>In the copying variants \<open>d\<close> is the destination cursor.\<close>

fun hw_u64_copy_loop :: "crc_platform \<Rightarrow> u64 \<Rightarrow> bytes \<Rightarrow> bytes \<Rightarrow> nat \<Rightarrow> u64 \<times> bytes \<times> bytes \<times> nat" where
  "hw_u64_copy_loop pl state src dst d =
     (if 8 \<le> length src
      then let v = (le_word (take 8 src) :: u64)
           in hw_u64_copy_loop pl (mm_crc32_u64 pl state v) (drop 8 src) (memcpy_at d (le_bytes 8 v) dst) (d + 8)
      else (state, src, dst, d))"

declare hw_u64_copy_loop.simps [simp del]

fun hw_u8_copy_loop :: "crc_platform \<Rightarrow> u64 \<Rightarrow> bytes \<Rightarrow> bytes \<Rightarrow> nat \<Rightarrow> u64 \<times> bytes" where
  "hw_u8_copy_loop pl state [] dst d = (state, dst)"
| "hw_u8_copy_loop pl state (b # src) dst d =
     hw_u8_copy_loop pl (hw_u8_step pl state b) src (dst[d := b]) (d + 1)"

definition brix_crc32c_copy_hw :: "crc_platform \<Rightarrow> bytes \<Rightarrow> bytes \<Rightarrow> nat \<Rightarrow> u32 \<times> bytes" where
  "brix_crc32c_copy_hw pl src dst d =
     (let (state, src, dst, d) = hw_u64_copy_loop pl (ucast crc_ones) src dst d;
          (state, src, dst, d) = (if 4 \<le> length src
             then let v = (le_word (take 4 src) :: u32)
                  in (ucast (mm_crc32_u32 pl (ucast state) v), drop 4 src, memcpy_at d (le_bytes 4 v) dst, d + 4)
             else (state, src, dst, d));
          (state, dst) = hw_u8_copy_loop pl state src dst d
      in (ucast state XOR crc_ones, dst))"

section \<open>GF(2) operator tables\<close>

function gf2_times_loop :: "u32 list \<Rightarrow> u32 \<Rightarrow> u32 \<Rightarrow> u32" where
  "gf2_times_loop mat vec acc =
     (if vec = 0 then acc
      else gf2_times_loop (tl mat) (drop_bit 1 vec) (if vec AND 1 \<noteq> 0 then acc XOR hd mat else acc))"
  by pat_completeness auto
termination
proof (relation "measure (\<lambda>(_, vec, _). unat vec)")
  fix mat :: "u32 list" and vec acc :: u32
  assume "vec \<noteq> 0"
  then have "unat vec > 0" by (simp add: unat_gt_0)
  then have "unat (drop_bit 1 vec) < unat vec" by (simp add: drop_bit_eq_div unat_div)
  then show "((tl mat, drop_bit 1 vec, if vec AND 1 \<noteq> 0 then acc XOR hd mat else acc), mat, vec, acc)
      \<in> measure (\<lambda>(_, vec, _). unat vec)" by simp
qed simp

declare gf2_times_loop.simps [simp del]

definition brix_gf2_matrix_times :: "u32 list \<Rightarrow> u32 \<Rightarrow> u32" where
  "brix_gf2_matrix_times mat vec = gf2_times_loop mat vec 0"

definition brix_gf2_matrix_square :: "u32 list \<Rightarrow> u32 list" where
  "brix_gf2_matrix_square mat = map (\<lambda>n. brix_gf2_matrix_times mat (mat ! n)) [0..<32]"

function zeros_op_loop :: "u32 list \<Rightarrow> nat \<Rightarrow> u32 list" where
  "zeros_op_loop odd_m len =
     (let even_m = brix_gf2_matrix_square odd_m; len = len div 2
      in if len = 0 then even_m
         else let odd_m = brix_gf2_matrix_square even_m; len = len div 2
              in if len = 0 then odd_m else zeros_op_loop odd_m len)"
  by pat_completeness auto
termination by (relation "measure snd") auto

declare zeros_op_loop.simps [simp del]

definition brix_crc32c_zeros_op :: "nat \<Rightarrow> u32 list" where
  "brix_crc32c_zeros_op len =
     (let odd_m = BRIX_CRC32C_POLY # map (\<lambda>n. push_bit (n - 1) 1) [1..<32];
          even_m = brix_gf2_matrix_square odd_m;
          odd_m = brix_gf2_matrix_square even_m
      in zeros_op_loop odd_m len)"

definition brix_crc32c_zeros :: "nat \<Rightarrow> u32 list list" where
  "brix_crc32c_zeros len =
     (let op = brix_crc32c_zeros_op len
      in map (\<lambda>j. map (\<lambda>n. brix_gf2_matrix_times op (push_bit (8 * j) (of_nat n))) [0..<256]) [0..<4])"

definition brix_crc32c_shift :: "u32 list list \<Rightarrow> u32 \<Rightarrow> u32" where
  "brix_crc32c_shift zeros crc =
     zeros ! 0 ! unat (crc AND 0xff) XOR zeros ! 1 ! unat (drop_bit 8 crc AND 0xff)
     XOR zeros ! 2 ! unat (drop_bit 16 crc AND 0xff) XOR zeros ! 3 ! unat (drop_bit 24 crc AND 0xff)"

text \<open>The two tables the load-time constructor fills.\<close>

definition brix_crc32c_long_tab :: "u32 list list" where
  "brix_crc32c_long_tab = brix_crc32c_zeros BRIX_CRC32C_LONG"

definition brix_crc32c_short_tab :: "u32 list list" where
  "brix_crc32c_short_tab = brix_crc32c_zeros BRIX_CRC32C_SHORT"

section \<open>The three-way SSE4.2 path\<close>

text \<open>\<open>a\<close> is the address of the first byte; the prologue runs until it is 8-byte aligned.\<close>

fun hw3_align :: "crc_platform \<Rightarrow> nat \<Rightarrow> u64 \<Rightarrow> bytes \<Rightarrow> u64 \<times> bytes" where
  "hw3_align pl a crc0 [] = (crc0, [])"
| "hw3_align pl a crc0 (b # p) =
     (if a mod 8 \<noteq> 0 then hw3_align pl (a + 1) (hw_u8_step pl crc0 b) p else (crc0, b # p))"

text \<open>The \<open>do \<dots> while (p < end)\<close> loop over one triple of \<open>L\<close>-byte streams, at byte \<open>i\<close>.\<close>

function hw3_words :: "crc_platform \<Rightarrow> nat \<Rightarrow> bytes \<Rightarrow> nat \<Rightarrow> u64 \<times> u64 \<times> u64 \<Rightarrow> u64 \<times> u64 \<times> u64" where
  "hw3_words pl L p i (crc0, crc1, crc2) =
     (let v0 = le_word (slice i 8 p); v1 = le_word (slice (i + L) 8 p); v2 = le_word (slice (i + L * 2) 8 p);
          cs = (mm_crc32_u64 pl crc0 v0, mm_crc32_u64 pl crc1 v1, mm_crc32_u64 pl crc2 v2)
      in if i + 8 < L then hw3_words pl L p (i + 8) cs else cs)"
  by pat_completeness auto
termination by (relation "measure (\<lambda>(_, L, _, i, _). L - i)") auto

declare hw3_words.simps [simp del]

text \<open>The outer loop for one block size; the block sizes of the code are positive.\<close>

function hw3_blocks :: "crc_platform \<Rightarrow> u32 list list \<Rightarrow> nat \<Rightarrow> u64 \<Rightarrow> bytes \<Rightarrow> u64 \<times> bytes" where
  "hw3_blocks pl tab L crc0 p =
     (if L = 0 \<or> length p < L * 3 then (crc0, p)
      else let (crc0, crc1, crc2) = hw3_words pl L p 0 (crc0, 0, 0);
               crc0 = ucast (brix_crc32c_shift tab (ucast crc0)) XOR crc1;
               crc0 = ucast (brix_crc32c_shift tab (ucast crc0)) XOR crc2
           in hw3_blocks pl tab L crc0 (drop (L * 3) p))"
  by pat_completeness auto
termination by (relation "measure (\<lambda>(_, _, _, _, p). length p)") auto

declare hw3_blocks.simps [simp del]

definition brix_crc32c_hw3_extend :: "crc_platform \<Rightarrow> nat \<Rightarrow> u32 \<Rightarrow> bytes \<Rightarrow> u32" where
  "brix_crc32c_hw3_extend pl a crc p =
     (let (crc0, p) = hw3_align pl a (ucast (crc XOR crc_ones)) p;
          (crc0, p) = hw3_blocks pl brix_crc32c_long_tab BRIX_CRC32C_LONG crc0 p;
          (crc0, p) = hw3_blocks pl brix_crc32c_short_tab BRIX_CRC32C_SHORT crc0 p;
          (crc0, p) = hw_u64_loop pl crc0 p;
          crc0 = foldl (hw_u8_step pl) crc0 p
      in ucast crc0 XOR crc_ones)"

fun hw3_copy_align :: "crc_platform \<Rightarrow> nat \<Rightarrow> u64 \<Rightarrow> bytes \<Rightarrow> bytes \<Rightarrow> nat \<Rightarrow> u64 \<times> bytes \<times> bytes \<times> nat" where
  "hw3_copy_align pl a crc0 [] dst d = (crc0, [], dst, d)"
| "hw3_copy_align pl a crc0 (b # src) dst d =
     (if a mod 8 \<noteq> 0 then hw3_copy_align pl (a + 1) (hw_u8_step pl crc0 b) src (dst[d := b]) (d + 1)
      else (crc0, b # src, dst, d))"

function hw3_copy_words :: "crc_platform \<Rightarrow> nat \<Rightarrow> bytes \<Rightarrow> bytes \<Rightarrow> nat \<Rightarrow> nat \<Rightarrow> u64 \<times> u64 \<times> u64
    \<Rightarrow> (u64 \<times> u64 \<times> u64) \<times> bytes" where
  "hw3_copy_words pl L src dst d i (crc0, crc1, crc2) =
     (let v0 = le_word (slice i 8 src); v1 = le_word (slice (i + L) 8 src);
          v2 = le_word (slice (i + L * 2) 8 src);
          cs = (mm_crc32_u64 pl crc0 v0, mm_crc32_u64 pl crc1 v1, mm_crc32_u64 pl crc2 v2);
          dst = memcpy_at (d + i) (le_bytes 8 v0) dst;
          dst = memcpy_at (d + i + L) (le_bytes 8 v1) dst;
          dst = memcpy_at (d + i + L * 2) (le_bytes 8 v2) dst
      in if i + 8 < L then hw3_copy_words pl L src dst d (i + 8) cs else (cs, dst))"
  by pat_completeness auto
termination by (relation "measure (\<lambda>(_, L, _, _, _, i, _). L - i)") auto

declare hw3_copy_words.simps [simp del]

function hw3_copy_blocks :: "crc_platform \<Rightarrow> u32 list list \<Rightarrow> nat \<Rightarrow> u64 \<Rightarrow> bytes \<Rightarrow> bytes \<Rightarrow> nat
    \<Rightarrow> u64 \<times> bytes \<times> bytes \<times> nat" where
  "hw3_copy_blocks pl tab L crc0 src dst d =
     (if L = 0 \<or> length src < L * 3 then (crc0, src, dst, d)
      else let ((crc0, crc1, crc2), dst) = hw3_copy_words pl L src dst d 0 (crc0, 0, 0);
               crc0 = ucast (brix_crc32c_shift tab (ucast crc0)) XOR crc1;
               crc0 = ucast (brix_crc32c_shift tab (ucast crc0)) XOR crc2
           in hw3_copy_blocks pl tab L crc0 (drop (L * 3) src) dst (d + L * 3))"
  by pat_completeness auto
termination by (relation "measure (\<lambda>(_, _, _, _, p, _). length p)") auto

declare hw3_copy_blocks.simps [simp del]

definition brix_crc32c_copy_hw3 :: "crc_platform \<Rightarrow> nat \<Rightarrow> bytes \<Rightarrow> bytes \<Rightarrow> nat \<Rightarrow> u32 \<times> bytes" where
  "brix_crc32c_copy_hw3 pl a src dst d =
     (let (crc0, src, dst, d) = hw3_copy_align pl a (ucast crc_ones) src dst d;
          (crc0, src, dst, d) = hw3_copy_blocks pl brix_crc32c_long_tab BRIX_CRC32C_LONG crc0 src dst d;
          (crc0, src, dst, d) = hw3_copy_blocks pl brix_crc32c_short_tab BRIX_CRC32C_SHORT crc0 src dst d;
          (crc0, src, dst, d) = hw_u64_copy_loop pl crc0 src dst d;
          (crc0, dst) = hw_u8_copy_loop pl crc0 src dst d
      in (ucast crc0 XOR crc_ones, dst))"

section \<open>The ARMv8 path\<close>

fun arm64_u64_loop :: "crc_platform \<Rightarrow> u32 \<Rightarrow> bytes \<Rightarrow> u32 \<times> bytes" where
  "arm64_u64_loop pl state p =
     (if 8 \<le> length p then arm64_u64_loop pl (arm_crc32cd pl state (le_word (take 8 p))) (drop 8 p)
      else (state, p))"

declare arm64_u64_loop.simps [simp del]

definition brix_crc32c_arm64_extend :: "crc_platform \<Rightarrow> u32 \<Rightarrow> bytes \<Rightarrow> u32" where
  "brix_crc32c_arm64_extend pl crc p =
     (let (state, p) = arm64_u64_loop pl (crc XOR crc_ones) p;
          (state, p) = (if 4 \<le> length p then (arm_crc32cw pl state (le_word (take 4 p)), drop 4 p) else (state, p));
          (state, p) = (if 2 \<le> length p then (arm_crc32ch pl state (le_word (take 2 p)), drop 2 p) else (state, p));
          state = (if p \<noteq> [] then arm_crc32cb pl state (hd p) else state)
      in state XOR crc_ones)"

fun arm64_u64_copy_loop :: "crc_platform \<Rightarrow> u32 \<Rightarrow> bytes \<Rightarrow> bytes \<Rightarrow> nat \<Rightarrow> u32 \<times> bytes \<times> bytes \<times> nat" where
  "arm64_u64_copy_loop pl state src dst d =
     (if 8 \<le> length src
      then let v = (le_word (take 8 src) :: u64)
           in arm64_u64_copy_loop pl (arm_crc32cd pl state v) (drop 8 src) (memcpy_at d (le_bytes 8 v) dst) (d + 8)
      else (state, src, dst, d))"

declare arm64_u64_copy_loop.simps [simp del]

definition brix_crc32c_arm64_copy :: "crc_platform \<Rightarrow> bytes \<Rightarrow> bytes \<Rightarrow> nat \<Rightarrow> u32 \<times> bytes" where
  "brix_crc32c_arm64_copy pl src dst d =
     (let (state, src, dst, d) = arm64_u64_copy_loop pl crc_ones src dst d;
          (state, src, dst, d) = (if 4 \<le> length src
             then let v = (le_word (take 4 src) :: u32)
                  in (arm_crc32cw pl state v, drop 4 src, memcpy_at d (le_bytes 4 v) dst, d + 4)
             else (state, src, dst, d));
          (state, src, dst, d) = (if 2 \<le> length src
             then let v = (le_word (take 2 src) :: u16)
                  in (arm_crc32ch pl state v, drop 2 src, memcpy_at d (le_bytes 2 v) dst, d + 2)
             else (state, src, dst, d));
          (state, dst) = (if src \<noteq> [] then (arm_crc32cb pl state (hd src), dst[d := hd src]) else (state, dst))
      in (state XOR crc_ones, dst))"

section \<open>Dispatch\<close>

text \<open>
  \<open>None\<close> is a NULL pointer, whose length the caller passes separately.  The preprocessor
  conditionals select on the architecture of the build.
\<close>

definition brix_crc32c_extend :: "crc_platform \<Rightarrow> nat \<Rightarrow> u32 \<Rightarrow> bytes option \<Rightarrow> nat \<Rightarrow> u32" where
  "brix_crc32c_extend pl a crc buf len =
     (if buf = None \<and> len \<noteq> 0 then crc
      else let p = (case buf of None \<Rightarrow> [] | Some b \<Rightarrow> take len b) in
        if crc_arch pl = CRC_X86_64 \<and> fst (brix_crc32c_sse42_available pl)
        then (if len \<ge> BRIX_CRC32C_SHORT * 3 then brix_crc32c_hw3_extend pl a crc p
              else brix_crc32c_hw_extend pl crc p)
        else if crc_arch pl = CRC_ARM64 then brix_crc32c_arm64_extend pl crc p
        else brix_crc32c_sw_extend crc p)"

definition brix_crc32c_value :: "crc_platform \<Rightarrow> nat \<Rightarrow> bytes option \<Rightarrow> nat \<Rightarrow> u32" where
  "brix_crc32c_value pl a buf len = brix_crc32c_extend pl a 0 buf len"

text \<open>The destination buffer comes back with the copy in place; \<open>d\<close> is where \<open>dst\<close> points into it.\<close>

definition brix_crc32c_copy_value ::
    "crc_platform \<Rightarrow> nat \<Rightarrow> bytes option \<Rightarrow> bytes option \<Rightarrow> nat \<Rightarrow> nat \<Rightarrow> u32 \<times> bytes option" where
  "brix_crc32c_copy_value pl a src dst d len =
     (if (src = None \<or> dst = None) \<and> len \<noteq> 0 then (0, dst)
      else let s = (case src of None \<Rightarrow> [] | Some b \<Rightarrow> take len b);
               t = (case dst of None \<Rightarrow> [] | Some b \<Rightarrow> b);
               (crc, t') =
                 (if crc_arch pl = CRC_X86_64 \<and> fst (brix_crc32c_sse42_available pl)
                  then (if len \<ge> BRIX_CRC32C_SHORT * 3 then brix_crc32c_copy_hw3 pl a s t d
                        else brix_crc32c_copy_hw pl s t d)
                  else if crc_arch pl = CRC_ARM64 then brix_crc32c_arm64_copy pl s t d
                  else brix_crc32c_copy_sw s t d)
           in (crc, map_option (\<lambda>_. t') dst))"

section \<open>CRC-32c is linear\<close>

lemma crc_bit_alt: "crc_bit c = drop_bit 1 c XOR (if bit c 0 then BRIX_CRC32C_POLY else 0)"
proof -
  have "c AND 1 = (if bit c 0 then 1 else 0)" by (simp add: and_one_eq mod_2_eq_odd bit_0)
  then show ?thesis by (simp add: crc_bit_def)
qed

definition gf2_linear :: "(u32 \<Rightarrow> u32) \<Rightarrow> bool" where
  "gf2_linear f \<longleftrightarrow> (\<forall>a b. f (a XOR b) = f a XOR f b)"

lemma gf2_linear_zero: "gf2_linear f \<Longrightarrow> f 0 = 0"
  unfolding gf2_linear_def by (metis xor_self_eq)

lemma gf2_linear_comp: "gf2_linear f \<Longrightarrow> gf2_linear g \<Longrightarrow> gf2_linear (\<lambda>x. f (g x))"
  by (simp add: gf2_linear_def)

lemma gf2_linear_crc_bit: "gf2_linear crc_bit"
  by (auto simp: gf2_linear_def crc_bit_alt drop_bit_xor bit_simps ac_simps xor.left_commute)

lemma gf2_linear_funpow: "gf2_linear f \<Longrightarrow> gf2_linear (f ^^ n)"
  by (induction n) (simp_all add: gf2_linear_def)

definition crc_zeros :: "nat \<Rightarrow> u32 \<Rightarrow> u32" where
  "crc_zeros n = crc_bit ^^ (8 * n)"

lemma gf2_linear_crc_zeros: "gf2_linear (crc_zeros n)"
  unfolding crc_zeros_def by (rule gf2_linear_funpow [OF gf2_linear_crc_bit])

lemma crc_zeros_xor: "crc_zeros n (a XOR b) = crc_zeros n a XOR crc_zeros n b"
  using gf2_linear_crc_zeros by (simp add: gf2_linear_def)

lemma crc_zeros_Suc: "crc_zeros (Suc n) a = crc_zeros n (crc_zeros 1 a)"
  using funpow_add [of "8 * n" 8 crc_bit] by (simp add: crc_zeros_def add.commute)

lemma crc_byte_zeros: "crc_byte s b = crc_zeros 1 (s XOR ucast b)"
  by (simp add: crc_byte_def crc_zeros_def)

lemma crc_foldl_xor:
  "foldl crc_byte (a XOR s) xs = crc_zeros (length xs) a XOR foldl crc_byte s xs"
proof (induction xs arbitrary: a s)
  case Nil
  then show ?case by (simp add: crc_zeros_def)
next
  case (Cons b xs)
  have "crc_byte (a XOR s) b = crc_zeros 1 a XOR crc_byte s b"
    by (simp add: crc_byte_zeros crc_zeros_xor xor.assoc)
  then show ?case by (simp add: Cons.IH crc_zeros_Suc [of "length xs"])
qed

lemma crc_foldl_append:
  "foldl crc_byte s (xs @ ys) = crc_zeros (length ys) (foldl crc_byte s xs) XOR foldl crc_byte 0 ys"
  using crc_foldl_xor [of "foldl crc_byte s xs" 0 ys] by simp

section \<open>The operator tables compute the advance over zero bytes\<close>

definition gf2_columns :: "u32 list \<Rightarrow> (u32 \<Rightarrow> u32) \<Rightarrow> bool" where
  "gf2_columns mat f \<longleftrightarrow> length mat = 32 \<and> (\<forall>i < 32. mat ! i = f (push_bit i 1))"

lemma gf2_times_drop:
  assumes "gf2_linear f" "gf2_columns mat f"
  shows "n + k = 32 \<Longrightarrow> drop_bit k w = 0 \<Longrightarrow>
    gf2_times_loop (drop n mat) w acc = acc XOR f (push_bit n w)"
proof (induction k arbitrary: n w acc)
  case 0
  then show ?case using gf2_linear_zero [OF assms(1)] by (simp add: gf2_times_loop.simps)
next
  case (Suc k)
  have n: "n < 32" and len: "length mat = 32" using Suc.prems assms(2) by (simp_all add: gf2_columns_def)
  show ?case
  proof (cases "w = 0")
    case True
    then show ?thesis using gf2_linear_zero [OF assms(1)] by (simp add: gf2_times_loop.simps)
  next
    case False
    have split: "push_bit n w = push_bit (Suc n) (drop_bit 1 w) XOR push_bit n (w AND 1)"
      by (rule bit_word_eqI)
         (auto simp: bit_simps bit_1_iff Suc_le_eq Suc_diff_Suc simp del: push_bit_Suc)
    have hd: "hd (drop n mat) = f (push_bit n 1)"
      using n len assms(2) by (simp add: hd_drop_conv_nth gf2_columns_def)
    have one: "w AND 1 = (if w AND 1 \<noteq> 0 then 1 else 0)"
      by (simp add: and_one_eq mod_2_eq_odd)
    have "gf2_times_loop (drop n mat) w acc
        = gf2_times_loop (drop (Suc n) mat) (drop_bit 1 w) (if w AND 1 \<noteq> 0 then acc XOR f (push_bit n 1) else acc)"
      using False by (subst gf2_times_loop.simps) (simp add: hd drop_Suc tl_drop)
    also have "\<dots> = (if w AND 1 \<noteq> 0 then acc XOR f (push_bit n 1) else acc) XOR f (push_bit (Suc n) (drop_bit 1 w))"
      using Suc.prems by (intro Suc.IH) simp_all
    also have "\<dots> = acc XOR f (push_bit n w)"
    proof (cases "w AND 1 = 0")
      case True
      then show ?thesis using split by simp
    next
      case nz: False
      then have "w AND 1 = 1" using one by simp
      then have "f (push_bit n w) = f (push_bit (Suc n) (drop_bit 1 w)) XOR f (push_bit n 1)"
        using split assms(1) by (simp add: gf2_linear_def)
      then show ?thesis using nz by (simp add: xor.assoc xor.commute xor.left_commute)
    qed
    finally show ?thesis .
  qed
qed

lemma gf2_times:
  assumes "gf2_linear f" "gf2_columns mat f"
  shows "brix_gf2_matrix_times mat v = f v"
  using gf2_times_drop [OF assms, of 0 32 v 0] by (simp add: brix_gf2_matrix_times_def drop_bit_word_beyond)

lemma gf2_square:
  assumes "gf2_linear f" "gf2_columns mat f"
  shows "gf2_columns (brix_gf2_matrix_square mat) (f ^^ 2)"
  using assms(2) gf2_times [OF assms]
  by (simp add: gf2_columns_def brix_gf2_matrix_square_def numeral_2_eq_2)

lemma gf2_zeros_op_loop:
  "gf2_columns odd_m (crc_bit ^^ m) \<Longrightarrow> gf2_columns (zeros_op_loop odd_m (2 ^ k)) (crc_bit ^^ (m * 2 ^ Suc k))"
proof (induction k arbitrary: odd_m m rule: less_induct)
  case (less k)
  note sq = gf2_square [OF gf2_linear_funpow [OF gf2_linear_crc_bit]]
  let ?e = "brix_gf2_matrix_square odd_m"
  have e: "gf2_columns ?e (crc_bit ^^ (m * 2))"
    using sq [OF less.prems] by (simp add: funpow_mult)
  have o2: "gf2_columns (brix_gf2_matrix_square ?e) (crc_bit ^^ (m * 4))"
    using sq [OF e] by (simp add: funpow_mult mult.assoc)
  consider "k = 0" | "k = 1" | j where "k = Suc (Suc j)" by (metis One_nat_def not0_implies_Suc)
  then show ?case
  proof cases
    case 1
    then show ?thesis using e by (simp add: zeros_op_loop.simps [of odd_m])
  next
    case 2
    then show ?thesis using o2 by (simp add: zeros_op_loop.simps [of odd_m] Let_def)
  next
    case 3
    have "gf2_columns (zeros_op_loop (brix_gf2_matrix_square ?e) (2 ^ j)) (crc_bit ^^ (m * 4 * 2 ^ Suc j))"
      using 3 by (intro less.IH [OF _ o2]) simp
    then show ?thesis using 3 by (simp add: zeros_op_loop.simps [of odd_m] Let_def mult.assoc)
  qed
qed

lemma gf2_one_bit: "gf2_columns (BRIX_CRC32C_POLY # map (\<lambda>n. push_bit (n - 1) 1) [1..<32]) crc_bit"
proof -
  have "crc_bit (push_bit i 1) = (BRIX_CRC32C_POLY # map (\<lambda>n. push_bit (n - 1) 1) [1..<32]) ! i"
    if "i < 32" for i
  proof (cases i)
    case 0
    then show ?thesis by (simp add: crc_bit_alt)
  next
    case (Suc j)
    have "drop_bit 1 (push_bit (Suc j) 1 :: u32) = push_bit j 1"
      using that Suc by (intro bit_word_eqI) (auto simp: bit_simps bit_1_iff)
    then show ?thesis using that Suc by (simp add: crc_bit_alt bit_simps)
  qed
  then show ?thesis by (simp add: gf2_columns_def)
qed

lemma gf2_zeros_op: "gf2_columns (brix_crc32c_zeros_op (2 ^ k)) (crc_zeros (2 ^ k))"
proof -
  note sq = gf2_square [OF gf2_linear_funpow [OF gf2_linear_crc_bit]]
  let ?o = "BRIX_CRC32C_POLY # map (\<lambda>n. push_bit (n - 1) 1) [1..<32]"
  have "gf2_columns (brix_gf2_matrix_square ?o) (crc_bit ^^ 2)"
    using gf2_square [OF gf2_linear_crc_bit gf2_one_bit] .
  from sq [OF this] have "gf2_columns (brix_gf2_matrix_square (brix_gf2_matrix_square ?o)) (crc_bit ^^ 4)"
    by (simp add: funpow_mult)
  from gf2_zeros_op_loop [OF this, of k] show ?thesis
    unfolding brix_crc32c_zeros_op_def crc_zeros_def Let_def by (simp add: mult.commute)
qed

lemma and_ff: "(w::u32) AND 0xff = take_bit 8 w"
  by (simp add: take_bit_eq_mask mask_eq_exp_minus_1)

lemma crc_word_split:
  "(crc::u32) = (crc AND 0xff) XOR push_bit 8 (drop_bit 8 crc AND 0xff)
     XOR push_bit 16 (drop_bit 16 crc AND 0xff) XOR push_bit 24 (drop_bit 24 crc AND 0xff)"
  unfolding and_ff
proof (rule bit_word_eqI)
  fix k assume "k < LENGTH(32)"
  then have "k < 8 \<or> (8 \<le> k \<and> k < 16) \<or> (16 \<le> k \<and> k < 24) \<or> (24 \<le> k \<and> k < 32)" by auto
  then show "bit crc k = bit (take_bit 8 crc XOR push_bit 8 (take_bit 8 (drop_bit 8 crc))
     XOR push_bit 16 (take_bit 8 (drop_bit 16 crc)) XOR push_bit 24 (take_bit 8 (drop_bit 24 crc))) k"
    by (elim disjE) (auto simp: bit_simps)
qed

lemma crc_shift_zeros: "brix_crc32c_shift (brix_crc32c_zeros (2 ^ k)) crc = crc_zeros (2 ^ k) crc"
proof -
  let ?z = "brix_crc32c_zeros (2 ^ k)"
  have lookup: "?z ! j ! unat (w AND 0xff) = crc_zeros (2 ^ k) (push_bit (8 * j) (w AND 0xff))" if "j < 4" for j w
  proof -
    have "w AND 0xff \<le> 0xff" by (rule word_and_le1)
    then have "unat (w AND 0xff) < 256" by (simp add: word_le_nat_alt)
    then show ?thesis
      using that gf2_times [OF gf2_linear_crc_zeros gf2_zeros_op]
      by (simp add: brix_crc32c_zeros_def Let_def)
  qed
  have "brix_crc32c_shift ?z crc = crc_zeros (2 ^ k) ((crc AND 0xff) XOR push_bit 8 (drop_bit 8 crc AND 0xff)
     XOR push_bit 16 (drop_bit 16 crc AND 0xff) XOR push_bit 24 (drop_bit 24 crc AND 0xff))"
    using lookup [of 0 crc] lookup [of 1 "drop_bit 8 crc"] lookup [of 2 "drop_bit 16 crc"] lookup [of 3 "drop_bit 24 crc"]
    by (simp add: brix_crc32c_shift_def crc_zeros_xor)
  then show ?thesis using crc_word_split [of crc] by simp
qed

lemma crc_shift_tabs:
  "brix_crc32c_shift brix_crc32c_long_tab crc = crc_zeros BRIX_CRC32C_LONG crc"
  "brix_crc32c_shift brix_crc32c_short_tab crc = crc_zeros BRIX_CRC32C_SHORT crc"
  using crc_shift_zeros [of 13 crc] crc_shift_zeros [of 8 crc]
  by (simp_all add: brix_crc32c_long_tab_def brix_crc32c_short_tab_def)

section \<open>Every path computes the software checksum\<close>

text \<open>
  \<open>crc_ran c p (state, rest)\<close>: some prefix of \<open>p\<close> has been consumed into the accumulator;
  \<open>crc_copied\<close> adds that the prefix stands at the destination.
\<close>

definition crc_ran :: "u32 \<Rightarrow> bytes \<Rightarrow> u64 \<times> bytes \<Rightarrow> bool" where
  "crc_ran c p sq \<longleftrightarrow> (\<exists>xs. p = xs @ snd sq \<and> fst sq = ucast (foldl crc_byte c xs))"

definition crc_copied :: "u32 \<Rightarrow> bytes \<Rightarrow> bytes \<Rightarrow> nat \<Rightarrow> u64 \<times> bytes \<times> bytes \<times> nat \<Rightarrow> bool" where
  "crc_copied c src dst d r \<longleftrightarrow> (case r of (st, q, dst', d') \<Rightarrow>
     \<exists>xs. src = xs @ q \<and> st = ucast (foldl crc_byte c xs)
        \<and> dst' = memcpy_at d xs dst \<and> d' = d + length xs)"

lemma crc_ran_step:
  assumes "p = xs @ q" "crc_ran (foldl crc_byte c xs) q r"
  shows "crc_ran c p r"
  using assms unfolding crc_ran_def by (metis append_assoc foldl_append)

lemma crc_ranE:
  assumes "crc_ran c p (st, q)"
  obtains xs where "p = xs @ q" "st = ucast (foldl crc_byte c xs)"
  using assms unfolding crc_ran_def by auto

lemma crc_ran_refl: "crc_ran c p (ucast c, p)"
  unfolding crc_ran_def by (rule exI [of _ "[]"]) simp

lemma crc_copied_refl: "crc_copied c src dst d (ucast c, src, dst, d)"
  unfolding crc_copied_def by (simp add: exI [of _ "[]"])

lemma crc_copied_step:
  assumes "src = xs @ q" "d + length src \<le> length dst"
    and "crc_copied (foldl crc_byte c xs) q (memcpy_at d xs dst) (d + length xs) r"
  shows "crc_copied c src dst d r"
proof -
  obtain st q' dst' d' where r: "r = (st, q', dst', d')" by (cases r) auto
  obtain ys where ys: "q = ys @ q'" "st = ucast (foldl crc_byte (foldl crc_byte c xs) ys)"
    "dst' = memcpy_at (d + length xs) ys (memcpy_at d xs dst)" "d' = d + length xs + length ys"
    using assms(3) by (auto simp: crc_copied_def r)
  have "dst' = memcpy_at d (xs @ ys) dst"
    using ys assms(1,2) memcpy_at_append [of d xs ys dst] by simp
  then show ?thesis
    unfolding crc_copied_def r using ys assms(1) by (auto intro!: exI [of _ "xs @ ys"])
qed

lemma crc_copiedE:
  assumes "crc_copied c src dst d (st, q, dst', d')"
  obtains xs where "src = xs @ q" "st = ucast (foldl crc_byte c xs)"
    "dst' = memcpy_at d xs dst" "d' = d + length xs"
  using assms unfolding crc_copied_def by auto

lemma crc_copy_sw_loop:
  "d + length src \<le> length dst \<Longrightarrow>
     crc32c_copy_sw_loop c src dst d = (foldl crc_byte c src, memcpy_at d src dst)"
proof (induction src arbitrary: c dst d)
  case Nil
  then show ?case by simp
next
  case (Cons b src)
  then show ?case
    using memcpy_at_append [of d "[b]" src dst] by (simp add: list_update_memcpy)
qed

lemma foldl_take_drop: "foldl f c q = foldl f (foldl f c (take n q)) (drop n q)"
  by (metis append_take_drop_id foldl_append)

locale crc_instructions =
  fixes pl :: crc_platform
  assumes documented: "crc_platform_documented pl"
begin

lemma u64_step:
  "length bs = 8 \<Longrightarrow> mm_crc32_u64 pl (ucast c) (le_word bs) = ucast (foldl crc_byte c bs)"
  using documented by (simp add: crc_platform_documented_def)

lemma u8_step: "hw_u8_step pl (ucast c) b = ucast (crc_byte c b)"
  using documented by (simp add: crc_platform_documented_def hw_u8_step_def)

lemma u8_foldl: "foldl (hw_u8_step pl) (ucast c) p = ucast (foldl crc_byte c p)"
  by (induction p arbitrary: c) (simp_all add: u8_step)

lemma u32_step:
  "length bs = 4 \<Longrightarrow> mm_crc32_u32 pl c (le_word bs) = foldl crc_byte c bs"
  using documented by (simp add: crc_platform_documented_def)

lemma arm_steps:
  "length b8 = 8 \<Longrightarrow> arm_crc32cd pl c (le_word b8) = foldl crc_byte c b8"
  "length b4 = 4 \<Longrightarrow> arm_crc32cw pl c (le_word b4) = foldl crc_byte c b4"
  "length b2 = 2 \<Longrightarrow> arm_crc32ch pl c (le_word b2) = foldl crc_byte c b2"
  "arm_crc32cb pl c b = crc_byte c b"
  using documented by (simp_all add: crc_platform_documented_def)

lemma u64_loop: "crc_ran c p (hw_u64_loop pl (ucast c) p)"
proof (induction p arbitrary: c rule: length_induct)
  case (1 p)
  show ?case
  proof (cases "8 \<le> length p")
    case True
    have "crc_ran (foldl crc_byte c (take 8 p)) (drop 8 p)
        (hw_u64_loop pl (ucast (foldl crc_byte c (take 8 p))) (drop 8 p))"
      using 1 True by simp
    then show ?thesis
      using True by (subst hw_u64_loop.simps) (auto simp: u64_step intro: crc_ran_step [of _ "take 8 p" "drop 8 p"])
  next
    case False
    then show ?thesis by (subst hw_u64_loop.simps) (simp add: crc_ran_refl)
  qed
qed

lemma u64_copy_loop:
  "d + length src \<le> length dst \<Longrightarrow> crc_copied c src dst d (hw_u64_copy_loop pl (ucast c) src dst d)"
proof (induction src arbitrary: c dst d rule: length_induct)
  case (1 src)
  show ?case
  proof (cases "8 \<le> length src")
    case True
    have "crc_copied (foldl crc_byte c (take 8 src)) (drop 8 src) (memcpy_at d (take 8 src) dst) (d + 8)
        (hw_u64_copy_loop pl (ucast (foldl crc_byte c (take 8 src))) (drop 8 src) (memcpy_at d (take 8 src) dst) (d + 8))"
      using 1 True by simp
    then have "crc_copied c src dst d
        (hw_u64_copy_loop pl (ucast (foldl crc_byte c (take 8 src))) (drop 8 src) (memcpy_at d (take 8 src) dst) (d + 8))"
      using True 1(2) by (intro crc_copied_step [of src "take 8 src" "drop 8 src"]) simp_all
    then show ?thesis
      using True by (subst hw_u64_copy_loop.simps) (simp add: u64_step Let_def)
  next
    case False
    then show ?thesis by (subst hw_u64_copy_loop.simps) (simp add: crc_copied_refl)
  qed
qed

lemma u8_copy_loop:
  "d + length src \<le> length dst \<Longrightarrow>
     hw_u8_copy_loop pl (ucast c) src dst d = (ucast (foldl crc_byte c src), memcpy_at d src dst)"
proof (induction src arbitrary: c dst d)
  case Nil
  then show ?case by simp
next
  case (Cons b src)
  then show ?case
    using memcpy_at_append [of d "[b]" src dst] by (simp add: list_update_memcpy u8_step)
qed

lemma hw_extend_sw: "brix_crc32c_hw_extend pl crc p = brix_crc32c_sw_extend crc p"
proof -
  obtain st q where l: "hw_u64_loop pl (ucast (crc XOR crc_ones)) p = (st, q)" by fastforce
  obtain xs where xs: "p = xs @ q" "st = ucast (foldl crc_byte (crc XOR crc_ones) xs)"
    using u64_loop [of "crc XOR crc_ones" p] unfolding l by (rule crc_ranE)
  have f: "foldl crc_byte (crc XOR crc_ones) p = foldl crc_byte (foldl crc_byte (crc XOR crc_ones) xs) q"
    by (simp add: xs(1))
  also have "\<dots> = foldl crc_byte (foldl crc_byte (foldl crc_byte (crc XOR crc_ones) xs) (take 4 q)) (drop 4 q)"
    by (rule foldl_take_drop)
  finally have f4: "foldl crc_byte (crc XOR crc_ones) p
    = foldl crc_byte (foldl crc_byte (foldl crc_byte (crc XOR crc_ones) xs) (take 4 q)) (drop 4 q)" .
  show ?thesis
  proof (cases "4 \<le> length q")
    case True
    then show ?thesis
      by (simp add: brix_crc32c_hw_extend_def brix_crc32c_sw_extend_def l xs(2) u32_step u8_foldl f4)
  next
    case False
    then show ?thesis
      by (simp add: brix_crc32c_hw_extend_def brix_crc32c_sw_extend_def l xs(2) u8_foldl f)
  qed
qed

lemma copy_hw_sw:
  assumes "d + length src \<le> length dst"
  shows "brix_crc32c_copy_hw pl src dst d = (brix_crc32c_sw_extend 0 src, memcpy_at d src dst)"
proof -
  obtain st q dst' d' where l: "hw_u64_copy_loop pl (ucast crc_ones) src dst d = (st, q, dst', d')"
    by (metis surj_pair)
  obtain xs where xs: "src = xs @ q" "st = ucast (foldl crc_byte crc_ones xs)"
    "dst' = memcpy_at d xs dst" "d' = d + length xs"
    using u64_copy_loop [OF assms, of crc_ones] unfolding l by (rule crc_copiedE)
  have f: "foldl crc_byte crc_ones src = foldl crc_byte (foldl crc_byte crc_ones xs) q"
    by (simp add: xs(1))
  have whole: "memcpy_at (d + length xs) q (memcpy_at d xs dst) = memcpy_at d src dst"
    using assms xs(1) memcpy_at_append [of d xs q dst] by simp
  have tail: "memcpy_at (d + length xs + 4) (drop 4 q) (memcpy_at (d + length xs) (take 4 q) (memcpy_at d xs dst))
      = memcpy_at d src dst" if "4 \<le> length q"
    using that assms xs(1) whole memcpy_at_append [of "d + length xs" "take 4 q" "drop 4 q" "memcpy_at d xs dst"]
    by simp
  have len: "d + length xs + length q \<le> length dst" using assms xs(1) by simp
  show ?thesis
  proof (cases "4 \<le> length q")
    case True
    have "hw_u8_copy_loop pl (ucast (foldl crc_byte (foldl crc_byte crc_ones xs) (take 4 q))) (drop 4 q)
        (memcpy_at (d + length xs) (take 4 q) (memcpy_at d xs dst)) (d + length xs + 4)
      = (ucast (foldl crc_byte crc_ones src), memcpy_at d src dst)"
      using True len by (subst u8_copy_loop)
        (simp_all add: f tail foldl_take_drop [of crc_byte _ q 4])
    then show ?thesis
      using True by (simp add: brix_crc32c_copy_hw_def brix_crc32c_sw_extend_def l [simplified] xs(2-4) u32_step Let_def)
  next
    case False
    have "hw_u8_copy_loop pl (ucast (foldl crc_byte crc_ones xs)) q (memcpy_at d xs dst) (d + length xs)
      = (ucast (foldl crc_byte crc_ones src), memcpy_at d src dst)"
      using len by (subst u8_copy_loop) (simp_all add: f whole)
    then show ?thesis
      using False by (simp add: brix_crc32c_copy_hw_def brix_crc32c_sw_extend_def l [simplified] xs(2-4))
  qed
qed

end

lemma crc_copied_trans:
  assumes "crc_copied c src dst d (ucast c', q, dst', d')" "d + length src \<le> length dst"
    and "d' + length q \<le> length dst' \<Longrightarrow> crc_copied c' q dst' d' r"
  shows "crc_copied c src dst d r"
proof -
  obtain xs where xs: "src = xs @ q" "ucast c' = (ucast (foldl crc_byte c xs) :: u64)"
    "dst' = memcpy_at d xs dst" "d' = d + length xs"
    using assms(1) by (rule crc_copiedE)
  then show ?thesis
    using assms(2,3) by (intro crc_copied_step [of src xs q]) (simp_all add: ucast_u64_inj)
qed

lemma crc_copied_all:
  assumes "crc_copied c src dst d (ucast st, [], dst', d')"
  shows "st = foldl crc_byte c src \<and> dst' = memcpy_at d src dst"
  using assms by (auto simp: crc_copied_def ucast_u64_inj)

lemma crc_ran_trans:
  assumes "crc_ran c p (ucast c', q)" "crc_ran c' q r"
  shows "crc_ran c p r"
proof -
  obtain xs where "p = xs @ q" "ucast c' = (ucast (foldl crc_byte c xs) :: u64)"
    using assms(1) by (rule crc_ranE)
  then show ?thesis using assms(2) by (intro crc_ran_step [of p xs q]) (simp_all add: ucast_u64_inj)
qed

lemma crc_ran_all: "crc_ran c p (ucast st, []) \<Longrightarrow> st = foldl crc_byte c p"
  by (auto simp: crc_ran_def ucast_u64_inj)

lemma crc_ran_take: "crc_ran c p (ucast (foldl crc_byte c (take n p)), drop n p)"
  by (rule crc_ran_step [of p "take n p" "drop n p"]) (simp_all add: crc_ran_refl)

lemma crc_copied_take:
  assumes "d + length src \<le> length dst" "n \<le> length src"
  shows "crc_copied c src dst d (ucast (foldl crc_byte c (take n src)), drop n src, memcpy_at d (take n src) dst, d + n)"
  using assms crc_copied_refl [of "foldl crc_byte c (take n src)" "drop n src" "memcpy_at d (take n src) dst" "d + n"]
  by (intro crc_copied_step [of src "take n src" "drop n src"]) simp_all

lemma arm_loop_rest: "arm64_u64_loop pl c p = (st, q) \<Longrightarrow> length q < 8"
proof (induction pl c p rule: arm64_u64_loop.induct)
  case (1 pl c p)
  show ?case
    using 1(1) 1(2) [unfolded arm64_u64_loop.simps [of pl c p]] by (auto split: if_splits)
qed

lemma arm_copy_loop_rest: "arm64_u64_copy_loop pl c src dst d = (st, q, t, e) \<Longrightarrow> length q < 8"
proof (induction pl c src dst d rule: arm64_u64_copy_loop.induct)
  case (1 pl c src dst d)
  show ?case
    using 1(1) 1(2) [unfolded arm64_u64_copy_loop.simps [of pl c src dst d]]
    by (auto simp: Let_def split: if_splits)
qed

context crc_instructions
begin

lemma arm_loop: "case arm64_u64_loop pl c p of (st, q) \<Rightarrow> crc_ran c p (ucast st, q)"
proof (induction p arbitrary: c rule: length_induct)
  case (1 p)
  show ?case
  proof (cases "8 \<le> length p")
    case True
    then have "case arm64_u64_loop pl (foldl crc_byte c (take 8 p)) (drop 8 p) of
        (st, q) \<Rightarrow> crc_ran (foldl crc_byte c (take 8 p)) (drop 8 p) (ucast st, q)"
      using 1 by simp
    then show ?thesis
      using True by (subst arm64_u64_loop.simps)
        (auto simp: arm_steps intro: crc_ran_trans [OF crc_ran_take [of c p 8]] split: prod.splits)
  next
    case False
    then show ?thesis by (subst arm64_u64_loop.simps) (simp add: crc_ran_refl)
  qed
qed

lemma arm_copy_loop:
  "d + length src \<le> length dst \<Longrightarrow>
     case arm64_u64_copy_loop pl c src dst d of (st, q, dst', d') \<Rightarrow> crc_copied c src dst d (ucast st, q, dst', d')"
proof (induction src arbitrary: c dst d rule: length_induct)
  case (1 src)
  show ?case
  proof (cases "8 \<le> length src")
    case True
    let ?c = "foldl crc_byte c (take 8 src)" and ?dst = "memcpy_at d (take 8 src) dst"
    obtain st q dst' d' where r: "arm64_u64_copy_loop pl ?c (drop 8 src) ?dst (d + 8) = (st, q, dst', d')"
      by (metis surj_pair)
    have "case arm64_u64_copy_loop pl ?c (drop 8 src) ?dst (d + 8) of
        (st, q, dst', d') \<Rightarrow> crc_copied ?c (drop 8 src) ?dst (d + 8) (ucast st, q, dst', d')"
      using 1 True by simp
    then have "crc_copied c src dst d (ucast st, q, dst', d')"
      using True 1(2) unfolding r by (intro crc_copied_trans [OF crc_copied_take [of d src dst 8]]) simp_all
    then show ?thesis
      using True r by (subst arm64_u64_copy_loop.simps) (simp add: arm_steps Let_def)
  next
    case False
    then show ?thesis by (subst arm64_u64_copy_loop.simps) (simp add: crc_copied_refl)
  qed
qed

lemma arm_extend_sw: "brix_crc32c_arm64_extend pl crc p = brix_crc32c_sw_extend crc p"
proof -
  obtain st q where l: "arm64_u64_loop pl (crc XOR crc_ones) p = (st, q)" by fastforce
  have r0: "crc_ran (crc XOR crc_ones) p (ucast st, q)"
    using arm_loop [of "crc XOR crc_ones" p] by (simp add: l)
  obtain st1 q1 where s1: "(if 4 \<le> length q then (arm_crc32cw pl st (le_word (take 4 q)), drop 4 q) else (st, q)) = (st1, q1)"
    by (metis surj_pair)
  have r1: "crc_ran (crc XOR crc_ones) p (ucast st1, q1)"
    using s1 r0 crc_ran_trans [OF r0 crc_ran_take [of st q 4]] by (auto simp: arm_steps split: if_splits)
  obtain st2 q2 where s2: "(if 2 \<le> length q1 then (arm_crc32ch pl st1 (le_word (take 2 q1)), drop 2 q1) else (st1, q1)) = (st2, q2)"
    by (metis surj_pair)
  have r2: "crc_ran (crc XOR crc_ones) p (ucast st2, q2)"
    using s2 r1 crc_ran_trans [OF r1 crc_ran_take [of st1 q1 2]] by (auto simp: arm_steps split: if_splits)
  have "crc_ran st2 q2 (ucast (foldl crc_byte st2 q2), [])"
    using crc_ran_take [of st2 q2 "length q2"] by simp
  then have f: "foldl crc_byte st2 q2 = foldl crc_byte (crc XOR crc_ones) p"
    using crc_ran_all [OF crc_ran_trans [OF r2]] by simp
  have "length q < 8" using l by (rule arm_loop_rest)
  then have "length q2 < 2" using s1 s2 by (auto split: if_splits)
  then have "(if q2 \<noteq> [] then arm_crc32cb pl st2 (hd q2) else st2) = foldl crc_byte st2 q2"
    by (cases q2) (auto simp: arm_steps less_Suc_eq numeral_2_eq_2)
  then show ?thesis
    using f by (simp add: brix_crc32c_arm64_extend_def brix_crc32c_sw_extend_def l s1 s2)
qed

lemma arm_copy_sw:
  assumes "d + length src \<le> length dst"
  shows "brix_crc32c_arm64_copy pl src dst d = (brix_crc32c_sw_extend 0 src, memcpy_at d src dst)"
proof -
  obtain st q t e where l: "arm64_u64_copy_loop pl crc_ones src dst d = (st, q, t, e)" by (metis surj_pair)
  have r0: "crc_copied crc_ones src dst d (ucast st, q, t, e)"
    using arm_copy_loop [OF assms, of crc_ones] by (simp add: l)
  obtain st1 q1 t1 e1 where s1: "(if 4 \<le> length q then let v = (le_word (take 4 q) :: u32)
      in (arm_crc32cw pl st v, drop 4 q, memcpy_at e (le_bytes 4 v) t, e + 4) else (st, q, t, e)) = (st1, q1, t1, e1)"
    by (metis surj_pair)
  have r1: "crc_copied crc_ones src dst d (ucast st1, q1, t1, e1)"
    using s1 r0 crc_copied_trans [OF r0 assms crc_copied_take [of e q t 4 st]]
    by (auto simp: arm_steps Let_def split: if_splits)
  obtain st2 q2 t2 e2 where s2: "(if 2 \<le> length q1 then let v = (le_word (take 2 q1) :: u16)
      in (arm_crc32ch pl st1 v, drop 2 q1, memcpy_at e1 (le_bytes 2 v) t1, e1 + 2) else (st1, q1, t1, e1)) = (st2, q2, t2, e2)"
    by (metis surj_pair)
  have r2: "crc_copied crc_ones src dst d (ucast st2, q2, t2, e2)"
    using s2 r1 crc_copied_trans [OF r1 assms crc_copied_take [of e1 q1 t1 2 st1]]
    by (auto simp: arm_steps Let_def split: if_splits)
  have fin: "crc_copied crc_ones src dst d (ucast (foldl crc_byte st2 q2), [], memcpy_at e2 q2 t2, e2 + length q2)"
    using crc_copied_trans [OF r2 assms crc_copied_take [of e2 q2 t2 "length q2" st2]] by simp
  have e2: "q2 \<noteq> [] \<Longrightarrow> e2 < length t2"
    using r2 assms by (cases q2) (auto simp: crc_copied_def)
  have "length q < 8" using l by (rule arm_copy_loop_rest)
  then have "length q2 < 2" using s1 s2 by (auto simp: Let_def split: if_splits)
  then have "(if q2 \<noteq> [] then (arm_crc32cb pl st2 (hd q2), t2[e2 := hd q2]) else (st2, t2))
      = (foldl crc_byte st2 q2, memcpy_at e2 q2 t2)"
    using e2 by (cases q2) (auto simp: arm_steps list_update_memcpy less_Suc_eq numeral_2_eq_2)
  then show ?thesis
    using crc_copied_all [OF fin] by (simp add: brix_crc32c_arm64_copy_def brix_crc32c_sw_extend_def l s1 s2)
qed

end

lemma le_bytes8_le_word [simp]:
  "off + 8 \<le> length p \<Longrightarrow> le_bytes 8 (le_word (slice off 8 p) :: u64) = slice off 8 p"
  by simp

text \<open>The bytes a triple of streams has stored once it stands at byte \<open>i\<close> of each stream.\<close>

definition hw3_window :: "nat \<Rightarrow> nat \<Rightarrow> nat \<Rightarrow> nat \<Rightarrow> nat \<Rightarrow> bool" where
  "hw3_window d L lo hi j \<longleftrightarrow> (d + lo \<le> j \<and> j < d + hi) \<or> (d + L + lo \<le> j \<and> j < d + L + hi)
     \<or> (d + L * 2 + lo \<le> j \<and> j < d + L * 2 + hi)"

lemma hw3_store:
  assumes "i + 8 \<le> L" "L * 3 \<le> length src" "d + L * 3 \<le> length dst"
  defines "dst' \<equiv> memcpy_at (d + i + L * 2) (slice (i + L * 2) 8 src)
     (memcpy_at (d + i + L) (slice (i + L) 8 src) (memcpy_at (d + i) (slice i 8 src) dst))"
  shows "length dst' = length dst"
    and "dst' ! j = (if hw3_window d L i (i + 8) j then src ! (j - d) else dst ! j)"
proof -
  have len: "length (slice i 8 src) = 8" "length (slice (i + L) 8 src) = 8" "length (slice (i + L * 2) 8 src) = 8"
    using assms by simp_all
  show "length dst' = length dst" using assms len by (simp add: dst'_def)
  have s: "slice (i + k) 8 src ! (j - (d + i + k)) = src ! (j - d)"
    if "d + i + k \<le> j" "j < d + i + k + 8" "k \<le> L * 2" for k
  proof -
    have "slice (i + k) 8 src ! (j - (d + i + k)) = src ! (i + k + (j - (d + i + k)))"
      using that assms by (intro nth_slice) linarith+
    then show ?thesis using that by simp
  qed
  show "dst' ! j = (if hw3_window d L i (i + 8) j then src ! (j - d) else dst ! j)"
    using assms len s [of 0] s [of L] s [of "L * 2"]
    by (auto simp: dst'_def nth_memcpy_at hw3_window_def)
qed

context crc_instructions
begin

lemma align_ran: "crc_ran c p (hw3_align pl a (ucast c) p)"
proof (induction p arbitrary: a c)
  case Nil
  then show ?case by (simp add: crc_ran_refl)
next
  case (Cons b p)
  have "crc_ran c (b # p) (hw3_align pl (a + 1) (ucast (crc_byte c b)) p)"
    by (rule crc_ran_step [of _ "[b]" p]) (simp_all add: Cons.IH)
  then show ?case by (simp add: u8_step crc_ran_refl del: One_nat_def)
qed

lemma align_copied:
  "d + length src \<le> length dst \<Longrightarrow> crc_copied c src dst d (hw3_copy_align pl a (ucast c) src dst d)"
proof (induction src arbitrary: a c dst d)
  case Nil
  then show ?case by (simp add: crc_copied_refl)
next
  case (Cons b src)
  have upd: "dst[d := b] = memcpy_at d [b] dst" using Cons.prems by (intro list_update_memcpy) simp
  have "crc_copied (crc_byte c b) src (dst[d := b]) (d + 1)
      (hw3_copy_align pl (a + 1) (ucast (crc_byte c b)) src (dst[d := b]) (d + 1))"
    using Cons.prems by (intro Cons.IH) simp
  then have "crc_copied c (b # src) dst d (hw3_copy_align pl (a + 1) (ucast (crc_byte c b)) src (dst[d := b]) (d + 1))"
    by (intro crc_copied_step [OF _ Cons.prems, of "[b]" src]) (simp_all add: upd)
  then show ?case by (simp add: u8_step crc_copied_refl)
qed

lemma words:
  assumes "L * 3 \<le> length p"
  shows "L = i + 8 * Suc n \<Longrightarrow> hw3_words pl L p i (ucast c0, ucast c1, ucast c2) =
    (ucast (foldl crc_byte c0 (slice i (L - i) p)), ucast (foldl crc_byte c1 (slice (i + L) (L - i) p)),
     ucast (foldl crc_byte c2 (slice (i + L * 2) (L - i) p)))"
proof (induction n arbitrary: i c0 c1 c2)
  case 0
  then show ?case using assms by (subst hw3_words.simps) (simp add: u64_step)
next
  case (Suc n)
  have sp: "foldl crc_byte c (slice (i + k) (L - i) p)
      = foldl crc_byte (foldl crc_byte c (slice (i + k) 8 p)) (slice (i + 8 + k) (L - (i + 8)) p)" for c k
    using slice_split [of 8 "L - i" "i + k" p] Suc.prems by (simp add: ac_simps)
  have "hw3_words pl L p i (ucast c0, ucast c1, ucast c2)
      = hw3_words pl L p (i + 8) (ucast (foldl crc_byte c0 (slice i 8 p)),
          ucast (foldl crc_byte c1 (slice (i + L) 8 p)), ucast (foldl crc_byte c2 (slice (i + L * 2) 8 p)))"
    using assms Suc.prems by (subst hw3_words.simps) (simp add: u64_step)
  also have "\<dots> = (ucast (foldl crc_byte c0 (slice i (L - i) p)), ucast (foldl crc_byte c1 (slice (i + L) (L - i) p)),
     ucast (foldl crc_byte c2 (slice (i + L * 2) (L - i) p)))"
    using Suc.IH [of "i + 8"] Suc.prems sp [of c0 0] sp [of c1 L] sp [of c2 "L * 2"] by simp
  finally show ?case .
qed

lemma copy_words:
  assumes "L * 3 \<le> length src"
  shows "L = i + 8 * Suc n \<Longrightarrow> d + L * 3 \<le> length dst \<Longrightarrow>
    \<exists>dst'. hw3_copy_words pl L src dst d i cs = (hw3_words pl L src i cs, dst') \<and> length dst' = length dst
      \<and> (\<forall>j. dst' ! j = (if hw3_window d L i L j then src ! (j - d) else dst ! j))"
proof (induction n arbitrary: i dst cs)
  case 0
  obtain c0 c1 c2 where cs: "cs = (c0, c1, c2)" by (cases cs) auto
  show ?case
    using 0 assms hw3_store [of i L src d dst]
    unfolding cs hw3_words.simps [of pl L src i] hw3_copy_words.simps [of pl L src dst d i]
    by (simp add: Let_def)
next
  case (Suc n)
  obtain c0 c1 c2 where cs: "cs = (c0, c1, c2)" by (cases cs) auto
  let ?dst = "memcpy_at (d + i + L * 2) (slice (i + L * 2) 8 src)
     (memcpy_at (d + i + L) (slice (i + L) 8 src) (memcpy_at (d + i) (slice i 8 src) dst))"
  let ?cs = "(mm_crc32_u64 pl c0 (le_word (slice i 8 src)), mm_crc32_u64 pl c1 (le_word (slice (i + L) 8 src)),
     mm_crc32_u64 pl c2 (le_word (slice (i + L * 2) 8 src)))"
  have st: "length ?dst = length dst"
    "\<And>j. ?dst ! j = (if hw3_window d L i (i + 8) j then src ! (j - d) else dst ! j)"
    using Suc.prems assms hw3_store [of i L src d dst] by simp_all
  obtain dst' where dst': "hw3_copy_words pl L src ?dst d (i + 8) ?cs = (hw3_words pl L src (i + 8) ?cs, dst')"
    "length dst' = length dst"
    "\<forall>j. dst' ! j = (if hw3_window d L (i + 8) L j then src ! (j - d) else ?dst ! j)"
    using Suc.IH [of "i + 8" ?dst ?cs] Suc.prems st(1) by auto
  have win: "hw3_window d L i L j \<longleftrightarrow> hw3_window d L i (i + 8) j \<or> hw3_window d L (i + 8) L j" for j
    using Suc.prems unfolding hw3_window_def by auto
  have "\<forall>j. dst' ! j = (if hw3_window d L i L j then src ! (j - d) else dst ! j)"
    using dst'(3) st(2) win by simp
  moreover have "hw3_copy_words pl L src dst d i cs = (hw3_words pl L src i cs, dst')"
    using Suc.prems assms dst'(1)
    unfolding cs hw3_words.simps [of pl L src i] hw3_copy_words.simps [of pl L src dst d i]
    by (simp add: Let_def)
  ultimately show ?case using dst'(2) by blast
qed

lemma copy_words_block:
  assumes "L * 3 \<le> length src" "d + L * 3 \<le> length dst" "8 dvd L" "0 < L"
  shows "hw3_copy_words pl L src dst d 0 cs = (hw3_words pl L src 0 cs, memcpy_at d (take (L * 3) src) dst)"
proof -
  obtain n where n: "L = 0 + 8 * Suc n"
    using assms(3,4) by (metis dvd_def add_0 mult_0_right not0_implies_Suc less_numeral_extra(3))
  obtain dst' where dst': "hw3_copy_words pl L src dst d 0 cs = (hw3_words pl L src 0 cs, dst')"
    "length dst' = length dst" "\<forall>j. dst' ! j = (if hw3_window d L 0 L j then src ! (j - d) else dst ! j)"
    using copy_words [OF assms(1) n assms(2)] by blast
  have "hw3_window d L 0 L j \<longleftrightarrow> d \<le> j \<and> j < d + L * 3" for j
    unfolding hw3_window_def by auto
  then have "dst' = memcpy_at d (take (L * 3) src) dst"
    using dst'(2,3) assms(1,2) by (intro nth_equalityI) (auto simp: nth_memcpy_at)
  then show ?thesis using dst'(1) by simp
qed

lemma recombine:
  assumes "L * 3 \<le> length p"
  shows "crc_zeros L (crc_zeros L (foldl crc_byte c (slice 0 L p)) XOR foldl crc_byte 0 (slice L L p))
      XOR foldl crc_byte 0 (slice (L * 2) L p) = foldl crc_byte c (take (L * 3) p)"
proof -
  have "take (L * 3) p = (slice 0 L p @ slice L L p) @ slice (L * 2) L p"
    using slice_split [of L "L * 3" 0 p] slice_split [of L "L * 2" L p] by (simp add: slice_def mult_2 mult_2_right)
  moreover have "length (slice L L p) = L" "length (slice (L * 2) L p) = L" using assms by simp_all
  ultimately show ?thesis by (simp only: crc_foldl_append)
qed

lemma block_step:
  assumes "L * 3 \<le> length p" "8 dvd L" "0 < L" "\<And>x. brix_crc32c_shift tab x = crc_zeros L x"
  shows "(let (crc0, crc1, crc2) = hw3_words pl L p 0 (ucast c, 0, 0);
              crc0 = ucast (brix_crc32c_shift tab (ucast crc0)) XOR crc1
          in ucast (brix_crc32c_shift tab (ucast crc0)) XOR crc2) = (ucast (foldl crc_byte c (take (L * 3) p)) :: u64)"
proof -
  obtain n where "L = 0 + 8 * Suc n"
    using assms(2,3) by (metis dvd_def add_0 mult_0_right not0_implies_Suc less_numeral_extra(3))
  from words [OF assms(1) this, of c 0 0] recombine [OF assms(1), of c] show ?thesis
    by (simp add: Let_def assms(4) flip: unsigned_xor_eq)
qed

lemma blocks_ran:
  assumes "8 dvd L" "0 < L" "\<And>x. brix_crc32c_shift tab x = crc_zeros L x"
  shows "crc_ran c p (hw3_blocks pl tab L (ucast c) p)"
proof (induction p arbitrary: c rule: length_induct)
  case (1 p)
  show ?case
  proof (cases "length p < L * 3")
    case True
    then show ?thesis by (subst hw3_blocks.simps) (simp add: crc_ran_refl)
  next
    case False
    let ?c = "foldl crc_byte c (take (L * 3) p)"
    have "hw3_blocks pl tab L (ucast c) p = hw3_blocks pl tab L (ucast ?c) (drop (L * 3) p)"
      using False assms(2) block_step [OF _ assms, of p c]
      by (subst hw3_blocks.simps) (auto simp: Let_def split: prod.splits)
    moreover have "crc_ran ?c (drop (L * 3) p) (hw3_blocks pl tab L (ucast ?c) (drop (L * 3) p))"
      using 1 False assms(2) by simp
    ultimately show ?thesis using crc_ran_trans [OF crc_ran_take] by simp
  qed
qed

lemma blocks_copied:
  assumes "8 dvd L" "0 < L" "\<And>x. brix_crc32c_shift tab x = crc_zeros L x"
  shows "d + length src \<le> length dst \<Longrightarrow> crc_copied c src dst d (hw3_copy_blocks pl tab L (ucast c) src dst d)"
proof (induction src arbitrary: c dst d rule: length_induct)
  case (1 src)
  show ?case
  proof (cases "length src < L * 3")
    case True
    then show ?thesis by (subst hw3_copy_blocks.simps) (simp add: crc_copied_refl)
  next
    case False
    let ?c = "foldl crc_byte c (take (L * 3) src)" and ?dst = "memcpy_at d (take (L * 3) src) dst"
    have "hw3_copy_words pl L src dst d 0 (ucast c, 0, 0) = (hw3_words pl L src 0 (ucast c, 0, 0), ?dst)"
      using False 1(2) assms(1,2) by (intro copy_words_block) simp_all
    then have "hw3_copy_blocks pl tab L (ucast c) src dst d
        = hw3_copy_blocks pl tab L (ucast ?c) (drop (L * 3) src) ?dst (d + L * 3)"
      using False assms(2) block_step [OF _ assms, of src c]
      by (subst hw3_copy_blocks.simps) (auto simp: Let_def split: prod.splits)
    moreover have "crc_copied ?c (drop (L * 3) src) ?dst (d + L * 3)
        (hw3_copy_blocks pl tab L (ucast ?c) (drop (L * 3) src) ?dst (d + L * 3))"
      using 1 False assms(2) by simp
    ultimately show ?thesis
      using 1(2) False crc_copied_trans [OF crc_copied_take [of d src dst "L * 3" c]] by simp
  qed
qed

end

lemma crc_ran_state: "crc_ran c p (s, q) \<Longrightarrow> \<exists>c'::u32. s = ucast c' \<and> crc_ran c p (ucast c', q)"
  by (auto simp: crc_ran_def)

lemma crc_copied_state:
  "crc_copied c src dst d (s, q, t, e) \<Longrightarrow> \<exists>c'::u32. s = ucast c' \<and> crc_copied c src dst d (ucast c', q, t, e)"
  by (auto simp: crc_copied_def)

context crc_instructions
begin

lemma hw3_extend_sw: "brix_crc32c_hw3_extend pl a crc p = brix_crc32c_sw_extend crc p"
proof -
  let ?c = "crc XOR crc_ones"
  obtain s0 p0 where 0: "hw3_align pl a (ucast ?c) p = (s0, p0)" by (metis surj_pair)
  obtain c0 :: u32 where c0: "s0 = ucast c0" "crc_ran ?c p (ucast c0, p0)"
    using crc_ran_state align_ran [of ?c p a, unfolded 0] by blast
  obtain s1 p1 where 1: "hw3_blocks pl brix_crc32c_long_tab BRIX_CRC32C_LONG (ucast c0) p0 = (s1, p1)"
    by (metis surj_pair)
  obtain c1 :: u32 where c1: "s1 = ucast c1" "crc_ran c0 p0 (ucast c1, p1)"
    using crc_ran_state blocks_ran [of BRIX_CRC32C_LONG brix_crc32c_long_tab c0 p0] 1 by (fastforce simp: crc_shift_tabs)
  obtain s2 p2 where 2: "hw3_blocks pl brix_crc32c_short_tab BRIX_CRC32C_SHORT (ucast c1) p1 = (s2, p2)"
    by (metis surj_pair)
  obtain c2 :: u32 where c2: "s2 = ucast c2" "crc_ran c1 p1 (ucast c2, p2)"
    using crc_ran_state blocks_ran [of BRIX_CRC32C_SHORT brix_crc32c_short_tab c1 p1] 2 by (fastforce simp: crc_shift_tabs)
  obtain s3 p3 where 3: "hw_u64_loop pl (ucast c2) p2 = (s3, p3)" by (metis surj_pair)
  obtain c3 :: u32 where c3: "s3 = ucast c3" "crc_ran c2 p2 (ucast c3, p3)"
    using crc_ran_state u64_loop [of c2 p2, unfolded 3] by blast
  have "crc_ran c3 p3 (ucast (foldl crc_byte c3 p3), [])"
    using crc_ran_take [of c3 p3 "length p3"] by simp
  then have "crc_ran ?c p (ucast (foldl crc_byte c3 p3), [])"
    using c0(2) c1(2) c2(2) c3(2) by (blast intro: crc_ran_trans)
  then have "foldl crc_byte c3 p3 = foldl crc_byte ?c p" by (rule crc_ran_all)
  then show ?thesis
    by (simp add: brix_crc32c_hw3_extend_def brix_crc32c_sw_extend_def 0 1 2 3 c0(1) c1(1) c2(1) c3(1) u8_foldl)
qed

lemma copy_hw3_sw:
  assumes len: "d + length src \<le> length dst"
  shows "brix_crc32c_copy_hw3 pl a src dst d = (brix_crc32c_sw_extend 0 src, memcpy_at d src dst)"
proof -
  obtain s0 q0 t0 d0 where 0: "hw3_copy_align pl a (ucast crc_ones) src dst d = (s0, q0, t0, d0)" by (metis surj_pair)
  obtain c0 :: u32 where c0: "s0 = ucast c0" "crc_copied crc_ones src dst d (ucast c0, q0, t0, d0)"
    using crc_copied_state align_copied [OF len, of crc_ones a, unfolded 0] by blast
  have l0: "d0 + length q0 \<le> length t0" using c0(2) len by (auto simp: crc_copied_def)
  obtain s1 q1 t1 d1 where 1: "hw3_copy_blocks pl brix_crc32c_long_tab BRIX_CRC32C_LONG (ucast c0) q0 t0 d0 = (s1, q1, t1, d1)"
    by (metis surj_pair)
  obtain c1 :: u32 where c1: "s1 = ucast c1" "crc_copied c0 q0 t0 d0 (ucast c1, q1, t1, d1)"
    using blocks_copied [of BRIX_CRC32C_LONG brix_crc32c_long_tab d0 q0 t0 c0] l0 1 crc_copied_state
    by (fastforce simp: crc_shift_tabs)
  have l1: "d1 + length q1 \<le> length t1" using c1(2) l0 by (auto simp: crc_copied_def)
  obtain s2 q2 t2 d2 where 2: "hw3_copy_blocks pl brix_crc32c_short_tab BRIX_CRC32C_SHORT (ucast c1) q1 t1 d1 = (s2, q2, t2, d2)"
    by (metis surj_pair)
  obtain c2 :: u32 where c2: "s2 = ucast c2" "crc_copied c1 q1 t1 d1 (ucast c2, q2, t2, d2)"
    using blocks_copied [of BRIX_CRC32C_SHORT brix_crc32c_short_tab d1 q1 t1 c1] l1 2 crc_copied_state
    by (fastforce simp: crc_shift_tabs)
  have l2: "d2 + length q2 \<le> length t2" using c2(2) l1 by (auto simp: crc_copied_def)
  obtain s3 q3 t3 d3 where 3: "hw_u64_copy_loop pl (ucast c2) q2 t2 d2 = (s3, q3, t3, d3)" by (metis surj_pair)
  obtain c3 :: u32 where c3: "s3 = ucast c3" "crc_copied c2 q2 t2 d2 (ucast c3, q3, t3, d3)"
    using crc_copied_state u64_copy_loop [OF l2, of c2, unfolded 3] by blast
  have l3: "d3 + length q3 \<le> length t3" using c3(2) l2 by (auto simp: crc_copied_def)
  have "crc_copied c3 q3 t3 d3 (ucast (foldl crc_byte c3 q3), [], memcpy_at d3 q3 t3, d3 + length q3)"
    using crc_copied_take [OF l3, of "length q3" c3] by simp
  then have "crc_copied crc_ones src dst d (ucast (foldl crc_byte c3 q3), [], memcpy_at d3 q3 t3, d3 + length q3)"
    using c0(2) c1(2) c2(2) c3(2) len l0 l1 l2 by (meson crc_copied_trans)
  from crc_copied_all [OF this] show ?thesis
    using u8_copy_loop [OF l3, of c3]
    by (simp add: brix_crc32c_copy_hw3_def brix_crc32c_sw_extend_def 0 [simplified] 1 2 3 c0(1) c1(1) c2(1) c3(1))
qed

lemma extend_sw: "brix_crc32c_extend pl a crc (Some buf) len = brix_crc32c_sw_extend crc (take len buf)"
  by (simp add: brix_crc32c_extend_def Let_def hw3_extend_sw hw_extend_sw arm_extend_sw)

lemma copy_value_sw:
  assumes "len \<le> length src" "d + len \<le> length dst"
  shows "brix_crc32c_copy_value pl a (Some src) (Some dst) d len
    = (brix_crc32c_sw_extend 0 (take len src), Some (memcpy_at d (take len src) dst))"
proof -
  have l: "d + length (take len src) \<le> length dst" using assms by simp
  have "brix_crc32c_copy_sw (take len src) dst d = (brix_crc32c_sw_extend 0 (take len src), memcpy_at d (take len src) dst)"
    using crc_copy_sw_loop [OF l, of crc_ones] by (simp add: brix_crc32c_copy_sw_def brix_crc32c_sw_extend_def)
  then show ?thesis
    by (simp add: brix_crc32c_copy_value_def Let_def copy_hw3_sw [OF l] copy_hw_sw [OF l] arm_copy_sw [OF l])
qed

end

section \<open>A processor that behaves as documented\<close>

definition crc_reference_platform :: "crc_arch \<Rightarrow> bool \<Rightarrow> crc_platform" where
  "crc_reference_platform ar sse = \<lparr>crc_arch = ar, cpu_supports_sse42 = sse, brix_crc32c_has_sse42 = - 1,
     mm_crc32_u8 = crc_byte,
     mm_crc32_u32 = (\<lambda>c v. foldl crc_byte c (le_bytes 4 v)),
     mm_crc32_u64 = (\<lambda>c v. ucast (foldl crc_byte (ucast c) (le_bytes 8 v))),
     arm_crc32cb = crc_byte,
     arm_crc32ch = (\<lambda>c v. foldl crc_byte c (le_bytes 2 v)),
     arm_crc32cw = (\<lambda>c v. foldl crc_byte c (le_bytes 4 v)),
     arm_crc32cd = (\<lambda>c v. foldl crc_byte c (le_bytes 8 v))\<rparr>"

lemma crc_reference_documented: "crc_platform_documented (crc_reference_platform ar sse)"
  by (simp add: crc_platform_documented_def crc_reference_platform_def)

interpretation crc_ref: crc_instructions "crc_reference_platform ar sse" for ar sse
  by unfold_locales (rule crc_reference_documented)

section \<open>Properties of the engine\<close>

text \<open>
  C12. Whatever the architecture, the buffer's alignment and its length, the dispatched checksum
  (serial SSE4.2, three-way SSE4.2 with the GF(2) tables, ARMv8 or software) is the one the
  bit-serial software loop computes.
\<close>

theorem crc32c_paths_agree:
  assumes "crc_platform_documented pl"
  shows "brix_crc32c_extend pl a crc (Some buf) len = brix_crc32c_sw_extend crc (take len buf)"
  using crc_instructions.extend_sw [OF crc_instructions.intro [OF assms]] .

lemma crc32c_of_a: "brix_crc32c_sw_extend 0 [0x61] = 0xC1D04330"
  by code_simp

theorem crc32c_paths_agree_witness:
  "brix_crc32c_extend (crc_reference_platform CRC_X86_64 True) 3 0 (Some [0x61, 0x62]) 1 = 0xC1D04330"
  using crc32c_paths_agree [OF crc_reference_documented, of CRC_X86_64 True 3 0 "[0x61, 0x62]" 1]
  by (simp add: crc32c_of_a)

text \<open>
  The fused copy-and-checksum entry point, on every path, stores exactly the source bytes at the
  destination cursor, leaves the rest of the destination alone, and returns the software checksum of
  those bytes.
\<close>

theorem crc32c_copy_paths_agree:
  assumes "crc_platform_documented pl" "len \<le> length src" "d + len \<le> length dst"
  shows "brix_crc32c_copy_value pl a (Some src) (Some dst) d len
    = (brix_crc32c_sw_extend 0 (take len src), Some (memcpy_at d (take len src) dst))"
  using crc_instructions.copy_value_sw [OF crc_instructions.intro [OF assms(1)] assms(2,3)] .

theorem crc32c_copy_paths_agree_witness:
  "brix_crc32c_copy_value (crc_reference_platform CRC_ARM64 False) 0 (Some [0x61, 7]) (Some [1, 2, 3]) 1 1
     = (0xC1D04330, Some [1, 0x61, 3])"
  using crc32c_copy_paths_agree [OF crc_reference_documented, of 1 "[0x61, 7]" 1 "[1, 2, 3]" CRC_ARM64 False 0]
  by (simp add: crc32c_of_a memcpy_at_def)

lemma crc32c_sw_append: "brix_crc32c_sw_extend (brix_crc32c_sw_extend c xs) ys = brix_crc32c_sw_extend c (xs @ ys)"
  by (simp add: brix_crc32c_sw_extend_def xor.assoc)

section \<open>What the checksum detects\<close>

lemma crc_bit_zero: "crc_bit c = 0 \<longleftrightarrow> c = 0"
proof
  assume z: "crc_bit c = 0"
  have top: "\<not> bit (drop_bit 1 c) 31" using bit_imp_le_length [of c 32] by (auto simp: bit_simps)
  have b0: "\<not> bit c 0"
  proof
    assume "bit c 0"
    then have "drop_bit 1 c = BRIX_CRC32C_POLY" using z by (simp add: crc_bit_alt)
    then have "bit (drop_bit 1 c) 31 = bit BRIX_CRC32C_POLY 31" by simp
    then show False using top by simp
  qed
  then have d: "drop_bit 1 c = 0" using z by (simp add: crc_bit_alt)
  show "c = 0"
  proof (rule bit_word_eqI)
    fix k assume "k < LENGTH(32)"
    show "bit c k = bit (0::u32) k"
    proof (cases k)
      case (Suc m)
      have "bit (drop_bit 1 c) m = bit (0::u32) m" using d by simp
      then show ?thesis using Suc by (simp add: bit_drop_bit_eq)
    qed (use b0 in simp)
  qed
qed (simp add: crc_bit_alt)

lemma crc_zeros_inj: "crc_zeros n a = crc_zeros n b \<longleftrightarrow> a = b"
proof -
  have "(crc_bit ^^ k) x = 0 \<longleftrightarrow> x = 0" for k x by (induction k) (simp_all add: crc_bit_zero)
  then have "crc_zeros n (a XOR b) = 0 \<longleftrightarrow> a XOR b = 0" by (simp add: crc_zeros_def)
  then show ?thesis by (simp add: crc_zeros_xor)
qed

lemma crc_bits_push: "n \<le> 32 \<Longrightarrow> take_bit (32 - n) w = w \<Longrightarrow> (crc_bit ^^ n) (push_bit n w) = (w::u32)"
proof (induction n)
  case 0
  then show ?case by simp
next
  case (Suc n)
  have nb: "\<not> bit w k" if "32 - Suc n \<le> k" for k
    using that Suc.prems(2) by (metis bit_take_bit_iff not_le)
  have "crc_bit (push_bit (Suc n) w) = push_bit n w"
  proof -
    have "drop_bit 1 (push_bit (Suc n) w) = push_bit n w"
    proof (rule bit_word_eqI)
      fix k assume k: "k < LENGTH(32)"
      have "n \<le> k \<Longrightarrow> bit w (k - n) \<Longrightarrow> k < 31" using nb [of "k - n"] Suc.prems(1) by linarith
      then show "bit (drop_bit 1 (push_bit (Suc n) w)) k = bit (push_bit n w) k"
        using k by (auto simp: bit_simps simp del: push_bit_Suc)
    qed
    moreover have "\<not> bit (push_bit (Suc n) w) 0" by (simp add: bit_simps del: push_bit_Suc)
    ultimately show ?thesis by (simp add: crc_bit_alt del: push_bit_Suc)
  qed
  moreover have "take_bit (32 - n) w = w"
  proof (rule bit_word_eqI)
    fix k
    have "bit w k \<Longrightarrow> k < 32 - n" using nb [of k] by linarith
    then show "bit (take_bit (32 - n) w) k = bit w k" by (auto simp: bit_simps)
  qed
  ultimately show ?case using Suc by (simp add: funpow_swap1 del: push_bit_Suc)
qed

lemma crc_foldl_le_word:
  "length bs \<le> 4 \<Longrightarrow> foldl crc_byte s bs = crc_zeros (length bs) (s XOR le_word bs)"
proof (induction bs arbitrary: s)
  case Nil
  then show ?case by (simp add: crc_zeros_def)
next
  case (Cons b bs)
  have "take_bit 24 (le_word bs :: u32) = le_word bs"
    using Cons.prems by (intro bit_word_eqI) (auto simp: bit_simps bit_le_word)
  then have shift: "crc_zeros 1 (push_bit 8 (le_word bs)) = le_word bs"
    using crc_bits_push [of 8 "le_word bs"] by (simp add: crc_zeros_def)
  have dis: "ucast b OR push_bit 8 (le_word bs) = (ucast b XOR push_bit 8 (le_word bs) :: u32)"
    by (intro bit_word_eqI) (auto simp: bit_simps dest: bit_imp_le_length)
  have "foldl crc_byte s (b # bs) = crc_zeros (length bs) (crc_zeros 1 (s XOR ucast b) XOR le_word bs)"
    using Cons by (simp add: crc_byte_zeros [of s])
  also have "\<dots> = crc_zeros (length bs) (crc_zeros 1 (s XOR ucast b XOR push_bit 8 (le_word bs)))"
    by (simp add: crc_zeros_xor shift [unfolded One_nat_def] xor.assoc)
  finally show ?case by (simp add: crc_zeros_Suc [of "length bs"] dis xor.assoc)
qed

lemma crc32c_burst:
  assumes "length bs = length bs'" "length bs \<le> 4" "bs \<noteq> bs'"
  shows "brix_crc32c_sw_extend c (xs @ bs @ ys) \<noteq> brix_crc32c_sw_extend c (xs @ bs' @ ys)"
proof
  assume "brix_crc32c_sw_extend c (xs @ bs @ ys) = brix_crc32c_sw_extend c (xs @ bs' @ ys)"
  then have "foldl crc_byte (c XOR crc_ones) ((xs @ bs) @ ys) = foldl crc_byte (c XOR crc_ones) ((xs @ bs') @ ys)"
    by (simp add: brix_crc32c_sw_extend_def)
  then have "foldl crc_byte (foldl crc_byte (c XOR crc_ones) xs) bs = foldl crc_byte (foldl crc_byte (c XOR crc_ones) xs) bs'"
    unfolding crc_foldl_append [of _ _ ys] by (simp add: crc_zeros_inj)
  then have w: "le_word bs = (le_word bs' :: u32)"
    using assms(1,2) by (simp add: crc_foldl_le_word crc_zeros_inj)
  have "bs = le_bytes (length bs) (le_word bs :: u32)" using assms(2) by simp
  also have "\<dots> = bs'" using assms(1,2) w by simp
  finally show False using assms(3) by simp
qed

text \<open>
  A page corrupted in one place is always noticed: two buffers of the same length that differ only
  inside a window of at most four consecutive bytes never have the same checksum.
\<close>

theorem crc32c_detects_burst:
  assumes "length bs = length bs'" "length bs \<le> 4" "bs \<noteq> bs'"
  shows "brix_crc32c_sw_extend c (xs @ bs @ ys) \<noteq> brix_crc32c_sw_extend c (xs @ bs' @ ys)"
  using crc32c_burst [OF assms] .

theorem crc32c_detects_burst_witness:
  "brix_crc32c_sw_extend 0 ([1, 2] @ [3, 4] @ [5]) \<noteq> brix_crc32c_sw_extend 0 ([1, 2] @ [3, 20] @ [5])"
  using crc32c_detects_burst [of "[3, 4]" "[3, 20]" 0 "[1, 2]" "[5]"] by simp

end
