(* ===== verification/Page_IO.thy ===== *)
theory Page_IO
  imports Crc32c
begin

text \<open>
  Page-mode framing of \<^verbatim>\<open>src/core/compat/pgio.c\<close>, shared by pgread and pgwrite on both ends of a
  connection: every fragment of at most one 4096-byte page travels behind its CRC-32c, fragments are
  aligned to the \<^emph>\<open>file\<close> offset, and the two decoders either abort on the first bad checksum
  or collect every bad page.  File offsets (\<open>int64_t\<close>) are \<open>int\<close>, with the overflow test of
  the code written out; buffers are byte lists with explicit cursors.

  The specification side is a list of units \<open>(checksum, fragment)\<close>: \<open>pg_wire\<close> is what travels,
  \<open>pg_data\<close> what is delivered, \<open>pg_bad\<close> the pages whose checksum does not match.
\<close>

abbreviation (input) kXR_pgPageSZ :: nat where "kXR_pgPageSZ \<equiv> 4096"
abbreviation (input) XRDP_PG_CKSZ :: nat where "XRDP_PG_CKSZ \<equiv> 4"
abbreviation (input) INT64_MAX :: int where "INT64_MAX \<equiv> 9223372036854775807"

text \<open>Bytes from a file offset to the end of its page (\<open>kXR_pgPageSZ - (cur & (kXR_pgPageSZ - 1))\<close>).\<close>

definition pg_to_boundary :: "int \<Rightarrow> nat" where
  "pg_to_boundary cur = kXR_pgPageSZ - nat (cur AND (int kXR_pgPageSZ - 1))"

lemma pg_to_boundary_mod: "pg_to_boundary cur = 4096 - nat (cur mod 4096)"
proof -
  have "cur AND 4095 = cur mod 4096"
    using take_bit_eq_mask [of 12 cur] by (simp add: take_bit_eq_mod mask_eq_exp_minus_1)
  then show ?thesis by (simp add: pg_to_boundary_def)
qed

lemma pg_to_boundary_pos [simp]: "0 < pg_to_boundary cur"
  unfolding pg_to_boundary_mod using pos_mod_bound [of 4096 cur] by linarith

lemma pg_to_boundary_le: "pg_to_boundary cur \<le> 4096"
  by (simp add: pg_to_boundary_mod)

section \<open>Encoding\<close>

function pg_encode_loop :: "crc_platform \<Rightarrow> nat \<Rightarrow> bytes \<Rightarrow> int \<Rightarrow> bytes \<Rightarrow> nat \<Rightarrow> bytes \<times> nat" where
  "pg_encode_loop pl a p cur dst out =
     (if p = [] then (dst, out)
      else let to_boundary = pg_to_boundary cur;
               page_data = (if length p < to_boundary then length p else to_boundary);
               (crc, dst1) = brix_crc32c_copy_value pl a (Some p) (Some dst) (out + XRDP_PG_CKSZ) page_data;
               dst2 = memcpy_at out (be_bytes XRDP_PG_CKSZ crc) (case dst1 of Some b \<Rightarrow> b | None \<Rightarrow> dst)
           in pg_encode_loop pl (a + page_data) (drop page_data p) (cur + int page_data) dst2
                (out + XRDP_PG_CKSZ + page_data))"
  by pat_completeness auto
termination by (relation "measure (\<lambda>(_, _, p, _). length p)") auto

declare pg_encode_loop.simps [simp del]

text \<open>Returns the encoded length and the destination buffer; \<open>a\<close> is the address of \<open>src\<close>.\<close>

definition xrdp_pg_encode :: "crc_platform \<Rightarrow> nat \<Rightarrow> bytes \<Rightarrow> nat \<Rightarrow> int \<Rightarrow> bytes \<Rightarrow> nat \<times> bytes" where
  "xrdp_pg_encode pl a src len file_off dst =
     (let (dst', out) = pg_encode_loop pl a (take len src) file_off dst 0 in (out, dst'))"

section \<open>Decoding\<close>

record pg_walk_t =
  pgw_i :: nat
  pgw_out :: nat
  pgw_cur :: int
  pgw_want :: u32
  pgw_actual :: u32
  pgw_dlen :: nat

text \<open>The negative return codes: \<open>-1\<close>, \<open>-2\<close> and \<open>-3\<close>.\<close>

datatype pg_error = PG_CRC_MISMATCH | PG_MALFORMED | PG_TOO_MANY

record xrdp_pg_bad_t =
  pgbad_off :: int
  pgbad_dlen :: nat

definition pg_consume_frame ::
    "crc_platform \<Rightarrow> nat \<Rightarrow> bytes \<Rightarrow> pg_walk_t \<Rightarrow> bytes \<Rightarrow> nat \<Rightarrow> (pg_walk_t \<times> bytes) option" where
  "pg_consume_frame pl a pg w dst dstcap =
     (if length pg - pgw_i w \<le> XRDP_PG_CKSZ then None
      else let want = be_word (slice (pgw_i w) XRDP_PG_CKSZ pg);
               i = pgw_i w + XRDP_PG_CKSZ;
               to_boundary = pg_to_boundary (pgw_cur w);
               data_n = (if length pg - i < to_boundary then length pg - i else to_boundary)
           in if pgw_out w + data_n > dstcap then None
              else if pgw_cur w > INT64_MAX - int data_n then None
              else let (actual, dst') = brix_crc32c_copy_value pl (a + i) (Some (drop i pg)) (Some dst) (pgw_out w) data_n
                   in Some (\<lparr>pgw_i = i + data_n, pgw_out = pgw_out w + data_n, pgw_cur = pgw_cur w + int data_n,
                             pgw_want = want, pgw_actual = actual, pgw_dlen = data_n\<rparr>,
                            case dst' of Some b \<Rightarrow> b | None \<Rightarrow> dst))"

lemma pg_consume_advances: "pg_consume_frame pl a pg w dst dstcap = Some (w', dst') \<Longrightarrow> pgw_i w < pgw_i w'"
  by (auto simp: pg_consume_frame_def Let_def split: if_splits prod.splits)

text \<open>Returns the result, the destination buffer and the offset stored through \<open>bad_off\<close>.\<close>

function pg_decode_loop ::
    "crc_platform \<Rightarrow> nat \<Rightarrow> bytes \<Rightarrow> pg_walk_t \<Rightarrow> bytes \<Rightarrow> nat \<Rightarrow> int \<Rightarrow> (pg_error + nat) \<times> bytes \<times> int" where
  "pg_decode_loop pl a pg w dst dstcap bad_off =
     (if length pg \<le> pgw_i w then (Inr (pgw_out w), dst, bad_off)
      else let frame_off = pgw_cur w
           in case pg_consume_frame pl a pg w dst dstcap of
                None \<Rightarrow> (Inl PG_MALFORMED, dst, frame_off)
              | Some (w', dst') \<Rightarrow>
                  if pgw_actual w' \<noteq> pgw_want w' then (Inl PG_CRC_MISMATCH, dst', frame_off)
                  else pg_decode_loop pl a pg w' dst' dstcap bad_off)"
  by pat_completeness auto
termination
  by (relation "measure (\<lambda>(_, _, pg, w, _). length pg - pgw_i w)") (auto dest!: pg_consume_advances)

declare pg_decode_loop.simps [simp del]

definition pg_walk_start :: "int \<Rightarrow> pg_walk_t" where
  "pg_walk_start file_off = \<lparr>pgw_i = 0, pgw_out = 0, pgw_cur = file_off, pgw_want = 0, pgw_actual = 0, pgw_dlen = 0\<rparr>"

definition xrdp_pg_decode ::
    "crc_platform \<Rightarrow> nat \<Rightarrow> bytes \<Rightarrow> int \<Rightarrow> bytes \<Rightarrow> nat \<Rightarrow> (pg_error + nat) \<times> bytes \<times> int" where
  "xrdp_pg_decode pl a pg file_off dst dstcap =
     (if file_off < 0 then (Inl PG_MALFORMED, dst, file_off)
      else pg_decode_loop pl a pg (pg_walk_start file_off) dst dstcap file_off)"

text \<open>The collecting decoder; \<open>bad\<close> holds \<open>bad_out[0..*bad_count)\<close>.\<close>

function pg_collect_loop ::
    "crc_platform \<Rightarrow> nat \<Rightarrow> bytes \<Rightarrow> pg_walk_t \<Rightarrow> bytes \<Rightarrow> nat \<Rightarrow> nat \<Rightarrow> xrdp_pg_bad_t list
     \<Rightarrow> (pg_error + nat) \<times> bytes \<times> xrdp_pg_bad_t list" where
  "pg_collect_loop pl a pg w dst dstcap max_bad bad =
     (if length pg \<le> pgw_i w then (Inr (pgw_out w), dst, bad)
      else let frame_off = pgw_cur w
           in case pg_consume_frame pl a pg w dst dstcap of
                None \<Rightarrow> (Inl PG_MALFORMED, dst, bad)
              | Some (w', dst') \<Rightarrow>
                  if pgw_actual w' \<noteq> pgw_want w'
                  then if length bad \<ge> max_bad then (Inl PG_TOO_MANY, dst', take max_bad bad)
                       else pg_collect_loop pl a pg w' dst' dstcap max_bad
                              (bad @ [\<lparr>pgbad_off = frame_off, pgbad_dlen = pgw_dlen w'\<rparr>])
                  else pg_collect_loop pl a pg w' dst' dstcap max_bad bad)"
  by pat_completeness auto
termination
  by (relation "measure (\<lambda>(_, _, pg, w, _). length pg - pgw_i w)") (auto dest!: pg_consume_advances)

declare pg_collect_loop.simps [simp del]

definition xrdp_pg_decode_collect ::
    "crc_platform \<Rightarrow> nat \<Rightarrow> bytes \<Rightarrow> int \<Rightarrow> bytes \<Rightarrow> nat \<Rightarrow> nat \<Rightarrow> (pg_error + nat) \<times> bytes \<times> xrdp_pg_bad_t list" where
  "xrdp_pg_decode_collect pl a pg file_off dst dstcap max_bad =
     (if file_off < 0 then (Inl PG_MALFORMED, dst, [])
      else pg_collect_loop pl a pg (pg_walk_start file_off) dst dstcap max_bad [])"

section \<open>Specification: lists of page units\<close>

type_synonym pg_unit = "u32 \<times> bytes"

abbreviation pg_crc :: "bytes \<Rightarrow> u32" where "pg_crc d \<equiv> brix_crc32c_sw_extend 0 d"

definition pg_wire :: "pg_unit list \<Rightarrow> bytes" where
  "pg_wire us = concat (map (\<lambda>(c, d). be_bytes 4 c @ d) us)"

definition pg_data :: "pg_unit list \<Rightarrow> bytes" where
  "pg_data us = concat (map snd us)"

fun pg_aligned :: "int \<Rightarrow> pg_unit list \<Rightarrow> bool" where
  "pg_aligned off [] = True"
| "pg_aligned off ((c, d) # us) = (0 < length d \<and> length d \<le> pg_to_boundary off
     \<and> (us \<noteq> [] \<longrightarrow> length d = pg_to_boundary off) \<and> pg_aligned (off + int (length d)) us)"

fun pg_bad :: "int \<Rightarrow> pg_unit list \<Rightarrow> xrdp_pg_bad_t list" where
  "pg_bad off [] = []"
| "pg_bad off ((c, d) # us) = (if pg_crc d \<noteq> c then [\<lparr>pgbad_off = off, pgbad_dlen = length d\<rparr>] else [])
     @ pg_bad (off + int (length d)) us"

text \<open>The units a faithful sender makes of the data.\<close>

function pg_split :: "int \<Rightarrow> bytes \<Rightarrow> pg_unit list" where
  "pg_split off p = (if p = [] then []
     else let d = take (pg_to_boundary off) p
          in (pg_crc d, d) # pg_split (off + int (length d)) (drop (pg_to_boundary off) p))"
  by pat_completeness auto
termination by (relation "measure (\<lambda>(_, p). length p)") auto

declare pg_split.simps [simp del]

lemma pg_wire_simps [simp]: "pg_wire [] = []" "pg_wire ((c, d) # us) = be_bytes 4 c @ d @ pg_wire us"
  "pg_data [] = []" "pg_data ((c, d) # us) = d @ pg_data us"
  by (simp_all add: pg_wire_def pg_data_def)

lemma length_pg_wire: "length (pg_wire us) = 4 * length us + length (pg_data us)"
  by (induction us) auto

lemma pg_split_Nil [simp]: "pg_split off [] = []"
  by (simp add: pg_split.simps)

lemma pg_split_ok: "pg_aligned off (pg_split off p) \<and> pg_data (pg_split off p) = p \<and> pg_bad off (pg_split off p) = []"
proof (induction off p rule: pg_split.induct)
  case (1 off p)
  show ?case
  proof (cases "p = []")
    case False
    let ?n = "pg_to_boundary off"
    have ih: "pg_aligned (off + int (length (take ?n p))) (pg_split (off + int (length (take ?n p))) (drop ?n p))"
      "pg_data (pg_split (off + int (length (take ?n p))) (drop ?n p)) = drop ?n p"
      "pg_bad (off + int (length (take ?n p))) (pg_split (off + int (length (take ?n p))) (drop ?n p)) = []"
      using 1 [OF False refl] by simp_all
    have "length (take ?n p) = ?n" if "pg_split (off + int (length (take ?n p))) (drop ?n p) \<noteq> []"
      using that by (cases "?n \<le> length p") auto
    with ih False show ?thesis by (subst (1 2 3) pg_split.simps) (auto simp: Let_def)
  qed simp
qed

lemma pg_split_unique:
  "pg_aligned off us \<Longrightarrow> pg_bad off us = [] \<Longrightarrow> us = pg_split off (pg_data us)"
proof (induction off us rule: pg_aligned.induct)
  case (1 off)
  then show ?case by simp
next
  case (2 off c d us)
  have d: "take (pg_to_boundary off) (d @ pg_data us) = d" "drop (pg_to_boundary off) (d @ pg_data us) = pg_data us"
    using 2(2) by (cases "us = []"; simp)+
  have "us = pg_split (off + int (length d)) (pg_data us)" "pg_crc d = c"
    using 2 by (auto split: if_splits)
  then show ?case using d 2(2) by (subst pg_split.simps) (auto simp: Let_def)
qed

section \<open>The loops against the specification\<close>

lemma pg_rest_split:
  assumes "drop i pg = be_bytes 4 c @ d @ r" "d \<noteq> []"
  shows "slice i 4 pg = be_bytes 4 c" "drop (i + 4) pg = d @ r" "length pg - i = 4 + length d + length r" "i < length pg"
proof -
  have "drop (i + 4) pg = drop 4 (drop i pg)" by (simp add: add.commute)
  then show "drop (i + 4) pg = d @ r" by (simp add: assms(1))
  show "slice i 4 pg = be_bytes 4 c" by (simp add: slice_def assms(1))
  have "length (drop i pg) = 4 + length d + length r" by (simp add: assms(1))
  then show "length pg - i = 4 + length d + length r" by simp
  then show "i < length pg" using assms(2) by (cases d) auto
qed

context crc_instructions
begin

lemma pg_encode_loop_spec:
  "out + length (pg_wire (pg_split cur p)) \<le> length dst \<Longrightarrow>
     pg_encode_loop pl a p cur dst out
       = (memcpy_at out (pg_wire (pg_split cur p)) dst, out + length (pg_wire (pg_split cur p)))"
proof (induction cur p arbitrary: a dst out rule: pg_split.induct)
  case (1 cur p)
  show ?case
  proof (cases "p = []")
    case True
    then show ?thesis by (simp add: pg_encode_loop.simps)
  next
    case False
    let ?n = "pg_to_boundary cur"
    let ?d = "take ?n p" and ?us = "pg_split (cur + int (length (take ?n p))) (drop ?n p)"
    have us: "pg_split cur p = (pg_crc ?d, ?d) # ?us"
      using False by (subst pg_split.simps) (simp add: Let_def)
    have n: "(if length p < ?n then length p else ?n) = length ?d" by simp
    have tk: "take (length ?d) p = ?d" "drop (length ?d) p = drop ?n p" by (simp_all add: min_def)
    have len: "out + 4 + length ?d + length (pg_wire ?us) \<le> length dst"
      using 1(2) by (simp add: us)
    let ?dst = "memcpy_at out (be_bytes 4 (pg_crc ?d) @ ?d) dst"
    have cp: "brix_crc32c_copy_value pl a (Some p) (Some dst) (out + 4) (length ?d)
        = (pg_crc ?d, Some (memcpy_at (out + 4) ?d dst))"
    proof -
      have "length ?d \<le> length p" "out + 4 + length ?d \<le> length dst" using len by (simp, linarith)
      from copy_value_sw [OF this, of a] show ?thesis unfolding tk .
    qed
    have "memcpy_at out (be_bytes 4 (pg_crc ?d)) (memcpy_at (out + 4) ?d dst) = ?dst"
      using len memcpy_at_prepend [of out "be_bytes 4 (pg_crc ?d)" ?d dst] by simp
    then have "pg_encode_loop pl a p cur dst out
        = pg_encode_loop pl (a + length ?d) (drop ?n p) (cur + int (length ?d)) ?dst (out + 4 + length ?d)"
      using False by (subst pg_encode_loop.simps) (simp only: Let_def n cp tk if_False split option.case)
    also have "\<dots> = (memcpy_at (out + 4 + length ?d) (pg_wire ?us) ?dst, out + 4 + length ?d + length (pg_wire ?us))"
      using len by (intro 1(1) [OF False refl]) simp
    also have "memcpy_at (out + 4 + length ?d) (pg_wire ?us) ?dst
        = memcpy_at out ((be_bytes 4 (pg_crc ?d) @ ?d) @ pg_wire ?us) dst"
      using len memcpy_at_append [of out "be_bytes 4 (pg_crc ?d) @ ?d" "pg_wire ?us" dst] by (simp add: add.assoc)
    finally show ?thesis by (simp add: us)
  qed
qed

lemma pg_consume_unit:
  assumes "drop (pgw_i w) pg = be_bytes 4 c @ d @ r" "0 < length d" "length d \<le> pg_to_boundary (pgw_cur w)"
    and "r \<noteq> [] \<longrightarrow> length d = pg_to_boundary (pgw_cur w)"
    and "pgw_out w + length d \<le> dstcap" "dstcap \<le> length dst" "pgw_cur w + int (length d) \<le> INT64_MAX"
  shows "pg_consume_frame pl a pg w dst dstcap =
    Some (\<lparr>pgw_i = pgw_i w + 4 + length d, pgw_out = pgw_out w + length d, pgw_cur = pgw_cur w + int (length d),
           pgw_want = c, pgw_actual = pg_crc d, pgw_dlen = length d\<rparr>, memcpy_at (pgw_out w) d dst)"
proof -
  have "d \<noteq> []" using assms(2) by auto
  note rest = pg_rest_split [OF assms(1) this]
  have n: "(if length pg - (pgw_i w + 4) < pg_to_boundary (pgw_cur w)
      then length pg - (pgw_i w + 4) else pg_to_boundary (pgw_cur w)) = length d"
    using rest(3) assms(3,4) by (cases r) auto
  have cp: "brix_crc32c_copy_value pl (a + (pgw_i w + 4)) (Some (drop (pgw_i w + 4) pg)) (Some dst) (pgw_out w) (length d)
      = (pg_crc d, Some (memcpy_at (pgw_out w) d dst))"
    using assms(5,6) rest(2) copy_value_sw [of "length d" "drop (pgw_i w + 4) pg" "pgw_out w" dst "a + (pgw_i w + 4)"]
    by simp
  have g: "\<not> length pg - pgw_i w \<le> 4" "\<not> pgw_out w + length d > dstcap" "\<not> pgw_cur w > INT64_MAX - int (length d)"
    using rest(3) assms by simp_all
  show ?thesis
    unfolding pg_consume_frame_def Let_def n cp using g rest(1) by simp
qed

lemma pg_decode_aligned:
  assumes "drop (pgw_i w) pg = pg_wire us" "pg_aligned (pgw_cur w) us"
    and "pgw_out w + length (pg_data us) \<le> dstcap" "dstcap \<le> length dst"
    and "pgw_cur w + int (length (pg_data us)) \<le> INT64_MAX"
  shows "case pg_bad (pgw_cur w) us of
      [] \<Rightarrow> pg_decode_loop pl a pg w dst dstcap bad_off
        = (Inr (pgw_out w + length (pg_data us)), memcpy_at (pgw_out w) (pg_data us) dst, bad_off)
    | b # bs \<Rightarrow> \<exists>dst'. pg_decode_loop pl a pg w dst dstcap bad_off = (Inl PG_CRC_MISMATCH, dst', pgbad_off b)"
  using assms
proof (induction us arbitrary: w dst)
  case Nil
  then show ?case by (subst pg_decode_loop.simps) simp
next
  case (Cons u us)
  obtain c d where u: "u = (c, d)" by (cases u)
  let ?w = "\<lparr>pgw_i = pgw_i w + 4 + length d, pgw_out = pgw_out w + length d, pgw_cur = pgw_cur w + int (length d),
           pgw_want = c, pgw_actual = pg_crc d, pgw_dlen = length d\<rparr>"
  let ?dst = "memcpy_at (pgw_out w) d dst"
  note pre = Cons.prems
  have dr: "drop (pgw_i w) pg = be_bytes 4 c @ d @ pg_wire us" using pre(1) by (simp add: u)
  have d: "0 < length d" "length d \<le> pg_to_boundary (pgw_cur w)"
    "pg_wire us \<noteq> [] \<longrightarrow> length d = pg_to_boundary (pgw_cur w)"
    using pre(2) by (auto simp: u)
  have "pg_consume_frame pl a pg w dst dstcap = Some (?w, ?dst)"
    using pre(3-5) by (intro pg_consume_unit [OF dr d]) (simp_all add: u)
  moreover have "pgw_i w < length pg" using pg_rest_split(4) [OF dr] d(1) by auto
  ultimately have step: "pg_decode_loop pl a pg w dst dstcap bad_off =
      (if pg_crc d \<noteq> c then (Inl PG_CRC_MISMATCH, ?dst, pgw_cur w) else pg_decode_loop pl a pg ?w ?dst dstcap bad_off)"
    by (subst pg_decode_loop.simps) simp
  have "drop (length d) (drop (pgw_i w + 4) pg) = pg_wire us"
    using pg_rest_split(2) [OF dr] d(1) by simp
  then have rest: "drop (pgw_i ?w) pg = pg_wire us" by (simp add: add.commute add.left_commute)
  have inner: "pg_aligned (pgw_cur ?w) us" "pgw_out ?w + length (pg_data us) \<le> dstcap"
      "dstcap \<le> length ?dst" "pgw_cur ?w + int (length (pg_data us)) \<le> INT64_MAX"
    using pre by (simp_all add: u)
  have cat: "memcpy_at (pgw_out w + length d) (pg_data us) ?dst = memcpy_at (pgw_out w) (d @ pg_data us) dst"
    using pre(3,4) by (intro memcpy_at_append) (simp add: u)
  show ?case
    using step cat Cons.IH [OF rest inner] by (auto simp: u add.assoc split: list.splits)
qed

end

lemma pg_wire_Nil_iff [simp]: "pg_wire us = [] \<longleftrightarrow> us = []"
  by (metis length_pg_wire add_is_0 length_0_conv mult_is_0 pg_wire_simps(1) zero_neq_numeral)

context crc_instructions
begin

lemma pg_collect_aligned:
  assumes "drop (pgw_i w) pg = pg_wire us" "pg_aligned (pgw_cur w) us"
    and "pgw_out w + length (pg_data us) \<le> dstcap" "dstcap \<le> length dst"
    and "pgw_cur w + int (length (pg_data us)) \<le> INT64_MAX" "length bad \<le> max_bad"
  shows "if length (bad @ pg_bad (pgw_cur w) us) \<le> max_bad
    then pg_collect_loop pl a pg w dst dstcap max_bad bad
      = (Inr (pgw_out w + length (pg_data us)), memcpy_at (pgw_out w) (pg_data us) dst, bad @ pg_bad (pgw_cur w) us)
    else \<exists>dst'. pg_collect_loop pl a pg w dst dstcap max_bad bad
      = (Inl PG_TOO_MANY, dst', take max_bad (bad @ pg_bad (pgw_cur w) us))"
  using assms
proof (induction us arbitrary: w dst bad)
  case Nil
  then show ?case by (subst pg_collect_loop.simps) simp
next
  case (Cons u us)
  obtain c d where u: "u = (c, d)" by (cases u)
  define w1 where "w1 = \<lparr>pgw_i = pgw_i w + 4 + length d, pgw_out = pgw_out w + length d,
           pgw_cur = pgw_cur w + int (length d), pgw_want = c, pgw_actual = pg_crc d, pgw_dlen = length d\<rparr>"
  have sel: "pgw_i w1 = pgw_i w + 4 + length d" "pgw_out w1 = pgw_out w + length d"
    "pgw_cur w1 = pgw_cur w + int (length d)" "pgw_want w1 = c" "pgw_actual w1 = pg_crc d" "pgw_dlen w1 = length d"
    by (simp_all add: w1_def)
  let ?dst = "memcpy_at (pgw_out w) d dst" and ?b = "\<lparr>pgbad_off = pgw_cur w, pgbad_dlen = length d\<rparr>"
  note pre = Cons.prems
  have dr: "drop (pgw_i w) pg = be_bytes 4 c @ d @ pg_wire us" using pre(1) by (simp add: u)
  have d: "0 < length d" "length d \<le> pg_to_boundary (pgw_cur w)"
    "pg_wire us \<noteq> [] \<longrightarrow> length d = pg_to_boundary (pgw_cur w)"
    using pre(2) by (auto simp: u)
  have "pg_consume_frame pl a pg w dst dstcap = Some (w1, ?dst)"
    unfolding w1_def using pre(3-5) by (intro pg_consume_unit [OF dr d]) (simp_all add: u)
  moreover have "pgw_i w < length pg" using pg_rest_split(4) [OF dr] d(1) by auto
  ultimately have step: "pg_collect_loop pl a pg w dst dstcap max_bad bad =
      (if pg_crc d \<noteq> c
       then if length bad \<ge> max_bad then (Inl PG_TOO_MANY, ?dst, take max_bad bad)
            else pg_collect_loop pl a pg w1 ?dst dstcap max_bad (bad @ [?b])
       else pg_collect_loop pl a pg w1 ?dst dstcap max_bad bad)"
    by (subst pg_collect_loop.simps) (simp add: sel)
  have "drop (length d) (drop (pgw_i w + 4) pg) = pg_wire us"
    using pg_rest_split(2) [OF dr] d(1) by simp
  then have rest: "drop (pgw_i w1) pg = pg_wire us" by (simp add: sel add.commute add.left_commute)
  have inner: "pg_aligned (pgw_cur w1) us" "pgw_out w1 + length (pg_data us) \<le> dstcap"
      "dstcap \<le> length ?dst" "pgw_cur w1 + int (length (pg_data us)) \<le> INT64_MAX"
    using pre by (simp_all add: u sel)
  have cat: "memcpy_at (pgw_out w + length d) (pg_data us) ?dst = memcpy_at (pgw_out w) (d @ pg_data us) dst"
    using pre(3,4) by (intro memcpy_at_append) (simp add: u)
  show ?case
  proof (cases "pg_crc d = c")
    case True
    then show ?thesis using step cat Cons.IH [OF rest inner pre(6)] by (auto simp: u sel add.assoc split: if_splits)
  next
    case False
    show ?thesis
    proof (cases "length bad < max_bad")
      case True
      then have "length (bad @ [?b]) \<le> max_bad" by simp
      from Cons.IH [OF rest inner this] show ?thesis
        using step cat False True by (auto simp: u sel add.assoc split: if_splits)
    next
      case full: False
      then show ?thesis using step False pre(6) by (simp add: u)
    qed
  qed
qed

lemma pg_consume_inv:
  assumes "pg_consume_frame pl a pg w dst dstcap = Some (w', dst')" "dstcap \<le> length dst"
  obtains c d r where "drop (pgw_i w) pg = be_bytes 4 c @ d @ r" "0 < length d" "length d \<le> pg_to_boundary (pgw_cur w)"
    "r \<noteq> [] \<longrightarrow> length d = pg_to_boundary (pgw_cur w)"
    "pgw_out w + length d \<le> dstcap"
    "w' = \<lparr>pgw_i = pgw_i w + 4 + length d, pgw_out = pgw_out w + length d, pgw_cur = pgw_cur w + int (length d),
           pgw_want = c, pgw_actual = pg_crc d, pgw_dlen = length d\<rparr>"
    "dst' = memcpy_at (pgw_out w) d dst"
proof -
  let ?i = "pgw_i w" and ?tb = "pg_to_boundary (pgw_cur w)"
  let ?n = "if length pg - (?i + 4) < ?tb then length pg - (?i + 4) else ?tb"
  let ?c = "be_word (slice ?i 4 pg) :: u32" and ?d = "take ?n (drop (?i + 4) pg)"
  have long: "\<not> length pg - ?i \<le> 4" and cap: "pgw_out w + ?n \<le> dstcap" and mx: "pgw_cur w + int ?n \<le> INT64_MAX"
    using assms(1) by (auto simp: pg_consume_frame_def Let_def split: if_splits)
  have n: "length ?d = ?n" by auto
  have dr: "drop ?i pg = be_bytes 4 ?c @ ?d @ drop ?n (drop (?i + 4) pg)"
  proof -
    have "drop ?i pg = slice ?i 4 pg @ drop (?i + 4) pg"
      by (metis add.commute append_take_drop_id drop_drop slice_def)
    moreover have "slice ?i 4 pg = be_bytes 4 ?c" using long by simp
    moreover have "drop (?i + 4) pg = ?d @ drop ?n (drop (?i + 4) pg)" by (rule append_take_drop_id [symmetric])
    ultimately show ?thesis by metis
  qed
  have d: "0 < length ?d" "length ?d \<le> ?tb" "drop ?n (drop (?i + 4) pg) \<noteq> [] \<longrightarrow> length ?d = ?tb"
    using long by auto
  show ?thesis
    using that [OF dr d] pg_consume_unit [OF dr d, of dstcap dst a] assms cap mx by (simp add: n)
qed

lemma pg_decode_accepts:
  "pg_decode_loop pl a pg w dst dstcap bad_off = (Inr n, dst', bo) \<Longrightarrow> dstcap \<le> length dst \<Longrightarrow>
    pgw_out w \<le> dstcap \<Longrightarrow>
    \<exists>us. pgw_out w + length (pg_data us) \<le> dstcap \<and> drop (pgw_i w) pg = pg_wire us \<and> pg_aligned (pgw_cur w) us \<and> pg_bad (pgw_cur w) us = []
      \<and> n = pgw_out w + length (pg_data us) \<and> dst' = memcpy_at (pgw_out w) (pg_data us) dst"
proof (induction "length pg - pgw_i w" arbitrary: w dst rule: less_induct)
  case less
  show ?case
  proof (cases "length pg \<le> pgw_i w")
    case True
    then show ?thesis
      using less.prems by (subst (asm) pg_decode_loop.simps) (auto intro!: exI [of _ "[]"])
  next
    case False
    then obtain w1 dst1 where c1: "pg_consume_frame pl a pg w dst dstcap = Some (w1, dst1)"
      and ok: "pgw_actual w1 = pgw_want w1"
      and go: "pg_decode_loop pl a pg w1 dst1 dstcap bad_off = (Inr n, dst', bo)"
      using less.prems(1) by (subst (asm) pg_decode_loop.simps) (auto simp: Let_def split: option.splits if_splits)
    obtain c d r where u: "drop (pgw_i w) pg = be_bytes 4 c @ d @ r" "0 < length d" "length d \<le> pg_to_boundary (pgw_cur w)"
      "r \<noteq> [] \<longrightarrow> length d = pg_to_boundary (pgw_cur w)" "pgw_out w + length d \<le> dstcap"
      "w1 = \<lparr>pgw_i = pgw_i w + 4 + length d, pgw_out = pgw_out w + length d, pgw_cur = pgw_cur w + int (length d),
           pgw_want = c, pgw_actual = pg_crc d, pgw_dlen = length d\<rparr>"
      "dst1 = memcpy_at (pgw_out w) d dst"
      using pg_consume_inv [OF c1 less.prems(2)] by blast
    have len1: "length dst1 = length dst" using u(5,7) less.prems(2) by simp
    have sh: "length pg - pgw_i w1 < length pg - pgw_i w" using False u(6) by simp
    have cap1: "dstcap \<le> length dst1" "pgw_out w1 \<le> dstcap" using less.prems(2) len1 u(5,6) by simp_all
    obtain us where fits: "pgw_out w1 + length (pg_data us) \<le> dstcap" and us: "drop (pgw_i w1) pg = pg_wire us" "pg_aligned (pgw_cur w1) us" "pg_bad (pgw_cur w1) us = []"
      "n = pgw_out w1 + length (pg_data us)" "dst' = memcpy_at (pgw_out w1) (pg_data us) dst1"
      using less.hyps [OF sh go cap1] by blast
    have "d \<noteq> []" using u(2) by auto
    then have "r = pg_wire us"
      using us(1) u(6) pg_rest_split(2) [OF u(1)]
      by (metis append_eq_conv_conj drop_drop add.commute pg_walk_t.simps(1))
    moreover have "dst' = memcpy_at (pgw_out w) (d @ pg_data us) dst"
      using us(5) u(6,7) memcpy_at_append [of "pgw_out w" d "pg_data us" dst] fits less.prems(2) by simp
    ultimately show ?thesis
      using u us ok fits by (intro exI [of _ "(c, d) # us"]) auto
  qed
qed

end

lemma pg_walk_start_sel [simp]: "pgw_i (pg_walk_start off) = 0" "pgw_out (pg_walk_start off) = 0"
  "pgw_cur (pg_walk_start off) = off"
  by (simp_all add: pg_walk_start_def)

lemma pg_encode_spec:
  assumes "crc_platform_documented pl" "length (pg_wire (pg_split off (take len src))) \<le> length dst"
  shows "xrdp_pg_encode pl a src len off dst
    = (length (pg_wire (pg_split off (take len src))), memcpy_at 0 (pg_wire (pg_split off (take len src))) dst)"
  using crc_instructions.pg_encode_loop_spec [OF crc_instructions.intro [OF assms(1)], of 0 off "take len src" dst a] assms(2)
  by (simp add: xrdp_pg_encode_def)

lemma pg_decode_spec:
  assumes "crc_platform_documented pl" "0 \<le> off" "pg_aligned off us" "length (pg_data us) \<le> dstcap"
    "dstcap \<le> length dst" "off + int (length (pg_data us)) \<le> INT64_MAX"
  shows "case pg_bad off us of
      [] \<Rightarrow> xrdp_pg_decode pl a (pg_wire us) off dst dstcap
        = (Inr (length (pg_data us)), memcpy_at 0 (pg_data us) dst, off)
    | b # bs \<Rightarrow> \<exists>dst'. xrdp_pg_decode pl a (pg_wire us) off dst dstcap = (Inl PG_CRC_MISMATCH, dst', pgbad_off b)"
  using crc_instructions.pg_decode_aligned [OF crc_instructions.intro [OF assms(1)],
      of "pg_walk_start off" "pg_wire us" us dstcap dst a off] assms(2-6)
  by (cases "pg_bad off us") (simp_all add: xrdp_pg_decode_def)

section \<open>Properties of the framing\<close>

text \<open>
  What one end encodes the other end decodes: for a non-negative file range that ends at or below
  \<open>INT64_MAX\<close> and buffers that are large enough, decoding the encoded pages returns the number of
  data bytes and puts exactly the data at the start of the destination, on any two platforms.
\<close>

theorem pg_roundtrip:
  assumes "crc_platform_documented pl" "crc_platform_documented pl'"
    and "0 \<le> off" "off + int (length data) \<le> INT64_MAX"
    and "length (pg_wire (pg_split off data)) \<le> length wire" "length data \<le> dstcap" "dstcap \<le> length dst"
  shows "\<exists>n wire'. xrdp_pg_encode pl a data (length data) off wire = (n, wire')
    \<and> xrdp_pg_decode pl' a' (take n wire') off dst dstcap = (Inr (length data), memcpy_at 0 data dst, off)"
proof -
  let ?us = "pg_split off data"
  have ok: "pg_aligned off ?us" "pg_data ?us = data" "pg_bad off ?us = []" using pg_split_ok by blast+
  have enc: "xrdp_pg_encode pl a data (length data) off wire = (length (pg_wire ?us), memcpy_at 0 (pg_wire ?us) wire)"
    using pg_encode_spec [OF assms(1), of off "length data" data wire a] assms(5) by simp
  have "take (length (pg_wire ?us)) (memcpy_at 0 (pg_wire ?us) wire) = pg_wire ?us"
    by (simp add: memcpy_at_def)
  with enc pg_decode_spec [OF assms(2,3) ok(1), of dstcap dst a'] ok assms(4,6,7) show ?thesis by simp
qed

theorem pg_roundtrip_witness:
  "\<exists>n wire'. xrdp_pg_encode (crc_reference_platform CRC_X86_64 True) 0 [1, 2, 3] (length [1, 2, 3::byte]) 4095 (replicate 20 0) = (n, wire')
    \<and> xrdp_pg_decode (crc_reference_platform CRC_ARM64 False) 0 (take n wire') 4095 [7, 7, 7, 7] 4
      = (Inr (length [1, 2, 3::byte]), memcpy_at 0 [1, 2, 3] [7, 7, 7, 7], 4095)"
proof (rule pg_roundtrip)
  have "pg_split 4095 [1, 2, 3] = [(pg_crc [1], [1]), (pg_crc [2, 3], [2, 3])]"
    by (simp add: pg_split.simps pg_to_boundary_mod Let_def)
  then show "length (pg_wire (pg_split 4095 [1, 2, 3])) \<le> length (replicate 20 (0::byte))" by simp
qed (simp_all add: crc_reference_documented)

text \<open>
  C10. Nothing but a faithful encoding is accepted: when the strict decoder accepts a wire image, that
  image is byte for byte the encoding of the bytes it delivered, so no accepted image carries an altered
  page, a misplaced boundary, a wrong checksum or trailing octets.
\<close>

theorem pg_decode_sound:
  assumes "crc_platform_documented pl" "dstcap \<le> length dst"
    and "xrdp_pg_decode pl a pg off dst dstcap = (Inr n, dst', bad_off)"
  shows "n \<le> dstcap \<and> dst' = memcpy_at 0 (take n dst') dst \<and> pg = pg_wire (pg_split off (take n dst'))"
proof -
  have "pg_decode_loop pl a pg (pg_walk_start off) dst dstcap off = (Inr n, dst', bad_off)"
    using assms(3) by (simp add: xrdp_pg_decode_def split: if_splits)
  from crc_instructions.pg_decode_accepts [OF crc_instructions.intro [OF assms(1)] this assms(2)]
  obtain us where us: "length (pg_data us) \<le> dstcap" "pg = pg_wire us" "pg_aligned off us" "pg_bad off us = []"
    "n = length (pg_data us)" "dst' = memcpy_at 0 (pg_data us) dst"
    by (auto simp: pg_walk_start_def)
  have "take n dst' = pg_data us" using us(5,6) by (simp add: memcpy_at_def)
  then show ?thesis using us pg_split_unique [OF us(3,4)] by simp
qed

theorem pg_decode_sound_witness:
  "\<exists>dst'. xrdp_pg_decode (crc_reference_platform CRC_GENERIC False) 0 (be_bytes 4 (pg_crc [9]) @ [9]) 0 [0, 0] 2 = (Inr 1, dst', 0)
    \<and> be_bytes 4 (pg_crc [9]) @ [9] = pg_wire (pg_split 0 (take 1 dst'))"
proof -
  let ?pg = "be_bytes 4 (pg_crc [9]) @ [9]"
  have "xrdp_pg_decode (crc_reference_platform CRC_GENERIC False) 0 ?pg 0 [0, 0] 2 = (Inr 1, memcpy_at 0 [9] [0, 0], 0)"
    using pg_decode_spec [OF crc_reference_documented, of 0 "[(pg_crc [9], [9])]" 2 "[0, 0]"]
    by (simp add: pg_to_boundary_mod)
  with pg_decode_sound [OF crc_reference_documented _ this] show ?thesis by simp
qed

text \<open>
  The collecting decoder of the write path delivers every byte, good or bad, and reports exactly the
  pages whose checksum does not match, in order, unless there are more than \<open>max_bad\<close> of them, in
  which case it stops with the too-many error and a full list.
\<close>

theorem pg_collect_reports:
  assumes "crc_platform_documented pl" "0 \<le> off" "pg_aligned off us" "length (pg_data us) \<le> dstcap"
    "dstcap \<le> length dst" "off + int (length (pg_data us)) \<le> INT64_MAX"
  shows "if length (pg_bad off us) \<le> max_bad
    then xrdp_pg_decode_collect pl a (pg_wire us) off dst dstcap max_bad
      = (Inr (length (pg_data us)), memcpy_at 0 (pg_data us) dst, pg_bad off us)
    else \<exists>dst'. xrdp_pg_decode_collect pl a (pg_wire us) off dst dstcap max_bad
      = (Inl PG_TOO_MANY, dst', take max_bad (pg_bad off us))"
  using crc_instructions.pg_collect_aligned [OF crc_instructions.intro [OF assms(1)],
      of "pg_walk_start off" "pg_wire us" us dstcap dst "[]" max_bad a] assms(2-6)
  by (auto simp: xrdp_pg_decode_collect_def split: if_splits)

theorem pg_collect_reports_witness:
  "xrdp_pg_decode_collect (crc_reference_platform CRC_ARM64 False) 0 (pg_wire [(pg_crc [9], [9])]) 4095 [0, 0] 2 1
     = (Inr 1, [9, 0], [])"
  using pg_collect_reports [OF crc_reference_documented, of 4095 "[(pg_crc [9], [9])]" 2 "[0, 0]" 1 CRC_ARM64 False 0]
  by (simp add: pg_to_boundary_mod memcpy_at_def)

lemma pg_bad_append: "pg_bad off (us @ vs) = pg_bad off us @ pg_bad (off + int (length (pg_data us))) vs"
  by (induction off us rule: pg_bad.induct) (simp_all add: add.assoc)

lemma pg_aligned_replace:
  "length d' = length d \<Longrightarrow> pg_aligned off (us @ (c, d) # vs) = pg_aligned off (us @ (c', d') # vs)"
  by (induction off us rule: pg_bad.induct) auto

lemma length_pg_data_append [simp]: "pg_data (us @ vs) = pg_data us @ pg_data vs"
  by (simp add: pg_data_def)

text \<open>
  Corruption in transit is caught and located: if up to four neighbouring bytes of one page's data
  change on the way (everything else arriving as sent), the strict decoder refuses the transfer with
  the checksum error and names the file offset of exactly that page.
\<close>

theorem pg_corruption_located:
  assumes "crc_platform_documented pl" "0 \<le> off" "off + int (length data) \<le> INT64_MAX"
    and "pg_split off data = us @ (c, xs @ bs @ ys) # vs"
    and "length bs' = length bs" "length bs \<le> 4" "bs' \<noteq> bs"
    and "length data \<le> dstcap" "dstcap \<le> length dst"
  shows "\<exists>dst'. xrdp_pg_decode pl a (pg_wire (us @ (c, xs @ bs' @ ys) # vs)) off dst dstcap
    = (Inl PG_CRC_MISMATCH, dst', off + int (length (pg_data us)))"
proof -
  have ok: "pg_aligned off (us @ (c, xs @ bs @ ys) # vs)" "pg_data (us @ (c, xs @ bs @ ys) # vs) = data"
    "pg_bad off (us @ (c, xs @ bs @ ys) # vs) = []"
    using pg_split_ok [of off data] assms(4) by simp_all
  let ?us = "us @ (c, xs @ bs' @ ys) # vs"
  have al: "pg_aligned off ?us"
    using ok(1) pg_aligned_replace [of "xs @ bs' @ ys" "xs @ bs @ ys" off us c vs c] assms(5) by simp
  have len: "length (pg_data ?us) = length data" using ok(2) assms(5) by (auto simp flip: ok(2))
  have "pg_crc (xs @ bs @ ys) = c" "pg_bad off us = []" using ok(3) by (auto simp: pg_bad_append split: if_splits)
  moreover have "pg_crc (xs @ bs' @ ys) \<noteq> pg_crc (xs @ bs @ ys)"
    using crc32c_burst [of bs' bs] assms(5-7) by simp
  ultimately obtain bs where "pg_bad off ?us = \<lparr>pgbad_off = off + int (length (pg_data us)), pgbad_dlen = length (xs @ bs' @ ys)\<rparr> # bs"
    by (simp add: pg_bad_append)
  then show ?thesis
    using pg_decode_spec [OF assms(1,2) al, of dstcap dst a] len assms(3,8,9) by simp
qed

theorem pg_corruption_located_witness:
  "\<exists>dst'. xrdp_pg_decode (crc_reference_platform CRC_X86_64 True) 0 (pg_wire ([(pg_crc [5], [5])] @ [(pg_crc [6, 7], [6] @ [8] @ [])])) 4095
     [0, 0, 0] 3 = (Inl PG_CRC_MISMATCH, dst', 4096)"
proof -
  have "pg_split 4095 [5, 6, 7] = [(pg_crc [5], [5])] @ [(pg_crc [6, 7], [6] @ [7] @ [])]"
    by (simp add: pg_split.simps pg_to_boundary_mod Let_def)
  from pg_corruption_located [OF crc_reference_documented _ _ this, of "[8]" 3 "[0, 0, 0]" CRC_X86_64 True 0]
  show ?thesis by simp
qed

end
