(* ===== verification/Pgread_Encode.thy ===== *)
theory Pgread_Encode
  imports Page_IO
begin

text \<open>
  The zero-copy page encoder of \<^verbatim>\<open>src/protocols/root/read/pgread_encode.c\<close>: it lays out batches of
  at most 512 gapped pages in the wire buffer, has the storage driver read file bytes straight into the
  gaps, and then writes each page's checksum in front of its data.  Pointers into the wire buffer
  are indices.  The storage driver's vectored read is an argument \<open>rd\<close>; \<open>sd_reads\<close> states the
  POSIX contract for a regular file.  The result is the wire image that \<open>xrdp_pg_encode\<close> makes of
  the same bytes.
\<close>

abbreviation (input) BRIX_PG_CKSZ :: nat where "BRIX_PG_CKSZ \<equiv> 4"
abbreviation (input) BRIX_PGREAD_MAXIOV :: nat where "BRIX_PGREAD_MAXIOV \<equiv> 512"

text \<open>
  The parallel arrays \<open>data[i]\<close>, \<open>dlen[i]\<close> and \<open>iov[i]\<close> (always \<open>iov_base = data\<close>,
  \<open>iov_len = dlen\<close>) are one list of pairs, whose length is \<open>k\<close>.
\<close>

record brix_pgread_batch_t =
  bt_pages :: "(nat \<times> nat) list"
  bt_bytes :: nat

function layout_loop :: "int \<Rightarrow> nat \<Rightarrow> nat \<Rightarrow> nat \<Rightarrow> brix_pgread_batch_t \<Rightarrow> nat \<times> brix_pgread_batch_t" where
  "layout_loop offset rlen remaining o1 b =
     (if length (bt_pages b) < BRIX_PGREAD_MAXIOV \<and> remaining > 0
      then let cur = offset + int (rlen - remaining);
               in_off = nat (cur AND (int kXR_pgPageSZ - 1));
               len = kXR_pgPageSZ - in_off;
               len = (if len > remaining then remaining else len)
           in layout_loop offset rlen (remaining - len) (o1 + BRIX_PG_CKSZ + len)
                \<lparr>bt_pages = bt_pages b @ [(o1 + BRIX_PG_CKSZ, len)], bt_bytes = bt_bytes b + len\<rparr>
      else (o1, b))"
  by pat_completeness auto
termination by (relation "measure (\<lambda>(_, _, _, _, b). BRIX_PGREAD_MAXIOV - length (bt_pages b))") auto

declare layout_loop.simps [simp del]

definition brix_pgread_layout_batch :: "int \<Rightarrow> nat \<Rightarrow> nat \<Rightarrow> nat \<Rightarrow> nat \<times> brix_pgread_batch_t" where
  "brix_pgread_layout_batch offset rlen remaining o1 =
     layout_loop offset rlen remaining o1 \<lparr>bt_pages = [], bt_bytes = 0\<rparr>"

text \<open>The loop over the pages: returns the end-of-file flag, the buffer and \<open>*out_size\<close>.\<close>

fun crc_pages :: "crc_platform \<Rightarrow> nat \<Rightarrow> (nat \<times> nat) list \<Rightarrow> nat \<Rightarrow> bytes \<Rightarrow> nat \<Rightarrow> bool \<times> bytes \<times> nat" where
  "crc_pages pl a [] got buf out_size = (False, buf, out_size)"
| "crc_pages pl a ((data, dlen) # ps) got buf out_size =
     (let al = (if got < dlen then got else dlen)
      in if al = 0 then (False, buf, out_size)
         else let crc = brix_crc32c_value pl (a + data) (Some (drop data buf)) al;
                  buf = memcpy_at (data - BRIX_PG_CKSZ) (be_bytes 4 crc) buf;
                  out_size = out_size + BRIX_PG_CKSZ + al
              in if al < dlen then (True, buf, out_size)
                 else crc_pages pl a ps (got - al) buf out_size)"

definition brix_pgread_crc_batch ::
    "crc_platform \<Rightarrow> nat \<Rightarrow> brix_pgread_batch_t \<Rightarrow> nat \<Rightarrow> bytes \<Rightarrow> nat \<Rightarrow> bool \<times> bytes \<times> nat" where
  "brix_pgread_crc_batch pl a b got buf out_size = crc_pages pl a (bt_pages b) got buf out_size"

text \<open>The driver's vectored read: an \<open>errno\<close> or the number of bytes read, and the buffer.\<close>

type_synonym sd_preadv = "(nat \<times> nat) list \<Rightarrow> int \<Rightarrow> bytes \<Rightarrow> (int + nat) \<times> bytes"

record brix_pgread_io_t =
  io_nowait :: bool
  io_nread :: int
  io_errno :: int

abbreviation (input) EAGAIN :: int where "EAGAIN \<equiv> 11"

lemma layout_loop_step:
  assumes "length (bt_pages b) < BRIX_PGREAD_MAXIOV" "0 < remaining"
    and l_def: "l = min (pg_to_boundary (offset + int (rlen - remaining))) remaining"
  shows "layout_loop offset rlen remaining o1 b = layout_loop offset rlen (remaining - l) (o1 + 4 + l)
     \<lparr>bt_pages = bt_pages b @ [(o1 + 4, l)], bt_bytes = bt_bytes b + l\<rparr>"
proof -
  have mn: "(if y < x then y else x) = min x y" for x y :: nat by (simp add: min_def)
  show ?thesis
    using assms(1,2) unfolding l_def
    by (subst layout_loop.simps) (simp only: Let_def mn pg_to_boundary_def if_True simp_thms)
qed

lemma layout_loop_bytes:
  "layout_loop offset rlen remaining o1 b = (o2, b') \<Longrightarrow>
     bt_bytes b \<le> bt_bytes b'
     \<and> (0 < remaining \<longrightarrow> length (bt_pages b) < BRIX_PGREAD_MAXIOV \<longrightarrow> bt_bytes b < bt_bytes b')"
proof (induction "BRIX_PGREAD_MAXIOV - length (bt_pages b)" arbitrary: remaining o1 b)
  case 0
  then show ?case by (subst (asm) layout_loop.simps) auto
next
  case (Suc k)
  show ?case
  proof (cases "0 < remaining")
    case True
    define l where "l = min (pg_to_boundary (offset + int (rlen - remaining))) remaining"
    have "0 < l" using True by (simp add: l_def)
    moreover have "length (bt_pages b) < BRIX_PGREAD_MAXIOV" using Suc.hyps(2) by linarith
    note layout_loop_step [OF this True l_def, of o1]
    then have "bt_bytes b + l \<le> bt_bytes b'"
      using Suc.hyps(1) [of "\<lparr>bt_pages = bt_pages b @ [(o1 + 4, l)], bt_bytes = bt_bytes b + l\<rparr>"
          "remaining - l" "o1 + 4 + l"] Suc.hyps(2) Suc.prems by simp
    ultimately show ?thesis by linarith
  next
    case False
    then show ?thesis using Suc.prems by (subst (asm) layout_loop.simps) auto
  qed
qed

lemma layout_batch_progress:
  assumes "0 < remaining"
  shows "0 < bt_bytes (snd (brix_pgread_layout_batch offset rlen remaining o1))"
proof -
  obtain o2 b where l: "brix_pgread_layout_batch offset rlen remaining o1 = (o2, b)" by fastforce
  have "layout_loop offset rlen remaining o1 \<lparr>bt_pages = [], bt_bytes = 0\<rparr> = (o2, b)"
    using l by (simp add: brix_pgread_layout_batch_def)
  from layout_loop_bytes [OF this] assms show ?thesis by (simp add: l)
qed

function read_encode_loop :: "crc_platform \<Rightarrow> nat \<Rightarrow> sd_preadv \<Rightarrow> sd_preadv \<Rightarrow> int \<Rightarrow> nat \<Rightarrow> nat \<Rightarrow> nat \<Rightarrow> bool
    \<Rightarrow> bytes \<Rightarrow> nat \<Rightarrow> nat \<Rightarrow> brix_pgread_io_t \<Rightarrow> nat \<times> bytes \<times> brix_pgread_io_t" where
  "read_encode_loop pl a rd rd_nowait offset rlen remaining o1 eof out out_size tot io =
     (if remaining > 0 \<and> \<not> eof
      then let batch_off = offset + int (rlen - remaining);
               (o2, batch) = brix_pgread_layout_batch offset rlen remaining o1;
               remaining2 = remaining - bt_bytes batch;
               (res, out2) = (if io_nowait io then rd_nowait (bt_pages batch) batch_off out
                              else rd (bt_pages batch) batch_off out)
           in case res of
                Inl err \<Rightarrow> if io_nowait io
                  then (0, out2, io\<lparr>io_nread := 0, io_errno := err\<rparr>)
                  else (0, out2, io\<lparr>io_nread := - 1, io_errno := err\<rparr>)
              | Inr n \<Rightarrow>
                  if io_nowait io \<and> n < bt_bytes batch
                  then (0, out2, io\<lparr>io_nread := 0, io_errno := EAGAIN\<rparr>)
                  else let (short, out3, out_size2) = brix_pgread_crc_batch pl a batch n out2 out_size
                       in read_encode_loop pl a rd rd_nowait offset rlen remaining2 o2
                            (short \<or> n < bt_bytes batch) out3 out_size2 (tot + n) io
      else (out_size, out, io\<lparr>io_nread := int tot\<rparr>))"
  by pat_completeness auto
termination
proof (relation "measure (\<lambda>(_, _, _, _, _, _, remaining, _). remaining)", goal_cases)
  case (2 pl a rd rd_nowait offset rlen remaining o1 eof out out_size tot io batch_off lb o2 batch)
  then have "0 < bt_bytes batch" using layout_batch_progress [of remaining offset rlen o1] by (metis snd_conv)
  then show ?case using 2 by simp
qed simp

declare read_encode_loop.simps [simp del]

definition brix_pgread_read_encode_inplace :: "crc_platform \<Rightarrow> nat \<Rightarrow> sd_preadv \<Rightarrow> sd_preadv \<Rightarrow> int \<Rightarrow> nat
    \<Rightarrow> bytes \<Rightarrow> brix_pgread_io_t \<Rightarrow> nat \<times> bytes \<times> brix_pgread_io_t" where
  "brix_pgread_read_encode_inplace pl a rd rd_nowait offset rlen out io =
     read_encode_loop pl a rd rd_nowait offset rlen rlen 0 False out 0 0 (io\<lparr>io_nread := 0, io_errno := 0\<rparr>)"

definition brix_pgread_encode_pages :: "crc_platform \<Rightarrow> nat \<Rightarrow> bytes \<Rightarrow> nat \<Rightarrow> int \<Rightarrow> bytes \<Rightarrow> nat \<times> bytes" where
  "brix_pgread_encode_pages pl a src len offset dst = xrdp_pg_encode pl a src len offset dst"

text \<open>\<open>None\<close> is the \<open>-1\<close> of a read that needs more than one batch.\<close>

definition brix_pgread_layout_iov :: "int \<Rightarrow> nat \<Rightarrow> nat \<Rightarrow> (nat \<times> nat) list option" where
  "brix_pgread_layout_iov offset rlen max_iov =
     (let (o2, b) = brix_pgread_layout_batch offset rlen rlen 0
      in if bt_bytes b \<noteq> rlen \<or> length (bt_pages b) > max_iov then None else Some (bt_pages b))"

function crc_delivered_loop ::
    "crc_platform \<Rightarrow> nat \<Rightarrow> int \<Rightarrow> nat \<Rightarrow> nat \<Rightarrow> nat \<Rightarrow> nat \<Rightarrow> bytes \<Rightarrow> nat \<Rightarrow> nat \<times> bytes" where
  "crc_delivered_loop pl a offset rlen remaining got o1 out out_size =
     (if remaining > 0 \<and> got > 0
      then let (o2, b) = brix_pgread_layout_batch offset rlen remaining o1;
               remaining2 = remaining - bt_bytes b;
               use = (if got < bt_bytes b then got else bt_bytes b);
               (short, out2, out_size2) = brix_pgread_crc_batch pl a b use out out_size
           in if short then (out_size2, out2)
              else crc_delivered_loop pl a offset rlen remaining2 (got - use) o2 out2 out_size2
      else (out_size, out))"
  by pat_completeness auto
termination
proof (relation "measure (\<lambda>(_, _, _, _, remaining, _). remaining)", goal_cases)
  case (2 pl a offset rlen remaining got o1 out out_size lb o2 b)
  then have "0 < bt_bytes b" using layout_batch_progress [of remaining offset rlen o1] by (metis snd_conv)
  then show ?case using 2 by simp
qed simp

declare crc_delivered_loop.simps [simp del]

definition brix_pgread_crc_encode_delivered ::
    "crc_platform \<Rightarrow> nat \<Rightarrow> int \<Rightarrow> nat \<Rightarrow> bytes \<Rightarrow> nat \<Rightarrow> nat \<times> bytes" where
  "brix_pgread_crc_encode_delivered pl a offset rlen out delivered =
     crc_delivered_loop pl a offset rlen rlen delivered 0 out 0"

section \<open>The layout\<close>

text \<open>Fragment lengths of an \<open>n\<close>-byte read at \<open>off\<close>, and where the gapped buffer holds them.\<close>

function pg_lens :: "int \<Rightarrow> nat \<Rightarrow> nat list" where
  "pg_lens off n = (if n = 0 then [] else let l = min (pg_to_boundary off) n in l # pg_lens (off + int l) (n - l))"
  by pat_completeness auto
termination by (relation "measure snd") auto

declare pg_lens.simps [simp del]

fun page_pos :: "nat \<Rightarrow> nat list \<Rightarrow> (nat \<times> nat) list" where
  "page_pos o1 [] = []"
| "page_pos o1 (l # ls) = (o1 + 4, l) # page_pos (o1 + 4 + l) ls"

definition gap_extent :: "nat list \<Rightarrow> nat" where
  "gap_extent ls = sum_list ls + 4 * length ls"

fun chunk_units :: "nat list \<Rightarrow> bytes \<Rightarrow> pg_unit list" where
  "chunk_units [] d = []"
| "chunk_units (l # ls) d = (if d = [] then [] else (pg_crc (take l d), take l d) # chunk_units ls (drop l d))"

lemma gap_extent_simps [simp]: "gap_extent [] = 0" "gap_extent (l # ls) = 4 + l + gap_extent ls"
  "gap_extent (ls @ ls') = gap_extent ls + gap_extent ls'"
  by (simp_all add: gap_extent_def)

lemma map_snd_page_pos [simp]: "map snd (page_pos o1 ls) = ls"
  by (induction ls arbitrary: o1) simp_all

lemma pg_lens_0 [simp]: "pg_lens off 0 = []" by (simp add: pg_lens.simps)

lemma pg_lens_pos: "l \<in> set (pg_lens off n) \<Longrightarrow> 0 < l"
proof (induction off n rule: pg_lens.induct)
  case (1 off n)
  then show ?case by (cases "n = 0") (auto simp: pg_lens.simps [of off n] Let_def)
qed

lemma sum_pg_lens: "sum_list (pg_lens off n) = n"
proof (induction off n rule: pg_lens.induct)
  case (1 off n)
  then show ?case by (cases "n = 0") (simp_all add: pg_lens.simps [of off n] Let_def)
qed

lemma pg_lens_drop:
  "drop k (pg_lens off n) = pg_lens (off + int (sum_list (take k (pg_lens off n)))) (n - sum_list (take k (pg_lens off n)))"
proof (induction k arbitrary: off n)
  case 0
  then show ?case by simp
next
  case (Suc k)
  show ?case
  proof (cases "n = 0")
    case False
    then obtain l where l: "pg_lens off n = l # pg_lens (off + int l) (n - l)"
      using pg_lens.simps [of off n] by (auto simp: Let_def)
    then show ?thesis using Suc [of "off + int l" "n - l"] by (simp add: algebra_simps)
  qed simp
qed

lemma layout_loop_spec:
  "remaining \<le> rlen \<Longrightarrow>
   layout_loop offset rlen remaining o1 b =
     (let ls = take (BRIX_PGREAD_MAXIOV - length (bt_pages b)) (pg_lens (offset + int (rlen - remaining)) remaining)
      in (o1 + gap_extent ls, \<lparr>bt_pages = bt_pages b @ page_pos o1 ls, bt_bytes = bt_bytes b + sum_list ls\<rparr>))"
proof (induction "BRIX_PGREAD_MAXIOV - length (bt_pages b)" arbitrary: remaining o1 b)
  case 0
  then show ?case by (subst layout_loop.simps) simp
next
  case (Suc k)
  show ?case
  proof (cases "remaining = 0")
    case True
    then show ?thesis by (subst layout_loop.simps) simp
  next
    case False
    let ?cur = "offset + int (rlen - remaining)"
    define l where "l = min (pg_to_boundary ?cur) remaining"
    have l: "0 < l" "l \<le> remaining" using False by (simp_all add: l_def)
    have lens: "pg_lens ?cur remaining = l # pg_lens (?cur + int l) (remaining - l)"
      using False by (subst pg_lens.simps) (simp add: Let_def l_def)
    have cur: "?cur + int l = offset + int (rlen - (remaining - l))" using l Suc.prems by simp
    have k: "BRIX_PGREAD_MAXIOV - length (bt_pages b) = Suc k" "length (bt_pages b) < BRIX_PGREAD_MAXIOV"
      using Suc.hyps(2) by linarith+
    let ?b = "\<lparr>bt_pages = bt_pages b @ [(o1 + 4, l)], bt_bytes = bt_bytes b + l\<rparr>"
    have k': "k = BRIX_PGREAD_MAXIOV - length (bt_pages ?b)" using k by simp
    have r: "remaining - l \<le> rlen" using Suc.prems by simp
    have rem: "0 < remaining" using False by simp
    show ?thesis
      unfolding layout_loop_step [OF k(2) rem l_def, of o1] lens k(1) take_Suc_Cons
        Suc.hyps(1) [OF k' r, of "o1 + 4 + l"] k' [symmetric] cur
      by (simp add: Let_def add.assoc)
  qed
qed

lemma layout_batch_spec:
  assumes "remaining \<le> rlen"
    and ls_def: "ls = take BRIX_PGREAD_MAXIOV (pg_lens (offset + int (rlen - remaining)) remaining)"
  shows "brix_pgread_layout_batch offset rlen remaining o1
    = (o1 + gap_extent ls, \<lparr>bt_pages = page_pos o1 ls, bt_bytes = sum_list ls\<rparr>)"
  using layout_loop_spec [OF assms(1), of offset o1 "\<lparr>bt_pages = [], bt_bytes = 0\<rparr>"]
  by (simp add: brix_pgread_layout_batch_def ls_def Let_def)

lemma chunk_units_Nil [simp]: "chunk_units ls [] = []"
  by (cases ls) simp_all

lemma pg_split_chunk: "length d \<le> n \<Longrightarrow> pg_split off d = chunk_units (pg_lens off n) d"
proof (induction off n arbitrary: d rule: pg_lens.induct)
  case (1 off n)
  show ?case
  proof (cases "d = []")
    case False
    then have n: "n \<noteq> 0" using 1(2) by (cases d) auto
    let ?t = "pg_to_boundary off"
    define l where "l = min ?t n"
    have lens: "pg_lens off n = l # pg_lens (off + int l) (n - l)"
      using n by (subst pg_lens.simps) (simp add: Let_def l_def)
    have tk: "take l d = take ?t d" "drop l d = drop ?t d" using 1(2) by (auto simp: l_def min_def)
    have "pg_split (off + int (length (take ?t d))) (drop ?t d) = chunk_units (pg_lens (off + int l) (n - l)) (drop l d)"
    proof (cases "drop ?t d = []")
      case True
      then show ?thesis by (simp add: tk)
    next
      case nonempty: False
      then have "length (take ?t d) = l" using 1(2) by (auto simp: l_def min_def)
      then show ?thesis using 1(1) [OF n l_def, of "drop l d"] 1(2) by (simp add: tk)
    qed
    then show ?thesis using False by (subst pg_split.simps) (simp add: lens tk Let_def)
  qed simp
qed

lemma chunk_units_take:
  "length d \<le> sum_list (take k ls) \<Longrightarrow> chunk_units (take k ls) d = chunk_units ls d"
proof (induction ls arbitrary: k d)
  case (Cons l ls)
  then show ?case by (cases k) auto
qed simp

lemma chunk_units_append:
  "length d = sum_list ls \<Longrightarrow> (\<forall>l \<in> set ls. 0 < l) \<Longrightarrow> chunk_units (ls @ ls') (d @ d') = chunk_units ls d @ chunk_units ls' d'"
proof (induction ls arbitrary: d)
  case (Cons l ls)
  then show ?case by (cases "d = []") auto
qed simp

lemma pg_wire_append [simp]: "pg_wire (us @ vs) = pg_wire us @ pg_wire vs"
  by (simp add: pg_wire_def)

lemma length_chunk_wire:
  "length d = sum_list ls \<Longrightarrow> (\<forall>l \<in> set ls. 0 < l) \<Longrightarrow> length (pg_wire (chunk_units ls d)) = gap_extent ls"
proof (induction ls arbitrary: d)
  case (Cons l ls)
  then show ?case by (cases "d = []") auto
qed simp

section \<open>The gapped buffer\<close>

fun gap_filled :: "bytes \<Rightarrow> nat \<Rightarrow> nat list \<Rightarrow> bytes \<Rightarrow> bool" where
  "gap_filled buf o1 [] d = (d = [])"
| "gap_filled buf o1 (l # ls) d = (slice (o1 + 4) (min l (length d)) buf = take l d \<and> gap_filled buf (o1 + 4 + l) ls (drop l d))"

lemma slice_cong:
  assumes "\<forall>j. o1 \<le> j \<and> j < o1 + n \<longrightarrow> buf ! j = buf' ! j" "length buf = length buf'" "o1 + n \<le> length buf"
  shows "slice o1 n buf = slice o1 n buf'"
  using assms by (intro nth_equalityI) (auto simp: nth_slice)

lemma gap_filled_cong:
  "gap_filled buf o1 ls d \<Longrightarrow> (\<forall>j \<ge> o1. buf' ! j = buf ! j) \<Longrightarrow> length buf' = length buf
     \<Longrightarrow> o1 + gap_extent ls \<le> length buf \<Longrightarrow> gap_filled buf' o1 ls d"
proof (induction ls arbitrary: o1 d)
  case (Cons l ls)
  have "slice (o1 + 4) (min l (length d)) buf' = slice (o1 + 4) (min l (length d)) buf"
    using Cons.prems by (intro slice_cong) auto
  then show ?case using Cons by auto
qed simp

lemma gap_filled_append:
  "gap_filled buf o1 (ls @ ls') d \<Longrightarrow>
     gap_filled buf o1 ls (take (sum_list ls) d) \<and> gap_filled buf (o1 + gap_extent ls) ls' (drop (sum_list ls) d)"
proof (induction ls arbitrary: o1 d)
  case (Cons l ls)
  then show ?case
    using Cons.IH [of "o1 + 4 + l" "drop l d"] by (auto simp: drop_take min_def ac_simps)
qed simp

fun scatter :: "(nat \<times> nat) list \<Rightarrow> bytes \<Rightarrow> bytes \<Rightarrow> bytes" where
  "scatter [] d buf = buf"
| "scatter ((p, l) # ps) d buf = scatter ps (drop l d) (memcpy_at p (take l d) buf)"

lemma scatter_page_pos:
  "o1 + gap_extent ls \<le> length buf \<Longrightarrow> length d \<le> sum_list ls \<Longrightarrow>
     length (scatter (page_pos o1 ls) d buf) = length buf
     \<and> (\<forall>j < o1 + 4. scatter (page_pos o1 ls) d buf ! j = buf ! j)
     \<and> gap_filled (scatter (page_pos o1 ls) d buf) o1 ls d"
proof (induction ls arbitrary: o1 d buf)
  case (Cons l ls)
  let ?b = "memcpy_at (o1 + 4) (take l d) buf" and ?s = "scatter (page_pos (o1 + 4 + l) ls) (drop l d) (memcpy_at (o1 + 4) (take l d) buf)"
  have fit: "o1 + 4 + length (take l d) \<le> length buf" using Cons.prems(1) by simp
  have ih: "length ?s = length buf" "\<forall>j < o1 + 4 + l + 4. ?s ! j = ?b ! j" "gap_filled ?s (o1 + 4 + l) ls (drop l d)"
    using Cons.IH [of "o1 + 4 + l" ?b "drop l d"] Cons.prems fit by auto
  have "slice (o1 + 4) (min l (length d)) ?s = slice (o1 + 4) (min l (length d)) ?b"
    using ih(1,2) fit Cons.prems(1) by (intro slice_cong) auto
  also have "\<dots> = take l d" using fit by (intro slice_memcpy_same) (simp_all add: min.commute)
  finally show ?case using ih fit by (auto simp: nth_memcpy_at)
qed simp

section \<open>Checksums in place\<close>

text \<open>
  After the checksum pass over a gapped region: the wire image of the delivered bytes stands at
  \<open>o1\<close>, and the buffer is untouched before \<open>o1\<close> and from \<open>e\<close> on.
\<close>

definition wire_at :: "bytes \<Rightarrow> nat \<Rightarrow> bytes \<Rightarrow> nat \<Rightarrow> bytes \<Rightarrow> bool" where
  "wire_at buf o1 w e buf' \<longleftrightarrow> length buf' = length buf \<and> slice o1 (length w) buf' = w
     \<and> (\<forall>j. j < o1 \<or> e \<le> j \<longrightarrow> buf' ! j = buf ! j)"

lemma wire_at_trans:
  assumes "wire_at buf o1 w m buf1" "o1 + length w = m" "m \<le> e" "wire_at buf1 m w' e buf2" "m + length w' \<le> length buf"
  shows "wire_at buf o1 (w @ w') e buf2"
proof -
  have "slice o1 (length w) buf2 = slice o1 (length w) buf1"
    using assms by (intro slice_cong) (auto simp: wire_at_def)
  then have "slice o1 (length (w @ w')) buf2 = w @ w'"
    using assms slice_split [of "length w" "length w + length w'" o1 buf2] by (simp add: wire_at_def)
  then show ?thesis using assms by (simp add: wire_at_def)
qed

lemma chunk_wire_le: "length (pg_wire (chunk_units ls d)) \<le> gap_extent ls"
proof (induction ls arbitrary: d)
  case (Cons l ls)
  then show ?case by (auto intro: add_mono)
qed simp

context crc_instructions
begin

lemma crc_value_sw: "brix_crc32c_value pl a (Some buf) n = pg_crc (take n buf)"
  by (simp add: brix_crc32c_value_def extend_sw)

lemma crc_pages_spec:
  "gap_filled buf o1 ls d \<Longrightarrow> (\<forall>l \<in> set ls. 0 < l) \<Longrightarrow> o1 + gap_extent ls \<le> length buf \<Longrightarrow>
   \<exists>short buf'. crc_pages pl a (page_pos o1 ls) (length d) buf os
       = (short, buf', os + length (pg_wire (chunk_units ls d)))
     \<and> wire_at buf o1 (pg_wire (chunk_units ls d)) (o1 + gap_extent ls) buf'
     \<and> (short \<longrightarrow> length d < sum_list ls)"
proof (induction ls arbitrary: o1 d buf os)
  case Nil
  then show ?case by (auto simp: wire_at_def slice_def intro: exI [of _ False])
next
  case (Cons l ls)
  show ?case
  proof (cases "d = []")
    case True
    then show ?thesis using Cons.prems(2) by (auto simp: wire_at_def slice_def)
  next
    case False
    let ?f = "take l d" and ?al = "min l (length d)"
    let ?h = "be_bytes 4 (pg_crc ?f)"
    let ?b = "memcpy_at o1 ?h buf"
    have l: "0 < l" using Cons.prems(2) by simp
    have fits: "o1 + 4 + l + gap_extent ls \<le> length buf" using Cons.prems(3) by simp
    have f: "slice (o1 + 4) ?al buf = ?f" "gap_filled buf (o1 + 4 + l) ls (drop l d)" using Cons.prems(1) by simp_all
    have al: "(if length d < l then length d else l) = ?al" "?al \<noteq> 0" "length ?f = ?al"
      using False l by (simp_all add: min_def)
    have crc: "brix_crc32c_value pl (a + (o1 + 4)) (Some (drop (o1 + 4) buf)) ?al = pg_crc ?f"
      using f(1) by (simp add: crc_value_sw slice_def)
    have b: "length ?b = length buf" "\<And>j. ?b ! j = (if o1 \<le> j \<and> j < o1 + 4 then ?h ! (j - o1) else buf ! j)"
      using fits by (simp_all add: nth_memcpy_at)
    have "slice (o1 + 4) ?al ?b = ?f"
      using f(1) fits by (subst slice_memcpy_other) auto
    moreover have "slice o1 4 ?b = ?h" using fits by (intro slice_memcpy_same) simp_all
    ultimately have hf: "slice o1 (4 + ?al) ?b = ?h @ ?f"
      using slice_split [of 4 "4 + ?al" o1 ?b] by simp
    show ?thesis
    proof (cases "?al < l")
      case True
      then have dl: "length d < l" "?al = length d" "?f = d" and "drop l d = []" by simp_all
      have "brix_crc32c_value pl (a + (o1 + 4)) (Some (drop (o1 + 4) buf)) (length d) = pg_crc d"
        using crc unfolding dl(2,3) .
      then have "crc_pages pl a (page_pos o1 (l # ls)) (length d) buf os = (True, ?b, os + 4 + ?al)"
        using False dl by (simp add: Let_def)
      moreover have "wire_at buf o1 (?h @ ?f) (o1 + gap_extent (l # ls)) ?b"
        using hf b al(3) by (simp add: wire_at_def)
      moreover have "chunk_units (l # ls) d = [(pg_crc ?f, ?f)]" using False \<open>drop l d = []\<close> by simp
      moreover have "length d < sum_list (l # ls)" using dl(1) by simp
      ultimately show ?thesis
        by (intro exI [of _ True] exI [of _ ?b]) (simp del: crc_pages.simps chunk_units.simps page_pos.simps add: min.commute)
    next
      case full: False
      then have ld: "l \<le> length d" "?al = l" by simp_all
      have "gap_filled ?b (o1 + 4 + l) ls (drop l d)"
      proof (rule gap_filled_cong [OF f(2) _ b(1)])
        show "\<forall>j \<ge> o1 + 4 + l. ?b ! j = buf ! j" using b(2) by simp
      qed (use fits in simp)
      then obtain short buf' where ih:
        "crc_pages pl a (page_pos (o1 + 4 + l) ls) (length (drop l d)) ?b (os + 4 + l)
           = (short, buf', os + 4 + l + length (pg_wire (chunk_units ls (drop l d))))"
        "wire_at ?b (o1 + 4 + l) (pg_wire (chunk_units ls (drop l d))) (o1 + 4 + l + gap_extent ls) buf'"
        "short \<longrightarrow> length (drop l d) < sum_list ls"
        using Cons.IH [of ?b "o1 + 4 + l" "drop l d" "os + 4 + l"] Cons.prems(2) fits b(1) by auto
      have w1: "wire_at buf o1 (?h @ ?f) (o1 + 4 + l) ?b"
        using hf b ld by (simp add: wire_at_def)
      have len: "length (pg_wire (chunk_units ls (drop l d))) \<le> gap_extent ls"
        by (rule chunk_wire_le)
      have "wire_at buf o1 ((?h @ ?f) @ pg_wire (chunk_units ls (drop l d))) (o1 + 4 + l + gap_extent ls) buf'"
        using fits ld len by (intro wire_at_trans [OF w1 _ _ ih(2)]) simp_all
      moreover have "crc_pages pl a (page_pos o1 (l # ls)) (length d) buf os
          = crc_pages pl a (page_pos (o1 + 4 + l) ls) (length (drop l d)) ?b (os + 4 + l)"
        using al ld l crc by (simp add: Let_def add.commute add.left_commute)
      moreover have "chunk_units (l # ls) d = (pg_crc ?f, ?f) # chunk_units ls (drop l d)" using False by simp
      ultimately show ?thesis
        using ih(1,3) ld
        by (intro exI [of _ short] exI [of _ buf'])
           (auto simp del: crc_pages.simps chunk_units.simps page_pos.simps simp: add.assoc)
    qed
  qed
qed

end

section \<open>The storage driver\<close>

text \<open>
  The documented behaviour of a vectored read of a regular file with contents \<open>file\<close>: it transfers
  the bytes from the offset up to the requested total or the end of the file, filling the segments in
  order, and returns their number.
\<close>

definition sd_reads :: "bytes \<Rightarrow> sd_preadv \<Rightarrow> bool" where
  "sd_reads file rd \<longleftrightarrow> (\<forall>iov off buf. 0 \<le> off \<longrightarrow>
     (let d = take (sum_list (map snd iov)) (drop (nat off) file) in rd iov off buf = (Inr (length d), scatter iov d buf)))"

definition sd_file_reader :: "bytes \<Rightarrow> sd_preadv" where
  "sd_file_reader file iov off buf =
     (let d = take (sum_list (map snd iov)) (drop (nat off) file) in (Inr (length d), scatter iov d buf))"

lemma sd_file_reader_reads: "sd_reads file (sd_file_reader file)"
  by (simp add: sd_reads_def sd_file_reader_def Let_def)

lemma scatter_beyond:
  "o1 + gap_extent ls \<le> length buf \<Longrightarrow> length d \<le> sum_list ls \<Longrightarrow> o1 + gap_extent ls \<le> j \<Longrightarrow>
     scatter (page_pos o1 ls) d buf ! j = buf ! j"
proof (induction ls arbitrary: o1 d buf)
  case (Cons l ls)
  have "scatter (page_pos (o1 + 4 + l) ls) (drop l d) (memcpy_at (o1 + 4) (take l d) buf) ! j
      = memcpy_at (o1 + 4) (take l d) buf ! j"
    using Cons.prems by (intro Cons.IH) auto
  then show ?case using Cons.prems by (auto simp: nth_memcpy_at)
qed simp

context crc_instructions
begin

lemma read_encode_loop_spec:
  assumes "sd_reads file rd" "0 \<le> offset" "\<not> io_nowait io"
  shows "remaining \<le> rlen \<Longrightarrow> cur = offset + int (rlen - remaining) \<Longrightarrow>
    o1 + gap_extent (pg_lens cur remaining) \<le> length out \<Longrightarrow> d = take remaining (drop (nat cur) file) \<Longrightarrow>
    \<exists>out'. read_encode_loop pl a rd rd_nowait offset rlen remaining o1 False out o1 tot io
        = (o1 + length (pg_wire (pg_split cur d)), out', io\<lparr>io_nread := int (tot + length d)\<rparr>)
      \<and> wire_at out o1 (pg_wire (pg_split cur d)) (o1 + gap_extent (pg_lens cur remaining)) out'"
proof (induction remaining arbitrary: cur o1 out tot d rule: less_induct)
  case (less remaining)
  show ?case
  proof (cases "remaining = 0")
    case True
    then show ?thesis using less.prems by (subst read_encode_loop.simps) (simp add: wire_at_def slice_def)
  next
    case False
    define ls where "ls = take BRIX_PGREAD_MAXIOV (pg_lens cur remaining)"
    define ls' where "ls' = drop BRIX_PGREAD_MAXIOV (pg_lens cur remaining)"
    define m where "m = sum_list ls"
    define d1 where "d1 = take m (drop (nat cur) file)"
    have cat: "pg_lens cur remaining = ls @ ls'" by (simp add: ls_def ls'_def)
    have pos: "\<forall>l \<in> set ls. 0 < l" using pg_lens_pos by (auto simp: cat [symmetric] ls_def dest: in_set_takeD)
    have sum: "m + sum_list ls' = remaining" using sum_pg_lens [of cur remaining] by (simp add: cat m_def)
    have lay: "brix_pgread_layout_batch offset rlen remaining o1
        = (o1 + gap_extent ls, \<lparr>bt_pages = page_pos o1 ls, bt_bytes = m\<rparr>)"
      using layout_batch_spec [OF less.prems(1), of ls offset o1] less.prems(2) by (simp add: ls_def m_def)
    have m: "0 < m" "m \<le> remaining"
      using layout_batch_progress [of remaining offset rlen o1] lay False sum by simp_all
    have cur: "0 \<le> cur" using assms(2) less.prems(2) by simp
    have rd: "rd (page_pos o1 ls) cur out = (Inr (length d1), scatter (page_pos o1 ls) d1 out)"
      using assms(1) cur by (simp add: sd_reads_def d1_def m_def Let_def)
    have fit: "o1 + gap_extent ls + gap_extent ls' \<le> length out" using less.prems(3) by (simp add: cat)
    have d1: "length d1 \<le> m" by (simp add: d1_def)
    let ?s = "scatter (page_pos o1 ls) d1 out"
    have s: "length ?s = length out" "\<forall>j < o1 + 4. ?s ! j = out ! j" "gap_filled ?s o1 ls d1"
      using scatter_page_pos [of o1 ls out d1] fit d1 by (auto simp: m_def)
    obtain short out3 where cp: "crc_pages pl a (page_pos o1 ls) (length d1) ?s o1
          = (short, out3, o1 + length (pg_wire (chunk_units ls d1)))"
      and w3: "wire_at ?s o1 (pg_wire (chunk_units ls d1)) (o1 + gap_extent ls) out3"
      and sh: "short \<longrightarrow> length d1 < m"
      using crc_pages_spec [OF s(3) pos, of a o1] fit s(1) by (auto simp: m_def)
    have step: "read_encode_loop pl a rd rd_nowait offset rlen remaining o1 False out o1 tot io
      = read_encode_loop pl a rd rd_nowait offset rlen (remaining - m) (o1 + gap_extent ls)
          (length d1 < m) out3 (o1 + length (pg_wire (chunk_units ls d1))) (tot + length d1) io"
      using False sh assms(3) rd less.prems(2)
      by (subst read_encode_loop.simps) (auto simp: lay cp brix_pgread_crc_batch_def Let_def)
    have w3': "wire_at out o1 (pg_wire (chunk_units ls d1)) (o1 + gap_extent (pg_lens cur remaining)) out3"
      using w3 s scatter_beyond [of o1 ls out d1] fit d1 by (auto simp: wire_at_def cat m_def)
    have lens: "length d \<le> remaining" using less.prems(4) by simp
    show ?thesis
    proof (cases "length d1 < m")
      case True
      then have "d = d1" using m(2) less.prems(4) by (simp add: d1_def)
      moreover have "chunk_units ls d1 = pg_split cur d1"
        using pg_split_chunk [of d1 remaining cur] chunk_units_take [of d1 BRIX_PGREAD_MAXIOV "pg_lens cur remaining"] d1 m(2)
        by (simp add: ls_def m_def)
      ultimately show ?thesis
        using step True w3' by (subst (asm) (2) read_encode_loop.simps) simp
    next
      case full: False
      define d2 where "d2 = take (remaining - m) (drop (nat (cur + int m)) file)"
      have ld: "length d1 = m" using full d1 by simp
      have dcat: "d = d1 @ d2"
      proof -
        have "nat (cur + int m) = nat cur + m" using cur by linarith
        then show ?thesis
          using less.prems(4) m(2) take_add [of m "remaining - m" "drop (nat cur) file"]
          by (simp add: d1_def d2_def add.commute)
      qed
      have ls': "pg_lens (cur + int m) (remaining - m) = ls'"
        using pg_lens_drop [of BRIX_PGREAD_MAXIOV cur remaining] by (simp add: ls'_def m_def ls_def)
      have wl: "length (pg_wire (chunk_units ls d1)) = gap_extent ls"
        using length_chunk_wire [of d1 ls] ld pos by (simp add: m_def)
      have split: "pg_split cur d = chunk_units ls d1 @ pg_split (cur + int m) d2"
      proof -
        have "length d2 \<le> remaining - m" "length d1 = sum_list ls" using ld by (simp_all add: d2_def m_def)
        from pg_split_chunk [OF lens, of cur] pg_split_chunk [OF this(1), of "cur + int m"]
          chunk_units_append [OF this(2) pos, of ls' d2]
        show ?thesis by (simp add: cat ls' dcat)
      qed
      have "remaining - m < remaining" "remaining - m \<le> rlen" "cur + int m = offset + int (rlen - (remaining - m))"
        "o1 + gap_extent ls + gap_extent (pg_lens (cur + int m) (remaining - m)) \<le> length out3"
      proof -
        show "remaining - m < remaining" "remaining - m \<le> rlen" using m less.prems(1) by simp_all
        show "cur + int m = offset + int (rlen - (remaining - m))" using m less.prems(1,2) by simp
        show "o1 + gap_extent ls + gap_extent (pg_lens (cur + int m) (remaining - m)) \<le> length out3"
          unfolding ls' using fit w3' by (simp add: wire_at_def)
      qed
      from less.IH [OF this d2_def, of "tot + m"] obtain out' where
        r: "read_encode_loop pl a rd rd_nowait offset rlen (remaining - m) (o1 + gap_extent ls) False out3
              (o1 + gap_extent ls) (tot + m) io
          = (o1 + gap_extent ls + length (pg_wire (pg_split (cur + int m) d2)), out', io\<lparr>io_nread := int (tot + m + length d2)\<rparr>)"
        and w': "wire_at out3 (o1 + gap_extent ls) (pg_wire (pg_split (cur + int m) d2)) (o1 + gap_extent ls + gap_extent ls') out'"
        by (auto simp: ls')
      have "length (pg_wire (pg_split (cur + int m) d2)) \<le> gap_extent ls'"
        using pg_split_chunk [of d2 "remaining - m" "cur + int m"] chunk_wire_le by (simp add: d2_def ls')
      then have "wire_at out o1 (pg_wire (pg_split cur d)) (o1 + gap_extent (pg_lens cur remaining)) out'"
        unfolding split pg_wire_append cat
        using w' wl fit w3 s scatter_beyond [of o1 ls out d1] d1
        by (intro wire_at_trans [of out o1 _ "o1 + gap_extent ls" out3]) (auto simp: wire_at_def m_def add.assoc)
      moreover have "length (pg_wire (pg_split cur d)) = gap_extent ls + length (pg_wire (pg_split (cur + int m) d2))"
        by (simp add: split wl)
      moreover have "length d = m + length d2" by (simp add: dcat ld)
      ultimately show ?thesis using step full r wl ld by (simp add: add.assoc)
    qed
  qed
qed

end

context crc_instructions
begin

lemma crc_delivered_loop_spec:
  "remaining \<le> rlen \<Longrightarrow> cur = offset + int (rlen - remaining) \<Longrightarrow>
    o1 + gap_extent (pg_lens cur remaining) \<le> length out \<Longrightarrow> length d \<le> remaining \<Longrightarrow>
    gap_filled out o1 (pg_lens cur remaining) d \<Longrightarrow>
    \<exists>out'. crc_delivered_loop pl a offset rlen remaining (length d) o1 out o1
        = (o1 + length (pg_wire (pg_split cur d)), out')
      \<and> wire_at out o1 (pg_wire (pg_split cur d)) (o1 + gap_extent (pg_lens cur remaining)) out'"
proof (induction remaining arbitrary: cur o1 out d rule: less_induct)
  case (less remaining)
  show ?case
  proof (cases "remaining = 0 \<or> d = []")
    case True
    then have "d = []" using less.prems(4) by auto
    then show ?thesis by (subst crc_delivered_loop.simps) (simp add: wire_at_def slice_def)
  next
    case False
    define ls where "ls = take BRIX_PGREAD_MAXIOV (pg_lens cur remaining)"
    define ls' where "ls' = drop BRIX_PGREAD_MAXIOV (pg_lens cur remaining)"
    define m where "m = sum_list ls"
    have cat: "pg_lens cur remaining = ls @ ls'" by (simp add: ls_def ls'_def)
    have pos: "\<forall>l \<in> set ls. 0 < l" using pg_lens_pos by (auto simp: cat [symmetric] ls_def dest: in_set_takeD)
    have lay: "brix_pgread_layout_batch offset rlen remaining o1
        = (o1 + gap_extent ls, \<lparr>bt_pages = page_pos o1 ls, bt_bytes = m\<rparr>)"
      using layout_batch_spec [OF less.prems(1), of ls offset o1] less.prems(2) by (simp add: ls_def m_def)
    have m: "0 < m" "m \<le> remaining"
      using layout_batch_progress [of remaining offset rlen o1] lay False sum_pg_lens [of cur remaining]
      by (auto simp: cat m_def)
    have fit: "o1 + gap_extent ls + gap_extent ls' \<le> length out" using less.prems(3) by (simp add: cat)
    have gf: "gap_filled out o1 ls (take m d)" "gap_filled out (o1 + gap_extent ls) ls' (drop m d)"
      using gap_filled_append [of out o1 ls ls' d] less.prems(5) by (simp_all add: cat m_def)
    have use: "(if length d < m then length d else m) = length (take m d)" by simp
    obtain short out2 where cp: "crc_pages pl a (page_pos o1 ls) (length (take m d)) out o1
          = (short, out2, o1 + length (pg_wire (chunk_units ls (take m d))))"
      and w2: "wire_at out o1 (pg_wire (chunk_units ls (take m d))) (o1 + gap_extent ls) out2"
      and sh: "short \<longrightarrow> length (take m d) < m"
      using crc_pages_spec [OF gf(1) pos, of a o1] fit by (auto simp: m_def)
    have step: "crc_delivered_loop pl a offset rlen remaining (length d) o1 out o1 =
      (if short then (o1 + length (pg_wire (chunk_units ls (take m d))), out2)
       else crc_delivered_loop pl a offset rlen (remaining - m) (length (drop m d)) (o1 + gap_extent ls) out2
              (o1 + length (pg_wire (chunk_units ls (take m d)))))"
    proof -
      have c: "(0 < remaining \<and> 0 < length d) = True" "length d - length (take m d) = length (drop m d)" using False by simp_all
      show ?thesis
        by (subst crc_delivered_loop.simps)
           (simp only: c(1) if_True lay prod.case Let_def brix_pgread_crc_batch_def brix_pgread_batch_t.select_convs use c(2) cp)
    qed
    show ?thesis
    proof (cases "length d < m")
      case True
      have "chunk_units ls d = pg_split cur d"
        using pg_split_chunk [OF less.prems(4), of cur] chunk_units_take [of d BRIX_PGREAD_MAXIOV "pg_lens cur remaining"] True
        by (simp add: ls_def m_def)
      moreover have "wire_at out o1 (pg_wire (chunk_units ls d)) (o1 + gap_extent (pg_lens cur remaining)) out2"
        using w2 True by (auto simp: wire_at_def cat)
      moreover have "crc_delivered_loop pl a offset rlen (remaining - m) 0 (o1 + gap_extent ls) out2 os = (os, out2)" for os
        by (subst crc_delivered_loop.simps) simp
      ultimately show ?thesis using step True by simp
    next
      case full: False
      define d2 where "d2 = drop m d"
      have ld: "length (take m d) = sum_list ls" "length d2 \<le> remaining - m" "d = take m d @ d2"
        using full less.prems(4) by (simp_all add: m_def d2_def)
      have ls': "pg_lens (cur + int m) (remaining - m) = ls'"
        using pg_lens_drop [of BRIX_PGREAD_MAXIOV cur remaining] by (simp add: ls'_def m_def ls_def)
      have wl: "length (pg_wire (chunk_units ls (take m d))) = gap_extent ls"
        using length_chunk_wire [OF ld(1) pos] .
      have "pg_split cur d = chunk_units (ls @ ls') (take m d @ d2)"
        using pg_split_chunk [OF less.prems(4), of cur] ld(3) by (simp add: cat)
      then have split: "pg_split cur d = chunk_units ls (take m d) @ pg_split (cur + int m) d2"
        using chunk_units_append [OF ld(1) pos, of ls' d2] pg_split_chunk [OF ld(2), of "cur + int m"] by (simp add: ls')
      have pre: "remaining - m < remaining" "remaining - m \<le> rlen" "cur + int m = offset + int (rlen - (remaining - m))"
        "o1 + gap_extent ls + gap_extent (pg_lens (cur + int m) (remaining - m)) \<le> length out2"
        "gap_filled out2 (o1 + gap_extent ls) (pg_lens (cur + int m) (remaining - m)) d2"
      proof -
        show "remaining - m < remaining" "remaining - m \<le> rlen" using m less.prems(1) by simp_all
        show "cur + int m = offset + int (rlen - (remaining - m))" using m less.prems(1,2) by simp
        show "o1 + gap_extent ls + gap_extent (pg_lens (cur + int m) (remaining - m)) \<le> length out2"
          unfolding ls' using fit w2 by (simp add: wire_at_def)
        show "gap_filled out2 (o1 + gap_extent ls) (pg_lens (cur + int m) (remaining - m)) d2"
          unfolding ls' d2_def using w2 fit by (intro gap_filled_cong [OF gf(2)]) (simp_all add: wire_at_def)
      qed
      obtain out' where
        r: "crc_delivered_loop pl a offset rlen (remaining - m) (length d2) (o1 + gap_extent ls) out2 (o1 + gap_extent ls)
          = (o1 + gap_extent ls + length (pg_wire (pg_split (cur + int m) d2)), out')"
        and w': "wire_at out2 (o1 + gap_extent ls) (pg_wire (pg_split (cur + int m) d2)) (o1 + gap_extent ls + gap_extent ls') out'"
        using less.IH [OF pre(1-4) ld(2) pre(5)] by (auto simp: ls')
      have "length (pg_wire (pg_split (cur + int m) d2)) \<le> gap_extent ls'"
        using pg_split_chunk [OF ld(2), of "cur + int m"] chunk_wire_le by (simp add: ls')
      then have "wire_at out o1 (pg_wire (pg_split cur d)) (o1 + gap_extent (pg_lens cur remaining)) out'"
        unfolding split pg_wire_append cat
        using w' wl fit by (intro wire_at_trans [OF w2]) (simp_all add: add.assoc)
      moreover have "length (pg_wire (pg_split cur d)) = gap_extent ls + length (pg_wire (pg_split (cur + int m) d2))"
        by (simp add: split wl)
      ultimately show ?thesis using step full r wl sh by (simp add: d2_def [symmetric] add.assoc)
    qed
  qed
qed

end

section \<open>Properties of the paged read\<close>

text \<open>
  C14. The zero-copy paged read produces the same octets as the copying encoder: for a blocking
  read of a regular file it returns the length and the wire image that \<open>xrdp_pg_encode\<close> makes of the
  file's bytes in the requested range (cut at the end of the file), however many batches it takes, and
  reports the number of file bytes read.
\<close>

theorem pgread_inplace_is_encode:
  assumes "crc_platform_documented pl" "crc_platform_documented pl'" "sd_reads file rd" "0 \<le> offset" "\<not> io_nowait io"
    and "gap_extent (pg_lens offset rlen) \<le> length out"
    and "data = take rlen (drop (nat offset) file)" "length (pg_wire (pg_split offset data)) \<le> length dst"
  shows "\<exists>n out' dst'. brix_pgread_read_encode_inplace pl a rd rd_nowait offset rlen out io
      = (n, out', io\<lparr>io_errno := 0, io_nread := int (length data)\<rparr>)
    \<and> brix_pgread_encode_pages pl' a' data (length data) offset dst = (n, dst') \<and> take n out' = take n dst'"
proof -
  let ?w = "pg_wire (pg_split offset data)" and ?io = "io\<lparr>io_nread := 0, io_errno := 0\<rparr>"
  have nw: "\<not> io_nowait ?io" using assms(5) by simp
  obtain out' where r: "read_encode_loop pl a rd rd_nowait offset rlen rlen 0 False out 0 0 ?io
      = (0 + length ?w, out', ?io\<lparr>io_nread := int (0 + length data)\<rparr>)" and w: "wire_at out 0 ?w (0 + gap_extent (pg_lens offset rlen)) out'"
    using crc_instructions.read_encode_loop_spec [OF crc_instructions.intro [OF assms(1)] assms(3,4) nw, of rlen rlen offset 0 out data a rd_nowait 0]
      assms(6,7) by auto
  have "take (length ?w) out' = ?w" using w by (simp add: wire_at_def slice_def)
  moreover have "brix_pgread_encode_pages pl' a' data (length data) offset dst = (length ?w, memcpy_at 0 ?w dst)"
    using pg_encode_spec [OF assms(2), of offset "length data" data dst a'] assms(8) by (simp add: brix_pgread_encode_pages_def)
  moreover have "take (length ?w) (memcpy_at 0 ?w dst) = ?w" by (simp add: memcpy_at_def)
  ultimately show ?thesis using r by (simp add: brix_pgread_read_encode_inplace_def)
qed

lemma pg_lens_small: "n \<noteq> 0 \<Longrightarrow> n \<le> pg_to_boundary off \<Longrightarrow> pg_lens off n = [n]"
  by (subst pg_lens.simps) (simp add: Let_def)

theorem pgread_inplace_is_encode_witness:
  "\<exists>n out' dst'. brix_pgread_read_encode_inplace (crc_reference_platform CRC_X86_64 True) 0 (sd_file_reader [1, 2, 3]) (sd_file_reader [])
      1 9 (replicate 13 0) \<lparr>io_nowait = False, io_nread = 5, io_errno = 5\<rparr> = (n, out', \<lparr>io_nowait = False, io_nread = 2, io_errno = 0\<rparr>)
    \<and> brix_pgread_encode_pages (crc_reference_platform CRC_GENERIC False) 0 [2, 3] (length [2, 3::byte]) 1 (replicate 6 0) = (n, dst')
    \<and> take n out' = take n dst'"
proof -
  have "pg_lens 1 9 = [9]" by (rule pg_lens_small) (simp_all add: pg_to_boundary_mod)
  then have f: "gap_extent (pg_lens 1 9) \<le> length (replicate 13 (0::byte))" by simp
  have "pg_split 1 [2, 3] = [(pg_crc [2, 3], [2, 3])]" by (simp add: pg_split.simps pg_to_boundary_mod Let_def)
  then have g: "length (pg_wire (pg_split 1 [2, 3])) \<le> length (replicate 6 (0::byte))" by simp
  show ?thesis
    using pgread_inplace_is_encode [OF crc_reference_documented crc_reference_documented sd_file_reader_reads _ _ f _ g,
        of "\<lparr>io_nowait = False, io_nread = 5, io_errno = 5\<rparr>" "[1, 2, 3]" CRC_X86_64 True 0 "sd_file_reader []" CRC_GENERIC False 0]
    by simp
qed

text \<open>
  The split read-then-checksum path (the ring reads into the gaps, a pool thread runs the checksum
  pass) yields the same octets too: over a buffer whose gaps hold the delivered bytes, the checksum-only
  pass returns the length of, and leaves in the buffer, the canonical wire image of those bytes.
\<close>

theorem pgread_delivered_is_encode:
  assumes "crc_platform_documented pl" "length d \<le> rlen" "gap_extent (pg_lens offset rlen) \<le> length out"
    and "gap_filled out 0 (pg_lens offset rlen) d"
  shows "\<exists>out'. brix_pgread_crc_encode_delivered pl a offset rlen out (length d)
      = (length (pg_wire (pg_split offset d)), out')
    \<and> take (length (pg_wire (pg_split offset d))) out' = pg_wire (pg_split offset d)"
proof -
  obtain out' where "crc_delivered_loop pl a offset rlen rlen (length d) 0 out 0 = (0 + length (pg_wire (pg_split offset d)), out')"
    "wire_at out 0 (pg_wire (pg_split offset d)) (0 + gap_extent (pg_lens offset rlen)) out'"
    using crc_instructions.crc_delivered_loop_spec [OF crc_instructions.intro [OF assms(1)], of rlen rlen offset offset 0 out d a]
      assms(2-4) by auto
  then show ?thesis by (simp add: brix_pgread_crc_encode_delivered_def wire_at_def slice_def)
qed

theorem pgread_delivered_is_encode_witness:
  "\<exists>out'. brix_pgread_crc_encode_delivered (crc_reference_platform CRC_ARM64 False) 0 0 3 [0, 0, 0, 0, 8, 9, 0] (length [8, 9::byte])
      = (length (pg_wire (pg_split 0 [8, 9])), out')
    \<and> take (length (pg_wire (pg_split 0 [8, 9]))) out' = pg_wire (pg_split 0 [8, 9])"
proof (rule pgread_delivered_is_encode)
  have "pg_lens 0 3 = [3]" by (rule pg_lens_small) (simp_all add: pg_to_boundary_mod)
  then show "gap_extent (pg_lens 0 3) \<le> length [0, 0, 0, 0, 8, 9, 0::byte]"
    "gap_filled [0, 0, 0, 0, 8, 9, 0] 0 (pg_lens 0 3) [8, 9]" by (simp_all add: slice_def)
qed (simp_all add: crc_reference_documented)

text \<open>
  A single scatter list exists exactly for the reads of at most 512 fragments (and at most
  \<open>max_iov\<close>); it then covers every byte of the read once, in order, leaving a four-byte gap in front
  of each fragment, and stays inside the wire buffer.
\<close>

theorem pgread_layout_iov_exact:
  "brix_pgread_layout_iov offset rlen max_iov =
     (if length (pg_lens offset rlen) \<le> min BRIX_PGREAD_MAXIOV max_iov
      then Some (page_pos 0 (pg_lens offset rlen)) else None)
   \<and> sum_list (pg_lens offset rlen) = rlen"
proof -
  let ?l = "pg_lens offset rlen"
  have sums: "sum_list (take BRIX_PGREAD_MAXIOV ?l) + sum_list (drop BRIX_PGREAD_MAXIOV ?l) = rlen"
    using sum_pg_lens [of offset rlen] by (metis append_take_drop_id sum_list_append)
  have "sum_list (drop BRIX_PGREAD_MAXIOV ?l) = 0 \<longleftrightarrow> length ?l \<le> BRIX_PGREAD_MAXIOV"
  proof (cases "length ?l \<le> BRIX_PGREAD_MAXIOV")
    case False
    then obtain x xs where x: "drop BRIX_PGREAD_MAXIOV ?l = x # xs" by (cases "drop BRIX_PGREAD_MAXIOV ?l") auto
    then have "x \<in> set ?l" by (metis in_set_dropD list.set_intros(1))
    then show ?thesis using False x pg_lens_pos [of x offset rlen] by simp
  qed simp
  then have "sum_list (take BRIX_PGREAD_MAXIOV ?l) \<noteq> rlen \<longleftrightarrow> \<not> length ?l \<le> BRIX_PGREAD_MAXIOV"
    using sums by linarith
  moreover have "length (page_pos 0 ls) = length ls" for ls by (metis length_map map_snd_page_pos)
  ultimately show ?thesis
    using layout_batch_spec [of rlen rlen _ offset 0, OF _ refl] sum_pg_lens
    by (simp add: brix_pgread_layout_iov_def)
qed

end
