(* ===== verification/Pgw_Fob.thy ===== *)
theory Pgw_Fob
  imports Brix_Prelude
begin

text \<open>
  The registry of uncorrected pages of \<^verbatim>\<open>src/protocols/root/write/pgw_fob.c\<close>, which keeps a file with
  known-corrupt pages from being committed.  The fields of \<open>brix_file_t\<close> it owns are the record
  \<open>brix_file_fob\<close>; keys are 64-bit words.  The locale \<open>bounded_registry\<close> is the contract of
  a set of bounded capacity; the registry is shown to implement it.
\<close>

abbreviation (input) BRIX_PGW_FOB_SLOTS :: nat where "BRIX_PGW_FOB_SLOTS \<equiv> 256"

record brix_pgw_fob_entry_t =
  fob_key :: u64
  fob_used :: bool

record brix_file_fob =
  pgw_fob_enabled :: bool
  pgw_fob_count :: u32
  pgw_fob_errs :: u32
  pgw_fob_fixes :: u32
  pgw_fob :: "brix_pgw_fob_entry_t list"

definition pgw_fob_key :: "u64 \<Rightarrow> u32 \<Rightarrow> u64" where
  "pgw_fob_key off dlen =
     (let key = push_bit 12 off in if dlen < 4096 then key OR ucast dlen else key)"

abbreviation fob_empty_slot :: brix_pgw_fob_entry_t where
  "fob_empty_slot \<equiv> \<lparr>fob_key = 0, fob_used = False\<rparr>"

definition brix_pgw_fob_reset :: "brix_file_fob \<Rightarrow> brix_file_fob" where
  "brix_pgw_fob_reset f = f\<lparr>pgw_fob_enabled := False, pgw_fob_count := 0, pgw_fob_errs := 0, pgw_fob_fixes := 0,
     pgw_fob := replicate BRIX_PGW_FOB_SLOTS fob_empty_slot\<rparr>"

definition brix_pgw_fob_open :: "brix_file_fob \<Rightarrow> brix_file_fob" where
  "brix_pgw_fob_open f = (if pgw_fob_enabled f then f
     else f\<lparr>pgw_fob_enabled := True, pgw_fob_count := 0, pgw_fob_errs := 0, pgw_fob_fixes := 0,
            pgw_fob := replicate BRIX_PGW_FOB_SLOTS fob_empty_slot\<rparr>)"

text \<open>The scan of \<open>add\<close>: \<open>None\<close> when the key is present, else the first free slot (or none).\<close>

fun fob_add_scan :: "u64 \<Rightarrow> brix_pgw_fob_entry_t list \<Rightarrow> nat \<Rightarrow> nat option \<Rightarrow> nat option option" where
  "fob_add_scan key [] i free_slot = Some free_slot"
| "fob_add_scan key (e # es) i free_slot =
     (if fob_used e then (if fob_key e = key then None else fob_add_scan key es (i + 1) free_slot)
      else fob_add_scan key es (i + 1) (case free_slot of None \<Rightarrow> Some i | Some s \<Rightarrow> Some s))"

definition brix_pgw_fob_add :: "brix_file_fob \<Rightarrow> u64 \<Rightarrow> u32 \<Rightarrow> bool \<times> brix_file_fob" where
  "brix_pgw_fob_add f off dlen =
     (let key = pgw_fob_key off dlen; f = f\<lparr>pgw_fob_errs := pgw_fob_errs f + 1\<rparr>
      in case fob_add_scan key (pgw_fob f) 0 None of
           None \<Rightarrow> (True, f)
         | Some None \<Rightarrow> (False, f)
         | Some (Some s) \<Rightarrow> (True, f\<lparr>pgw_fob := (pgw_fob f)[s := \<lparr>fob_key = key, fob_used = True\<rparr>],
                                    pgw_fob_count := pgw_fob_count f + 1\<rparr>))"

fun fob_find :: "u64 \<Rightarrow> brix_pgw_fob_entry_t list \<Rightarrow> nat \<Rightarrow> nat option" where
  "fob_find key [] i = None"
| "fob_find key (e # es) i = (if fob_used e \<and> fob_key e = key then Some i else fob_find key es (i + 1))"

definition brix_pgw_fob_del :: "brix_file_fob \<Rightarrow> u64 \<Rightarrow> u32 \<Rightarrow> bool \<times> brix_file_fob" where
  "brix_pgw_fob_del f off dlen =
     (case fob_find (pgw_fob_key off dlen) (pgw_fob f) 0 of
        None \<Rightarrow> (False, f)
      | Some i \<Rightarrow> (True, f\<lparr>pgw_fob := (pgw_fob f)[i := fob_empty_slot],
                          pgw_fob_count := (if pgw_fob_count f > 0 then pgw_fob_count f - 1 else pgw_fob_count f),
                          pgw_fob_fixes := pgw_fob_fixes f + 1\<rparr>))"

definition brix_pgw_fob_has :: "brix_file_fob \<Rightarrow> u64 \<Rightarrow> u32 \<Rightarrow> bool" where
  "brix_pgw_fob_has f off dlen = (fob_find (pgw_fob_key off dlen) (pgw_fob f) 0 \<noteq> None)"

definition brix_pgw_fob_count :: "brix_file_fob \<Rightarrow> u32" where
  "brix_pgw_fob_count f = pgw_fob_count f"

definition brix_pgw_fob_commit_blocked :: "brix_file_fob \<Rightarrow> u32" where
  "brix_pgw_fob_commit_blocked f = (if pgw_fob_enabled f then pgw_fob_count f else 0)"

section \<open>The contract: a set of bounded capacity\<close>

datatype 'k registry_event = Reported 'k | Corrected 'k

text \<open>Running a sequence of reports and corrections; the flag says whether every report was accepted.\<close>

fun registry_run :: "('s \<Rightarrow> 'p \<Rightarrow> bool \<times> 's) \<Rightarrow> ('s \<Rightarrow> 'p \<Rightarrow> bool \<times> 's) \<Rightarrow> 's \<Rightarrow> 'p registry_event list \<Rightarrow> bool \<times> 's" where
  "registry_run add del s [] = (True, s)"
| "registry_run add del s (Reported p # es) =
     (fst (add s p) \<and> fst (registry_run add del (snd (add s p)) es), snd (registry_run add del (snd (add s p)) es))"
| "registry_run add del s (Corrected p # es) = registry_run add del (snd (del s p)) es"

text \<open>The pages that are reported and not corrected since.\<close>

fun outstanding :: "'k set \<Rightarrow> 'k registry_event list \<Rightarrow> 'k set" where
  "outstanding A [] = A"
| "outstanding A (Reported k # es) = outstanding (insert k A) es"
| "outstanding A (Corrected k # es) = outstanding (A - {k}) es"

lemma outstanding_card: "finite A \<Longrightarrow> card (outstanding A es) \<le> card A + length es"
proof (induction A es rule: outstanding.induct)
  case (2 A k es)
  then show ?case using card_insert_le_m1 [of "Suc (card A)" A k] by (simp add: card_insert_if split: if_splits)
next
  case (3 A k es)
  then show ?case using card_Diff1_le [of A k] by simp
qed simp

lemma outstanding_finite: "finite A \<Longrightarrow> finite (outstanding A es)"
  by (induction A es rule: outstanding.induct) simp_all

locale bounded_registry =
  fixes inv :: "'s \<Rightarrow> bool" and members :: "'s \<Rightarrow> 'k set" and enc :: "'p \<Rightarrow> 'k"
    and add del :: "'s \<Rightarrow> 'p \<Rightarrow> bool \<times> 's" and cap :: nat
  assumes add_inv: "inv s \<Longrightarrow> inv (snd (add s p))"
    and del_inv: "inv s \<Longrightarrow> inv (snd (del s p))"
    and add_ok: "inv s \<Longrightarrow> fst (add s p) \<longleftrightarrow> enc p \<in> members s \<or> card (members s) < cap"
    and add_members: "inv s \<Longrightarrow> members (snd (add s p)) = (if fst (add s p) then insert (enc p) (members s) else members s)"
    and del_ok: "inv s \<Longrightarrow> fst (del s p) \<longleftrightarrow> enc p \<in> members s"
    and del_members: "inv s \<Longrightarrow> members (snd (del s p)) = members s - {enc p}"
    and bounded: "inv s \<Longrightarrow> finite (members s) \<and> card (members s) \<le> cap"
begin

lemma run_inv: "inv s \<Longrightarrow> inv (snd (registry_run add del s es))"
proof (induction es arbitrary: s)
  case (Cons e es)
  then show ?case by (cases e) (simp_all add: add_inv del_inv)
qed simp

lemma run_members:
  "inv s \<Longrightarrow> fst (registry_run add del s es) \<Longrightarrow>
     members (snd (registry_run add del s es)) = outstanding (members s) (map (map_registry_event enc) es)"
proof (induction es arbitrary: s)
  case (Cons e es)
  then show ?case by (cases e) (simp_all add: add_inv del_inv add_members del_members)
qed simp

lemma run_accepts:
  "inv s \<Longrightarrow> (\<forall>n. card (outstanding (members s) (map (map_registry_event enc) (take n es))) \<le> cap) \<Longrightarrow>
     fst (registry_run add del s es)"
proof (induction es arbitrary: s)
  case (Cons e es)
  have rest: "card (outstanding (outstanding (members s) [map_registry_event enc e]) (map (map_registry_event enc) (take n es))) \<le> cap" for n
    using Cons.prems(2) [rule_format, of "Suc n"] by (cases e) simp_all
  show ?case
  proof (cases e)
    case (Reported p)
    have "card (insert (enc p) (members s)) \<le> cap" using rest [of 0] Reported by simp
    then have ok: "fst (add s p)"
      using add_ok [OF Cons.prems(1), of p] bounded [OF Cons.prems(1)] by (cases "enc p \<in> members s") simp_all
    have "fst (registry_run add del (snd (add s p)) es)"
      using rest Reported ok add_members [OF Cons.prems(1), of p]
      by (intro Cons.IH add_inv Cons.prems(1)) simp
    then show ?thesis using ok Reported by simp
  next
    case (Corrected p)
    have "fst (registry_run add del (snd (del s p)) es)"
      using rest Corrected del_members [OF Cons.prems(1), of p] by (intro Cons.IH del_inv Cons.prems(1)) simp
    then show ?thesis using Corrected by simp
  qed
qed simp

end

section \<open>The registry implements the contract\<close>

definition fob_keys :: "brix_pgw_fob_entry_t list \<Rightarrow> u64 list" where
  "fob_keys es = map fob_key (filter fob_used es)"

definition fob_members :: "brix_file_fob \<Rightarrow> u64 set" where
  "fob_members f = set (fob_keys (pgw_fob f))"

definition fob_inv :: "brix_file_fob \<Rightarrow> bool" where
  "fob_inv f \<longleftrightarrow> pgw_fob_enabled f \<and> length (pgw_fob f) = BRIX_PGW_FOB_SLOTS \<and> distinct (fob_keys (pgw_fob f))
     \<and> pgw_fob_count f = of_nat (length (fob_keys (pgw_fob f)))"

lemma fob_keys_append [simp]: "fob_keys (xs @ ys) = fob_keys xs @ fob_keys ys"
  and fob_keys_Cons [simp]: "fob_keys (e # es) = (if fob_used e then fob_key e # fob_keys es else fob_keys es)"
  and fob_keys_Nil [simp]: "fob_keys [] = []"
  by (simp_all add: fob_keys_def)

lemma length_fob_keys: "length (fob_keys es) \<le> length es"
  by (simp add: fob_keys_def)

lemma fob_find_iff: "fob_find key es i \<noteq> None \<longleftrightarrow> key \<in> set (fob_keys es)"
  by (induction es arbitrary: i) auto

lemma fob_find_split:
  "fob_find key es i = Some j \<Longrightarrow> \<exists>xs ys e. es = xs @ e # ys \<and> j = i + length xs \<and> fob_used e \<and> fob_key e = key"
proof (induction es arbitrary: i)
  case (Cons e es)
  show ?case
  proof (cases "fob_used e \<and> fob_key e = key")
    case True
    then show ?thesis using Cons.prems by (metis append_Nil add_0_right fob_find.simps(2) list.size(3) option.inject)
  next
    case False
    then obtain xs ys e' where "es = xs @ e' # ys" "j = i + 1 + length xs" "fob_used e'" "fob_key e' = key"
      using Cons.IH [of "i + 1"] Cons.prems by (auto split: if_splits)
    then have "e # es = (e # xs) @ e' # ys \<and> j = i + length (e # xs) \<and> fob_used e' \<and> fob_key e' = key" by simp
    then show ?thesis by blast
  qed
qed simp

lemma fob_add_scan_present: "fob_add_scan key es i fr = None \<longleftrightarrow> key \<in> set (fob_keys es)"
  by (induction es arbitrary: i fr) auto

lemma fob_add_scan_full:
  "fob_add_scan key es i fr = Some None \<Longrightarrow> fr = None \<and> length (fob_keys es) = length es"
  by (induction es arbitrary: i fr) (auto split: if_splits option.splits)

lemma fob_add_scan_free:
  "fob_add_scan key es i fr = Some (Some s) \<Longrightarrow>
     fr = Some s \<or> (fr = None \<and> (\<exists>xs ys e. es = xs @ e # ys \<and> s = i + length xs \<and> \<not> fob_used e))"
proof (induction es arbitrary: i fr)
  case (Cons e es)
  show ?case
  proof (cases "fob_used e")
    case True
    then have "fob_add_scan key es (i + 1) fr = Some (Some s)" using Cons.prems by (auto split: if_splits)
    from Cons.IH [OF this] show ?thesis
    proof
      assume "fr = None \<and> (\<exists>xs ys e'. es = xs @ e' # ys \<and> s = i + 1 + length xs \<and> \<not> fob_used e')"
      then obtain xs ys e' where "fr = None" "es = xs @ e' # ys" "s = i + 1 + length xs" "\<not> fob_used e'" by blast
      then have "fr = None \<and> e # es = (e # xs) @ e' # ys \<and> s = i + length (e # xs) \<and> \<not> fob_used e'" by simp
      then show ?thesis by blast
    qed simp
  next
    case False
    then show ?thesis
      using Cons.prems Cons.IH [of "i + 1" "case fr of None \<Rightarrow> Some i | Some s \<Rightarrow> Some s"]
      by (cases fr) (auto intro!: exI [of _ "[]"])
  qed
qed simp

text \<open>The abstract operations take the page as the pair the callers pass.\<close>

abbreviation fob_page_key :: "u64 \<times> u32 \<Rightarrow> u64" where
  "fob_page_key p \<equiv> pgw_fob_key (fst p) (snd p)"

lemma fob_of_nat_pos:
  assumes "0 < n" "n \<le> BRIX_PGW_FOB_SLOTS"
  shows "(of_nat n :: u32) > 0" "(of_nat n :: u32) - 1 = of_nat (n - 1)"
proof -
  have "\<not> 4294967296 dvd n" using assms by (auto dest: dvd_imp_le)
  then have "(of_nat n :: u32) \<noteq> 0" by (simp add: word_of_nat_eq_0_iff)
  then show "(of_nat n :: u32) > 0" by (simp add: word_neq_0_conv)
  show "(of_nat n :: u32) - 1 = of_nat (n - 1)" using assms(1) by (simp add: of_nat_diff)
qed

lemma fob_add_cases:
  assumes "fob_inv f"
  shows "fob_inv (snd (brix_pgw_fob_add f off dlen))
    \<and> (fst (brix_pgw_fob_add f off dlen) \<longleftrightarrow> pgw_fob_key off dlen \<in> fob_members f \<or> card (fob_members f) < BRIX_PGW_FOB_SLOTS)
    \<and> fob_members (snd (brix_pgw_fob_add f off dlen)) =
        (if fst (brix_pgw_fob_add f off dlen) then insert (pgw_fob_key off dlen) (fob_members f) else fob_members f)"
proof -
  let ?k = "pgw_fob_key off dlen" and ?es = "pgw_fob f"
  have inv: "pgw_fob_enabled f" "length ?es = BRIX_PGW_FOB_SLOTS" "distinct (fob_keys ?es)"
    "pgw_fob_count f = of_nat (length (fob_keys ?es))"
    using assms by (simp_all add: fob_inv_def)
  have card: "card (fob_members f) = length (fob_keys ?es)" using inv(3) by (simp add: fob_members_def distinct_card)
  consider (present) "?k \<in> set (fob_keys ?es)" "fob_add_scan ?k ?es 0 None = None"
    | (full) "?k \<notin> set (fob_keys ?es)" "fob_add_scan ?k ?es 0 None = Some None"
    | (free) s where "?k \<notin> set (fob_keys ?es)" "fob_add_scan ?k ?es 0 None = Some (Some s)"
    using fob_add_scan_present [of ?k ?es 0 None] by (cases "fob_add_scan ?k ?es 0 None" rule: option.exhaust) (auto split: option.splits)
  then show ?thesis
  proof cases
    case present
    then show ?thesis using inv by (simp add: brix_pgw_fob_add_def fob_inv_def fob_members_def Let_def insert_absorb)
  next
    case full
    then have "length (fob_keys ?es) = BRIX_PGW_FOB_SLOTS" using fob_add_scan_full [OF full(2)] inv(2) by simp
    then show ?thesis
      using full inv card by (simp add: brix_pgw_fob_add_def fob_inv_def fob_members_def Let_def)
  next
    case free
    then obtain xs ys e where es: "?es = xs @ e # ys" "s = length xs" "\<not> fob_used e"
      using fob_add_scan_free [OF free(2)] by auto
    have upd: "?es[s := x] = xs @ x # ys" for x using es by simp
    have "length (fob_keys ?es) < BRIX_PGW_FOB_SLOTS"
      using inv(2) es length_fob_keys [of xs] length_fob_keys [of ys] by simp
    then show ?thesis
      using free inv es card
      by (auto simp: brix_pgw_fob_add_def fob_inv_def fob_members_def Let_def upd)
  qed
qed

lemma fob_del_cases:
  assumes "fob_inv f"
  shows "fob_inv (snd (brix_pgw_fob_del f off dlen))
    \<and> (fst (brix_pgw_fob_del f off dlen) \<longleftrightarrow> pgw_fob_key off dlen \<in> fob_members f)
    \<and> fob_members (snd (brix_pgw_fob_del f off dlen)) = fob_members f - {pgw_fob_key off dlen}"
proof -
  let ?k = "pgw_fob_key off dlen" and ?es = "pgw_fob f"
  have inv: "pgw_fob_enabled f" "length ?es = BRIX_PGW_FOB_SLOTS" "distinct (fob_keys ?es)"
    "pgw_fob_count f = of_nat (length (fob_keys ?es))"
    using assms by (simp_all add: fob_inv_def)
  show ?thesis
  proof (cases "fob_find ?k ?es 0")
    case None
    then have "?k \<notin> fob_members f" using fob_find_iff [of ?k ?es 0] by (simp add: fob_members_def)
    then show ?thesis using assms None by (simp add: brix_pgw_fob_del_def)
  next
    case (Some i)
    then obtain xs ys e where es: "?es = xs @ e # ys" "i = length xs" "fob_used e" "fob_key e = ?k"
      using fob_find_split [OF Some] by auto
    have upd: "?es[i := x] = xs @ x # ys" for x using es by simp
    have "0 < length (fob_keys ?es)" "length (fob_keys ?es) \<le> BRIX_PGW_FOB_SLOTS"
      using es inv(2) length_fob_keys [of ?es] by simp_all
    note pos = fob_of_nat_pos [OF this]
    then show ?thesis
      using Some inv es pos by (auto simp: brix_pgw_fob_del_def fob_inv_def fob_members_def upd)
  qed
qed

interpretation fob: bounded_registry fob_inv fob_members fob_page_key
    "\<lambda>f p. brix_pgw_fob_add f (fst p) (snd p)" "\<lambda>f p. brix_pgw_fob_del f (fst p) (snd p)" BRIX_PGW_FOB_SLOTS
proof (unfold_locales, goal_cases)
  case (7 f)
  then have "card (fob_members f) = length (fob_keys (pgw_fob f))" "length (pgw_fob f) = BRIX_PGW_FOB_SLOTS"
    by (simp_all add: fob_inv_def fob_members_def distinct_card)
  then show ?case using length_fob_keys [of "pgw_fob f"] by (simp add: fob_members_def)
qed (use fob_add_cases fob_del_cases in simp_all)

section \<open>Properties of the registry\<close>

lemma fob_blocked_card:
  assumes "fob_inv f"
  shows "unat (brix_pgw_fob_commit_blocked f) = card (fob_members f)"
proof -
  have c: "card (fob_members f) = length (fob_keys (pgw_fob f))" using assms by (simp add: fob_inv_def fob_members_def distinct_card)
  have "length (fob_keys (pgw_fob f)) \<le> 256" using fob.bounded [OF assms] c by simp
  then show ?thesis using assms c by (simp add: brix_pgw_fob_commit_blocked_def fob_inv_def unat_of_nat)
qed

lemma fob_open_fresh:
  "\<not> pgw_fob_enabled f \<Longrightarrow> fob_inv (brix_pgw_fob_open f) \<and> fob_members (brix_pgw_fob_open f) = {}"
  by (simp add: brix_pgw_fob_open_def fob_inv_def fob_members_def fob_keys_def)

text \<open>
  Distinct pages never share a slot: for file offsets below \<open>2 ^ 52\<close> (where the shift of the
  key loses no bits) the key determines the offset and the fragment length, full pages
  being the length \<open>4096\<close>.
\<close>

lemma fob_key_injective:
  assumes "off < 2 ^ 52" "off' < 2 ^ 52" "0 < dlen" "dlen \<le> 4096" "0 < dlen'" "dlen' \<le> 4096"
    and "pgw_fob_key off dlen = pgw_fob_key off' dlen'"
  shows "off = off' \<and> dlen = dlen'"
proof -
  have hi: "drop_bit 12 (pgw_fob_key o1 d) = o1" and lo: "take_bit 12 (pgw_fob_key o1 d) = (if d < 4096 then ucast d else 0)"
    if "o1 < 2 ^ 52" for o1 :: u64 and d :: u32
  proof -
    have nb: "\<not> bit o1 k" if "52 \<le> k" for k
    proof -
      have "bit (o1 AND mask 52) k = bit o1 k" using less_mask_eq [OF \<open>o1 < 2 ^ 52\<close>] by simp
      then show ?thesis using that by (simp add: bit_simps)
    qed
    have db: "\<not> bit d k" if "d < 4096" "12 \<le> k" for k
    proof -
      have "d < 2 ^ 12" using that(1) by simp
      then have "bit (d AND mask 12) k = bit d k" using less_mask_eq [of d 12] by simp
      then show ?thesis using that(2) by (simp add: bit_simps)
    qed
    show "drop_bit 12 (pgw_fob_key o1 d) = o1"
    proof (rule bit_word_eqI)
      fix k
      have "bit o1 k \<Longrightarrow> k < 52" using nb [of k] by linarith
      then show "bit (drop_bit 12 (pgw_fob_key o1 d)) k = bit o1 k"
        using db [of "k + 12"] by (auto simp: pgw_fob_key_def Let_def bit_simps add.commute)
    qed
    show "take_bit 12 (pgw_fob_key o1 d) = (if d < 4096 then ucast d else 0)"
    proof (rule bit_word_eqI)
      fix k
      have "d < 4096 \<Longrightarrow> bit d k \<Longrightarrow> k < 12" using db [of k] by linarith
      then show "bit (take_bit 12 (pgw_fob_key o1 d)) k = bit (if d < 4096 then ucast d else 0 :: u64) k"
        by (auto simp: pgw_fob_key_def Let_def bit_simps)
    qed
  qed
  have "off = off'" using hi [OF assms(1), of dlen] hi [OF assms(2), of dlen'] assms(7) by simp
  moreover have "(if dlen < 4096 then ucast dlen else 0 :: u64) = (if dlen' < 4096 then ucast dlen' else 0)"
    using lo [OF assms(1), of dlen] lo [OF assms(2), of dlen'] assms(7) by simp
  then have "dlen = dlen'"
    using assms(3-6) by (auto split: if_splits simp: ucast_u64_inj)
  ultimately show ?thesis by simp
qed

text \<open>
  The page an event is about, told without the key: its offset and its length, a length of 4096 or more
  being a full page.
\<close>

definition fob_page :: "u64 \<times> u32 \<Rightarrow> u64 \<times> u32" where
  "fob_page p = (fst p, min (snd p) 4096)"

abbreviation fob_page_ok :: "u64 \<times> u32 \<Rightarrow> bool" where
  "fob_page_ok p \<equiv> fst p < 2 ^ 52 \<and> 0 < snd p"

lemma fob_key_min: "pgw_fob_key off (min dlen 4096) = pgw_fob_key off dlen"
  by (cases "dlen < 4096") (simp_all add: pgw_fob_key_def min_def order.strict_implies_order)

lemma fob_page_key_inj:
  assumes "fob_page_ok p" "fob_page_ok q"
  shows "fob_page_key p = fob_page_key q \<longleftrightarrow> fob_page p = fob_page q"
proof -
  have pos: "0 < min (snd r) 4096 \<and> min (snd r) 4096 \<le> 4096" if "fob_page_ok r" for r :: "u64 \<times> u32"
    using that by (simp add: min_def)
  have "fob_page p = fob_page q" if "fob_page_key p = fob_page_key q"
    using fob_key_injective [of "fst p" "fst q" "min (snd p) 4096" "min (snd q) 4096"] that assms pos [OF assms(1)] pos [OF assms(2)]
    by (simp add: fob_key_min fob_page_def)
  moreover have "fob_page_key p = fob_page_key q" if "fob_page p = fob_page q"
    using that fob_key_min [of "fst p" "snd p"] fob_key_min [of "fst q" "snd q"] by (simp add: fob_page_def)
  ultimately show ?thesis by blast
qed

text \<open>Counting by an injective code of the events is counting the events.\<close>

lemma outstanding_image:
  assumes "inj_on f (A \<union> (\<Union>e \<in> set es. set_registry_event e))"
  shows "outstanding (f ` A) (map (map_registry_event f) es) = f ` outstanding A es
    \<and> outstanding A es \<subseteq> A \<union> (\<Union>e \<in> set es. set_registry_event e)"
  using assms
proof (induction es arbitrary: A)
  case (Cons e es)
  show ?case
  proof (cases e)
    case (Reported k)
    have "inj_on f (insert k A \<union> (\<Union>e \<in> set es. set_registry_event e))"
      by (rule inj_on_subset [OF Cons.prems]) (use Reported in auto)
    from Cons.IH [OF this] show ?thesis using Reported by auto
  next
    case (Corrected k)
    have "inj_on f ((A - {k}) \<union> (\<Union>e \<in> set es. set_registry_event e))"
      by (rule inj_on_subset [OF Cons.prems]) (use Corrected in auto)
    from Cons.IH [OF this] have IH: "outstanding (f ` (A - {k})) (map (map_registry_event f) es) = f ` outstanding (A - {k}) es"
      "outstanding (A - {k}) es \<subseteq> (A - {k}) \<union> (\<Union>e \<in> set es. set_registry_event e)" by blast+
    have "f ` (A - {k}) = f ` A - {f k}"
      using inj_on_image_set_diff [OF Cons.prems, of A "{k}"] Corrected by auto
    then show ?thesis using IH Corrected by auto
  qed
qed simp

lemma fob_outstanding_keys:
  assumes "\<forall>e \<in> set es. \<forall>p \<in> set_registry_event e. fob_page_ok p"
  shows "card (outstanding {} (map (map_registry_event fob_page_key) es)) = card (outstanding {} (map (map_registry_event fob_page) es))"
proof -
  define g where "g = (\<lambda>p :: u64 \<times> u32. pgw_fob_key (fst p) (snd p))"
  let ?es = "map (map_registry_event fob_page) es"
  have gk: "g (fob_page p) = fob_page_key p" for p by (simp add: g_def fob_page_def fob_key_min)
  have dom: "(\<Union>e \<in> set ?es. set_registry_event e) = fob_page ` (\<Union>e \<in> set es. set_registry_event e)"
    by (auto simp: registry_event.set_map)
  have inj: "inj_on g ({} \<union> (\<Union>e \<in> set ?es. set_registry_event e))"
    unfolding dom using assms fob_page_key_inj by (auto simp: inj_on_def gk)
  have keys: "map (map_registry_event fob_page_key) es = map (map_registry_event g) ?es"
    by (simp add: gk registry_event.map_comp comp_def)
  have "outstanding {} (map (map_registry_event fob_page_key) es) = g ` outstanding {} ?es" "inj_on g (outstanding {} ?es)"
    unfolding keys using outstanding_image [OF inj] inj_on_subset [OF inj] by auto
  then show ?thesis by (simp add: card_image)
qed

text \<open>
  C25. The commit gate counts exactly the pages that are still corrupt: from the first paged write
  of a handle, after any sequence of checksum failures and corrections of pages at offsets below 2^52 and
  not empty, during which at most 256 pages are outstanding at a time, every report is accepted and the
  number that blocks close and sync is the number of pages, each its offset and length, reported and not
  corrected since; the gate opens exactly when there is none.
\<close>

theorem fob_gate_counts_outstanding:
  fixes es :: "(u64 \<times> u32) registry_event list"
  assumes "\<not> pgw_fob_enabled f"
    and "\<forall>e \<in> set es. \<forall>p \<in> set_registry_event e. fst p < 2 ^ 52 \<and> 0 < snd p"
    and "\<forall>n. card (outstanding {} (map (map_registry_event fob_page) (take n es))) \<le> BRIX_PGW_FOB_SLOTS"
  defines "r \<equiv> registry_run (\<lambda>f p. brix_pgw_fob_add f (fst p) (snd p)) (\<lambda>f p. brix_pgw_fob_del f (fst p) (snd p))
     (brix_pgw_fob_open f) es"
  shows "fst r \<and> unat (brix_pgw_fob_commit_blocked (snd r)) = card (outstanding {} (map (map_registry_event fob_page) es))
    \<and> (brix_pgw_fob_commit_blocked (snd r) = 0 \<longleftrightarrow> outstanding {} (map (map_registry_event fob_page) es) = {})"
proof -
  let ?k = "outstanding {} (map (map_registry_event fob_page_key) es)"
  let ?p = "outstanding {} (map (map_registry_event fob_page) es)"
  have card: "card (outstanding {} (map (map_registry_event fob_page_key) (take n es)))
      = card (outstanding {} (map (map_registry_event fob_page) (take n es)))" for n
    using assms(2) by (intro fob_outstanding_keys) (auto dest: in_set_takeD)
  have o: "fob_inv (brix_pgw_fob_open f)" "fob_members (brix_pgw_fob_open f) = {}"
    using fob_open_fresh [OF assms(1)] by simp_all
  have ok: "fst r" unfolding r_def using fob.run_accepts [OF o(1), of es] assms(3) o(2) card by simp
  have inv: "fob_inv (snd r)" unfolding r_def using fob.run_inv [OF o(1)] .
  have mem: "fob_members (snd r) = ?k" using fob.run_members [OF o(1)] ok o(2) by (simp add: r_def)
  have "unat (brix_pgw_fob_commit_blocked (snd r)) = card ?p"
    using fob_blocked_card [OF inv] fob_outstanding_keys [OF assms(2)] mem by simp
  moreover have "finite ?p" using outstanding_finite [of "{}"] by simp
  then have "card ?p = 0 \<longleftrightarrow> ?p = {}" by simp
  ultimately show ?thesis using ok by (metis unat_eq_zero)
qed

theorem fob_gate_counts_outstanding_witness:
  "let r = registry_run (\<lambda>f p. brix_pgw_fob_add f (fst p) (snd p)) (\<lambda>f p. brix_pgw_fob_del f (fst p) (snd p))
     (brix_pgw_fob_open \<lparr>pgw_fob_enabled = False, pgw_fob_count = 0, pgw_fob_errs = 0, pgw_fob_fixes = 0, pgw_fob = []\<rparr>)
     [Reported (0, 4096), Reported (4096, 100), Corrected (0, 4096)]
   in fst r \<and> unat (brix_pgw_fob_commit_blocked (snd r)) = 1"
proof -
  let ?es = "[Reported (0, 4096), Reported (4096, 100), Corrected (0, 4096)] :: (u64 \<times> u32) registry_event list"
  have fin: "outstanding {} (map (map_registry_event fob_page) ?es) = {(4096, 100)}" by (auto simp: fob_page_def)
  have "card (outstanding {} (map (map_registry_event fob_page) (take n ?es))) \<le> BRIX_PGW_FOB_SLOTS" for n
    using outstanding_card [of "{}" "map (map_registry_event fob_page) (take n ?es)"] by simp
  then have w: "\<forall>n. card (outstanding {} (map (map_registry_event fob_page) (take n ?es))) \<le> BRIX_PGW_FOB_SLOTS" ..
  have en: "\<not> pgw_fob_enabled \<lparr>pgw_fob_enabled = False, pgw_fob_count = 0, pgw_fob_errs = 0, pgw_fob_fixes = 0, pgw_fob = []\<rparr>"
    by simp
  have ok: "\<forall>e \<in> set ?es. \<forall>p \<in> set_registry_event e. fst p < 2 ^ 52 \<and> 0 < snd p" by simp
  from fob_gate_counts_outstanding [OF en ok w, unfolded fin] show ?thesis unfolding Let_def by simp
qed

text \<open>
  Beyond that bound the shift drops the top bits of the offset, and two pages share a key: with both
  corrupt, correcting the one opens the gate while the other is still corrupt on disk.
\<close>

theorem fob_gate_opens_early:
  defines "r \<equiv> registry_run (\<lambda>f p. brix_pgw_fob_add f (fst p) (snd p)) (\<lambda>f p. brix_pgw_fob_del f (fst p) (snd p))
     (brix_pgw_fob_open \<lparr>pgw_fob_enabled = False, pgw_fob_count = 0, pgw_fob_errs = 0, pgw_fob_fixes = 0, pgw_fob = []\<rparr>)
     [Reported (0, 4096), Reported (0x10000000000000, 4096), Corrected (0, 4096)]"
  shows "fst r \<and> brix_pgw_fob_commit_blocked (snd r) = 0"
proof -
  have key: "pgw_fob_key 0 4096 = 0" "pgw_fob_key 0x10000000000000 4096 = 0"
    by (simp_all add: pgw_fob_key_def)
  have slots: "replicate BRIX_PGW_FOB_SLOTS fob_empty_slot = fob_empty_slot # replicate 255 fob_empty_slot"
    by (simp flip: replicate_Suc)
  have scan: "fob_add_scan 0 (replicate n fob_empty_slot) i (Some s) = Some (Some s)" for n i s
    by (induction n arbitrary: i) simp_all
  show ?thesis
    by (simp add: r_def brix_pgw_fob_open_def brix_pgw_fob_add_def brix_pgw_fob_del_def key slots scan
        brix_pgw_fob_commit_blocked_def Let_def)
qed

end
