(* ===== verification/Root_Framing.thy ===== *)
theory Root_Framing
  imports Wire_Codec
begin

text \<open>
  The first untrusted bytes of a request and the shared frame vocabulary: the per-opcode payload
  bound of \<^verbatim>\<open>src/protocols/root/connection/recv_frame_bounds.c\<close>, the header codecs of
  \<^verbatim>\<open>src/protocols/root/protocol/frame_hdr.h\<close> and \<^verbatim>\<open>readv_seg.h\<close>, the open-flag algebra of
  \<^verbatim>\<open>open_flags.h\<close> and the conflict test of \<^verbatim>\<open>src/protocols/root/read/open_request_options.c\<close>.
  Bounded output buffers are modelled by the C string they hold (without the terminator).
\<close>

section \<open>Payload bounds\<close>

abbreviation (input) BRIX_MAX_PATH :: u32 where "BRIX_MAX_PATH \<equiv> 4096"
abbreviation (input) BRIX_MAX_WRITE_PAYLOAD :: u32 where "BRIX_MAX_WRITE_PAYLOAD \<equiv> 16 * 1024 * 1024"
abbreviation (input) BRIX_MAX_WRITE_STREAM :: u32 where "BRIX_MAX_WRITE_STREAM \<equiv> 1024 * 1024 * 1024"
abbreviation (input) BRIX_MAX_PREPARE_PAYLOAD :: u32 where "BRIX_MAX_PREPARE_PAYLOAD \<equiv> 64 * 1024"
abbreviation (input) BRIX_MAX_AUTH_PAYLOAD :: u32 where "BRIX_MAX_AUTH_PAYLOAD \<equiv> 32 * 1024"
abbreviation (input) BRIX_READV_MAXSEGS :: u32 where "BRIX_READV_MAXSEGS \<equiv> 1024"
abbreviation (input) BRIX_READV_SEGSIZE :: u32 where "BRIX_READV_SEGSIZE \<equiv> 16"
abbreviation (input) kXR_faMaxVars :: u32 where "kXR_faMaxVars \<equiv> 16"
abbreviation (input) kXR_faMaxNlen :: u32 where "kXR_faMaxNlen \<equiv> 248"
abbreviation (input) kXR_faMaxVlen :: u32 where "kXR_faMaxVlen \<equiv> 65536"

abbreviation (input) kXR_auth :: u16 where "kXR_auth \<equiv> 3000"
abbreviation (input) kXR_chkpoint :: u16 where "kXR_chkpoint \<equiv> 3012"
abbreviation (input) kXR_write :: u16 where "kXR_write \<equiv> 3019"
abbreviation (input) kXR_fattr :: u16 where "kXR_fattr \<equiv> 3020"
abbreviation (input) kXR_prepare :: u16 where "kXR_prepare \<equiv> 3021"
abbreviation (input) kXR_readv :: u16 where "kXR_readv \<equiv> 3025"
abbreviation (input) kXR_pgwrite :: u16 where "kXR_pgwrite \<equiv> 3026"
abbreviation (input) kXR_writev :: u16 where "kXR_writev \<equiv> 3031"

definition brix_max_payload_for_request :: "u16 \<Rightarrow> u32" where
  "brix_max_payload_for_request reqid =
     (if reqid = kXR_write then BRIX_MAX_WRITE_STREAM
      else if reqid = kXR_pgwrite \<or> reqid = kXR_writev \<or> reqid = kXR_chkpoint then BRIX_MAX_WRITE_PAYLOAD
      else if reqid = kXR_readv then (BRIX_READV_MAXSEGS + 1) * BRIX_READV_SEGSIZE
      else if reqid = kXR_auth then BRIX_MAX_AUTH_PAYLOAD
      else if reqid = kXR_prepare then BRIX_MAX_PREPARE_PAYLOAD
      else if reqid = kXR_fattr then BRIX_MAX_PATH + 1 + kXR_faMaxVars * (2 + kXR_faMaxNlen + 1 + 4 + kXR_faMaxVlen)
      else BRIX_MAX_PATH + 64)"

text \<open>\<open>None\<close> is a NULL header or one of fewer than 24 bytes (return 0, nothing stored).\<close>

definition brix_root_frame_dlen_ok :: "bytes option \<Rightarrow> (u16 \<times> u32 \<times> bool) option" where
  "brix_root_frame_dlen_ok hdr = (case hdr of None \<Rightarrow> None
     | Some h \<Rightarrow> if length h < 24 then None
         else let reqid = push_bit 8 (ucast (h ! 2)) OR ucast (h ! 3);
                  dlen = push_bit 24 (ucast (h ! 20)) OR push_bit 16 (ucast (h ! 21))
                         OR push_bit 8 (ucast (h ! 22)) OR ucast (h ! 23)
              in Some (reqid, dlen, dlen \<le> brix_max_payload_for_request reqid))"

section \<open>Header codecs\<close>

text \<open>
  The accessors copy through an integer and swap on a little-endian machine, so they read and
  store the most significant byte first.
\<close>

definition xrd_get_u16_be :: "bytes \<Rightarrow> nat \<Rightarrow> u16" where "xrd_get_u16_be p o1 = be_word (slice o1 2 p)"
definition xrd_get_u32_be :: "bytes \<Rightarrow> nat \<Rightarrow> u32" where "xrd_get_u32_be p o1 = be_word (slice o1 4 p)"

definition xrd_get_u64_be :: "bytes \<Rightarrow> nat \<Rightarrow> u64" where
  "xrd_get_u64_be p o1 = push_bit 32 (ucast (xrd_get_u32_be p o1)) OR ucast (xrd_get_u32_be p (o1 + 4))"

definition xrd_put_u16_be :: "bytes \<Rightarrow> nat \<Rightarrow> u16 \<Rightarrow> bytes" where "xrd_put_u16_be p o1 v = memcpy_at o1 (be_bytes 2 v) p"
definition xrd_put_u32_be :: "bytes \<Rightarrow> nat \<Rightarrow> u32 \<Rightarrow> bytes" where "xrd_put_u32_be p o1 v = memcpy_at o1 (be_bytes 4 v) p"

definition xrd_put_u64_be :: "bytes \<Rightarrow> nat \<Rightarrow> u64 \<Rightarrow> bytes" where
  "xrd_put_u64_be p o1 v =
     (let hi = (ucast (drop_bit 32 v) :: u32); lo = (ucast (v AND 0xffffffff) :: u32)
      in memcpy_at (o1 + 4) (be_bytes 4 lo) (memcpy_at o1 (be_bytes 4 hi) p))"

definition xrd_creq_begin :: "nat \<Rightarrow> byte \<Rightarrow> u16 \<Rightarrow> bytes" where
  "xrd_creq_begin reqsz stream_slot requestid =
     xrd_put_u16_be ((replicate reqsz 0)[1 := stream_slot]) 2 requestid"

definition xrd_resp_hdr_unpack :: "bytes \<Rightarrow> u16 \<times> u16 \<times> u32" where
  "xrd_resp_hdr_unpack h = (xrd_get_u16_be h 0, xrd_get_u16_be h 2, xrd_get_u32_be h 4)"

definition xrd_wait_secs_parse :: "bytes option \<Rightarrow> u32 \<Rightarrow> u32 \<Rightarrow> u32 \<Rightarrow> u32" where
  "xrd_wait_secs_parse body blen fallback cap =
     (let s = (case body of Some b \<Rightarrow> if blen \<ge> 4 then xrd_get_u32_be b 0 else fallback | None \<Rightarrow> fallback);
          s = (if s < 1 then 1 else s)
      in if s > cap then cap else s)"

definition xrd_error_body_decode :: "bytes option \<Rightarrow> (u32 \<times> bytes) option" where
  "xrd_error_body_decode body = (case body of None \<Rightarrow> None
     | Some b \<Rightarrow> if length b < 4 then None else Some (xrd_get_u32_be b 0, drop 4 b))"

fun memchr :: "bytes \<Rightarrow> byte \<Rightarrow> nat option" where
  "memchr [] c = None"
| "memchr (b # bs) c = (if b = c then Some 0 else map_option Suc (memchr bs c))"

definition xrd_redirect_field_len :: "bytes \<Rightarrow> nat" where
  "xrd_redirect_field_len field =
     (case memchr field 0 of Some e \<Rightarrow> e
      | None \<Rightarrow> (case memchr field 13 of Some e \<Rightarrow> e
          | None \<Rightarrow> (case memchr field 10 of Some e \<Rightarrow> e | None \<Rightarrow> length field)))"

definition xrd_copy_clipped :: "nat \<Rightarrow> bytes \<Rightarrow> bytes" where
  "xrd_copy_clipped dst_sz src = take (if length src \<ge> dst_sz then dst_sz - 1 else length src) src"

definition xrd_redirect_opaque_copy :: "nat \<Rightarrow> bytes \<Rightarrow> bytes" where
  "xrd_redirect_opaque_copy opaque_sz src = xrd_copy_clipped opaque_sz (dropWhile (\<lambda>c. c = 38 \<or> c = 63) src)"

text \<open>Returns port, host and opaque; the host and port pointers are non-NULL.\<close>

definition xrd_redirect_body_decode :: "bytes option \<Rightarrow> nat \<Rightarrow> nat \<Rightarrow> (u32 \<times> bytes \<times> bytes) option" where
  "xrd_redirect_body_decode body host_sz opaque_sz = (case body of None \<Rightarrow> None
     | Some b \<Rightarrow> if length b < 5 \<or> host_sz = 0 then None
         else let field = take (xrd_redirect_field_len (drop 4 b)) (drop 4 b);
                  qmark = memchr field 63;
                  hlen = (case qmark of Some q \<Rightarrow> q | None \<Rightarrow> length field);
                  host = xrd_copy_clipped host_sz (take hlen field);
                  opaque = (if opaque_sz > 0 then (case qmark of Some q \<Rightarrow> xrd_redirect_opaque_copy opaque_sz (drop (q + 1) field)
                                                    | None \<Rightarrow> []) else [])
              in Some (xrd_get_u32_be b 0, host, opaque))"

definition brix_readv_seg_pack :: "bytes \<Rightarrow> bytes \<Rightarrow> u32 \<Rightarrow> u64 \<Rightarrow> bytes" where
  "brix_readv_seg_pack out fhandle rlen offset =
     xrd_put_u64_be (xrd_put_u32_be (memcpy_at 0 (take 4 fhandle) out) 4 rlen) 8 offset"

definition brix_readv_seg_rlen :: "bytes \<Rightarrow> u32" where
  "brix_readv_seg_rlen seg = xrd_get_u32_be seg 4"

section \<open>Open flags\<close>

abbreviation (input) kXR_delete :: u16 where "kXR_delete \<equiv> 0x0002"
abbreviation (input) kXR_new :: u16 where "kXR_new \<equiv> 0x0008"
abbreviation (input) kXR_open_read :: u16 where "kXR_open_read \<equiv> 0x0010"
abbreviation (input) kXR_open_updt :: u16 where "kXR_open_updt \<equiv> 0x0020"
abbreviation (input) kXR_mkpath :: u16 where "kXR_mkpath \<equiv> 0x0100"
abbreviation (input) kXR_open_apnd :: u16 where "kXR_open_apnd \<equiv> 0x0200"
abbreviation (input) kXR_posc :: u16 where "kXR_posc \<equiv> 0x1000"
abbreviation (input) kXR_open_wrto :: u16 where "kXR_open_wrto \<equiv> 0x8000"

abbreviation (input) O_RDONLY :: u32 where "O_RDONLY \<equiv> 0"
abbreviation (input) O_WRONLY :: u32 where "O_WRONLY \<equiv> 1"
abbreviation (input) O_RDWR :: u32 where "O_RDWR \<equiv> 2"
abbreviation (input) O_CREAT :: u32 where "O_CREAT \<equiv> 0x40"
abbreviation (input) O_EXCL :: u32 where "O_EXCL \<equiv> 0x80"
abbreviation (input) O_NOCTTY :: u32 where "O_NOCTTY \<equiv> 0x100"
abbreviation (input) O_TRUNC :: u32 where "O_TRUNC \<equiv> 0x200"
abbreviation (input) O_APPEND :: u32 where "O_APPEND \<equiv> 0x400"

definition brix_open_options_is_write :: "u16 \<Rightarrow> bool" where
  "brix_open_options_is_write options =
     (options AND (kXR_new OR kXR_delete OR kXR_open_updt OR kXR_open_wrto OR kXR_open_apnd) \<noteq> 0)"

definition brix_open_options_build :: "bool \<Rightarrow> int \<Rightarrow> bool \<Rightarrow> bool \<Rightarrow> u16" where
  "brix_open_options_build wr force posc mkpath =
     (if \<not> wr then kXR_open_read
      else let options = kXR_open_updt;
               options = (if mkpath then options OR kXR_mkpath else options);
               options = (if force = 1 then options OR kXR_delete
                          else if force = 0 then options OR kXR_new else options)
           in if posc then options OR kXR_posc else options)"

definition brix_open_options_to_posix :: "u16 \<Rightarrow> bool \<Rightarrow> u32 \<times> bool" where
  "brix_open_options_to_posix options is_write =
     (let (f, rd) =
        (if \<not> is_write then (O_RDONLY, True)
         else let (f, rd) = (if options AND kXR_open_updt \<noteq> 0 then (O_RDWR, True)
                             else if options AND kXR_open_apnd \<noteq> 0 then (O_WRONLY OR O_APPEND, False)
                             else (O_WRONLY, False));
                  f = (if options AND kXR_new \<noteq> 0
                       then let f = f OR O_CREAT in (if options AND kXR_delete = 0 then f OR O_EXCL else f)
                       else f);
                  f = (if options AND kXR_delete \<noteq> 0 then f OR O_CREAT OR O_TRUNC else f)
              in (f, rd))
      in (f OR O_NOCTTY, rd))"

definition brix_open_force_for_open :: "u32 \<Rightarrow> int" where
  "brix_open_force_for_open o_flags = (if o_flags AND O_TRUNC \<noteq> 0 then 1 else 2)"

definition brix_open_force_for_create :: "u32 \<Rightarrow> int" where
  "brix_open_force_for_create o_flags = (if o_flags AND O_EXCL \<noteq> 0 then 0 else 1)"

text \<open>The bit-counting loop of the conflict test.\<close>

function count_bits :: "u16 \<Rightarrow> nat \<Rightarrow> nat" where
  "count_bits access count =
     (if access \<noteq> 0 then count_bits (drop_bit 1 access) (count + unat (access AND 1)) else count)"
  by pat_completeness auto
termination
proof (relation "measure (\<lambda>(a, _). unat a)", goal_cases)
  case (2 access count)
  then have "0 < unat access" by (simp add: unat_gt_0)
  then show ?case by (simp add: drop_bit_eq_div unat_div)
qed simp

declare count_bits.simps [simp del]

definition brix_open_options_conflict :: "u16 \<Rightarrow> bool" where
  "brix_open_options_conflict options =
     (let access = options AND (kXR_open_read OR kXR_open_updt OR kXR_open_apnd OR kXR_open_wrto);
          access = (if access AND (kXR_open_wrto OR kXR_open_apnd) = (kXR_open_wrto OR kXR_open_apnd)
                    then access AND (NOT kXR_open_wrto) else access)
      in count_bits access 0 > 1)"

section \<open>Properties\<close>

text \<open>
  C26. No request can make the server buffer more than its cap: a header the frame gate lets through
  announces at most one gibibyte for a streamed write, at most 16 MiB for any other opcode, and at
  most the path limit plus 64 bytes for every opcode without a body of its own; the opcode and length
  the gate judges are the big-endian fields at offsets 2 and 20 of the header.
\<close>

theorem frame_gate_bounds:
  assumes "brix_root_frame_dlen_ok (Some hdr) = Some (reqid, dlen, True)"
  shows "reqid = be_word (slice 2 2 hdr) \<and> dlen = be_word (slice 20 4 hdr)
    \<and> unat dlen \<le> 2 ^ 30
    \<and> (reqid \<noteq> kXR_write \<longrightarrow> unat dlen \<le> 16 * 2 ^ 20)
    \<and> (reqid \<notin> {kXR_write, kXR_pgwrite, kXR_writev, kXR_chkpoint, kXR_readv, kXR_auth, kXR_prepare, kXR_fattr}
        \<longrightarrow> unat dlen \<le> 4096 + 64)"
proof -
  have len: "24 \<le> length hdr" and le: "dlen \<le> brix_max_payload_for_request reqid"
    using assms by (auto simp: brix_root_frame_dlen_ok_def Let_def split: if_splits)
  have "reqid = xrdw_get_u16 hdr 2" "dlen = xrdw_get_u32 hdr 20"
    using assms by (auto simp: brix_root_frame_dlen_ok_def Let_def xrdw_get_u16_def xrdw_get_u32_def split: if_splits)
  then have f: "reqid = be_word (slice 2 2 hdr)" "dlen = be_word (slice 20 4 hdr)"
    using len by (simp_all add: xrdw_get_u16_be xrdw_get_u32_be)
  have m: "unat dlen \<le> unat (brix_max_payload_for_request reqid)" using le by (simp add: word_le_nat_alt)
  have "unat (brix_max_payload_for_request reqid) \<le> 2 ^ 30"
    "reqid \<noteq> kXR_write \<Longrightarrow> unat (brix_max_payload_for_request reqid) \<le> 16 * 2 ^ 20"
    "reqid \<notin> {kXR_write, kXR_pgwrite, kXR_writev, kXR_chkpoint, kXR_readv, kXR_auth, kXR_prepare, kXR_fattr}
      \<Longrightarrow> unat (brix_max_payload_for_request reqid) \<le> 4096 + 64"
    by (simp_all add: brix_max_payload_for_request_def)
  with m f show ?thesis by fastforce
qed

theorem frame_gate_bounds_witness:
  "unat (be_word (slice 20 4 (replicate 20 0 @ [0, 0, 1, 0])) :: u32) \<le> 4096 + 64"
proof -
  have "brix_root_frame_dlen_ok (Some (replicate 20 0 @ [0, 0, 1, 0])) = Some (0, 256, True)"
    by (simp add: brix_root_frame_dlen_ok_def brix_max_payload_for_request_def Let_def nth_append)
  from frame_gate_bounds [OF this] show ?thesis by simp
qed
text \<open>
  The client's write intent survives the trip to the server: the option word built for an open is
  classified as a write exactly when it is one, is never a contradictory access mode, and is turned
  into the POSIX flags of that intent (overwrite, create-new or update in place, always readable).
\<close>

theorem open_intent_preserved:
  "(let opts = brix_open_options_build True force posc mkpath in
      brix_open_options_is_write opts \<and> \<not> brix_open_options_conflict opts
    \<and> brix_open_options_to_posix opts (brix_open_options_is_write opts) =
        (O_RDWR OR O_NOCTTY OR (if force = 1 then O_CREAT OR O_TRUNC else if force = 0 then O_CREAT OR O_EXCL else 0), True))
   \<and> (let opts = brix_open_options_build False force posc mkpath in
      \<not> brix_open_options_is_write opts \<and> \<not> brix_open_options_conflict opts
    \<and> brix_open_options_to_posix opts (brix_open_options_is_write opts) = (O_RDONLY OR O_NOCTTY, True))"
  by (simp add: brix_open_options_build_def brix_open_options_is_write_def brix_open_options_to_posix_def
      brix_open_options_conflict_def count_bits.simps Let_def)

lemma count_bits_card: "count_bits a c = c + card {i. bit a i}"
proof (induction a c rule: count_bits.induct)
  case (1 a c)
  show ?case
  proof (cases "a = 0")
    case True
    then show ?thesis by (simp add: count_bits.simps)
  next
    case False
    have "{i. bit a i} = (if bit a 0 then {0} else {}) \<union> Suc ` {i. bit (drop_bit 1 a) i}"
      by (auto simp: bit_drop_bit_eq image_iff) (metis not0_implies_Suc)+
    then have split: "card {i. bit a i} = (if bit a 0 then 1 else 0) + card {i. bit (drop_bit 1 a) i}"
      by (simp add: card_image finite_bit_word)
    have "unat (a AND 1) = (if bit a 0 then 1 else 0)" by (simp add: and_one_eq mod_2_eq_odd bit_0)
    then show ?thesis using 1 False split by (simp add: count_bits.simps [of a])
  qed
qed

text \<open>The access modes an open word asks for: read, update, append and write-only, by bit number.\<close>

definition open_modes :: "u16 \<Rightarrow> nat set" where
  "open_modes options = {i \<in> {4, 5, 9, 15}. bit options i} - (if bit options 9 then {15} else {})"

lemma open_mode_bits: "{i. bit (0x8230 :: u16) i} = {4, 5, 9, 15}" "{i. bit (0x8200 :: u16) i} = {9, 15}"
  "{i. bit (0x8000 :: u16) i} = {15}"
proof -
  have less: "{i. bit (w::u16) i} = {i \<in> {0..<16}. bit w i}" for w
    using bit_imp_le_length [of w] by auto
  show "{i. bit (0x8230 :: u16) i} = {4, 5, 9, 15}" "{i. bit (0x8200 :: u16) i} = {9, 15}" "{i. bit (0x8000 :: u16) i} = {15}"
    unfolding less by (auto simp: atLeastLessThan_nat_numeral)
qed

text \<open>
  An open is refused as contradictory exactly when it asks for two different access modes, a
  write-only flag that accompanies append counting as part of the append.
\<close>

theorem open_conflict_exact:
  "brix_open_options_conflict options \<longleftrightarrow> (\<exists>i \<in> open_modes options. \<exists>j \<in> open_modes options. i \<noteq> j)"
proof -
  let ?acc = "options AND 0x8230"
  let ?norm = "if ?acc AND 0x8200 = 0x8200 then ?acc AND NOT 0x8000 else ?acc"
  have b: "bit (0x8230::u16) i \<longleftrightarrow> i \<in> {4, 5, 9, 15}" "bit (0x8200::u16) i \<longleftrightarrow> i \<in> {9, 15}"
    "bit (0x8000::u16) i \<longleftrightarrow> i = 15" for i using open_mode_bits by blast+
  have "?acc AND 0x8200 = 0x8200 \<longleftrightarrow> bit options 9 \<and> bit options 15"
  proof
    assume e: "?acc AND 0x8200 = 0x8200"
    have "bit (?acc AND 0x8200) i = bit (0x8200::u16) i" for i using e by simp
    from this [of 9] this [of 15] show "bit options 9 \<and> bit options 15" unfolding bit_and_iff b by auto
  next
    assume "bit options 9 \<and> bit options 15"
    then show "?acc AND 0x8200 = 0x8200" by (intro bit_word_eqI, unfold bit_and_iff b) auto
  qed
  then have norm: "?norm = (if bit options 9 \<and> bit options 15 then ?acc AND NOT 0x8000 else ?acc)" by simp
  have "{i. bit ?norm i} = open_modes options"
  proof (cases "bit options 9 \<and> bit options 15")
    case True
    then have n: "?norm = ?acc AND NOT 0x8000" unfolding norm by (simp only: if_True simp_thms)
    show ?thesis
      unfolding n bit_and_iff bit_not_iff b open_modes_def using True by (auto dest: bit_imp_le_length)
  next
    case False
    then have n: "?norm = ?acc" unfolding norm by (simp only: if_False)
    show ?thesis unfolding n bit_and_iff b open_modes_def using False by auto
  qed
  then have "brix_open_options_conflict options \<longleftrightarrow> card (open_modes options) > 1"
    by (simp add: brix_open_options_conflict_def count_bits_card)
  moreover have "finite (open_modes options)" by (simp add: open_modes_def)
  ultimately show ?thesis using card_le_Suc0_iff_eq by (metis One_nat_def not_le)
qed

text \<open>
  The readv segment header: packing puts the handle, the length and the offset at bytes 0, 4 and
  8, most significant byte first, and the reader recovers the length.
\<close>

theorem readv_seg_layout:
  assumes "length fh = 4" "16 \<le> length out"
  shows "brix_readv_seg_pack out fh rlen offset = fh @ be_bytes 4 rlen @ be_bytes 8 offset @ drop 16 out
    \<and> brix_readv_seg_rlen (brix_readv_seg_pack out fh rlen offset) = rlen"
proof -
  have lo: "(ucast (offset AND 0xffffffff) :: u32) = ucast offset"
  proof -
    have "offset AND 0xffffffff = take_bit 32 offset" by (simp add: take_bit_eq_mask mask_eq_exp_minus_1)
    then show ?thesis by (intro bit_word_eqI) (simp add: bit_simps)
  qed
  have eq: "brix_readv_seg_pack out fh rlen offset = fh @ be_bytes 4 rlen @ be_bytes 8 offset @ drop 16 out"
    using assms by (simp add: brix_readv_seg_pack_def xrd_put_u64_be_def xrd_put_u32_be_def lo Let_def memcpy_at_def be_bytes_split)
  then show ?thesis
    using assms by (simp add: brix_readv_seg_rlen_def xrd_get_u32_be_def slice_def)
qed

theorem readv_seg_layout_witness:
  "brix_readv_seg_pack (replicate 16 0) [0, 0, 0, 5] 8 (2 ^ 32) = [0, 0, 0, 5, 0, 0, 0, 8, 0, 0, 0, 1, 0, 0, 0, 0]"
  using readv_seg_layout [of "[0, 0, 0, 5]" "replicate 16 0" 8 "2 ^ 32"]
  by (simp add: be_bytes_def le_bytes_def upt_rec)

lemma memchr_Some: "memchr xs c = Some n \<Longrightarrow> n < length xs \<and> xs ! n = c \<and> c \<notin> set (take n xs)"
  by (induction xs arbitrary: n) (auto split: if_splits)

lemma memchr_None: "memchr xs c = None \<longleftrightarrow> c \<notin> set xs"
  by (induction xs) auto

lemma redirect_field_no_nul: "0 \<notin> set (take (xrd_redirect_field_len f) f)"
  by (auto simp: xrd_redirect_field_len_def memchr_None dest: memchr_Some in_set_takeD split: option.splits)

lemma copy_clipped_sound:
  "0 < n \<Longrightarrow> length (xrd_copy_clipped n s) < n \<and> (\<exists>k. xrd_copy_clipped n s = take k s)"
  by (auto simp: xrd_copy_clipped_def intro: exI [of _ "length s"])

text \<open>
  Decoding a redirect never overruns the caller's buffers and never leaks the capability into the
  host name: on success the host and the opaque are NUL-free and shorter than their buffers, the host
  is a prefix of the body's text that holds no question mark, and the opaque does not start with the
  padding characters some redirectors send.
\<close>

theorem redirect_decode_safe:
  assumes "xrd_redirect_body_decode (Some b) host_sz opaque_sz = Some (port, host, opaque)"
  shows "port = be_word (slice 0 4 b) \<and> length host < host_sz \<and> (\<exists>k. host = take k (drop 4 b))
    \<and> 63 \<notin> set host \<and> 0 \<notin> set host \<and> 0 \<notin> set opaque
    \<and> (opaque = [] \<or> length opaque < opaque_sz \<and> hd opaque \<notin> {38, 63})"
proof -
  let ?f = "take (xrd_redirect_field_len (drop 4 b)) (drop 4 b)"
  let ?q = "memchr ?f 63"
  let ?h = "case ?q of Some q \<Rightarrow> q | None \<Rightarrow> length ?f"
  have hs: "0 < host_sz" and p: "port = xrd_get_u32_be b 0" and h: "host = xrd_copy_clipped host_sz (take ?h ?f)"
    and o: "opaque = (if opaque_sz > 0 then (case ?q of Some q \<Rightarrow> xrd_redirect_opaque_copy opaque_sz (drop (q + 1) ?f) | None \<Rightarrow> []) else [])"
    using assms by (auto simp: xrd_redirect_body_decode_def Let_def split: if_splits)
  obtain k where k: "host = take k (take ?h ?f)" "length host < host_sz" using copy_clipped_sound [OF hs] h by metis
  have nz: "0 \<notin> set ?f" by (rule redirect_field_no_nul)
  have "63 \<notin> set (take ?h ?f)"
  proof (cases ?q)
    case None
    then have "63 \<notin> set ?f" by (simp add: memchr_None)
    then show ?thesis using in_set_takeD by metis
  next
    case (Some q)
    then show ?thesis using memchr_Some [OF Some] by (simp only: option.case) blast
  qed
  then have nq: "63 \<notin> set host" using k(1) in_set_takeD by metis
  have "0 \<notin> set host" using k(1) nz in_set_takeD by metis
  moreover have "\<exists>k. host = take k (drop 4 b)" using k(1) by (simp add: min_def) metis
  moreover have "0 \<notin> set opaque \<and> (opaque = [] \<or> length opaque < opaque_sz \<and> hd opaque \<notin> {38, 63})"
  proof (cases "opaque = []")
    case False
    then obtain q where q: "0 < opaque_sz" "opaque = xrd_redirect_opaque_copy opaque_sz (drop (q + 1) ?f)"
      using o by (auto split: if_splits option.splits)
    let ?s = "dropWhile (\<lambda>c. c = 38 \<or> c = 63) (drop (q + 1) ?f)"
    obtain j where j: "opaque = take j ?s" "length opaque < opaque_sz"
      using copy_clipped_sound [OF q(1), of ?s] q(2) by (auto simp: xrd_redirect_opaque_copy_def)
    have "?s \<noteq> []" "j \<noteq> 0" using False j(1) by auto
    then have "hd opaque \<notin> {38, 63}" using hd_dropWhile [of "\<lambda>c. c = 38 \<or> c = 63" "drop (q + 1) ?f"] j(1) by auto
    moreover have "0 \<notin> set opaque" using j(1) nz by (auto dest!: in_set_takeD set_dropWhileD in_set_dropD)
    ultimately show ?thesis using j(2) by simp
  qed simp
  ultimately show ?thesis using k(2) nq p by (simp add: xrd_get_u32_be_def)
qed

theorem redirect_decode_safe_witness:
  "xrd_redirect_body_decode (Some [0, 0, 4, 70, 104, 63, 38, 99, 0]) 8 8 = Some (1094, [104], [99]) \<and> length [104::byte] < 8"
proof -
  have d: "xrd_redirect_body_decode (Some [0, 0, 4, 70, 104, 63, 38, 99, 0]) 8 8 = Some (1094, [104], [99])"
    by (simp add: xrd_redirect_body_decode_def xrd_redirect_field_len_def xrd_copy_clipped_def xrd_redirect_opaque_copy_def
        xrd_get_u32_be_def slice_def be_word_def)
  with redirect_decode_safe [OF d] show ?thesis by simp
qed

end
