(* ===== verification/Path_Words.thy ===== *)
theory Path_Words
  imports Brix_Prelude "HOL-Library.Sublist"
begin

text \<open>
  Splitting of NUL-free C strings at a separator, and the path components and blank-separated words
  that the path and authorization components are specified with.
\<close>

abbreviation (input) slash :: char where "slash \<equiv> CHR ''/''"
abbreviation (input) spc :: char where "spc \<equiv> CHR '' ''"

fun split_on :: "'a \<Rightarrow> 'a list \<Rightarrow> 'a list list" where
  "split_on c [] = [[]]"
| "split_on c (x # xs) = (if x = c then [] # split_on c xs
     else case split_on c xs of [] \<Rightarrow> [[x]] | w # ws \<Rightarrow> (x # w) # ws)"

fun join_on :: "'a \<Rightarrow> 'a list list \<Rightarrow> 'a list" where
  "join_on c [] = []"
| "join_on c [w] = w"
| "join_on c (w # ws) = w @ c # join_on c ws"

lemma split_on_ne [simp]: "split_on c s \<noteq> []"
  by (induction s) (auto split: list.split)

lemma split_on_no [path_simps]: "c \<notin> set s \<Longrightarrow> split_on c s = [s]"
  by (induction s) auto

lemma split_on_append [path_simps]: "split_on c (a @ c # b) = split_on c a @ split_on c b"
  by (induction a) (auto split: list.split)

lemma split_on_word: "c \<notin> set a \<Longrightarrow> split_on c (a @ c # b) = a # split_on c b"
  by (simp add: split_on_append split_on_no)

lemma split_on_seg: "w \<in> set (split_on c s) \<Longrightarrow> c \<notin> set w"
  by (induction s arbitrary: w) (auto split: list.splits if_splits)

lemma split_on_chars: "w \<in> set (split_on c s) \<Longrightarrow> set w \<subseteq> set s"
proof (induction s arbitrary: w)
  case (Cons a s)
  show ?case using Cons.prems Cons.IH by (fastforce split: if_splits list.splits)
qed simp

lemma join_on_Cons: "ws \<noteq> [] \<Longrightarrow> join_on c (w # ws) = w @ c # join_on c ws"
  by (cases ws) auto

lemma join_split [simp]: "join_on c (split_on c s) = s"
proof (induction s)
  case (Cons x s)
  obtain w ws where s: "split_on c s = w # ws" by (cases "split_on c s") auto
  show ?case
  proof (cases "x = c")
    case True
    then show ?thesis using Cons s by (simp add: join_on_Cons)
  next
    case False
    then show ?thesis using Cons s by (cases ws) auto
  qed
qed simp

lemma split_join: "ws \<noteq> [] \<Longrightarrow> (\<forall>w \<in> set ws. c \<notin> set w) \<Longrightarrow> split_on c (join_on c ws) = ws"
proof (induction c ws rule: join_on.induct)
  case (3 c w v ws)
  then show ?case by (simp add: split_on_word)
qed (auto simp: split_on_no)

definition path_components :: "string \<Rightarrow> string list" where
  "path_components p = filter (\<lambda>w. w \<noteq> []) (split_on slash p)"

definition blank_words :: "string \<Rightarrow> string list" where
  "blank_words s = filter (\<lambda>w. w \<noteq> []) (split_on spc s)"

lemma path_components_append: "path_components (a @ slash # b) = path_components a @ path_components b"
  by (simp add: path_components_def split_on_append)

lemma path_components_Nil [simp]: "path_components [] = []"
  by (simp add: path_components_def)

lemma path_components_slash: "path_components (slash # b) = path_components b"
  using path_components_append [of "[]" b] by simp

text \<open>An absolute path with given components.\<close>

definition path_stem :: "string list \<Rightarrow> string" where
  "path_stem ws = concat (map (\<lambda>w. slash # w) ws)"

definition plain_component :: "string \<Rightarrow> bool" where
  "plain_component w \<longleftrightarrow> w \<noteq> [] \<and> slash \<notin> set w"

lemma path_stem_simps [simp]:
  "path_stem [] = []" "path_stem (w # ws) = slash # w @ path_stem ws" "path_stem (vs @ ws) = path_stem vs @ path_stem ws"
  by (simp_all add: path_stem_def)

lemma path_components_word: "plain_component w \<Longrightarrow> path_components w = [w]"
  by (simp add: path_components_def plain_component_def split_on_no)

lemma path_components_stem_append:
  "(\<forall>w \<in> set ws. plain_component w) \<Longrightarrow> path_components (path_stem ws @ slash # r) = ws @ path_components r"
proof (induction ws)
  case Nil
  then show ?case by (simp add: path_components_slash)
next
  case (Cons w ws)
  have "path_components (slash # w @ path_stem ws @ slash # r) = path_components (w @ path_stem ws @ slash # r)"
    by (rule path_components_slash)
  moreover have "path_components (w @ path_stem ws @ slash # r) = w # ws @ path_components r"
  proof (cases ws)
    case Nil
    then show ?thesis using Cons.prems path_components_append [of w r] path_components_word [of w] by simp
  next
    case (Cons v vs)
    then have "w @ path_stem ws @ slash # r = w @ slash # (v @ path_stem vs @ slash # r)" by simp
    then have "path_components (w @ path_stem ws @ slash # r) = [w] @ path_components (v @ path_stem vs @ slash # r)"
      using path_components_append [of w "v @ path_stem vs @ slash # r"] path_components_word [of w] Cons.prems by simp
    moreover have "path_components (v @ path_stem vs @ slash # r) = path_components (path_stem ws @ slash # r)"
      using Cons path_components_slash [of "v @ path_stem vs @ slash # r"] by simp
    ultimately show ?thesis using Cons.IH Cons.prems by simp
  qed
  ultimately show ?case by simp
qed

lemma path_components_stem: "(\<forall>w \<in> set ws. plain_component w) \<Longrightarrow> path_components (path_stem ws) = ws"
  using path_components_stem_append [of ws "[]"] path_components_append [of "path_stem ws" "[]"] by simp

lemma blank_words_one: "w \<noteq> [] \<Longrightarrow> spc \<notin> set w \<Longrightarrow> blank_words w = [w]"
  by (simp add: blank_words_def split_on_no)

lemma blank_words_skip: "blank_words (dropWhile (\<lambda>c. c = spc) s) = blank_words s"
  by (induction s) (auto simp: blank_words_def)

lemma blank_words_step:
  assumes "s \<noteq> []" "hd s \<noteq> spc"
  shows "blank_words s = takeWhile (\<lambda>c. c \<noteq> spc) s # blank_words (dropWhile (\<lambda>c. c \<noteq> spc) s)"
proof -
  let ?w = "takeWhile (\<lambda>c. c \<noteq> spc) s" and ?r = "dropWhile (\<lambda>c. c \<noteq> spc) s"
  have w: "?w \<noteq> []" "spc \<notin> set ?w" using assms by (cases s; auto dest: set_takeWhileD)+
  show ?thesis
  proof (cases ?r)
    case Nil
    then have "s = ?w" using takeWhile_dropWhile_id [of "\<lambda>c. c \<noteq> spc" s] by (metis append_Nil2)
    then have "split_on spc s = [?w]" using split_on_no [OF w(2)] by simp
    then show ?thesis using w unfolding blank_words_def Nil by simp
  next
    case (Cons c r)
    then have "c = spc" using hd_dropWhile [of "\<lambda>c. c \<noteq> spc" s] by simp
    then have "s = ?w @ spc # r" using Cons takeWhile_dropWhile_id [of "\<lambda>c. c \<noteq> spc" s] by simp
    then have "split_on spc s = ?w # split_on spc r" using split_on_word [OF w(2), of r] by simp
    then show ?thesis using Cons \<open>c = spc\<close> w by (simp add: blank_words_def)
  qed
qed

end
