(* ===== verification/Token_Scopes.thy ===== *)
theory Token_Scopes
  imports Path_Words
begin

text \<open>
  WLCG token scopes, \<^verbatim>\<open>src/auth/token/scopes.c\<close>: parsing of the \<open>scope\<close> claim, the boundary-checked path
  prefix test, the canonical-path scan and the read and write decisions.  C strings are \<open>string\<close>s
  without NUL.  The specification side is words, fields and path components.
\<close>

section \<open>Parsing the claim\<close>

abbreviation (input) BRIX_SCOPE_PATH_MAX :: nat where "BRIX_SCOPE_PATH_MAX \<equiv> 256"

abbreviation (input) colon :: char where "colon \<equiv> CHR '':''"

record brix_token_scope_t =
  sc_path :: string
  sc_read :: bool
  sc_write :: bool
  sc_create :: bool
  sc_modify :: bool

definition token_scope_skip_spaces :: "string \<Rightarrow> string" where
  "token_scope_skip_spaces cursor = dropWhile (\<lambda>c. c = spc) cursor"

text \<open>The entry up to \<open>scope_end\<close> and the rest of the claim from there.\<close>

definition token_scope_end :: "string \<Rightarrow> string \<times> string" where
  "token_scope_end s = (takeWhile (\<lambda>c. c \<noteq> spc) s, dropWhile (\<lambda>c. c \<noteq> spc) s)"

definition token_scope_copy_path :: "brix_token_scope_t \<Rightarrow> string \<Rightarrow> brix_token_scope_t" where
  "token_scope_copy_path sc path =
     (if path = [] then sc\<lparr>sc_path := ''/''\<rparr>
      else sc\<lparr>sc_path := take (if length path \<ge> BRIX_SCOPE_PATH_MAX then BRIX_SCOPE_PATH_MAX - 1 else length path) path\<rparr>)"

definition token_scope_set_permission :: "brix_token_scope_t \<Rightarrow> string \<Rightarrow> brix_token_scope_t" where
  "token_scope_set_permission sc permission =
     (if permission = ''storage.read'' then sc\<lparr>sc_read := True\<rparr>
      else if permission = ''storage.write'' then sc\<lparr>sc_write := True\<rparr>
      else if permission = ''storage.create'' then sc\<lparr>sc_create := True\<rparr>
      else if permission = ''storage.modify'' then sc\<lparr>sc_modify := True\<rparr>
      else if permission = ''storage.stage'' then sc\<lparr>sc_read := True\<rparr>
      else sc)"

definition scope_zero :: brix_token_scope_t where
  "scope_zero = \<lparr>sc_path = [], sc_read = False, sc_write = False, sc_create = False, sc_modify = False\<rparr>"

lemma dropWhile_measure [simp]: "length (dropWhile P xs) \<le> length xs"
  by (induction xs) auto

lemma token_scope_end_less:
  assumes "(entry, rest) = token_scope_end c" "c = token_scope_skip_spaces cursor" "c \<noteq> []"
  shows "length rest < length cursor"
proof -
  have "hd c \<noteq> spc" using hd_dropWhile [of "\<lambda>c. c = spc" cursor] assms(2,3) by (auto simp: token_scope_skip_spaces_def)
  then have "length rest < length c" using assms(1,3) by (cases c) (auto simp: token_scope_end_def le_imp_less_Suc)
  moreover have "length c \<le> length cursor" using assms(2) by (simp add: token_scope_skip_spaces_def)
  ultimately show ?thesis by simp
qed

function parse_scopes_loop :: "string \<Rightarrow> nat \<Rightarrow> nat \<Rightarrow> brix_token_scope_t list" where
  "parse_scopes_loop cursor count max_scopes =
     (if cursor = [] \<or> \<not> count < max_scopes then []
      else let cursor = token_scope_skip_spaces cursor
           in if cursor = [] then []
              else let (entry, rest) = token_scope_end cursor;
                       permission = takeWhile (\<lambda>c. c \<noteq> colon) entry
                   in if colon \<notin> set entry then parse_scopes_loop rest count max_scopes
                      else token_scope_set_permission
                             (token_scope_copy_path scope_zero (drop (length permission + 1) entry)) permission
                           # parse_scopes_loop rest (count + 1) max_scopes)"
  by pat_completeness auto
termination
  by (relation "measure (\<lambda>(c, _, _). length c)") (auto intro: token_scope_end_less)

declare parse_scopes_loop.simps [simp del]

text \<open>\<open>None\<close> is a NULL claim; \<open>max_scopes\<close> is an \<open>int\<close> in the code, and not positive means no scopes.\<close>

definition brix_token_parse_scopes :: "string option \<Rightarrow> int \<Rightarrow> brix_token_scope_t list" where
  "brix_token_parse_scopes scope_str max_scopes = (case scope_str of None \<Rightarrow> []
     | Some s \<Rightarrow> if s = [] \<or> max_scopes \<le> 0 then [] else parse_scopes_loop s 0 (nat max_scopes))"

section \<open>Decisions\<close>

text \<open>
  \<open>strncmp\<close> over a prefix of a NUL-free string agrees exactly when the request starts with it; the
  byte after it is NUL when the request ends there.
\<close>

definition brix_token_scope_path_matches :: "string \<Rightarrow> string \<Rightarrow> bool" where
  "brix_token_scope_path_matches scope_path request_path =
     (let scope_len = length scope_path
      in if scope_len = 1 \<and> scope_path ! 0 = slash then True
         else let scope_len = (if scope_len > 1 \<and> scope_path ! (scope_len - 1) = slash then scope_len - 1 else scope_len)
              in if take scope_len request_path \<noteq> take scope_len scope_path then False
                 else length request_path = scope_len \<or> request_path ! scope_len = slash)"

definition token_scope_segment_is_dot :: "string \<Rightarrow> nat \<Rightarrow> nat \<Rightarrow> bool" where
  "token_scope_segment_is_dot path start stop =
     (let l = stop - start
      in (l = 1 \<and> path ! start = CHR ''.'') \<or> (l = 2 \<and> path ! start = CHR ''.'' \<and> path ! (start + 1) = CHR ''.''))"

abbreviation scope_char_bad :: "char \<Rightarrow> bool" where
  "scope_char_bad c \<equiv> (of_char c :: nat) < 0x20 \<or> (of_char c :: nat) = 0x7f \<or> c = CHR 0x5C"

function canonical_loop :: "string \<Rightarrow> nat \<Rightarrow> nat \<Rightarrow> bool" where
  "canonical_loop path segment_start index =
     (if index < length path
      then let c = path ! index
           in if scope_char_bad c then False
              else if c \<noteq> slash then canonical_loop path segment_start (index + 1)
              else if (index > 0 \<and> path ! (index - 1) = slash) \<or> token_scope_segment_is_dot path segment_start index then False
              else canonical_loop path (index + 1) (index + 1)
      else \<not> token_scope_segment_is_dot path segment_start (length path))"
  by pat_completeness auto
termination by (relation "measure (\<lambda>(p, _, i). length p - i)") auto

declare canonical_loop.simps [simp del]

definition brix_token_scope_path_is_canonical :: "string option \<Rightarrow> bool" where
  "brix_token_scope_path_is_canonical path = (case path of None \<Rightarrow> False
     | Some p \<Rightarrow> if p = [] \<or> p ! 0 \<noteq> slash then False else canonical_loop p 0 0)"

fun brix_token_check_read :: "brix_token_scope_t list \<Rightarrow> string \<Rightarrow> bool" where
  "brix_token_check_read [] path = False"
| "brix_token_check_read (sc # scopes) path =
     (if sc_read sc \<and> brix_token_scope_path_matches (sc_path sc) path then True else brix_token_check_read scopes path)"

fun brix_token_check_write :: "brix_token_scope_t list \<Rightarrow> string \<Rightarrow> bool" where
  "brix_token_check_write [] path = False"
| "brix_token_check_write (sc # scopes) path =
     (if (sc_write sc \<or> sc_create sc \<or> sc_modify sc) \<and> brix_token_scope_path_matches (sc_path sc) path then True
      else brix_token_check_write scopes path)"

section \<open>What the claim grants\<close>

definition entry_permission :: "string \<Rightarrow> string" where
  "entry_permission w = takeWhile (\<lambda>c. c \<noteq> colon) w"

definition entry_path :: "string \<Rightarrow> string" where
  "entry_path w = (let p = drop (length (entry_permission w) + 1) w
     in if p = [] then ''/'' else take (BRIX_SCOPE_PATH_MAX - 1) p)"

definition scope_entries :: "string \<Rightarrow> string list" where
  "scope_entries s = filter (\<lambda>w. colon \<in> set w) (blank_words s)"

definition entry_scope :: "string \<Rightarrow> brix_token_scope_t" where
  "entry_scope w = token_scope_set_permission
     (token_scope_copy_path scope_zero (drop (length (entry_permission w) + 1) w)) (entry_permission w)"

lemma entry_scope_fields:
  "sc_path (entry_scope w) = entry_path w"
  "sc_read (entry_scope w) \<longleftrightarrow> entry_permission w \<in> {''storage.read'', ''storage.stage''}"
  "sc_write (entry_scope w) \<or> sc_create (entry_scope w) \<or> sc_modify (entry_scope w)
     \<longleftrightarrow> entry_permission w \<in> {''storage.write'', ''storage.create'', ''storage.modify''}"
  by (auto simp: entry_scope_def entry_path_def token_scope_set_permission_def token_scope_copy_path_def scope_zero_def Let_def)

lemma parse_scopes_loop_entries:
  "parse_scopes_loop s count m = take (m - count) (map entry_scope (scope_entries s))"
proof (induction s count m rule: parse_scopes_loop.induct)
  case (1 s count m)
  define c where "c = token_scope_skip_spaces s"
  have sk: "blank_words s = blank_words c" unfolding c_def token_scope_skip_spaces_def by (rule blank_words_skip [symmetric])
  show ?case
  proof (cases "s = [] \<or> \<not> count < m \<or> c = []")
    case True
    have "s = [] \<Longrightarrow> c = []" by (simp add: c_def token_scope_skip_spaces_def)
    with True have "\<not> count < m \<or> scope_entries s = []" using sk by (auto simp: scope_entries_def blank_words_def)
    moreover have "parse_scopes_loop s count m = []"
      using True by (subst parse_scopes_loop.simps) (auto simp: c_def [symmetric] Let_def)
    ultimately show ?thesis by auto
  next
    case False
    let ?w = "takeWhile (\<lambda>c. c \<noteq> spc) c" and ?r = "dropWhile (\<lambda>c. c \<noteq> spc) c"
    have "hd c \<noteq> spc" using False hd_dropWhile [of "\<lambda>c. c = spc" s] by (auto simp: c_def token_scope_skip_spaces_def)
    then have bw: "blank_words s = ?w # blank_words ?r" using False sk blank_words_step by simp
    have e: "token_scope_end c = (?w, ?r)" by (simp add: token_scope_end_def)
    have nz: "\<not> (s = [] \<or> \<not> count < m)" "c \<noteq> []" using False by auto
    note IH = "1.IH" [OF nz(1) c_def nz(2) e [symmetric] refl refl]
    have step: "parse_scopes_loop s count m = (if colon \<notin> set ?w then parse_scopes_loop ?r count m
        else entry_scope ?w # parse_scopes_loop ?r (count + 1) m)"
      using nz by (subst parse_scopes_loop.simps) (simp add: c_def [symmetric] e Let_def entry_scope_def entry_permission_def)
    have "m - count = Suc (m - (count + 1))" using nz by auto
    then show ?thesis unfolding step using IH bw by (simp add: scope_entries_def)
  qed
qed

lemma parse_scopes_entries:
  "brix_token_parse_scopes (Some s) m = take (nat m) (map entry_scope (scope_entries s))"
  by (auto simp: brix_token_parse_scopes_def parse_scopes_loop_entries scope_entries_def blank_words_def)

lemma check_read_iff: "brix_token_check_read scs path \<longleftrightarrow> (\<exists>sc \<in> set scs. sc_read sc \<and> brix_token_scope_path_matches (sc_path sc) path)"
  by (induction scs) auto

lemma check_write_iff: "brix_token_check_write scs path \<longleftrightarrow>
    (\<exists>sc \<in> set scs. (sc_write sc \<or> sc_create sc \<or> sc_modify sc) \<and> brix_token_scope_path_matches (sc_path sc) path)"
  by (induction scs) auto

section \<open>Canonical paths and component prefixes\<close>

definition scope_segments_ok :: "string list \<Rightarrow> bool" where
  "scope_segments_ok segs \<longleftrightarrow> (\<forall>w \<in> set segs. w \<noteq> ''.'' \<and> w \<noteq> ''..'') \<and> [] \<notin> set (butlast segs)"

lemma segment_is_dot_slice:
  assumes "p = pre @ cur @ rest"
  shows "token_scope_segment_is_dot p (length pre) (length pre + length cur) \<longleftrightarrow> cur = ''.'' \<or> cur = ''..''"
proof -
  consider "cur = []" | a where "cur = [a]" | a b where "cur = [a, b]" | a b c d where "cur = a # b # c # d"
    by (metis list.exhaust)
  then show ?thesis using assms by cases (auto simp: token_scope_segment_is_dot_def nth_append Let_def)
qed

lemma canonical_loop_segments:
  assumes "p = pre @ cur @ rest" "pre \<noteq> []" "last pre = slash" "slash \<notin> set cur"
  shows "canonical_loop p (length pre) (length pre + length cur) \<longleftrightarrow>
     (\<forall>c \<in> set rest. \<not> scope_char_bad c) \<and> scope_segments_ok (split_on slash (cur @ rest))"
  using assms
proof (induction rest arbitrary: pre cur)
  case Nil
  then show ?case using segment_is_dot_slice [of p pre cur "[]"]
    by (subst canonical_loop.simps) (simp add: split_on_no scope_segments_ok_def)
next
  case (Cons c rest)
  let ?i = "length pre + length cur"
  have at: "p ! ?i = c" "?i < length p" using Cons.prems(1) by (simp_all add: nth_append)
  show ?case
  proof (cases "scope_char_bad c")
    case True
    then show ?thesis using at by (subst canonical_loop.simps) (auto simp: Let_def)
  next
    case ok: False
    show ?thesis
    proof (cases "c = slash")
      case False
      have st: "canonical_loop p (length pre) ?i = canonical_loop p (length pre) (?i + 1)"
        using at ok False by (subst canonical_loop.simps) (simp add: Let_def)
      show ?thesis unfolding st
        using Cons.IH [of pre "cur @ [c]"] Cons.prems False ok by simp
    next
      case True
      have prev: "p ! (?i - 1) = slash \<longleftrightarrow> cur = []"
      proof (cases "cur = []")
        case True
        then show ?thesis using Cons.prems(1-3) by (simp add: nth_append last_conv_nth)
      next
        case False
        then have "p ! (?i - 1) = last cur"
          using Cons.prems(1) by (cases cur rule: rev_cases) (simp_all add: nth_append)
        then show ?thesis using False Cons.prems(4) last_in_set by metis
      qed
      have pos: "0 < ?i" using Cons.prems(2) by simp
      have st: "canonical_loop p (length pre) ?i = (if cur = [] \<or> cur = ''.'' \<or> cur = ''..'' then False
          else canonical_loop p (?i + 1) (?i + 1))"
        using at ok True prev pos segment_is_dot_slice [OF Cons.prems(1)]
        by (subst canonical_loop.simps) (simp only: Let_def if_True simp_thms if_False cong: if_cong)
      have "canonical_loop p (length (pre @ cur @ [c])) (length (pre @ cur @ [c]) + length ([] :: string)) \<longleftrightarrow>
          (\<forall>c \<in> set rest. \<not> scope_char_bad c) \<and> scope_segments_ok (split_on slash ([] @ rest))"
        using Cons.prems True by (intro Cons.IH) simp_all
      then have nx: "canonical_loop p (?i + 1) (?i + 1) \<longleftrightarrow>
          (\<forall>c \<in> set rest. \<not> scope_char_bad c) \<and> scope_segments_ok (split_on slash rest)" by simp
      have sp: "split_on slash (cur @ c # rest) = cur # split_on slash rest"
        using True split_on_word [OF Cons.prems(4), of rest] by simp
      have "scope_segments_ok (cur # split_on slash rest) \<longleftrightarrow>
          cur \<noteq> [] \<and> cur \<noteq> ''.'' \<and> cur \<noteq> ''..'' \<and> scope_segments_ok (split_on slash rest)"
        by (auto simp: scope_segments_ok_def)
      then show ?thesis unfolding st sp using nx ok by auto
    qed
  qed
qed

lemma canonical_iff:
  "brix_token_scope_path_is_canonical (Some p) \<longleftrightarrow>
     (\<exists>r. p = slash # r \<and> (\<forall>c \<in> set p. \<not> scope_char_bad c) \<and> scope_segments_ok (split_on slash r))"
proof (cases "p = [] \<or> p ! 0 \<noteq> slash")
  case True
  then have "\<not> (\<exists>r. p = slash # r)" by (cases p) simp_all
  then show ?thesis using True by (simp add: brix_token_scope_path_is_canonical_def)
next
  case False
  then obtain r where p: "p = slash # r" by (cases p) auto
  have at: "0 < length p" "p ! 0 = slash" using p by simp_all
  have ok: "\<not> scope_char_bad slash" by simp
  have dot: "\<not> token_scope_segment_is_dot p 0 0" by (simp add: token_scope_segment_is_dot_def)
  have one: "canonical_loop p 0 0 = canonical_loop p 1 1"
    by (subst canonical_loop.simps) (use at ok dot in \<open>simp add: Let_def\<close>)
  have "canonical_loop p (length [slash]) (length [slash] + length ([] :: string)) \<longleftrightarrow>
      (\<forall>c \<in> set r. \<not> scope_char_bad c) \<and> scope_segments_ok (split_on slash ([] @ r))"
    by (rule canonical_loop_segments) (simp_all add: p)
  then have two: "canonical_loop p 1 1 \<longleftrightarrow> (\<forall>c \<in> set r. \<not> scope_char_bad c) \<and> scope_segments_ok (split_on slash r)"
    by simp
  have "brix_token_scope_path_is_canonical (Some p) = canonical_loop p 0 0"
    using at p by (simp add: brix_token_scope_path_is_canonical_def)
  then show ?thesis unfolding one two using p ok by auto
qed

text \<open>A canonical path is its components, with at most one slash after them.\<close>

lemma segments_stem:
  "scope_segments_ok segs \<Longrightarrow> (\<forall>w \<in> set segs. slash \<notin> set w) \<Longrightarrow> segs \<noteq> [] \<Longrightarrow>
     \<exists>ws t. slash # join_on slash segs = path_stem ws @ t \<and> (t = [] \<and> ws \<noteq> [] \<or> t = ''/'')
       \<and> (\<forall>w \<in> set ws. plain_component w)"
proof (induction segs)
  case (Cons w segs)
  show ?case
  proof (cases "segs = []")
    case True
    show ?thesis
    proof (cases "w = []")
      case True
      then show ?thesis using \<open>segs = []\<close> by (intro exI [of _ "[]"] exI [of _ "''/''"]) simp
    next
      case False
      then show ?thesis using True Cons.prems by (intro exI [of _ "[w]"] exI [of _ "[]"]) (simp add: plain_component_def)
    qed
  next
    case False
    have "scope_segments_ok segs" "w \<noteq> []" using Cons.prems(1) False by (auto simp: scope_segments_ok_def)
    then obtain ws t where IH: "slash # join_on slash segs = path_stem ws @ t" "t = [] \<and> ws \<noteq> [] \<or> t = ''/''"
      "\<forall>w \<in> set ws. plain_component w" using Cons.IH Cons.prems False by auto
    then show ?thesis using False Cons.prems \<open>w \<noteq> []\<close>
      by (intro exI [of _ "w # ws"] exI [of _ t]) (auto simp: join_on_Cons plain_component_def)
  qed
qed simp

lemma canonical_stem:
  assumes "brix_token_scope_path_is_canonical (Some p)"
  shows "\<exists>t. p = path_stem (path_components p) @ t \<and> (t = [] \<and> path_components p \<noteq> [] \<or> t = ''/'')
     \<and> (\<forall>w \<in> set (path_components p). plain_component w)"
proof -
  obtain r where r: "p = slash # r" "scope_segments_ok (split_on slash r)" using assms canonical_iff by blast
  have "\<forall>w \<in> set (split_on slash r). slash \<notin> set w" using split_on_seg by fast
  from segments_stem [OF r(2) this] obtain ws t where w: "p = path_stem ws @ t" "t = [] \<and> ws \<noteq> [] \<or> t = ''/''"
    "\<forall>w \<in> set ws. plain_component w" using r(1) by auto
  have "path_components p = ws"
    using w(2) path_components_stem [OF w(3)] path_components_stem_append [OF w(3), of "[]"]
    unfolding w(1) by (elim disjE) simp_all
  then show ?thesis using w by simp
qed

lemma matches_stem:
  assumes "ws \<noteq> []" "\<forall>w \<in> set ws. plain_component w" "t = [] \<or> t = ''/''"
  shows "brix_token_scope_path_matches (path_stem ws @ t) q \<longleftrightarrow>
     q = path_stem ws \<or> (\<exists>r. q = path_stem ws @ slash # r)"
proof -
  let ?p = "path_stem ws @ t" and ?n = "length (path_stem ws)"
  obtain vs w where vs: "ws = vs @ [w]" using assms(1) by (cases ws rule: rev_cases) auto
  have w: "w \<noteq> []" "slash \<notin> set w" using assms(2) vs by (auto simp: plain_component_def)
  have n: "2 \<le> ?n" using w vs by (cases w) auto
  have lst: "path_stem ws ! (?n - 1) \<noteq> slash"
  proof -
    have "path_stem ws ! (?n - 1) = last (path_stem ws)" using n by (subst last_conv_nth) auto
    also have "\<dots> = last w" using w vs by simp
    finally show ?thesis using w last_in_set by metis
  qed
  have len: "(if length ?p > 1 \<and> ?p ! (length ?p - 1) = slash then length ?p - 1 else length ?p) = ?n"
    using assms(3) lst n by (auto simp: nth_append)
  have m: "brix_token_scope_path_matches ?p q \<longleftrightarrow> take ?n q = path_stem ws \<and> (length q = ?n \<or> q ! ?n = slash)"
    using n unfolding brix_token_scope_path_matches_def Let_def len by auto
  show ?thesis
  proof
    assume a: "brix_token_scope_path_matches ?p q"
    then have q: "take ?n q = path_stem ws" "length q = ?n \<or> q ! ?n = slash" using m by auto
    have "?n \<le> length q" using q(1) by (metis length_take min.absorb_iff2 min.commute nle_le)
    show "q = path_stem ws \<or> (\<exists>r. q = path_stem ws @ slash # r)"
    proof (cases "length q = ?n")
      case True
      then show ?thesis using q by simp
    next
      case False
      then have "drop ?n q = slash # drop (Suc ?n) q" using q(2) \<open>?n \<le> length q\<close> by (metis Cons_nth_drop_Suc le_neq_implies_less)
      then show ?thesis using q(1) append_take_drop_id [of ?n q] by metis
    qed
  next
    assume "q = path_stem ws \<or> (\<exists>r. q = path_stem ws @ slash # r)"
    then show "brix_token_scope_path_matches ?p q" unfolding m by auto
  qed
qed

text \<open>For any strings, what the test accepts: the scope less one trailing slash, then the end or a slash.\<close>

lemma matches_boundary:
  assumes "brix_token_scope_path_matches scope path"
  shows "scope = ''/'' \<or> (\<exists>stem. (scope = stem \<or> scope = stem @ [slash]) \<and> (path = stem \<or> (\<exists>r. path = stem @ slash # r)))"
proof (cases "scope = ''/''")
  case False
  define n where "n = (if length scope > 1 \<and> scope ! (length scope - 1) = slash then length scope - 1 else length scope)"
  have "\<not> (length scope = 1 \<and> scope ! 0 = slash)" using False by (cases scope) auto
  then have m: "take n path = take n scope" "length path = n \<or> path ! n = slash"
    using assms by (auto simp: brix_token_scope_path_matches_def Let_def n_def split: if_splits)
  have le: "n \<le> length scope" by (simp add: n_def)
  have len: "n \<le> length path" using arg_cong [OF m(1), of length] le by simp
  have sc: "scope = take n scope \<or> scope = take n scope @ [slash]"
  proof (cases "n = length scope")
    case neq: False
    then have n: "n = length scope - 1" "scope ! n = slash" "n < length scope" by (auto simp: n_def split: if_splits)
    have "take (Suc n) scope = take n scope @ [slash]" using take_Suc_conv_app_nth [OF n(3)] n(2) by simp
    moreover have "Suc n = length scope" using n(1,3) by linarith
    ultimately show ?thesis by (metis order_refl take_all)
  qed simp
  have "path = take n path \<or> (\<exists>r. path = take n path @ slash # r)"
  proof (cases "length path = n")
    case neq: False
    then have "drop n path = slash # drop (Suc n) path" using m(2) len by (metis Cons_nth_drop_Suc le_neq_implies_less)
    then show ?thesis using append_take_drop_id [of n path] by metis
  qed simp
  then show ?thesis using sc m(1) by auto
qed simp

lemma matches_prefix:
  assumes "brix_token_scope_path_matches scope path"
  shows "prefix (path_components scope) (path_components path)"
proof -
  have tail: "path_components (stem @ [slash]) = path_components stem" for stem
    using path_components_append [of stem "[]"] by simp
  consider "scope = ''/''" | stem where "scope = stem \<or> scope = stem @ [slash]" "path = stem \<or> (\<exists>r. path = stem @ slash # r)"
    using matches_boundary [OF assms] by blast
  then show ?thesis
  proof cases
    case 1
    then show ?thesis using path_components_slash [of "[]"] by simp
  next
    case 2
    then show ?thesis by (auto simp: tail path_components_append)
  qed
qed

lemma matches_components:
  assumes p: "brix_token_scope_path_is_canonical (Some p)" and q: "brix_token_scope_path_is_canonical (Some q)"
  shows "brix_token_scope_path_matches p q \<longleftrightarrow> prefix (path_components p) (path_components q)"
proof -
  obtain t where t: "p = path_stem (path_components p) @ t" "t = [] \<and> path_components p \<noteq> [] \<or> t = ''/''"
    "\<forall>w \<in> set (path_components p). plain_component w" using canonical_stem [OF p] by blast
  obtain u where u: "q = path_stem (path_components q) @ u" "u = [] \<and> path_components q \<noteq> [] \<or> u = ''/''"
    using canonical_stem [OF q] by blast
  show ?thesis
  proof (cases "path_components p = []")
    case True
    then have "p = ''/''" using t by auto
    then show ?thesis using True by (simp add: brix_token_scope_path_matches_def)
  next
    case ne: False
    have ms: "brix_token_scope_path_matches p q \<longleftrightarrow>
        q = path_stem (path_components p) \<or> (\<exists>r. q = path_stem (path_components p) @ slash # r)"
      using matches_stem [OF ne t(3), of t] t(1,2) by auto
    show ?thesis
    proof
      assume "brix_token_scope_path_matches p q"
      then consider "q = path_stem (path_components p)" | r where "q = path_stem (path_components p) @ slash # r"
        using ms by blast
      then show "prefix (path_components p) (path_components q)"
        using path_components_stem [OF t(3)] path_components_stem_append [OF t(3)] by cases simp_all
    next
      assume "prefix (path_components p) (path_components q)"
      then obtain ws where ws: "path_components q = path_components p @ ws" by (auto simp: prefix_def)
      then have qq: "q = path_stem (path_components p) @ path_stem ws @ u" using u(1) by simp
      show "brix_token_scope_path_matches p q"
      proof (cases ws)
        case Nil
        then show ?thesis using qq u(2) ms by auto
      next
        case (Cons w vs)
        then show ?thesis using qq ms by auto
      qed
    qed
  qed
qed

section \<open>Properties\<close>

text \<open>
  The read and write decisions of a token, in terms of its claim: the claim is cut into
  blank-separated words, those without a colon are ignored, the first \<open>max\<close> of the others
  count; a path is readable exactly when one of them has the permission \<open>storage.read\<close> or
  \<open>storage.stage\<close> and its path (the root when empty, its first 255 characters when longer) matches,
  and writable exactly when one has \<open>storage.write\<close>, \<open>storage.create\<close> or
  \<open>storage.modify\<close> and matches.  Permissions match exactly, never as substrings.
\<close>
theorem token_decisions:
  "(brix_token_check_read (brix_token_parse_scopes (Some claim) m) path \<longleftrightarrow>
      (\<exists>w. w \<in> set (take (nat m) (scope_entries claim))
         \<and> entry_permission w \<in> {''storage.read'', ''storage.stage''} \<and> brix_token_scope_path_matches (entry_path w) path))
   \<and> (brix_token_check_write (brix_token_parse_scopes (Some claim) m) path \<longleftrightarrow>
      (\<exists>w. w \<in> set (take (nat m) (scope_entries claim))
         \<and> entry_permission w \<in> {''storage.write'', ''storage.create'', ''storage.modify''}
         \<and> brix_token_scope_path_matches (entry_path w) path))"
  unfolding check_read_iff check_write_iff parse_scopes_entries take_map set_map bex_simps entry_scope_fields by blast

text \<open>
  C15. The scope prefix test respects component boundaries.  For any two strings, a scope that covers a
  request has its components as an initial part of the request's, so \<open>/data\<close> never covers
  \<open>/database\<close>; and when both are canonical paths the two are equivalent, so \<open>/data\<close> covers
  \<open>/data/x\<close>.  (A request spelt otherwise can be refused: \<open>/data\<close> does not cover \<open>//data\<close>.)
\<close>
theorem token_scope_component_prefix:
  "(brix_token_scope_path_matches scope path \<longrightarrow> prefix (path_components scope) (path_components path))
   \<and> (brix_token_scope_path_is_canonical (Some scope) \<and> brix_token_scope_path_is_canonical (Some path) \<longrightarrow>
       (brix_token_scope_path_matches scope path \<longleftrightarrow> prefix (path_components scope) (path_components path)))"
  using matches_prefix matches_components by blast

text \<open>
  The canonical-path scan accepts exactly the absolute paths with no control character and no
  backslash, no \<open>.\<close> or \<open>..\<close> component, and no empty component other than one after a
  trailing slash.
\<close>
theorem token_canonical_exact:
  "brix_token_scope_path_is_canonical (Some p) \<longleftrightarrow>
     (\<exists>r. p = slash # r \<and> \<not> (\<exists>c. c \<in> set p \<and> scope_char_bad c)
        \<and> ''.'' \<notin> set (split_on slash r) \<and> ''..'' \<notin> set (split_on slash r) \<and> [] \<notin> set (butlast (split_on slash r)))"
  unfolding canonical_iff scope_segments_ok_def by (rule iff_exI) metis

text \<open>
  A scope path of 256 or more characters is cut to 255, which can widen the grant: for every
  directory whose name has 255 characters, a claim for one subdirectory of it grants reading
  anything below the directory.
\<close>
theorem token_long_scope_widens:
  assumes d: "length d = 255" "d \<noteq> []" "last d \<noteq> slash" and blank: "spc \<notin> set d" "spc \<notin> set sub"
  shows "brix_token_check_read (brix_token_parse_scopes (Some (''storage.read:'' @ d @ slash # sub)) 1) (d @ slash # other)"
proof -
  define w where "w = ''storage.read:'' @ d @ slash # sub"
  have bw: "blank_words w = [w]" unfolding w_def using blank by (intro blank_words_one) simp_all
  have e: "scope_entries w = [w]" unfolding scope_entries_def bw by (simp add: w_def)
  have p: "entry_permission w = ''storage.read''" by (simp add: entry_permission_def w_def)
  have "drop (length (entry_permission w) + 1) w = d @ slash # sub" unfolding p by (simp add: w_def)
  then have pa: "entry_path w = d" using d(1) by (simp add: entry_path_def Let_def)
  have "d ! 254 = last d" using d by (simp add: last_conv_nth)
  then have "brix_token_scope_path_matches d (d @ slash # other)"
    using d by (simp add: brix_token_scope_path_matches_def Let_def nth_append)
  then show ?thesis
    unfolding check_read_iff parse_scopes_entries w_def [symmetric] e by (simp add: entry_scope_fields p pa)
qed

section \<open>Witnesses\<close>

lemma canonical_examples:
  "brix_token_scope_path_is_canonical (Some ''/data'')" "brix_token_scope_path_is_canonical (Some ''/data/x'')"
  by (simp_all add: canonical_iff scope_segments_ok_def)

theorem token_scope_component_prefix_witness:
  "(brix_token_scope_path_matches ''/data'' ''/data/x''
     \<longleftrightarrow> prefix (path_components ''/data'') (path_components ''/data/x''))
   \<and> \<not> brix_token_scope_path_matches ''/data'' ''/database''"
proof -
  have "\<not> prefix (path_components ''/data'') (path_components ''/database'')"
    by (simp add: path_components_def)
  then show ?thesis
    using token_scope_component_prefix [of "''/data''" "''/data/x''"] token_scope_component_prefix [of "''/data''" "''/database''"]
      canonical_examples by blast
qed

theorem token_long_scope_widens_witness:
  "brix_token_check_read (brix_token_parse_scopes (Some (''storage.read:'' @ replicate 255 CHR ''a'' @ slash # ''x'')) 1)
     (replicate 255 CHR ''a'' @ slash # ''y'')"
  by (rule token_long_scope_widens) simp_all

end
