(* ===== verification/Http_Range.thy ===== *)
theory Http_Range
  imports Path_Words
begin

text \<open>
  HTTP byte ranges, \<^verbatim>\<open>src/core/compat/range.c\<close> and \<^verbatim>\<open>range_vector.c\<close>: the Range and Content-Range parsers
  shared by WebDAV and S3, the total-size check and the coalescing of adjacent ranges.  A cursor
  is the rest of the header value.  \<open>off_t\<close> values are \<open>int\<close> with the code's own overflow guards.
  \<open>ngx_atoof\<close> and \<open>ngx_strlchr\<close> belong to nginx: they are parameters, with their documented
  behaviour in \<open>ngx_string_documented\<close>.
\<close>

section \<open>Range vectors\<close>

abbreviation (input) OFF_MAX :: int where "OFF_MAX \<equiv> 9223372036854775807"

record ngx_string_lib =
  ngx_atoof :: "string \<Rightarrow> int"
  ngx_strlchr :: "string \<Rightarrow> char \<Rightarrow> nat option"

datatype brix_range_fail_e = FAIL_NONE | FAIL_MALFORMED | FAIL_UNSATISFIABLE

record brix_byte_range_t =
  br_start :: int
  br_end :: int
  br_fd :: int
  br_handle :: nat

record brix_range_vector_opts_t =
  max_ranges :: nat
  max_total_bytes :: int
  allow_suffix :: bool
  allow_open_ended :: bool
  drop_unsatisfiable :: bool

definition range_vector_reject :: "brix_range_vector_opts_t \<Rightarrow> ngx_rc" where
  "range_vector_reject opts = (if drop_unsatisfiable opts then NGX_DECLINED else NGX_ERROR)"

text \<open>\<open>after\<close> is the text between the dash and the comma.\<close>

definition range_vector_parse_suffix ::
  "ngx_string_lib \<Rightarrow> string \<Rightarrow> int \<Rightarrow> brix_range_vector_opts_t \<Rightarrow> ngx_rc + int \<times> int" where
  "range_vector_parse_suffix L after file_size opts =
     (if \<not> allow_suffix opts then Inl (range_vector_reject opts)
      else let start = ngx_atoof L after
           in if start < 0 then Inl (range_vector_reject opts)
              else let start = (if start > file_size then file_size else start)
                   in Inr (file_size - start, file_size - 1))"

definition range_vector_parse_explicit ::
  "ngx_string_lib \<Rightarrow> string \<Rightarrow> string \<Rightarrow> int \<Rightarrow> brix_range_vector_opts_t \<Rightarrow> ngx_rc + int \<times> int" where
  "range_vector_parse_explicit L before after file_size opts =
     (let start = ngx_atoof L before
      in if start < 0 then Inl (range_vector_reject opts)
         else if after = [] then
           (if \<not> allow_open_ended opts then Inl (range_vector_reject opts) else Inr (start, file_size - 1))
         else let l = ngx_atoof L after
              in if l < 0 then Inl (range_vector_reject opts)
                 else Inr (start, if l \<ge> file_size then file_size - 1 else l))"

definition range_vector_parse_one ::
  "ngx_string_lib \<Rightarrow> string \<Rightarrow> int \<Rightarrow> brix_range_vector_opts_t \<Rightarrow> (ngx_rc \<times> brix_range_fail_e) + brix_byte_range_t" where
  "range_vector_parse_one L item file_size opts =
     (case ngx_strlchr L item CHR ''-'' of
        None \<Rightarrow> Inl (range_vector_reject opts, FAIL_MALFORMED)
      | Some k \<Rightarrow>
          (case (if k = 0 then range_vector_parse_suffix L (drop (k + 1) item) file_size opts
                 else range_vector_parse_explicit L (take k item) (drop (k + 1) item) file_size opts) of
             Inl rc \<Rightarrow> Inl (rc, FAIL_MALFORMED)
           | Inr (start, l) \<Rightarrow>
               if start \<ge> file_size then Inl (range_vector_reject opts, FAIL_UNSATISFIABLE)
               else if start < 0 \<or> start > l then Inl (range_vector_reject opts, FAIL_MALFORMED)
               else Inr \<lparr>br_start = start, br_end = l, br_fd = -1, br_handle = 0\<rparr>))"

lemma dropWhile_drop_less: "p \<noteq> [] \<Longrightarrow> length (dropWhile P p) - Suc k < length p"
  using length_dropWhile_le [of P p] by (cases p) (simp_all add: less_Suc_eq_le)

function range_vector_loop ::
  "ngx_string_lib \<Rightarrow> int \<Rightarrow> brix_range_vector_opts_t \<Rightarrow> string \<Rightarrow> brix_byte_range_t list \<Rightarrow> brix_range_fail_e + brix_byte_range_t list" where
  "range_vector_loop L file_size opts p ranges =
     (if p = [] \<or> \<not> length ranges < max_ranges opts then Inr ranges
      else let p = dropWhile (\<lambda>c. c = spc) p
           in if p = [] then Inr ranges
              else let comma = (case ngx_strlchr L p CHR '','' of None \<Rightarrow> length p | Some k \<Rightarrow> k)
                   in case range_vector_parse_one L (take comma p) file_size opts of
                        Inl (NGX_ERROR, why) \<Rightarrow> Inl why
                      | Inl _ \<Rightarrow> range_vector_loop L file_size opts (drop (comma + 1) p) ranges
                      | Inr r \<Rightarrow> range_vector_loop L file_size opts (drop (comma + 1) p) (ranges @ [r]))"
  by pat_completeness auto
termination
  by (relation "measure (\<lambda>(_, _, _, p, _). length p)") (auto intro: dropWhile_drop_less)

declare range_vector_loop.simps [simp del]

definition brix_http_parse_range_vector ::
  "ngx_string_lib \<Rightarrow> string \<Rightarrow> int \<Rightarrow> brix_range_vector_opts_t \<Rightarrow> brix_range_fail_e + brix_byte_range_t list" where
  "brix_http_parse_range_vector L data file_size opts = range_vector_loop L file_size opts data []"

fun validate_total_loop :: "int \<Rightarrow> brix_byte_range_t list \<Rightarrow> int option" where
  "validate_total_loop acc [] = Some acc"
| "validate_total_loop acc (r # rs) =
     (let len = br_end r - br_start r + 1
      in if len < 0 \<or> (acc > 0 \<and> len > OFF_MAX - acc) then None else validate_total_loop (acc + len) rs)"

definition brix_range_vector_validate_total :: "brix_byte_range_t list \<Rightarrow> int \<Rightarrow> int option" where
  "brix_range_vector_validate_total ranges max_total =
     (case validate_total_loop 0 ranges of None \<Rightarrow> None
      | Some t \<Rightarrow> if max_total > 0 \<and> t > max_total then None else Some t)"

function coalesce_loop :: "brix_byte_range_t list \<Rightarrow> nat \<Rightarrow> nat \<Rightarrow> nat \<Rightarrow> nat" where
  "coalesce_loop ranges max_iov i count =
     (if i < length ranges \<and> count < max_iov
      then if br_start (ranges ! i) = br_end (ranges ! (i - 1)) + 1 \<and> br_fd (ranges ! i) = br_fd (ranges ! (i - 1))
           then coalesce_loop ranges max_iov (i + 1) (count + 1)
           else count
      else count)"
  by pat_completeness auto
termination by (relation "measure (\<lambda>(r, _, i, _). length r - i)") auto

declare coalesce_loop.simps [simp del]

definition brix_range_vector_next_coalesced_run :: "brix_byte_range_t list \<Rightarrow> nat \<Rightarrow> nat \<Rightarrow> nat" where
  "brix_range_vector_next_coalesced_run ranges start_index max_iov =
     (if start_index \<ge> length ranges then 0 else if max_iov = 0 then 0
      else coalesce_loop ranges max_iov (start_index + 1) 1)"

section \<open>Single ranges and Content-Range\<close>

record brix_http_range_t =
  hr_start :: int
  hr_end :: int
  hr_present :: bool
  hr_satisfiable :: bool

definition single_range_opts :: brix_range_vector_opts_t where
  "single_range_opts = \<lparr>max_ranges = 1, max_total_bytes = 0, allow_suffix = True, allow_open_ended = True, drop_unsatisfiable = False\<rparr>"

definition brix_http_parse_range :: "ngx_string_lib \<Rightarrow> string option \<Rightarrow> int \<Rightarrow> brix_http_range_t" where
  "brix_http_parse_range L hdr file_size =
     (let out = \<lparr>hr_start = 0, hr_end = (if file_size > 0 then file_size - 1 else 0), hr_present = False, hr_satisfiable = True\<rparr>
      in case hdr of None \<Rightarrow> out
         | Some h \<Rightarrow>
             if length h < 7 \<or> take 6 h \<noteq> ''bytes='' then out
             else case brix_http_parse_range_vector L (drop 6 h) file_size single_range_opts of
                    Inl fail \<Rightarrow> if fail = FAIL_UNSATISFIABLE then out\<lparr>hr_present := True, hr_satisfiable := False\<rparr> else out
                  | Inr ranges \<Rightarrow>
                      if length ranges = 1
                      then out\<lparr>hr_present := True, hr_start := br_start (ranges ! 0), hr_end := br_end (ranges ! 0)\<rparr>
                      else out)"

abbreviation is_digit :: "char \<Rightarrow> bool" where
  "is_digit c \<equiv> (48 :: nat) \<le> of_char c \<and> (of_char c :: nat) \<le> 57"

definition digit_val :: "char \<Rightarrow> int" where
  "digit_val c = int (of_char c) - 48"

fun cr_digits :: "int \<Rightarrow> string \<Rightarrow> (int \<times> string) option" where
  "cr_digits v [] = Some (v, [])"
| "cr_digits v (c # s) =
     (if \<not> is_digit c then Some (v, c # s)
      else if v > (0x7fffffffffffffff - 9) div 10 then None
      else cr_digits (v * 10 + digit_val c) s)"

definition cr_parse_u64 :: "string \<Rightarrow> (int \<times> string) option" where
  "cr_parse_u64 s = (if s = [] \<or> \<not> is_digit (hd s) then None else cr_digits 0 s)"

record brix_http_content_range_t =
  cr_start :: int
  cr_end :: int
  cr_total :: int
  cr_present :: bool

definition cr_skip_unit_prefix :: "string \<Rightarrow> string" where
  "cr_skip_unit_prefix s = dropWhile (\<lambda>c. c = spc) (if length s \<ge> 6 \<and> take 6 s = ''bytes '' then drop 6 s else s)"

text \<open>The cursor and the struct after the step; \<open>False\<close> is a malformed value.\<close>

definition cr_parse_span :: "string \<Rightarrow> brix_http_content_range_t \<Rightarrow> bool \<times> string \<times> brix_http_content_range_t" where
  "cr_parse_span s out = (case cr_parse_u64 s of None \<Rightarrow> (False, s, out)
     | Some (v, s) \<Rightarrow> let out = out\<lparr>cr_start := v\<rparr>
         in if s = [] \<or> hd s \<noteq> CHR ''-'' then (False, s, out)
            else case cr_parse_u64 (tl s) of None \<Rightarrow> (False, tl s, out)
                 | Some (w, s) \<Rightarrow> (True, s, out\<lparr>cr_end := w\<rparr>))"

definition cr_parse_total :: "string \<Rightarrow> brix_http_content_range_t \<Rightarrow> bool \<times> string \<times> brix_http_content_range_t" where
  "cr_parse_total s out =
     (if s = [] \<or> hd s \<noteq> slash then (False, s, out)
      else let s = tl s
           in if s \<noteq> [] \<and> hd s = CHR ''*'' then (True, tl s, out\<lparr>cr_total := -1\<rparr>)
              else case cr_parse_u64 s of None \<Rightarrow> (False, s, out) | Some (v, s) \<Rightarrow> (True, s, out\<lparr>cr_total := v\<rparr>))"

definition cr_only_trailing_ws :: "string \<Rightarrow> bool" where
  "cr_only_trailing_ws s = (dropWhile (\<lambda>c. c = spc \<or> c = CHR 0x09) s = [])"

definition brix_http_parse_content_range :: "string option \<Rightarrow> brix_http_content_range_t" where
  "brix_http_parse_content_range hdr =
     (let out = \<lparr>cr_start = 0, cr_end = 0, cr_total = -1, cr_present = False\<rparr>
      in case hdr of None \<Rightarrow> out
         | Some h \<Rightarrow>
             if h = [] then out
             else let (ok, s, out) = cr_parse_span (cr_skip_unit_prefix h) out
                  in if \<not> ok then out
                     else let (ok, s, out) = cr_parse_total s out
                          in if \<not> ok then out
                             else if cr_end out < cr_start out then out
                             else if \<not> cr_only_trailing_ws s then out
                             else out\<lparr>cr_present := True\<rparr>)"

section \<open>Bounds of parsed ranges\<close>

definition range_within :: "int \<Rightarrow> brix_byte_range_t \<Rightarrow> bool" where
  "range_within file_size r \<longleftrightarrow> 0 \<le> br_start r \<and> br_start r \<le> br_end r \<and> br_end r < file_size"

lemma parse_suffix_end: "range_vector_parse_suffix L a fsz opts = Inr (s, l) \<Longrightarrow> l < fsz"
  by (auto simp: range_vector_parse_suffix_def Let_def split: if_splits)

lemma parse_explicit_end: "range_vector_parse_explicit L a b fsz opts = Inr (s, l) \<Longrightarrow> l < fsz"
  by (auto simp: range_vector_parse_explicit_def Let_def split: if_splits)

lemma parse_one_within: "range_vector_parse_one L item fsz opts = Inr r \<Longrightarrow> range_within fsz r"
  by (auto simp: range_vector_parse_one_def range_within_def Let_def
      dest!: parse_suffix_end parse_explicit_end split: option.splits sum.splits if_splits)

lemma range_vector_loop_step:
  assumes "p \<noteq> []" "length rs < max_ranges opts" "q = dropWhile (\<lambda>c. c = spc) p" "q \<noteq> []"
    and "k = (case ngx_strlchr L q CHR '','' of None \<Rightarrow> length q | Some k \<Rightarrow> k)"
  shows "range_vector_loop L fsz opts p rs = (case range_vector_parse_one L (take k q) fsz opts of
      Inl (rc, why) \<Rightarrow> if rc = NGX_ERROR then Inl why else range_vector_loop L fsz opts (drop (k + 1) q) rs
    | Inr r \<Rightarrow> range_vector_loop L fsz opts (drop (k + 1) q) (rs @ [r]))"
  using assms(1,2,4) unfolding assms(5)
  by (subst range_vector_loop.simps) (simp add: Let_def assms(3) [symmetric] split: sum.split prod.split ngx_rc.split)

lemma range_vector_loop_stop:
  assumes "p = [] \<or> \<not> length rs < max_ranges opts \<or> dropWhile (\<lambda>c. c = spc) p = []"
  shows "range_vector_loop L fsz opts p rs = Inr rs"
  using assms by (subst range_vector_loop.simps) (auto simp: Let_def)

lemma range_vector_loop_within:
  "range_vector_loop L fsz opts p rs = Inr rs' \<Longrightarrow> (\<forall>r \<in> set rs. range_within fsz r) \<Longrightarrow> length rs \<le> max_ranges opts
     \<Longrightarrow> (\<forall>r \<in> set rs'. range_within fsz r) \<and> length rs' \<le> max_ranges opts"
proof (induction "length p" arbitrary: p rs rule: less_induct)
  case less
  define q where "q = dropWhile (\<lambda>c. c = spc) p"
  define k where "k = (case ngx_strlchr L q CHR '','' of None \<Rightarrow> length q | Some k \<Rightarrow> k)"
  show ?case
  proof (cases "p = [] \<or> \<not> length rs < max_ranges opts \<or> q = []")
    case True
    then show ?thesis using less.prems range_vector_loop_stop [of p rs opts L fsz] by (simp add: q_def)
  next
    case False
    then have nz: "p \<noteq> []" "length rs < max_ranges opts" "q \<noteq> []" by auto
    have dec: "length (drop (k + 1) q) < length p" using dropWhile_drop_less [OF nz(1)] by (simp add: q_def)
    note st = less.prems(1) [unfolded range_vector_loop_step [OF nz(1,2) q_def nz(3) k_def]]
    show ?thesis
    proof (cases "range_vector_parse_one L (take k q) fsz opts")
      case (Inr r)
      then show ?thesis using less.hyps [OF dec, of "rs @ [r]"] st less.prems(2) nz parse_one_within [OF Inr] by simp
    next
      case (Inl e)
      obtain rc why where "e = (rc, why)" by (cases e)
      then show ?thesis using less.hyps [OF dec, of rs] st less.prems(2,3) Inl by (simp split: if_splits)
    qed
  qed
qed

section \<open>Decimal numbers\<close>

definition dec_val :: "int \<Rightarrow> string \<Rightarrow> int" where
  "dec_val v s = foldl (\<lambda>v c. v * 10 + digit_val c) v s"

lemma dec_val_simps [simp]: "dec_val v [] = v" "dec_val v (c # s) = dec_val (v * 10 + digit_val c) s"
  "dec_val v (s @ t) = dec_val (dec_val v s) t"
  by (simp_all add: dec_val_def)

lemma digit_val_range: "is_digit c \<Longrightarrow> 0 \<le> digit_val c \<and> digit_val c \<le> 9"
  by (auto simp: digit_val_def)

lemma dec_val_mono: "0 \<le> v \<Longrightarrow> \<forall>c \<in> set s. is_digit c \<Longrightarrow> v \<le> dec_val v s"
proof (induction s arbitrary: v)
  case (Cons c s)
  have "0 \<le> digit_val c" using Cons.prems(2) digit_val_range by simp
  then have "v \<le> v * 10 + digit_val c" using Cons.prems(1) by simp
  also have "\<dots> \<le> dec_val (v * 10 + digit_val c) s" using Cons.IH Cons.prems \<open>0 \<le> digit_val c\<close> by simp
  finally show ?case by simp
qed simp

lemma cr_digits_run:
  assumes "0 \<le> v" "\<forall>c \<in> set s. is_digit c" "dec_val v s \<le> OFF_MAX - 9" "t = [] \<or> \<not> is_digit (hd t)"
  shows "cr_digits v (s @ t) = Some (dec_val v s, t)"
  using assms
proof (induction s arbitrary: v)
  case Nil
  then show ?case by (cases t) auto
next
  case (Cons c s)
  have d: "is_digit c" "0 \<le> digit_val c" using Cons.prems(2) digit_val_range by simp_all
  have "v * 10 + digit_val c \<le> dec_val (v * 10 + digit_val c) s"
    using Cons.prems(1,2) d by (intro dec_val_mono) auto
  then have "v * 10 \<le> OFF_MAX - 9" using Cons.prems(3) d(2) by simp
  then have "\<not> v > (0x7fffffffffffffff - 9) div 10" by simp
  then show ?case using Cons.IH [of "v * 10 + digit_val c"] Cons.prems d by simp
qed

fun dec_print :: "nat \<Rightarrow> string" where
  "dec_print n = (if n < 10 then [char_of (48 + n)] else dec_print (n div 10) @ [char_of (48 + n mod 10)])"

declare dec_print.simps [simp del]

lemma char_of_digit: "d < 10 \<Longrightarrow> is_digit (char_of (48 + d)) \<and> digit_val (char_of (48 + d)) = int d"
  by (simp add: digit_val_def)

lemma dec_print_val: "(\<forall>c \<in> set (dec_print n). is_digit c) \<and> dec_print n \<noteq> [] \<and> dec_val 0 (dec_print n) = int n"
proof (induction n rule: dec_print.induct)
  case (1 n)
  show ?case
  proof (cases "n < 10")
    case True
    then show ?thesis using char_of_digit [of n] by (subst (1 2 3) dec_print.simps) simp
  next
    case False
    have "int (n div 10) * 10 + int (n mod 10) = int n" by (metis of_nat_add of_nat_mult of_nat_numeral div_mult_mod_eq)
    then show ?thesis using False 1 char_of_digit [of "n mod 10"] by (subst (1 2 3) dec_print.simps) simp
  qed
qed

lemma cr_parse_print:
  assumes "int n \<le> OFF_MAX - 9" "t = [] \<or> \<not> is_digit (hd t)"
  shows "cr_parse_u64 (dec_print n @ t) = Some (int n, t)"
proof -
  note d = dec_print_val [of n]
  have "is_digit (hd (dec_print n))" using d by (metis hd_in_set)
  then show ?thesis using cr_digits_run [of 0 "dec_print n" t] d assms by (simp add: cr_parse_u64_def)
qed

section \<open>One range\<close>

definition all_digits :: "string \<Rightarrow> bool" where
  "all_digits s \<longleftrightarrow> (\<forall>c \<in> set s. is_digit c)"

definition ngx_string_documented :: "ngx_string_lib \<Rightarrow> bool" where
  "ngx_string_documented L \<longleftrightarrow>
     (\<forall>s. ngx_atoof L s = (if s \<noteq> [] \<and> all_digits s \<and> dec_val 0 s \<le> OFF_MAX then dec_val 0 s else -1))
     \<and> (\<forall>s c. ngx_strlchr L s c = (if c \<in> set s then Some (length (takeWhile (\<lambda>d. d \<noteq> c) s)) else None))"

lemma digit_not: "is_digit c \<Longrightarrow> c \<noteq> CHR ''-'' \<and> c \<noteq> CHR '','' \<and> c \<noteq> spc"
  by auto

lemma all_digits_not: "all_digits s \<Longrightarrow> CHR ''-'' \<notin> set s \<and> CHR '','' \<notin> set s \<and> spc \<notin> set s"
  unfolding all_digits_def using digit_not by metis

lemma dec_val_nonneg: "all_digits s \<Longrightarrow> 0 \<le> dec_val 0 s"
  using dec_val_mono [of 0 s] by (simp add: all_digits_def)

lemma strlchr_dash:
  assumes "ngx_string_documented L" "all_digits a"
  shows "ngx_strlchr L (a @ CHR ''-'' # b) CHR ''-'' = Some (length a)"
proof -
  have "takeWhile (\<lambda>d. d \<noteq> CHR ''-'') (a @ CHR ''-'' # b) = a"
    using all_digits_not [OF assms(2)] by (subst takeWhile_append2) auto
  then show ?thesis using assms(1) by (simp add: ngx_string_documented_def)
qed

lemma range_vector_single:
  assumes L: "ngx_string_documented L" and ds: "all_digits a" "all_digits b"
  shows "brix_http_parse_range_vector L (a @ CHR ''-'' # b) fsz single_range_opts =
     (case range_vector_parse_one L (a @ CHR ''-'' # b) fsz single_range_opts of
        Inl (rc, why) \<Rightarrow> Inl why | Inr r \<Rightarrow> Inr [r])"
proof -
  let ?p = "a @ CHR ''-'' # b"
  note nd = all_digits_not [OF ds(1)] all_digits_not [OF ds(2)]
  have hd: "hd ?p \<noteq> spc" using nd by (cases a) auto
  then have q: "?p = dropWhile (\<lambda>c. c = spc) ?p" by (cases a) auto
  have "CHR '','' \<notin> set ?p" using nd by simp
  then have k: "length ?p = (case ngx_strlchr L ?p CHR '','' of None \<Rightarrow> length ?p | Some k \<Rightarrow> k)"
    using L by (simp add: ngx_string_documented_def)
  have one: "length ([] :: brix_byte_range_t list) < max_ranges single_range_opts" by (simp add: single_range_opts_def)
  have stop: "range_vector_loop L fsz single_range_opts [] rs = Inr rs" for rs
    by (rule range_vector_loop_stop) simp
  have rej: "rc = NGX_ERROR" if "range_vector_parse_one L ?p fsz single_range_opts = Inl (rc, why)" for rc why
    using that by (auto simp: range_vector_parse_one_def range_vector_parse_suffix_def range_vector_parse_explicit_def
        range_vector_reject_def single_range_opts_def Let_def split: option.splits sum.splits if_splits)
  show ?thesis
    unfolding brix_http_parse_range_vector_def range_vector_loop_step [OF _ one q _ k, simplified]
    using stop rej by (auto split: sum.split)
qed

lemma parse_one_digits:
  assumes L: "ngx_string_documented L" and ds: "all_digits a" "all_digits b"
    and mx: "dec_val 0 a \<le> OFF_MAX" "dec_val 0 b \<le> OFF_MAX" and ne: "a \<noteq> [] \<or> b \<noteq> []" and sz: "0 \<le> fsz"
    and lo: "lo = (if a = [] then fsz - min (dec_val 0 b) fsz else dec_val 0 a)"
    and hi: "hi = (if a = [] \<or> b = [] then fsz - 1 else min (dec_val 0 b) (fsz - 1))"
  shows "range_vector_parse_one L (a @ CHR ''-'' # b) fsz single_range_opts =
     (if fsz \<le> lo then Inl (NGX_ERROR, FAIL_UNSATISFIABLE)
      else if hi < lo then Inl (NGX_ERROR, FAIL_MALFORMED)
      else Inr \<lparr>br_start = lo, br_end = hi, br_fd = -1, br_handle = 0\<rparr>)"
proof -
  have at: "ngx_atoof L s = dec_val 0 s" if "s \<noteq> []" "all_digits s" "dec_val 0 s \<le> OFF_MAX" for s
    using L that by (simp add: ngx_string_documented_def)
  have nn: "0 \<le> dec_val 0 a" "0 \<le> dec_val 0 b" using ds dec_val_nonneg by auto
  have rej: "range_vector_reject single_range_opts = NGX_ERROR" "allow_suffix single_range_opts" "allow_open_ended single_range_opts"
    by (simp_all add: range_vector_reject_def single_range_opts_def)
  have lo0: "0 \<le> lo" using nn sz lo by auto
  have "range_vector_parse_one L (a @ CHR ''-'' # b) fsz single_range_opts =
      (if lo \<ge> fsz then Inl (NGX_ERROR, FAIL_UNSATISFIABLE)
       else if lo < 0 \<or> lo > hi then Inl (NGX_ERROR, FAIL_MALFORMED)
       else Inr \<lparr>br_start = lo, br_end = hi, br_fd = -1, br_handle = 0\<rparr>)"
  proof (cases "a = []")
    case True
    then have b: "b \<noteq> []" using ne by simp
    have "range_vector_parse_suffix L b fsz single_range_opts = Inr (lo, hi)"
      using at [OF b ds(2) mx(2)] nn True by (simp add: range_vector_parse_suffix_def Let_def rej lo hi min_def)
    then show ?thesis using strlchr_dash [OF L ds(1), of b] True unfolding range_vector_parse_one_def by (simp add: rej)
  next
    case False
    have "range_vector_parse_explicit L a b fsz single_range_opts = Inr (lo, hi)"
      using at [OF False ds(1) mx(1)] at [OF _ ds(2) mx(2)] nn False
      by (auto simp: range_vector_parse_explicit_def Let_def rej lo hi min_def)
    then show ?thesis using strlchr_dash [OF L ds(1), of b] False unfolding range_vector_parse_one_def by (simp add: rej)
  qed
  then show ?thesis using lo0 by auto
qed

section \<open>Totals and runs\<close>

lemma validate_total_loop_sum:
  "0 \<le> acc \<Longrightarrow> acc \<le> OFF_MAX \<Longrightarrow> (\<forall>r \<in> set rs. 0 \<le> br_start r \<and> br_start r \<le> br_end r \<and> br_end r < OFF_MAX) \<Longrightarrow>
   validate_total_loop acc rs =
     (let t = acc + sum_list (map (\<lambda>r. br_end r - br_start r + 1) rs) in if t \<le> OFF_MAX then Some t else None)"
proof (induction rs arbitrary: acc)
  case (Cons r rs)
  define len where "len = br_end r - br_start r + 1"
  have l: "1 \<le> len" "len \<le> OFF_MAX" using Cons.prems(3) by (auto simp: len_def)
  have pos: "0 \<le> sum_list (map (\<lambda>r. br_end r - br_start r + 1) rs)"
    using Cons.prems(3) by (intro sum_list_nonneg) auto
  have st: "validate_total_loop acc (r # rs) = (if acc > 0 \<and> len > OFF_MAX - acc then None else validate_total_loop (acc + len) rs)"
    using l by (simp add: len_def Let_def)
  show ?case
  proof (cases "acc + len \<le> OFF_MAX")
    case True
    then show ?thesis unfolding st using Cons.IH [of "acc + len"] Cons.prems l
      by (simp add: len_def [symmetric] add.assoc)
  next
    case False
    then have "acc > 0 \<and> len > OFF_MAX - acc" using l Cons.prems(1) by auto
    then show ?thesis unfolding st using False pos by (simp add: len_def [symmetric])
  qed
qed simp

definition ranges_adjacent :: "brix_byte_range_t list \<Rightarrow> nat \<Rightarrow> bool" where
  "ranges_adjacent rs i \<longleftrightarrow> br_start (rs ! i) = br_end (rs ! (i - 1)) + 1 \<and> br_fd (rs ! i) = br_fd (rs ! (i - 1))"

lemma coalesce_loop_run:
  assumes "count \<le> max_iov" "i \<le> length rs" "c = coalesce_loop rs max_iov i count"
  shows "count \<le> c \<and> c \<le> max_iov \<and> i + (c - count) \<le> length rs
     \<and> (\<forall>j. i \<le> j \<longrightarrow> j < i + (c - count) \<longrightarrow> ranges_adjacent rs j)
     \<and> (c = max_iov \<or> i + (c - count) = length rs \<or> \<not> ranges_adjacent rs (i + (c - count)))"
  using assms
proof (induction rs max_iov i count rule: coalesce_loop.induct)
  case (1 rs max_iov i count)
  show ?case
  proof (cases "i < length rs \<and> count < max_iov \<and> ranges_adjacent rs i")
    case True
    then have e: "coalesce_loop rs max_iov i count = coalesce_loop rs max_iov (i + 1) (count + 1)"
      by (subst coalesce_loop.simps) (simp add: ranges_adjacent_def)
    have a: "i < length rs \<and> count < max_iov" using True by simp
    have b: "br_start (rs ! i) = br_end (rs ! (i - 1)) + 1 \<and> br_fd (rs ! i) = br_fd (rs ! (i - 1))"
      using True by (simp add: ranges_adjacent_def)
    have h: "count + 1 \<le> max_iov" "i + 1 \<le> length rs" "c = coalesce_loop rs max_iov (i + 1) (count + 1)"
      using a 1(4) e by auto
    note IH = 1(1) [OF a b h]
    have eq: "i + 1 + (c - (count + 1)) = i + (c - count)" using IH by linarith
    have "ranges_adjacent rs j" if "i \<le> j" "j < i + (c - count)" for j
      using that True IH unfolding eq by (cases "j = i") auto
    then show ?thesis using IH unfolding eq by auto
  next
    case False
    then have "coalesce_loop rs max_iov i count = count"
      by (subst coalesce_loop.simps) (auto simp: ranges_adjacent_def)
    then show ?thesis using 1(2-4) False by auto
  qed
qed

section \<open>Properties\<close>

text \<open>
  C24. No parsed range leaves the file: whatever the header, the file size and the policy, and
  whatever the string library returns, an accepted vector has at most \<open>max_ranges\<close> entries, each
  with \<open>0 \<le> start \<le> end < file_size\<close>.
\<close>
theorem range_vector_within_file:
  assumes "brix_http_parse_range_vector L data fsz opts = Inr ranges"
  shows "length ranges \<le> max_ranges opts
     \<and> (\<forall>r \<in> set ranges. 0 \<le> br_start r \<and> br_start r \<le> br_end r \<and> br_end r < fsz)"
  using range_vector_loop_within [of L fsz opts data "[]" ranges] assms
  by (simp add: brix_http_parse_range_vector_def range_within_def)

text \<open>
  The single-range header, exactly: for \<open>bytes=A-B\<close>, \<open>bytes=A-\<close> and \<open>bytes=-N\<close> with
  decimal numbers that fit an \<open>off_t\<close>, a range that starts at or past the end of the file is
  unsatisfiable (416); a reversed range is ignored (the whole file); otherwise the reply is the
  range with its end clipped to the file, a suffix counting from the end.
\<close>
theorem range_single_exact:
  assumes "ngx_string_documented L" "all_digits a" "all_digits b" "dec_val 0 a \<le> OFF_MAX" "dec_val 0 b \<le> OFF_MAX"
    and "a \<noteq> [] \<or> b \<noteq> []" "0 \<le> fsz"
  shows "brix_http_parse_range L (Some (''bytes='' @ a @ CHR ''-'' # b)) fsz =
    (let lo = (if a = [] then fsz - min (dec_val 0 b) fsz else dec_val 0 a);
         hi = (if a = [] \<or> b = [] then fsz - 1 else min (dec_val 0 b) (fsz - 1));
         whole = (if fsz > 0 then fsz - 1 else 0)
     in if fsz \<le> lo then \<lparr>hr_start = 0, hr_end = whole, hr_present = True, hr_satisfiable = False\<rparr>
        else if hi < lo then \<lparr>hr_start = 0, hr_end = whole, hr_present = False, hr_satisfiable = True\<rparr>
        else \<lparr>hr_start = lo, hr_end = hi, hr_present = True, hr_satisfiable = True\<rparr>)"
proof -
  have "\<not> length (''bytes='' @ a @ CHR ''-'' # b) < 7" by simp
  then show ?thesis
    unfolding brix_http_parse_range_def Let_def
    using range_vector_single [OF assms(1-3), of fsz] parse_one_digits [OF assms refl refl] by simp
qed

text \<open>
  A Content-Range a client prints is read back: for \<open>start \<le> end\<close>, with a known or unknown
  total, all below the parser's overflow guard, the parsed value is exactly the printed one.
\<close>
theorem content_range_roundtrip:
  assumes "s \<le> e" "int e \<le> OFF_MAX - 9" "case tot of None \<Rightarrow> True | Some t \<Rightarrow> int t \<le> OFF_MAX - 9"
  shows "brix_http_parse_content_range (Some (''bytes '' @ dec_print s @ ''-'' @ dec_print e @ ''/''
       @ (case tot of None \<Rightarrow> ''*'' | Some t \<Rightarrow> dec_print t)))
     = \<lparr>cr_start = int s, cr_end = int e, cr_total = (case tot of None \<Rightarrow> -1 | Some t \<Rightarrow> int t), cr_present = True\<rparr>"
proof -
  define T where "T = (case tot of None \<Rightarrow> ''*'' | Some t \<Rightarrow> dec_print t)"
  define E where "E = dec_print e @ ''/'' @ T"
  have dg: "dec_print s \<noteq> []" "is_digit (hd (dec_print n))" for n using dec_print_val by (metis hd_in_set)+
  have skip: "cr_skip_unit_prefix (''bytes '' @ dec_print s @ ''-'' @ E) = dec_print s @ ''-'' @ E"
    using dg(2) [of s] dg(1) digit_not by (cases "dec_print s") (auto simp: cr_skip_unit_prefix_def)
  have p1: "cr_parse_u64 (dec_print s @ ''-'' @ E) = Some (int s, ''-'' @ E)"
    using assms(1,2) by (intro cr_parse_print) simp_all
  have p2: "cr_parse_u64 E = Some (int e, ''/'' @ T)"
    unfolding E_def using assms(2) by (intro cr_parse_print) simp_all
  have p3: "cr_parse_total (''/'' @ T) out = (True, [], out\<lparr>cr_total := (case tot of None \<Rightarrow> -1 | Some t \<Rightarrow> int t)\<rparr>)" for out
  proof (cases tot)
    case None
    then show ?thesis by (simp add: cr_parse_total_def T_def)
  next
    case (Some t)
    have "cr_parse_u64 T = Some (int t, [])" using cr_parse_print [of t "[]"] assms(3) Some by (simp add: T_def)
    moreover have "hd T \<noteq> CHR ''*''" using dg(2) [of t] Some by (auto simp: T_def)
    ultimately show ?thesis using Some by (simp add: cr_parse_total_def)
  qed
  have sp: "cr_parse_span (dec_print s @ ''-'' @ E) out = (True, ''/'' @ T, out\<lparr>cr_start := int s, cr_end := int e\<rparr>)" for out
    using p1 p2 by (simp add: cr_parse_span_def)
  have "brix_http_parse_content_range (Some (''bytes '' @ dec_print s @ ''-'' @ E))
      = \<lparr>cr_start = int s, cr_end = int e, cr_total = (case tot of None \<Rightarrow> -1 | Some t \<Rightarrow> int t), cr_present = True\<rparr>"
    unfolding brix_http_parse_content_range_def Let_def option.case skip sp split p3
    using assms(1) by (simp add: cr_only_trailing_ws_def)
  then show ?thesis unfolding E_def T_def .
qed

text \<open>
  The size check of a multi-range reply is exact and cannot overflow: for well-formed ranges it
  returns their total length when that fits an \<open>off_t\<close> and the cap (0 is no cap), and an
  error otherwise.
\<close>
theorem range_total_exact:
  assumes "\<forall>r \<in> set ranges. 0 \<le> br_start r \<and> br_start r \<le> br_end r \<and> br_end r < OFF_MAX"
  shows "brix_range_vector_validate_total ranges cap =
    (let t = sum_list (map (\<lambda>r. br_end r - br_start r + 1) ranges)
     in if t \<le> OFF_MAX \<and> (cap > 0 \<longrightarrow> t \<le> cap) then Some t else None)"
  using validate_total_loop_sum [OF _ _ assms, of 0] by (auto simp: brix_range_vector_validate_total_def Let_def)

text \<open>
  A coalesced run is a maximal stretch of adjacent ranges of one file: from a valid start and a
  positive cap the run has at least one entry, stays in the list and under the cap, joins only
  adjacent neighbours, and stops only at the cap, the end or a gap.
\<close>
theorem range_run_maximal:
  assumes "i < length ranges" "0 < max_iov" "c = brix_range_vector_next_coalesced_run ranges i max_iov"
  shows "1 \<le> c \<and> c \<le> max_iov \<and> i + c \<le> length ranges \<and> (\<forall>j. i < j \<longrightarrow> j < i + c \<longrightarrow> ranges_adjacent ranges j)
     \<and> (c = max_iov \<or> i + c = length ranges \<or> \<not> ranges_adjacent ranges (i + c))"
proof -
  have h: "1 \<le> max_iov" "i + 1 \<le> length ranges" "c = coalesce_loop ranges max_iov (i + 1) 1"
    using assms by (simp_all add: brix_range_vector_next_coalesced_run_def)
  note r = coalesce_loop_run [OF h]
  have e: "i + 1 + (c - 1) = i + c" using r by linarith
  show ?thesis using r unfolding e by (simp add: Suc_le_eq)
qed

section \<open>Witnesses\<close>

definition ngx_reference :: ngx_string_lib where
  "ngx_reference = \<lparr>ngx_atoof = (\<lambda>s. if s \<noteq> [] \<and> all_digits s \<and> dec_val 0 s \<le> OFF_MAX then dec_val 0 s else -1),
     ngx_strlchr = (\<lambda>s c. if c \<in> set s then Some (length (takeWhile (\<lambda>d. d \<noteq> c) s)) else None)\<rparr>"

lemma ngx_reference_documented: "ngx_string_documented ngx_reference"
  unfolding ngx_string_documented_def ngx_reference_def by simp

theorem range_vector_within_file_witness:
  "\<exists>ranges. brix_http_parse_range_vector ngx_reference ''2-5'' 10 single_range_opts = Inr ranges
     \<and> length ranges \<le> 1 \<and> (\<forall>r \<in> set ranges. br_end r < 10)"
proof -
  have "all_digits ''2''" "all_digits ''5''" by (simp_all add: all_digits_def)
  from range_vector_single [OF ngx_reference_documented this, of 10]
    parse_one_digits [OF ngx_reference_documented this _ _ _ _ refl refl, of 10]
  obtain ranges where "brix_http_parse_range_vector ngx_reference ''2-5'' 10 single_range_opts = Inr ranges"
    by (simp add: digit_val_def)
  with range_vector_within_file [OF this] show ?thesis by (auto simp: single_range_opts_def)
qed

theorem range_single_exact_witness:
  "brix_http_parse_range ngx_reference (Some ''bytes=2-5'') 4
     = \<lparr>hr_start = 2, hr_end = 3, hr_present = True, hr_satisfiable = True\<rparr>"
  using range_single_exact [OF ngx_reference_documented, of "''2''" "''5''" 4] by (simp add: all_digits_def digit_val_def)

theorem content_range_roundtrip_witness:
  "cr_present (brix_http_parse_content_range (Some (''bytes '' @ dec_print 3 @ ''-'' @ dec_print 7 @ ''/'' @ ''*'')))"
  using content_range_roundtrip [of 3 7 None] by simp

theorem range_total_exact_witness:
  "brix_range_vector_validate_total [\<lparr>br_start = 0, br_end = 9, br_fd = 1, br_handle = 0\<rparr>] 0 = Some 10"
  using range_total_exact [of "[\<lparr>br_start = 0, br_end = 9, br_fd = 1, br_handle = 0\<rparr>]" 0] by simp

theorem range_run_maximal_witness:
  "1 \<le> brix_range_vector_next_coalesced_run [\<lparr>br_start = 0, br_end = 9, br_fd = 1, br_handle = 0\<rparr>] 0 4"
  using range_run_maximal [of 0 "[\<lparr>br_start = 0, br_end = 9, br_fd = 1, br_handle = 0\<rparr>]" 4, OF _ _ refl] by simp

end
