(* ===== verification/Acc_Engine.thy ===== *)
theory Acc_Engine
  imports Path_Words
begin

text \<open>
  The XrdAcc authorization engine of \<^verbatim>\<open>src/auth/authz/acc\<close>: the privilege algebra (\<open>privs.c\<close>), capability
  matching (\<open>capability.c\<close>), table lookups (\<open>tables.c\<close>) and the decision (\<open>access.c\<close>).  C strings are
  NUL-free \<open>string\<close>s, so \<open>strncmp\<close> compares prefixes of at most the given length.  A pointer that the code
  compares as a pointer (the organisation and role of a tuple) carries its address.  The group
  resolvers are function pointers installed at start-up: parameters, \<open>None\<close> when absent.
\<close>

unbundle bit_operations_syntax

section \<open>Privileges (\<open>privs.c\<close>)\<close>

abbreviation (input) PRIV_NONE :: u16 where "PRIV_NONE \<equiv> 0x000"
abbreviation (input) PRIV_DELETE :: u16 where "PRIV_DELETE \<equiv> 0x001"
abbreviation (input) PRIV_INSERT :: u16 where "PRIV_INSERT \<equiv> 0x002"
abbreviation (input) PRIV_LOCK :: u16 where "PRIV_LOCK \<equiv> 0x004"
abbreviation (input) PRIV_LOOKUP :: u16 where "PRIV_LOOKUP \<equiv> 0x008"
abbreviation (input) PRIV_RENAME :: u16 where "PRIV_RENAME \<equiv> 0x010"
abbreviation (input) PRIV_READ :: u16 where "PRIV_READ \<equiv> 0x020"
abbreviation (input) PRIV_WRITE :: u16 where "PRIV_WRITE \<equiv> 0x040"
abbreviation (input) PRIV_POLL :: u16 where "PRIV_POLL \<equiv> 0x100"
abbreviation (input) PRIV_ALL :: u16 where "PRIV_ALL \<equiv> 0x1ff"
abbreviation (input) PRIV_UPDATE :: u16 where "PRIV_UPDATE \<equiv> PRIV_READ OR PRIV_WRITE"
abbreviation (input) PRIV_CREATE :: u16 where "PRIV_CREATE \<equiv> PRIV_INSERT OR PRIV_UPDATE"
abbreviation (input) PRIV_CHMOD :: u16 where "PRIV_CHMOD \<equiv> PRIV_INSERT OR PRIV_UPDATE OR PRIV_DELETE"
abbreviation (input) PRIV_STAGE :: u16 where "PRIV_STAGE \<equiv> PRIV_POLL OR 0x080"

record brix_acc_priv_caps_t =
  pprivs :: u16
  nprivs :: u16

text \<open>\<open>AOP_OTHER\<close> is any value outside the enumeration.\<close>

datatype brix_acc_op_t = AOP_ANY | AOP_CHMOD | AOP_CHOWN | AOP_CREATE | AOP_DELETE | AOP_INSERT | AOP_LOCK | AOP_MKDIR
  | AOP_READ | AOP_READDIR | AOP_RENAME | AOP_STAT | AOP_UPDATE | AOP_EXCL_CREATE | AOP_EXCL_INSERT | AOP_STAGE | AOP_POLL
  | AOP_OTHER

fun brix_acc_op_needs :: "brix_acc_op_t \<Rightarrow> u16" where
  "brix_acc_op_needs AOP_ANY = PRIV_NONE"
| "brix_acc_op_needs AOP_CHMOD = PRIV_CHMOD"
| "brix_acc_op_needs AOP_CHOWN = PRIV_CHMOD"
| "brix_acc_op_needs AOP_CREATE = PRIV_CREATE"
| "brix_acc_op_needs AOP_DELETE = PRIV_DELETE"
| "brix_acc_op_needs AOP_INSERT = PRIV_INSERT"
| "brix_acc_op_needs AOP_LOCK = PRIV_LOCK"
| "brix_acc_op_needs AOP_MKDIR = PRIV_INSERT"
| "brix_acc_op_needs AOP_READ = PRIV_READ"
| "brix_acc_op_needs AOP_READDIR = PRIV_READ"
| "brix_acc_op_needs AOP_RENAME = PRIV_RENAME"
| "brix_acc_op_needs AOP_STAT = PRIV_LOOKUP"
| "brix_acc_op_needs AOP_UPDATE = PRIV_UPDATE"
| "brix_acc_op_needs AOP_EXCL_CREATE = 0xffff"
| "brix_acc_op_needs AOP_EXCL_INSERT = 0xffff"
| "brix_acc_op_needs AOP_STAGE = PRIV_STAGE"
| "brix_acc_op_needs AOP_POLL = PRIV_POLL"
| "brix_acc_op_needs AOP_OTHER = 0xffff"

definition brix_acc_test :: "u16 \<Rightarrow> brix_acc_op_t \<Rightarrow> bool" where
  "brix_acc_test priv op = (let need = brix_acc_op_needs op in need AND priv = need)"

definition acc_letter :: "char \<Rightarrow> u16 option" where
  "acc_letter c =
     (if c = CHR ''a'' then Some PRIV_ALL else if c = CHR ''d'' then Some PRIV_DELETE
      else if c = CHR ''i'' then Some PRIV_INSERT else if c = CHR ''k'' then Some PRIV_LOCK
      else if c = CHR ''l'' then Some PRIV_LOOKUP else if c = CHR ''n'' then Some PRIV_RENAME
      else if c = CHR ''r'' then Some PRIV_READ else if c = CHR ''w'' then Some PRIV_WRITE else None)"

text \<open>\<open>neg\<close> is slot 1 of the two-entry table.\<close>

fun acc_parse_loop :: "string \<Rightarrow> bool \<Rightarrow> brix_acc_priv_caps_t \<Rightarrow> brix_acc_priv_caps_t option" where
  "acc_parse_loop [] neg caps = Some caps"
| "acc_parse_loop (c # s) neg caps =
     (case acc_letter c of
        Some b \<Rightarrow> acc_parse_loop s neg (if neg then caps\<lparr>nprivs := nprivs caps OR b\<rparr> else caps\<lparr>pprivs := pprivs caps OR b\<rparr>)
      | None \<Rightarrow> if c = CHR ''-'' then (if neg then None else acc_parse_loop s True caps) else None)"

definition brix_acc_parse_privs :: "string \<Rightarrow> brix_acc_priv_caps_t option" where
  "brix_acc_parse_privs s = acc_parse_loop s False \<lparr>pprivs = PRIV_NONE, nprivs = PRIV_NONE\<rparr>"

section \<open>Capabilities (\<open>capability.c\<close>) and tables (\<open>tables.c\<close>)\<close>

text \<open>A node is a template indirection or a path with its substitution point; \<open>plen\<close> is \<open>strlen(path)\<close>.\<close>

datatype brix_acc_cap_t =
    AccTemplate "brix_acc_cap_t list"
  | AccPath (cap_path: string) (cap_pins: nat) (cap_prem: nat) (cap_caps: brix_acc_priv_caps_t)

abbreviation strncmp_eq :: "string \<Rightarrow> string \<Rightarrow> nat \<Rightarrow> bool" where
  "strncmp_eq a b n \<equiv> take n a = take n b"

definition brix_acc_cap_subcomp :: "string \<Rightarrow> nat \<Rightarrow> nat \<Rightarrow> string \<Rightarrow> string \<Rightarrow> bool" where
  "brix_acc_cap_subcomp cpath pins prem path pathsub =
     (if \<not> strncmp_eq path cpath pins then False
      else if \<not> strncmp_eq (drop pins path) pathsub (length pathsub) then False
      else let ncmp = pins + length pathsub
           in if int (length path) - int ncmp < int prem then False
              else if prem \<noteq> 0 then strncmp_eq (drop (pins + 2) cpath) (drop ncmp path) prem
              else True)"

fun brix_acc_cap_privs ::
  "brix_acc_cap_t list \<Rightarrow> brix_acc_priv_caps_t \<Rightarrow> string \<Rightarrow> string option \<Rightarrow> bool \<times> brix_acc_priv_caps_t" where
  "brix_acc_cap_privs [] out path pathsub = (False, out)"
| "brix_acc_cap_privs (AccTemplate tmpl # rest) out path pathsub =
     (let (hit, out) = brix_acc_cap_privs tmpl out path pathsub
      in if hit then (True, out) else brix_acc_cap_privs rest out path pathsub)"
| "brix_acc_cap_privs (AccPath cpath pins prem caps # rest) out path pathsub =
     (if length path < length cpath then brix_acc_cap_privs rest out path pathsub
      else if (case pathsub of None \<Rightarrow> strncmp_eq path cpath (length cpath)
               | Some sub \<Rightarrow> brix_acc_cap_subcomp cpath pins prem path sub)
      then (True, out\<lparr>pprivs := pprivs out OR pprivs caps, nprivs := nprivs out OR nprivs caps\<rparr>)
      else brix_acc_cap_privs rest out path pathsub)"

type_synonym brix_acc_named_t = "(string \<times> brix_acc_cap_t list) list"

definition brix_acc_named_find :: "brix_acc_named_t \<Rightarrow> string option \<Rightarrow> brix_acc_cap_t list option" where
  "brix_acc_named_find l name = (case name of None \<Rightarrow> None | Some n \<Rightarrow> map_option snd (find (\<lambda>(m, _). m = n) l))"

definition brix_acc_domain_find :: "brix_acc_named_t \<Rightarrow> string option \<Rightarrow> brix_acc_cap_t list option" where
  "brix_acc_domain_find l host = (case host of None \<Rightarrow> None
     | Some h \<Rightarrow> map_option snd (find (\<lambda>(m, _). length m \<le> length h \<and> m = drop (length h - length m) h) l))"

record brix_acc_idrule_t =
  ir_user :: "string option"
  ir_host :: "string option"
  ir_org :: "string option"
  ir_role :: "string option"
  ir_grp :: "string option"
  ir_caps :: "brix_acc_cap_t list"

record brix_acc_tables_t =
  g_list :: brix_acc_named_t
  h_list :: brix_acc_named_t
  n_list :: brix_acc_named_t
  o_list :: brix_acc_named_t
  r_list :: brix_acc_named_t
  u_list :: brix_acc_named_t
  d_list :: brix_acc_named_t
  z_list :: "brix_acc_cap_t list"
  x_list :: "brix_acc_cap_t list"
  sx_list :: "brix_acc_idrule_t list"
  sy_list :: "brix_acc_idrule_t list"

section \<open>The decision (\<open>access.c\<close>)\<close>

text \<open>A string at an address; \<open>None\<close> is the NULL pointer.\<close>

type_synonym acc_ptr = "(nat \<times> string) option"

record brix_acc_attr_t =
  at_vorg :: acc_ptr
  at_role :: acc_ptr
  at_grup :: "string option"

record brix_acc_entity_t =
  en_name :: "string option"
  en_host :: "string option"
  en_isuser :: bool
  en_tuples :: "brix_acc_attr_t list"

record acc_resolvers =
  unixgrp :: "(string option \<Rightarrow> string list option) option"
  netgrp :: "(string \<Rightarrow> string option \<Rightarrow> string option \<Rightarrow> bool) option"

text \<open>A path without a leading slash needs a buffer: \<open>pool_ok\<close> says whether one could be had.\<close>

fun collapse_slashes :: "string \<Rightarrow> string" where
  "collapse_slashes (a # b # s) = (if b = slash then collapse_slashes (b # s) else a # b # s)"
| "collapse_slashes s = s"

definition brix_acc_canon_path :: "bool \<Rightarrow> string option \<Rightarrow> string option" where
  "brix_acc_canon_path pool_ok path = (case path of None \<Rightarrow> Some ''/''
     | Some p \<Rightarrow> if p = [] then Some ''/''
         else if p ! 0 = slash then Some (collapse_slashes p)
         else if \<not> pool_ok then None
         else Some (slash # p))"

definition acc_sel_org :: "brix_acc_idrule_t \<Rightarrow> brix_acc_attr_t \<Rightarrow> bool" where
  "acc_sel_org r a \<longleftrightarrow> ir_org r = None \<or> (at_vorg a \<noteq> None \<and> ir_org r = map_option snd (at_vorg a))"

definition acc_sel_role :: "brix_acc_idrule_t \<Rightarrow> brix_acc_attr_t \<Rightarrow> bool" where
  "acc_sel_role r a \<longleftrightarrow> ir_role r = None \<or> (at_role a \<noteq> None \<and> ir_role r = map_option snd (at_role a))"

definition acc_sel_group :: "brix_acc_idrule_t \<Rightarrow> brix_acc_attr_t \<Rightarrow> bool" where
  "acc_sel_group r a \<longleftrightarrow> ir_grp r = None \<or> (at_grup a \<noteq> None \<and> ir_grp r = at_grup a)"

definition acc_sel_user :: "brix_acc_idrule_t \<Rightarrow> string option \<Rightarrow> bool" where
  "acc_sel_user r name \<longleftrightarrow> ir_user r = None \<or> (name \<noteq> None \<and> ir_user r = name)"

definition acc_sel_host :: "brix_acc_idrule_t \<Rightarrow> string option \<Rightarrow> bool" where
  "acc_sel_host r host = (case ir_host r of None \<Rightarrow> True
     | Some rh \<Rightarrow>
         if rh \<noteq> [] \<and> rh ! 0 = CHR ''.'' then
           (let elen = (case host of None \<Rightarrow> 0 | Some h \<Rightarrow> length h)
            in if elen \<le> length rh then False
               else (case host of None \<Rightarrow> False | Some h \<Rightarrow> rh = drop (elen - length rh) h))
         else (case host of None \<Rightarrow> False | Some h \<Rightarrow> rh = h))"

definition acc_applies :: "brix_acc_idrule_t \<Rightarrow> brix_acc_attr_t \<Rightarrow> string option \<Rightarrow> string option \<Rightarrow> bool" where
  "acc_applies r a name host \<longleftrightarrow>
     acc_sel_org r a \<and> acc_sel_role r a \<and> acc_sel_group r a \<and> acc_sel_user r name \<and> acc_sel_host r host"

definition acc_access2 :: "brix_acc_priv_caps_t \<Rightarrow> brix_acc_op_t \<Rightarrow> u16" where
  "acc_access2 caps op = (let eff = pprivs caps AND (NOT (nprivs caps))
     in if op = AOP_ANY then eff else if brix_acc_test eff op then eff else PRIV_NONE)"

record acc_eval_t =
  ev_tabs :: brix_acc_tables_t
  ev_ent :: brix_acc_entity_t
  ev_path :: string

abbreviation acc_add :: "brix_acc_cap_t list \<Rightarrow> acc_eval_t \<Rightarrow> brix_acc_priv_caps_t \<Rightarrow> brix_acc_priv_caps_t" where
  "acc_add cl e caps \<equiv> snd (brix_acc_cap_privs cl caps (ev_path e) None)"

definition acc_add_opt :: "brix_acc_cap_t list option \<Rightarrow> acc_eval_t \<Rightarrow> brix_acc_priv_caps_t \<Rightarrow> brix_acc_priv_caps_t" where
  "acc_add_opt cp e caps = (case cp of None \<Rightarrow> caps | Some cl \<Rightarrow> acc_add cl e caps)"

fun acc_exclusive_loop :: "brix_acc_idrule_t list \<Rightarrow> acc_eval_t \<Rightarrow> brix_acc_priv_caps_t \<Rightarrow> brix_acc_priv_caps_t option" where
  "acc_exclusive_loop [] e caps = None"
| "acc_exclusive_loop (r # rs) e caps =
     (if \<exists>a \<in> set (en_tuples (ev_ent e)). acc_applies r a (en_name (ev_ent e)) (en_host (ev_ent e))
      then Some (acc_add (ir_caps r) e caps) else acc_exclusive_loop rs e caps)"

definition acc_match_exclusive :: "acc_eval_t \<Rightarrow> brix_acc_priv_caps_t \<Rightarrow> brix_acc_priv_caps_t option" where
  "acc_match_exclusive e caps = acc_exclusive_loop (sx_list (ev_tabs e)) e caps"

definition acc_grant_host :: "acc_resolvers \<Rightarrow> acc_eval_t \<Rightarrow> brix_acc_priv_caps_t \<Rightarrow> brix_acc_priv_caps_t" where
  "acc_grant_host R e caps =
     (let t = ev_tabs e; ent = ev_ent e;
          caps = (if z_list t \<noteq> [] then acc_add (z_list t) e caps else caps);
          caps = acc_add_opt (brix_acc_domain_find (d_list t) (en_host ent)) e caps;
          caps = acc_add_opt (brix_acc_named_find (h_list t) (en_host ent)) e caps
      in case netgrp R of None \<Rightarrow> caps
         | Some member \<Rightarrow>
             if n_list t \<noteq> [] \<and> (case en_host ent of None \<Rightarrow> False | Some h \<Rightarrow> h = [] \<or> h ! 0 \<noteq> CHR ''?'')
             then foldl (\<lambda>caps (nm, cl). if member nm (en_name ent) (en_host ent) then acc_add cl e caps else caps) caps (n_list t)
             else caps)"

definition acc_grant_user :: "acc_resolvers \<Rightarrow> acc_eval_t \<Rightarrow> brix_acc_priv_caps_t \<Rightarrow> brix_acc_priv_caps_t" where
  "acc_grant_user R e caps =
     (let t = ev_tabs e; ent = ev_ent e
      in if \<not> en_isuser ent then caps
         else let caps = (case unixgrp R of None \<Rightarrow> caps
                  | Some resolve \<Rightarrow>
                      if g_list t = [] then caps
                      else case resolve (en_name ent) of None \<Rightarrow> caps
                           | Some gs \<Rightarrow> foldl (\<lambda>caps g. acc_add_opt (brix_acc_named_find (g_list t) (Some g)) e caps) caps gs);
                  caps = (if x_list t \<noteq> [] then snd (brix_acc_cap_privs (x_list t) caps (ev_path e) (en_name ent)) else caps)
              in acc_add_opt (brix_acc_named_find (u_list t) (en_name ent)) e caps)"

definition ptr_differs :: "acc_ptr \<Rightarrow> acc_ptr \<Rightarrow> bool" where
  "ptr_differs p q \<longleftrightarrow> map_option fst p \<noteq> map_option fst q"

fun acc_tuple_loop ::
  "brix_acc_attr_t list \<Rightarrow> acc_ptr \<Rightarrow> acc_ptr \<Rightarrow> acc_eval_t \<Rightarrow> brix_acc_priv_caps_t \<Rightarrow> brix_acc_priv_caps_t" where
  "acc_tuple_loop [] vorg_prev role_prev e caps = caps"
| "acc_tuple_loop (a # as) vorg_prev role_prev e caps =
     (let t = ev_tabs e; ent = ev_ent e;
          caps = (if at_grup a \<noteq> None then acc_add_opt (brix_acc_named_find (g_list t) (at_grup a)) e caps else caps);
          (vorg_prev, caps) = (if at_vorg a \<noteq> None \<and> ptr_differs (at_vorg a) vorg_prev
             then (at_vorg a, acc_add_opt (brix_acc_named_find (o_list t) (map_option snd (at_vorg a))) e caps)
             else (vorg_prev, caps));
          (role_prev, caps) = (if at_role a \<noteq> None \<and> ptr_differs (at_role a) role_prev
             then (at_role a, acc_add_opt (brix_acc_named_find (r_list t) (map_option snd (at_role a))) e caps)
             else (role_prev, caps));
          caps = foldl (\<lambda>caps r. if acc_applies r a (en_name ent) (en_host ent) then acc_add (ir_caps r) e caps else caps)
                   caps (sy_list t)
      in acc_tuple_loop as vorg_prev role_prev e caps)"

definition acc_grant_tuples :: "acc_eval_t \<Rightarrow> brix_acc_priv_caps_t \<Rightarrow> brix_acc_priv_caps_t" where
  "acc_grant_tuples e caps = acc_tuple_loop (en_tuples (ev_ent e)) None None e caps"

definition brix_acc_access ::
  "acc_resolvers \<Rightarrow> brix_acc_tables_t option \<Rightarrow> brix_acc_entity_t option \<Rightarrow> string \<Rightarrow> brix_acc_op_t \<Rightarrow> u16" where
  "brix_acc_access R tabs ent path op = (case (tabs, ent) of
     (Some t, Some en) \<Rightarrow>
       let caps = \<lparr>pprivs = PRIV_NONE, nprivs = PRIV_NONE\<rparr>;
           e = \<lparr>ev_tabs = t, ev_ent = en, ev_path = path\<rparr>
       in (case acc_match_exclusive e caps of
             Some caps \<Rightarrow> acc_access2 caps op
           | None \<Rightarrow> acc_access2 (acc_grant_tuples e (acc_grant_user R e (acc_grant_host R e caps))) op)
   | _ \<Rightarrow> PRIV_NONE)"

section \<open>What the engine computes\<close>

text \<open>
  The specification: the first matching capability of a list, the lists that apply to an entity, the
  set of capabilities matched, and per privilege bit whether it is granted.
\<close>

fun acc_first :: "brix_acc_cap_t list \<Rightarrow> string \<Rightarrow> string option \<Rightarrow> brix_acc_priv_caps_t option" where
  "acc_first [] path sub = None"
| "acc_first (AccTemplate tmpl # rest) path sub =
     (case acc_first tmpl path sub of Some c \<Rightarrow> Some c | None \<Rightarrow> acc_first rest path sub)"
| "acc_first (AccPath cpath pins prem caps # rest) path sub =
     (if length cpath \<le> length path \<and> (case sub of None \<Rightarrow> strncmp_eq path cpath (length cpath)
           | Some v \<Rightarrow> brix_acc_cap_subcomp cpath pins prem path v)
      then Some caps else acc_first rest path sub)"

definition acc_hits :: "string \<Rightarrow> brix_acc_cap_t list option \<Rightarrow> string option \<Rightarrow> brix_acc_priv_caps_t set" where
  "acc_hits path cp sub = (case cp of None \<Rightarrow> {} | Some cl \<Rightarrow> set_option (acc_first cl path sub))"

definition acc_host_hits :: "acc_resolvers \<Rightarrow> acc_eval_t \<Rightarrow> brix_acc_priv_caps_t set" where
  "acc_host_hits R e = (let t = ev_tabs e; ent = ev_ent e; p = ev_path e in
     acc_hits p (Some (z_list t)) None \<union> acc_hits p (brix_acc_domain_find (d_list t) (en_host ent)) None
     \<union> acc_hits p (brix_acc_named_find (h_list t) (en_host ent)) None
     \<union> \<Union> {acc_hits p (Some cl) None |nm cl member. netgrp R = Some member \<and> (nm, cl) \<in> set (n_list t)
          \<and> (case en_host ent of None \<Rightarrow> False | Some h \<Rightarrow> h = [] \<or> h ! 0 \<noteq> CHR ''?'') \<and> member nm (en_name ent) (en_host ent)})"

definition acc_user_hits :: "acc_resolvers \<Rightarrow> acc_eval_t \<Rightarrow> brix_acc_priv_caps_t set" where
  "acc_user_hits R e = (let t = ev_tabs e; ent = ev_ent e; p = ev_path e in
     if \<not> en_isuser ent then {}
     else \<Union> {acc_hits p (brix_acc_named_find (g_list t) (Some g)) None |g gs resolve.
             unixgrp R = Some resolve \<and> resolve (en_name ent) = Some gs \<and> g \<in> set gs}
          \<union> acc_hits p (Some (x_list t)) (en_name ent) \<union> acc_hits p (brix_acc_named_find (u_list t) (en_name ent)) None)"

definition acc_tuple_hits :: "acc_eval_t \<Rightarrow> brix_acc_attr_t \<Rightarrow> brix_acc_priv_caps_t set" where
  "acc_tuple_hits e a = (let t = ev_tabs e; ent = ev_ent e; p = ev_path e in
     acc_hits p (brix_acc_named_find (g_list t) (at_grup a)) None
     \<union> acc_hits p (brix_acc_named_find (o_list t) (map_option snd (at_vorg a))) None
     \<union> acc_hits p (brix_acc_named_find (r_list t) (map_option snd (at_role a))) None
     \<union> \<Union> {acc_hits p (Some (ir_caps r)) None |r. r \<in> set (sy_list t) \<and> acc_applies r a (en_name ent) (en_host ent)})"

definition acc_exclusive_rule :: "acc_eval_t \<Rightarrow> brix_acc_idrule_t option" where
  "acc_exclusive_rule e = find (\<lambda>r. \<exists>a \<in> set (en_tuples (ev_ent e)). acc_applies r a (en_name (ev_ent e)) (en_host (ev_ent e)))
     (sx_list (ev_tabs e))"

definition acc_matched :: "acc_resolvers \<Rightarrow> acc_eval_t \<Rightarrow> brix_acc_priv_caps_t set" where
  "acc_matched R e = (case acc_exclusive_rule e of
     Some r \<Rightarrow> acc_hits (ev_path e) (Some (ir_caps r)) None
   | None \<Rightarrow> acc_host_hits R e \<union> acc_user_hits R e \<union> \<Union> (acc_tuple_hits e ` set (en_tuples (ev_ent e))))"

definition acc_granted :: "brix_acc_priv_caps_t set \<Rightarrow> nat \<Rightarrow> bool" where
  "acc_granted H n \<longleftrightarrow> (\<exists>c \<in> H. bit (pprivs c) n) \<and> \<not> (\<exists>c \<in> H. bit (nprivs c) n)"

text \<open>Strings of the entity's tuples that share an address are the same string.\<close>

definition acc_addresses_ok :: "brix_acc_entity_t \<Rightarrow> bool" where
  "acc_addresses_ok en \<longleftrightarrow> (\<forall>a \<in> set (en_tuples en). \<forall>b \<in> set (en_tuples en).
     (\<not> ptr_differs (at_vorg a) (at_vorg b) \<longrightarrow> at_vorg a = at_vorg b) \<and> (\<not> ptr_differs (at_role a) (at_role b) \<longrightarrow> at_role a = at_role b))"

section \<open>Accumulation\<close>

text \<open>\<open>acc_is caps H\<close>: the accumulator holds the union of the capabilities in \<open>H\<close>.\<close>

definition acc_is :: "brix_acc_priv_caps_t \<Rightarrow> brix_acc_priv_caps_t set \<Rightarrow> bool" where
  "acc_is caps H \<longleftrightarrow> (\<forall>n. (bit (pprivs caps) n \<longleftrightarrow> (\<exists>c \<in> H. bit (pprivs c) n)) \<and> (bit (nprivs caps) n \<longleftrightarrow> (\<exists>c \<in> H. bit (nprivs c) n)))"

lemma acc_is_empty: "acc_is \<lparr>pprivs = 0, nprivs = 0\<rparr> {}"
  by (simp add: acc_is_def)

lemma cap_privs_first:
  "brix_acc_cap_privs cl out path sub = (case acc_first cl path sub of None \<Rightarrow> (False, out)
     | Some c \<Rightarrow> (True, out\<lparr>pprivs := pprivs out OR pprivs c, nprivs := nprivs out OR nprivs c\<rparr>))"
proof (induction cl path sub arbitrary: out rule: acc_first.induct)
  case (2 tmpl rest path sub)
  then show ?case by (cases "acc_first tmpl path sub") simp_all
next
  case (3 cpath pins prem caps rest path sub)
  then show ?case by (cases "length cpath \<le> length path") (auto simp: not_le split: option.split)
qed simp

lemma acc_is_cap_privs:
  assumes "acc_is caps H"
  shows "acc_is (snd (brix_acc_cap_privs cl caps path sub)) (H \<union> acc_hits path (Some cl) sub)"
  using assms unfolding cap_privs_first acc_hits_def
  by (cases "acc_first cl path sub") (auto simp: acc_is_def bit_or_iff)

lemma acc_is_opt: "acc_is caps H \<Longrightarrow> acc_is (acc_add_opt cp e caps) (H \<union> acc_hits (ev_path e) cp None)"
  using acc_is_cap_privs [of caps H _ "ev_path e" None] by (auto simp: acc_add_opt_def acc_hits_def split: option.split)

lemma acc_is_fold:
  assumes "\<And>caps H x. acc_is caps H \<Longrightarrow> x \<in> set xs \<Longrightarrow> acc_is (f caps x) (H \<union> h x)"
  shows "acc_is caps H \<Longrightarrow> acc_is (foldl f caps xs) (H \<union> \<Union> (h ` set xs))"
  using assms
proof (induction xs arbitrary: caps H)
  case (Cons x xs)
  have "acc_is (f caps x) (H \<union> h x)" using Cons.prems by simp
  then have "acc_is (foldl f (f caps x) xs) ((H \<union> h x) \<union> \<Union> (h ` set xs))" using Cons.IH Cons.prems(2) by simp
  then show ?case by (simp add: Un_assoc)
qed simp

lemma acc_is_cong: "acc_is caps H \<Longrightarrow> H = H' \<Longrightarrow> acc_is caps H'" by simp

lemma acc_hits_Nil [simp]: "acc_hits p (Some []) sub = {}" "acc_hits p None sub = {}"
  by (simp_all add: acc_hits_def)

lemma acc_is_z: "acc_is caps H \<Longrightarrow>
    acc_is (if cl \<noteq> [] then snd (brix_acc_cap_privs cl caps p s) else caps) (H \<union> acc_hits p (Some cl) s)"
  using acc_is_cap_privs by auto

lemma acc_is_if: "acc_is caps H \<Longrightarrow> (b \<Longrightarrow> acc_is caps' (H \<union> G)) \<Longrightarrow> acc_is (if b then caps' else caps) (H \<union> (if b then G else {}))"
  by simp

lemma acc_grant_host_is: "acc_is caps H \<Longrightarrow> acc_is (acc_grant_host R e caps) (H \<union> acc_host_hits R e)"
proof -
  assume a: "acc_is caps H"
  let ?t = "ev_tabs e" and ?n = "ev_ent e" and ?p = "ev_path e"
  define c3 where "c3 = acc_add_opt (brix_acc_named_find (h_list ?t) (en_host ?n)) e
      (acc_add_opt (brix_acc_domain_find (d_list ?t) (en_host ?n)) e (if z_list ?t \<noteq> [] then acc_add (z_list ?t) e caps else caps))"
  let ?H3 = "((H \<union> acc_hits ?p (Some (z_list ?t)) None) \<union> acc_hits ?p (brix_acc_domain_find (d_list ?t) (en_host ?n)) None)
      \<union> acc_hits ?p (brix_acc_named_find (h_list ?t) (en_host ?n)) None"
  have 3: "acc_is c3 ?H3" unfolding c3_def by (intro acc_is_opt acc_is_z a)
  let ?ok = "case en_host ?n of None \<Rightarrow> False | Some h \<Rightarrow> h = [] \<or> h ! 0 \<noteq> CHR ''?''"
  show ?thesis
  proof (cases "netgrp R")
    case None
    then show ?thesis using 3 unfolding acc_grant_host_def acc_host_hits_def Let_def c3_def by (simp add: Un_assoc)
  next
    case (Some member)
    let ?h = "\<lambda>(nm, cl). if member nm (en_name ?n) (en_host ?n) then acc_hits ?p (Some cl) None else {}"
    let ?net = "\<Union> {acc_hits ?p (Some cl) None |nm cl member. netgrp R = Some member \<and> (nm, cl) \<in> set (n_list ?t)
          \<and> ?ok \<and> member nm (en_name ?n) (en_host ?n)}"
    have hh: "acc_host_hits R e = (acc_hits ?p (Some (z_list ?t)) None \<union> acc_hits ?p (brix_acc_domain_find (d_list ?t) (en_host ?n)) None
       \<union> acc_hits ?p (brix_acc_named_find (h_list ?t) (en_host ?n)) None) \<union> ?net"
      unfolding acc_host_hits_def Let_def ..
    show ?thesis
    proof (cases "n_list ?t \<noteq> [] \<and> ?ok")
      case True
      have "acc_is (foldl (\<lambda>caps (nm, cl). if member nm (en_name ?n) (en_host ?n) then acc_add cl e caps else caps) c3 (n_list ?t))
          (?H3 \<union> \<Union> (?h ` set (n_list ?t)))"
        by (rule acc_is_fold [OF _ 3]) (auto intro: acc_is_cap_privs)
      moreover have "\<Union> (?h ` set (n_list ?t)) = ?net" using Some True by (auto split: if_splits; blast)
      ultimately show ?thesis using Some True unfolding hh acc_grant_host_def Let_def c3_def by (simp add: Un_assoc)
    next
      case False
      then have "?net = {}" by auto
      then show ?thesis using Some False 3 unfolding hh acc_grant_host_def Let_def c3_def by (auto simp: Un_assoc)
    qed
  qed
qed

lemma acc_grant_user_is: "acc_is caps H \<Longrightarrow> acc_is (acc_grant_user R e caps) (H \<union> acc_user_hits R e)"
proof -
  assume a: "acc_is caps H"
  let ?t = "ev_tabs e" and ?n = "ev_ent e" and ?p = "ev_path e"
  let ?G = "\<Union> {acc_hits ?p (brix_acc_named_find (g_list ?t) (Some g)) None |g gs resolve.
             unixgrp R = Some resolve \<and> resolve (en_name ?n) = Some gs \<and> g \<in> set gs}"
  define c1 where "c1 = (case unixgrp R of None \<Rightarrow> caps | Some resolve \<Rightarrow> if g_list ?t = [] then caps
      else case resolve (en_name ?n) of None \<Rightarrow> caps
        | Some gs \<Rightarrow> foldl (\<lambda>caps g. acc_add_opt (brix_acc_named_find (g_list ?t) (Some g)) e caps) caps gs)"
  have 1: "acc_is c1 (H \<union> ?G)"
  proof (cases "\<exists>resolve gs. unixgrp R = Some resolve \<and> g_list ?t \<noteq> [] \<and> resolve (en_name ?n) = Some gs")
    case True
    then obtain resolve gs where r: "unixgrp R = Some resolve" "g_list ?t \<noteq> []" "resolve (en_name ?n) = Some gs" by blast
    have "acc_is (foldl (\<lambda>caps g. acc_add_opt (brix_acc_named_find (g_list ?t) (Some g)) e caps) caps gs)
        (H \<union> \<Union> ((\<lambda>g. acc_hits ?p (brix_acc_named_find (g_list ?t) (Some g)) None) ` set gs))"
      by (rule acc_is_fold [OF _ a]) (rule acc_is_opt)
    then show ?thesis using r unfolding c1_def by (auto elim!: acc_is_cong)
  next
    case False
    have c: "c1 = caps" using False unfolding c1_def by (auto split: option.split)
    have g: "?G = {}"
    proof -
      have "brix_acc_named_find [] x = None" for x by (simp add: brix_acc_named_find_def split: option.split)
      then show ?thesis using False by (cases "g_list ?t = []") auto
    qed
    show ?thesis unfolding c g using a by simp
  qed
  show ?thesis
  proof (cases "en_isuser ?n")
    case True
    have "acc_is (acc_add_opt (brix_acc_named_find (u_list ?t) (en_name ?n)) e
        (if x_list ?t \<noteq> [] then snd (brix_acc_cap_privs (x_list ?t) c1 ?p (en_name ?n)) else c1))
        (((H \<union> ?G) \<union> acc_hits ?p (Some (x_list ?t)) (en_name ?n)) \<union> acc_hits ?p (brix_acc_named_find (u_list ?t) (en_name ?n)) None)"
      by (intro acc_is_opt acc_is_z 1)
    then show ?thesis using True unfolding acc_grant_user_def acc_user_hits_def Let_def c1_def by (simp add: Un_assoc)
  next
    case False
    then show ?thesis using a by (simp add: acc_grant_user_def acc_user_hits_def Let_def)
  qed
qed

definition acc_seen :: "acc_eval_t \<Rightarrow> brix_acc_named_t \<Rightarrow> acc_ptr \<Rightarrow> brix_acc_priv_caps_t set \<Rightarrow> bool" where
  "acc_seen e l prev H \<longleftrightarrow> acc_hits (ev_path e) (brix_acc_named_find l (map_option snd prev)) None \<subseteq> H"

lemma named_find_None [simp]: "brix_acc_named_find l None = None"
  by (simp add: brix_acc_named_find_def)

lemma acc_seen_mono: "acc_seen e l prev H \<Longrightarrow> H \<subseteq> H' \<Longrightarrow> acc_seen e l prev H'"
  by (auto simp: acc_seen_def)

text \<open>One pointer-deduplicated lookup.\<close>

lemma acc_dedup_step:
  assumes "acc_is caps H" "acc_seen e l prev H" "\<not> ptr_differs v prev \<longrightarrow> v = prev"
    and "(prev', caps') = (if v \<noteq> None \<and> ptr_differs v prev
       then (v, acc_add_opt (brix_acc_named_find l (map_option snd v)) e caps) else (prev, caps))"
    and "H' = H \<union> acc_hits (ev_path e) (brix_acc_named_find l (map_option snd v)) None"
  shows "acc_is caps' H' \<and> acc_seen e l prev' H' \<and> (prev' = v \<or> v = None \<and> prev' = prev)"
proof (cases "v \<noteq> None \<and> ptr_differs v prev")
  case True
  then show ?thesis using assms(4,5) acc_is_opt [OF assms(1)] by (auto simp: acc_seen_def)
next
  case False
  then have c: "prev' = prev" "caps' = caps" using assms(4) by auto
  have "H' = H"
  proof (cases "v = None")
    case True
    then show ?thesis using assms(5) by simp
  next
    case False
    then have "v = prev" using assms(3) \<open>\<not> (v \<noteq> None \<and> ptr_differs v prev)\<close> by blast
    then show ?thesis using assms(2,5) by (auto simp: acc_seen_def)
  qed
  then show ?thesis using c assms(1-3) False by auto
qed

abbreviation ptr_ok :: "acc_ptr \<Rightarrow> acc_ptr \<Rightarrow> bool" where
  "ptr_ok v w \<equiv> \<not> ptr_differs v w \<longrightarrow> v = w"

lemma ptr_ok_None: "ptr_ok v None"
  by (cases v) (auto simp: ptr_differs_def)

lemma acc_tuple_loop_is:
  assumes "acc_is caps H" "acc_seen e (o_list (ev_tabs e)) vp H" "acc_seen e (r_list (ev_tabs e)) rp H"
    and "\<forall>a \<in> set as. ptr_ok (at_vorg a) vp \<and> ptr_ok (at_role a) rp"
    and "\<forall>a \<in> set as. \<forall>b \<in> set as. ptr_ok (at_vorg a) (at_vorg b) \<and> ptr_ok (at_role a) (at_role b)"
  shows "acc_is (acc_tuple_loop as vp rp e caps) (H \<union> \<Union> (acc_tuple_hits e ` set as))"
  using assms
proof (induction as arbitrary: caps H vp rp)
  case (Cons a as)
  let ?t = "ev_tabs e" and ?n = "ev_ent e" and ?p = "ev_path e"
  define c1 where "c1 = (if at_grup a \<noteq> None then acc_add_opt (brix_acc_named_find (g_list ?t) (at_grup a)) e caps else caps)"
  define H1 where "H1 = H \<union> acc_hits ?p (brix_acc_named_find (g_list ?t) (at_grup a)) None"
  have 1: "acc_is c1 H1" unfolding c1_def H1_def using acc_is_opt [OF Cons.prems(1)] Cons.prems(1) by auto
  obtain vp' c2 where c2: "(vp', c2) = (if at_vorg a \<noteq> None \<and> ptr_differs (at_vorg a) vp
      then (at_vorg a, acc_add_opt (brix_acc_named_find (o_list ?t) (map_option snd (at_vorg a))) e c1) else (vp, c1))"
    by (metis surj_pair)
  define H2 where "H2 = H1 \<union> acc_hits ?p (brix_acc_named_find (o_list ?t) (map_option snd (at_vorg a))) None"
  have s1: "acc_seen e (o_list ?t) vp H1" "acc_seen e (r_list ?t) rp H2"
    using Cons.prems(2,3) unfolding H1_def H2_def by (auto elim!: acc_seen_mono)
  have 2: "acc_is c2 H2 \<and> acc_seen e (o_list ?t) vp' H2 \<and> (vp' = at_vorg a \<or> at_vorg a = None \<and> vp' = vp)"
    by (rule acc_dedup_step [OF 1 s1(1) _ c2 H2_def]) (use Cons.prems(4) in simp)
  obtain rp' c3 where c3: "(rp', c3) = (if at_role a \<noteq> None \<and> ptr_differs (at_role a) rp
      then (at_role a, acc_add_opt (brix_acc_named_find (r_list ?t) (map_option snd (at_role a))) e c2) else (rp, c2))"
    by (metis surj_pair)
  define H3 where "H3 = H2 \<union> acc_hits ?p (brix_acc_named_find (r_list ?t) (map_option snd (at_role a))) None"
  have 3: "acc_is c3 H3 \<and> acc_seen e (r_list ?t) rp' H3 \<and> (rp' = at_role a \<or> at_role a = None \<and> rp' = rp)"
    by (rule acc_dedup_step [OF _ s1(2) _ c3 H3_def]) (use 2 Cons.prems(4) in simp_all)
  let ?f = "\<lambda>caps r. if acc_applies r a (en_name ?n) (en_host ?n) then acc_add (ir_caps r) e caps else caps"
  let ?h = "\<lambda>r. if acc_applies r a (en_name ?n) (en_host ?n) then acc_hits ?p (Some (ir_caps r)) None else {}"
  have "acc_is (foldl ?f c3 (sy_list ?t)) (H3 \<union> \<Union> (?h ` set (sy_list ?t)))"
    by (rule acc_is_fold [OF _ conjunct1 [OF 3]]) (auto intro: acc_is_cap_privs)
  moreover have hx: "H3 \<union> \<Union> (?h ` set (sy_list ?t)) = H \<union> acc_tuple_hits e a"
    unfolding H3_def H2_def H1_def acc_tuple_hits_def Let_def by (auto split: if_splits; blast)
  ultimately have 4: "acc_is (foldl ?f c3 (sy_list ?t)) (H \<union> acc_tuple_hits e a)" by simp
  have sub: "H2 \<subseteq> H \<union> acc_tuple_hits e a" "H3 \<subseteq> H \<union> acc_tuple_hits e a" using hx H3_def by auto
  have "acc_is (acc_tuple_loop as vp' rp' e (foldl ?f c3 (sy_list ?t))) ((H \<union> acc_tuple_hits e a) \<union> \<Union> (acc_tuple_hits e ` set as))"
  proof (rule Cons.IH [OF 4])
    show "acc_seen e (o_list ?t) vp' (H \<union> acc_tuple_hits e a)" using 2 sub acc_seen_mono by blast
    show "acc_seen e (r_list ?t) rp' (H \<union> acc_tuple_hits e a)" using 3 sub acc_seen_mono by blast
    show "\<forall>b \<in> set as. ptr_ok (at_vorg b) vp' \<and> ptr_ok (at_role b) rp'" using 2 3 Cons.prems(4,5) by auto
    show "\<forall>a \<in> set as. \<forall>b \<in> set as. ptr_ok (at_vorg a) (at_vorg b) \<and> ptr_ok (at_role a) (at_role b)" using Cons.prems(5) by simp
  qed
  moreover have "acc_tuple_loop (a # as) vp rp e caps = acc_tuple_loop as vp' rp' e (foldl ?f c3 (sy_list ?t))"
    unfolding acc_tuple_loop.simps Let_def c1_def [symmetric] c2 [symmetric] prod.case c3 [symmetric] ..
  ultimately show ?case by (simp add: Un_assoc)
qed simp

lemma acc_exclusive_loop_find:
  "acc_exclusive_loop rs e caps = map_option (\<lambda>r. acc_add (ir_caps r) e caps)
     (find (\<lambda>r. \<exists>a \<in> set (en_tuples (ev_ent e)). acc_applies r a (en_name (ev_ent e)) (en_host (ev_ent e))) rs)"
  by (induction rs) auto

lemma word_and_subset: "a AND b = a \<longleftrightarrow> (\<forall>m. bit a m \<longrightarrow> bit b m)" for a b :: u16
  unfolding bit_eq_iff bit_and_iff using bit_imp_possible_bit [of a] by blast

lemma acc_access2_bits:
  assumes "acc_is caps H"
  shows "bit (acc_access2 caps op) n \<longleftrightarrow> acc_granted H n \<and> (\<forall>m. bit (brix_acc_op_needs op) m \<longrightarrow> acc_granted H m)"
proof -
  let ?eff = "pprivs caps AND (NOT (nprivs caps))"
  have eff: "bit ?eff m \<longleftrightarrow> acc_granted H m" for m
    using assms bit_imp_le_length [of "pprivs caps" m] by (auto simp: acc_is_def acc_granted_def bit_and_iff bit_not_iff)
  have test: "brix_acc_test ?eff op \<longleftrightarrow> (\<forall>m. bit (brix_acc_op_needs op) m \<longrightarrow> acc_granted H m)"
    unfolding brix_acc_test_def Let_def word_and_subset eff ..
  show ?thesis
  proof (cases "op = AOP_ANY")
    case True
    then show ?thesis by (simp add: acc_access2_def Let_def eff)
  next
    case False
    then show ?thesis unfolding acc_access2_def Let_def if_not_P [OF False] test [symmetric] using eff by simp
  qed
qed

section \<open>The letter strings\<close>

definition acc_letters :: "string \<Rightarrow> u16" where
  "acc_letters s = foldl (\<lambda>w c. w OR (case acc_letter c of None \<Rightarrow> 0 | Some b \<Rightarrow> b)) 0 s"

abbreviation all_letters :: "string \<Rightarrow> bool" where
  "all_letters s \<equiv> \<forall>c \<in> set s. acc_letter c \<noteq> None"

lemma acc_letters_fold:
  "foldl (\<lambda>w c. w OR (case acc_letter c of None \<Rightarrow> 0 | Some b \<Rightarrow> b)) v s = v OR acc_letters s"
proof (induction s arbitrary: v)
  case (Cons c s)
  let ?b = "case acc_letter c of None \<Rightarrow> 0 | Some b \<Rightarrow> b"
  have "acc_letters (c # s) = ?b OR acc_letters s" using Cons [of ?b] by (simp add: acc_letters_def)
  then show ?case using Cons [of "v OR ?b"] by (simp add: or.assoc)
qed (simp add: acc_letters_def)

lemma acc_letters_Cons: "acc_letters (c # s) = (case acc_letter c of None \<Rightarrow> 0 | Some b \<Rightarrow> b) OR acc_letters s"
  using acc_letters_fold [of "case acc_letter c of None \<Rightarrow> 0 | Some b \<Rightarrow> b" s] by (simp add: acc_letters_def)

lemma acc_letter_dash [simp]: "acc_letter CHR ''-'' = None"
  by (simp add: acc_letter_def)

lemma acc_parse_neg:
  "acc_parse_loop s True caps = (if all_letters s then Some (caps\<lparr>nprivs := nprivs caps OR acc_letters s\<rparr>) else None)"
proof (induction s arbitrary: caps)
  case Nil
  then show ?case by (simp add: acc_letters_def)
next
  case (Cons c s)
  then show ?case by (cases "acc_letter c") (auto simp: acc_letters_Cons or.assoc)
qed

lemma acc_parse_pos:
  "acc_parse_loop s False caps = Some out \<longleftrightarrow>
     (\<exists>ps ns. (s = ps \<and> ns = [] \<or> s = ps @ CHR ''-'' # ns) \<and> all_letters ps \<and> all_letters ns
        \<and> out = caps\<lparr>pprivs := pprivs caps OR acc_letters ps, nprivs := nprivs caps OR acc_letters ns\<rparr>)"
  (is "_ \<longleftrightarrow> ?R s caps")
proof (induction s arbitrary: caps)
  case Nil
  then show ?case by (auto simp: acc_letters_def)
next
  case (Cons c s)
  show ?case
  proof (cases "acc_letter c")
    case None
    show ?thesis
    proof (cases "c = CHR ''-''")
      case True
      have "?R (c # s) caps \<longleftrightarrow> all_letters s \<and> out = caps\<lparr>nprivs := nprivs caps OR acc_letters s\<rparr>"
      proof
        assume "?R (c # s) caps"
        then obtain ps ns where r: "c # s = ps \<and> ns = [] \<or> c # s = ps @ CHR ''-'' # ns" "all_letters ps" "all_letters ns"
          "out = caps\<lparr>pprivs := pprivs caps OR acc_letters ps, nprivs := nprivs caps OR acc_letters ns\<rparr>" by blast
        have "ps = []" using r(1,2) None by (cases ps) auto
        then show "all_letters s \<and> out = caps\<lparr>nprivs := nprivs caps OR acc_letters s\<rparr>"
          using r True by (auto simp: acc_letters_def)
      next
        assume "all_letters s \<and> out = caps\<lparr>nprivs := nprivs caps OR acc_letters s\<rparr>"
        then show "?R (c # s) caps" using True by (intro exI [of _ "[]"] exI [of _ s]) (simp add: acc_letters_def)
      qed
      then show ?thesis using True acc_parse_neg [of s caps] by auto
    next
      case False
      have "\<not> ?R (c # s) caps"
      proof
        assume "?R (c # s) caps"
        then obtain ps ns where "c # s = ps \<and> ns = [] \<or> c # s = ps @ CHR ''-'' # ns" "all_letters ps" by blast
        then show False using None False by (cases ps) auto
      qed
      then show ?thesis using None False by simp
    qed
  next
    case (Some b)
    have nd: "c \<noteq> CHR ''-''" using Some by auto
    let ?caps = "caps\<lparr>pprivs := pprivs caps OR b\<rparr>"
    have "?R (c # s) caps \<longleftrightarrow> ?R s ?caps"
    proof
      assume "?R (c # s) caps"
      then obtain ps ns where r: "c # s = ps \<and> ns = [] \<or> c # s = ps @ CHR ''-'' # ns" "all_letters ps" "all_letters ns"
        "out = caps\<lparr>pprivs := pprivs caps OR acc_letters ps, nprivs := nprivs caps OR acc_letters ns\<rparr>" by blast
      then obtain qs where q: "ps = c # qs" using nd by (cases ps) auto
      then show "?R s ?caps" using r Some
        by (intro exI [of _ qs] exI [of _ ns]) (auto simp: acc_letters_Cons or.assoc)
    next
      assume "?R s ?caps"
      then obtain ps ns where r: "s = ps \<and> ns = [] \<or> s = ps @ CHR ''-'' # ns" "all_letters ps" "all_letters ns"
        "out = ?caps\<lparr>pprivs := pprivs ?caps OR acc_letters ps, nprivs := nprivs ?caps OR acc_letters ns\<rparr>" by blast
      then show "?R (c # s) caps" using Some
        by (intro exI [of _ "c # ps"] exI [of _ ns]) (auto simp: acc_letters_Cons or.assoc)
    qed
    then show ?thesis using Some Cons.IH [of ?caps] by simp
  qed
qed

section \<open>Properties\<close>

text \<open>
  C11. The authorization decision, exactly.  The first exclusive rule that applies to one of the
  entity's attribute tuples decides alone; otherwise the default, domain, host, netgroup, user-group,
  fungible-user, user and per-tuple group, organisation, role and inclusive-rule lists all
  count, each through its first matching capability.  A privilege bit is returned exactly when
  some matched capability grants it and none denies it, and every bit the operation needs is
  granted in that sense; denials win wherever they stand.  Skipping a repeated organisation
  or role pointer changes nothing.
\<close>
theorem acc_access_exact:
  assumes "acc_addresses_ok en"
  shows "bit (brix_acc_access R (Some t) (Some en) path op) n \<longleftrightarrow>
    (let H = acc_matched R \<lparr>ev_tabs = t, ev_ent = en, ev_path = path\<rparr>
     in acc_granted H n \<and> (\<forall>m. bit (brix_acc_op_needs op) m \<longrightarrow> acc_granted H m))"
proof -
  let ?e = "\<lparr>ev_tabs = t, ev_ent = en, ev_path = path\<rparr>" and ?c = "\<lparr>pprivs = 0, nprivs = 0\<rparr> :: brix_acc_priv_caps_t"
  show ?thesis
  proof (cases "acc_exclusive_rule ?e")
    case (Some r)
    have "acc_is (acc_add (ir_caps r) ?e ?c) ({} \<union> acc_hits path (Some (ir_caps r)) None)"
      using acc_is_cap_privs [OF acc_is_empty] by simp
    then have i: "acc_is (acc_add (ir_caps r) ?e ?c) (acc_matched R ?e)" using Some by (simp add: acc_matched_def)
    have "brix_acc_access R (Some t) (Some en) path op = acc_access2 (acc_add (ir_caps r) ?e ?c) op"
      using Some by (simp add: brix_acc_access_def acc_match_exclusive_def acc_exclusive_loop_find acc_exclusive_rule_def Let_def)
    then show ?thesis using acc_access2_bits [OF i] by (simp add: Let_def)
  next
    case None
    have "acc_is (acc_grant_user R ?e (acc_grant_host R ?e ?c)) (({} \<union> acc_host_hits R ?e) \<union> acc_user_hits R ?e)"
      by (intro acc_grant_user_is acc_grant_host_is acc_is_empty)
    from acc_tuple_loop_is [OF this, where vp = None and rp = None and as = "en_tuples en"] assms
    have i: "acc_is (acc_grant_tuples ?e (acc_grant_user R ?e (acc_grant_host R ?e ?c))) (acc_matched R ?e)"
      using None by (simp add: acc_grant_tuples_def acc_seen_def ptr_ok_None acc_addresses_ok_def acc_matched_def)
    have "brix_acc_access R (Some t) (Some en) path op
        = acc_access2 (acc_grant_tuples ?e (acc_grant_user R ?e (acc_grant_host R ?e ?c))) op"
      using None by (simp add: brix_acc_access_def acc_match_exclusive_def acc_exclusive_loop_find acc_exclusive_rule_def Let_def)
    then show ?thesis using acc_access2_bits [OF i] by (simp add: Let_def)
  qed
qed

text \<open>
  The privilege letters, exactly: a string is accepted exactly when it is privilege letters with at
  most one dash; the letters before the dash are the positive privileges, those after it the
  negative ones.
\<close>
theorem acc_parse_privs_exact:
  "brix_acc_parse_privs s = Some caps \<longleftrightarrow>
    (\<exists>ps ns. (s = ps \<and> ns = [] \<or> s = ps @ CHR ''-'' # ns)
       \<and> \<not> (\<exists>c. c \<in> set (ps @ ns) \<and> acc_letter c = None) \<and> caps = \<lparr>pprivs = acc_letters ps, nprivs = acc_letters ns\<rparr>)"
  unfolding brix_acc_parse_privs_def acc_parse_pos by (simp add: ball_Un) blast

text \<open>
  Every spelling of a path is judged as the same object: with any number of leading slashes, none
  included, the canonical form has exactly one, and an absolute path never needs memory.
\<close>
theorem acc_canon_spellings:
  assumes "p \<noteq> []" "hd p \<noteq> slash"
  shows "brix_acc_canon_path True (Some (replicate k slash @ p)) = Some (slash # p)
     \<and> brix_acc_canon_path ok (Some (replicate (Suc k) slash @ p)) = Some (slash # p)"
proof -
  have c: "collapse_slashes (slash # replicate k slash @ p) = slash # p" for k
  proof (induction k)
    case 0
    then show ?case using assms by (cases p) auto
  qed simp
  have s: "brix_acc_canon_path ok (Some (replicate (Suc k) slash @ p)) = Some (slash # p)" for ok k
    using c [of k] by (simp add: brix_acc_canon_path_def)
  have z: "brix_acc_canon_path True (Some p) = Some (slash # p)"
    using assms by (simp add: brix_acc_canon_path_def hd_conv_nth)
  show ?thesis using s [of ok k] s [of True "k - 1"] z by (cases k) auto
qed

section \<open>Witnesses\<close>

definition acc_example_tables :: brix_acc_tables_t where
  "acc_example_tables = \<lparr>g_list = [], h_list = [], n_list = [], o_list = [], r_list = [],
     u_list = [(''alice'', [AccPath ''/data'' 0 0 \<lparr>pprivs = 0x28, nprivs = 0\<rparr>])], d_list = [],
     z_list = [AccPath ''/data/private'' 0 0 \<lparr>pprivs = 0, nprivs = 0x20\<rparr>], x_list = [], sx_list = [], sy_list = []\<rparr>"

definition acc_example_entity :: brix_acc_entity_t where
  "acc_example_entity = \<lparr>en_name = Some ''alice'', en_host = Some ''h'', en_isuser = True,
     en_tuples = [\<lparr>at_vorg = None, at_role = None, at_grup = None\<rparr>]\<rparr>"

theorem acc_access_exact_witness:
  "bit (brix_acc_access \<lparr>unixgrp = None, netgrp = None\<rparr> (Some acc_example_tables) (Some acc_example_entity) ''/data/x'' AOP_READ) 5
   \<longleftrightarrow> (let H = acc_matched \<lparr>unixgrp = None, netgrp = None\<rparr>
            \<lparr>ev_tabs = acc_example_tables, ev_ent = acc_example_entity, ev_path = ''/data/x''\<rparr>
        in acc_granted H 5 \<and> (\<forall>m. bit (brix_acc_op_needs AOP_READ) m \<longrightarrow> acc_granted H m))"
  by (rule acc_access_exact) (simp add: acc_addresses_ok_def acc_example_entity_def)

theorem acc_canon_spellings_witness:
  "brix_acc_canon_path False (Some ''///phys'') = Some ''/phys''"
  using acc_canon_spellings [of "''phys''" 2 False] by (simp add: numeral_eq_Suc)

end
