(* ===== verification/Shm_Kv.thy ===== *)
theory Shm_Kv
  imports Brix_Prelude "HOL-Library.Multiset"
begin

text \<open>
  The cross-worker key/value table of \<^verbatim>\<open>src/core/shm/kv.c\<close> (layout in \<^verbatim>\<open>kv_internal.h\<close>): an open-addressed
  hash table with linear probing, a probe budget and load cap of half the capacity, expiry times, and
  Knuth's backward-shift deletion.  Every operation runs under the zone's lock, so it is a function
  from table to table; \<open>now\<close> is \<open>ngx_current_msec\<close>.

  A slot's inline key and value are the byte lists of their current lengths (\<open>key_len = 0\<close>, a free
  slot, is the empty key).  Slot numbers are \<open>nat\<close>, wrapped by \<open>AND mask\<close> as in the code.  The
  specification is the partial map \<open>kv_map\<close>; the invariant \<open>kv_wf\<close> is the probe-chain
  property.
\<close>

section \<open>The table\<close>

record kv_slot =
  kv_hash :: u64
  kv_key :: bytes
  kv_val :: bytes
  kv_expires :: u64

record brix_kv_header_t =
  kv_count :: nat
  kv_hits :: u64
  kv_misses :: u64
  kv_evictions :: u64
  kv_slots :: "kv_slot list"

record brix_kv_t =
  kv_key_max :: nat
  kv_val_max :: nat
  kv_table :: "brix_kv_header_t option"

abbreviation kv_capacity :: "brix_kv_header_t \<Rightarrow> nat" where "kv_capacity h \<equiv> length (kv_slots h)"

definition brix_kv_hash :: "bytes \<Rightarrow> u64" where
  "brix_kv_hash key = foldl (\<lambda>h b. (h XOR ucast b) * 0x100000001b3) 0xcbf29ce484222325 key"

definition brix_kv_should_shift :: "nat \<Rightarrow> nat \<Rightarrow> nat \<Rightarrow> bool" where
  "brix_kv_should_shift home hole cur =
     (if hole \<le> cur then \<not> (home > hole \<and> home \<le> cur) else \<not> (home > hole \<or> home \<le> cur))"

definition kv_clear :: "kv_slot \<Rightarrow> kv_slot" where
  "kv_clear e = e\<lparr>kv_key := []\<rparr>"

definition kv_home :: "nat \<Rightarrow> kv_slot \<Rightarrow> nat" where
  "kv_home msk e = unat (kv_hash e) AND msk"

text \<open>
  The two nested loops of the deletion, one step of the inner loop per unfolding.  The C loops have no
  bound of their own; \<open>fuel\<close> counts steps, and running out of it is \<open>None\<close>.
\<close>

fun kv_remove_loop :: "nat \<Rightarrow> nat \<Rightarrow> nat \<Rightarrow> nat \<Rightarrow> kv_slot list \<Rightarrow> kv_slot list option" where
  "kv_remove_loop 0 msk hole cur slots = None"
| "kv_remove_loop (Suc fuel) msk hole cur slots =
     (let cur = (cur + 1) AND msk; e = slots ! cur
      in if kv_key e = [] then Some slots
         else if brix_kv_should_shift (kv_home msk e) hole cur
         then kv_remove_loop fuel msk cur cur (slots[hole := e, cur := kv_clear e])
         else kv_remove_loop fuel msk hole cur slots)"

definition brix_kv_remove_at :: "nat \<Rightarrow> nat \<Rightarrow> kv_slot list \<Rightarrow> kv_slot list option" where
  "brix_kv_remove_at msk hole slots =
     kv_remove_loop (length slots) msk hole hole (slots[hole := kv_clear (slots ! hole)])"

definition brix_kv_entry_matches :: "kv_slot \<Rightarrow> u64 \<Rightarrow> bytes \<Rightarrow> bool" where
  "brix_kv_entry_matches e hash key \<longleftrightarrow> kv_hash e = hash \<and> kv_key e = key"

text \<open>\<open>out_cap\<close> is \<open>None\<close> when the caller passes no buffer.\<close>

definition brix_kv_copy_value :: "kv_slot \<Rightarrow> nat option \<Rightarrow> bytes" where
  "brix_kv_copy_value e out_cap = (case out_cap of None \<Rightarrow> []
     | Some cap \<Rightarrow> take (if length (kv_val e) > cap then cap else length (kv_val e)) (kv_val e))"

text \<open>The probe walk shared by the three operations: where it stops within its budget.\<close>

datatype kv_stop = KvMatch nat | KvFree nat | KvExhausted

fun kv_probe :: "kv_slot list \<Rightarrow> nat \<Rightarrow> u64 \<Rightarrow> bytes \<Rightarrow> nat \<Rightarrow> nat \<Rightarrow> kv_stop" where
  "kv_probe slots msk hash key idx 0 = KvExhausted"
| "kv_probe slots msk hash key idx (Suc budget) =
     (let e = slots ! idx
      in if kv_key e = [] then KvFree idx
         else if brix_kv_entry_matches e hash key then KvMatch idx
         else kv_probe slots msk hash key ((idx + 1) AND msk) budget)"

definition kv_probe_begin :: "brix_kv_header_t \<Rightarrow> bytes \<Rightarrow> kv_stop" where
  "kv_probe_begin h key =
     (let hash = brix_kv_hash key; msk = kv_capacity h - 1
      in kv_probe (kv_slots h) msk hash key (unat hash AND msk) (kv_capacity h div 2))"

definition kv_drop_slot :: "brix_kv_header_t \<Rightarrow> nat \<Rightarrow> brix_kv_header_t" where
  "kv_drop_slot h i =
     h\<lparr>kv_slots := (case brix_kv_remove_at (kv_capacity h - 1) i (kv_slots h) of Some s \<Rightarrow> s | None \<Rightarrow> kv_slots h),
       kv_count := (if kv_count h > 0 then kv_count h - 1 else kv_count h)\<rparr>"

text \<open>Returns the copied value (\<open>Some\<close> for result 1) and the handle.\<close>

definition brix_kv_get :: "u64 \<Rightarrow> brix_kv_t \<Rightarrow> bytes \<Rightarrow> nat option \<Rightarrow> bytes option \<times> brix_kv_t" where
  "brix_kv_get now kv key out_cap =
     (if key = [] \<or> length key > kv_key_max kv then (None, kv)
      else case kv_table kv of None \<Rightarrow> (None, kv)
      | Some h \<Rightarrow>
          let (result, h) =
            (case kv_probe_begin h key of
               KvMatch i \<Rightarrow>
                 if kv_expires (kv_slots h ! i) \<noteq> 0 \<and> kv_expires (kv_slots h ! i) \<le> now
                 then let h = kv_drop_slot h i in (None, h\<lparr>kv_evictions := kv_evictions h + 1\<rparr>)
                 else (Some (brix_kv_copy_value (kv_slots h ! i) out_cap), h)
             | _ \<Rightarrow> (None, h));
              h = (if result \<noteq> None then h\<lparr>kv_hits := kv_hits h + 1\<rparr> else h\<lparr>kv_misses := kv_misses h + 1\<rparr>)
          in (result, kv\<lparr>kv_table := Some h\<rparr>))"

definition brix_kv_set :: "u64 \<Rightarrow> brix_kv_t \<Rightarrow> bytes \<Rightarrow> bytes \<Rightarrow> u64 \<Rightarrow> bool \<times> brix_kv_t" where
  "brix_kv_set now kv key val ttl_ms =
     (if key = [] \<or> length key > kv_key_max kv \<or> length val > kv_val_max kv then (False, kv)
      else case kv_table kv of None \<Rightarrow> (False, kv)
      | Some h \<Rightarrow>
          let expires = (if ttl_ms \<noteq> 0 then now + ttl_ms else 0)
          in case kv_probe_begin h key of
               KvFree i \<Rightarrow>
                 if kv_count h \<ge> kv_capacity h div 2 then (False, kv)
                 else let e = \<lparr>kv_hash = brix_kv_hash key, kv_key = key, kv_val = val, kv_expires = expires\<rparr>
                      in (True, kv\<lparr>kv_table := Some (h\<lparr>kv_slots := (kv_slots h)[i := e], kv_count := kv_count h + 1\<rparr>)\<rparr>)
             | KvMatch i \<Rightarrow>
                 let e = (kv_slots h ! i)\<lparr>kv_val := val, kv_expires := expires\<rparr>
                 in (True, kv\<lparr>kv_table := Some (h\<lparr>kv_slots := (kv_slots h)[i := e]\<rparr>)\<rparr>)
             | KvExhausted \<Rightarrow> (False, kv))"

definition brix_kv_delete :: "brix_kv_t \<Rightarrow> bytes \<Rightarrow> brix_kv_t" where
  "brix_kv_delete kv key =
     (if key = [] \<or> length key > kv_key_max kv then kv
      else case kv_table kv of None \<Rightarrow> kv
      | Some h \<Rightarrow> (case kv_probe_begin h key of
            KvMatch i \<Rightarrow> kv\<lparr>kv_table := Some (kv_drop_slot h i)\<rparr>
          | _ \<Rightarrow> kv))"

definition brix_kv_stats :: "brix_kv_t \<Rightarrow> u64 \<times> u64 \<times> u64 \<times> nat \<times> nat" where
  "brix_kv_stats kv = (case kv_table kv of None \<Rightarrow> (0, 0, 0, 0, 0)
     | Some h \<Rightarrow> (kv_hits h, kv_misses h, kv_evictions h, kv_count h, kv_capacity h))"

section \<open>Abstraction and invariant\<close>

definition kv_live :: "kv_slot list \<Rightarrow> kv_slot list" where
  "kv_live slots = filter (\<lambda>e. kv_key e \<noteq> []) slots"

definition kv_map :: "kv_slot list \<Rightarrow> bytes \<Rightarrow> (bytes \<times> u64) option" where
  "kv_map slots = map_of (map (\<lambda>e. (kv_key e, (kv_val e, kv_expires e))) (kv_live slots))"

abbreviation kv_occ :: "kv_slot list \<Rightarrow> nat \<Rightarrow> bool" where
  "kv_occ slots i \<equiv> kv_key (slots ! i) \<noteq> []"

text \<open>Slots between an entry's home bucket and its own, cyclically, are occupied.\<close>

definition kv_chain :: "kv_slot list \<Rightarrow> bool" where
  "kv_chain slots \<longleftrightarrow> (let n = length slots in \<forall>i < n. kv_occ slots i \<longrightarrow>
     (\<forall>d < (i + n - kv_home (n - 1) (slots ! i)) mod n. kv_occ slots ((kv_home (n - 1) (slots ! i) + d) mod n)))"

definition kv_wf :: "brix_kv_header_t \<Rightarrow> bool" where
  "kv_wf h \<longleftrightarrow> (\<exists>k. kv_capacity h = 2 ^ k) \<and> kv_chain (kv_slots h)
     \<and> distinct (map kv_key (kv_live (kv_slots h)))
     \<and> (\<forall>e \<in> set (kv_live (kv_slots h)). kv_hash e = brix_kv_hash (kv_key e))
     \<and> kv_count h = length (kv_live (kv_slots h)) \<and> kv_count h \<le> kv_capacity h div 2"

section \<open>Cyclic slot numbers seen from a free slot\<close>

lemma and_mask_mod: "n AND (2 ^ k - 1) = n mod (2 ^ k :: nat)"
  using take_bit_eq_mask [of k n] by (simp add: take_bit_eq_mod mask_eq_exp_minus_1)

text \<open>
  Coordinates that start right after a free slot \<open>b\<close>: slot \<open>kv_idx b n x\<close> is \<open>x\<close> steps further.
  No probe chain crosses a free slot, so in these coordinates chains do not wrap.
\<close>

definition kv_idx :: "nat \<Rightarrow> nat \<Rightarrow> nat \<Rightarrow> nat" where
  "kv_idx b n x = (b + 1 + x) mod n"

definition kv_lin :: "nat \<Rightarrow> nat \<Rightarrow> nat \<Rightarrow> nat" where
  "kv_lin b n i = (if b < i then i - b - 1 else i + n - b - 1)"

lemma kv_lin_less: "b < n \<Longrightarrow> i < n \<Longrightarrow> kv_lin b n i < n"
  by (auto simp: kv_lin_def)

lemma kv_idx_less: "0 < n \<Longrightarrow> kv_idx b n x < n"
  by (simp add: kv_idx_def)

lemma kv_idx_lin [simp]: "b < n \<Longrightarrow> i < n \<Longrightarrow> kv_idx b n (kv_lin b n i) = i"
  by (auto simp: kv_idx_def kv_lin_def)

lemma kv_idx_cases: "b < n \<Longrightarrow> x < n \<Longrightarrow> kv_idx b n x = (if b + 1 + x < n then b + 1 + x else b + 1 + x - n)"
  by (simp add: kv_idx_def mod_if)

lemma kv_lin_idx [simp]: "b < n \<Longrightarrow> x < n \<Longrightarrow> kv_lin b n (kv_idx b n x) = x"
  by (auto simp: kv_idx_cases kv_lin_def split: if_splits)

lemma kv_idx_inj: "b < n \<Longrightarrow> x < n \<Longrightarrow> y < n \<Longrightarrow> kv_idx b n x = kv_idx b n y \<longleftrightarrow> x = y"
  by (metis kv_lin_idx)

lemma kv_idx_last: "b < n \<Longrightarrow> kv_idx b n (n - 1) = b"
  by (simp add: kv_idx_def)

lemma kv_idx_step: "kv_idx b n (x + d) = (kv_idx b n x + d) mod n"
  by (simp add: kv_idx_def mod_add_left_eq add.assoc)

lemma kv_idx_dist:
  assumes "b < n" "x < n" "y < n"
  shows "(kv_idx b n y + n - kv_idx b n x) mod n = (if x \<le> y then y - x else y + n - x)"
proof -
  let ?X = "kv_idx b n x" and ?Y = "kv_idx b n y"
  have lt: "?X < n" "?Y < n" using assms by (simp_all add: kv_idx_less)
  have m: "(?Y + n - ?X) mod n = (if ?X \<le> ?Y then ?Y - ?X else ?Y + n - ?X)"
  proof (cases "?X \<le> ?Y")
    case True
    have "(?Y + n - ?X) mod n = ((?Y - ?X) + n) mod n" using True by (intro arg_cong [where f = "\<lambda>z. z mod n"]) simp
    also have "\<dots> = ?Y - ?X" unfolding mod_add_self2 using lt by simp
    finally show ?thesis using True by simp
  next
    case False
    then show ?thesis using lt by simp
  qed
  show ?thesis
    unfolding m unfolding kv_idx_cases [OF assms(1,2)] kv_idx_cases [OF assms(1,3)] using assms by (cases "x \<le> y"; cases "b + 1 + x < n"; cases "b + 1 + y < n"; simp; linarith)
qed

text \<open>The linear form of the chain invariant; \<open>H\<close> is the hole a deletion is about to fill.\<close>

definition kv_hx :: "nat \<Rightarrow> kv_slot list \<Rightarrow> nat \<Rightarrow> nat" where
  "kv_hx b slots x = kv_lin b (length slots) (kv_home (length slots - 1) (slots ! kv_idx b (length slots) x))"

abbreviation kv_at :: "nat \<Rightarrow> kv_slot list \<Rightarrow> nat \<Rightarrow> kv_slot" where
  "kv_at b slots x \<equiv> slots ! kv_idx b (length slots) x"

definition kv_line :: "nat \<Rightarrow> kv_slot list \<Rightarrow> nat \<Rightarrow> bool" where
  "kv_line b slots H \<longleftrightarrow> (\<forall>x < length slots. kv_key (kv_at b slots x) \<noteq> [] \<longrightarrow>
     kv_hx b slots x \<le> x \<and> (\<forall>y. kv_hx b slots x \<le> y \<longrightarrow> y < x \<longrightarrow> y \<noteq> H \<longrightarrow> kv_key (kv_at b slots y) \<noteq> []))"

lemma kv_home_less: "length slots = 2 ^ k \<Longrightarrow> kv_home (length slots - 1) e < length slots"
  using and_mask_mod [of "unat (kv_hash e)" k] by (simp add: kv_home_def)

lemma kv_chain_line:
  assumes n: "length slots = 2 ^ k" and b: "b < length slots" "kv_key (slots ! b) = []"
  shows "kv_chain slots \<longleftrightarrow> kv_line b slots (length slots)"
proof -
  let ?n = "length slots"
  have pos: "0 < ?n" using n by simp
  have home: "kv_home (?n - 1) (kv_at b slots x) = kv_idx b ?n (kv_hx b slots x)" "kv_hx b slots x < ?n" for x
    using kv_home_less [OF n, of "kv_at b slots x"] b(1) by (simp_all add: kv_hx_def kv_lin_less)
  have pt: "(\<forall>d < (kv_idx b ?n x + ?n - kv_home (?n - 1) (kv_at b slots x)) mod ?n.
        kv_occ slots ((kv_home (?n - 1) (kv_at b slots x) + d) mod ?n))
      \<longleftrightarrow> kv_hx b slots x \<le> x \<and> (\<forall>y. kv_hx b slots x \<le> y \<longrightarrow> y < x \<longrightarrow> y \<noteq> ?n \<longrightarrow> kv_key (kv_at b slots y) \<noteq> [])"
    (is "?L = ?R") if x: "x < ?n" for x
  proof -
    let ?h = "kv_hx b slots x"
    have D: "?L \<longleftrightarrow> (\<forall>d < (if ?h \<le> x then x - ?h else x + ?n - ?h). kv_key (kv_at b slots (?h + d)) \<noteq> [])"
      unfolding home(1) kv_idx_dist [OF b(1) home(2) x] kv_idx_step [symmetric] ..
    show ?thesis
    proof
      assume L: ?L
      have "?h \<le> x"
      proof (rule ccontr)
        assume "\<not> ?h \<le> x"
        moreover have "?n - 1 - ?h < x + ?n - ?h" using home(2) [of x] x by linarith
        ultimately have "kv_key (kv_at b slots (?h + (?n - 1 - ?h))) \<noteq> []" using L unfolding D by simp
        then show False using b home(2) [of x] kv_idx_last [OF b(1)] by simp
      qed
      moreover have "kv_key (kv_at b slots y) \<noteq> []" if "?h \<le> y" "y < x" for y
      proof -
        have "y - ?h < x - ?h" "?h + (y - ?h) = y" using that by linarith+
        then show ?thesis using L \<open>?h \<le> x\<close> unfolding D by (metis (full_types))
      qed
      ultimately show ?R by blast
    next
      assume ?R
      then show ?L unfolding D using x by auto
    qed
  qed
  have "kv_chain slots \<longleftrightarrow> (\<forall>x < ?n. kv_key (kv_at b slots x) \<noteq> [] \<longrightarrow>
      (\<forall>d < (kv_idx b ?n x + ?n - kv_home (?n - 1) (kv_at b slots x)) mod ?n.
        kv_occ slots ((kv_home (?n - 1) (kv_at b slots x) + d) mod ?n)))"
    (is "_ \<longleftrightarrow> (\<forall>x < ?n. ?P (kv_idx b ?n x))")
  proof -
    have "(\<forall>i < ?n. ?P i) \<longleftrightarrow> (\<forall>x < ?n. ?P (kv_idx b ?n x))"
      using b(1) kv_idx_less [OF pos] kv_lin_less [OF b(1)] kv_idx_lin [OF b(1)] by metis
    then show ?thesis unfolding kv_chain_def Let_def .
  qed
  then show ?thesis unfolding kv_line_def using pt by simp
qed

lemma kv_should_shift_line:
  assumes "b < n" "h < n" "x < n" "hole < x"
  shows "brix_kv_should_shift (kv_idx b n h) (kv_idx b n hole) (kv_idx b n x) \<longleftrightarrow> \<not> (hole < h \<and> h \<le> x)"
  using assms by (auto simp: brix_kv_should_shift_def kv_idx_cases)

section \<open>Backward-shift deletion\<close>

lemma kv_live_update:
  assumes "i < length s"
  shows "mset (kv_live (s[i := e])) = (if kv_key e = [] then {#} else {#e#})
     + (mset (kv_live s) - (if kv_key (s ! i) = [] then {#} else {#s ! i#}))"
  using assms by (simp add: kv_live_def mset_filter mset_update)

lemma kv_live_move:
  assumes "i < length s" "j < length s" "i \<noteq> j" "kv_key (s ! i) = []" "kv_key (s ! j) \<noteq> []"
  shows "mset (kv_live (s[i := s ! j, j := kv_clear (s ! j)])) = mset (kv_live s)"
  using assms by (simp add: kv_live_update) (simp add: kv_clear_def)

lemma kv_live_clear:
  assumes "i < length s" "kv_key (s ! i) \<noteq> []"
  shows "mset (kv_live (s[i := kv_clear (s ! i)])) = mset (kv_live s) - {#s ! i#}"
  using assms by (simp add: kv_live_update kv_clear_def)

definition kv_hole_inv :: "nat \<Rightarrow> kv_slot list \<Rightarrow> nat \<Rightarrow> nat \<Rightarrow> bool" where
  "kv_hole_inv b slots p c \<longleftrightarrow> p \<le> c \<and> c < length slots - 1
     \<and> kv_key (kv_at b slots (length slots - 1)) = [] \<and> kv_key (kv_at b slots p) = []
     \<and> kv_line b slots p
     \<and> (\<forall>x. p < x \<longrightarrow> x \<le> c \<longrightarrow> kv_key (kv_at b slots x) \<noteq> [] \<and> p < kv_hx b slots x)"

lemma kv_hole_stop:
  assumes I: "kv_hole_inv b slots p c" and free: "kv_key (kv_at b slots (c + 1)) = []"
  shows "kv_line b slots (length slots)"
  unfolding kv_line_def
proof (intro allI impI)
  fix x assume x: "x < length slots" "kv_key (kv_at b slots x) \<noteq> []"
  have L: "kv_hx b slots x \<le> x" "\<And>y. kv_hx b slots x \<le> y \<Longrightarrow> y < x \<Longrightarrow> y \<noteq> p \<Longrightarrow> kv_key (kv_at b slots y) \<noteq> []"
    using I x unfolding kv_hole_inv_def kv_line_def by blast+
  have "\<not> (kv_hx b slots x \<le> p \<and> p < x)"
  proof
    assume a: "kv_hx b slots x \<le> p \<and> p < x"
    then have "c < x" using I unfolding kv_hole_inv_def by (metis linorder_not_less)
    moreover have "x \<noteq> c + 1" using free x by auto
    ultimately show False using L(2) [of "c + 1"] a free I unfolding kv_hole_inv_def by auto
  qed
  then show "kv_hx b slots x \<le> x \<and> (\<forall>y. kv_hx b slots x \<le> y \<longrightarrow> y < x \<longrightarrow> y \<noteq> length slots \<longrightarrow> kv_key (kv_at b slots y) \<noteq> [])"
    using L by blast
qed

lemma kv_hole_skip:
  assumes I: "kv_hole_inv b slots p c" and occ: "kv_key (kv_at b slots (c + 1)) \<noteq> []" and h: "p < kv_hx b slots (c + 1)"
  shows "kv_hole_inv b slots p (c + 1)"
proof -
  have "c + 1 \<noteq> length slots - 1" using I occ unfolding kv_hole_inv_def by auto
  then show ?thesis using I occ h unfolding kv_hole_inv_def by (auto simp: le_Suc_eq)
qed

lemma kv_hole_shift:
  assumes b: "b < length slots" and I: "kv_hole_inv b slots p c"
    and occ: "kv_key (kv_at b slots (c + 1)) \<noteq> []" and h: "kv_hx b slots (c + 1) \<le> p"
    and s: "s' = slots[kv_idx b (length slots) p := kv_at b slots (c + 1),
                       kv_idx b (length slots) (c + 1) := kv_clear (kv_at b slots (c + 1))]"
  shows "kv_hole_inv b s' (c + 1) (c + 1)"
proof -
  let ?n = "length slots"
  have n: "length s' = ?n" by (simp add: s)
  have il: "kv_idx b ?n x < ?n" for x using b by (auto intro: kv_idx_less)
  have "c + 1 \<noteq> ?n - 1" using I occ unfolding kv_hole_inv_def by auto
  then have c: "p < c + 1" "c + 1 < ?n - 1" using I occ unfolding kv_hole_inv_def by (auto intro: le_neq_implies_less)
  have at: "kv_at b s' x = (if x = c + 1 then kv_clear (kv_at b slots (c + 1)) else if x = p then kv_at b slots (c + 1) else kv_at b slots x)"
    if "x < ?n" for x
  proof -
    have e: "kv_idx b ?n p = kv_idx b ?n x \<longleftrightarrow> x = p" "kv_idx b ?n (c + 1) = kv_idx b ?n x \<longleftrightarrow> x = c + 1"
      using kv_idx_inj [OF b _ that, of p] kv_idx_inj [OF b _ that, of "c + 1"] c by auto
    show ?thesis unfolding n s by (simp only: nth_list_update il length_list_update e)
  qed
  have hx: "kv_hx b s' x = (if x = p then kv_hx b slots (c + 1) else kv_hx b slots x)" if "x < ?n" for x
    unfolding kv_hx_def n at [OF that, unfolded n] using c by (simp add: kv_clear_def kv_home_def)
  have L: "kv_hx b slots x \<le> x \<and> (\<forall>y. kv_hx b slots x \<le> y \<longrightarrow> y < x \<longrightarrow> y \<noteq> p \<longrightarrow> kv_key (kv_at b slots y) \<noteq> [])"
    if "x < ?n" "kv_key (kv_at b slots x) \<noteq> []" for x
    using I that unfolding kv_hole_inv_def kv_line_def by blast
  have ak: "kv_key (kv_at b s' x) \<noteq> [] \<longleftrightarrow> x \<noteq> c + 1 \<and> (x = p \<or> kv_key (kv_at b slots x) \<noteq> [])" if "x < ?n" for x
    unfolding at [OF that] using occ by (simp add: kv_clear_def)
  have "kv_line b s' (c + 1)"
    unfolding kv_line_def
  proof (intro allI impI)
    fix x assume "x < length s'" and kx: "kv_key (kv_at b s' x) \<noteq> []"
    then have x: "x < ?n" using n by simp
    have xc: "x \<noteq> c + 1" "x = p \<or> kv_key (kv_at b slots x) \<noteq> []" using kx unfolding ak [OF x] by blast+
    have "kv_hx b s' x \<le> x \<and> (\<forall>y. kv_hx b s' x \<le> y \<longrightarrow> y < x \<longrightarrow> y \<noteq> p \<longrightarrow> kv_key (kv_at b slots y) \<noteq> [])"
    proof (cases "x = p")
      case True
      have "\<forall>y. kv_hx b slots (c + 1) \<le> y \<longrightarrow> y < p \<longrightarrow> kv_key (kv_at b slots y) \<noteq> []"
        using L [OF _ occ] c by fastforce
      then show ?thesis unfolding hx [OF x] using True h by simp
    next
      case False
      then show ?thesis unfolding hx [OF x] using L [OF x] xc by simp
    qed
    then show "kv_hx b s' x \<le> x \<and> (\<forall>y. kv_hx b s' x \<le> y \<longrightarrow> y < x \<longrightarrow> y \<noteq> c + 1 \<longrightarrow> kv_key (kv_at b s' y) \<noteq> [])"
      using ak x by (meson less_trans)
  qed
  moreover have "kv_key (kv_at b s' (c + 1)) = []" "kv_key (kv_at b s' (?n - 1)) = []"
    using ak [of "c + 1"] ak [of "?n - 1"] c I unfolding kv_hole_inv_def by force+
  ultimately show ?thesis using c unfolding kv_hole_inv_def n by (simp add: n)
qed

lemma kv_remove_loop_correct:
  assumes "length slots = 2 ^ k" "b < length slots" "kv_hole_inv b slots p c" "length slots - 1 - c \<le> fuel"
  shows "\<exists>s'. kv_remove_loop fuel (length slots - 1) (kv_idx b (length slots) p) (kv_idx b (length slots) c) slots = Some s'
     \<and> length s' = length slots \<and> mset (kv_live s') = mset (kv_live slots)
     \<and> kv_key (s' ! b) = [] \<and> kv_line b s' (length slots)"
  using assms
proof (induction fuel arbitrary: slots p c)
  case 0
  have "c < length slots - 1" using 0(3) unfolding kv_hole_inv_def by blast
  then show ?case using 0(4) by linarith
next
  case (Suc fuel)
  let ?n = "length slots"
  note n = Suc.prems(1) and b = Suc.prems(2) and I = Suc.prems(3)
  have il: "kv_idx b ?n x < ?n" for x using b by (auto intro: kv_idx_less)
  have pc: "p \<le> c" "c + 1 < ?n" "p < ?n" using I unfolding kv_hole_inv_def by auto
  have nxt: "(kv_idx b ?n c + 1) AND (?n - 1) = kv_idx b ?n (c + 1)"
    using and_mask_mod [of "kv_idx b ?n c + 1" k] n kv_idx_step [of b ?n c 1] by simp
  have bfree: "kv_key (slots ! b) = []" using I kv_idx_last [OF b] unfolding kv_hole_inv_def by simp
  have hm: "kv_home (?n - 1) (kv_at b slots (c + 1)) = kv_idx b ?n (kv_hx b slots (c + 1))" "kv_hx b slots (c + 1) < ?n"
    using kv_home_less [OF n, of "kv_at b slots (c + 1)"] b by (simp_all add: kv_hx_def kv_lin_less)
  have step: "kv_remove_loop (Suc fuel) (?n - 1) (kv_idx b ?n p) (kv_idx b ?n c) slots
      = (if kv_key (kv_at b slots (c + 1)) = [] then Some slots
         else if \<not> (p < kv_hx b slots (c + 1) \<and> kv_hx b slots (c + 1) \<le> c + 1)
         then kv_remove_loop fuel (?n - 1) (kv_idx b ?n (c + 1)) (kv_idx b ?n (c + 1))
                (slots[kv_idx b ?n p := kv_at b slots (c + 1), kv_idx b ?n (c + 1) := kv_clear (kv_at b slots (c + 1))])
         else kv_remove_loop fuel (?n - 1) (kv_idx b ?n p) (kv_idx b ?n (c + 1)) slots)"
    unfolding kv_remove_loop.simps Let_def nxt hm(1) using kv_should_shift_line [OF b hm(2) pc(2), of p] pc by simp
  show ?case
  proof (cases "kv_key (kv_at b slots (c + 1)) = []")
    case True
    then show ?thesis unfolding step using kv_hole_stop [OF I True] bfree by simp
  next
    case occ: False
    have le: "kv_hx b slots (c + 1) \<le> c + 1" using I pc occ unfolding kv_hole_inv_def kv_line_def by blast
    show ?thesis
    proof (cases "p < kv_hx b slots (c + 1)")
      case True
      have "?n - 1 - (c + 1) \<le> fuel" using Suc.prems(4) by linarith
      from Suc.IH [OF n b kv_hole_skip [OF I occ True] this] show ?thesis unfolding step using occ le True by simp
    next
      case False
      define s where "s = slots[kv_idx b ?n p := kv_at b slots (c + 1), kv_idx b ?n (c + 1) := kv_clear (kv_at b slots (c + 1))]"
      have s: "length s = ?n" by (simp add: s_def)
      have ne: "kv_idx b ?n p \<noteq> kv_idx b ?n (c + 1)" using kv_idx_inj [OF b pc(3,2)] pc by simp
      have mv: "mset (kv_live s) = mset (kv_live slots)"
        unfolding s_def using kv_live_move [OF il il ne _ occ] I unfolding kv_hole_inv_def by blast
      have inv: "kv_hole_inv b s (c + 1) (c + 1)" using kv_hole_shift [OF b I occ _ s_def] False by simp
      have "length s - 1 - (c + 1) \<le> fuel" using Suc.prems(4) s by simp
      from Suc.IH [OF _ _ inv this] show ?thesis unfolding step s_def [symmetric] using occ False s n b mv by simp
    qed
  qed
qed

lemma kv_free_exists:
  assumes "length (kv_live slots) < length slots"
  obtains b where "b < length slots" "kv_key (slots ! b) = []"
proof -
  have "\<exists>e \<in> set slots. kv_key e = []"
  proof (rule ccontr)
    assume "\<not> ?thesis"
    then have "kv_live slots = slots" unfolding kv_live_def by (simp add: filter_id_conv)
    then show False using assms by simp
  qed
  then show thesis using that by (metis in_set_conv_nth)
qed

lemma kv_remove_at_correct:
  assumes n: "length slots = 2 ^ k" and ch: "kv_chain slots" and room: "length (kv_live slots) < length slots"
    and i: "i < length slots" "kv_key (slots ! i) \<noteq> []"
  shows "\<exists>s'. brix_kv_remove_at (length slots - 1) i slots = Some s' \<and> length s' = length slots
     \<and> kv_chain s' \<and> mset (kv_live s') = mset (kv_live slots) - {#slots ! i#}"
proof -
  let ?n = "length slots"
  obtain b where b: "b < ?n" "kv_key (slots ! b) = []" using kv_free_exists [OF room] .
  define p where "p = kv_lin b ?n i"
  define s where "s = slots[i := kv_clear (slots ! i)]"
  have s: "length s = ?n" by (simp add: s_def)
  have p: "p < ?n" "kv_idx b ?n p = i" using b(1) i(1) by (simp_all add: p_def kv_lin_less)
  have "i \<noteq> b" using b i by auto
  then have p1: "p < ?n - 1" using p kv_idx_last [OF b(1)] by (metis Suc_pred' less_Suc_eq b(1) gr_implies_not0 neq0_conv Suc_eq_plus1 diff_Suc_1)
  have at: "kv_at b s x = (if x = p then kv_clear (slots ! i) else kv_at b slots x)" if "x < ?n" for x
    using kv_idx_inj [OF b(1) that p(1)] p i(1) by (auto simp: s_def)
  have hx: "kv_hx b s x = kv_hx b slots x" if "x < ?n" for x
    unfolding kv_hx_def s at [OF that, unfolded s] using p by (simp add: kv_clear_def kv_home_def)
  have ak: "kv_key (kv_at b s x) \<noteq> [] \<longleftrightarrow> x \<noteq> p \<and> kv_key (kv_at b slots x) \<noteq> []" if "x < ?n" for x
    unfolding at [OF that] by (simp add: kv_clear_def)
  have L: "kv_line b slots ?n" using kv_chain_line [OF n b] ch by simp
  have "kv_line b s p"
    unfolding kv_line_def
  proof (intro allI impI)
    fix x assume "x < length s" and kx: "kv_key (kv_at b s x) \<noteq> []"
    then have x: "x < ?n" using s by simp
    have "kv_key (kv_at b slots x) \<noteq> []" using kx unfolding ak [OF x] by blast
    then have "kv_hx b slots x \<le> x \<and> (\<forall>y. kv_hx b slots x \<le> y \<longrightarrow> y < x \<longrightarrow> kv_key (kv_at b slots y) \<noteq> [])"
      using L x unfolding kv_line_def by (metis less_irrefl less_trans)
    then show "kv_hx b s x \<le> x \<and> (\<forall>y. kv_hx b s x \<le> y \<longrightarrow> y < x \<longrightarrow> y \<noteq> p \<longrightarrow> kv_key (kv_at b s y) \<noteq> [])"
      unfolding hx [OF x] using ak x by (meson less_trans)
  qed
  moreover have "kv_key (kv_at b s p) = []" "kv_key (kv_at b s (?n - 1)) = []"
    using ak [OF p(1)] ak [of "?n - 1"] p1 b kv_idx_last [OF b(1)] by auto
  ultimately have inv: "kv_hole_inv b s p p" using p1 unfolding kv_hole_inv_def s by auto
  have "\<exists>s'. kv_remove_loop ?n (?n - 1) i i s = Some s' \<and> length s' = ?n \<and> mset (kv_live s') = mset (kv_live s)
     \<and> kv_key (s' ! b) = [] \<and> kv_line b s' ?n"
    using kv_remove_loop_correct [of s k b p p ?n] s n b inv p by simp
  then obtain s' where r: "kv_remove_loop ?n (?n - 1) i i s = Some s'" "length s' = ?n"
    "mset (kv_live s') = mset (kv_live s)" "kv_key (s' ! b) = []" "kv_line b s' ?n" by blast
  have "kv_chain s'" using kv_chain_line [of s' k b] r n b by simp
  moreover have "mset (kv_live s') = mset (kv_live slots) - {#slots ! i#}" using r(3) kv_live_clear [OF i] by (simp add: s_def)
  ultimately show ?thesis using r unfolding brix_kv_remove_at_def s_def [symmetric] by simp
qed

section \<open>The probe walk\<close>

lemma kv_probe_spec:
  assumes "length slots = 2 ^ k"
  shows "case kv_probe slots (length slots - 1) hash key (a mod length slots) B of
      KvMatch i \<Rightarrow> i < length slots \<and> kv_key (slots ! i) \<noteq> [] \<and> brix_kv_entry_matches (slots ! i) hash key
    | KvFree i \<Rightarrow> (\<exists>d < B. i = (a + d) mod length slots \<and> kv_key (slots ! i) = []
        \<and> (\<forall>e < d. kv_occ slots ((a + e) mod length slots) \<and> \<not> brix_kv_entry_matches (slots ! ((a + e) mod length slots)) hash key))
    | KvExhausted \<Rightarrow> \<forall>e < B. kv_occ slots ((a + e) mod length slots) \<and> \<not> brix_kv_entry_matches (slots ! ((a + e) mod length slots)) hash key"
proof (induction B arbitrary: a)
  case 0
  then show ?case by simp
next
  case (Suc B)
  let ?n = "length slots" and ?e = "slots ! (a mod length slots)"
  have pos: "a mod ?n < ?n" using assms by simp
  have nxt: "(a mod ?n + 1) AND (?n - 1) = (a + 1) mod ?n"
    using and_mask_mod [of "a mod ?n + 1" k] assms by (simp add: mod_Suc_eq)
  have all_Suc: "(\<forall>e < Suc m. Q ((a + e) mod ?n)) \<longleftrightarrow> Q (a mod ?n) \<and> (\<forall>e < m. Q ((a + 1 + e) mod ?n))" for m Q
    by (auto simp: All_less_Suc2)
  show ?case
  proof (cases "kv_key ?e \<noteq> [] \<and> \<not> brix_kv_entry_matches ?e hash key")
    case False
    then show ?thesis using pos by (auto simp: Let_def)
  next
    case True
    have st: "kv_probe slots (?n - 1) hash key (a mod ?n) (Suc B) = kv_probe slots (?n - 1) hash key ((a + 1) mod ?n) B"
      using True unfolding kv_probe.simps Let_def nxt by simp
    show ?thesis
    proof (cases "kv_probe slots (?n - 1) hash key ((a + 1) mod ?n) B")
      case (KvFree i)
      obtain d where d: "d < B" "i = (a + 1 + d) mod ?n" "kv_key (slots ! i) = []"
        "\<forall>e < d. kv_occ slots ((a + 1 + e) mod ?n) \<and> \<not> brix_kv_entry_matches (slots ! ((a + 1 + e) mod ?n)) hash key"
        using Suc.IH [of "a + 1"] KvFree by auto
      have "Suc d < Suc B \<and> i = (a + Suc d) mod ?n" using d by simp
      then show ?thesis unfolding st KvFree kv_stop.case
        using d(3,4) True all_Suc [of d "\<lambda>j. kv_occ slots j \<and> \<not> brix_kv_entry_matches (slots ! j) hash key"] by blast
    next
      case KvExhausted
      then show ?thesis using Suc.IH [of "a + 1"] unfolding st KvExhausted kv_stop.case
        using True all_Suc [of B "\<lambda>j. kv_occ slots j \<and> \<not> brix_kv_entry_matches (slots ! j) hash key"] by blast
    next
      case (KvMatch i)
      then show ?thesis using Suc.IH [of "a + 1"] unfolding st KvMatch kv_stop.case by blast
    qed
  qed
qed

lemma kv_run_le_live:
  assumes "m \<le> length slots" "\<forall>d < m. kv_occ slots ((a + d) mod length slots)"
  shows "m \<le> length (kv_live slots)"
proof -
  let ?n = "length slots"
  have "inj_on (\<lambda>d. (a + d) mod ?n) {..<m}"
  proof (rule linorder_inj_onI)
    fix x y assume x: "x < y" "x \<in> {..<m}" "y \<in> {..<m}"
    show "(a + x) mod ?n \<noteq> (a + y) mod ?n"
    proof
      assume "(a + x) mod ?n = (a + y) mod ?n"
      then have "(a + y) mod ?n = (a + x) mod ?n" by simp
      then have "?n dvd (a + y) - (a + x)" using mod_eq_dvd_iff_nat [of "a + x" "a + y"] x by simp
      then show False using x assms(1) by (auto dest: dvd_imp_le)
    qed
  qed linarith
  then have "m = card ((\<lambda>d. (a + d) mod ?n) ` {..<m})" by (simp add: card_image)
  also have "\<dots> \<le> card {i. i < ?n \<and> kv_occ slots i}"
    using assms by (intro card_mono) (auto intro!: mod_less_divisor)
  also have "\<dots> = length (kv_live slots)" by (simp add: kv_live_def length_filter_conv_card)
  finally show ?thesis .
qed

lemma kv_live_mem: "e \<in> set (kv_live slots) \<longleftrightarrow> (\<exists>i < length slots. e = slots ! i \<and> kv_key (slots ! i) \<noteq> [])"
  by (auto simp: kv_live_def in_set_conv_nth)

lemma kv_live_fun:
  assumes "distinct (map kv_key (kv_live slots))" "e \<in> set (kv_live slots)" "f \<in> set (kv_live slots)" "kv_key e = kv_key f"
  shows "e = f"
  using assms by (metis distinct_map inj_onD)

lemma kv_map_Some_iff:
  assumes "distinct (map kv_key (kv_live slots))"
  shows "kv_map slots key = Some v \<longleftrightarrow> (\<exists>e \<in> set (kv_live slots). kv_key e = key \<and> v = (kv_val e, kv_expires e))"
proof -
  have "distinct (map fst (map (\<lambda>e. (kv_key e, kv_val e, kv_expires e)) (kv_live slots)))"
    using assms by (simp add: comp_def)
  then show ?thesis unfolding kv_map_def by (auto simp: map_of_eq_Some_iff)
qed

lemma kv_map_None_iff: "kv_map slots key = None \<longleftrightarrow> (\<forall>e \<in> set (kv_live slots). kv_key e \<noteq> key)"
  by (auto simp: kv_map_def map_of_eq_None_iff image_image)

text \<open>What the bounded probe of a well-formed table means for the stored map.\<close>

lemma kv_probe_begin_spec:
  assumes wf: "kv_wf h" and key: "key \<noteq> []"
  shows "case kv_probe_begin h key of
      KvMatch i \<Rightarrow> i < kv_capacity h \<and> kv_slots h ! i \<in> set (kv_live (kv_slots h)) \<and> kv_key (kv_slots h ! i) = key
    | KvFree i \<Rightarrow> kv_map (kv_slots h) key = None \<and> i < kv_capacity h \<and> kv_key (kv_slots h ! i) = []
        \<and> (\<exists>d < kv_capacity h. i = (unat (brix_kv_hash key) + d) mod kv_capacity h
             \<and> (\<forall>e < d. kv_occ (kv_slots h) ((unat (brix_kv_hash key) + e) mod kv_capacity h)))
    | KvExhausted \<Rightarrow> kv_map (kv_slots h) key = None \<and> kv_capacity h div 2 \<le> kv_count h"
proof -
  let ?s = "kv_slots h" and ?n = "kv_capacity h" and ?a = "unat (brix_kv_hash key)"
  obtain k where n: "?n = 2 ^ k" using wf unfolding kv_wf_def by blast
  have st: "kv_probe_begin h key = kv_probe ?s (?n - 1) (brix_kv_hash key) key (?a mod ?n) (?n div 2)"
    using and_mask_mod [of ?a k] n by (simp add: kv_probe_begin_def Let_def)
  note spec = kv_probe_spec [OF n, where hash = "brix_kv_hash key" and key = key and a = ?a and B = "?n div 2"]
  have present: "\<exists>D < ?n div 2. (\<forall>d < D. kv_occ ?s ((?a + d) mod ?n)) \<and> kv_occ ?s ((?a + D) mod ?n)
      \<and> brix_kv_entry_matches (?s ! ((?a + D) mod ?n)) (brix_kv_hash key) key" if pr: "kv_map ?s key \<noteq> None"
  proof -
    obtain i where i: "i < ?n" "kv_key (?s ! i) = key" using pr unfolding kv_map_None_iff by (auto simp: kv_live_mem)
    have mem: "?s ! i \<in> set (kv_live ?s)" using i key by (auto simp: kv_live_mem)
    have hh: "kv_hash (?s ! i) = brix_kv_hash key" using wf mem i unfolding kv_wf_def by auto
    have home: "kv_home (?n - 1) (?s ! i) = ?a mod ?n" using and_mask_mod [of ?a k] n hh by (simp add: kv_home_def)
    define D where "D = (i + ?n - ?a mod ?n) mod ?n"
    have "(\<forall>d < D. kv_occ ?s ((?a mod ?n + d) mod ?n))"
      using wf i key unfolding kv_wf_def kv_chain_def Let_def D_def home [symmetric] by simp
    then have run: "\<forall>d < D. kv_occ ?s ((?a + d) mod ?n)" by (simp add: mod_add_left_eq)
    have "?a mod ?n < ?n" using n by simp
    then have "?a mod ?n + (i + ?n - ?a mod ?n) = i + ?n" by simp
    then have at: "(?a + D) mod ?n = i" unfolding D_def using i(1) by (metis mod_add_left_eq mod_add_right_eq mod_add_self2 mod_less)
    have "\<forall>d < Suc D. kv_occ ?s ((?a + d) mod ?n)" using run at i key by (simp add: less_Suc_eq)
    moreover have "Suc D \<le> ?n" using n by (simp add: D_def Suc_le_eq)
    ultimately have "Suc D \<le> length (kv_live ?s)" by (intro kv_run_le_live)
    then have "D < ?n div 2" using wf unfolding kv_wf_def by simp
    then show ?thesis using run at i key hh by (auto simp: brix_kv_entry_matches_def)
  qed
  show ?thesis
  proof (cases "kv_probe ?s (?n - 1) (brix_kv_hash key) key (?a mod ?n) (?n div 2)")
    case (KvMatch i)
    then show ?thesis using spec unfolding st by (auto simp: kv_live_mem brix_kv_entry_matches_def)
  next
    case (KvFree i)
    then obtain d where d: "d < ?n div 2" "i = (?a + d) mod ?n" "kv_key (?s ! i) = []"
      "\<forall>e < d. kv_occ ?s ((?a + e) mod ?n) \<and> \<not> brix_kv_entry_matches (?s ! ((?a + e) mod ?n)) (brix_kv_hash key) key"
      using spec by auto
    have "kv_map ?s key = None"
    proof (rule ccontr)
      assume "kv_map ?s key \<noteq> None"
      from present [OF this] obtain D where D: "\<forall>d < D. kv_occ ?s ((?a + d) mod ?n)" "kv_occ ?s ((?a + D) mod ?n)"
        "brix_kv_entry_matches (?s ! ((?a + D) mod ?n)) (brix_kv_hash key) key" by blast
      then show False using d by (metis linorder_neqE_nat)
    qed
    moreover have "i < ?n" using d n by simp
    moreover have "d < ?n" using d(1) by linarith
    ultimately show ?thesis unfolding st KvFree kv_stop.case using d by blast
  next
    case KvExhausted
    then have x: "\<forall>e < ?n div 2. kv_occ ?s ((?a + e) mod ?n) \<and> \<not> brix_kv_entry_matches (?s ! ((?a + e) mod ?n)) (brix_kv_hash key) key"
      using spec by simp
    then have "kv_map ?s key = None" using present by blast
    moreover have "?n div 2 \<le> length (kv_live ?s)" using x by (intro kv_run_le_live [where a = ?a]) auto
    ultimately show ?thesis unfolding st KvExhausted kv_stop.case using wf unfolding kv_wf_def by simp
  qed
qed

section \<open>The table implements a map\<close>

lemma option_eqI: "(\<And>v. a = Some v \<longleftrightarrow> b = Some v) \<Longrightarrow> a = b"
  by (cases a; cases b) auto

abbreviation kv_keys_distinct :: "kv_slot list \<Rightarrow> bool" where
  "kv_keys_distinct slots \<equiv> distinct (map kv_key (kv_live slots))"

lemma kv_live_add_set:
  assumes "mset (kv_live s') = add_mset e (mset (kv_live s))"
  shows "set (kv_live s') = insert e (set (kv_live s))"
    and "kv_keys_distinct s' \<longleftrightarrow> (\<forall>f \<in> set (kv_live s). kv_key f \<noteq> kv_key e) \<and> kv_keys_distinct s"
    and "length (kv_live s') = Suc (length (kv_live s))"
proof -
  have m: "mset (kv_live s') = mset (e # kv_live s)" using assms by simp
  then have "mset (map kv_key (kv_live s')) = mset (map kv_key (e # kv_live s))" unfolding mset_map by simp
  from mset_eq_imp_distinct_iff [OF this]
  show "kv_keys_distinct s' \<longleftrightarrow> (\<forall>f \<in> set (kv_live s). kv_key f \<noteq> kv_key e) \<and> kv_keys_distinct s"
    by (auto simp: image_iff)
  show "set (kv_live s') = insert e (set (kv_live s))" using m by (metis list.simps(15) set_mset_mset)
  show "length (kv_live s') = Suc (length (kv_live s))" using m by (metis length_Cons size_mset)
qed

lemma kv_map_add:
  assumes m: "mset (kv_live s') = add_mset e (mset (kv_live s))" and d: "kv_keys_distinct s'"
  shows "kv_map s' = (kv_map s)(kv_key e \<mapsto> (kv_val e, kv_expires e))" "kv_map s = (kv_map s')(kv_key e := None)"
proof -
  have s: "kv_keys_distinct s" "\<forall>f \<in> set (kv_live s). kv_key f \<noteq> kv_key e" using kv_live_add_set(2) [OF m] d by auto
  show 1: "kv_map s' = (kv_map s)(kv_key e \<mapsto> (kv_val e, kv_expires e))"
  proof (rule ext, rule option_eqI)
    fix k v show "kv_map s' k = Some v \<longleftrightarrow> ((kv_map s)(kv_key e \<mapsto> (kv_val e, kv_expires e))) k = Some v"
      unfolding fun_upd_apply kv_map_Some_iff [OF d] kv_live_add_set(1) [OF m]
      using s by (auto simp: kv_map_Some_iff)
  qed
  have "kv_map s (kv_key e) = None" using s by (simp add: kv_map_None_iff)
  then show "kv_map s = (kv_map s')(kv_key e := None)" unfolding 1 by (auto simp: fun_eq_iff)
qed

lemma kv_map_card:
  assumes "kv_keys_distinct s"
  shows "card (dom (kv_map s)) = length (kv_live s)"
proof -
  have "dom (kv_map s) = set (map kv_key (kv_live s))"
    unfolding kv_map_def dom_map_of_conv_image_fst by (auto simp: image_image)
  then show ?thesis using distinct_card [OF assms] by simp
qed

lemma kv_drop_slot_correct:
  assumes wf: "kv_wf h" and i: "i < kv_capacity h" "kv_slots h ! i \<in> set (kv_live (kv_slots h))"
  shows "kv_wf (kv_drop_slot h i)" "kv_capacity (kv_drop_slot h i) = kv_capacity h"
    "kv_map (kv_slots (kv_drop_slot h i)) = (kv_map (kv_slots h))(kv_key (kv_slots h ! i) := None)"
proof -
  let ?s = "kv_slots h" and ?e = "kv_slots h ! i"
  obtain k where n: "length ?s = 2 ^ k" using wf unfolding kv_wf_def by blast
  have occ: "kv_key ?e \<noteq> []" using i by (auto simp: kv_live_def)
  have c: "kv_count h = length (kv_live ?s)" "kv_count h \<le> length ?s div 2" "kv_chain ?s" "kv_keys_distinct ?s"
    "\<forall>e \<in> set (kv_live ?s). kv_hash e = brix_kv_hash (kv_key e)" using wf unfolding kv_wf_def by auto
  have "0 < length ?s" using n by simp
  then have "length (kv_live ?s) < length ?s" using c by linarith
  from kv_remove_at_correct [OF n c(3) this i(1) occ] obtain s' where
    r: "brix_kv_remove_at (length ?s - 1) i ?s = Some s'" "length s' = length ?s" "kv_chain s'"
      "mset (kv_live s') = mset (kv_live ?s) - {#?e#}" by blast
  have m: "mset (kv_live ?s) = add_mset ?e (mset (kv_live s'))" using r(4) i(2) by simp
  have d: "kv_slots (kv_drop_slot h i) = s'" "kv_count (kv_drop_slot h i) = kv_count h - 1"
    using r(1) by (simp_all add: kv_drop_slot_def)
  show "kv_capacity (kv_drop_slot h i) = kv_capacity h" using d r by simp
  show "kv_map (kv_slots (kv_drop_slot h i)) = (kv_map ?s)(kv_key ?e := None)"
    unfolding d using kv_map_add(2) [OF m c(4)] .
  show "kv_wf (kv_drop_slot h i)"
    using kv_live_add_set [OF m] c r(2,3) n unfolding kv_wf_def d by auto
qed

lemma kv_chain_same:
  assumes "kv_chain s" "i < length s" "kv_key e \<noteq> []" "kv_key (s ! i) \<noteq> []" "kv_hash e = kv_hash (s ! i)"
  shows "kv_chain (s[i := e])"
proof -
  have k: "kv_key (s[i := e] ! j) \<noteq> [] \<longleftrightarrow> kv_key (s ! j) \<noteq> []" for j
    using assms by (cases "j = i") auto
  have hm: "kv_home m (s[i := e] ! j) = kv_home m (s ! j)" for j m
    using assms by (cases "j = i") (auto simp: kv_home_def)
  show ?thesis using assms(1) unfolding kv_chain_def Let_def length_list_update hm k .
qed

lemma kv_chain_insert:
  assumes ch: "kv_chain s" and i: "i < length s" "kv_key e \<noteq> []"
    and e: "\<forall>d < (i + length s - kv_home (length s - 1) e) mod length s. kv_occ s ((kv_home (length s - 1) e + d) mod length s)"
  shows "kv_chain (s[i := e])"
  unfolding kv_chain_def Let_def length_list_update
proof (intro allI impI)
  fix j d
  assume j: "j < length s" "kv_occ (s[i := e]) j"
    and d: "d < (j + length s - kv_home (length s - 1) (s[i := e] ! j)) mod length s"
  have "kv_occ s ((kv_home (length s - 1) (s[i := e] ! j) + d) mod length s)"
  proof (cases "j = i")
    case True
    then show ?thesis using e d i by simp
  next
    case False
    then show ?thesis using ch j d unfolding kv_chain_def Let_def by simp
  qed
  then show "kv_occ (s[i := e]) ((kv_home (length s - 1) (s[i := e] ! j) + d) mod length s)"
    using i by (metis nth_list_update_eq nth_list_update_neq)
qed

lemma kv_insert_correct:
  assumes wf: "kv_wf h" and room: "kv_count h < kv_capacity h div 2" and key: "key \<noteq> []" "kv_hash e = brix_kv_hash key" "kv_key e = key"
    and fr: "kv_map (kv_slots h) key = None" "i < kv_capacity h" "kv_key (kv_slots h ! i) = []"
    and d: "d < kv_capacity h" "i = (unat (brix_kv_hash key) + d) mod kv_capacity h"
      "\<forall>e < d. kv_occ (kv_slots h) ((unat (brix_kv_hash key) + e) mod kv_capacity h)"
    and h': "h' = h\<lparr>kv_slots := (kv_slots h)[i := e], kv_count := kv_count h + 1\<rparr>"
  shows "kv_wf h'" "kv_map (kv_slots h') = (kv_map (kv_slots h))(key \<mapsto> (kv_val e, kv_expires e))"
proof -
  let ?s = "kv_slots h" and ?n = "kv_capacity h" and ?a = "unat (brix_kv_hash key)"
  obtain k where n: "?n = 2 ^ k" using wf unfolding kv_wf_def by blast
  have m: "mset (kv_live (?s[i := e])) = add_mset e (mset (kv_live ?s))" using fr key by (simp add: kv_live_update)
  have home: "kv_home (?n - 1) e = ?a mod ?n" using and_mask_mod [of ?a k] n key by (simp add: kv_home_def)
  have pos: "?a mod ?n < ?n" using n by simp
  have "(i + ?n - ?a mod ?n) mod ?n = (?a mod ?n + d + ?n - ?a mod ?n) mod ?n"
  proof -
    have "(i + ?n - ?a mod ?n) mod ?n = (i + (?n - ?a mod ?n)) mod ?n" using pos by simp
    also have "\<dots> = (?a mod ?n + d + (?n - ?a mod ?n)) mod ?n" unfolding d(2) by (metis mod_add_left_eq)
    finally show ?thesis using pos by simp
  qed
  also have "\<dots> = d" using d(1) by simp
  finally have dist: "(i + ?n - ?a mod ?n) mod ?n = d" .
  have ch: "kv_chain (?s[i := e])"
    using kv_chain_insert [of ?s i e] wf fr key d(3) unfolding home dist kv_wf_def by (simp add: mod_add_left_eq)
  have ab: "\<forall>f \<in> set (kv_live ?s). kv_key f \<noteq> kv_key e" using fr key by (simp add: kv_map_None_iff)
  then have ds: "kv_keys_distinct (?s[i := e])" using kv_live_add_set(2) [OF m] wf unfolding kv_wf_def by simp
  show "kv_map (kv_slots h') = (kv_map ?s)(key \<mapsto> (kv_val e, kv_expires e))"
    using kv_map_add(1) [OF m ds] key by (simp add: h')
  show "kv_wf h'" using wf ch ds kv_live_add_set [OF m] key room unfolding kv_wf_def h' by auto
qed

lemma kv_update_correct:
  assumes wf: "kv_wf h" and i: "i < kv_capacity h" "kv_slots h ! i \<in> set (kv_live (kv_slots h))"
    and h': "h' = h\<lparr>kv_slots := (kv_slots h)[i := (kv_slots h ! i)\<lparr>kv_val := v, kv_expires := x\<rparr>]\<rparr>"
  shows "kv_wf h'" "kv_map (kv_slots h') = (kv_map (kv_slots h))(kv_key (kv_slots h ! i) \<mapsto> (v, x))"
proof -
  let ?s = "kv_slots h" and ?e = "kv_slots h ! i"
  let ?e' = "?e\<lparr>kv_val := v, kv_expires := x\<rparr>" and ?clr = "(kv_slots h)[i := kv_clear (kv_slots h ! i)]"
  have occ: "kv_key ?e \<noteq> []" using i by (auto simp: kv_live_def)
  have m0: "mset (kv_live ?s) = add_mset ?e (mset (kv_live ?clr))" unfolding kv_live_clear [OF i(1) occ] using i(2) by (intro insert_DiffM [symmetric]) simp
  have "?clr[i := ?e'] = ?s[i := ?e']" by simp
  moreover have "mset (kv_live (?clr[i := ?e'])) = add_mset ?e' (mset (kv_live ?clr))"
    using occ i(1) by (subst kv_live_update) (simp_all add: kv_clear_def)
  ultimately have m1: "mset (kv_live (?s[i := ?e'])) = add_mset ?e' (mset (kv_live ?clr))" by simp
  have w: "kv_keys_distinct ?s" "\<forall>e \<in> set (kv_live ?s). kv_hash e = brix_kv_hash (kv_key e)" "kv_chain ?s"
    using wf unfolding kv_wf_def by auto
  have ds: "kv_keys_distinct (?s[i := ?e'])" using kv_live_add_set(2) [OF m0] kv_live_add_set(2) [OF m1] w(1) by simp
  show "kv_map (kv_slots h') = (kv_map ?s)(kv_key ?e \<mapsto> (v, x))"
    using kv_map_add(1) [OF m1 ds] unfolding kv_map_add(2) [OF m0 w(1)] by (simp add: h')
  have "kv_chain (?s[i := ?e'])" using kv_chain_same [OF w(3) i(1) _ occ, of ?e'] occ by simp
  moreover have "\<forall>e \<in> set (kv_live (?s[i := ?e'])). kv_hash e = brix_kv_hash (kv_key e)"
    using w(2) i(2) unfolding kv_live_add_set(1) [OF m1] kv_live_add_set(1) [OF m0] by simp
  ultimately show "kv_wf h'" using wf ds kv_live_add_set(3) [OF m0] kv_live_add_set(3) [OF m1] unfolding kv_wf_def h' by simp
qed

section \<open>The contract of an expiring, bounded map\<close>

text \<open>
  The abstract state is a partial map with its limits.  A read removes an expired entry; a write of a
  new key needs room.  \<open>cache_run\<close> performs a sequence of operations and collects the replies.
\<close>

record map_spec =
  ms_key_max :: nat
  ms_val_max :: nat
  ms_limit :: nat
  ms_content :: "bytes \<Rightarrow> (bytes \<times> u64) option"

definition ms_key_ok :: "map_spec \<Rightarrow> bytes \<Rightarrow> bool" where
  "ms_key_ok m key \<longleftrightarrow> key \<noteq> [] \<and> length key \<le> ms_key_max m"

definition ms_clip :: "nat option \<Rightarrow> bytes \<Rightarrow> bytes" where
  "ms_clip cap v = (case cap of None \<Rightarrow> [] | Some c \<Rightarrow> take c v)"

definition ms_stale :: "u64 \<Rightarrow> u64 \<Rightarrow> bool" where
  "ms_stale now x \<longleftrightarrow> x \<noteq> 0 \<and> x \<le> now"

definition ms_get :: "u64 \<Rightarrow> map_spec \<Rightarrow> bytes \<Rightarrow> nat option \<Rightarrow> bytes option \<times> map_spec" where
  "ms_get now m key cap =
     (if \<not> ms_key_ok m key then (None, m)
      else case ms_content m key of None \<Rightarrow> (None, m)
      | Some (v, x) \<Rightarrow>
          if ms_stale now x then (None, m\<lparr>ms_content := (ms_content m)(key := None)\<rparr>) else (Some (ms_clip cap v), m))"

definition ms_set :: "u64 \<Rightarrow> map_spec \<Rightarrow> bytes \<Rightarrow> bytes \<Rightarrow> u64 \<Rightarrow> bool \<times> map_spec" where
  "ms_set now m key val ttl =
     (if ms_key_ok m key \<and> length val \<le> ms_val_max m
         \<and> (ms_content m key \<noteq> None \<or> card (dom (ms_content m)) < ms_limit m)
      then (True, m\<lparr>ms_content := (ms_content m)(key \<mapsto> (val, if ttl \<noteq> 0 then now + ttl else 0))\<rparr>)
      else (False, m))"

definition ms_delete :: "map_spec \<Rightarrow> bytes \<Rightarrow> map_spec" where
  "ms_delete m key = (if ms_key_ok m key then m\<lparr>ms_content := (ms_content m)(key := None)\<rparr> else m)"

datatype cache_op = CacheGet u64 bytes "nat option" | CacheSet u64 bytes bytes u64 | CacheDelete bytes

datatype cache_reply = GotValue "bytes option" | SetDone bool | Deleted

fun cache_step :: "(u64 \<Rightarrow> 's \<Rightarrow> bytes \<Rightarrow> nat option \<Rightarrow> bytes option \<times> 's) \<Rightarrow>
    (u64 \<Rightarrow> 's \<Rightarrow> bytes \<Rightarrow> bytes \<Rightarrow> u64 \<Rightarrow> bool \<times> 's) \<Rightarrow> ('s \<Rightarrow> bytes \<Rightarrow> 's) \<Rightarrow> cache_op \<Rightarrow> 's \<Rightarrow> cache_reply \<times> 's" where
  "cache_step get put del (CacheGet now k cap) s = (let (r, s') = get now s k cap in (GotValue r, s'))"
| "cache_step get put del (CacheSet now k v ttl) s = (let (r, s') = put now s k v ttl in (SetDone r, s'))"
| "cache_step get put del (CacheDelete k) s = (Deleted, del s k)"

fun cache_run :: "(cache_op \<Rightarrow> 's \<Rightarrow> cache_reply \<times> 's) \<Rightarrow> cache_op list \<Rightarrow> 's \<Rightarrow> cache_reply list \<times> 's" where
  "cache_run step [] s = ([], s)"
| "cache_run step (c # cs) s = (let (r, s') = step c s; (rs, t) = cache_run step cs s' in (r # rs, t))"

locale cache_map =
  fixes inv :: "'s \<Rightarrow> bool" and abs :: "'s \<Rightarrow> map_spec"
    and get :: "u64 \<Rightarrow> 's \<Rightarrow> bytes \<Rightarrow> nat option \<Rightarrow> bytes option \<times> 's"
    and put :: "u64 \<Rightarrow> 's \<Rightarrow> bytes \<Rightarrow> bytes \<Rightarrow> u64 \<Rightarrow> bool \<times> 's"
    and del :: "'s \<Rightarrow> bytes \<Rightarrow> 's"
  assumes get_inv: "inv s \<Longrightarrow> inv (snd (get now s k cap))"
    and get_law: "inv s \<Longrightarrow> ms_get now (abs s) k cap = (fst (get now s k cap), abs (snd (get now s k cap)))"
    and set_inv: "inv s \<Longrightarrow> inv (snd (put now s k v ttl))"
    and set_law: "inv s \<Longrightarrow> ms_set now (abs s) k v ttl = (fst (put now s k v ttl), abs (snd (put now s k v ttl)))"
    and del_inv: "inv s \<Longrightarrow> inv (del s k)"
    and del_law: "inv s \<Longrightarrow> ms_delete (abs s) k = abs (del s k)"
begin

lemma step_refines:
  assumes "inv s"
  shows "inv (snd (cache_step get put del c s))"
    and "cache_step ms_get ms_set ms_delete c (abs s) = apsnd abs (cache_step get put del c s)"
  using assms get_inv get_law set_inv set_law del_inv del_law
  by (cases c; simp add: case_prod_beta)+

lemma run_refines:
  "inv s \<Longrightarrow> inv (snd (cache_run (cache_step get put del) cs s))
     \<and> cache_run (cache_step ms_get ms_set ms_delete) cs (abs s) = apsnd abs (cache_run (cache_step get put del) cs s)"
proof (induction cs arbitrary: s)
  case (Cons c cs)
  note st = step_refines [OF Cons.prems, of c]
  show ?case using Cons.IH [OF st(1)] st(2) by (simp add: case_prod_beta apsnd_def)
qed simp

lemma get_after_set:
  assumes "inv s" "fst (put now s k v ttl)" and x: "x = (if ttl \<noteq> 0 then now + ttl else 0)"
  shows "fst (get now' (snd (put now s k v ttl)) k cap) = (if ms_stale now' x then None else Some (ms_clip cap v))"
    and "k' \<noteq> k \<Longrightarrow> fst (get now' (snd (put now s k v ttl)) k' cap) = fst (get now' s k' cap)"
proof -
  let ?s = "snd (put now s k v ttl)"
  have a: "ms_set now (abs s) k v ttl = (True, abs ?s)" using set_law [OF assms(1)] assms(2) by simp
  have i: "inv ?s" using set_inv [OF assms(1)] .
  have c: "ms_key_ok (abs s) k" "abs ?s = (abs s)\<lparr>ms_content := (ms_content (abs s))(k \<mapsto> (v, x))\<rparr>"
    using a unfolding ms_set_def x by (auto split: if_splits)
  show "fst (get now' ?s k cap) = (if ms_stale now' x then None else Some (ms_clip cap v))"
    using get_law [OF i, of now' k cap] c by (auto simp: ms_get_def ms_key_ok_def split: if_splits)
  show "fst (get now' ?s k' cap) = fst (get now' s k' cap)" if "k' \<noteq> k"
    using get_law [OF i, of now' k' cap] get_law [OF assms(1), of now' k' cap] c(2) that
    by (auto simp: ms_get_def ms_key_ok_def split: if_splits option.splits)
qed

end

definition kv_inv :: "brix_kv_t \<Rightarrow> bool" where
  "kv_inv kv \<longleftrightarrow> (case kv_table kv of None \<Rightarrow> True | Some h \<Rightarrow> kv_wf h)"

definition kv_abs :: "brix_kv_t \<Rightarrow> map_spec" where
  "kv_abs kv = \<lparr>ms_key_max = kv_key_max kv, ms_val_max = kv_val_max kv,
     ms_limit = (case kv_table kv of None \<Rightarrow> 0 | Some h \<Rightarrow> kv_capacity h div 2),
     ms_content = (case kv_table kv of None \<Rightarrow> Map.empty | Some h \<Rightarrow> kv_map (kv_slots h))\<rparr>"

lemma kv_wf_counters [simp]:
  "kv_wf (h\<lparr>kv_hits := a\<rparr>) = kv_wf h" "kv_wf (h\<lparr>kv_misses := a\<rparr>) = kv_wf h" "kv_wf (h\<lparr>kv_evictions := a\<rparr>) = kv_wf h"
  by (simp_all add: kv_wf_def)

lemma kv_wf_lookup:
  assumes "kv_wf h" "kv_slots h ! i \<in> set (kv_live (kv_slots h))"
  shows "kv_map (kv_slots h) (kv_key (kv_slots h ! i)) = Some (kv_val (kv_slots h ! i), kv_expires (kv_slots h ! i))"
  using assms kv_map_Some_iff unfolding kv_wf_def by blast

lemma kv_copy_clip: "brix_kv_copy_value e cap = ms_clip cap (kv_val e)"
  by (auto simp: brix_kv_copy_value_def ms_clip_def split: option.split)

lemma kv_get_correct:
  assumes "kv_inv kv"
  shows "kv_inv (snd (brix_kv_get now kv key cap))
     \<and> ms_get now (kv_abs kv) key cap = (fst (brix_kv_get now kv key cap), kv_abs (snd (brix_kv_get now kv key cap)))"
proof (cases "key = [] \<or> length key > kv_key_max kv \<or> kv_table kv = None")
  case True
  then show ?thesis using assms by (auto simp: brix_kv_get_def ms_get_def kv_abs_def ms_key_ok_def split: option.split)
next
  case False
  then obtain h where h: "kv_table kv = Some h" and key: "key \<noteq> []" "length key \<le> kv_key_max kv" by auto
  have wf: "kv_wf h" using assms h by (simp add: kv_inv_def)
  note pb = kv_probe_begin_spec [OF wf key(1)]
  show ?thesis
  proof (cases "kv_probe_begin h key")
    case (KvMatch i)
    then have i: "i < kv_capacity h" "kv_slots h ! i \<in> set (kv_live (kv_slots h))" "kv_key (kv_slots h ! i) = key"
      using pb by auto
    note lk = kv_wf_lookup [OF wf i(2), unfolded i(3)]
    show ?thesis
    proof (cases "ms_stale now (kv_expires (kv_slots h ! i))")
      case True
      then show ?thesis
        using KvMatch h key lk kv_drop_slot_correct [OF wf i(1,2)] i(3)
        by (auto simp: brix_kv_get_def ms_get_def kv_abs_def kv_inv_def ms_key_ok_def ms_stale_def Let_def)
    next
      case False
      then have "\<not> (kv_expires (kv_slots h ! i) \<noteq> 0 \<and> kv_expires (kv_slots h ! i) \<le> now)" by (simp add: ms_stale_def)
      then have "brix_kv_get now kv key cap = (Some (ms_clip cap (kv_val (kv_slots h ! i))), kv\<lparr>kv_table := Some (h\<lparr>kv_hits := kv_hits h + 1\<rparr>)\<rparr>)"
        using KvMatch h key by (simp add: brix_kv_get_def kv_copy_clip del: de_Morgan_conj not_le)
      then show ?thesis using False h key lk wf by (auto simp: ms_get_def kv_abs_def kv_inv_def ms_key_ok_def)
    qed
  next
    case (KvFree i)
    then show ?thesis using pb h key wf by (auto simp: brix_kv_get_def ms_get_def kv_abs_def kv_inv_def ms_key_ok_def)
  next
    case KvExhausted
    then show ?thesis using pb h key wf by (auto simp: brix_kv_get_def ms_get_def kv_abs_def kv_inv_def ms_key_ok_def)
  qed
qed

lemma kv_delete_correct:
  assumes "kv_inv kv"
  shows "kv_inv (brix_kv_delete kv key) \<and> ms_delete (kv_abs kv) key = kv_abs (brix_kv_delete kv key)"
proof (cases "key = [] \<or> length key > kv_key_max kv \<or> kv_table kv = None")
  case True
  then show ?thesis using assms by (auto simp: brix_kv_delete_def ms_delete_def kv_abs_def ms_key_ok_def split: option.split)
next
  case False
  then obtain h where h: "kv_table kv = Some h" and key: "key \<noteq> []" "length key \<le> kv_key_max kv" by auto
  have wf: "kv_wf h" using assms h by (simp add: kv_inv_def)
  note pb = kv_probe_begin_spec [OF wf key(1)]
  show ?thesis
  proof (cases "kv_probe_begin h key")
    case (KvMatch i)
    then have i: "i < kv_capacity h" "kv_slots h ! i \<in> set (kv_live (kv_slots h))" "kv_key (kv_slots h ! i) = key"
      using pb by auto
    show ?thesis using KvMatch h key kv_drop_slot_correct [OF wf i(1,2)] i(3)
      by (auto simp: brix_kv_delete_def ms_delete_def kv_abs_def kv_inv_def ms_key_ok_def)
  next
    case (KvFree i)
    then show ?thesis using pb h key wf by (auto simp: brix_kv_delete_def ms_delete_def kv_abs_def kv_inv_def ms_key_ok_def fun_upd_idem)
  next
    case KvExhausted
    then show ?thesis using pb h key wf by (auto simp: brix_kv_delete_def ms_delete_def kv_abs_def kv_inv_def ms_key_ok_def fun_upd_idem)
  qed
qed

lemma kv_set_correct:
  assumes "kv_inv kv"
  shows "kv_inv (snd (brix_kv_set now kv key val ttl))
     \<and> ms_set now (kv_abs kv) key val ttl = (fst (brix_kv_set now kv key val ttl), kv_abs (snd (brix_kv_set now kv key val ttl)))"
proof (cases "key = [] \<or> length key > kv_key_max kv \<or> length val > kv_val_max kv \<or> kv_table kv = None")
  case True
  then show ?thesis using assms by (auto simp: brix_kv_set_def ms_set_def kv_abs_def ms_key_ok_def split: option.split)
next
  case False
  then obtain h where h: "kv_table kv = Some h" and key: "key \<noteq> []" "length key \<le> kv_key_max kv" "length val \<le> kv_val_max kv" by auto
  have wf: "kv_wf h" using assms h by (simp add: kv_inv_def)
  have cd: "card (dom (kv_map (kv_slots h))) = kv_count h" using wf kv_map_card unfolding kv_wf_def by simp
  have ms: "ms_set now (kv_abs kv) key val ttl =
      (if kv_map (kv_slots h) key \<noteq> None \<or> kv_count h < kv_capacity h div 2
       then (True, (kv_abs kv)\<lparr>ms_content := (kv_map (kv_slots h))(key \<mapsto> (val, if ttl \<noteq> 0 then now + ttl else 0))\<rparr>)
       else (False, kv_abs kv))"
    using h key cd by (simp add: ms_set_def kv_abs_def ms_key_ok_def)
  note pb = kv_probe_begin_spec [OF wf key(1)]
  show ?thesis
  proof (cases "kv_probe_begin h key")
    case (KvMatch i)
    then have i: "i < kv_capacity h" "kv_slots h ! i \<in> set (kv_live (kv_slots h))" "kv_key (kv_slots h ! i) = key"
      using pb by auto
    note lk = kv_wf_lookup [OF wf i(2), unfolded i(3)] and up = kv_update_correct [OF wf i(1,2) refl, where v = val and x = "if ttl \<noteq> 0 then now + ttl else 0"]
    show ?thesis unfolding ms using KvMatch h key lk up i(3) by (simp add: brix_kv_set_def kv_abs_def kv_inv_def Let_def)
  next
    case (KvFree i)
    show ?thesis
    proof (cases "kv_count h < kv_capacity h div 2")
      case True
      obtain d where fr: "kv_map (kv_slots h) key = None" "i < kv_capacity h" "kv_key (kv_slots h ! i) = []"
        and d: "d < kv_capacity h" "i = (unat (brix_kv_hash key) + d) mod kv_capacity h"
          "\<forall>e < d. kv_occ (kv_slots h) ((unat (brix_kv_hash key) + e) mod kv_capacity h)"
        using pb unfolding KvFree kv_stop.case by blast
      let ?e = "\<lparr>kv_hash = brix_kv_hash key, kv_key = key, kv_val = val, kv_expires = (if ttl \<noteq> 0 then now + ttl else 0)\<rparr>"
      note ins = kv_insert_correct [OF wf True key(1) _ _ fr d refl, of ?e]
      have "brix_kv_set now kv key val ttl =
          (True, kv\<lparr>kv_table := Some (h\<lparr>kv_slots := (kv_slots h)[i := ?e], kv_count := kv_count h + 1\<rparr>)\<rparr>)"
        using True KvFree h key by (simp add: brix_kv_set_def Let_def)
      then show ?thesis unfolding ms using True ins h by (simp add: kv_abs_def kv_inv_def)
    next
      case False
      then show ?thesis unfolding ms using KvFree pb h key assms by (simp add: brix_kv_set_def Let_def)
    qed
  next
    case KvExhausted
    then show ?thesis unfolding ms using pb h key assms by (simp add: brix_kv_set_def Let_def)
  qed
qed

interpretation shm_kv: cache_map kv_inv kv_abs brix_kv_get brix_kv_set brix_kv_delete
  by unfold_locales (use kv_get_correct kv_set_correct kv_delete_correct in auto)

section \<open>Configuration and zone initialisation (\<open>kv_config.c\<close>)\<close>

text \<open>
  \<open>size_t\<close> arithmetic is kept at 64 bits.  \<open>hdr\<close> is \<open>sizeof(brix_kv_header_t)\<close>, which depends on nginx's
  lock type; an entry header is 24 bytes.  \<open>ngx_shared_memory_add\<close> is the parameter \<open>shm_add\<close>:
  no zone, or a zone and whether its \<open>data\<close> was already set.
\<close>

function kv_pow2_loop :: "nat \<Rightarrow> nat \<Rightarrow> nat" where
  "kv_pow2_loop p n =
     (if p = 0 then 0 else if p < 0x80000000 \<and> 2 * p \<le> n then kv_pow2_loop (2 * p) n else p)"
  by auto
termination by (relation "measure (\<lambda>(p, n). n - p)") auto

declare kv_pow2_loop.simps [simp del]

definition brix_kv_floor_pow2 :: "nat \<Rightarrow> nat" where
  "brix_kv_floor_pow2 n = (if n = 0 then 0 else kv_pow2_loop 1 n)"

record brix_kv_conf =
  kc_name :: bytes
  kc_size :: u64
  kc_key_max :: u64
  kc_val_max :: u64
  kc_capacity :: nat
  kc_table_bytes :: u64

datatype kv_conf_error = KvTooManyZones | KvTooSmall | KvNoZone | KvDuplicate

definition brix_kv_configure :: "u64 \<Rightarrow> (bytes \<Rightarrow> bool option) \<Rightarrow> brix_kv_conf list \<Rightarrow> bytes \<Rightarrow> u64 \<Rightarrow> u64 \<Rightarrow> u64
    \<Rightarrow> kv_conf_error + brix_kv_conf list" where
  "brix_kv_configure hdr shm_add zones name sz key_max val_max =
     (if length zones \<ge> 16 then Inl KvTooManyZones
      else let sz = (if sz < 65536 then 65536 else sz);
               stride = 24 + key_max + val_max;
               avail = sz - hdr;
               cap = brix_kv_floor_pow2 (unat (avail div stride))
           in if cap < 1 then Inl KvTooSmall
              else let kv = \<lparr>kc_name = name, kc_size = sz, kc_key_max = key_max, kc_val_max = val_max,
                             kc_capacity = cap, kc_table_bytes = hdr + of_nat cap * stride\<rparr>
                   in case shm_add name of None \<Rightarrow> Inl KvNoZone
                      | Some used \<Rightarrow> if used then Inl KvDuplicate else Inr (zones @ [kv]))"

text \<open>
  \<open>brix_shm_table_alloc\<close> hands back a zeroed region (fresh) or the table of an earlier cycle.
\<close>

definition brix_kv_init_zone :: "brix_kv_conf \<Rightarrow> brix_kv_header_t option \<Rightarrow> brix_kv_t" where
  "brix_kv_init_zone c existing =
     \<lparr>kv_key_max = unat (kc_key_max c), kv_val_max = unat (kc_val_max c),
      kv_table = Some (case existing of Some h \<Rightarrow> h
        | None \<Rightarrow> \<lparr>kv_count = 0, kv_hits = 0, kv_misses = 0, kv_evictions = 0,
            kv_slots = replicate (kc_capacity c) \<lparr>kv_hash = 0, kv_key = [], kv_val = [], kv_expires = 0\<rparr>\<rparr>)\<rparr>"

definition brix_kv_find :: "brix_kv_conf list \<Rightarrow> bytes \<Rightarrow> brix_kv_conf option" where
  "brix_kv_find zones name = find (\<lambda>z. kc_name z = name) zones"

definition brix_kv_zone_get :: "brix_kv_conf list \<Rightarrow> nat \<Rightarrow> brix_kv_conf option" where
  "brix_kv_zone_get zones i = (if i < length zones then Some (zones ! i) else None)"

lemma kv_pow2_loop_spec:
  "p = 2 ^ j \<Longrightarrow> p \<le> n \<Longrightarrow> (\<exists>k. kv_pow2_loop p n = 2 ^ k) \<and> kv_pow2_loop p n \<le> n
     \<and> (n < 2 ^ 32 \<longrightarrow> n < 2 * kv_pow2_loop p n)"
proof (induction p n arbitrary: j rule: kv_pow2_loop.induct)
  case (1 p n)
  show ?case
  proof (cases "p < 0x80000000 \<and> 2 * p \<le> n")
    case True
    have "2 * p = 2 ^ Suc j" using 1(2) by simp
    from 1(1) [OF _ True this] True 1(2) show ?thesis by (subst (1 2 3) kv_pow2_loop.simps) simp
  next
    case False
    have e: "kv_pow2_loop p n = p" using 1(2) False by (subst kv_pow2_loop.simps) auto
    show ?thesis unfolding e using 1(2,3) False by auto
  qed
qed

lemma brix_kv_floor_pow2_spec:
  assumes "0 < n"
  shows "\<exists>k. brix_kv_floor_pow2 n = 2 ^ k" "brix_kv_floor_pow2 n \<le> n" "n < 2 ^ 32 \<Longrightarrow> n < 2 * brix_kv_floor_pow2 n"
  using kv_pow2_loop_spec [of 1 0 n] assms by (auto simp: brix_kv_floor_pow2_def)

lemma kv_fresh_wf:
  assumes "kc_capacity c = 2 ^ k"
  shows "kv_inv (brix_kv_init_zone c None)" "ms_content (kv_abs (brix_kv_init_zone c None)) = Map.empty"
    "ms_limit (kv_abs (brix_kv_init_zone c None)) = kc_capacity c div 2"
proof -
  have l: "kv_live (replicate m \<lparr>kv_hash = 0, kv_key = [], kv_val = [], kv_expires = 0\<rparr>) = []" for m
    by (simp add: kv_live_def)
  show "kv_inv (brix_kv_init_zone c None)"
    using assms by (auto simp: kv_inv_def brix_kv_init_zone_def kv_wf_def kv_chain_def l)
  show "ms_content (kv_abs (brix_kv_init_zone c None)) = Map.empty"
    "ms_limit (kv_abs (brix_kv_init_zone c None)) = kc_capacity c div 2"
    by (simp_all add: kv_abs_def brix_kv_init_zone_def kv_map_def l)
qed

lemma kv_configure_cases:
  assumes ok: "brix_kv_configure hdr shm_add zones name sz key_max val_max = Inr zones'"
    and small: "hdr \<le> 65536" and nowrap: "24 + unat key_max + unat val_max < 2 ^ 64"
  shows "\<exists>c. zones' = zones @ [c] \<and> (\<exists>k. kc_capacity c = 2 ^ k) \<and> kc_name c = name
     \<and> unat (kc_table_bytes c) = unat hdr + kc_capacity c * (24 + unat key_max + unat val_max)
     \<and> unat (kc_table_bytes c) \<le> unat (kc_size c) \<and> length zones < 16"
proof -
  define s where "s = (if sz < 65536 then 65536 else sz)"
  let ?stride = "24 + key_max + val_max" and ?S = "24 + unat key_max + unat val_max"
  let ?q = "unat ((s - hdr) div ?stride)" and ?cap = "brix_kv_floor_pow2 (unat ((s - hdr) div ?stride))"
  have st: "unat ?stride = ?S" using nowrap by (simp add: unat_word_ariths)
  have hs: "hdr \<le> s" using small unfolding s_def by auto
  have pos: "0 < ?q" using ok by (auto simp: brix_kv_configure_def Let_def s_def brix_kv_floor_pow2_def split: if_splits)
  note fp = brix_kv_floor_pow2_spec [OF pos]
  have q: "?q = (unat s - unat hdr) div ?S" using hs by (simp add: unat_div st unat_sub)
  have "?cap * ?S \<le> ?q * ?S" using fp(2) by (rule mult_le_mono1)
  also have "\<dots> \<le> unat s - unat hdr" unfolding q by (rule div_times_less_eq_dividend)
  finally have fit: "unat hdr + ?cap * ?S \<le> unat s" using hs by (simp add: word_le_nat_alt)
  have lt: "unat hdr + ?cap * ?S < 2 ^ 64"
  proof -
    have "unat s < 2 ^ LENGTH(64)" by (rule unsigned_less)
    then show ?thesis using fit by simp
  qed
  have "hdr + of_nat ?cap * ?stride = of_nat (unat hdr + ?cap * ?S)"
    unfolding of_nat_add of_nat_mult by simp
  moreover have "unat (of_nat (unat hdr + ?cap * ?S) :: u64) = unat hdr + ?cap * ?S"
    unfolding unat_of_nat using lt by simp
  ultimately have tb: "unat (hdr + of_nat ?cap * ?stride) = unat hdr + ?cap * ?S"
    by simp
  have "zones' = zones @ [\<lparr>kc_name = name, kc_size = s, kc_key_max = key_max, kc_val_max = val_max,
      kc_capacity = ?cap, kc_table_bytes = hdr + of_nat ?cap * ?stride\<rparr>] \<and> length zones < 16"
    using ok by (auto simp: brix_kv_configure_def Let_def s_def split: if_splits option.splits)
  then show ?thesis using fp(1) tb fit by auto
qed

section \<open>Properties\<close>

text \<open>
  C16. Backward-shift deletion.  In a well-formed table (power-of-two capacity, unbroken probe chains, at
  most half full) deleting any live slot ends within as many steps as there are slots, keeps the
  number of slots and the probe chains, and removes exactly that entry.
\<close>
theorem kv_remove_at_exact:
  assumes "kv_wf h" "i < kv_capacity h" "kv_key (kv_slots h ! i) \<noteq> []"
  shows "\<exists>s'. brix_kv_remove_at (kv_capacity h - 1) i (kv_slots h) = Some s' \<and> length s' = kv_capacity h
     \<and> kv_chain s' \<and> mset (kv_live s') = mset (kv_live (kv_slots h)) - {#kv_slots h ! i#}"
proof -
  obtain k where k: "kv_capacity h = 2 ^ k" using assms unfolding kv_wf_def by blast
  then have "0 < kv_capacity h" by simp
  moreover have "length (kv_live (kv_slots h)) \<le> kv_capacity h div 2" "kv_chain (kv_slots h)"
    using assms unfolding kv_wf_def by auto
  ultimately have "length (kv_live (kv_slots h)) < kv_capacity h" "kv_chain (kv_slots h)" by linarith+
  then show ?thesis using kv_remove_at_correct [OF k _ _ assms(2,3)] by simp
qed

text \<open>
  C2. Refinement.  Starting from a handle whose table is well formed (or not yet initialised), every
  sequence of gets, sets and deletes, at any clock readings and with any keys and values, gives
  exactly the replies of a bounded map with expiring entries: a get returns the stored value clipped to
  the caller's buffer unless it has expired (then the entry is removed), a set succeeds exactly when
  the sizes are legal and the key is present or fewer than half the buckets are used, a delete
  removes the key.  The table stays well formed.
\<close>
theorem kv_refines_map:
  assumes "kv_inv kv"
  shows "kv_inv (snd (cache_run (cache_step brix_kv_get brix_kv_set brix_kv_delete) ops kv))
     \<and> cache_run (cache_step ms_get ms_set ms_delete) ops (kv_abs kv)
       = apsnd kv_abs (cache_run (cache_step brix_kv_get brix_kv_set brix_kv_delete) ops kv)"
  using assms by (rule shm_kv.run_refines)

text \<open>
  Round trip.  After a successful set, a get of that key returns the value (clipped to the caller's
  buffer) at every time at which the entry has not expired, and every other key reads as before.
\<close>
theorem kv_get_after_set:
  assumes "kv_inv kv" "fst (brix_kv_set now kv key val ttl)" "\<not> ms_stale now' (if ttl \<noteq> 0 then now + ttl else 0)"
  shows "fst (brix_kv_get now' (snd (brix_kv_set now kv key val ttl)) key (Some n)) = Some (take n val)
     \<and> (\<forall>other. other \<noteq> key \<longrightarrow>
          fst (brix_kv_get now' (snd (brix_kv_set now kv key val ttl)) other cap) = fst (brix_kv_get now' kv other cap))"
  using shm_kv.get_after_set [OF assms(1,2) refl] assms(3) by (simp add: ms_clip_def)

text \<open>
  Configuration.  A zone that is accepted has a power-of-two number of buckets, its table (header
  and all buckets) fits the configured size without arithmetic overflow, and a fresh zone is a
  well-formed empty map with room for half its buckets.
\<close>
theorem kv_configure_sound:
  assumes "brix_kv_configure hdr shm_add zones name sz key_max val_max = Inr zones'"
    and "hdr \<le> 65536" "24 + unat key_max + unat val_max < 2 ^ 64"
  shows "\<exists>c. zones' = zones @ [c]
     \<and> unat (kc_table_bytes c) = unat hdr + kc_capacity c * (24 + unat key_max + unat val_max)
     \<and> unat (kc_table_bytes c) \<le> unat (kc_size c) \<and> kv_inv (brix_kv_init_zone c None)
     \<and> ms_content (kv_abs (brix_kv_init_zone c None)) = Map.empty
     \<and> ms_limit (kv_abs (brix_kv_init_zone c None)) = kc_capacity c div 2"
  using kv_configure_cases [OF assms] kv_fresh_wf by blast

section \<open>Witnesses\<close>

definition kv_example_zone :: brix_kv_conf where
  "kv_example_zone = \<lparr>kc_name = [], kc_size = 65536, kc_key_max = 8, kc_val_max = 8, kc_capacity = 4, kc_table_bytes = 0\<rparr>"

definition kv_example :: brix_kv_t where
  "kv_example = snd (brix_kv_set 5 (brix_kv_init_zone kv_example_zone None) [1] [2, 3] 0)"

lemma kv_example_inv: "kv_inv (brix_kv_init_zone kv_example_zone None)" "kv_inv kv_example"
proof -
  show a: "kv_inv (brix_kv_init_zone kv_example_zone None)"
    by (rule kv_fresh_wf(1) [of _ 2]) (simp add: kv_example_zone_def)
  show "kv_inv kv_example" unfolding kv_example_def using a by (rule shm_kv.set_inv)
qed

lemma kv_example_set:
  "fst (brix_kv_set 5 (brix_kv_init_zone kv_example_zone None) [1] [2, 3] 0)"
  "ms_content (kv_abs kv_example) [1] = Some ([2, 3], 0)"
proof -
  let ?z = "brix_kv_init_zone kv_example_zone None"
  have c: "kc_capacity kv_example_zone = 2 ^ 2" by (simp add: kv_example_zone_def)
  have k: "ms_key_max (kv_abs ?z) = 8" "ms_val_max (kv_abs ?z) = 8"
    by (simp_all add: kv_abs_def brix_kv_init_zone_def kv_example_zone_def)
  have "ms_set 5 (kv_abs ?z) [1] [2, 3] 0 = (True, (kv_abs ?z)\<lparr>ms_content := [[1] \<mapsto> ([2, 3], 0)]\<rparr>)"
    using kv_fresh_wf(2,3) [OF c] c by (simp add: ms_set_def ms_key_ok_def k)
  then show "fst (brix_kv_set 5 ?z [1] [2, 3] 0)" "ms_content (kv_abs kv_example) [1] = Some ([2, 3], 0)"
    using shm_kv.set_law [OF kv_example_inv(1), of 5 "[1]" "[2, 3]" 0] by (simp_all add: kv_example_def)
qed

theorem kv_remove_at_exact_witness:
  "\<exists>h i s'. kv_table kv_example = Some h \<and> kv_key (kv_slots h ! i) = [1]
     \<and> brix_kv_remove_at (kv_capacity h - 1) i (kv_slots h) = Some s' \<and> length s' = kv_capacity h \<and> kv_chain s'"
proof -
  obtain h where h: "kv_table kv_example = Some h"
    using kv_example_set(2) by (auto simp: kv_abs_def split: option.splits)
  then have "kv_map (kv_slots h) [1] \<noteq> None" using kv_example_set(2) by (simp add: kv_abs_def)
  then obtain i where i: "i < kv_capacity h" "kv_key (kv_slots h ! i) = [1]"
    unfolding kv_map_None_iff by (auto simp: kv_live_mem)
  have "kv_wf h" using kv_example_inv(2) h by (simp add: kv_inv_def)
  from kv_remove_at_exact [OF this i(1)] i(2) h show ?thesis by auto
qed

theorem kv_refines_map_witness:
  "cache_run (cache_step ms_get ms_set ms_delete) [CacheDelete [1], CacheGet 9 [1] None] (kv_abs kv_example)
     = apsnd kv_abs (cache_run (cache_step brix_kv_get brix_kv_set brix_kv_delete) [CacheDelete [1], CacheGet 9 [1] None] kv_example)"
  using kv_refines_map [OF kv_example_inv(2)] by blast

theorem kv_get_after_set_witness:
  "fst (brix_kv_get 9 (snd (brix_kv_set 5 (brix_kv_init_zone kv_example_zone None) [1] [2, 3] 0)) [1] (Some 4)) = Some [2, 3]"
  using kv_get_after_set [OF kv_example_inv(1) kv_example_set(1), of 9 4] by (simp add: ms_stale_def)

theorem kv_configure_sound_witness:
  "\<exists>zones' c. brix_kv_configure 64 (\<lambda>_. Some False) [] [1] 0 8 8 = Inr zones' \<and> zones' = [c]
     \<and> kv_inv (brix_kv_init_zone c None)"
proof -
  have "brix_kv_floor_pow2 1636 = 1024" by (simp add: brix_kv_floor_pow2_def kv_pow2_loop.simps)
  then obtain z where z: "brix_kv_configure 64 (\<lambda>_. Some False) [] [1] 0 8 8 = Inr z"
    by (simp add: brix_kv_configure_def Let_def)
  from kv_configure_sound [OF z] have "\<exists>c. z = [] @ [c] \<and> kv_inv (brix_kv_init_zone c None)" by fastforce
  then show ?thesis using z by auto
qed

end
