(* ===== verification/Rate_Limit.thy ===== *)
theory Rate_Limit
  imports Shm_Kv
begin

text \<open>
  The token-bucket rate limiter of \<^verbatim>\<open>src/core/shm/rate_limit.c\<close>, a client of the shared key/value
  store: one bucket record per identity, read, refilled by the elapsed time, spent and written back.  The
  record is the 16-byte image of the C struct on a little-endian machine, with four padding
  bytes of unknown content.  All arithmetic is at the code's widths.
\<close>

section \<open>The admission test\<close>

record brix_rl_val_t =
  rl_tokens :: u32
  rl_last_refill :: u64

record brix_rate_limit_conf_t =
  rl_rate :: u64
  rl_burst :: u64

definition rl_image :: "bytes \<Rightarrow> brix_rl_val_t \<Rightarrow> bytes" where
  "rl_image pad v = le_bytes 4 (rl_tokens v) @ pad @ le_bytes 8 (rl_last_refill v)"

definition rl_decode :: "bytes \<Rightarrow> brix_rl_val_t" where
  "rl_decode buf = \<lparr>rl_tokens = le_word (take 4 buf), rl_last_refill = le_word (take 8 (drop 8 buf))\<rparr>"

definition rl_key :: "bytes \<Rightarrow> bytes" where
  "rl_key ident = [0x72, 0x6c, 0x3a] @ take 256 ident"

definition rl_refill :: "u64 \<Rightarrow> brix_rate_limit_conf_t \<Rightarrow> brix_rl_val_t \<Rightarrow> brix_rl_val_t" where
  "rl_refill now c v =
     (let elapsed = now - rl_last_refill v
      in if elapsed > 0
         then let refill = (ucast (elapsed * rl_rate c div 1000) :: u32)
              in if refill > 0
                 then let t = (ucast (rl_tokens v) :: u64) + ucast refill
                      in v\<lparr>rl_tokens := (if t > rl_burst c then ucast (rl_burst c) else ucast t), rl_last_refill := now\<rparr>
                 else v
         else v)"

definition rl_ttl :: "brix_rate_limit_conf_t \<Rightarrow> u64" where
  "rl_ttl c = rl_burst c * 1000 div rl_rate c + 1000"

text \<open>
  A disabled limit (no configuration, no zone) is \<open>None\<close>.  The result is \<open>True\<close> for \<open>NGX_OK\<close> and \<open>False\<close> for
  \<open>NGX_DECLINED\<close>; \<open>pad\<close> is the padding of the record on the stack.
\<close>

definition brix_rate_limit_check ::
  "u64 \<Rightarrow> bytes \<Rightarrow> brix_rate_limit_conf_t option \<Rightarrow> brix_kv_t option \<Rightarrow> bytes \<Rightarrow> bool \<times> brix_kv_t option" where
  "brix_rate_limit_check now pad rl kv ident = (case (rl, kv) of
     (Some c, Some kv) \<Rightarrow>
       if rl_rate c = 0 \<or> rl_burst c = 0 then (True, Some kv)
       else let key = rl_key ident;
                buf = rl_image pad \<lparr>rl_tokens = ucast (rl_burst c), rl_last_refill = now\<rparr>;
                (got, kv) = brix_kv_get now kv key (Some 16);
                buf = (case got of None \<Rightarrow> buf | Some g \<Rightarrow> g @ drop (length g) buf);
                v = rl_refill now c (rl_decode buf);
                pad = take 4 (drop 4 buf);
                ttl = rl_ttl c
            in if rl_tokens v = 0 then (False, Some (snd (brix_kv_set now kv key (rl_image pad v) ttl)))
               else let v = v\<lparr>rl_tokens := rl_tokens v - 1\<rparr>
                    in (True, Some (snd (brix_kv_set now kv key (rl_image pad v) ttl)))
   | (_, kv) \<Rightarrow> (True, kv))"

section \<open>The directive\<close>

text \<open>\<open>atoi\<close> is \<open>ngx_atoi\<close>, \<open>-1\<close> for no number.\<close>

definition brix_rl_parse_rate :: "(bytes \<Rightarrow> int) \<Rightarrow> bytes \<Rightarrow> u64 option" where
  "brix_rl_parse_rate atoi arg =
     (let p = drop 5 arg;
          p = (if length p > 3 \<and> drop (length p - 3) p = chars ''r/s'' then take (length p - 3) p else p);
          n = atoi p
      in if n = -1 \<or> n \<le> 0 then None else Some (of_int n))"

definition brix_rl_parse_burst :: "(bytes \<Rightarrow> int) \<Rightarrow> bytes \<Rightarrow> u64 option" where
  "brix_rl_parse_burst atoi arg = (let n = atoi (drop 6 arg) in if n = -1 \<or> n \<le> 0 then None else Some (of_int n))"

definition brix_rl_parse_key :: "bytes \<Rightarrow> bool option" where
  "brix_rl_parse_key arg =
     (if length arg = 6 \<and> drop 4 arg = chars ''ip'' then Some True
      else if length arg = 6 \<and> drop 4 arg = chars ''dn'' then Some False else None)"

record rl_args =
  ra_zone :: bytes
  ra_rate :: u64
  ra_burst :: u64
  ra_key_ip :: bool

definition brix_rl_parse_arg :: "(bytes \<Rightarrow> int) \<Rightarrow> bytes \<Rightarrow> rl_args \<Rightarrow> rl_args option" where
  "brix_rl_parse_arg atoi arg a =
     (if take 5 arg = chars ''zone='' then Some (a\<lparr>ra_zone := drop 5 arg\<rparr>)
      else if take 5 arg = chars ''rate='' then map_option (\<lambda>n. a\<lparr>ra_rate := n\<rparr>) (brix_rl_parse_rate atoi arg)
      else if take 6 arg = chars ''burst='' then map_option (\<lambda>n. a\<lparr>ra_burst := n\<rparr>) (brix_rl_parse_burst atoi arg)
      else if take 4 arg = chars ''key='' then map_option (\<lambda>b. a\<lparr>ra_key_ip := b\<rparr>) (brix_rl_parse_key arg)
      else None)"

definition brix_rl_resolve_zone :: "brix_kv_conf list \<Rightarrow> bytes \<Rightarrow> brix_kv_conf option" where
  "brix_rl_resolve_zone zones zone = (case brix_kv_find zones zone of None \<Rightarrow> None
     | Some kv \<Rightarrow> if kc_val_max kv < 16 then None else Some kv)"

fun rl_parse_args :: "(bytes \<Rightarrow> int) \<Rightarrow> bytes list \<Rightarrow> rl_args \<Rightarrow> rl_args option" where
  "rl_parse_args atoi [] a = Some a"
| "rl_parse_args atoi (w # ws) a = (case brix_rl_parse_arg atoi w a of None \<Rightarrow> None | Some a \<Rightarrow> rl_parse_args atoi ws a)"

definition brix_rate_limit_directive ::
  "(bytes \<Rightarrow> int) \<Rightarrow> brix_kv_conf list \<Rightarrow> bytes list \<Rightarrow> (brix_kv_conf \<times> brix_rate_limit_conf_t \<times> bool) option" where
  "brix_rate_limit_directive atoi zones args =
     (case rl_parse_args atoi args \<lparr>ra_zone = [], ra_rate = 0, ra_burst = 0, ra_key_ip = False\<rparr> of
        None \<Rightarrow> None
      | Some a \<Rightarrow>
          if ra_zone a = [] \<or> ra_rate a = 0 \<or> ra_burst a = 0 then None
          else case brix_rl_resolve_zone zones (ra_zone a) of None \<Rightarrow> None
               | Some kv \<Rightarrow> Some (kv, \<lparr>rl_rate = ra_rate a, rl_burst = ra_burst a\<rparr>, ra_key_ip a))"

section \<open>The bucket record\<close>

lemma rl_decode_image [simp]: "length pad = 4 \<Longrightarrow> rl_decode (rl_image pad v) = v"
  by (cases v) (simp add: rl_decode_def rl_image_def)

lemma length_rl_image [simp]: "length pad = 4 \<Longrightarrow> length (rl_image pad v) = 16"
  by (simp add: rl_image_def)

lemma unat_widen: "unat (ucast (x :: u32) :: u64) = unat x"
proof -
  have "unat x < 2 ^ LENGTH(32)" by (rule unsigned_less)
  then have "take_bit LENGTH(64) (unat x) = unat x" by (intro take_bit_nat_eq_self) simp
  then show ?thesis by (simp only: unsigned_ucast_eq)
qed

lemma rl_refill_bounds:
  assumes b: "unat (rl_burst c) < 2 ^ 32" and tok: "unat (rl_tokens v) \<le> unat (rl_burst c)" and l: "rl_last_refill v \<le> now"
  defines "w \<equiv> rl_refill now c v"
  shows "unat (rl_tokens w) \<le> unat (rl_burst c)" "rl_last_refill v \<le> rl_last_refill w" "rl_last_refill w \<le> now"
    "1000 * unat (rl_tokens w) \<le> 1000 * unat (rl_tokens v)
       + unat (rl_rate c) * (unat (rl_last_refill w) - unat (rl_last_refill v))"
proof -
  let ?el = "now - rl_last_refill v"
  let ?q = "?el * rl_rate c div 1000"
  let ?r = "ucast ?q :: u32"
  let ?t = "(ucast (rl_tokens v) :: u64) + ucast ?r"
  have el: "unat ?el = unat now - unat (rl_last_refill v)" using l by (simp add: unat_sub)
  have "unat (?el * rl_rate c) \<le> unat ?el * unat (rl_rate c)" by (simp add: unat_word_ariths(2))
  then have q: "1000 * unat ?q \<le> unat (rl_rate c) * unat ?el"
    by (simp add: unat_div mult.commute)
  have rq: "unat ?r \<le> unat ?q" by (simp add: unsigned_ucast_eq)
  have t: "unat ?t = unat (rl_tokens v) + unat ?r"
  proof -
    have "unat (ucast (rl_tokens v) :: u64) = unat (rl_tokens v)" "unat (ucast ?r :: u64) = unat ?r"
      by (rule unat_widen)+
    moreover have "unat (rl_tokens v) < 2 ^ LENGTH(32)" "unat ?r < 2 ^ LENGTH(32)" by (rule unsigned_less)+
    ultimately show ?thesis by (simp add: unat_word_ariths(1))
  qed
  show "unat (rl_tokens w) \<le> unat (rl_burst c)" "rl_last_refill v \<le> rl_last_refill w" "rl_last_refill w \<le> now"
    "1000 * unat (rl_tokens w) \<le> 1000 * unat (rl_tokens v)
       + unat (rl_rate c) * (unat (rl_last_refill w) - unat (rl_last_refill v))"
  proof -
    consider "w = v" | "w = v\<lparr>rl_tokens := (if ?t > rl_burst c then ucast (rl_burst c) else ucast ?t), rl_last_refill := now\<rparr>"
      unfolding w_def rl_refill_def Let_def by metis
    then have "unat (rl_tokens w) \<le> unat (rl_burst c) \<and> rl_last_refill v \<le> rl_last_refill w \<and> rl_last_refill w \<le> now
      \<and> 1000 * unat (rl_tokens w) \<le> 1000 * unat (rl_tokens v)
       + unat (rl_rate c) * (unat (rl_last_refill w) - unat (rl_last_refill v))"
    proof cases
      case 1
      then show ?thesis using tok l by simp
    next
      case 2
      have "unat (rl_tokens w) \<le> unat (rl_burst c) \<and> unat (rl_tokens w) \<le> unat ?t"
        using 2 b by (auto simp: unsigned_ucast_eq take_bit_nat_eq_self word_less_nat_alt)
      moreover have "1000 * unat ?t \<le> 1000 * unat (rl_tokens v) + unat (rl_rate c) * unat ?el" using t rq q by linarith
      ultimately show ?thesis using 2 l el by auto
    qed
    then show "unat (rl_tokens w) \<le> unat (rl_burst c)" "rl_last_refill v \<le> rl_last_refill w" "rl_last_refill w \<le> now"
      "1000 * unat (rl_tokens w) \<le> 1000 * unat (rl_tokens v)
       + unat (rl_rate c) * (unat (rl_last_refill w) - unat (rl_last_refill v))" by blast+
  qed
qed

lemma rl_ttl_nat:
  assumes "unat (rl_burst c) < 2 ^ 32"
  shows "unat (rl_ttl c) = unat (rl_burst c) * 1000 div unat (rl_rate c) + 1000"
proof -
  have a: "unat (rl_burst c * 1000) = unat (rl_burst c) * 1000" using assms by (simp add: unat_word_ariths(2))
  have "unat (rl_burst c) * 1000 div unat (rl_rate c) \<le> unat (rl_burst c) * 1000" by (rule div_le_dividend)
  moreover have "unat (rl_burst c) * 1000 < 2 ^ 32 * 1000" using assms by simp
  moreover have "2 ^ 32 * 1000 + 1000 < (2 ^ 64 :: nat)" by simp
  ultimately have "unat (rl_burst c) * 1000 div unat (rl_rate c) + 1000 < (2 ^ 64 :: nat)" by linarith
  moreover have "unat (rl_ttl c) = (unat (rl_burst c) * 1000 div unat (rl_rate c) + 1000) mod 2 ^ 64"
    by (simp add: rl_ttl_def unat_word_ariths(1) unat_div a)
  ultimately show ?thesis by (metis mod_less)
qed

lemma rl_ttl_refills:
  assumes "unat (rl_burst c) < 2 ^ 32" "0 < unat (rl_rate c)"
  shows "1000 * unat (rl_burst c) \<le> unat (rl_rate c) * unat (rl_ttl c)" "1000 \<le> unat (rl_ttl c)"
proof -
  let ?b = "unat (rl_burst c)" and ?r = "unat (rl_rate c)"
  have e: "?r * (?b * 1000 div ?r) + ?b * 1000 mod ?r = ?b * 1000" by (rule mult_div_mod_eq)
  have "?b * 1000 mod ?r < ?r" using assms(2) by simp
  then have "?b * 1000 \<le> ?r * (?b * 1000 div ?r) + ?r * 1000" using e by linarith
  then have "?b * 1000 \<le> ?r * (?b * 1000 div ?r + 1000)" by (simp only: distrib_left)
  then show "1000 * ?b \<le> ?r * unat (rl_ttl c)" using rl_ttl_nat [OF assms(1)] by (simp add: mult.commute)
  show "1000 \<le> unat (rl_ttl c)" using rl_ttl_nat [OF assms(1)] by simp
qed

section \<open>Runs of requests\<close>

text \<open>A request is its time, the stack padding and the identity.\<close>

fun rl_run :: "brix_rate_limit_conf_t \<Rightarrow> brix_kv_t \<Rightarrow> (u64 \<times> bytes \<times> bytes) list \<Rightarrow> bool list \<times> brix_kv_t option" where
  "rl_run c kv [] = ([], Some kv)"
| "rl_run c kv ((now, pad, ident) # reqs) =
     (case brix_rate_limit_check now pad (Some c) (Some kv) ident of
        (ok, None) \<Rightarrow> ([ok], None)
      | (ok, Some kv) \<Rightarrow> let (oks, kv) = rl_run c kv reqs in (ok # oks, kv))"

definition rl_admitted :: "bytes \<Rightarrow> (u64 \<times> bytes \<times> bytes) list \<Rightarrow> bool list \<Rightarrow> nat" where
  "rl_admitted ident reqs oks = length (filter (\<lambda>((_, _, i), ok). ok \<and> rl_key i = rl_key ident) (zip reqs oks))"

text \<open>One admission test against the abstract map: the bucket read, the bucket written, the verdict.\<close>

definition rl_bucket :: "u64 \<Rightarrow> brix_rate_limit_conf_t \<Rightarrow> (bytes \<times> u64) option \<Rightarrow> brix_rl_val_t" where
  "rl_bucket now c entry = rl_refill now c (case entry of
     Some (img, x) \<Rightarrow> if ms_stale now x then \<lparr>rl_tokens = ucast (rl_burst c), rl_last_refill = now\<rparr> else rl_decode img
   | None \<Rightarrow> \<lparr>rl_tokens = ucast (rl_burst c), rl_last_refill = now\<rparr>)"

definition rl_spend :: "brix_rl_val_t \<Rightarrow> brix_rl_val_t" where
  "rl_spend v = (if rl_tokens v = 0 then v else v\<lparr>rl_tokens := rl_tokens v - 1\<rparr>)"

lemma rl_check_step:
  fixes now :: u64
  assumes inv: "kv_inv kv" and en: "rl_rate c \<noteq> 0" "rl_burst c \<noteq> 0" and pad: "length pad = 4"
    and fits: "length (rl_key ident) \<le> kv_key_max kv" "16 \<le> kv_val_max kv"
    and img: "\<forall>g x. ms_content (kv_abs kv) (rl_key ident) = Some (g, x) \<longrightarrow> length g = 16"
    and room: "card (insert (rl_key ident) (dom (ms_content (kv_abs kv)))) \<le> ms_limit (kv_abs kv)"
    and fin: "finite (dom (ms_content (kv_abs kv)))"
  defines "v \<equiv> rl_bucket now c (ms_content (kv_abs kv) (rl_key ident))"
  shows "\<exists>kv' pad'. length pad' = 4 \<and> brix_rate_limit_check now pad (Some c) (Some kv) ident = (rl_tokens v \<noteq> 0, Some kv')
     \<and> kv_inv kv' \<and> kv_abs kv' = (kv_abs kv)\<lparr>ms_content := (ms_content (kv_abs kv))
          (rl_key ident \<mapsto> (rl_image pad' (rl_spend v), if rl_ttl c \<noteq> 0 then now + rl_ttl c else 0))\<rparr>"
proof -
  let ?k = "rl_key ident" and ?m = "kv_abs kv"
  let ?b0 = "rl_image pad \<lparr>rl_tokens = ucast (rl_burst c), rl_last_refill = now\<rparr>"
  obtain got kv1 where g: "brix_kv_get now kv ?k (Some 16) = (got, kv1)" by (cases "brix_kv_get now kv ?k (Some 16)")
  have ok: "ms_key_ok ?m ?k" using fits(1) by (simp add: ms_key_ok_def kv_abs_def rl_key_def)
  have mg: "ms_get now ?m ?k (Some 16) = (got, kv_abs kv1)" using shm_kv.get_law [OF inv, of now ?k "Some 16"] g by simp
  have i1: "kv_inv kv1" using shm_kv.get_inv [OF inv, of now ?k "Some 16"] g by simp
  define buf where "buf = (case got of None \<Rightarrow> ?b0 | Some b \<Rightarrow> b @ drop (length b) ?b0)"
  have got: "got = (case ms_content ?m ?k of None \<Rightarrow> None | Some (b, x) \<Rightarrow> if ms_stale now x then None else Some b)"
    using mg img ok by (auto simp: ms_get_def ms_clip_def split: option.splits if_splits)
  have c1: "kv_abs kv1 = ?m \<or> kv_abs kv1 = ?m\<lparr>ms_content := (ms_content ?m)(?k := None)\<rparr>"
    using mg ok by (auto simp: ms_get_def split: option.splits if_splits)
  have lb: "length buf = 16" using pad img unfolding buf_def got by (auto split: option.splits)
  have dec: "rl_refill now c (rl_decode buf) = v"
    using pad img unfolding buf_def got v_def rl_bucket_def by (auto split: option.splits)
  define pad' where "pad' = take 4 (drop 4 buf)"
  have p': "length pad' = 4" using lb by (simp add: pad'_def)
  define kv2 where "kv2 = snd (brix_kv_set now kv1 ?k (rl_image pad' (rl_spend v)) (rl_ttl c))"
  have chk: "brix_rate_limit_check now pad (Some c) (Some kv) ident = (rl_tokens v \<noteq> 0, Some kv2)"
    using en unfolding brix_rate_limit_check_def Let_def prod.case option.case g buf_def [symmetric] dec pad'_def [symmetric] kv2_def rl_spend_def
    by simp
  have room1: "ms_content (kv_abs kv1) ?k \<noteq> None \<or> card (dom (ms_content (kv_abs kv1))) < ms_limit (kv_abs kv1)"
  proof (cases "ms_content (kv_abs kv1) ?k")
    case None
    then have sub: "dom (ms_content (kv_abs kv1)) \<subset> insert ?k (dom (ms_content ?m))" using c1 by auto
    then have "card (dom (ms_content (kv_abs kv1))) < card (insert ?k (dom (ms_content ?m)))"
      using fin by (intro psubset_card_mono) auto
    then show ?thesis using room c1 by auto
  qed simp
  have ok1: "ms_key_ok (kv_abs kv1) ?k" "ms_val_max (kv_abs kv1) = kv_val_max kv"
    using ok c1 by (auto simp: ms_key_ok_def kv_abs_def)
  have "ms_set now (kv_abs kv1) ?k (rl_image pad' (rl_spend v)) (rl_ttl c) = (True, (kv_abs kv1)\<lparr>ms_content :=
      (ms_content (kv_abs kv1))(?k \<mapsto> (rl_image pad' (rl_spend v), if rl_ttl c \<noteq> 0 then now + rl_ttl c else 0))\<rparr>)"
    unfolding ms_set_def using ok1 room1 fits(2) p' by simp
  then have "kv_abs kv2 = (kv_abs kv1)\<lparr>ms_content :=
      (ms_content (kv_abs kv1))(?k \<mapsto> (rl_image pad' (rl_spend v), if rl_ttl c \<noteq> 0 then now + rl_ttl c else 0))\<rparr>"
    using shm_kv.set_law [OF i1, of now ?k "rl_image pad' (rl_spend v)" "rl_ttl c"] unfolding kv2_def by simp
  then have "kv_abs kv2 = ?m\<lparr>ms_content :=
      (ms_content ?m)(?k \<mapsto> (rl_image pad' (rl_spend v), if rl_ttl c \<noteq> 0 then now + rl_ttl c else 0))\<rparr>"
    using c1 by auto
  moreover have "kv_inv kv2" unfolding kv2_def using shm_kv.set_inv [OF i1] .
  ultimately show ?thesis using chk p' by blast
qed

text \<open>What is true of one identity's entry after \<open>A\<close> admissions since time \<open>t0\<close>, up to time \<open>T\<close>.\<close>

definition rl_entry_inv :: "brix_rate_limit_conf_t \<Rightarrow> nat \<Rightarrow> nat \<Rightarrow> nat \<Rightarrow> (bytes \<times> u64) option \<Rightarrow> bool" where
  "rl_entry_inv c t0 A T entry \<longleftrightarrow> (case entry of None \<Rightarrow> A = 0
     | Some (img, x) \<Rightarrow> length img = 16 \<and> unat (rl_tokens (rl_decode img)) \<le> unat (rl_burst c)
         \<and> t0 \<le> unat (rl_last_refill (rl_decode img))
         \<and> (\<exists>s. unat (rl_last_refill (rl_decode img)) \<le> s \<and> s \<le> T \<and> unat x = s + unat (rl_ttl c))
         \<and> 1000 * (A + unat (rl_tokens (rl_decode img))) \<le> 1000 * unat (rl_burst c)
             + unat (rl_rate c) * (unat (rl_last_refill (rl_decode img)) - t0))"

lemma rl_entry_inv_mono: "rl_entry_inv c t0 A T entry \<Longrightarrow> T \<le> T' \<Longrightarrow> rl_entry_inv c t0 A T' entry"
  unfolding rl_entry_inv_def by (cases entry) (auto intro: le_trans)

lemma scaled_trans: "k * (A + t) \<le> B + x \<Longrightarrow> x \<le> y \<Longrightarrow> k * A \<le> B + y" for k A t B x y :: nat
  by (simp add: distrib_left)

lemma rl_entry_bound:
  assumes "rl_entry_inv c t0 A T entry"
  shows "1000 * A \<le> 1000 * unat (rl_burst c) + unat (rl_rate c) * (T - t0)"
proof (cases entry)
  case None
  then show ?thesis using assms by (simp add: rl_entry_inv_def)
next
  case (Some e)
  obtain img x where e: "e = (img, x)" by (cases e)
  let ?l = "unat (rl_last_refill (rl_decode img))"
  have "?l \<le> T" and b: "1000 * (A + unat (rl_tokens (rl_decode img))) \<le> 1000 * unat (rl_burst c) + unat (rl_rate c) * (?l - t0)"
    using assms Some e by (auto simp: rl_entry_inv_def)
  then have "unat (rl_rate c) * (?l - t0) \<le> unat (rl_rate c) * (T - t0)" by (intro mult_le_mono2 diff_le_mono)
  then show ?thesis by (rule scaled_trans [OF b])
qed


lemma accrue_split: "t0 \<le> l \<Longrightarrow> l \<le> l' \<Longrightarrow> r * (l - t0) + r * (l' - l) = r * (l' - t0)" for r t0 l l' :: nat
  by (simp flip: distrib_left)

text \<open>The bucket an admission test works on is within the burst, and the credit it holds is paid for by time.\<close>

lemma rl_bucket_bounds:
  fixes now :: u64
  assumes conf: "unat (rl_burst c) < 2 ^ 32" "0 < unat (rl_rate c)"
    and ent: "rl_entry_inv c t0 A T entry" and T: "t0 \<le> T" "T \<le> unat now"
  defines "v \<equiv> rl_bucket now c entry"
  shows "unat (rl_tokens v) \<le> unat (rl_burst c) \<and> t0 \<le> unat (rl_last_refill v) \<and> unat (rl_last_refill v) \<le> unat now
    \<and> 1000 * (A + unat (rl_tokens v)) \<le> 1000 * unat (rl_burst c) + unat (rl_rate c) * (unat (rl_last_refill v) - t0)"
proof -
  let ?b = "unat (rl_burst c)" and ?r = "unat (rl_rate c)"
  let ?full = "\<lparr>rl_tokens = ucast (rl_burst c), rl_last_refill = now\<rparr>"
  have full: "rl_refill now c ?full = ?full" by (simp add: rl_refill_def)
  have burst: "unat (ucast (rl_burst c) :: u32) = ?b" using conf by (simp add: unsigned_ucast_eq take_bit_nat_eq_self)
  have fresh: ?thesis if v: "v = ?full" and A: "1000 * A \<le> ?r * (unat now - t0)"
    using T A unfolding v by (simp add: burst)
  show ?thesis
  proof (cases entry)
    case None
    then show ?thesis using ent by (intro fresh) (simp_all add: v_def rl_bucket_def full rl_entry_inv_def)
  next
    case (Some e)
    obtain img x where e: "e = (img, x)" by (cases e)
    let ?v = "rl_decode img"
    let ?l = "unat (rl_last_refill ?v)"
    obtain s where d: "unat (rl_tokens ?v) \<le> ?b" "t0 \<le> ?l" "?l \<le> s" "s \<le> T" "unat x = s + unat (rl_ttl c)"
        "1000 * (A + unat (rl_tokens ?v)) \<le> 1000 * ?b + ?r * (?l - t0)"
      using ent Some e by (auto simp: rl_entry_inv_def)
    show ?thesis
    proof (cases "ms_stale now x")
      case True
      have ttl: "1000 * ?b \<le> ?r * unat (rl_ttl c)" by (rule rl_ttl_refills [OF conf])
      have "s + unat (rl_ttl c) \<le> unat now" using True d(5) by (simp add: ms_stale_def word_le_nat_alt)
      then have "?l - t0 + unat (rl_ttl c) \<le> unat now - t0" using d(2,3) by simp
      then have "?r * (?l - t0) + ?r * unat (rl_ttl c) \<le> ?r * (unat now - t0)"
        unfolding distrib_left [symmetric] by (rule mult_le_mono2)
      then have "1000 * A \<le> ?r * (unat now - t0)" using d(6) ttl unfolding distrib_left by linarith
      then show ?thesis using True Some e by (intro fresh) (simp_all add: v_def rl_bucket_def full)
    next
      case False
      have v: "v = rl_refill now c ?v" using False Some e by (simp add: v_def rl_bucket_def)
      have "rl_last_refill ?v \<le> now" using d(3,4) T by (simp add: word_le_nat_alt)
      note w = rl_refill_bounds [OF conf(1) d(1) this, folded v]
      have l: "?l \<le> unat (rl_last_refill v)" "unat (rl_last_refill v) \<le> unat now" using w(2,3) by (simp_all add: word_le_nat_alt)
      have "1000 * (A + unat (rl_tokens v)) \<le> 1000 * ?b + (?r * (?l - t0) + ?r * (unat (rl_last_refill v) - ?l))"
        using w(4) d(6) unfolding distrib_left by linarith
      then show ?thesis using w(1) l d(2) by (simp add: accrue_split)
    qed
  qed
qed

lemma rl_entry_step:
  fixes now :: u64
  assumes conf: "unat (rl_burst c) < 2 ^ 32" "0 < unat (rl_rate c)"
    and ent: "rl_entry_inv c t0 A T entry" and T: "t0 \<le> T" "T \<le> unat now" and clock: "unat now + unat (rl_ttl c) < 2 ^ 64"
    and pad: "length pad = 4"
  defines "v \<equiv> rl_bucket now c entry"
  shows "rl_entry_inv c t0 (A + (if rl_tokens v \<noteq> 0 then 1 else 0)) (unat now)
    (Some (rl_image pad (rl_spend v), now + rl_ttl c))"
proof -
  note b = rl_bucket_bounds [OF conf ent T, folded v_def]
  have x: "unat (now + rl_ttl c) = unat now + unat (rl_ttl c)" using clock by (simp add: unat_word_ariths(1))
  have spend: "(if rl_tokens v \<noteq> 0 then 1 else 0) + unat (rl_tokens (rl_spend v)) = unat (rl_tokens v)"
    by (auto simp: rl_spend_def unat_minus_one unat_gt_0 Suc_leI)
  have last: "rl_last_refill (rl_spend v) = rl_last_refill v" by (simp add: rl_spend_def)
  have "A + (if rl_tokens v \<noteq> 0 then 1 else 0) + unat (rl_tokens (rl_spend v)) = A + unat (rl_tokens v)" using spend by simp
  moreover have "unat (rl_tokens (rl_spend v)) \<le> unat (rl_burst c)" using spend b by linarith
  ultimately show ?thesis using b pad unfolding rl_entry_inv_def option.case prod.case rl_decode_image [OF pad] last x
    by (auto intro!: exI [of _ "unat now"])
qed


text \<open>
  The requests of a run: the clock does not go back and stays up to \<open>T\<close>, and every key fits the zone.  A
  store that serves the limiter holds 16-byte records and has room for the identities of the run.
\<close>

fun rl_requests :: "nat \<Rightarrow> nat \<Rightarrow> nat \<Rightarrow> (u64 \<times> bytes \<times> bytes) list \<Rightarrow> bool" where
  "rl_requests kmax T t [] \<longleftrightarrow> t \<le> T"
| "rl_requests kmax T t ((now, pad, ident) # reqs) \<longleftrightarrow>
     t \<le> unat now \<and> length pad = 4 \<and> length (rl_key ident) \<le> kmax \<and> rl_requests kmax T (unat now) reqs"

definition rl_store :: "map_spec \<Rightarrow> (u64 \<times> bytes \<times> bytes) list \<Rightarrow> bool" where
  "rl_store m reqs \<longleftrightarrow> 16 \<le> ms_val_max m \<and> (\<forall>(g, x) \<in> ran (ms_content m). length g = 16)
     \<and> card (dom (ms_content m) \<union> set (map (\<lambda>(_, _, i). rl_key i) reqs)) \<le> ms_limit m"

lemma rl_requests_le: "rl_requests kmax T t reqs \<Longrightarrow> t \<le> T"
  by (induction kmax T t reqs rule: rl_requests.induct) auto

lemma finite_kv_content: "finite (dom (ms_content (kv_abs kv)))"
  by (simp add: kv_abs_def kv_map_def finite_dom_map_of split: option.split)

lemma rl_admitted_Cons:
  "rl_admitted ident ((now, pad, i) # reqs) (ok # oks) = (if ok \<and> rl_key i = rl_key ident then 1 else 0) + rl_admitted ident reqs oks"
  by (simp add: rl_admitted_def)

lemma rl_store_step:
  assumes "rl_store m ((now, pad, i) # reqs)" "finite (dom (ms_content m))" "length g = 16"
  shows "rl_store (m\<lparr>ms_content := (ms_content m)(rl_key i \<mapsto> (g, x))\<rparr>) reqs"
proof -
  have "card (dom ((ms_content m)(rl_key i \<mapsto> (g, x))) \<union> set (map (\<lambda>(_, _, i). rl_key i) reqs))
      \<le> card (dom (ms_content m) \<union> set (map (\<lambda>(_, _, i). rl_key i) ((now, pad, i) # reqs)))"
    using assms(2) by (intro card_mono) auto
  then show ?thesis using assms(1,3) by (auto simp: rl_store_def ran_def)
qed

lemma rl_run_bound:
  assumes conf: "unat (rl_burst c) < 2 ^ 32" "0 < unat (rl_rate c)" "0 < unat (rl_burst c)"
    and clock: "T + unat (rl_ttl c) < 2 ^ 64"
  shows "kv_inv kv \<Longrightarrow> rl_requests (kv_key_max kv) T t reqs \<Longrightarrow> rl_store (kv_abs kv) reqs \<Longrightarrow> t0 \<le> t
    \<Longrightarrow> rl_entry_inv c t0 A t (ms_content (kv_abs kv) (rl_key ident))
    \<Longrightarrow> 1000 * (A + rl_admitted ident reqs (fst (rl_run c kv reqs))) \<le> 1000 * unat (rl_burst c) + unat (rl_rate c) * (T - t0)"
proof (induction reqs arbitrary: kv t A)
  case Nil
  then show ?case using rl_entry_bound [OF rl_entry_inv_mono [of c t0 A t _ T]] by (simp add: rl_admitted_def)
next
  case (Cons r reqs)
  obtain now pad i where r: "r = (now, pad, i)" by (cases r) auto
  let ?m = "kv_abs kv"
  define v where "v = rl_bucket now c (ms_content ?m (rl_key i))"
  have q: "t \<le> unat now" "length pad = 4" "length (rl_key i) \<le> kv_key_max kv" "rl_requests (kv_key_max kv) T (unat now) reqs"
    using Cons.prems(2) by (simp_all add: r)
  have st: "16 \<le> kv_val_max kv" "\<forall>g x. ms_content ?m (rl_key i) = Some (g, x) \<longrightarrow> length g = 16"
    using Cons.prems(3) by (auto simp: rl_store_def kv_abs_def ran_def)
  have "card (insert (rl_key i) (dom (ms_content ?m))) \<le> card (dom (ms_content ?m) \<union> set (map (\<lambda>(_, _, i). rl_key i) (r # reqs)))"
    using finite_kv_content by (intro card_mono) (auto simp: r)
  then have room: "card (insert (rl_key i) (dom (ms_content ?m))) \<le> ms_limit ?m" using Cons.prems(3) by (simp add: rl_store_def)
  have en: "rl_rate c \<noteq> 0" "rl_burst c \<noteq> 0" "rl_ttl c \<noteq> 0" using conf rl_ttl_refills(2) [OF conf(1,2)] by auto
  obtain kv' pad' where s: "length pad' = 4" "brix_rate_limit_check now pad (Some c) (Some kv) i = (rl_tokens v \<noteq> 0, Some kv')"
      "kv_inv kv'" "kv_abs kv' = ?m\<lparr>ms_content := (ms_content ?m)(rl_key i \<mapsto> (rl_image pad' (rl_spend v), now + rl_ttl c))\<rparr>"
    using rl_check_step [OF Cons.prems(1) en(1,2) q(2,3) st(1) st(2) room finite_kv_content, where now = now] en(3) v_def by auto
  let ?A = "A + (if rl_tokens v \<noteq> 0 \<and> rl_key i = rl_key ident then 1 else 0)"
  have km: "kv_key_max kv' = kv_key_max kv" using arg_cong [OF s(4), of ms_key_max] by (simp add: kv_abs_def)
  have "unat now + unat (rl_ttl c) < 2 ^ 64" using rl_requests_le [OF q(4)] clock by simp
  then have "rl_entry_inv c t0 ?A (unat now) (ms_content (kv_abs kv') (rl_key ident))"
    using rl_entry_step [OF conf(1,2) Cons.prems(5,4) q(1) _ s(1)] rl_entry_inv_mono [OF Cons.prems(5) q(1)]
    by (cases "rl_key i = rl_key ident") (simp_all add: s(4) v_def)
  moreover have "rl_store (kv_abs kv') reqs"
    unfolding s(4) by (rule rl_store_step [OF Cons.prems(3) [unfolded r] finite_kv_content]) (simp add: s(1))
  ultimately have "1000 * (?A + rl_admitted ident reqs (fst (rl_run c kv' reqs)))
      \<le> 1000 * unat (rl_burst c) + unat (rl_rate c) * (T - t0)"
    using Cons.prems(4) q by (intro Cons.IH [OF s(3), of "unat now"]) (simp_all add: km)
  moreover have "fst (rl_run c kv (r # reqs)) = (rl_tokens v \<noteq> 0) # fst (rl_run c kv' reqs)"
    by (simp add: r s(2) Let_def split_beta)
  ultimately show ?case by (simp add: r rl_admitted_Cons add.assoc)
qed


section \<open>The admission bound\<close>

text \<open>
  Rate.  From a store that does not know an identity yet, over any interleaving of requests of any
  identities between the times t0 and T, that identity is admitted at most burst + rate * (T - t0) / 1000
  times: refills, rejections, expiry of idle buckets and their re-creation included.  The clock does
  not go back, and the store has room for the identities (a full store admits).
\<close>
theorem rl_admission_bound:
  assumes "kv_inv kv" "ms_content (kv_abs kv) (rl_key ident) = None"
    and "0 < unat (rl_rate c)" "0 < unat (rl_burst c)" "unat (rl_burst c) < 2 ^ 32"
    and "rl_requests (kv_key_max kv) T t0 reqs" "rl_store (kv_abs kv) reqs" "T + unat (rl_ttl c) < 2 ^ 64"
  shows "1000 * rl_admitted ident reqs (fst (rl_run c kv reqs)) \<le> 1000 * unat (rl_burst c) + unat (rl_rate c) * (T - t0)"
  using rl_run_bound [OF assms(5,3,4,8,1,6,7), of t0 0 ident] assms(2) by (simp add: rl_entry_inv_def)

definition rl_example_zone :: brix_kv_conf where
  "rl_example_zone = \<lparr>kc_name = [], kc_size = 65536, kc_key_max = 8, kc_val_max = 16, kc_capacity = 4, kc_table_bytes = 0\<rparr>"

theorem rl_admission_bound_witness:
  "1000 * rl_admitted [7] [(1, [0, 0, 0, 0], [7]), (2, [0, 0, 0, 0], [7]), (3, [0, 0, 0, 0], [7])]
     (fst (rl_run \<lparr>rl_rate = 1, rl_burst = 1\<rparr> (brix_kv_init_zone rl_example_zone None)
       [(1, [0, 0, 0, 0], [7]), (2, [0, 0, 0, 0], [7]), (3, [0, 0, 0, 0], [7])])) \<le> 1002"
proof -
  let ?kv = "brix_kv_init_zone rl_example_zone None"
  have cap: "kc_capacity rl_example_zone = 2 ^ 2" by (simp add: rl_example_zone_def)
  note f = kv_fresh_wf [OF cap]
  have "kv_key_max ?kv = 8" "ms_val_max (kv_abs ?kv) = 16"
    by (simp_all add: kv_abs_def brix_kv_init_zone_def rl_example_zone_def)
  then show ?thesis
    using rl_admission_bound [OF f(1), of "[7]" "\<lparr>rl_rate = 1, rl_burst = 1\<rparr>" 3 1
        "[(1, [0, 0, 0, 0], [7]), (2, [0, 0, 0, 0], [7]), (3, [0, 0, 0, 0], [7])]"] f(2,3) cap
    by (simp add: rl_store_def rl_key_def rl_ttl_def)
qed


text \<open>
  The record keeps 32 bits of the burst: a burst of a multiple of 2^32 seeds an empty bucket, so the first
  request of every identity is rejected.
\<close>

theorem rl_wide_burst_rejects:
  assumes "kv_inv kv" "ms_content (kv_abs kv) (rl_key ident) = None" "rl_rate c \<noteq> 0" "rl_burst c = 0x100000000" "length pad = 4"
  shows "\<not> fst (brix_rate_limit_check now pad (Some c) (Some kv) ident)"
proof -
  obtain kv' where g: "brix_kv_get now kv (rl_key ident) (Some 16) = (None, kv')"
    using shm_kv.get_law [OF assms(1), of now "rl_key ident" "Some 16"] assms(2)
    by (cases "brix_kv_get now kv (rl_key ident) (Some 16)") (auto simp: ms_get_def split: if_splits)
  show ?thesis
    unfolding brix_rate_limit_check_def Let_def prod.case option.case g using assms by (simp add: rl_refill_def)
qed


lemma rl_directive_cases:
  assumes "brix_rate_limit_directive atoi zones args = Some (kv, c, ip)"
  shows "kv \<in> set zones \<and> 16 \<le> kc_val_max kv \<and> rl_rate c \<noteq> 0 \<and> rl_burst c \<noteq> 0
     \<and> (\<exists>a. rl_parse_args atoi args \<lparr>ra_zone = [], ra_rate = 0, ra_burst = 0, ra_key_ip = False\<rparr> = Some a
          \<and> kc_name kv = ra_zone a \<and> c = \<lparr>rl_rate = ra_rate a, rl_burst = ra_burst a\<rparr> \<and> ip = ra_key_ip a)"
proof -
  obtain a where a: "rl_parse_args atoi args \<lparr>ra_zone = [], ra_rate = 0, ra_burst = 0, ra_key_ip = False\<rparr> = Some a"
      "ra_rate a \<noteq> 0" "ra_burst a \<noteq> 0" "brix_rl_resolve_zone zones (ra_zone a) = Some kv"
      "c = \<lparr>rl_rate = ra_rate a, rl_burst = ra_burst a\<rparr>" "ip = ra_key_ip a"
    using assms by (auto simp: brix_rate_limit_directive_def split: option.splits if_splits)
  from a(4) have f: "brix_kv_find zones (ra_zone a) = Some kv" "16 \<le> kc_val_max kv"
    by (auto simp: brix_rl_resolve_zone_def split: option.splits if_splits)
  then have "kv \<in> set zones \<and> kc_name kv = ra_zone a" by (auto simp: brix_kv_find_def find_Some_iff)
  then show ?thesis using a f(2) by simp
qed

text \<open>
  Configuration.  A directive that is accepted binds a registered zone, the one its last zone argument
  names, whose values hold a whole bucket record, with a positive rate and a positive burst: the
  limiter it configures is never the disabled one.
\<close>
theorem rl_directive_sound:
  assumes "brix_rate_limit_directive atoi zones args = Some (kv, c, ip)"
  shows "kv \<in> set zones \<and> 16 \<le> kc_val_max kv \<and> rl_rate c \<noteq> 0 \<and> rl_burst c \<noteq> 0
     \<and> (\<exists>a. rl_parse_args atoi args \<lparr>ra_zone = [], ra_rate = 0, ra_burst = 0, ra_key_ip = False\<rparr> = Some a
          \<and> kc_name kv = ra_zone a \<and> c = \<lparr>rl_rate = ra_rate a, rl_burst = ra_burst a\<rparr> \<and> ip = ra_key_ip a)"
  using assms by (rule rl_directive_cases)

theorem rl_directive_sound_witness:
  "brix_rate_limit_directive (\<lambda>_. 5) [rl_example_zone\<lparr>kc_name := chars ''z''\<rparr>]
     [chars ''zone=z'', chars ''rate=5r/s'', chars ''burst=5'', chars ''key=ip'']
     = Some (rl_example_zone\<lparr>kc_name := chars ''z''\<rparr>, \<lparr>rl_rate = 5, rl_burst = 5\<rparr>, True)
   \<and> 16 \<le> kc_val_max rl_example_zone"
proof -
  have d: "brix_rate_limit_directive (\<lambda>_. 5) [rl_example_zone\<lparr>kc_name := chars ''z''\<rparr>]
     [chars ''zone=z'', chars ''rate=5r/s'', chars ''burst=5'', chars ''key=ip'']
     = Some (rl_example_zone\<lparr>kc_name := chars ''z''\<rparr>, \<lparr>rl_rate = 5, rl_burst = 5\<rparr>, True)"
    by (simp add: brix_rate_limit_directive_def brix_rl_parse_arg_def brix_rl_parse_rate_def brix_rl_parse_burst_def
        brix_rl_parse_key_def brix_rl_resolve_zone_def brix_kv_find_def rl_example_zone_def chars_def of_char_def)
  show ?thesis using d rl_directive_sound [OF d] by simp
qed

end
