(* ===== verification/Cta_Proto.thy ===== *)
theory Cta_Proto
  imports Brix_Prelude
begin

text \<open>
  The protobuf messages of the tape service: the wire primitives of \<^verbatim>\<open>protocols/ssi/svc_cta/pb_wire.c\<close> and the
  message codec of \<^verbatim>\<open>cta_pb.c\<close>.  A reader is the list of bytes up to its end; a writer is the bytes written so far
  and the capacity of its buffer.  A character array of the request is the C string it holds: the bytes
  before the first NUL of what was copied.  The last sections give the reference encoding of a request, built from the
  code's own writers, and the round trip through the table-driven decoder.
\<close>

section \<open>Wire primitives\<close>

fun pb_varint_loop :: "nat \<Rightarrow> u64 \<Rightarrow> bytes \<Rightarrow> (u64 \<times> bytes) option" where
  "pb_varint_loop shift v [] = None"
| "pb_varint_loop shift v (b # r) =
     (let v = (if shift \<le> 63 then v OR push_bit shift (ucast (b AND 0x7f)) else v)
      in if b AND 0x80 = 0 then Some (v, r)
         else let shift = shift + 7
              in if shift \<ge> 70 then None else pb_varint_loop shift v r)"

definition pb_read_varint :: "bytes \<Rightarrow> (u64 \<times> bytes) option" where
  "pb_read_varint r = pb_varint_loop 0 0 r"

definition pb_read_tag :: "bytes \<Rightarrow> (u32 \<times> nat \<times> bytes) option" where
  "pb_read_tag r = (case pb_read_varint r of None \<Rightarrow> None
     | Some (tag, r) \<Rightarrow>
         let wiretype = unat (tag AND 7); field = (ucast (drop_bit 3 tag) :: u32)
         in if field = 0 then None else Some (field, wiretype, r))"

definition pb_read_len_delim :: "bytes \<Rightarrow> (bytes \<times> bytes) option" where
  "pb_read_len_delim r = (case pb_read_varint r of None \<Rightarrow> None
     | Some (n, r) \<Rightarrow> if unat n > length r then None else Some (take (unat n) r, drop (unat n) r))"

definition PB_WT_VARINT :: nat where "PB_WT_VARINT = 0"
definition PB_WT_I64 :: nat where "PB_WT_I64 = 1"
definition PB_WT_LEN :: nat where "PB_WT_LEN = 2"
definition PB_WT_I32 :: nat where "PB_WT_I32 = 5"

lemmas pb_wt_defs = PB_WT_VARINT_def PB_WT_I64_def PB_WT_LEN_def PB_WT_I32_def

definition pb_skip_field :: "nat \<Rightarrow> bytes \<Rightarrow> bytes option" where
  "pb_skip_field wiretype r =
     (if wiretype = PB_WT_VARINT then map_option snd (pb_read_varint r)
      else if wiretype = PB_WT_I64 then (if length r < 8 then None else Some (drop 8 r))
      else if wiretype = PB_WT_LEN then map_option snd (pb_read_len_delim r)
      else if wiretype = PB_WT_I32 then (if length r < 4 then None else Some (drop 4 r))
      else None)"

record pb_writer =
  pw_buf :: bytes
  pw_cap :: nat

function pb_write_varint :: "pb_writer \<Rightarrow> u64 \<Rightarrow> pb_writer option" where
  "pb_write_varint w v =
     (let b = (ucast (v AND 0x7f) :: byte); v' = drop_bit 7 v; b = (if v' \<noteq> 0 then b OR 0x80 else b)
      in if length (pw_buf w) \<ge> pw_cap w then None
         else let w = w\<lparr>pw_buf := pw_buf w @ [b]\<rparr>
              in if v' \<noteq> 0 then pb_write_varint w v' else Some w)"
  by pat_completeness auto
termination by (relation "measure (\<lambda>(w, _). pw_cap w - length (pw_buf w))") auto

definition pb_write_tag :: "pb_writer \<Rightarrow> u32 \<Rightarrow> nat \<Rightarrow> pb_writer option" where
  "pb_write_tag w field wiretype = pb_write_varint w (push_bit 3 (ucast field) OR of_nat wiretype)"

definition pb_write_len_delim :: "pb_writer \<Rightarrow> u32 \<Rightarrow> bytes \<Rightarrow> pb_writer option" where
  "pb_write_len_delim w field d = (case pb_write_tag w field PB_WT_LEN of None \<Rightarrow> None
     | Some w \<Rightarrow> (case pb_write_varint w (of_nat (length d)) of None \<Rightarrow> None
         | Some w \<Rightarrow> if length (pw_buf w) + length d > pw_cap w then None
                    else Some (w\<lparr>pw_buf := pw_buf w @ d\<rparr>)))"

definition pb_write_string :: "pb_writer \<Rightarrow> u32 \<Rightarrow> bytes \<Rightarrow> pb_writer option" where
  "pb_write_string w field s = pb_write_len_delim w field s"

definition pb_write_varint_field :: "pb_writer \<Rightarrow> u32 \<Rightarrow> u64 \<Rightarrow> pb_writer option" where
  "pb_write_varint_field w field v = (case pb_write_tag w field PB_WT_VARINT of None \<Rightarrow> None
     | Some w \<Rightarrow> pb_write_varint w v)"

section \<open>Messages\<close>

datatype cta_op_t = CTA_OP_ARCHIVE | CTA_OP_RETRIEVE | CTA_OP_CANCEL | CTA_OP_QUERY | CTA_OP_UNKNOWN

record cta_request_t =
  rq_op :: cta_op_t
  rq_instance :: bytes
  rq_path :: bytes
  rq_request_id :: bytes
  rq_archive_id :: u64
  rq_owner_user :: bytes
  rq_owner_group :: bytes

definition cstr :: "bytes \<Rightarrow> bytes" where
  "cstr b = takeWhile (\<lambda>c. c \<noteq> 0) b"

definition copy_str :: "nat \<Rightarrow> bytes \<Rightarrow> bytes" where
  "copy_str dst_sz src = cstr (take (dst_sz - 1) src)"

datatype cta_msg = M_REQUEST | M_NOTIF | M_WF | M_CLIENT | M_META | M_SERVICE | M_REQUESTER

text \<open>A destination is the update of the member at its offset.\<close>

datatype pbf_kind_t =
    PBF_STR "bytes \<Rightarrow> cta_request_t \<Rightarrow> cta_request_t" nat
  | PBF_MSG cta_msg
  | PBF_U64 "u64 \<Rightarrow> cta_request_t \<Rightarrow> cta_request_t"
  | PBF_EVENT
  | PBF_QUERY

definition pbf_rows :: "(cta_msg \<times> u32 \<times> pbf_kind_t) list" where
  "pbf_rows = [
     (M_REQUEST, 1, PBF_MSG M_NOTIF),
     (M_REQUEST, 2, PBF_QUERY),
     (M_NOTIF, 1, PBF_MSG M_WF),
     (M_NOTIF, 2, PBF_MSG M_CLIENT),
     (M_NOTIF, 4, PBF_MSG M_META),
     (M_WF, 1, PBF_EVENT),
     (M_WF, 5, PBF_MSG M_SERVICE),
     (M_CLIENT, 1, PBF_MSG M_REQUESTER),
     (M_META, 11, PBF_STR (\<lambda>s. rq_path_update (\<lambda>_. s)) 1024),
     (M_META, 999, PBF_STR (\<lambda>s. rq_request_id_update (\<lambda>_. s)) 256),
     (M_META, 15, PBF_U64 (\<lambda>v. rq_archive_id_update (\<lambda>_. v))),
     (M_SERVICE, 1, PBF_STR (\<lambda>s. rq_instance_update (\<lambda>_. s)) 64),
     (M_REQUESTER, 1, PBF_STR (\<lambda>s. rq_owner_user_update (\<lambda>_. s)) 64),
     (M_REQUESTER, 2, PBF_STR (\<lambda>s. rq_owner_group_update (\<lambda>_. s)) 64)]"

fun pbf_wire_type :: "pbf_kind_t \<Rightarrow> nat" where
  "pbf_wire_type (PBF_U64 f) = PB_WT_VARINT"
| "pbf_wire_type PBF_EVENT = PB_WT_VARINT"
| "pbf_wire_type _ = PB_WT_LEN"

definition pbf_find :: "cta_msg \<Rightarrow> u32 \<Rightarrow> nat \<Rightarrow> pbf_kind_t option" where
  "pbf_find msg f wt =
     map_option (\<lambda>(_, _, k). k) (find (\<lambda>(m, fld, k). m = msg \<and> fld = f \<and> wt = pbf_wire_type k) pbf_rows)"

definition cta_event_op :: "u64 \<Rightarrow> cta_op_t" where
  "cta_event_op ev = (if ev = 4 then CTA_OP_ARCHIVE else if ev = 6 then CTA_OP_RETRIEVE
     else if ev = 8 then CTA_OP_CANCEL else CTA_OP_UNKNOWN)"

text \<open>The value of a matched field, and what a value other than a nested message does to the request.\<close>

datatype pbf_val = PbVarint u64 | PbDelim bytes

definition pbf_read :: "pbf_kind_t \<Rightarrow> bytes \<Rightarrow> (pbf_val \<times> bytes) option" where
  "pbf_read kind r =
     (if pbf_wire_type kind = PB_WT_VARINT then map_option (\<lambda>(v, r). (PbVarint v, r)) (pb_read_varint r)
      else map_option (\<lambda>(d, r). (PbDelim d, r)) (pb_read_len_delim r))"

fun decode_field :: "pbf_kind_t \<Rightarrow> pbf_val \<Rightarrow> cta_request_t \<Rightarrow> cta_request_t" where
  "decode_field PBF_EVENT (PbVarint ev) out = out\<lparr>rq_op := cta_event_op ev\<rparr>"
| "decode_field (PBF_U64 upd) (PbVarint v) out = upd v out"
| "decode_field (PBF_STR upd sz) (PbDelim d) out = upd (copy_str sz d) out"
| "decode_field PBF_QUERY (PbDelim d) out = out\<lparr>rq_op := CTA_OP_QUERY\<rparr>"
| "decode_field _ _ out = out"

lemma pb_varint_loop_rest: "pb_varint_loop shift v r = Some (x, r') \<Longrightarrow> length r' < length r"
  by (induction r arbitrary: shift v) (force simp: Let_def split: if_splits)+

lemma pb_read_varint_rest: "pb_read_varint r = Some (x, r') \<Longrightarrow> length r' < length r"
  unfolding pb_read_varint_def by (rule pb_varint_loop_rest)

lemma pb_read_tag_rest: "pb_read_tag r = Some (f, wt, r') \<Longrightarrow> length r' < length r"
  by (auto simp: pb_read_tag_def Let_def split: option.splits if_splits dest: pb_read_varint_rest)

lemma pb_read_len_delim_rest: "pb_read_len_delim r = Some (d, r') \<Longrightarrow> length d < length r \<and> length r' < length r"
  by (auto simp: pb_read_len_delim_def split: option.splits if_splits dest!: pb_read_varint_rest)

lemma pb_skip_field_rest: "pb_skip_field wt r = Some r' \<Longrightarrow> length r' < length r"
  by (auto simp: pb_skip_field_def pb_wt_defs split: option.splits if_splits dest: pb_read_varint_rest pb_read_len_delim_rest)

lemma pbf_read_rest:
  "pbf_read k r = Some (x, r') \<Longrightarrow> length r' < length r \<and> (\<forall>d. x = PbDelim d \<longrightarrow> length d < length r)"
  by (auto simp: pbf_read_def split: option.splits if_splits dest: pb_read_varint_rest pb_read_len_delim_rest)

function decode_msg :: "cta_msg \<Rightarrow> bytes \<Rightarrow> cta_request_t \<Rightarrow> cta_request_t option" where
  "decode_msg msg r out =
     (if r = [] then Some out
      else case pb_read_tag r of None \<Rightarrow> None
      | Some (f, wt, r1) \<Rightarrow> (case pbf_find msg f wt of
          None \<Rightarrow> (case pb_skip_field wt r1 of None \<Rightarrow> None | Some r2 \<Rightarrow> decode_msg msg r2 out)
        | Some kind \<Rightarrow> (case pbf_read kind r1 of None \<Rightarrow> None
            | Some (val, r2) \<Rightarrow> (case (kind, val) of
                (PBF_MSG sub, PbDelim d) \<Rightarrow>
                  (case decode_msg sub d out of None \<Rightarrow> None | Some out \<Rightarrow> decode_msg msg r2 out)
              | _ \<Rightarrow> decode_msg msg r2 (decode_field kind val out)))))"
  by pat_completeness auto
termination
  by (relation "measure (\<lambda>(_, r, _). length r)") (auto dest!: pb_read_tag_rest pb_skip_field_rest pbf_read_rest)

declare decode_msg.simps [simp del]
declare pb_write_varint.simps [simp del]

definition cta_request_zero :: cta_request_t where
  "cta_request_zero = \<lparr>rq_op = CTA_OP_UNKNOWN, rq_instance = [], rq_path = [], rq_request_id = [],
     rq_archive_id = 0, rq_owner_user = [], rq_owner_group = []\<rparr>"

definition cta_pb_decode_request :: "bytes \<Rightarrow> cta_request_t option" where
  "cta_pb_decode_request buf = decode_msg M_REQUEST buf cta_request_zero"

datatype cta_rsp_type_t = CTA_RSP_INVALID | CTA_RSP_SUCCESS | CTA_RSP_ERR_PROTOBUF | CTA_RSP_ERR_CTA | CTA_RSP_ERR_USER

fun cta_rsp_num :: "cta_rsp_type_t \<Rightarrow> u64" where
  "cta_rsp_num CTA_RSP_INVALID = 0"
| "cta_rsp_num CTA_RSP_SUCCESS = 1"
| "cta_rsp_num CTA_RSP_ERR_PROTOBUF = 2"
| "cta_rsp_num CTA_RSP_ERR_CTA = 3"
| "cta_rsp_num CTA_RSP_ERR_USER = 4"

text \<open>The digits of a number, least significant first, as the loop stores them in \<open>rev\<close>.\<close>

fun rev_digits :: "nat \<Rightarrow> bytes" where
  "rev_digits v = (if v = 0 then [] else of_nat (48 + v mod 10) # rev_digits (v div 10))"

declare rev_digits.simps [simp del]

definition cta_pb_encode_response :: "cta_rsp_type_t \<Rightarrow> bytes option \<Rightarrow> u64 \<Rightarrow> nat \<Rightarrow> bytes option" where
  "cta_pb_encode_response type message_txt archive_id cap =
     (case pb_write_varint_field \<lparr>pw_buf = [], pw_cap = cap\<rparr> 1 (cta_rsp_num type) of None \<Rightarrow> None
      | Some w \<Rightarrow>
        (case (case message_txt of None \<Rightarrow> Some w
               | Some m \<Rightarrow> if m = [] then Some w else pb_write_string w 3 m) of None \<Rightarrow> None
         | Some w \<Rightarrow>
           (case (if archive_id \<noteq> 0 then pb_write_string w 5 (rev (rev_digits (unat archive_id))) else Some w) of
              None \<Rightarrow> None
            | Some w \<Rightarrow> Some (pw_buf w))))"

definition cta_pb_encode_stream_header :: "bytes \<Rightarrow> nat \<Rightarrow> bytes option" where
  "cta_pb_encode_stream_header response cap =
     map_option pw_buf (pb_write_len_delim \<lparr>pw_buf = [], pw_cap = cap\<rparr> 1 response)"

section \<open>Varints\<close>

text \<open>The bytes of a varint; the writer appends them when they fit, and the reader reads them back.\<close>

function varint :: "u64 \<Rightarrow> bytes" where
  "varint v = (if drop_bit 7 v = 0 then [ucast v] else (ucast (v AND 0x7f) OR 0x80) # varint (drop_bit 7 v))"
  by pat_completeness auto
termination
proof (relation "measure unat")
  fix v :: u64 assume "drop_bit 7 v \<noteq> 0"
  then have "v \<noteq> 0" by auto
  then have "0 < unat v" by (simp add: unat_gt_0)
  then show "(drop_bit 7 v, v) \<in> measure unat" by (simp add: drop_bit_eq_div unat_div)
qed simp

declare varint.simps [simp del]

lemma bit_7f: "bit (0x7f :: int) n \<longleftrightarrow> n < 7"
proof -
  have "bit (mask 7 :: int) n \<longleftrightarrow> n < 7" by (simp add: bit_mask_iff)
  then show ?thesis by (simp add: mask_eq_exp_minus_1)
qed

lemma bit_80: "bit (0x80 :: int) n \<longleftrightarrow> n = 7"
proof -
  have "bit (2 ^ 7 :: int) n \<longleftrightarrow> n = 7" unfolding bit_exp_iff by auto
  then show ?thesis by simp
qed

lemma varint_byte:
  fixes v :: u64
  shows "((ucast (v AND 0x7f) :: byte) OR 0x80) AND 0x7f = ucast (v AND 0x7f)"
    "((ucast (v AND 0x7f) :: byte) OR 0x80) AND 0x80 \<noteq> 0"
    "(ucast (ucast (v AND 0x7f) :: byte) :: u64) = v AND 0x7f"
proof -
  show "((ucast (v AND 0x7f) :: byte) OR 0x80) AND 0x7f = ucast (v AND 0x7f)"
    by (rule bit_word_eqI) (auto simp: bit_simps bit_7f bit_80)
  have "bit (((ucast (v AND 0x7f) :: byte) OR 0x80) AND 0x80) 7" by (simp add: bit_simps bit_7f bit_80)
  then show "((ucast (v AND 0x7f) :: byte) OR 0x80) AND 0x80 \<noteq> 0" by (metis bit_0_eq bot_apply bot_bool_def)
  show "(ucast (ucast (v AND 0x7f) :: byte) :: u64) = v AND 0x7f"
    by (rule bit_word_eqI) (auto simp: bit_simps bit_7f)
qed

lemma varint_last_byte:
  fixes v :: u64
  assumes "drop_bit 7 v = 0"
  shows "(ucast v :: byte) AND 0x80 = 0" "(ucast ((ucast v :: byte) AND 0x7f) :: u64) = v" "v AND 0x7f = v"
proof -
  have b: "\<not> bit v n" if "7 \<le> n" for n
  proof -
    have "bit (drop_bit 7 v) (n - 7) = bit v n" using that by (simp add: bit_simps)
    then show ?thesis using assms by simp
  qed
  show "(ucast v :: byte) AND 0x80 = 0" by (rule bit_word_eqI) (auto simp: bit_simps bit_80 b)
  have lt: "bit v n \<Longrightarrow> n < 7" for n using b [of n] by (cases "n < 7") auto
  show "(ucast ((ucast v :: byte) AND 0x7f) :: u64) = v"
    by (rule bit_word_eqI) (auto simp: bit_simps bit_7f dest: lt)
  show "v AND 0x7f = v" by (rule bit_word_eqI) (auto simp: bit_simps bit_7f dest: lt)
qed

lemma pb_write_varint_exact:
  "pb_write_varint w v = (if length (pw_buf w) + length (varint v) \<le> pw_cap w
     then Some (w\<lparr>pw_buf := pw_buf w @ varint v\<rparr>) else None)"
proof (induction w v rule: pb_write_varint.induct)
  case (1 w v)
  show ?case
  proof (cases "drop_bit 7 v = 0")
    case True
    then show ?thesis
      by (simp add: pb_write_varint.simps [of w v] varint.simps [of v] Let_def varint_last_byte(3))
  next
    case False
    have ne: "varint x \<noteq> []" for x by (simp add: varint.simps [of x])
    show ?thesis
    proof (cases "length (pw_buf w) \<ge> pw_cap w")
      case True
      moreover have "1 \<le> length (varint v)" using ne [of v] by (cases "varint v") auto
      ultimately have "\<not> length (pw_buf w) + length (varint v) \<le> pw_cap w" by linarith
      then show ?thesis using True by (simp add: pb_write_varint.simps [of w v] Let_def)
    next
      case False2: False
      show ?thesis
        using 1 [OF refl refl refl] False False2
        by (simp add: pb_write_varint.simps [of w v] varint.simps [of v] Let_def)
    qed
  qed
qed

lemma shift_join:
  fixes v acc :: u64
  shows "(acc OR push_bit shift (v AND 0x7f)) OR push_bit (shift + 7) (drop_bit 7 v) = acc OR push_bit shift v"
proof (rule bit_word_eqI)
  fix n assume "n < LENGTH(64)"
  then show "bit ((acc OR push_bit shift (v AND 0x7f)) OR push_bit (shift + 7) (drop_bit 7 v)) n = bit (acc OR push_bit shift v) n"
    by (cases "shift + 7 \<le> n") (auto simp: bit_simps bit_7f)
qed

lemma pb_varint_loop_varint:
  "shift \<le> 63 \<Longrightarrow> drop_bit (64 - shift) v = 0 \<Longrightarrow> pb_varint_loop shift acc (varint v @ r) = Some (acc OR push_bit shift v, r)"
proof (induction v arbitrary: shift acc rule: varint.induct)
  case (1 v)
  show ?case
  proof (cases "drop_bit 7 v = 0")
    case True
    then show ?thesis using 1(2) by (simp add: varint.simps [of v] varint_last_byte)
  next
    case False
    have lt: "7 < 64 - shift"
    proof (rule ccontr)
      assume "\<not> 7 < 64 - shift"
      then have "drop_bit 7 v = drop_bit (7 - (64 - shift)) (drop_bit (64 - shift) v)" by (simp add: drop_bit_drop_bit)
      then show False using 1(3) False by simp
    qed
    have "drop_bit (64 - (shift + 7)) (drop_bit 7 v) = drop_bit (64 - shift) v" using lt by (simp add: drop_bit_drop_bit)
    then have "pb_varint_loop (shift + 7) (acc OR push_bit shift (v AND 0x7f)) (varint (drop_bit 7 v) @ r)
        = Some ((acc OR push_bit shift (v AND 0x7f)) OR push_bit (shift + 7) (drop_bit 7 v), r)"
      using 1(1) [OF False] lt 1(3) by simp
    then show ?thesis
      using False lt 1(2) by (simp add: varint.simps [of v] varint_byte Let_def shift_join del: push_bit_and)
  qed
qed

lemma pb_read_varint_exact [simp]: "pb_read_varint (varint v @ r) = Some (v, r)"
proof -
  have "drop_bit 64 v = 0" by (rule bit_word_eqI) (simp add: bit_simps)
  then show ?thesis unfolding pb_read_varint_def using pb_varint_loop_varint [of 0 v 0 r] by simp
qed


lemma length_varint_aux: "drop_bit (7 * k) v = 0 \<Longrightarrow> length (varint v) \<le> max 1 k"
proof (induction k arbitrary: v)
  case 0
  then have "v = 0" by simp
  then show ?case by (simp add: varint.simps [of 0])
next
  case (Suc k)
  show ?case
  proof (cases "drop_bit 7 v = 0")
    case False
    have "drop_bit (7 * k) (drop_bit 7 v) = 0" using Suc.prems by (simp add: drop_bit_drop_bit add.commute)
    then have "length (varint (drop_bit 7 v)) \<le> max 1 k" by (rule Suc.IH)
    moreover have "k \<noteq> 0" using Suc.prems False by (cases "k = 0") simp_all
    ultimately show ?thesis using False by (simp add: varint.simps [of v])
  qed (simp add: varint.simps [of v])
qed

lemma length_varint: "length (varint v) \<le> 10"
proof -
  have "drop_bit (7 * 10) v = 0" by (rule bit_word_eqI) (simp add: bit_simps)
  from length_varint_aux [OF this] show ?thesis by simp
qed

section \<open>Fields\<close>

definition pb_tag :: "u32 \<Rightarrow> nat \<Rightarrow> u64" where
  "pb_tag f wt = push_bit 3 (ucast f) OR of_nat wt"

definition pb_vfield :: "u32 \<Rightarrow> u64 \<Rightarrow> bytes" where
  "pb_vfield f v = varint (pb_tag f PB_WT_VARINT) @ varint v"

definition pb_delim :: "u32 \<Rightarrow> bytes \<Rightarrow> bytes" where
  "pb_delim f d = varint (pb_tag f PB_WT_LEN) @ varint (of_nat (length d)) @ d"

lemma bit_7: "bit (7 :: int) n \<longleftrightarrow> n < 3"
proof -
  have "bit (mask 3 :: int) n \<longleftrightarrow> n < 3" by (simp add: bit_mask_iff)
  then show ?thesis by (simp add: mask_eq_exp_minus_1)
qed

lemma bit_2: "bit (2 :: int) n \<longleftrightarrow> n = 1"
proof -
  have "bit (2 ^ 1 :: int) n \<longleftrightarrow> n = 1" unfolding bit_exp_iff by auto
  then show ?thesis by simp
qed

lemma pb_tag_parts:
  assumes "wt = PB_WT_VARINT \<or> wt = PB_WT_LEN"
  shows "unat (pb_tag f wt AND 7) = wt" "(ucast (drop_bit 3 (pb_tag f wt)) :: u32) = f"
proof -
  have low: "pb_tag f wt AND 7 = of_nat wt"
    using assms unfolding pb_tag_def pb_wt_defs
    by (elim disjE) (simp_all, (rule bit_word_eqI, auto simp: bit_simps bit_7 bit_2)+)
  show "unat (pb_tag f wt AND 7) = wt" unfolding low using assms by (auto simp: pb_wt_defs)
  show "(ucast (drop_bit 3 (pb_tag f wt)) :: u32) = f"
    using assms unfolding pb_tag_def pb_wt_defs
    by (elim disjE) (simp_all, (rule bit_word_eqI, auto simp: bit_simps bit_2)+)
qed

lemma pb_read_tag_exact:
  "f \<noteq> 0 \<Longrightarrow> wt = PB_WT_VARINT \<or> wt = PB_WT_LEN \<Longrightarrow> pb_read_tag (varint (pb_tag f wt) @ r) = Some (f, wt, r)"
  by (simp add: pb_read_tag_def pb_tag_parts)

lemma pb_read_len_delim_exact:
  "length d < 2 ^ 64 \<Longrightarrow> pb_read_len_delim (varint (of_nat (length d)) @ d @ r) = Some (d, r)"
  by (simp add: pb_read_len_delim_def unat_of_nat)

lemma pb_write_len_delim_exact:
  "pb_write_len_delim w f d = (if length (pw_buf w) + length (pb_delim f d) \<le> pw_cap w
     then Some (w\<lparr>pw_buf := pw_buf w @ pb_delim f d\<rparr>) else None)"
  by (simp add: pb_write_len_delim_def pb_write_tag_def pb_write_varint_exact pb_delim_def pb_tag_def)

lemma pb_write_varint_field_exact:
  "pb_write_varint_field w f v = (if length (pw_buf w) + length (pb_vfield f v) \<le> pw_cap w
     then Some (w\<lparr>pw_buf := pw_buf w @ pb_vfield f v\<rparr>) else None)"
  by (simp add: pb_write_varint_field_def pb_write_tag_def pb_write_varint_exact pb_vfield_def pb_tag_def)

lemma length_pb_delim: "length (pb_delim f d) \<le> 20 + length d"
  using length_varint [of "pb_tag f PB_WT_LEN"] length_varint [of "of_nat (length d)"] by (simp add: pb_delim_def)

lemma length_pb_vfield: "length (pb_vfield f v) \<le> 20"
  using length_varint [of "pb_tag f PB_WT_VARINT"] length_varint [of v] by (simp add: pb_vfield_def)

lemma varint_ne [simp]: "varint v \<noteq> []"
  by (simp add: varint.simps [of v])

lemma pb_field_ne [simp]: "pb_delim f d \<noteq> []" "pb_vfield f v \<noteq> []"
  by (simp_all add: pb_delim_def pb_vfield_def)

section \<open>Decoding a field\<close>

lemma decode_msg_Nil [simp]: "decode_msg m [] out = Some out"
  by (simp add: decode_msg.simps)

lemma decode_msg_delim:
  assumes "f \<noteq> 0" "length d < 2 ^ 64"
  shows "decode_msg m (pb_delim f d @ r) out = (case pbf_find m f PB_WT_LEN of
      None \<Rightarrow> decode_msg m r out
    | Some (PBF_MSG sub) \<Rightarrow> (case decode_msg sub d out of None \<Rightarrow> None | Some out \<Rightarrow> decode_msg m r out)
    | Some k \<Rightarrow> decode_msg m r (decode_field k (PbDelim d) out))"
proof -
  let ?b = "varint (of_nat (length d)) @ d @ r"
  have t: "pb_read_tag (pb_delim f d @ r) = Some (f, PB_WT_LEN, ?b)"
    unfolding pb_delim_def append_assoc using assms(1) by (rule pb_read_tag_exact) simp
  have s: "pb_skip_field PB_WT_LEN ?b = Some r"
    by (simp add: pb_skip_field_def pb_read_len_delim_exact [OF assms(2)] pb_wt_defs)
  have k: "pbf_wire_type k = PB_WT_LEN" if "pbf_find m f PB_WT_LEN = Some k" for k
    using that by (auto simp: pbf_find_def find_Some_iff)
  have v: "pbf_read k ?b = Some (PbDelim d, r)" if "pbf_find m f PB_WT_LEN = Some k" for k
    using k [OF that] by (simp add: pbf_read_def pb_read_len_delim_exact [OF assms(2)] pb_wt_defs)
  show ?thesis
    unfolding decode_msg.simps [of m "pb_delim f d @ r"] t using s v
    by (simp split: option.splits pbf_kind_t.splits)
qed

lemma decode_msg_vfield:
  assumes "f \<noteq> 0"
  shows "decode_msg m (pb_vfield f v @ r) out = (case pbf_find m f PB_WT_VARINT of
      None \<Rightarrow> decode_msg m r out | Some k \<Rightarrow> decode_msg m r (decode_field k (PbVarint v) out))"
proof -
  have t: "pb_read_tag (pb_vfield f v @ r) = Some (f, PB_WT_VARINT, varint v @ r)"
    unfolding pb_vfield_def append_assoc using assms by (rule pb_read_tag_exact) simp
  have s: "pb_skip_field PB_WT_VARINT (varint v @ r) = Some r" by (simp add: pb_skip_field_def)
  have k: "pbf_wire_type k = PB_WT_VARINT" if "pbf_find m f PB_WT_VARINT = Some k" for k
    using that by (auto simp: pbf_find_def find_Some_iff)
  have v: "pbf_read k (varint v @ r) = Some (PbVarint v, r)" if "pbf_find m f PB_WT_VARINT = Some k" for k
    using k [OF that] by (simp add: pbf_read_def)
  show ?thesis
    unfolding decode_msg.simps [of m "pb_vfield f v @ r"] t using s v
    by (simp split: option.splits pbf_kind_t.splits)
qed


section \<open>Requests\<close>

text \<open>The encoding of a request under the pinned field numbers.\<close>

fun cta_event_num :: "cta_op_t \<Rightarrow> u64" where
  "cta_event_num CTA_OP_ARCHIVE = 4"
| "cta_event_num CTA_OP_RETRIEVE = 6"
| "cta_event_num CTA_OP_CANCEL = 8"
| "cta_event_num _ = 0"

definition cta_encode_workflow :: "cta_request_t \<Rightarrow> bytes" where
  "cta_encode_workflow rq = pb_vfield 1 (cta_event_num (rq_op rq)) @ pb_delim 5 (pb_delim 1 (rq_instance rq))"

definition cta_encode_client :: "cta_request_t \<Rightarrow> bytes" where
  "cta_encode_client rq = pb_delim 1 (pb_delim 1 (rq_owner_user rq) @ pb_delim 2 (rq_owner_group rq))"

definition cta_encode_file :: "cta_request_t \<Rightarrow> bytes" where
  "cta_encode_file rq = pb_delim 11 (rq_path rq) @ pb_vfield 15 (rq_archive_id rq) @ pb_delim 999 (rq_request_id rq)"

definition cta_encode_request :: "cta_request_t \<Rightarrow> bytes" where
  "cta_encode_request rq = pb_delim 1 (pb_delim 1 (cta_encode_workflow rq) @ pb_delim 2 (cta_encode_client rq)
     @ pb_delim 4 (cta_encode_file rq))"

text \<open>Strings that fit a character array of a given size with their NUL.\<close>

definition c_string :: "nat \<Rightarrow> bytes \<Rightarrow> bool" where
  "c_string n s \<longleftrightarrow> 0 \<notin> set s \<and> length s < n"

definition cta_request_fits :: "cta_request_t \<Rightarrow> bool" where
  "cta_request_fits rq \<longleftrightarrow> c_string 64 (rq_instance rq) \<and> c_string 1024 (rq_path rq) \<and> c_string 256 (rq_request_id rq)
     \<and> c_string 64 (rq_owner_user rq) \<and> c_string 64 (rq_owner_group rq)"

lemma cstr_id: "0 \<notin> set s \<Longrightarrow> cstr s = s"
  unfolding cstr_def takeWhile_eq_all_conv by metis

lemma copy_str_id: "c_string n s \<Longrightarrow> copy_str n s = s"
  by (cases n) (simp_all add: c_string_def copy_str_def cstr_id)

lemma copy_str_fits: "0 < n \<Longrightarrow> c_string n (copy_str n d)"
proof -
  assume n: "0 < n"
  have "length (takeWhile (\<lambda>c. c \<noteq> 0) (take (n - 1) d)) \<le> length (take (n - 1) d)" by (rule length_takeWhile_le)
  then show ?thesis using n by (auto simp: c_string_def copy_str_def cstr_def dest: set_takeWhileD)
qed

lemmas cta_field_simps =
  decode_msg_delim decode_msg_vfield decode_msg_delim [of _ _ _ "[]", simplified] decode_msg_vfield [of _ _ _ "[]", simplified]
  pbf_find_def pbf_rows_def pb_wt_defs

lemma cta_encode_lengths:
  assumes "cta_request_fits rq"
  shows "length (cta_encode_workflow rq) < 200" "length (cta_encode_client rq) < 200" "length (cta_encode_file rq) < 1400"
  using assms length_pb_vfield [of 1 "cta_event_num (rq_op rq)"] length_pb_delim [of 5 "pb_delim 1 (rq_instance rq)"]
    length_pb_delim [of 1 "rq_instance rq"] length_pb_delim [of 1 "pb_delim 1 (rq_owner_user rq) @ pb_delim 2 (rq_owner_group rq)"]
    length_pb_delim [of 1 "rq_owner_user rq"] length_pb_delim [of 2 "rq_owner_group rq"] length_pb_delim [of 11 "rq_path rq"]
    length_pb_vfield [of 15 "rq_archive_id rq"] length_pb_delim [of 999 "rq_request_id rq"]
  by (simp_all add: cta_request_fits_def c_string_def cta_encode_workflow_def cta_encode_client_def cta_encode_file_def)

lemma decode_workflow:
  assumes "cta_request_fits rq" "cta_event_op (cta_event_num (rq_op rq)) = rq_op rq"
  shows "decode_msg M_WF (cta_encode_workflow rq) out = Some (out\<lparr>rq_op := rq_op rq, rq_instance := rq_instance rq\<rparr>)"
proof -
  have l: "length (rq_instance rq) < 2 ^ 64" "length (pb_delim 1 (rq_instance rq)) < 2 ^ 64"
    using assms(1) length_pb_delim [of 1 "rq_instance rq"] by (simp_all add: cta_request_fits_def c_string_def)
  show ?thesis
    using l assms by (simp add: cta_encode_workflow_def cta_field_simps copy_str_id cta_request_fits_def)
qed

lemma decode_client:
  assumes "cta_request_fits rq"
  shows "decode_msg M_CLIENT (cta_encode_client rq) out
     = Some (out\<lparr>rq_owner_user := rq_owner_user rq, rq_owner_group := rq_owner_group rq\<rparr>)"
proof -
  have l: "length (rq_owner_user rq) < 2 ^ 64" "length (rq_owner_group rq) < 2 ^ 64"
    "length (pb_delim 1 (rq_owner_user rq) @ pb_delim 2 (rq_owner_group rq)) < 2 ^ 64"
    using assms length_pb_delim [of 1 "rq_owner_user rq"] length_pb_delim [of 2 "rq_owner_group rq"]
    by (simp_all add: cta_request_fits_def c_string_def)
  show ?thesis
    using l assms by (simp add: cta_encode_client_def cta_field_simps copy_str_id cta_request_fits_def)
qed

lemma decode_file:
  assumes "cta_request_fits rq"
  shows "decode_msg M_META (cta_encode_file rq) out
     = Some (out\<lparr>rq_path := rq_path rq, rq_archive_id := rq_archive_id rq, rq_request_id := rq_request_id rq\<rparr>)"
proof -
  have l: "length (rq_path rq) < 2 ^ 64" "length (rq_request_id rq) < 2 ^ 64"
    using assms by (simp_all add: cta_request_fits_def c_string_def)
  show ?thesis
    using l assms by (simp add: cta_encode_file_def cta_field_simps copy_str_id cta_request_fits_def)
qed

text \<open>
  Round trip.  The table-driven decoder reads back every workflow request encoded under the pinned
  field numbers: operation, instance, path, object-store id, archive id, user and group.  Fields the table does not
  know, of either kind, are skipped wherever they stand in a message.
\<close>
theorem cta_request_roundtrip:
  assumes "cta_request_fits rq" "rq_op rq \<in> {CTA_OP_ARCHIVE, CTA_OP_RETRIEVE, CTA_OP_CANCEL}"
  shows "cta_pb_decode_request (cta_encode_request rq) = Some rq
     \<and> (\<forall>m f d v r out. f \<noteq> 0 \<and> length d < 2 ^ 64 \<longrightarrow>
          (pbf_find m f PB_WT_LEN = None \<longrightarrow> decode_msg m (pb_delim f d @ r) out = decode_msg m r out)
        \<and> (pbf_find m f PB_WT_VARINT = None \<longrightarrow> decode_msg m (pb_vfield f v @ r) out = decode_msg m r out))"
proof
  have ev: "cta_event_op (cta_event_num (rq_op rq)) = rq_op rq" using assms(2) by (auto simp: cta_event_op_def)
  let ?w = "cta_encode_workflow rq" and ?c = "cta_encode_client rq" and ?f = "cta_encode_file rq"
  note l = cta_encode_lengths [OF assms(1)]
  have n: "length ?w < 2 ^ 64" "length ?c < 2 ^ 64" "length ?f < 2 ^ 64"
    "length (pb_delim 1 ?w @ pb_delim 2 ?c @ pb_delim 4 ?f) < 2 ^ 64"
    using l length_pb_delim [of 1 ?w] length_pb_delim [of 2 ?c] length_pb_delim [of 4 ?f] by simp_all
  show "cta_pb_decode_request (cta_encode_request rq) = Some rq"
    using n by (simp add: cta_pb_decode_request_def cta_encode_request_def cta_field_simps decode_workflow [OF assms(1) ev]
        decode_client [OF assms(1)] decode_file [OF assms(1)] cta_request_zero_def)
qed (simp add: decode_msg_delim decode_msg_vfield)

text \<open>Whatever the bytes, the strings of a decoded request are C strings that fit their arrays.\<close>

lemma decode_field_fits: "cta_request_fits out \<Longrightarrow> pbf_find m f wt = Some k \<Longrightarrow> cta_request_fits (decode_field k v out)"
  by (cases v) (auto simp: pbf_find_def pbf_rows_def cta_request_fits_def copy_str_fits split: if_splits)

lemma decode_msg_fits: "decode_msg m r out = Some out' \<Longrightarrow> cta_request_fits out \<Longrightarrow> cta_request_fits out'"
proof (induction "length r" arbitrary: m r out out' rule: less_induct)
  case less
  show ?case
  proof (cases "r = []")
    case True
    then show ?thesis using less.prems by simp
  next
    case False
    note step = less.prems(1) [unfolded decode_msg.simps [of m r]]
    obtain f wt r1 where t: "pb_read_tag r = Some (f, wt, r1)"
      using step False by (auto split: option.splits)
    note l1 = pb_read_tag_rest [OF t]
    show ?thesis
    proof (cases "pbf_find m f wt")
      case None
      then obtain r2 where "pb_skip_field wt r1 = Some r2" "decode_msg m r2 out = Some out'"
        using step False t by (auto split: option.splits)
      then show ?thesis using less.hyps [of r2 m out out'] less.prems(2) l1 pb_skip_field_rest by fastforce
    next
      case (Some k)
      obtain v r2 where v: "pbf_read k r1 = Some (v, r2)" using step False t Some by (auto split: option.splits)
      note l2 = pbf_read_rest [OF v]
      consider sub d out1 where "v = PbDelim d" "decode_msg sub d out = Some out1" "decode_msg m r2 out1 = Some out'"
        | "decode_msg m r2 (decode_field k v out) = Some out'"
        using step False t Some v by (auto split: option.splits pbf_kind_t.splits pbf_val.splits)
      then show ?thesis
      proof cases
        case 1
        then have "cta_request_fits out1" using less.hyps [of d sub out out1] less.prems(2) l1 l2 by simp
        then show ?thesis using less.hyps [of r2 m out1 out'] 1 l1 l2 by simp
      next
        case 2
        then show ?thesis using less.hyps [of r2 m _ out'] decode_field_fits [OF less.prems(2) Some] l1 l2 by simp
      qed
    qed
  qed
qed

lemma cta_pb_decode_fits: "cta_pb_decode_request buf = Some rq \<Longrightarrow> cta_request_fits rq"
  unfolding cta_pb_decode_request_def
  by (erule decode_msg_fits) (simp add: cta_request_zero_def cta_request_fits_def c_string_def)


section \<open>Responses\<close>

lemma rev_digits_value: "foldr (\<lambda>d n. 10 * n + (unat d - 48)) (rev_digits v) 0 = v"
proof (induction v rule: rev_digits.induct)
  case (1 v)
  show ?case
  proof (cases "v = 0")
    case False
    have lt: "v mod 10 < 10" by simp
    have "unat (of_nat (48 + v mod 10) :: byte) = 48 + v mod 10" unfolding unat_of_nat using lt by simp
    then show ?thesis using 1 False by (simp add: rev_digits.simps [of v] del: of_nat_add)
  qed (simp add: rev_digits.simps)
qed

text \<open>
  A response is its type, the message when there is one, and the archive id in decimal when there is one; it is
  refused exactly when it does not fit the buffer.
\<close>

lemma cta_pb_encode_response_exact:
  "cta_pb_encode_response type message_txt archive_id cap =
     (let out = pb_vfield 1 (cta_rsp_num type) @ (case message_txt of None \<Rightarrow> [] | Some m \<Rightarrow> if m = [] then [] else pb_delim 3 m)
          @ (if archive_id = 0 then [] else pb_delim 5 (rev (rev_digits (unat archive_id))))
      in if length out \<le> cap then Some out else None)"
  by (auto simp: cta_pb_encode_response_def pb_write_string_def pb_write_varint_field_exact pb_write_len_delim_exact
      Let_def split: option.split)

lemma cta_pb_encode_stream_header_exact:
  "cta_pb_encode_stream_header response cap = (if length (pb_delim 1 response) \<le> cap then Some (pb_delim 1 response) else None)"
  by (simp add: cta_pb_encode_stream_header_def pb_write_len_delim_exact)

section \<open>Witness\<close>

definition cta_example_request :: cta_request_t where
  "cta_example_request = \<lparr>rq_op = CTA_OP_RETRIEVE, rq_instance = [101], rq_path = [47, 97], rq_request_id = [],
     rq_archive_id = 300, rq_owner_user = [117], rq_owner_group = [103]\<rparr>"

theorem cta_request_roundtrip_witness:
  "cta_pb_decode_request (cta_encode_request cta_example_request) = Some cta_example_request
   \<and> decode_msg M_WF (pb_delim 77 [1, 2]) cta_example_request = Some cta_example_request"
proof -
  have f: "cta_request_fits cta_example_request" "rq_op cta_example_request \<in> {CTA_OP_ARCHIVE, CTA_OP_RETRIEVE, CTA_OP_CANCEL}"
    by (simp_all add: cta_example_request_def cta_request_fits_def c_string_def)
  note r = cta_request_roundtrip [OF f]
  have "pbf_find M_WF 77 PB_WT_LEN = None" by (simp add: pbf_find_def pbf_rows_def)
  then have "decode_msg M_WF (pb_delim 77 [1, 2] @ []) cta_example_request = decode_msg M_WF [] cta_example_request"
    using conjunct2 [OF r, rule_format, of 77 "[1, 2]" M_WF "[]" cta_example_request] by simp
  then show ?thesis using r by simp
qed

end
