(* ===== verification/Cta_Queue.thy ===== *)
theory Cta_Queue
  imports Cta_Proto
begin

text \<open>
  The request queue of the tape service, \<^verbatim>\<open>protocols/ssi/svc_cta/cta_queue.c\<close>: a table of 256 entries with a
  life-cycle state machine, an owner- or admin-gated cancel, and a text journal that is replayed at start.
  An entry pointer is the index of its slot.  The journal file is the list of its bytes, threaded next to the
  queue; \<open>wr\<close> is \<open>write(2)\<close>: how many bytes of a record reach the file.  Every operation runs under the
  zone lock (\<^verbatim>\<open>cta_shm.c\<close>), so a history of all workers is a sequence of operations.
\<close>

section \<open>Entries and states\<close>

datatype cta_state_t = CTA_ST_SUBMITTED | CTA_ST_QUEUED | CTA_ST_ACTIVE | CTA_ST_COMPLETE | CTA_ST_FAILED | CTA_ST_CANCELED

record cta_req_t =
  ce_req :: cta_request_t
  ce_state :: cta_state_t
  ce_owner :: bytes
  ce_id :: u64
  ce_in_use :: bool

definition CTA_QUEUE_MAX :: nat where
  "CTA_QUEUE_MAX = 256"

record brix_cta_queue_t =
  q_slots :: "cta_req_t list"
  q_next_id :: u64
  q_journal :: bool

fun transition_ok :: "cta_state_t \<Rightarrow> cta_state_t \<Rightarrow> bool" where
  "transition_ok CTA_ST_SUBMITTED to \<longleftrightarrow> to = CTA_ST_QUEUED \<or> to = CTA_ST_CANCELED"
| "transition_ok CTA_ST_QUEUED to \<longleftrightarrow> to = CTA_ST_ACTIVE \<or> to = CTA_ST_CANCELED \<or> to = CTA_ST_FAILED"
| "transition_ok CTA_ST_ACTIVE to \<longleftrightarrow> to = CTA_ST_COMPLETE \<or> to = CTA_ST_FAILED \<or> to = CTA_ST_CANCELED"
| "transition_ok _ to \<longleftrightarrow> False"

definition is_terminal :: "cta_state_t \<Rightarrow> bool" where
  "is_terminal s \<longleftrightarrow> s = CTA_ST_COMPLETE \<or> s = CTA_ST_FAILED \<or> s = CTA_ST_CANCELED"

text \<open>A zeroed entry; the first operation and the first state have the value 0.\<close>

definition cta_slot_zero :: cta_req_t where
  "cta_slot_zero = \<lparr>ce_req = cta_request_zero\<lparr>rq_op := CTA_OP_ARCHIVE\<rparr>, ce_state = CTA_ST_SUBMITTED, ce_owner = [],
     ce_id = 0, ce_in_use = False\<rparr>"

definition cta_queue_init :: brix_cta_queue_t where
  "cta_queue_init = \<lparr>q_slots = replicate CTA_QUEUE_MAX cta_slot_zero, q_next_id = 1, q_journal = False\<rparr>"

fun cta_op_num :: "cta_op_t \<Rightarrow> nat" where
  "cta_op_num CTA_OP_ARCHIVE = 0"
| "cta_op_num CTA_OP_RETRIEVE = 1"
| "cta_op_num CTA_OP_CANCEL = 2"
| "cta_op_num CTA_OP_QUERY = 3"
| "cta_op_num CTA_OP_UNKNOWN = 4"

fun cta_state_num :: "cta_state_t \<Rightarrow> nat" where
  "cta_state_num CTA_ST_SUBMITTED = 0"
| "cta_state_num CTA_ST_QUEUED = 1"
| "cta_state_num CTA_ST_ACTIVE = 2"
| "cta_state_num CTA_ST_COMPLETE = 3"
| "cta_state_num CTA_ST_FAILED = 4"
| "cta_state_num CTA_ST_CANCELED = 5"

section \<open>Journal records\<close>

abbreviation (input) TAB :: byte where "TAB \<equiv> 9"
abbreviation (input) NEWLINE :: byte where "NEWLINE \<equiv> 10"
abbreviation (input) RETURN :: byte where "RETURN \<equiv> 13"
abbreviation (input) BACKSLASH :: byte where "BACKSLASH \<equiv> 92"

definition journal_esc_char :: "byte \<Rightarrow> byte option" where
  "journal_esc_char c = (if c = BACKSLASH then Some BACKSLASH else if c = TAB then Some 0x74
     else if c = NEWLINE then Some 0x6e else if c = RETURN then Some 0x72 else None)"

fun journal_escape :: "nat \<Rightarrow> nat \<Rightarrow> bytes \<Rightarrow> bytes option" where
  "journal_escape cap pos [] = Some []"
| "journal_escape cap pos (c # s) = (case journal_esc_char c of
     None \<Rightarrow> if pos + 1 \<ge> cap then None else map_option (\<lambda>r. c # r) (journal_escape cap (pos + 1) s)
   | Some e \<Rightarrow> if pos + 2 \<ge> cap then None else map_option (\<lambda>r. BACKSLASH # e # r) (journal_escape cap (pos + 2) s))"

definition journal_unesc_char :: "byte \<Rightarrow> byte" where
  "journal_unesc_char c = (if c = 0x74 then TAB else if c = 0x6e then NEWLINE else if c = 0x72 then RETURN else c)"

fun journal_unescape :: "nat \<Rightarrow> nat \<Rightarrow> bytes \<Rightarrow> bytes" where
  "journal_unescape cap pos [] = []"
| "journal_unescape cap pos (c # s) =
     (if \<not> pos + 1 < cap then []
      else if c \<noteq> BACKSLASH then c # journal_unescape cap (pos + 1) s
      else case s of [] \<Rightarrow> [] | x # s \<Rightarrow> journal_unesc_char x # journal_unescape cap (pos + 1) s)"

definition cta_decimal :: "nat \<Rightarrow> bytes" where
  "cta_decimal n = (if n = 0 then [48] else rev (rev_digits n))"

definition journal_record :: "cta_req_t \<Rightarrow> bytes option" where
  "journal_record e =
     (case (journal_escape 128 0 (ce_owner e), journal_escape 2048 0 (rq_path (ce_req e))) of
        (Some owner, Some path) \<Rightarrow>
          let rec = cta_decimal (unat (ce_id e)) @ [TAB] @ cta_decimal (cta_op_num (rq_op (ce_req e))) @ [TAB]
                @ cta_decimal (cta_state_num (ce_state e)) @ [TAB] @ owner @ [TAB] @ path @ [NEWLINE]
          in if length rec \<ge> 4096 then None else Some rec
      | _ \<Rightarrow> None)"

definition journal_append :: "(bytes \<Rightarrow> nat) \<Rightarrow> brix_cta_queue_t \<Rightarrow> cta_req_t \<Rightarrow> bytes \<Rightarrow> bytes" where
  "journal_append wr q e file =
     (if \<not> q_journal q then file
      else case journal_record e of None \<Rightarrow> file | Some rec \<Rightarrow> file @ take (wr rec) rec)"

section \<open>Operations\<close>

fun cta_free_slot :: "cta_req_t list \<Rightarrow> nat \<Rightarrow> nat option" where
  "cta_free_slot [] i = None"
| "cta_free_slot (e # es) i = (if \<not> ce_in_use e then Some i else cta_free_slot es (i + 1))"

definition cta_queue_submit ::
    "(bytes \<Rightarrow> nat) \<Rightarrow> cta_request_t \<Rightarrow> bytes option \<Rightarrow> brix_cta_queue_t \<times> bytes \<Rightarrow> nat option \<times> brix_cta_queue_t \<times> bytes" where
  "cta_queue_submit wr r owner w = (case w of (q, file) \<Rightarrow>
     case cta_free_slot (q_slots q) 0 of
       None \<Rightarrow> (None, q, file)
     | Some i \<Rightarrow>
         let e = \<lparr>ce_req = r, ce_state = CTA_ST_SUBMITTED,
                  ce_owner = (case owner of None \<Rightarrow> [] | Some name \<Rightarrow> take 63 name),
                  ce_id = q_next_id q, ce_in_use = True\<rparr>;
             q = q\<lparr>q_slots := (q_slots q)[i := e], q_next_id := q_next_id q + 1\<rparr>
         in (Some i, q, journal_append wr q e file))"

fun cta_find :: "u64 \<Rightarrow> cta_req_t list \<Rightarrow> nat \<Rightarrow> nat option" where
  "cta_find rid [] i = None"
| "cta_find rid (e # es) i = (if ce_in_use e \<and> ce_id e = rid then Some i else cta_find rid es (i + 1))"

definition cta_queue_find :: "brix_cta_queue_t \<Rightarrow> u64 \<Rightarrow> nat option" where
  "cta_queue_find q rid = cta_find rid (q_slots q) 0"

definition cta_queue_transition ::
    "(bytes \<Rightarrow> nat) \<Rightarrow> nat \<Rightarrow> cta_state_t \<Rightarrow> brix_cta_queue_t \<times> bytes \<Rightarrow> int \<times> brix_cta_queue_t \<times> bytes" where
  "cta_queue_transition wr i to w = (case w of (q, file) \<Rightarrow>
     let e = q_slots q ! i
     in if \<not> transition_ok (ce_state e) to then (-1, q, file)
        else let e = e\<lparr>ce_state := to\<rparr>; q = q\<lparr>q_slots := (q_slots q)[i := e]\<rparr>
             in (0, q, journal_append wr q e file))"

definition CTA_QUEUE_EACCES :: int where "CTA_QUEUE_EACCES = -13"
definition CTA_QUEUE_ENOENT :: int where "CTA_QUEUE_ENOENT = -2"

definition cta_queue_cancel ::
    "(bytes \<Rightarrow> nat) \<Rightarrow> u64 \<Rightarrow> bytes option \<Rightarrow> bool \<Rightarrow> brix_cta_queue_t \<times> bytes \<Rightarrow> int \<times> brix_cta_queue_t \<times> bytes" where
  "cta_queue_cancel wr rid requester is_admin w = (case w of (q, file) \<Rightarrow>
     case cta_queue_find q rid of
       None \<Rightarrow> (CTA_QUEUE_ENOENT, q, file)
     | Some i \<Rightarrow>
         if \<not> is_admin \<and> requester \<noteq> Some (ce_owner (q_slots q ! i)) then (CTA_QUEUE_EACCES, q, file)
         else cta_queue_transition wr i CTA_ST_CANCELED w)"

definition cta_queue_active_count :: "brix_cta_queue_t \<Rightarrow> nat" where
  "cta_queue_active_count q = length (filter (\<lambda>e. ce_in_use e \<and> \<not> is_terminal (ce_state e)) (q_slots q))"

section \<open>Replay\<close>

text \<open>
  \<open>sscanf\<close> with the format of the journal: a blank in the format skips any white space, a number skips leading white
  space and takes a sign, a set takes at least one and at most the given number of bytes.  A number that
  does not fit its type, which no record of the code contains, is undefined in C; the model takes the
  value glibc gives.
\<close>

definition is_space :: "byte \<Rightarrow> bool" where
  "is_space c \<longleftrightarrow> c = 32 \<or> 9 \<le> c \<and> c \<le> 13"

definition is_digit :: "byte \<Rightarrow> bool" where
  "is_digit c \<longleftrightarrow> 48 \<le> c \<and> c \<le> 57"

definition scan_ws :: "bytes \<Rightarrow> bytes" where
  "scan_ws s = dropWhile is_space s"

definition digits_value :: "bytes \<Rightarrow> int" where
  "digits_value ds = foldl (\<lambda>v d. 10 * v + int (unat d - 48)) 0 ds"

definition scan_sign :: "bytes \<Rightarrow> bool \<times> bytes" where
  "scan_sign s = (case s of [] \<Rightarrow> (False, []) | c # r \<Rightarrow> if c = 45 then (True, r) else if c = 43 then (False, r) else (False, s))"

definition scan_number :: "bytes \<Rightarrow> (int \<times> bytes) option" where
  "scan_number s = (let (neg, s) = scan_sign (scan_ws s); ds = takeWhile is_digit s
     in if ds = [] then None else Some (if neg then - digits_value ds else digits_value ds, drop (length ds) s))"

definition to_ull :: "int \<Rightarrow> u64" where
  "to_ull v = (if \<bar>v\<bar> > 2 ^ 64 - 1 then -1 else word_of_int v)"

definition to_int :: "int \<Rightarrow> int" where
  "to_int v = sint (word_of_int (if v > 2 ^ 63 - 1 then 2 ^ 63 - 1 else if v < - (2 ^ 63) then - (2 ^ 63) else v) :: u32)"

definition scan_set :: "nat \<Rightarrow> byte \<Rightarrow> bytes \<Rightarrow> (bytes \<times> bytes) option" where
  "scan_set n stop s = (let r = takeWhile (\<lambda>c. c \<noteq> stop) (take n s) in if r = [] then None else Some (r, drop (length r) s))"

definition journal_scan :: "bytes \<Rightarrow> (u64 \<times> int \<times> int \<times> bytes \<times> bytes) option" where
  "journal_scan line = (case scan_number line of None \<Rightarrow> None
     | Some (rid, s) \<Rightarrow> (case scan_number (scan_ws s) of None \<Rightarrow> None
     | Some (op, s) \<Rightarrow> (case scan_number (scan_ws s) of None \<Rightarrow> None
     | Some (state, s) \<Rightarrow>
         let (owner, path) = (case scan_set 127 TAB (scan_ws s) of None \<Rightarrow> ([], [])
               | Some (owner, s) \<Rightarrow> (case scan_set 2047 NEWLINE (scan_ws s) of None \<Rightarrow> (owner, [])
                   | Some (path, _) \<Rightarrow> (owner, path)))
         in Some (to_ull rid, to_int op, to_int state, owner, path))))"

definition journal_enum_values_valid :: "int \<Rightarrow> int \<Rightarrow> bool" where
  "journal_enum_values_valid op state \<longleftrightarrow> 0 \<le> op \<and> op \<le> 4 \<and> 0 \<le> state \<and> state \<le> 5"

definition cta_op_of :: "int \<Rightarrow> cta_op_t" where
  "cta_op_of n = [CTA_OP_ARCHIVE, CTA_OP_RETRIEVE, CTA_OP_CANCEL, CTA_OP_QUERY, CTA_OP_UNKNOWN] ! nat n"

definition cta_state_of :: "int \<Rightarrow> cta_state_t" where
  "cta_state_of n =
     [CTA_ST_SUBMITTED, CTA_ST_QUEUED, CTA_ST_ACTIVE, CTA_ST_COMPLETE, CTA_ST_FAILED, CTA_ST_CANCELED] ! nat n"

fun replay_scan :: "u64 \<Rightarrow> cta_req_t list \<Rightarrow> nat \<Rightarrow> nat option \<Rightarrow> nat option \<times> nat option" where
  "replay_scan rid [] i free = (None, free)"
| "replay_scan rid (e # es) i free =
     (if ce_in_use e \<and> ce_id e = rid then (Some i, free)
      else replay_scan rid es (i + 1) (if \<not> ce_in_use e \<and> free = None then Some i else free))"

definition replay_slot :: "brix_cta_queue_t \<Rightarrow> u64 \<Rightarrow> (nat \<times> brix_cta_queue_t) option" where
  "replay_slot q rid = (case replay_scan rid (q_slots q) 0 None of
     (Some i, _) \<Rightarrow> Some (i, q)
   | (None, None) \<Rightarrow> None
   | (None, Some i) \<Rightarrow> Some (i, q\<lparr>q_slots := (q_slots q)[i := cta_slot_zero\<lparr>ce_in_use := True, ce_id := rid\<rparr>]\<rparr>))"

text \<open>\<open>None\<close> leaves the loop.\<close>

definition replay_line :: "brix_cta_queue_t \<Rightarrow> bytes \<Rightarrow> brix_cta_queue_t option" where
  "replay_line q line = (case journal_scan line of None \<Rightarrow> Some q
     | Some (rid, op, state, owner_esc, path_esc) \<Rightarrow>
         if \<not> journal_enum_values_valid op state then Some q
         else (case replay_slot q rid of None \<Rightarrow> None
           | Some (i, q) \<Rightarrow>
               let e = q_slots q ! i;
                   e = e\<lparr>ce_req := (ce_req e)\<lparr>rq_op := cta_op_of op, rq_path := journal_unescape 1024 0 path_esc\<rparr>,
                         ce_state := cta_state_of state, ce_owner := journal_unescape 64 0 owner_esc\<rparr>;
                   q = q\<lparr>q_slots := (q_slots q)[i := e]\<rparr>
               in Some (if rid \<ge> q_next_id q then q\<lparr>q_next_id := rid + 1\<rparr> else q)))"

text \<open>\<open>fgets\<close> takes at most 4095 bytes, up to and with a newline.\<close>

definition cta_fgets :: "bytes \<Rightarrow> bytes \<times> bytes" where
  "cta_fgets s = (let c = take 4095 s; l = takeWhile (\<lambda>b. b \<noteq> NEWLINE) c;
       n = (if length l < length c then length l + 1 else length l)
     in (take n s, drop n s))"

definition journal_line_whole :: "bytes \<Rightarrow> bytes \<Rightarrow> int \<times> bytes" where
  "journal_line_whole chunk rest =
     (if NEWLINE \<in> set (cstr chunk) \<or> (NEWLINE \<notin> set chunk \<and> length chunk < 4095) then (1, rest)
      else case dropWhile (\<lambda>b. b \<noteq> NEWLINE) rest of [] \<Rightarrow> (-1, []) | _ # r \<Rightarrow> (0, r))"

lemma cta_fgets_rest: "s \<noteq> [] \<Longrightarrow> cta_fgets s = (chunk, rest) \<Longrightarrow> length rest < length s"
proof -
  assume s: "s \<noteq> []" "cta_fgets s = (chunk, rest)"
  let ?l = "takeWhile (\<lambda>b. b \<noteq> NEWLINE) (take 4095 s)"
  have "0 < (if length ?l < length (take 4095 s) then length ?l + 1 else length ?l)" using s(1) by auto
  then show ?thesis using s by (auto simp: cta_fgets_def Let_def)
qed

lemma journal_line_whole_rest: "journal_line_whole chunk rest = (k, r) \<Longrightarrow> length r \<le> length rest"
proof -
  assume w: "journal_line_whole chunk rest = (k, r)"
  have "length (dropWhile (\<lambda>b. b \<noteq> NEWLINE) rest) \<le> length rest" by (rule length_dropWhile_le)
  then show ?thesis using w by (auto simp: journal_line_whole_def split: if_splits list.splits)
qed

lemma cta_next_line_rest:
  "s \<noteq> [] \<Longrightarrow> (chunk, rest) = cta_fgets s \<Longrightarrow> (k, r) = journal_line_whole chunk rest \<Longrightarrow> length r < length s"
  by (metis cta_fgets_rest journal_line_whole_rest le_less_trans)

function cta_replay :: "brix_cta_queue_t \<Rightarrow> bytes \<Rightarrow> brix_cta_queue_t" where
  "cta_replay q s =
     (if s = [] then q
      else let (chunk, rest) = cta_fgets s; (whole, rest') = journal_line_whole chunk rest
           in if whole < 0 then q
              else if whole = 0 then cta_replay q rest'
              else (case replay_line q (cstr chunk) of None \<Rightarrow> q | Some q \<Rightarrow> cta_replay q rest'))"
  by pat_completeness auto
termination
  by (relation "measure (\<lambda>(_, s). length s)") (auto intro: cta_next_line_rest)

declare cta_replay.simps [simp del]

text \<open>
  The file system is a parameter: the content \<open>fopen\<close> finds, whether a read failed, whether the append
  descriptor can be opened.
\<close>

definition cta_queue_open_journal :: "bytes option \<Rightarrow> bool \<Rightarrow> bool \<Rightarrow> brix_cta_queue_t \<Rightarrow> bool \<times> brix_cta_queue_t" where
  "cta_queue_open_journal content read_error can_open q =
     (let q = (case content of None \<Rightarrow> q | Some s \<Rightarrow> cta_replay q s)
      in if content \<noteq> None \<and> read_error then (False, q)
         else if \<not> can_open then (False, q)
         else (True, q\<lparr>q_journal := True\<rparr>))"

section \<open>Histories\<close>

type_synonym cta_world = "brix_cta_queue_t \<times> bytes"

datatype cta_action = Submit cta_request_t "bytes option" | Advance nat cta_state_t | Cancel u64 "bytes option" bool

fun cta_do :: "(bytes \<Rightarrow> nat) \<Rightarrow> cta_action \<Rightarrow> cta_world \<Rightarrow> cta_world" where
  "cta_do wr (Submit r owner) w = snd (cta_queue_submit wr r owner w)"
| "cta_do wr (Advance i to) w = snd (cta_queue_transition wr i to w)"
| "cta_do wr (Cancel rid requester adm) w = snd (cta_queue_cancel wr rid requester adm w)"

text \<open>A transition is asked for an entry that \<open>submit\<close> has handed out.\<close>

fun cta_can :: "cta_action \<Rightarrow> brix_cta_queue_t \<Rightarrow> bool" where
  "cta_can (Advance i to) q \<longleftrightarrow> i < length (q_slots q) \<and> ce_in_use (q_slots q ! i)"
| "cta_can _ q \<longleftrightarrow> True"

inductive cta_reach :: "(bytes \<Rightarrow> nat) \<Rightarrow> cta_action set \<Rightarrow> cta_world \<Rightarrow> cta_world \<Rightarrow> bool" for wr A w where
  start: "cta_reach wr A w w"
| step: "cta_reach wr A w w' \<Longrightarrow> a \<in> A \<Longrightarrow> cta_can a (fst w') \<Longrightarrow> cta_reach wr A w (cta_do wr a w')"

abbreviation cta_slots :: "cta_world \<Rightarrow> cta_req_t list" where
  "cta_slots w \<equiv> q_slots (fst w)"

lemma cta_free_slot_Some:
  "cta_free_slot es k = Some i \<Longrightarrow> k \<le> i \<and> i < k + length es \<and> \<not> ce_in_use (es ! (i - k)) \<and> (\<forall>j < i - k. ce_in_use (es ! j))"
proof (induction es k rule: cta_free_slot.induct)
  case (2 e es k)
  show ?case
  proof (cases "ce_in_use e")
    case True
    then have r: "k + 1 \<le> i \<and> i < k + 1 + length es \<and> \<not> ce_in_use (es ! (i - (k + 1))) \<and> (\<forall>j < i - (k + 1). ce_in_use (es ! j))"
      using 2 by simp
    moreover have "i - k = Suc (i - (k + 1))" using r by linarith
    ultimately show ?thesis using True by (auto simp: nth_Cons' less_Suc_eq_0_disj)
  qed (use 2 in auto)
qed simp

lemma cta_free_slot_None: "cta_free_slot es k = None \<longleftrightarrow> (\<forall>e \<in> set es. ce_in_use e)"
  by (induction es k rule: cta_free_slot.induct) auto

lemma cta_find_Some:
  "cta_find rid es k = Some i \<Longrightarrow> k \<le> i \<and> i < k + length es \<and> ce_in_use (es ! (i - k)) \<and> ce_id (es ! (i - k)) = rid"
  by (induction rid es k rule: cta_find.induct) (force split: if_splits)+

lemma cta_queue_find_Some:
  "cta_queue_find q rid = Some i \<Longrightarrow> i < length (q_slots q) \<and> ce_in_use (q_slots q ! i) \<and> ce_id (q_slots q ! i) = rid"
  using cta_find_Some [of rid "q_slots q" 0 i] by (simp add: cta_queue_find_def)

lemma cta_find_None: "cta_find rid es k = None \<longleftrightarrow> (\<forall>e \<in> set es. \<not> (ce_in_use e \<and> ce_id e = rid))"
  by (induction rid es k rule: cta_find.induct) auto

text \<open>What one action does to the table: nothing, a new entry in a free slot, or a legal transition of one entry.\<close>

lemma cta_do_cases:
  assumes "cta_can a (fst w)"
  obtains "fst (cta_do wr a w) = fst w" "snd (cta_do wr a w) = snd w"
  | i e where "i < length (cta_slots w)" "\<not> ce_in_use (cta_slots w ! i)" "\<forall>j < i. ce_in_use (cta_slots w ! j)" "\<exists>r owner. a = Submit r owner \<and>
        e = \<lparr>ce_req = r, ce_state = CTA_ST_SUBMITTED, ce_owner = (case owner of None \<Rightarrow> [] | Some name \<Rightarrow> take 63 name),
             ce_id = q_next_id (fst w), ce_in_use = True\<rparr>"
      "fst (cta_do wr a w) = (fst w)\<lparr>q_slots := (cta_slots w)[i := e], q_next_id := q_next_id (fst w) + 1\<rparr>"
      "snd (cta_do wr a w) = journal_append wr (fst (cta_do wr a w)) e (snd w)"
  | i to where "i < length (cta_slots w)" "ce_in_use (cta_slots w ! i)" "transition_ok (ce_state (cta_slots w ! i)) to"
      "(to = CTA_ST_CANCELED \<longrightarrow> (\<exists>r adm. a = Cancel (ce_id (cta_slots w ! i)) r adm
          \<and> (adm \<or> r = Some (ce_owner (cta_slots w ! i)))) \<or> a = Advance i to)"
      "fst (cta_do wr a w) = (fst w)\<lparr>q_slots := (cta_slots w)[i := (cta_slots w ! i)\<lparr>ce_state := to\<rparr>]\<rparr>"
      "snd (cta_do wr a w) = journal_append wr (fst (cta_do wr a w)) ((cta_slots w ! i)\<lparr>ce_state := to\<rparr>) (snd w)"
proof (cases a)
  case (Submit r owner)
  show thesis
  proof (cases "cta_free_slot (cta_slots w) 0")
    case None
    then show thesis using Submit by (intro that(1)) (simp_all add: cta_queue_submit_def split_beta)
  next
    case (Some i)
    from cta_free_slot_Some [OF Some] show thesis
      using Submit Some by (intro that(2) [of i]) (auto simp: cta_queue_submit_def split_beta Let_def)
  qed
next
  case (Advance i to)
  then show thesis using assms
    by (cases "transition_ok (ce_state (cta_slots w ! i)) to")
      (rule that(3) [of i to] that(1); simp add: cta_queue_transition_def split_beta Let_def)+
next
  case (Cancel rid r adm)
  show thesis
  proof (cases "cta_queue_find (fst w) rid")
    case None
    then show thesis using Cancel by (intro that(1)) (simp_all add: cta_queue_cancel_def split_beta)
  next
    case (Some i)
    note f = cta_queue_find_Some [OF Some]
    show thesis
    proof (cases "(adm \<or> r = Some (ce_owner (cta_slots w ! i))) \<and> transition_ok (ce_state (cta_slots w ! i)) CTA_ST_CANCELED")
      case True
      then show thesis using Cancel Some f
        by (intro that(3) [of i CTA_ST_CANCELED]) (auto simp: cta_queue_cancel_def cta_queue_transition_def split_beta Let_def)
    next
      case False
      then show thesis using Cancel Some
        by (intro that(1)) (auto simp: cta_queue_cancel_def cta_queue_transition_def split_beta Let_def)
    qed
  qed
qed

section \<open>The life cycle\<close>

definition cta_evolves :: "cta_req_t \<Rightarrow> cta_req_t \<Rightarrow> bool" where
  "cta_evolves e e' \<longleftrightarrow> (ce_in_use e \<longrightarrow> ce_in_use e' \<and> ce_id e' = ce_id e \<and> ce_owner e' = ce_owner e \<and> ce_req e' = ce_req e
     \<and> transition_ok\<^sup>*\<^sup>* (ce_state e) (ce_state e'))"

lemma cta_evolves_trans: "cta_evolves e e' \<Longrightarrow> cta_evolves e' e'' \<Longrightarrow> cta_evolves e e''"
  by (auto simp: cta_evolves_def intro: rtranclp_trans)

lemma cta_do_evolves:
  assumes "cta_can a (fst w)"
  shows "length (cta_slots (cta_do wr a w)) = length (cta_slots w)
    \<and> (\<forall>i < length (cta_slots w). cta_evolves (cta_slots w ! i) (cta_slots (cta_do wr a w) ! i))"
  using assms
proof (rule cta_do_cases [where wr = wr])
  fix i e assume "fst (cta_do wr a w) = (fst w)\<lparr>q_slots := (cta_slots w)[i := e], q_next_id := q_next_id (fst w) + 1\<rparr>"
    "\<not> ce_in_use (cta_slots w ! i)" "i < length (cta_slots w)"
  then show ?thesis by (auto simp: cta_evolves_def nth_list_update)
next
  fix i to assume "fst (cta_do wr a w) = (fst w)\<lparr>q_slots := (cta_slots w)[i := (cta_slots w ! i)\<lparr>ce_state := to\<rparr>]\<rparr>"
    "transition_ok (ce_state (cta_slots w ! i)) to" "i < length (cta_slots w)"
  then show ?thesis by (auto simp: cta_evolves_def nth_list_update)
qed (simp add: cta_evolves_def)

lemma cta_reach_evolves:
  "cta_reach wr A w w' \<Longrightarrow> length (cta_slots w') = length (cta_slots w)
     \<and> (\<forall>i < length (cta_slots w). cta_evolves (cta_slots w ! i) (cta_slots w' ! i))"
proof (induction rule: cta_reach.induct)
  case start
  then show ?case by (simp add: cta_evolves_def)
next
  case (step w' a)
  then show ?case using cta_do_evolves [OF step.hyps(3), where wr = wr] by (auto intro: cta_evolves_trans)
qed

lemma transition_terminal: "transition_ok\<^sup>*\<^sup>* s t \<Longrightarrow> is_terminal s \<Longrightarrow> t = s"
  by (induction rule: rtranclp_induct) (auto simp: is_terminal_def)


text \<open>
  C22. Life cycle.  Over any history of submissions, transitions and cancellations, an entry keeps its id, its
  request and its owner, its state moves only along legal transitions, and a terminal state is final.
\<close>
theorem cta_lifecycle:
  assumes "cta_reach wr A w w'" "i < length (cta_slots w)" "ce_in_use (cta_slots w ! i)"
  shows "ce_in_use (cta_slots w' ! i) \<and> ce_id (cta_slots w' ! i) = ce_id (cta_slots w ! i)
     \<and> ce_owner (cta_slots w' ! i) = ce_owner (cta_slots w ! i) \<and> ce_req (cta_slots w' ! i) = ce_req (cta_slots w ! i)
     \<and> transition_ok\<^sup>*\<^sup>* (ce_state (cta_slots w ! i)) (ce_state (cta_slots w' ! i))
     \<and> (is_terminal (ce_state (cta_slots w ! i)) \<longrightarrow> ce_state (cta_slots w' ! i) = ce_state (cta_slots w ! i))"
proof -
  have "cta_evolves (cta_slots w ! i) (cta_slots w' ! i)" using cta_reach_evolves [OF assms(1)] assms(2) by blast
  then show ?thesis using assms(3) transition_terminal by (simp add: cta_evolves_def)
qed

text \<open>
  C23. Authority.  An entry that is canceled at the end of a history and was not at its start was canceled by its
  owner or by an administrator, unless an executor asked for that transition.
\<close>
theorem cta_cancel_authority:
  assumes "cta_reach wr A w w'" "i < length (cta_slots w)" "ce_in_use (cta_slots w ! i)"
    and "ce_state (cta_slots w ! i) \<noteq> CTA_ST_CANCELED" "ce_state (cta_slots w' ! i) = CTA_ST_CANCELED"
  shows "(\<exists>r adm. Cancel (ce_id (cta_slots w ! i)) r adm \<in> A \<and> (adm \<or> r = Some (ce_owner (cta_slots w ! i))))
     \<or> Advance i CTA_ST_CANCELED \<in> A"
  using assms(1,5)
proof (induction rule: cta_reach.induct)
  case start
  then show ?case using assms(4) by simp
next
  case (step w' a)
  show ?case
  proof (cases "ce_state (cta_slots w' ! i) = CTA_ST_CANCELED")
    case True
    then show ?thesis by (rule step.IH)
  next
    case False
    have ev: "length (cta_slots w') = length (cta_slots w)" "cta_evolves (cta_slots w ! i) (cta_slots w' ! i)"
      using cta_reach_evolves [OF step.hyps(1)] assms(2) by auto
    show ?thesis
    proof (rule cta_do_cases [OF step.hyps(3), where wr = wr])
      assume "fst (cta_do wr a w') = fst w'"
      then show ?thesis using False step.prems by simp
    next
      fix k e assume u: "\<not> ce_in_use (cta_slots w' ! k)" "k < length (cta_slots w')"
        "fst (cta_do wr a w') = (fst w')\<lparr>q_slots := (cta_slots w')[k := e], q_next_id := q_next_id (fst w') + 1\<rparr>"
      have "k \<noteq> i" using u(1) ev(2) assms(3) by (auto simp: cta_evolves_def)
      then show ?thesis using False step.prems u by simp
    next
      fix k to assume u: "k < length (cta_slots w')"
        "(to = CTA_ST_CANCELED \<longrightarrow> (\<exists>r adm. a = Cancel (ce_id (cta_slots w' ! k)) r adm
          \<and> (adm \<or> r = Some (ce_owner (cta_slots w' ! k)))) \<or> a = Advance k to)"
        "fst (cta_do wr a w') = (fst w')\<lparr>q_slots := (cta_slots w')[k := (cta_slots w' ! k)\<lparr>ce_state := to\<rparr>]\<rparr>"
      have k: "k = i \<and> to = CTA_ST_CANCELED" using False step.prems u(1,3) by (auto simp: nth_list_update split: if_splits)
      have "ce_id (cta_slots w' ! i) = ce_id (cta_slots w ! i)" "ce_owner (cta_slots w' ! i) = ce_owner (cta_slots w ! i)"
        using ev(2) assms(3) by (auto simp: cta_evolves_def)
      then show ?thesis using k u(2) step.hyps(2) by auto
    qed
  qed
qed

text \<open>
  Exhaustion.  Entries are never released: once every slot has been handed out, every later
  submission is refused, even when all entries have reached a terminal state.
\<close>
theorem cta_queue_exhausts:
  assumes "cta_reach wr A w w'" "\<forall>e \<in> set (cta_slots w). ce_in_use e"
  shows "cta_queue_submit wr r owner w' = (None, w')"
proof -
  have "\<forall>i < length (cta_slots w'). ce_in_use (cta_slots w' ! i)"
    using cta_reach_evolves [OF assms(1)] assms(2) by (simp add: cta_evolves_def)
  then have "cta_free_slot (cta_slots w') 0 = None" unfolding cta_free_slot_None by (metis in_set_conv_nth)
  then show ?thesis by (simp add: cta_queue_submit_def split_beta)
qed


section \<open>Fields and numbers of a record\<close>

definition journal_esc :: "bytes \<Rightarrow> bytes" where
  "journal_esc s = concat (map (\<lambda>c. case journal_esc_char c of None \<Rightarrow> [c] | Some e \<Rightarrow> [BACKSLASH, e]) s)"

lemma journal_esc_simps [simp]:
  "journal_esc [] = []"
  "journal_esc (c # s) = (case journal_esc_char c of None \<Rightarrow> [c] | Some e \<Rightarrow> [BACKSLASH, e]) @ journal_esc s"
  by (simp_all add: journal_esc_def)

lemma journal_escape_exact:
  "pos < cap \<Longrightarrow> journal_escape cap pos s = (if pos + length (journal_esc s) < cap then Some (journal_esc s) else None)"
  by (induction cap pos s rule: journal_escape.induct) (auto split: option.split)

lemma length_journal_esc: "length (journal_esc s) \<le> 2 * length s"
  by (induction s) (auto split: option.split)

lemma journal_esc_char_back: "journal_esc_char c = Some e \<Longrightarrow> journal_unesc_char e = c"
  by (auto simp: journal_esc_char_def journal_unesc_char_def split: if_splits)

lemma journal_esc_char_None: "journal_esc_char c = None \<Longrightarrow> c \<noteq> BACKSLASH"
  by (auto simp: journal_esc_char_def)

lemma journal_unescape_esc: "pos + length s < cap \<Longrightarrow> journal_unescape cap pos (journal_esc s) = s"
  by (induction s arbitrary: pos)
    (auto simp: journal_esc_char_back dest: journal_esc_char_None split: option.split)

lemma journal_esc_clean:
  assumes "0 \<notin> set s"
  shows "set (journal_esc s) \<inter> {0, TAB, NEWLINE} = {}"
  using assms by (induction s) (auto simp: journal_esc_char_def split: option.splits if_splits)

lemma is_space_simps [simp]: "is_space 9" "is_space 10" "is_space 32" "is_digit c \<Longrightarrow> \<not> is_space c"
  by (auto simp: is_space_def is_digit_def word_le_nat_alt)

definition not_blank :: "bytes \<Rightarrow> bool" where
  "not_blank s \<longleftrightarrow> s = [] \<or> hd s \<notin> {11, 12, 32}"

lemma space_cases: "is_space c \<longleftrightarrow> c = 9 \<or> c = 10 \<or> c = 11 \<or> c = 12 \<or> c = 13 \<or> c = 32"
proof
  assume s: "is_space c"
  then have "unat c = 32 \<or> (9 \<le> unat c \<and> unat c \<le> 13)" by (auto simp: is_space_def word_le_nat_alt)
  then have "unat c \<in> {9, 10, 11, 12, 13, 32}" by auto
  then show "c = 9 \<or> c = 10 \<or> c = 11 \<or> c = 12 \<or> c = 13 \<or> c = 32" by (auto simp: word_unat_eq_iff)
qed (auto simp: is_space_def word_le_nat_alt)

lemma journal_esc_scan_ws:
  assumes "s \<noteq> []" "not_blank s"
  shows "scan_ws (TAB # journal_esc s @ t) = journal_esc s @ t"
proof -
  obtain c s' where s: "s = c # s'" using assms(1) by (cases s) auto
  have "\<not> is_space (hd (journal_esc s))"
    using assms(2) by (auto simp: s not_blank_def space_cases journal_esc_char_def split: option.split)
  moreover have "journal_esc s \<noteq> []" by (simp add: s split: option.split)
  ultimately show ?thesis by (cases "journal_esc s") (simp_all add: scan_ws_def)
qed

lemma cta_decimal_digits: "cta_decimal n \<noteq> []" "\<forall>d \<in> set (cta_decimal n). is_digit d"
proof -
  have r: "\<forall>d \<in> set (rev_digits m). is_digit d" for m
  proof (induction m rule: rev_digits.induct)
    case (1 m)
    have "unat (of_nat (48 + m mod 10) :: byte) = 48 + m mod 10"
      unfolding unat_of_nat using mod_less_divisor [of 10 m] by simp
    then have "is_digit (of_nat (48 + m mod 10))"
      using mod_less_divisor [of 10 m] by (simp add: is_digit_def word_le_nat_alt del: of_nat_add)
    then show ?case using 1 by (simp add: rev_digits.simps [of m] del: of_nat_add)
  qed
  show "cta_decimal n \<noteq> []" by (simp add: cta_decimal_def rev_digits.simps [of n])
  show "\<forall>d \<in> set (cta_decimal n). is_digit d" using r [of n] by (simp add: cta_decimal_def is_digit_def)
qed

lemma digits_value_decimal: "digits_value (cta_decimal n) = int n"
proof -
  have f: "foldl (\<lambda>v d. 10 * v + int (unat d - 48)) 0 (rev ds) = int (foldr (\<lambda>d m. 10 * m + (unat d - 48)) ds 0)" for ds
    by (induction ds) simp_all
  have "digits_value (rev (rev_digits n)) = int n"
    unfolding digits_value_def f [of "rev_digits n"] rev_digits_value by (rule refl)
  then show ?thesis by (simp add: cta_decimal_def digits_value_def)
qed

lemma scan_number_decimal:
  "scan_number (cta_decimal n @ TAB # s) = Some (int n, TAB # s)"
  "scan_number (scan_ws (TAB # cta_decimal n @ TAB # s)) = Some (int n, TAB # s)"
proof -
  obtain d ds where d: "cta_decimal n = d # ds" using cta_decimal_digits(1) by (cases "cta_decimal n") auto
  have dig: "is_digit d" "\<forall>x \<in> set ds. is_digit x" using cta_decimal_digits(2) [of n] by (auto simp: d)
  then have ne: "d \<noteq> 45" "d \<noteq> 43" by (auto simp: is_digit_def)
  have tw: "takeWhile is_digit (cta_decimal n @ TAB # s) = cta_decimal n"
    using cta_decimal_digits(2) [of n] by (simp add: takeWhile_append2 is_digit_def)
  have ws: "scan_ws (cta_decimal n @ TAB # s) = cta_decimal n @ TAB # s" using dig by (simp add: scan_ws_def d)
  have sg: "scan_sign (cta_decimal n @ TAB # s) = (False, cta_decimal n @ TAB # s)" using ne by (simp add: scan_sign_def d)
  show 1: "scan_number (cta_decimal n @ TAB # s) = Some (int n, TAB # s)"
    by (simp add: scan_number_def Let_def ws sg tw digits_value_decimal cta_decimal_digits(1))
  have "scan_ws (TAB # cta_decimal n @ TAB # s) = cta_decimal n @ TAB # s" using ws by (simp add: scan_ws_def)
  then show "scan_number (scan_ws (TAB # cta_decimal n @ TAB # s)) = Some (int n, TAB # s)" using 1 by simp
qed

lemma takeWhile_stop:
  "stop \<notin> set r \<Longrightarrow> takeWhile (\<lambda>c. c \<noteq> stop) (r @ stop # t) = r"
  "stop \<notin> set r \<Longrightarrow> takeWhile (\<lambda>c. c \<noteq> stop) r = r"
  by (induction r) auto

lemma scan_set_exact:
  assumes "r \<noteq> []" "stop \<notin> set r" "length r \<le> n"
  shows "scan_set n stop (r @ stop # t) = Some (r, stop # t)"
proof -
  have "takeWhile (\<lambda>c. c \<noteq> stop) (take n (r @ stop # t)) = r"
    using assms(2,3) by (cases "n - length r") (simp_all add: takeWhile_stop)
  then show ?thesis using assms(1) by (simp add: scan_set_def)
qed


section \<open>One record through the journal\<close>

definition cta_line :: "cta_req_t \<Rightarrow> bytes" where
  "cta_line e = cta_decimal (unat (ce_id e)) @ TAB # cta_decimal (cta_op_num (rq_op (ce_req e))) @ TAB
     # cta_decimal (cta_state_num (ce_state e)) @ TAB # journal_esc (ce_owner e) @ TAB # journal_esc (rq_path (ce_req e)) @ [NEWLINE]"

text \<open>An owner and a path that a record can carry: the format drops leading blanks and an empty owner.\<close>

definition cta_journalable :: "cta_req_t \<Rightarrow> bool" where
  "cta_journalable e \<longleftrightarrow> c_string 64 (ce_owner e) \<and> ce_owner e \<noteq> [] \<and> not_blank (ce_owner e)
     \<and> c_string 1024 (rq_path (ce_req e)) \<and> not_blank (rq_path (ce_req e))"

lemma length_rev_digits: "n < 10 ^ k \<Longrightarrow> length (rev_digits n) \<le> k"
proof (induction k arbitrary: n)
  case 0
  then show ?case by (simp add: rev_digits.simps)
next
  case (Suc k)
  have "n div 10 < 10 ^ k" using Suc.prems by (simp add: less_mult_imp_div_less mult.commute)
  then show ?case using Suc.IH [of "n div 10"] by (simp add: rev_digits.simps [of n])
qed

lemma length_cta_decimal: "n < 10 ^ k \<Longrightarrow> length (cta_decimal n) \<le> max 1 k"
  using length_rev_digits [of n k] by (auto simp: cta_decimal_def)

lemma length_cta_line:
  assumes "c_string 64 (ce_owner e)" "c_string 1024 (rq_path (ce_req e))"
  shows "length (cta_line e) < 4095" "length (journal_esc (ce_owner e)) < 128" "length (journal_esc (rq_path (ce_req e))) < 2048"
proof -
  have "unat (ce_id e) < 2 ^ LENGTH(64)" by (rule unsigned_less)
  then have "length (cta_decimal (unat (ce_id e))) \<le> 20" using length_cta_decimal [of "unat (ce_id e)" 20] by simp
  moreover have "length (cta_decimal (cta_op_num (rq_op (ce_req e)))) \<le> 1"
    using length_cta_decimal [of "cta_op_num (rq_op (ce_req e))" 1] by (cases "rq_op (ce_req e)") simp_all
  moreover have "length (cta_decimal (cta_state_num (ce_state e))) \<le> 1"
    using length_cta_decimal [of "cta_state_num (ce_state e)" 1] by (cases "ce_state e") simp_all
  moreover show "length (journal_esc (ce_owner e)) < 128"
    using length_journal_esc [of "ce_owner e"] assms(1) by (simp add: c_string_def)
  moreover show "length (journal_esc (rq_path (ce_req e))) < 2048"
    using length_journal_esc [of "rq_path (ce_req e)"] assms(2) by (simp add: c_string_def)
  ultimately show "length (cta_line e) < 4095" by (simp add: cta_line_def)
qed

lemma journal_record_exact:
  assumes "c_string 64 (ce_owner e)" "c_string 1024 (rq_path (ce_req e))"
  shows "journal_record e = Some (cta_line e)"
  using length_cta_line [OF assms] by (simp add: journal_record_def journal_escape_exact Let_def cta_line_def)

lemma cta_decimal_clean: "set (cta_decimal n) \<inter> {0, TAB, NEWLINE} = {}"
  using cta_decimal_digits(2) [of n] by (auto simp: is_digit_def word_le_nat_alt)

lemma cta_line_body:
  assumes "c_string 64 (ce_owner e)" "c_string 1024 (rq_path (ce_req e))"
  obtains b where "cta_line e = b @ [NEWLINE]" "NEWLINE \<notin> set b" "0 \<notin> set b"
proof
  let ?b = "cta_decimal (unat (ce_id e)) @ TAB # cta_decimal (cta_op_num (rq_op (ce_req e))) @ TAB
     # cta_decimal (cta_state_num (ce_state e)) @ TAB # journal_esc (ce_owner e) @ TAB # journal_esc (rq_path (ce_req e))"
  show "cta_line e = ?b @ [NEWLINE]" by (simp add: cta_line_def)
  show "NEWLINE \<notin> set ?b" "0 \<notin> set ?b"
    using cta_decimal_clean journal_esc_clean [of "ce_owner e"] journal_esc_clean [of "rq_path (ce_req e)"] assms
    by (auto simp: c_string_def)
qed

lemma cta_fgets_line:
  assumes "NEWLINE \<notin> set b" "length b < 4095"
  shows "cta_fgets (b @ NEWLINE # s) = (b @ [NEWLINE], s)"
proof -
  obtain m where m: "4095 - length b = Suc m" using assms(2) by (cases "4095 - length b") auto
  then have c: "take 4095 (b @ NEWLINE # s) = b @ NEWLINE # take m s" by simp
  show ?thesis unfolding cta_fgets_def Let_def c takeWhile_stop(1) [OF assms(1)] by simp
qed

lemma to_ull_uint [simp]: "to_ull (uint (x :: u64)) = x"
proof -
  have "uint x < 2 ^ LENGTH(64)" by (rule unsigned_less)
  then have "\<bar>uint x\<bar> \<le> 2 ^ 64 - 1" by simp
  then show ?thesis by (simp add: to_ull_def)
qed

lemma to_int_small: "n \<le> 5 \<Longrightarrow> to_int (int n) = int n"
proof -
  assume n: "n \<le> 5"
  then have "n = 0 \<or> n = 1 \<or> n = 2 \<or> n = 3 \<or> n = 4 \<or> n = 5" by arith
  then show ?thesis by (auto simp: to_int_def)
qed

lemma journal_scan_line:
  assumes "cta_journalable e"
  shows "journal_scan (cta_line e) = Some (ce_id e, int (cta_op_num (rq_op (ce_req e))), int (cta_state_num (ce_state e)),
     journal_esc (ce_owner e), journal_esc (rq_path (ce_req e)))"
proof -
  let ?o = "ce_owner e" and ?p = "rq_path (ce_req e)"
  have a: "c_string 64 ?o" "?o \<noteq> []" "not_blank ?o" "c_string 1024 ?p" "not_blank ?p"
    using assms by (auto simp: cta_journalable_def)
  note l = length_cta_line [OF a(1,4)]
  have ne: "journal_esc ?o \<noteq> []" using a(2) by (cases ?o) (auto split: option.split)
  have so: "scan_set 127 TAB (journal_esc ?o @ TAB # t) = Some (journal_esc ?o, TAB # t)" for t
    using l(2) journal_esc_clean [of ?o] a(1) by (intro scan_set_exact [OF ne]) (auto simp: c_string_def)
  have path: "(case scan_set 2047 NEWLINE (scan_ws (TAB # journal_esc ?p @ [NEWLINE])) of None \<Rightarrow> (journal_esc ?o, [])
      | Some (path, _) \<Rightarrow> (journal_esc ?o, path)) = (journal_esc ?o, journal_esc ?p)"
  proof (cases "?p = []")
    case True
    then show ?thesis by (simp add: scan_ws_def scan_set_def)
  next
    case False
    then have "journal_esc ?p \<noteq> []" by (cases ?p) (auto split: option.split)
    then have "scan_set 2047 NEWLINE (journal_esc ?p @ NEWLINE # []) = Some (journal_esc ?p, [NEWLINE])"
      using l(3) journal_esc_clean [of ?p] a(4) by (intro scan_set_exact) (auto simp: c_string_def)
    then show ?thesis using journal_esc_scan_ws [OF False a(5)] by simp
  qed
  have n: "cta_op_num (rq_op (ce_req e)) \<le> 5" "cta_state_num (ce_state e) \<le> 5"
    by (cases "rq_op (ce_req e)"; simp) (cases "ce_state e"; simp)
  show ?thesis
    unfolding cta_line_def journal_scan_def
    by (simp add: scan_number_decimal journal_esc_scan_ws [OF a(2,3)] so path to_int_small [OF n(1)] to_int_small [OF n(2)])
qed


section \<open>Recovery\<close>

lemma replay_scan_fst: "fst (replay_scan rid es i free) = cta_find rid es i"
  by (induction rid es i free rule: replay_scan.induct) auto

lemma replay_scan_snd:
  "cta_find rid es i = None \<Longrightarrow>
     snd (replay_scan rid es i free) = (case free of Some k \<Rightarrow> Some k | None \<Rightarrow> cta_free_slot es i)"
proof (induction rid es i free rule: replay_scan.induct)
  case (1 rid i free)
  then show ?case by (cases free) simp_all
next
  case (2 rid e es i free)
  then show ?case by (cases free) (auto split: if_splits)
qed

lemma replay_slot_exact:
  "replay_slot q rid = (case cta_queue_find q rid of Some i \<Rightarrow> Some (i, q)
     | None \<Rightarrow> map_option (\<lambda>i. (i, q\<lparr>q_slots := (q_slots q)[i := cta_slot_zero\<lparr>ce_in_use := True, ce_id := rid\<rparr>]\<rparr>))
         (cta_free_slot (q_slots q) 0))"
proof (cases "replay_scan rid (q_slots q) 0 None")
  case (Pair a b)
  have "a = cta_queue_find q rid" using replay_scan_fst [of rid "q_slots q" 0 None] Pair by (simp add: cta_queue_find_def)
  moreover have "cta_queue_find q rid = None \<Longrightarrow> b = cta_free_slot (q_slots q) 0"
    using replay_scan_snd [of rid "q_slots q" 0 None] Pair by (simp add: cta_queue_find_def)
  ultimately show ?thesis unfolding replay_slot_def Pair by (auto split: option.split)
qed

text \<open>What the journal keeps of an entry.\<close>

definition cta_forget :: "cta_req_t \<Rightarrow> cta_req_t" where
  "cta_forget e = e\<lparr>ce_req := (ce_req cta_slot_zero)\<lparr>rq_op := rq_op (ce_req e), rq_path := rq_path (ce_req e)\<rparr>\<rparr>"

definition cta_forget_queue :: "brix_cta_queue_t \<Rightarrow> brix_cta_queue_t" where
  "cta_forget_queue q = q\<lparr>q_slots := map cta_forget (q_slots q), q_journal := False\<rparr>"

lemma cta_forget_simps [simp]:
  "ce_in_use (cta_forget e) = ce_in_use e" "ce_id (cta_forget e) = ce_id e" "cta_forget cta_slot_zero = cta_slot_zero"
  by (simp_all add: cta_forget_def cta_slot_zero_def cta_request_zero_def)

lemma cta_op_of_num [simp]: "cta_op_of (int (cta_op_num x)) = x" "cta_state_of (int (cta_state_num s)) = s"
  by (cases x; simp add: cta_op_of_def) (cases s; simp add: cta_state_of_def)

lemma journal_enum_ok: "journal_enum_values_valid (int (cta_op_num x)) (int (cta_state_num s))"
  by (cases x; cases s; simp add: journal_enum_values_valid_def)

text \<open>A record replayed into a table: the slot of its id, or a fresh one, holds what the record keeps.\<close>

lemma replay_line_exact:
  assumes j: "cta_journalable e" "ce_in_use e" and i: "i < length (q_slots q)"
    and slot: "(cta_queue_find q (ce_id e) = Some i \<and> (\<exists>e0. q_slots q ! i = cta_forget e0 \<and> ce_in_use e0 \<and> ce_id e0 = ce_id e))
      \<or> (cta_queue_find q (ce_id e) = None \<and> cta_free_slot (q_slots q) 0 = Some i)"
  shows "replay_line q (cta_line e) = Some (q\<lparr>q_slots := (q_slots q)[i := cta_forget e],
     q_next_id := (if q_next_id q \<le> ce_id e then ce_id e + 1 else q_next_id q)\<rparr>)"
proof -
  have u: "journal_unescape 64 0 (journal_esc (ce_owner e)) = ce_owner e"
    "journal_unescape 1024 0 (journal_esc (rq_path (ce_req e))) = rq_path (ce_req e)"
    using j(1) by (auto simp: cta_journalable_def c_string_def intro: journal_unescape_esc)
  show ?thesis using slot
  proof (elim disjE conjE exE)
    fix e0 assume f: "cta_queue_find q (ce_id e) = Some i" "q_slots q ! i = cta_forget e0" "ce_in_use e0" "ce_id e0 = ce_id e"
    then have "(cta_forget e0)\<lparr>ce_req := (ce_req (cta_forget e0))\<lparr>rq_op := rq_op (ce_req e), rq_path := rq_path (ce_req e)\<rparr>,
        ce_state := ce_state e, ce_owner := ce_owner e\<rparr> = cta_forget e"
      using j(2) by (simp add: cta_forget_def)
    then show ?thesis
      using f by (simp add: replay_line_def journal_scan_line [OF j(1)] journal_enum_ok replay_slot_exact Let_def u)
  next
    assume f: "cta_queue_find q (ce_id e) = None" "cta_free_slot (q_slots q) 0 = Some i"
    have "cta_slot_zero\<lparr>ce_in_use := True, ce_id := ce_id e, ce_req := (ce_req cta_slot_zero)\<lparr>rq_op := rq_op (ce_req e),
        rq_path := rq_path (ce_req e)\<rparr>, ce_state := ce_state e, ce_owner := ce_owner e\<rparr> = cta_forget e"
      using j(2) by (simp add: cta_forget_def cta_slot_zero_def)
    then show ?thesis
      using f i by (simp add: replay_line_def journal_scan_line [OF j(1)] journal_enum_ok replay_slot_exact Let_def u)
  qed
qed

lemma cta_replay_record:
  assumes c: "c_string 64 (ce_owner e)" "c_string 1024 (rq_path (ce_req e))"
    and rl: "replay_line q (cta_line e) = Some q'"
  shows "cta_replay q (cta_line e @ s) = cta_replay q' s"
proof -
  obtain b where b: "cta_line e = b @ [NEWLINE]" "NEWLINE \<notin> set b" "0 \<notin> set b" using cta_line_body [OF c] .
  have "length b < 4095" using length_cta_line(1) [OF c] b(1) by simp
  then have f: "cta_fgets (cta_line e @ s) = (cta_line e, s)" using cta_fgets_line [OF b(2)] b(1) by simp
  have "0 \<notin> set (cta_line e)" using b by simp
  then have "cstr (cta_line e) = cta_line e" by (rule cstr_id)
  moreover have "NEWLINE \<in> set (cta_line e)" using b(1) by simp
  moreover have "cta_line e \<noteq> []" using b(1) by simp
  ultimately show ?thesis
    using rl by (simp add: cta_replay.simps [of q "cta_line e @ s"] f journal_line_whole_def)
qed

lemmas cta_replay_line = cta_replay_record [OF cta_journalable_def [THEN iffD1, THEN conjunct1]
  cta_journalable_def [THEN iffD1, THEN conjunct2, THEN conjunct2, THEN conjunct2, THEN conjunct1]]


text \<open>A queue in use: the entries handed out are the first \<open>n\<close> slots, numbered from 1.\<close>

definition cta_wf :: "brix_cta_queue_t \<Rightarrow> nat \<Rightarrow> bool" where
  "cta_wf q n \<longleftrightarrow> length (q_slots q) = 256 \<and> n \<le> 256 \<and> q_next_id q = of_nat (n + 1) \<and> q_journal q
     \<and> (\<forall>i < n. ce_in_use (q_slots q ! i) \<and> ce_id (q_slots q ! i) = of_nat (i + 1) \<and> cta_journalable (q_slots q ! i))
     \<and> (\<forall>i. n \<le> i \<and> i < 256 \<longrightarrow> q_slots q ! i = cta_slot_zero)"

definition cta_named :: "cta_request_t \<Rightarrow> bytes option \<Rightarrow> bool" where
  "cta_named r owner \<longleftrightarrow> c_string 1024 (rq_path r) \<and> not_blank (rq_path r)
     \<and> (\<exists>name. owner = Some name \<and> name \<noteq> [] \<and> 0 \<notin> set name \<and> not_blank name)"

lemma cta_find_forget [simp]: "cta_find rid (map cta_forget es) k = cta_find rid es k"
  by (induction rid es k rule: cta_find.induct) auto

lemma cta_free_slot_forget [simp]: "cta_free_slot (map cta_forget es) k = cta_free_slot es k"
  by (induction es k rule: cta_free_slot.induct) auto

lemma cta_queue_find_forget [simp]: "cta_queue_find (cta_forget_queue q) rid = cta_queue_find q rid"
  by (simp add: cta_queue_find_def cta_forget_queue_def)

lemma unat_small_id: "m \<le> 257 \<Longrightarrow> unat (of_nat m :: u64) = m"
  unfolding unat_of_nat by simp

lemma cta_wfD:
  assumes "cta_wf q n"
  shows "length (q_slots q) = 256" "n \<le> 256" "q_next_id q = of_nat (n + 1)" "q_journal q"
    "i < n \<Longrightarrow> ce_in_use (q_slots q ! i)" "i < n \<Longrightarrow> ce_id (q_slots q ! i) = of_nat (i + 1)"
    "i < n \<Longrightarrow> cta_journalable (q_slots q ! i)" "n \<le> i \<Longrightarrow> i < 256 \<Longrightarrow> q_slots q ! i = cta_slot_zero"
  using assms unfolding cta_wf_def by blast+

lemma cta_wf_used: "cta_wf q n \<Longrightarrow> i < 256 \<Longrightarrow> ce_in_use (q_slots q ! i) \<longleftrightarrow> i < n"
  using cta_wfD(5) [of q n i] cta_wfD(8) [of q n i] by (cases "i < n") (simp_all add: cta_slot_zero_def)

lemma cta_wf_id: "cta_wf q n \<Longrightarrow> i < n \<Longrightarrow> unat (ce_id (q_slots q ! i)) = i + 1"
  using unat_small_id [of "i + 1"] cta_wfD(2) [of q n] by (simp only: cta_wfD(6)) simp

lemma cta_wf_find:
  assumes wf: "cta_wf q n" and i: "i < n"
  shows "cta_queue_find q (ce_id (q_slots q ! i)) = Some i"
proof (cases "cta_queue_find q (ce_id (q_slots q ! i))")
  case None
  have "i < length (q_slots q)" using cta_wfD(1,2) [OF wf] i by simp
  then have "q_slots q ! i \<in> set (q_slots q) \<and> ce_in_use (q_slots q ! i)" using cta_wfD(5) [OF wf i] by simp
  then show ?thesis using None unfolding cta_queue_find_def cta_find_None by blast
next
  case (Some k)
  note f = cta_queue_find_Some [OF Some]
  have "k < n" using f cta_wf_used [OF wf, of k] cta_wfD(1) [OF wf] by simp
  then have "k + 1 = i + 1" using cta_wf_id [OF wf i] cta_wf_id [OF wf, of k] f by simp
  then show ?thesis using Some by simp
qed

lemma cta_wf_next:
  assumes wf: "cta_wf q n"
  shows "cta_queue_find q (q_next_id q) = None" "i < n \<Longrightarrow> \<not> q_next_id q \<le> ce_id (q_slots q ! i)"
proof -
  have u: "unat (q_next_id q) = n + 1" unfolding cta_wfD(3) [OF wf] using cta_wfD(2) [OF wf] by (intro unat_small_id) simp
  show "i < n \<Longrightarrow> \<not> q_next_id q \<le> ce_id (q_slots q ! i)" using u cta_wf_id [OF wf, of i] by (simp add: word_le_nat_alt)
  have "\<not> (ce_in_use (q_slots q ! i) \<and> ce_id (q_slots q ! i) = q_next_id q)" if "i < 256" for i
    using cta_wf_used [OF wf that] cta_wf_id [OF wf, of i] u by auto
  then show "cta_queue_find q (q_next_id q) = None"
    unfolding cta_queue_find_def cta_find_None by (auto simp: in_set_conv_nth cta_wfD(1) [OF wf])
qed

lemma journal_append_full:
  assumes "\<And>rec. wr rec = length rec" "q_journal q" "cta_journalable e"
  shows "journal_append wr q e file = file @ cta_line e"
  using assms by (simp add: journal_append_def journal_record_exact cta_journalable_def)

lemma cta_forget_queue_simps [simp]:
  "q_slots (cta_forget_queue q) = map cta_forget (q_slots q)" "q_next_id (cta_forget_queue q) = q_next_id q"
  by (simp_all add: cta_forget_queue_def)

text \<open>One action keeps the table well formed, and its record, if any, does to the journaled table what it did.\<close>

lemma cta_do_replays:
  assumes wf: "cta_wf (fst w) n" and can: "cta_can a (fst w)" and full: "\<And>rec. wr rec = length rec"
    and named: "\<And>r owner. a = Submit r owner \<Longrightarrow> cta_named r owner"
  shows "(\<exists>n'. cta_wf (fst (cta_do wr a w)) n')
    \<and> (cta_do wr a w = w \<or> (\<exists>e. snd (cta_do wr a w) = snd w @ cta_line e \<and> cta_journalable e
         \<and> replay_line (cta_forget_queue (fst w)) (cta_line e) = Some (cta_forget_queue (fst (cta_do wr a w)))))"
  using can
proof (rule cta_do_cases [where wr = wr])
  assume "fst (cta_do wr a w) = fst w" "snd (cta_do wr a w) = snd w"
  then show ?thesis using wf by (auto simp: prod_eq_iff)
next
  fix i e
  let ?q = "fst w" and ?q' = "fst (cta_do wr a w)"
  assume u: "i < length (cta_slots w)" "\<not> ce_in_use (cta_slots w ! i)" "\<forall>j < i. ce_in_use (cta_slots w ! j)"
    and ex: "\<exists>r owner. a = Submit r owner \<and>
        e = \<lparr>ce_req = r, ce_state = CTA_ST_SUBMITTED, ce_owner = (case owner of None \<Rightarrow> [] | Some name \<Rightarrow> take 63 name),
             ce_id = q_next_id ?q, ce_in_use = True\<rparr>"
    and q': "?q' = ?q\<lparr>q_slots := (cta_slots w)[i := e], q_next_id := q_next_id ?q + 1\<rparr>"
    and jf: "snd (cta_do wr a w) = journal_append wr ?q' e (snd w)"
  obtain r owner where a: "a = Submit r owner"
    and e: "e = \<lparr>ce_req = r, ce_state = CTA_ST_SUBMITTED, ce_owner = (case owner of None \<Rightarrow> [] | Some name \<Rightarrow> take 63 name),
             ce_id = q_next_id ?q, ce_in_use = True\<rparr>" using ex by blast
  have j: "cta_journalable e"
    using named [OF a] by (auto simp: e cta_named_def cta_journalable_def c_string_def not_blank_def dest: in_set_takeD)
  have i: "i = n"
  proof (rule ccontr)
    assume "i \<noteq> n"
    then consider "i < n" | "n < i" by linarith
    then show False using u cta_wf_used [OF wf, of i] cta_wf_used [OF wf, of n] cta_wfD(1,2) [OF wf] by cases auto
  qed
  have free: "cta_free_slot (cta_slots w) 0 = Some i"
  proof (cases "cta_free_slot (cta_slots w) 0")
    case None
    then show ?thesis using u(1,2) unfolding cta_free_slot_None by (metis nth_mem)
  next
    case (Some k)
    have "k < length (cta_slots w) \<and> \<not> ce_in_use (cta_slots w ! k) \<and> (\<forall>j < k. ce_in_use (cta_slots w ! j))"
      using cta_free_slot_Some [OF Some] by simp
    then have "k = i" using u(2,3) by (metis linorder_neqE_nat)
    then show ?thesis using Some by simp
  qed
  have wf': "cta_wf ?q' (n + 1)"
    using wf u(1) j unfolding q' by (auto simp: cta_wf_def i e nth_list_update less_Suc_eq)
  have "replay_line (cta_forget_queue ?q) (cta_line e) = Some ((cta_forget_queue ?q)\<lparr>q_slots :=
      (q_slots (cta_forget_queue ?q))[i := cta_forget e], q_next_id := q_next_id ?q + 1\<rparr>)"
    using replay_line_exact [OF j, of i "cta_forget_queue ?q"] cta_wf_next(1) [OF wf] free u(1)
    by (simp add: e)
  also have "\<dots> = Some (cta_forget_queue ?q')" unfolding q' by (simp add: cta_forget_queue_def map_update)
  finally have rl: "replay_line (cta_forget_queue ?q) (cta_line e) = Some (cta_forget_queue ?q')" .
  have "q_journal ?q'" by (rule cta_wfD(4) [OF wf'])
  then have "snd (cta_do wr a w) = snd w @ cta_line e" using jf journal_append_full [OF full _ j] by simp
  then show ?thesis using wf' rl j by blast
next
  fix i to
  let ?q = "fst w" and ?q' = "fst (cta_do wr a w)" and ?e = "(cta_slots w ! i)\<lparr>ce_state := to\<rparr>"
  assume u: "i < length (cta_slots w)" "ce_in_use (cta_slots w ! i)"
    and q': "?q' = ?q\<lparr>q_slots := (cta_slots w)[i := ?e]\<rparr>"
    and jf: "snd (cta_do wr a w) = journal_append wr ?q' ?e (snd w)"
  have i: "i < n"
  proof (rule ccontr)
    assume "\<not> i < n"
    then show False using u cta_wf_used [OF wf, of i] cta_wfD(1) [OF wf] by simp
  qed
  have j: "cta_journalable ?e" using cta_wfD(7) [OF wf i] by (simp add: cta_journalable_def)
  have wf': "cta_wf ?q' n" using wf j u(1) i unfolding q' by (auto simp: cta_wf_def nth_list_update)
  have f: "cta_queue_find (cta_forget_queue ?q) (ce_id ?e) = Some i" using cta_wf_find [OF wf i] by simp
  have s: "q_slots (cta_forget_queue ?q) ! i = cta_forget (cta_slots w ! i)" "i < length (q_slots (cta_forget_queue ?q))"
    using u(1) by simp_all
  have "replay_line (cta_forget_queue ?q) (cta_line ?e) = Some ((cta_forget_queue ?q)\<lparr>q_slots :=
      (q_slots (cta_forget_queue ?q))[i := cta_forget ?e], q_next_id := q_next_id (cta_forget_queue ?q)\<rparr>)"
    using replay_line_exact [OF j _ s(2)] u(2) f s(1) cta_wf_next(2) [OF wf i] by auto
  also have "\<dots> = Some (cta_forget_queue ?q')" unfolding q' by (simp add: cta_forget_queue_def map_update)
  finally have rl: "replay_line (cta_forget_queue ?q) (cta_line ?e) = Some (cta_forget_queue ?q')" .
  have "q_journal ?q'" by (rule cta_wfD(4) [OF wf'])
  then have "snd (cta_do wr a w) = snd w @ cta_line ?e" using jf journal_append_full [OF full _ j] by simp
  then show ?thesis using wf' rl j by blast
qed


text \<open>The world at the first start: no journal file yet, the append descriptor opened.\<close>

definition cta_first_start :: cta_world where
  "cta_first_start = (snd (cta_queue_open_journal None False True cta_queue_init), [])"

lemma cta_reach_replays:
  assumes "cta_reach wr A cta_first_start w" "\<And>rec. wr rec = length rec"
    and "\<And>r owner. Submit r owner \<in> A \<Longrightarrow> cta_named r owner"
  shows "(\<exists>n. cta_wf (fst w) n) \<and> (\<forall>s. cta_replay cta_queue_init (snd w @ s) = cta_replay (cta_forget_queue (fst w)) s)"
  using assms(1)
proof (induction rule: cta_reach.induct)
  case start
  have q: "fst cta_first_start = cta_queue_init\<lparr>q_journal := True\<rparr>"
    by (simp add: cta_first_start_def cta_queue_open_journal_def)
  have "cta_wf (fst cta_first_start) 0"
    unfolding q cta_wf_def by (simp add: cta_queue_init_def CTA_QUEUE_MAX_def)
  moreover have "cta_forget_queue (fst cta_first_start) = cta_queue_init"
    unfolding q by (simp add: cta_forget_queue_def cta_queue_init_def)
  ultimately show ?case by (auto simp: cta_first_start_def)
next
  case (step w a)
  obtain n where wf: "cta_wf (fst w) n" using step.IH by blast
  have nm: "a = Submit r owner \<Longrightarrow> cta_named r owner" for r owner using assms(3) step.hyps(2) by blast
  note d = cta_do_replays [where wr = wr and a = a and w = w, OF wf step.hyps(3) assms(2) nm]
  have wf': "\<exists>n. cta_wf (fst (cta_do wr a w)) n" using d by blast
  consider "cta_do wr a w = w" | e where "snd (cta_do wr a w) = snd w @ cta_line e" "cta_journalable e"
      "replay_line (cta_forget_queue (fst w)) (cta_line e) = Some (cta_forget_queue (fst (cta_do wr a w)))"
    using d by blast
  then show ?case
  proof cases
    case 1
    then show ?thesis using step.IH by simp
  next
    case 2
    have "cta_replay cta_queue_init (snd (cta_do wr a w) @ s) = cta_replay (cta_forget_queue (fst (cta_do wr a w))) s" for s
      using step.IH cta_replay_line [OF 2(2,2,3)] by (simp add: 2(1))
    then show ?thesis using wf' by blast
  qed
qed

text \<open>
  C4. Recovery.  After any history from the first start whose journal writes are complete and whose owners and
  paths a record can carry, a restart that replays the journal file has the table of the process that stopped:
  the same slots, ids, states, owners, operations and paths, and the same next id.
\<close>
theorem cta_journal_recovers:
  assumes "cta_reach wr A cta_first_start (q, journal)" "\<forall>rec. wr rec = length rec"
    and "\<forall>r owner. Submit r owner \<in> A \<longrightarrow> cta_named r owner"
  shows "cta_queue_open_journal (Some journal) False True cta_queue_init = (True, q\<lparr>q_slots := map cta_forget (q_slots q)\<rparr>)"
proof -
  have full: "wr rec = length rec" for rec using assms(2) by blast
  have nm: "Submit r owner \<in> A \<Longrightarrow> cta_named r owner" for r owner using assms(3) by blast
  note rr = cta_reach_replays [OF assms(1) full nm, unfolded fst_conv snd_conv]
  obtain n where wf: "cta_wf q n" using rr by blast
  have r: "cta_replay cta_queue_init (journal @ []) = cta_replay (cta_forget_queue q) []" using rr by blast
  have "cta_replay cta_queue_init journal = cta_forget_queue q"
    using r cta_replay.simps [of "cta_forget_queue q" "[]"] by simp
  then show ?thesis using cta_wfD(4) [OF wf] by (simp add: cta_queue_open_journal_def cta_forget_queue_def)
qed

lemma journal_unescape_plain: "BACKSLASH \<notin> set s \<Longrightarrow> pos < cap \<Longrightarrow> journal_unescape cap pos s = take (cap - 1 - pos) s"
proof (induction s arbitrary: pos)
  case (Cons c s)
  show ?case
  proof (cases "pos + 1 < cap")
    case True
    then have "cap - 1 - pos = Suc (cap - 1 - (pos + 1))" by simp
    then show ?thesis using Cons True by simp
  qed (use Cons.prems in simp)
qed simp

lemma journal_esc_plain: "set s \<inter> {9, 10, 13, 92} = {} \<Longrightarrow> journal_esc s = s"
  by (induction s) (auto simp: journal_esc_char_def)

lemma cta_replay_Nil [simp]: "cta_replay q [] = q"
  by (simp add: cta_replay.simps)

text \<open>The record of an entry without an owner: the format reads the path as the owner.\<close>

lemma journal_scan_anonymous:
  assumes o: "ce_owner e = []" and p: "rq_path (ce_req e) = p" "p \<noteq> []" "length p < 127" "set p \<inter> {0, 9, 10, 13, 92} = {}" "not_blank p"
  shows "journal_scan (cta_line e) = Some (ce_id e, int (cta_op_num (rq_op (ce_req e))), int (cta_state_num (ce_state e)),
     p @ [NEWLINE], [])"
proof -
  have esc: "journal_esc p = p" using p(4) by (intro journal_esc_plain) auto
  have "scan_ws (TAB # p @ [NEWLINE]) = p @ [NEWLINE]" using journal_esc_scan_ws [OF p(2,5)] esc by simp
  then have ws: "scan_ws (TAB # TAB # p @ [NEWLINE]) = p @ [NEWLINE]" by (simp add: scan_ws_def)
  have "TAB \<notin> set (p @ [NEWLINE])" using p(4) by auto
  then have "takeWhile (\<lambda>c. c \<noteq> TAB) (p @ [NEWLINE]) = p @ [NEWLINE]" by (rule takeWhile_stop(2))
  then have set: "scan_set 127 TAB (p @ [NEWLINE]) = Some (p @ [NEWLINE], [])" using p(3) by (simp add: scan_set_def)
  have n: "cta_op_num (rq_op (ce_req e)) \<le> 5" "cta_state_num (ce_state e) \<le> 5"
    by (cases "rq_op (ce_req e)"; simp) (cases "ce_state e"; simp)
  have "scan_set 2047 NEWLINE (scan_ws []) = None" by (simp add: scan_set_def scan_ws_def)
  then show ?thesis
    unfolding cta_line_def journal_scan_def o p(1)
    by (simp add: scan_number_decimal esc ws set to_int_small [OF n(1)] to_int_small [OF n(2)])
qed

lemma replay_line_fresh:
  assumes "journal_scan line = Some (rid, int (cta_op_num x), int (cta_state_num st), owner, path)"
    and "cta_queue_find q rid = None" "cta_free_slot (q_slots q) 0 = Some i" "i < length (q_slots q)"
  shows "replay_line q line = Some (q\<lparr>q_slots := (q_slots q)[i :=
       \<lparr>ce_req = (ce_req cta_slot_zero)\<lparr>rq_op := x, rq_path := journal_unescape 1024 0 path\<rparr>, ce_state = st,
        ce_owner = journal_unescape 64 0 owner, ce_id = rid, ce_in_use = True\<rparr>],
     q_next_id := (if q_next_id q \<le> rid then rid + 1 else q_next_id q)\<rparr>)"
  using assms(4) by (simp add: replay_line_def assms(1-3) journal_enum_ok replay_slot_exact Let_def cta_slot_zero_def)

text \<open>
  An anonymous owner is forged.  A submitter without a user name owns nothing: only an administrator
  may cancel the entry.  After a restart the entry is owned by the first 63 bytes of its path, which the submitter
  chose, and whoever has that name may cancel it: the blank between the empty owner and the path is skipped by the
  format of the replay.
\<close>
theorem cta_anonymous_owner_forged:
  assumes "\<forall>rec. wr rec = length rec" "rq_path r = p" "63 \<le> length p" "length p < 127"
    and "set p \<inter> {0, 9, 10, 13, 92} = {}" "not_blank p"
  defines "w \<equiv> snd (cta_queue_submit wr r None cta_first_start)"
  defines "q \<equiv> snd (cta_queue_open_journal (Some (snd w)) False True cta_queue_init)"
  shows "fst (cta_queue_cancel wr 1 (Some (take 63 p)) False w) = CTA_QUEUE_EACCES
     \<and> fst (cta_queue_cancel wr 1 (Some (take 63 p)) False (q, snd w)) = 0"
proof -
  let ?z = "replicate 255 cta_slot_zero"
  define e where "e = \<lparr>ce_req = r, ce_state = CTA_ST_SUBMITTED, ce_owner = [], ce_id = 1, ce_in_use = True\<rparr>"
  have z: "q_slots cta_queue_init = cta_slot_zero # ?z"
    unfolding cta_queue_init_def CTA_QUEUE_MAX_def using replicate_Suc [of 255 cta_slot_zero] by simp
  have pne: "p \<noteq> []" "take 63 p \<noteq> []" using assms(3) by auto
  have c: "c_string 64 (ce_owner e)" "c_string 1024 (rq_path (ce_req e))"
    using assms(2,4,5) by (auto simp: e_def c_string_def)
  have start: "cta_first_start = (cta_queue_init\<lparr>q_journal := True\<rparr>, [])"
    by (simp add: cta_first_start_def cta_queue_open_journal_def)
  have w: "w = (cta_queue_init\<lparr>q_journal := True, q_slots := e # ?z, q_next_id := 2\<rparr>, cta_line e)"
    using assms(1) by (simp add: w_def start cta_queue_submit_def z Let_def cta_slot_zero_def journal_append_def
        e_def [symmetric] journal_record_exact [OF c]) (simp add: e_def cta_queue_init_def journal_record_exact [OF c, unfolded e_def])
  have find: "cta_queue_find q0 1 = Some 0" if "q_slots q0 = e0 # ?z" "ce_in_use e0" "ce_id e0 = 1" for q0 e0
    using that by (simp add: cta_queue_find_def)
  have refuse: "fst (cta_queue_cancel wr 1 (Some (take 63 p)) False w) = CTA_QUEUE_EACCES"
    using find [of "fst w" e] pne(2) by (simp add: cta_queue_cancel_def w e_def)
  define e' where "e' = e\<lparr>ce_req := (ce_req cta_slot_zero)\<lparr>rq_op := rq_op r\<rparr>, ce_owner := take 63 p\<rparr>"
  have un: "journal_unescape 64 0 (p @ [NEWLINE]) = take 63 p"
    using journal_unescape_plain [of "p @ [NEWLINE]" 0 64] assms(3,5) by auto
  have "cta_queue_find cta_queue_init 1 = None"
    unfolding cta_queue_find_def cta_find_None by (simp add: z cta_slot_zero_def)
  moreover have "cta_free_slot (q_slots cta_queue_init) 0 = Some 0" by (simp add: z cta_slot_zero_def)
  ultimately have rl: "replay_line cta_queue_init (cta_line e) = Some (cta_queue_init\<lparr>q_slots := e' # ?z, q_next_id := 2\<rparr>)"
    using replay_line_fresh [OF journal_scan_anonymous [of e p], of cta_queue_init 0] assms(2,4,5,6) pne(1) un
    by (simp add: e_def z) (simp add: e'_def e_def cta_slot_zero_def cta_request_zero_def cta_queue_init_def)
  have q: "q = cta_queue_init\<lparr>q_slots := e' # ?z, q_next_id := 2, q_journal := True\<rparr>"
    using cta_replay_record [OF c rl, of "[]"] by (simp add: q_def w cta_queue_open_journal_def)
  have "fst (cta_queue_cancel wr 1 (Some (take 63 p)) False (q, snd w)) = 0"
    using find [of q e'] by (simp add: cta_queue_cancel_def cta_queue_transition_def q e'_def e_def Let_def)
  then show ?thesis using refuse by blast
qed


section \<open>Witnesses\<close>

definition cta_example_world :: cta_world where
  "cta_example_world = cta_do length (Submit cta_example_request (Some [117])) cta_first_start"

lemma cta_example_slots:
  "cta_slots cta_example_world = \<lparr>ce_req = cta_example_request, ce_state = CTA_ST_SUBMITTED, ce_owner = [117], ce_id = 1,
     ce_in_use = True\<rparr> # replicate 255 cta_slot_zero"
proof -
  have "q_slots cta_queue_init = cta_slot_zero # replicate 255 cta_slot_zero"
    unfolding cta_queue_init_def CTA_QUEUE_MAX_def using replicate_Suc [of 255 cta_slot_zero] by simp
  then show ?thesis
    by (simp add: cta_example_world_def cta_first_start_def cta_queue_open_journal_def cta_queue_submit_def Let_def
        cta_slot_zero_def cta_queue_init_def)
qed

lemma cta_example_cancel:
  "cta_reach length UNIV cta_example_world (cta_do length (Cancel 1 (Some [117]) False) cta_example_world)"
  "ce_state (cta_slots (cta_do length (Cancel 1 (Some [117]) False) cta_example_world) ! 0) = CTA_ST_CANCELED"
  "cta_reach length {Cancel 1 (Some [117]) False} cta_example_world (cta_do length (Cancel 1 (Some [117]) False) cta_example_world)"
proof -
  show "cta_reach length UNIV cta_example_world (cta_do length (Cancel 1 (Some [117]) False) cta_example_world)"
    by (rule cta_reach.step [OF cta_reach.start]) simp_all
  show "cta_reach length {Cancel 1 (Some [117]) False} cta_example_world (cta_do length (Cancel 1 (Some [117]) False) cta_example_world)"
    by (rule cta_reach.step [OF cta_reach.start]) simp_all
  have "cta_queue_find (fst cta_example_world) 1 = Some 0" by (simp add: cta_queue_find_def cta_example_slots)
  then show "ce_state (cta_slots (cta_do length (Cancel 1 (Some [117]) False) cta_example_world) ! 0) = CTA_ST_CANCELED"
    by (simp add: cta_queue_cancel_def cta_queue_transition_def cta_example_slots split_beta Let_def)
qed

theorem cta_lifecycle_witness:
  "ce_owner (cta_slots (cta_do length (Cancel 1 (Some [117]) False) cta_example_world) ! 0) = [117]
   \<and> ce_id (cta_slots (cta_do length (Cancel 1 (Some [117]) False) cta_example_world) ! 0) = 1"
  using cta_lifecycle [OF cta_example_cancel(1), of 0] by (simp add: cta_example_slots)

theorem cta_cancel_authority_witness:
  "\<exists>r adm. Cancel (ce_id (cta_slots cta_example_world ! 0)) r adm \<in> {Cancel 1 (Some [117]) False}
     \<and> (adm \<or> r = Some (ce_owner (cta_slots cta_example_world ! 0)))"
  using cta_cancel_authority [OF cta_example_cancel(3), of 0] cta_example_cancel(2) by (simp add: cta_example_slots)

theorem cta_queue_exhausts_witness:
  "cta_queue_submit length cta_example_request None
     (cta_queue_init\<lparr>q_slots := replicate 256 (cta_slot_zero\<lparr>ce_in_use := True, ce_state := CTA_ST_COMPLETE\<rparr>)\<rparr>, [])
   = (None, cta_queue_init\<lparr>q_slots := replicate 256 (cta_slot_zero\<lparr>ce_in_use := True, ce_state := CTA_ST_COMPLETE\<rparr>)\<rparr>, [])"
  by (rule cta_queue_exhausts [OF cta_reach.start]) simp

theorem cta_journal_recovers_witness:
  "cta_queue_open_journal (Some (snd cta_example_world)) False True cta_queue_init
     = (True, (fst cta_example_world)\<lparr>q_slots := map cta_forget (cta_slots cta_example_world)\<rparr>)"
proof -
  have "cta_reach length {Submit cta_example_request (Some [117])} cta_first_start cta_example_world"
    unfolding cta_example_world_def by (rule cta_reach.step [OF cta_reach.start]) simp_all
  then have r: "cta_reach length {Submit cta_example_request (Some [117])} cta_first_start
      (fst cta_example_world, snd cta_example_world)" by simp
  show ?thesis
    by (rule cta_journal_recovers [OF r]) (simp_all add: cta_named_def cta_example_request_def c_string_def not_blank_def)
qed

theorem cta_anonymous_owner_forged_witness:
  "let p = replicate 63 97; w = snd (cta_queue_submit length (cta_example_request\<lparr>rq_path := p\<rparr>) None cta_first_start)
   in fst (cta_queue_cancel length 1 (Some (take 63 p)) False w) = CTA_QUEUE_EACCES
    \<and> fst (cta_queue_cancel length 1 (Some (take 63 p)) False
        (snd (cta_queue_open_journal (Some (snd w)) False True cta_queue_init), snd w)) = 0"
  unfolding Let_def
  by (rule cta_anonymous_owner_forged [of length "cta_example_request\<lparr>rq_path := replicate 63 97\<rparr>" "replicate 63 97"])
    (simp_all add: not_blank_def)

end
