(* ===== verification/Cta_Service.thy ===== *)
theory Cta_Service
  imports Cta_Queue
begin

text \<open>
  The tape service over its queue: the executors of \<^verbatim>\<open>protocols/ssi/svc_cta/cta_exec.c\<close>, the locked wrappers of
  \<^verbatim>\<open>cta_shm.c\<close> and the request handler of \<^verbatim>\<open>cta_service.c\<close>.  The shared zone is \<open>None\<close> when it is not mapped.  The
  responder is the list of what it is asked to send; its \<open>svc_slot\<close> cookie is a slot index.
\<close>

section \<open>The zone\<close>

type_synonym cta_zone = "cta_world option"

definition brix_cta_shm_submit ::
    "(bytes \<Rightarrow> nat) \<Rightarrow> cta_request_t \<Rightarrow> bytes option \<Rightarrow> cta_zone \<Rightarrow> nat option \<times> cta_zone" where
  "brix_cta_shm_submit wr r owner z = (case z of None \<Rightarrow> (None, None)
     | Some w \<Rightarrow> let (e, w) = cta_queue_submit wr r owner w in (e, Some w))"

definition brix_cta_shm_transition :: "(bytes \<Rightarrow> nat) \<Rightarrow> nat \<Rightarrow> cta_state_t \<Rightarrow> cta_zone \<Rightarrow> int \<times> cta_zone" where
  "brix_cta_shm_transition wr i to z = (case z of None \<Rightarrow> (-1, None)
     | Some w \<Rightarrow> let (rc, w) = cta_queue_transition wr i to w in (rc, Some w))"

definition brix_cta_shm_cancel :: "(bytes \<Rightarrow> nat) \<Rightarrow> u64 \<Rightarrow> bytes option \<Rightarrow> bool \<Rightarrow> cta_zone \<Rightarrow> int \<times> cta_zone" where
  "brix_cta_shm_cancel wr rid requester adm z = (case z of None \<Rightarrow> (CTA_QUEUE_ENOENT, None)
     | Some w \<Rightarrow> let (rc, w) = cta_queue_cancel wr rid requester adm w in (rc, Some w))"

definition brix_cta_shm_active_count :: "cta_zone \<Rightarrow> nat" where
  "brix_cta_shm_active_count z = (case z of None \<Rightarrow> 0 | Some (q, _) \<Rightarrow> cta_queue_active_count q)"

section \<open>Executors\<close>

text \<open>A run yields its code, the progress alerts in order and the zone.\<close>

type_synonym cta_exec = "nat \<Rightarrow> cta_zone \<Rightarrow> int \<times> bytes list \<times> cta_zone"

definition sim_lifecycle :: "(bytes \<Rightarrow> nat) \<Rightarrow> bytes \<Rightarrow> bytes \<Rightarrow> cta_exec" where
  "sim_lifecycle wr queued_msg active_msg i z =
     (let (rc, z) = brix_cta_shm_transition wr i CTA_ST_QUEUED z
      in if rc \<noteq> 0 then (-1, [], z)
         else let (rc, z) = brix_cta_shm_transition wr i CTA_ST_ACTIVE z
              in if rc \<noteq> 0 then (-1, [queued_msg], z)
                 else let (rc, z) = brix_cta_shm_transition wr i CTA_ST_COMPLETE z
                      in if rc \<noteq> 0 then (-1, [queued_msg, active_msg], z) else (0, [queued_msg, active_msg], z))"

definition test_archive :: "(bytes \<Rightarrow> nat) \<Rightarrow> cta_exec" where
  "test_archive wr = sim_lifecycle wr (chars ''queued for archival'') (chars ''writing to tape'')"

definition test_retrieve :: "(bytes \<Rightarrow> nat) \<Rightarrow> cta_exec" where
  "test_retrieve wr = sim_lifecycle wr (chars ''queued for retrieval'') (chars ''recalling from tape'')"

definition test_cancel :: "(bytes \<Rightarrow> nat) \<Rightarrow> cta_exec" where
  "test_cancel wr i z = (let (rc, z) = brix_cta_shm_transition wr i CTA_ST_CANCELED z in (rc, [], z))"

definition prod_archive :: cta_exec where
  "prod_archive i z = (-1, [chars ''no nearline backend configured''], z)"

definition prod_retrieve :: cta_exec where
  "prod_retrieve i z = (-1, [chars ''no nearline backend configured''], z)"

record cta_exec_vtbl_t =
  vt_archive :: cta_exec
  vt_retrieve :: cta_exec
  vt_cancel :: cta_exec

definition cta_exec_test_vtbl :: "(bytes \<Rightarrow> nat) \<Rightarrow> cta_exec_vtbl_t" where
  "cta_exec_test_vtbl wr = \<lparr>vt_archive = test_archive wr, vt_retrieve = test_retrieve wr, vt_cancel = test_cancel wr\<rparr>"

definition cta_exec_prod_vtbl :: "(bytes \<Rightarrow> nat) \<Rightarrow> cta_exec_vtbl_t" where
  "cta_exec_prod_vtbl wr = \<lparr>vt_archive = prod_archive, vt_retrieve = prod_retrieve, vt_cancel = test_cancel wr\<rparr>"

definition cta_exec_run :: "cta_exec_vtbl_t \<Rightarrow> cta_op_t \<Rightarrow> cta_exec" where
  "cta_exec_run vt op i z = (case op of
     CTA_OP_ARCHIVE \<Rightarrow> vt_archive vt i z
   | CTA_OP_RETRIEVE \<Rightarrow> vt_retrieve vt i z
   | CTA_OP_CANCEL \<Rightarrow> vt_cancel vt i z
   | _ \<Rightarrow> (-1, [], z))"

section \<open>The handler\<close>

datatype cta_out = OutAlert bytes | OutResponse bytes | OutError nat bytes

definition cta_respond :: "cta_rsp_type_t \<Rightarrow> bytes \<Rightarrow> u64 \<Rightarrow> cta_out" where
  "cta_respond type msg archive_id = (case cta_pb_encode_response type (Some msg) archive_id 512 of
     None \<Rightarrow> OutError 5 (chars ''cta response encode failed'')
   | Some b \<Rightarrow> OutResponse b)"

definition cta_exec_vtbl :: "(bytes \<Rightarrow> nat) \<Rightarrow> bool \<Rightarrow> cta_exec_vtbl_t" where
  "cta_exec_vtbl wr use_prod = (if use_prod then cta_exec_prod_vtbl wr else cta_exec_test_vtbl wr)"

definition zone_entry :: "cta_zone \<Rightarrow> nat \<Rightarrow> cta_req_t" where
  "zone_entry z i = (case z of None \<Rightarrow> cta_slot_zero | Some w \<Rightarrow> cta_slots w ! i)"

definition cta_completion :: "(bytes \<Rightarrow> nat) \<Rightarrow> bool \<Rightarrow> nat \<Rightarrow> cta_zone \<Rightarrow> cta_out list \<times> cta_zone" where
  "cta_completion wr use_prod i z =
     (let e = zone_entry z i;
          (rc, alerts, z) = cta_exec_run (cta_exec_vtbl wr use_prod) (rq_op (ce_req e)) i z
      in (map OutAlert alerts @ [cta_respond (if rc = 0 then CTA_RSP_SUCCESS else CTA_RSP_ERR_CTA)
            (chars (if rc = 0 then ''request completed'' else ''request failed'')) (rq_archive_id (ce_req e))], z))"

text \<open>
  \<open>slot\<close> is \<open>None\<close> for a responder without a cookie, else its content; \<open>defer\<close> is \<open>Some True\<close> for a
  responder that defers.  The result is what was sent, the cookie and the zone.
\<close>

definition brix_ssi_cta_process ::
    "(bytes \<Rightarrow> nat) \<Rightarrow> bool \<Rightarrow> nat option option \<Rightarrow> bool option \<Rightarrow> bytes \<Rightarrow> cta_zone
     \<Rightarrow> cta_out list \<times> nat option option \<times> cta_zone" where
  "brix_ssi_cta_process wr use_prod slot defer req z = (case slot of
     Some (Some i) \<Rightarrow> (let (outs, z) = cta_completion wr use_prod i z in (outs, slot, z))
   | _ \<Rightarrow> (case cta_pb_decode_request req of
       None \<Rightarrow> ([cta_respond CTA_RSP_ERR_PROTOBUF (chars ''malformed CTA request'') 0], slot, z)
     | Some creq \<Rightarrow>
         if rq_op creq = CTA_OP_QUERY
         then ([cta_respond CTA_RSP_SUCCESS (take 63 (cta_decimal (brix_cta_shm_active_count z) @ chars '' active request(s)'')) 0], slot, z)
         else if rq_op creq = CTA_OP_UNKNOWN then ([cta_respond CTA_RSP_ERR_USER (chars ''unsupported workflow event'') 0], slot, z)
         else if z = None then ([cta_respond CTA_RSP_ERR_CTA (chars ''CTA queue unavailable'') 0], slot, z)
         else (case brix_cta_shm_submit wr creq (Some (rq_owner_user creq)) z of
             (None, z) \<Rightarrow> ([cta_respond CTA_RSP_ERR_CTA (chars ''request queue full'') 0], slot, z)
           | (Some i, z) \<Rightarrow>
               let slot = (case slot of None \<Rightarrow> None | Some _ \<Rightarrow> Some (Some i))
               in if defer = Some True then ([], slot, z)
                  else let (outs, z) = cta_completion wr use_prod i z in (outs, slot, z))))"

section \<open>Every request is answered once\<close>

lemma length_cta_decimal_u64: "length (rev (rev_digits (unat (x :: u64)))) \<le> 20"
proof -
  have "unat x < 2 ^ LENGTH(64)" by (rule unsigned_less)
  then show ?thesis using length_rev_digits [of "unat x" 20] by simp
qed

lemma cta_respond_fits: "length msg \<le> 100 \<Longrightarrow> \<exists>b. cta_respond type msg archive_id = OutResponse b \<and> length b \<le> 512"
  using length_pb_vfield [of 1 "cta_rsp_num type"] length_pb_delim [of 3 msg] length_cta_decimal_u64 [of archive_id]
    length_pb_delim [of 5 "rev (rev_digits (unat archive_id))"]
  by (auto simp: cta_respond_def cta_pb_encode_response_exact Let_def)

definition is_answer :: "cta_out \<Rightarrow> bool" where
  "is_answer out \<longleftrightarrow> (\<exists>b. out = OutResponse b \<and> length b \<le> 512)"

definition is_alert :: "cta_out \<Rightarrow> bool" where
  "is_alert out \<longleftrightarrow> (\<exists>m. out = OutAlert m)"

lemma cta_respond_answers [simp]: "length msg \<le> 100 \<Longrightarrow> is_answer (cta_respond type msg archive_id)"
  using cta_respond_fits by (auto simp: is_answer_def)

lemma cta_completion_answers:
  "\<exists>alerts answer. fst (cta_completion wr use_prod i z) = map OutAlert alerts @ [answer] \<and> is_answer answer"
  by (auto simp: cta_completion_def Let_def split_beta)

lemma brix_cta_shm_submit_used:
  assumes "fst (brix_cta_shm_submit wr r owner z) = Some i"
  shows "ce_in_use (zone_entry (snd (brix_cta_shm_submit wr r owner z)) i)"
    and "j \<noteq> i \<Longrightarrow> zone_entry (snd (brix_cta_shm_submit wr r owner z)) j = zone_entry z j"
    and "\<not> ce_in_use (zone_entry z i)"
    and "ce_req (zone_entry (snd (brix_cta_shm_submit wr r owner z)) i) = r"
proof -
  obtain q f where z: "z = Some (q, f)" using assms by (cases z) (auto simp: brix_cta_shm_submit_def)
  have free: "cta_free_slot (q_slots q) 0 = Some i"
    using assms by (auto simp: z brix_cta_shm_submit_def cta_queue_submit_def Let_def split: option.splits)
  have i: "i < length (q_slots q)" "\<not> ce_in_use (q_slots q ! i)" using cta_free_slot_Some [OF free] by auto
  show "ce_in_use (zone_entry (snd (brix_cta_shm_submit wr r owner z)) i)"
    "j \<noteq> i \<Longrightarrow> zone_entry (snd (brix_cta_shm_submit wr r owner z)) j = zone_entry z j" "\<not> ce_in_use (zone_entry z i)"
    "ce_req (zone_entry (snd (brix_cta_shm_submit wr r owner z)) i) = r"
    using i by (simp_all add: z zone_entry_def brix_cta_shm_submit_def cta_queue_submit_def free Let_def)
qed

text \<open>
  One answer.  Whatever bytes arrive and whatever the state of the queue, the handler sends alerts followed by
  exactly one response of at most 512 bytes, or defers, in which case it sends nothing and keeps the new entry in
  the cookie; the second call for that cookie then answers.  No response overflows its buffer.
\<close>
theorem cta_service_one_answer:
  "case brix_ssi_cta_process wr use_prod slot defer req z of (outs, slot', z') \<Rightarrow>
     (\<exists>alerts answer. outs = map OutAlert alerts @ [answer] \<and> is_answer answer)
   \<or> (outs = [] \<and> defer = Some True \<and> (\<exists>i. slot' = map_option (\<lambda>_. Some i) slot \<and> ce_in_use (zone_entry z' i)))"
proof -
  have ans: "\<exists>alerts answer. [cta_respond t m x] = map OutAlert alerts @ [answer] \<and> is_answer answer" if "length m \<le> 100" for t m x
    using that by (intro exI [of _ "[]"] exI [of _ "cta_respond t m x"]) simp
  have comp: "\<exists>alerts answer. fst (cta_completion wr use_prod i z) = map OutAlert alerts @ [answer] \<and> is_answer answer" for i z
    by (rule cta_completion_answers)
  show ?thesis
    using ans comp
    by (auto simp: brix_ssi_cta_process_def Let_def split_beta split: option.splits prod.splits dest: brix_cta_shm_submit_used(1))
qed

section \<open>Requests do not touch each other\<close>

lemma brix_cta_shm_transition_other:
  "j \<noteq> i \<Longrightarrow> zone_entry (snd (brix_cta_shm_transition wr i to z)) j = zone_entry z j"
  by (auto simp: brix_cta_shm_transition_def cta_queue_transition_def zone_entry_def Let_def split_beta split: option.split)

lemma cta_exec_run_other:
  assumes "j \<noteq> i"
  shows "zone_entry (snd (snd (cta_exec_run (cta_exec_vtbl wr use_prod) op i z))) j = zone_entry z j"
proof -
  have sim: "zone_entry (snd (snd (sim_lifecycle wr a b i z))) j = zone_entry z j" for a b
    using assms by (simp add: sim_lifecycle_def Let_def split_beta brix_cta_shm_transition_other)
  have cancel: "zone_entry (snd (snd (test_cancel wr i z))) j = zone_entry z j"
    using assms by (simp add: test_cancel_def Let_def split_beta brix_cta_shm_transition_other)
  show ?thesis
    using sim cancel by (cases op) (simp_all add: cta_exec_run_def cta_exec_vtbl_def cta_exec_test_vtbl_def cta_exec_prod_vtbl_def
        test_archive_def test_retrieve_def prod_archive_def prod_retrieve_def)
qed

lemma cta_completion_other: "j \<noteq> i \<Longrightarrow> zone_entry (snd (cta_completion wr use_prod i z)) j = zone_entry z j"
  using cta_exec_run_other [of j i wr use_prod "rq_op (ce_req (zone_entry z i))" z]
  by (simp add: cta_completion_def Let_def split_beta)

text \<open>
  C27. Isolation.  A request changes no entry but the one it submits, or the one its cookie names: in
  particular a cancel request (\<open>ABORT_PREPARE\<close>) aborts no earlier request, whatever object or id it names; it
  submits an entry of its own and cancels that.
\<close>
theorem cta_requests_isolated:
  assumes "ce_in_use (zone_entry z j)" "slot \<noteq> Some (Some j)"
  shows "zone_entry (snd (snd (brix_ssi_cta_process wr use_prod slot defer req z))) j = zone_entry z j"
proof -
  let ?s = "\<lambda>r owner. brix_cta_shm_submit wr r owner z"
  have new: "zone_entry (snd (?s r owner)) j = zone_entry z j" for r owner
  proof (cases "fst (?s r owner)")
    case None
    then have "snd (?s r owner) = z"
      by (auto simp: brix_cta_shm_submit_def cta_queue_submit_def Let_def split_beta split: option.splits)
    then show ?thesis by simp
  next
    case (Some i)
    note u = brix_cta_shm_submit_used [OF Some]
    have "j \<noteq> i" using u(3) assms(1) by auto
    then show ?thesis by (rule u(2))
  qed
  have run: "zone_entry (snd (cta_completion wr use_prod i (snd (?s r owner)))) j = zone_entry z j"
    if "fst (?s r owner) = Some i" for r owner i
  proof -
    have "j \<noteq> i" using brix_cta_shm_submit_used(3) [OF that] assms(1) by auto
    then show ?thesis using new by (simp add: cta_completion_other)
  qed
  have cookie: "zone_entry (snd (cta_completion wr use_prod i z)) j = zone_entry z j" if "slot = Some (Some i)" for i
    using assms(2) that by (intro cta_completion_other) auto
  show ?thesis
    by (auto simp: brix_ssi_cta_process_def Let_def split_beta new run cookie split: option.split)
qed

section \<open>A completed run\<close>

text \<open>The simulated executor takes a submitted entry through its whole life cycle.\<close>

lemma brix_cta_shm_transition_exact:
  assumes "z = Some w" "i < length (cta_slots w)"
  shows "fst (brix_cta_shm_transition wr i to z) = (if transition_ok (ce_state (zone_entry z i)) to then 0 else -1)"
    and "transition_ok (ce_state (zone_entry z i)) to \<Longrightarrow>
      (\<exists>w'. snd (brix_cta_shm_transition wr i to z) = Some w' \<and> length (cta_slots w') = length (cta_slots w))
      \<and> zone_entry (snd (brix_cta_shm_transition wr i to z)) i = (zone_entry z i)\<lparr>ce_state := to\<rparr>"
  using assms by (auto simp: brix_cta_shm_transition_def cta_queue_transition_def zone_entry_def Let_def split_beta)

lemma sim_lifecycle_completes:
  assumes z: "z = Some w" "i < length (cta_slots w)" and st: "ce_state (zone_entry z i) = CTA_ST_SUBMITTED"
  shows "fst (sim_lifecycle wr a b i z) = 0 \<and> fst (snd (sim_lifecycle wr a b i z)) = [a, b]
     \<and> zone_entry (snd (snd (sim_lifecycle wr a b i z))) i = (zone_entry z i)\<lparr>ce_state := CTA_ST_COMPLETE\<rparr>"
proof -
  let ?t = "brix_cta_shm_transition wr i"
  define z1 where "z1 = snd (?t CTA_ST_QUEUED z)"
  define z2 where "z2 = snd (?t CTA_ST_ACTIVE z1)"
  define z3 where "z3 = snd (?t CTA_ST_COMPLETE z2)"
  note t0 = brix_cta_shm_transition_exact [OF z, where wr = wr]
  obtain w1 where w1: "z1 = Some w1" "length (cta_slots w1) = length (cta_slots w)"
      "zone_entry z1 i = (zone_entry z i)\<lparr>ce_state := CTA_ST_QUEUED\<rparr>"
    using t0(2) [of CTA_ST_QUEUED] st by (auto simp: z1_def)
  have i1: "i < length (cta_slots w1)" using z(2) w1(2) by simp
  note t1 = brix_cta_shm_transition_exact [OF w1(1) i1, where wr = wr]
  obtain w2 where w2: "z2 = Some w2" "length (cta_slots w2) = length (cta_slots w1)"
      "zone_entry z2 i = (zone_entry z1 i)\<lparr>ce_state := CTA_ST_ACTIVE\<rparr>"
    using t1(2) [of CTA_ST_ACTIVE] w1(3) by (auto simp: z2_def)
  have i2: "i < length (cta_slots w2)" using i1 w2(2) by simp
  note t2 = brix_cta_shm_transition_exact [OF w2(1) i2, where wr = wr]
  have "zone_entry z3 i = (zone_entry z2 i)\<lparr>ce_state := CTA_ST_COMPLETE\<rparr>"
    using t2(2) [of CTA_ST_COMPLETE] w2(3) by (auto simp: z3_def)
  moreover have "fst (?t CTA_ST_QUEUED z) = 0" "fst (?t CTA_ST_ACTIVE z1) = 0" "fst (?t CTA_ST_COMPLETE z2) = 0"
    using t0(1) [of CTA_ST_QUEUED] t1(1) [of CTA_ST_ACTIVE] t2(1) [of CTA_ST_COMPLETE] st w1(3) w2(3) by simp_all
  then have "?t CTA_ST_QUEUED z = (0, z1)" "?t CTA_ST_ACTIVE z1 = (0, z2)" "?t CTA_ST_COMPLETE z2 = (0, z3)"
    unfolding z1_def z2_def z3_def by (simp_all only: prod_eq_iff fst_conv snd_conv)
  ultimately show ?thesis using w1(3) w2(3) by (simp add: sim_lifecycle_def)
qed

section \<open>Witness\<close>

theorem cta_requests_isolated_witness:
  "zone_entry (snd (snd (brix_ssi_cta_process length False None None
     (cta_encode_request (cta_example_request\<lparr>rq_op := CTA_OP_CANCEL\<rparr>)) (Some cta_example_world)))) 0
   = zone_entry (Some cta_example_world) 0"
  by (rule cta_requests_isolated) (simp_all add: zone_entry_def cta_example_slots)

end
