(* ===== verification/Slot_Table.thy ===== *)
theory Slot_Table
  imports Brix_Prelude
begin

text \<open>
  Arrays of slots in shared memory: a slot is used or free and a used one has a key.  The locale gives the
  contract of such an array as a bounded map, once for every table that is one.
\<close>

locale slot_table =
  fixes used :: "'e \<Rightarrow> bool" and key :: "'e \<Rightarrow> 'k" and blank :: "'e"
  assumes blank_unused: "\<not> used blank"
begin

definition slot_map :: "'e list \<Rightarrow> 'k \<Rightarrow> 'e option" where
  "slot_map t k = find (\<lambda>e. used e \<and> key e = k) t"

definition keys_distinct :: "'e list \<Rightarrow> bool" where
  "keys_distinct t \<longleftrightarrow> (\<forall>i<length t. \<forall>j<length t. used (t ! i) \<longrightarrow> used (t ! j) \<longrightarrow> key (t ! i) = key (t ! j) \<longrightarrow> i = j)"

lemma keys_distinctD: "keys_distinct t \<Longrightarrow> i < length t \<Longrightarrow> j < length t \<Longrightarrow> used (t ! i) \<Longrightarrow> used (t ! j) \<Longrightarrow> key (t ! i) = key (t ! j) \<Longrightarrow> i = j"
  by (simp add: keys_distinct_def)

lemma slot_map_None: "slot_map t k = None \<longleftrightarrow> (\<forall>i<length t. used (t ! i) \<longrightarrow> key (t ! i) \<noteq> k)"
  unfolding slot_map_def find_None_iff by (metis in_set_conv_nth)

lemma slot_map_Some:
  assumes "keys_distinct t"
  shows "slot_map t k = Some e \<longleftrightarrow> (\<exists>i<length t. t ! i = e \<and> used e \<and> key e = k)"
proof
  assume "slot_map t k = Some e"
  then show "\<exists>i<length t. t ! i = e \<and> used e \<and> key e = k" by (auto simp: slot_map_def find_Some_iff)
next
  assume "\<exists>i<length t. t ! i = e \<and> used e \<and> key e = k"
  then obtain i where i: "i < length t" "t ! i = e" "used e" "key e = k" by blast
  then obtain e' where e': "slot_map t k = Some e'" using slot_map_None [of t k] by (cases "slot_map t k") auto
  then obtain j where "j < length t" "t ! j = e'" "used e'" "key e' = k" by (auto simp: slot_map_def find_Some_iff)
  then show "slot_map t k = Some e" using e' i keys_distinctD [OF assms, of i j] by auto
qed

lemma slot_map_eqI:
  assumes "keys_distinct t" "\<And>k e. m k = Some e \<longleftrightarrow> (\<exists>i<length t. t ! i = e \<and> used e \<and> key e = k)"
  shows "slot_map t = m"
proof
  fix k
  show "slot_map t k = m k"
  proof (cases "m k")
    case (Some e)
    then show ?thesis using iffD2 [OF slot_map_Some [OF assms(1)] iffD1 [OF assms(2)]] by simp
  next
    case None
    then have "slot_map t k \<noteq> Some e" for e using assms(2) [of k e] slot_map_Some [OF assms(1), of k e] by simp
    then have "slot_map t k = None" by (metis not_None_eq)
    then show ?thesis using None by simp
  qed
qed

lemma slot_map_at: "keys_distinct t \<Longrightarrow> i < length t \<Longrightarrow> used (t ! i) \<Longrightarrow> slot_map t (key (t ! i)) = Some (t ! i)"
  by (auto simp: slot_map_Some)

lemma other_key:
  assumes d: "keys_distinct t" and i: "i < length t" and o: "used (t ! i) \<longrightarrow> key (t ! i) = key e"
    and n: "\<not> used (t ! i) \<longrightarrow> slot_map t (key e) = None" and that: "j < length t" "j \<noteq> i" "used (t ! j)"
  shows "key (t ! j) \<noteq> key e"
proof (cases "used (t ! i)")
  case True
  then show ?thesis using o keys_distinctD [OF d that(1) i that(3)] that(2) by auto
next
  case False
  then show ?thesis using n that slot_map_None [of t "key e"] by auto
qed

lemma put_distinct:
  assumes d: "keys_distinct t" and i: "i < length t" and o: "used (t ! i) \<longrightarrow> key (t ! i) = key e"
    and n: "\<not> used (t ! i) \<longrightarrow> slot_map t (key e) = None"
  shows "keys_distinct (t[i := e])"
  unfolding keys_distinct_def
proof (intro allI impI)
  fix a b
  assume ab: "a < length (t[i := e])" "b < length (t[i := e])" "used (t[i := e] ! a)" "used (t[i := e] ! b)"
    "key (t[i := e] ! a) = key (t[i := e] ! b)"
  show "a = b"
  proof (cases "a = i \<or> b = i")
    case True
    then show ?thesis using ab other_key [OF d i o n, of a] other_key [OF d i o n, of b] i by (auto simp: nth_list_update split: if_splits)
  next
    case False
    then show ?thesis using ab keys_distinctD [OF d, of a b] by simp
  qed
qed

lemma slot_put:
  assumes d: "keys_distinct t" and i: "i < length t" and e: "used e" and o: "used (t ! i) \<longrightarrow> key (t ! i) = key e"
    and n: "\<not> used (t ! i) \<longrightarrow> slot_map t (key e) = None"
  shows "keys_distinct (t[i := e]) \<and> slot_map (t[i := e]) = (slot_map t)(key e \<mapsto> e)"
proof -
  note other = other_key [OF d i o n]
  have d': "keys_distinct (t[i := e])" by (rule put_distinct [OF d i o n])
  moreover have "slot_map (t[i := e]) = (slot_map t)(key e \<mapsto> e)"
  proof (rule slot_map_eqI [OF d'])
    fix k x
    show "((slot_map t)(key e \<mapsto> e)) k = Some x \<longleftrightarrow> (\<exists>j<length (t[i := e]). t[i := e] ! j = x \<and> used x \<and> key x = k)"
    proof (cases "k = key e")
      case True
      have "t[i := e] ! j = x \<and> used x \<and> key x = k \<longrightarrow> x = e" if "j < length t" for j
        using other [OF that] True i by (cases "j = i") auto
      then have "(\<exists>j<length t. t[i := e] ! j = x \<and> used x \<and> key x = k) \<longleftrightarrow> x = e"
        using True i e by (metis nth_list_update_eq)
      then show ?thesis using True by auto
    next
      case False
      have "t[i := e] ! j = x \<and> used x \<and> key x = k \<longleftrightarrow> t ! j = x \<and> used x \<and> key x = k" if "j < length t" for j
      proof (cases "j = i")
        case True
        then show ?thesis using False o i by (metis nth_list_update_eq)
      qed (use that in simp)
      then have "(\<exists>j<length t. t ! j = x \<and> used x \<and> key x = k) \<longleftrightarrow> (\<exists>j<length t. t[i := e] ! j = x \<and> used x \<and> key x = k)"
        by blast
      then show ?thesis using False slot_map_Some [OF d, of k x] by simp
    qed
  qed
  ultimately show ?thesis by simp
qed

lemma clear_distinct:
  assumes d: "keys_distinct t" and i: "i < length t"
  shows "keys_distinct (t[i := blank])"
  unfolding keys_distinct_def
proof (intro allI impI)
  fix a b
  assume ab: "a < length (t[i := blank])" "b < length (t[i := blank])" "used (t[i := blank] ! a)" "used (t[i := blank] ! b)"
    "key (t[i := blank] ! a) = key (t[i := blank] ! b)"
  then have "a \<noteq> i" "b \<noteq> i" using blank_unused by auto
  then show "a = b" using ab keys_distinctD [OF d, of a b] by simp
qed

lemma slot_clear:
  assumes d: "keys_distinct t" and i: "i < length t" "used (t ! i)"
  shows "keys_distinct (t[i := blank]) \<and> slot_map (t[i := blank]) = (slot_map t)(key (t ! i) := None)"
proof -
  have d': "keys_distinct (t[i := blank])" by (rule clear_distinct [OF d i(1)])
  moreover have "slot_map (t[i := blank]) = (slot_map t)(key (t ! i) := None)"
  proof (rule slot_map_eqI [OF d'])
    fix k x
    have u: "j = i" if "j < length t" "used (t ! j)" "key (t ! j) = key (t ! i)" for j
      using keys_distinctD [OF d that(1) i(1) that(2) i(2) that(3)] .
    have n: "t[i := blank] ! j = x \<and> used x \<longleftrightarrow> j \<noteq> i \<and> t ! j = x \<and> used x" if "j < length t" for j
    proof (cases "j = i")
      case True
      then show ?thesis using i(1) blank_unused by (metis nth_list_update_eq)
    qed simp
    show "((slot_map t)(key (t ! i) := None)) k = Some x \<longleftrightarrow> (\<exists>j<length (t[i := blank]). t[i := blank] ! j = x \<and> used x \<and> key x = k)"
    proof (cases "k = key (t ! i)")
      case True
      have "\<not> (t[i := blank] ! j = x \<and> used x \<and> key x = k)" if "j < length t" for j
        using n [OF that] u [OF that] True by metis
      then show ?thesis using True by auto
    next
      case False
      have "t[i := blank] ! j = x \<and> used x \<and> key x = k \<longleftrightarrow> t ! j = x \<and> used x \<and> key x = k" if "j < length t" for j
      proof (cases "j = i")
        case True
        then show ?thesis using n [OF that] False by metis
      next
        case False
        then show ?thesis using n [OF that] by argo
      qed
      then have "(\<exists>j<length t. t[i := blank] ! j = x \<and> used x \<and> key x = k) \<longleftrightarrow> (\<exists>j<length t. t ! j = x \<and> used x \<and> key x = k)"
        by blast
      then show ?thesis using False slot_map_Some [OF d, of k x] by simp
    qed
  qed
  ultimately show ?thesis by simp
qed

lemma dom_slot_map: "dom (slot_map t) = (\<lambda>i. key (t ! i)) ` {i. i < length t \<and> used (t ! i)}"
proof -
  have d: "k \<in> dom (slot_map t) \<longleftrightarrow> (\<exists>i<length t. used (t ! i) \<and> key (t ! i) = k)" for k
    using slot_map_None [of t k] by (auto simp: dom_def)
  show ?thesis by (rule set_eqI) (unfold d image_def mem_Collect_eq, blast)
qed

lemma card_slot_map: "keys_distinct t \<Longrightarrow> card (dom (slot_map t)) = card {i. i < length t \<and> used (t ! i)}"
  unfolding dom_slot_map by (rule card_image) (auto simp: inj_on_def keys_distinct_def)

lemma slots_full:
  assumes "keys_distinct t"
  shows "card (dom (slot_map t)) < length t \<longleftrightarrow> (\<exists>i<length t. \<not> used (t ! i))"
proof
  assume l: "card (dom (slot_map t)) < length t"
  show "\<exists>i<length t. \<not> used (t ! i)"
  proof (rule ccontr)
    assume "\<not> (\<exists>i<length t. \<not> used (t ! i))"
    then have "{i. i < length t \<and> used (t ! i)} = {..<length t}" by auto
    then show False using l card_slot_map [OF assms] by simp
  qed
next
  assume "\<exists>i<length t. \<not> used (t ! i)"
  then obtain i where "i < length t" "\<not> used (t ! i)" by blast
  then have "{i. i < length t \<and> used (t ! i)} \<subset> {..<length t}" by auto
  then have "card {i. i < length t \<and> used (t ! i)} < card {..<length t}" by (rule psubset_card_mono [rotated]) simp
  then show "card (dom (slot_map t)) < length t" using card_slot_map [OF assms] by simp
qed

lemma blank_table: "keys_distinct (replicate n blank) \<and> slot_map (replicate n blank) = Map.empty"
proof -
  have d: "keys_distinct (replicate n blank)" using blank_unused by (simp add: keys_distinct_def)
  moreover have "slot_map (replicate n blank) = Map.empty" by (rule slot_map_eqI [OF d]) (auto simp: blank_unused)
  ultimately show ?thesis by simp
qed

end

end
