(* ===== verification/Srv_Registry.thy ===== *)
theory Srv_Registry
  imports Path_Words Slot_Table
begin

text \<open>
  The registry of data servers of a redirector, \<^verbatim>\<open>src/net/manager/registry.c\<close>, \<^verbatim>\<open>registry_select_blacklist.c\<close>,
  \<^verbatim>\<open>registry_policy.c\<close> and \<^verbatim>\<open>registry_health.c\<close>: a table of slots in shared memory, every operation
  under its lock.  Hosts, paths and roles are NUL-free strings, and \<open>ngx_cpystrn\<close> keeps one character less
  than the size of its array.  The table is \<open>None\<close> while the zone is not attached; its capacity is the
  length of the list.  \<open>now\<close> is \<open>ngx_current_msec\<close>.  The counter of refused registrations belongs to the
  metrics and is left out.
\<close>

unbundle bit_operations_syntax

section \<open>State\<close>

record brix_srv_entry_t =
  se_host :: string
  se_port :: u16
  se_paths :: string
  se_free_mb :: u32
  se_util_pct :: u32
  se_last_seen :: u64
  se_in_use :: bool
  se_blacklisted_until :: u64
  se_error_count :: u32
  se_vnid :: string
  se_stage :: bool
  se_role :: string
  se_min_free_mb :: u32
  se_space_blocked :: bool
  se_load5 :: bytes
  se_load_pct :: u32
  se_hc_next_check :: u64
  se_hc_last_ok :: u64
  se_hc_fail_count :: u32
  se_hc_in_progress :: bool

definition srv_entry_zero :: brix_srv_entry_t where
  "srv_entry_zero = \<lparr>se_host = [], se_port = 0, se_paths = [], se_free_mb = 0, se_util_pct = 0, se_last_seen = 0,
     se_in_use = False, se_blacklisted_until = 0, se_error_count = 0, se_vnid = [], se_stage = False, se_role = [],
     se_min_free_mb = 0, se_space_blocked = False, se_load5 = replicate 5 0, se_load_pct = 0, se_hc_next_check = 0,
     se_hc_last_ok = 0, se_hc_fail_count = 0, se_hc_in_progress = False\<rparr>"

type_synonym brix_srv_table_t = "brix_srv_entry_t list"

record brix_srv_sched_t =
  sd_cpu :: u64
  sd_io :: u64
  sd_runq :: u64
  sd_mem :: u64
  sd_pag :: u64
  sd_space :: u64
  sd_fuzz :: u64
  sd_maxload :: u64

record brix_srv_space_t =
  sp_enforce :: bool
  sp_hwm_mb :: u64

record brix_srv_state_t =
  st_registry_nslots :: u64
  st_stale_after_ms :: u64
  st_load_weight :: u64
  st_affinity :: bool
  st_delay_servers :: u64
  st_sched :: brix_srv_sched_t
  st_space :: brix_srv_space_t

definition cpystrn :: "nat \<Rightarrow> string \<Rightarrow> string" where
  "cpystrn n s = take (n - 1) s"

abbreviation (input) BRIX_SRV_HOST_MAX :: nat where "BRIX_SRV_HOST_MAX \<equiv> 256"
abbreviation (input) BRIX_SRV_MAX_PATHS :: nat where "BRIX_SRV_MAX_PATHS \<equiv> 1024"

section \<open>Policy\<close>

definition sched_zero :: brix_srv_sched_t where
  "sched_zero = \<lparr>sd_cpu = 0, sd_io = 0, sd_runq = 0, sd_mem = 0, sd_pag = 0, sd_space = 0, sd_fuzz = 0, sd_maxload = 0\<rparr>"

definition srv_clamp100 :: "u64 \<Rightarrow> u64" where
  "srv_clamp100 w = (if w > 100 then 100 else w)"

definition brix_srv_set_sched :: "brix_srv_sched_t option \<Rightarrow> brix_srv_state_t \<Rightarrow> brix_srv_state_t" where
  "brix_srv_set_sched sched st = (case sched of
       None \<Rightarrow> st\<lparr>st_sched := sched_zero\<rparr>
     | Some s \<Rightarrow> st\<lparr>st_sched := \<lparr>sd_cpu = srv_clamp100 (sd_cpu s), sd_io = srv_clamp100 (sd_io s),
         sd_runq = srv_clamp100 (sd_runq s), sd_mem = srv_clamp100 (sd_mem s), sd_pag = srv_clamp100 (sd_pag s),
         sd_space = srv_clamp100 (sd_space s), sd_fuzz = srv_clamp100 (sd_fuzz s), sd_maxload = srv_clamp100 (sd_maxload s)\<rparr>\<rparr>)"

definition brix_srv_set_space :: "brix_srv_space_t option \<Rightarrow> brix_srv_state_t \<Rightarrow> brix_srv_state_t" where
  "brix_srv_set_space sp st = (case sp of None \<Rightarrow> st\<lparr>st_space := \<lparr>sp_enforce = False, sp_hwm_mb = 0\<rparr>\<rparr> | Some s \<Rightarrow> st\<lparr>st_space := s\<rparr>)"

definition brix_srv_set_load_weight :: "u64 \<Rightarrow> brix_srv_state_t \<Rightarrow> brix_srv_state_t" where
  "brix_srv_set_load_weight weight st = st\<lparr>st_load_weight := (if weight > 100 then 100 else weight)\<rparr>"

definition brix_srv_set_stale_after :: "u64 \<Rightarrow> brix_srv_state_t \<Rightarrow> brix_srv_state_t" where
  "brix_srv_set_stale_after ms st = st\<lparr>st_stale_after_ms := ms\<rparr>"

definition brix_srv_set_delay_servers :: "u64 \<Rightarrow> brix_srv_state_t \<Rightarrow> brix_srv_state_t" where
  "brix_srv_set_delay_servers n st = st\<lparr>st_delay_servers := n\<rparr>"

definition brix_srv_set_affinity :: "u64 \<Rightarrow> brix_srv_state_t \<Rightarrow> brix_srv_state_t" where
  "brix_srv_set_affinity on st = st\<lparr>st_affinity := (on \<noteq> 0)\<rparr>"

definition brix_srv_set_registry_slots :: "u64 \<Rightarrow> brix_srv_state_t \<Rightarrow> brix_srv_state_t" where
  "brix_srv_set_registry_slots slots st = st\<lparr>st_registry_nslots := slots\<rparr>"

text \<open>A fresh zone is zero-filled; a re-attached one keeps its table.\<close>

definition brix_srv_shm_init_zone :: "brix_srv_state_t \<Rightarrow> brix_srv_table_t option \<Rightarrow> brix_srv_table_t" where
  "brix_srv_shm_init_zone st data = (case data of None \<Rightarrow> replicate (unat (st_registry_nslots st)) srv_entry_zero | Some t \<Rightarrow> t)"

section \<open>Registration\<close>

definition char_between :: "char \<Rightarrow> char \<Rightarrow> char \<Rightarrow> bool" where
  "char_between a b c \<longleftrightarrow> (of_char a :: nat) \<le> of_char c \<and> (of_char c :: nat) \<le> of_char b"

definition brix_net_host_chars_valid :: "string \<Rightarrow> bool" where
  "brix_net_host_chars_valid host \<longleftrightarrow> host \<noteq> [] \<and>
     (\<forall>ch\<in>set host. char_between CHR ''A'' CHR ''Z'' ch \<or> char_between CHR ''a'' CHR ''z'' ch
        \<or> char_between CHR ''0'' CHR ''9'' ch \<or> ch = CHR ''.'' \<or> ch = CHR '':'' \<or> ch = CHR ''-'')"

definition srv_space_reeval_locked :: "brix_srv_state_t \<Rightarrow> brix_srv_entry_t \<Rightarrow> brix_srv_entry_t" where
  "srv_space_reeval_locked st e =
     (if se_min_free_mb e = 0 then e\<lparr>se_space_blocked := False\<rparr>
      else let hwm = (if sp_hwm_mb (st_space st) > ucast (se_min_free_mb e) then ucast (sp_hwm_mb (st_space st)) else se_min_free_mb e)
           in if se_space_blocked e
              then (if se_free_mb e \<ge> hwm then e\<lparr>se_space_blocked := False\<rparr> else e)
              else if se_free_mb e < se_min_free_mb e then e\<lparr>se_space_blocked := True\<rparr> else e)"

definition srv_is :: "string \<Rightarrow> u16 \<Rightarrow> brix_srv_entry_t \<Rightarrow> bool" where
  "srv_is host port e \<longleftrightarrow> se_in_use e \<and> se_port e = port \<and> se_host e = host"

fun srv_find_loop :: "brix_srv_table_t \<Rightarrow> nat \<Rightarrow> string \<Rightarrow> u16 \<Rightarrow> nat option" where
  "srv_find_loop [] i host port = None"
| "srv_find_loop (e # es) i host port = (if srv_is host port e then Some i else srv_find_loop es (Suc i) host port)"

definition srv_find_locked :: "brix_srv_table_t option \<Rightarrow> string option \<Rightarrow> u16 \<Rightarrow> nat option" where
  "srv_find_locked tbl host port = (case tbl of None \<Rightarrow> None
     | Some t \<Rightarrow> (case host of None \<Rightarrow> None | Some h \<Rightarrow> srv_find_loop t 0 h port))"

text \<open>The scan of a registration: the slot of the node, or else the first free slot seen.\<close>

fun srv_register_loop :: "brix_srv_table_t \<Rightarrow> nat \<Rightarrow> nat option \<Rightarrow> string \<Rightarrow> u16 \<Rightarrow> nat + nat option" where
  "srv_register_loop [] i free_slot host port = Inr free_slot"
| "srv_register_loop (e # es) i free_slot host port =
     (if \<not> se_in_use e then srv_register_loop es (Suc i) (if free_slot = None then Some i else free_slot) host port
      else if se_port e = port \<and> se_host e = host then Inl i
      else srv_register_loop es (Suc i) free_slot host port)"

definition srv_known :: "brix_srv_state_t \<Rightarrow> u64 \<Rightarrow> string option \<Rightarrow> u32 \<Rightarrow> u32 \<Rightarrow> brix_srv_entry_t \<Rightarrow> brix_srv_entry_t" where
  "srv_known st now paths free_mb util_pct e = srv_space_reeval_locked st
     (e\<lparr>se_paths := cpystrn BRIX_SRV_MAX_PATHS (case paths of None \<Rightarrow> [] | Some p \<Rightarrow> p), se_free_mb := free_mb,
        se_util_pct := util_pct, se_last_seen := now, se_blacklisted_until := 0, se_error_count := 0\<rparr>)"

definition srv_new ::
    "brix_srv_state_t \<Rightarrow> u64 \<Rightarrow> string \<Rightarrow> u16 \<Rightarrow> string option \<Rightarrow> u32 \<Rightarrow> u32 \<Rightarrow> brix_srv_entry_t \<Rightarrow> brix_srv_entry_t" where
  "srv_new st now host port paths free_mb util_pct e = srv_space_reeval_locked st
     (e\<lparr>se_host := cpystrn BRIX_SRV_HOST_MAX host, se_port := port,
        se_paths := cpystrn BRIX_SRV_MAX_PATHS (case paths of None \<Rightarrow> [] | Some p \<Rightarrow> p), se_free_mb := free_mb,
        se_util_pct := util_pct, se_last_seen := now, se_role := ''S'', se_in_use := True\<rparr>)"

definition brix_srv_register ::
    "brix_srv_state_t \<Rightarrow> u64 \<Rightarrow> string option \<Rightarrow> u16 \<Rightarrow> string option \<Rightarrow> u32 \<Rightarrow> u32
     \<Rightarrow> brix_srv_table_t option \<Rightarrow> brix_srv_table_t option" where
  "brix_srv_register st now host port paths free_mb util_pct tbl = (case tbl of
       None \<Rightarrow> None
     | Some t \<Rightarrow> (case host of
           None \<Rightarrow> Some t
         | Some h \<Rightarrow>
             if \<not> brix_net_host_chars_valid h then Some t
             else (case srv_register_loop t 0 None h port of
                     Inl i \<Rightarrow> Some (t[i := srv_known st now paths free_mb util_pct (t ! i)])
                   | Inr (Some i) \<Rightarrow> Some (t[i := srv_new st now h port paths free_mb util_pct (t ! i)])
                   | Inr None \<Rightarrow> Some t)))"

section \<open>Writers of one node\<close>

text \<open>Every other writer finds the node and changes its entry, or does nothing.\<close>

definition srv_update ::
    "(brix_srv_entry_t \<Rightarrow> brix_srv_entry_t) \<Rightarrow> string option \<Rightarrow> u16 \<Rightarrow> brix_srv_table_t option \<Rightarrow> brix_srv_table_t option" where
  "srv_update f host port tbl = (case srv_find_locked tbl host port of
       None \<Rightarrow> tbl | Some i \<Rightarrow> map_option (\<lambda>t. t[i := f (t ! i)]) tbl)"

definition brix_srv_update_load ::
    "brix_srv_state_t \<Rightarrow> u64 \<Rightarrow> string option \<Rightarrow> u16 \<Rightarrow> u32 \<Rightarrow> u32 \<Rightarrow> brix_srv_table_t option \<Rightarrow> brix_srv_table_t option" where
  "brix_srv_update_load st now host port free_mb util_pct = srv_update
     (\<lambda>e. srv_space_reeval_locked st (e\<lparr>se_free_mb := free_mb, se_util_pct := util_pct, se_last_seen := now\<rparr>)) host port"

definition brix_srv_unregister :: "string option \<Rightarrow> u16 \<Rightarrow> brix_srv_table_t option \<Rightarrow> brix_srv_table_t option" where
  "brix_srv_unregister host port = srv_update (\<lambda>e. srv_entry_zero) host port"

definition brix_srv_reset :: "u64 \<Rightarrow> string option \<Rightarrow> u16 \<Rightarrow> brix_srv_table_t option \<Rightarrow> bool \<times> brix_srv_table_t option" where
  "brix_srv_reset now host port tbl = (srv_find_locked tbl host port \<noteq> None, srv_update
     (\<lambda>e. e\<lparr>se_free_mb := 0, se_util_pct := 0, se_error_count := 0, se_blacklisted_until := 0, se_hc_fail_count := 0,
            se_hc_in_progress := False, se_load_pct := 0, se_last_seen := now\<rparr>) host port tbl)"

definition brix_srv_set_vnid :: "string option \<Rightarrow> u16 \<Rightarrow> string option \<Rightarrow> brix_srv_table_t option \<Rightarrow> brix_srv_table_t option" where
  "brix_srv_set_vnid host port vnid = srv_update (\<lambda>e. e\<lparr>se_vnid := cpystrn 64 (case vnid of None \<Rightarrow> [] | Some v \<Rightarrow> v)\<rparr>) host port"

definition brix_srv_set_min_free ::
    "brix_srv_state_t \<Rightarrow> string option \<Rightarrow> u16 \<Rightarrow> u32 \<Rightarrow> brix_srv_table_t option \<Rightarrow> brix_srv_table_t option" where
  "brix_srv_set_min_free st host port min_free_mb = srv_update
     (\<lambda>e. srv_space_reeval_locked st (e\<lparr>se_min_free_mb := min_free_mb\<rparr>)) host port"

definition brix_srv_set_role :: "string option \<Rightarrow> u16 \<Rightarrow> string option \<Rightarrow> brix_srv_table_t option \<Rightarrow> brix_srv_table_t option" where
  "brix_srv_set_role host port role = srv_update
     (\<lambda>e. e\<lparr>se_role := cpystrn 4 (case role of None \<Rightarrow> ''S'' | Some r \<Rightarrow> if r \<noteq> [] then r else ''S'')\<rparr>) host port"

definition brix_srv_set_stage :: "string option \<Rightarrow> u16 \<Rightarrow> u64 \<Rightarrow> brix_srv_table_t option \<Rightarrow> brix_srv_table_t option" where
  "brix_srv_set_stage host port stage = srv_update (\<lambda>e. e\<lparr>se_stage := (stage \<noteq> 0)\<rparr>) host port"

definition brix_srv_set_machine_load :: "string option \<Rightarrow> u16 \<Rightarrow> u32 \<Rightarrow> brix_srv_table_t option \<Rightarrow> brix_srv_table_t option" where
  "brix_srv_set_machine_load host port load_pct = srv_update
     (\<lambda>e. e\<lparr>se_load_pct := (if load_pct > 100 then 100 else load_pct)\<rparr>) host port"

definition brix_srv_set_load_vector :: "string option \<Rightarrow> u16 \<Rightarrow> bytes option \<Rightarrow> brix_srv_table_t option \<Rightarrow> brix_srv_table_t option" where
  "brix_srv_set_load_vector host port load5 tbl = (case load5 of None \<Rightarrow> tbl
     | Some l \<Rightarrow> srv_update (\<lambda>e. e\<lparr>se_load5 := map (\<lambda>b. if b > 100 then 100 else b) (take 5 l)\<rparr>) host port tbl)"

section \<open>Blacklist and health checks\<close>

definition brix_srv_blacklist :: "u64 \<Rightarrow> string option \<Rightarrow> u16 \<Rightarrow> u64 \<Rightarrow> brix_srv_table_t option \<Rightarrow> brix_srv_table_t option" where
  "brix_srv_blacklist now host port duration_ms = srv_update
     (\<lambda>e. e\<lparr>se_error_count := se_error_count e + 1, se_blacklisted_until := now + duration_ms\<rparr>) host port"

definition brix_srv_undrain :: "string option \<Rightarrow> u16 \<Rightarrow> brix_srv_table_t option \<Rightarrow> bool \<times> brix_srv_table_t option" where
  "brix_srv_undrain host port tbl = (srv_find_locked tbl host port \<noteq> None,
     srv_update (\<lambda>e. e\<lparr>se_blacklisted_until := 0, se_error_count := 0, se_hc_fail_count := 0\<rparr>) host port tbl)"

definition srv_blacked :: "u64 \<Rightarrow> brix_srv_entry_t \<Rightarrow> bool" where
  "srv_blacked now e \<longleftrightarrow> se_blacklisted_until e \<noteq> 0 \<and> se_blacklisted_until e > now"

definition brix_srv_is_blacklisted :: "u64 \<Rightarrow> string option \<Rightarrow> u16 \<Rightarrow> brix_srv_table_t option \<Rightarrow> bool" where
  "brix_srv_is_blacklisted now host port tbl = (case tbl of None \<Rightarrow> False | Some t \<Rightarrow>
     (case srv_find_locked tbl host port of None \<Rightarrow> False | Some i \<Rightarrow> srv_blacked now (t ! i)))"

definition brix_srv_is_registered :: "string option \<Rightarrow> u16 \<Rightarrow> brix_srv_table_t option \<Rightarrow> bool" where
  "brix_srv_is_registered host port tbl \<longleftrightarrow> srv_find_locked tbl host port \<noteq> None"

text \<open>The slot to probe, or how long to sleep: \<open>Inl\<close> is the claimed slot with the table after it.\<close>

fun srv_claim_loop :: "brix_srv_table_t \<Rightarrow> u64 \<Rightarrow> nat \<Rightarrow> u64 \<Rightarrow> nat + u64" where
  "srv_claim_loop [] now i soonest = Inr soonest"
| "srv_claim_loop (e # es) now i soonest =
     (if \<not> se_in_use e \<or> se_hc_in_progress e then srv_claim_loop es now (Suc i) soonest
      else if se_hc_next_check e > now
      then let d = se_hc_next_check e - now
           in srv_claim_loop es now (Suc i) (if sint d > 0 \<and> d < soonest then d else soonest)
      else Inl i)"

definition brix_srv_hc_claim ::
    "u64 \<Rightarrow> nat \<Rightarrow> u64 \<Rightarrow> brix_srv_table_t option \<Rightarrow> ((string \<times> u16) + u64) \<times> brix_srv_table_t option" where
  "brix_srv_hc_claim now host_size interval_ms tbl = (case tbl of
       None \<Rightarrow> (Inr interval_ms, None)
     | Some t \<Rightarrow> (case srv_claim_loop t now 0 interval_ms of
           Inl i \<Rightarrow> (Inl (cpystrn host_size (se_host (t ! i)), se_port (t ! i)),
                     Some (t[i := (t ! i)\<lparr>se_hc_in_progress := True, se_hc_next_check := now + interval_ms\<rparr>]))
         | Inr soonest \<Rightarrow> (Inr soonest, Some t)))"

definition brix_srv_hc_pass :: "u64 \<Rightarrow> string option \<Rightarrow> u16 \<Rightarrow> brix_srv_table_t option \<Rightarrow> brix_srv_table_t option" where
  "brix_srv_hc_pass now host port = srv_update
     (\<lambda>e. (if se_hc_fail_count e > 0 then e\<lparr>se_blacklisted_until := 0\<rparr> else e)
            \<lparr>se_hc_fail_count := 0, se_hc_last_ok := now, se_hc_in_progress := False\<rparr>) host port"

definition srv_failed :: "u64 \<Rightarrow> u32 \<Rightarrow> u64 \<Rightarrow> brix_srv_entry_t \<Rightarrow> bool \<times> brix_srv_entry_t" where
  "srv_failed now threshold blacklist_ms e =
     (let e = e\<lparr>se_hc_in_progress := False, se_hc_fail_count := se_hc_fail_count e + 1\<rparr>
      in if threshold > 0 \<and> se_hc_fail_count e \<ge> threshold
         then let until = now + blacklist_ms
              in if se_blacklisted_until e < until then (True, e\<lparr>se_blacklisted_until := until\<rparr>) else (False, e)
         else (False, e))"

definition brix_srv_hc_fail ::
    "u64 \<Rightarrow> string option \<Rightarrow> u16 \<Rightarrow> u32 \<Rightarrow> u64 \<Rightarrow> brix_srv_table_t option \<Rightarrow> bool \<times> brix_srv_table_t option" where
  "brix_srv_hc_fail now host port threshold blacklist_ms tbl =
     (case tbl of None \<Rightarrow> False | Some t \<Rightarrow>
        (case srv_find_locked tbl host port of None \<Rightarrow> False | Some i \<Rightarrow> fst (srv_failed now threshold blacklist_ms (t ! i))),
      srv_update (\<lambda>e. snd (srv_failed now threshold blacklist_ms e)) host port tbl)"

text \<open>A single export is taken out of the list of a node; a list that ends in a colon has no last token.\<close>

function srv_tokens :: "string \<Rightarrow> string list" where
  "srv_tokens p = (if p = [] then []
     else takeWhile (\<lambda>c. c \<noteq> CHR '':'') p # srv_tokens (drop 1 (dropWhile (\<lambda>c. c \<noteq> CHR '':'') p)))"
  by pat_completeness auto
termination
proof (relation "measure length")
  fix p :: string
  assume "p \<noteq> []"
  then have "length p > 0" by simp
  then show "(drop 1 (dropWhile (\<lambda>c. c \<noteq> CHR '':'') p), p) \<in> measure length"
    using length_dropWhile_le [of "\<lambda>c. c \<noteq> CHR '':''" p] unfolding in_measure length_drop by linarith
qed simp

declare srv_tokens.simps [simp del]

fun srv_keep_loop :: "string list \<Rightarrow> string \<Rightarrow> bool \<Rightarrow> string" where
  "srv_keep_loop [] path first = []"
| "srv_keep_loop (tok # toks) path first =
     (if tok = path then srv_keep_loop toks path first
      else (if first then [] else '':'') @ tok @ srv_keep_loop toks path False)"

definition brix_srv_unregister_path :: "string \<Rightarrow> u16 \<Rightarrow> string \<Rightarrow> brix_srv_table_t option \<Rightarrow> brix_srv_table_t option" where
  "brix_srv_unregister_path host port path = srv_update
     (\<lambda>e. e\<lparr>se_paths := srv_keep_loop (srv_tokens (se_paths e)) path True\<rparr>) (Some host) port"

section \<open>Readers of the whole table\<close>

definition brix_srv_aggregate_space :: "brix_srv_table_t option \<Rightarrow> u32 \<times> u32" where
  "brix_srv_aggregate_space tbl = (case tbl of None \<Rightarrow> (0, 0)
     | Some t \<Rightarrow>
         (let (sum_free, sum_util, n) = foldl (\<lambda>(f, u, n). \<lambda>e.
                if se_in_use e then (f + se_free_mb e, u + ucast (se_util_pct e), n + 1) else (f, u, n)) (0 :: u32, 0 :: u64, 0 :: u64) t
          in (sum_free, if n > 0 then ucast (sum_util div n) else 0)))"

definition srv_role0 :: "char \<Rightarrow> brix_srv_entry_t \<Rightarrow> bool" where
  "srv_role0 c e \<longleftrightarrow> se_role e \<noteq> [] \<and> hd (se_role e) = c"

definition brix_srv_count_servers :: "brix_srv_table_t option \<Rightarrow> u64" where
  "brix_srv_count_servers tbl = (case tbl of None \<Rightarrow> 0
     | Some t \<Rightarrow> foldl (\<lambda>n e. if se_in_use e \<and> (srv_role0 CHR ''S'' e \<or> (srv_role0 CHR ''P'' e \<and> 1 < length (se_role e) \<and> se_role e ! 1 = CHR ''S''))
                        then n + 1 else n) 0 t)"

definition brix_srv_below_floor :: "brix_srv_state_t \<Rightarrow> brix_srv_table_t option \<Rightarrow> bool" where
  "brix_srv_below_floor st tbl \<longleftrightarrow> st_delay_servers st > 0 \<and> brix_srv_count_servers tbl < st_delay_servers st"

fun srv_supervisor_loop :: "brix_srv_table_t \<Rightarrow> u64 \<Rightarrow> nat \<Rightarrow> (nat \<times> u32) option \<Rightarrow> (nat \<times> u32) option" where
  "srv_supervisor_loop [] now i best = best"
| "srv_supervisor_loop (e # es) now i best =
     (if \<not> se_in_use e \<or> \<not> srv_role0 CHR ''R'' e then srv_supervisor_loop es now (Suc i) best
      else if srv_blacked now e then srv_supervisor_loop es now (Suc i) best
      else srv_supervisor_loop es now (Suc i)
             (if best = None \<or> se_util_pct e < snd (the best) then Some (i, se_util_pct e) else best))"

definition brix_srv_find_supervisor :: "u64 \<Rightarrow> nat \<Rightarrow> brix_srv_table_t option \<Rightarrow> (string \<times> u16) option" where
  "brix_srv_find_supervisor now host_size tbl = (case tbl of None \<Rightarrow> None
     | Some t \<Rightarrow> map_option (\<lambda>(i, _). (cpystrn host_size (se_host (t ! i)), se_port (t ! i))) (srv_supervisor_loop t now 0 None))"

record brix_srv_snapshot_entry_t =
  sn_host :: string
  sn_port :: u16
  sn_paths :: string
  sn_free_mb :: u32
  sn_util_pct :: u32
  sn_last_seen :: u64
  sn_blacklisted_until :: u64
  sn_error_count :: u32
  sn_hc_last_ok :: u64
  sn_hc_fail_count :: u32
  sn_vnid :: string
  sn_stage :: bool
  sn_load_pct :: u32
  sn_role :: string
  sn_min_free_mb :: u32
  sn_space_blocked :: bool

definition srv_snapshot_of :: "brix_srv_entry_t \<Rightarrow> brix_srv_snapshot_entry_t" where
  "srv_snapshot_of e = \<lparr>sn_host = cpystrn 256 (se_host e), sn_port = se_port e, sn_paths = cpystrn BRIX_SRV_MAX_PATHS (se_paths e),
     sn_free_mb = se_free_mb e, sn_util_pct = se_util_pct e, sn_last_seen = se_last_seen e,
     sn_blacklisted_until = se_blacklisted_until e, sn_error_count = se_error_count e, sn_hc_last_ok = se_hc_last_ok e,
     sn_hc_fail_count = se_hc_fail_count e, sn_vnid = cpystrn 64 (se_vnid e), sn_stage = se_stage e, sn_load_pct = se_load_pct e,
     sn_role = cpystrn 4 (if se_role e \<noteq> [] then se_role e else ''S''), sn_min_free_mb = se_min_free_mb e,
     sn_space_blocked = se_space_blocked e\<rparr>"

definition brix_srv_snapshot :: "nat \<Rightarrow> brix_srv_table_t option \<Rightarrow> brix_srv_snapshot_entry_t list" where
  "brix_srv_snapshot max_entries tbl = (case tbl of None \<Rightarrow> []
     | Some t \<Rightarrow> map srv_snapshot_of (take max_entries (filter se_in_use t)))"

section \<open>The registry is a bounded map\<close>

interpretation srv: slot_table se_in_use "\<lambda>e. (se_host e, se_port e)" srv_entry_zero
  by unfold_locales (simp add: srv_entry_zero_def)

lemma reeval_frame [simp]:
  "se_in_use (srv_space_reeval_locked st e) = se_in_use e" "se_host (srv_space_reeval_locked st e) = se_host e"
  "se_port (srv_space_reeval_locked st e) = se_port e" "se_load_pct (srv_space_reeval_locked st e) = se_load_pct e"
  "se_load5 (srv_space_reeval_locked st e) = se_load5 e" "se_blacklisted_until (srv_space_reeval_locked st e) = se_blacklisted_until e"
  "se_free_mb (srv_space_reeval_locked st e) = se_free_mb e" "se_min_free_mb (srv_space_reeval_locked st e) = se_min_free_mb e"
  by (simp_all add: srv_space_reeval_locked_def Let_def)

lemma find_loop_Some: "srv_find_loop t k h p = Some i \<Longrightarrow> k \<le> i \<and> i - k < length t \<and> srv_is h p (t ! (i - k))"
proof (induction t arbitrary: k)
  case (Cons e t)
  show ?case
  proof (cases "srv_is h p e")
    case True
    then show ?thesis using Cons.prems by simp
  next
    case False
    then have "Suc k \<le> i \<and> i - Suc k < length t \<and> srv_is h p (t ! (i - Suc k))" using Cons by simp
    then show ?thesis by (auto simp: Suc_diff_Suc nth_Cons')
  qed
qed simp

lemma find_loop_None: "srv_find_loop t k h p = None \<Longrightarrow> \<forall>e\<in>set t. \<not> srv_is h p e"
  by (induction t arbitrary: k) (auto split: if_splits)

lemma find_map:
  assumes "srv.keys_distinct t"
  shows "case srv_find_loop t 0 h p of None \<Rightarrow> srv.slot_map t (h, p) = None
     | Some i \<Rightarrow> i < length t \<and> se_in_use (t ! i) \<and> se_host (t ! i) = h \<and> se_port (t ! i) = p \<and> srv.slot_map t (h, p) = Some (t ! i)"
proof (cases "srv_find_loop t 0 h p")
  case None
  have "\<not> srv_is h p (t ! i)" if "i < length t" for i using find_loop_None [OF None] that by simp
  then have "srv.slot_map t (h, p) = None" unfolding srv.slot_map_None by (auto simp: srv_is_def)
  then show ?thesis using None by simp
next
  case (Some i)
  have i: "i < length t" "se_in_use (t ! i)" "se_port (t ! i) = p" "se_host (t ! i) = h"
    using find_loop_Some [OF Some] by (auto simp: srv_is_def)
  then show ?thesis using Some srv.slot_map_at [OF assms i(1,2)] by simp
qed

lemma register_loop_Inl:
  "srv_register_loop t k fr h p = Inl i \<Longrightarrow> k \<le> i \<and> i - k < length t \<and> srv_is h p (t ! (i - k))"
proof (induction t arbitrary: k fr)
  case (Cons e t)
  show ?case
  proof (cases "srv_is h p e")
    case True
    then show ?thesis using Cons.prems by (simp add: srv_is_def)
  next
    case False
    then have "\<exists>fr. srv_register_loop t (Suc k) fr h p = Inl i" using Cons.prems by (auto simp: srv_is_def split: if_splits)
    then have "Suc k \<le> i \<and> i - Suc k < length t \<and> srv_is h p (t ! (i - Suc k))" using Cons.IH by blast
    then show ?thesis by (auto simp: Suc_diff_Suc nth_Cons')
  qed
qed simp

lemma register_loop_Inr:
  "srv_register_loop t k fr h p = Inr r \<Longrightarrow> (\<forall>e\<in>set t. \<not> srv_is h p e)
     \<and> r = (case fr of Some f \<Rightarrow> Some f | None \<Rightarrow> if \<exists>e\<in>set t. \<not> se_in_use e then Some (k + length (takeWhile se_in_use t)) else None)"
proof (induction t arbitrary: k fr)
  case (Cons e t)
  show ?case
  proof (cases "se_in_use e")
    case False
    then have "srv_register_loop t (Suc k) (if fr = None then Some k else fr) h p = Inr r" using Cons.prems by simp
    from Cons.IH [OF this] show ?thesis using False by (cases fr) (simp_all add: srv_is_def)
  next
    case True
    then have n: "\<not> srv_is h p e" "srv_register_loop t (Suc k) fr h p = Inr r" using Cons.prems by (auto simp: srv_is_def split: if_splits)
    from Cons.IH [OF n(2)] show ?thesis using True n(1) by (cases fr) simp_all
  qed
qed (simp split: option.split)

text \<open>An entry whose node keeps its name: writers change anything but the key.\<close>

definition srv_entry_ok :: "brix_srv_entry_t \<Rightarrow> bool" where
  "srv_entry_ok e \<longleftrightarrow> brix_net_host_chars_valid (se_host e) \<and> length (se_host e) < BRIX_SRV_HOST_MAX
     \<and> se_load_pct e \<le> 100 \<and> length (se_load5 e) = 5 \<and> (\<forall>b\<in>set (se_load5 e). b \<le> 100)"

definition srv_wf :: "brix_srv_table_t \<Rightarrow> bool" where
  "srv_wf t \<longleftrightarrow> srv.keys_distinct t \<and> (\<forall>e\<in>set t. if se_in_use e then srv_entry_ok e else e = srv_entry_zero)"

lemma srv_wf_at: "srv_wf t \<Longrightarrow> i < length t \<Longrightarrow> if se_in_use (t ! i) then srv_entry_ok (t ! i) else t ! i = srv_entry_zero"
  by (simp add: srv_wf_def)

lemma srv_wf_put:
  assumes w: "srv_wf t" and i: "i < length t" and e: "se_in_use e" "srv_entry_ok e"
    and o: "se_in_use (t ! i) \<longrightarrow> se_host (t ! i) = se_host e \<and> se_port (t ! i) = se_port e"
    and n: "\<not> se_in_use (t ! i) \<longrightarrow> srv.slot_map t (se_host e, se_port e) = None"
  shows "srv_wf (t[i := e]) \<and> srv.slot_map (t[i := e]) = (srv.slot_map t)((se_host e, se_port e) \<mapsto> e)"
proof -
  have p: "srv.keys_distinct (t[i := e]) \<and> srv.slot_map (t[i := e]) = (srv.slot_map t)((se_host e, se_port e) \<mapsto> e)"
    using srv.slot_put [of t i e] w i e(1) o n by (simp add: srv_wf_def)
  have "x = e \<or> x \<in> set t" if "x \<in> set (t[i := e])" for x using that set_update_subset_insert [of t i e] by blast
  then have "\<forall>x\<in>set (t[i := e]). if se_in_use x then srv_entry_ok x else x = srv_entry_zero"
    using w e unfolding srv_wf_def by metis
  then show ?thesis using p by (simp add: srv_wf_def)
qed

text \<open>The abstract registry: a map from nodes to entries with room for \<open>n\<close> of them.\<close>

type_synonym srv_map = "(string \<times> u16) \<rightharpoonup> brix_srv_entry_t"

datatype srv_op =
    SrvRegister u64 string u16 "string option" u32 u32
  | SrvLoad u64 string u16 u32 u32
  | SrvUnregister string u16
  | SrvReset u64 string u16
  | SrvVnid string u16 "string option"
  | SrvMinFree string u16 u32
  | SrvRole string u16 "string option"
  | SrvStage string u16 u64
  | SrvMachineLoad string u16 u32
  | SrvLoadVector string u16 bytes
  | SrvBlacklist u64 string u16 u64
  | SrvUndrain string u16
  | SrvPass u64 string u16
  | SrvFail u64 string u16 u32 u64
  | SrvUnregisterPath string u16 string

fun srv_op_ok :: "srv_op \<Rightarrow> bool" where
  "srv_op_ok (SrvRegister now h p paths free_mb util) \<longleftrightarrow> length h < BRIX_SRV_HOST_MAX"
| "srv_op_ok (SrvLoadVector h p l) \<longleftrightarrow> length l = 5"
| "srv_op_ok _ \<longleftrightarrow> True"

fun srv_do :: "brix_srv_state_t \<Rightarrow> srv_op \<Rightarrow> brix_srv_table_t option \<Rightarrow> brix_srv_table_t option" where
  "srv_do st (SrvRegister now h p paths free_mb util) = brix_srv_register st now (Some h) p paths free_mb util"
| "srv_do st (SrvLoad now h p free_mb util) = brix_srv_update_load st now (Some h) p free_mb util"
| "srv_do st (SrvUnregister h p) = brix_srv_unregister (Some h) p"
| "srv_do st (SrvReset now h p) = (\<lambda>t. snd (brix_srv_reset now (Some h) p t))"
| "srv_do st (SrvVnid h p v) = brix_srv_set_vnid (Some h) p v"
| "srv_do st (SrvMinFree h p m) = brix_srv_set_min_free st (Some h) p m"
| "srv_do st (SrvRole h p r) = brix_srv_set_role (Some h) p r"
| "srv_do st (SrvStage h p s) = brix_srv_set_stage (Some h) p s"
| "srv_do st (SrvMachineLoad h p l) = brix_srv_set_machine_load (Some h) p l"
| "srv_do st (SrvLoadVector h p l) = brix_srv_set_load_vector (Some h) p (Some l)"
| "srv_do st (SrvBlacklist now h p d) = brix_srv_blacklist now (Some h) p d"
| "srv_do st (SrvUndrain h p) = (\<lambda>t. snd (brix_srv_undrain (Some h) p t))"
| "srv_do st (SrvPass now h p) = brix_srv_hc_pass now (Some h) p"
| "srv_do st (SrvFail now h p th ms) = (\<lambda>t. snd (brix_srv_hc_fail now (Some h) p th ms t))"
| "srv_do st (SrvUnregisterPath h p path) = brix_srv_unregister_path h p path"

text \<open>What an operation does to the entry of its node; \<open>None\<close> takes the node out.\<close>

definition srv_blocked_after :: "brix_srv_state_t \<Rightarrow> u32 \<Rightarrow> u32 \<Rightarrow> bool \<Rightarrow> bool" where
  "srv_blocked_after st floor free_mb b \<longleftrightarrow> floor \<noteq> 0 \<and>
     (if b then free_mb < (if ucast floor < sp_hwm_mb (st_space st) then ucast (sp_hwm_mb (st_space st)) else floor) else free_mb < floor)"

fun srv_effect :: "brix_srv_state_t \<Rightarrow> srv_op \<Rightarrow> brix_srv_entry_t \<Rightarrow> brix_srv_entry_t option" where
  "srv_effect st (SrvRegister now h p paths free_mb util) e = Some (e\<lparr>se_paths := take 1023 (case paths of None \<Rightarrow> [] | Some s \<Rightarrow> s),
     se_free_mb := free_mb, se_util_pct := util, se_last_seen := now, se_blacklisted_until := 0, se_error_count := 0,
     se_space_blocked := srv_blocked_after st (se_min_free_mb e) free_mb (se_space_blocked e)\<rparr>)"
| "srv_effect st (SrvLoad now h p free_mb util) e = Some (e\<lparr>se_free_mb := free_mb, se_util_pct := util, se_last_seen := now,
     se_space_blocked := srv_blocked_after st (se_min_free_mb e) free_mb (se_space_blocked e)\<rparr>)"
| "srv_effect st (SrvUnregister h p) e = None"
| "srv_effect st (SrvReset now h p) e = Some (e\<lparr>se_free_mb := 0, se_util_pct := 0, se_error_count := 0, se_blacklisted_until := 0,
     se_hc_fail_count := 0, se_hc_in_progress := False, se_load_pct := 0, se_last_seen := now\<rparr>)"
| "srv_effect st (SrvVnid h p v) e = Some (e\<lparr>se_vnid := take 63 (case v of None \<Rightarrow> [] | Some s \<Rightarrow> s)\<rparr>)"
| "srv_effect st (SrvMinFree h p m) e = Some (e\<lparr>se_min_free_mb := m,
     se_space_blocked := srv_blocked_after st m (se_free_mb e) (se_space_blocked e)\<rparr>)"
| "srv_effect st (SrvRole h p r) e = Some (e\<lparr>se_role := take 3 (if r = None \<or> r = Some [] then ''S'' else the r)\<rparr>)"
| "srv_effect st (SrvStage h p s) e = Some (e\<lparr>se_stage := (s \<noteq> 0)\<rparr>)"
| "srv_effect st (SrvMachineLoad h p l) e = Some (e\<lparr>se_load_pct := min l 100\<rparr>)"
| "srv_effect st (SrvLoadVector h p l) e = Some (e\<lparr>se_load5 := map (\<lambda>b. min b 100) l\<rparr>)"
| "srv_effect st (SrvBlacklist now h p d) e = Some (e\<lparr>se_error_count := se_error_count e + 1, se_blacklisted_until := now + d\<rparr>)"
| "srv_effect st (SrvUndrain h p) e = Some (e\<lparr>se_blacklisted_until := 0, se_error_count := 0, se_hc_fail_count := 0\<rparr>)"
| "srv_effect st (SrvPass now h p) e = Some (e\<lparr>se_blacklisted_until := (if se_hc_fail_count e = 0 then se_blacklisted_until e else 0),
     se_hc_fail_count := 0, se_hc_last_ok := now, se_hc_in_progress := False\<rparr>)"
| "srv_effect st (SrvFail now h p th ms) e = Some (e\<lparr>se_hc_in_progress := False, se_hc_fail_count := se_hc_fail_count e + 1,
     se_blacklisted_until := (if th \<noteq> 0 \<and> th \<le> se_hc_fail_count e + 1 then max (se_blacklisted_until e) (now + ms) else se_blacklisted_until e)\<rparr>)"
| "srv_effect st (SrvUnregisterPath h p path) e =
     Some (e\<lparr>se_paths := join_on CHR '':'' (filter (\<lambda>tok. tok \<noteq> path) (srv_tokens (se_paths e)))\<rparr>)"

fun srv_key :: "srv_op \<Rightarrow> string \<times> u16" where
  "srv_key (SrvRegister now h p paths free_mb util) = (h, p)"
| "srv_key (SrvLoad now h p free_mb util) = (h, p)"
| "srv_key (SrvUnregister h p) = (h, p)"
| "srv_key (SrvReset now h p) = (h, p)"
| "srv_key (SrvVnid h p v) = (h, p)"
| "srv_key (SrvMinFree h p m) = (h, p)"
| "srv_key (SrvRole h p r) = (h, p)"
| "srv_key (SrvStage h p s) = (h, p)"
| "srv_key (SrvMachineLoad h p l) = (h, p)"
| "srv_key (SrvLoadVector h p l) = (h, p)"
| "srv_key (SrvBlacklist now h p d) = (h, p)"
| "srv_key (SrvUndrain h p) = (h, p)"
| "srv_key (SrvPass now h p) = (h, p)"
| "srv_key (SrvFail now h p th ms) = (h, p)"
| "srv_key (SrvUnregisterPath h p path) = (h, p)"

text \<open>A node the registry does not know enters it by registering, with a clean host and while there is room.\<close>

fun srv_enters :: "brix_srv_state_t \<Rightarrow> srv_op \<Rightarrow> brix_srv_entry_t option" where
  "srv_enters st (SrvRegister now h p paths free_mb util) = (if brix_net_host_chars_valid h
     then Some (srv_entry_zero\<lparr>se_host := h, se_port := p, se_paths := take 1023 (case paths of None \<Rightarrow> [] | Some s \<Rightarrow> s),
            se_free_mb := free_mb, se_util_pct := util, se_last_seen := now, se_role := ''S'', se_in_use := True\<rparr>) else None)"
| "srv_enters st _ = None"

definition srv_spec :: "brix_srv_state_t \<Rightarrow> nat \<Rightarrow> srv_map \<Rightarrow> srv_op \<Rightarrow> srv_map" where
  "srv_spec st n m op = (case m (srv_key op) of
       Some e \<Rightarrow> m(srv_key op := srv_effect st op e)
     | None \<Rightarrow> if card (dom m) < n then m(srv_key op := srv_enters st op) else m)"

lemma reeval_spec: "srv_space_reeval_locked st e = e\<lparr>se_space_blocked := srv_blocked_after st (se_min_free_mb e) (se_free_mb e) (se_space_blocked e)\<rparr>"
  by (auto simp: srv_space_reeval_locked_def srv_blocked_after_def Let_def not_le)

lemma keep_loop_False: "srv_keep_loop toks path False = concat (map (\<lambda>tok. CHR '':'' # tok) (filter (\<lambda>tok. tok \<noteq> path) toks))"
  by (induction toks) auto

lemma join_concat: "join_on c (w # ws) = w @ concat (map (\<lambda>v. c # v) ws)"
  by (induction ws arbitrary: w) simp_all

lemma keep_loop_join: "srv_keep_loop toks path True = join_on CHR '':'' (filter (\<lambda>tok. tok \<noteq> path) toks)"
  by (induction toks) (auto simp: keep_loop_False join_concat simp del: join_on.simps(2,3))

lemma update_spec:
  assumes w: "srv_wf t"
    and f: "\<And>e. \<lbrakk>se_in_use e; srv_entry_ok e\<rbrakk> \<Longrightarrow> se_in_use (f e) \<and> srv_entry_ok (f e) \<and> se_host (f e) = se_host e \<and> se_port (f e) = se_port e"
  shows "\<exists>t'. srv_update f (Some h) p (Some t) = Some t' \<and> length t' = length t \<and> srv_wf t'
    \<and> srv.slot_map t' = (case srv.slot_map t (h, p) of None \<Rightarrow> srv.slot_map t | Some e \<Rightarrow> (srv.slot_map t)((h, p) \<mapsto> f e))"
proof -
  have d: "srv.keys_distinct t" using w by (simp add: srv_wf_def)
  show ?thesis
  proof (cases "srv_find_loop t 0 h p")
    case None
    then have "srv.slot_map t (h, p) = None" using find_map [OF d, of h p] by simp
    then show ?thesis using None w by (simp add: srv_update_def srv_find_locked_def)
  next
    case (Some i)
    then have i: "i < length t" "se_in_use (t ! i)" "se_host (t ! i) = h" "se_port (t ! i) = p" "srv.slot_map t (h, p) = Some (t ! i)"
      using find_map [OF d, of h p] by simp_all
    have e: "se_in_use (f (t ! i))" "srv_entry_ok (f (t ! i))" "se_host (f (t ! i)) = h" "se_port (f (t ! i)) = p"
      using f [OF i(2)] srv_wf_at [OF w i(1)] i(2-4) by simp_all
    have "srv_wf (t[i := f (t ! i)]) \<and> srv.slot_map (t[i := f (t ! i)]) = (srv.slot_map t)((h, p) \<mapsto> f (t ! i))"
      using srv_wf_put [OF w i(1) e(1,2)] i(2-4) e(3,4) by simp
    then show ?thesis using Some i(5) by (simp add: srv_update_def srv_find_locked_def)
  qed
qed

lemma unregister_spec:
  assumes w: "srv_wf t"
  shows "\<exists>t'. brix_srv_unregister (Some h) p (Some t) = Some t' \<and> length t' = length t \<and> srv_wf t'
    \<and> srv.slot_map t' = (srv.slot_map t)((h, p) := None)"
proof -
  have d: "srv.keys_distinct t" using w by (simp add: srv_wf_def)
  show ?thesis
  proof (cases "srv_find_loop t 0 h p")
    case None
    then have "srv.slot_map t (h, p) = None" using find_map [OF d, of h p] by simp
    then show ?thesis using None w by (simp add: brix_srv_unregister_def srv_update_def srv_find_locked_def fun_upd_idem)
  next
    case (Some i)
    then have i: "i < length t" "se_in_use (t ! i)" "se_host (t ! i) = h" "se_port (t ! i) = p"
      using find_map [OF d, of h p] by simp_all
    have c: "srv.keys_distinct (t[i := srv_entry_zero]) \<and> srv.slot_map (t[i := srv_entry_zero]) = (srv.slot_map t)((h, p) := None)"
      using srv.slot_clear [OF d i(1,2)] i(3,4) by simp
    have "x = srv_entry_zero \<or> x \<in> set t" if "x \<in> set (t[i := srv_entry_zero])" for x
      using that set_update_subset_insert [of t i srv_entry_zero] by blast
    then have "\<forall>x\<in>set (t[i := srv_entry_zero]). if se_in_use x then srv_entry_ok x else x = srv_entry_zero"
      using w srv.blank_unused unfolding srv_wf_def by metis
    then have "srv_wf (t[i := srv_entry_zero])" using c by (simp add: srv_wf_def)
    then show ?thesis using Some c by (simp add: brix_srv_unregister_def srv_update_def srv_find_locked_def)
  qed
qed

lemma spec_writer:
  assumes "srv_enters st op = None" "\<And>e. srv_effect st op e = Some (f e)"
  shows "srv_spec st n m op = (case m (srv_key op) of None \<Rightarrow> m | Some e \<Rightarrow> m(srv_key op \<mapsto> f e))"
  using assms by (auto simp: srv_spec_def fun_upd_idem split: option.split)

lemma clamp_min: "(if (100 :: 'a :: len word) < l then 100 else l) = min l 100"
  by (auto simp: min_def)

lemma failed_spec: "snd (srv_failed now th ms e) = the (srv_effect st (SrvFail now h p th ms) e)"
  by (auto simp: srv_failed_def Let_def max_def word_neq_0_conv)

definition srv_entry_of :: "brix_srv_state_t \<Rightarrow> srv_op \<Rightarrow> brix_srv_entry_t \<Rightarrow> brix_srv_entry_t" where
  "srv_entry_of st op = (\<lambda>e. the (srv_effect st op e))"

text \<open>Every writer is the update of its node with the effect of its operation.\<close>

lemma writer_form:
  assumes "\<forall>now h p paths free_mb util. op \<noteq> SrvRegister now h p paths free_mb util" "\<forall>h p. op \<noteq> SrvUnregister h p" "srv_op_ok op"
  shows "srv_do st op (Some t) = srv_update (srv_entry_of st op) (Some (fst (srv_key op))) (snd (srv_key op)) (Some t)"
    and "srv_enters st op = None" and "srv_effect st op e = Some (srv_entry_of st op e)"
proof -
  show "srv_enters st op = None" using assms(1) by (cases op) simp_all
  show "srv_effect st op e = Some (srv_entry_of st op e)" using assms(2) by (cases op) (simp_all add: srv_entry_of_def)
  show "srv_do st op (Some t) = srv_update (srv_entry_of st op) (Some (fst (srv_key op))) (snd (srv_key op)) (Some t)"
  proof (cases op)
    case (SrvFail now h p th ms)
    show ?thesis unfolding SrvFail srv_do.simps brix_srv_hc_fail_def snd_conv srv_key.simps fst_conv srv_entry_of_def
      by (rule arg_cong [where f = "\<lambda>f. srv_update f (Some h) p (Some t)"]) (rule ext, rule failed_spec)
  next
    case (SrvPass now h p)
    show ?thesis unfolding SrvPass srv_do.simps brix_srv_hc_pass_def srv_key.simps fst_conv snd_conv
      by (rule arg_cong [where f = "\<lambda>f. srv_update f (Some h) p (Some t)"]) (auto simp: srv_entry_of_def word_neq_0_conv)
  next
    case (SrvRole h p r)
    show ?thesis unfolding SrvRole srv_do.simps brix_srv_set_role_def srv_key.simps fst_conv snd_conv
      by (rule arg_cong [where f = "\<lambda>f. srv_update f (Some h) p (Some t)"]) (auto simp: srv_entry_of_def cpystrn_def split: option.split)
  qed (use assms in \<open>simp_all add: srv_entry_of_def brix_srv_update_load_def brix_srv_reset_def brix_srv_set_vnid_def
      brix_srv_set_min_free_def brix_srv_set_stage_def brix_srv_set_machine_load_def brix_srv_set_load_vector_def
      brix_srv_blacklist_def brix_srv_undrain_def brix_srv_unregister_path_def reeval_spec cpystrn_def clamp_min keep_loop_join\<close>)
qed

lemma writer_ok:
  assumes "srv_op_ok op" "srv_effect st op e = Some e'" "se_in_use e" "srv_entry_ok e"
  shows "se_in_use e' \<and> srv_entry_ok e' \<and> se_host e' = se_host e \<and> se_port e' = se_port e"
  using assms by (cases op) (auto simp: srv_entry_ok_def)

lemma writer_step:
  assumes w: "srv_wf t" and o: "srv_op_ok op"
    and n: "\<forall>now h p paths free_mb util. op \<noteq> SrvRegister now h p paths free_mb util" "\<forall>h p. op \<noteq> SrvUnregister h p"
  shows "\<exists>t'. srv_do st op (Some t) = Some t' \<and> length t' = length t \<and> srv_wf t' \<and> srv.slot_map t' = srv_spec st (length t) (srv.slot_map t) op"
proof -
  note f = writer_form [OF n o]
  have k: "(fst (srv_key op), snd (srv_key op)) = srv_key op" by simp
  show ?thesis
    unfolding f(1) spec_writer [OF f(2) f(3)]
    using update_spec [OF w, of "srv_entry_of st op" "fst (srv_key op)" "snd (srv_key op)"] writer_ok [OF o f(3)] unfolding k by blast
qed

lemma register_known:
  assumes w: "srv_wf t" and o: "length h < BRIX_SRV_HOST_MAX" and h: "brix_net_host_chars_valid h"
    and l: "srv_register_loop t 0 None h p = Inl i"
  shows "\<exists>t'. brix_srv_register st now (Some h) p paths free_mb util (Some t) = Some t' \<and> length t' = length t \<and> srv_wf t'
    \<and> srv.slot_map t' = srv_spec st (length t) (srv.slot_map t) (SrvRegister now h p paths free_mb util)"
proof -
  have d: "srv.keys_distinct t" using w by (simp add: srv_wf_def)
  have i: "i < length t" "se_in_use (t ! i)" "se_host (t ! i) = h" "se_port (t ! i) = p"
    using register_loop_Inl [OF l] by (simp_all add: srv_is_def)
  have m: "srv.slot_map t (h, p) = Some (t ! i)" using srv.slot_map_at [OF d i(1,2)] i(3,4) by simp
  define e where "e = srv_known st now paths free_mb util (t ! i)"
  have eff: "srv_effect st (SrvRegister now h p paths free_mb util) (t ! i) = Some e"
    by (simp add: e_def srv_known_def reeval_spec cpystrn_def)
  have e: "se_in_use e" "srv_entry_ok e" "se_host e = h" "se_port e = p"
    using writer_ok [OF _ eff i(2)] srv_wf_at [OF w i(1)] i(2-4) o by simp_all
  have "srv_wf (t[i := e]) \<and> srv.slot_map (t[i := e]) = (srv.slot_map t)((h, p) \<mapsto> e)"
    using srv_wf_put [OF w i(1) e(1,2)] i(2-4) e(3,4) by simp
  then show ?thesis using l h m eff by (simp add: brix_srv_register_def e_def [symmetric] srv_spec_def del: srv_effect.simps)
qed

lemma first_free:
  assumes "srv_wf t" "\<exists>e\<in>set t. \<not> se_in_use e"
  shows "length (takeWhile se_in_use t) < length t \<and> t ! length (takeWhile se_in_use t) = srv_entry_zero"
proof -
  have "takeWhile se_in_use t \<noteq> t" using assms(2) unfolding takeWhile_eq_all_conv by simp
  then have l: "length (takeWhile se_in_use t) < length t"
    by (metis length_takeWhile_le le_neq_implies_less takeWhile_eq_take take_all_iff order_refl)
  then show ?thesis using nth_length_takeWhile [of se_in_use t] srv_wf_at [OF assms(1) l] by simp
qed

lemma register_step:
  assumes w: "srv_wf t" and o: "length h < BRIX_SRV_HOST_MAX"
  shows "\<exists>t'. brix_srv_register st now (Some h) p paths free_mb util (Some t) = Some t' \<and> length t' = length t \<and> srv_wf t'
    \<and> srv.slot_map t' = srv_spec st (length t) (srv.slot_map t) (SrvRegister now h p paths free_mb util)"
proof (cases "brix_net_host_chars_valid h")
  case False
  have "srv.slot_map t (h, p) \<noteq> Some e" for e
    using False w srv.slot_map_Some [of t "(h, p)" e] unfolding srv_wf_def srv_entry_ok_def by (metis fst_conv nth_mem)
  then have "srv.slot_map t (h, p) = None" by (metis not_Some_eq)
  then show ?thesis using False w by (simp add: brix_srv_register_def srv_spec_def fun_upd_idem)
next
  case True
  have d: "srv.keys_distinct t" using w by (simp add: srv_wf_def)
  show ?thesis
  proof (cases "srv_register_loop t 0 None h p")
    case (Inl i)
    show ?thesis by (rule register_known [OF w o True Inl])
  next
    case (Inr r)
    note r = register_loop_Inr [OF Inr]
    have m: "srv.slot_map t (h, p) = None" unfolding srv.slot_map_None using r by (auto simp: srv_is_def)
    show ?thesis
    proof (cases "\<exists>e\<in>set t. \<not> se_in_use e")
      case False
      then have "\<not> (\<exists>i<length t. \<not> se_in_use (t ! i))" by auto
      then have "\<not> card (dom (srv.slot_map t)) < length t" using srv.slots_full [OF d] by simp
      then show ?thesis using Inr r False True m w by (simp add: brix_srv_register_def srv_spec_def)
    next
      case ex: True
      define i where "i = length (takeWhile se_in_use t)"
      have i: "i < length t" "\<not> se_in_use (t ! i)" and z: "t ! i = srv_entry_zero"
        using first_free [OF w ex] srv.blank_unused by (simp_all add: i_def)
      define e where "e = srv_new st now h p paths free_mb util (t ! i)"
      have en: "srv_enters st (SrvRegister now h p paths free_mb util) = Some e" using True o
        by (simp add: e_def srv_new_def reeval_spec cpystrn_def z srv_blocked_after_def) (simp add: srv_entry_zero_def)
      have e: "se_in_use e" "srv_entry_ok e" "se_host e = h" "se_port e = p"
        using True o by (simp_all add: e_def srv_new_def z srv_entry_ok_def cpystrn_def srv_entry_zero_def)
      have "srv_wf (t[i := e]) \<and> srv.slot_map (t[i := e]) = (srv.slot_map t)((h, p) \<mapsto> e)"
        using srv_wf_put [OF w i(1) e(1,2)] i(2) m e(3,4) by simp
      moreover have "card (dom (srv.slot_map t)) < length t" using srv.slots_full [OF d] i by blast
      moreover have "r = Some i" using r ex by (simp add: i_def)
      ultimately show ?thesis using Inr True m en by (simp add: brix_srv_register_def e_def [symmetric] srv_spec_def del: srv_enters.simps)
    qed
  qed
qed

lemma srv_do_step:
  assumes w: "srv_wf t" and o: "srv_op_ok op"
  shows "\<exists>t'. srv_do st op (Some t) = Some t' \<and> length t' = length t \<and> srv_wf t' \<and> srv.slot_map t' = srv_spec st (length t) (srv.slot_map t) op"
proof -
  consider now h p paths free_mb util where "op = SrvRegister now h p paths free_mb util" | h p where "op = SrvUnregister h p"
    | "\<forall>now h p paths free_mb util. op \<noteq> SrvRegister now h p paths free_mb util" "\<forall>h p. op \<noteq> SrvUnregister h p" by blast
  then show ?thesis
  proof cases
    case 1
    then show ?thesis using register_step [OF w] o by simp
  next
    case (2 h p)
    then show ?thesis using unregister_spec [OF w, of h p] by (auto simp: srv_spec_def fun_upd_idem split: option.split)
  next
    case 3
    then show ?thesis using writer_step [OF w o] by blast
  qed
qed

section \<open>Probes: the claim of a node that is due\<close>

text \<open>
  A claim takes some node whose probe is due and not under way; which one the map does not say.  When there is
  none it gives the time to sleep: the interval, or the shortest time until a probe falls due if that is less.
\<close>

definition srv_due :: "u64 \<Rightarrow> brix_srv_entry_t \<Rightarrow> bool" where
  "srv_due now e \<longleftrightarrow> \<not> se_hc_in_progress e \<and> se_hc_next_check e \<le> now"

definition srv_claimed :: "u64 \<Rightarrow> u64 \<Rightarrow> brix_srv_entry_t \<Rightarrow> brix_srv_entry_t" where
  "srv_claimed now interval e = e\<lparr>se_hc_in_progress := True, se_hc_next_check := now + interval\<rparr>"

definition srv_delays :: "u64 \<Rightarrow> brix_srv_entry_t set \<Rightarrow> u64 set" where
  "srv_delays now es = {d. \<exists>e\<in>es. \<not> se_hc_in_progress e \<and> d = se_hc_next_check e - now \<and> 0 < sint d}"

definition srv_sleep :: "u64 \<Rightarrow> u64 \<Rightarrow> srv_map \<Rightarrow> u64 \<Rightarrow> bool" where
  "srv_sleep now interval m w \<longleftrightarrow> w \<in> insert interval (srv_delays now (ran m)) \<and> (\<forall>d\<in>insert interval (srv_delays now (ran m)). w \<le> d)"

lemma claim_loop_claims:
  "srv_claim_loop t now j s = Inl i \<Longrightarrow> \<exists>k<length t. i = j + k \<and> se_in_use (t ! k) \<and> srv_due now (t ! k)"
proof (induction t arbitrary: j s)
  case (Cons e es)
  show ?case
  proof (cases "se_in_use e \<and> srv_due now e")
    case True
    then have "i = j" using Cons.prems by (simp add: srv_due_def not_le [symmetric])
    then show ?thesis using True by (intro exI [of _ 0]) simp
  next
    case False
    then obtain s' where "srv_claim_loop es now (Suc j) s' = Inl i"
      using Cons.prems by (auto simp: srv_due_def Let_def not_le split: if_splits)
    from Cons.IH [OF this] obtain k where "k < length es" "i = Suc j + k" "se_in_use (es ! k)" "srv_due now (es ! k)" by blast
    then show ?thesis by (intro exI [of _ "Suc k"]) simp
  qed
qed simp

lemma claim_loop_waits:
  "srv_claim_loop t now j s = Inr w \<Longrightarrow> (\<forall>e\<in>set t. se_in_use e \<longrightarrow> \<not> srv_due now e)
    \<and> w \<in> insert s (srv_delays now {e \<in> set t. se_in_use e}) \<and> (\<forall>d\<in>insert s (srv_delays now {e \<in> set t. se_in_use e}). w \<le> d)"
proof (induction t arbitrary: j s)
  case Nil
  then show ?case by (simp add: srv_delays_def)
next
  case (Cons e es)
  have split: "srv_delays now {x \<in> set (e # es). se_in_use x} = srv_delays now {x \<in> set es. se_in_use x}
      \<union> (if se_in_use e \<and> \<not> se_hc_in_progress e \<and> 0 < sint (se_hc_next_check e - now) then {se_hc_next_check e - now} else {})"
    by (auto simp: srv_delays_def)
  show ?case
  proof (cases "se_in_use e \<and> \<not> se_hc_in_progress e")
    case False
    then have "srv_claim_loop es now (Suc j) s = Inr w" using Cons.prems by auto
    then show ?thesis using Cons.IH False split by (auto simp: srv_due_def)
  next
    case True
    let ?d = "se_hc_next_check e - now"
    have nd: "now < se_hc_next_check e" using Cons.prems True by (auto split: if_splits)
    then have "srv_claim_loop es now (Suc j) (if 0 < sint ?d \<and> ?d < s then ?d else s) = Inr w"
      using Cons.prems True by (simp add: Let_def)
    from Cons.IH [OF this] show ?thesis using True nd unfolding split by (auto simp: srv_due_def split: if_splits)
  qed
qed

text \<open>A history: operations and claims, with what each claim answers.\<close>

datatype srv_event = SrvDo srv_op | SrvClaim u64 nat u64

fun srv_event_ok :: "srv_event \<Rightarrow> bool" where
  "srv_event_ok (SrvDo op) \<longleftrightarrow> srv_op_ok op"
| "srv_event_ok (SrvClaim now host_size interval) \<longleftrightarrow> True"

fun srv_run :: "brix_srv_state_t \<Rightarrow> srv_event list \<Rightarrow> brix_srv_table_t option
    \<Rightarrow> ((string \<times> u16) + u64) list \<times> brix_srv_table_t option" where
  "srv_run st [] t = ([], t)"
| "srv_run st (SrvDo op # evs) t = srv_run st evs (srv_do st op t)"
| "srv_run st (SrvClaim now host_size interval # evs) t =
     (let (r, t) = brix_srv_hc_claim now host_size interval t; (rs, t) = srv_run st evs t in (r # rs, t))"

text \<open>The abstract histories of a registry with room for \<open>n\<close> nodes: from a map, the answers, to a map.\<close>

inductive srv_trace :: "brix_srv_state_t \<Rightarrow> nat \<Rightarrow> srv_map \<Rightarrow> srv_event list \<Rightarrow> ((string \<times> u16) + u64) list \<Rightarrow> srv_map \<Rightarrow> bool"
  for st n where
  Done: "srv_trace st n m [] [] m"
| Op: "srv_trace st n (srv_spec st n m op) evs rs m' \<Longrightarrow> srv_trace st n m (SrvDo op # evs) rs m'"
| Claims: "\<lbrakk>m (h, p) = Some e; srv_due now e; srv_trace st n (m((h, p) \<mapsto> srv_claimed now interval e)) evs rs m'\<rbrakk>
    \<Longrightarrow> srv_trace st n m (SrvClaim now host_size interval # evs) (Inl (take (host_size - 1) h, p) # rs) m'"
| Sleeps: "\<lbrakk>\<forall>e\<in>ran m. \<not> srv_due now e; srv_sleep now interval m w; srv_trace st n m evs rs m'\<rbrakk>
    \<Longrightarrow> srv_trace st n m (SrvClaim now host_size interval # evs) (Inr w # rs) m'"

inductive_simps srv_trace_nil: "srv_trace st n m [] rs m'"
inductive_simps srv_trace_do: "srv_trace st n m (SrvDo op # evs) rs m'"
inductive_simps srv_trace_claim: "srv_trace st n m (SrvClaim now host_size interval # evs) rs m'"

lemmas srv_trace_simps = srv_trace_nil srv_trace_do srv_trace_claim

lemma claim_step:
  assumes w: "srv_wf t"
  obtains (claims) i t' where "brix_srv_hc_claim now host_size interval (Some t) =
        (Inl (take (host_size - 1) (se_host (t ! i)), se_port (t ! i)), Some t')"
      "srv.slot_map t (se_host (t ! i), se_port (t ! i)) = Some (t ! i)" "srv_due now (t ! i)"
      "length t' = length t" "srv_wf t'"
      "srv.slot_map t' = (srv.slot_map t)((se_host (t ! i), se_port (t ! i)) \<mapsto> srv_claimed now interval (t ! i))"
  | (sleeps) w where "brix_srv_hc_claim now host_size interval (Some t) = (Inr w, Some t)"
      "\<forall>e\<in>ran (srv.slot_map t). \<not> srv_due now e" "srv_sleep now interval (srv.slot_map t) w"
proof (cases "srv_claim_loop t now 0 interval")
  case (Inl i)
  have d: "srv.keys_distinct t" using w by (simp add: srv_wf_def)
  have i: "i < length t" "se_in_use (t ! i)" "srv_due now (t ! i)" using claim_loop_claims [OF Inl] by auto
  let ?e = "srv_claimed now interval (t ! i)"
  have e: "se_in_use ?e" "srv_entry_ok ?e" "se_host ?e = se_host (t ! i)" "se_port ?e = se_port (t ! i)"
    using srv_wf_at [OF w i(1)] i(2) by (simp_all add: srv_claimed_def srv_entry_ok_def)
  have "srv_wf (t[i := ?e]) \<and> srv.slot_map (t[i := ?e]) = (srv.slot_map t)((se_host (t ! i), se_port (t ! i)) \<mapsto> ?e)"
    using srv_wf_put [OF w i(1) e(1,2)] i(2) e(3,4) by simp
  then show thesis
    using claims [of i "t[i := ?e]"] Inl i(3) srv.slot_map_at [OF d i(1,2)]
    by (simp add: brix_srv_hc_claim_def cpystrn_def srv_claimed_def)
next
  case (Inr r)
  have d: "srv.keys_distinct t" using w by (simp add: srv_wf_def)
  have "ran (srv.slot_map t) = {e \<in> set t. se_in_use e}"
    using srv.slot_map_Some [OF d] by (auto simp: ran_def in_set_conv_nth)
  then show thesis using sleeps [of r] Inr claim_loop_waits [OF Inr] by (simp add: brix_srv_hc_claim_def srv_sleep_def)
qed

lemma history_run:
  assumes "srv_wf t" "\<forall>ev\<in>set evs. srv_event_ok ev"
  shows "\<exists>rs t'. srv_run st evs (Some t) = (rs, Some t') \<and> length t' = length t \<and> srv_wf t'
    \<and> srv_trace st (length t) (srv.slot_map t) evs rs (srv.slot_map t')"
  using assms
proof (induction evs arbitrary: t)
  case Nil
  then show ?case by (simp add: srv_trace.Done)
next
  case (Cons ev evs)
  show ?case
  proof (cases ev)
    case (SrvDo op)
    obtain t1 where t1: "srv_do st op (Some t) = Some t1" "length t1 = length t" "srv_wf t1"
      "srv.slot_map t1 = srv_spec st (length t) (srv.slot_map t) op" using srv_do_step Cons.prems SrvDo by fastforce
    then show ?thesis using Cons.IH [OF t1(3)] Cons.prems(2) SrvDo by (auto intro: srv_trace.Op)
  next
    case (SrvClaim now host_size interval)
    show ?thesis
    proof (cases rule: claim_step [OF Cons.prems(1), of now host_size interval])
      case (1 i t1)
      obtain rs t' where "srv_run st evs (Some t1) = (rs, Some t')" "length t' = length t1" "srv_wf t'"
        "srv_trace st (length t1) (srv.slot_map t1) evs rs (srv.slot_map t')" using Cons.IH [OF 1(5)] Cons.prems(2) by auto
      then show ?thesis using 1 SrvClaim by (auto intro: srv_trace.Claims [simplified])
    next
      case (2 w)
      obtain rs t' where "srv_run st evs (Some t) = (rs, Some t')" "length t' = length t" "srv_wf t'"
        "srv_trace st (length t) (srv.slot_map t) evs rs (srv.slot_map t')" using Cons.IH [OF Cons.prems(1)] Cons.prems(2) by auto
      then show ?thesis using 2 SrvClaim by (auto intro: srv_trace.Sleeps)
    qed
  qed
qed

section \<open>Properties\<close>

lemma empty_zone: "srv_wf (brix_srv_shm_init_zone st None) \<and> srv.slot_map (brix_srv_shm_init_zone st None) = Map.empty
    \<and> length (brix_srv_shm_init_zone st None) = unat (st_registry_nslots st)"
  using srv.blank_table [of "unat (st_registry_nslots st)"] srv.blank_unused by (simp add: brix_srv_shm_init_zone_def srv_wf_def)

text \<open>
  C36. The registry is a bounded map from nodes to entries.  From the empty zone on, under any sequence of
  registrations (of host names below 256 characters), load reports, attribute changes, blacklistings, probe claims,
  probe results and removals, with whatever times: the answers and the final table are those of an abstract history,
  in which every operation changes the entry of its own node only, a new node enters while there is room and is
  dropped when there is none, and a claim takes a node whose probe is due and not under way, or else tells
  how long none will be due.  A node has at most one slot, a lookup finds the entry of the map, a slot that is free again is
  clean, and the machine-load figures (not the reported utilisation) are percentages.
\<close>

theorem srv_history_refines:
  assumes "\<forall>ev\<in>set evs. srv_event_ok ev"
  shows "\<exists>rs t m. srv_run st evs (Some (brix_srv_shm_init_zone st None)) = (rs, Some t) \<and> srv_wf t
    \<and> length t = unat (st_registry_nslots st)
    \<and> srv_trace st (unat (st_registry_nslots st)) Map.empty evs rs m
    \<and> (\<forall>h p. map_option ((!) t) (srv_find_locked (Some t) (Some h) p) = m (h, p))"
proof -
  obtain rs t where t: "srv_run st evs (Some (brix_srv_shm_init_zone st None)) = (rs, Some t)" "length t = unat (st_registry_nslots st)"
    "srv_wf t" "srv_trace st (unat (st_registry_nslots st)) Map.empty evs rs (srv.slot_map t)"
    using history_run [OF _ assms, of "brix_srv_shm_init_zone st None" st] empty_zone [of st] by auto
  have "map_option ((!) t) (srv_find_locked (Some t) (Some h) p) = srv.slot_map t (h, p)" for h p
    using find_map [of t h p] t(3) by (cases "srv_find_loop t 0 h p") (simp_all add: srv_wf_def srv_find_locked_def)
  then show ?thesis using t by blast
qed

lemma blacklist_spec:
  assumes w: "srv_wf t" and m: "srv.slot_map t (h, p) = Some e" and o: "srv_op_ok op" "srv_key op = (h, p)"
    and e: "srv_effect st op e = Some e'"
  obtains t' where "srv_do st op (Some t) = Some t'" "srv_wf t'" "srv.slot_map t' (h, p) = Some e'"
proof -
  obtain t' where "srv_do st op (Some t) = Some t'" "srv_wf t'" "srv.slot_map t' = srv_spec st (length t) (srv.slot_map t) op"
    using srv_do_step [OF w o(1)] by blast
  then show thesis using that m o(2) e by (simp add: srv_spec_def)
qed

lemma is_blacklisted_map: "srv_wf t \<Longrightarrow> brix_srv_is_blacklisted now (Some h) p (Some t)
    \<longleftrightarrow> (case srv.slot_map t (h, p) of None \<Rightarrow> False | Some e \<Rightarrow> srv_blacked now e)"
  using find_map [of t h p] by (cases "srv_find_loop t 0 h p") (simp_all add: srv_wf_def brix_srv_is_blacklisted_def srv_find_locked_def)

lemma later_less: "unat now + unat d < 2 ^ 64 \<Longrightarrow> k < d \<Longrightarrow> now + k < now + d" for now d k :: u64
  using unat_add_lem [of now d] by (simp add: word_less_nat_alt unat_word_ariths)

text \<open>
  C40. A drain does not last.  An operator takes a registered node out for \<open>d\<close> milliseconds.  If its management
  connection then drops, the blacklisting for that (\<open>b\<close> milliseconds) replaces the longer one, and the node is
  selectable after \<open>b\<close>; and if one health probe of it fails, whatever the threshold, and the next one passes, it is selectable at
  once: a pass clears any blacklist once a probe has failed, not only one that probes have set.
\<close>

theorem srv_drain_not_kept:
  assumes w: "srv_wf t" and m: "srv.slot_map t (h, p) = Some e" and f: "se_hc_fail_count e + 1 \<noteq> 0"
    and d: "unat now + unat d < 2 ^ 64" "b < d"
  defines "drained \<equiv> brix_srv_blacklist now (Some h) p d (Some t)"
  shows "brix_srv_is_blacklisted (now + b) (Some h) p drained
    \<and> \<not> brix_srv_is_blacklisted (now + b) (Some h) p (brix_srv_blacklist now (Some h) p b drained)
    \<and> \<not> brix_srv_is_blacklisted now (Some h) p (brix_srv_hc_pass now (Some h) p (snd (brix_srv_hc_fail now (Some h) p threshold ms drained)))"
proof -
  let ?e = "e\<lparr>se_error_count := se_error_count e + 1, se_blacklisted_until := now + d\<rparr>"
  obtain t1 where t1: "drained = Some t1" "srv_wf t1" "srv.slot_map t1 (h, p) = Some ?e"
    using blacklist_spec [OF w m, of "SrvBlacklist now h p d" undefined ?e] by (auto simp: drained_def)
  have "now + b < now + d" using later_less [OF d] .
  moreover have "now + d \<noteq> 0" using calculation word_not_simps(1) by auto
  ultimately have 1: "brix_srv_is_blacklisted (now + b) (Some h) p drained" using t1 by (simp add: is_blacklisted_map srv_blacked_def)
  obtain t2 where t2: "brix_srv_blacklist now (Some h) p b (Some t1) = Some t2" "srv_wf t2"
    "srv.slot_map t2 (h, p) = srv_effect undefined (SrvBlacklist now h p b) ?e"
    using blacklist_spec [OF t1(2,3), of "SrvBlacklist now h p b"] by (auto simp del: srv_effect.simps simp: srv_effect.simps(11))
  then have 2: "\<not> brix_srv_is_blacklisted (now + b) (Some h) p (brix_srv_blacklist now (Some h) p b drained)"
    using t1(1) by (simp add: is_blacklisted_map srv_blacked_def)
  obtain e3 where e3: "srv_effect undefined (SrvFail now h p threshold ms) ?e = Some e3" "se_hc_fail_count e3 = se_hc_fail_count e + 1" by simp
  obtain t3 where t3: "snd (brix_srv_hc_fail now (Some h) p threshold ms (Some t1)) = Some t3" "srv_wf t3" "srv.slot_map t3 (h, p) = Some e3"
    using blacklist_spec [OF t1(2,3) _ _ e3(1)] by auto
  obtain t4 where t4: "brix_srv_hc_pass now (Some h) p (Some t3) = Some t4" "srv_wf t4"
    "srv.slot_map t4 (h, p) = srv_effect undefined (SrvPass now h p) e3"
    using blacklist_spec [OF t3(2,3), of "SrvPass now h p"] by auto
  have "\<not> brix_srv_is_blacklisted now (Some h) p (Some t4)" using t4(2,3) e3(2) f by (simp add: is_blacklisted_map srv_blacked_def)
  then show ?thesis using 1 2 t1(1) t3(1) t4(1) by simp
qed

text \<open>The policy a process starts with, in \<^verbatim>\<open>registry_policy.c\<close>, and a history over two slots.\<close>

definition srv_state_initial :: brix_srv_state_t where
  "srv_state_initial = \<lparr>st_registry_nslots = 128, st_stale_after_ms = 0, st_load_weight = 0, st_affinity = False,
     st_delay_servers = 0, st_sched = sched_zero, st_space = \<lparr>sp_enforce = False, sp_hwm_mb = 0\<rparr>\<rparr>"

theorem srv_history_refines_witness:
  "\<exists>t. srv_run (brix_srv_set_registry_slots 2 srv_state_initial)
      [SrvDo (SrvRegister 5 ''a'' 1094 (Some ''/d'') 10 3), SrvClaim 6 256 100, SrvClaim 7 256 100, SrvDo (SrvPass 8 ''a'' 1094),
       SrvDo (SrvRegister 9 ''b'' 1094 None 20 4), SrvDo (SrvRegister 10 ''c'' 1094 None 30 5),
       SrvDo (SrvBlacklist 11 ''b'' 1094 100), SrvDo (SrvUnregister ''a'' 1094), SrvDo (SrvRegister 12 ''c'' 1094 (Some ''/e'') 40 6)]
      (Some (brix_srv_shm_init_zone (brix_srv_set_registry_slots 2 srv_state_initial) None)) = ([Inl (''a'', 1094), Inr 100], Some t)
    \<and> map_option ((!) t) (srv_find_locked (Some t) (Some ''a'') 1094) = None
    \<and> map_option (\<lambda>i. se_free_mb (t ! i)) (srv_find_locked (Some t) (Some ''c'') 1094) = Some 40
    \<and> map_option (\<lambda>i. se_blacklisted_until (t ! i)) (srv_find_locked (Some t) (Some ''b'') 1094) = Some 111"
proof -
  let ?st = "brix_srv_set_registry_slots 2 srv_state_initial"
  let ?claims = "[SrvClaim 6 256 100, SrvClaim 7 256 100]"
  let ?ops = "[SrvDo (SrvPass 8 ''a'' 1094),
       SrvDo (SrvRegister 9 ''b'' 1094 None 20 4), SrvDo (SrvRegister 10 ''c'' 1094 None 30 5),
       SrvDo (SrvBlacklist 11 ''b'' 1094 100), SrvDo (SrvUnregister ''a'' 1094), SrvDo (SrvRegister 12 ''c'' 1094 (Some ''/e'') 40 6)]"
  let ?e = "srv_entry_zero\<lparr>se_host := ''a'', se_port := 1094, se_paths := ''/d'', se_free_mb := 10, se_util_pct := 3, se_last_seen := 5,
     se_role := ''S'', se_in_use := True\<rparr>"
  have n: "unat (st_registry_nslots ?st) = 2" by (simp add: brix_srv_set_registry_slots_def)
  have first: "srv_spec ?st 2 Map.empty (SrvRegister 5 ''a'' 1094 (Some ''/d'') 10 3) = [(''a'', 1094) \<mapsto> ?e]"
    by (simp add: srv_spec_def brix_net_host_chars_valid_def char_between_def)
  obtain rs t m where t: "srv_run ?st (SrvDo (SrvRegister 5 ''a'' 1094 (Some ''/d'') 10 3) # ?claims @ ?ops) (Some (brix_srv_shm_init_zone ?st None)) = (rs, Some t)"
    "srv_trace ?st 2 [(''a'', 1094) \<mapsto> ?e] (?claims @ ?ops) rs m"
    "\<And>h p. map_option ((!) t) (srv_find_locked (Some t) (Some h) p) = m (h, p)"
    using srv_history_refines [of "SrvDo (SrvRegister 5 ''a'' 1094 (Some ''/d'') 10 3) # ?claims @ ?ops" ?st]
    unfolding n srv_trace_do first by auto
  have due: "srv_due 6 ?e" "\<not> srv_due 7 (srv_claimed 6 100 ?e)" by (simp_all add: srv_due_def srv_claimed_def srv_entry_zero_def)
  have wait: "srv_sleep 7 100 [(''a'', 1094) \<mapsto> srv_claimed 6 100 ?e] w \<longleftrightarrow> w = 100" for w
    by (auto simp: srv_sleep_def srv_delays_def srv_claimed_def)
  have "\<exists>rs'. rs = Inl (''a'', 1094) # Inr 100 # rs' \<and> srv_trace ?st 2 [(''a'', 1094) \<mapsto> srv_claimed 6 100 ?e] ?ops rs' m"
    using t(2) due wait by (auto simp: srv_trace_claim split: if_splits)
  then have r: "rs = [Inl (''a'', 1094), Inr 100]" and m: "m = foldl (srv_spec ?st 2) [(''a'', 1094) \<mapsto> srv_claimed 6 100 ?e]
       [SrvPass 8 ''a'' 1094, SrvRegister 9 ''b'' 1094 None 20 4, SrvRegister 10 ''c'' 1094 None 30 5,
       SrvBlacklist 11 ''b'' 1094 100, SrvUnregister ''a'' 1094, SrvRegister 12 ''c'' 1094 (Some ''/e'') 40 6]"
    by (simp_all add: srv_trace_simps)
  have s: "m (''a'', 1094) = None" "map_option se_free_mb (m (''c'', 1094)) = Some 40"
    "map_option se_blacklisted_until (m (''b'', 1094)) = Some 111"
    unfolding m by (simp_all add: srv_spec_def brix_net_host_chars_valid_def char_between_def srv_claimed_def)
  have mo: "map_option (\<lambda>i. f (t ! i)) x = map_option f (map_option ((!) t) x)" for f and x :: "nat option" by (cases x) simp_all
  show ?thesis by (rule exI [of _ t], unfold mo t(3), intro conjI s) (use t(1) r in simp)
qed

theorem srv_drain_not_kept_witness:
  "\<exists>t. brix_srv_is_blacklisted 150 (Some ''a'') 1094 (brix_srv_blacklist 100 (Some ''a'') 1094 3600000 (Some t))
    \<and> \<not> brix_srv_is_blacklisted 100 (Some ''a'') 1094 (brix_srv_hc_pass 100 (Some ''a'') 1094
         (snd (brix_srv_hc_fail 100 (Some ''a'') 1094 3 60000 (brix_srv_blacklist 100 (Some ''a'') 1094 3600000 (Some t)))))"
proof -
  let ?e = "srv_entry_zero\<lparr>se_host := ''a'', se_port := 1094, se_in_use := True\<rparr>"
  have w: "srv_wf [?e, srv_entry_zero]"
    by (simp add: srv_wf_def srv.keys_distinct_def srv_entry_ok_def brix_net_host_chars_valid_def char_between_def srv_entry_zero_def
        less_Suc_eq)
  have m: "srv.slot_map [?e, srv_entry_zero] (''a'', 1094) = Some ?e" by (simp add: srv.slot_map_def srv_entry_zero_def)
  have z: "se_hc_fail_count ?e + 1 \<noteq> 0" by (simp add: srv_entry_zero_def)
  show ?thesis using srv_drain_not_kept [OF w m z, of 100 3600000 50 3 60000] by (intro exI [of _ "[?e, srv_entry_zero]"]) simp
qed

section \<open>Space reported to the parent\<close>

lemma aggregate_fold:
  "foldl (\<lambda>(f, u, n). \<lambda>e. if se_in_use e then (f + se_free_mb e, u + ucast (se_util_pct e), n + 1) else (f, u, n)) (f, u, n) t
     = (f + of_nat (\<Sum>e\<leftarrow>filter se_in_use t. unat (se_free_mb e)), u + of_nat (\<Sum>e\<leftarrow>filter se_in_use t. unat (se_util_pct e)),
        n + of_nat (length (filter se_in_use t)) :: u64)"
  by (induction t arbitrary: f u n) (simp_all add: add.assoc unsigned_ucast_eq)

lemma util_sum_bound: "(\<Sum>e\<leftarrow>es. unat (se_util_pct e)) \<le> length es * (2 ^ 32 - 1)"
proof (induction es)
  case (Cons e es)
  have "unat (se_util_pct e) \<le> 2 ^ 32 - 1" using unsigned_less [of "se_util_pct e", where ?'a = nat] by simp
  then show ?case using Cons by simp
qed simp

text \<open>
  The space a redirector reports for its cluster is the sum of the free space of its servers modulo
  \<open>2 ^ 32\<close> megabytes, so four pebibytes and more wrap to a small number; the utilisation is the exact rounded-down mean.
\<close>

theorem srv_aggregate_modulo:
  assumes "length t < 2 ^ 32"
  shows "unat (fst (brix_srv_aggregate_space (Some t))) = (\<Sum>e\<leftarrow>filter se_in_use t. unat (se_free_mb e)) mod 2 ^ 32
    \<and> unat (snd (brix_srv_aggregate_space (Some t)))
       = (\<Sum>e\<leftarrow>filter se_in_use t. unat (se_util_pct e)) div length (filter se_in_use t)"
proof -
  let ?us = "filter se_in_use t"
  let ?s = "\<Sum>e\<leftarrow>?us. unat (se_util_pct e)"
  have l: "length ?us < 2 ^ 32" using assms length_filter_le [of se_in_use t] by linarith
  have b: "?s \<le> length ?us * (2 ^ 32 - 1)" by (rule util_sum_bound)
  also have "length ?us * (2 ^ 32 - 1) < 2 ^ 64" using l mult_le_mono [of "length ?us" "2 ^ 32" "2 ^ 32 - 1" "2 ^ 32 - 1"] by simp
  finally have s: "unat (of_nat ?s :: u64) = ?s" by (simp add: unat_of_nat)
  have n: "unat (of_nat (length ?us) :: u64) = length ?us" using l by (simp add: unat_of_nat)
  have q: "?s div length ?us < 2 ^ 32"
  proof (cases "?us = []")
    case False
    then have "?s div length ?us \<le> 2 ^ 32 - 1" using b div_le_mono [OF b, of "length ?us"] by simp
    then show ?thesis by simp
  qed simp
  have z: "(of_nat (length ?us) :: u64) = 0 \<longleftrightarrow> ?us = []" using n by (metis length_0_conv of_nat_0 unat_eq_zero)
  have "unat (snd (brix_srv_aggregate_space (Some t))) = ?s div length ?us"
  proof (cases "?us = []")
    case True
    then show ?thesis unfolding brix_srv_aggregate_space_def by (simp add: aggregate_fold)
  next
    case False
    then have "unat (ucast (of_nat ?s div of_nat (length ?us) :: u64) :: u32) = ?s div length ?us"
      using q by (simp add: unsigned_ucast_eq take_bit_eq_mod unat_div s n)
    then show ?thesis using False z unfolding brix_srv_aggregate_space_def by (simp add: aggregate_fold word_neq_0_conv [symmetric])
  qed
  moreover have "unat (fst (brix_srv_aggregate_space (Some t))) = (\<Sum>e\<leftarrow>?us. unat (se_free_mb e)) mod 2 ^ 32"
    unfolding brix_srv_aggregate_space_def by (simp add: aggregate_fold unat_of_nat)
  ultimately show ?thesis by simp
qed

theorem srv_aggregate_modulo_witness:
  "unat (fst (brix_srv_aggregate_space (Some
      [srv_entry_zero\<lparr>se_in_use := True, se_free_mb := 0xC0000000, se_util_pct := 10\<rparr>,
       srv_entry_zero\<lparr>se_in_use := True, se_free_mb := 0x40000005, se_util_pct := 13\<rparr>, srv_entry_zero]))) = 5"
  using srv_aggregate_modulo [of "[srv_entry_zero\<lparr>se_in_use := True, se_free_mb := 0xC0000000, se_util_pct := 10\<rparr>,
       srv_entry_zero\<lparr>se_in_use := True, se_free_mb := 0x40000005, se_util_pct := 13\<rparr>, srv_entry_zero]"]
  by (simp add: srv_entry_zero_def)

end
