(* ===== verification/Loc_Cache.thy ===== *)
theory Loc_Cache
  imports Srv_Registry
begin

text \<open>
  The cache of file locations of a redirector, \<^verbatim>\<open>src/net/manager/loc_cache.c\<close>: an open-addressing table in
  shared memory whose entries expire, with negative entries for files that no node holds.  Every operation runs under the
  lock of the table; \<open>None\<close> is a table that is not attached.
\<close>

unbundle bit_operations_syntax

section \<open>State and operations\<close>

record brix_loc_entry_t =
  le_path_hash :: u32
  le_path :: string
  le_host :: string
  le_port :: u16
  le_expires :: u64
  le_in_use :: bool

type_synonym brix_loc_table_t = "brix_loc_entry_t list"

abbreviation (input) BRIX_LOC_CACHE_SLOTS :: nat where "BRIX_LOC_CACHE_SLOTS \<equiv> 256"
abbreviation (input) BRIX_LOC_CACHE_PATH_MAX :: nat where "BRIX_LOC_CACHE_PATH_MAX \<equiv> 1024"

record loc_cache_state =
  lc_ttl_ms :: u64
  lc_emptylife_ms :: u64

definition loc_cache_state_initial :: loc_cache_state where
  "loc_cache_state_initial = \<lparr>lc_ttl_ms = 30000, lc_emptylife_ms = 0\<rparr>"

definition brix_loc_cache_set_ttl :: "u64 \<Rightarrow> loc_cache_state \<Rightarrow> loc_cache_state" where
  "brix_loc_cache_set_ttl ttl_ms st = (if ttl_ms > 0 then st\<lparr>lc_ttl_ms := ttl_ms\<rparr> else st)"

definition brix_loc_cache_set_emptylife :: "u64 \<Rightarrow> loc_cache_state \<Rightarrow> loc_cache_state" where
  "brix_loc_cache_set_emptylife emptylife_ms st = st\<lparr>lc_emptylife_ms := emptylife_ms\<rparr>"

definition brix_shm_slot_expired :: "u64 \<Rightarrow> u64 \<Rightarrow> bool" where
  "brix_shm_slot_expired now expires \<longleftrightarrow> expires \<le> now"

definition loc_hash :: "string \<Rightarrow> u32" where
  "loc_hash path = foldl (\<lambda>h c. (h XOR of_char c) * 0x01000193) 0x811c9dc5 path"

definition loc_entry_zero :: brix_loc_entry_t where
  "loc_entry_zero = \<lparr>le_path_hash = 0, le_path = [], le_host = [], le_port = 0, le_expires = 0, le_in_use = False\<rparr>"

definition loc_cache_shm_init_zone :: "brix_loc_table_t option \<Rightarrow> brix_loc_table_t" where
  "loc_cache_shm_init_zone data = (case data of None \<Rightarrow> replicate BRIX_LOC_CACHE_SLOTS loc_entry_zero | Some t \<Rightarrow> t)"

definition loc_idx :: "u32 \<Rightarrow> nat \<Rightarrow> nat" where
  "loc_idx h i = unat ((ucast h + of_nat i :: u64) AND 255)"

datatype loc_answer = LocMiss | LocHit string u16 | LocNeg

fun loc_lookup_loop :: "brix_loc_table_t \<Rightarrow> u64 \<Rightarrow> u32 \<Rightarrow> string \<Rightarrow> nat \<Rightarrow> nat list \<Rightarrow> loc_answer" where
  "loc_lookup_loop t now h path host_sz [] = LocMiss"
| "loc_lookup_loop t now h path host_sz (i # is) =
     (let e = t ! loc_idx h i
      in if \<not> le_in_use e then LocMiss
         else if brix_shm_slot_expired now (le_expires e) then loc_lookup_loop t now h path host_sz is
         else if le_path_hash e = h \<and> le_path e = path
         then if le_host e = [] then LocNeg else LocHit (cpystrn host_sz (le_host e)) (le_port e)
         else loc_lookup_loop t now h path host_sz is)"

definition brix_loc_cache_lookup2 :: "u64 \<Rightarrow> string option \<Rightarrow> nat \<Rightarrow> brix_loc_table_t option \<Rightarrow> loc_answer" where
  "brix_loc_cache_lookup2 now path host_sz tbl = (case (tbl, path) of
       (Some t, Some p) \<Rightarrow> if p = [] \<or> length p \<ge> BRIX_LOC_CACHE_PATH_MAX then LocMiss
                           else loc_lookup_loop t now (loc_hash p) p host_sz [0..<BRIX_LOC_CACHE_SLOTS]
     | _ \<Rightarrow> LocMiss)"

definition brix_loc_cache_lookup :: "u64 \<Rightarrow> string option \<Rightarrow> nat \<Rightarrow> brix_loc_table_t option \<Rightarrow> (string \<times> u16) option" where
  "brix_loc_cache_lookup now path host_sz tbl = (case brix_loc_cache_lookup2 now path host_sz tbl of
       LocHit h p \<Rightarrow> Some (h, p) | _ \<Rightarrow> None)"

fun loc_claim_loop :: "brix_loc_table_t \<Rightarrow> u64 \<Rightarrow> u32 \<Rightarrow> string \<Rightarrow> nat list \<Rightarrow> nat option" where
  "loc_claim_loop t now h path [] = None"
| "loc_claim_loop t now h path (i # is) =
     (let e = t ! loc_idx h i
      in if le_in_use e \<and> \<not> brix_shm_slot_expired now (le_expires e) \<and> (le_path_hash e \<noteq> h \<or> le_path e \<noteq> path)
         then loc_claim_loop t now h path is
         else Some (loc_idx h i))"

definition loc_insert_core ::
    "u64 \<Rightarrow> string option \<Rightarrow> string option \<Rightarrow> u16 \<Rightarrow> u64 \<Rightarrow> brix_loc_table_t option \<Rightarrow> brix_loc_table_t option" where
  "loc_insert_core now path host port ttl_ms tbl = (case (tbl, path, host) of
       (Some t, Some p, Some hst) \<Rightarrow>
         if length p \<ge> BRIX_LOC_CACHE_PATH_MAX \<or> length hst \<ge> 256 then Some t
         else let h = loc_hash p;
                  victim = (case loc_claim_loop t now h p [0..<BRIX_LOC_CACHE_SLOTS] of Some v \<Rightarrow> v | None \<Rightarrow> unat (h AND 255))
              in Some (t[victim := \<lparr>le_path_hash = h, le_path = cpystrn BRIX_LOC_CACHE_PATH_MAX p, le_host = cpystrn 256 hst,
                                    le_port = port, le_expires = now + ttl_ms, le_in_use = True\<rparr>])
     | _ \<Rightarrow> tbl)"

definition brix_loc_cache_insert ::
    "loc_cache_state \<Rightarrow> u64 \<Rightarrow> string option \<Rightarrow> string option \<Rightarrow> u16 \<Rightarrow> brix_loc_table_t option \<Rightarrow> brix_loc_table_t option" where
  "brix_loc_cache_insert st now path host port tbl =
     (if host = None \<or> host = Some [] then tbl else loc_insert_core now path host port (lc_ttl_ms st) tbl)"

definition brix_loc_cache_insert_negative ::
    "loc_cache_state \<Rightarrow> u64 \<Rightarrow> string option \<Rightarrow> brix_loc_table_t option \<Rightarrow> brix_loc_table_t option" where
  "brix_loc_cache_insert_negative st now path tbl =
     (if lc_emptylife_ms st = 0 then tbl else loc_insert_core now path (Some []) 0 (lc_emptylife_ms st) tbl)"

fun loc_expire_loop :: "brix_loc_table_t \<Rightarrow> u64 \<Rightarrow> u32 \<Rightarrow> string \<Rightarrow> nat list \<Rightarrow> brix_loc_table_t" where
  "loc_expire_loop t now h path [] = t"
| "loc_expire_loop t now h path (i # is) =
     (let e = t ! loc_idx h i
      in if \<not> le_in_use e then t
         else if le_path_hash e = h \<and> le_path e = path then t[loc_idx h i := e\<lparr>le_expires := now\<rparr>]
         else loc_expire_loop t now h path is)"

definition brix_loc_cache_invalidate :: "u64 \<Rightarrow> string option \<Rightarrow> brix_loc_table_t option \<Rightarrow> brix_loc_table_t option" where
  "brix_loc_cache_invalidate now path tbl = (case (tbl, path) of
       (Some t, Some p) \<Rightarrow> if p = [] \<or> length p \<ge> BRIX_LOC_CACHE_PATH_MAX then Some t
                           else Some (loc_expire_loop t now (loc_hash p) p [0..<BRIX_LOC_CACHE_SLOTS])
     | _ \<Rightarrow> tbl)"

text \<open>What can happen to the table.\<close>

datatype loc_event = LocHave u64 string string u16 | LocAbsent u64 string | LocRefresh u64 string

fun loc_time :: "loc_event \<Rightarrow> u64" where
  "loc_time (LocHave now p h port) = now"
| "loc_time (LocAbsent now p) = now"
| "loc_time (LocRefresh now p) = now"

fun loc_do :: "loc_cache_state \<Rightarrow> loc_event \<Rightarrow> brix_loc_table_t option \<Rightarrow> brix_loc_table_t option" where
  "loc_do st (LocHave now p h port) = brix_loc_cache_insert st now (Some p) (Some h) port"
| "loc_do st (LocAbsent now p) = brix_loc_cache_insert_negative st now (Some p)"
| "loc_do st (LocRefresh now p) = brix_loc_cache_invalidate now (Some p)"

section \<open>Answers come from the nodes\<close>

lemma loc_idx_less: "loc_idx h i < 256"
proof -
  have "(ucast h + of_nat i :: u64) AND 255 \<le> 255" by (rule word_and_le1)
  then show ?thesis by (simp add: loc_idx_def word_le_nat_alt)
qed

lemma loc_idx_mod: "i < 256 \<Longrightarrow> loc_idx h i = (unat h + i) mod 256"
proof -
  assume i: "i < 256"
  have h: "unat (ucast h :: u64) = unat h" and hl: "unat h < 2 ^ 32"
    using unsigned_less [of h, where ?'a = nat] by (simp_all add: unsigned_ucast_eq take_bit_nat_eq_self)
  have u: "unat (ucast h + of_nat i :: u64) = unat h + i"
    using h hl i by (simp add: unat_word_ariths unat_of_nat)
  have "(ucast h + of_nat i :: u64) AND 255 = take_bit 8 (ucast h + of_nat i)" unfolding take_bit_eq_mask by (simp add: mask_eq_exp_minus_1)
  then have "unat ((ucast h + of_nat i :: u64) AND 255) = take_bit 8 (unat (ucast h + of_nat i :: u64))" by (simp only: unsigned_take_bit_eq)
  then show ?thesis unfolding loc_idx_def u by (simp add: take_bit_eq_mod)
qed

lemma victim_less: "(case loc_claim_loop t now h p is of Some v \<Rightarrow> v | None \<Rightarrow> unat (h AND 255)) < 256"
proof -
  have "unat (h AND 255) \<le> unat (255 :: u32)" using word_and_le1 [of h 255] by (simp only: word_le_nat_alt)
  moreover have "loc_claim_loop t now h p is = Some v \<Longrightarrow> v < 256" for v
    by (induction "is") (auto simp: Let_def loc_idx_less split: if_splits)
  ultimately show ?thesis by (auto split: option.split)
qed

text \<open>Who said what an entry says, as far as it can still be served at \<open>T\<close>.\<close>

definition loc_entry_said :: "loc_cache_state \<Rightarrow> u64 \<Rightarrow> loc_event list \<Rightarrow> brix_loc_entry_t \<Rightarrow> bool" where
  "loc_entry_said st T evs e \<longleftrightarrow> le_in_use e \<longrightarrow> length (le_host e) < 256 \<and> (le_expires e \<le> T
     \<or> (if le_host e = [] then \<exists>s. LocAbsent s (le_path e) \<in> set evs \<and> unat (le_expires e) = unat s + unat (lc_emptylife_ms st)
        else \<exists>s. LocHave s (le_path e) (le_host e) (le_port e) \<in> set evs \<and> unat (le_expires e) = unat s + unat (lc_ttl_ms st)))"

lemma said_more: "loc_entry_said st T evs e \<Longrightarrow> loc_entry_said st T (evs @ [ev]) e"
  unfolding loc_entry_said_def by (auto split: if_splits)

lemma set_updated: "\<lbrakk>\<forall>e\<in>set t. P e; P x\<rbrakk> \<Longrightarrow> \<forall>e\<in>set (t[i := x]). P e"
  using set_update_subset_insert [of t i x] by blast

lemma expire_said:
  assumes "\<forall>e\<in>set t. loc_entry_said st T evs e" "length t = 256" "now \<le> T"
  shows "(\<forall>e\<in>set (loc_expire_loop t now h p is). loc_entry_said st T evs e) \<and> length (loc_expire_loop t now h p is) = 256"
proof (induction "is")
  case (Cons i "is")
  have "t ! loc_idx h i \<in> set t" using assms(2) loc_idx_less [of h i] by simp
  then have "loc_entry_said st T evs (t ! loc_idx h i)" using assms(1) by blast
  then have "loc_entry_said st T evs ((t ! loc_idx h i)\<lparr>le_expires := now\<rparr>)" using assms(3) by (simp add: loc_entry_said_def)
  then show ?case using Cons assms(1,2) set_updated [OF assms(1)] by (simp add: Let_def)
qed (use assms in simp)

lemma insert_said:
  assumes "\<forall>e\<in>set t. loc_entry_said st T evs e" "length t = 256"
    and "length p < 1024 \<and> length hst < 256 \<longrightarrow> loc_entry_said st T evs
      \<lparr>le_path_hash = loc_hash p, le_path = p, le_host = hst, le_port = port, le_expires = now + ttl, le_in_use = True\<rparr>"
  shows "\<exists>t'. loc_insert_core now (Some p) (Some hst) port ttl (Some t) = Some t' \<and> (\<forall>e\<in>set t'. loc_entry_said st T evs e) \<and> length t' = 256"
proof (cases "length p < 1024 \<and> length hst < 256")
  case True
  then have "cpystrn 1024 p = p" "cpystrn 256 hst = hst" by (simp_all add: cpystrn_def)
  then show ?thesis using True assms set_updated [OF assms(1)] by (auto simp: loc_insert_core_def Let_def)
next
  case False
  then show ?thesis using assms by (auto simp: loc_insert_core_def)
qed

lemma step_said:
  assumes t: "\<forall>e\<in>set t. loc_entry_said st T evs e" "length t = 256" and ev: "loc_time ev \<le> T"
    and b: "unat T + unat (lc_ttl_ms st) < 2 ^ 64" "unat T + unat (lc_emptylife_ms st) < 2 ^ 64"
  shows "\<exists>t'. loc_do st ev (Some t) = Some t' \<and> (\<forall>e\<in>set t'. loc_entry_said st T (evs @ [ev]) e) \<and> length t' = 256"
proof -
  have t': "\<forall>e\<in>set t. loc_entry_said st T (evs @ [ev]) e" using t(1) said_more by blast
  have tm: "unat (loc_time ev) \<le> unat T" using ev by (simp add: word_le_nat_alt)
  show ?thesis
  proof (cases ev)
    case (LocHave now p h port)
    have "unat (now + lc_ttl_ms st) = unat now + unat (lc_ttl_ms st)" using tm b(1) LocHave by (simp add: unat_word_ariths)
    then have "h \<noteq> [] \<Longrightarrow> length p < 1024 \<and> length h < 256 \<longrightarrow> loc_entry_said st T (evs @ [ev])
      \<lparr>le_path_hash = loc_hash p, le_path = p, le_host = h, le_port = port, le_expires = now + lc_ttl_ms st, le_in_use = True\<rparr>"
      using LocHave by (auto simp: loc_entry_said_def)
    then show ?thesis using LocHave insert_said [OF t' t(2), of p h port now "lc_ttl_ms st"] t' t(2)
      by (cases "h = []") (auto simp: brix_loc_cache_insert_def)
  next
    case (LocAbsent now p)
    have "unat (now + lc_emptylife_ms st) = unat now + unat (lc_emptylife_ms st)" using tm b(2) LocAbsent by (simp add: unat_word_ariths)
    then have "length p < 1024 \<and> length ([] :: string) < 256 \<longrightarrow> loc_entry_said st T (evs @ [ev])
      \<lparr>le_path_hash = loc_hash p, le_path = p, le_host = [], le_port = 0, le_expires = now + lc_emptylife_ms st, le_in_use = True\<rparr>"
      using LocAbsent by (auto simp: loc_entry_said_def)
    then show ?thesis using LocAbsent insert_said [OF t' t(2), of p "[]" 0 now "lc_emptylife_ms st"] t' t(2)
      by (cases "lc_emptylife_ms st = 0") (auto simp: brix_loc_cache_insert_negative_def)
  next
    case (LocRefresh now p)
    then show ?thesis using expire_said [OF t' t(2)] ev t' t(2) by (simp add: brix_loc_cache_invalidate_def)
  qed
qed

lemma history_said:
  assumes "\<forall>ev\<in>set evs. loc_time ev \<le> T" "unat T + unat (lc_ttl_ms st) < 2 ^ 64" "unat T + unat (lc_emptylife_ms st) < 2 ^ 64"
  shows "\<exists>t. fold (loc_do st) evs (Some (loc_cache_shm_init_zone None)) = Some t \<and> (\<forall>e\<in>set t. loc_entry_said st T evs e) \<and> length t = 256"
  using assms
proof (induction evs rule: rev_induct)
  case Nil
  then show ?case by (simp add: loc_cache_shm_init_zone_def loc_entry_said_def loc_entry_zero_def)
next
  case (snoc ev evs)
  then obtain t where t: "fold (loc_do st) evs (Some (loc_cache_shm_init_zone None)) = Some t" "\<forall>e\<in>set t. loc_entry_said st T evs e" "length t = 256"
    by auto
  show ?case using step_said [OF t(2,3), of ev] snoc.prems t(1) by simp
qed

lemma lookup_loop_entry:
  assumes "length t = 256"
  shows "(loc_lookup_loop t now h p n is = LocHit hst port \<longrightarrow>
      (\<exists>e\<in>set t. le_in_use e \<and> \<not> le_expires e \<le> now \<and> le_path e = p \<and> le_host e \<noteq> [] \<and> hst = cpystrn n (le_host e) \<and> port = le_port e))
    \<and> (loc_lookup_loop t now h p n is = LocNeg \<longrightarrow> (\<exists>e\<in>set t. le_in_use e \<and> \<not> le_expires e \<le> now \<and> le_path e = p \<and> le_host e = []))"
proof (induction "is")
  case (Cons i "is")
  have "t ! loc_idx h i \<in> set t" using assms loc_idx_less [of h i] by simp
  then show ?case using Cons by (auto simp: Let_def brix_shm_slot_expired_def)
qed simp

text \<open>
  The location cache invents nothing.  Whatever nodes, timeouts and refreshes put into it from its creation on, a
  redirect to a host was announced by that host for that very path and is younger than the time to live, and an answer that no
  node holds the file comes from a probe of the cluster for that path that is younger than the life of
  negative entries.
\<close>

theorem loc_answers_said:
  assumes "\<forall>ev\<in>set evs. loc_time ev \<le> T" "unat T + unat (lc_ttl_ms st) < 2 ^ 64" "unat T + unat (lc_emptylife_ms st) < 2 ^ 64"
  shows "case brix_loc_cache_lookup2 T (Some p) 256 (fold (loc_do st) evs (Some (loc_cache_shm_init_zone None))) of
      LocMiss \<Rightarrow> True
    | LocHit h port \<Rightarrow> (\<exists>s. LocHave s p h port \<in> set evs \<and> unat T < unat s + unat (lc_ttl_ms st))
    | LocNeg \<Rightarrow> (\<exists>s. LocAbsent s p \<in> set evs \<and> unat T < unat s + unat (lc_emptylife_ms st))"
proof -
  obtain t where t: "fold (loc_do st) evs (Some (loc_cache_shm_init_zone None)) = Some t" "\<forall>e\<in>set t. loc_entry_said st T evs e" "length t = 256"
    using history_said [OF assms] by blast
  have said: "if le_host e = [] then \<exists>s. LocAbsent s (le_path e) \<in> set evs \<and> unat T < unat s + unat (lc_emptylife_ms st)
      else cpystrn 256 (le_host e) = le_host e \<and> (\<exists>s. LocHave s (le_path e) (le_host e) (le_port e) \<in> set evs \<and> unat T < unat s + unat (lc_ttl_ms st))"
    if "e \<in> set t" "le_in_use e" "\<not> le_expires e \<le> T" for e
  proof -
    have "loc_entry_said st T evs e" using t(2) that(1) by blast
    moreover have "unat T < unat (le_expires e)" using that(3) by (simp add: word_le_nat_alt)
    ultimately show ?thesis using that(2,3) unfolding loc_entry_said_def by (auto simp: cpystrn_def) blast+
  qed
  note e = lookup_loop_entry [OF t(3), of T "loc_hash p" p 256]
  show ?thesis
    unfolding t(1)
    by (auto simp: brix_loc_cache_lookup2_def split: loc_answer.split dest!: mp [OF conjunct1 [OF e]] mp [OF conjunct2 [OF e]] said)
qed

theorem loc_answers_said_witness:
  "case brix_loc_cache_lookup2 40 (Some ''/f'') 256 (fold (loc_do loc_cache_state_initial)
       [LocHave 5 ''/f'' ''a'' 1094, LocRefresh 7 ''/f'', LocHave 9 ''/f'' ''b'' 1094] (Some (loc_cache_shm_init_zone None))) of
     LocMiss \<Rightarrow> True
   | LocHit h port \<Rightarrow> (h = ''a'' \<or> h = ''b'') \<and> port = 1094
   | LocNeg \<Rightarrow> False"
  using loc_answers_said [of "[LocHave 5 ''/f'' ''a'' 1094, LocRefresh 7 ''/f'', LocHave 9 ''/f'' ''b'' 1094]" 40 loc_cache_state_initial "''/f''"]
  by (auto simp: loc_cache_state_initial_def split: loc_answer.splits)

section \<open>The freshest announcement and refreshes\<close>

lemma claim_then_lookup:
  assumes "loc_claim_loop t now h p is = Some v" "length t = 256" "now \<le> T" "distinct (map (loc_idx h) is)"
    and e: "le_in_use e" "\<not> le_expires e \<le> T" "le_path_hash e = h" "le_path e = p" "le_host e \<noteq> []"
  shows "loc_lookup_loop (t[v := e]) T h p n is = LocHit (cpystrn n (le_host e)) (le_port e)"
  using assms(1,4)
proof (induction "is")
  case (Cons i "is")
  let ?o = "t ! loc_idx h i"
  show ?case
  proof (cases "le_in_use ?o \<and> \<not> brix_shm_slot_expired now (le_expires ?o) \<and> (le_path_hash ?o \<noteq> h \<or> le_path ?o \<noteq> p)")
    case True
    then have c: "loc_claim_loop t now h p is = Some v" using Cons.prems(1) by (simp add: Let_def)
    have "v \<in> loc_idx h ` set is" using c by (induction "is") (auto simp: Let_def split: if_splits)
    moreover have "loc_idx h i \<notin> loc_idx h ` set is" using Cons.prems(2) by simp
    ultimately have "v \<noteq> loc_idx h i" by metis
    then show ?thesis using True Cons.IH [OF c] Cons.prems(2) by (auto simp: Let_def)
  next
    case False
    then have "v = loc_idx h i" using Cons.prems(1) by (auto simp: Let_def split: if_splits)
    then show ?thesis using e assms(2) loc_idx_less [of h i] by (simp add: Let_def brix_shm_slot_expired_def)
  qed
qed simp

lemma mod_shift_inj:
  fixes x i j n :: nat
  assumes "(x + i) mod n = (x + j) mod n" "i < n" "j \<le> i"
  shows "i = j"
proof -
  have "n dvd (x + i) - (x + j)" using assms mod_eq_dvd_iff_nat [of "x + j" "x + i" n] by simp
  then have "n dvd i - j" by simp
  then show ?thesis using assms(2,3) dvd_imp_le [of n "i - j"] by fastforce
qed

lemma probe_inj: "\<lbrakk>i < 256; j < 256; loc_idx h i = loc_idx h j\<rbrakk> \<Longrightarrow> i = j"
  using mod_shift_inj [of "unat h" i 256 j] mod_shift_inj [of "unat h" j 256 i] by (cases "j \<le> i") (simp_all add: loc_idx_mod)

lemma probe_distinct: "distinct (map (loc_idx h) [0..<256])"
  unfolding distinct_map inj_on_def using probe_inj by simp

lemma loc_idx_0: "loc_idx h 0 = unat (h AND 255)"
proof -
  have "unat (h AND 255) = unat h mod 256"
  proof -
    have "h AND 255 = take_bit 8 h" unfolding take_bit_eq_mask by (simp add: mask_eq_exp_minus_1)
    then have "unat (h AND 255) = take_bit 8 (unat h)" by (simp only: unsigned_take_bit_eq)
    then show ?thesis by (simp add: take_bit_eq_mod)
  qed
  then show ?thesis using loc_idx_mod [of 0 h] by simp
qed

text \<open>The last announcement is served, however full the table is, until it expires.\<close>

theorem loc_insert_served:
  assumes t: "length t = 256" and p: "p \<noteq> []" "length p < 1024" and h: "hst \<noteq> []" "length hst < 256"
    and T: "now \<le> T" "unat T < unat now + unat (lc_ttl_ms st)" "unat now + unat (lc_ttl_ms st) < 2 ^ 64"
  shows "brix_loc_cache_lookup T (Some p) 256 (brix_loc_cache_insert st now (Some p) (Some hst) port (Some t)) = Some (hst, port)"
proof -
  let ?h = "loc_hash p"
  let ?e = "\<lparr>le_path_hash = ?h, le_path = p, le_host = hst, le_port = port, le_expires = now + lc_ttl_ms st, le_in_use = True\<rparr>"
  have c: "cpystrn 1024 p = p" "cpystrn 256 hst = hst" using p h by (simp_all add: cpystrn_def)
  have x: "\<not> now + lc_ttl_ms st \<le> T" using T(2,3) by (simp add: word_le_nat_alt unat_word_ariths)
  have "loc_lookup_loop (t[v := ?e]) T ?h p 256 [0..<256] = LocHit hst port"
    if v: "v = (case loc_claim_loop t now ?h p [0..<256] of Some v \<Rightarrow> v | None \<Rightarrow> unat (?h AND 255))" for v
  proof (cases "loc_claim_loop t now ?h p [0..<256]")
    case (Some w)
    then show ?thesis using claim_then_lookup [OF Some t T(1) probe_distinct, of ?e 256] v x h(1) c by simp
  next
    case None
    then have "v = loc_idx ?h 0" using v by (simp add: loc_idx_0)
    then show ?thesis using t loc_idx_less [of ?h 0] x h(1) c by (subst upt_conv_Cons) (simp_all add: Let_def brix_shm_slot_expired_def)
  qed
  then show ?thesis using p h c
    by (simp add: brix_loc_cache_lookup_def brix_loc_cache_lookup2_def brix_loc_cache_insert_def loc_insert_core_def Let_def)
qed

text \<open>
  A refresh does not reach a second entry of its path.  Two paths whose probes start at one slot: the file \<open>q\<close>
  was announced first, then \<open>p\<close> at node \<open>h1\<close>, then, when \<open>q\<close> has expired, \<open>p\<close> at node \<open>h2\<close>; the
  expired slot is claimed although \<open>p\<close> has a live one behind it.  A refresh of \<open>p\<close> then drops the newer entry only,
  and the next lookup redirects to \<open>h1\<close>, the node that the newer announcement had replaced.
\<close>

lemma probe_start:
  obtains R where "[0..<256 :: nat] = 0 # Suc 0 # R"
  using that upt_conv_Cons [of 0 256] upt_conv_Cons [of "Suc 0" 256] by simp

lemma claim_first: "\<not> le_in_use (t ! loc_idx h i) \<or> brix_shm_slot_expired now (le_expires (t ! loc_idx h i))
    \<Longrightarrow> loc_claim_loop t now h p (i # is) = Some (loc_idx h i)"
  by (auto simp: Let_def)

lemma claim_next: "\<lbrakk>le_in_use (t ! loc_idx h i); \<not> brix_shm_slot_expired now (le_expires (t ! loc_idx h i)); le_path (t ! loc_idx h i) \<noteq> p\<rbrakk>
    \<Longrightarrow> loc_claim_loop t now h p (i # is) = loc_claim_loop t now h p is"
  by (simp add: Let_def)

lemma have_at:
  assumes "length p < 1024" "hst \<noteq> []" "length hst < 256" "loc_claim_loop t now (loc_hash p) p [0..<256] = Some v"
  shows "loc_do st (LocHave now p hst port) (Some t) = Some (t[v := \<lparr>le_path_hash = loc_hash p, le_path = p, le_host = hst, le_port = port,
      le_expires = now + lc_ttl_ms st, le_in_use = True\<rparr>])"
proof -
  have "cpystrn 1024 p = p" "cpystrn 256 hst = hst" using assms by (simp_all add: cpystrn_def)
  then show ?thesis using assms(1-3) unfolding loc_do.simps brix_loc_cache_insert_def loc_insert_core_def Let_def
    by (simp only: option.case assms(4) not_le [symmetric] if_False simp_thms option.distinct option.inject prod.case)
qed

theorem loc_refresh_resurrects:
  assumes paths: "p \<noteq> q" "p \<noteq> []" "length p < 1024" "length q < 1024" "loc_idx (loc_hash p) 0 = loc_idx (loc_hash q) 0"
    and hosts: "h0 \<noteq> []" "h1 \<noteq> []" "h2 \<noteq> []" "length h0 < 256" "length h1 < 256" "length h2 < 256"
    and times: "\<not> t0 + lc_ttl_ms st \<le> t1" "t0 + lc_ttl_ms st \<le> t2" "\<not> t1 + lc_ttl_ms st \<le> t2"
  shows "brix_loc_cache_lookup t2 (Some p) 256 (fold (loc_do st)
      [LocHave t0 q h0 k0, LocHave t1 p h1 k1, LocHave t2 p h2 k2, LocRefresh t2 p] (Some (loc_cache_shm_init_zone None))) = Some (h1, k1)"
proof -
  obtain R where u: "[0..<256 :: nat] = 0 # Suc 0 # R" by (rule probe_start)
  define a where "a = loc_idx (loc_hash p) 0"
  define b where "b = loc_idx (loc_hash p) (Suc 0)"
  have qa: "loc_idx (loc_hash q) 0 = a" using paths(5) by (simp add: a_def)
  have ab: "a \<noteq> b" "a < 256" "b < 256"
    using probe_distinct [of "loc_hash p"] loc_idx_less unfolding u a_def b_def by simp_all
  define eq where "eq = \<lparr>le_path_hash = loc_hash q, le_path = q, le_host = h0, le_port = k0, le_expires = t0 + lc_ttl_ms st, le_in_use = True\<rparr>"
  define e1 where "e1 = \<lparr>le_path_hash = loc_hash p, le_path = p, le_host = h1, le_port = k1, le_expires = t1 + lc_ttl_ms st, le_in_use = True\<rparr>"
  define e2 where "e2 = \<lparr>le_path_hash = loc_hash p, le_path = p, le_host = h2, le_port = k2, le_expires = t2 + lc_ttl_ms st, le_in_use = True\<rparr>"
  define z where "z = loc_cache_shm_init_zone None"
  have z: "length z = 256" "k < 256 \<Longrightarrow> \<not> le_in_use (z ! k)" for k
    by (simp_all only: z_def loc_cache_shm_init_zone_def option.case length_replicate nth_replicate) (simp_all add: loc_entry_zero_def)
  have s0: "loc_do st (LocHave t0 q h0 k0) (Some z) = Some (z[a := eq])"
    unfolding eq_def by (rule have_at [OF paths(4) hosts(1,4)]) (unfold u qa [symmetric], rule claim_first, use z(2) ab(2) qa in simp)
  have x: "z[a := eq] ! loc_idx (loc_hash p) 0 = eq" "z[a := eq] ! loc_idx (loc_hash p) (Suc 0) = z ! b"
    using z ab unfolding a_def [symmetric] b_def [symmetric] by simp_all
  have "loc_claim_loop (z[a := eq]) t1 (loc_hash p) p (0 # Suc 0 # R) = loc_claim_loop (z[a := eq]) t1 (loc_hash p) p (Suc 0 # R)"
    by (rule claim_next) (unfold x(1), use times paths in \<open>simp_all add: eq_def brix_shm_slot_expired_def\<close>)
  also have "\<dots> = Some b" unfolding b_def by (rule claim_first) (use x(2) z(2) ab in simp)
  finally have "loc_claim_loop (z[a := eq]) t1 (loc_hash p) p [0..<256] = Some b" unfolding u .
  then have s1: "loc_do st (LocHave t1 p h1 k1) (Some (z[a := eq])) = Some (z[a := eq, b := e1])"
    unfolding e1_def by (rule have_at [OF paths(3) hosts(2,5)])
  have "loc_claim_loop (z[a := eq, b := e1]) t2 (loc_hash p) p [0..<256] = Some a"
    unfolding u a_def by (rule claim_first, use z ab times in \<open>simp add: a_def [symmetric] eq_def brix_shm_slot_expired_def\<close>)
  then have s2: "loc_do st (LocHave t2 p h2 k2) (Some (z[a := eq, b := e1])) = Some (z[a := eq, b := e1, a := e2])"
    unfolding e2_def by (rule have_at [OF paths(3) hosts(3,6)])
  let ?t = "z[a := eq, b := e1, a := e2]"
  have at: "?t ! a = e2" "?t ! b = e1" "length ?t = 256" using z ab by simp_all
  have s3: "loc_do st (LocRefresh t2 p) (Some ?t) = Some (?t[a := e2\<lparr>le_expires := t2\<rparr>])"
    unfolding loc_do.simps brix_loc_cache_invalidate_def u using paths(2,3) at(1)
    by (simp add: Let_def a_def [symmetric] not_le e2_def)
  let ?u = "?t[a := e2\<lparr>le_expires := t2\<rparr>]"
  have at': "?u ! a = e2\<lparr>le_expires := t2\<rparr>" "?u ! b = e1" using at ab by simp_all
  have c: "cpystrn 256 h1 = h1" using hosts by (simp add: cpystrn_def)
  have "loc_lookup_loop ?u t2 (loc_hash p) p 256 (0 # Suc 0 # R) = LocHit h1 k1"
    unfolding loc_lookup_loop.simps a_def [symmetric] b_def [symmetric] at' Let_def
    using hosts times(3) c by (simp add: e1_def e2_def brix_shm_slot_expired_def)
  then have "brix_loc_cache_lookup2 t2 (Some p) 256 (Some ?u) = LocHit h1 k1"
    unfolding brix_loc_cache_lookup2_def u using paths(2,3) by (simp add: not_le)
  then show ?thesis unfolding z_def [symmetric] fold_simps s0 s1 s2 s3 brix_loc_cache_lookup_def by simp
qed

end
