(* ===== verification/Xmeta.thy ===== *)
theory Xmeta
  imports Crc32c
begin

text \<open>
  The per-file metadata record of the cache (\<^verbatim>\<open>src/fs/meta/xmeta.c\<close>, \<^verbatim>\<open>xmeta_encode.c\<close>, \<^verbatim>\<open>xmeta_decode.c\<close>):
  the record in memory with its block bitmap and digest list, its encoding (a stock cinfo prefix
  followed by checksummed sections) and its decoder.

  The C structs are records whose fields are words of their C width; signed fields are read with \<open>sint\<close>, casts
  between \<open>int64_t\<close> and \<open>uint64_t\<close> are the identity on words.  An owned buffer is an optional list
  (\<open>None\<close> is NULL).  \<open>malloc\<close> is a parameter that maps a size to the block it returns, with
  whatever that block holds, or to nothing; sizes (\<open>size_t\<close>) and cursors are naturals.
  The checksum of a buffer is \<open>brix_crc32c_sw_extend\<close>, which every path of \<open>brix_crc32c_value\<close> computes (theory \<open>Crc32c\<close>).
\<close>

section \<open>Return codes\<close>

datatype errno_t = EINVAL | EFBIG | ENOMEM | EBADMSG | E2BIG | ERANGE | ENOSPC | ENOTSUP | EACCES | EPERM | ENOENT
  | EINTR | EIO | ENAMETOOLONG | ENODATA | E_other nat

text \<open>\<open>BRIX_XMETA_ERR\<close> with its errno, and \<open>BRIX_XMETA_FOREIGN\<close>; \<open>BRIX_XMETA_OK\<close> is the right injection.\<close>

datatype xmeta_fail = XMETA_ERR errno_t | XMETA_FOREIGN

type_synonym malloc_t = "nat \<Rightarrow> bytes option"

text \<open>A heap that never refuses, and returns blocks of the size asked for.\<close>

definition malloc_ok :: "malloc_t \<Rightarrow> bool" where
  "malloc_ok malloc \<longleftrightarrow> (\<forall>n. \<exists>b. malloc n = Some b \<and> length b = n)"

section \<open>The structures\<close>

record brix_xmeta_stock_store_t =
  ss_buffer_size :: u64
  ss_file_size :: u64
  ss_creation_time :: u64
  ss_no_cksum_time :: u64
  ss_access_cnt :: u64
  ss_status_raw :: u32
  ss_astat_size :: u32

record brix_xmeta_astat_t =
  as_attach_time :: u64
  as_detach_time :: u64
  as_num_ios :: u32
  as_duration :: u32
  as_num_merged :: u32
  as_reserved :: u32
  as_bytes_hit :: u64
  as_bytes_missed :: u64
  as_bytes_bypassed :: u64

record xmeta_state_wire_t =
  sw_origin_mtime :: u64
  sw_dirty_lo :: u64
  sw_dirty_hi :: u64
  sw_flush_gen :: u64
  sw_dirty_since :: u64
  sw_last_flush :: u64
  sw_bytes_flushed :: u64
  sw_expires_at :: u64
  sw_filled_at :: u64
  sw_mode :: u32
  sw_state_flags :: u32

record brix_xmeta_t =
  xm_buffer_size :: u64
  xm_file_size :: u64
  xm_creation_time :: u64
  xm_no_cksum_time :: u64
  xm_access_cnt :: u64
  xm_status_raw :: u32
  xm_astat :: brix_xmeta_astat_t
  xm_astat_count :: u32
  xm_nblocks :: u64
  xm_bitmap :: "bytes option"
  xm_have_state :: bool
  xm_have_blockcrc :: bool
  xm_origin_mtime :: u64
  xm_dirty_lo :: u64
  xm_dirty_hi :: u64
  xm_flush_gen :: u64
  xm_dirty_since :: u64
  xm_last_flush :: u64
  xm_bytes_flushed :: u64
  xm_expires_at :: u64
  xm_filled_at :: u64
  xm_mode :: u32
  xm_state_flags :: u32
  xm_etag_len :: byte
  xm_etag :: bytes
  xm_cks_alg_len :: byte
  xm_cks_alg :: bytes
  xm_cks_len :: byte
  xm_cks_hex :: bytes
  xm_digests :: "bytes option"
  xm_digests_len :: u32
  xm_blockcrc :: "u32 list option"

abbreviation (input) BRIX_XMETA_STOCK_VERSION :: u32 where "BRIX_XMETA_STOCK_VERSION \<equiv> 4"
abbreviation (input) BRIX_XMETA_EXT_MAGIC :: u32 where "BRIX_XMETA_EXT_MAGIC \<equiv> 0x31584358"
abbreviation (input) BRIX_XMETA_EXT_VERSION :: u16 where "BRIX_XMETA_EXT_VERSION \<equiv> 1"
abbreviation (input) BRIX_XMETA_SEC_STATE :: u16 where "BRIX_XMETA_SEC_STATE \<equiv> 1"
abbreviation (input) BRIX_XMETA_SEC_DIGEST :: u16 where "BRIX_XMETA_SEC_DIGEST \<equiv> 2"
abbreviation (input) BRIX_XMETA_SEC_BLOCKCRC :: u16 where "BRIX_XMETA_SEC_BLOCKCRC \<equiv> 3"
abbreviation (input) BRIX_XMETA_SEC_ORIGIN :: u16 where "BRIX_XMETA_SEC_ORIGIN \<equiv> 4"
abbreviation (input) BRIX_XMETA_MAX_BLOCKS :: u64 where "BRIX_XMETA_MAX_BLOCKS \<equiv> 67108864"
abbreviation (input) BRIX_XMETA_MAX_SECTION :: nat where "BRIX_XMETA_MAX_SECTION \<equiv> 268435520"
abbreviation (input) XMETA_ORIGIN_FIXED :: nat where "XMETA_ORIGIN_FIXED \<equiv> 4"

abbreviation (input) xmeta_crc :: "bytes \<Rightarrow> u32" where "xmeta_crc \<equiv> brix_crc32c_sw_extend 0"

section \<open>Block geometry, life cycle and bitmap\<close>

definition xmeta_nblocks :: "u64 \<Rightarrow> u64 \<Rightarrow> u64" where
  "xmeta_nblocks file_size buffer_size =
     (if sint file_size \<le> 0 then 0 else (file_size + buffer_size - 1) div buffer_size)"

definition xmeta_bitmap_len :: "u64 \<Rightarrow> nat" where
  "xmeta_bitmap_len nblocks = unat ((nblocks + 7) div 8)"

text \<open>The record after \<open>memset(m, 0, sizeof *m)\<close>.\<close>

definition xmeta_astat_zero :: brix_xmeta_astat_t where
  "xmeta_astat_zero = \<lparr>as_attach_time = 0, as_detach_time = 0, as_num_ios = 0, as_duration = 0, as_num_merged = 0,
     as_reserved = 0, as_bytes_hit = 0, as_bytes_missed = 0, as_bytes_bypassed = 0\<rparr>"

definition xmeta_zero :: brix_xmeta_t where
  "xmeta_zero = \<lparr>xm_buffer_size = 0, xm_file_size = 0, xm_creation_time = 0, xm_no_cksum_time = 0, xm_access_cnt = 0,
     xm_status_raw = 0, xm_astat = xmeta_astat_zero, xm_astat_count = 0, xm_nblocks = 0, xm_bitmap = None,
     xm_have_state = False, xm_have_blockcrc = False, xm_origin_mtime = 0, xm_dirty_lo = 0, xm_dirty_hi = 0,
     xm_flush_gen = 0, xm_dirty_since = 0, xm_last_flush = 0, xm_bytes_flushed = 0, xm_expires_at = 0, xm_filled_at = 0,
     xm_mode = 0, xm_state_flags = 0, xm_etag_len = 0, xm_etag = replicate 128 0, xm_cks_alg_len = 0,
     xm_cks_alg = replicate 16 0, xm_cks_len = 0, xm_cks_hex = replicate 129 0, xm_digests = None, xm_digests_len = 0,
     xm_blockcrc = None\<rparr>"

text \<open>
  \<open>calloc\<close> fails when \<open>malloc\<close> does; \<open>now\<close> is \<open>time(NULL)\<close>.  A table of no blocks is allocated one unit long and
  never addressed; its list is empty.
\<close>

definition brix_xmeta_init :: "malloc_t \<Rightarrow> u64 \<Rightarrow> u64 \<Rightarrow> u64 \<Rightarrow> xmeta_fail + brix_xmeta_t" where
  "brix_xmeta_init malloc now file_size buffer_size =
     (if sint buffer_size \<le> 0 \<or> sint file_size < 0 then Inl (XMETA_ERR EINVAL)
      else let nb = xmeta_nblocks file_size buffer_size
           in if nb > BRIX_XMETA_MAX_BLOCKS then Inl (XMETA_ERR EFBIG)
              else let blen = xmeta_bitmap_len nb; clen = unat nb
                   in if malloc (if blen \<noteq> 0 then blen else 1) = None \<or> malloc ((if clen \<noteq> 0 then clen else 1) * 4) = None
                      then Inl (XMETA_ERR ENOMEM)
                      else Inr (xmeta_zero\<lparr>xm_buffer_size := buffer_size, xm_file_size := file_size,
                             xm_creation_time := now, xm_nblocks := nb, xm_have_state := True,
                             xm_bitmap := Some (replicate blen 0), xm_blockcrc := Some (replicate clen 0),
                             xm_have_blockcrc := True\<rparr>))"

definition brix_xmeta_block_set :: "u64 \<Rightarrow> brix_xmeta_t \<Rightarrow> brix_xmeta_t" where
  "brix_xmeta_block_set i m =
     (case xm_bitmap m of
        None \<Rightarrow> m
      | Some bm \<Rightarrow>
          if i < xm_nblocks m
          then m\<lparr>xm_bitmap := Some (bm[unat (i div 8) := (bm ! unat (i div 8)) OR push_bit (unat (i mod 8)) 1])\<rparr>
          else m)"

definition brix_xmeta_block_test :: "brix_xmeta_t \<Rightarrow> u64 \<Rightarrow> bool" where
  "brix_xmeta_block_test m i =
     (case xm_bitmap m of
        None \<Rightarrow> False
      | Some bm \<Rightarrow> i < xm_nblocks m \<and> (bm ! unat (i div 8)) AND push_bit (unat (i mod 8)) 1 \<noteq> 0)"

lemma unat_inc_less: "i < n \<Longrightarrow> unat (i + 1) = Suc (unat (i :: 'a::len word))"
proof -
  assume "i < n"
  then have "i \<noteq> - 1" by auto
  then have "1 + i \<noteq> 0" by (metis add.commute eq_neg_iff_add_eq_0)
  then show ?thesis by (simp add: unatSuc add.commute)
qed

function xmeta_complete_loop :: "brix_xmeta_t \<Rightarrow> u64 \<Rightarrow> bool" where
  "xmeta_complete_loop m i =
     (if i < xm_nblocks m then (if \<not> brix_xmeta_block_test m i then False else xmeta_complete_loop m (i + 1)) else True)"
  by pat_completeness auto
termination
  by (relation "measure (\<lambda>(m, i). unat (xm_nblocks m) - unat i)")
    (auto simp: unat_inc_less word_less_nat_alt)

definition brix_xmeta_complete :: "brix_xmeta_t \<Rightarrow> bool" where
  "brix_xmeta_complete m = xmeta_complete_loop m 0"

section \<open>The digest list\<close>

text \<open>
  A flat sequence of entries {u16 alg, u16 len, u8[len]}.  The old block survives a refused \<open>realloc\<close>;
  \<open>digests_len\<close> is a 32-bit counter.
\<close>

definition brix_xmeta_digest_add ::
    "malloc_t \<Rightarrow> brix_xmeta_t \<Rightarrow> u16 \<Rightarrow> bytes option \<Rightarrow> u16 \<Rightarrow> xmeta_fail + brix_xmeta_t" where
  "brix_xmeta_digest_add malloc m alg val len =
     (let need = 4 + unat len
      in if val = None \<and> len \<noteq> 0 then Inl (XMETA_ERR EINVAL)
         else if malloc (unat (xm_digests_len m) + need) = None then Inl (XMETA_ERR ENOMEM)
         else let old = take (unat (xm_digests_len m)) (case xm_digests m of None \<Rightarrow> [] | Some d \<Rightarrow> d);
                  body = (case val of None \<Rightarrow> [] | Some v \<Rightarrow> take (unat len) v)
              in Inr (m\<lparr>xm_digests := Some (old @ le_bytes 2 alg @ le_bytes 2 len @ body),
                        xm_digests_len := xm_digests_len m + of_nat need\<rparr>))"

text \<open>The entries of the first \<open>dlen\<close> bytes that are not of \<open>alg\<close>; a malformed tail is dropped.\<close>

function xmeta_digest_keep :: "bytes \<Rightarrow> nat \<Rightarrow> u16 \<Rightarrow> nat \<Rightarrow> bytes \<Rightarrow> bytes" where
  "xmeta_digest_keep d dlen alg off kept =
     (if off + 4 \<le> dlen
      then let a = le_word (slice off 2 d); l = unat (le_word (slice (off + 2) 2 d) :: u16)
           in if off + 4 + l > dlen then kept
              else xmeta_digest_keep d dlen alg (off + 4 + l) (if a \<noteq> alg then kept @ slice off (4 + l) d else kept)
      else kept)"
  by pat_completeness auto
termination by (relation "measure (\<lambda>(d, dlen, alg, off, kept). dlen - off)") auto

declare xmeta_digest_keep.simps [simp del]

definition brix_xmeta_digest_set ::
    "malloc_t \<Rightarrow> brix_xmeta_t \<Rightarrow> u16 \<Rightarrow> bytes option \<Rightarrow> u16 \<Rightarrow> xmeta_fail + brix_xmeta_t" where
  "brix_xmeta_digest_set malloc m alg val len =
     (case xm_digests m of
        None \<Rightarrow> brix_xmeta_digest_add malloc m alg val len
      | Some d \<Rightarrow>
          let n = unat (xm_digests_len m)
          in if malloc (if n \<noteq> 0 then n else 1) = None then Inl (XMETA_ERR ENOMEM)
             else let kept = xmeta_digest_keep d n alg 0 [];
                      m' = (if kept = [] then m\<lparr>xm_digests := None, xm_digests_len := 0\<rparr>
                            else m\<lparr>xm_digests := Some kept, xm_digests_len := of_nat (length kept)\<rparr>)
                  in brix_xmeta_digest_add malloc m' alg val len)"

function xmeta_digest_find :: "bytes \<Rightarrow> nat \<Rightarrow> nat \<Rightarrow> nat \<Rightarrow> nat \<Rightarrow> xmeta_fail + u16 \<times> bytes" where
  "xmeta_digest_find d dlen idx off i =
     (if off + 4 \<le> dlen
      then let a = le_word (slice off 2 d); l = unat (le_word (slice (off + 2) 2 d) :: u16)
           in if off + 4 + l > dlen then Inl XMETA_FOREIGN
              else if i = idx then Inr (a, slice (off + 4) l d)
              else xmeta_digest_find d dlen idx (off + 4 + l) (i + 1)
      else Inl XMETA_FOREIGN)"
  by pat_completeness auto
termination by (relation "measure (\<lambda>(d, dlen, idx, off, i). dlen - off)") auto

declare xmeta_digest_find.simps [simp del]

text \<open>Entry \<open>idx\<close>: its algorithm and its value (whose length is the third out-parameter).\<close>

definition brix_xmeta_digest_get :: "brix_xmeta_t \<Rightarrow> u32 \<Rightarrow> xmeta_fail + u16 \<times> bytes" where
  "brix_xmeta_digest_get m idx =
     (case xm_digests m of
        None \<Rightarrow> Inl XMETA_FOREIGN
      | Some d \<Rightarrow> xmeta_digest_find d (unat (xm_digests_len m)) (unat idx) 0 0)"

section \<open>Encoding\<close>

text \<open>The structs in memory order (native little-endian, no padding).\<close>

definition store_bytes :: "brix_xmeta_stock_store_t \<Rightarrow> bytes" where
  "store_bytes s = le_bytes 8 (ss_buffer_size s) @ le_bytes 8 (ss_file_size s) @ le_bytes 8 (ss_creation_time s)
     @ le_bytes 8 (ss_no_cksum_time s) @ le_bytes 8 (ss_access_cnt s) @ le_bytes 4 (ss_status_raw s)
     @ le_bytes 4 (ss_astat_size s)"

definition astat_bytes :: "brix_xmeta_astat_t \<Rightarrow> bytes" where
  "astat_bytes a = le_bytes 8 (as_attach_time a) @ le_bytes 8 (as_detach_time a) @ le_bytes 4 (as_num_ios a)
     @ le_bytes 4 (as_duration a) @ le_bytes 4 (as_num_merged a) @ le_bytes 4 (as_reserved a)
     @ le_bytes 8 (as_bytes_hit a) @ le_bytes 8 (as_bytes_missed a) @ le_bytes 8 (as_bytes_bypassed a)"

definition state_bytes :: "xmeta_state_wire_t \<Rightarrow> bytes" where
  "state_bytes s = le_bytes 8 (sw_origin_mtime s) @ le_bytes 8 (sw_dirty_lo s) @ le_bytes 8 (sw_dirty_hi s)
     @ le_bytes 8 (sw_flush_gen s) @ le_bytes 8 (sw_dirty_since s) @ le_bytes 8 (sw_last_flush s)
     @ le_bytes 8 (sw_bytes_flushed s) @ le_bytes 8 (sw_expires_at s) @ le_bytes 8 (sw_filled_at s)
     @ le_bytes 4 (sw_mode s) @ le_bytes 4 (sw_state_flags s)"

text \<open>The output buffer with its cursor.\<close>

type_synonym xmeta_out = "bytes \<times> nat"

definition xmeta_put :: "bytes \<Rightarrow> xmeta_out \<Rightarrow> xmeta_out" where
  "xmeta_put src = (\<lambda>(buf, off). (memcpy_at off src buf, off + length src))"

definition xmeta_put_section :: "u16 \<Rightarrow> bytes \<Rightarrow> xmeta_out \<Rightarrow> xmeta_out" where
  "xmeta_put_section type payload o0 =
     (let hdr_off = snd o0;
          o1 = xmeta_put (le_bytes 2 type) o0;
          o2 = xmeta_put (le_bytes 2 (0 :: u16)) o1;
          o3 = xmeta_put (le_bytes 4 (of_nat (length payload) :: u32)) o2;
          o4 = xmeta_put payload o3;
          crc = xmeta_crc (slice hdr_off (8 + length payload) (fst o4))
      in xmeta_put (le_bytes 4 crc) o4)"

record xmeta_encode_plan_t =
  xp_blen :: nat
  xp_have_origin :: bool
  xp_have_blockcrc :: bool
  xp_origin_plen :: nat
  xp_blockcrc_plen :: nat
  xp_nsec :: u16
  xp_cap :: nat

definition xmeta_encode_plan :: "brix_xmeta_t \<Rightarrow> xmeta_encode_plan_t" where
  "xmeta_encode_plan m =
     (let blen = xmeta_bitmap_len (xm_nblocks m);
          have_origin = (xm_etag_len m > 0 \<or> xm_cks_len m > 0 \<or> xm_cks_alg_len m > 0);
          origin_plen = XMETA_ORIGIN_FIXED + unat (xm_etag_len m) + unat (xm_cks_alg_len m) + unat (xm_cks_len m);
          have_blockcrc = (xm_have_blockcrc m \<and> xm_blockcrc m \<noteq> None);
          blockcrc_plen = (if have_blockcrc then 16 + unat (xm_nblocks m) * 4 else 0)
      in \<lparr>xp_blen = blen, xp_have_origin = have_origin, xp_have_blockcrc = have_blockcrc,
          xp_origin_plen = origin_plen, xp_blockcrc_plen = blockcrc_plen,
          xp_nsec = (if xm_have_state m then 1 else 0) + (if xm_digests m \<noteq> None then 1 else 0)
            + (if have_blockcrc then 1 else 0) + (if have_origin then 1 else 0),
          xp_cap = 4 + 48 + 4 + blen + (if 0 < sint (xm_astat_count m) then 56 else 0) + 4 + 8
            + (if xm_have_state m then 12 + 80 else 0)
            + (if xm_digests m \<noteq> None then 12 + unat (xm_digests_len m) else 0)
            + (if blockcrc_plen \<noteq> 0 then 12 + blockcrc_plen else 0)
            + (if have_origin then 12 + origin_plen else 0)\<rparr>)"

definition xmeta_encode_stock_prefix :: "brix_xmeta_t \<Rightarrow> nat \<Rightarrow> xmeta_out \<Rightarrow> xmeta_out" where
  "xmeta_encode_stock_prefix m blen o0 =
     (let store = \<lparr>ss_buffer_size = xm_buffer_size m, ss_file_size = xm_file_size m,
                   ss_creation_time = xm_creation_time m, ss_no_cksum_time = xm_no_cksum_time m,
                   ss_access_cnt = xm_access_cnt m, ss_status_raw = xm_status_raw m,
                   ss_astat_size = (if 0 < sint (xm_astat_count m) then 1 else 0)\<rparr>;
          bitmap = take blen (case xm_bitmap m of None \<Rightarrow> [] | Some b \<Rightarrow> b);
          o1 = xmeta_put (le_bytes 4 BRIX_XMETA_STOCK_VERSION) o0;
          o2 = xmeta_put (store_bytes store) o1;
          o3 = xmeta_put (le_bytes 4 (xmeta_crc (store_bytes store))) o2;
          o4 = xmeta_put bitmap o3;
          crc = xmeta_crc bitmap;
          (o5, crc') = (if 0 < sint (ss_astat_size store)
                        then (xmeta_put (astat_bytes (xm_astat m)) o4, brix_crc32c_sw_extend crc (astat_bytes (xm_astat m)))
                        else (o4, crc))
      in xmeta_put (le_bytes 4 crc') o5)"

definition xmeta_encode_state_section :: "brix_xmeta_t \<Rightarrow> xmeta_out \<Rightarrow> xmeta_out" where
  "xmeta_encode_state_section m =
     xmeta_put_section BRIX_XMETA_SEC_STATE (state_bytes
       \<lparr>sw_origin_mtime = xm_origin_mtime m, sw_dirty_lo = xm_dirty_lo m, sw_dirty_hi = xm_dirty_hi m,
        sw_flush_gen = xm_flush_gen m, sw_dirty_since = xm_dirty_since m, sw_last_flush = xm_last_flush m,
        sw_bytes_flushed = xm_bytes_flushed m, sw_expires_at = xm_expires_at m, sw_filled_at = xm_filled_at m,
        sw_mode = xm_mode m, sw_state_flags = xm_state_flags m\<rparr>)"

definition xmeta_encode_origin_section :: "brix_xmeta_t \<Rightarrow> xmeta_out \<Rightarrow> xmeta_out" where
  "xmeta_encode_origin_section m =
     xmeta_put_section BRIX_XMETA_SEC_ORIGIN ([xm_etag_len m, xm_cks_alg_len m, xm_cks_len m, 0]
       @ take (unat (xm_etag_len m)) (xm_etag m) @ take (unat (xm_cks_alg_len m)) (xm_cks_alg m)
       @ take (unat (xm_cks_len m)) (xm_cks_hex m))"

definition xmeta_encode_blockcrc_section :: "brix_xmeta_t \<Rightarrow> xmeta_out \<Rightarrow> xmeta_out" where
  "xmeta_encode_blockcrc_section m o0 =
     (let blockcrc_plen = 16 + unat (xm_nblocks m) * 4;
          sec_hdr = snd o0;
          o1 = xmeta_put (le_bytes 2 BRIX_XMETA_SEC_BLOCKCRC) o0;
          o2 = xmeta_put (le_bytes 2 (0 :: u16)) o1;
          o3 = xmeta_put (le_bytes 4 (of_nat blockcrc_plen :: u32)) o2;
          o4 = xmeta_put (le_bytes 4 (ucast (xm_buffer_size m) :: u32)) o3;
          o5 = xmeta_put (le_bytes 4 (0 :: u32)) o4;
          o6 = xmeta_put (le_bytes 8 (xm_nblocks m)) o5;
          o7 = xmeta_put (concat (map (le_bytes 4)
                 (take (unat (xm_nblocks m)) (case xm_blockcrc m of None \<Rightarrow> [] | Some t \<Rightarrow> t)))) o6;
          crc = xmeta_crc (slice sec_hdr (8 + blockcrc_plen) (fst o7))
      in xmeta_put (le_bytes 4 crc) o7)"

definition brix_xmeta_encode :: "malloc_t \<Rightarrow> brix_xmeta_t \<Rightarrow> xmeta_fail + bytes \<times> nat" where
  "brix_xmeta_encode malloc m =
     (if sint (xm_buffer_size m) \<le> 0 \<or> xm_bitmap m = None then Inl (XMETA_ERR EINVAL)
      else let plan = xmeta_encode_plan m
           in case malloc (xp_cap plan) of
                None \<Rightarrow> Inl (XMETA_ERR ENOMEM)
              | Some buf \<Rightarrow>
                  let o1 = xmeta_encode_stock_prefix m (xp_blen plan) (buf, 0);
                      o2 = xmeta_put (le_bytes 4 BRIX_XMETA_EXT_MAGIC) o1;
                      o3 = xmeta_put (le_bytes 2 BRIX_XMETA_EXT_VERSION) o2;
                      o4 = xmeta_put (le_bytes 2 (xp_nsec plan)) o3;
                      o5 = (if xm_have_state m then xmeta_encode_state_section m o4 else o4);
                      o6 = (if xp_have_origin plan then xmeta_encode_origin_section m o5 else o5);
                      o7 = (case xm_digests m of
                              None \<Rightarrow> o6
                            | Some d \<Rightarrow> xmeta_put_section BRIX_XMETA_SEC_DIGEST (take (unat (xm_digests_len m)) d) o6);
                      o8 = (if xp_blockcrc_plen plan > 0 then xmeta_encode_blockcrc_section m o7 else o7)
                  in Inr o8)"

section \<open>Decoding\<close>

definition store_of :: "bytes \<Rightarrow> brix_xmeta_stock_store_t" where
  "store_of b = \<lparr>ss_buffer_size = le_word (slice 0 8 b), ss_file_size = le_word (slice 8 8 b),
     ss_creation_time = le_word (slice 16 8 b), ss_no_cksum_time = le_word (slice 24 8 b),
     ss_access_cnt = le_word (slice 32 8 b), ss_status_raw = le_word (slice 40 4 b),
     ss_astat_size = le_word (slice 44 4 b)\<rparr>"

definition astat_of :: "bytes \<Rightarrow> brix_xmeta_astat_t" where
  "astat_of b = \<lparr>as_attach_time = le_word (slice 0 8 b), as_detach_time = le_word (slice 8 8 b),
     as_num_ios = le_word (slice 16 4 b), as_duration = le_word (slice 20 4 b), as_num_merged = le_word (slice 24 4 b),
     as_reserved = le_word (slice 28 4 b), as_bytes_hit = le_word (slice 32 8 b),
     as_bytes_missed = le_word (slice 40 8 b), as_bytes_bypassed = le_word (slice 48 8 b)\<rparr>"

definition state_of :: "bytes \<Rightarrow> xmeta_state_wire_t" where
  "state_of b = \<lparr>sw_origin_mtime = le_word (slice 0 8 b), sw_dirty_lo = le_word (slice 8 8 b),
     sw_dirty_hi = le_word (slice 16 8 b), sw_flush_gen = le_word (slice 24 8 b),
     sw_dirty_since = le_word (slice 32 8 b), sw_last_flush = le_word (slice 40 8 b),
     sw_bytes_flushed = le_word (slice 48 8 b), sw_expires_at = le_word (slice 56 8 b),
     sw_filled_at = le_word (slice 64 8 b), sw_mode = le_word (slice 72 4 b), sw_state_flags = le_word (slice 76 4 b)\<rparr>"

text \<open>The bytes read and the advanced cursor, or nothing when the buffer is short.\<close>

definition xmeta_get :: "bytes \<Rightarrow> nat \<Rightarrow> nat \<Rightarrow> (bytes \<times> nat) option" where
  "xmeta_get buf off n = (if length buf - off < n then None else Some (slice off n buf, off + n))"

text \<open>A section decoder returns the updated record, or nothing for \<open>BRIX_XMETA_ERR\<close> (its caller sets the errno).\<close>

definition xmeta_decode_state :: "brix_xmeta_t \<Rightarrow> bytes \<Rightarrow> brix_xmeta_t option" where
  "xmeta_decode_state m p =
     (if length p < 80 then None
      else let state = state_of (take 80 p)
           in Some (m\<lparr>xm_have_state := True, xm_origin_mtime := sw_origin_mtime state, xm_dirty_lo := sw_dirty_lo state,
                xm_dirty_hi := sw_dirty_hi state, xm_flush_gen := sw_flush_gen state,
                xm_dirty_since := sw_dirty_since state, xm_last_flush := sw_last_flush state,
                xm_bytes_flushed := sw_bytes_flushed state, xm_expires_at := sw_expires_at state,
                xm_filled_at := sw_filled_at state, xm_mode := sw_mode state, xm_state_flags := sw_state_flags state\<rparr>))"

definition xmeta_decode_origin :: "brix_xmeta_t \<Rightarrow> bytes \<Rightarrow> brix_xmeta_t option" where
  "xmeta_decode_origin m p =
     (if length p < XMETA_ORIGIN_FIXED then None
      else let el = unat (p ! 0); al = unat (p ! 1); cl = unat (p ! 2)
           in if el > 128 \<or> al > 16 \<or> cl > 129 \<or> length p < XMETA_ORIGIN_FIXED + el + al + cl then None
              else Some (m\<lparr>xm_etag_len := p ! 0,
                     xm_etag := memcpy_at 0 (slice XMETA_ORIGIN_FIXED el p) (xm_etag m),
                     xm_cks_alg_len := p ! 1,
                     xm_cks_alg := memcpy_at 0 (slice (XMETA_ORIGIN_FIXED + el) al p) (xm_cks_alg m),
                     xm_cks_len := p ! 2,
                     xm_cks_hex := memcpy_at 0 (slice (XMETA_ORIGIN_FIXED + el + al) cl p) (xm_cks_hex m)\<rparr>))"

definition xmeta_decode_digest :: "malloc_t \<Rightarrow> brix_xmeta_t \<Rightarrow> bytes \<Rightarrow> brix_xmeta_t option" where
  "xmeta_decode_digest malloc m p =
     (if malloc (if length p \<noteq> 0 then length p else 1) = None then None
      else Some (m\<lparr>xm_digests := Some p, xm_digests_len := of_nat (length p)\<rparr>))"

fun u32_list :: "nat \<Rightarrow> bytes \<Rightarrow> u32 list" where
  "u32_list 0 b = []"
| "u32_list (Suc n) b = le_word (take 4 b) # u32_list n (drop 4 b)"

definition xmeta_decode_blockcrc :: "malloc_t \<Rightarrow> brix_xmeta_t \<Rightarrow> bytes \<Rightarrow> brix_xmeta_t option" where
  "xmeta_decode_blockcrc malloc m p =
     (if length p < 16 then None
      else let nb = (le_word (slice 8 8 p) :: u64)
           in if nb \<noteq> xm_nblocks m \<or> of_nat (length p) \<noteq> 16 + nb * 4 then None
              else if malloc (if nb \<noteq> 0 then unat nb * 4 else 4) = None then None
              else Some (m\<lparr>xm_blockcrc := Some (u32_list (unat nb) (drop 16 p)), xm_have_blockcrc := True\<rparr>))"

definition xmeta_decode_section :: "malloc_t \<Rightarrow> brix_xmeta_t \<Rightarrow> u16 \<Rightarrow> bytes \<Rightarrow> brix_xmeta_t option" where
  "xmeta_decode_section malloc m type p =
     (if type = BRIX_XMETA_SEC_STATE then xmeta_decode_state m p
      else if type = BRIX_XMETA_SEC_ORIGIN then xmeta_decode_origin m p
      else if type = BRIX_XMETA_SEC_DIGEST then xmeta_decode_digest malloc m p
      else if type = BRIX_XMETA_SEC_BLOCKCRC then xmeta_decode_blockcrc malloc m p
      else Some m)"

definition xmeta_decode_stock_store :: "bytes \<Rightarrow> nat \<Rightarrow> brix_xmeta_t \<Rightarrow> xmeta_fail + brix_xmeta_t \<times> nat" where
  "xmeta_decode_stock_store buf off m =
     (case xmeta_get buf off 4 of
        None \<Rightarrow> Inl XMETA_FOREIGN
      | Some (version, off1) \<Rightarrow>
     if le_word version \<noteq> BRIX_XMETA_STOCK_VERSION then Inl XMETA_FOREIGN
     else case xmeta_get buf off1 48 of
        None \<Rightarrow> Inl XMETA_FOREIGN
      | Some (pod, off2) \<Rightarrow>
     case xmeta_get buf off2 4 of
        None \<Rightarrow> Inl XMETA_FOREIGN
      | Some (crc, off3) \<Rightarrow>
     if le_word crc \<noteq> xmeta_crc pod then Inl (XMETA_ERR EBADMSG)
     else let store = store_of pod
     in if sint (ss_buffer_size store) \<le> 0 \<or> sint (ss_file_size store) < 0 \<or> sint (ss_astat_size store) < 0
        then Inl XMETA_FOREIGN
        else let nb = xmeta_nblocks (ss_file_size store) (ss_buffer_size store)
             in if nb > BRIX_XMETA_MAX_BLOCKS then Inl XMETA_FOREIGN
                else Inr (m\<lparr>xm_buffer_size := ss_buffer_size store, xm_file_size := ss_file_size store,
                       xm_creation_time := ss_creation_time store, xm_no_cksum_time := ss_no_cksum_time store,
                       xm_access_cnt := ss_access_cnt store, xm_status_raw := ss_status_raw store,
                       xm_astat_count := ss_astat_size store, xm_nblocks := nb\<rparr>, off3))"

text \<open>The AStat records: \<open>i\<close> is the 16-bit loop counter; the first record is kept, the checksum runs over all.\<close>

function xmeta_astat_loop :: "bytes \<Rightarrow> nat \<Rightarrow> brix_xmeta_t \<Rightarrow> u16 \<Rightarrow> u32 \<Rightarrow> xmeta_fail + brix_xmeta_t \<times> nat \<times> u32" where
  "xmeta_astat_loop buf off m i want =
     (if int (unat i) < sint (xm_astat_count m)
      then case xmeta_get buf off 56 of
             None \<Rightarrow> Inl XMETA_FOREIGN
           | Some (a, off') \<Rightarrow>
               xmeta_astat_loop buf off' (if i = 0 then m\<lparr>xm_astat := astat_of a\<rparr> else m) (i + 1)
                 (brix_crc32c_sw_extend want a)
      else Inr (m, off, want))"
  by pat_completeness auto
termination
  by (relation "measure (\<lambda>(buf, off, _). length buf - off)") (auto simp: xmeta_get_def split: if_splits)

declare xmeta_astat_loop.simps [simp del]

definition xmeta_decode_bitmap_astat :: "malloc_t \<Rightarrow> bytes \<Rightarrow> nat \<Rightarrow> brix_xmeta_t \<Rightarrow> xmeta_fail + brix_xmeta_t \<times> nat" where
  "xmeta_decode_bitmap_astat malloc buf off m =
     (let blen = xmeta_bitmap_len (xm_nblocks m)
      in if malloc (if blen \<noteq> 0 then blen else 1) = None then Inl (XMETA_ERR ENOMEM)
         else case xmeta_get buf off blen of
                None \<Rightarrow> Inl XMETA_FOREIGN
              | Some (bitmap, off1) \<Rightarrow>
         case xmeta_astat_loop buf off1 (m\<lparr>xm_bitmap := Some bitmap\<rparr>) 0 (xmeta_crc bitmap) of
                Inl e \<Rightarrow> Inl e
              | Inr (m', off2, want) \<Rightarrow>
         case xmeta_get buf off2 4 of
                None \<Rightarrow> Inl XMETA_FOREIGN
              | Some (crc, off3) \<Rightarrow>
         if le_word crc \<noteq> want then Inl (XMETA_ERR EBADMSG) else Inr (m', off3))"

text \<open>One iteration per section; any defect is a torn record.\<close>

fun xmeta_section_loop :: "malloc_t \<Rightarrow> bytes \<Rightarrow> nat \<Rightarrow> nat \<Rightarrow> brix_xmeta_t \<Rightarrow> xmeta_fail + brix_xmeta_t" where
  "xmeta_section_loop malloc buf 0 off m = Inr m"
| "xmeta_section_loop malloc buf (Suc n) off m =
     (case xmeta_get buf off 2 of
        None \<Rightarrow> Inl (XMETA_ERR EBADMSG)
      | Some (type, off1) \<Rightarrow>
      case xmeta_get buf off1 2 of
        None \<Rightarrow> Inl (XMETA_ERR EBADMSG)
      | Some (rsv, off2) \<Rightarrow>
      case xmeta_get buf off2 4 of
        None \<Rightarrow> Inl (XMETA_ERR EBADMSG)
      | Some (plen_bytes, off3) \<Rightarrow>
      let plen = unat (le_word plen_bytes :: u32)
      in if plen > BRIX_XMETA_MAX_SECTION \<or> length buf - off3 < plen + 4 then Inl (XMETA_ERR EBADMSG)
         else if le_word (slice (off3 + plen) 4 buf) \<noteq> xmeta_crc (slice off (8 + plen) buf) then Inl (XMETA_ERR EBADMSG)
         else case xmeta_decode_section malloc m (le_word type) (slice off3 plen buf) of
                None \<Rightarrow> Inl (XMETA_ERR EBADMSG)
              | Some m' \<Rightarrow> xmeta_section_loop malloc buf n (off3 + (plen + 4)) m')"

definition xmeta_decode_ext_sections :: "malloc_t \<Rightarrow> bytes \<Rightarrow> nat \<Rightarrow> brix_xmeta_t \<Rightarrow> xmeta_fail + brix_xmeta_t" where
  "xmeta_decode_ext_sections malloc buf off m =
     (if off = length buf then Inr m
      else case xmeta_get buf off 4 of
             None \<Rightarrow> Inr m
           | Some (ext_magic, off1) \<Rightarrow>
      if le_word ext_magic \<noteq> BRIX_XMETA_EXT_MAGIC then Inr m
      else case xmeta_get buf off1 2 of
             None \<Rightarrow> Inr m
           | Some (ext_version, off2) \<Rightarrow>
      case xmeta_get buf off2 2 of
             None \<Rightarrow> Inr m
           | Some (nsec, off3) \<Rightarrow> xmeta_section_loop malloc buf (unat (le_word nsec :: u16)) off3 m)"

definition brix_xmeta_decode :: "malloc_t \<Rightarrow> bytes \<Rightarrow> xmeta_fail + brix_xmeta_t" where
  "brix_xmeta_decode malloc buf =
     (case xmeta_decode_stock_store buf 0 xmeta_zero of
        Inl e \<Rightarrow> Inl e
      | Inr (m, off) \<Rightarrow>
      case xmeta_decode_bitmap_astat malloc buf off m of
        Inl e \<Rightarrow> Inl e
      | Inr (m', off') \<Rightarrow> xmeta_decode_ext_sections malloc buf off' m')"

end
