(* ===== verification/Xmeta_Codec.thy ===== *)
theory Xmeta_Codec
  imports Xmeta
begin

text \<open>
  What the metadata codec of theory \<open>Xmeta\<close> guarantees: the octets of an encoded record and that they fill the
  allocated block exactly, the round trip, the shape of every decoded record, the detection of torn and
  truncated records, and the digest list as a map.
\<close>

section \<open>The octets of a record\<close>

lemma length_store_bytes [simp]: "length (store_bytes s) = 48"
  by (simp add: store_bytes_def)

lemma length_astat_bytes [simp]: "length (astat_bytes a) = 56"
  by (simp add: astat_bytes_def)

lemma length_state_bytes [simp]: "length (state_bytes s) = 80"
  by (simp add: state_bytes_def)

lemma store_of_bytes [simp]: "store_of (store_bytes s) = s"
  by (simp add: store_of_def store_bytes_def slice_append_left slice_append_right)

lemma astat_of_bytes [simp]: "astat_of (astat_bytes a) = a"
  by (simp add: astat_of_def astat_bytes_def slice_append_left slice_append_right)

lemma state_of_bytes [simp]: "state_of (state_bytes s) = s"
  by (simp add: state_of_def state_bytes_def slice_append_left slice_append_right)

definition section_head :: "u16 \<Rightarrow> bytes \<Rightarrow> bytes" where
  "section_head type p = le_bytes 2 type @ le_bytes 2 (0 :: u16) @ le_bytes 4 (of_nat (length p) :: u32) @ p"

definition section_bytes :: "u16 \<times> bytes \<Rightarrow> bytes" where
  "section_bytes = (\<lambda>(type, p). section_head type p @ le_bytes 4 (xmeta_crc (section_head type p)))"

lemma length_section_head [simp]: "length (section_head ty p) = 8 + length p"
  by (simp add: section_head_def)

lemma length_section_bytes [simp]: "length (section_bytes (ty, p)) = 12 + length p"
  by (simp add: section_bytes_def)

definition xmeta_store :: "brix_xmeta_t \<Rightarrow> brix_xmeta_stock_store_t" where
  "xmeta_store m = \<lparr>ss_buffer_size = xm_buffer_size m, ss_file_size = xm_file_size m,
     ss_creation_time = xm_creation_time m, ss_no_cksum_time = xm_no_cksum_time m,
     ss_access_cnt = xm_access_cnt m, ss_status_raw = xm_status_raw m,
     ss_astat_size = (if 0 < sint (xm_astat_count m) then 1 else 0)\<rparr>"

definition xmeta_body :: "brix_xmeta_t \<Rightarrow> bytes" where
  "xmeta_body m = take (xmeta_bitmap_len (xm_nblocks m)) (case xm_bitmap m of None \<Rightarrow> [] | Some b \<Rightarrow> b)
     @ (if 0 < sint (xm_astat_count m) then astat_bytes (xm_astat m) else [])"

definition stock_bytes :: "brix_xmeta_t \<Rightarrow> bytes" where
  "stock_bytes m = le_bytes 4 BRIX_XMETA_STOCK_VERSION @ store_bytes (xmeta_store m)
     @ le_bytes 4 (xmeta_crc (store_bytes (xmeta_store m))) @ xmeta_body m @ le_bytes 4 (xmeta_crc (xmeta_body m))"

definition xmeta_state :: "brix_xmeta_t \<Rightarrow> xmeta_state_wire_t" where
  "xmeta_state m = \<lparr>sw_origin_mtime = xm_origin_mtime m, sw_dirty_lo = xm_dirty_lo m, sw_dirty_hi = xm_dirty_hi m,
     sw_flush_gen = xm_flush_gen m, sw_dirty_since = xm_dirty_since m, sw_last_flush = xm_last_flush m,
     sw_bytes_flushed = xm_bytes_flushed m, sw_expires_at = xm_expires_at m, sw_filled_at = xm_filled_at m,
     sw_mode = xm_mode m, sw_state_flags = xm_state_flags m\<rparr>"

definition origin_bytes :: "brix_xmeta_t \<Rightarrow> bytes" where
  "origin_bytes m = [xm_etag_len m, xm_cks_alg_len m, xm_cks_len m, 0]
     @ take (unat (xm_etag_len m)) (xm_etag m) @ take (unat (xm_cks_alg_len m)) (xm_cks_alg m)
     @ take (unat (xm_cks_len m)) (xm_cks_hex m)"

definition blockcrc_bytes :: "brix_xmeta_t \<Rightarrow> u32 list \<Rightarrow> bytes" where
  "blockcrc_bytes m t = le_bytes 4 (ucast (xm_buffer_size m) :: u32) @ le_bytes 4 (0 :: u32) @ le_bytes 8 (xm_nblocks m)
     @ concat (map (le_bytes 4) (take (unat (xm_nblocks m)) t))"

definition xmeta_sections :: "brix_xmeta_t \<Rightarrow> (u16 \<times> bytes) list" where
  "xmeta_sections m =
     (if xm_have_state m then [(BRIX_XMETA_SEC_STATE, state_bytes (xmeta_state m))] else [])
     @ (if xm_etag_len m > 0 \<or> xm_cks_len m > 0 \<or> xm_cks_alg_len m > 0 then [(BRIX_XMETA_SEC_ORIGIN, origin_bytes m)] else [])
     @ (case xm_digests m of None \<Rightarrow> [] | Some d \<Rightarrow> [(BRIX_XMETA_SEC_DIGEST, take (unat (xm_digests_len m)) d)])
     @ (case xm_blockcrc m of Some t \<Rightarrow> (if xm_have_blockcrc m then [(BRIX_XMETA_SEC_BLOCKCRC, blockcrc_bytes m t)] else [])
        | None \<Rightarrow> [])"

definition ext_head :: "brix_xmeta_t \<Rightarrow> bytes" where
  "ext_head m = le_bytes 4 BRIX_XMETA_EXT_MAGIC @ le_bytes 2 BRIX_XMETA_EXT_VERSION
     @ le_bytes 2 (of_nat (length (xmeta_sections m)) :: u16)"

definition xmeta_image :: "brix_xmeta_t \<Rightarrow> bytes" where
  "xmeta_image m = stock_bytes m @ ext_head m @ concat (map section_bytes (xmeta_sections m))"

section \<open>Well-formed records\<close>

text \<open>The shape the operations rely on: tables of the length the geometry asks for, lengths within their arrays.\<close>

definition xmeta_wf :: "brix_xmeta_t \<Rightarrow> bool" where
  "xmeta_wf m \<longleftrightarrow> 0 < sint (xm_buffer_size m) \<and> 0 \<le> sint (xm_file_size m)
     \<and> xmeta_nblocks (xm_file_size m) (xm_buffer_size m) = xm_nblocks m \<and> xm_nblocks m \<le> BRIX_XMETA_MAX_BLOCKS
     \<and> (\<exists>bm. xm_bitmap m = Some bm \<and> length bm = xmeta_bitmap_len (xm_nblocks m))
     \<and> 0 \<le> sint (xm_astat_count m)
     \<and> length (xm_etag m) = 128 \<and> unat (xm_etag_len m) \<le> 128
     \<and> length (xm_cks_alg m) = 16 \<and> unat (xm_cks_alg_len m) \<le> 16
     \<and> length (xm_cks_hex m) = 129 \<and> unat (xm_cks_len m) \<le> 129
     \<and> (case xm_digests m of None \<Rightarrow> xm_digests_len m = 0 | Some d \<Rightarrow> length d = unat (xm_digests_len m))
     \<and> (case xm_blockcrc m of None \<Rightarrow> \<not> xm_have_blockcrc m | Some t \<Rightarrow> length t = unat (xm_nblocks m))"

section \<open>The encoder writes exactly these octets\<close>

text \<open>The first octets of the block are \<open>acc\<close> and the cursor stands behind them.\<close>

definition xmeta_written :: "nat \<Rightarrow> bytes \<Rightarrow> xmeta_out \<Rightarrow> bool" where
  "xmeta_written cap acc out \<longleftrightarrow> snd out = length acc \<and> take (length acc) (fst out) = acc \<and> length (fst out) = cap"

lemma written_put:
  assumes "xmeta_written cap acc out" "length acc + length src \<le> cap"
  shows "xmeta_written cap (acc @ src) (xmeta_put src out)"
  using assms by (cases out) (auto simp: xmeta_written_def xmeta_put_def memcpy_at_def)

lemma written_slice:
  assumes "xmeta_written cap (acc @ src) out" "off = length acc" "n = length src"
  shows "slice off n (fst out) = src"
proof -
  have "take (length acc + length src) (fst out) = acc @ src" using assms(1) by (simp add: xmeta_written_def)
  then show ?thesis using assms(2,3) by (simp add: slice_def take_drop add.commute)
qed

lemma written_section:
  assumes w: "xmeta_written cap acc out" and n: "length acc + 12 + length p \<le> cap"
  shows "xmeta_written cap (acc @ section_bytes (ty, p)) (xmeta_put_section ty p out)"
proof -
  define o4 where "o4 = xmeta_put p (xmeta_put (le_bytes 4 (of_nat (length p) :: u32))
     (xmeta_put (le_bytes 2 (0 :: u16)) (xmeta_put (le_bytes 2 ty) out)))"
  have "xmeta_written cap ((((acc @ le_bytes 2 ty) @ le_bytes 2 (0 :: u16)) @ le_bytes 4 (of_nat (length p) :: u32)) @ p) o4"
    unfolding o4_def by (intro written_put w) (use n in simp_all)
  then have 4: "xmeta_written cap (acc @ section_head ty p) o4" by (simp add: section_head_def)
  have "slice (snd out) (8 + length p) (fst o4) = section_head ty p"
    by (rule written_slice [OF 4]) (use w in \<open>simp_all add: xmeta_written_def\<close>)
  then have "xmeta_put_section ty p out = xmeta_put (le_bytes 4 (xmeta_crc (section_head ty p))) o4"
    by (simp add: xmeta_put_section_def o4_def)
  moreover have "xmeta_written cap ((acc @ section_head ty p) @ le_bytes 4 (xmeta_crc (section_head ty p)))
      (xmeta_put (le_bytes 4 (xmeta_crc (section_head ty p))) o4)"
    by (rule written_put [OF 4]) (use n in simp)
  ultimately show ?thesis by (simp add: section_bytes_def)
qed

lemma length_concat_le4 [simp]: "length (concat (map (le_bytes 4) ws)) = 4 * length ws"
  by (induction ws) simp_all

lemma written_blockcrc:
  assumes w: "xmeta_written cap acc out" and n: "length acc + 28 + 4 * length t \<le> cap"
    and t: "xm_blockcrc m = Some t" "length t = unat (xm_nblocks m)"
  shows "xmeta_written cap (acc @ section_bytes (BRIX_XMETA_SEC_BLOCKCRC, blockcrc_bytes m t)) (xmeta_encode_blockcrc_section m out)"
proof -
  let ?p = "blockcrc_bytes m t"
  have lp: "length ?p = 16 + unat (xm_nblocks m) * 4" using t by (simp add: blockcrc_bytes_def)
  define o7 where "o7 = xmeta_put (concat (map (le_bytes 4) (take (unat (xm_nblocks m)) t)))
     (xmeta_put (le_bytes 8 (xm_nblocks m)) (xmeta_put (le_bytes 4 (0 :: u32)) (xmeta_put (le_bytes 4 (ucast (xm_buffer_size m) :: u32))
     (xmeta_put (le_bytes 4 (of_nat (16 + unat (xm_nblocks m) * 4) :: u32)) (xmeta_put (le_bytes 2 (0 :: u16))
       (xmeta_put (le_bytes 2 BRIX_XMETA_SEC_BLOCKCRC) out))))))"
  have "xmeta_written cap (((((((acc @ le_bytes 2 BRIX_XMETA_SEC_BLOCKCRC) @ le_bytes 2 (0 :: u16))
      @ le_bytes 4 (of_nat (16 + unat (xm_nblocks m) * 4) :: u32)) @ le_bytes 4 (ucast (xm_buffer_size m) :: u32))
      @ le_bytes 4 (0 :: u32)) @ le_bytes 8 (xm_nblocks m))
      @ concat (map (le_bytes 4) (take (unat (xm_nblocks m)) t))) o7"
    unfolding o7_def by (intro written_put w) (use n t(2) in simp_all)
  moreover have "section_head BRIX_XMETA_SEC_BLOCKCRC ?p = le_bytes 2 BRIX_XMETA_SEC_BLOCKCRC @ le_bytes 2 (0 :: u16)
      @ le_bytes 4 (of_nat (16 + unat (xm_nblocks m) * 4) :: u32) @ le_bytes 4 (ucast (xm_buffer_size m) :: u32)
      @ le_bytes 4 (0 :: u32) @ le_bytes 8 (xm_nblocks m) @ concat (map (le_bytes 4) (take (unat (xm_nblocks m)) t))"
    unfolding section_head_def lp by (simp add: blockcrc_bytes_def)
  ultimately have 7: "xmeta_written cap (acc @ section_head BRIX_XMETA_SEC_BLOCKCRC ?p) o7" by simp
  have "slice (snd out) (8 + (16 + unat (xm_nblocks m) * 4)) (fst o7) = section_head BRIX_XMETA_SEC_BLOCKCRC ?p"
    by (rule written_slice [OF 7]) (use w in \<open>simp_all add: xmeta_written_def lp\<close>)
  then have "xmeta_encode_blockcrc_section m out = xmeta_put (le_bytes 4 (xmeta_crc (section_head BRIX_XMETA_SEC_BLOCKCRC ?p))) o7"
    using t(1) by (simp add: xmeta_encode_blockcrc_section_def o7_def Let_def)
  moreover have "xmeta_written cap ((acc @ section_head BRIX_XMETA_SEC_BLOCKCRC ?p)
      @ le_bytes 4 (xmeta_crc (section_head BRIX_XMETA_SEC_BLOCKCRC ?p)))
      (xmeta_put (le_bytes 4 (xmeta_crc (section_head BRIX_XMETA_SEC_BLOCKCRC ?p))) o7)"
    by (rule written_put [OF 7]) (use n t(2) lp in simp)
  ultimately show ?thesis by (simp add: section_bytes_def)
qed

lemma written_stock:
  assumes w: "xmeta_written cap [] out" and n: "length (stock_bytes m) \<le> cap"
  shows "xmeta_written cap (stock_bytes m) (xmeta_encode_stock_prefix m (xmeta_bitmap_len (xm_nblocks m)) out)"
proof -
  let ?bm = "take (xmeta_bitmap_len (xm_nblocks m)) (case xm_bitmap m of None \<Rightarrow> [] | Some b \<Rightarrow> b)"
  let ?st = "store_bytes (xmeta_store m)"
  define o4 where "o4 = xmeta_put ?bm (xmeta_put (le_bytes 4 (xmeta_crc ?st)) (xmeta_put ?st
      (xmeta_put (le_bytes 4 BRIX_XMETA_STOCK_VERSION) out)))"
  define o5 where "o5 = (if 0 < sint (xm_astat_count m) then xmeta_put (astat_bytes (xm_astat m)) o4 else o4)"
  have enc: "xmeta_encode_stock_prefix m (xmeta_bitmap_len (xm_nblocks m)) out = xmeta_put (le_bytes 4 (xmeta_crc (xmeta_body m))) o5"
    by (simp add: xmeta_encode_stock_prefix_def Let_def o4_def o5_def xmeta_store_def xmeta_body_def crc32c_sw_append)
  have n': "60 + length ?bm + (if 0 < sint (xm_astat_count m) then 56 else 0) \<le> cap"
    using n by (simp add: stock_bytes_def xmeta_body_def split: if_splits)
  have 4: "xmeta_written cap (((([] @ le_bytes 4 BRIX_XMETA_STOCK_VERSION) @ ?st) @ le_bytes 4 (xmeta_crc ?st)) @ ?bm) o4"
    unfolding o4_def by (intro written_put w) (use n' in \<open>simp_all split: if_splits\<close>)
  have 5: "xmeta_written cap ((((([] @ le_bytes 4 BRIX_XMETA_STOCK_VERSION) @ ?st) @ le_bytes 4 (xmeta_crc ?st)) @ ?bm)
      @ (if 0 < sint (xm_astat_count m) then astat_bytes (xm_astat m) else [])) o5"
  proof (cases "0 < sint (xm_astat_count m)")
    case True
    then show ?thesis using written_put [OF 4, of "astat_bytes (xm_astat m)"] n' by (simp add: o5_def)
  next
    case False
    then show ?thesis using 4 by (simp add: o5_def)
  qed
  show ?thesis
    unfolding enc using written_put [OF 5, of "le_bytes 4 (xmeta_crc (xmeta_body m))"] n'
    by (simp add: stock_bytes_def xmeta_body_def split: if_splits)
qed

lemma encode_cap:
  assumes "xmeta_wf m"
  shows "xp_cap (xmeta_encode_plan m) = length (xmeta_image m)"
    and "xp_nsec (xmeta_encode_plan m) = of_nat (length (xmeta_sections m))"
  using assms by (auto simp: xmeta_encode_plan_def xmeta_image_def stock_bytes_def ext_head_def xmeta_body_def
      xmeta_sections_def xmeta_wf_def Let_def origin_bytes_def blockcrc_bytes_def split: option.splits)

text \<open>The octets are those of the image, whatever the allocated block held; its length is the plan's capacity.\<close>

lemma encode_image:
  assumes wf: "xmeta_wf m" and malloc: "malloc (length (xmeta_image m)) = Some buf" "length buf = length (xmeta_image m)"
  shows "brix_xmeta_encode malloc m = Inr (xmeta_image m, length (xmeta_image m))"
proof -
  let ?cap = "length (xmeta_image m)"
  let ?p = "xmeta_encode_plan m"
  obtain bm where bm: "xm_bitmap m = Some bm" "length bm = xmeta_bitmap_len (xm_nblocks m)" "0 < sint (xm_buffer_size m)"
    using wf by (auto simp: xmeta_wf_def)
  have plan: "xp_blen ?p = xmeta_bitmap_len (xm_nblocks m)" "xp_have_origin ?p = (xm_etag_len m > 0 \<or> xm_cks_len m > 0 \<or> xm_cks_alg_len m > 0)"
      "xp_blockcrc_plen ?p = (if xm_have_blockcrc m \<and> xm_blockcrc m \<noteq> None then 16 + unat (xm_nblocks m) * 4 else 0)"
    by (simp_all add: xmeta_encode_plan_def Let_def)
  let ?S = "if xm_have_state m then [(BRIX_XMETA_SEC_STATE, state_bytes (xmeta_state m))] else []"
  let ?O = "if xm_etag_len m > 0 \<or> xm_cks_len m > 0 \<or> xm_cks_alg_len m > 0 then [(BRIX_XMETA_SEC_ORIGIN, origin_bytes m)] else []"
  let ?D = "case xm_digests m of None \<Rightarrow> [] | Some d \<Rightarrow> [(BRIX_XMETA_SEC_DIGEST, take (unat (xm_digests_len m)) d)]"
  let ?B = "case xm_blockcrc m of Some t \<Rightarrow> (if xm_have_blockcrc m then [(BRIX_XMETA_SEC_BLOCKCRC, blockcrc_bytes m t)] else [])
        | None \<Rightarrow> []"
  let ?c = "\<lambda>ss. concat (map section_bytes ss)"
  have len: "length (stock_bytes m) + 8 + length (?c ?S) + length (?c ?O) + length (?c ?D) + length (?c ?B) = ?cap"
    by (simp add: xmeta_image_def ext_head_def xmeta_sections_def)
  define o1 where "o1 = xmeta_encode_stock_prefix m (xp_blen ?p) (buf, 0)"
  define o4 where "o4 = xmeta_put (le_bytes 2 (xp_nsec ?p)) (xmeta_put (le_bytes 2 BRIX_XMETA_EXT_VERSION) (xmeta_put (le_bytes 4 BRIX_XMETA_EXT_MAGIC) o1))"
  define o5 where "o5 = (if xm_have_state m then xmeta_encode_state_section m o4 else o4)"
  define o6 where "o6 = (if xp_have_origin ?p then xmeta_encode_origin_section m o5 else o5)"
  define o7 where "o7 = (case xm_digests m of None \<Rightarrow> o6 | Some d \<Rightarrow> xmeta_put_section BRIX_XMETA_SEC_DIGEST (take (unat (xm_digests_len m)) d) o6)"
  define o8 where "o8 = (if xp_blockcrc_plen ?p > 0 then xmeta_encode_blockcrc_section m o7 else o7)"
  have enc: "brix_xmeta_encode malloc m = Inr o8"
    unfolding brix_xmeta_encode_def Let_def encode_cap(1) [OF wf] o8_def o7_def o6_def o5_def o4_def o1_def
    using bm malloc by simp
  have "xmeta_written ?cap [] (buf, 0)" using malloc by (simp add: xmeta_written_def)
  then have "xmeta_written ?cap (stock_bytes m) o1"
    unfolding o1_def plan(1) using len by (intro written_stock) simp_all
  then have "xmeta_written ?cap (((stock_bytes m @ le_bytes 4 BRIX_XMETA_EXT_MAGIC) @ le_bytes 2 BRIX_XMETA_EXT_VERSION) @ le_bytes 2 (xp_nsec ?p)) o4"
    unfolding o4_def by (intro written_put) (use len in simp_all)
  then have 4: "xmeta_written ?cap (stock_bytes m @ ext_head m) o4"
    by (simp add: ext_head_def encode_cap(2) [OF wf])
  have 5: "xmeta_written ?cap ((stock_bytes m @ ext_head m) @ ?c ?S) o5"
  proof (cases "xm_have_state m")
    case True
    then show ?thesis using written_section [OF 4, of "state_bytes (xmeta_state m)" BRIX_XMETA_SEC_STATE] len
      by (simp add: o5_def xmeta_encode_state_section_def xmeta_state_def ext_head_def)
  qed (use 4 in \<open>simp add: o5_def\<close>)
  have 6: "xmeta_written ?cap (((stock_bytes m @ ext_head m) @ ?c ?S) @ ?c ?O) o6"
  proof (cases "xp_have_origin ?p")
    case True
    then have O: "?O = [(BRIX_XMETA_SEC_ORIGIN, origin_bytes m)]" using plan(2) by presburger
    have "length ((stock_bytes m @ ext_head m) @ ?c ?S) + 12 + length (origin_bytes m) \<le> ?cap"
      using len unfolding O by (simp add: ext_head_def)
    from written_section [OF 5 this, of BRIX_XMETA_SEC_ORIGIN] show ?thesis
      unfolding O using True by (simp add: o6_def xmeta_encode_origin_section_def origin_bytes_def)
  next
    case False
    then have "?O = []" using plan(2) by presburger
    then show ?thesis using 5 False by (simp add: o6_def)
  qed
  have 7: "xmeta_written ?cap ((((stock_bytes m @ ext_head m) @ ?c ?S) @ ?c ?O) @ ?c ?D) o7"
  proof (cases "xm_digests m")
    case (Some d)
    have "length (((stock_bytes m @ ext_head m) @ ?c ?S) @ ?c ?O) + 12 + length (take (unat (xm_digests_len m)) d) \<le> ?cap"
      using len unfolding Some by (simp add: ext_head_def)
    from written_section [OF 6 this, of BRIX_XMETA_SEC_DIGEST] show ?thesis by (simp add: o7_def Some)
  qed (use 6 in \<open>simp add: o7_def\<close>)
  have "xmeta_written ?cap (((((stock_bytes m @ ext_head m) @ ?c ?S) @ ?c ?O) @ ?c ?D) @ ?c ?B) o8"
  proof (cases "xm_have_blockcrc m \<and> xm_blockcrc m \<noteq> None")
    case True
    then obtain t where t: "xm_blockcrc m = Some t" "xm_have_blockcrc m" by blast
    then have lt: "length t = unat (xm_nblocks m)" using wf by (simp add: xmeta_wf_def)
    have B: "?B = [(BRIX_XMETA_SEC_BLOCKCRC, blockcrc_bytes m t)]" using t by simp
    have "length ((((stock_bytes m @ ext_head m) @ ?c ?S) @ ?c ?O) @ ?c ?D) + 28 + 4 * length t \<le> ?cap"
      using len lt unfolding B by (simp add: ext_head_def blockcrc_bytes_def)
    from written_blockcrc [OF 7 this t(1) lt] show ?thesis unfolding B using t by (simp add: o8_def plan(3))
  next
    case False
    then have "?B = []" by (auto split: option.splits)
    then show ?thesis using 7 False unfolding o8_def plan(3) by auto
  qed
  then have "xmeta_written ?cap (xmeta_image m) o8" by (simp add: xmeta_image_def xmeta_sections_def)
  then have "o8 = (xmeta_image m, ?cap)" by (cases o8) (metis xmeta_written_def fst_conv snd_conv take_all_iff order_refl)
  then show ?thesis using enc by simp
qed

section \<open>Reading the octets back\<close>

lemma xmeta_get_next:
  assumes "off = length acc" "n = length x"
  shows "xmeta_get (acc @ x @ rest) off n = Some (x, off + n)"
  using assms by (simp add: xmeta_get_def slice_def)

lemma xmeta_get_None: "length buf - off < n \<Longrightarrow> xmeta_get buf off n = None"
  by (simp add: xmeta_get_def)

lemma xmeta_get_Some:
  assumes "xmeta_get buf off n = Some (x, off')"
  shows "x = slice off n buf" "off' = off + n" "length x = n" "0 < n \<Longrightarrow> off + n \<le> length buf"
  using assms by (auto simp: xmeta_get_def slice_def split: if_splits)

text \<open>A field at a cursor: the last argument names what precedes it.\<close>

lemma get_at:
  assumes "buf = acc @ x @ rest" "off = length acc" "n = length x"
  shows "xmeta_get buf off n = Some (x, off + n)"
  using assms xmeta_get_next by blast

lemma decode_store_image:
  assumes wf: "0 < sint (ss_buffer_size s)" "0 \<le> sint (ss_file_size s)" "0 \<le> sint (ss_astat_size s)"
    and nb: "xmeta_nblocks (ss_file_size s) (ss_buffer_size s) \<le> BRIX_XMETA_MAX_BLOCKS"
    and buf: "buf = le_bytes 4 BRIX_XMETA_STOCK_VERSION @ store_bytes s @ le_bytes 4 (xmeta_crc (store_bytes s)) @ rest"
  shows "xmeta_decode_stock_store buf 0 m = Inr (m\<lparr>xm_buffer_size := ss_buffer_size s, xm_file_size := ss_file_size s,
      xm_creation_time := ss_creation_time s, xm_no_cksum_time := ss_no_cksum_time s, xm_access_cnt := ss_access_cnt s,
      xm_status_raw := ss_status_raw s, xm_astat_count := ss_astat_size s,
      xm_nblocks := xmeta_nblocks (ss_file_size s) (ss_buffer_size s)\<rparr>, 56)"
proof -
  have g1: "xmeta_get buf 0 4 = Some (le_bytes 4 BRIX_XMETA_STOCK_VERSION, 4)"
    using get_at [of buf "[]" "le_bytes 4 BRIX_XMETA_STOCK_VERSION" _ 0 4] buf by simp
  have g2: "xmeta_get buf 4 48 = Some (store_bytes s, 52)"
    using get_at [of buf "le_bytes 4 BRIX_XMETA_STOCK_VERSION" "store_bytes s" _ 4 48] buf by simp
  have g3: "xmeta_get buf 52 4 = Some (le_bytes 4 (xmeta_crc (store_bytes s)), 56)"
    using get_at [of buf "le_bytes 4 BRIX_XMETA_STOCK_VERSION @ store_bytes s" "le_bytes 4 (xmeta_crc (store_bytes s))" rest 52 4] buf by simp
  show ?thesis
    using assms(1-4) by (simp add: xmeta_decode_stock_store_def g1 g2 g3 Let_def not_less not_le)
qed

lemma astat_loop_none:
  "sint (xm_astat_count m) \<le> int (unat i) \<Longrightarrow> xmeta_astat_loop buf off m i want = Inr (m, off, want)"
  by (simp add: xmeta_astat_loop.simps)

lemma astat_loop_one:
  assumes "xm_astat_count m = 1" "xmeta_get buf off 56 = Some (a, off')"
  shows "xmeta_astat_loop buf off m 0 want = Inr (m\<lparr>xm_astat := astat_of a\<rparr>, off', brix_crc32c_sw_extend want a)"
  using assms by (simp add: xmeta_astat_loop.simps [of buf off m 0] astat_loop_none)

definition xmeta_stock_part :: "brix_xmeta_t \<Rightarrow> brix_xmeta_t" where
  "xmeta_stock_part m = xmeta_zero\<lparr>xm_buffer_size := xm_buffer_size m, xm_file_size := xm_file_size m,
      xm_creation_time := xm_creation_time m, xm_no_cksum_time := xm_no_cksum_time m, xm_access_cnt := xm_access_cnt m,
      xm_status_raw := xm_status_raw m, xm_astat_count := (if 0 < sint (xm_astat_count m) then 1 else 0),
      xm_nblocks := xm_nblocks m, xm_bitmap := xm_bitmap m,
      xm_astat := (if 0 < sint (xm_astat_count m) then xm_astat m else xmeta_astat_zero)\<rparr>"

lemma decode_body_image:
  assumes bm: "xm_bitmap m = Some bm" "length bm = xmeta_bitmap_len (xm_nblocks m)" and malloc: "malloc_ok malloc"
    and buf: "buf = acc @ xmeta_body m @ le_bytes 4 (xmeta_crc (xmeta_body m)) @ rest" "off = length acc"
    and m0: "xm_nblocks m0 = xm_nblocks m" "xm_astat_count m0 = (if 0 < sint (xm_astat_count m) then 1 else 0)"
  shows "xmeta_decode_bitmap_astat malloc buf off m0 = Inr (m0\<lparr>xm_bitmap := Some bm,
      xm_astat := (if 0 < sint (xm_astat_count m) then xm_astat m else xm_astat m0)\<rparr>, off + length (xmeta_body m) + 4)"
proof -
  have ok: "malloc n \<noteq> None" for n using malloc by (metis malloc_ok_def option.discI)
  let ?A = "if 0 < sint (xm_astat_count m) then astat_bytes (xm_astat m) else []"
  let ?C = "le_bytes 4 (xmeta_crc (xmeta_body m))"
  have body: "xmeta_body m = bm @ ?A" using bm by (simp add: xmeta_body_def)
  have g1: "xmeta_get buf off (length bm) = Some (bm, off + length bm)"
    by (rule get_at [of buf acc bm "?A @ ?C @ rest"]) (use buf body in simp_all)
  have g3: "xmeta_get buf (off + length (xmeta_body m)) 4 = Some (?C, off + length (xmeta_body m) + 4)"
    by (rule get_at [of buf "acc @ xmeta_body m" ?C rest]) (use buf in simp_all)
  have "xmeta_astat_loop buf (off + length bm) (m0\<lparr>xm_bitmap := Some bm\<rparr>) 0 (xmeta_crc bm)
      = Inr (m0\<lparr>xm_bitmap := Some bm, xm_astat := (if 0 < sint (xm_astat_count m) then xm_astat m else xm_astat m0)\<rparr>,
          off + length (xmeta_body m), xmeta_crc (xmeta_body m))"
  proof (cases "0 < sint (xm_astat_count m)")
    case True
    have "xmeta_get buf (off + length bm) 56 = Some (astat_bytes (xm_astat m), off + length bm + 56)"
      by (rule get_at [of buf "acc @ bm" "astat_bytes (xm_astat m)" "?C @ rest"]) (use buf body True in simp_all)
    then show ?thesis using True m0 by (simp add: astat_loop_one body crc32c_sw_append)
  next
    case False
    then show ?thesis using m0 by (simp add: astat_loop_none body)
  qed
  then show ?thesis
    unfolding xmeta_decode_bitmap_astat_def Let_def m0(1) bm(2) [symmetric] g1 option.case prod.case
    by (simp add: ok g3)
qed

lemma section_step:
  assumes buf: "buf = acc @ section_bytes (ty, p) @ rest" "off = length acc" and p: "length p \<le> BRIX_XMETA_MAX_SECTION"
  shows "xmeta_section_loop malloc buf (Suc n) off m =
     (case xmeta_decode_section malloc m ty p of
        None \<Rightarrow> Inl (XMETA_ERR EBADMSG)
      | Some m' \<Rightarrow> xmeta_section_loop malloc buf n (off + length (section_bytes (ty, p))) m')"
proof -
  let ?L = "le_bytes 4 (of_nat (length p) :: u32)" and ?C = "le_bytes 4 (xmeta_crc (section_head ty p))"
  have b: "buf = acc @ le_bytes 2 ty @ le_bytes 2 (0 :: u16) @ ?L @ p @ ?C @ rest"
    using buf by (simp add: section_bytes_def section_head_def)
  have g1: "xmeta_get buf off 2 = Some (le_bytes 2 ty, off + 2)"
    by (rule get_at [OF b]) (use buf in simp_all)
  have g2: "xmeta_get buf (off + 2) 2 = Some (le_bytes 2 (0 :: u16), off + 4)"
    using get_at [of buf "acc @ le_bytes 2 ty" "le_bytes 2 (0 :: u16)" "?L @ p @ ?C @ rest" "off + 2" 2] b buf by simp
  have g3: "xmeta_get buf (off + 4) 4 = Some (?L, off + 8)"
    using get_at [of buf "acc @ le_bytes 2 ty @ le_bytes 2 (0 :: u16)" ?L "p @ ?C @ rest" "off + 4" 4] b buf by simp
  have pl: "unat (le_word ?L :: u32) = length p" using p by (simp add: unat_of_nat)
  have s1: "slice (off + 8 + length p) 4 buf = ?C" unfolding b using buf(2) by (simp add: slice_def)
  have "buf = acc @ section_head ty p @ ?C @ rest" using buf by (simp add: section_bytes_def)
  then have s2: "slice off (8 + length p) buf = section_head ty p" using buf(2) by (simp add: slice_def)
  have s3: "slice (off + 8) (length p) buf = p" unfolding b using buf(2) by (simp add: slice_def)
  have w: "le_word ?C = xmeta_crc (section_head ty p)" "le_word (le_bytes 2 ty) = ty" by simp_all
  have n: "(length p > BRIX_XMETA_MAX_SECTION \<or> length buf - (off + 8) < length p + 4) = False"
    unfolding b using buf(2) p by simp
  have o: "off + 8 + (length p + 4) = off + length (section_bytes (ty, p))" by simp
  show ?thesis
    unfolding xmeta_section_loop.simps g1 g2 g3 option.case prod.case Let_def pl s1 s2 s3 w n o if_False
    by simp
qed

declare xmeta_section_loop.simps(2) [simp del]

text \<open>The effect of a sequence of sections, checksums apart.\<close>

fun xmeta_apply :: "malloc_t \<Rightarrow> (u16 \<times> bytes) list \<Rightarrow> brix_xmeta_t \<Rightarrow> brix_xmeta_t option" where
  "xmeta_apply malloc [] m = Some m"
| "xmeta_apply malloc ((ty, p) # ss) m =
     (case xmeta_decode_section malloc m ty p of None \<Rightarrow> None | Some m' \<Rightarrow> xmeta_apply malloc ss m')"

lemma xmeta_apply_append:
  "xmeta_apply malloc (ss @ ts) m = (case xmeta_apply malloc ss m of None \<Rightarrow> None | Some m' \<Rightarrow> xmeta_apply malloc ts m')"
  by (induction ss arbitrary: m) (auto split: option.splits)

lemma section_loop_run:
  assumes "\<forall>(ty, p) \<in> set ss. length p \<le> BRIX_XMETA_MAX_SECTION"
  shows "buf = acc @ concat (map section_bytes ss) @ rest \<Longrightarrow> off = length acc \<Longrightarrow>
    xmeta_section_loop malloc buf (length ss + n) off m =
     (case xmeta_apply malloc ss m of None \<Rightarrow> Inl (XMETA_ERR EBADMSG)
      | Some m' \<Rightarrow> xmeta_section_loop malloc buf n (off + length (concat (map section_bytes ss))) m')"
  using assms
proof (induction ss arbitrary: acc off m)
  case (Cons s ss)
  obtain ty p where s: "s = (ty, p)" by (cases s)
  have p: "length p \<le> BRIX_XMETA_MAX_SECTION" using Cons.prems(3) s by simp
  have b: "buf = acc @ section_bytes (ty, p) @ (concat (map section_bytes ss) @ rest)" using Cons.prems(1) s by simp
  have b': "buf = (acc @ section_bytes (ty, p)) @ concat (map section_bytes ss) @ rest" using b by simp
  have IH: "xmeta_section_loop malloc buf (length ss + n) (off + length (section_bytes (ty, p))) m' =
     (case xmeta_apply malloc ss m' of None \<Rightarrow> Inl (XMETA_ERR EBADMSG)
      | Some m'' \<Rightarrow> xmeta_section_loop malloc buf n (off + length (section_bytes (ty, p)) + length (concat (map section_bytes ss))) m'')"
    for m' by (rule Cons.IH [OF b']) (use Cons.prems in auto)
  show ?case
    unfolding s list.size add_Suc_right add_Suc plus_1_eq_Suc [symmetric] using section_step [OF b Cons.prems(2) p, of malloc "length ss + n" m] IH
    by (simp add: add.assoc split: option.splits)
qed simp

definition xmeta_pad :: "nat \<Rightarrow> byte \<Rightarrow> bytes \<Rightarrow> bytes" where
  "xmeta_pad n len arr = take (unat len) arr @ replicate (n - unat len) 0"

text \<open>
  What a record keeps through its encoding: at most one access record, the state fields of a record that has a
  state, the strings up to their lengths, and a tracked table of block checksums.
\<close>

definition xmeta_norm :: "brix_xmeta_t \<Rightarrow> brix_xmeta_t" where
  "xmeta_norm m = m\<lparr>xm_astat_count := (if 0 < sint (xm_astat_count m) then 1 else 0),
      xm_astat := (if 0 < sint (xm_astat_count m) then xm_astat m else xmeta_astat_zero),
      xm_origin_mtime := (if xm_have_state m then xm_origin_mtime m else 0),
      xm_dirty_lo := (if xm_have_state m then xm_dirty_lo m else 0),
      xm_dirty_hi := (if xm_have_state m then xm_dirty_hi m else 0),
      xm_flush_gen := (if xm_have_state m then xm_flush_gen m else 0),
      xm_dirty_since := (if xm_have_state m then xm_dirty_since m else 0),
      xm_last_flush := (if xm_have_state m then xm_last_flush m else 0),
      xm_bytes_flushed := (if xm_have_state m then xm_bytes_flushed m else 0),
      xm_expires_at := (if xm_have_state m then xm_expires_at m else 0),
      xm_filled_at := (if xm_have_state m then xm_filled_at m else 0),
      xm_mode := (if xm_have_state m then xm_mode m else 0),
      xm_state_flags := (if xm_have_state m then xm_state_flags m else 0),
      xm_etag := xmeta_pad 128 (xm_etag_len m) (xm_etag m),
      xm_cks_alg := xmeta_pad 16 (xm_cks_alg_len m) (xm_cks_alg m),
      xm_cks_hex := xmeta_pad 129 (xm_cks_len m) (xm_cks_hex m),
      xm_blockcrc := (if xm_have_blockcrc m then xm_blockcrc m else None)\<rparr>"

definition xmeta_with_state :: "brix_xmeta_t \<Rightarrow> brix_xmeta_t \<Rightarrow> brix_xmeta_t" where
  "xmeta_with_state m m0 = m0\<lparr>xm_have_state := True, xm_origin_mtime := xm_origin_mtime m, xm_dirty_lo := xm_dirty_lo m,
      xm_dirty_hi := xm_dirty_hi m, xm_flush_gen := xm_flush_gen m, xm_dirty_since := xm_dirty_since m,
      xm_last_flush := xm_last_flush m, xm_bytes_flushed := xm_bytes_flushed m, xm_expires_at := xm_expires_at m,
      xm_filled_at := xm_filled_at m, xm_mode := xm_mode m, xm_state_flags := xm_state_flags m\<rparr>"

lemma decode_state_image: "xmeta_decode_state m0 (state_bytes (xmeta_state m)) = Some (xmeta_with_state m m0)"
  by (simp add: xmeta_decode_state_def xmeta_with_state_def Let_def) (simp add: xmeta_state_def)

lemma slice_next: "off = length acc \<Longrightarrow> n = length x \<Longrightarrow> slice off n (acc @ x @ rest) = x"
  by (simp add: slice_def)

lemma memcpy_zeros: "memcpy_at 0 src (replicate n 0) = src @ replicate (n - length src) 0"
  by (simp add: memcpy_at_def)

lemma decode_origin_image:
  assumes "length (xm_etag m) = 128" "unat (xm_etag_len m) \<le> 128" "length (xm_cks_alg m) = 16" "unat (xm_cks_alg_len m) \<le> 16"
    "length (xm_cks_hex m) = 129" "unat (xm_cks_len m) \<le> 129"
    and z: "xm_etag m0 = replicate 128 0" "xm_cks_alg m0 = replicate 16 0" "xm_cks_hex m0 = replicate 129 0"
  shows "xmeta_decode_origin m0 (origin_bytes m) = Some (m0\<lparr>xm_etag_len := xm_etag_len m,
     xm_etag := xmeta_pad 128 (xm_etag_len m) (xm_etag m), xm_cks_alg_len := xm_cks_alg_len m,
     xm_cks_alg := xmeta_pad 16 (xm_cks_alg_len m) (xm_cks_alg m), xm_cks_len := xm_cks_len m,
     xm_cks_hex := xmeta_pad 129 (xm_cks_len m) (xm_cks_hex m)\<rparr>)"
proof -
  let ?e = "take (unat (xm_etag_len m)) (xm_etag m)" and ?a = "take (unat (xm_cks_alg_len m)) (xm_cks_alg m)"
    and ?c = "take (unat (xm_cks_len m)) (xm_cks_hex m)"
  have len: "length ?e = unat (xm_etag_len m)" "length ?a = unat (xm_cks_alg_len m)" "length ?c = unat (xm_cks_len m)"
    using assms by simp_all
  let ?h = "[xm_etag_len m, xm_cks_alg_len m, xm_cks_len m, 0]"
  have s1: "slice 4 (unat (xm_etag_len m)) (origin_bytes m) = ?e"
    using slice_next [of 4 ?h "unat (xm_etag_len m)" ?e "?a @ ?c"] len(1) by (simp add: origin_bytes_def)
  have s2: "slice (4 + unat (xm_etag_len m)) (unat (xm_cks_alg_len m)) (origin_bytes m) = ?a"
    using slice_next [of "4 + unat (xm_etag_len m)" "?h @ ?e" "unat (xm_cks_alg_len m)" ?a ?c] len(1,2)
    by (simp add: origin_bytes_def)
  have s3: "slice (4 + unat (xm_etag_len m) + unat (xm_cks_alg_len m)) (unat (xm_cks_len m)) (origin_bytes m) = ?c"
    using slice_next [of "4 + unat (xm_etag_len m) + unat (xm_cks_alg_len m)" "?h @ ?e @ ?a" "unat (xm_cks_len m)" ?c "[]"] len
    by (simp add: origin_bytes_def)
  have h: "origin_bytes m ! 0 = xm_etag_len m" "origin_bytes m ! 1 = xm_cks_alg_len m" "origin_bytes m ! 2 = xm_cks_len m"
    by (simp_all add: origin_bytes_def)
  have n: "(length (origin_bytes m) < 4) = False" "(unat (xm_etag_len m) > 128 \<or> unat (xm_cks_alg_len m) > 16 \<or> unat (xm_cks_len m) > 129
      \<or> length (origin_bytes m) < 4 + unat (xm_etag_len m) + unat (xm_cks_alg_len m) + unat (xm_cks_len m)) = False"
    using assms len by (simp_all add: origin_bytes_def)
  show ?thesis
    unfolding xmeta_decode_origin_def h Let_def n if_False s1 s2 s3
    unfolding z memcpy_zeros xmeta_pad_def len ..
qed

lemma u32_list_image [simp]: "n = length t \<Longrightarrow> u32_list n (concat (map (le_bytes 4) t)) = t"
  by (induction t arbitrary: n) simp_all

lemma decode_blockcrc_image:
  assumes "malloc_ok malloc" "xm_blockcrc m = Some t" "length t = unat (xm_nblocks m)" "xm_nblocks m0 = xm_nblocks m"
  shows "xmeta_decode_blockcrc malloc m0 (blockcrc_bytes m t) = Some (m0\<lparr>xm_blockcrc := Some t, xm_have_blockcrc := True\<rparr>)"
proof -
  have ok: "malloc n \<noteq> None" for n using assms(1) by (metis malloc_ok_def option.discI)
  have l: "length (blockcrc_bytes m t) = 16 + unat (xm_nblocks m) * 4" using assms by (simp add: blockcrc_bytes_def)
  have s: "slice 8 8 (blockcrc_bytes m t) = le_bytes 8 (xm_nblocks m)"
    by (simp add: blockcrc_bytes_def slice_append_left slice_append_right)
  have d: "drop 16 (blockcrc_bytes m t) = concat (map (le_bytes 4) t)" using assms(3) by (simp add: blockcrc_bytes_def)
  show ?thesis using assms ok by (simp add: xmeta_decode_blockcrc_def l s d Let_def)
qed

lemma xmeta_wf_blocks:
  assumes "xmeta_wf m"
  shows "xmeta_nblocks (xm_file_size m) (xm_buffer_size m) \<le> BRIX_XMETA_MAX_BLOCKS" "unat (xm_nblocks m) \<le> 67108864"
proof -
  have "xm_nblocks m \<le> BRIX_XMETA_MAX_BLOCKS" "xmeta_nblocks (xm_file_size m) (xm_buffer_size m) = xm_nblocks m"
    using assms unfolding xmeta_wf_def by blast+
  then show "xmeta_nblocks (xm_file_size m) (xm_buffer_size m) \<le> BRIX_XMETA_MAX_BLOCKS" "unat (xm_nblocks m) \<le> 67108864"
    by (simp_all add: word_le_nat_alt)
qed

lemma decode_stock_image:
  assumes wf: "xmeta_wf m" and malloc: "malloc_ok malloc"
  shows "brix_xmeta_decode malloc (stock_bytes m @ rest)
    = xmeta_decode_ext_sections malloc (stock_bytes m @ rest) (length (stock_bytes m)) (xmeta_stock_part m)"
proof -
  let ?s = "xmeta_store m" and ?buf = "stock_bytes m @ rest"
  let ?h = "le_bytes 4 BRIX_XMETA_STOCK_VERSION @ store_bytes ?s @ le_bytes 4 (xmeta_crc (store_bytes ?s))"
  let ?C = "le_bytes 4 (xmeta_crc (xmeta_body m))"
  obtain bm where bm: "xm_bitmap m = Some bm" "length bm = xmeta_bitmap_len (xm_nblocks m)"
    using wf by (auto simp: xmeta_wf_def)
  have nb: "xmeta_nblocks (ss_file_size ?s) (ss_buffer_size ?s) = xm_nblocks m"
    using wf by (simp add: xmeta_store_def xmeta_wf_def)
  define m0 where "m0 = xmeta_zero\<lparr>xm_buffer_size := ss_buffer_size ?s, xm_file_size := ss_file_size ?s,
      xm_creation_time := ss_creation_time ?s, xm_no_cksum_time := ss_no_cksum_time ?s, xm_access_cnt := ss_access_cnt ?s,
      xm_status_raw := ss_status_raw ?s, xm_astat_count := ss_astat_size ?s, xm_nblocks := xm_nblocks m\<rparr>"
  have b1: "?buf = le_bytes 4 BRIX_XMETA_STOCK_VERSION @ store_bytes ?s @ le_bytes 4 (xmeta_crc (store_bytes ?s))
      @ (xmeta_body m @ ?C @ rest)"
    by (simp add: stock_bytes_def)
  have "xmeta_decode_stock_store ?buf 0 xmeta_zero = Inr (m0, 56)"
    unfolding m0_def nb [symmetric]
    by (rule decode_store_image [OF _ _ _ _ b1])
      (use wf xmeta_wf_blocks [OF wf] in \<open>simp_all add: xmeta_store_def xmeta_wf_def\<close>)
  moreover have "xmeta_decode_bitmap_astat malloc ?buf 56 m0 = Inr (m0\<lparr>xm_bitmap := Some bm,
      xm_astat := (if 0 < sint (xm_astat_count m) then xm_astat m else xm_astat m0)\<rparr>, 56 + length (xmeta_body m) + 4)"
    by (rule decode_body_image [OF bm malloc, of _ ?h]) (simp_all add: b1 m0_def xmeta_store_def)
  moreover have "m0\<lparr>xm_bitmap := Some bm, xm_astat := (if 0 < sint (xm_astat_count m) then xm_astat m else xm_astat m0)\<rparr> = xmeta_stock_part m"
    by (simp add: m0_def xmeta_store_def xmeta_stock_part_def xmeta_zero_def bm)
  moreover have "56 + length (xmeta_body m) + 4 = length (stock_bytes m)" by (simp add: stock_bytes_def)
  ultimately show ?thesis unfolding brix_xmeta_decode_def by simp
qed

lemma xmeta_pad_zero: "n = k \<Longrightarrow> xmeta_pad k 0 arr = replicate n 0"
  by (simp add: xmeta_pad_def)

lemma xmeta_apply_image:
  assumes wf: "xmeta_wf m" and malloc: "malloc_ok malloc"
  shows "xmeta_apply malloc (xmeta_sections m) (xmeta_stock_part m) = Some (xmeta_norm m)"
proof -
  have ok: "\<exists>y. malloc n = Some y" for n using malloc by (metis malloc_ok_def)
  let ?O = "if xm_etag_len m > 0 \<or> xm_cks_len m > 0 \<or> xm_cks_alg_len m > 0 then [(BRIX_XMETA_SEC_ORIGIN, origin_bytes m)] else []"
  let ?D = "case xm_digests m of None \<Rightarrow> [] | Some d \<Rightarrow> [(BRIX_XMETA_SEC_DIGEST, take (unat (xm_digests_len m)) d)]"
  let ?B = "case xm_blockcrc m of Some t \<Rightarrow> (if xm_have_blockcrc m then [(BRIX_XMETA_SEC_BLOCKCRC, blockcrc_bytes m t)] else []) | None \<Rightarrow> []"
  define m1 where "m1 = (if xm_have_state m then xmeta_with_state m (xmeta_stock_part m) else xmeta_stock_part m)"
  define m2 where "m2 = m1\<lparr>xm_etag_len := xm_etag_len m, xm_etag := xmeta_pad 128 (xm_etag_len m) (xm_etag m),
     xm_cks_alg_len := xm_cks_alg_len m, xm_cks_alg := xmeta_pad 16 (xm_cks_alg_len m) (xm_cks_alg m),
     xm_cks_len := xm_cks_len m, xm_cks_hex := xmeta_pad 129 (xm_cks_len m) (xm_cks_hex m)\<rparr>"
  define m3 where "m3 = m2\<lparr>xm_digests := xm_digests m, xm_digests_len := xm_digests_len m\<rparr>"
  define m4 where "m4 = m3\<lparr>xm_have_blockcrc := xm_have_blockcrc m, xm_blockcrc := (if xm_have_blockcrc m then xm_blockcrc m else None)\<rparr>"
  have z: "xm_etag m1 = replicate 128 0" "xm_cks_alg m1 = replicate 16 0" "xm_cks_hex m1 = replicate 129 0"
      "xm_etag_len m1 = 0" "xm_cks_alg_len m1 = 0" "xm_cks_len m1 = 0" "xm_digests m1 = None" "xm_digests_len m1 = 0"
      "xm_nblocks m1 = xm_nblocks m" "xm_have_blockcrc m1 = False" "xm_blockcrc m1 = None"
    unfolding m1_def xmeta_stock_part_def xmeta_with_state_def xmeta_zero_def by simp_all
  have 1: "xmeta_apply malloc (if xm_have_state m then [(BRIX_XMETA_SEC_STATE, state_bytes (xmeta_state m))] else []) (xmeta_stock_part m) = Some m1"
    by (simp add: m1_def xmeta_decode_section_def decode_state_image)
  have 2: "xmeta_apply malloc ?O m1 = Some m2"
  proof (cases "xm_etag_len m > 0 \<or> xm_cks_len m > 0 \<or> xm_cks_alg_len m > 0")
    case True
    then have O: "?O = [(BRIX_XMETA_SEC_ORIGIN, origin_bytes m)]" by presburger
    have "xmeta_decode_origin m1 (origin_bytes m) = Some m2"
      unfolding m2_def by (rule decode_origin_image) (use wf z in \<open>simp_all only: xmeta_wf_def\<close>)
    then show ?thesis unfolding O by (simp add: xmeta_decode_section_def)
  next
    case False
    then have l: "xm_etag_len m = 0" "xm_cks_len m = 0" "xm_cks_alg_len m = 0" by (simp_all add: not_less)
    have "m2 = m1\<lparr>xm_etag_len := xm_etag_len m1, xm_etag := xm_etag m1, xm_cks_alg_len := xm_cks_alg_len m1,
       xm_cks_alg := xm_cks_alg m1, xm_cks_len := xm_cks_len m1, xm_cks_hex := xm_cks_hex m1\<rparr>"
      unfolding m2_def l z xmeta_pad_zero [OF refl] ..
    then have "m2 = m1" by simp
    then show ?thesis using l by simp
  qed
  have 3: "xmeta_apply malloc ?D m2 = Some m3"
  proof (cases "xm_digests m")
    case None
    then have "xm_digests_len m = 0" using wf by (simp add: xmeta_wf_def)
    then have "m3 = m2\<lparr>xm_digests := xm_digests m2, xm_digests_len := xm_digests_len m2\<rparr>"
      unfolding m3_def None using z(7,8) by (simp add: m2_def)
    then show ?thesis using None by simp
  next
    case (Some d)
    then have "length d = unat (xm_digests_len m)" using wf by (simp add: xmeta_wf_def)
    then show ?thesis using Some ok by (simp add: xmeta_decode_section_def xmeta_decode_digest_def m3_def)
  qed
  have "xmeta_apply malloc ?B m3 = Some m4"
  proof (cases "xm_have_blockcrc m \<and> xm_blockcrc m \<noteq> None")
    case True
    then obtain t where t: "xm_blockcrc m = Some t" "xm_have_blockcrc m" by blast
    have "length t = unat (xm_nblocks m)" using t wf by (simp add: xmeta_wf_def)
    moreover have "xm_nblocks m3 = xm_nblocks m" using z(9) by (simp add: m3_def m2_def)
    ultimately show ?thesis using t decode_blockcrc_image [OF malloc t(1)]
      by (simp add: xmeta_decode_section_def m4_def)
  next
    case False
    then have h: "\<not> xm_have_blockcrc m" using wf by (auto simp: xmeta_wf_def split: option.splits)
    then have "m4 = m3\<lparr>xm_have_blockcrc := xm_have_blockcrc m3, xm_blockcrc := xm_blockcrc m3\<rparr>"
      unfolding m4_def using z(10,11) by (simp add: m3_def m2_def)
    then have "m4 = m3" by simp
    then show ?thesis using h by (simp split: option.splits)
  qed
  moreover have "m4 = xmeta_norm m"
    unfolding m4_def m3_def m2_def m1_def xmeta_stock_part_def xmeta_norm_def xmeta_with_state_def xmeta_zero_def
    by (cases m) simp
  ultimately show ?thesis using 1 2 3 by (simp add: xmeta_sections_def xmeta_apply_append)
qed

lemma sections_bounded:
  assumes "xmeta_wf m" "unat (xm_digests_len m) \<le> BRIX_XMETA_MAX_SECTION"
  shows "\<forall>(ty, p) \<in> set (xmeta_sections m). length p \<le> BRIX_XMETA_MAX_SECTION" and "length (xmeta_sections m) \<le> 4"
proof -
  from xmeta_wf_blocks(2) [OF assms(1)] show "\<forall>(ty, p) \<in> set (xmeta_sections m). length p \<le> BRIX_XMETA_MAX_SECTION"
    using assms by (auto simp: xmeta_sections_def origin_bytes_def blockcrc_bytes_def xmeta_wf_def split: option.splits if_splits)
qed (simp add: xmeta_sections_def split: option.splits)

lemma ext_head_decode:
  assumes "buf = acc @ ext_head m @ rest" "off = length acc" "length (xmeta_sections m) \<le> 4"
  shows "xmeta_decode_ext_sections malloc buf off m0 = xmeta_section_loop malloc buf (length (xmeta_sections m)) (off + 8) m0"
proof -
  let ?M = "le_bytes 4 BRIX_XMETA_EXT_MAGIC" and ?V = "le_bytes 2 BRIX_XMETA_EXT_VERSION" and ?N = "le_bytes 2 (of_nat (length (xmeta_sections m)) :: u16)"
  have b: "buf = acc @ ?M @ ?V @ ?N @ rest" using assms by (simp add: ext_head_def)
  have g: "xmeta_get buf off 4 = Some (?M, off + 4)" "xmeta_get buf (off + 4) 2 = Some (?V, off + 6)"
      "xmeta_get buf (off + 6) 2 = Some (?N, off + 8)"
    using get_at [of buf acc ?M "?V @ ?N @ rest" off 4] get_at [of buf "acc @ ?M" ?V "?N @ rest" "off + 4" 2]
      get_at [of buf "acc @ ?M @ ?V" ?N rest "off + 6" 2] b assms(2) by simp_all
  have "unat (of_nat (length (xmeta_sections m)) :: u16) = length (xmeta_sections m)" using assms(3) by (simp add: unat_of_nat)
  moreover have "off \<noteq> length buf" using b assms(2) by simp
  ultimately show ?thesis by (simp add: xmeta_decode_ext_sections_def g)
qed

lemma decode_image:
  assumes wf: "xmeta_wf m" "unat (xm_digests_len m) \<le> BRIX_XMETA_MAX_SECTION" and malloc: "malloc_ok malloc"
  shows "brix_xmeta_decode malloc (xmeta_image m) = Inr (xmeta_norm m)"
proof -
  let ?s = "stock_bytes m" and ?e = "ext_head m" and ?c = "concat (map section_bytes (xmeta_sections m))"
  have "brix_xmeta_decode malloc (xmeta_image m) = xmeta_decode_ext_sections malloc (xmeta_image m) (length ?s) (xmeta_stock_part m)"
    unfolding xmeta_image_def by (rule decode_stock_image [OF wf(1) malloc])
  also have "\<dots> = xmeta_section_loop malloc (xmeta_image m) (length (xmeta_sections m) + 0) (length ?s + 8) (xmeta_stock_part m)"
    using ext_head_decode [of "xmeta_image m" ?s m ?c] sections_bounded(2) [OF wf] by (simp add: xmeta_image_def)
  also have "\<dots> = Inr (xmeta_norm m)"
    using section_loop_run [OF sections_bounded(1) [OF wf], of "xmeta_image m" "?s @ ?e" "[]" "length ?s + 8" malloc 0 "xmeta_stock_part m"]
      xmeta_apply_image [OF wf(1) malloc] by (simp add: xmeta_image_def ext_head_def)
  finally show ?thesis .
qed

section \<open>Every decoded record is well formed\<close>

lemma decode_state_wf:
  assumes "xmeta_wf m" "xmeta_decode_state m p = Some m'"
  shows "xmeta_wf m'"
proof -
  define s where "s = state_of (take 80 p)"
  have "m' = m\<lparr>xm_have_state := True, xm_origin_mtime := sw_origin_mtime s, xm_dirty_lo := sw_dirty_lo s,
                xm_dirty_hi := sw_dirty_hi s, xm_flush_gen := sw_flush_gen s,
                xm_dirty_since := sw_dirty_since s, xm_last_flush := sw_last_flush s,
                xm_bytes_flushed := sw_bytes_flushed s, xm_expires_at := sw_expires_at s,
                xm_filled_at := sw_filled_at s, xm_mode := sw_mode s, xm_state_flags := sw_state_flags s\<rparr>"
    using assms(2) by (simp add: xmeta_decode_state_def Let_def s_def split: if_splits)
  then show ?thesis using assms(1) by (simp add: xmeta_wf_def cong: option.case_cong)
qed

lemma decode_origin_wf:
  assumes "xmeta_wf m" "xmeta_decode_origin m p = Some m'"
  shows "xmeta_wf m'"
proof -
  define el al cl where "el = unat (p ! 0)" and "al = unat (p ! 1)" and "cl = unat (p ! 2)"
  note d = assms(2) [unfolded xmeta_decode_origin_def Let_def, folded el_def al_def cl_def]
  have l: "el \<le> 128" "al \<le> 16" "cl \<le> 129" "4 + el + al + cl \<le> length p"
    using d by (simp_all split: if_splits)
  have m': "m' = m\<lparr>xm_etag_len := p ! 0, xm_etag := memcpy_at 0 (slice 4 el p) (xm_etag m),
      xm_cks_alg_len := p ! 1, xm_cks_alg := memcpy_at 0 (slice (4 + el) al p) (xm_cks_alg m),
      xm_cks_len := p ! 2, xm_cks_hex := memcpy_at 0 (slice (4 + el + al) cl p) (xm_cks_hex m)\<rparr>"
    using d by (simp split: if_splits)
  show ?thesis using assms(1) l unfolding xmeta_wf_def m'
    by (simp add: el_def [symmetric] al_def [unfolded One_nat_def, symmetric] cl_def [symmetric] cong: option.case_cong)
qed

lemma decode_digest_wf:
  assumes "xmeta_wf m" "length p \<le> BRIX_XMETA_MAX_SECTION" "xmeta_decode_digest malloc m p = Some m'"
  shows "xmeta_wf m'"
proof -
  have "length p = unat (of_nat (length p) :: u32)" using assms(2) by (simp add: unat_of_nat)
  moreover have "m' = m\<lparr>xm_digests := Some p, xm_digests_len := of_nat (length p)\<rparr>"
    using assms(3) by (simp add: xmeta_decode_digest_def split: if_splits)
  ultimately show ?thesis using assms(1) by (simp add: xmeta_wf_def cong: option.case_cong)
qed

lemma decode_blockcrc_wf:
  assumes "xmeta_wf m" "xmeta_decode_blockcrc malloc m p = Some m'"
  shows "xmeta_wf m'"
proof -
  have l: "length (u32_list n b) = n" for n b by (induction n arbitrary: b) simp_all
  have "m' = m\<lparr>xm_blockcrc := Some (u32_list (unat (xm_nblocks m)) (drop 16 p)), xm_have_blockcrc := True\<rparr>"
    using assms(2) by (simp add: xmeta_decode_blockcrc_def Let_def split: if_splits)
  then show ?thesis using assms(1) by (simp add: xmeta_wf_def l cong: option.case_cong)
qed

lemma decode_section_wf:
  assumes "xmeta_wf m" "length p \<le> BRIX_XMETA_MAX_SECTION" "xmeta_decode_section malloc m ty p = Some m'"
  shows "xmeta_wf m'"
  using assms decode_state_wf decode_origin_wf decode_digest_wf decode_blockcrc_wf
  unfolding xmeta_decode_section_def by (metis option.inject)

lemma section_loop_wf:
  "xmeta_wf m \<Longrightarrow> xmeta_section_loop malloc buf n off m = Inr m' \<Longrightarrow> xmeta_wf m'"
proof (induction n arbitrary: off m)
  case (Suc n)
  obtain plen off3 ty m1 where "\<not> BRIX_XMETA_MAX_SECTION < plen" "\<not> length buf - off3 < plen + 4"
      "xmeta_decode_section malloc m ty (slice off3 plen buf) = Some m1"
      "xmeta_section_loop malloc buf n (off3 + (plen + 4)) m1 = Inr m'"
    using Suc.prems(2) by (auto simp: xmeta_section_loop.simps Let_def split: option.splits prod.splits if_splits)
  note step = this
  have "length (slice off3 plen buf) \<le> BRIX_XMETA_MAX_SECTION" using step(1) by (simp add: slice_def)
  then have "xmeta_wf m1" using decode_section_wf [OF Suc.prems(1) _ step(3)] by blast
  then show ?case using Suc.IH step(4) by blast
qed simp

lemma astat_loop_frame:
  "xmeta_astat_loop buf off m i want = Inr (m', off', want') \<Longrightarrow> \<exists>a. m' = m\<lparr>xm_astat := a\<rparr>"
proof (induction buf off m i want rule: xmeta_astat_loop.induct)
  case (1 buf off m i want)
  show ?case
  proof (cases "int (unat i) < sint (xm_astat_count m)")
    case True
    then obtain a o1 where g: "xmeta_get buf off 56 = Some (a, o1)"
      using 1(2) by (auto simp: xmeta_astat_loop.simps split: option.splits)
    let ?m = "if i = 0 then m\<lparr>xm_astat := astat_of a\<rparr> else m"
    obtain b where "m' = ?m\<lparr>xm_astat := b\<rparr>"
      using 1(1) [OF True g refl] 1(2) True g by (auto simp: xmeta_astat_loop.simps [of buf off m i want] split: if_splits)
    then show ?thesis by auto
  next
    case False
    then have "m' = m\<lparr>xm_astat := xm_astat m\<rparr>" using 1(2) by (simp add: xmeta_astat_loop.simps)
    then show ?thesis by blast
  qed
qed

lemma decode_wf:
  assumes "brix_xmeta_decode malloc buf = Inr m"
  shows "xmeta_wf m"
proof -
  obtain m1 o1 m2 o2 where d: "xmeta_decode_stock_store buf 0 xmeta_zero = Inr (m1, o1)"
      "xmeta_decode_bitmap_astat malloc buf o1 m1 = Inr (m2, o2)" "xmeta_decode_ext_sections malloc buf o2 m2 = Inr m"
    using assms by (auto simp: brix_xmeta_decode_def split: sum.splits)
  obtain pod s where s: "0 < sint (ss_buffer_size s)" "0 \<le> sint (ss_file_size s)" "0 \<le> sint (ss_astat_size s)"
      "xmeta_nblocks (ss_file_size s) (ss_buffer_size s) \<le> BRIX_XMETA_MAX_BLOCKS"
      "m1 = xmeta_zero\<lparr>xm_buffer_size := ss_buffer_size s, xm_file_size := ss_file_size s,
         xm_creation_time := ss_creation_time s, xm_no_cksum_time := ss_no_cksum_time s, xm_access_cnt := ss_access_cnt s,
         xm_status_raw := ss_status_raw s, xm_astat_count := ss_astat_size s,
         xm_nblocks := xmeta_nblocks (ss_file_size s) (ss_buffer_size s)\<rparr>" "s = store_of pod"
    using d(1) unfolding xmeta_decode_stock_store_def Let_def
    by (auto simp: not_le not_less split: option.splits prod.splits if_splits)
  have nb: "xm_nblocks m1 = xmeta_nblocks (ss_file_size s) (ss_buffer_size s)" by (simp add: s(5))
  obtain bm o3 want where b: "xmeta_get buf o1 (xmeta_bitmap_len (xm_nblocks m1)) = Some (bm, o3)"
      "xmeta_astat_loop buf o3 (m1\<lparr>xm_bitmap := Some bm\<rparr>) 0 (xmeta_crc bm) = Inr (m2, o2 - 4, want)"
    using d(2) unfolding xmeta_decode_bitmap_astat_def Let_def
    by (auto simp: xmeta_get_def split: option.splits prod.splits if_splits sum.splits)
  obtain a where m2: "m2 = m1\<lparr>xm_bitmap := Some bm, xm_astat := a\<rparr>" using astat_loop_frame [OF b(2)] by auto
  have "length bm = xmeta_bitmap_len (xm_nblocks m1)" using xmeta_get_Some(3) [OF b(1)] .
  then have "xmeta_wf m2" using s(1-4) unfolding m2 s(5) xmeta_wf_def by (simp add: xmeta_zero_def)
  then show ?thesis
    using d(3) section_loop_wf unfolding xmeta_decode_ext_sections_def
    by (auto split: option.splits prod.splits if_splits)
qed

section \<open>What acceptance says of the checksums\<close>

text \<open>
  A region of the octets is sealed when it is followed by its checksum.  A record is sealed when the Store
  struct, the body (bitmap and access records, as many as the struct says) and, after an extension header,
  each of the sections it announces is.
\<close>

definition sealed_at :: "bytes \<Rightarrow> nat \<Rightarrow> nat \<Rightarrow> bool" where
  "sealed_at buf off n \<longleftrightarrow> off + n + 4 \<le> length buf \<and> le_word (slice (off + n) 4 buf) = xmeta_crc (slice off n buf)"

fun sections_sealed :: "bytes \<Rightarrow> nat \<Rightarrow> nat \<Rightarrow> bool" where
  "sections_sealed buf off 0 = True"
| "sections_sealed buf off (Suc n) =
     (let plen = unat (le_word (slice (off + 4) 4 buf) :: u32)
      in sealed_at buf off (8 + plen) \<and> sections_sealed buf (off + 12 + plen) n)"

definition xmeta_sealed :: "bytes \<Rightarrow> bool" where
  "xmeta_sealed buf =
     (let s = store_of (slice 4 48 buf);
          blen = xmeta_bitmap_len (xmeta_nblocks (ss_file_size s) (ss_buffer_size s)) + 56 * nat (sint (ss_astat_size s));
          ext = 60 + blen
      in sealed_at buf 4 48 \<and> sealed_at buf 56 blen
         \<and> (ext + 8 \<le> length buf \<and> le_word (slice ext 4 buf) = BRIX_XMETA_EXT_MAGIC \<longrightarrow>
              sections_sealed buf (ext + 8) (unat (le_word (slice (ext + 6) 2 buf) :: u16))))"

lemma slice_add: "slice off (a + b) buf = slice off a buf @ slice (off + a) b buf"
  by (simp add: slice_def take_add add.commute)

lemma astat_loop_count:
  "xmeta_astat_loop buf off m i want = Inr r \<Longrightarrow> sint (xm_astat_count m) < 65536"
proof (induction buf off m i want rule: xmeta_astat_loop.induct)
  case (1 buf off m i want)
  show ?case
  proof (cases "int (unat i) < sint (xm_astat_count m)")
    case True
    then obtain a o1 where g: "xmeta_get buf off 56 = Some (a, o1)"
      using 1(2) by (auto simp: xmeta_astat_loop.simps split: option.splits)
    then show ?thesis
      using 1(1) [OF True g refl] 1(2) True
      by (simp add: xmeta_astat_loop.simps [of buf off m i want] split: if_splits)
  next
    case False
    moreover have "unat i < 2 ^ LENGTH(16)" by (rule unsigned_less)
    then have "unat i < 65536" by simp
    ultimately show ?thesis by linarith
  qed
qed

lemma astat_loop_crc:
  assumes "xmeta_astat_loop buf off m i (xmeta_crc acc) = Inr (m', off', want')"
  shows "off' = off + 56 * (nat (sint (xm_astat_count m)) - unat i)
    \<and> want' = xmeta_crc (acc @ slice off (off' - off) buf)"
  using assms
proof (induction "nat (sint (xm_astat_count m)) - unat i" arbitrary: off m i acc)
  case 0
  then have "\<not> int (unat i) < sint (xm_astat_count m)" by linarith
  then show ?case using 0 by (auto simp: xmeta_astat_loop.simps slice_def)
next
  case (Suc k)
  let ?c = "sint (xm_astat_count m)"
  have lt: "int (unat i) < ?c" using Suc.hyps(2) by linarith
  obtain a o1 where g: "xmeta_get buf off 56 = Some (a, o1)"
    using Suc.prems lt by (auto simp: xmeta_astat_loop.simps split: option.splits)
  then have a: "a = slice off 56 buf" "o1 = off + 56" using xmeta_get_Some by blast+
  have "unat i < 65535" using lt astat_loop_count [OF Suc.prems] by linarith
  then have i: "unat (i + 1) = unat i + 1" by (simp add: unat_word_ariths)
  let ?m = "if i = 0 then m\<lparr>xm_astat := astat_of a\<rparr> else m"
  have c: "xm_astat_count ?m = xm_astat_count m" by simp
  have r: "xmeta_astat_loop buf o1 ?m (i + 1) (xmeta_crc (acc @ a)) = Inr (m', off', want')"
    using Suc.prems lt g by (simp add: xmeta_astat_loop.simps [of buf off m i] crc32c_sw_append)
  have k: "k = nat (sint (xm_astat_count ?m)) - unat (i + 1)" using Suc.hyps(2) i c by simp
  from Suc.hyps(1) [OF k r]
  have off': "off' = o1 + 56 * k" and want': "want' = xmeta_crc ((acc @ a) @ slice o1 (off' - o1) buf)"
    using k by auto
  have "slice off (56 + 56 * k) buf = a @ slice o1 (56 * k) buf" using a slice_add by metis
  then show ?case using off' want' a(2) Suc.hyps(2) by (simp flip: Suc.hyps(2))
qed

lemma section_loop_sealed:
  "xmeta_section_loop malloc buf n off m = Inr m' \<Longrightarrow> sections_sealed buf off n"
proof (induction n arbitrary: off m)
  case (Suc n)
  let ?p = "unat (le_word (slice (off + 4) 4 buf) :: u32)"
  have len: "off + 8 \<le> length buf"
  proof (rule ccontr)
    assume "\<not> off + 8 \<le> length buf"
    then have "xmeta_section_loop malloc buf (Suc n) off m = Inl (XMETA_ERR EBADMSG)"
      by (auto simp: xmeta_section_loop.simps xmeta_get_def split: option.splits)
    then show False using Suc.prems by simp
  qed
  then have g: "xmeta_get buf off 2 = Some (slice off 2 buf, off + 2)" "xmeta_get buf (off + 2) 2 = Some (slice (off + 2) 2 buf, off + 4)"
      "xmeta_get buf (off + 4) 4 = Some (slice (off + 4) 4 buf, off + 8)"
    by (simp_all add: xmeta_get_def)
  have st: "\<not> length buf - (off + 8) < ?p + 4" "le_word (slice (off + 8 + ?p) 4 buf) = xmeta_crc (slice off (8 + ?p) buf)"
    using Suc.prems unfolding xmeta_section_loop.simps g option.case prod.case Let_def by (simp_all split: if_splits)
  obtain m1 where "xmeta_section_loop malloc buf n (off + 8 + (?p + 4)) m1 = Inr m'"
    using Suc.prems unfolding xmeta_section_loop.simps g option.case prod.case Let_def
    by (auto split: if_splits option.splits)
  from Suc.IH [OF this] have "sections_sealed buf (off + 12 + ?p) n" by (simp add: ac_simps)
  moreover have "sealed_at buf off (8 + ?p)" using st len by (simp add: sealed_at_def add.assoc)
  ultimately show ?case by (simp add: Let_def)
qed simp

lemma bitmap_astat_sealed:
  fixes m1 defines "b \<equiv> xmeta_bitmap_len (xm_nblocks m1)" and "k \<equiv> nat (sint (xm_astat_count m1))"
  assumes d: "xmeta_decode_bitmap_astat malloc buf 56 m1 = Inr (m2, o2)"
  shows "sealed_at buf 56 (b + 56 * k) \<and> o2 = 60 + (b + 56 * k)"
proof -
  let ?m = "m1\<lparr>xm_bitmap := Some (slice 56 b buf)\<rparr>"
  have g: "xmeta_get buf 56 b = Some (slice 56 b buf, 56 + b)"
    using d unfolding xmeta_decode_bitmap_astat_def Let_def b_def [symmetric] by (auto simp: xmeta_get_def split: if_splits)
  let ?loop = "xmeta_astat_loop buf (56 + b) ?m 0 (xmeta_crc (slice 56 b buf))"
  have st: "(case ?loop of Inl e \<Rightarrow> Inl e
      | Inr (m', off2, want) \<Rightarrow> (case xmeta_get buf off2 4 of None \<Rightarrow> Inl XMETA_FOREIGN
          | Some (crc, off3) \<Rightarrow> if le_word crc \<noteq> want then Inl (XMETA_ERR EBADMSG) else Inr (m', off3))) = Inr (m2, o2)"
    using d unfolding xmeta_decode_bitmap_astat_def Let_def b_def [symmetric] g option.case prod.case by (simp split: if_splits)
  obtain m3 off2 want where loop: "?loop = Inr (m3, off2, want)" using st by (cases ?loop) auto
  obtain crc where get: "xmeta_get buf off2 4 = Some (crc, o2)" and crc: "le_word crc = want"
    using st unfolding loop by (auto split: option.splits if_splits)
  have c: "crc = slice off2 4 buf" "o2 = off2 + 4" "off2 + 4 \<le> length buf" using xmeta_get_Some [OF get] by simp_all
  have o: "off2 = 56 + (b + 56 * k)" "want = xmeta_crc (slice 56 b buf @ slice (56 + b) (off2 - (56 + b)) buf)"
    using astat_loop_crc [OF loop] by (simp_all add: k_def)
  have "off2 - (56 + b) = 56 * k" using o(1) by simp
  then have "want = xmeta_crc (slice 56 (b + 56 * k) buf)" using o(2) slice_add [of 56 b "56 * k" buf] by simp
  then show ?thesis using c crc o(1) by (simp add: sealed_at_def)
qed

lemma decode_sealed:
  assumes "brix_xmeta_decode malloc buf = Inr m"
  shows "xmeta_sealed buf"
proof -
  obtain m1 o1 m2 o2 where d: "xmeta_decode_stock_store buf 0 xmeta_zero = Inr (m1, o1)"
      "xmeta_decode_bitmap_astat malloc buf o1 m1 = Inr (m2, o2)" "xmeta_decode_ext_sections malloc buf o2 m2 = Inr m"
    using assms by (auto simp: brix_xmeta_decode_def split: sum.splits)
  let ?s = "store_of (slice 4 48 buf)"
  let ?n = "xmeta_bitmap_len (xmeta_nblocks (ss_file_size ?s) (ss_buffer_size ?s)) + 56 * nat (sint (ss_astat_size ?s))"
  have s: "sealed_at buf 4 48" "o1 = 56" "xm_nblocks m1 = xmeta_nblocks (ss_file_size ?s) (ss_buffer_size ?s)"
      "xm_astat_count m1 = ss_astat_size ?s"
    using d(1) unfolding xmeta_decode_stock_store_def Let_def
    by (auto simp: sealed_at_def xmeta_get_def not_le not_less split: option.splits prod.splits if_splits)
  have body: "sealed_at buf 56 ?n" and o2: "o2 = 60 + ?n"
    using bitmap_astat_sealed [OF d(2) [unfolded s(2)]] unfolding s(3,4) by simp_all
  have "sections_sealed buf (60 + ?n + 8) (unat (le_word (slice (60 + ?n + 6) 2 buf) :: u16))"
    if ext: "60 + ?n + 8 \<le> length buf" "le_word (slice (60 + ?n) 4 buf) = BRIX_XMETA_EXT_MAGIC"
  proof -
    have len: "o2 + 8 \<le> length buf" and magic: "le_word (slice o2 4 buf) = BRIX_XMETA_EXT_MAGIC" using ext o2 by simp_all
    have gs: "xmeta_get buf o2 4 = Some (slice o2 4 buf, o2 + 4)" "xmeta_get buf (o2 + 4) 2 = Some (slice (o2 + 4) 2 buf, o2 + 6)"
        "xmeta_get buf (o2 + 6) 2 = Some (slice (o2 + 6) 2 buf, o2 + 8)" "(o2 = length buf) = False"
      using len by (simp_all add: xmeta_get_def)
    have "xmeta_section_loop malloc buf (unat (le_word (slice (o2 + 6) 2 buf) :: u16)) (o2 + 8) m2 = Inr m"
      using d(3) magic unfolding xmeta_decode_ext_sections_def gs option.case prod.case by simp
    then show ?thesis using section_loop_sealed o2 by blast
  qed
  then show ?thesis using s(1) body by (simp add: xmeta_sealed_def Let_def)
qed

section \<open>Truncated records\<close>

lemma section_cut:
  assumes buf: "buf = acc @ take r (section_bytes (ty, p))" "off = length acc" and r: "r < 12 + length p"
    and p: "length p \<le> BRIX_XMETA_MAX_SECTION"
  shows "xmeta_section_loop malloc buf (Suc n) off m = Inl (XMETA_ERR EBADMSG)"
proof (cases "r < 8")
  case True
  then have "length buf < off + 8" using buf by simp
  then show ?thesis
    by (auto simp: xmeta_section_loop.simps xmeta_get_def split: option.splits)
next
  case False
  let ?L = "le_bytes 4 (of_nat (length p) :: u32)" and ?C = "le_bytes 4 (xmeta_crc (section_head ty p))"
  have b: "buf = acc @ le_bytes 2 ty @ le_bytes 2 (0 :: u16) @ ?L @ take (r - 8) (p @ ?C)"
    using buf False by (simp add: section_bytes_def section_head_def)
  have g: "xmeta_get buf off 2 = Some (le_bytes 2 ty, off + 2)" "xmeta_get buf (off + 2) 2 = Some (le_bytes 2 (0 :: u16), off + 4)"
      "xmeta_get buf (off + 4) 4 = Some (?L, off + 8)"
    using get_at [of buf acc "le_bytes 2 ty" _ off 2]
      get_at [of buf "acc @ le_bytes 2 ty" "le_bytes 2 (0 :: u16)" "?L @ take (r - 8) (p @ ?C)" "off + 2" 2]
      get_at [of buf "acc @ le_bytes 2 ty @ le_bytes 2 (0 :: u16)" ?L "take (r - 8) (p @ ?C)" "off + 4" 4] b buf(2)
    by simp_all
  have pl: "unat (le_word ?L :: u32) = length p" using p by (simp add: unat_of_nat)
  have "length buf - (off + 8) < length p + 4" unfolding b using buf(2) r False by simp
  then show ?thesis unfolding xmeta_section_loop.simps g option.case prod.case Let_def pl by simp
qed

lemma section_loop_cut:
  "\<lbrakk>buf = acc @ take r (concat (map section_bytes ss)); off = length acc; r < length (concat (map section_bytes ss));
    \<forall>(ty, p) \<in> set ss. length p \<le> BRIX_XMETA_MAX_SECTION\<rbrakk>
   \<Longrightarrow> xmeta_section_loop malloc buf (length ss) off m = Inl (XMETA_ERR EBADMSG)"
proof (induction ss arbitrary: acc r off m)
  case (Cons s ss)
  obtain ty p where s: "s = (ty, p)" by (cases s)
  have p: "length p \<le> BRIX_XMETA_MAX_SECTION" using Cons.prems(4) s by simp
  show ?case
  proof (cases "r < 12 + length p")
    case True
    then show ?thesis using section_cut [of buf acc r ty p off malloc "length ss" m] Cons.prems s p by simp
  next
    case False
    let ?r = "r - (12 + length p)"
    have b: "buf = acc @ section_bytes (ty, p) @ take ?r (concat (map section_bytes ss))"
      using Cons.prems(1) False s by simp
    have b': "buf = (acc @ section_bytes (ty, p)) @ take ?r (concat (map section_bytes ss))" using b by simp
    have IH: "xmeta_section_loop malloc buf (length ss) (off + length (section_bytes (ty, p))) m' = Inl (XMETA_ERR EBADMSG)" for m'
      by (rule Cons.IH [OF b']) (use Cons.prems False s in auto)
    show ?thesis using section_step [OF b Cons.prems(2) p, of malloc "length ss" m] IH by (simp split: option.splits)
  qed
qed simp

lemma decode_stock_cut:
  assumes wf: "xmeta_wf m" and n: "n < length (stock_bytes m)" and malloc: "malloc_ok malloc"
  shows "brix_xmeta_decode malloc (take n (stock_bytes m)) = Inl XMETA_FOREIGN"
proof -
  have ok: "malloc k \<noteq> None" for k using malloc by (metis malloc_ok_def option.discI)
  let ?s = "xmeta_store m" and ?buf = "take n (stock_bytes m)"
  let ?C = "le_bytes 4 (xmeta_crc (xmeta_body m))"
  have len: "length ?buf = n" using n by simp
  show ?thesis
  proof (cases "n < 56")
    case True
    have "le_word (slice 0 4 ?buf) = BRIX_XMETA_STOCK_VERSION" if "4 \<le> n"
      using that by (simp add: stock_bytes_def slice_def min_absorb2)
    then show ?thesis using True len
      by (auto simp: brix_xmeta_decode_def xmeta_decode_stock_store_def xmeta_get_def)
  next
    case False
    obtain bm where bm: "xm_bitmap m = Some bm" "length bm = xmeta_bitmap_len (xm_nblocks m)"
      using wf by (auto simp: xmeta_wf_def)
    let ?A = "if 0 < sint (xm_astat_count m) then astat_bytes (xm_astat m) else []"
    have body: "xmeta_body m = bm @ ?A" using bm by (simp add: xmeta_body_def)
    have nb: "xmeta_nblocks (ss_file_size ?s) (ss_buffer_size ?s) = xm_nblocks m"
      using wf by (simp add: xmeta_store_def xmeta_wf_def)
    define m0 where "m0 = xmeta_zero\<lparr>xm_buffer_size := ss_buffer_size ?s, xm_file_size := ss_file_size ?s,
        xm_creation_time := ss_creation_time ?s, xm_no_cksum_time := ss_no_cksum_time ?s, xm_access_cnt := ss_access_cnt ?s,
        xm_status_raw := ss_status_raw ?s, xm_astat_count := ss_astat_size ?s, xm_nblocks := xm_nblocks m\<rparr>"
    have b1: "?buf = le_bytes 4 BRIX_XMETA_STOCK_VERSION @ store_bytes ?s @ le_bytes 4 (xmeta_crc (store_bytes ?s))
        @ take (n - 56) (xmeta_body m @ ?C)"
      using False by (simp add: stock_bytes_def)
    have "xmeta_decode_stock_store ?buf 0 xmeta_zero = Inr (m0, 56)"
      unfolding m0_def nb [symmetric]
      by (rule decode_store_image [OF _ _ _ _ b1])
        (use wf xmeta_wf_blocks [OF wf] in \<open>simp_all add: xmeta_store_def xmeta_wf_def\<close>)
    moreover have "xmeta_decode_bitmap_astat malloc ?buf 56 m0 = Inl XMETA_FOREIGN"
    proof (cases "n < 56 + length bm")
      case True
      then have "xmeta_get ?buf 56 (length bm) = None" using len False by (simp add: xmeta_get_None)
      then show ?thesis using ok by (simp add: xmeta_decode_bitmap_astat_def m0_def bm(2) Let_def)
    next
      case bmn: False
      have c: "xm_astat_count m0 = (if 0 < sint (xm_astat_count m) then 1 else 0)" "xm_nblocks m0 = xm_nblocks m"
        by (simp_all add: m0_def xmeta_store_def)
      have g: "xmeta_get ?buf 56 (length bm) = Some (slice 56 (length bm) ?buf, 56 + length bm)"
        using len False bmn by (simp add: xmeta_get_def)
      have lim: "n < 60 + length bm + length ?A" using n by (simp add: stock_bytes_def body)
      show ?thesis
      proof (cases "xmeta_astat_loop ?buf (56 + length bm) (m0\<lparr>xm_bitmap := Some (slice 56 (length bm) ?buf)\<rparr>) 0
            (xmeta_crc (slice 56 (length bm) ?buf))")
        case (Inl e)
        then have "e = XMETA_FOREIGN"
          using c by (auto simp: astat_loop_none xmeta_astat_loop.simps [of _ _ "m0\<lparr>xm_bitmap := _\<rparr>"] split: option.splits if_splits)
        then show ?thesis using Inl ok c g by (simp add: xmeta_decode_bitmap_astat_def bm(2) [symmetric] Let_def)
      next
        case (Inr x)
        then obtain m' o2 want where x: "x = (m', o2, want)" by (cases x)
        have "o2 = 56 + length bm + length ?A"
          using Inr c x by (auto simp: astat_loop_none xmeta_astat_loop.simps [of _ _ "m0\<lparr>xm_bitmap := _\<rparr>"] xmeta_get_def
              split: option.splits if_splits)
        then have "xmeta_get ?buf o2 4 = None" using lim len by (simp add: xmeta_get_None)
        then show ?thesis using Inr x ok c g by (simp add: xmeta_decode_bitmap_astat_def bm(2) [symmetric] Let_def)
      qed
    qed
    ultimately show ?thesis by (simp add: brix_xmeta_decode_def)
  qed
qed

section \<open>Torn records\<close>

text \<open>A buffer followed by its own checksum has a fixed checksum, and no other four octets give it that.\<close>

lemma crc_trailer_state:
  "brix_crc32c_sw_extend 0 (d @ le_bytes 4 c) = crc_zeros 4 (brix_crc32c_sw_extend 0 d XOR crc_ones XOR c) XOR crc_ones"
  using crc_foldl_le_word [of "le_bytes 4 c" "foldl crc_byte crc_ones d"]
  by (simp add: brix_crc32c_sw_extend_def xor.assoc)

lemma crc_trailer:
  assumes "length c = 4" "length c' = 4" "le_word c = xmeta_crc d"
  shows "le_word c' = xmeta_crc d' \<longleftrightarrow> xmeta_crc (d' @ c') = xmeta_crc (d @ c)"
proof -
  have "c = le_bytes 4 (le_word c :: u32)" "c' = le_bytes 4 (le_word c' :: u32)" using assms(1,2) by simp_all
  then have "xmeta_crc (d' @ c') = xmeta_crc (d @ c) \<longleftrightarrow>
      xmeta_crc (d' @ le_bytes 4 (le_word c' :: u32)) = xmeta_crc (d @ le_bytes 4 (le_word c :: u32))" by simp
  also have "\<dots> \<longleftrightarrow> xmeta_crc d' XOR crc_ones XOR le_word c' = xmeta_crc d XOR crc_ones XOR le_word c"
    by (simp add: crc_trailer_state crc_zeros_inj)
  also have "\<dots> \<longleftrightarrow> crc_ones XOR (xmeta_crc d' XOR le_word c') = crc_ones XOR (xmeta_crc d XOR le_word c)"
    by (simp only: xor.left_commute [of _ crc_ones] xor.assoc)
  finally show ?thesis unfolding word_xor_cancel_left assms(3) by auto
qed

text \<open>So a change within four neighbouring octets of a block and its checksum is always noticed.\<close>

lemma crc_trailer_burst:
  assumes "d @ le_bytes 4 (xmeta_crc d) = xs @ bs @ ys" "d' @ c' = xs @ bs' @ ys"
    and "length bs = length bs'" "length bs \<le> 4" "bs \<noteq> bs'" "length c' = 4"
  shows "le_word c' \<noteq> xmeta_crc d'"
proof
  assume "le_word c' = xmeta_crc d'"
  then have "xmeta_crc (d' @ c') = xmeta_crc (d @ le_bytes 4 (xmeta_crc d))"
    using crc_trailer [of "le_bytes 4 (xmeta_crc d)" c' d d'] assms(6) by simp
  then show False using crc32c_burst [OF assms(3-5)] assms(1,2) by metis
qed

text \<open>
  The windows a checksum covers: the Store struct with its checksum, the bitmap and access record with theirs,
  and of each section everything but its length field.  The version, the extension header and the length fields are not covered.
\<close>

fun sections_guard :: "nat \<Rightarrow> nat \<Rightarrow> nat \<Rightarrow> (u16 \<times> bytes) list \<Rightarrow> bool" where
  "sections_guard off n start [] = False"
| "sections_guard off n start ((ty, p) # ss) =
     (start \<le> off \<and> off + n \<le> start + 4 \<or> start + 8 \<le> off \<and> off + n \<le> start + 12 + length p
      \<or> sections_guard off n (start + 12 + length p) ss)"

definition xmeta_guarded :: "brix_xmeta_t \<Rightarrow> nat \<Rightarrow> nat \<Rightarrow> bool" where
  "xmeta_guarded m off n \<longleftrightarrow> 4 \<le> off \<and> off + n \<le> 56 \<or> 56 \<le> off \<and> off + n \<le> length (stock_bytes m)
     \<or> sections_guard off n (length (stock_bytes m) + 8) (xmeta_sections m)"

lemma memcpy_window:
  assumes "length acc \<le> off" "off + length bs' \<le> length acc + length blk"
  obtains xs bs ys where "blk = xs @ bs @ ys" "length bs = length bs'" "length acc + length xs = off"
    "memcpy_at off bs' (acc @ blk @ rest) = acc @ (xs @ bs' @ ys) @ rest"
proof -
  let ?o = "off - length acc"
  have "memcpy_at off bs' (acc @ blk @ rest) = acc @ (take ?o blk @ bs' @ drop (?o + length bs') blk) @ rest"
    using assms by (simp add: memcpy_at_def)
  moreover have "blk = take ?o blk @ take (length bs') (drop ?o blk) @ drop (?o + length bs') blk"
    by (metis append_take_drop_id drop_drop add.commute)
  ultimately show ?thesis using that [of "take ?o blk" "take (length bs') (drop ?o blk)"] assms by simp
qed

lemma section_torn:
  assumes buf: "buf = acc @ (xs @ bs' @ ys) @ rest" "off = length acc" and blk: "section_bytes (ty, p) = xs @ bs @ ys"
    and bs: "length bs = length bs'" "length bs \<le> 4" "bs \<noteq> bs'" and win: "length xs + length bs \<le> 4 \<or> 8 \<le> length xs"
    and p: "length p \<le> BRIX_XMETA_MAX_SECTION"
  shows "xmeta_section_loop malloc buf (Suc n) off m = Inl (XMETA_ERR EBADMSG)"
proof -
  let ?L = "le_bytes 4 (of_nat (length p) :: u32)" and ?blk = "xs @ bs' @ ys"
  have len: "length ?blk = 12 + length p" using arg_cong [OF blk, of length] bs(1) by simp
  have "slice 4 4 ?blk = slice 4 4 (xs @ bs @ ys)"
  proof (cases "8 \<le> length xs")
    case True
    then show ?thesis by (simp add: slice_append_left)
  next
    case False
    then have "length (xs @ bs') \<le> 4" "length (xs @ bs) \<le> 4" using win bs(1) by auto
    then show ?thesis using bs(1) slice_append_right [of "xs @ bs'" 4 4 ys] slice_append_right [of "xs @ bs" 4 4 ys] by simp
  qed
  also have "\<dots> = ?L"
    unfolding blk [symmetric] by (simp add: section_bytes_def section_head_def slice_append_left slice_append_right)
  finally have sL: "slice 4 4 ?blk = ?L" .
  have sl: "slice (off + i) k buf = slice i k ?blk" if "i + k \<le> length ?blk" for i k
    using that buf by (simp add: slice_def)
  have lb: "off + 12 + length p \<le> length buf" using buf len by simp
  have g: "xmeta_get buf off 2 = Some (slice off 2 buf, off + 2)" "xmeta_get buf (off + 2) 2 = Some (slice (off + 2) 2 buf, off + 4)"
      "xmeta_get buf (off + 4) 4 = Some (?L, off + 8)"
    using lb sl [of 4 4] sL len by (simp_all add: xmeta_get_def)
  have pl: "unat (le_word ?L :: u32) = length p" using p by (simp add: unat_of_nat)
  have n: "(length p > BRIX_XMETA_MAX_SECTION \<or> length buf - (off + 8) < length p + 4) = False" using p lb by simp
  have "slice off (8 + length p) buf @ slice (off + 8 + length p) 4 buf = slice off (12 + length p) buf"
    using slice_split [of "8 + length p" "12 + length p" off buf] by (simp add: add.assoc)
  also have "\<dots> = ?blk" using sl [of 0 "12 + length p"] len by (simp add: slice_def)
  finally have "le_word (slice (off + 8 + length p) 4 buf) \<noteq> xmeta_crc (slice off (8 + length p) buf)"
    using crc_trailer_burst [OF _ _ bs, of "section_head ty p" xs ys] blk lb by (simp add: section_bytes_def)
  then show ?thesis unfolding xmeta_section_loop.simps g option.case prod.case Let_def pl n if_False by simp
qed

lemma section_loop_torn:
  "\<lbrakk>sections_guard o' (length bs') off ss; length bs' \<le> 4; off = length acc;
    img = acc @ concat (map section_bytes ss); buf = memcpy_at o' bs' img; buf \<noteq> img;
    \<forall>(ty, p) \<in> set ss. length p \<le> BRIX_XMETA_MAX_SECTION\<rbrakk>
   \<Longrightarrow> xmeta_section_loop malloc buf (length ss) off m = Inl (XMETA_ERR EBADMSG)"
proof (induction ss arbitrary: acc off m)
  case (Cons s ss)
  obtain ty p where s: "s = (ty, p)" by (cases s)
  have p: "length p \<le> BRIX_XMETA_MAX_SECTION" using Cons.prems(7) s by simp
  have img: "img = acc @ section_bytes (ty, p) @ concat (map section_bytes ss)" using Cons.prems(4) s by simp
  show ?case
  proof (cases "off \<le> o' \<and> o' + length bs' \<le> off + 12 + length p")
    case True
    then have "length acc \<le> o'" "o' + length bs' \<le> length acc + length (section_bytes (ty, p))" using Cons.prems(3) by simp_all
    then obtain xs bs ys where w: "section_bytes (ty, p) = xs @ bs @ ys" "length bs = length bs'" "length acc + length xs = o'"
        "memcpy_at o' bs' (acc @ section_bytes (ty, p) @ concat (map section_bytes ss)) = acc @ (xs @ bs' @ ys) @ concat (map section_bytes ss)"
      by (rule memcpy_window)
    have b: "buf = acc @ (xs @ bs' @ ys) @ concat (map section_bytes ss)" using Cons.prems(5) w(4) img by simp
    have ne: "bs \<noteq> bs'" using Cons.prems(6) b img w(1) by auto
    have guard: "sections_guard k (length bs') st ss' \<Longrightarrow> st \<le> k" for k st ss'
      by (induction k "length bs'" st ss' rule: sections_guard.induct) auto
    have "length xs + length bs \<le> 4 \<or> 8 \<le> length xs"
      using Cons.prems(1,3) s True w(2,3) guard [of o' "off + 12 + length p" ss] by auto
    from section_torn [OF b Cons.prems(3) w(1,2) _ ne this p] show ?thesis using Cons.prems(2) w(2) by simp
  next
    case False
    then have g: "sections_guard o' (length bs') (off + 12 + length p) ss" using Cons.prems(1) s by auto
    have guard: "sections_guard k l st ss' \<Longrightarrow> st \<le> k" for k l st ss'
      by (induction k l st ss' rule: sections_guard.induct) auto
    have le: "off + 12 + length p \<le> o'" using guard [OF g] .
    let ?rest = "memcpy_at (o' - (off + 12 + length p)) bs' (concat (map section_bytes ss))"
    have b: "buf = acc @ section_bytes (ty, p) @ ?rest"
      using le Cons.prems(3,5) unfolding img by (simp add: memcpy_at_def add.assoc)
    have IH: "xmeta_section_loop malloc buf (length ss) (off + length (section_bytes (ty, p))) m' = Inl (XMETA_ERR EBADMSG)" for m'
      by (rule Cons.IH [of _ "acc @ section_bytes (ty, p)"]) (use Cons.prems g s in \<open>simp_all add: add.assoc\<close>)
    show ?thesis using section_step [OF b Cons.prems(3) p, of malloc "length ss" m] IH s by (simp split: option.splits)
  qed
qed simp


text \<open>The three regions of the stock prefix and the sections, each with a wrong checksum.\<close>

lemma store_torn:
  assumes "buf = le_bytes 4 BRIX_XMETA_STOCK_VERSION @ (d @ c) @ rest" "length d = 48" "length c = 4" "le_word c \<noteq> xmeta_crc d"
  shows "brix_xmeta_decode malloc buf = Inl (XMETA_ERR EBADMSG)"
proof -
  let ?V = "le_bytes 4 BRIX_XMETA_STOCK_VERSION"
  have b: "buf = [] @ ?V @ (d @ c @ rest)" "buf = ?V @ d @ (c @ rest)" "buf = (?V @ d) @ c @ rest" using assms(1) by simp_all
  have g: "xmeta_get buf 0 4 = Some (?V, 0 + 4)" "xmeta_get buf 4 48 = Some (d, 4 + 48)" "xmeta_get buf 52 4 = Some (c, 52 + 4)"
    by (rule get_at [OF b(1)] get_at [OF b(2)] get_at [OF b(3)]; simp add: assms(2,3))+
  show ?thesis using assms(4) by (simp add: brix_xmeta_decode_def xmeta_decode_stock_store_def g [simplified])
qed

lemma astat_loop_any:
  assumes "xm_astat_count m = (if h then 1 else 0)" "h \<Longrightarrow> xmeta_get buf off 56 = Some (a, off + 56)" "\<not> h \<Longrightarrow> a = []"
  shows "\<exists>m'. xmeta_astat_loop buf off m 0 want = Inr (m', off + (if h then 56 else 0), brix_crc32c_sw_extend want a)"
proof (cases h)
  case True
  then show ?thesis using assms(1,2) astat_loop_one [of m buf off a "off + 56" want] by auto
next
  case False
  then have "brix_crc32c_sw_extend want a = want" using assms(3) by (simp add: brix_crc32c_sw_extend_def xor.assoc)
  then show ?thesis using False assms(1) astat_loop_none [of m 0 buf off want] by simp
qed

lemma body_torn:
  assumes wf: "xmeta_wf m" and malloc: "malloc_ok malloc"
    and buf: "buf = le_bytes 4 BRIX_XMETA_STOCK_VERSION @ store_bytes (xmeta_store m)
        @ le_bytes 4 (xmeta_crc (store_bytes (xmeta_store m))) @ (d @ c) @ rest"
    and len: "length d = length (xmeta_body m)" "length c = 4" and bad: "le_word c \<noteq> xmeta_crc d"
  shows "brix_xmeta_decode malloc buf = Inl (XMETA_ERR EBADMSG)"
proof -
  have ok: "malloc k \<noteq> None" for k using malloc by (metis malloc_ok_def option.discI)
  let ?s = "xmeta_store m"
  let ?h = "le_bytes 4 BRIX_XMETA_STOCK_VERSION @ store_bytes ?s @ le_bytes 4 (xmeta_crc (store_bytes ?s))"
  obtain bm where bm: "xm_bitmap m = Some bm" "length bm = xmeta_bitmap_len (xm_nblocks m)" using wf by (auto simp: xmeta_wf_def)
  let ?k = "length bm"
  have n: "length d = ?k + (if 0 < sint (xm_astat_count m) then 56 else 0)" using bm len by (simp add: xmeta_body_def)
  have nb: "xmeta_nblocks (ss_file_size ?s) (ss_buffer_size ?s) = xm_nblocks m"
    using wf by (simp add: xmeta_store_def xmeta_wf_def)
  define m0 where "m0 = xmeta_zero\<lparr>xm_buffer_size := ss_buffer_size ?s, xm_file_size := ss_file_size ?s,
      xm_creation_time := ss_creation_time ?s, xm_no_cksum_time := ss_no_cksum_time ?s, xm_access_cnt := ss_access_cnt ?s,
      xm_status_raw := ss_status_raw ?s, xm_astat_count := ss_astat_size ?s, xm_nblocks := xm_nblocks m\<rparr>"
  have st: "xmeta_decode_stock_store buf 0 xmeta_zero = Inr (m0, 56)"
    unfolding m0_def nb [symmetric]
    by (rule decode_store_image [OF _ _ _ _ buf]) (use wf xmeta_wf_blocks [OF wf] in \<open>simp_all add: xmeta_store_def xmeta_wf_def\<close>)
  have cnt: "xm_astat_count m0 = (if 0 < sint (xm_astat_count m) then 1 else 0)" "xm_nblocks m0 = xm_nblocks m"
    by (simp_all add: m0_def xmeta_store_def)
  have g1: "xmeta_get buf 56 ?k = Some (take ?k d, 56 + ?k)"
    by (rule get_at [of buf ?h _ "drop ?k d @ c @ rest"]) (use buf len n in simp_all)
  have g3: "xmeta_get buf (56 + length d) 4 = Some (c, 56 + length d + 4)"
    by (rule get_at [of buf "?h @ d" c rest]) (use buf len in simp_all)
  let ?m = "m0\<lparr>xm_bitmap := Some (take ?k d)\<rparr>"
  have "\<exists>m'. xmeta_astat_loop buf (56 + ?k) ?m 0 (xmeta_crc (take ?k d))
      = Inr (m', 56 + ?k + (if 0 < sint (xm_astat_count m) then 56 else 0), brix_crc32c_sw_extend (xmeta_crc (take ?k d)) (drop ?k d))"
  proof (rule astat_loop_any)
    show "xm_astat_count ?m = (if 0 < sint (xm_astat_count m) then 1 else 0)" using cnt(1) by simp
    show "xmeta_get buf (56 + ?k) 56 = Some (drop ?k d, 56 + ?k + 56)" if "0 < sint (xm_astat_count m)"
      by (rule get_at [of buf "?h @ take ?k d" _ "c @ rest"]) (use buf n that in simp_all)
    show "drop ?k d = []" if "\<not> 0 < sint (xm_astat_count m)" using n that by simp
  qed
  then obtain m' where "xmeta_astat_loop buf (56 + ?k) ?m 0 (xmeta_crc (take ?k d)) = Inr (m', 56 + length d, xmeta_crc d)"
    using n by (auto simp: crc32c_sw_append add.assoc)
  then have "xmeta_decode_bitmap_astat malloc buf 56 m0 = Inl (XMETA_ERR EBADMSG)"
    using bad unfolding xmeta_decode_bitmap_astat_def Let_def cnt(2) bm(2) [symmetric] g1 option.case prod.case
    by (simp add: ok g3)
  then show ?thesis unfolding brix_xmeta_decode_def st by simp
qed

text \<open>A block whose octets changed in a window, seen as data and checksum.\<close>

lemma torn_block:
  assumes blk: "D @ le_bytes 4 (xmeta_crc D) = blk" and win: "length acc \<le> off" "off + length bs' \<le> length acc + length blk"
    and bs: "length bs' \<le> 4" and ne: "memcpy_at off bs' (acc @ blk @ rest) \<noteq> acc @ blk @ rest"
  obtains d c where "memcpy_at off bs' (acc @ blk @ rest) = acc @ (d @ c) @ rest" "length d = length D" "length c = 4"
    "le_word c \<noteq> xmeta_crc d"
proof -
  obtain xs bs ys where w: "blk = xs @ bs @ ys" "length bs = length bs'"
      "memcpy_at off bs' (acc @ blk @ rest) = acc @ (xs @ bs' @ ys) @ rest"
    using win by (rule memcpy_window)
  define t where "t = xs @ bs' @ ys"
  define d where "d = take (length D) t"
  define c where "c = drop (length D) t"
  have dc: "d @ c = t" unfolding d_def c_def by (rule append_take_drop_id)
  have lb: "length blk = length D + 4" using blk by auto
  have "length t = length blk" using w(1,2) unfolding t_def by simp
  then have l: "length d = length D" "length c = 4" using lb unfolding d_def c_def by simp_all
  have "bs \<noteq> bs'" using ne w(1,3) by auto
  then have "le_word c \<noteq> xmeta_crc d"
    using crc_trailer_burst [of D xs bs ys d c bs'] blk w dc l(2) bs unfolding t_def by simp
  then show ?thesis using that [of d c] w(3) dc l unfolding t_def by simp
qed

lemma decode_torn:
  assumes wf: "xmeta_wf m" "unat (xm_digests_len m) \<le> BRIX_XMETA_MAX_SECTION" and malloc: "malloc_ok malloc"
    and g: "xmeta_guarded m off (length bs')" "length bs' \<le> 4" and buf: "buf = memcpy_at off bs' (xmeta_image m)" "buf \<noteq> xmeta_image m"
  shows "brix_xmeta_decode malloc buf = Inl (XMETA_ERR EBADMSG)"
proof -
  let ?s = "store_bytes (xmeta_store m)" and ?V = "le_bytes 4 BRIX_XMETA_STOCK_VERSION"
  let ?S = "?s @ le_bytes 4 (xmeta_crc ?s)" and ?B = "xmeta_body m @ le_bytes 4 (xmeta_crc (xmeta_body m))"
  let ?c = "concat (map section_bytes (xmeta_sections m))" and ?e = "ext_head m"
  have img: "xmeta_image m = ?V @ ?S @ ?B @ ?e @ ?c" by (simp add: xmeta_image_def stock_bytes_def)
  have ls: "length (stock_bytes m) = 56 + length ?B" by (simp add: stock_bytes_def)
  consider (store) "4 \<le> off" "off + length bs' \<le> 56" | (body) "56 \<le> off" "off + length bs' \<le> 56 + length ?B"
    | (sec) "sections_guard off (length bs') (length (stock_bytes m) + 8) (xmeta_sections m)"
    using g(1) ls unfolding xmeta_guarded_def by linarith
  then show ?thesis
  proof cases
    case store
    obtain d c where "buf = ?V @ (d @ c) @ ?B @ ?e @ ?c" "length d = length ?s" "length c = 4" "le_word c \<noteq> xmeta_crc d"
      using torn_block [of ?s ?S ?V off bs' "?B @ ?e @ ?c"] store g(2) buf unfolding img by auto
    then show ?thesis using store_torn [of buf d c] by simp
  next
    case body
    have i2: "xmeta_image m = (?V @ ?S) @ ?B @ ?e @ ?c" unfolding img by simp
    obtain d c where w: "buf = (?V @ ?S) @ (d @ c) @ ?e @ ?c" "length d = length (xmeta_body m)" "length c = 4" "le_word c \<noteq> xmeta_crc d"
      using torn_block [of "xmeta_body m" ?B "?V @ ?S" off bs' "?e @ ?c"] body g(2) buf unfolding i2 by auto
    then show ?thesis using body_torn [OF wf(1) malloc _ w(2-4), of buf "?e @ ?c"] by simp
  next
    case sec
    have le: "sections_guard k l st ss \<Longrightarrow> st \<le> k" for k l st ss
      by (induction k l st ss rule: sections_guard.induct) auto
    have off: "length (stock_bytes m @ ?e) \<le> off" using le [OF sec] by (simp add: ext_head_def)
    define tail where "tail = memcpy_at (off - length (stock_bytes m @ ?e)) bs' ?c"
    have b: "buf = stock_bytes m @ (?e @ tail)"
      using off unfolding buf(1) xmeta_image_def tail_def by (simp add: memcpy_at_def)
    have "brix_xmeta_decode malloc buf = xmeta_decode_ext_sections malloc buf (length (stock_bytes m)) (xmeta_stock_part m)"
      unfolding b by (rule decode_stock_image [OF wf(1) malloc])
    also have "\<dots> = xmeta_section_loop malloc buf (length (xmeta_sections m)) (length (stock_bytes m) + 8) (xmeta_stock_part m)"
      by (rule ext_head_decode [OF b refl sections_bounded(2) [OF wf]])
    also have "\<dots> = Inl (XMETA_ERR EBADMSG)"
      by (rule section_loop_torn [OF sec g(2) _ _ buf sections_bounded(1) [OF wf], of "stock_bytes m @ ?e"])
        (simp_all add: xmeta_image_def ext_head_def)
    finally show ?thesis .
  qed
qed

lemma decode_cut:
  assumes wf: "xmeta_wf m" "unat (xm_digests_len m) \<le> BRIX_XMETA_MAX_SECTION" and malloc: "malloc_ok malloc"
    and n: "n < length (xmeta_image m)"
  shows "brix_xmeta_decode malloc (take n (xmeta_image m)) =
     (if n < length (stock_bytes m) then Inl XMETA_FOREIGN
      else if n < length (stock_bytes m) + 8 then Inr (xmeta_stock_part m) else Inl (XMETA_ERR EBADMSG))"
proof -
  let ?s = "stock_bytes m" and ?e = "ext_head m" and ?c = "concat (map section_bytes (xmeta_sections m))"
  consider (stock) "n < length ?s" | (head) "length ?s \<le> n" "n < length ?s + 8" | (sec) "length ?s + 8 \<le> n" by linarith
  then show ?thesis
  proof cases
    case stock
    then have "take n (xmeta_image m) = take n ?s" by (simp add: xmeta_image_def)
    then show ?thesis using decode_stock_cut [OF wf(1) stock malloc] stock by simp
  next
    case head
    let ?t = "take (n - length ?s) ?e" and ?b = "take n (xmeta_image m)"
    have b: "?b = ?s @ ?t" using head by (simp add: xmeta_image_def ext_head_def)
    have l: "length ?t < 8" "length ?b = length ?s + length ?t" unfolding b using head by (simp_all add: ext_head_def)
    have "xmeta_decode_ext_sections malloc ?b (length ?s) (xmeta_stock_part m) = Inr (xmeta_stock_part m)"
      using l by (auto simp: xmeta_decode_ext_sections_def xmeta_get_def split: option.splits)
    then show ?thesis using decode_stock_image [OF wf(1) malloc, of ?t] head unfolding b by simp
  next
    case sec
    let ?r = "n - (length ?s + 8)"
    have b: "take n (xmeta_image m) = ?s @ (?e @ take ?r ?c)" using sec by (simp add: xmeta_image_def ext_head_def add.commute)
    have r: "?r < length ?c" using n sec by (simp add: xmeta_image_def ext_head_def)
    have "brix_xmeta_decode malloc (?s @ (?e @ take ?r ?c))
        = xmeta_section_loop malloc (?s @ (?e @ take ?r ?c)) (length (xmeta_sections m)) (length ?s + 8) (xmeta_stock_part m)"
      unfolding decode_stock_image [OF wf(1) malloc]
      by (rule ext_head_decode [OF refl refl sections_bounded(2) [OF wf]])
    also have "\<dots> = Inl (XMETA_ERR EBADMSG)"
      by (rule section_loop_cut [OF _ _ r sections_bounded(1) [OF wf], of _ "?s @ ?e"]) (simp_all add: ext_head_def)
    finally show ?thesis using sec unfolding b by simp
  qed
qed

section \<open>The digest list as a list of entries\<close>

definition digest_bytes :: "(u16 \<times> bytes) list \<Rightarrow> bytes" where
  "digest_bytes es = concat (map (\<lambda>(a, v). le_bytes 2 a @ le_bytes 2 (of_nat (length v) :: u16) @ v) es)"

text \<open>The record holds exactly the entries \<open>es\<close>, none longer than its 16-bit length field can say.\<close>

definition digest_holds :: "brix_xmeta_t \<Rightarrow> (u16 \<times> bytes) list \<Rightarrow> bool" where
  "digest_holds m es \<longleftrightarrow> (\<forall>(a, v) \<in> set es. length v < 2 ^ 16) \<and> length (digest_bytes es) = unat (xm_digests_len m)
     \<and> (case xm_digests m of None \<Rightarrow> es = [] | Some d \<Rightarrow> d = digest_bytes es)"

lemma digest_bytes_simps [simp]:
  "digest_bytes [] = []"
  "digest_bytes ((a, v) # es) = le_bytes 2 a @ le_bytes 2 (of_nat (length v) :: u16) @ v @ digest_bytes es"
  "digest_bytes (es @ fs) = digest_bytes es @ digest_bytes fs"
  by (simp_all add: digest_bytes_def)

lemma digest_entry:
  assumes "d = acc @ digest_bytes ((a, v) # es)" "off = length acc" "length v < 2 ^ 16"
  shows "le_word (slice off 2 d) = a" "unat (le_word (slice (off + 2) 2 d) :: u16) = length v"
    "slice off (4 + length v) d = digest_bytes [(a, v)]" "slice (off + 4) (length v) d = v" "off + 4 + length v \<le> length d"
  using assms by (simp_all add: slice_def unat_of_nat)

lemma digest_keep_image:
  "\<lbrakk>d = acc @ digest_bytes es; off = length acc; dlen = length d; \<forall>(a, v) \<in> set es. length v < 2 ^ 16\<rbrakk>
   \<Longrightarrow> xmeta_digest_keep d dlen alg off kept = kept @ digest_bytes (filter (\<lambda>(a, v). a \<noteq> alg) es)"
proof (induction es arbitrary: acc off kept)
  case Nil
  then show ?case by (simp add: xmeta_digest_keep.simps)
next
  case (Cons e es)
  obtain a v where e: "e = (a, v)" by (cases e)
  have v: "length v < 2 ^ 16" using Cons.prems(4) e by simp
  note f = digest_entry [OF Cons.prems(1) [unfolded e] Cons.prems(2) v]
  have IH: "xmeta_digest_keep d dlen alg (off + 4 + length v) k = k @ digest_bytes (filter (\<lambda>(a, v). a \<noteq> alg) es)" for k
    by (rule Cons.IH [of "acc @ digest_bytes [(a, v)]"]) (use Cons.prems e in auto)
  have c: "off + 4 \<le> dlen" "\<not> off + 4 + length v > dlen" using f(5) Cons.prems(3) by simp_all
  show ?case
    unfolding xmeta_digest_keep.simps [of d dlen alg off kept] Let_def f(1,2,3)
    using c IH by (simp add: e)
qed

lemma digest_find_image:
  "\<lbrakk>d = acc @ digest_bytes es; off = length acc; dlen = length d; \<forall>(a, v) \<in> set es. length v < 2 ^ 16; i \<le> idx\<rbrakk>
   \<Longrightarrow> xmeta_digest_find d dlen idx off i = (if idx - i < length es then Inr (es ! (idx - i)) else Inl XMETA_FOREIGN)"
proof (induction es arbitrary: acc off i)
  case Nil
  then show ?case by (simp add: xmeta_digest_find.simps)
next
  case (Cons e es)
  obtain a v where e: "e = (a, v)" by (cases e)
  have v: "length v < 2 ^ 16" using Cons.prems(4) e by simp
  note f = digest_entry [OF Cons.prems(1) [unfolded e] Cons.prems(2) v]
  have c: "off + 4 \<le> dlen" "\<not> off + 4 + length v > dlen" using f(5) Cons.prems(3) by simp_all
  show ?case
  proof (cases "i = idx")
    case True
    then show ?thesis unfolding xmeta_digest_find.simps [of d dlen idx off i] Let_def f(1,2,4) using c by (simp add: e)
  next
    case False
    then have "xmeta_digest_find d dlen idx (off + 4 + length v) (i + 1)
        = (if idx - (i + 1) < length es then Inr (es ! (idx - (i + 1))) else Inl XMETA_FOREIGN)"
      using Cons.prems e by (intro Cons.IH [of "acc @ digest_bytes [(a, v)]"]) auto
    then show ?thesis
      unfolding xmeta_digest_find.simps [of d dlen idx off i] Let_def f(1,2,4) using c False Cons.prems(5)
      by (auto simp: nth_Cons' diff_Suc_1)
  qed
qed

lemma digest_get_holds:
  assumes "digest_holds m es"
  shows "brix_xmeta_digest_get m i = (if unat i < length es then Inr (es ! unat i) else Inl XMETA_FOREIGN)"
proof (cases "xm_digests m")
  case None
  then show ?thesis using assms by (simp add: digest_holds_def brix_xmeta_digest_get_def)
next
  case (Some d)
  then have d: "d = digest_bytes es" "length d = unat (xm_digests_len m)" "\<forall>(a, v) \<in> set es. length v < 2 ^ 16"
    using assms by (simp_all add: digest_holds_def)
  then show ?thesis
    using digest_find_image [of d "[]" es 0 "length d" 0 "unat i"] Some by (simp add: brix_xmeta_digest_get_def)
qed

lemma digest_add_holds:
  assumes h: "digest_holds m es" and v: "length v < 2 ^ 16" "length (digest_bytes es) + 4 + length v < 2 ^ 32" and malloc: "malloc_ok malloc"
  obtains m' where "brix_xmeta_digest_add malloc m alg (Some v) (of_nat (length v)) = Inr m'" "digest_holds m' (es @ [(alg, v)])"
    "m' = m\<lparr>xm_digests := xm_digests m', xm_digests_len := xm_digests_len m'\<rparr>"
proof -
  have ok: "malloc n \<noteq> None" for n using malloc by (metis malloc_ok_def option.discI)
  have l: "unat (of_nat (length v) :: u16) = length v" using v(1) by (simp add: unat_of_nat)
  have old: "take (unat (xm_digests_len m)) (case xm_digests m of None \<Rightarrow> [] | Some d \<Rightarrow> d) = digest_bytes es"
      "unat (xm_digests_len m) = length (digest_bytes es)"
    using h by (auto simp: digest_holds_def split: option.splits)
  define m' where "m' = m\<lparr>xm_digests := Some (digest_bytes es @ digest_bytes [(alg, v)]),
      xm_digests_len := xm_digests_len m + of_nat (4 + length v)\<rparr>"
  have "brix_xmeta_digest_add malloc m alg (Some v) (of_nat (length v)) = Inr m'"
    unfolding brix_xmeta_digest_add_def Let_def l old(1) by (simp add: ok m'_def)
  moreover have "unat (xm_digests_len m + of_nat (4 + length v)) = length (digest_bytes es) + 4 + length v"
    using v(2) old(2) by (simp add: unat_word_ariths unat_of_nat add.assoc)
  then have "digest_holds m' (es @ [(alg, v)])" using h v(1) by (simp add: digest_holds_def m'_def)
  ultimately show ?thesis using that by (simp add: m'_def)
qed

lemma digest_set_holds:
  assumes h: "digest_holds m es" and v: "length v < 2 ^ 16" "length (digest_bytes es) + 4 + length v < 2 ^ 32" and malloc: "malloc_ok malloc"
  obtains m' where "brix_xmeta_digest_set malloc m alg (Some v) (of_nat (length v)) = Inr m'"
    "digest_holds m' (filter (\<lambda>(a, v). a \<noteq> alg) es @ [(alg, v)])"
    "m' = m\<lparr>xm_digests := xm_digests m', xm_digests_len := xm_digests_len m'\<rparr>"
proof (cases "xm_digests m")
  case None
  then have "es = []" using h by (simp add: digest_holds_def)
  then show ?thesis using digest_add_holds [OF h v malloc, of alg] None that by (auto simp: brix_xmeta_digest_set_def)
next
  case (Some d)
  have ok: "malloc n \<noteq> None" for n using malloc by (metis malloc_ok_def option.discI)
  let ?k = "filter (\<lambda>(a, v). a \<noteq> alg) es"
  have d: "d = digest_bytes es" "length d = unat (xm_digests_len m)" "\<forall>(a, v) \<in> set es. length v < 2 ^ 16"
    using h Some by (simp_all add: digest_holds_def)
  have keep: "xmeta_digest_keep d (unat (xm_digests_len m)) alg 0 [] = digest_bytes ?k"
    using digest_keep_image [of d "[]" es 0 "unat (xm_digests_len m)" alg "[]"] d by simp
  have le: "length (digest_bytes ?k) \<le> length (digest_bytes es)" by (induction es) auto
  define m1 where "m1 = (if digest_bytes ?k = [] then m\<lparr>xm_digests := None, xm_digests_len := 0\<rparr>
      else m\<lparr>xm_digests := Some (digest_bytes ?k), xm_digests_len := of_nat (length (digest_bytes ?k))\<rparr>)"
  have e: "digest_bytes ?k = [] \<Longrightarrow> ?k = []" by (cases ?k) (auto simp flip: length_0_conv)
  have u: "unat (of_nat (length (digest_bytes ?k)) :: u32) = length (digest_bytes ?k)" using le v(2) by (simp add: unat_of_nat)
  have h1: "digest_holds m1 ?k"
    using d(3) u e by (auto simp: digest_holds_def m1_def)
  have "length (digest_bytes ?k) + 4 + length v < 2 ^ 32" using le v(2) by linarith
  from digest_add_holds [OF h1 v(1) this malloc, of alg] obtain m' where m':
      "brix_xmeta_digest_add malloc m1 alg (Some v) (of_nat (length v)) = Inr m'" "digest_holds m' (?k @ [(alg, v)])"
      "m' = m1\<lparr>xm_digests := xm_digests m', xm_digests_len := xm_digests_len m'\<rparr>" by blast
  have "m' = m\<lparr>xm_digests := xm_digests m', xm_digests_len := xm_digests_len m'\<rparr>"
    by (subst m'(3)) (simp add: m1_def)
  moreover have "brix_xmeta_digest_set malloc m alg (Some v) (of_nat (length v)) = Inr m'"
    unfolding brix_xmeta_digest_set_def Some option.case Let_def keep m1_def [symmetric] by (simp add: ok m'(1))
  ultimately show ?thesis using that m'(2) by blast
qed

section \<open>Properties of the codec\<close>

text \<open>A heap and a record for the witnesses: ten bytes in blocks of four, two of them present, octets 2 to 8 dirty.\<close>

definition heap_zero :: malloc_t where
  "heap_zero n = Some (replicate n 0)"

definition xmeta_sample :: brix_xmeta_t where
  "xmeta_sample = xmeta_zero\<lparr>xm_buffer_size := 4, xm_file_size := 10, xm_nblocks := 3, xm_bitmap := Some [5],
     xm_have_state := True, xm_dirty_lo := 2, xm_dirty_hi := 9\<rparr>"

lemma heap_zero_ok [simp]: "malloc_ok heap_zero"
  by (simp add: malloc_ok_def heap_zero_def)

lemma xmeta_sample_wf: "xmeta_wf xmeta_sample" "unat (xm_digests_len xmeta_sample) \<le> BRIX_XMETA_MAX_SECTION"
  by (simp_all add: xmeta_wf_def xmeta_sample_def xmeta_zero_def xmeta_nblocks_def xmeta_bitmap_len_def)

lemma xmeta_encode_image:
  assumes "xmeta_wf m" "malloc_ok malloc"
  shows "brix_xmeta_encode malloc m = Inr (xmeta_image m, length (xmeta_image m))"
  using assms encode_image by (metis malloc_ok_def)

text \<open>
  C5. The metadata record survives its encoding: the encoder of a well-formed record succeeds, and the
  decoder reads from the octets the same record, reduced to what the format carries
  (one access record, state fields of a record with state, strings up to their lengths, a tracked block checksum table).
\<close>
theorem xmeta_roundtrip:
  assumes "xmeta_wf m" "unat (xm_digests_len m) \<le> BRIX_XMETA_MAX_SECTION" "malloc_ok malloc"
  shows "\<exists>buf. brix_xmeta_encode malloc m = Inr (buf, length buf) \<and> brix_xmeta_decode malloc buf = Inr (xmeta_norm m)"
  using xmeta_encode_image [OF assms(1,3)] decode_image [OF assms] by blast

theorem xmeta_roundtrip_witness:
  "\<exists>buf. brix_xmeta_encode heap_zero xmeta_sample = Inr (buf, length buf)
     \<and> brix_xmeta_decode heap_zero buf = Inr (xmeta_norm xmeta_sample)"
  using xmeta_roundtrip [OF xmeta_sample_wf heap_zero_ok] .

text \<open>
  The encoder allocates once and fills exactly that block: the cursor ends at the planned capacity, no octet is written
  past it, and no octet of what the heap returned reaches the output (the output is the same for every heap).
\<close>
theorem xmeta_encode_fills:
  assumes "xmeta_wf m" "malloc_ok malloc" "malloc_ok malloc'"
  shows "\<exists>buf. brix_xmeta_encode malloc m = Inr (buf, xp_cap (xmeta_encode_plan m))
     \<and> length buf = xp_cap (xmeta_encode_plan m) \<and> brix_xmeta_encode malloc' m = Inr (buf, xp_cap (xmeta_encode_plan m))"
  using xmeta_encode_image [OF assms(1,2)] xmeta_encode_image [OF assms(1,3)] encode_cap(1) [OF assms(1)] by simp

theorem xmeta_encode_fills_witness:
  "\<exists>buf. brix_xmeta_encode heap_zero xmeta_sample = Inr (buf, xp_cap (xmeta_encode_plan xmeta_sample))
     \<and> length buf = xp_cap (xmeta_encode_plan xmeta_sample)
     \<and> brix_xmeta_encode (\<lambda>n. Some (replicate n 7)) xmeta_sample = Inr (buf, xp_cap (xmeta_encode_plan xmeta_sample))"
  by (rule xmeta_encode_fills [OF xmeta_sample_wf(1) heap_zero_ok]) (simp add: malloc_ok_def)

text \<open>
  C9. Whatever the octets, a record the decoder accepts is well formed: block size positive, block count that of
  its sizes and at most 2 ^ 26, bitmap and checksum table of that geometry, string lengths within their
  arrays, digest length that of its list.  So every accepted record can be used and encoded again.
\<close>
theorem xmeta_decode_typed:
  assumes "brix_xmeta_decode malloc buf = Inr m"
  shows "xmeta_wf m"
  using decode_wf [OF assms] .

theorem xmeta_decode_typed_witness: "xmeta_wf (xmeta_norm xmeta_sample)"
  by (rule xmeta_decode_typed [OF decode_image [OF xmeta_sample_wf heap_zero_ok]])

text \<open>
  C19. Truncation.  A record cut inside its stock prefix is not recognised; cut inside its sections it is
  refused as torn; but cut exactly behind the stock prefix, or within the eight octets of the extension header, it is accepted as a
  plain stock record, without its dirty extent, validators and digests.
\<close>
theorem xmeta_truncation:
  assumes "xmeta_wf m" "unat (xm_digests_len m) \<le> BRIX_XMETA_MAX_SECTION" "malloc_ok malloc"
    and "brix_xmeta_encode malloc m = Inr (buf, len)" "n < len"
  shows "brix_xmeta_decode malloc (take n buf) =
     (if n < length (stock_bytes m) then Inl XMETA_FOREIGN
      else if n < length (stock_bytes m) + 8 then Inr (xmeta_stock_part m) else Inl (XMETA_ERR EBADMSG))"
proof -
  have "buf = xmeta_image m" "n < length (xmeta_image m)" using assms(4,5) xmeta_encode_image [OF assms(1,3)] by auto
  then show ?thesis using decode_cut [OF assms(1-3), of n] by simp
qed

theorem xmeta_truncation_witness:
  "\<exists>buf len. brix_xmeta_encode heap_zero xmeta_sample = Inr (buf, len) \<and> 63 < len
     \<and> brix_xmeta_decode heap_zero (take 63 buf) = Inr (xmeta_stock_part xmeta_sample)"
proof -
  have s: "length (stock_bytes xmeta_sample) = 61"
    by (simp add: stock_bytes_def xmeta_body_def xmeta_sample_def xmeta_zero_def xmeta_bitmap_len_def)
  then have l: "63 < length (xmeta_image xmeta_sample)" by (simp add: xmeta_image_def ext_head_def)
  show ?thesis
    using xmeta_truncation [OF xmeta_sample_wf heap_zero_ok xmeta_encode_image [OF xmeta_sample_wf(1) heap_zero_ok] l]
      xmeta_encode_image [OF xmeta_sample_wf(1) heap_zero_ok] s l by simp
qed

text \<open>
  C8. Corruption.  Octets are accepted only when every checksum in them matches what it covers: the Store
  struct, the bitmap and access records, and each section announced after them, whoever wrote the octets.
  And an encoded record changed within one window of at most four neighbouring octets of a region that a
  checksum covers (the Store struct, the bitmap and access record, every section but its length field, and
  each checksum itself) is refused as torn.
\<close>
theorem xmeta_torn_refused:
  "(brix_xmeta_decode malloc octets = Inr r \<longrightarrow> xmeta_sealed octets)
   \<and> (xmeta_wf m \<and> unat (xm_digests_len m) \<le> BRIX_XMETA_MAX_SECTION \<and> malloc_ok malloc
        \<and> brix_xmeta_encode malloc m = Inr (buf, len)
        \<and> xmeta_guarded m off (length new) \<and> length new \<le> 4 \<and> memcpy_at off new buf \<noteq> buf
      \<longrightarrow> brix_xmeta_decode malloc (memcpy_at off new buf) = Inl (XMETA_ERR EBADMSG))"
proof -
  have "brix_xmeta_decode malloc (memcpy_at off new buf) = Inl (XMETA_ERR EBADMSG)"
    if a: "xmeta_wf m" "unat (xm_digests_len m) \<le> BRIX_XMETA_MAX_SECTION" "malloc_ok malloc"
      "brix_xmeta_encode malloc m = Inr (buf, len)"
      "xmeta_guarded m off (length new)" "length new \<le> 4" "memcpy_at off new buf \<noteq> buf"
  proof -
    have "buf = xmeta_image m" using a(4) xmeta_encode_image [OF a(1,3)] by simp
    then show ?thesis using decode_torn [OF a(1-3,5,6) refl] a(7) by simp
  qed
  then show ?thesis using decode_sealed by blast
qed

theorem xmeta_torn_refused_witness:
  "\<exists>buf len. brix_xmeta_encode heap_zero xmeta_sample = Inr (buf, len)
     \<and> xmeta_sealed buf \<and> brix_xmeta_decode heap_zero (memcpy_at 4 [9] buf) = Inl (XMETA_ERR EBADMSG)"
proof -
  have l: "4 < length (xmeta_image m)" for m by (simp add: xmeta_image_def stock_bytes_def)
  have "xmeta_image m ! 4 = le_bytes 8 (xm_buffer_size m) ! 0" for m
    by (simp add: xmeta_image_def stock_bytes_def store_bytes_def xmeta_store_def nth_append)
  then have "xmeta_image xmeta_sample ! 4 = 4" by (simp add: xmeta_sample_def le_bytes_def)
  moreover have "memcpy_at 4 [9] (xmeta_image xmeta_sample) ! 4 = 9"
    using l [of xmeta_sample] nth_memcpy_at [of 4 "[9]" "xmeta_image xmeta_sample" 4] by simp
  ultimately have ne: "memcpy_at 4 [9] (xmeta_image xmeta_sample) \<noteq> xmeta_image xmeta_sample" by auto
  note enc = xmeta_encode_image [OF xmeta_sample_wf(1) heap_zero_ok]
  have "brix_xmeta_decode heap_zero (xmeta_image xmeta_sample) = Inr (xmeta_norm xmeta_sample)"
    using decode_image [OF xmeta_sample_wf heap_zero_ok] .
  then show ?thesis
    using xmeta_torn_refused [of heap_zero "xmeta_image xmeta_sample" "xmeta_norm xmeta_sample" xmeta_sample "xmeta_image xmeta_sample"
        "length (xmeta_image xmeta_sample)" 4 "[9]"] enc ne xmeta_sample_wf heap_zero_ok
    by (simp add: xmeta_guarded_def)
qed

text \<open>
  Setting a digest replaces every entry of its algorithm by the new value at the end and keeps the others
  in order; reading entry by entry then yields exactly this list.
\<close>
theorem xmeta_digest_set_get:
  assumes "digest_holds m es" "length v < 2 ^ 16" "length (digest_bytes es) + 4 + length v < 2 ^ 32" "malloc_ok malloc"
  shows "\<exists>m'. brix_xmeta_digest_set malloc m alg (Some v) (of_nat (length v)) = Inr m'
     \<and> (let es' = filter (\<lambda>(a, _). a \<noteq> alg) es @ [(alg, v)]
        in \<forall>i. brix_xmeta_digest_get m' i = (if unat i < length es' then Inr (es' ! unat i) else Inl XMETA_FOREIGN))
     \<and> m' = m\<lparr>xm_digests := xm_digests m', xm_digests_len := xm_digests_len m'\<rparr>"
proof -
  obtain m' where "brix_xmeta_digest_set malloc m alg (Some v) (of_nat (length v)) = Inr m'"
      "digest_holds m' (filter (\<lambda>(a, v). a \<noteq> alg) es @ [(alg, v)])"
      "m' = m\<lparr>xm_digests := xm_digests m', xm_digests_len := xm_digests_len m'\<rparr>"
    using digest_set_holds [OF assms, of alg] by blast
  then show ?thesis using digest_get_holds [of m'] unfolding Let_def by blast
qed

theorem xmeta_digest_set_get_witness:
  "\<exists>m'. brix_xmeta_digest_set heap_zero (xmeta_zero\<lparr>xm_digests := Some (digest_bytes [(1, [8, 9]), (2, [7])]), xm_digests_len := 11\<rparr>)
       1 (Some [5]) 1 = Inr m'
     \<and> brix_xmeta_digest_get m' 0 = Inr (2, [7]) \<and> brix_xmeta_digest_get m' 1 = Inr (1, [5])
     \<and> brix_xmeta_digest_get m' 2 = Inl XMETA_FOREIGN"
proof -
  let ?m = "xmeta_zero\<lparr>xm_digests := Some (digest_bytes [(1, [8, 9]), (2, [7])]), xm_digests_len := 11\<rparr>"
  have "digest_holds ?m [(1, [8, 9]), (2, [7])]" by (simp add: digest_holds_def)
  from xmeta_digest_set_get [OF this, of "[5]" heap_zero 1] obtain m' where
    s: "brix_xmeta_digest_set heap_zero ?m 1 (Some [5]) (of_nat (length [5])) = Inr m'" and
    g: "\<forall>i. brix_xmeta_digest_get m' i = (if unat i < 2 then Inr ([(2, [7]), (1, [5])] ! unat i) else Inl XMETA_FOREIGN)"
    by (auto simp: Let_def)
  show ?thesis
    by (rule exI [of _ m']) (use s g [rule_format, of 0] g [rule_format, of 1] g [rule_format, of 2] in simp)
qed

end
