(* ===== verification/Xmeta_Path.thy ===== *)
theory Xmeta_Path
  imports Xmeta_Codec
begin

text \<open>
  The carrier of the metadata record of a local file (\<^verbatim>\<open>src/fs/meta/xmeta_path.c\<close>, \<^verbatim>\<open>xmeta_path.h\<close>): the extended attribute
  of the data file when the record fits, else the file \<open>path.cinfo\<close>.  The file system is a map from names to contents and
  one from names to the value of the reserved attribute.  What the system calls may do to a caller is a record of faults:
  an errno for each call that may fail, and the transfer sizes of \<open>pread\<close> and \<open>pwrite\<close>.
\<close>

section \<open>The file system and its faults\<close>

record xfs_t =
  fs_files :: "bytes \<Rightarrow> bytes option"
  fs_xattr :: "bytes \<Rightarrow> bytes option"

text \<open>One result of \<open>pread\<close> or \<open>pwrite\<close>; when the list ends, the remaining calls transfer all they are asked for.\<close>

datatype io_result = IO_bytes nat | IO_eintr | IO_error

record xenv_t =
  xe_malloc :: malloc_t
  xe_getxattr :: "errno_t option"
  xe_setxattr :: "nat \<Rightarrow> errno_t option"
  xe_removexattr :: "errno_t option"
  xe_unlink :: "errno_t option"
  xe_open_read :: "errno_t option"
  xe_open_write :: "errno_t option"
  xe_fstat :: "errno_t option"
  xe_pread :: "io_result list"
  xe_pwrite :: "io_result list"
  xe_write_errno :: errno_t
  xe_ftruncate :: "errno_t option"
  xe_fdatasync :: "errno_t option"
  xe_close :: "errno_t option"
  xe_open_lock :: "errno_t option"
  xe_flock :: "io_result list"

abbreviation (input) PATH_MAX :: nat where "PATH_MAX \<equiv> 4096"
abbreviation (input) BRIX_XMETA_PATH_XATTR_MAX :: nat where "BRIX_XMETA_PATH_XATTR_MAX \<equiv> 65536"

definition sys_getxattr :: "xenv_t \<Rightarrow> xfs_t \<Rightarrow> bytes \<Rightarrow> nat \<Rightarrow> errno_t + bytes" where
  "sys_getxattr env fs path cap =
     (case xe_getxattr env of
        Some e \<Rightarrow> Inl e
      | None \<Rightarrow> if fs_files fs path = None then Inl ENOENT
                else case fs_xattr fs path of
                       None \<Rightarrow> Inl ENODATA
                     | Some v \<Rightarrow> if length v > cap then Inl ERANGE else Inr v)"

definition sys_setxattr :: "xenv_t \<Rightarrow> xfs_t \<Rightarrow> bytes \<Rightarrow> bytes \<Rightarrow> errno_t option \<times> xfs_t" where
  "sys_setxattr env fs path v =
     (if fs_files fs path = None then (Some ENOENT, fs)
      else case xe_setxattr env (length v) of
             Some e \<Rightarrow> (Some e, fs)
           | None \<Rightarrow> (None, fs\<lparr>fs_xattr := (fs_xattr fs)(path \<mapsto> v)\<rparr>))"

definition sys_removexattr :: "xenv_t \<Rightarrow> xfs_t \<Rightarrow> bytes \<Rightarrow> xfs_t" where
  "sys_removexattr env fs path =
     (if xe_removexattr env \<noteq> None \<or> fs_files fs path = None then fs
      else fs\<lparr>fs_xattr := (fs_xattr fs)(path := None)\<rparr>)"

definition sys_unlink :: "xenv_t \<Rightarrow> xfs_t \<Rightarrow> bytes \<Rightarrow> xfs_t" where
  "sys_unlink env fs path =
     (if xe_unlink env \<noteq> None then fs
      else fs\<lparr>fs_files := (fs_files fs)(path := None), fs_xattr := (fs_xattr fs)(path := None)\<rparr>)"

section \<open>Names\<close>

definition brix_xmeta_sidecar_path :: "nat \<Rightarrow> bytes \<Rightarrow> bytes option" where
  "brix_xmeta_sidecar_path cap path =
     (let n = length path + 6 in if n \<ge> cap then None else Some (path @ chars ''.cinfo''))"

text \<open>\<open>strrchr\<close>: the suffix that starts at the last occurrence.\<close>

fun strrchr_suffix :: "bytes \<Rightarrow> byte \<Rightarrow> bytes option" where
  "strrchr_suffix [] c = None"
| "strrchr_suffix (x # xs) c =
     (case strrchr_suffix xs c of Some s \<Rightarrow> Some s | None \<Rightarrow> if x = c then Some (x # xs) else None)"

fun strstr_found :: "bytes \<Rightarrow> bytes \<Rightarrow> bool" where
  "strstr_found [] needle = (needle = [])"
| "strstr_found (x # xs) needle = (take (length needle) (x # xs) = needle \<or> strstr_found xs needle)"

definition brix_xmeta_is_sidecar_name :: "bytes \<Rightarrow> bool" where
  "brix_xmeta_is_sidecar_name name =
     (let dot = strrchr_suffix name 0x2E
      in if dot \<noteq> None \<and> (dot = Some (chars ''.cinfo'') \<or> dot = Some (chars ''.meta'') \<or> dot = Some (chars ''.part'')
            \<or> dot = Some (chars ''.lock''))
         then True else strstr_found name (chars ''.__xrds''))"

section \<open>Loading\<close>

definition xmeta_path_xattr_unfit :: "errno_t \<Rightarrow> bool" where
  "xmeta_path_xattr_unfit err \<longleftrightarrow> err = E2BIG \<or> err = ERANGE \<or> err = ENOSPC \<or> err = ENOTSUP \<or> err = EACCES \<or> err = EPERM
     \<or> err = ENOENT"

text \<open>Some result when the outcome is definitive (\<open>*done = 1\<close>), none to try the sidecar.\<close>

definition xmeta_path_load_from_xattr :: "xenv_t \<Rightarrow> xfs_t \<Rightarrow> bytes \<Rightarrow> (xmeta_fail + brix_xmeta_t) option" where
  "xmeta_path_load_from_xattr env fs path =
     (if xe_malloc env BRIX_XMETA_PATH_XATTR_MAX = None then Some (Inl (XMETA_ERR ENOMEM))
      else case sys_getxattr env fs path BRIX_XMETA_PATH_XATTR_MAX of
             Inl _ \<Rightarrow> None
           | Inr v \<Rightarrow> if length v > 0 then Some (brix_xmeta_decode (xe_malloc env) v) else None)"

text \<open>The octets got by the read loop: it retries interrupted calls and stops at an error or an empty read.\<close>

fun xmeta_pread_loop :: "io_result list \<Rightarrow> nat \<Rightarrow> nat \<Rightarrow> nat" where
  "xmeta_pread_loop [] flen got = (if got < flen then flen else got)"
| "xmeta_pread_loop (r # rs) flen got =
     (if got < flen
      then case r of
             IO_eintr \<Rightarrow> xmeta_pread_loop rs flen got
           | IO_error \<Rightarrow> got
           | IO_bytes n \<Rightarrow> (let k = (if n < flen - got then n else flen - got)
                           in if k = 0 then got else xmeta_pread_loop rs flen (got + k))
      else got)"

definition xmeta_path_read_sidecar_fd :: "xenv_t \<Rightarrow> bytes \<Rightarrow> xmeta_fail + brix_xmeta_t" where
  "xmeta_path_read_sidecar_fd env content =
     (let flen = length content
      in if xe_fstat env \<noteq> None \<or> flen = 0 \<or> flen > BRIX_XMETA_MAX_SECTION then Inl XMETA_FOREIGN
         else if xe_malloc env flen = None then Inl (XMETA_ERR ENOMEM)
         else if xmeta_pread_loop (xe_pread env) flen 0 \<noteq> flen then Inl XMETA_FOREIGN
         else brix_xmeta_decode (xe_malloc env) content)"

definition brix_xmeta_path_load :: "xenv_t \<Rightarrow> xfs_t \<Rightarrow> bytes \<Rightarrow> xmeta_fail + brix_xmeta_t" where
  "brix_xmeta_path_load env fs path =
     (case xmeta_path_load_from_xattr env fs path of
        Some r \<Rightarrow> r
      | None \<Rightarrow>
     case brix_xmeta_sidecar_path PATH_MAX path of
        None \<Rightarrow> Inl (XMETA_ERR ENAMETOOLONG)
      | Some sc \<Rightarrow>
     case xe_open_read env of
        Some e \<Rightarrow> Inl (if e = ENOENT then XMETA_FOREIGN else XMETA_ERR e)
      | None \<Rightarrow>
     case fs_files fs sc of
        None \<Rightarrow> Inl XMETA_FOREIGN
      | Some content \<Rightarrow> xmeta_path_read_sidecar_fd env content)"

section \<open>Saving\<close>

definition xmeta_path_save_to_xattr :: "xenv_t \<Rightarrow> xfs_t \<Rightarrow> bytes \<Rightarrow> bytes \<Rightarrow> (xmeta_fail + unit) option \<times> xfs_t" where
  "xmeta_path_save_to_xattr env fs path buf =
     (if length buf \<le> BRIX_XMETA_PATH_XATTR_MAX
      then case sys_setxattr env fs path buf of
             (None, fs') \<Rightarrow> (Some (Inr ()), fs')
           | (Some e, fs') \<Rightarrow> if \<not> xmeta_path_xattr_unfit e then (Some (Inl (XMETA_ERR e)), fs') else (None, fs')
      else (None, fs))"

text \<open>The write loop: whether it put everything, and the content of the file after it.\<close>

fun xmeta_pwrite_loop :: "io_result list \<Rightarrow> bytes \<Rightarrow> bytes \<Rightarrow> nat \<Rightarrow> bool \<times> bytes" where
  "xmeta_pwrite_loop [] buf content put = (True, memcpy_at put (drop put buf) content)"
| "xmeta_pwrite_loop (r # rs) buf content put =
     (if put < length buf
      then case r of
             IO_eintr \<Rightarrow> xmeta_pwrite_loop rs buf content put
           | IO_error \<Rightarrow> (False, content)
           | IO_bytes n \<Rightarrow> (let k = (if n < length buf - put then n else length buf - put)
                           in if k = 0 then (False, content)
                              else xmeta_pwrite_loop rs buf (memcpy_at put (slice put k buf) content) (put + k))
      else (True, content))"

definition xmeta_path_write_sidecar :: "xenv_t \<Rightarrow> xfs_t \<Rightarrow> bytes \<Rightarrow> bytes \<Rightarrow> (xmeta_fail + unit) \<times> xfs_t" where
  "xmeta_path_write_sidecar env fs sc buf =
     (case xe_open_write env of
        Some e \<Rightarrow> (Inl (XMETA_ERR e), fs)
      | None \<Rightarrow>
          let old = (case fs_files fs sc of None \<Rightarrow> [] | Some c \<Rightarrow> c);
              (all, content) = xmeta_pwrite_loop (xe_pwrite env) buf old 0;
              put = (\<lambda>c. fs\<lparr>fs_files := (fs_files fs)(sc \<mapsto> c)\<rparr>)
          in if \<not> all then (Inl (XMETA_ERR (xe_write_errno env)), put content)
             else case xe_ftruncate env of
                    Some e \<Rightarrow> (Inl (XMETA_ERR e), put content)
                  | None \<Rightarrow>
             case xe_fdatasync env of
                    Some e \<Rightarrow> (Inl (XMETA_ERR e), put (take (length buf) content))
                  | None \<Rightarrow>
             case xe_close env of
                    Some e \<Rightarrow> (Inl (XMETA_ERR e), put (take (length buf) content))
                  | None \<Rightarrow> (Inr (), put (take (length buf) content)))"

definition brix_xmeta_path_save :: "xenv_t \<Rightarrow> xfs_t \<Rightarrow> bytes \<Rightarrow> brix_xmeta_t \<Rightarrow> (xmeta_fail + unit) \<times> xfs_t" where
  "brix_xmeta_path_save env fs path xm =
     (case brix_xmeta_encode (xe_malloc env) xm of
        Inl e \<Rightarrow> (Inl e, fs)
      | Inr (buf, len) \<Rightarrow>
     case brix_xmeta_sidecar_path PATH_MAX path of
        None \<Rightarrow> (Inl (XMETA_ERR ENAMETOOLONG), fs)
      | Some sc \<Rightarrow>
     case xmeta_path_save_to_xattr env fs path buf of
        (Some (Inr _), fs') \<Rightarrow> (Inr (), sys_unlink env fs' sc)
      | (Some (Inl e), fs') \<Rightarrow> (Inl e, fs')
      | (None, fs') \<Rightarrow>
     case xmeta_path_write_sidecar env fs' sc buf of
        (Inl e, fs'') \<Rightarrow> (Inl e, fs'')
      | (Inr _, fs'') \<Rightarrow> (Inr (), sys_removexattr env fs'' path))"

definition brix_xmeta_path_remove :: "xenv_t \<Rightarrow> xfs_t \<Rightarrow> bytes \<Rightarrow> xfs_t" where
  "brix_xmeta_path_remove env fs path =
     (let fs' = sys_removexattr env fs path
      in case brix_xmeta_sidecar_path PATH_MAX path of None \<Rightarrow> fs' | Some sc \<Rightarrow> sys_unlink env fs' sc)"

text \<open>
  The name whose inode carries the advisory lock: the data file, or the sidecar (created) when there is no
  data file.  \<open>flock\<close> retries interrupted calls.
\<close>

fun flock_loop :: "io_result list \<Rightarrow> bool" where
  "flock_loop [] = True"
| "flock_loop (IO_eintr # rs) = flock_loop rs"
| "flock_loop (IO_error # rs) = False"
| "flock_loop (IO_bytes _ # rs) = True"

definition brix_xmeta_path_lock :: "xenv_t \<Rightarrow> xfs_t \<Rightarrow> bytes \<Rightarrow> bytes option \<times> xfs_t" where
  "brix_xmeta_path_lock env fs path =
     (if fs_files fs path \<noteq> None
      then case xe_open_lock env of
             Some _ \<Rightarrow> (None, fs)
           | None \<Rightarrow> (if flock_loop (xe_flock env) then Some path else None, fs)
      else case brix_xmeta_sidecar_path PATH_MAX path of
             None \<Rightarrow> (None, fs)
           | Some sc \<Rightarrow>
      case xe_open_write env of
             Some _ \<Rightarrow> (None, fs)
           | None \<Rightarrow>
               let fs' = (if fs_files fs sc = None then fs\<lparr>fs_files := (fs_files fs)(sc \<mapsto> [])\<rparr> else fs)
               in (if flock_loop (xe_flock env) then Some sc else None, fs'))"

section \<open>The octets and shape of a reduced record\<close>

lemma xmeta_norm_sel [simp]:
  "xm_buffer_size (xmeta_norm m) = xm_buffer_size m" "xm_file_size (xmeta_norm m) = xm_file_size m"
  "xm_nblocks (xmeta_norm m) = xm_nblocks m" "xm_bitmap (xmeta_norm m) = xm_bitmap m"
  "xm_have_state (xmeta_norm m) = xm_have_state m" "xm_digests (xmeta_norm m) = xm_digests m"
  "xm_digests_len (xmeta_norm m) = xm_digests_len m"
  "xm_have_state m \<Longrightarrow> xm_origin_mtime (xmeta_norm m) = xm_origin_mtime m"
  "xm_have_state m \<Longrightarrow> xm_dirty_lo (xmeta_norm m) = xm_dirty_lo m"
  "xm_have_state m \<Longrightarrow> xm_dirty_hi (xmeta_norm m) = xm_dirty_hi m"
  "xm_have_state m \<Longrightarrow> xm_dirty_since (xmeta_norm m) = xm_dirty_since m"
  "xm_have_state m \<Longrightarrow> xm_flush_gen (xmeta_norm m) = xm_flush_gen m"
  "xm_have_state m \<Longrightarrow> xm_bytes_flushed (xmeta_norm m) = xm_bytes_flushed m"
  "xm_have_state m \<Longrightarrow> xm_last_flush (xmeta_norm m) = xm_last_flush m"
  "xm_have_state m \<Longrightarrow> xm_state_flags (xmeta_norm m) = xm_state_flags m"
  "xm_have_state m \<Longrightarrow> xm_mode (xmeta_norm m) = xm_mode m"
  by (simp_all add: xmeta_norm_def)

lemma take_xmeta_pad: "unat n \<le> k \<Longrightarrow> unat n \<le> length arr \<Longrightarrow> take (unat n) (xmeta_pad k n arr) = take (unat n) arr"
  by (simp add: xmeta_pad_def)

lemma length_xmeta_pad: "unat n \<le> k \<Longrightarrow> unat n \<le> length arr \<Longrightarrow> length (xmeta_pad k n arr) = k"
  by (simp add: xmeta_pad_def)

lemma xmeta_norm_wf: "xmeta_wf m \<Longrightarrow> xmeta_wf (xmeta_norm m)"
  unfolding xmeta_wf_def
  by (simp add: length_xmeta_pad xmeta_norm_def cong: option.case_cong) (auto split: option.splits)

lemma xmeta_norm_image:
  assumes "xmeta_wf m"
  shows "xmeta_image (xmeta_norm m) = xmeta_image m"
proof -
  have l: "unat (xm_etag_len m) \<le> 128" "length (xm_etag m) = 128" "unat (xm_cks_alg_len m) \<le> 16" "length (xm_cks_alg m) = 16"
      "unat (xm_cks_len m) \<le> 129" "length (xm_cks_hex m) = 129"
    using assms by (simp_all add: xmeta_wf_def)
  have c: "0 < sint (xm_astat_count (xmeta_norm m)) \<longleftrightarrow> 0 < sint (xm_astat_count m)"
      "0 < sint (xm_astat_count m) \<Longrightarrow> xm_astat (xmeta_norm m) = xm_astat m"
      "xm_have_state m \<Longrightarrow> xmeta_state (xmeta_norm m) = xmeta_state m"
    by (simp_all add: xmeta_norm_def xmeta_state_def)
  have "xmeta_store (xmeta_norm m) = xmeta_store m" unfolding xmeta_store_def c(1) by (simp add: xmeta_norm_def)
  moreover have "xmeta_body (xmeta_norm m) = xmeta_body m" unfolding xmeta_body_def c(1) using c(2) by simp
  ultimately have "stock_bytes (xmeta_norm m) = stock_bytes m" by (simp add: stock_bytes_def)
  moreover have "origin_bytes (xmeta_norm m) = origin_bytes m"
    using l by (simp add: origin_bytes_def xmeta_norm_def take_xmeta_pad)
  moreover have "blockcrc_bytes (xmeta_norm m) t = blockcrc_bytes m t" for t by (simp add: blockcrc_bytes_def)
  moreover have "xm_etag_len (xmeta_norm m) = xm_etag_len m" "xm_cks_len (xmeta_norm m) = xm_cks_len m"
      "xm_cks_alg_len (xmeta_norm m) = xm_cks_alg_len m" "xm_have_blockcrc (xmeta_norm m) = xm_have_blockcrc m"
      "xm_have_blockcrc m \<Longrightarrow> xm_blockcrc (xmeta_norm m) = xm_blockcrc m" by (simp_all add: xmeta_norm_def)
  moreover have "\<not> xm_have_blockcrc m \<Longrightarrow> xm_blockcrc (xmeta_norm m) = None" by (simp add: xmeta_norm_def)
  ultimately have "xmeta_sections (xmeta_norm m) = xmeta_sections m"
    using c(3) unfolding xmeta_sections_def by (cases "xm_have_blockcrc m") (auto split: option.splits)
  then show ?thesis using \<open>stock_bytes (xmeta_norm m) = stock_bytes m\<close> by (simp add: xmeta_image_def ext_head_def)
qed

text \<open>What a carrier can hold: a well-formed record whose octets do not exceed the sidecar's limit.\<close>

definition xmeta_fits :: "brix_xmeta_t \<Rightarrow> bool" where
  "xmeta_fits m \<longleftrightarrow> xmeta_wf m \<and> unat (xm_digests_len m) \<le> BRIX_XMETA_MAX_SECTION
     \<and> length (xmeta_image m) \<le> BRIX_XMETA_MAX_SECTION"

lemma xmeta_norm_fits: "xmeta_fits m \<Longrightarrow> xmeta_fits (xmeta_norm m)"
  using xmeta_norm_wf xmeta_norm_image by (simp add: xmeta_fits_def)

section \<open>Interface of a metadata store\<close>

text \<open>
  What a client of a carrier relies on: a saved record is loaded, reduced to what the format carries; the
  records of other keys are untouched; taking the lock changes no record.
\<close>

locale record_store =
  fixes load :: "'s \<Rightarrow> 'k \<Rightarrow> xmeta_fail + brix_xmeta_t"
    and save :: "'s \<Rightarrow> 'k \<Rightarrow> brix_xmeta_t \<Rightarrow> (xmeta_fail + unit) \<times> 's"
    and key :: "'k \<Rightarrow> bool"
    and fits :: "brix_xmeta_t \<Rightarrow> bool"
  assumes load_save: "key k \<Longrightarrow> fits m \<Longrightarrow> \<exists>s'. save s k m = (Inr (), s') \<and> load s' k = Inr (xmeta_norm m)"
    and load_other: "key k \<Longrightarrow> key k' \<Longrightarrow> k \<noteq> k' \<Longrightarrow> save s k m = (r, s') \<Longrightarrow> load s' k' = load s k'"
    and norm_fits: "fits m \<Longrightarrow> fits (xmeta_norm m)"
begin

lemma save_ok: "key k \<Longrightarrow> fits m \<Longrightarrow> fst (save s k m) = Inr ()"
  using load_save [of k m s] by auto

lemma load_saved: "key k \<Longrightarrow> fits m \<Longrightarrow> load (snd (save s k m)) k = Inr (xmeta_norm m)"
  using load_save [of k m s] by auto

lemma load_unsaved: "key k \<Longrightarrow> key k' \<Longrightarrow> k \<noteq> k' \<Longrightarrow> load (snd (save s k m)) k' = load s k'"
  using load_other by (metis prod.collapse)

text \<open>A run of saves leaves in each key its last record.\<close>

lemma load_after_saves:
  assumes "\<forall>(k, m) \<in> set ops. key k \<and> fits m" "key k"
  shows "load (fold (\<lambda>(k, m) s. snd (save s k m)) ops s) k
    = (case map_of (rev ops) k of None \<Rightarrow> load s k | Some m \<Rightarrow> Inr (xmeta_norm m))"
  using assms(1)
proof (induction ops rule: rev_induct)
  case (snoc op ops)
  obtain k' m where "op = (k', m)" by (cases op)
  then show ?case using snoc assms(2) by (cases "k' = k") (auto simp: load_saved load_unsaved)
qed simp

end

locale locked_store = record_store load save key fits
  for load :: "'s \<Rightarrow> 'k \<Rightarrow> xmeta_fail + brix_xmeta_t"
    and save :: "'s \<Rightarrow> 'k \<Rightarrow> brix_xmeta_t \<Rightarrow> (xmeta_fail + unit) \<times> 's"
    and key :: "'k \<Rightarrow> bool"
    and fits :: "brix_xmeta_t \<Rightarrow> bool" +
  fixes lock :: "'s \<Rightarrow> 'k \<Rightarrow> bool \<times> 's"
  assumes lock_ok: "key k \<Longrightarrow> fst (lock s k)"
    and lock_load: "key k \<Longrightarrow> key k' \<Longrightarrow> load (snd (lock s k)) k' = load s k'"
begin

lemma locked_save:
  assumes "key k" "fits m"
  obtains s' where "save (snd (lock s k)) k m = (Inr (), s')" "load s' k = Inr (xmeta_norm m)"
    "\<And>k'. key k' \<Longrightarrow> k' \<noteq> k \<Longrightarrow> load s' k' = load s k'"
proof -
  obtain s' where s': "save (snd (lock s k)) k m = (Inr (), s')" "load s' k = Inr (xmeta_norm m)"
    using load_save [OF assms] by blast
  then have "load s' k' = load s k'" if "key k'" "k' \<noteq> k" for k'
    using that load_other [OF assms(1) _ _ s'(1)] lock_load [OF assms(1)] by metis
  then show ?thesis using that s' by blast
qed

end

section \<open>The carrier implements the interface\<close>

text \<open>System calls that make progress and fail only where the carrier has a fallback.\<close>

definition io_progress :: "io_result list \<Rightarrow> bool" where
  "io_progress rs \<longleftrightarrow> IO_error \<notin> set rs \<and> IO_bytes 0 \<notin> set rs"

definition xenv_healthy :: "xenv_t \<Rightarrow> bool" where
  "xenv_healthy env \<longleftrightarrow> malloc_ok (xe_malloc env) \<and> xe_getxattr env = None
     \<and> (\<forall>n. case xe_setxattr env n of None \<Rightarrow> True | Some e \<Rightarrow> xmeta_path_xattr_unfit e)
     \<and> xe_removexattr env = None \<and> xe_unlink env = None \<and> xe_open_read env = None \<and> xe_open_write env = None
     \<and> xe_fstat env = None \<and> io_progress (xe_pread env) \<and> io_progress (xe_pwrite env) \<and> xe_ftruncate env = None
     \<and> xe_fdatasync env = None \<and> xe_close env = None \<and> xe_open_lock env = None \<and> io_progress (xe_flock env)"

text \<open>Names of data files: short enough for a sidecar, and not themselves named like one.\<close>

definition xmeta_key :: "bytes \<Rightarrow> bool" where
  "xmeta_key path \<longleftrightarrow> length path + 6 < PATH_MAX \<and> \<not> brix_xmeta_is_sidecar_name path"

lemma strrchr_sidecar: "strrchr_suffix (p @ chars ''.cinfo'') 0x2E = Some (chars ''.cinfo'')"
  by (induction p) (simp_all add: chars_def of_char_def)

lemma sidecar_is_sidecar [simp]: "brix_xmeta_is_sidecar_name (p @ chars ''.cinfo'')"
  by (simp add: brix_xmeta_is_sidecar_name_def strrchr_sidecar)

lemma xmeta_key_sidecar:
  assumes "xmeta_key p"
  shows "brix_xmeta_sidecar_path PATH_MAX p = Some (p @ chars ''.cinfo'')" "p \<noteq> q @ chars ''.cinfo''"
proof -
  show "brix_xmeta_sidecar_path PATH_MAX p = Some (p @ chars ''.cinfo'')"
    using assms by (simp add: xmeta_key_def brix_xmeta_sidecar_path_def)
  show "p \<noteq> q @ chars ''.cinfo''" using assms sidecar_is_sidecar unfolding xmeta_key_def by blast
qed

lemma pread_loop_all: "io_progress rs \<Longrightarrow> got \<le> flen \<Longrightarrow> xmeta_pread_loop rs flen got = flen"
  by (induction rs arbitrary: got) (auto simp: io_progress_def Let_def split: io_result.splits)

lemma pwrite_loop_all:
  "\<lbrakk>io_progress rs; put \<le> length buf; put \<le> length content; take put content = take put buf\<rbrakk>
   \<Longrightarrow> \<exists>c. xmeta_pwrite_loop rs buf content put = (True, c) \<and> take (length buf) c = buf"
proof (induction rs buf content put rule: xmeta_pwrite_loop.induct)
  case (1 buf content put)
  then show ?case by (simp add: memcpy_at_def)
next
  case (2 r rs buf content put)
  show ?case
  proof (cases "put < length buf")
    case True
    show ?thesis
    proof (cases r)
      case (IO_bytes n)
      let ?k = "if n < length buf - put then n else length buf - put"
      have k: "0 < ?k" "put + ?k \<le> length buf" using 2(3) IO_bytes True by (auto simp: io_progress_def)
      have "take (put + ?k) (memcpy_at put (slice put ?k buf) content) = take (put + ?k) buf"
        using 2(4-6) k by (simp add: memcpy_at_def slice_def take_add)
      moreover have "put + ?k \<le> length (memcpy_at put (slice put ?k buf) content)"
        using 2(4,5) k by (simp add: memcpy_at_def)
      moreover have "io_progress rs" using 2(3) by (simp add: io_progress_def)
      ultimately show ?thesis
        using 2(1) [OF True IO_bytes refl] k True IO_bytes by (simp add: Let_def)
    next
      case IO_error
      then show ?thesis using 2(3) by (simp add: io_progress_def)
    next
      case IO_eintr
      then show ?thesis using 2(2) [OF True IO_eintr] 2(3-) True by (simp add: io_progress_def)
    qed
  next
    case False
    then show ?thesis using 2(4-6) by simp
  qed
qed

lemma xmeta_image_length: "60 \<le> length (xmeta_image m)"
  by (simp add: xmeta_image_def stock_bytes_def)

text \<open>A load looks at the attribute of the file and at its sidecar only.\<close>

lemma path_load_cong:
  assumes "xmeta_key path" "fs_files fs' path = None \<longleftrightarrow> fs_files fs path = None"
    and "fs_files fs path \<noteq> None \<Longrightarrow> fs_xattr fs' path = fs_xattr fs path"
    and "fs_files fs' (path @ chars ''.cinfo'') = fs_files fs (path @ chars ''.cinfo'')"
  shows "brix_xmeta_path_load env fs' path = brix_xmeta_path_load env fs path"
proof -
  have "sys_getxattr env fs' path n = sys_getxattr env fs path n" for n
    using assms(2,3) by (auto simp: sys_getxattr_def split: option.splits)
  then show ?thesis
    unfolding brix_xmeta_path_load_def xmeta_path_load_from_xattr_def xmeta_key_sidecar(1) [OF assms(1)] option.case assms(4)
    by simp
qed

lemma path_load_xattr:
  assumes env: "xenv_healthy env" and m: "xmeta_fits m" and fs: "fs_files fs path \<noteq> None" "fs_xattr fs path = Some (xmeta_image m)"
    "length (xmeta_image m) \<le> BRIX_XMETA_PATH_XATTR_MAX"
  shows "brix_xmeta_path_load env fs path = Inr (xmeta_norm m)"
proof -
  have "xe_malloc env n \<noteq> None" for n using env by (metis xenv_healthy_def malloc_ok_def option.discI)
  moreover have "sys_getxattr env fs path BRIX_XMETA_PATH_XATTR_MAX = Inr (xmeta_image m)"
    using env fs by (auto simp: sys_getxattr_def xenv_healthy_def)
  moreover have "brix_xmeta_decode (xe_malloc env) (xmeta_image m) = Inr (xmeta_norm m)"
    using env m decode_image by (simp add: xenv_healthy_def xmeta_fits_def)
  moreover have "xmeta_image m \<noteq> []" using xmeta_image_length [of m] by auto
  ultimately show ?thesis by (simp add: brix_xmeta_path_load_def xmeta_path_load_from_xattr_def)
qed

lemma path_load_sidecar:
  assumes env: "xenv_healthy env" and m: "xmeta_fits m" and key: "xmeta_key path"
    and fs: "fs_files fs path = None \<or> fs_xattr fs path = None" "fs_files fs (path @ chars ''.cinfo'') = Some (xmeta_image m)"
  shows "brix_xmeta_path_load env fs path = Inr (xmeta_norm m)"
proof -
  have malloc: "xe_malloc env n \<noteq> None" for n using env by (metis xenv_healthy_def malloc_ok_def option.discI)
  have "\<exists>e. sys_getxattr env fs path BRIX_XMETA_PATH_XATTR_MAX = Inl e"
    using env fs(1) by (auto simp: sys_getxattr_def xenv_healthy_def)
  then have x: "xmeta_path_load_from_xattr env fs path = None"
    using malloc by (auto simp: xmeta_path_load_from_xattr_def)
  have "brix_xmeta_decode (xe_malloc env) (xmeta_image m) = Inr (xmeta_norm m)"
    using env m decode_image by (simp add: xenv_healthy_def xmeta_fits_def)
  moreover have "xmeta_image m \<noteq> []" using xmeta_image_length [of m] by auto
  ultimately have "xmeta_path_read_sidecar_fd env (xmeta_image m) = Inr (xmeta_norm m)"
    using env m malloc pread_loop_all [of "xe_pread env" 0 "length (xmeta_image m)"]
    by (simp add: xmeta_path_read_sidecar_fd_def xenv_healthy_def xmeta_fits_def Let_def)
  then show ?thesis
    using x xmeta_key_sidecar(1) [OF key] fs(2) env by (simp add: brix_xmeta_path_load_def xenv_healthy_def)
qed

lemma write_sidecar_done:
  assumes "xe_open_write env = None" "io_progress (xe_pwrite env)" "xe_ftruncate env = None" "xe_fdatasync env = None" "xe_close env = None"
  shows "xmeta_path_write_sidecar env fs sc buf = (Inr (), fs\<lparr>fs_files := (fs_files fs)(sc \<mapsto> buf)\<rparr>)"
proof -
  obtain c where "xmeta_pwrite_loop (xe_pwrite env) buf (case fs_files fs sc of None \<Rightarrow> [] | Some c \<Rightarrow> c) 0 = (True, c)" "take (length buf) c = buf"
    using pwrite_loop_all [of "xe_pwrite env" 0 buf] assms(2) by auto
  then show ?thesis using assms by (simp add: xmeta_path_write_sidecar_def)
qed

lemma write_sidecar_ok:
  assumes "xenv_healthy env"
  shows "xmeta_path_write_sidecar env fs sc buf = (Inr (), fs\<lparr>fs_files := (fs_files fs)(sc \<mapsto> buf)\<rparr>)"
  using assms by (intro write_sidecar_done) (simp_all add: xenv_healthy_def)

text \<open>
  A save stores the octets in exactly one carrier: behind it either the attribute holds them and there is no
  sidecar, or the sidecar holds them and there is no attribute to be read.
\<close>

definition one_carrier :: "xfs_t \<Rightarrow> bytes \<Rightarrow> bytes \<Rightarrow> bool" where
  "one_carrier fs path img \<longleftrightarrow>
     (let sc = path @ chars ''.cinfo''
      in fs_files fs path \<noteq> None \<and> fs_xattr fs path = Some img \<and> length img \<le> BRIX_XMETA_PATH_XATTR_MAX \<and> fs_files fs sc = None
         \<or> (fs_files fs path = None \<or> fs_xattr fs path = None) \<and> fs_files fs sc = Some img)"

lemma path_save_ok:
  assumes env: "xenv_healthy env" and key: "xmeta_key path" and m: "xmeta_fits m"
  obtains fs' where "brix_xmeta_path_save env fs path m = (Inr (), fs')" "one_carrier fs' path (xmeta_image m)"
    "\<And>q. q \<noteq> path @ chars ''.cinfo'' \<Longrightarrow> fs_files fs' q = fs_files fs q"
    "\<And>q. q \<noteq> path \<Longrightarrow> q \<noteq> path @ chars ''.cinfo'' \<Longrightarrow> fs_xattr fs' q = fs_xattr fs q"
proof -
  let ?sc = "path @ chars ''.cinfo''" and ?img = "xmeta_image m"
  have ne: "?sc \<noteq> path" by (simp add: chars_def)
  have enc: "brix_xmeta_encode (xe_malloc env) m = Inr (?img, length ?img)"
    using env m xmeta_encode_image by (simp add: xenv_healthy_def xmeta_fits_def)
  consider (xattr) fs1 where "xmeta_path_save_to_xattr env fs path ?img = (Some (Inr ()), fs1)" "length ?img \<le> BRIX_XMETA_PATH_XATTR_MAX"
      "fs_files fs path \<noteq> None" "fs1 = fs\<lparr>fs_xattr := (fs_xattr fs)(path \<mapsto> ?img)\<rparr>"
    | (side) "xmeta_path_save_to_xattr env fs path ?img = (None, fs)"
  proof (cases "length ?img \<le> BRIX_XMETA_PATH_XATTR_MAX")
    case len: True
    have unfit: "xe_setxattr env n = Some e \<Longrightarrow> xmeta_path_xattr_unfit e" for n e
      using env by (auto simp: xenv_healthy_def split: option.splits)
    have "xmeta_path_xattr_unfit ENOENT" by (simp add: xmeta_path_xattr_unfit_def)
    then show ?thesis
      using that len unfit by (cases "fs_files fs path"; cases "xe_setxattr env (length ?img)")
        (auto simp: xmeta_path_save_to_xattr_def sys_setxattr_def)
  qed (use that in \<open>simp add: xmeta_path_save_to_xattr_def\<close>)
  then show ?thesis
  proof cases
    case xattr
    then have "brix_xmeta_path_save env fs path m = (Inr (), sys_unlink env fs1 ?sc)"
      by (simp add: brix_xmeta_path_save_def enc xmeta_key_sidecar(1) [OF key])
    then show ?thesis
      using that xattr env ne by (auto simp: sys_unlink_def one_carrier_def xenv_healthy_def)
  next
    case side
    then have "brix_xmeta_path_save env fs path m = (Inr (), sys_removexattr env (fs\<lparr>fs_files := (fs_files fs)(?sc \<mapsto> ?img)\<rparr>) path)"
      by (simp add: brix_xmeta_path_save_def enc xmeta_key_sidecar(1) [OF key] write_sidecar_ok [OF env])
    then show ?thesis
      using that env ne by (auto simp: sys_removexattr_def one_carrier_def xenv_healthy_def)
  qed
qed

lemma one_carrier_load:
  assumes "xenv_healthy env" "xmeta_key path" "xmeta_fits m" "one_carrier fs path (xmeta_image m)"
  shows "brix_xmeta_path_load env fs path = Inr (xmeta_norm m)"
  using assms path_load_xattr path_load_sidecar by (auto simp: one_carrier_def Let_def)

lemma path_lock_ok:
  assumes env: "xenv_healthy env" and key: "xmeta_key path"
  obtains fd fs' where "brix_xmeta_path_lock env fs path = (Some fd, fs')"
    "fs' = fs \<or> fs_files fs path = None \<and> fs_files fs (path @ chars ''.cinfo'') = None
       \<and> fs' = fs\<lparr>fs_files := (fs_files fs)(path @ chars ''.cinfo'' \<mapsto> [])\<rparr>"
proof -
  have "io_progress rs \<Longrightarrow> flock_loop rs" for rs
    by (induction rs rule: flock_loop.induct) (auto simp: io_progress_def)
  then have f: "flock_loop (xe_flock env)" "xe_open_lock env = None" "xe_open_write env = None"
    using env by (simp_all add: xenv_healthy_def)
  show ?thesis
  proof (cases "fs_files fs path")
    case None
    then show ?thesis
      using that f xmeta_key_sidecar(1) [OF key] by (simp add: brix_xmeta_path_lock_def split: if_splits)
  next
    case (Some c)
    then show ?thesis using that [of path fs] f by (simp add: brix_xmeta_path_lock_def)
  qed
qed

lemma path_lock_load:
  assumes env: "xenv_healthy env" and key: "xmeta_key path" "xmeta_key q"
  shows "brix_xmeta_path_load env (snd (brix_xmeta_path_lock env fs path)) q = brix_xmeta_path_load env fs q"
proof -
  let ?sc = "path @ chars ''.cinfo''"
  obtain fd fs' where l: "brix_xmeta_path_lock env fs path = (Some fd, fs')"
      "fs' = fs \<or> fs_files fs path = None \<and> fs_files fs ?sc = None \<and> fs' = fs\<lparr>fs_files := (fs_files fs)(?sc \<mapsto> [])\<rparr>"
    using path_lock_ok [OF env key(1)] by blast
  have ne: "q \<noteq> ?sc" using xmeta_key_sidecar(2) [OF key(2)] .
  from l(2) have "brix_xmeta_path_load env fs' q = brix_xmeta_path_load env fs q"
  proof (elim disjE conjE)
    assume n: "fs_files fs path = None" "fs_files fs ?sc = None" "fs' = fs\<lparr>fs_files := (fs_files fs)(?sc \<mapsto> [])\<rparr>"
    show ?thesis
    proof (cases "q = path")
      case True
      have malloc: "xe_malloc env k \<noteq> None" for k using env by (metis xenv_healthy_def malloc_ok_def option.discI)
      have "path \<noteq> ?sc" by (simp add: chars_def)
      then show ?thesis using True n env malloc xmeta_key_sidecar(1) [OF key(1)]
        by (simp add: brix_xmeta_path_load_def xmeta_path_load_from_xattr_def sys_getxattr_def xenv_healthy_def
            xmeta_path_read_sidecar_fd_def)
    next
      case False
      then show ?thesis using n ne by (intro path_load_cong [OF key(2)]) auto
    qed
  qed simp
  then show ?thesis by (simp add: l(1))
qed

text \<open>What a save may change: the sidecar, and the attributes of the two names.\<close>

lemma save_frame:
  assumes "brix_xmeta_path_save env fs path m = (r, fs')" "q \<noteq> path @ chars ''.cinfo''"
  shows "fs_files fs' q = fs_files fs q" "q \<noteq> path \<Longrightarrow> fs_xattr fs' q = fs_xattr fs q"
proof -
  let ?sc = "path @ chars ''.cinfo''"
  define ok where "ok g \<longleftrightarrow> fs_files g q = fs_files fs q \<and> (q \<noteq> path \<longrightarrow> fs_xattr g q = fs_xattr fs q)" for g :: xfs_t
  have un: "ok g \<Longrightarrow> ok (sys_unlink env g ?sc)" for g using assms(2) by (simp add: ok_def sys_unlink_def)
  have rm: "ok g \<Longrightarrow> ok (sys_removexattr env g path)" for g by (simp add: ok_def sys_removexattr_def)
  have set: "ok g \<Longrightarrow> ok (snd (xmeta_path_save_to_xattr env g path buf))" for g buf
    by (simp add: ok_def xmeta_path_save_to_xattr_def sys_setxattr_def split: option.split)
  have wr: "ok g \<Longrightarrow> ok (snd (xmeta_path_write_sidecar env g ?sc buf))" for g buf
    using assms(2) by (simp add: ok_def xmeta_path_write_sidecar_def Let_def split: option.split prod.split)
  have "ok fs" by (simp add: ok_def)
  show "fs_files fs' q = fs_files fs q" "q \<noteq> path \<Longrightarrow> fs_xattr fs' q = fs_xattr fs q"
  proof -
    have "ok fs'"
    proof (cases "brix_xmeta_encode (xe_malloc env) m")
      case (Inl e)
      then show ?thesis using assms(1) \<open>ok fs\<close> by (simp add: brix_xmeta_path_save_def)
    next
      case (Inr b)
      obtain buf len where b: "b = (buf, len)" by (cases b)
      obtain x fs1 where x: "xmeta_path_save_to_xattr env fs path buf = (x, fs1)" by (cases "xmeta_path_save_to_xattr env fs path buf")
      obtain y fs2 where y: "xmeta_path_write_sidecar env fs1 ?sc buf = (y, fs2)" by (cases "xmeta_path_write_sidecar env fs1 ?sc buf")
      have o: "ok fs1" "ok fs2" using set [OF \<open>ok fs\<close>, of buf] wr [of fs1 buf] x y by simp_all
      have sc: "brix_xmeta_sidecar_path PATH_MAX path = None \<or> brix_xmeta_sidecar_path PATH_MAX path = Some ?sc"
        by (simp add: brix_xmeta_sidecar_path_def)
      then have "fs' = fs \<or> fs' = sys_unlink env fs1 ?sc \<or> fs' = fs1 \<or> fs' = fs2 \<or> fs' = sys_removexattr env fs2 path"
      proof
        assume "brix_xmeta_sidecar_path PATH_MAX path = None"
        then show ?thesis using assms(1) by (simp add: brix_xmeta_path_save_def Inr b)
      next
        assume "brix_xmeta_sidecar_path PATH_MAX path = Some ?sc"
        then show ?thesis using assms(1) x y
          by (cases x; cases "the x"; cases y) (simp_all add: brix_xmeta_path_save_def Inr b)
      qed
      then show ?thesis using o un rm \<open>ok fs\<close> by blast
    qed
    then show "fs_files fs' q = fs_files fs q" "q \<noteq> path \<Longrightarrow> fs_xattr fs' q = fs_xattr fs q"
      unfolding ok_def by blast+
  qed
qed

text \<open>
  The carrier as a locked store; the faults are any that are healthy, the same for every call (the store is the
  file system, its environment a parameter of the interpretation).
\<close>

definition xmeta_env :: xenv_t where
  "xmeta_env = \<lparr>xe_malloc = heap_zero, xe_getxattr = None, xe_setxattr = (\<lambda>n. if n > 4000 then Some ENOSPC else None),
     xe_removexattr = None, xe_unlink = None, xe_open_read = None, xe_open_write = None, xe_fstat = None,
     xe_pread = [IO_eintr, IO_bytes 100], xe_pwrite = [IO_bytes 1, IO_eintr], xe_write_errno = EIO, xe_ftruncate = None,
     xe_fdatasync = None, xe_close = None, xe_open_lock = None, xe_flock = [IO_eintr]\<rparr>"

lemma xmeta_env_healthy: "xenv_healthy xmeta_env"
  by (simp add: xenv_healthy_def xmeta_env_def io_progress_def xmeta_path_xattr_unfit_def)

lemma path_record_store:
  assumes env: "xenv_healthy env"
  shows "locked_store (brix_xmeta_path_load env) (brix_xmeta_path_save env) xmeta_key xmeta_fits
    (\<lambda>fs path. (fst (brix_xmeta_path_lock env fs path) \<noteq> None, snd (brix_xmeta_path_lock env fs path)))"
proof unfold_locales
  fix k m and s :: xfs_t
  assume km: "xmeta_key k" "xmeta_fits m"
  obtain s' where s': "brix_xmeta_path_save env s k m = (Inr (), s')" "one_carrier s' k (xmeta_image m)"
    by (rule path_save_ok [OF env km])
  show "\<exists>s'. brix_xmeta_path_save env s k m = (Inr (), s') \<and> brix_xmeta_path_load env s' k = Inr (xmeta_norm m)"
    using s'(1) one_carrier_load [OF env km s'(2)] by blast
next
  fix k k' m r and s s' :: xfs_t
  assume a: "xmeta_key k" "xmeta_key k'" "k \<noteq> k'" "brix_xmeta_path_save env s k m = (r, s')"
  have ne: "k' \<noteq> q @ chars ''.cinfo''" "k' @ chars ''.cinfo'' \<noteq> k" for q
    using xmeta_key_sidecar(2) [OF a(2)] xmeta_key_sidecar(2) [OF a(1)] by auto
  then have "fs_files s' k' = fs_files s k'" "fs_xattr s' k' = fs_xattr s k'"
      "fs_files s' (k' @ chars ''.cinfo'') = fs_files s (k' @ chars ''.cinfo'')"
    using save_frame [OF a(4)] a(3) by auto
  then show "brix_xmeta_path_load env s' k' = brix_xmeta_path_load env s k'"
    by (intro path_load_cong [OF a(2)]) simp_all
next
  fix k and s :: xfs_t
  assume "xmeta_key k"
  then obtain fd fs' where "brix_xmeta_path_lock env s k = (Some fd, fs')" by (rule path_lock_ok [OF env])
  then show "fst (fst (brix_xmeta_path_lock env s k) \<noteq> None, snd (brix_xmeta_path_lock env s k))" by simp
next
  fix k k' and s :: xfs_t
  assume "xmeta_key k" "xmeta_key k'"
  from path_lock_load [OF env this]
  show "brix_xmeta_path_load env (snd (fst (brix_xmeta_path_lock env s k) \<noteq> None, snd (brix_xmeta_path_lock env s k))) k'
      = brix_xmeta_path_load env s k'" by simp
qed (rule xmeta_norm_fits)

interpretation path_store: locked_store "brix_xmeta_path_load xmeta_env" "brix_xmeta_path_save xmeta_env" xmeta_key xmeta_fits
  "\<lambda>fs path. (fst (brix_xmeta_path_lock xmeta_env fs path) \<noteq> None, snd (brix_xmeta_path_lock xmeta_env fs path))"
  by (rule path_record_store [OF xmeta_env_healthy])

section \<open>Fresh records\<close>

lemma init_cases:
  assumes "brix_xmeta_init malloc now sz bs = Inr m"
  shows "0 < sint bs" "0 \<le> sint sz" "xmeta_nblocks sz bs \<le> BRIX_XMETA_MAX_BLOCKS"
    "m = xmeta_zero\<lparr>xm_buffer_size := bs, xm_file_size := sz, xm_creation_time := now, xm_nblocks := xmeta_nblocks sz bs,
       xm_have_state := True, xm_bitmap := Some (replicate (xmeta_bitmap_len (xmeta_nblocks sz bs)) 0),
       xm_blockcrc := Some (replicate (unat (xmeta_nblocks sz bs)) 0), xm_have_blockcrc := True\<rparr>"
  using assms by (auto simp: brix_xmeta_init_def Let_def split: if_splits)

lemma init_wf:
  assumes "brix_xmeta_init malloc now sz bs = Inr m"
  shows "xmeta_wf m" "unat (xm_digests_len m) = 0" "xm_have_state m" "xm_have_blockcrc m" "xm_blockcrc m \<noteq> None"
    "xm_nblocks m = xmeta_nblocks sz bs" "xm_buffer_size m = bs" "xm_file_size m = sz"
  using init_cases [OF assms] by (simp_all add: xmeta_wf_def xmeta_zero_def)

lemma bitmap_len_ge: "unat n \<le> 67108864 \<Longrightarrow> unat n \<le> 8 * xmeta_bitmap_len n"
  by (simp add: xmeta_bitmap_len_def unat_div unat_word_ariths)

lemma init_image_length:
  assumes "brix_xmeta_init malloc now sz bs = Inr m"
  shows "length (xmeta_image m) = 188 + xmeta_bitmap_len (xm_nblocks m) + 4 * unat (xm_nblocks m)"
  unfolding init_cases(4) [OF assms]
  by (simp add: xmeta_image_def stock_bytes_def xmeta_body_def ext_head_def xmeta_sections_def blockcrc_bytes_def xmeta_zero_def
      length_concat sum_list_replicate)

section \<open>Properties of the carrier\<close>

text \<open>
  C6. The carrier is a map: after any sequence of saves under any healthy environment (short transfers, interrupted
  calls, attributes refused or too small), each file reads the last record saved for it, and a
  file never saved reads what it read before.
\<close>
theorem path_saves_read_back:
  assumes "xenv_healthy env" "\<forall>(p, m) \<in> set ops. xmeta_key p \<and> xmeta_fits m" "xmeta_key q"
  shows "brix_xmeta_path_load env (fold (\<lambda>(p, m) fs. snd (brix_xmeta_path_save env fs p m)) ops fs) q
    = (case map_of (rev ops) q of None \<Rightarrow> brix_xmeta_path_load env fs q | Some m \<Rightarrow> Inr (xmeta_norm m))"
  using record_store.load_after_saves [OF locked_store.axioms(1) [OF path_record_store [OF assms(1)]] assms(2,3)] .

definition xfs_sample :: xfs_t where
  "xfs_sample = \<lparr>fs_files = [chars ''/d/a'' \<mapsto> [1, 2, 3]], fs_xattr = (\<lambda>_. None)\<rparr>"

lemma sample_key: "xmeta_key (chars ''/d/a'')"
  by (simp add: xmeta_key_def brix_xmeta_is_sidecar_name_def chars_def of_char_def Let_def)

lemma sample_fits: "xmeta_fits xmeta_sample" "length (xmeta_image xmeta_sample) = 161"
proof -
  show "length (xmeta_image xmeta_sample) = 161"
    by (simp add: xmeta_image_def stock_bytes_def ext_head_def xmeta_sections_def xmeta_body_def xmeta_sample_def
        xmeta_zero_def xmeta_bitmap_len_def)
  then show "xmeta_fits xmeta_sample" using xmeta_sample_wf by (simp add: xmeta_fits_def)
qed

theorem path_saves_read_back_witness:
  "brix_xmeta_path_load xmeta_env (snd (brix_xmeta_path_save xmeta_env xfs_sample (chars ''/d/a'') xmeta_sample)) (chars ''/d/a'')
    = Inr (xmeta_norm xmeta_sample)"
  using path_saves_read_back [OF xmeta_env_healthy, of "[(chars ''/d/a'', xmeta_sample)]" "chars ''/d/a''" xfs_sample]
  by (simp add: sample_key sample_fits(1))

text \<open>
  One carrier: behind a successful save the octets of the record are either in the attribute, with no sidecar, or
  in the sidecar, with no attribute that a reader would prefer; nothing but the sidecar and the attributes
  of these two names has changed.
\<close>
theorem path_save_one_carrier:
  assumes "xenv_healthy env" "xmeta_key path" "xmeta_fits m" "brix_xmeta_encode (xe_malloc env) m = Inr (img, len)"
  shows "\<exists>fs'. brix_xmeta_path_save env fs path m = (Inr (), fs') \<and> one_carrier fs' path img
     \<and> (\<forall>q. q \<noteq> path @ chars ''.cinfo'' \<longrightarrow> fs_files fs' q = fs_files fs q)
     \<and> (\<forall>q. q \<noteq> path \<and> q \<noteq> path @ chars ''.cinfo'' \<longrightarrow> fs_xattr fs' q = fs_xattr fs q)"
proof -
  have "img = xmeta_image m"
    using assms xmeta_encode_image [of m "xe_malloc env"] by (simp add: xenv_healthy_def xmeta_fits_def)
  then show ?thesis using path_save_ok [OF assms(1-3), of fs] by metis
qed

theorem path_save_one_carrier_witness:
  "\<exists>img fs'. brix_xmeta_path_save xmeta_env xfs_sample (chars ''/d/a'') xmeta_sample = (Inr (), fs') \<and> one_carrier fs' (chars ''/d/a'') img"
proof -
  have "brix_xmeta_encode (xe_malloc xmeta_env) xmeta_sample = Inr (xmeta_image xmeta_sample, length (xmeta_image xmeta_sample))"
    using xmeta_encode_image [OF xmeta_sample_wf(1)] xmeta_env_healthy by (simp add: xenv_healthy_def)
  from path_save_one_carrier [OF xmeta_env_healthy sample_key sample_fits(1) this, of xfs_sample] show ?thesis by blast
qed

text \<open>
  C29. A refused attribute shadows the sidecar.  When the process may neither set nor remove the attribute (\<open>EACCES\<close>, one of the
  errors after which the sidecar is written instead), a save reports success and the next load returns the
  record that was there before it.
\<close>
theorem path_save_shadowed:
  assumes "xenv_healthy env" "xmeta_key path" "xmeta_fits m" "xmeta_fits old"
    and "fs_files fs path \<noteq> None" "fs_xattr fs path = Some (xmeta_image old)" "length (xmeta_image old) \<le> BRIX_XMETA_PATH_XATTR_MAX"
  shows "\<exists>fs'. brix_xmeta_path_save (env\<lparr>xe_setxattr := (\<lambda>_. Some EACCES), xe_removexattr := Some EACCES\<rparr>) fs path m = (Inr (), fs')
     \<and> brix_xmeta_path_load env fs' path = Inr (xmeta_norm old)"
proof -
  let ?env = "env\<lparr>xe_setxattr := (\<lambda>_. Some EACCES), xe_removexattr := Some EACCES\<rparr>"
  let ?sc = "path @ chars ''.cinfo''" and ?fs = "fs\<lparr>fs_files := (fs_files fs)(path @ chars ''.cinfo'' \<mapsto> xmeta_image m)\<rparr>"
  have malloc: "malloc_ok (xe_malloc env)" using assms(1) by (simp add: xenv_healthy_def)
  have enc: "brix_xmeta_encode (xe_malloc env) m = Inr (xmeta_image m, length (xmeta_image m))"
    using xmeta_encode_image malloc assms(3) by (simp add: xmeta_fits_def)
  have w: "xmeta_path_write_sidecar ?env fs ?sc (xmeta_image m) = (Inr (), ?fs)"
    using assms(1) by (intro write_sidecar_done) (simp_all add: xenv_healthy_def)
  have "xmeta_path_save_to_xattr ?env fs path (xmeta_image m) = (None, fs)"
    using assms(5) by (simp add: xmeta_path_save_to_xattr_def sys_setxattr_def xmeta_path_xattr_unfit_def)
  then have "brix_xmeta_path_save ?env fs path m = (Inr (), ?fs)"
    by (simp add: brix_xmeta_path_save_def enc xmeta_key_sidecar(1) [OF assms(2)] w sys_removexattr_def)
  moreover have "brix_xmeta_path_load env ?fs path = Inr (xmeta_norm old)"
    by (rule path_load_xattr [OF assms(1,4)]) (use assms(5-7) in simp_all)
  ultimately show ?thesis by blast
qed

theorem path_save_shadowed_witness:
  "\<exists>fs'. brix_xmeta_path_save (xmeta_env\<lparr>xe_setxattr := (\<lambda>_. Some EACCES), xe_removexattr := Some EACCES\<rparr>)
       (xfs_sample\<lparr>fs_xattr := [chars ''/d/a'' \<mapsto> xmeta_image xmeta_sample]\<rparr>) (chars ''/d/a'') (xmeta_sample\<lparr>xm_dirty_hi := 10\<rparr>) = (Inr (), fs')
     \<and> brix_xmeta_path_load xmeta_env fs' (chars ''/d/a'') = Inr (xmeta_norm xmeta_sample)"
proof -
  have "length (xmeta_image (xmeta_sample\<lparr>xm_dirty_hi := 10\<rparr>)) = 161"
    by (simp add: xmeta_image_def stock_bytes_def ext_head_def xmeta_sections_def xmeta_body_def xmeta_sample_def
        xmeta_zero_def xmeta_bitmap_len_def)
  then have "xmeta_fits (xmeta_sample\<lparr>xm_dirty_hi := 10\<rparr>)"
    by (simp add: xmeta_fits_def xmeta_wf_def xmeta_sample_def xmeta_zero_def xmeta_nblocks_def xmeta_bitmap_len_def)
  then show ?thesis
    using path_save_shadowed [OF xmeta_env_healthy sample_key _ sample_fits(1)] by (simp add: xfs_sample_def sample_fits(2))
qed

text \<open>
  The reader's size limit is below what the writer produces: a fresh record of a file of at least 65075233 blocks (the
  limit is 2 ^ 26) is saved with success, and its load finds no record.
\<close>
theorem path_save_oversize:
  assumes "xenv_healthy env" "xmeta_key path" "brix_xmeta_init (xe_malloc env) now sz bs = Inr m" "65075233 \<le> unat (xm_nblocks m)"
  shows "\<exists>fs'. brix_xmeta_path_save env fs path m = (Inr (), fs') \<and> brix_xmeta_path_load env fs' path = Inl XMETA_FOREIGN"
proof -
  have malloc: "malloc_ok (xe_malloc env)" using assms(1) by (simp add: xenv_healthy_def)
  have ok: "xe_malloc env n \<noteq> None" for n using malloc by (metis malloc_ok_def option.discI)
  note wf = init_wf(1) [OF assms(3)]
  let ?img = "xmeta_image m" and ?sc = "path @ chars ''.cinfo''"
  have big: "BRIX_XMETA_MAX_SECTION < length ?img"
    using init_image_length [OF assms(3)] bitmap_len_ge [OF xmeta_wf_blocks(2) [OF wf]] assms(4) by simp
  have enc: "brix_xmeta_encode (xe_malloc env) m = Inr (?img, length ?img)" by (rule xmeta_encode_image [OF wf malloc])
  let ?fs = "sys_removexattr env (fs\<lparr>fs_files := (fs_files fs)(?sc \<mapsto> ?img)\<rparr>) path"
  have "xmeta_path_save_to_xattr env fs path ?img = (None, fs)" using big by (simp add: xmeta_path_save_to_xattr_def)
  then have save: "brix_xmeta_path_save env fs path m = (Inr (), ?fs)"
    by (simp add: brix_xmeta_path_save_def enc xmeta_key_sidecar(1) [OF assms(2)] write_sidecar_ok [OF assms(1)])
  have "?sc \<noteq> path" by (simp add: chars_def)
  then have f: "fs_files ?fs ?sc = Some ?img" "fs_files ?fs path = None \<or> fs_xattr ?fs path = None"
    using assms(1) by (auto simp: sys_removexattr_def xenv_healthy_def)
  have "\<exists>e. sys_getxattr env ?fs path BRIX_XMETA_PATH_XATTR_MAX = Inl e"
    using assms(1) f(2) by (auto simp: sys_getxattr_def xenv_healthy_def)
  then have x: "xmeta_path_load_from_xattr env ?fs path = None" using ok by (auto simp: xmeta_path_load_from_xattr_def)
  have "xmeta_path_read_sidecar_fd env ?img = Inl XMETA_FOREIGN" using big by (simp add: xmeta_path_read_sidecar_fd_def Let_def)
  then have "brix_xmeta_path_load env ?fs path = Inl XMETA_FOREIGN"
    using assms(1) unfolding brix_xmeta_path_load_def x xmeta_key_sidecar(1) [OF assms(2)] option.case f(1)
    by (simp add: xenv_healthy_def)
  then show ?thesis using save by blast
qed

theorem path_save_oversize_witness:
  "\<exists>m fs'. brix_xmeta_init heap_zero 0 66000000 1 = Inr m
     \<and> brix_xmeta_path_save xmeta_env xfs_sample (chars ''/d/a'') m = (Inr (), fs')
     \<and> brix_xmeta_path_load xmeta_env fs' (chars ''/d/a'') = Inl XMETA_FOREIGN"
proof -
  obtain m where m: "brix_xmeta_init (xe_malloc xmeta_env) 0 66000000 1 = Inr m"
    by (simp add: brix_xmeta_init_def xmeta_nblocks_def Let_def xmeta_env_def heap_zero_def)
  then have "xm_nblocks m = 66000000" using init_wf(6) [OF m] by (simp add: xmeta_nblocks_def)
  from path_save_oversize [OF xmeta_env_healthy sample_key m, of xfs_sample] this m show ?thesis
    by (auto simp: xmeta_env_def)
qed

end
