(* ===== verification/Cache_Info.thy ===== *)
theory Cache_Info
  imports Xmeta_Path
begin

text \<open>
  The cache's view of the metadata record (\<^verbatim>\<open>src/fs/cache/cinfo.c\<close>, \<^verbatim>\<open>meta.c\<close>): the header with its block bitmap, its
  mapping to and from the unified record, and the read-modify-write operations under the per-file lock: recording
  a block, marking a file dirty and clean, the access statistics.  \<open>now\<close> is \<open>time(NULL)\<close>.
\<close>

abbreviation (input) BRIX_CACHE_CINFO_MAGIC :: u32 where "BRIX_CACHE_CINFO_MAGIC \<equiv> 0x58434931"
abbreviation (input) BRIX_CACHE_CINFO_VERSION :: u16 where "BRIX_CACHE_CINFO_VERSION \<equiv> 3"
abbreviation (input) BRIX_CINFO_F_COMPLETE :: u16 where "BRIX_CINFO_F_COMPLETE \<equiv> 1"
abbreviation (input) BRIX_CINFO_F_PARTIAL :: u16 where "BRIX_CINFO_F_PARTIAL \<equiv> 2"
abbreviation (input) BRIX_CINFO_F_VERIFIED :: u16 where "BRIX_CINFO_F_VERIFIED \<equiv> 4"
abbreviation (input) BRIX_CINFO_F_DIRTY :: u16 where "BRIX_CINFO_F_DIRTY \<equiv> 8"
abbreviation (input) BRIX_CINFO_F_EXPIRES :: u16 where "BRIX_CINFO_F_EXPIRES \<equiv> 16"
abbreviation (input) BRIX_XMETA_F_VERIFIED :: u32 where "BRIX_XMETA_F_VERIFIED \<equiv> 1"
abbreviation (input) BRIX_XMETA_F_EXPIRES :: u32 where "BRIX_XMETA_F_EXPIRES \<equiv> 2"
abbreviation (input) BRIX_CACHE_DIRTY_BLOCK :: u32 where "BRIX_CACHE_DIRTY_BLOCK \<equiv> 1048576"
abbreviation (input) BRIX_CACHE_META_ETAG_MAX :: nat where "BRIX_CACHE_META_ETAG_MAX \<equiv> 55"

record brix_cache_cinfo_t =
  ci_magic :: u32
  ci_version :: u16
  ci_flags :: u16
  ci_block_size :: u32
  ci_mode :: u32
  ci_size :: u64
  ci_mtime :: u64
  ci_nblocks :: u64
  ci_access_count :: u64
  ci_bytes_served :: u64
  ci_last_access :: u64
  ci_dirty_lo :: u64
  ci_dirty_hi :: u64
  ci_dirty_since :: u64
  ci_flush_gen :: u64
  ci_last_flush :: u64
  ci_bytes_flushed :: u64
  ci_etag_len :: byte
  ci_etag :: bytes
  ci_cks_alg_len :: byte
  ci_cks_alg :: bytes
  ci_cks_len :: byte
  ci_cks_hex :: bytes
  ci_expires_at :: u64
  ci_filled_at :: u64

definition cinfo_zero :: brix_cache_cinfo_t where
  "cinfo_zero = \<lparr>ci_magic = 0, ci_version = 0, ci_flags = 0, ci_block_size = 0, ci_mode = 0, ci_size = 0, ci_mtime = 0,
     ci_nblocks = 0, ci_access_count = 0, ci_bytes_served = 0, ci_last_access = 0, ci_dirty_lo = 0, ci_dirty_hi = 0,
     ci_dirty_since = 0, ci_flush_gen = 0, ci_last_flush = 0, ci_bytes_flushed = 0, ci_etag_len = 0,
     ci_etag = replicate 55 0, ci_cks_alg_len = 0, ci_cks_alg = replicate 16 0, ci_cks_len = 0,
     ci_cks_hex = replicate 129 0, ci_expires_at = 0, ci_filled_at = 0\<rparr>"

section \<open>Block map\<close>

definition brix_cache_cinfo_nblocks :: "u64 \<Rightarrow> u32 \<Rightarrow> u64" where
  "brix_cache_cinfo_nblocks sz block_size =
     (if sz = 0 \<or> block_size = 0 then 0 else (sz + ucast block_size - 1) div ucast block_size)"

definition brix_cache_cinfo_bitmap_len :: "u64 \<Rightarrow> nat" where
  "brix_cache_cinfo_bitmap_len nblocks = unat ((nblocks + 7) div 8)"

definition brix_cache_cinfo_mark_block :: "bytes \<Rightarrow> u64 \<Rightarrow> bytes" where
  "brix_cache_cinfo_mark_block bitmap blk =
     bitmap[unat (drop_bit 3 blk) := (bitmap ! unat (drop_bit 3 blk)) OR push_bit (unat (blk AND 7)) 1]"

definition brix_cache_cinfo_block_present :: "bytes \<Rightarrow> u64 \<Rightarrow> bool" where
  "brix_cache_cinfo_block_present bitmap blk \<longleftrightarrow>
     drop_bit (unat (blk AND 7)) (bitmap ! unat (drop_bit 3 blk)) AND 1 \<noteq> 0"

function cinfo_count_loop :: "bytes \<Rightarrow> u64 \<Rightarrow> u64 \<Rightarrow> u64 \<Rightarrow> u64" where
  "cinfo_count_loop bitmap nblocks blk cnt =
     (if blk < nblocks
      then cinfo_count_loop bitmap nblocks (blk + 1) (if brix_cache_cinfo_block_present bitmap blk then cnt + 1 else cnt)
      else cnt)"
  by pat_completeness auto
termination
  by (relation "measure (\<lambda>(bitmap, nblocks, blk, cnt). unat nblocks - unat blk)")
    (auto simp: unat_inc_less word_less_nat_alt)

declare cinfo_count_loop.simps [simp del]

definition brix_cache_cinfo_present_count :: "bytes \<Rightarrow> u64 \<Rightarrow> u64" where
  "brix_cache_cinfo_present_count bitmap nblocks = cinfo_count_loop bitmap nblocks 0 0"

definition brix_cache_cinfo_refresh_flags :: "brix_cache_cinfo_t \<Rightarrow> bytes \<Rightarrow> brix_cache_cinfo_t" where
  "brix_cache_cinfo_refresh_flags hdr bitmap =
     (let cleared = ci_flags hdr AND NOT (BRIX_CINFO_F_COMPLETE OR BRIX_CINFO_F_PARTIAL)
      in if ci_nblocks hdr = 0 then hdr\<lparr>ci_flags := cleared OR BRIX_CINFO_F_COMPLETE\<rparr>
         else let present = brix_cache_cinfo_present_count bitmap (ci_nblocks hdr)
              in if present = ci_nblocks hdr then hdr\<lparr>ci_flags := cleared OR BRIX_CINFO_F_COMPLETE\<rparr>
                 else if present > 0 then hdr\<lparr>ci_flags := cleared OR BRIX_CINFO_F_PARTIAL\<rparr>
                 else hdr\<lparr>ci_flags := cleared\<rparr>)"

definition brix_cache_cinfo_path :: "nat \<Rightarrow> bytes \<Rightarrow> bytes option" where
  "brix_cache_cinfo_path dstsz cache_path =
     (let n = length cache_path + 6 in if n \<ge> dstsz then None else Some (cache_path @ chars ''.cinfo''))"

section \<open>Header and record\<close>

text \<open>The strings are copied into zeroed arrays; a length beyond its array is taken as zero.\<close>

definition cinfo_clamp :: "nat \<Rightarrow> byte \<Rightarrow> byte" where
  "cinfo_clamp cap len = (if unat len \<le> cap then len else 0)"

definition brix_cache_cinfo_to_xmeta ::
    "malloc_t \<Rightarrow> u64 \<Rightarrow> brix_cache_cinfo_t \<Rightarrow> bytes option \<Rightarrow> ngx_rc + brix_xmeta_t" where
  "brix_cache_cinfo_to_xmeta malloc now hdr bitmap =
     (let bs = (if ci_block_size hdr \<noteq> 0 then ci_block_size hdr else BRIX_CACHE_DIRTY_BLOCK)
      in case brix_xmeta_init malloc now (ci_size hdr) (ucast bs) of
           Inl _ \<Rightarrow> Inl NGX_ERROR
         | Inr m0 \<Rightarrow>
             let m1 = m0\<lparr>xm_have_blockcrc := False, xm_access_cnt := ci_access_count hdr\<rparr>;
                 m2 = (if ci_last_access hdr \<noteq> 0 \<or> ci_bytes_served hdr \<noteq> 0
                       then m1\<lparr>xm_astat_count := 1,
                               xm_astat := (xm_astat m1)\<lparr>as_attach_time := ci_last_access hdr,
                                 as_detach_time := ci_last_access hdr, as_bytes_hit := ci_bytes_served hdr\<rparr>\<rparr>
                       else m1);
                 el = cinfo_clamp 55 (ci_etag_len hdr); al = cinfo_clamp 16 (ci_cks_alg_len hdr);
                 cl = cinfo_clamp 129 (ci_cks_len hdr);
                 m3 = m2\<lparr>xm_origin_mtime := ci_mtime hdr, xm_dirty_lo := ci_dirty_lo hdr, xm_dirty_hi := ci_dirty_hi hdr,
                         xm_dirty_since := ci_dirty_since hdr, xm_flush_gen := ci_flush_gen hdr,
                         xm_last_flush := ci_last_flush hdr, xm_bytes_flushed := ci_bytes_flushed hdr,
                         xm_expires_at := ci_expires_at hdr, xm_filled_at := ci_filled_at hdr, xm_mode := ci_mode hdr,
                         xm_state_flags := (if ci_flags hdr AND BRIX_CINFO_F_VERIFIED \<noteq> 0 then BRIX_XMETA_F_VERIFIED else 0)
                           OR (if ci_flags hdr AND BRIX_CINFO_F_EXPIRES \<noteq> 0 then BRIX_XMETA_F_EXPIRES else 0),
                         xm_etag_len := el, xm_etag := memcpy_at 0 (take (unat el) (ci_etag hdr)) (xm_etag m2),
                         xm_cks_alg_len := al, xm_cks_alg := memcpy_at 0 (take (unat al) (ci_cks_alg hdr)) (xm_cks_alg m2),
                         xm_cks_len := cl, xm_cks_hex := memcpy_at 0 (take (unat cl) (ci_cks_hex hdr)) (xm_cks_hex m2)\<rparr>;
                 need = brix_cache_cinfo_bitmap_len (xm_nblocks m3)
             in Inr (case bitmap of
                       Some b \<Rightarrow>
                         if length b \<ge> need \<and> need > 0 then m3\<lparr>xm_bitmap := Some (take need b)\<rparr>
                         else if ci_flags hdr AND BRIX_CINFO_F_COMPLETE \<noteq> 0 \<and> need > 0
                         then m3\<lparr>xm_bitmap := Some (replicate need 0xFF)\<rparr> else m3
                     | None \<Rightarrow>
                         if ci_flags hdr AND BRIX_CINFO_F_COMPLETE \<noteq> 0 \<and> need > 0
                         then m3\<lparr>xm_bitmap := Some (replicate need 0xFF)\<rparr> else m3))"

definition brix_cache_cinfo_from_xmeta :: "brix_xmeta_t \<Rightarrow> brix_cache_cinfo_t" where
  "brix_cache_cinfo_from_xmeta m =
     (let el = cinfo_clamp 55 (xm_etag_len m); al = cinfo_clamp 16 (xm_cks_alg_len m); cl = cinfo_clamp 129 (xm_cks_len m);
          hdr = cinfo_zero\<lparr>ci_magic := BRIX_CACHE_CINFO_MAGIC, ci_version := BRIX_CACHE_CINFO_VERSION,
                  ci_block_size := ucast (xm_buffer_size m), ci_size := xm_file_size m, ci_mtime := xm_origin_mtime m,
                  ci_nblocks := xm_nblocks m, ci_access_count := xm_access_cnt m,
                  ci_bytes_served := as_bytes_hit (xm_astat m), ci_last_access := as_detach_time (xm_astat m),
                  ci_dirty_lo := xm_dirty_lo m, ci_dirty_hi := xm_dirty_hi m, ci_dirty_since := xm_dirty_since m,
                  ci_flush_gen := xm_flush_gen m, ci_last_flush := xm_last_flush m,
                  ci_bytes_flushed := xm_bytes_flushed m, ci_expires_at := xm_expires_at m,
                  ci_filled_at := xm_filled_at m, ci_mode := xm_mode m,
                  ci_etag_len := el, ci_etag := memcpy_at 0 (take (unat el) (xm_etag m)) (replicate 55 0),
                  ci_cks_alg_len := al, ci_cks_alg := memcpy_at 0 (take (unat al) (xm_cks_alg m)) (replicate 16 0),
                  ci_cks_len := cl, ci_cks_hex := memcpy_at 0 (take (unat cl) (xm_cks_hex m)) (replicate 129 0)\<rparr>;
          h1 = (case xm_bitmap m of None \<Rightarrow> hdr | Some b \<Rightarrow> brix_cache_cinfo_refresh_flags hdr b);
          h2 = (if xm_state_flags m AND BRIX_XMETA_F_VERIFIED \<noteq> 0 then h1\<lparr>ci_flags := ci_flags h1 OR BRIX_CINFO_F_VERIFIED\<rparr> else h1);
          h3 = (if xm_state_flags m AND BRIX_XMETA_F_EXPIRES \<noteq> 0 then h2\<lparr>ci_flags := ci_flags h2 OR BRIX_CINFO_F_EXPIRES\<rparr> else h2)
      in if xm_dirty_lo m < xm_dirty_hi m then h3\<lparr>ci_flags := ci_flags h3 OR BRIX_CINFO_F_DIRTY\<rparr> else h3)"

section \<open>Reading and writing the record of a file\<close>

definition cinfo_xmeta_read :: "xenv_t \<Rightarrow> xfs_t \<Rightarrow> bytes \<Rightarrow> ngx_rc + brix_xmeta_t" where
  "cinfo_xmeta_read env fs path =
     (case brix_xmeta_path_load env fs path of
        Inr m \<Rightarrow> Inr m
      | Inl XMETA_FOREIGN \<Rightarrow> Inl NGX_DECLINED
      | Inl (XMETA_ERR _) \<Rightarrow> Inl NGX_ERROR)"

definition cinfo_xmeta_write :: "xenv_t \<Rightarrow> xfs_t \<Rightarrow> bytes \<Rightarrow> brix_xmeta_t \<Rightarrow> ngx_rc \<times> xfs_t" where
  "cinfo_xmeta_write env fs path xm =
     (case brix_xmeta_path_save env fs path xm of (Inr _, fs') \<Rightarrow> (NGX_OK, fs') | (Inl _, fs') \<Rightarrow> (NGX_ERROR, fs'))"

text \<open>The header and, for a file with blocks, a copy of the bitmap.\<close>

definition brix_cache_cinfo_load :: "xenv_t \<Rightarrow> xfs_t \<Rightarrow> bytes \<Rightarrow> ngx_rc + brix_cache_cinfo_t \<times> bytes option" where
  "brix_cache_cinfo_load env fs path =
     (case cinfo_xmeta_read env fs path of
        Inl rc \<Rightarrow> Inl rc
      | Inr xm \<Rightarrow>
          let hdr = brix_cache_cinfo_from_xmeta xm; blen = brix_cache_cinfo_bitmap_len (ci_nblocks hdr)
          in if blen > 0
             then if xe_malloc env blen = None then Inl NGX_ERROR
                  else Inr (hdr, Some (take blen (case xm_bitmap xm of None \<Rightarrow> [] | Some b \<Rightarrow> b)))
             else Inr (hdr, None))"

definition brix_cache_cinfo_store ::
    "xenv_t \<Rightarrow> u64 \<Rightarrow> xfs_t \<Rightarrow> bytes \<Rightarrow> brix_cache_cinfo_t \<Rightarrow> bytes option \<Rightarrow> ngx_rc \<times> xfs_t" where
  "brix_cache_cinfo_store env now fs path hdr bitmap =
     (case brix_cache_cinfo_to_xmeta (xe_malloc env) now hdr bitmap of
        Inl _ \<Rightarrow> (NGX_ERROR, fs)
      | Inr xm \<Rightarrow> cinfo_xmeta_write env fs path xm)"

definition cinfo_init :: "u64 \<Rightarrow> u32 \<Rightarrow> u64 \<Rightarrow> brix_cache_cinfo_t" where
  "cinfo_init sz block_size mtime =
     cinfo_zero\<lparr>ci_magic := BRIX_CACHE_CINFO_MAGIC, ci_version := BRIX_CACHE_CINFO_VERSION, ci_block_size := block_size,
       ci_size := sz, ci_mtime := mtime, ci_nblocks := brix_cache_cinfo_nblocks sz block_size\<rparr>"

text \<open>The record of the same origin file, or a fresh one: shared by recording a block and marking dirty.\<close>

definition cinfo_rmw_load :: "xenv_t \<Rightarrow> u64 \<Rightarrow> xfs_t \<Rightarrow> bytes \<Rightarrow> u64 \<Rightarrow> u32 \<Rightarrow> u64 \<Rightarrow> ngx_rc + brix_xmeta_t" where
  "cinfo_rmw_load env now fs path sz block_size mtime =
     (case cinfo_xmeta_read env fs path of
        Inr xm \<Rightarrow>
          if xm_file_size xm = sz \<and> xm_buffer_size xm = ucast block_size \<and> xm_origin_mtime xm = mtime then Inr xm
          else brix_cache_cinfo_to_xmeta (xe_malloc env) now (cinfo_init sz block_size mtime) None
      | Inl _ \<Rightarrow> brix_cache_cinfo_to_xmeta (xe_malloc env) now (cinfo_init sz block_size mtime) None)"

definition brix_cache_cinfo_record_block ::
    "xenv_t \<Rightarrow> u64 \<Rightarrow> xfs_t \<Rightarrow> bytes \<Rightarrow> u64 \<Rightarrow> u32 \<Rightarrow> u64 \<Rightarrow> u32 \<Rightarrow> u64 \<Rightarrow> ngx_rc \<times> xfs_t" where
  "brix_cache_cinfo_record_block env now fs path sz block_size mtime mode blk =
     (if block_size = 0 then (NGX_ERROR, fs)
      else let nblocks = brix_cache_cinfo_nblocks sz block_size
      in if blk \<ge> nblocks then (NGX_ERROR, fs)
      else case brix_xmeta_path_lock env fs path of
             (None, fs1) \<Rightarrow> (NGX_ERROR, fs1)
           | (Some _, fs1) \<Rightarrow>
      case (case cinfo_xmeta_read env fs1 path of
              Inr xm \<Rightarrow>
                if xm_file_size xm = sz \<and> xm_buffer_size xm = ucast block_size \<and> xm_origin_mtime xm = mtime then Inr xm
                else brix_cache_cinfo_to_xmeta (xe_malloc env) now (cinfo_init sz block_size mtime) None
            | Inl _ \<Rightarrow> brix_cache_cinfo_to_xmeta (xe_malloc env) now (cinfo_init sz block_size mtime) None) of
        Inl _ \<Rightarrow> (NGX_ERROR, fs1)
      | Inr xm \<Rightarrow>
          let xm1 = (if mode \<noteq> 0 then xm\<lparr>xm_mode := mode\<rparr> else xm)
          in cinfo_xmeta_write env fs1 path (brix_xmeta_block_set blk xm1))"

definition brix_cache_cinfo_mark_dirty ::
    "xenv_t \<Rightarrow> u64 \<Rightarrow> xfs_t \<Rightarrow> bytes \<Rightarrow> u64 \<Rightarrow> u32 \<Rightarrow> u64 \<Rightarrow> u64 \<Rightarrow> u64 \<Rightarrow> ngx_rc \<times> xfs_t" where
  "brix_cache_cinfo_mark_dirty env now fs path sz block_size mtime off len =
     (if block_size = 0 \<or> len = 0 then (NGX_ERROR, fs)
      else case brix_xmeta_path_lock env fs path of
             (None, fs1) \<Rightarrow> (NGX_ERROR, fs1)
           | (Some _, fs1) \<Rightarrow>
      case cinfo_rmw_load env now fs1 path sz block_size mtime of
        Inl _ \<Rightarrow> (NGX_ERROR, fs1)
      | Inr xm \<Rightarrow>
          let xm1 = (if xm_dirty_lo xm \<ge> xm_dirty_hi xm
                     then xm\<lparr>xm_dirty_lo := off, xm_dirty_hi := off + len, xm_dirty_since := now\<rparr>
                     else let xm' = (if off < xm_dirty_lo xm then xm\<lparr>xm_dirty_lo := off\<rparr> else xm)
                          in if off + len > xm_dirty_hi xm' then xm'\<lparr>xm_dirty_hi := off + len\<rparr> else xm')
          in cinfo_xmeta_write env fs1 path xm1)"

definition brix_cache_cinfo_mark_clean :: "xenv_t \<Rightarrow> u64 \<Rightarrow> xfs_t \<Rightarrow> bytes \<Rightarrow> u64 \<Rightarrow> ngx_rc \<times> xfs_t" where
  "brix_cache_cinfo_mark_clean env now fs path nbytes =
     (case brix_xmeta_path_lock env fs path of
        (None, fs1) \<Rightarrow> (NGX_ERROR, fs1)
      | (Some _, fs1) \<Rightarrow>
      case cinfo_xmeta_read env fs1 path of
        Inl rc \<Rightarrow> (if rc = NGX_DECLINED then NGX_DECLINED else NGX_ERROR, fs1)
      | Inr xm \<Rightarrow>
          cinfo_xmeta_write env fs1 path
            (xm\<lparr>xm_dirty_lo := 0, xm_dirty_hi := 0, xm_dirty_since := 0, xm_flush_gen := xm_flush_gen xm + 1,
                xm_last_flush := now, xm_bytes_flushed := xm_bytes_flushed xm + nbytes\<rparr>))"

definition brix_cache_cinfo_dirty_extent :: "xenv_t \<Rightarrow> xfs_t \<Rightarrow> bytes \<Rightarrow> ngx_rc + u64 \<times> u64 \<times> u64" where
  "brix_cache_cinfo_dirty_extent env fs path =
     (case brix_cache_cinfo_load env fs path of
        Inl rc \<Rightarrow> Inl rc
      | Inr (h, _) \<Rightarrow>
          if ci_flags h AND BRIX_CINFO_F_DIRTY = 0 \<or> ci_dirty_lo h \<ge> ci_dirty_hi h then Inl NGX_DECLINED
          else Inr (ci_dirty_lo h, ci_dirty_hi h, ci_dirty_since h))"

record brix_cache_cinfo_state_t =
  cs_is_dirty :: bool
  cs_dirty_lo :: u64
  cs_dirty_hi :: u64
  cs_dirty_since :: u64
  cs_flush_gen :: u64
  cs_last_flush :: u64

definition brix_cache_cinfo_state :: "xenv_t \<Rightarrow> xfs_t \<Rightarrow> bytes \<Rightarrow> ngx_rc + brix_cache_cinfo_state_t" where
  "brix_cache_cinfo_state env fs path =
     (case brix_cache_cinfo_load env fs path of
        Inl rc \<Rightarrow> Inl rc
      | Inr (h, _) \<Rightarrow>
          Inr \<lparr>cs_is_dirty = (ci_flags h AND BRIX_CINFO_F_DIRTY \<noteq> 0 \<and> ci_dirty_lo h < ci_dirty_hi h),
               cs_dirty_lo = ci_dirty_lo h, cs_dirty_hi = ci_dirty_hi h, cs_dirty_since = ci_dirty_since h,
               cs_flush_gen = ci_flush_gen h, cs_last_flush = ci_last_flush h\<rparr>)"

definition brix_cache_cinfo_set_expires :: "u64 \<Rightarrow> brix_cache_cinfo_t \<Rightarrow> brix_cache_cinfo_t" where
  "brix_cache_cinfo_set_expires when ci = ci\<lparr>ci_expires_at := when, ci_flags := ci_flags ci OR BRIX_CINFO_F_EXPIRES\<rparr>"

text \<open>\<open>-1\<close> for an entry that never expires, else whether it is stale.\<close>

definition brix_cache_cinfo_expired :: "brix_cache_cinfo_t \<Rightarrow> u64 \<Rightarrow> int" where
  "brix_cache_cinfo_expired ci now =
     (if ci_flags ci AND BRIX_CINFO_F_EXPIRES = 0 then - 1 else if now \<ge> ci_expires_at ci then 1 else 0)"

section \<open>Bitmap lemmas\<close>

definition bm_bit :: "bytes \<Rightarrow> u64 \<Rightarrow> bool" where
  "bm_bit bm i \<longleftrightarrow> bit (bm ! (unat i div 8)) (unat i mod 8)"

lemma unat_div_mod8: "unat ((i :: u64) div 8) = unat i div 8" "unat (i mod 8) = unat i mod 8"
    "unat (drop_bit 3 i) = unat i div 8" "unat (i AND 7) = unat i mod 8"
proof -
  show "unat (i div 8) = unat i div 8" "unat (i mod 8) = unat i mod 8" by (simp_all add: unat_div_distrib unat_mod_distrib)
  show "unat (drop_bit 3 i) = unat i div 8" by (simp add: drop_bit_eq_div unat_div_distrib)
  have "i AND 7 = take_bit 3 i" by (simp add: take_bit_eq_mask mask_eq_exp_minus_1)
  then have "i AND 7 = i mod 8" by (simp add: take_bit_eq_mod)
  then show "unat (i AND 7) = unat i mod 8" by (simp add: unat_mod_distrib)
qed

lemma and_exp_bit: "(b :: byte) AND 2 ^ k = 0 \<longleftrightarrow> \<not> bit b k"
  by (rule and_exp_eq_0_iff_not_bit)

lemma block_test_bit:
  "brix_xmeta_block_test m i \<longleftrightarrow> (case xm_bitmap m of None \<Rightarrow> False | Some bm \<Rightarrow> i < xm_nblocks m \<and> bm_bit bm i)"
  by (simp add: brix_xmeta_block_test_def bm_bit_def unat_div_mod8 and_exp_bit split: option.split)

lemma block_present_bit: "brix_cache_cinfo_block_present bm i \<longleftrightarrow> bm_bit bm i"
proof -
  have "drop_bit k b AND 1 \<noteq> 0 \<longleftrightarrow> bit b k" for k and b :: byte
    by (simp add: and_one_eq bit_iff_odd_drop_bit mod2_eq_if)
  then show ?thesis by (simp add: brix_cache_cinfo_block_present_def bm_bit_def unat_div_mod8)
qed

lemma bm_bit_update:
  assumes "unat i div 8 < length bm"
  shows "bm_bit (bm[unat i div 8 := (bm ! (unat i div 8)) OR 2 ^ (unat i mod 8)]) j \<longleftrightarrow> bm_bit bm j \<or> j = i"
proof (cases "unat j div 8 = unat i div 8")
  case True
  have "unat j mod 8 = unat i mod 8 \<longleftrightarrow> j = i"
  proof
    assume "unat j mod 8 = unat i mod 8"
    then have "unat j = unat i" using True by (metis div_mult_mod_eq)
    then show "j = i" by (simp add: word_unat_eq_iff)
  qed simp
  then show ?thesis using True assms by (auto simp: bm_bit_def bit_simps)
next
  case False
  then show ?thesis by (auto simp: bm_bit_def)
qed

lemma mark_block_bit:
  "unat i div 8 < length bm \<Longrightarrow> bm_bit (brix_cache_cinfo_mark_block bm i) j \<longleftrightarrow> bm_bit bm j \<or> j = i"
  by (simp add: brix_cache_cinfo_mark_block_def unat_div_mod8 bm_bit_update)

lemma bitmap_len_index:
  assumes "i < n" "unat n \<le> 67108864"
  shows "unat i div 8 < xmeta_bitmap_len n"
proof -
  have "unat i < unat n" using assms(1) by (simp add: word_less_nat_alt)
  then have "unat i div 8 < (unat n + 7) div 8" by auto
  then show ?thesis using assms(2) by (simp add: xmeta_bitmap_len_def unat_div unat_word_ariths)
qed

lemma block_set_bitmap:
  assumes "xmeta_wf m" "i < xm_nblocks m"
  obtains bm where "xm_bitmap m = Some bm" "length bm = xmeta_bitmap_len (xm_nblocks m)" "unat i div 8 < length bm"
    "brix_xmeta_block_set i m = m\<lparr>xm_bitmap := Some (bm[unat i div 8 := (bm ! (unat i div 8)) OR 2 ^ (unat i mod 8)])\<rparr>"
proof -
  obtain bm where "xm_bitmap m = Some bm" "length bm = xmeta_bitmap_len (xm_nblocks m)" using assms(1) by (auto simp: xmeta_wf_def)
  then show ?thesis
    using that bitmap_len_index [OF assms(2) xmeta_wf_blocks(2) [OF assms(1)]] assms(2)
    by (simp add: brix_xmeta_block_set_def unat_div_mod8)
qed

lemma block_set_out: "\<not> i < xm_nblocks m \<Longrightarrow> brix_xmeta_block_set i m = m"
  by (simp add: brix_xmeta_block_set_def split: option.split)

lemma block_test_set:
  assumes "xmeta_wf m" "i < xm_nblocks m"
  shows "brix_xmeta_block_test (brix_xmeta_block_set i m) j \<longleftrightarrow> brix_xmeta_block_test m j \<or> j = i"
proof -
  obtain bm where "xm_bitmap m = Some bm" "unat i div 8 < length bm"
      "brix_xmeta_block_set i m = m\<lparr>xm_bitmap := Some (bm[unat i div 8 := (bm ! (unat i div 8)) OR 2 ^ (unat i mod 8)])\<rparr>"
    using block_set_bitmap [OF assms] by blast
  then show ?thesis using assms(2) by (auto simp: block_test_bit bm_bit_update)
qed

lemma xmeta_wf_bitmap:
  assumes "xmeta_wf m" "length b = xmeta_bitmap_len (xm_nblocks m)"
  shows "xmeta_wf (m\<lparr>xm_bitmap := Some b\<rparr>)"
  using assms by (simp add: xmeta_wf_def cong: option.case_cong)

lemma encode_plan_cong:
  assumes "xm_nblocks m' = xm_nblocks m" "xm_etag_len m' = xm_etag_len m" "xm_cks_len m' = xm_cks_len m"
    "xm_cks_alg_len m' = xm_cks_alg_len m" "xm_have_blockcrc m' = xm_have_blockcrc m" "xm_blockcrc m' = xm_blockcrc m"
    "xm_have_state m' = xm_have_state m" "xm_digests m' = xm_digests m" "xm_digests_len m' = xm_digests_len m"
    "xm_astat_count m' = xm_astat_count m"
  shows "xmeta_encode_plan m' = xmeta_encode_plan m"
  unfolding xmeta_encode_plan_def assms ..

lemma xmeta_fits_bitmap:
  assumes "xmeta_fits m" "length b = xmeta_bitmap_len (xm_nblocks m)"
  shows "xmeta_fits (m\<lparr>xm_bitmap := Some b\<rparr>)"
proof -
  have wf: "xmeta_wf m" using assms(1) by (simp add: xmeta_fits_def)
  then obtain b0 where b0: "xm_bitmap m = Some b0" "length b0 = xmeta_bitmap_len (xm_nblocks m)" by (auto simp: xmeta_wf_def)
  have "xmeta_encode_plan (m\<lparr>xm_bitmap := Some b\<rparr>) = xmeta_encode_plan m"
    by (rule encode_plan_cong) simp_all
  then show ?thesis
    using assms encode_cap(1) [OF wf] encode_cap(1) [OF xmeta_wf_bitmap [OF wf assms(2)]] xmeta_wf_bitmap [OF wf assms(2)]
    by (simp add: xmeta_fits_def)
qed

lemma block_set_frame:
  assumes "xmeta_wf m"
  obtains b where "brix_xmeta_block_set i m = m\<lparr>xm_bitmap := Some b\<rparr>" "length b = xmeta_bitmap_len (xm_nblocks m)"
proof (cases "i < xm_nblocks m")
  case True
  then show ?thesis using block_set_bitmap [OF assms True] that by (metis length_list_update)
next
  case False
  obtain bm where "xm_bitmap m = Some bm" "length bm = xmeta_bitmap_len (xm_nblocks m)" using assms by (auto simp: xmeta_wf_def)
  moreover from this have "m = m\<lparr>xm_bitmap := Some bm\<rparr>" by (cases m) simp
  ultimately show ?thesis using that block_set_out [OF False] by metis
qed

text \<open>Changes of the state fields keep the shape and the size of a record that has a state.\<close>

lemma xmeta_fits_state:
  assumes "xmeta_fits m"
  shows "xmeta_fits (m\<lparr>xm_mode := md\<rparr>)"
    "xmeta_fits (m\<lparr>xm_dirty_lo := lo\<rparr>)" "xmeta_fits (m\<lparr>xm_dirty_hi := hi\<rparr>)"
    "xmeta_fits (m\<lparr>xm_dirty_lo := lo, xm_dirty_hi := hi, xm_dirty_since := since\<rparr>)"
    "xmeta_fits (m\<lparr>xm_dirty_lo := lo, xm_dirty_hi := hi, xm_dirty_since := since, xm_flush_gen := g, xm_last_flush := l,
       xm_bytes_flushed := n\<rparr>)"
proof -
  have *: "xmeta_fits m'" if "xmeta_wf m'" "xmeta_encode_plan m' = xmeta_encode_plan m" "xm_digests_len m' = xm_digests_len m" for m'
    using assms that encode_cap(1) [of m] encode_cap(1) [of m'] by (simp add: xmeta_fits_def)
  have wf: "xmeta_wf m" using assms by (simp add: xmeta_fits_def)
  show "xmeta_fits (m\<lparr>xm_mode := md\<rparr>)"
    "xmeta_fits (m\<lparr>xm_dirty_lo := lo\<rparr>)" "xmeta_fits (m\<lparr>xm_dirty_hi := hi\<rparr>)"
    "xmeta_fits (m\<lparr>xm_dirty_lo := lo, xm_dirty_hi := hi, xm_dirty_since := since\<rparr>)"
    "xmeta_fits (m\<lparr>xm_dirty_lo := lo, xm_dirty_hi := hi, xm_dirty_since := since, xm_flush_gen := g, xm_last_flush := l,
       xm_bytes_flushed := n\<rparr>)"
    by (rule *, use wf in \<open>simp add: xmeta_wf_def cong: option.case_cong\<close>, (rule encode_plan_cong; simp), simp)+
qed

lemma count_loop_card:
  "cinfo_count_loop bm n i c = c + of_nat (card {j. i \<le> j \<and> j < n \<and> bm_bit bm j})"
proof (induction bm n i c rule: cinfo_count_loop.induct)
  case (1 bm n i c)
  let ?S = "\<lambda>i. {j. i \<le> j \<and> j < n \<and> bm_bit bm j}"
  show ?case
  proof (cases "i < n")
    case True
    have u: "unat (i + 1) = Suc (unat i)" by (rule unat_inc_less [OF True])
    have "?S i = (if bm_bit bm i then insert i (?S (i + 1)) else ?S (i + 1))"
      using True u by (auto simp: word_le_nat_alt word_less_nat_alt not_less_eq_eq le_Suc_eq intro: ccontr) (metis le_antisym not_less_eq_eq word_unat_eq_iff)+
    moreover have "card (insert i (?S (i + 1))) = Suc (card (?S (i + 1)))"
      by (rule card_insert_disjoint) (use u in \<open>auto simp: word_le_nat_alt intro: finite_subset [of _ UNIV]\<close>)
    ultimately show ?thesis
      using 1 True by (simp add: cinfo_count_loop.simps [of bm n i c] block_present_bit)
  next
    case False
    then have "?S i = {}" by auto
    then have "card (?S i) = 0" by simp
    then have "of_nat (card (?S i)) = (of_nat 0 :: u64)" by (rule arg_cong)
    also have "(of_nat 0 :: u64) = 0" by (rule semiring_1_class.of_nat_0)
    finally show ?thesis using False by (simp only: cinfo_count_loop.simps [of bm n i c] if_False add_0_right)
  qed
qed

lemma finite_blocks [simp]: "finite {j. (j :: u64) < n \<and> P j}"
  by (rule finite_subset [of _ UNIV]) auto

lemma card_below: "card {j. (j :: u64) < n} = unat n"
proof -
  have "unat ` {j. (j :: u64) < n} = {..<unat n}"
  proof
    show "unat ` {j. j < n} \<subseteq> {..<unat n}" by (auto simp: word_less_nat_alt)
    show "{..<unat n} \<subseteq> unat ` {j. j < n}"
    proof
      fix k assume "k \<in> {..<unat n}"
      then have "k < unat n" by simp
      moreover have "unat n < 2 ^ 64" using unsigned_less [where ?'a = nat, of n] by simp
      ultimately have "unat (of_nat k :: u64) = k" by (simp add: unat_of_nat)
      then show "k \<in> unat ` {j. j < n}" using \<open>k < unat n\<close> by (intro image_eqI [of _ _ "of_nat k"]) (simp_all add: word_less_nat_alt)
    qed
  qed
  then show ?thesis by (metis card_image card_lessThan inj_on_def word_unat_eq_iff)
qed

lemma present_count_exact:
  "unat (brix_cache_cinfo_present_count bm n) = card {j. j < n \<and> bm_bit bm j}"
proof -
  have "card {j. j < n \<and> bm_bit bm j} \<le> card {j. j < n}" by (rule card_mono) (auto intro: finite_subset [of _ UNIV])
  then have "card {j. j < n \<and> bm_bit bm j} < 2 ^ 64" using unsigned_less [where ?'a = nat, of n] by (simp add: card_below)
  then show ?thesis by (simp add: brix_cache_cinfo_present_count_def count_loop_card unat_of_nat)
qed

lemma present_count_all: "brix_cache_cinfo_present_count bm n = n \<longleftrightarrow> (\<forall>j < n. bm_bit bm j)"
proof -
  have "brix_cache_cinfo_present_count bm n = n \<longleftrightarrow> unat (brix_cache_cinfo_present_count bm n) = unat n"
    by (rule word_unat_eq_iff)
  also have "\<dots> \<longleftrightarrow> card {j. j < n \<and> bm_bit bm j} = card {j. j < n}"
    by (simp only: present_count_exact card_below)
  also have "\<dots> \<longleftrightarrow> {j. j < n \<and> bm_bit bm j} = {j. j < n}"
  proof
    assume c: "card {j. j < n \<and> bm_bit bm j} = card {j. j < n}"
    show "{j. j < n \<and> bm_bit bm j} = {j. j < n}"
      by (rule card_subset_eq [OF _ _ c]) (auto intro: finite_subset [of _ UNIV])
  qed simp
  finally show ?thesis by blast
qed

lemma present_count_none: "brix_cache_cinfo_present_count bm n = 0 \<longleftrightarrow> (\<forall>j < n. \<not> bm_bit bm j)"
proof -
  have "brix_cache_cinfo_present_count bm n = 0 \<longleftrightarrow> unat (brix_cache_cinfo_present_count bm n) = 0"
    by (simp add: unat_eq_0)
  also have "\<dots> \<longleftrightarrow> card {j. j < n \<and> bm_bit bm j} = 0" by (simp only: present_count_exact)
  finally show ?thesis by auto
qed

section \<open>Fresh records and the origin they describe\<close>

text \<open>The origin file a record is valid for: its size, the block size and the modification time.\<close>

record cinfo_origin =
  co_size :: u64
  co_block :: u32
  co_mtime :: u64

definition origin_ok :: "cinfo_origin \<Rightarrow> bool" where
  "origin_ok og \<longleftrightarrow> co_block og \<noteq> 0 \<and> 0 \<le> sint (co_size og)
     \<and> xmeta_nblocks (co_size og) (ucast (co_block og)) \<le> BRIX_XMETA_MAX_BLOCKS"

definition origin_matches :: "cinfo_origin \<Rightarrow> brix_xmeta_t \<Rightarrow> bool" where
  "origin_matches og m \<longleftrightarrow> xm_file_size m = co_size og \<and> xm_buffer_size m = ucast (co_block og) \<and> xm_origin_mtime m = co_mtime og"

definition origin_blocks :: "cinfo_origin \<Rightarrow> u64" where
  "origin_blocks og = xmeta_nblocks (co_size og) (ucast (co_block og))"

lemma sint_ucast_pos: "(b :: u32) \<noteq> 0 \<Longrightarrow> 0 < sint (ucast b :: u64)"
proof -
  assume "b \<noteq> 0"
  have "uint (ucast b :: u64) = uint b" using unsigned_less [where ?'a = int, of b] by (simp add: unsigned_ucast_eq take_bit_eq_mod)
  moreover have "signed_take_bit 63 (uint b) = uint b"
  proof (rule signed_take_bit_int_eq_self)
    show "- (2 ^ 63) \<le> uint b" by (rule order_trans [of _ 0]) simp_all
    show "uint b < 2 ^ 63" using unsigned_less [where ?'a = int, of b] by simp
  qed
  ultimately have "sint (ucast b :: u64) = uint b" by (simp add: sint_uint)
  then show ?thesis using \<open>b \<noteq> 0\<close> unsigned_eq_0_iff [where ?'a = int, of b] by (simp add: order_less_le eq_commute [of 0])
qed

lemma cinfo_nblocks_eq:
  assumes "origin_ok og"
  shows "brix_cache_cinfo_nblocks (co_size og) (co_block og) = origin_blocks og"
  using assms by (auto simp: brix_cache_cinfo_nblocks_def origin_blocks_def xmeta_nblocks_def origin_ok_def signed_eq_0_iff dest!: order_antisym)

lemma bitmap_len_le: "unat n \<le> 67108864 \<Longrightarrow> xmeta_bitmap_len n \<le> 8388609"
  by (simp add: xmeta_bitmap_len_def unat_div_distrib unat_word_ariths)

lemma fresh_record:
  assumes og: "origin_ok og" and malloc: "malloc_ok malloc"
  obtains m where "brix_cache_cinfo_to_xmeta malloc now (cinfo_init (co_size og) (co_block og) (co_mtime og)) None = Inr m"
    "origin_matches og m" "xmeta_fits m" "xm_have_state m" "xm_nblocks m = origin_blocks og"
    "xm_bitmap m = Some (replicate (xmeta_bitmap_len (origin_blocks og)) 0)"
    "xm_dirty_lo m = 0" "xm_dirty_hi m = 0" "xm_dirty_since m = 0" "xm_flush_gen m = 0" "xm_bytes_flushed m = 0"
    "xm_last_flush m = 0" "xm_state_flags m = 0" "xm_mode m = 0"
proof -
  have ok: "malloc k \<noteq> None" for k using malloc by (metis malloc_ok_def option.discI)
  obtain m0 where i: "brix_xmeta_init malloc now (co_size og) (ucast (co_block og)) = Inr m0"
    using og sint_ucast_pos [of "co_block og"] ok by (simp add: brix_xmeta_init_def Let_def origin_ok_def not_less not_le)
  define m where "m = m0\<lparr>xm_have_blockcrc := False\<rparr>"
  note z = init_cases(4) [OF i]
  have "brix_cache_cinfo_to_xmeta malloc now (cinfo_init (co_size og) (co_block og) (co_mtime og)) None
      = Inr (m\<lparr>xm_origin_mtime := co_mtime og\<rparr>)"
    using og unfolding brix_cache_cinfo_to_xmeta_def
    by (simp add: cinfo_init_def cinfo_zero_def Let_def origin_ok_def i cinfo_clamp_def)
      (simp add: m_def z xmeta_zero_def)
  moreover have wf: "xmeta_wf (m\<lparr>xm_origin_mtime := co_mtime og\<rparr>)"
    using init_wf(1) [OF i] by (simp add: m_def xmeta_wf_def cong: option.case_cong)
      (auto split: option.splits)
  moreover have "xmeta_fits (m\<lparr>xm_origin_mtime := co_mtime og\<rparr>)"
  proof -
    have "unat (xm_nblocks m) \<le> 67108864" using xmeta_wf_blocks(2) [OF wf] by simp
    then have "xp_cap (xmeta_encode_plan (m\<lparr>xm_origin_mtime := co_mtime og\<rparr>)) \<le> BRIX_XMETA_MAX_SECTION"
      using bitmap_len_le [of "xm_nblocks m"] by (simp add: xmeta_encode_plan_def Let_def m_def z xmeta_zero_def)
    moreover have "xm_digests_len m = 0" by (simp add: m_def z xmeta_zero_def)
    ultimately show ?thesis using wf encode_cap(1) [OF wf] by (simp add: xmeta_fits_def)
  qed
  ultimately show ?thesis
    using that by (simp add: m_def z xmeta_zero_def origin_matches_def origin_blocks_def)
qed

text \<open>What the cache reads in a record.\<close>

record cinfo_view =
  cv_present :: "u64 set"
  cv_lo :: u64
  cv_hi :: u64
  cv_since :: u64
  cv_flush_gen :: u64
  cv_last_flush :: u64
  cv_flushed :: u64

definition cinfo_view_of :: "brix_xmeta_t \<Rightarrow> cinfo_view" where
  "cinfo_view_of m = \<lparr>cv_present = {i. brix_xmeta_block_test m i}, cv_lo = xm_dirty_lo m, cv_hi = xm_dirty_hi m,
     cv_since = xm_dirty_since m, cv_flush_gen = xm_flush_gen m, cv_last_flush = xm_last_flush m,
     cv_flushed = xm_bytes_flushed m\<rparr>"

definition cinfo_view_empty :: cinfo_view where
  "cinfo_view_empty = \<lparr>cv_present = {}, cv_lo = 0, cv_hi = 0, cv_since = 0, cv_flush_gen = 0, cv_last_flush = 0, cv_flushed = 0\<rparr>"

text \<open>A record the operations keep: of this origin, with state, within the carrier's limits.\<close>

definition cinfo_live :: "cinfo_origin \<Rightarrow> brix_xmeta_t \<Rightarrow> bool" where
  "cinfo_live og m \<longleftrightarrow> origin_matches og m \<and> xmeta_fits m \<and> xm_have_state m \<and> xm_nblocks m = origin_blocks og"

lemma cinfo_live_norm: "cinfo_live og m \<Longrightarrow> cinfo_live og (xmeta_norm m)"
  using xmeta_norm_fits by (simp add: cinfo_live_def origin_matches_def)

lemma block_test_norm [simp]: "brix_xmeta_block_test (xmeta_norm m) i = brix_xmeta_block_test m i"
  by (simp add: block_test_bit split: option.split)

lemma cinfo_view_norm: "xm_have_state m \<Longrightarrow> cinfo_view_of (xmeta_norm m) = cinfo_view_of m"
  by (simp add: cinfo_view_of_def)

lemma bm_bit_zeros: "unat i div 8 < n \<Longrightarrow> \<not> bm_bit (replicate n 0) i"
  by (simp add: bm_bit_def)

lemma fresh_live:
  assumes og: "origin_ok og" and malloc: "malloc_ok malloc"
  obtains m where "brix_cache_cinfo_to_xmeta malloc now (cinfo_init (co_size og) (co_block og) (co_mtime og)) None = Inr m"
    "cinfo_live og m" "cinfo_view_of m = cinfo_view_empty"
proof -
  obtain m where m: "brix_cache_cinfo_to_xmeta malloc now (cinfo_init (co_size og) (co_block og) (co_mtime og)) None = Inr m"
    "origin_matches og m" "xmeta_fits m" "xm_have_state m" "xm_nblocks m = origin_blocks og"
    "xm_bitmap m = Some (replicate (xmeta_bitmap_len (origin_blocks og)) 0)"
    "xm_dirty_lo m = 0" "xm_dirty_hi m = 0" "xm_dirty_since m = 0" "xm_flush_gen m = 0" "xm_bytes_flushed m = 0" "xm_last_flush m = 0"
    by (rule fresh_record [OF og malloc])
  have "unat (origin_blocks og) \<le> 67108864" using og by (simp add: origin_ok_def origin_blocks_def word_le_nat_alt)
  then have "\<not> brix_xmeta_block_test m i" for i
    using m(5,6) bm_bit_zeros bitmap_len_index by (auto simp: block_test_bit)
  then have "cinfo_view_of m = cinfo_view_empty" using m by (simp add: cinfo_view_of_def cinfo_view_empty_def)
  then show ?thesis using that m by (simp add: cinfo_live_def)
qed

section \<open>Operations as steps of the view\<close>

datatype cinfo_op = Record_block u32 u64 | Mark_dirty u64 u64 | Mark_clean u64

text \<open>One operation, at time \<open>now\<close>, on the file at \<open>path\<close> of origin \<open>og\<close>.\<close>

fun cinfo_op_run :: "xenv_t \<Rightarrow> cinfo_origin \<Rightarrow> bytes \<Rightarrow> u64 \<times> cinfo_op \<Rightarrow> xfs_t \<Rightarrow> ngx_rc \<times> xfs_t" where
  "cinfo_op_run env og path (now, Record_block mode blk) fs =
     brix_cache_cinfo_record_block env now fs path (co_size og) (co_block og) (co_mtime og) mode blk"
| "cinfo_op_run env og path (now, Mark_dirty off len) fs =
     brix_cache_cinfo_mark_dirty env now fs path (co_size og) (co_block og) (co_mtime og) off len"
| "cinfo_op_run env og path (now, Mark_clean n) fs = brix_cache_cinfo_mark_clean env now fs path n"

fun cinfo_op_ok :: "cinfo_origin \<Rightarrow> u64 \<times> cinfo_op \<Rightarrow> bool" where
  "cinfo_op_ok og (now, Record_block mode blk) \<longleftrightarrow> blk < origin_blocks og"
| "cinfo_op_ok og (now, Mark_dirty off len) \<longleftrightarrow> len \<noteq> 0"
| "cinfo_op_ok og (now, Mark_clean n) \<longleftrightarrow> True"

fun cinfo_view_step :: "u64 \<times> cinfo_op \<Rightarrow> cinfo_view \<Rightarrow> cinfo_view" where
  "cinfo_view_step (now, Record_block mode blk) v = v\<lparr>cv_present := insert blk (cv_present v)\<rparr>"
| "cinfo_view_step (now, Mark_dirty off len) v =
     (if cv_lo v < cv_hi v then v\<lparr>cv_lo := min off (cv_lo v), cv_hi := max (off + len) (cv_hi v)\<rparr>
      else v\<lparr>cv_lo := off, cv_hi := off + len, cv_since := now\<rparr>)"
| "cinfo_view_step (now, Mark_clean n) v =
     v\<lparr>cv_lo := 0, cv_hi := 0, cv_since := 0, cv_flush_gen := cv_flush_gen v + 1, cv_last_flush := now,
       cv_flushed := cv_flushed v + n\<rparr>"

text \<open>Nothing recorded: the first block or dirty mark starts a record, cleaning has nothing to clean.\<close>

fun cinfo_spec_step :: "u64 \<times> cinfo_op \<Rightarrow> cinfo_view option \<Rightarrow> cinfo_view option" where
  "cinfo_spec_step op (Some v) = Some (cinfo_view_step op v)"
| "cinfo_spec_step (now, Mark_clean n) None = None"
| "cinfo_spec_step op None = Some (cinfo_view_step op cinfo_view_empty)"

definition cinfo_abs :: "xenv_t \<Rightarrow> cinfo_origin \<Rightarrow> xfs_t \<Rightarrow> bytes \<Rightarrow> cinfo_view option \<Rightarrow> bool" where
  "cinfo_abs env og fs path v \<longleftrightarrow>
     (case v of None \<Rightarrow> brix_xmeta_path_load env fs path = Inl XMETA_FOREIGN
      | Some w \<Rightarrow> \<exists>m. brix_xmeta_path_load env fs path = Inr m \<and> cinfo_live og m \<and> cinfo_view_of m = w)"

section \<open>The operations implement the steps\<close>

lemma xmeta_read_cases:
  "cinfo_xmeta_read env fs path = Inr m \<longleftrightarrow> brix_xmeta_path_load env fs path = Inr m"
  "brix_xmeta_path_load env fs path = Inl XMETA_FOREIGN \<Longrightarrow> cinfo_xmeta_read env fs path = Inl NGX_DECLINED"
  by (auto simp: cinfo_xmeta_read_def split: sum.splits xmeta_fail.splits)

text \<open>Saving a live record under the lock.\<close>

lemma locked_write:
  assumes env: "xenv_healthy env" and key: "xmeta_key path" and live: "cinfo_live og m"
  obtains fd fs1 fs2 where "brix_xmeta_path_lock env fs path = (Some fd, fs1)"
    "brix_xmeta_path_load env fs1 path = brix_xmeta_path_load env fs path"
    "cinfo_xmeta_write env fs1 path m = (NGX_OK, fs2)" "cinfo_abs env og fs2 path (Some (cinfo_view_of m))"
proof -
  obtain fd fs1 where l: "brix_xmeta_path_lock env fs path = (Some fd, fs1)" by (rule path_lock_ok [OF env key])
  have fits: "xmeta_fits m" "xm_have_state m" using live by (simp_all add: cinfo_live_def)
  obtain fs2 where s: "brix_xmeta_path_save env fs1 path m = (Inr (), fs2)" "one_carrier fs2 path (xmeta_image m)"
    by (rule path_save_ok [OF env key fits(1)])
  have "cinfo_abs env og fs2 path (Some (cinfo_view_of m))"
    using one_carrier_load [OF env key fits(1) s(2)] cinfo_live_norm [OF live] cinfo_view_norm [OF fits(2)]
    by (simp add: cinfo_abs_def)
  then show ?thesis
    using that l s(1) path_lock_load [OF env key key, of fs] by (simp add: cinfo_xmeta_write_def)
qed

text \<open>The record an operation starts from: the recorded one, or a fresh one.\<close>

lemma rmw_base:
  assumes env: "xenv_healthy env" and og: "origin_ok og" and abs: "cinfo_abs env og fs path v"
  obtains m where "cinfo_rmw_load env now fs path (co_size og) (co_block og) (co_mtime og) = Inr m"
    "cinfo_live og m" "cinfo_view_of m = (case v of None \<Rightarrow> cinfo_view_empty | Some w \<Rightarrow> w)"
proof (cases v)
  case None
  have malloc: "malloc_ok (xe_malloc env)" using env by (simp add: xenv_healthy_def)
  obtain m where m: "brix_cache_cinfo_to_xmeta (xe_malloc env) now (cinfo_init (co_size og) (co_block og) (co_mtime og)) None = Inr m"
      "cinfo_live og m" "cinfo_view_of m = cinfo_view_empty" by (rule fresh_live [OF og malloc])
  have "cinfo_xmeta_read env fs path = Inl NGX_DECLINED"
    using abs None by (simp add: cinfo_abs_def xmeta_read_cases)
  then show ?thesis using that m None by (simp add: cinfo_rmw_load_def)
next
  case (Some w)
  then obtain m where m: "brix_xmeta_path_load env fs path = Inr m" "cinfo_live og m" "cinfo_view_of m = w"
    using abs by (auto simp: cinfo_abs_def)
  then have "cinfo_rmw_load env now fs path (co_size og) (co_block og) (co_mtime og) = Inr m"
    using xmeta_read_cases(1) [of env fs path m] by (simp add: cinfo_rmw_load_def cinfo_live_def origin_matches_def)
  then show ?thesis using that m Some by simp
qed

lemma record_block_unfold:
  "brix_cache_cinfo_record_block env now fs path sz bs mtime mode blk =
     (if bs = 0 \<or> blk \<ge> brix_cache_cinfo_nblocks sz bs then (NGX_ERROR, fs)
      else case brix_xmeta_path_lock env fs path of
             (None, fs1) \<Rightarrow> (NGX_ERROR, fs1)
           | (Some _, fs1) \<Rightarrow>
      case cinfo_rmw_load env now fs1 path sz bs mtime of
        Inl _ \<Rightarrow> (NGX_ERROR, fs1)
      | Inr xm \<Rightarrow> cinfo_xmeta_write env fs1 path (brix_xmeta_block_set blk (if mode \<noteq> 0 then xm\<lparr>xm_mode := mode\<rparr> else xm)))"
  unfolding brix_cache_cinfo_record_block_def cinfo_rmw_load_def Let_def by simp

lemma live_block_set:
  assumes "cinfo_live og m" "blk < origin_blocks og"
  shows "cinfo_live og (brix_xmeta_block_set blk m)"
    "cinfo_view_of (brix_xmeta_block_set blk m) = (cinfo_view_of m)\<lparr>cv_present := insert blk (cv_present (cinfo_view_of m))\<rparr>"
proof -
  have wf: "xmeta_wf m" "xmeta_fits m" "blk < xm_nblocks m" using assms by (simp_all add: cinfo_live_def xmeta_fits_def)
  obtain b where b: "brix_xmeta_block_set blk m = m\<lparr>xm_bitmap := Some b\<rparr>" "length b = xmeta_bitmap_len (xm_nblocks m)"
    by (rule block_set_frame [OF wf(1)])
  show "cinfo_live og (brix_xmeta_block_set blk m)"
    using assms(1) xmeta_fits_bitmap [OF wf(2) b(2)] by (simp add: b(1) cinfo_live_def origin_matches_def)
  have "{i. brix_xmeta_block_test (brix_xmeta_block_set blk m) i} = insert blk {i. brix_xmeta_block_test m i}"
    using block_test_set [OF wf(1,3)] by auto
  then show "cinfo_view_of (brix_xmeta_block_set blk m) = (cinfo_view_of m)\<lparr>cv_present := insert blk (cv_present (cinfo_view_of m))\<rparr>"
    unfolding cinfo_view_of_def by (simp add: b(1))
qed

text \<open>Updates of state fields, as the operations make them.\<close>

lemma live_state:
  assumes "cinfo_live og m"
  shows "cinfo_live og (m\<lparr>xm_mode := md\<rparr>)" "cinfo_live og (m\<lparr>xm_dirty_lo := lo\<rparr>)" "cinfo_live og (m\<lparr>xm_dirty_hi := hi\<rparr>)"
    "cinfo_live og (m\<lparr>xm_dirty_lo := lo, xm_dirty_hi := hi, xm_dirty_since := since\<rparr>)"
    "cinfo_live og (m\<lparr>xm_dirty_lo := lo, xm_dirty_hi := hi, xm_dirty_since := since, xm_flush_gen := g, xm_last_flush := l,
       xm_bytes_flushed := n\<rparr>)"
  using assms xmeta_fits_state [of m] by (simp_all add: cinfo_live_def origin_matches_def)

lemma block_test_state [simp]:
  "brix_xmeta_block_test (m\<lparr>xm_mode := md\<rparr>) i = brix_xmeta_block_test m i"
  "brix_xmeta_block_test (m\<lparr>xm_dirty_lo := lo\<rparr>) i = brix_xmeta_block_test m i"
  "brix_xmeta_block_test (m\<lparr>xm_dirty_hi := hi\<rparr>) i = brix_xmeta_block_test m i"
  "brix_xmeta_block_test (m\<lparr>xm_dirty_since := since\<rparr>) i = brix_xmeta_block_test m i"
  "brix_xmeta_block_test (m\<lparr>xm_flush_gen := g\<rparr>) i = brix_xmeta_block_test m i"
  "brix_xmeta_block_test (m\<lparr>xm_last_flush := l\<rparr>) i = brix_xmeta_block_test m i"
  "brix_xmeta_block_test (m\<lparr>xm_bytes_flushed := n\<rparr>) i = brix_xmeta_block_test m i"
  by (simp_all add: block_test_bit split: option.split)

text \<open>One operation takes the abstract state to its successor and reports success, or that there is nothing to clean.\<close>

lemma cinfo_op_step:
  assumes env: "xenv_healthy env" and key: "xmeta_key path" and og: "origin_ok og" and ok: "cinfo_op_ok og op"
    and abs: "cinfo_abs env og fs path v"
  shows "\<exists>fs'. cinfo_op_run env og path op fs = (if cinfo_spec_step op v = None then NGX_DECLINED else NGX_OK, fs')
    \<and> cinfo_abs env og fs' path (cinfo_spec_step op v)"
proof -
  obtain now c where op: "op = (now, c)" by (cases op)
  obtain fd fs1 where l: "brix_xmeta_path_lock env fs path = (Some fd, fs1)" by (rule path_lock_ok [OF env key])
  have abs1: "cinfo_abs env og fs1 path v" using abs path_lock_load [OF env key key, of fs] l by (cases v) (simp_all add: cinfo_abs_def)
  obtain m where m: "cinfo_rmw_load env now fs1 path (co_size og) (co_block og) (co_mtime og) = Inr m" "cinfo_live og m"
      "cinfo_view_of m = (case v of None \<Rightarrow> cinfo_view_empty | Some w \<Rightarrow> w)" by (rule rmw_base [OF env og abs1])
  have save: "\<exists>fs'. cinfo_xmeta_write env fs1 path m' = (NGX_OK, fs') \<and> cinfo_abs env og fs' path (Some (cinfo_view_of m'))"
    if "cinfo_live og m'" for m'
    using locked_write [OF env key that, of fs] l by (metis Pair_inject)
  show ?thesis
  proof (cases c)
    case (Record_block mode blk)
    let ?m = "if mode \<noteq> 0 then m\<lparr>xm_mode := mode\<rparr> else m"
    have b: "blk < origin_blocks og" using ok op Record_block by simp
    have live: "cinfo_live og ?m" "cinfo_view_of ?m = cinfo_view_of m"
      using m(2) live_state(1) by (auto simp: cinfo_view_of_def)
    have "cinfo_op_run env og path op fs = cinfo_xmeta_write env fs1 path (brix_xmeta_block_set blk ?m)"
      using og b [unfolded not_le [symmetric]] by (simp add: op Record_block record_block_unfold l m(1) cinfo_nblocks_eq [OF og]) (simp add: origin_ok_def)
    moreover have "cinfo_spec_step op v = Some (cinfo_view_of (brix_xmeta_block_set blk ?m))"
      using live_block_set(2) [OF live(1) b] live(2) m(3) by (cases v) (simp_all add: op Record_block)
    ultimately show ?thesis using save [OF live_block_set(1) [OF live(1) b]] by simp
  next
    case (Mark_dirty off len)
    define m' where "m' = (if xm_dirty_lo m \<ge> xm_dirty_hi m
                     then m\<lparr>xm_dirty_lo := off, xm_dirty_hi := off + len, xm_dirty_since := now\<rparr>
                     else let x = (if off < xm_dirty_lo m then m\<lparr>xm_dirty_lo := off\<rparr> else m)
                          in if off + len > xm_dirty_hi x then x\<lparr>xm_dirty_hi := off + len\<rparr> else x)"
    have live: "cinfo_live og m'" using m(2) live_state by (simp add: m'_def Let_def)
    have "cinfo_op_run env og path op fs = cinfo_xmeta_write env fs1 path m'"
      using og ok by (simp add: op Mark_dirty brix_cache_cinfo_mark_dirty_def l m(1) origin_ok_def m'_def)
    moreover have "cinfo_view_of m' = cinfo_view_step (now, Mark_dirty off len) (cinfo_view_of m)"
      by (auto simp: m'_def Let_def cinfo_view_of_def min_def max_def not_less not_le)
    then have "cinfo_spec_step op v = Some (cinfo_view_of m')"
      using m(3) by (cases v) (simp_all add: op Mark_dirty)
    ultimately show ?thesis using save [OF live] by simp
  next
    case (Mark_clean n)
    show ?thesis
    proof (cases v)
      case None
      then have "cinfo_xmeta_read env fs1 path = Inl NGX_DECLINED" using abs1 by (simp add: cinfo_abs_def xmeta_read_cases)
      then show ?thesis using abs1 None by (simp add: op Mark_clean brix_cache_cinfo_mark_clean_def l)
    next
      case (Some w)
      then obtain m where m: "brix_xmeta_path_load env fs1 path = Inr m" "cinfo_live og m" "cinfo_view_of m = w"
        using abs1 by (auto simp: cinfo_abs_def)
      let ?m = "m\<lparr>xm_dirty_lo := 0, xm_dirty_hi := 0, xm_dirty_since := 0, xm_flush_gen := xm_flush_gen m + 1,
                xm_last_flush := now, xm_bytes_flushed := xm_bytes_flushed m + n\<rparr>"
      have "cinfo_op_run env og path op fs = cinfo_xmeta_write env fs1 path ?m"
        using m(1) xmeta_read_cases(1) [of env fs1 path m] by (simp add: op Mark_clean brix_cache_cinfo_mark_clean_def l)
      moreover have "cinfo_spec_step op v = Some (cinfo_view_of ?m)"
        using m(3) by (auto simp: op Mark_clean Some cinfo_view_of_def)
      ultimately show ?thesis using save [OF live_state(5) [OF m(2)]] by simp
    qed
  qed
qed

text \<open>A history: the codes of its operations and the file system after it.\<close>

fun cinfo_history :: "xenv_t \<Rightarrow> cinfo_origin \<Rightarrow> bytes \<Rightarrow> (u64 \<times> cinfo_op) list \<Rightarrow> xfs_t \<Rightarrow> ngx_rc list \<times> xfs_t" where
  "cinfo_history env og path [] fs = ([], fs)"
| "cinfo_history env og path (op # ops) fs =
     (let (rc, fs1) = cinfo_op_run env og path op fs; (rcs, fs2) = cinfo_history env og path ops fs1 in (rc # rcs, fs2))"

lemma cinfo_history_abs:
  assumes "xenv_healthy env" "xmeta_key path" "origin_ok og"
  shows "\<lbrakk>\<forall>op \<in> set ops. cinfo_op_ok og op; cinfo_abs env og fs path v\<rbrakk>
   \<Longrightarrow> NGX_ERROR \<notin> set (fst (cinfo_history env og path ops fs))
      \<and> cinfo_abs env og (snd (cinfo_history env og path ops fs)) path (fold cinfo_spec_step ops v)"
proof (induction ops arbitrary: fs v)
  case (Cons op ops)
  obtain fs' where "cinfo_op_run env og path op fs = (if cinfo_spec_step op v = None then NGX_DECLINED else NGX_OK, fs')"
      "cinfo_abs env og fs' path (cinfo_spec_step op v)"
    using cinfo_op_step [OF assms, of op fs v] Cons.prems by auto
  then show ?case using Cons.IH [of fs' "cinfo_spec_step op v"] Cons.prems(1) by (auto split: prod.splits)
qed simp

section \<open>What the readers report\<close>

lemma load_of_record:
  assumes "xenv_healthy env" "brix_xmeta_path_load env fs path = Inr m" "xmeta_wf m"
  shows "brix_cache_cinfo_load env fs path = Inr (brix_cache_cinfo_from_xmeta m, if xm_nblocks m = 0 then None else xm_bitmap m)"
proof -
  have malloc: "xe_malloc env k \<noteq> None" for k using assms(1) by (metis xenv_healthy_def malloc_ok_def option.discI)
  have nb: "ci_nblocks (brix_cache_cinfo_from_xmeta m) = xm_nblocks m"
    by (simp add: brix_cache_cinfo_from_xmeta_def Let_def brix_cache_cinfo_refresh_flags_def split: option.split)
  have len: "brix_cache_cinfo_bitmap_len (xm_nblocks m) = xmeta_bitmap_len (xm_nblocks m)"
    by (simp add: brix_cache_cinfo_bitmap_len_def xmeta_bitmap_len_def)
  have le: "unat (xm_nblocks m) \<le> 67108864" using xmeta_wf_blocks(2) [OF assms(3)] by simp
  have pos: "xm_nblocks m \<noteq> 0 \<longleftrightarrow> 0 < xmeta_bitmap_len (xm_nblocks m)"
  proof -
    have "unat (xm_nblocks m + 7) = unat (xm_nblocks m) + 7" using le by (simp add: unat_word_ariths)
    then have "xmeta_bitmap_len (xm_nblocks m) = (unat (xm_nblocks m) + 7) div 8"
      by (simp add: xmeta_bitmap_len_def unat_div_distrib)
    then show ?thesis by (auto simp: unat_eq_zero [symmetric] simp del: unat_eq_zero)
  qed
  show ?thesis
  proof (cases "xm_nblocks m = 0")
    case True
    then show ?thesis using assms(2) pos len
      by (simp add: brix_cache_cinfo_load_def cinfo_xmeta_read_def nb Let_def)
  next
    case False
    then obtain b where "xm_bitmap m = Some b" "length b = xmeta_bitmap_len (xm_nblocks m)"
      using assms(3) by (auto simp: xmeta_wf_def)
    then show ?thesis using assms(2) False pos len malloc
      by (simp add: brix_cache_cinfo_load_def cinfo_xmeta_read_def nb Let_def)
  qed
qed


lemma from_xmeta_flags:
  assumes "xm_bitmap m = Some b"
  shows "ci_flags (brix_cache_cinfo_from_xmeta m) AND BRIX_CINFO_F_COMPLETE \<noteq> 0 \<longleftrightarrow> (\<forall>j < xm_nblocks m. bm_bit b j)"
    "ci_flags (brix_cache_cinfo_from_xmeta m) AND BRIX_CINFO_F_PARTIAL \<noteq> 0
       \<longleftrightarrow> (\<exists>j < xm_nblocks m. bm_bit b j) \<and> (\<exists>j < xm_nblocks m. \<not> bm_bit b j)"
    "ci_flags (brix_cache_cinfo_from_xmeta m) AND BRIX_CINFO_F_DIRTY \<noteq> 0 \<longleftrightarrow> xm_dirty_lo m < xm_dirty_hi m"
proof -
  define n where "n = xm_nblocks m"
  define c where "c = brix_cache_cinfo_present_count b n"
  define f :: u16 where "f = (if n = 0 \<or> c = n then 1 else if c > 0 then 2 else 0)"
  have fl: "ci_flags (brix_cache_cinfo_from_xmeta m) =
      ((f OR (if xm_state_flags m AND 1 \<noteq> 0 then 4 else 0)) OR (if xm_state_flags m AND 2 \<noteq> 0 then 16 else 0))
        OR (if xm_dirty_lo m < xm_dirty_hi m then 8 else 0)"
    unfolding brix_cache_cinfo_from_xmeta_def Let_def assms brix_cache_cinfo_refresh_flags_def f_def c_def n_def
    by (simp add: cinfo_zero_def)
  have all: "n = 0 \<or> c = n \<longleftrightarrow> (\<forall>j < n. bm_bit b j)" using present_count_all [of b n] by (auto simp: c_def)
  have none: "c > 0 \<longleftrightarrow> (\<exists>j < n. bm_bit b j)" using present_count_none [of b n] by (auto simp: c_def word_gt_0)
  show "ci_flags (brix_cache_cinfo_from_xmeta m) AND BRIX_CINFO_F_COMPLETE \<noteq> 0 \<longleftrightarrow> (\<forall>j < xm_nblocks m. bm_bit b j)"
    using all unfolding fl f_def n_def [symmetric] by simp
  show "ci_flags (brix_cache_cinfo_from_xmeta m) AND BRIX_CINFO_F_PARTIAL \<noteq> 0
       \<longleftrightarrow> (\<exists>j < xm_nblocks m. bm_bit b j) \<and> (\<exists>j < xm_nblocks m. \<not> bm_bit b j)"
    using all none unfolding fl f_def n_def [symmetric] by simp
  show "ci_flags (brix_cache_cinfo_from_xmeta m) AND BRIX_CINFO_F_DIRTY \<noteq> 0 \<longleftrightarrow> xm_dirty_lo m < xm_dirty_hi m"
    unfolding fl f_def by simp
qed

text \<open>A header shows a view: its blocks, its completeness flags, its dirty range.\<close>

definition header_shows :: "cinfo_origin \<Rightarrow> cinfo_view \<Rightarrow> brix_cache_cinfo_t \<times> bytes option \<Rightarrow> bool" where
  "header_shows og v x = (case x of (h, bm) \<Rightarrow>
     ci_size h = co_size og \<and> ci_block_size h = co_block og \<and> ci_mtime h = co_mtime og \<and> ci_nblocks h = origin_blocks og
     \<and> (\<forall>i < origin_blocks og. (case bm of Some b \<Rightarrow> brix_cache_cinfo_block_present b i | None \<Rightarrow> False) \<longleftrightarrow> i \<in> cv_present v)
     \<and> (ci_flags h AND BRIX_CINFO_F_COMPLETE \<noteq> 0 \<longleftrightarrow> {i. i < origin_blocks og} \<subseteq> cv_present v)
     \<and> (ci_flags h AND BRIX_CINFO_F_PARTIAL \<noteq> 0
          \<longleftrightarrow> {i. i < origin_blocks og} \<inter> cv_present v \<noteq> {} \<and> \<not> {i. i < origin_blocks og} \<subseteq> cv_present v)
     \<and> (ci_flags h AND BRIX_CINFO_F_DIRTY \<noteq> 0 \<longleftrightarrow> cv_lo v < cv_hi v)
     \<and> ci_dirty_lo h = cv_lo v \<and> ci_dirty_hi h = cv_hi v \<and> ci_dirty_since h = cv_since v
     \<and> ci_flush_gen h = cv_flush_gen v \<and> ci_last_flush h = cv_last_flush v \<and> ci_bytes_flushed h = cv_flushed v)"

lemma load_shows:
  assumes env: "xenv_healthy env" and og: "origin_ok og" and abs: "cinfo_abs env og fs path (Some v)"
  obtains x where "brix_cache_cinfo_load env fs path = Inr x" "header_shows og v x"
proof -
  obtain m where m: "brix_xmeta_path_load env fs path = Inr m" "cinfo_live og m" "cinfo_view_of m = v"
    using abs by (auto simp: cinfo_abs_def)
  have wf: "xmeta_wf m" using m(2) by (simp add: cinfo_live_def xmeta_fits_def)
  obtain b where b: "xm_bitmap m = Some b" using wf by (auto simp: xmeta_wf_def)
  have n: "xm_nblocks m = origin_blocks og" and o: "origin_matches og m" using m(2) by (simp_all add: cinfo_live_def)
  let ?h = "brix_cache_cinfo_from_xmeta m"
  have f: "ci_size ?h = xm_file_size m" "ci_block_size ?h = ucast (xm_buffer_size m)" "ci_mtime ?h = xm_origin_mtime m"
    "ci_nblocks ?h = xm_nblocks m" "ci_dirty_lo ?h = xm_dirty_lo m" "ci_dirty_hi ?h = xm_dirty_hi m"
    "ci_dirty_since ?h = xm_dirty_since m" "ci_flush_gen ?h = xm_flush_gen m" "ci_last_flush ?h = xm_last_flush m"
    "ci_bytes_flushed ?h = xm_bytes_flushed m"
    unfolding brix_cache_cinfo_from_xmeta_def Let_def b brix_cache_cinfo_refresh_flags_def by simp_all
  have p: "i \<in> cv_present v \<longleftrightarrow> i < origin_blocks og \<and> bm_bit b i" for i
    using m(3) by (auto simp: cinfo_view_of_def block_test_bit b n)
  have v: "cv_lo v = xm_dirty_lo m" "cv_hi v = xm_dirty_hi m" "cv_since v = xm_dirty_since m"
    "cv_flush_gen v = xm_flush_gen m" "cv_last_flush v = xm_last_flush m" "cv_flushed v = xm_bytes_flushed m"
    using m(3) by (auto simp: cinfo_view_of_def)
  have u: "ucast (ucast (co_block og) :: u64) = co_block og" by (simp add: unsigned_ucast_eq)
  have "header_shows og v (?h, if xm_nblocks m = 0 then None else xm_bitmap m)"
    unfolding header_shows_def prod.case
    by (intro conjI; simp only: f v from_xmeta_flags [OF b] n; use o u p in \<open>auto simp: origin_matches_def b block_present_bit\<close>)
  then show ?thesis using that load_of_record [OF env m(1) wf] by simp
qed

lemma load_declined:
  "cinfo_abs env og fs path None \<Longrightarrow> brix_cache_cinfo_load env fs path = Inl NGX_DECLINED"
  by (simp add: cinfo_abs_def brix_cache_cinfo_load_def xmeta_read_cases)


section \<open>Properties of histories\<close>

text \<open>The marks made since the last cleaning, oldest first, and the extent they span.\<close>

fun open_marks :: "(u64 \<times> cinfo_op) list \<Rightarrow> (u64 \<times> u64 \<times> u64) list \<Rightarrow> (u64 \<times> u64 \<times> u64) list" where
  "open_marks [] ms = ms"
| "open_marks ((now, Record_block mode blk) # ops) ms = open_marks ops ms"
| "open_marks ((now, Mark_dirty off len) # ops) ms = open_marks ops (ms @ [(now, off, len)])"
| "open_marks ((now, Mark_clean n) # ops) ms = open_marks ops []"

definition marks_extent :: "(u64 \<times> u64 \<times> u64) list \<Rightarrow> ngx_rc + u64 \<times> u64 \<times> u64" where
  "marks_extent ms =
     (case ms of
        [] \<Rightarrow> Inl NGX_DECLINED
      | (t, off, len) # ms' \<Rightarrow>
          Inr (foldl min off (map (\<lambda>(_, off, len). off) ms'), foldl max (off + len) (map (\<lambda>(_, off, len). off + len) ms'), t))"

text \<open>A write range that does not run past the largest offset.\<close>

fun op_no_wrap :: "u64 \<times> cinfo_op \<Rightarrow> bool" where
  "op_no_wrap (now, Mark_dirty off len) \<longleftrightarrow> unat off + unat len < 2 ^ 64"
| "op_no_wrap _ \<longleftrightarrow> True"

definition marks_inv :: "(u64 \<times> u64 \<times> u64) list \<Rightarrow> cinfo_view option \<Rightarrow> bool" where
  "marks_inv ms v \<longleftrightarrow>
     (case v of None \<Rightarrow> ms = []
      | Some w \<Rightarrow> if ms = [] then \<not> cv_lo w < cv_hi w
                  else cv_lo w < cv_hi w \<and> marks_extent ms = Inr (cv_lo w, cv_hi w, cv_since w))"

lemma marks_extent_snoc:
  assumes "marks_extent ms = Inr (lo, hi, t)"
  shows "marks_extent (ms @ [(now, off, len)]) = Inr (min lo off, max hi (off + len), t)"
  using assms by (cases ms) (auto simp: marks_extent_def split: prod.splits)

lemma no_wrap_less: "unat off + unat len < 2 ^ 64 \<Longrightarrow> len \<noteq> 0 \<Longrightarrow> off < off + (len :: u64)"
  by (simp add: word_less_nat_alt unat_word_ariths unat_gt_0)

lemma marks_inv_step:
  assumes "marks_inv ms v" "cinfo_op_ok og op" "op_no_wrap op"
  shows "marks_inv (open_marks [op] ms) (cinfo_spec_step op v)"
proof -
  obtain now c where op: "op = (now, c)" by (cases op)
  show ?thesis
  proof (cases c)
    case (Mark_dirty off len)
    then have lt: "off < off + len" using assms(2,3) no_wrap_less by (simp add: op)
    show ?thesis
    proof (cases v)
      case None
      then show ?thesis using assms(1) lt
        by (simp add: op Mark_dirty marks_inv_def cinfo_view_empty_def marks_extent_def)
    next
      case (Some w)
      show ?thesis
      proof (cases "ms = []")
        case True
        then show ?thesis using assms(1) lt by (simp add: op Mark_dirty marks_inv_def Some marks_extent_def)
      next
        case False
        then have e: "cv_lo w < cv_hi w" "marks_extent ms = Inr (cv_lo w, cv_hi w, cv_since w)"
          using assms(1) by (simp_all add: marks_inv_def Some)
        then have "min off (cv_lo w) < max (off + len) (cv_hi w)" by (simp add: min_less_iff_disj less_max_iff_disj)
        then show ?thesis using e marks_extent_snoc [OF e(2), of now off len]
          by (simp add: op Mark_dirty marks_inv_def Some min.commute max.commute)
      qed
    qed
  next
    case (Record_block mode blk)
    then show ?thesis using assms(1)
      by (cases v) (simp_all add: op marks_inv_def cinfo_view_empty_def)
  next
    case (Mark_clean n)
    then show ?thesis by (cases v) (simp_all add: op marks_inv_def)
  qed
qed

lemma open_marks_Cons: "open_marks (op # ops) ms = open_marks ops (open_marks [op] ms)"
  by (cases op; cases "snd op") auto

lemma marks_inv_fold:
  "\<lbrakk>\<forall>op \<in> set ops. cinfo_op_ok og op \<and> op_no_wrap op; marks_inv ms v\<rbrakk> \<Longrightarrow> marks_inv (open_marks ops ms) (fold cinfo_spec_step ops v)"
proof (induction ops arbitrary: ms v)
  case (Cons op ops)
  show ?case unfolding open_marks_Cons [of op ops] fold_simps
    by (rule Cons.IH) (use Cons.prems marks_inv_step [of ms v og op] in auto)
qed simp

text \<open>The blocks recorded, and whether anything was.\<close>

fun recorded_blocks :: "(u64 \<times> cinfo_op) list \<Rightarrow> u64 list" where
  "recorded_blocks [] = []"
| "recorded_blocks ((now, Record_block mode blk) # ops) = blk # recorded_blocks ops"
| "recorded_blocks (_ # ops) = recorded_blocks ops"

lemma fold_present_some:
  "\<exists>w. fold cinfo_spec_step ops (Some v) = Some w \<and> cv_present w = cv_present v \<union> set (recorded_blocks ops)"
proof (induction ops arbitrary: v)
  case (Cons op ops)
  obtain now c where op: "op = (now, c)" by (cases op)
  show ?case using Cons.IH [of "cinfo_view_step op v"] by (cases c) (auto simp: op)
qed simp

lemma fold_present:
  "case fold cinfo_spec_step ops None of None \<Rightarrow> recorded_blocks ops = [] | Some w \<Rightarrow> cv_present w = set (recorded_blocks ops)"
proof (induction ops)
  case (Cons op ops)
  obtain now c where op: "op = (now, c)" by (cases op)
  show ?case
    using Cons.IH fold_present_some [of ops "cinfo_view_step op cinfo_view_empty"]
    by (cases c) (auto simp: op cinfo_view_empty_def split: option.splits)
qed simp

text \<open>
  C1. The record refines its abstract view.  Any sequence of block recordings, dirty marks and cleanings of one file, each a
  lock, a load, an update and a save through the carrier, never fails, and what a load then reports is
  the view obtained by the same steps on the abstract state: no record, or a header and a bitmap that show it.
\<close>
theorem cinfo_history_refines:
  assumes "xenv_healthy env" "xmeta_key path" "origin_ok og" "\<forall>op \<in> set ops. cinfo_op_ok og op"
    and "brix_xmeta_path_load env fs path = Inl XMETA_FOREIGN" "cinfo_history env og path ops fs = (rcs, fs')"
  shows "NGX_ERROR \<notin> set rcs
    \<and> (case fold cinfo_spec_step ops None of
         None \<Rightarrow> brix_cache_cinfo_load env fs' path = Inl NGX_DECLINED
       | Some v \<Rightarrow> \<exists>x. brix_cache_cinfo_load env fs' path = Inr x \<and> header_shows og v x)"
proof -
  have "NGX_ERROR \<notin> set rcs \<and> cinfo_abs env og fs' path (fold cinfo_spec_step ops None)"
    using cinfo_history_abs [OF assms(1-3,4), of fs None] assms(5,6) by (simp add: cinfo_abs_def)
  then show ?thesis
    using load_declined load_shows [OF assms(1,3)] by (auto split: option.split) blast
qed

definition cinfo_sample_origin :: cinfo_origin where
  "cinfo_sample_origin = \<lparr>co_size = 100, co_block = 40, co_mtime = 7\<rparr>"

definition cinfo_sample_ops :: "(u64 \<times> cinfo_op) list" where
  "cinfo_sample_ops = [(1, Mark_clean 0), (2, Record_block 0 1), (3, Mark_dirty 50 10), (4, Mark_dirty 40 4), (5, Record_block 420 2)]"

lemma sample_blocks: "origin_blocks cinfo_sample_origin = 3"
  by (simp add: origin_blocks_def cinfo_sample_origin_def xmeta_nblocks_def)

lemma sample_origin: "origin_ok cinfo_sample_origin" "\<forall>op \<in> set cinfo_sample_ops. cinfo_op_ok cinfo_sample_origin op"
  "\<forall>op \<in> set cinfo_sample_ops. op_no_wrap op"
  by (simp_all add: origin_ok_def sample_blocks [unfolded origin_blocks_def] sample_blocks cinfo_sample_ops_def)
    (simp_all add: cinfo_sample_origin_def)

lemma sample_no_record: "brix_xmeta_path_load xmeta_env xfs_sample (chars ''/d/a'') = Inl XMETA_FOREIGN"
  by (simp add: brix_xmeta_path_load_def xmeta_path_load_from_xattr_def sys_getxattr_def brix_xmeta_sidecar_path_def
      xmeta_env_def heap_zero_def xfs_sample_def chars_def of_char_def)

theorem cinfo_history_refines_witness:
  "\<exists>x. brix_cache_cinfo_load xmeta_env (snd (cinfo_history xmeta_env cinfo_sample_origin (chars ''/d/a'') cinfo_sample_ops xfs_sample)) (chars ''/d/a'') = Inr x
     \<and> header_shows cinfo_sample_origin \<lparr>cv_present = {1, 2}, cv_lo = 40, cv_hi = 60, cv_since = 3, cv_flush_gen = 0, cv_last_flush = 0, cv_flushed = 0\<rparr> x"
proof -
  have "fold cinfo_spec_step cinfo_sample_ops None
      = Some \<lparr>cv_present = {1, 2}, cv_lo = 40, cv_hi = 60, cv_since = 3, cv_flush_gen = 0, cv_last_flush = 0, cv_flushed = 0\<rparr>"
    by (simp add: cinfo_sample_ops_def cinfo_view_empty_def insert_commute)
  then show ?thesis
    using cinfo_history_refines [OF xmeta_env_healthy sample_key sample_origin(1,2) sample_no_record, of "fst H" "snd H" for H] by simp
qed


text \<open>
  C20. Block map.  After any sequence of recordings, dirty marks and cleanings that records a block, a load succeeds, its bitmap
  has exactly the recorded blocks, and the header is flagged complete when every block of the file was
  recorded, partial otherwise.
\<close>
theorem cinfo_blocks_recorded:
  assumes "xenv_healthy env" "xmeta_key path" "origin_ok og" "\<forall>op \<in> set ops. cinfo_op_ok og op"
    and "brix_xmeta_path_load env fs path = Inl XMETA_FOREIGN" "cinfo_history env og path ops fs = (rcs, fs')"
    and "recorded_blocks ops \<noteq> []"
  shows "\<exists>h b. brix_cache_cinfo_load env fs' path = Inr (h, Some b)
    \<and> (\<forall>i < origin_blocks og. brix_cache_cinfo_block_present b i \<longleftrightarrow> i \<in> set (recorded_blocks ops))
    \<and> (ci_flags h AND BRIX_CINFO_F_COMPLETE \<noteq> 0 \<longleftrightarrow> (\<forall>i < origin_blocks og. i \<in> set (recorded_blocks ops)))
    \<and> (ci_flags h AND BRIX_CINFO_F_PARTIAL \<noteq> 0 \<longleftrightarrow> ci_flags h AND BRIX_CINFO_F_COMPLETE = 0)"
proof -
  have "cinfo_abs env og fs' path (fold cinfo_spec_step ops None)"
    using cinfo_history_abs [OF assms(1-3,4), of fs None] assms(5,6) by (simp add: cinfo_abs_def)
  then obtain v where v: "cinfo_abs env og fs' path (Some v)" "cv_present v = set (recorded_blocks ops)"
    using fold_present [of ops] assms(7) by (auto split: option.splits)
  obtain h bm where l: "brix_cache_cinfo_load env fs' path = Inr (h, bm)" "header_shows og v (h, bm)"
    by (rule load_shows [OF assms(1,3) v(1)]) (metis surj_pair)
  have sub: "set (recorded_blocks ops) \<subseteq> {i. i < origin_blocks og}"
    using assms(4)
  proof (induction ops)
    case (Cons op ops)
    then show ?case by (cases op; cases "snd op") auto
  qed simp
  then obtain j where j: "j < origin_blocks og" "j \<in> set (recorded_blocks ops)"
    using assms(7) by (metis list.set_intros(1) mem_Collect_eq neq_Nil_conv subsetD)
  then obtain b where "bm = Some b" using l(2) v(2) by (cases bm) (auto simp: header_shows_def)
  then show ?thesis using l v(2) j by (auto simp: header_shows_def)
qed

theorem cinfo_blocks_recorded_witness:
  "\<exists>h b. brix_cache_cinfo_load xmeta_env (snd (cinfo_history xmeta_env cinfo_sample_origin (chars ''/d/a'') cinfo_sample_ops xfs_sample)) (chars ''/d/a'') = Inr (h, Some b)
     \<and> \<not> brix_cache_cinfo_block_present b 0 \<and> brix_cache_cinfo_block_present b 1 \<and> brix_cache_cinfo_block_present b 2
     \<and> ci_flags h AND BRIX_CINFO_F_PARTIAL \<noteq> 0"
proof -
  have r: "recorded_blocks cinfo_sample_ops = [1, 2]" by (simp add: cinfo_sample_ops_def)
  obtain h b where x: "brix_cache_cinfo_load xmeta_env (snd (cinfo_history xmeta_env cinfo_sample_origin (chars ''/d/a'') cinfo_sample_ops xfs_sample)) (chars ''/d/a'') = Inr (h, Some b)"
    "\<forall>i < 3. brix_cache_cinfo_block_present b i \<longleftrightarrow> i \<in> {1, 2}"
    "ci_flags h AND BRIX_CINFO_F_COMPLETE \<noteq> 0 \<longleftrightarrow> (\<forall>i :: u64 < 3. i \<in> {1, 2})"
    "ci_flags h AND BRIX_CINFO_F_PARTIAL \<noteq> 0 \<longleftrightarrow> ci_flags h AND BRIX_CINFO_F_COMPLETE = 0"
    using cinfo_blocks_recorded [OF xmeta_env_healthy sample_key sample_origin(1,2) sample_no_record, of "fst H" "snd H" for H]
    unfolding r sample_blocks by auto
  have "\<not> (\<forall>i :: u64 < 3. i \<in> {1, 2})" by (auto intro: exI [of _ 0])
  then show ?thesis using x by auto
qed

text \<open>
  C7. Dirty extent.  When no write range wraps past the largest offset, the dirty extent reported after any history is the hull
  of the ranges marked since the last cleaning, with the time of the first of them; when none was marked there is no extent.
  So every byte marked dirty and not yet flushed lies in the extent.
\<close>
theorem cinfo_dirty_extent_hull:
  assumes "xenv_healthy env" "xmeta_key path" "origin_ok og" "\<forall>op \<in> set ops. cinfo_op_ok og op \<and> op_no_wrap op"
    and "brix_xmeta_path_load env fs path = Inl XMETA_FOREIGN" "cinfo_history env og path ops fs = (rcs, fs')"
  shows "brix_cache_cinfo_dirty_extent env fs' path = marks_extent (open_marks ops [])"
proof -
  let ?v = "fold cinfo_spec_step ops None"
  have abs: "cinfo_abs env og fs' path ?v"
    using cinfo_history_abs [OF assms(1-3), of ops fs None] assms(4,5,6) by (simp add: cinfo_abs_def)
  have inv: "marks_inv (open_marks ops []) ?v"
    by (rule marks_inv_fold [OF assms(4)]) (simp add: marks_inv_def)
  show ?thesis
  proof (cases ?v)
    case None
    then show ?thesis using abs inv load_declined by (simp add: marks_inv_def marks_extent_def brix_cache_cinfo_dirty_extent_def)
  next
    case (Some v)
    obtain h bm where "brix_cache_cinfo_load env fs' path = Inr (h, bm)" "header_shows og v (h, bm)"
      by (rule load_shows [OF assms(1,3) abs [unfolded Some]]) (metis surj_pair)
    then show ?thesis using inv
      by (auto simp: marks_inv_def Some brix_cache_cinfo_dirty_extent_def header_shows_def marks_extent_def not_less split: if_splits)
  qed
qed

theorem cinfo_dirty_extent_hull_witness:
  "brix_cache_cinfo_dirty_extent xmeta_env (snd (cinfo_history xmeta_env cinfo_sample_origin (chars ''/d/a'') cinfo_sample_ops xfs_sample)) (chars ''/d/a'')
     = Inr (40, 60, 3)"
proof -
  have "\<forall>op \<in> set cinfo_sample_ops. cinfo_op_ok cinfo_sample_origin op \<and> op_no_wrap op" using sample_origin by blast
  moreover have "marks_extent (open_marks cinfo_sample_ops []) = Inr (40, 60, 3)" by (simp add: cinfo_sample_ops_def marks_extent_def)
  ultimately show ?thesis
    using cinfo_dirty_extent_hull [OF xmeta_env_healthy sample_key sample_origin(1) _ sample_no_record, of _ "fst H" "snd H" for H] by simp
qed

text \<open>
  A changed origin.  A block recorded for an origin whose size, block size or modification time differs from the record's starts
  a new record: the blocks of the old file are forgotten and only the new one is present, with nothing dirty.
\<close>
theorem cinfo_stale_origin_resets:
  assumes "xenv_healthy env" "xmeta_key path" "origin_ok og" "blk < origin_blocks og"
    and "brix_xmeta_path_load env fs path = Inr old" "\<not> origin_matches og old"
  shows "\<exists>fs' h b. brix_cache_cinfo_record_block env now fs path (co_size og) (co_block og) (co_mtime og) mode blk = (NGX_OK, fs')
    \<and> brix_cache_cinfo_load env fs' path = Inr (h, Some b)
    \<and> (\<forall>i < origin_blocks og. brix_cache_cinfo_block_present b i \<longleftrightarrow> i = blk)
    \<and> brix_cache_cinfo_dirty_extent env fs' path = Inl NGX_DECLINED"
proof -
  have malloc: "malloc_ok (xe_malloc env)" using assms(1) by (simp add: xenv_healthy_def)
  obtain m where m: "brix_cache_cinfo_to_xmeta (xe_malloc env) now (cinfo_init (co_size og) (co_block og) (co_mtime og)) None = Inr m"
      "cinfo_live og m" "cinfo_view_of m = cinfo_view_empty" by (rule fresh_live [OF assms(3) malloc])
  let ?m = "if mode \<noteq> 0 then m\<lparr>xm_mode := mode\<rparr> else m"
  have live: "cinfo_live og ?m" "cinfo_view_of ?m = cinfo_view_of m"
    using m(2) live_state(1) by (auto simp: cinfo_view_of_def)
  obtain fd fs1 fs' where w: "brix_xmeta_path_lock env fs path = (Some fd, fs1)"
    "brix_xmeta_path_load env fs1 path = brix_xmeta_path_load env fs path"
    "cinfo_xmeta_write env fs1 path (brix_xmeta_block_set blk ?m) = (NGX_OK, fs')"
    "cinfo_abs env og fs' path (Some (cinfo_view_of (brix_xmeta_block_set blk ?m)))"
    by (rule locked_write [OF assms(1,2) live_block_set(1) [OF live(1) assms(4)]])
  have "cinfo_rmw_load env now fs1 path (co_size og) (co_block og) (co_mtime og) = Inr m"
    using assms(5,6) w(2) m(1) xmeta_read_cases(1) [of env fs1 path old]
    by (auto simp: cinfo_rmw_load_def origin_matches_def)
  then have rc: "brix_cache_cinfo_record_block env now fs path (co_size og) (co_block og) (co_mtime og) mode blk = (NGX_OK, fs')"
    using assms(3) assms(4) [unfolded not_le [symmetric]] w
    by (simp add: record_block_unfold cinfo_nblocks_eq [OF assms(3)]) (simp add: origin_ok_def)
  have v: "cinfo_view_of (brix_xmeta_block_set blk ?m) = cinfo_view_empty\<lparr>cv_present := {blk}\<rparr>"
    using live_block_set(2) [OF live(1) assms(4)] live(2) m(3) by (simp add: cinfo_view_empty_def)
  obtain h bm where l: "brix_cache_cinfo_load env fs' path = Inr (h, bm)" "header_shows og (cinfo_view_empty\<lparr>cv_present := {blk}\<rparr>) (h, bm)"
    by (rule load_shows [OF assms(1,3) w(4) [unfolded v]]) (metis surj_pair)
  then obtain b where "bm = Some b" using assms(4) by (cases bm) (auto simp: header_shows_def)
  then show ?thesis using rc l
    by (auto simp: header_shows_def brix_cache_cinfo_dirty_extent_def cinfo_view_empty_def)
qed

theorem cinfo_stale_origin_resets_witness:
  "\<exists>fs fs' h b. brix_cache_cinfo_record_block xmeta_env 9 fs (chars ''/d/a'') 100 40 7 0 1 = (NGX_OK, fs')
    \<and> brix_cache_cinfo_load xmeta_env fs' (chars ''/d/a'') = Inr (h, Some b) \<and> \<not> brix_cache_cinfo_block_present b 0
    \<and> brix_cache_cinfo_block_present b 1"
proof -
  obtain fs old where "brix_xmeta_path_load xmeta_env fs (chars ''/d/a'') = Inr old" "old = xmeta_norm xmeta_sample"
    using path_save_ok [OF xmeta_env_healthy sample_key sample_fits(1), of xfs_sample] one_carrier_load [OF xmeta_env_healthy sample_key sample_fits(1)] by metis
  moreover from this have "\<not> origin_matches cinfo_sample_origin old"
    by (simp add: origin_matches_def cinfo_sample_origin_def xmeta_sample_def xmeta_zero_def)
  ultimately show ?thesis
    using cinfo_stale_origin_resets [OF xmeta_env_healthy sample_key sample_origin(1), of 1 fs old 9 0] sample_blocks
    by (fastforce simp: cinfo_sample_origin_def)
qed


section \<open>Storing and loading a header\<close>

definition cinfo_header_ok :: "brix_cache_cinfo_t \<Rightarrow> bool" where
  "cinfo_header_ok h \<longleftrightarrow> ci_block_size h \<noteq> 0 \<and> 0 \<le> sint (ci_size h)
     \<and> xmeta_nblocks (ci_size h) (ucast (ci_block_size h)) \<le> BRIX_XMETA_MAX_BLOCKS
     \<and> length (ci_etag h) = 55 \<and> unat (ci_etag_len h) \<le> 55
     \<and> length (ci_cks_alg h) = 16 \<and> unat (ci_cks_alg_len h) \<le> 16
     \<and> length (ci_cks_hex h) = 129 \<and> unat (ci_cks_len h) \<le> 129"

text \<open>The header a load returns: the strings padded with zeros, the block count and the flags recomputed.\<close>

definition cinfo_reloaded :: "brix_cache_cinfo_t \<Rightarrow> bytes \<Rightarrow> brix_cache_cinfo_t" where
  "cinfo_reloaded h b =
     (let h1 = brix_cache_cinfo_refresh_flags
                 (h\<lparr>ci_magic := BRIX_CACHE_CINFO_MAGIC, ci_version := BRIX_CACHE_CINFO_VERSION, ci_flags := 0,
                    ci_nblocks := xmeta_nblocks (ci_size h) (ucast (ci_block_size h)),
                    ci_etag := xmeta_pad 55 (ci_etag_len h) (ci_etag h),
                    ci_cks_alg := xmeta_pad 16 (ci_cks_alg_len h) (ci_cks_alg h),
                    ci_cks_hex := xmeta_pad 129 (ci_cks_len h) (ci_cks_hex h)\<rparr>) b
      in h1\<lparr>ci_flags := ((ci_flags h1 OR (if ci_flags h AND BRIX_CINFO_F_VERIFIED \<noteq> 0 then BRIX_CINFO_F_VERIFIED else 0))
               OR (if ci_flags h AND BRIX_CINFO_F_EXPIRES \<noteq> 0 then BRIX_CINFO_F_EXPIRES else 0))
               OR (if ci_dirty_lo h < ci_dirty_hi h then BRIX_CINFO_F_DIRTY else 0)\<rparr>)"

text \<open>A record without block sums and digests is within the carrier's limits.\<close>

lemma wf_small:
  assumes "xmeta_wf m" "\<not> xm_have_blockcrc m" "xm_digests m = None"
  shows "length (xmeta_image m) \<le> 9000000" "xm_digests_len m = 0"
proof -
  have "unat (xm_nblocks m) \<le> 67108864" by (rule xmeta_wf_blocks(2) [OF assms(1)])
  then have "xmeta_bitmap_len (xm_nblocks m) \<le> 8388609" by (rule bitmap_len_le)
  moreover have "unat (xm_etag_len m) \<le> 128" "unat (xm_cks_alg_len m) \<le> 16" "unat (xm_cks_len m) \<le> 129"
    using assms(1) by (auto simp: xmeta_wf_def)
  ultimately have "xp_cap (xmeta_encode_plan m) \<le> 9000000"
    using assms(2,3) by (simp add: xmeta_encode_plan_def Let_def)
  then show "length (xmeta_image m) \<le> 9000000" using encode_cap(1) [OF assms(1)] by simp
  show "xm_digests_len m = 0" using assms(1,3) by (simp add: xmeta_wf_def)
qed

lemma wf_fits: "\<lbrakk>xmeta_wf m; \<not> xm_have_blockcrc m; xm_digests m = None\<rbrakk> \<Longrightarrow> xmeta_fits m"
  using wf_small [of m] by (simp add: xmeta_fits_def)

lemma pad_window: "unat l \<le> k \<Longrightarrow> length xs = k \<Longrightarrow>
   memcpy_at 0 (take (unat l) (xmeta_pad n l (memcpy_at 0 (take (unat l) xs) (replicate n 0)))) (replicate k 0) = xmeta_pad k l xs"
  by (simp add: xmeta_pad_def memcpy_zeros min_def)

definition whole_flags :: "u64 \<Rightarrow> bytes \<Rightarrow> u16 \<Rightarrow> u16" where
  "whole_flags n b f = ci_flags (brix_cache_cinfo_refresh_flags (cinfo_zero\<lparr>ci_nblocks := n, ci_flags := f\<rparr>) b)"

lemma refresh_flags_frame:
  "brix_cache_cinfo_refresh_flags hdr b = hdr\<lparr>ci_flags := whole_flags (ci_nblocks hdr) b (ci_flags hdr)\<rparr>"
  by (simp add: whole_flags_def brix_cache_cinfo_refresh_flags_def Let_def)

lemma or_flags:
  "(if p then h\<lparr>ci_flags := ci_flags h OR f\<rparr> else h) = h\<lparr>ci_flags := ci_flags h OR (if p then f else 0)\<rparr>"
  by simp

lemma header_record:
  assumes h: "cinfo_header_ok h" and malloc: "malloc_ok malloc"
    and b: "xmeta_bitmap_len (xmeta_nblocks (ci_size h) (ucast (ci_block_size h))) \<le> length b"
  obtains m where "brix_cache_cinfo_to_xmeta malloc now h (Some b) = Inr m" "xmeta_fits m"
    "xm_nblocks m = xmeta_nblocks (ci_size h) (ucast (ci_block_size h))"
    "xm_bitmap m = Some (take (xmeta_bitmap_len (xm_nblocks m)) b)"
    "brix_cache_cinfo_from_xmeta (xmeta_norm m) = cinfo_reloaded h (take (xmeta_bitmap_len (xm_nblocks m)) b)"
proof -
  have ok: "malloc k \<noteq> None" for k using malloc by (metis malloc_ok_def option.discI)
  let ?n = "xmeta_nblocks (ci_size h) (ucast (ci_block_size h))"
  have n: "0 < sint (ucast (ci_block_size h) :: u64)" "0 \<le> sint (ci_size h)" "?n \<le> 67108864"
    using h sint_ucast_pos by (simp_all add: cinfo_header_ok_def)
  obtain m0 where i: "brix_xmeta_init malloc now (ci_size h) (ucast (ci_block_size h)) = Inr m0"
    using n ok by (simp add: brix_xmeta_init_def Let_def not_less not_le)
  note z = init_cases(4) [OF i]
  have len: "brix_cache_cinfo_bitmap_len ?n = xmeta_bitmap_len ?n"
    by (simp add: brix_cache_cinfo_bitmap_len_def xmeta_bitmap_len_def)
  have c: "cinfo_clamp 55 (ci_etag_len h) = ci_etag_len h" "cinfo_clamp 16 (ci_cks_alg_len h) = ci_cks_alg_len h"
    "cinfo_clamp 129 (ci_cks_len h) = ci_cks_len h"
    using h by (simp_all add: cinfo_header_ok_def cinfo_clamp_def)
  define P where "P \<longleftrightarrow> ci_last_access h \<noteq> 0 \<or> ci_bytes_served h \<noteq> 0"
  define fl :: u32 where "fl = (if ci_flags h AND 4 \<noteq> 0 then 1 else 0) OR (if ci_flags h AND 16 \<noteq> 0 then 2 else 0)"
  define ast where "ast = (if P then xmeta_astat_zero\<lparr>as_attach_time := ci_last_access h, as_detach_time := ci_last_access h,
      as_bytes_hit := ci_bytes_served h\<rparr> else xmeta_astat_zero)"
  define e where "e = memcpy_at 0 (take (unat (ci_etag_len h)) (ci_etag h)) (replicate 128 0)"
  define a where "a = memcpy_at 0 (take (unat (ci_cks_alg_len h)) (ci_cks_alg h)) (replicate 16 0)"
  define x where "x = memcpy_at 0 (take (unat (ci_cks_len h)) (ci_cks_hex h)) (replicate 129 0)"
  define m where "m = m0\<lparr>xm_have_blockcrc := False, xm_access_cnt := ci_access_count h, xm_astat_count := (if P then 1 else 0),
      xm_astat := ast, xm_origin_mtime := ci_mtime h, xm_dirty_lo := ci_dirty_lo h, xm_dirty_hi := ci_dirty_hi h,
      xm_dirty_since := ci_dirty_since h, xm_flush_gen := ci_flush_gen h, xm_last_flush := ci_last_flush h,
      xm_bytes_flushed := ci_bytes_flushed h, xm_expires_at := ci_expires_at h, xm_filled_at := ci_filled_at h,
      xm_mode := ci_mode h, xm_state_flags := fl, xm_etag_len := ci_etag_len h, xm_etag := e,
      xm_cks_alg_len := ci_cks_alg_len h, xm_cks_alg := a, xm_cks_len := ci_cks_len h, xm_cks_hex := x,
      xm_bitmap := Some (take (xmeta_bitmap_len ?n) b)\<rparr>"
  have z0: "xm_astat m0 = xmeta_astat_zero" "xm_astat_count m0 = 0" "xm_etag m0 = replicate 128 0" "xm_cks_alg m0 = replicate 16 0"
    "xm_cks_hex m0 = replicate 129 0" "xm_nblocks m0 = ?n" "xm_bitmap m0 = Some (replicate (xmeta_bitmap_len ?n) 0)"
    "xm_buffer_size m0 = ucast (ci_block_size h)" "xm_file_size m0 = ci_size h" "xm_have_state m0" "xm_digests m0 = None"
    "xm_digests_len m0 = 0" "xm_blockcrc m0 = Some (replicate (unat ?n) 0)" "xm_flush_gen m0 = 0"
    by (simp_all add: z xmeta_zero_def)
  have bs: "ci_block_size h \<noteq> 0" using h by (simp add: cinfo_header_ok_def)
  have t: "brix_cache_cinfo_to_xmeta malloc now h (Some b) = Inr m"
  proof (cases P)
    case True
    then have p: "ci_last_access h \<noteq> 0 \<or> ci_bytes_served h \<noteq> 0" by (simp add: P_def)
    show ?thesis unfolding brix_cache_cinfo_to_xmeta_def m_def ast_def
      by (simp only: Let_def i bs c p True fl_def [symmetric] if_True sum.case not_False_eq_True option.case)
        (use b in \<open>simp add: z0 len e_def a_def x_def\<close>)
  next
    case False
    then have p: "\<not> (ci_last_access h \<noteq> 0 \<or> ci_bytes_served h \<noteq> 0)" by (simp add: P_def)
    show ?thesis unfolding brix_cache_cinfo_to_xmeta_def m_def ast_def
      by (simp only: Let_def i bs c p False fl_def [symmetric] if_True if_False sum.case not_False_eq_True option.case)
        (use b in \<open>simp add: z0 len e_def a_def x_def\<close>)
  qed
  have f: "xm_nblocks m = ?n" "xm_bitmap m = Some (take (xmeta_bitmap_len ?n) b)" by (simp_all add: m_def z0)
  have el: "length e = 128" "length a = 16" "length x = 129" "unat (ci_etag_len h) \<le> 55" "unat (ci_cks_alg_len h) \<le> 16" "unat (ci_cks_len h) \<le> 129"
    using h by (simp_all add: e_def a_def x_def cinfo_header_ok_def memcpy_zeros)
  have wf: "xmeta_wf m" using n b el unfolding xmeta_wf_def m_def by (simp add: z0)
  have fits: "xmeta_fits m" by (rule wf_fits [OF wf]) (simp_all add: m_def z0)
  have nf: "xm_bitmap (xmeta_norm m) = Some (take (xmeta_bitmap_len ?n) b)" "xm_nblocks (xmeta_norm m) = ?n"
    "xm_buffer_size (xmeta_norm m) = ucast (ci_block_size h)" "xm_file_size (xmeta_norm m) = ci_size h"
    "xm_origin_mtime (xmeta_norm m) = ci_mtime h" "xm_access_cnt (xmeta_norm m) = ci_access_count h"
    "xm_dirty_lo (xmeta_norm m) = ci_dirty_lo h" "xm_dirty_hi (xmeta_norm m) = ci_dirty_hi h"
    "xm_dirty_since (xmeta_norm m) = ci_dirty_since h" "xm_flush_gen (xmeta_norm m) = ci_flush_gen h"
    "xm_last_flush (xmeta_norm m) = ci_last_flush h" "xm_bytes_flushed (xmeta_norm m) = ci_bytes_flushed h"
    "xm_expires_at (xmeta_norm m) = ci_expires_at h" "xm_filled_at (xmeta_norm m) = ci_filled_at h"
    "xm_mode (xmeta_norm m) = ci_mode h" "xm_state_flags (xmeta_norm m) = fl" "xm_etag_len (xmeta_norm m) = ci_etag_len h"
    "xm_cks_alg_len (xmeta_norm m) = ci_cks_alg_len h" "xm_cks_len (xmeta_norm m) = ci_cks_len h"
    by (simp_all add: xmeta_norm_def m_def z0)
  have na: "as_bytes_hit (xm_astat (xmeta_norm m)) = ci_bytes_served h" "as_detach_time (xm_astat (xmeta_norm m)) = ci_last_access h"
    by (simp_all add: xmeta_norm_def m_def ast_def P_def xmeta_astat_zero_def)
  have ns: "memcpy_at 0 (take (unat (ci_etag_len h)) (xm_etag (xmeta_norm m))) (replicate 55 0) = xmeta_pad 55 (ci_etag_len h) (ci_etag h)"
    "memcpy_at 0 (take (unat (ci_cks_alg_len h)) (xm_cks_alg (xmeta_norm m))) (replicate 16 0) = xmeta_pad 16 (ci_cks_alg_len h) (ci_cks_alg h)"
    "memcpy_at 0 (take (unat (ci_cks_len h)) (xm_cks_hex (xmeta_norm m))) (replicate 129 0) = xmeta_pad 129 (ci_cks_len h) (ci_cks_hex h)"
    using h pad_window by (simp_all add: xmeta_norm_def m_def e_def a_def x_def cinfo_header_ok_def)
  have fs: "fl AND 1 \<noteq> 0 \<longleftrightarrow> ci_flags h AND 4 \<noteq> 0" "fl AND 2 \<noteq> 0 \<longleftrightarrow> ci_flags h AND 16 \<noteq> 0" by (simp_all add: fl_def)
  have u: "ucast (ucast (ci_block_size h) :: u64) = ci_block_size h" by (simp add: unsigned_ucast_eq)
  have "brix_cache_cinfo_from_xmeta (xmeta_norm m) = cinfo_reloaded h (take (xmeta_bitmap_len ?n) b)"
    unfolding brix_cache_cinfo_from_xmeta_def cinfo_reloaded_def Let_def nf na ns c fs option.case refresh_flags_frame or_flags
    by (simp add: cinfo_zero_def u)
  then show ?thesis using that t fits f by simp
qed

text \<open>
  Storing a header with its bitmap succeeds, and a load returns that bitmap and that header: the strings
  cut at their length, the block count and the completeness and dirty flags recomputed, everything else unchanged.
\<close>
theorem cinfo_store_load:
  assumes "xenv_healthy env" "xmeta_key path" "cinfo_header_ok h"
    and "n = brix_cache_cinfo_nblocks (ci_size h) (ci_block_size h)" "brix_cache_cinfo_bitmap_len n \<le> length b"
  shows "\<exists>fs'. brix_cache_cinfo_store env now fs path h (Some b) = (NGX_OK, fs')
    \<and> brix_cache_cinfo_load env fs' path
        = Inr (cinfo_reloaded h (take (brix_cache_cinfo_bitmap_len n) b), if n = 0 then None else Some (take (brix_cache_cinfo_bitmap_len n) b))"
proof -
  have malloc: "malloc_ok (xe_malloc env)" using assms(1) by (simp add: xenv_healthy_def)
  let ?n = "xmeta_nblocks (ci_size h) (ucast (ci_block_size h))"
  have og: "origin_ok \<lparr>co_size = ci_size h, co_block = ci_block_size h, co_mtime = 0\<rparr>"
    using assms(3) by (simp add: origin_ok_def cinfo_header_ok_def)
  have n: "n = ?n" using cinfo_nblocks_eq [OF og] assms(4) by (simp add: origin_blocks_def)
  have len: "brix_cache_cinfo_bitmap_len k = xmeta_bitmap_len k" for k
    by (simp add: brix_cache_cinfo_bitmap_len_def xmeta_bitmap_len_def)
  obtain m where m: "brix_cache_cinfo_to_xmeta (xe_malloc env) now h (Some b) = Inr m" "xmeta_fits m"
    "xm_nblocks m = ?n" "xm_bitmap m = Some (take (xmeta_bitmap_len (xm_nblocks m)) b)"
    "brix_cache_cinfo_from_xmeta (xmeta_norm m) = cinfo_reloaded h (take (xmeta_bitmap_len (xm_nblocks m)) b)"
    by (rule header_record [OF assms(3) malloc, of b now]) (use assms(5) in \<open>simp add: len n\<close>)
  obtain fs' where s: "brix_xmeta_path_save env fs path m = (Inr (), fs')" "one_carrier fs' path (xmeta_image m)"
    by (rule path_save_ok [OF assms(1,2) m(2)])
  have "brix_cache_cinfo_store env now fs path h (Some b) = (NGX_OK, fs')"
    by (simp add: brix_cache_cinfo_store_def m(1) cinfo_xmeta_write_def s(1))
  moreover have "brix_cache_cinfo_load env fs' path = Inr (brix_cache_cinfo_from_xmeta (xmeta_norm m),
      if xm_nblocks (xmeta_norm m) = 0 then None else xm_bitmap (xmeta_norm m))"
    by (rule load_of_record [OF assms(1) one_carrier_load [OF assms(1,2) m(2) s(2)]])
      (use xmeta_norm_fits [OF m(2)] in \<open>simp add: xmeta_fits_def\<close>)
  moreover have "xm_nblocks (xmeta_norm m) = ?n" "xm_bitmap (xmeta_norm m) = Some (take (xmeta_bitmap_len ?n) b)"
    using m(3,4) by (simp_all add: xmeta_norm_def)
  ultimately show ?thesis using m(3,5) by (simp add: len n)
qed

definition cinfo_sample_header :: brix_cache_cinfo_t where
  "cinfo_sample_header = (cinfo_init 100 40 7)\<lparr>ci_flags := 4, ci_dirty_lo := 5, ci_dirty_hi := 9, ci_last_access := 3, ci_bytes_served := 12\<rparr>"

theorem cinfo_store_load_witness:
  "\<exists>fs'. brix_cache_cinfo_store xmeta_env 9 xfs_sample (chars ''/d/a'') cinfo_sample_header (Some [5]) = (NGX_OK, fs')
    \<and> brix_cache_cinfo_load xmeta_env fs' (chars ''/d/a'') = Inr (cinfo_reloaded cinfo_sample_header [5], Some [5])"
proof -
  have "cinfo_header_ok cinfo_sample_header"
    by (simp add: cinfo_header_ok_def cinfo_sample_header_def cinfo_init_def cinfo_zero_def xmeta_nblocks_def)
  moreover have "3 = brix_cache_cinfo_nblocks (ci_size cinfo_sample_header) (ci_block_size cinfo_sample_header)"
    by (simp add: brix_cache_cinfo_nblocks_def cinfo_sample_header_def cinfo_init_def)
  moreover have "brix_cache_cinfo_bitmap_len 3 = 1" by (simp add: brix_cache_cinfo_bitmap_len_def)
  ultimately show ?thesis
    using cinfo_store_load [OF xmeta_env_healthy sample_key, of cinfo_sample_header 3 "[5]" 9 xfs_sample] by simp
qed

end
