(* ===== verification/Cache_Meta.thy ===== *)
theory Cache_Meta
  imports Cache_Info
begin

text \<open>
  The older metadata structure of the cache (\<^verbatim>\<open>src/fs/cache/meta.c\<close>, \<^verbatim>\<open>meta.h\<close>) over the same record: validity against
  the origin, hit statistics, the legacy \<^verbatim>\<open>.meta\<close> file.
\<close>


section \<open>The older structure\<close>

record brix_cache_meta_t =
  mt_mtime :: u64
  mt_size :: u64
  mt_etag_len :: byte
  mt_etag :: bytes
  mt_version :: byte
  mt_access_count :: u64
  mt_last_access :: u64
  mt_bytes_served :: u64
  mt_cks_alg_len :: byte
  mt_cks_alg :: bytes
  mt_cks_len :: byte
  mt_cks_hex :: bytes

abbreviation (input) BRIX_CACHE_META_VERSION :: byte where "BRIX_CACHE_META_VERSION \<equiv> 1"
abbreviation (input) BRIX_CACHE_META_BASE_SIZE :: nat where "BRIX_CACHE_META_BASE_SIZE \<equiv> 72"

definition meta_zero :: brix_cache_meta_t where
  "meta_zero = \<lparr>mt_mtime = 0, mt_size = 0, mt_etag_len = 0, mt_etag = replicate 55 0, mt_version = 0, mt_access_count = 0,
     mt_last_access = 0, mt_bytes_served = 0, mt_cks_alg_len = 0, mt_cks_alg = replicate 16 0, mt_cks_len = 0,
     mt_cks_hex = replicate 129 0\<rparr>"

text \<open>Of a \<open>struct stat\<close> the code reads the modification time and the size; \<open>etag\<close> is a C string.\<close>

definition brix_cache_meta_from_stat :: "u64 \<Rightarrow> u64 \<Rightarrow> bytes option \<Rightarrow> brix_cache_meta_t" where
  "brix_cache_meta_from_stat st_mtime st_size etag =
     (let meta = meta_zero\<lparr>mt_mtime := st_mtime, mt_size := st_size\<rparr>
      in case etag of
           Some e \<Rightarrow>
             if e \<noteq> []
             then let etag_len = (if length e > BRIX_CACHE_META_ETAG_MAX then BRIX_CACHE_META_ETAG_MAX else length e)
                  in meta\<lparr>mt_etag := memcpy_at 0 (take etag_len e) (mt_etag meta), mt_etag_len := of_nat etag_len\<rparr>
             else meta
         | None \<Rightarrow> meta)"

definition brix_cache_meta_path :: "nat \<Rightarrow> bytes \<Rightarrow> bytes option" where
  "brix_cache_meta_path dstsz cache_path =
     (let n = length cache_path + 5 in if n \<ge> dstsz then None else Some (cache_path @ chars ''.meta''))"

text \<open>The legacy file: the first 72 octets of the structure, in the order of its fields; the first \<open>read\<close> gets all of them or fewer.\<close>

definition cache_meta_read_legacy :: "xenv_t \<Rightarrow> xfs_t \<Rightarrow> bytes \<Rightarrow> brix_cache_meta_t option" where
  "cache_meta_read_legacy env fs cache_path =
     (case brix_cache_meta_path PATH_MAX cache_path of
        None \<Rightarrow> None
      | Some path \<Rightarrow>
      case (if xe_open_read env \<noteq> None then None else fs_files fs path) of
        None \<Rightarrow> None
      | Some content \<Rightarrow>
          let n = (case xe_pread env of
                     [] \<Rightarrow> min BRIX_CACHE_META_BASE_SIZE (length content)
                   | IO_bytes k # _ \<Rightarrow> min k (min BRIX_CACHE_META_BASE_SIZE (length content))
                   | _ \<Rightarrow> 0);
              meta = meta_zero\<lparr>mt_mtime := le_word (slice 0 8 content), mt_size := le_word (slice 8 8 content),
                       mt_etag_len := content ! 16, mt_etag := slice 17 55 content\<rparr>
          in if n \<noteq> BRIX_CACHE_META_BASE_SIZE then None
             else if unat (mt_etag_len meta) > BRIX_CACHE_META_ETAG_MAX then None
             else Some (meta\<lparr>mt_version := 0\<rparr>))"

text \<open>
  The octets at \<open>meta->etag\<close>: the array and, since a length up to 128 is copied from it, the members behind it
  (one octet of version, seven of padding, zeroed with the structure, three counters, the digest).
\<close>

definition meta_etag_window :: "brix_cache_meta_t \<Rightarrow> bytes" where
  "meta_etag_window meta = mt_etag meta @ [mt_version meta] @ replicate 7 0 @ le_bytes 8 (mt_access_count meta)
     @ le_bytes 8 (mt_last_access meta) @ le_bytes 8 (mt_bytes_served meta) @ [mt_cks_alg_len meta] @ mt_cks_alg meta
     @ [mt_cks_len meta] @ mt_cks_hex meta"

definition meta_onto_record :: "brix_cache_meta_t \<Rightarrow> brix_xmeta_t \<Rightarrow> brix_xmeta_t" where
  "meta_onto_record meta xm =
     (let x1 = xm\<lparr>xm_origin_mtime := mt_mtime meta, xm_access_cnt := mt_access_count meta\<rparr>;
          x2 = (if mt_last_access meta \<noteq> 0 \<or> mt_bytes_served meta \<noteq> 0
                then x1\<lparr>xm_astat_count := (if xm_astat_count x1 = 0 then 1 else xm_astat_count x1),
                        xm_astat := (xm_astat x1)\<lparr>as_attach_time := mt_last_access meta,
                          as_detach_time := mt_last_access meta, as_bytes_hit := mt_bytes_served meta\<rparr>\<rparr>
                else x1);
          el = cinfo_clamp 128 (mt_etag_len meta); al = cinfo_clamp 16 (mt_cks_alg_len meta);
          cl = cinfo_clamp 129 (mt_cks_len meta)
      in x2\<lparr>xm_etag_len := el, xm_etag := memcpy_at 0 (take (unat el) (meta_etag_window meta)) (xm_etag x2),
            xm_cks_alg_len := al, xm_cks_alg := memcpy_at 0 (take (unat al) (mt_cks_alg meta)) (xm_cks_alg x2),
            xm_cks_len := cl, xm_cks_hex := memcpy_at 0 (take (unat cl) (mt_cks_hex meta)) (xm_cks_hex x2)\<rparr>)"

definition brix_cache_meta_read :: "xenv_t \<Rightarrow> xfs_t \<Rightarrow> bytes \<Rightarrow> ngx_rc + brix_cache_meta_t" where
  "brix_cache_meta_read env fs cache_path =
     (case brix_xmeta_path_load env fs cache_path of
        Inl XMETA_FOREIGN \<Rightarrow>
          (case cache_meta_read_legacy env fs cache_path of None \<Rightarrow> Inl NGX_DECLINED | Some meta \<Rightarrow> Inr meta)
      | Inl (XMETA_ERR _) \<Rightarrow> Inl NGX_ERROR
      | Inr xm \<Rightarrow>
          let el = cinfo_clamp 55 (xm_etag_len xm); al = cinfo_clamp 16 (xm_cks_alg_len xm);
              cl = (if unat (xm_cks_len xm) < 129 then xm_cks_len xm else 0)
          in Inr (meta_zero\<lparr>mt_mtime := xm_origin_mtime xm, mt_size := xm_file_size xm, mt_version := BRIX_CACHE_META_VERSION,
                    mt_access_count := xm_access_cnt xm, mt_last_access := as_detach_time (xm_astat xm),
                    mt_bytes_served := as_bytes_hit (xm_astat xm),
                    mt_etag_len := el, mt_etag := memcpy_at 0 (take (unat el) (xm_etag xm)) (replicate 55 0),
                    mt_cks_alg_len := al, mt_cks_alg := memcpy_at 0 (take (unat al) (xm_cks_alg xm)) (replicate 16 0),
                    mt_cks_len := cl,
                    mt_cks_hex := (memcpy_at 0 (take (unat cl) (xm_cks_hex xm)) (replicate 129 0))[unat cl := 0]\<rparr>))"

text \<open>The access count is a 64-bit counter in the record; a first hit dates the statistics.\<close>

definition brix_cache_meta_touch :: "xenv_t \<Rightarrow> u64 \<Rightarrow> xfs_t \<Rightarrow> bytes \<Rightarrow> u64 \<Rightarrow> ngx_rc \<times> xfs_t" where
  "brix_cache_meta_touch env now fs cache_path nbytes =
     (case brix_xmeta_path_lock env fs cache_path of
        (None, fs1) \<Rightarrow> (NGX_ERROR, fs1)
      | (Some _, fs1) \<Rightarrow>
      case brix_xmeta_path_load env fs1 cache_path of
        Inl XMETA_FOREIGN \<Rightarrow> (NGX_DECLINED, fs1)
      | Inl (XMETA_ERR _) \<Rightarrow> (NGX_ERROR, fs1)
      | Inr xm \<Rightarrow>
          let x1 = xm\<lparr>xm_access_cnt := xm_access_cnt xm + 1\<rparr>;
              x2 = (if xm_astat_count x1 = 0
                    then x1\<lparr>xm_astat_count := 1, xm_astat := (xm_astat x1)\<lparr>as_attach_time := now\<rparr>\<rparr> else x1);
              x3 = x2\<lparr>xm_astat := (xm_astat x2)\<lparr>as_detach_time := now, as_bytes_hit := as_bytes_hit (xm_astat x2) + nbytes\<rparr>\<rparr>
          in case brix_xmeta_path_save env fs1 cache_path x3 of
               (Inr _, fs2) \<Rightarrow> (NGX_OK, fs2) | (Inl _, fs2) \<Rightarrow> (NGX_ERROR, fs2))"

definition brix_cache_meta_write :: "xenv_t \<Rightarrow> u64 \<Rightarrow> xfs_t \<Rightarrow> bytes \<Rightarrow> brix_cache_meta_t \<Rightarrow> ngx_rc \<times> xfs_t" where
  "brix_cache_meta_write env now fs cache_path meta =
     (case brix_xmeta_path_lock env fs cache_path of
        (None, fs1) \<Rightarrow> (NGX_ERROR, fs1)
      | (Some _, fs1) \<Rightarrow>
      let rec = (case brix_xmeta_path_load env fs1 cache_path of
                   Inl (XMETA_ERR _) \<Rightarrow> None
                 | Inl XMETA_FOREIGN \<Rightarrow>
                     (case brix_xmeta_init (xe_malloc env) now (mt_size meta) (ucast BRIX_CACHE_DIRTY_BLOCK) of
                        Inl _ \<Rightarrow> None
                      | Inr m \<Rightarrow>
                          let m1 = (if xm_nblocks m > 0
                                    then m\<lparr>xm_bitmap := Some (replicate (unat ((xm_nblocks m + 7) div 8)) 0xFF)\<rparr> else m)
                          in Some (m1\<lparr>xm_have_blockcrc := False\<rparr>))
                 | Inr xm \<Rightarrow> Some xm)
      in case rec of
           None \<Rightarrow> (NGX_ERROR, fs1)
         | Some xm \<Rightarrow>
             case brix_xmeta_path_save env fs1 cache_path (meta_onto_record meta xm) of
               (Inr _, fs2) \<Rightarrow> (NGX_OK, fs2) | (Inl _, fs2) \<Rightarrow> (NGX_ERROR, fs2))"

text \<open>The block header of a file described by the older structure: complete, with the same validity strings.\<close>

definition brix_cache_cinfo_from_meta :: "brix_cache_meta_t \<Rightarrow> u32 \<Rightarrow> ngx_rc + brix_cache_cinfo_t" where
  "brix_cache_cinfo_from_meta m block_size =
     (if block_size = 0 then Inl NGX_ERROR
      else Inr (cinfo_zero\<lparr>ci_magic := BRIX_CACHE_CINFO_MAGIC, ci_version := BRIX_CACHE_CINFO_VERSION,
             ci_flags := BRIX_CINFO_F_COMPLETE, ci_block_size := block_size, ci_size := mt_size m, ci_mtime := mt_mtime m,
             ci_nblocks := brix_cache_cinfo_nblocks (mt_size m) block_size, ci_access_count := mt_access_count m,
             ci_bytes_served := mt_bytes_served m, ci_last_access := mt_last_access m,
             ci_etag_len := mt_etag_len m, ci_etag := mt_etag m, ci_cks_alg_len := mt_cks_alg_len m,
             ci_cks_alg := mt_cks_alg m, ci_cks_len := mt_cks_len m, ci_cks_hex := mt_cks_hex m\<rparr>))"


text \<open>A cached file is fresh when its recorded size and modification time are those of the file (\<^verbatim>\<open>open.c\<close>).\<close>

definition brix_cache_validate_meta :: "xenv_t \<Rightarrow> xfs_t \<Rightarrow> bytes \<Rightarrow> u64 \<Rightarrow> u64 \<Rightarrow> ngx_rc" where
  "brix_cache_validate_meta env fs cache_path st_size st_mtime =
     (case brix_cache_meta_read env fs cache_path of
        Inl _ \<Rightarrow> NGX_DECLINED
      | Inr meta \<Rightarrow> if mt_size meta \<noteq> st_size \<or> mt_mtime meta \<noteq> st_mtime then NGX_DECLINED else NGX_OK)"

section \<open>Writing the older structure onto a record\<close>

definition meta_ok :: "brix_cache_meta_t \<Rightarrow> bool" where
  "meta_ok t \<longleftrightarrow> length (mt_etag t) = 55 \<and> unat (mt_etag_len t) \<le> 55
     \<and> length (mt_cks_alg t) = 16 \<and> unat (mt_cks_alg_len t) \<le> 16
     \<and> length (mt_cks_hex t) = 129 \<and> unat (mt_cks_len t) < 129"

text \<open>Room in the carrier for the strings of the structure and one statistics block.\<close>

definition meta_room :: "brix_xmeta_t \<Rightarrow> bool" where
  "meta_room m \<longleftrightarrow> xmeta_fits m \<and> length (xmeta_image m) + 345 \<le> BRIX_XMETA_MAX_SECTION"

lemma onto_record_form:
  assumes "meta_ok t"
  obtains e a x where "meta_onto_record t m = m\<lparr>xm_origin_mtime := mt_mtime t, xm_access_cnt := mt_access_count t,
      xm_astat_count := (if (mt_last_access t \<noteq> 0 \<or> mt_bytes_served t \<noteq> 0) \<and> xm_astat_count m = 0 then 1 else xm_astat_count m),
      xm_astat := (if mt_last_access t \<noteq> 0 \<or> mt_bytes_served t \<noteq> 0
                   then (xm_astat m)\<lparr>as_attach_time := mt_last_access t, as_detach_time := mt_last_access t, as_bytes_hit := mt_bytes_served t\<rparr>
                   else xm_astat m),
      xm_etag_len := mt_etag_len t, xm_etag := e, xm_cks_alg_len := mt_cks_alg_len t, xm_cks_alg := a,
      xm_cks_len := mt_cks_len t, xm_cks_hex := x\<rparr>"
    "e = memcpy_at 0 (take (unat (mt_etag_len t)) (mt_etag t)) (xm_etag m)"
    "a = memcpy_at 0 (take (unat (mt_cks_alg_len t)) (mt_cks_alg t)) (xm_cks_alg m)"
    "x = memcpy_at 0 (take (unat (mt_cks_len t)) (mt_cks_hex t)) (xm_cks_hex m)"
proof -
  have c: "cinfo_clamp 128 (mt_etag_len t) = mt_etag_len t" "cinfo_clamp 16 (mt_cks_alg_len t) = mt_cks_alg_len t"
    "cinfo_clamp 129 (mt_cks_len t) = mt_cks_len t"
    using assms by (simp_all add: meta_ok_def cinfo_clamp_def)
  have w: "take (unat (mt_etag_len t)) (meta_etag_window t) = take (unat (mt_etag_len t)) (mt_etag t)"
    using assms by (simp add: meta_ok_def meta_etag_window_def)
  show ?thesis
  proof (cases "mt_last_access t \<noteq> 0 \<or> mt_bytes_served t \<noteq> 0")
    case True
    show ?thesis
      by (rule that [OF _ refl refl refl]) (simp only: meta_onto_record_def Let_def c w if_P [OF True] True simp_thms, simp)
  next
    case False
    show ?thesis
      by (rule that [OF _ refl refl refl]) (simp only: meta_onto_record_def Let_def c w if_not_P [OF False] False simp_thms if_False, simp)
  qed
qed

lemma length_memcpy_fit: "k + length src \<le> length dst \<Longrightarrow> length (memcpy_at k src dst) = length dst"
  by (simp add: memcpy_at_def)

lemma onto_fits:
  assumes t: "meta_ok t" and m: "meta_room m"
  shows "xmeta_fits (meta_onto_record t m)"
proof -
  obtain e a x where f: "meta_onto_record t m = m\<lparr>xm_origin_mtime := mt_mtime t, xm_access_cnt := mt_access_count t,
      xm_astat_count := (if (mt_last_access t \<noteq> 0 \<or> mt_bytes_served t \<noteq> 0) \<and> xm_astat_count m = 0 then 1 else xm_astat_count m),
      xm_astat := (if mt_last_access t \<noteq> 0 \<or> mt_bytes_served t \<noteq> 0
                   then (xm_astat m)\<lparr>as_attach_time := mt_last_access t, as_detach_time := mt_last_access t, as_bytes_hit := mt_bytes_served t\<rparr>
                   else xm_astat m),
      xm_etag_len := mt_etag_len t, xm_etag := e, xm_cks_alg_len := mt_cks_alg_len t, xm_cks_alg := a,
      xm_cks_len := mt_cks_len t, xm_cks_hex := x\<rparr>"
    and p: "e = memcpy_at 0 (take (unat (mt_etag_len t)) (mt_etag t)) (xm_etag m)"
      "a = memcpy_at 0 (take (unat (mt_cks_alg_len t)) (mt_cks_alg t)) (xm_cks_alg m)"
      "x = memcpy_at 0 (take (unat (mt_cks_len t)) (mt_cks_hex t)) (xm_cks_hex m)"
    by (rule onto_record_form [OF t])
  have wf: "xmeta_wf m" "unat (xm_digests_len m) \<le> BRIX_XMETA_MAX_SECTION" using m by (simp_all add: meta_room_def xmeta_fits_def)
  have l: "length e = 128" "length a = 16" "length x = 129"
    using wf(1) t by (simp_all add: p length_memcpy_fit xmeta_wf_def meta_ok_def)
  define c where "c = (if (mt_last_access t \<noteq> 0 \<or> mt_bytes_served t \<noteq> 0) \<and> xm_astat_count m = 0 then 1 else xm_astat_count m)"
  have c: "0 \<le> sint c" using wf(1) by (simp add: c_def xmeta_wf_def)
  have wf': "xmeta_wf (meta_onto_record t m)"
    using wf(1) l t c unfolding f c_def [symmetric] by (simp add: xmeta_wf_def meta_ok_def cong: option.case_cong)
  have "xp_cap (xmeta_encode_plan (meta_onto_record t m)) \<le> xp_cap (xmeta_encode_plan m) + 345"
    using t unfolding f c_def [symmetric] xmeta_encode_plan_def Let_def by (simp add: meta_ok_def)
  then show ?thesis
    using wf' wf(2) m encode_cap(1) [OF wf(1)] encode_cap(1) [OF wf'] by (simp add: xmeta_fits_def meta_room_def f)
qed

lemma pad_memcpy: "unat l \<le> k \<Longrightarrow> length xs = k \<Longrightarrow> k \<le> n \<Longrightarrow> length ys = n \<Longrightarrow>
   memcpy_at 0 (take (unat l) (xmeta_pad n l (memcpy_at 0 (take (unat l) xs) ys))) (replicate k 0) = xmeta_pad k l xs"
  by (simp add: xmeta_pad_def memcpy_at_def min_def)

definition meta_reread :: "brix_cache_meta_t \<Rightarrow> brix_xmeta_t \<Rightarrow> brix_cache_meta_t" where
  "meta_reread t m =
     (let hit = (mt_last_access t \<noteq> 0 \<or> mt_bytes_served t \<noteq> 0)
      in t\<lparr>mt_mtime := (if xm_have_state m then mt_mtime t else 0), mt_size := xm_file_size m, mt_version := BRIX_CACHE_META_VERSION,
           mt_last_access := (if hit then mt_last_access t else as_detach_time (xm_astat (xmeta_norm m))),
           mt_bytes_served := (if hit then mt_bytes_served t else as_bytes_hit (xm_astat (xmeta_norm m))),
           mt_etag := xmeta_pad 55 (mt_etag_len t) (mt_etag t), mt_cks_alg := xmeta_pad 16 (mt_cks_alg_len t) (mt_cks_alg t),
           mt_cks_hex := xmeta_pad 129 (mt_cks_len t) (mt_cks_hex t)\<rparr>)"


lemma read_of_onto:
  assumes t: "meta_ok t" and m: "xmeta_wf m" and load: "brix_xmeta_path_load env fs path = Inr (xmeta_norm (meta_onto_record t m))"
  shows "brix_cache_meta_read env fs path = Inr (meta_reread t m)"
proof -
  obtain e a x where f: "meta_onto_record t m = m\<lparr>xm_origin_mtime := mt_mtime t, xm_access_cnt := mt_access_count t,
      xm_astat_count := (if (mt_last_access t \<noteq> 0 \<or> mt_bytes_served t \<noteq> 0) \<and> xm_astat_count m = 0 then 1 else xm_astat_count m),
      xm_astat := (if mt_last_access t \<noteq> 0 \<or> mt_bytes_served t \<noteq> 0
                   then (xm_astat m)\<lparr>as_attach_time := mt_last_access t, as_detach_time := mt_last_access t, as_bytes_hit := mt_bytes_served t\<rparr>
                   else xm_astat m),
      xm_etag_len := mt_etag_len t, xm_etag := e, xm_cks_alg_len := mt_cks_alg_len t, xm_cks_alg := a,
      xm_cks_len := mt_cks_len t, xm_cks_hex := x\<rparr>"
    and p: "e = memcpy_at 0 (take (unat (mt_etag_len t)) (mt_etag t)) (xm_etag m)"
      "a = memcpy_at 0 (take (unat (mt_cks_alg_len t)) (mt_cks_alg t)) (xm_cks_alg m)"
      "x = memcpy_at 0 (take (unat (mt_cks_len t)) (mt_cks_hex t)) (xm_cks_hex m)"
    by (rule onto_record_form [OF t])
  let ?n = "xmeta_norm (meta_onto_record t m)" and ?hit = "mt_last_access t \<noteq> 0 \<or> mt_bytes_served t \<noteq> 0"
  have nf: "xm_origin_mtime ?n = (if xm_have_state m then mt_mtime t else 0)" "xm_file_size ?n = xm_file_size m"
    "xm_access_cnt ?n = mt_access_count t" "xm_etag_len ?n = mt_etag_len t" "xm_cks_alg_len ?n = mt_cks_alg_len t"
    "xm_cks_len ?n = mt_cks_len t" "xm_etag ?n = xmeta_pad 128 (mt_etag_len t) e" "xm_cks_alg ?n = xmeta_pad 16 (mt_cks_alg_len t) a"
    "xm_cks_hex ?n = xmeta_pad 129 (mt_cks_len t) x"
    by (simp_all add: f xmeta_norm_def)
  have pos: "xm_astat_count m \<noteq> 0 \<Longrightarrow> 0 < sint (xm_astat_count m)"
    using m signed_eq_0_iff [of "xm_astat_count m"] by (auto simp: xmeta_wf_def order_less_le)
  have na: "as_detach_time (xm_astat ?n) = (if ?hit then mt_last_access t else as_detach_time (xm_astat (xmeta_norm m)))"
    "as_bytes_hit (xm_astat ?n) = (if ?hit then mt_bytes_served t else as_bytes_hit (xm_astat (xmeta_norm m)))"
    using pos by (auto simp: f xmeta_norm_def)
  have l: "length (xm_etag m) = 128" "length (xm_cks_alg m) = 16" "length (xm_cks_hex m) = 129" using m by (simp_all add: xmeta_wf_def)
  have c: "cinfo_clamp 55 (mt_etag_len t) = mt_etag_len t" "cinfo_clamp 16 (mt_cks_alg_len t) = mt_cks_alg_len t"
    "unat (mt_cks_len t) < 129" using t by (simp_all add: meta_ok_def cinfo_clamp_def)
  have s: "memcpy_at 0 (take (unat (mt_etag_len t)) (xmeta_pad 128 (mt_etag_len t) e)) (replicate 55 0) = xmeta_pad 55 (mt_etag_len t) (mt_etag t)"
    "memcpy_at 0 (take (unat (mt_cks_alg_len t)) (xmeta_pad 16 (mt_cks_alg_len t) a)) (replicate 16 0) = xmeta_pad 16 (mt_cks_alg_len t) (mt_cks_alg t)"
    "memcpy_at 0 (take (unat (mt_cks_len t)) (xmeta_pad 129 (mt_cks_len t) x)) (replicate 129 0) = xmeta_pad 129 (mt_cks_len t) (mt_cks_hex t)"
    unfolding p by (rule pad_memcpy; use t l in \<open>simp add: meta_ok_def\<close>)+
  have z: "(xmeta_pad 129 (mt_cks_len t) (mt_cks_hex t))[unat (mt_cks_len t) := 0] = xmeta_pad 129 (mt_cks_len t) (mt_cks_hex t)"
  proof -
    have "xmeta_pad 129 (mt_cks_len t) (mt_cks_hex t) ! unat (mt_cks_len t) = 0"
      using t by (simp add: xmeta_pad_def meta_ok_def nth_append min_def)
    then show ?thesis by (metis list_update_id)
  qed
  show ?thesis
    unfolding brix_cache_meta_read_def load sum.case Let_def nf na c s if_P [OF c(3)] z meta_reread_def
    by (simp add: meta_zero_def)
qed

lemma meta_write_saves:
  assumes env: "xenv_healthy env" and key: "xmeta_key path" and t: "meta_ok t" and m: "meta_room m"
    and rec: "brix_xmeta_path_load env fs path = Inr m
      \<or> brix_xmeta_path_load env fs path = Inl XMETA_FOREIGN
        \<and> (\<exists>m0. brix_xmeta_init (xe_malloc env) now (mt_size t) (ucast BRIX_CACHE_DIRTY_BLOCK) = Inr m0
             \<and> m = (if xm_nblocks m0 > 0 then m0\<lparr>xm_bitmap := Some (replicate (unat ((xm_nblocks m0 + 7) div 8)) 0xFF)\<rparr> else m0)\<lparr>xm_have_blockcrc := False\<rparr>)"
  obtains fs' where "brix_cache_meta_write env now fs path t = (NGX_OK, fs')"
    "brix_xmeta_path_load env fs' path = Inr (xmeta_norm (meta_onto_record t m))"
proof -
  obtain fd fs1 where l: "brix_xmeta_path_lock env fs path = (Some fd, fs1)" by (rule path_lock_ok [OF env key])
  have ld: "brix_xmeta_path_load env fs1 path = brix_xmeta_path_load env fs path"
    using path_lock_load [OF env key key, of fs] l by simp
  note fits = onto_fits [OF t m]
  obtain fs2 where s: "brix_xmeta_path_save env fs1 path (meta_onto_record t m) = (Inr (), fs2)"
      "one_carrier fs2 path (xmeta_image (meta_onto_record t m))"
    by (rule path_save_ok [OF env key fits])
  have "brix_cache_meta_write env now fs path t = (NGX_OK, fs2)"
    using rec l ld s(1) by (auto simp: brix_cache_meta_write_def)
  then show ?thesis using that one_carrier_load [OF env key fits s(2)] by blast
qed


text \<open>A record for a file that has none: every block present, no block sums.\<close>

lemma fresh_meta_record:
  assumes malloc: "malloc_ok malloc" and sz: "0 \<le> sint sz" "xmeta_nblocks sz 1048576 \<le> BRIX_XMETA_MAX_BLOCKS"
  obtains m0 m where "brix_xmeta_init malloc now sz (ucast BRIX_CACHE_DIRTY_BLOCK) = Inr m0"
    "m = (if xm_nblocks m0 > 0 then m0\<lparr>xm_bitmap := Some (replicate (unat ((xm_nblocks m0 + 7) div 8)) 0xFF)\<rparr> else m0)\<lparr>xm_have_blockcrc := False\<rparr>"
    "meta_room m" "xm_have_state m" "xm_file_size m = sz" "xm_astat m = xmeta_astat_zero" "xm_astat_count m = 0"
    "\<And>i. i < xm_nblocks m \<Longrightarrow> brix_xmeta_block_test m i" "xm_nblocks m = xmeta_nblocks sz 1048576" "xm_buffer_size m = 1048576"
proof -
  have ok: "malloc k \<noteq> None" for k using malloc by (metis malloc_ok_def option.discI)
  obtain m0 where i: "brix_xmeta_init malloc now sz (ucast BRIX_CACHE_DIRTY_BLOCK) = Inr m0"
    using sz ok by (simp add: brix_xmeta_init_def Let_def not_less)
  let ?b = "replicate (xmeta_bitmap_len (xmeta_nblocks sz 1048576)) (0xFF :: byte)"
  define m where "m = (if xm_nblocks m0 > 0 then m0\<lparr>xm_bitmap := Some (replicate (unat ((xm_nblocks m0 + 7) div 8)) 0xFF)\<rparr> else m0)\<lparr>xm_have_blockcrc := False\<rparr>"
  note z = init_cases(4) [OF i, simplified]
  have n: "xm_nblocks m0 = xmeta_nblocks sz 1048576" by (simp add: z)
  have e: "m = m0\<lparr>xm_bitmap := Some ?b, xm_have_blockcrc := False\<rparr>"
  proof (cases "xmeta_nblocks sz 1048576 = 0")
    case True
    then show ?thesis using n by (simp add: m_def) (simp add: z xmeta_bitmap_len_def)
  next
    case False
    then show ?thesis using n by (simp add: m_def word_gt_0 xmeta_bitmap_len_def)
  qed
  have wf: "xmeta_wf m" using init_wf(1) [OF i] unfolding e by (simp add: xmeta_wf_def n z xmeta_zero_def)
  have small: "length (xmeta_image m) \<le> 9000000" "xm_digests_len m = 0"
    by (rule wf_small [OF wf]; simp add: e z xmeta_zero_def)+
  then have "meta_room m" using wf by (simp add: meta_room_def xmeta_fits_def)
  moreover have "brix_xmeta_block_test m i" if "i < xm_nblocks m" for i
  proof -
    have "unat (xm_nblocks m) \<le> 67108864" by (rule xmeta_wf_blocks(2) [OF wf])
    then have "unat i div 8 < xmeta_bitmap_len (xm_nblocks m)" using that bitmap_len_index by simp
    moreover have "bit (0xFF :: byte) k" if "k < 8" for k
    proof -
      have "k \<in> {0, 1, 2, 3, 4, 5, 6, 7}" using that by auto
      then show ?thesis by auto
    qed
    ultimately have "bm_bit ?b i" by (simp add: bm_bit_def e n)
    then show ?thesis using that by (simp add: block_test_bit e)
  qed
  ultimately show ?thesis using that [OF i m_def] by (simp add: e z xmeta_zero_def)
qed

section \<open>Properties\<close>

text \<open>
  C28. Validity of a new cache file.  Writing the metadata of a file that has no record succeeds; a read returns it, with
  its strings cut at their length; the file then validates against its own size and modification time and no other; and
  the block header of the same record says that every block is present.
\<close>
theorem cache_meta_write_read:
  assumes "xenv_healthy env" "xmeta_key path" "meta_ok t" "0 \<le> sint (mt_size t)"
    and "xmeta_nblocks (mt_size t) 1048576 \<le> BRIX_XMETA_MAX_BLOCKS" "brix_xmeta_path_load env fs path = Inl XMETA_FOREIGN"
  shows "\<exists>fs' h bm. brix_cache_meta_write env now fs path t = (NGX_OK, fs')
    \<and> brix_cache_meta_read env fs' path
        = Inr (t\<lparr>mt_version := BRIX_CACHE_META_VERSION, mt_etag := xmeta_pad 55 (mt_etag_len t) (mt_etag t),
                 mt_cks_alg := xmeta_pad 16 (mt_cks_alg_len t) (mt_cks_alg t), mt_cks_hex := xmeta_pad 129 (mt_cks_len t) (mt_cks_hex t)\<rparr>)
    \<and> (\<forall>sz mtime. brix_cache_validate_meta env fs' path sz mtime = NGX_OK \<longleftrightarrow> sz = mt_size t \<and> mtime = mt_mtime t)
    \<and> brix_cache_cinfo_load env fs' path = Inr (h, bm) \<and> ci_flags h AND BRIX_CINFO_F_COMPLETE \<noteq> 0"
proof -
  have malloc: "malloc_ok (xe_malloc env)" using assms(1) by (simp add: xenv_healthy_def)
  obtain m0 m where m: "brix_xmeta_init (xe_malloc env) now (mt_size t) (ucast BRIX_CACHE_DIRTY_BLOCK) = Inr m0"
    "m = (if xm_nblocks m0 > 0 then m0\<lparr>xm_bitmap := Some (replicate (unat ((xm_nblocks m0 + 7) div 8)) 0xFF)\<rparr> else m0)\<lparr>xm_have_blockcrc := False\<rparr>"
    "meta_room m" "xm_have_state m" "xm_file_size m = mt_size t" "xm_astat m = xmeta_astat_zero" "xm_astat_count m = 0"
    "\<And>i. i < xm_nblocks m \<Longrightarrow> brix_xmeta_block_test m i"
    by (rule fresh_meta_record [OF malloc assms(4,5), of now]) (rule that)
  have rec: "brix_xmeta_path_load env fs path = Inr m
      \<or> brix_xmeta_path_load env fs path = Inl XMETA_FOREIGN
        \<and> (\<exists>m0. brix_xmeta_init (xe_malloc env) now (mt_size t) (ucast BRIX_CACHE_DIRTY_BLOCK) = Inr m0
             \<and> m = (if xm_nblocks m0 > 0 then m0\<lparr>xm_bitmap := Some (replicate (unat ((xm_nblocks m0 + 7) div 8)) 0xFF)\<rparr> else m0)\<lparr>xm_have_blockcrc := False\<rparr>)"
    using m(1,2) assms(6) by blast
  obtain fs' where w: "brix_cache_meta_write env now fs path t = (NGX_OK, fs')"
    "brix_xmeta_path_load env fs' path = Inr (xmeta_norm (meta_onto_record t m))"
    by (rule meta_write_saves [OF assms(1,2,3) m(3) rec])
  have wf: "xmeta_wf m" using m(3) by (simp add: meta_room_def xmeta_fits_def)
  have r: "brix_cache_meta_read env fs' path = Inr (meta_reread t m)" by (rule read_of_onto [OF assms(3) wf w(2)])
  have e: "meta_reread t m = t\<lparr>mt_version := BRIX_CACHE_META_VERSION, mt_etag := xmeta_pad 55 (mt_etag_len t) (mt_etag t),
      mt_cks_alg := xmeta_pad 16 (mt_cks_alg_len t) (mt_cks_alg t), mt_cks_hex := xmeta_pad 129 (mt_cks_len t) (mt_cks_hex t)\<rparr>"
    using m(4-7) by (cases t) (auto simp: meta_reread_def Let_def xmeta_norm_def xmeta_astat_zero_def)
  let ?n = "xmeta_norm (meta_onto_record t m)"
  have wfn: "xmeta_wf ?n" using xmeta_norm_fits [OF onto_fits [OF assms(3) m(3)]] by (simp add: xmeta_fits_def)
  obtain e' a x where f: "meta_onto_record t m = m\<lparr>xm_origin_mtime := mt_mtime t, xm_access_cnt := mt_access_count t,
      xm_astat_count := (if (mt_last_access t \<noteq> 0 \<or> mt_bytes_served t \<noteq> 0) \<and> xm_astat_count m = 0 then 1 else xm_astat_count m),
      xm_astat := (if mt_last_access t \<noteq> 0 \<or> mt_bytes_served t \<noteq> 0
                   then (xm_astat m)\<lparr>as_attach_time := mt_last_access t, as_detach_time := mt_last_access t, as_bytes_hit := mt_bytes_served t\<rparr>
                   else xm_astat m),
      xm_etag_len := mt_etag_len t, xm_etag := e', xm_cks_alg_len := mt_cks_alg_len t, xm_cks_alg := a,
      xm_cks_len := mt_cks_len t, xm_cks_hex := x\<rparr>" by (rule onto_record_form [OF assms(3)])
  obtain b where b: "xm_bitmap ?n = Some b" using wfn by (auto simp: xmeta_wf_def)
  have "xm_bitmap ?n = xm_bitmap m" "xm_nblocks ?n = xm_nblocks m" by (simp_all add: f xmeta_norm_def)
  then have "\<forall>j < xm_nblocks ?n. bm_bit b j" using m(8) b by (auto simp: block_test_bit split: option.splits)
  then have "ci_flags (brix_cache_cinfo_from_xmeta ?n) AND BRIX_CINFO_F_COMPLETE \<noteq> 0" using from_xmeta_flags(1) [OF b] by simp
  then show ?thesis using w(1) r e load_of_record [OF assms(1) w(2) wfn]
    by (auto simp: brix_cache_validate_meta_def)
qed

definition meta_sample :: brix_cache_meta_t where
  "meta_sample = (brix_cache_meta_from_stat 7 3000000 (Some (chars ''abc'')))\<lparr>mt_access_count := 4\<rparr>"

lemma meta_sample_ok: "meta_ok meta_sample" "mt_size meta_sample = 3000000" "mt_mtime meta_sample = 7"
  by (simp_all add: meta_ok_def meta_sample_def brix_cache_meta_from_stat_def meta_zero_def chars_def Let_def memcpy_at_def)

theorem cache_meta_write_read_witness:
  "\<exists>fs'. brix_cache_meta_write xmeta_env 9 xfs_sample (chars ''/d/a'') meta_sample = (NGX_OK, fs')
     \<and> brix_cache_validate_meta xmeta_env fs' (chars ''/d/a'') 3000000 7 = NGX_OK
     \<and> brix_cache_validate_meta xmeta_env fs' (chars ''/d/a'') 3000001 7 = NGX_DECLINED"
proof -
  have s: "0 \<le> sint (mt_size meta_sample)" "xmeta_nblocks (mt_size meta_sample) 1048576 \<le> BRIX_XMETA_MAX_BLOCKS"
    by (simp_all add: meta_sample_ok xmeta_nblocks_def)
  have "brix_cache_validate_meta env fs p sz mt \<noteq> NGX_OK \<Longrightarrow> brix_cache_validate_meta env fs p sz mt = NGX_DECLINED" for env fs p sz mt
    by (auto simp: brix_cache_validate_meta_def split: sum.splits)
  then show ?thesis
    using cache_meta_write_read [OF xmeta_env_healthy sample_key meta_sample_ok(1) s sample_no_record, of 9]
    by (auto simp: meta_sample_ok)
qed

text \<open>
  C21. A record keeps its size.  Writing the metadata of a file over a record of another size, or over a record that has no
  state section, reports success, but the new size, or the modification time, is not recorded: the file does
  not validate against the size and time just written.
\<close>
theorem cache_meta_write_stale:
  assumes "xenv_healthy env" "xmeta_key path" "meta_ok t" "brix_xmeta_path_load env fs path = Inr m" "meta_room m"
    and "xm_file_size m \<noteq> mt_size t \<or> \<not> xm_have_state m \<and> mt_mtime t \<noteq> 0"
  shows "\<exists>fs'. brix_cache_meta_write env now fs path t = (NGX_OK, fs')
    \<and> brix_cache_validate_meta env fs' path (mt_size t) (mt_mtime t) = NGX_DECLINED"
proof -
  have rec: "brix_xmeta_path_load env fs path = Inr m \<or> Q" for Q using assms(4) by simp
  obtain fs' where w: "brix_cache_meta_write env now fs path t = (NGX_OK, fs')"
    "brix_xmeta_path_load env fs' path = Inr (xmeta_norm (meta_onto_record t m))"
    by (rule meta_write_saves [OF assms(1,2,3,5) rec])
  have wf: "xmeta_wf m" using assms(5) by (simp add: meta_room_def xmeta_fits_def)
  have "brix_cache_meta_read env fs' path = Inr (meta_reread t m)" by (rule read_of_onto [OF assms(3) wf w(2)])
  then show ?thesis using w(1) assms(6) by (auto simp: brix_cache_validate_meta_def meta_reread_def Let_def)
qed

lemma sample_room: "meta_room (xmeta_norm xmeta_sample)"
proof -
  have "xmeta_fits (xmeta_norm xmeta_sample)" by (rule xmeta_norm_fits [OF sample_fits(1)])
  moreover have "xmeta_image (xmeta_norm xmeta_sample) = xmeta_image xmeta_sample"
    using xmeta_norm_image sample_fits(1) by (simp add: xmeta_fits_def)
  ultimately show ?thesis by (simp add: meta_room_def sample_fits(2))
qed

theorem cache_meta_write_stale_witness:
  "\<exists>fs fs'. brix_cache_meta_write xmeta_env 9 fs (chars ''/d/a'') meta_sample = (NGX_OK, fs')
     \<and> brix_cache_validate_meta xmeta_env fs' (chars ''/d/a'') 3000000 7 = NGX_DECLINED"
proof -
  obtain fs where "brix_xmeta_path_load xmeta_env fs (chars ''/d/a'') = Inr (xmeta_norm xmeta_sample)"
    using path_save_ok [OF xmeta_env_healthy sample_key sample_fits(1), of xfs_sample] one_carrier_load [OF xmeta_env_healthy sample_key sample_fits(1)] by metis
  from cache_meta_write_stale [OF xmeta_env_healthy sample_key meta_sample_ok(1) this sample_room, of 9]
  show ?thesis by (auto simp: meta_sample_ok xmeta_sample_def xmeta_zero_def xmeta_norm_def)
qed


text \<open>A run of hits.\<close>

fun meta_touches :: "xenv_t \<Rightarrow> bytes \<Rightarrow> (u64 \<times> u64) list \<Rightarrow> xfs_t \<Rightarrow> ngx_rc list \<times> xfs_t" where
  "meta_touches env path [] fs = ([], fs)"
| "meta_touches env path ((now, n) # hits) fs =
     (let (rc, fs1) = brix_cache_meta_touch env now fs path n; (rcs, fs2) = meta_touches env path hits fs1 in (rc # rcs, fs2))"

definition touch_room :: "brix_xmeta_t \<Rightarrow> bool" where
  "touch_room m \<longleftrightarrow> xmeta_fits m \<and> (xm_astat_count m \<noteq> 0 \<or> length (xmeta_image m) + 56 \<le> BRIX_XMETA_MAX_SECTION)"

definition touched :: "u64 \<Rightarrow> u64 \<Rightarrow> brix_xmeta_t \<Rightarrow> brix_xmeta_t" where
  "touched now n m = m\<lparr>xm_access_cnt := xm_access_cnt m + 1,
     xm_astat_count := (if xm_astat_count m = 0 then 1 else xm_astat_count m),
     xm_astat := (if xm_astat_count m = 0 then (xm_astat m)\<lparr>as_attach_time := now\<rparr> else xm_astat m)
        \<lparr>as_detach_time := now, as_bytes_hit := as_bytes_hit (xm_astat m) + n\<rparr>\<rparr>"

lemma touched_room:
  assumes "touch_room m"
  shows "touch_room (xmeta_norm (touched now n m))" "xmeta_fits (touched now n m)"
proof -
  have wf: "xmeta_wf m" using assms by (simp add: touch_room_def xmeta_fits_def)
  then have pos: "xm_astat_count m = 0 \<or> 0 < sint (xm_astat_count m)"
    using signed_eq_0_iff [of "xm_astat_count m"] by (auto simp: xmeta_wf_def order_less_le)
  define c where "c = (if xm_astat_count m = 0 then 1 else xm_astat_count m)"
  have c: "0 < sint c" "c \<noteq> 0" using pos by (auto simp: c_def)
  have wf': "xmeta_wf (touched now n m)"
    using wf c unfolding touched_def c_def [symmetric] by (simp add: xmeta_wf_def cong: option.case_cong)
  have "xp_cap (xmeta_encode_plan (touched now n m)) \<le> xp_cap (xmeta_encode_plan m) + (if xm_astat_count m = 0 then 56 else 0)"
    using pos unfolding touched_def xmeta_encode_plan_def Let_def by auto
  then show f: "xmeta_fits (touched now n m)"
    using wf' assms encode_cap(1) [OF wf] encode_cap(1) [OF wf'] by (auto simp: touch_room_def xmeta_fits_def touched_def split: if_splits)
  show "touch_room (xmeta_norm (touched now n m))"
    using xmeta_norm_fits [OF f] c unfolding touch_room_def by (simp add: xmeta_norm_def touched_def c_def)
qed

lemma touch_saves:
  assumes env: "xenv_healthy env" and key: "xmeta_key path" and m: "brix_xmeta_path_load env fs path = Inr m" "touch_room m"
  obtains fs' where "brix_cache_meta_touch env now fs path n = (NGX_OK, fs')"
    "brix_xmeta_path_load env fs' path = Inr (xmeta_norm (touched now n m))"
proof -
  obtain fd fs1 where l: "brix_xmeta_path_lock env fs path = (Some fd, fs1)" by (rule path_lock_ok [OF env key])
  have ld: "brix_xmeta_path_load env fs1 path = Inr m"
    using path_lock_load [OF env key key, of fs] l m(1) by simp
  note fits = touched_room(2) [OF m(2), of now n]
  obtain fs2 where s: "brix_xmeta_path_save env fs1 path (touched now n m) = (Inr (), fs2)"
      "one_carrier fs2 path (xmeta_image (touched now n m))"
    by (rule path_save_ok [OF env key fits])
  have "brix_cache_meta_touch env now fs path n = (NGX_OK, fs2)"
  proof (cases "xm_astat_count m = 0")
    case True
    then have "touched now n m = m\<lparr>xm_access_cnt := xm_access_cnt m + 1, xm_astat_count := 1,
        xm_astat := (xm_astat m)\<lparr>as_attach_time := now, as_detach_time := now, as_bytes_hit := as_bytes_hit (xm_astat m) + n\<rparr>\<rparr>"
      by (simp add: touched_def)
    then show ?thesis using True l ld s(1) by (simp add: brix_cache_meta_touch_def)
  next
    case False
    then have "touched now n m = m\<lparr>xm_access_cnt := xm_access_cnt m + 1,
        xm_astat := (xm_astat m)\<lparr>as_detach_time := now, as_bytes_hit := as_bytes_hit (xm_astat m) + n\<rparr>\<rparr>"
      by (simp add: touched_def)
    then show ?thesis using False l ld s(1) by (simp add: brix_cache_meta_touch_def)
  qed
  then show ?thesis using that one_carrier_load [OF env key fits s(2)] by blast
qed

lemma touched_keeps:
  assumes "xmeta_wf m" "xm_have_state m"
  shows "cinfo_view_of (xmeta_norm (touched now n m)) = cinfo_view_of m" "xm_have_state (xmeta_norm (touched now n m))"
    "xm_access_cnt (xmeta_norm (touched now n m)) = xm_access_cnt m + 1"
    "as_bytes_hit (xm_astat (xmeta_norm (touched now n m))) = as_bytes_hit (xm_astat m) + n"
    "as_detach_time (xm_astat (xmeta_norm (touched now n m))) = now"
    "xm_file_size (xmeta_norm (touched now n m)) = xm_file_size m" "xm_origin_mtime (xmeta_norm (touched now n m)) = xm_origin_mtime m"
proof -
  have "xm_astat_count m = 0 \<or> 0 < sint (xm_astat_count m)"
    using assms(1) signed_eq_0_iff [of "xm_astat_count m"] by (auto simp: xmeta_wf_def order_less_le)
  then show "as_bytes_hit (xm_astat (xmeta_norm (touched now n m))) = as_bytes_hit (xm_astat m) + n"
    "as_detach_time (xm_astat (xmeta_norm (touched now n m))) = now"
    by (auto simp: xmeta_norm_def touched_def)
  show "cinfo_view_of (xmeta_norm (touched now n m)) = cinfo_view_of m"
    using assms(2) by (simp add: cinfo_view_of_def xmeta_norm_def touched_def block_test_bit split: option.split)
qed (use assms(2) in \<open>simp_all add: xmeta_norm_def touched_def\<close>)

text \<open>
  Hit statistics.  A run of recorded hits on a file with a record always succeeds, adds one to the access count for each
  hit and the served octets to the total (modulo 2 ^ 64), and leaves the block map, the dirty extent and
  the validity of the record as they were.
\<close>
theorem cache_meta_touches_count:
  assumes "xenv_healthy env" "xmeta_key path" "brix_xmeta_path_load env fs path = Inr m" "touch_room m" "xm_have_state m"
    and "meta_touches env path hits fs = (rcs, fs')"
  shows "set rcs \<subseteq> {NGX_OK} \<and> (\<exists>m'. brix_xmeta_path_load env fs' path = Inr m'
    \<and> xm_access_cnt m' = xm_access_cnt m + of_nat (length hits)
    \<and> as_bytes_hit (xm_astat m') = as_bytes_hit (xm_astat m) + sum_list (map snd hits)
    \<and> as_detach_time (xm_astat m') = (if hits = [] then as_detach_time (xm_astat m) else fst (List.last hits))
    \<and> cinfo_view_of m' = cinfo_view_of m \<and> xm_file_size m' = xm_file_size m \<and> xm_origin_mtime m' = xm_origin_mtime m)"
  using assms(3-)
proof (induction hits arbitrary: fs m rcs)
  case (Cons hit hits)
  obtain now n where hit: "hit = (now, n)" by (cases hit)
  obtain fs1 where t: "brix_cache_meta_touch env now fs path n = (NGX_OK, fs1)"
    "brix_xmeta_path_load env fs1 path = Inr (xmeta_norm (touched now n m))"
    by (rule touch_saves [OF assms(1,2) Cons.prems(1,2)])
  obtain rcs' where r: "meta_touches env path hits fs1 = (rcs', fs')" "rcs = NGX_OK # rcs'"
    using Cons.prems(4) t(1) by (auto simp: hit split: prod.splits)
  have wf: "xmeta_wf m" using Cons.prems(2) by (simp add: touch_room_def xmeta_fits_def)
  note k = touched_keeps [OF wf Cons.prems(3), of now n]
  have sz: "xm_file_size (touched now n m) = xm_file_size m" by (simp add: touched_def)
  from Cons.IH [OF t(2) touched_room(1) [OF Cons.prems(2)] k(2) r(1)] show ?case
    by (auto simp: k sz hit r(2) add.assoc)
qed (auto simp add: semiring_1_class.of_nat_0)

theorem cache_meta_touches_count_witness:
  "\<exists>fs m. set (fst (meta_touches xmeta_env (chars ''/d/a'') [(5, 100), (6, 20)] fs)) \<subseteq> {NGX_OK}
     \<and> brix_xmeta_path_load xmeta_env (snd (meta_touches xmeta_env (chars ''/d/a'') [(5, 100), (6, 20)] fs)) (chars ''/d/a'') = Inr m
     \<and> xm_access_cnt m = xm_access_cnt xmeta_sample + 2 \<and> as_detach_time (xm_astat m) = 6"
proof -
  obtain fs where l: "brix_xmeta_path_load xmeta_env fs (chars ''/d/a'') = Inr (xmeta_norm xmeta_sample)"
    using path_save_ok [OF xmeta_env_healthy sample_key sample_fits(1), of xfs_sample] one_carrier_load [OF xmeta_env_healthy sample_key sample_fits(1)] by metis
  have r: "touch_room (xmeta_norm xmeta_sample)" using sample_room by (simp add: meta_room_def touch_room_def)
  have h: "xm_have_state (xmeta_norm xmeta_sample)" "xm_access_cnt (xmeta_norm xmeta_sample) = xm_access_cnt xmeta_sample"
    by (simp_all add: xmeta_norm_def xmeta_sample_def xmeta_zero_def)
  show ?thesis
    using cache_meta_touches_count [OF xmeta_env_healthy sample_key l r h(1) prod.collapse [symmetric], of "[(5, 100), (6, 20)]"]
    by (auto simp: h(2))
qed

end
