(* ===== verification/Cache_Lock.thy ===== *)
theory Cache_Lock
  imports Cache_Info "HOL-Library.Multiset"
begin

text \<open>
  Concurrent workers on one cached file (\<^verbatim>\<open>src/fs/cache/cinfo.c\<close> over \<^verbatim>\<open>src/fs/meta/xmeta_path.c\<close>): each worker opens the lock
  file, waits for the lock, loads the record, saves the updated record and unlocks, and these steps interleave.
  The sequential operations of \<^verbatim>\<open>Cache_Info\<close> are runs of these steps without interruption.
\<close>

section \<open>The steps of one operation\<close>

text \<open>What an operation checks before it locks, what it reads under the lock, and what it writes back.\<close>

fun cinfo_op_args :: "cinfo_origin \<Rightarrow> u64 \<times> cinfo_op \<Rightarrow> bool" where
  "cinfo_op_args og (now, Record_block mode blk) \<longleftrightarrow>
     co_block og \<noteq> 0 \<and> \<not> blk \<ge> brix_cache_cinfo_nblocks (co_size og) (co_block og)"
| "cinfo_op_args og (now, Mark_dirty off len) \<longleftrightarrow> \<not> (co_block og = 0 \<or> len = 0)"
| "cinfo_op_args og (now, Mark_clean n) \<longleftrightarrow> True"

fun cinfo_op_read :: "xenv_t \<Rightarrow> cinfo_origin \<Rightarrow> bytes \<Rightarrow> u64 \<times> cinfo_op \<Rightarrow> xfs_t \<Rightarrow> ngx_rc + brix_xmeta_t" where
  "cinfo_op_read env og path (now, Mark_clean n) fs =
     (case cinfo_xmeta_read env fs path of
        Inl rc \<Rightarrow> Inl (if rc = NGX_DECLINED then NGX_DECLINED else NGX_ERROR) | Inr xm \<Rightarrow> Inr xm)"
| "cinfo_op_read env og path (now, _) fs =
     (case cinfo_rmw_load env now fs path (co_size og) (co_block og) (co_mtime og) of
        Inl _ \<Rightarrow> Inl NGX_ERROR | Inr xm \<Rightarrow> Inr xm)"

fun cinfo_op_update :: "u64 \<times> cinfo_op \<Rightarrow> brix_xmeta_t \<Rightarrow> brix_xmeta_t" where
  "cinfo_op_update (now, Record_block mode blk) xm = brix_xmeta_block_set blk (if mode \<noteq> 0 then xm\<lparr>xm_mode := mode\<rparr> else xm)"
| "cinfo_op_update (now, Mark_dirty off len) xm =
     (if xm_dirty_lo xm \<ge> xm_dirty_hi xm
      then xm\<lparr>xm_dirty_lo := off, xm_dirty_hi := off + len, xm_dirty_since := now\<rparr>
      else let xm' = (if off < xm_dirty_lo xm then xm\<lparr>xm_dirty_lo := off\<rparr> else xm)
           in if off + len > xm_dirty_hi xm' then xm'\<lparr>xm_dirty_hi := off + len\<rparr> else xm')"
| "cinfo_op_update (now, Mark_clean n) xm =
     xm\<lparr>xm_dirty_lo := 0, xm_dirty_hi := 0, xm_dirty_since := 0, xm_flush_gen := xm_flush_gen xm + 1,
        xm_last_flush := now, xm_bytes_flushed := xm_bytes_flushed xm + n\<rparr>"

text \<open>An operation run alone is exactly its steps in sequence.\<close>

lemma cinfo_op_run_steps:
  "cinfo_op_run env og path op fs =
     (if \<not> cinfo_op_args og op then (NGX_ERROR, fs)
      else case brix_xmeta_path_lock env fs path of
             (None, fs1) \<Rightarrow> (NGX_ERROR, fs1)
           | (Some _, fs1) \<Rightarrow>
      case cinfo_op_read env og path op fs1 of
        Inl rc \<Rightarrow> (rc, fs1)
      | Inr xm \<Rightarrow> cinfo_xmeta_write env fs1 path (cinfo_op_update op xm))"
proof -
  obtain now c where op: "op = (now, c)" by (cases op)
  show ?thesis
  proof (cases c)
    case (Record_block mode blk)
    show ?thesis unfolding op Record_block cinfo_op_run.simps record_block_unfold cinfo_op_args.simps cinfo_op_read.simps cinfo_op_update.simps
      by (auto split: prod.split option.split sum.split)
  next
    case (Mark_dirty off len)
    show ?thesis unfolding op Mark_dirty cinfo_op_run.simps brix_cache_cinfo_mark_dirty_def cinfo_op_args.simps cinfo_op_read.simps
        cinfo_op_update.simps Let_def
      by (auto split: prod.split option.split sum.split)
  next
    case (Mark_clean n)
    show ?thesis unfolding op Mark_clean cinfo_op_run.simps brix_cache_cinfo_mark_clean_def cinfo_op_args.simps cinfo_op_read.simps
        cinfo_op_update.simps
      by (auto split: prod.split option.split sum.split)
  qed
qed

section \<open>Configurations and steps\<close>

text \<open>
  The lock is held on the file behind the name that was opened.  \<open>wc_order\<close> lists the workers in the order in which they
  settled their operation; no step reads it.
\<close>

datatype worker_pc =
    W_start
  | W_opened bytes
  | W_locked bytes
  | W_loaded bytes brix_xmeta_t
  | W_settled bytes ngx_rc
  | W_done ngx_rc

record worker_cfg =
  wc_fs :: xfs_t
  wc_holder :: "bytes \<Rightarrow> nat option"
  wc_pc :: "worker_pc list"
  wc_order :: "nat list"

definition workers_start :: "xfs_t \<Rightarrow> nat \<Rightarrow> worker_cfg" where
  "workers_start fs n = \<lparr>wc_fs = fs, wc_holder = (\<lambda>_. None), wc_pc = replicate n W_start, wc_order = []\<rparr>"

inductive worker_step :: "xenv_t \<Rightarrow> cinfo_origin \<Rightarrow> bytes \<Rightarrow> (u64 \<times> cinfo_op) list \<Rightarrow> worker_cfg \<Rightarrow> worker_cfg \<Rightarrow> bool"
  for env og path ops where
  refuse: "\<lbrakk>i < length (wc_pc c); wc_pc c ! i = W_start; \<not> cinfo_op_args og (ops ! i)\<rbrakk>
    \<Longrightarrow> worker_step env og path ops c (c\<lparr>wc_pc := (wc_pc c)[i := W_done NGX_ERROR]\<rparr>)"
| open_lock: "\<lbrakk>i < length (wc_pc c); wc_pc c ! i = W_start; cinfo_op_args og (ops ! i); brix_xmeta_path_lock env (wc_fs c) path = (Some fd, fs')\<rbrakk>
    \<Longrightarrow> worker_step env og path ops c (c\<lparr>wc_fs := fs', wc_pc := (wc_pc c)[i := W_opened fd]\<rparr>)"
| open_fail: "\<lbrakk>i < length (wc_pc c); wc_pc c ! i = W_start; cinfo_op_args og (ops ! i); brix_xmeta_path_lock env (wc_fs c) path = (None, fs')\<rbrakk>
    \<Longrightarrow> worker_step env og path ops c (c\<lparr>wc_fs := fs', wc_pc := (wc_pc c)[i := W_done NGX_ERROR]\<rparr>)"
| flock: "\<lbrakk>i < length (wc_pc c); wc_pc c ! i = W_opened fd; wc_holder c fd = None\<rbrakk>
    \<Longrightarrow> worker_step env og path ops c (c\<lparr>wc_holder := (wc_holder c)(fd \<mapsto> i), wc_pc := (wc_pc c)[i := W_locked fd]\<rparr>)"
| load_ok: "\<lbrakk>i < length (wc_pc c); wc_pc c ! i = W_locked fd; cinfo_op_read env og path (ops ! i) (wc_fs c) = Inr xm\<rbrakk>
    \<Longrightarrow> worker_step env og path ops c (c\<lparr>wc_pc := (wc_pc c)[i := W_loaded fd xm]\<rparr>)"
| load_fail: "\<lbrakk>i < length (wc_pc c); wc_pc c ! i = W_locked fd; cinfo_op_read env og path (ops ! i) (wc_fs c) = Inl rc\<rbrakk>
    \<Longrightarrow> worker_step env og path ops c (c\<lparr>wc_pc := (wc_pc c)[i := W_settled fd rc], wc_order := wc_order c @ [i]\<rparr>)"
| save: "\<lbrakk>i < length (wc_pc c); wc_pc c ! i = W_loaded fd xm; cinfo_xmeta_write env (wc_fs c) path (cinfo_op_update (ops ! i) xm) = (rc, fs')\<rbrakk>
    \<Longrightarrow> worker_step env og path ops c (c\<lparr>wc_fs := fs', wc_pc := (wc_pc c)[i := W_settled fd rc], wc_order := wc_order c @ [i]\<rparr>)"
| unlock: "\<lbrakk>i < length (wc_pc c); wc_pc c ! i = W_settled fd rc\<rbrakk>
    \<Longrightarrow> worker_step env og path ops c (c\<lparr>wc_holder := (wc_holder c)(fd := None), wc_pc := (wc_pc c)[i := W_done rc]\<rparr>)"

text \<open>The data file appears: a fill publishes it while workers are at the record.\<close>

inductive publish_step :: "bytes \<Rightarrow> bytes \<Rightarrow> worker_cfg \<Rightarrow> worker_cfg \<Rightarrow> bool" for path content where
  publish: "fs_files (wc_fs c) path = None
    \<Longrightarrow> publish_step path content c (c\<lparr>wc_fs := (wc_fs c)\<lparr>fs_files := (fs_files (wc_fs c))(path \<mapsto> content)\<rparr>\<rparr>)"

section \<open>The invariant\<close>

fun pc_critical :: "worker_pc \<Rightarrow> bool" where
  "pc_critical (W_locked _) = True"
| "pc_critical (W_loaded _ _) = True"
| "pc_critical (W_settled _ _) = True"
| "pc_critical _ = False"

fun pc_settled :: "worker_pc \<Rightarrow> bool" where
  "pc_settled (W_settled _ _) = True"
| "pc_settled (W_done _) = True"
| "pc_settled _ = False"

definition lock_name :: "xfs_t \<Rightarrow> bytes \<Rightarrow> bytes" where
  "lock_name fs path = (if fs_files fs path = None then path @ chars ''.cinfo'' else path)"

fun pc_name :: "worker_pc \<Rightarrow> bytes option" where
  "pc_name (W_opened fd) = Some fd"
| "pc_name (W_locked fd) = Some fd"
| "pc_name (W_loaded fd _) = Some fd"
| "pc_name (W_settled fd _) = Some fd"
| "pc_name _ = None"

text \<open>What the operations settled so far make of the recorded state.\<close>

definition settled_view :: "(u64 \<times> cinfo_op) list \<Rightarrow> worker_cfg \<Rightarrow> cinfo_view option \<Rightarrow> cinfo_view option" where
  "settled_view ops c v = fold cinfo_spec_step (map ((!) ops) (wc_order c)) v"

definition loaded_ok :: "cinfo_origin \<Rightarrow> u64 \<times> cinfo_op \<Rightarrow> cinfo_view option \<Rightarrow> brix_xmeta_t \<Rightarrow> bool" where
  "loaded_ok og op v m \<longleftrightarrow> cinfo_live og m \<and> cinfo_spec_step op v = Some (cinfo_view_step op (cinfo_view_of m))"

definition workers_inv ::
    "xenv_t \<Rightarrow> cinfo_origin \<Rightarrow> bytes \<Rightarrow> (u64 \<times> cinfo_op) list \<Rightarrow> bytes \<Rightarrow> cinfo_view option \<Rightarrow> worker_cfg \<Rightarrow> bool" where
  "workers_inv env og path ops fd v c \<longleftrightarrow>
     length (wc_pc c) = length ops \<and> lock_name (wc_fs c) path = fd
     \<and> (\<forall>i < length ops. \<forall>n. pc_name (wc_pc c ! i) = Some n \<longrightarrow> n = fd)
     \<and> (\<forall>i < length ops. pc_critical (wc_pc c ! i) \<longleftrightarrow> wc_holder c fd = Some i)
     \<and> (\<forall>i. wc_holder c fd = Some i \<longrightarrow> i < length ops)
     \<and> cinfo_abs env og (wc_fs c) path (settled_view ops c v)
     \<and> (\<forall>i < length ops. \<forall>n m. wc_pc c ! i = W_loaded n m \<longrightarrow> loaded_ok og (ops ! i) (settled_view ops c v) m)
     \<and> distinct (wc_order c) \<and> set (wc_order c) = {i. i < length ops \<and> pc_settled (wc_pc c ! i)}
     \<and> (\<forall>i < length ops. \<forall>n rc. wc_pc c ! i = W_settled n rc \<or> wc_pc c ! i = W_done rc \<longrightarrow> rc \<noteq> NGX_ERROR)"


lemma live_write:
  assumes env: "xenv_healthy env" and key: "xmeta_key path" and live: "cinfo_live og m"
  obtains fs' where "cinfo_xmeta_write env fs path m = (NGX_OK, fs')" "cinfo_abs env og fs' path (Some (cinfo_view_of m))"
    "fs_files fs' path = None \<longleftrightarrow> fs_files fs path = None"
proof -
  have fits: "xmeta_fits m" "xm_have_state m" using live by (simp_all add: cinfo_live_def)
  obtain fs' where s: "brix_xmeta_path_save env fs path m = (Inr (), fs')" "one_carrier fs' path (xmeta_image m)"
      "\<And>q. q \<noteq> path @ chars ''.cinfo'' \<Longrightarrow> fs_files fs' q = fs_files fs q"
    by (rule path_save_ok [OF env key fits(1), of fs]) (rule that)
  have "cinfo_abs env og fs' path (Some (cinfo_view_of m))"
    using one_carrier_load [OF env key fits(1) s(2)] cinfo_live_norm [OF live] cinfo_view_norm [OF fits(2)]
    by (simp add: cinfo_abs_def)
  moreover have "fs_files fs' path = fs_files fs path" by (rule s(3)) (rule xmeta_key_sidecar(2) [OF key])
  ultimately show ?thesis using that s(1) by (simp add: cinfo_xmeta_write_def)
qed

lemma op_read_cases:
  assumes env: "xenv_healthy env" and og: "origin_ok og" and abs: "cinfo_abs env og fs path v"
  shows "(case cinfo_op_read env og path op fs of
            Inl rc \<Rightarrow> rc = NGX_DECLINED \<and> v = None \<and> cinfo_spec_step op v = None
          | Inr m \<Rightarrow> loaded_ok og op v m)"
proof -
  obtain now c where op: "op = (now, c)" by (cases op)
  obtain m where m: "cinfo_rmw_load env now fs path (co_size og) (co_block og) (co_mtime og) = Inr m"
      "cinfo_live og m" "cinfo_view_of m = (case v of None \<Rightarrow> cinfo_view_empty | Some w \<Rightarrow> w)"
    by (rule rmw_base [OF env og abs])
  show ?thesis
  proof (cases c)
    case (Mark_clean n)
    show ?thesis
    proof (cases v)
      case None
      then show ?thesis using abs by (simp add: op Mark_clean cinfo_abs_def xmeta_read_cases)
    next
      case (Some w)
      then obtain m where "brix_xmeta_path_load env fs path = Inr m" "cinfo_live og m" "cinfo_view_of m = w"
        using abs by (auto simp: cinfo_abs_def)
      then show ?thesis using xmeta_read_cases(1) [of env fs path m] by (simp add: op Mark_clean Some loaded_ok_def)
    qed
  qed (use m in \<open>cases v; simp add: op loaded_ok_def\<close>)+
qed

lemma op_update_live:
  assumes "loaded_ok og op v m" "cinfo_op_ok og op"
  shows "cinfo_live og (cinfo_op_update op m)" "cinfo_spec_step op v = Some (cinfo_view_of (cinfo_op_update op m))"
proof -
  obtain now c where op: "op = (now, c)" by (cases op)
  have live: "cinfo_live og m" using assms(1) by (simp add: loaded_ok_def)
  have "cinfo_live og (cinfo_op_update op m) \<and> cinfo_view_of (cinfo_op_update op m) = cinfo_view_step op (cinfo_view_of m)"
  proof (cases c)
    case (Record_block mode blk)
    let ?m = "if mode \<noteq> 0 then m\<lparr>xm_mode := mode\<rparr> else m"
    have l: "cinfo_live og ?m" "cinfo_view_of ?m = cinfo_view_of m"
      using live live_state(1) by (auto simp: cinfo_view_of_def)
    show ?thesis using live_block_set [OF l(1), of blk] l(2) assms(2) by (simp add: op Record_block)
  next
    case (Mark_dirty off len)
    have "cinfo_live og (cinfo_op_update op m)" using live live_state by (simp add: op Mark_dirty Let_def)
    moreover have "cinfo_view_of (cinfo_op_update op m) = cinfo_view_step op (cinfo_view_of m)"
      by (auto simp: op Mark_dirty Let_def cinfo_view_of_def min_def max_def not_less not_le)
    ultimately show ?thesis by simp
  next
    case (Mark_clean n)
    then show ?thesis using live_state(5) [OF live] by (auto simp: op cinfo_view_of_def)
  qed
  then show "cinfo_live og (cinfo_op_update op m)" "cinfo_spec_step op v = Some (cinfo_view_of (cinfo_op_update op m))"
    using assms(1) by (simp_all add: loaded_ok_def)
qed

lemma op_args_ok: "origin_ok og \<Longrightarrow> cinfo_op_ok og op \<Longrightarrow> cinfo_op_args og op"
  by (cases op; cases "snd op") (auto simp: cinfo_nblocks_eq origin_ok_def)

lemma lock_name_lock:
  assumes "xenv_healthy env" "xmeta_key path" "brix_xmeta_path_lock env fs path = (r, fs')"
  shows "r = Some (lock_name fs path)" "lock_name fs' path = lock_name fs path" "fs_files fs' path = fs_files fs path"
proof -
  obtain fd fs1 where l: "brix_xmeta_path_lock env fs path = (Some fd, fs1)"
    "fs1 = fs \<or> fs_files fs path = None \<and> fs_files fs (path @ chars ''.cinfo'') = None
       \<and> fs1 = fs\<lparr>fs_files := (fs_files fs)(path @ chars ''.cinfo'' \<mapsto> [])\<rparr>" by (rule path_lock_ok [OF assms(1,2)])
  then show "r = Some (lock_name fs path)"
    using assms(3) xmeta_key_sidecar(1) [OF assms(2)]
    by (auto simp: brix_xmeta_path_lock_def lock_name_def split: option.splits if_splits)
  have "path \<noteq> path @ chars ''.cinfo''" by (rule xmeta_key_sidecar(2) [OF assms(2)])
  then show "fs_files fs' path = fs_files fs path" using l assms(3) by auto
  then show "lock_name fs' path = lock_name fs path" by (simp add: lock_name_def)
qed


lemma settled_view_snoc:
  "wc_order c' = wc_order c @ [i] \<Longrightarrow> settled_view ops c' v = cinfo_spec_step (ops ! i) (settled_view ops c v)"
  by (simp add: settled_view_def)

lemma workers_invI:
  assumes "length (wc_pc c) = length ops" "lock_name (wc_fs c) path = fd"
    and "\<And>i n. i < length ops \<Longrightarrow> pc_name (wc_pc c ! i) = Some n \<Longrightarrow> n = fd"
    and "\<And>i. i < length ops \<Longrightarrow> pc_critical (wc_pc c ! i) \<longleftrightarrow> wc_holder c fd = Some i"
    and "cinfo_abs env og (wc_fs c) path (settled_view ops c v)"
    and "\<And>i n m. i < length ops \<Longrightarrow> wc_pc c ! i = W_loaded n m \<Longrightarrow> loaded_ok og (ops ! i) (settled_view ops c v) m"
    and "distinct (wc_order c)" "set (wc_order c) = {i. i < length ops \<and> pc_settled (wc_pc c ! i)}"
    and "\<And>i n rc. i < length ops \<Longrightarrow> wc_pc c ! i = W_settled n rc \<or> wc_pc c ! i = W_done rc \<Longrightarrow> rc \<noteq> NGX_ERROR"
    and "\<And>i. wc_holder c fd = Some i \<Longrightarrow> i < length ops"
  shows "workers_inv env og path ops fd v c"
  unfolding workers_inv_def using assms by auto

lemma workers_invD:
  assumes "workers_inv env og path ops fd v c"
  shows "length (wc_pc c) = length ops" "lock_name (wc_fs c) path = fd"
    "i < length ops \<Longrightarrow> pc_name (wc_pc c ! i) = Some n \<Longrightarrow> n = fd"
    "i < length ops \<Longrightarrow> pc_critical (wc_pc c ! i) \<longleftrightarrow> wc_holder c fd = Some i"
    "cinfo_abs env og (wc_fs c) path (settled_view ops c v)"
    "i < length ops \<Longrightarrow> wc_pc c ! i = W_loaded n m \<Longrightarrow> loaded_ok og (ops ! i) (settled_view ops c v) m"
    "distinct (wc_order c)" "set (wc_order c) = {i. i < length ops \<and> pc_settled (wc_pc c ! i)}"
    "i < length ops \<Longrightarrow> wc_pc c ! i = W_settled n rc \<or> wc_pc c ! i = W_done rc \<Longrightarrow> rc \<noteq> NGX_ERROR"
    "wc_holder c fd = Some i \<Longrightarrow> i < length ops"
  using assms unfolding workers_inv_def by auto

text \<open>One worker moves to \<open>p\<close>: what remains to be shown of its step.\<close>

lemma workers_inv_move:
  assumes inv: "workers_inv env og path ops fd v c" and i: "i < length ops"
    and c': "wc_pc c' = (wc_pc c)[i := p]" and name: "lock_name (wc_fs c') path = fd" "\<And>n. pc_name p = Some n \<Longrightarrow> n = fd"
    and hold: "pc_critical p \<longleftrightarrow> wc_holder c' fd = Some i" "\<And>j. j \<noteq> i \<Longrightarrow> wc_holder c' fd = Some j \<longleftrightarrow> wc_holder c fd = Some j"
    and abs: "cinfo_abs env og (wc_fs c') path (settled_view ops c' v)"
    and loaded: "\<And>n m. p = W_loaded n m \<Longrightarrow> loaded_ok og (ops ! i) (settled_view ops c' v) m"
    and others: "settled_view ops c' v = settled_view ops c v \<or> wc_holder c fd = Some i"
    and order: "wc_order c' = wc_order c \<and> (pc_settled p \<longleftrightarrow> pc_settled (wc_pc c ! i))
       \<or> wc_order c' = wc_order c @ [i] \<and> \<not> pc_settled (wc_pc c ! i) \<and> pc_settled p"
    and rc: "\<And>n rc. p = W_settled n rc \<or> p = W_done rc \<Longrightarrow> rc \<noteq> NGX_ERROR"
  shows "workers_inv env og path ops fd v c'"
proof -
  note d = workers_invD [OF inv]
  have pc: "wc_pc c' ! j = (if j = i then p else wc_pc c ! j)" if "j < length ops" for j
    using that d(1) by (simp add: c' nth_list_update)
  show ?thesis
  proof (rule workers_invI)
    show "j < length ops" if "wc_holder c' fd = Some j" for j
      using that i hold(2) d(10) by (cases "j = i") simp_all
    show "length (wc_pc c') = length ops" "lock_name (wc_fs c') path = fd"
      "cinfo_abs env og (wc_fs c') path (settled_view ops c' v)"
      using d(1) c' name(1) abs by simp_all
    show "n = fd" if "j < length ops" "pc_name (wc_pc c' ! j) = Some n" for j n
      using that pc d(3) name(2) by (simp split: if_splits)
    show "pc_critical (wc_pc c' ! j) \<longleftrightarrow> wc_holder c' fd = Some j" if "j < length ops" for j
      using that pc d(4) hold by simp
    show "loaded_ok og (ops ! j) (settled_view ops c' v) m" if "j < length ops" "wc_pc c' ! j = W_loaded n m" for j n m
    proof (cases "j = i")
      case True
      then show ?thesis using that pc loaded by simp
    next
      case False
      then have l: "wc_pc c ! j = W_loaded n m" using that pc by simp
      then have "wc_holder c fd = Some j" using d(4) [OF that(1)] by simp
      then have "settled_view ops c' v = settled_view ops c v" using others False by simp
      then show ?thesis using d(6) [OF that(1) l] by simp
    qed
    have out: "i \<notin> set (wc_order c)" if "\<not> pc_settled (wc_pc c ! i)" unfolding d(8) using that by simp
    show "distinct (wc_order c')" using order
    proof (elim disjE conjE)
      assume "wc_order c' = wc_order c @ [i]" "\<not> pc_settled (wc_pc c ! i)"
      then show ?thesis using out d(7) by simp
    qed (simp add: d(7))
    show "set (wc_order c') = {i. i < length ops \<and> pc_settled (wc_pc c' ! i)}"
      using order
    proof (elim disjE conjE)
      assume o: "wc_order c' = wc_order c" "pc_settled p \<longleftrightarrow> pc_settled (wc_pc c ! i)"
      have "pc_settled (wc_pc c' ! j) \<longleftrightarrow> pc_settled (wc_pc c ! j)" if "j < length ops" for j
        using pc [OF that] o(2) by simp
      then show ?thesis unfolding o(1) d(8) by (intro Collect_cong conj_cong refl) simp
    next
      assume o: "wc_order c' = wc_order c @ [i]" "pc_settled p"
      then have "set (wc_order c') = insert i {j. j < length ops \<and> pc_settled (wc_pc c ! j)}" using d(8) by simp
      also have "\<dots> = {j. j < length ops \<and> pc_settled (wc_pc c' ! j)}"
      proof (rule set_eqI)
        show "j \<in> insert i {j. j < length ops \<and> pc_settled (wc_pc c ! j)} \<longleftrightarrow> j \<in> {j. j < length ops \<and> pc_settled (wc_pc c' ! j)}" for j
          using pc [of j] o(2) i by (cases "j = i"; cases "j < length ops") simp_all
      qed
      finally show ?thesis .
    qed
    show "rc \<noteq> NGX_ERROR" if "j < length ops" "wc_pc c' ! j = W_settled n rc \<or> wc_pc c' ! j = W_done rc" for j n rc
    proof (cases "j = i")
      case True
      then have "p = W_settled n rc \<or> p = W_done rc" using that pc by simp
      then show ?thesis by (rule rc)
    next
      case False
      then have "wc_pc c ! j = W_settled n rc \<or> wc_pc c ! j = W_done rc" using that pc by simp
      then show ?thesis by (rule d(9) [OF that(1)])
    qed
  qed
qed

lemma settled_view_frame [simp]:
  "settled_view ops (c\<lparr>wc_fs := a\<rparr>) v = settled_view ops c v" "settled_view ops (c\<lparr>wc_holder := h\<rparr>) v = settled_view ops c v"
  "settled_view ops (c\<lparr>wc_pc := ps\<rparr>) v = settled_view ops c v"
  by (simp_all add: settled_view_def)

lemma workers_inv_step:
  assumes env: "xenv_healthy env" and key: "xmeta_key path" and og: "origin_ok og" and ok: "\<forall>op \<in> set ops. cinfo_op_ok og op"
    and step: "worker_step env og path ops c c'" and inv: "workers_inv env og path ops fd v c"
  shows "workers_inv env og path ops fd v c'"
proof -
  note d = workers_invD [OF inv]
  note move = workers_inv_move [OF inv]
  show ?thesis
    using step
  proof cases
    case (refuse i)
    then have "cinfo_op_ok og (ops ! i)" using ok d(1) by simp
    then show ?thesis using refuse(4) op_args_ok [OF og] by blast
  next
    case (open_fail i fs')
    then show ?thesis using lock_name_lock(1) [OF env key] by blast
  next
    case (open_lock i fd' fs')
    have n: "i < length ops" using open_lock(2) d(1) by simp
    note l = lock_name_lock [OF env key open_lock(5)]
    have "brix_xmeta_path_load env fs' path = brix_xmeta_path_load env (wc_fs c) path"
      using path_lock_load [OF env key key, of "wc_fs c"] open_lock(5) by simp
    then have abs: "cinfo_abs env og fs' path w \<longleftrightarrow> cinfo_abs env og (wc_fs c) path w" for w
      by (cases w) (simp_all add: cinfo_abs_def)
    have h: "wc_holder c fd \<noteq> Some i" using d(4) [OF n] open_lock(3) by simp
    show ?thesis
      by (rule move [OF n, where p = "W_opened fd'"])
        (use open_lock(1,3) l d(2,5) h in \<open>simp_all add: abs\<close>)
  next
    case (flock i fd')
    have n: "i < length ops" using flock(2) d(1) by simp
    have f: "fd' = fd" using d(3) [OF n] flock(3) by simp
    show ?thesis
      by (rule move [OF n, where p = "W_locked fd"])
        (use flock(1,3,4) f d(2,5) in \<open>simp_all\<close>)
  next
    case (load_ok i fd' xm)
    have n: "i < length ops" using load_ok(2) d(1) by simp
    have f: "fd' = fd" using d(3) [OF n] load_ok(3) by simp
    have lo: "loaded_ok og (ops ! i) (settled_view ops c v) xm"
      using op_read_cases [OF env og d(5), of "ops ! i"] load_ok(4) by simp
    have h: "wc_holder c fd = Some i" using d(4) [OF n] load_ok(3) by simp
    show ?thesis
      by (rule move [OF n, where p = "W_loaded fd xm"])
        (use load_ok(1,3) f d(2,5) h lo in \<open>simp_all\<close>)
  next
    case (load_fail i fd' rc)
    have n: "i < length ops" using load_fail(2) d(1) by simp
    have f: "fd' = fd" using d(3) [OF n] load_fail(3) by simp
    have r: "rc = NGX_DECLINED" "settled_view ops c v = None \<and> cinfo_spec_step (ops ! i) (settled_view ops c v) = None"
      using op_read_cases [OF env og d(5), of "ops ! i"] unfolding load_fail(4) sum.case by blast+
    have s: "settled_view ops c' v = settled_view ops c v"
      using settled_view_snoc [of c' c i ops v] r(2) load_fail(1) by auto
    have h: "wc_holder c fd = Some i" using d(4) [OF n] load_fail(3) by simp
    show ?thesis
      by (rule move [OF n, where p = "W_settled fd rc"])
        (use load_fail(1,3) f d(2,5) h r(1) s in \<open>simp_all\<close>)
  next
    case (save i fd' xm rc fs')
    have n: "i < length ops" using save(2) d(1) by simp
    have f: "fd' = fd" using d(3) [OF n] save(3) by simp
    have h: "wc_holder c fd = Some i" using d(4) [OF n] save(3) by simp
    have oi: "cinfo_op_ok og (ops ! i)" using ok n by simp
    note u = op_update_live [OF d(6) [OF n save(3)] oi]
    obtain fs2 where w: "cinfo_xmeta_write env (wc_fs c) path (cinfo_op_update (ops ! i) xm) = (NGX_OK, fs2)"
      "cinfo_abs env og fs2 path (Some (cinfo_view_of (cinfo_op_update (ops ! i) xm)))"
      "fs_files fs2 path = None \<longleftrightarrow> fs_files (wc_fs c) path = None" by (rule live_write [OF env key u(1)])
    have e: "rc = NGX_OK" "fs' = fs2" using save(4) w(1) by simp_all
    have s: "settled_view ops c' v = Some (cinfo_view_of (cinfo_op_update (ops ! i) xm))"
      using settled_view_snoc [of c' c i ops v] u(2) save(1) by simp
    have ln: "lock_name fs2 path = fd" using w(3) d(2) by (simp add: lock_name_def)
    show ?thesis
      by (rule move [OF n, where p = "W_settled fd rc"])
        (use save(1,3) f h e s ln w(2) in \<open>simp_all\<close>)
  next
    case (unlock i fd' rc)
    have n: "i < length ops" using unlock(2) d(1) by simp
    have f: "fd' = fd" using d(3) [OF n] unlock(3) by simp
    have h: "wc_holder c fd = Some i" using d(4) [OF n] unlock(3) by simp
    show ?thesis
      by (rule move [OF n, where p = "W_done rc"])
        (use unlock(1,3) f h d(2,5) d(9) [OF n] in \<open>simp_all\<close>)
  qed
qed


section \<open>Properties\<close>

lemma workers_inv_start:
  assumes "cinfo_abs env og fs path v"
  shows "workers_inv env og path ops (lock_name fs path) v (workers_start fs (length ops))"
  using assms by (simp add: workers_inv_def workers_start_def settled_view_def)

lemma workers_inv_reach:
  assumes env: "xenv_healthy env" and key: "xmeta_key path" and og: "origin_ok og" and ok: "\<forall>op \<in> set ops. cinfo_op_ok og op"
    and abs: "cinfo_abs env og fs path v" and steps: "(worker_step env og path ops)\<^sup>*\<^sup>* (workers_start fs (length ops)) c"
  shows "workers_inv env og path ops (lock_name fs path) v c"
  using steps
proof (induction rule: rtranclp_induct)
  case base
  show ?case by (rule workers_inv_start [OF abs])
next
  case (step c c')
  show ?case by (rule workers_inv_step [OF env key og ok step(2) step(3)])
qed

text \<open>
  The lock excludes.  In every reachable configuration of any number of workers on one file whose data file neither appears
  nor disappears meanwhile, at most one worker is between its lock and its unlock, and no worker has failed.
\<close>
theorem cinfo_workers_exclusive:
  assumes "xenv_healthy env" "xmeta_key path" "origin_ok og" "\<forall>op \<in> set ops. cinfo_op_ok og op"
    and "brix_xmeta_path_load env fs path = Inl XMETA_FOREIGN" "(worker_step env og path ops)\<^sup>*\<^sup>* (workers_start fs (length ops)) c"
    and "i < length ops" "j < length ops" "pc_critical (wc_pc c ! i)" "pc_critical (wc_pc c ! j)"
  shows "i = j \<and> W_done NGX_ERROR \<notin> set (wc_pc c)"
proof -
  have "cinfo_abs env og fs path None" using assms(5) by (simp add: cinfo_abs_def)
  from workers_inv_reach [OF assms(1-4) this assms(6)] have inv: "workers_inv env og path ops (lock_name fs path) None c" .
  then show ?thesis using assms(7-10) unfolding workers_inv_def by (auto simp: in_set_conv_nth)
qed

text \<open>
  C3. Concurrent operations are linearizable.  When every worker is done, whatever the interleaving, the record is what
  the same operations leave when they run one after the other in the order in which they were settled: no block, no dirty mark
  and no cleaning of any worker is lost.
\<close>
theorem cinfo_workers_linearizable:
  assumes "xenv_healthy env" "xmeta_key path" "origin_ok og" "\<forall>op \<in> set ops. cinfo_op_ok og op"
    and "brix_xmeta_path_load env fs path = Inl XMETA_FOREIGN" "(worker_step env og path ops)\<^sup>*\<^sup>* (workers_start fs (length ops)) c"
    and "\<forall>p \<in> set (wc_pc c). \<exists>rc. p = W_done rc"
  shows "\<exists>ops'. mset ops' = mset ops
    \<and> (case fold cinfo_spec_step ops' None of
         None \<Rightarrow> brix_cache_cinfo_load env (wc_fs c) path = Inl NGX_DECLINED
       | Some v \<Rightarrow> \<exists>x. brix_cache_cinfo_load env (wc_fs c) path = Inr x \<and> header_shows og v x)"
proof -
  have "cinfo_abs env og fs path None" using assms(5) by (simp add: cinfo_abs_def)
  from workers_inv_reach [OF assms(1-4) this assms(6)] have inv: "workers_inv env og path ops (lock_name fs path) None c" .
  have len: "length (wc_pc c) = length ops" using inv by (simp add: workers_inv_def)
  have "pc_settled (wc_pc c ! i)" if "i < length ops" for i
    using assms(7) that len by (metis nth_mem pc_settled.simps(2))
  then have "set (wc_order c) = {..<length ops}" "distinct (wc_order c)" using inv by (auto simp: workers_inv_def)
  then have "mset (wc_order c) = mset [0..<length ops]" using mset_set_set [of "wc_order c"] by (simp add: atLeast0LessThan)
  then have "mset (map ((!) ops) (wc_order c)) = mset (map ((!) ops) [0..<length ops])" by (metis mset_map)
  then have m: "mset (map ((!) ops) (wc_order c)) = mset ops" by (simp only: map_nth)
  have abs: "cinfo_abs env og (wc_fs c) path (fold cinfo_spec_step (map ((!) ops) (wc_order c)) None)"
    using inv by (simp only: workers_inv_def settled_view_def)
  show ?thesis
  proof (cases "fold cinfo_spec_step (map ((!) ops) (wc_order c)) None")
    case None
    then show ?thesis using m abs load_declined by (intro exI [of _ "map ((!) ops) (wc_order c)"]) simp
  next
    case (Some v)
    obtain x where "brix_cache_cinfo_load env (wc_fs c) path = Inr x" "header_shows og v x"
      by (rule load_shows [OF assms(1,3) abs [unfolded Some]])
    then show ?thesis using m Some by (intro exI [of _ "map ((!) ops) (wc_order c)"]) auto
  qed
qed

text \<open>Every step moves a worker forward, and some worker can move until all are done.\<close>

fun pc_rank :: "worker_pc \<Rightarrow> nat" where
  "pc_rank W_start = 5"
| "pc_rank (W_opened _) = 4"
| "pc_rank (W_locked _) = 3"
| "pc_rank (W_loaded _ _) = 2"
| "pc_rank (W_settled _ _) = 1"
| "pc_rank (W_done _) = 0"

definition workers_left :: "worker_cfg \<Rightarrow> nat" where
  "workers_left c = sum_list (map pc_rank (wc_pc c))"

lemma sum_list_update_less:
  "i < length ps \<Longrightarrow> pc_rank p < pc_rank (ps ! i) \<Longrightarrow> sum_list (map pc_rank (ps[i := p])) < sum_list (map pc_rank ps)"
proof (induction ps arbitrary: i)
  case (Cons q ps)
  then show ?case by (cases i) auto
qed simp

lemma workers_left_step: "worker_step env og path ops c c' \<Longrightarrow> workers_left c' < workers_left c"
  by (induction rule: worker_step.induct) (simp_all add: workers_left_def sum_list_update_less)

lemma workers_progress:
  assumes env: "xenv_healthy env" and key: "xmeta_key path" and og: "origin_ok og" and ok: "\<forall>op \<in> set ops. cinfo_op_ok og op"
    and inv: "workers_inv env og path ops fd v c" and i: "i < length ops" "\<nexists>rc. wc_pc c ! i = W_done rc"
  shows "\<exists>c'. worker_step env og path ops c c'"
proof (cases "wc_holder c fd")
  case None
  have len: "i < length (wc_pc c)" using i(1) workers_invD(1) [OF inv] by simp
  have "\<not> pc_critical (wc_pc c ! i)" using workers_invD(4) [OF inv i(1)] None by simp
  then consider "wc_pc c ! i = W_start" | n where "wc_pc c ! i = W_opened n"
    using i(2) by (cases "wc_pc c ! i") auto
  then show ?thesis
  proof cases
    case 1
    have "cinfo_op_args og (ops ! i)" using op_args_ok [OF og] ok i(1) by simp
    moreover obtain n fs' where "brix_xmeta_path_lock env (wc_fs c) path = (Some n, fs')" by (rule path_lock_ok [OF env key])
    ultimately show ?thesis using worker_step.open_lock [OF len 1] by blast
  next
    case 2
    then have "n = fd" using workers_invD(3) [OF inv i(1)] by simp
    then show ?thesis using worker_step.flock [OF len 2] None by blast
  qed
next
  case (Some j)
  have j: "j < length ops" by (rule workers_invD(10) [OF inv Some])
  then have len: "j < length (wc_pc c)" using workers_invD(1) [OF inv] by simp
  have "pc_critical (wc_pc c ! j)" using workers_invD(4) [OF inv j] Some by simp
  then consider n where "wc_pc c ! j = W_locked n" | n m where "wc_pc c ! j = W_loaded n m" | n rc where "wc_pc c ! j = W_settled n rc"
      by (cases "wc_pc c ! j") auto
    then show ?thesis
    proof cases
      case 1
      then show ?thesis
        using worker_step.load_ok [OF len 1] worker_step.load_fail [OF len 1] by (cases "cinfo_op_read env og path (ops ! j) (wc_fs c)") blast+
    next
      case 2
      then show ?thesis using worker_step.save [OF len 2] by (metis surj_pair)
    next
      case 3
      then show ?thesis using worker_step.unlock [OF len 3] by blast
    qed
qed

lemma workers_run_bound:
  assumes "(worker_step env og path ops ^^ k) c c'"
  shows "k + workers_left c' \<le> workers_left c"
  using assms
proof (induction k arbitrary: c')
  case (Suc k)
  then obtain b where "(worker_step env og path ops ^^ k) c b" "worker_step env og path ops b c'" by auto
  then show ?case using Suc.IH workers_left_step by fastforce
qed simp

lemma workers_finish:
  assumes env: "xenv_healthy env" and key: "xmeta_key path" and og: "origin_ok og" and ok: "\<forall>op \<in> set ops. cinfo_op_ok og op"
    and inv: "workers_inv env og path ops fd v c"
  shows "\<exists>c'. (worker_step env og path ops)\<^sup>*\<^sup>* c c' \<and> (\<forall>p \<in> set (wc_pc c'). \<exists>rc. p = W_done rc)"
  using inv
proof (induction "workers_left c" arbitrary: c rule: less_induct)
  case less
  show ?case
  proof (cases "\<forall>p \<in> set (wc_pc c). \<exists>rc. p = W_done rc")
    case False
    then obtain i where i: "i < length (wc_pc c)" "\<nexists>rc. wc_pc c ! i = W_done rc" by (metis in_set_conv_nth)
    then have "i < length ops" using workers_invD(1) [OF less.prems] by simp
    then obtain b where b: "worker_step env og path ops c b"
      using workers_progress [OF env key og ok less.prems _ i(2)] by blast
    obtain c' where "(worker_step env og path ops)\<^sup>*\<^sup>* b c'" "\<forall>p \<in> set (wc_pc c'). \<exists>rc. p = W_done rc"
      using less.hyps [OF workers_left_step [OF b] workers_inv_step [OF env key og ok b less.prems]] by blast
    then show ?thesis using b by (meson converse_rtranclp_into_rtranclp)
  qed blast
qed

text \<open>
  C17. No worker waits forever.  From every reachable configuration all workers can finish; while one is not done some worker can
  step; and no execution of \<open>n\<close> workers has more than \<open>5 n\<close> steps, so every execution that goes on ends with all of them done.
\<close>
theorem cinfo_workers_terminate:
  assumes "xenv_healthy env" "xmeta_key path" "origin_ok og" "\<forall>op \<in> set ops. cinfo_op_ok og op"
    and "brix_xmeta_path_load env fs path = Inl XMETA_FOREIGN" "(worker_step env og path ops ^^ k) (workers_start fs (length ops)) c"
  shows "k \<le> 5 * length ops
    \<and> ((\<exists>p \<in> set (wc_pc c). \<nexists>rc. p = W_done rc) \<longrightarrow> (\<exists>c'. worker_step env og path ops c c'))
    \<and> (\<exists>c'. (worker_step env og path ops)\<^sup>*\<^sup>* c c' \<and> (\<forall>p \<in> set (wc_pc c'). \<exists>rc. p = W_done rc))"
proof -
  have abs: "cinfo_abs env og fs path None" using assms(5) by (simp add: cinfo_abs_def)
  have inv: "workers_inv env og path ops (lock_name fs path) None c"
    by (rule workers_inv_reach [OF assms(1-4) abs relpowp_imp_rtranclp [OF assms(6)]])
  have "workers_left (workers_start fs (length ops)) = 5 * length ops"
    by (simp add: workers_left_def workers_start_def sum_list_replicate)
  then have "k \<le> 5 * length ops" using workers_run_bound [OF assms(6)] by simp
  moreover have "\<exists>c'. worker_step env og path ops c c'" if "\<exists>p \<in> set (wc_pc c). \<nexists>rc. p = W_done rc"
  proof -
    obtain i where "i < length (wc_pc c)" "\<nexists>rc. wc_pc c ! i = W_done rc" using \<open>\<exists>p \<in> set (wc_pc c). \<nexists>rc. p = W_done rc\<close> by (metis in_set_conv_nth)
    then show ?thesis using workers_progress [OF assms(1-4) inv] workers_invD(1) [OF inv] by simp
  qed
  ultimately show ?thesis using workers_finish [OF assms(1-4) inv] by blast
qed


text \<open>Two workers on one file: one records a block, the other marks a range.\<close>

definition pair_ops :: "(u64 \<times> cinfo_op) list" where
  "pair_ops = [(1, Record_block 0 1), (2, Mark_dirty 5 3)]"

abbreviation pair_step :: "worker_cfg \<Rightarrow> worker_cfg \<Rightarrow> bool" where
  "pair_step \<equiv> worker_step xmeta_env cinfo_sample_origin (chars ''/d/a'') pair_ops"

abbreviation pair_start :: worker_cfg where
  "pair_start \<equiv> workers_start xfs_sample (length pair_ops)"

lemma sample_pair: "\<forall>op \<in> set pair_ops. cinfo_op_ok cinfo_sample_origin op" "length pair_ops = 2"
  by (simp_all add: pair_ops_def sample_blocks)

lemma pair_finish: "\<exists>c. pair_step\<^sup>*\<^sup>* pair_start c \<and> (\<forall>p \<in> set (wc_pc c). \<exists>rc. p = W_done rc)"
proof -
  have "cinfo_abs xmeta_env cinfo_sample_origin xfs_sample (chars ''/d/a'') None" using sample_no_record by (simp add: cinfo_abs_def)
  then have "workers_inv xmeta_env cinfo_sample_origin (chars ''/d/a'') pair_ops (lock_name xfs_sample (chars ''/d/a'')) None pair_start"
    by (rule workers_inv_start)
  from workers_finish [OF xmeta_env_healthy sample_key sample_origin(1) sample_pair(1) this] show ?thesis .
qed

lemma pair_critical: "\<exists>c. (pair_step ^^ Suc (Suc 0)) pair_start c \<and> pc_critical (wc_pc c ! 0)"
proof -
  obtain n fs' where l: "brix_xmeta_path_lock xmeta_env (wc_fs pair_start) (chars ''/d/a'') = (Some n, fs')"
    by (rule path_lock_ok [OF xmeta_env_healthy sample_key])
  have a: "cinfo_op_args cinfo_sample_origin (pair_ops ! 0)"
    using op_args_ok [OF sample_origin(1)] sample_pair by simp
  let ?b = "pair_start\<lparr>wc_fs := fs', wc_pc := (wc_pc pair_start)[0 := W_opened n]\<rparr>"
  let ?a = "?b\<lparr>wc_holder := (wc_holder ?b)(n \<mapsto> 0), wc_pc := (wc_pc ?b)[0 := W_locked n]\<rparr>"
  have s: "pair_step pair_start ?b"
    by (rule worker_step.open_lock [OF _ _ a l]) (simp_all add: workers_start_def sample_pair(2))
  have t: "pair_step ?b ?a"
    by (rule worker_step.flock) (simp_all add: workers_start_def sample_pair(2))
  have "(pair_step ^^ Suc 0) pair_start ?b" by (rule relpowp_Suc_I) (rule relpowp_0_I, rule s)
  then have "(pair_step ^^ Suc (Suc 0)) pair_start ?a" by (rule relpowp_Suc_I) (rule t)
  moreover have "pc_critical (wc_pc ?a ! 0)" by (simp add: workers_start_def sample_pair(2))
  ultimately show ?thesis by blast
qed

theorem cinfo_workers_linearizable_witness:
  "\<exists>c x. pair_step\<^sup>*\<^sup>* pair_start c \<and> brix_cache_cinfo_load xmeta_env (wc_fs c) (chars ''/d/a'') = Inr x
     \<and> header_shows cinfo_sample_origin \<lparr>cv_present = {1}, cv_lo = 5, cv_hi = 8, cv_since = 2, cv_flush_gen = 0, cv_last_flush = 0, cv_flushed = 0\<rparr> x"
proof -
  let ?v = "\<lparr>cv_present = {1}, cv_lo = 5, cv_hi = 8, cv_since = 2, cv_flush_gen = 0, cv_last_flush = 0, cv_flushed = 0\<rparr>"
  obtain c where c: "pair_step\<^sup>*\<^sup>* pair_start c" "\<forall>p \<in> set (wc_pc c). \<exists>rc. p = W_done rc" using pair_finish by blast
  obtain ops' where o: "mset ops' = mset pair_ops"
    "case fold cinfo_spec_step ops' None of
         None \<Rightarrow> brix_cache_cinfo_load xmeta_env (wc_fs c) (chars ''/d/a'') = Inl NGX_DECLINED
       | Some v \<Rightarrow> \<exists>x. brix_cache_cinfo_load xmeta_env (wc_fs c) (chars ''/d/a'') = Inr x \<and> header_shows cinfo_sample_origin v x"
    using cinfo_workers_linearizable [OF xmeta_env_healthy sample_key sample_origin(1) sample_pair(1) sample_no_record c] by blast
  have "length ops' = Suc (Suc 0)" using mset_eq_length [OF o(1)] by (simp add: pair_ops_def)
  then obtain a b where ab: "ops' = [a, b]" by (auto simp: length_Suc_conv)
  have "set ops' = set pair_ops" by (rule mset_eq_setD [OF o(1)])
  then have "ops' = pair_ops \<or> ops' = rev pair_ops" unfolding ab pair_ops_def by (simp add: doubleton_eq_iff) 
  then have "fold cinfo_spec_step ops' None = Some ?v"
    by (elim disjE) (simp_all add: cinfo_view_empty_def pair_ops_def)
  then obtain x where "brix_cache_cinfo_load xmeta_env (wc_fs c) (chars ''/d/a'') = Inr x" "header_shows cinfo_sample_origin ?v x"
    using o(2) by (simp only: option.case) blast
  then show ?thesis using c(1) by blast
qed

theorem cinfo_workers_exclusive_witness:
  "\<exists>c. pair_step\<^sup>*\<^sup>* pair_start c \<and> pc_critical (wc_pc c ! 0) \<and> \<not> pc_critical (wc_pc c ! 1) \<and> W_done NGX_ERROR \<notin> set (wc_pc c)"
proof -
  obtain c where c: "pair_step\<^sup>*\<^sup>* pair_start c" "pc_critical (wc_pc c ! 0)"
    using pair_critical by (blast intro: relpowp_imp_rtranclp)
  have l: "0 < length pair_ops" "1 < length pair_ops" by (simp_all add: sample_pair(2))
  note e = cinfo_workers_exclusive [OF xmeta_env_healthy sample_key sample_origin(1) sample_pair(1) sample_no_record c(1) l(1)]
  have "\<not> pc_critical (wc_pc c ! 1)" using e [OF l(2) c(2)] by auto
  then show ?thesis using c e [OF l(1) c(2) c(2)] by blast
qed

theorem cinfo_workers_terminate_witness:
  "\<exists>c c'. (pair_step ^^ Suc (Suc 0)) pair_start c \<and> pair_step\<^sup>*\<^sup>* c c' \<and> (\<forall>p \<in> set (wc_pc c'). \<exists>rc. p = W_done rc)"
proof -
  obtain c where c: "(pair_step ^^ Suc (Suc 0)) pair_start c" using pair_critical by blast
  from cinfo_workers_terminate [OF xmeta_env_healthy sample_key sample_origin(1) sample_pair(1) sample_no_record c] c
  show ?thesis by blast
qed

end
