(* ===== verification/Cache_Race.thy ===== *)
theory Cache_Race
  imports Cache_Lock
begin

text \<open>
  What the per-file lock does not cover: it is taken on the data file when there is one and on the sidecar when there is
  none, so a data file that appears between two openings gives two workers different locks.
\<close>


section \<open>A data file that appears\<close>

lemma publish_load:
  assumes "xmeta_key path" "fs_files fs path = None" "fs_xattr fs path = None"
  shows "brix_xmeta_path_load env (fs\<lparr>fs_files := (fs_files fs)(path \<mapsto> content)\<rparr>) path = brix_xmeta_path_load env fs path"
proof -
  let ?fs = "fs\<lparr>fs_files := (fs_files fs)(path \<mapsto> content)\<rparr>"
  obtain e where e: "sys_getxattr env fs path BRIX_XMETA_PATH_XATTR_MAX = Inl e"
    using assms(2) by (cases "xe_getxattr env") (auto simp: sys_getxattr_def)
  obtain e' where e': "sys_getxattr env ?fs path BRIX_XMETA_PATH_XATTR_MAX = Inl e'"
    using assms(3) by (cases "xe_getxattr env") (auto simp: sys_getxattr_def)
  have x: "xmeta_path_load_from_xattr env ?fs path = xmeta_path_load_from_xattr env fs path"
    unfolding xmeta_path_load_from_xattr_def e e' by simp
  have "path @ chars ''.cinfo'' \<noteq> path" using xmeta_key_sidecar(2) [OF assms(1), of path] by metis
  then have f: "fs_files ?fs (path @ chars ''.cinfo'') = fs_files fs (path @ chars ''.cinfo'')" by simp
  show ?thesis
    unfolding brix_xmeta_path_load_def x xmeta_key_sidecar(1) [OF assms(1)] option.case f by (rule refl)
qed

text \<open>Configurations of two workers, and the run in which the file is published between their openings.\<close>

definition two_workers :: "xfs_t \<Rightarrow> (bytes \<Rightarrow> nat option) \<Rightarrow> worker_pc \<Rightarrow> worker_pc \<Rightarrow> nat list \<Rightarrow> worker_cfg" where
  "two_workers f h p q order = \<lparr>wc_fs = f, wc_holder = h, wc_pc = [p, q], wc_order = order\<rparr>"

lemma race_run:
  assumes args: "cinfo_op_args og opA" "cinfo_op_args og opB" and ne: "sc \<noteq> path"
    and l1: "brix_xmeta_path_lock env fs path = (Some sc, fs1)" and mA: "cinfo_op_read env og path opA fs1 = Inr mA"
    and f1: "fs_files fs1 path = None" and fs2: "fs2 = fs1\<lparr>fs_files := (fs_files fs1)(path \<mapsto> content)\<rparr>"
    and l3: "brix_xmeta_path_lock env fs2 path = (Some path, fs3)" and mB: "cinfo_op_read env og path opB fs3 = Inr mB"
    and w4: "cinfo_xmeta_write env fs3 path (cinfo_op_update opB mB) = (NGX_OK, fs4)"
    and w5: "cinfo_xmeta_write env fs4 path (cinfo_op_update opA mA) = (NGX_OK, fs5)"
  shows "(\<lambda>x y. worker_step env og path [opA, opB] x y \<or> publish_step path content x y)\<^sup>*\<^sup>*
     (two_workers fs (\<lambda>_. None) W_start W_start [])
     (two_workers fs5 ((\<lambda>_. None)(sc := None, path := None)) (W_done NGX_OK) (W_done NGX_OK) [1, 0])"
proof -
  let ?ops = "[opA, opB]" and ?R = "\<lambda>x y. worker_step env og path [opA, opB] x y \<or> publish_step path content x y"
  let ?h0 = "\<lambda>_ :: bytes. None :: nat option"
  let ?h1 = "?h0(sc \<mapsto> 0)" and ?h2 = "(?h0(sc \<mapsto> 0))(path \<mapsto> 1)"
  have s1: "?R (two_workers fs ?h0 W_start W_start []) (two_workers fs1 ?h0 (W_opened sc) W_start [])"
    using worker_step.open_lock [of 0 "two_workers fs ?h0 W_start W_start []" og ?ops env path sc fs1] args(1) l1 by (simp add: two_workers_def)
  have s2: "?R (two_workers fs1 ?h0 (W_opened sc) W_start []) (two_workers fs1 ?h1 (W_locked sc) W_start [])"
    using worker_step.flock [of 0 "two_workers fs1 ?h0 (W_opened sc) W_start []" sc] by (simp add: two_workers_def)
  have s3: "?R (two_workers fs1 ?h1 (W_locked sc) W_start []) (two_workers fs1 ?h1 (W_loaded sc mA) W_start [])"
    using worker_step.load_ok [of 0 "two_workers fs1 ?h1 (W_locked sc) W_start []" sc env og path ?ops mA] mA by (simp add: two_workers_def)
  have s4: "?R (two_workers fs1 ?h1 (W_loaded sc mA) W_start []) (two_workers fs2 ?h1 (W_loaded sc mA) W_start [])"
    using publish_step.publish [of "two_workers fs1 ?h1 (W_loaded sc mA) W_start []" path content] f1 by (simp add: two_workers_def fs2)
  have s5: "?R (two_workers fs2 ?h1 (W_loaded sc mA) W_start []) (two_workers fs3 ?h1 (W_loaded sc mA) (W_opened path) [])"
    using worker_step.open_lock [of 1 "two_workers fs2 ?h1 (W_loaded sc mA) W_start []" og ?ops env path path fs3] args(2) l3 by (simp add: two_workers_def)
  have s6: "?R (two_workers fs3 ?h1 (W_loaded sc mA) (W_opened path) []) (two_workers fs3 ?h2 (W_loaded sc mA) (W_locked path) [])"
    using worker_step.flock [of 1 "two_workers fs3 ?h1 (W_loaded sc mA) (W_opened path) []" path] ne by (simp add: two_workers_def)
  have s7: "?R (two_workers fs3 ?h2 (W_loaded sc mA) (W_locked path) []) (two_workers fs3 ?h2 (W_loaded sc mA) (W_loaded path mB) [])"
    using worker_step.load_ok [of 1 "two_workers fs3 ?h2 (W_loaded sc mA) (W_locked path) []" path env og path ?ops mB] mB by (simp add: two_workers_def)
  have s8: "?R (two_workers fs3 ?h2 (W_loaded sc mA) (W_loaded path mB) []) (two_workers fs4 ?h2 (W_loaded sc mA) (W_settled path NGX_OK) [1])"
    using worker_step.save [of 1 "two_workers fs3 ?h2 (W_loaded sc mA) (W_loaded path mB) []" path mB env path ?ops NGX_OK fs4] w4 by (simp add: two_workers_def)
  have s9: "?R (two_workers fs4 ?h2 (W_loaded sc mA) (W_settled path NGX_OK) [1]) (two_workers fs5 ?h2 (W_settled sc NGX_OK) (W_settled path NGX_OK) [1, 0])"
    using worker_step.save [of 0 "two_workers fs4 ?h2 (W_loaded sc mA) (W_settled path NGX_OK) [1]" sc mA env path ?ops NGX_OK fs5] w5 by (simp add: two_workers_def)
  have s10: "?R (two_workers fs5 ?h2 (W_settled sc NGX_OK) (W_settled path NGX_OK) [1, 0]) (two_workers fs5 (?h2(path := None)) (W_settled sc NGX_OK) (W_done NGX_OK) [1, 0])"
    using worker_step.unlock [of 1 "two_workers fs5 ?h2 (W_settled sc NGX_OK) (W_settled path NGX_OK) [1, 0]" path NGX_OK] by (simp add: two_workers_def)
  have s11: "?R (two_workers fs5 (?h2(path := None)) (W_settled sc NGX_OK) (W_done NGX_OK) [1, 0]) (two_workers fs5 (?h2(path := None, sc := None)) (W_done NGX_OK) (W_done NGX_OK) [1, 0])"
    using worker_step.unlock [of 0 "two_workers fs5 (?h2(path := None)) (W_settled sc NGX_OK) (W_done NGX_OK) [1, 0]" sc NGX_OK] by (simp add: two_workers_def)
  note st = converse_rtranclp_into_rtranclp [where r = ?R]
  have "?R\<^sup>*\<^sup>* (two_workers fs ?h0 W_start W_start [])
      (two_workers fs5 (?h2(path := None, sc := None)) (W_done NGX_OK) (W_done NGX_OK) [1, 0])"
    by (rule st [OF s1], rule st [OF s2],
        rule st [OF s3], rule st [OF s4],
        rule st [OF s5], rule st [OF s6],
        rule st [OF s7], rule st [OF s8],
        rule st [OF s9], rule st [OF s10],
        rule st [OF s11], rule rtranclp.rtrancl_refl)
  moreover have "?h2(path := None, sc := None) = ?h0(sc := None, path := None)" by auto
  ultimately show ?thesis by (simp only:)
qed

text \<open>
  C18. The lock follows the data file.  While a worker holds the lock of a record whose data file does not exist (the sidecar),
  the data file may be published; a second worker then locks the data file instead.  Both workers are at the record, both
  report success, and the block of the second is lost.
\<close>
theorem cinfo_publish_loses_block:
  assumes env: "xenv_healthy env" and key: "xmeta_key path" and og: "origin_ok og"
    and blk: "a < origin_blocks og" "b < origin_blocks og" "a \<noteq> b"
    and fs: "fs_files fs path = None" "fs_xattr fs path = None" "brix_xmeta_path_load env fs path = Inl XMETA_FOREIGN"
  shows "\<exists>c h bm. (\<lambda>x y. worker_step env og path [(t, Record_block 0 a), (u, Record_block 0 b)] x y \<or> publish_step path content x y)\<^sup>*\<^sup>*
       (workers_start fs 2) c
     \<and> wc_pc c = [W_done NGX_OK, W_done NGX_OK] \<and> brix_cache_cinfo_load env (wc_fs c) path = Inr (h, Some bm)
     \<and> brix_cache_cinfo_block_present bm a \<and> \<not> brix_cache_cinfo_block_present bm b"
proof -
  let ?A = "(t, Record_block 0 a) :: u64 \<times> cinfo_op" and ?B = "(u, Record_block 0 b) :: u64 \<times> cinfo_op" and ?ops = "[(t, Record_block 0 a), (u, Record_block 0 b)]"
  let ?R = "\<lambda>x y. worker_step env og path ?ops x y \<or> publish_step path content x y"
  have ok: "cinfo_op_ok og ?A" "cinfo_op_ok og ?B" using blk by simp_all
  note args = op_args_ok [OF og ok(1)] op_args_ok [OF og ok(2)]
  let ?sc = "path @ chars ''.cinfo''"
  have ne: "?sc \<noteq> path" using xmeta_key_sidecar(2) [OF key, of path] by simp
  obtain n fs1 where l1: "brix_xmeta_path_lock env fs path = (Some n, fs1)"
      "fs1 = fs \<or> fs_files fs path = None \<and> fs_files fs ?sc = None \<and> fs1 = fs\<lparr>fs_files := (fs_files fs)(?sc \<mapsto> [])\<rparr>"
    by (rule path_lock_ok [OF env key])
  have n: "n = ?sc" using lock_name_lock(1) [OF env key l1(1)] fs(1) by (simp add: lock_name_def)
  have f1: "fs_files fs1 path = None" "fs_xattr fs1 path = None" using l1(2) fs ne by auto
  have ld1: "brix_xmeta_path_load env fs1 path = Inl XMETA_FOREIGN" using path_lock_load [OF env key key, of fs] l1(1) fs(3) by simp
  then have abs1: "cinfo_abs env og fs1 path None" by (simp add: cinfo_abs_def)
  obtain mA where mA: "cinfo_op_read env og path ?A fs1 = Inr mA" "loaded_ok og ?A None mA"
    using op_read_cases [OF env og abs1, of "?A"] by (auto split: sum.splits)
  define fs2 where "fs2 = fs1\<lparr>fs_files := (fs_files fs1)(path \<mapsto> content)\<rparr>"
  have f2: "fs_files fs2 path \<noteq> None" by (simp add: fs2_def)
  have ld2: "brix_xmeta_path_load env fs2 path = Inl XMETA_FOREIGN" using publish_load [OF key f1] ld1 by (simp add: fs2_def)
  obtain n' fs3 where l3: "brix_xmeta_path_lock env fs2 path = (Some n', fs3)" by (rule path_lock_ok [OF env key])
  have n': "n' = path" using lock_name_lock(1) [OF env key l3] f2 by (simp add: lock_name_def)
  have "brix_xmeta_path_load env fs3 path = Inl XMETA_FOREIGN" using path_lock_load [OF env key key, of fs2] l3 ld2 by simp
  then have abs3: "cinfo_abs env og fs3 path None" by (simp add: cinfo_abs_def)
  obtain mB where mB: "cinfo_op_read env og path ?B fs3 = Inr mB" "loaded_ok og ?B None mB"
    using op_read_cases [OF env og abs3, of "?B"] by (auto split: sum.splits)
  note uA = op_update_live [OF mA(2) ok(1)] and uB = op_update_live [OF mB(2) ok(2)]
  obtain fs4 where w4: "cinfo_xmeta_write env fs3 path (cinfo_op_update ?B mB) = (NGX_OK, fs4)" by (rule live_write [OF env key uB(1)])
  obtain fs5 where w5: "cinfo_xmeta_write env fs4 path (cinfo_op_update ?A mA) = (NGX_OK, fs5)"
      "cinfo_abs env og fs5 path (Some (cinfo_view_of (cinfo_op_update ?A mA)))" by (rule live_write [OF env key uA(1)])
  let ?fin = "two_workers fs5 ((\<lambda>_. None)(?sc := None, path := None)) (W_done NGX_OK) (W_done NGX_OK) [1, 0]"
  have steps: "?R\<^sup>*\<^sup>* (two_workers fs (\<lambda>_. None) W_start W_start []) ?fin"
    by (rule race_run [OF args ne l1(1) [unfolded n] mA(1) f1(1) fs2_def l3 [unfolded n'] mB(1) w4 w5(1)])
  have start: "workers_start fs 2 = two_workers fs (\<lambda>_. None) W_start W_start []" by (simp add: workers_start_def two_workers_def numeral_2_eq_2)
  have v: "cinfo_view_of (cinfo_op_update ?A mA) = cinfo_view_empty\<lparr>cv_present := {a}\<rparr>"
    using uA(2) by (simp add: cinfo_view_empty_def)
  obtain h bm where x: "brix_cache_cinfo_load env fs5 path = Inr (h, bm)" "header_shows og (cinfo_view_empty\<lparr>cv_present := {a}\<rparr>) (h, bm)"
    by (rule load_shows [OF env og w5(2) [unfolded v]]) (metis surj_pair)
  then obtain bs where "bm = Some bs" using blk(1) by (cases bm) (auto simp: header_shows_def)
  then have "brix_cache_cinfo_load env (wc_fs ?fin) path = Inr (h, Some bs)" "brix_cache_cinfo_block_present bs a" "\<not> brix_cache_cinfo_block_present bs b"
    using x blk by (auto simp: header_shows_def two_workers_def)
  moreover have "wc_pc ?fin = [W_done NGX_OK, W_done NGX_OK]" by (simp add: two_workers_def)
  ultimately show ?thesis unfolding start using steps by blast
qed

definition xfs_bare :: xfs_t where
  "xfs_bare = \<lparr>fs_files = (\<lambda>_. None), fs_xattr = (\<lambda>_. None)\<rparr>"

theorem cinfo_publish_loses_block_witness:
  "\<exists>c h bm. (\<lambda>x y. worker_step xmeta_env cinfo_sample_origin (chars ''/d/a'') [(1, Record_block 0 0), (1, Record_block 0 2)] x y
         \<or> publish_step (chars ''/d/a'') [1, 2, 3] x y)\<^sup>*\<^sup>* (workers_start xfs_bare 2) c
     \<and> wc_pc c = [W_done NGX_OK, W_done NGX_OK] \<and> brix_cache_cinfo_load xmeta_env (wc_fs c) (chars ''/d/a'') = Inr (h, Some bm)
     \<and> brix_cache_cinfo_block_present bm 0 \<and> \<not> brix_cache_cinfo_block_present bm 2"
proof -
  have "brix_xmeta_path_load xmeta_env xfs_bare (chars ''/d/a'') = Inl XMETA_FOREIGN"
    by (simp add: brix_xmeta_path_load_def xmeta_path_load_from_xattr_def sys_getxattr_def brix_xmeta_sidecar_path_def
        xmeta_env_def heap_zero_def xfs_bare_def chars_def of_char_def)
  moreover have "(0 :: u64) < origin_blocks cinfo_sample_origin" "(2 :: u64) < origin_blocks cinfo_sample_origin"
    by (simp_all add: sample_blocks)
  ultimately show ?thesis
    by (intro cinfo_publish_loses_block [OF xmeta_env_healthy sample_key sample_origin(1)]) (simp_all add: xfs_bare_def)
qed

end
