(* ===== verification/Cinfo_L1.thy ===== *)
theory Cinfo_L1
  imports Cache_Info "HOL-Library.Monad_Syntax"
begin

text \<open>
  The in-memory cache of record headers, \<^verbatim>\<open>src/fs/cache/cinfo_l1.c\<close>: a chained hash table whose
  entries are also on a doubly linked list, most recently used first.  The code works on shared nodes,
  so the model has a heap: a partial map from addresses to entries, \<open>None\<close> the null pointer.  Reading
  or writing an address that is not allocated is undefined in C; here it makes the whole operation
  \<open>None\<close>, and so does a chain walk that does not end.  That no operation is \<open>None\<close> is memory safety.

  An entry's key is its string (its own block in the code, allocated and freed with the entry).  The
  allocator is a parameter: a function from the addresses in use to a new one.  Every operation runs
  under the table's mutex and is a function from table to table.  The specification is the association
  list of keys and headers, most recent first.
\<close>

section \<open>The table\<close>

type_synonym addr = nat

record cinfo_l1_entry_t =
  l1_key :: bytes
  l1_hdr :: brix_cache_cinfo_t
  l1_hnext :: "addr option"
  l1_prev :: "addr option"
  l1_next :: "addr option"

type_synonym l1_heap = "addr \<Rightarrow> cinfo_l1_entry_t option"

record cinfo_l1_impl_t =
  l1_mem :: l1_heap
  l1_buckets :: "addr option list"
  l1_mask :: u64
  l1_head :: "addr option"
  l1_tail :: "addr option"
  l1_count :: u64
  l1_max :: u64

text \<open>Writing through a pointer, and \<open>free\<close>.\<close>

definition l1_write :: "addr \<Rightarrow> (cinfo_l1_entry_t \<Rightarrow> cinfo_l1_entry_t) \<Rightarrow> cinfo_l1_impl_t \<Rightarrow> cinfo_l1_impl_t option" where
  "l1_write a f t = (case l1_mem t a of None \<Rightarrow> None
     | Some e \<Rightarrow> Some (t\<lparr>l1_mem := (l1_mem t)(a \<mapsto> f e)\<rparr>))"

definition l1_free :: "addr \<Rightarrow> cinfo_l1_impl_t \<Rightarrow> cinfo_l1_impl_t option" where
  "l1_free a t = (case l1_mem t a of None \<Rightarrow> None
     | Some _ \<Rightarrow> Some (t\<lparr>l1_mem := (l1_mem t)(a := None)\<rparr>))"

text \<open>The loop does not end when no power of two below \<open>2\<^sup>6\<^sup>4\<close> is large enough: the shift then gives 0 for ever.\<close>

partial_function (option) cinfo_l1_pow2_loop :: "u64 \<Rightarrow> u64 \<Rightarrow> u64 option" where
  "cinfo_l1_pow2_loop n p = (if p < n then cinfo_l1_pow2_loop n (push_bit 1 p) else Some p)"

definition cinfo_l1_pow2_ceil :: "u64 \<Rightarrow> u64 option" where
  "cinfo_l1_pow2_ceil n = cinfo_l1_pow2_loop n 1"

definition cinfo_l1_hash :: "bytes \<Rightarrow> u64" where
  "cinfo_l1_hash key = foldl (\<lambda>h b. (h XOR ucast b) * 1099511628211) 1469598103934665603 key"

definition l1_bucket :: "cinfo_l1_impl_t \<Rightarrow> bytes \<Rightarrow> nat" where
  "l1_bucket t key = unat (cinfo_l1_hash key AND l1_mask t)"

section \<open>The recency list\<close>

definition cinfo_l1_lru_unlink :: "cinfo_l1_impl_t \<Rightarrow> addr \<Rightarrow> cinfo_l1_impl_t option" where
  "cinfo_l1_lru_unlink t a = do {
     e \<leftarrow> l1_mem t a;
     t \<leftarrow> (case l1_prev e of Some p \<Rightarrow> l1_write p (\<lambda>x. x\<lparr>l1_next := l1_next e\<rparr>) t
            | None \<Rightarrow> Some (t\<lparr>l1_head := l1_next e\<rparr>));
     e \<leftarrow> l1_mem t a;
     t \<leftarrow> (case l1_next e of Some n \<Rightarrow> l1_write n (\<lambda>x. x\<lparr>l1_prev := l1_prev e\<rparr>) t
            | None \<Rightarrow> Some (t\<lparr>l1_tail := l1_prev e\<rparr>));
     l1_write a (\<lambda>x. x\<lparr>l1_prev := None, l1_next := None\<rparr>) t }"

definition cinfo_l1_lru_push_front :: "cinfo_l1_impl_t \<Rightarrow> addr \<Rightarrow> cinfo_l1_impl_t option" where
  "cinfo_l1_lru_push_front t a = do {
     t \<leftarrow> l1_write a (\<lambda>x. x\<lparr>l1_prev := None, l1_next := l1_head t\<rparr>) t;
     t \<leftarrow> (case l1_head t of Some h \<Rightarrow> l1_write h (\<lambda>x. x\<lparr>l1_prev := Some a\<rparr>) t | None \<Rightarrow> Some t);
     let t = t\<lparr>l1_head := Some a\<rparr>;
     Some (if l1_tail t = None then t\<lparr>l1_tail := Some a\<rparr> else t) }"

definition cinfo_l1_touch :: "cinfo_l1_impl_t \<Rightarrow> addr \<Rightarrow> cinfo_l1_impl_t option" where
  "cinfo_l1_touch t a = (if l1_head t = Some a then Some t
     else do { t \<leftarrow> cinfo_l1_lru_unlink t a; cinfo_l1_lru_push_front t a })"

section \<open>The hash chains\<close>

partial_function (option) l1_find_loop :: "l1_heap \<Rightarrow> bytes \<Rightarrow> addr option \<Rightarrow> addr option option" where
  "l1_find_loop m key p = (case p of None \<Rightarrow> Some None
     | Some a \<Rightarrow> do { e \<leftarrow> m a; if l1_key e = key then Some (Some a) else l1_find_loop m key (l1_hnext e) })"

definition cinfo_l1_find :: "cinfo_l1_impl_t \<Rightarrow> bytes \<Rightarrow> nat \<Rightarrow> addr option option" where
  "cinfo_l1_find t key bucket = l1_find_loop (l1_mem t) key (l1_buckets t ! bucket)"

text \<open>The pointer to a pointer of the removal loop is a place: a bucket, or the chain field of an entry.\<close>

datatype l1_place = L1_bucket nat | L1_hnext addr

fun l1_get_place :: "cinfo_l1_impl_t \<Rightarrow> l1_place \<Rightarrow> addr option option" where
  "l1_get_place t (L1_bucket i) = Some (l1_buckets t ! i)"
| "l1_get_place t (L1_hnext a) = map_option l1_hnext (l1_mem t a)"

fun l1_set_place :: "cinfo_l1_impl_t \<Rightarrow> l1_place \<Rightarrow> addr option \<Rightarrow> cinfo_l1_impl_t option" where
  "l1_set_place t (L1_bucket i) v = Some (t\<lparr>l1_buckets := (l1_buckets t)[i := v]\<rparr>)"
| "l1_set_place t (L1_hnext a) v = l1_write a (\<lambda>x. x\<lparr>l1_hnext := v\<rparr>) t"

partial_function (option) l1_remove_loop :: "cinfo_l1_impl_t \<Rightarrow> addr \<Rightarrow> l1_place \<Rightarrow> cinfo_l1_impl_t option" where
  "l1_remove_loop t a pp = do { v \<leftarrow> l1_get_place t pp; (case v of None \<Rightarrow> Some t
     | Some q \<Rightarrow> if q = a then do { e \<leftarrow> l1_mem t a; l1_set_place t pp (l1_hnext e) }
                 else l1_remove_loop t a (L1_hnext q)) }"

definition cinfo_l1_bucket_remove :: "cinfo_l1_impl_t \<Rightarrow> addr \<Rightarrow> nat \<Rightarrow> cinfo_l1_impl_t option" where
  "cinfo_l1_bucket_remove t a bucket = l1_remove_loop t a (L1_bucket bucket)"

definition l1_forget :: "cinfo_l1_impl_t \<Rightarrow> addr \<Rightarrow> nat \<Rightarrow> cinfo_l1_impl_t option" where
  "l1_forget t a bucket = do {
     t \<leftarrow> cinfo_l1_bucket_remove t a bucket;
     t \<leftarrow> cinfo_l1_lru_unlink t a;
     t \<leftarrow> l1_free a t;
     Some (t\<lparr>l1_count := l1_count t - 1\<rparr>) }"

definition cinfo_l1_evict_tail :: "cinfo_l1_impl_t \<Rightarrow> cinfo_l1_impl_t option" where
  "cinfo_l1_evict_tail t = (case l1_tail t of None \<Rightarrow> Some t
     | Some v \<Rightarrow> do { e \<leftarrow> l1_mem t v; l1_forget t v (l1_bucket t (l1_key e)) })"

section \<open>The interface\<close>

text \<open>The four allocations and the mutex of the constructor each succeed or not.\<close>

definition brix_cinfo_l1_create ::
    "u64 \<Rightarrow> bool \<Rightarrow> bool \<Rightarrow> bool \<Rightarrow> bool \<Rightarrow> cinfo_l1_impl_t option option" where
  "brix_cinfo_l1_create max_entries l1_ok t_ok buckets_ok mutex_ok =
     (let max_entries = (if max_entries = 0 then 4096 else max_entries)
      in if \<not> l1_ok \<or> \<not> t_ok then Some None
         else do { nbuckets \<leftarrow> cinfo_l1_pow2_ceil max_entries;
           if \<not> buckets_ok \<or> \<not> mutex_ok then Some None
           else Some (Some \<lparr>l1_mem = (\<lambda>_. None), l1_buckets = replicate (unat nbuckets) None,
                            l1_mask = nbuckets - 1, l1_head = None, l1_tail = None, l1_count = 0,
                            l1_max = max_entries\<rparr>) })"

text \<open>The result of the destructor is the memory that is still allocated.\<close>

partial_function (option) l1_destroy_loop :: "cinfo_l1_impl_t \<Rightarrow> addr option \<Rightarrow> l1_heap option" where
  "l1_destroy_loop t p = (case p of None \<Rightarrow> Some (l1_mem t)
     | Some a \<Rightarrow> do { e \<leftarrow> l1_mem t a; t \<leftarrow> l1_free a t; l1_destroy_loop t (l1_next e) })"

definition brix_cinfo_l1_destroy :: "cinfo_l1_impl_t option \<Rightarrow> l1_heap option" where
  "brix_cinfo_l1_destroy l1 = (case l1 of None \<Rightarrow> Some (\<lambda>_. None) | Some t \<Rightarrow> l1_destroy_loop t (l1_head t))"

text \<open>
  A lookup.  The result is the return code, the caller's buffer and the table; the handle or the key may
  be null.
\<close>

definition brix_cinfo_l1_get ::
    "cinfo_l1_impl_t option \<Rightarrow> bytes option \<Rightarrow> brix_cache_cinfo_t option
     \<Rightarrow> (ngx_rc \<times> brix_cache_cinfo_t option \<times> cinfo_l1_impl_t option) option" where
  "brix_cinfo_l1_get l1 key out = (case (l1, key, out) of
       (Some t, Some k, Some _) \<Rightarrow> do {
         f \<leftarrow> cinfo_l1_find t k (l1_bucket t k);
         (case f of None \<Rightarrow> Some (NGX_DECLINED, out, l1)
          | Some a \<Rightarrow> do { e \<leftarrow> l1_mem t a; t \<leftarrow> cinfo_l1_touch t a; Some (NGX_OK, Some (l1_hdr e), Some t) }) }
     | _ \<Rightarrow> Some (NGX_DECLINED, out, l1))"

text \<open>An insertion; \<open>alloc\<close> is \<open>calloc\<close> (null when out of memory) and \<open>dup\<close> says whether \<open>strdup\<close> succeeds.\<close>

definition l1_insert ::
    "(addr set \<Rightarrow> addr option) \<Rightarrow> bool \<Rightarrow> cinfo_l1_impl_t \<Rightarrow> bytes \<Rightarrow> brix_cache_cinfo_t \<Rightarrow> cinfo_l1_impl_t option" where
  "l1_insert alloc dup t key hdr = (case alloc (dom (l1_mem t)) of None \<Rightarrow> Some t
     | Some a \<Rightarrow> if \<not> dup then Some t
       else do {
         let b = l1_bucket t key;
         let e = \<lparr>l1_key = key, l1_hdr = hdr, l1_hnext = l1_buckets t ! b, l1_prev = None, l1_next = None\<rparr>;
         let t = t\<lparr>l1_mem := (l1_mem t)(a \<mapsto> e), l1_buckets := (l1_buckets t)[b := Some a]\<rparr>;
         t \<leftarrow> cinfo_l1_lru_push_front t a;
         let t = t\<lparr>l1_count := l1_count t + 1\<rparr>;
         (if l1_count t > l1_max t then cinfo_l1_evict_tail t else Some t) })"

definition brix_cinfo_l1_put ::
    "(addr set \<Rightarrow> addr option) \<Rightarrow> bool \<Rightarrow> cinfo_l1_impl_t option \<Rightarrow> bytes option \<Rightarrow> brix_cache_cinfo_t option
     \<Rightarrow> cinfo_l1_impl_t option option" where
  "brix_cinfo_l1_put alloc dup l1 key hdr = (case (l1, key, hdr) of
       (Some t, Some k, Some h) \<Rightarrow> do {
         f \<leftarrow> cinfo_l1_find t k (l1_bucket t k);
         t \<leftarrow> (case f of Some a \<Rightarrow> do { t \<leftarrow> l1_write a (\<lambda>x. x\<lparr>l1_hdr := h\<rparr>) t; cinfo_l1_touch t a }
                | None \<Rightarrow> l1_insert alloc dup t k h);
         Some (Some t) }
     | _ \<Rightarrow> Some l1)"

definition brix_cinfo_l1_drop :: "cinfo_l1_impl_t option \<Rightarrow> bytes option \<Rightarrow> cinfo_l1_impl_t option option" where
  "brix_cinfo_l1_drop l1 key = (case (l1, key) of
       (Some t, Some k) \<Rightarrow> do {
         f \<leftarrow> cinfo_l1_find t k (l1_bucket t k);
         (case f of None \<Rightarrow> Some l1
          | Some a \<Rightarrow> do { t \<leftarrow> l1_forget t a (l1_bucket t k); Some (Some t) }) }
     | _ \<Rightarrow> Some l1)"

section \<open>Lists in the heap\<close>

fun l1_first :: "addr list \<Rightarrow> addr option \<Rightarrow> addr option" where
  "l1_first [] nx = nx"
| "l1_first (a # as) nx = Some a"

fun l1_dll :: "l1_heap \<Rightarrow> addr option \<Rightarrow> addr list \<Rightarrow> addr option \<Rightarrow> bool" where
  "l1_dll m pr [] nx = True"
| "l1_dll m pr (a # as) nx = (case m a of None \<Rightarrow> False
     | Some e \<Rightarrow> l1_prev e = pr \<and> l1_next e = l1_first as nx \<and> l1_dll m (Some a) as nx)"

definition l1_end :: "addr option \<Rightarrow> addr list \<Rightarrow> addr option" where
  "l1_end pr as = (if as = [] then pr else Some (List.last as))"

fun l1_chain :: "l1_heap \<Rightarrow> addr option \<Rightarrow> addr list \<Rightarrow> bool" where
  "l1_chain m p [] \<longleftrightarrow> p = None"
| "l1_chain m p (a # as) \<longleftrightarrow> p = Some a \<and> (case m a of None \<Rightarrow> False | Some e \<Rightarrow> l1_chain m (l1_hnext e) as)"

lemma l1_end_simps [simp]: "l1_end pr [] = pr" "l1_end pr (a # as) = l1_end (Some a) as" "l1_end pr (xs @ [p]) = Some p"
  by (simp_all add: l1_end_def)

lemma l1_first_append: "l1_first (xs @ ys) nx = l1_first xs (l1_first ys nx)"
  by (cases xs) simp_all

lemma l1_dll_append: "l1_dll m pr (xs @ ys) nx \<longleftrightarrow> l1_dll m pr xs (l1_first ys nx) \<and> l1_dll m (l1_end pr xs) ys nx"
  by (induction xs arbitrary: pr) (auto simp: l1_first_append split: option.split)

lemma l1_dll_cong:
  "\<forall>a\<in>set as. map_option (\<lambda>e. (l1_prev e, l1_next e)) (m' a) = map_option (\<lambda>e. (l1_prev e, l1_next e)) (m a)
    \<Longrightarrow> l1_dll m' pr as nx = l1_dll m pr as nx"
proof (induction as arbitrary: pr)
  case Nil
  then show ?case by simp
next
  case (Cons a as)
  have rest: "l1_dll m' (Some a) as nx = l1_dll m (Some a) as nx" using Cons by simp
  have "map_option (\<lambda>e. (l1_prev e, l1_next e)) (m' a) = map_option (\<lambda>e. (l1_prev e, l1_next e)) (m a)" using Cons.prems by simp
  then show ?case using rest by (cases "m' a"; cases "m a") auto
qed

lemma l1_dll_other [simp]: "a \<notin> set as \<Longrightarrow> l1_dll (m(a := x)) pr as nx = l1_dll m pr as nx"
  by (rule l1_dll_cong) auto

lemma l1_chain_cong:
  "\<forall>a\<in>set as. map_option l1_hnext (m' a) = map_option l1_hnext (m a) \<Longrightarrow> l1_chain m' p as = l1_chain m p as"
proof (induction as arbitrary: p)
  case Nil
  then show ?case by simp
next
  case (Cons a as)
  have rest: "l1_chain m' q as = l1_chain m q as" for q using Cons by simp
  have "map_option l1_hnext (m' a) = map_option l1_hnext (m a)" using Cons.prems by simp
  then show ?case using rest by (cases "m' a"; cases "m a") auto
qed

lemma l1_chain_other [simp]: "a \<notin> set as \<Longrightarrow> l1_chain (m(a := x)) p as = l1_chain m p as"
  by (rule l1_chain_cong) auto

lemma l1_dll_mem: "l1_dll m pr as nx \<Longrightarrow> a \<in> set as \<Longrightarrow> m a \<noteq> None"
  by (induction as arbitrary: pr) (auto split: option.splits)

lemma l1_dll_set_next:
  assumes "l1_dll m pr (xs @ [p]) nx" "p \<notin> set xs" "m p = Some e"
  shows "l1_dll (m(p \<mapsto> e\<lparr>l1_next := ny\<rparr>)) pr (xs @ [p]) ny"
  using assms by (simp add: l1_dll_append)

lemma l1_dll_set_prev:
  assumes "l1_dll m pr (n # ys) nx" "n \<notin> set ys" "m n = Some e"
  shows "l1_dll (m(n \<mapsto> e\<lparr>l1_prev := q\<rparr>)) q (n # ys) nx"
  using assms by simp

text \<open>What the operations on the list leave of the table, and the other way round.\<close>

definition l1_keeps_table :: "cinfo_l1_impl_t \<Rightarrow> cinfo_l1_impl_t \<Rightarrow> bool" where
  "l1_keeps_table t t' \<longleftrightarrow>
     (\<forall>a. map_option (\<lambda>e. (l1_key e, l1_hdr e, l1_hnext e)) (l1_mem t' a)
          = map_option (\<lambda>e. (l1_key e, l1_hdr e, l1_hnext e)) (l1_mem t a))
     \<and> l1_buckets t' = l1_buckets t \<and> l1_mask t' = l1_mask t \<and> l1_count t' = l1_count t \<and> l1_max t' = l1_max t"

definition l1_keeps_order :: "cinfo_l1_impl_t \<Rightarrow> cinfo_l1_impl_t \<Rightarrow> bool" where
  "l1_keeps_order t t' \<longleftrightarrow>
     (\<forall>a. map_option (\<lambda>e. (l1_key e, l1_hdr e, l1_prev e, l1_next e)) (l1_mem t' a)
          = map_option (\<lambda>e. (l1_key e, l1_hdr e, l1_prev e, l1_next e)) (l1_mem t a))
     \<and> l1_head t' = l1_head t \<and> l1_tail t' = l1_tail t \<and> length (l1_buckets t') = length (l1_buckets t)
     \<and> l1_mask t' = l1_mask t \<and> l1_count t' = l1_count t \<and> l1_max t' = l1_max t"

definition l1_ordered :: "cinfo_l1_impl_t \<Rightarrow> addr list \<Rightarrow> bool" where
  "l1_ordered t as \<longleftrightarrow> distinct as \<and> l1_dll (l1_mem t) None as None \<and> l1_head t = l1_first as None \<and> l1_tail t = l1_end None as"

lemma l1_keeps_table_refl [simp]: "l1_keeps_table t t"
  by (simp add: l1_keeps_table_def)

lemma l1_keeps_table_trans: "l1_keeps_table t t' \<Longrightarrow> l1_keeps_table t' t'' \<Longrightarrow> l1_keeps_table t t''"
  by (simp add: l1_keeps_table_def)

lemma l1_keeps_table_dom: "l1_keeps_table t t' \<Longrightarrow> l1_mem t' a = None \<longleftrightarrow> l1_mem t a = None"
proof -
  assume "l1_keeps_table t t'"
  then have "map_option (\<lambda>e. (l1_key e, l1_hdr e, l1_hnext e)) (l1_mem t' a)
      = map_option (\<lambda>e. (l1_key e, l1_hdr e, l1_hnext e)) (l1_mem t a)" by (simp add: l1_keeps_table_def)
  then show ?thesis by (cases "l1_mem t' a"; cases "l1_mem t a") auto
qed

lemma l1_write_some: "l1_mem t a = Some e \<Longrightarrow> l1_write a f t = Some (t\<lparr>l1_mem := (l1_mem t)(a \<mapsto> f e)\<rparr>)"
  by (simp add: l1_write_def)

lemma l1_keeps_table_write:
  assumes "l1_mem t a = Some e" "l1_key (f e) = l1_key e" "l1_hdr (f e) = l1_hdr e" "l1_hnext (f e) = l1_hnext e"
  shows "l1_keeps_table t (t\<lparr>l1_mem := (l1_mem t)(a \<mapsto> f e)\<rparr>)"
  using assms by (auto simp: l1_keeps_table_def)

lemma l1_ordered_mem: "l1_ordered t as \<Longrightarrow> a \<in> set as \<Longrightarrow> l1_mem t a \<noteq> None"
  using l1_dll_mem [of "l1_mem t" None as None a] by (auto simp: l1_ordered_def)

section \<open>The recency list is a list\<close>

text \<open>The two halves of an unlinking: the entry before takes the next, the entry after the previous.\<close>

lemma l1_unlink_next:
  assumes d: "l1_dll (l1_mem t) None (xs @ a # ys) None" and "distinct (xs @ a # ys)" and e: "l1_mem t a = Some e"
    and hd: "l1_head t = l1_first (xs @ a # ys) None"
  obtains t1 where "(case l1_prev e of Some p \<Rightarrow> l1_write p (\<lambda>x. x\<lparr>l1_next := l1_next e\<rparr>) t
            | None \<Rightarrow> Some (t\<lparr>l1_head := l1_next e\<rparr>)) = Some t1"
    "l1_dll (l1_mem t1) None xs (l1_first ys None)" "l1_dll (l1_mem t1) (Some a) ys None" "l1_mem t1 a = Some e"
    "l1_head t1 = l1_first (xs @ ys) None" "l1_tail t1 = l1_tail t" "l1_keeps_table t t1"
proof (cases xs rule: rev_cases)
  case Nil
  then have "l1_prev e = None" "l1_next e = l1_first ys None" "l1_dll (l1_mem t) (Some a) ys None" using d e by simp_all
  then show ?thesis using that [of "t\<lparr>l1_head := l1_next e\<rparr>"] Nil e by (simp add: l1_keeps_table_def)
next
  case (snoc zs p)
  have p: "l1_prev e = Some p" "l1_next e = l1_first ys None" "l1_dll (l1_mem t) (Some a) ys None"
    "l1_dll (l1_mem t) None (zs @ [p]) (Some a)"
    using d [unfolded l1_dll_append [of _ _ xs]] e snoc by simp_all
  obtain ep where ep: "l1_mem t p = Some ep" using l1_dll_mem [OF p(4), of p] by auto
  let ?t = "t\<lparr>l1_mem := (l1_mem t)(p \<mapsto> ep\<lparr>l1_next := l1_next e\<rparr>)\<rparr>"
  have n: "p \<noteq> a" "p \<notin> set zs" "p \<notin> set ys" using assms(2) snoc by auto
  have "l1_dll (l1_mem ?t) None (zs @ [p]) (l1_first ys None)" using l1_dll_set_next [OF p(4) n(2) ep] p(2) by simp
  moreover have "l1_head ?t = l1_first (xs @ ys) None" using hd snoc by (cases zs) simp_all
  ultimately show ?thesis using that [of ?t] p n ep e snoc
    by (simp add: l1_write_some [OF ep] l1_keeps_table_write [OF ep])
qed

lemma l1_unlink_prev:
  assumes d: "l1_dll (l1_mem t) None xs (l1_first ys None)" "l1_dll (l1_mem t) (Some a) ys None"
    and dist: "distinct (xs @ a # ys)" and e: "l1_mem t a = Some e"
    and pn: "l1_prev e = l1_end None xs" "l1_next e = l1_first ys None" and tl: "l1_tail t = l1_end None (xs @ a # ys)"
  obtains t1 where "(case l1_next e of Some n \<Rightarrow> l1_write n (\<lambda>x. x\<lparr>l1_prev := l1_prev e\<rparr>) t
            | None \<Rightarrow> Some (t\<lparr>l1_tail := l1_prev e\<rparr>)) = Some t1"
    "l1_dll (l1_mem t1) None (xs @ ys) None" "l1_mem t1 a = Some e"
    "l1_head t1 = l1_head t" "l1_tail t1 = l1_end None (xs @ ys)" "l1_keeps_table t t1"
proof (cases ys)
  case Nil
  then show ?thesis using that [of "t\<lparr>l1_tail := l1_prev e\<rparr>"] d e pn by (simp add: l1_keeps_table_def)
next
  case (Cons n zs)
  obtain en where en: "l1_mem t n = Some en" using l1_dll_mem [OF d(2), of n] Cons by auto
  let ?t = "t\<lparr>l1_mem := (l1_mem t)(n \<mapsto> en\<lparr>l1_prev := l1_prev e\<rparr>)\<rparr>"
  have n: "n \<noteq> a" "n \<notin> set zs" "n \<notin> set xs" using dist Cons by auto
  have "l1_dll (l1_mem ?t) (l1_prev e) ys None" using l1_dll_set_prev [OF d(2) [unfolded Cons] n(2) en] Cons by simp
  then have "l1_dll (l1_mem ?t) None (xs @ ys) None" using d(1) n(3) pn(1) by (simp add: l1_dll_append)
  moreover have "l1_tail ?t = l1_end None (xs @ ys)" using tl Cons by (simp add: l1_end_def)
  ultimately show ?thesis using that [of ?t] n en e pn Cons
    by (simp add: l1_write_some [OF en] l1_keeps_table_write [OF en])
qed

lemma l1_unlink_ok:
  assumes o: "l1_ordered t as" and a: "a \<in> set as"
  obtains t' where "cinfo_l1_lru_unlink t a = Some t'" "l1_ordered t' (remove1 a as)" "l1_keeps_table t t'"
proof -
  obtain xs ys where as: "as = xs @ a # ys" using a by (auto simp: in_set_conv_decomp)
  have d: "l1_dll (l1_mem t) None (xs @ a # ys) None" "distinct (xs @ a # ys)"
    "l1_head t = l1_first (xs @ a # ys) None" "l1_tail t = l1_end None (xs @ a # ys)"
    using o as by (simp_all add: l1_ordered_def)
  obtain e where e: "l1_mem t a = Some e" using l1_ordered_mem [OF o a] by auto
  have pn: "l1_prev e = l1_end None xs" "l1_next e = l1_first ys None" using d(1) e by (simp_all add: l1_dll_append)
  obtain t1 where t1: "(case l1_prev e of Some p \<Rightarrow> l1_write p (\<lambda>x. x\<lparr>l1_next := l1_next e\<rparr>) t
            | None \<Rightarrow> Some (t\<lparr>l1_head := l1_next e\<rparr>)) = Some t1"
    "l1_dll (l1_mem t1) None xs (l1_first ys None)" "l1_dll (l1_mem t1) (Some a) ys None" "l1_mem t1 a = Some e"
    "l1_head t1 = l1_first (xs @ ys) None" "l1_tail t1 = l1_tail t" "l1_keeps_table t t1"
    using l1_unlink_next [OF d(1,2) e d(3)] .
  have tl: "l1_tail t1 = l1_end None (xs @ a # ys)" using t1(6) d(4) by simp
  obtain t2 where t2: "(case l1_next e of Some n \<Rightarrow> l1_write n (\<lambda>x. x\<lparr>l1_prev := l1_prev e\<rparr>) t1
            | None \<Rightarrow> Some (t1\<lparr>l1_tail := l1_prev e\<rparr>)) = Some t2"
    "l1_dll (l1_mem t2) None (xs @ ys) None" "l1_mem t2 a = Some e"
    "l1_head t2 = l1_head t1" "l1_tail t2 = l1_end None (xs @ ys)" "l1_keeps_table t1 t2"
    using l1_unlink_prev [OF t1(2,3) d(2) t1(4) pn tl] .
  let ?t = "t2\<lparr>l1_mem := (l1_mem t2)(a \<mapsto> e\<lparr>l1_prev := None, l1_next := None\<rparr>)\<rparr>"
  have k: "l1_keeps_table t2 ?t" using l1_keeps_table_write [OF t2(3), of "\<lambda>e. e\<lparr>l1_prev := None, l1_next := None\<rparr>"] by simp
  have r: "remove1 a as = xs @ ys" using d(2) as by (simp add: remove1_append)
  have "cinfo_l1_lru_unlink t a = Some ?t"
    unfolding cinfo_l1_lru_unlink_def using e t1(1,4) t2(1) l1_write_some [OF t2(3)] by (simp add: option.case_eq_if)
  moreover have "l1_ordered ?t (remove1 a as)" using t2(2,4,5) t1(5) d(2) r by (auto simp: l1_ordered_def)
  ultimately show ?thesis using that l1_keeps_table_trans [OF t1(7) l1_keeps_table_trans [OF t2(6) k]] by blast
qed

lemma l1_push_ok:
  assumes o: "l1_ordered t as" and a: "a \<notin> set as" and e: "l1_mem t a = Some e"
  obtains t' where "cinfo_l1_lru_push_front t a = Some t'" "l1_ordered t' (a # as)" "l1_keeps_table t t'"
proof -
  have d: "l1_dll (l1_mem t) None as None" "distinct as" "l1_head t = l1_first as None" "l1_tail t = l1_end None as"
    using o by (simp_all add: l1_ordered_def)
  let ?e = "e\<lparr>l1_prev := None, l1_next := l1_head t\<rparr>"
  let ?t1 = "t\<lparr>l1_mem := (l1_mem t)(a \<mapsto> ?e)\<rparr>"
  have k1: "l1_keeps_table t ?t1" using l1_keeps_table_write [OF e, of "\<lambda>e. e\<lparr>l1_prev := None, l1_next := l1_head t\<rparr>"] by simp
  show ?thesis
  proof (cases as)
    case Nil
    let ?t = "?t1\<lparr>l1_head := Some a, l1_tail := Some a\<rparr>"
    have "cinfo_l1_lru_push_front t a = Some ?t"
      using Nil d by (simp add: cinfo_l1_lru_push_front_def l1_write_some [OF e])
    moreover have "l1_ordered ?t (a # as)" using Nil d by (simp add: l1_ordered_def)
    moreover have "l1_keeps_table t ?t" using k1 by (simp add: l1_keeps_table_def)
    ultimately show ?thesis using that by blast
  next
    case (Cons h zs)
    obtain eh where eh: "l1_mem t h = Some eh" using l1_ordered_mem [OF o, of h] Cons by auto
    have n: "h \<noteq> a" "h \<notin> set zs" using a d(2) Cons by auto
    let ?t2 = "?t1\<lparr>l1_mem := (l1_mem ?t1)(h \<mapsto> eh\<lparr>l1_prev := Some a\<rparr>)\<rparr>"
    let ?t = "?t2\<lparr>l1_head := Some a\<rparr>"
    have eh1: "l1_mem ?t1 h = Some eh" using eh n by simp
    have k2: "l1_keeps_table ?t1 ?t2" using l1_keeps_table_write [OF eh1, of "\<lambda>e. e\<lparr>l1_prev := Some a\<rparr>"] by simp
    have op: "cinfo_l1_lru_push_front t a = Some ?t"
      using Cons d(3,4) n by (simp add: cinfo_l1_lru_push_front_def l1_write_some e eh Let_def l1_end_def)
    have "l1_dll (l1_mem ?t2) (Some a) as None"
      using l1_dll_set_prev [of "l1_mem ?t1" None h zs None eh "Some a"] n d(1) a eh1 Cons by simp
    then have "l1_dll (l1_mem ?t) None (a # as) None" using n d(3) by simp
    then have "l1_ordered ?t (a # as)" using d a Cons by (simp add: l1_ordered_def)
    moreover have "l1_keeps_table t ?t" using l1_keeps_table_trans [OF k1 k2] by (simp add: l1_keeps_table_def)
    ultimately show ?thesis using op that by blast
  qed
qed

lemma l1_touch_ok:
  assumes o: "l1_ordered t as" and a: "a \<in> set as"
  obtains t' where "cinfo_l1_touch t a = Some t'" "l1_ordered t' (a # remove1 a as)" "l1_keeps_table t t'"
proof (cases "l1_head t = Some a")
  case True
  then obtain zs where "as = a # zs" using o a by (cases as) (auto simp: l1_ordered_def)
  then show ?thesis using that [of t] True o by (simp add: cinfo_l1_touch_def)
next
  case False
  obtain t1 where t1: "cinfo_l1_lru_unlink t a = Some t1" "l1_ordered t1 (remove1 a as)" "l1_keeps_table t t1"
    using l1_unlink_ok [OF o a] .
  have "a \<notin> set (remove1 a as)" using o by (simp add: l1_ordered_def)
  moreover obtain e where "l1_mem t1 a = Some e" using l1_keeps_table_dom [OF t1(3)] l1_ordered_mem [OF o a] by fastforce
  ultimately obtain t2 where "cinfo_l1_lru_push_front t1 a = Some t2" "l1_ordered t2 (a # remove1 a as)" "l1_keeps_table t1 t2"
    using l1_push_ok [OF t1(2)] by blast
  then show ?thesis using that False t1 l1_keeps_table_trans by (simp add: cinfo_l1_touch_def)
qed

section \<open>The hash chains hold each entry once\<close>

definition l1_slot :: "cinfo_l1_impl_t \<Rightarrow> addr set \<Rightarrow> nat \<Rightarrow> addr set" where
  "l1_slot t S b = {a \<in> S. \<exists>e. l1_mem t a = Some e \<and> l1_bucket t (l1_key e) = b}"

definition l1_hashed :: "cinfo_l1_impl_t \<Rightarrow> addr set \<Rightarrow> bool" where
  "l1_hashed t S \<longleftrightarrow> S \<subseteq> dom (l1_mem t) \<and> inj_on (\<lambda>a. map_option l1_key (l1_mem t a)) S
     \<and> unat (l1_mask t) < length (l1_buckets t)
     \<and> (\<forall>b<length (l1_buckets t). \<exists>cs. distinct cs \<and> l1_chain (l1_mem t) (l1_buckets t ! b) cs \<and> set cs = l1_slot t S b)"

lemma l1_bucket_less: "unat (l1_mask t) < length (l1_buckets t) \<Longrightarrow> l1_bucket t k < length (l1_buckets t)"
  using word_and_le1 [of "cinfo_l1_hash k" "l1_mask t"] by (simp add: l1_bucket_def word_le_nat_alt)

lemma l1_hashed_mask: "l1_hashed t S \<Longrightarrow> unat (l1_mask t) < length (l1_buckets t)"
  by (simp add: l1_hashed_def)

lemma l1_hashed_chain:
  assumes "l1_hashed t S" "b < length (l1_buckets t)"
  obtains cs where "distinct cs" "l1_chain (l1_mem t) (l1_buckets t ! b) cs" "set cs = l1_slot t S b"
  using assms by (auto simp: l1_hashed_def)

lemma l1_bucket_cong: "l1_mask t' = l1_mask t \<Longrightarrow> l1_bucket t' k = l1_bucket t k"
  by (simp add: l1_bucket_def)

lemma l1_slot_cong:
  assumes "l1_mask t' = l1_mask t" "\<forall>a\<in>S. map_option l1_key (l1_mem t' a) = map_option l1_key (l1_mem t a)"
  shows "l1_slot t' S b = l1_slot t S b"
proof -
  have "(\<exists>e. l1_mem t' a = Some e \<and> l1_bucket t' (l1_key e) = b) \<longleftrightarrow> (\<exists>e. l1_mem t a = Some e \<and> l1_bucket t (l1_key e) = b)"
    if "a \<in> S" for a
  proof -
    have "map_option l1_key (l1_mem t' a) = map_option l1_key (l1_mem t a)" using assms(2) that by blast
    then show ?thesis using l1_bucket_cong [OF assms(1)] by (cases "l1_mem t' a"; cases "l1_mem t a") auto
  qed
  then show ?thesis unfolding l1_slot_def by (intro Collect_cong conj_cong) simp_all
qed

text \<open>Chains only read keys and chain fields.\<close>

lemma l1_hashed_cong:
  assumes h: "l1_hashed t S" and b: "l1_buckets t' = l1_buckets t" "l1_mask t' = l1_mask t"
    and m: "\<forall>a\<in>S. map_option (\<lambda>e. (l1_key e, l1_hnext e)) (l1_mem t' a) = map_option (\<lambda>e. (l1_key e, l1_hnext e)) (l1_mem t a)"
  shows "l1_hashed t' S"
proof -
  have keys: "\<forall>a\<in>S. map_option l1_key (l1_mem t' a) = map_option l1_key (l1_mem t a)"
  proof
    fix a assume "a \<in> S"
    then show "map_option l1_key (l1_mem t' a) = map_option l1_key (l1_mem t a)"
      using m by (cases "l1_mem t' a"; cases "l1_mem t a") force+
  qed
  have nexts: "\<forall>a\<in>S. map_option l1_hnext (l1_mem t' a) = map_option l1_hnext (l1_mem t a)"
  proof
    fix a assume "a \<in> S"
    then show "map_option l1_hnext (l1_mem t' a) = map_option l1_hnext (l1_mem t a)"
      using m by (cases "l1_mem t' a"; cases "l1_mem t a") force+
  qed
  have "S \<subseteq> dom (l1_mem t')"
  proof
    fix a assume "a \<in> S"
    then have "l1_mem t a \<noteq> None" "map_option l1_key (l1_mem t' a) = map_option l1_key (l1_mem t a)"
      using h keys by (auto simp: l1_hashed_def)
    then show "a \<in> dom (l1_mem t')" by (cases "l1_mem t' a") auto
  qed
  moreover have "inj_on (\<lambda>a. map_option l1_key (l1_mem t' a)) S"
    using h keys by (simp add: l1_hashed_def inj_on_def)
  moreover have "\<exists>cs. distinct cs \<and> l1_chain (l1_mem t') (l1_buckets t' ! i) cs \<and> set cs = l1_slot t' S i"
    if i': "i < length (l1_buckets t')" for i
  proof -
    have i: "i < length (l1_buckets t)" using i' b(1) by simp
    obtain cs where cs: "distinct cs" "l1_chain (l1_mem t) (l1_buckets t ! i) cs" "set cs = l1_slot t S i"
      using l1_hashed_chain [OF h i] .
    have "set cs \<subseteq> S" using cs(3) by (auto simp: l1_slot_def)
    then have "l1_chain (l1_mem t') (l1_buckets t ! i) cs = l1_chain (l1_mem t) (l1_buckets t ! i) cs"
      using nexts by (intro l1_chain_cong) blast
    then show ?thesis using cs b l1_slot_cong [OF b(2) keys] by auto
  qed
  ultimately show ?thesis using h b by (simp add: l1_hashed_def)
qed

lemma l1_hashed_keeps: "l1_hashed t S \<Longrightarrow> l1_keeps_table t t' \<Longrightarrow> l1_hashed t' S"
proof (rule l1_hashed_cong)
  assume k: "l1_keeps_table t t'"
  show "\<forall>a\<in>S. map_option (\<lambda>e. (l1_key e, l1_hnext e)) (l1_mem t' a) = map_option (\<lambda>e. (l1_key e, l1_hnext e)) (l1_mem t a)"
  proof
    fix a
    have "map_option (\<lambda>e. (l1_key e, l1_hdr e, l1_hnext e)) (l1_mem t' a) = map_option (\<lambda>e. (l1_key e, l1_hdr e, l1_hnext e)) (l1_mem t a)"
      using k by (simp add: l1_keeps_table_def)
    then show "map_option (\<lambda>e. (l1_key e, l1_hnext e)) (l1_mem t' a) = map_option (\<lambda>e. (l1_key e, l1_hnext e)) (l1_mem t a)"
      by (cases "l1_mem t' a"; cases "l1_mem t a") auto
  qed
qed (simp_all add: l1_keeps_table_def)

lemma l1_find_loop_chain:
  "l1_chain m p cs \<Longrightarrow> l1_find_loop m key p = Some (List.find (\<lambda>a. map_option l1_key (m a) = Some key) cs)"
proof (induction cs arbitrary: p)
  case Nil
  then show ?case by (simp add: l1_find_loop.simps)
next
  case (Cons a cs)
  then show ?case by (auto simp: l1_find_loop.simps split: option.splits)
qed

lemma l1_find_ok:
  assumes h: "l1_hashed t S"
  obtains (absent) "cinfo_l1_find t key (l1_bucket t key) = Some None"
      "\<forall>a\<in>S. map_option l1_key (l1_mem t a) \<noteq> Some key"
    | (present) a e where "cinfo_l1_find t key (l1_bucket t key) = Some (Some a)" "a \<in> S" "l1_mem t a = Some e" "l1_key e = key"
proof -
  obtain cs where cs: "distinct cs" "l1_chain (l1_mem t) (l1_buckets t ! l1_bucket t key) cs" "set cs = l1_slot t S (l1_bucket t key)"
    using l1_hashed_chain [OF h l1_bucket_less [OF l1_hashed_mask [OF h], of key]] .
  have f: "cinfo_l1_find t key (l1_bucket t key) = Some (List.find (\<lambda>a. map_option l1_key (l1_mem t a) = Some key) cs)"
    by (simp add: cinfo_l1_find_def l1_find_loop_chain [OF cs(2)])
  show ?thesis
  proof (cases "List.find (\<lambda>a. map_option l1_key (l1_mem t a) = Some key) cs")
    case None
    then have "\<forall>a\<in>set cs. map_option l1_key (l1_mem t a) \<noteq> Some key" by (simp add: find_None_iff)
    then have "\<forall>a\<in>S. map_option l1_key (l1_mem t a) \<noteq> Some key" using cs(3) by (auto simp: l1_slot_def)
    then show ?thesis using absent f None by simp
  next
    case (Some a)
    then have "a \<in> set cs" "map_option l1_key (l1_mem t a) = Some key" by (auto simp: find_Some_iff)
    then show ?thesis using present f Some cs(3) by (auto simp: l1_slot_def)
  qed
qed

lemma l1_remove_loop_chain:
  assumes "l1_get_place t pp = Some v" "l1_chain (l1_mem t) v (xs @ a # ys)" "a \<notin> set xs" "l1_mem t a = Some e"
  shows "l1_remove_loop t a pp = l1_set_place t (if xs = [] then pp else L1_hnext (List.last xs)) (l1_hnext e)"
  using assms
proof (induction xs arbitrary: pp v)
  case Nil
  then show ?case by (subst l1_remove_loop.simps) simp
next
  case (Cons q xs)
  obtain eq where q: "v = Some q" "l1_mem t q = Some eq" "l1_chain (l1_mem t) (l1_hnext eq) (xs @ a # ys)" "q \<noteq> a"
    using Cons.prems by (auto split: option.splits)
  have "l1_remove_loop t a pp = l1_remove_loop t a (L1_hnext q)"
    using Cons.prems(1) q by (subst l1_remove_loop.simps) simp
  also have "\<dots> = l1_set_place t (if xs = [] then L1_hnext q else L1_hnext (List.last xs)) (l1_hnext e)"
    using Cons.IH [of "L1_hnext q"] q Cons.prems by simp
  finally show ?case by simp
qed

lemma l1_chain_append_set:
  assumes "l1_chain m p (xs @ a # ys)" "m a = Some e" "distinct (xs @ a # ys)"
  shows "xs = [] \<Longrightarrow> p = Some a \<and> l1_chain m (l1_hnext e) ys"
    and "xs \<noteq> [] \<Longrightarrow> m (List.last xs) = Some el \<Longrightarrow> l1_chain (m(List.last xs \<mapsto> el\<lparr>l1_hnext := l1_hnext e\<rparr>)) p (xs @ ys)"
proof -
  show "xs = [] \<Longrightarrow> p = Some a \<and> l1_chain m (l1_hnext e) ys" using assms by simp
  have "l1_chain m p (xs @ a # ys) \<Longrightarrow> distinct (xs @ a # ys) \<Longrightarrow> xs \<noteq> [] \<Longrightarrow> m (List.last xs) = Some el
    \<Longrightarrow> l1_chain (m(List.last xs \<mapsto> el\<lparr>l1_hnext := l1_hnext e\<rparr>)) p (xs @ ys)"
  proof (induction xs arbitrary: p)
    case Nil
    then show ?case by simp
  next
    case (Cons q xs)
    obtain eq where q: "p = Some q" "m q = Some eq" "l1_chain m (l1_hnext eq) (xs @ a # ys)"
      using Cons.prems by (auto split: option.splits)
    show ?case
    proof (cases "xs = []")
      case True
      then show ?thesis using Cons.prems q assms(2) l1_chain_other [of q ys m] by (simp add: fun_upd_def)
    next
      case False
      have "l1_chain (m(List.last xs \<mapsto> el\<lparr>l1_hnext := l1_hnext e\<rparr>)) (l1_hnext eq) (xs @ ys)"
        using Cons.IH [OF q(3)] Cons.prems False by (simp add: fun_upd_def)
      moreover have "List.last xs \<noteq> q" using Cons.prems(2) False last_in_set [OF False] by auto
      ultimately show ?thesis using False q by (simp add: fun_upd_def)
    qed
  qed
  then show "xs \<noteq> [] \<Longrightarrow> m (List.last xs) = Some el \<Longrightarrow> l1_chain (m(List.last xs \<mapsto> el\<lparr>l1_hnext := l1_hnext e\<rparr>)) p (xs @ ys)"
    using assms by blast
qed

text \<open>One chain replaced, the others untouched: what is needed to see that the table still holds.\<close>

lemma l1_hashed_replace:
  assumes h: "l1_hashed t S" and b: "b < length (l1_buckets t)"
    and len: "length (l1_buckets t') = length (l1_buckets t)" "l1_mask t' = l1_mask t"
    and keys: "\<forall>a\<in>S'. l1_mem t' a \<noteq> None" "inj_on (\<lambda>a. map_option l1_key (l1_mem t' a)) S'"
    and cs: "distinct cs" "l1_chain (l1_mem t') (l1_buckets t' ! b) cs" "set cs = l1_slot t' S' b"
    and other: "\<forall>i<length (l1_buckets t). i \<noteq> b \<longrightarrow> l1_buckets t' ! i = l1_buckets t ! i \<and> l1_slot t' S' i = l1_slot t S i"
    and next_other: "\<forall>x. x \<in> S \<and> x \<notin> l1_slot t S b \<longrightarrow> map_option l1_hnext (l1_mem t' x) = map_option l1_hnext (l1_mem t x)"
  shows "l1_hashed t' S'"
proof -
  have "\<exists>cs. distinct cs \<and> l1_chain (l1_mem t') (l1_buckets t' ! i) cs \<and> set cs = l1_slot t' S' i"
    if i: "i < length (l1_buckets t')" for i
  proof (cases "i = b")
    case True
    then show ?thesis using cs by blast
  next
    case False
    obtain ds where ds: "distinct ds" "l1_chain (l1_mem t) (l1_buckets t ! i) ds" "set ds = l1_slot t S i"
      using l1_hashed_chain [OF h, of i] i len by auto
    have "\<forall>x\<in>set ds. map_option l1_hnext (l1_mem t' x) = map_option l1_hnext (l1_mem t x)"
    proof
      fix x assume "x \<in> set ds"
      then have "x \<in> S" "x \<notin> l1_slot t S b" using ds(3) False by (auto simp: l1_slot_def)
      then show "map_option l1_hnext (l1_mem t' x) = map_option l1_hnext (l1_mem t x)" using next_other by blast
    qed
    then have "l1_chain (l1_mem t') (l1_buckets t ! i) ds" using ds(2) l1_chain_cong [of ds "l1_mem t'" "l1_mem t"] by simp
    then show ?thesis using ds False other i len by (intro exI [of _ ds]) simp
  qed
  moreover have "S' \<subseteq> dom (l1_mem t')" using keys by auto
  ultimately show ?thesis using h len keys by (simp add: l1_hashed_def)
qed

lemma l1_hashed_without:
  assumes h: "l1_hashed t S" and a: "l1_mem t a = Some e" and b: "b = l1_bucket t (l1_key e)" and k: "l1_keeps_order t t'"
    and xy: "distinct (xs @ a # ys)" "set (xs @ a # ys) = l1_slot t S b" "l1_chain (l1_mem t') (l1_buckets t' ! b) (xs @ ys)"
    and o: "\<forall>i<length (l1_buckets t). i \<noteq> b \<longrightarrow> l1_buckets t' ! i = l1_buckets t ! i"
    and n: "\<forall>x. x \<in> S \<and> x \<notin> l1_slot t S b \<longrightarrow> map_option l1_hnext (l1_mem t' x) = map_option l1_hnext (l1_mem t x)"
  shows "l1_hashed t' (S - {a})"
proof -
  have bl: "b < length (l1_buckets t)" using h l1_bucket_less b by (simp add: l1_hashed_def)
  have keys: "map_option l1_key (l1_mem t' x) = map_option l1_key (l1_mem t x)" for x
  proof -
    have "map_option (\<lambda>e. (l1_key e, l1_hdr e, l1_prev e, l1_next e)) (l1_mem t' x)
        = map_option (\<lambda>e. (l1_key e, l1_hdr e, l1_prev e, l1_next e)) (l1_mem t x)"
      using k by (simp add: l1_keeps_order_def)
    then show ?thesis by (cases "l1_mem t' x"; cases "l1_mem t x") auto
  qed
  have len: "length (l1_buckets t') = length (l1_buckets t)" "l1_mask t' = l1_mask t"
    using k by (simp_all add: l1_keeps_order_def)
  have slot: "l1_slot t' (S - {a}) i = l1_slot t S i - {a}" for i
    using l1_slot_cong [OF len(2), of "S - {a}" i] keys by (auto simp: l1_slot_def)
  show ?thesis
  proof (rule l1_hashed_replace [OF h bl len, where cs = "xs @ ys"])
    show "\<forall>x\<in>S - {a}. l1_mem t' x \<noteq> None"
    proof
      fix x assume "x \<in> S - {a}"
      then have "l1_mem t x \<noteq> None" using h by (auto simp: l1_hashed_def)
      then show "l1_mem t' x \<noteq> None" using keys [of x] by (cases "l1_mem t' x") auto
    qed
    show "inj_on (\<lambda>x. map_option l1_key (l1_mem t' x)) (S - {a})"
      using h keys by (simp add: l1_hashed_def inj_on_def)
    show "set (xs @ ys) = l1_slot t' (S - {a}) b" using slot xy(1,2) by auto
    show "\<forall>i<length (l1_buckets t). i \<noteq> b \<longrightarrow> l1_buckets t' ! i = l1_buckets t ! i \<and> l1_slot t' (S - {a}) i = l1_slot t S i"
      using o slot b a by (auto simp: l1_slot_def)
  qed (use xy n in auto)
qed

lemma l1_remove_ok:
  assumes h: "l1_hashed t S" and a: "a \<in> S" and e: "l1_mem t a = Some e"
  obtains t' where "cinfo_l1_bucket_remove t a (l1_bucket t (l1_key e)) = Some t'" "l1_hashed t' (S - {a})" "l1_keeps_order t t'"
proof -
  define b where "b = l1_bucket t (l1_key e)"
  have b: "b < length (l1_buckets t)" using h l1_bucket_less by (simp add: b_def l1_hashed_def)
  obtain cs where cs: "distinct cs" "l1_chain (l1_mem t) (l1_buckets t ! b) cs" "set cs = l1_slot t S b"
    using l1_hashed_chain [OF h b] .
  have "a \<in> set cs" using cs(3) a e b_def by (auto simp: l1_slot_def)
  then obtain xs ys where xy: "cs = xs @ a # ys" by (auto simp: in_set_conv_decomp)
  have d: "distinct (xs @ a # ys)" "a \<notin> set xs" "set (xs @ a # ys) = l1_slot t S b" using cs xy by auto
  have c: "l1_chain (l1_mem t) (l1_buckets t ! b) (xs @ a # ys)" using cs(2) xy by simp
  have op: "cinfo_l1_bucket_remove t a b = l1_set_place t (if xs = [] then L1_bucket b else L1_hnext (List.last xs)) (l1_hnext e)"
    unfolding cinfo_l1_bucket_remove_def using l1_remove_loop_chain [OF _ c d(2) e] by simp
  note fin = l1_hashed_without [OF h e b_def _ d(1,3)]
  show ?thesis
  proof (cases "xs = []")
    case True
    let ?t = "t\<lparr>l1_buckets := (l1_buckets t)[b := l1_hnext e]\<rparr>"
    have k: "l1_keeps_order t ?t" by (simp add: l1_keeps_order_def)
    have "l1_hashed ?t (S - {a})" by (rule fin [OF k]) (use b l1_chain_append_set(1) [OF c e d(1)] True in auto)
    then show ?thesis using that [of ?t] op True k by (simp add: b_def)
  next
    case False
    define p where "p = List.last xs"
    have p1: "p \<in> set xs" using False by (simp add: p_def)
    then have p: "p \<in> l1_slot t S b" using d(3) by auto
    then obtain ep where ep: "l1_mem t p = Some ep" by (auto simp: l1_slot_def)
    let ?t = "t\<lparr>l1_mem := (l1_mem t)(p \<mapsto> ep\<lparr>l1_hnext := l1_hnext e\<rparr>)\<rparr>"
    have k: "l1_keeps_order t ?t" using ep by (auto simp: l1_keeps_order_def)
    have ch: "l1_chain (l1_mem ?t) (l1_buckets ?t ! b) (xs @ ys)"
      using l1_chain_append_set(2) [OF c e d(1) False] ep by (simp add: p_def)
    have "l1_hashed ?t (S - {a})" by (rule fin [OF k ch]) (use p in auto)
    moreover have "cinfo_l1_bucket_remove t a b = Some ?t" using op False l1_write_some [OF ep] by (simp add: p_def)
    ultimately show ?thesis using that [of ?t] k by (simp add: b_def)
  qed
qed

lemma l1_hashed_insert:
  assumes h: "l1_hashed t S" and a: "l1_mem t a = None" and new: "\<forall>x\<in>S. map_option l1_key (l1_mem t x) \<noteq> Some (l1_key e)"
    and b: "b = l1_bucket t (l1_key e)" and e: "l1_hnext e = l1_buckets t ! b"
  shows "l1_hashed (t\<lparr>l1_mem := (l1_mem t)(a \<mapsto> e), l1_buckets := (l1_buckets t)[b := Some a]\<rparr>) (insert a S)"
    (is "l1_hashed ?t _")
proof -
  have bl: "b < length (l1_buckets t)" using h l1_bucket_less b by (simp add: l1_hashed_def)
  have aS: "a \<notin> S" using h a by (auto simp: l1_hashed_def)
  obtain cs where cs: "distinct cs" "l1_chain (l1_mem t) (l1_buckets t ! b) cs" "set cs = l1_slot t S b"
    using l1_hashed_chain [OF h bl] .
  have acs: "a \<notin> set cs" using cs(3) aS by (auto simp: l1_slot_def)
  have slot: "l1_slot ?t (insert a S) i = (if i = b then insert a (l1_slot t S i) else l1_slot t S i)" for i
    using aS b by (auto simp: l1_slot_def l1_bucket_def)
  show ?thesis
  proof (rule l1_hashed_replace [OF h bl, where cs = "a # cs"])
    show "inj_on (\<lambda>x. map_option l1_key (l1_mem ?t x)) (insert a S)"
    proof (rule inj_onI)
      fix x y assume xy: "x \<in> insert a S" "y \<in> insert a S" "map_option l1_key (l1_mem ?t x) = map_option l1_key (l1_mem ?t y)"
      have "inj_on (\<lambda>x. map_option l1_key (l1_mem t x)) S" using h by (simp add: l1_hashed_def)
      then show "x = y" using xy new aS by (cases "x = a"; cases "y = a") (auto dest: inj_onD)
    qed
    show "\<forall>x\<in>insert a S. l1_mem ?t x \<noteq> None" using h by (auto simp: l1_hashed_def)
    show "distinct (a # cs)" using cs acs by simp
    show "l1_chain (l1_mem ?t) (l1_buckets ?t ! b) (a # cs)" using cs(2) acs e bl by simp
    show "set (a # cs) = l1_slot ?t (insert a S) b" using slot cs(3) by simp
    show "\<forall>i<length (l1_buckets t). i \<noteq> b \<longrightarrow> l1_buckets ?t ! i = l1_buckets t ! i \<and> l1_slot ?t (insert a S) i = l1_slot t S i"
      using slot by simp
    show "\<forall>x. x \<in> S \<and> x \<notin> l1_slot t S b \<longrightarrow> map_option l1_hnext (l1_mem ?t x) = map_option l1_hnext (l1_mem t x)"
      using aS by auto
  qed simp_all
qed

end
