(* ===== verification/Cinfo_L1_Lru.thy ===== *)
theory Cinfo_L1_Lru
  imports Cinfo_L1
begin

text \<open>
  What the table of \<^verbatim>\<open>cinfo_l1.c\<close> is for its users: a list of keys and headers, most recent first, of
  at most the configured length.  Every operation is defined (no dangling or null pointer is used, every
  walk ends), leaves no entry unreachable, and does to the list what the header file promises.
\<close>

section \<open>The table is the list of its entries\<close>

definition cinfo_l1_wf :: "cinfo_l1_impl_t \<Rightarrow> addr list \<Rightarrow> bool" where
  "cinfo_l1_wf t as \<longleftrightarrow> l1_ordered t as \<and> l1_hashed t (set as) \<and> dom (l1_mem t) = set as
     \<and> l1_count t = of_nat (length as) \<and> length as \<le> unat (l1_max t) \<and> 0 < unat (l1_max t) \<and> unat (l1_max t) \<le> 2 ^ 63"

definition l1_pair :: "l1_heap \<Rightarrow> addr \<Rightarrow> bytes \<times> brix_cache_cinfo_t" where
  "l1_pair m a = (case m a of None \<Rightarrow> ([], cinfo_zero) | Some e \<Rightarrow> (l1_key e, l1_hdr e))"

definition cinfo_l1_rep :: "cinfo_l1_impl_t \<Rightarrow> (bytes \<times> brix_cache_cinfo_t) list \<Rightarrow> bool" where
  "cinfo_l1_rep t l \<longleftrightarrow> (\<exists>as. cinfo_l1_wf t as \<and> l = map (l1_pair (l1_mem t)) as)"

lemma cinfo_l1_repI: "cinfo_l1_wf t as \<Longrightarrow> cinfo_l1_rep t (map (l1_pair (l1_mem t)) as)"
  by (auto simp: cinfo_l1_rep_def)

lemma l1_length_remove1: "a \<in> set as \<Longrightarrow> length as = Suc (length (remove1 a as))"
  by (induction as) auto

text \<open>The specification, on association lists.\<close>

definition lru_front :: "bytes \<Rightarrow> brix_cache_cinfo_t \<Rightarrow> (bytes \<times> brix_cache_cinfo_t) list \<Rightarrow> (bytes \<times> brix_cache_cinfo_t) list" where
  "lru_front k h l = (k, h) # filter (\<lambda>p. fst p \<noteq> k) l"

lemma l1_ordered_keeps: "l1_ordered t as \<Longrightarrow> l1_keeps_order t t' \<Longrightarrow> l1_ordered t' as"
proof -
  assume o: "l1_ordered t as" and k: "l1_keeps_order t t'"
  have "l1_dll (l1_mem t') None as None = l1_dll (l1_mem t) None as None"
  proof (intro l1_dll_cong ballI)
    fix a
    have "map_option (\<lambda>e. (l1_key e, l1_hdr e, l1_prev e, l1_next e)) (l1_mem t' a)
        = map_option (\<lambda>e. (l1_key e, l1_hdr e, l1_prev e, l1_next e)) (l1_mem t a)"
      using k by (simp add: l1_keeps_order_def)
    then show "map_option (\<lambda>e. (l1_prev e, l1_next e)) (l1_mem t' a) = map_option (\<lambda>e. (l1_prev e, l1_next e)) (l1_mem t a)"
      by (cases "l1_mem t' a"; cases "l1_mem t a") auto
  qed
  then show ?thesis using o k by (simp add: l1_ordered_def l1_keeps_order_def)
qed

lemma l1_pair_keeps_table: "l1_keeps_table t t' \<Longrightarrow> l1_pair (l1_mem t') a = l1_pair (l1_mem t) a"
proof -
  assume "l1_keeps_table t t'"
  then have "map_option (\<lambda>e. (l1_key e, l1_hdr e, l1_hnext e)) (l1_mem t' a)
      = map_option (\<lambda>e. (l1_key e, l1_hdr e, l1_hnext e)) (l1_mem t a)" by (simp add: l1_keeps_table_def)
  then show ?thesis by (cases "l1_mem t' a"; cases "l1_mem t a") (auto simp: l1_pair_def)
qed

lemma l1_pair_keeps_order: "l1_keeps_order t t' \<Longrightarrow> l1_pair (l1_mem t') a = l1_pair (l1_mem t) a"
proof -
  assume "l1_keeps_order t t'"
  then have "map_option (\<lambda>e. (l1_key e, l1_hdr e, l1_prev e, l1_next e)) (l1_mem t' a)
      = map_option (\<lambda>e. (l1_key e, l1_hdr e, l1_prev e, l1_next e)) (l1_mem t a)" by (simp add: l1_keeps_order_def)
  then show ?thesis by (cases "l1_mem t' a"; cases "l1_mem t a") (auto simp: l1_pair_def)
qed

lemma l1_keeps_order_dom: "l1_keeps_order t t' \<Longrightarrow> dom (l1_mem t') = dom (l1_mem t)"
proof -
  assume k: "l1_keeps_order t t'"
  have "l1_mem t' a = None \<longleftrightarrow> l1_mem t a = None" for a
  proof -
    have "map_option (\<lambda>e. (l1_key e, l1_hdr e, l1_prev e, l1_next e)) (l1_mem t' a)
        = map_option (\<lambda>e. (l1_key e, l1_hdr e, l1_prev e, l1_next e)) (l1_mem t a)"
      using k by (simp add: l1_keeps_order_def)
    then show ?thesis by (cases "l1_mem t' a"; cases "l1_mem t a") auto
  qed
  then show ?thesis by (auto simp: dom_def)
qed

lemma l1_keeps_table_dom_eq: "l1_keeps_table t t' \<Longrightarrow> dom (l1_mem t') = dom (l1_mem t)"
  using l1_keeps_table_dom by (auto simp: dom_def)

lemma l1_wf_keys:
  assumes "l1_hashed t S" "x \<in> S" "y \<in> S" "fst (l1_pair (l1_mem t) x) = fst (l1_pair (l1_mem t) y)"
  shows "x = y"
proof -
  have "l1_mem t x \<noteq> None" "l1_mem t y \<noteq> None" using assms(1-3) by (auto simp: l1_hashed_def)
  then have "map_option l1_key (l1_mem t x) = map_option l1_key (l1_mem t y)" using assms(4) by (auto simp: l1_pair_def)
  then show ?thesis using assms(1-3) unfolding l1_hashed_def by (blast dest: inj_onD)
qed

lemma l1_without:
  assumes "l1_hashed t (set as)" "distinct as" "a \<in> set as" "l1_mem t a = Some e"
  shows "map (l1_pair (l1_mem t)) (remove1 a as) = filter (\<lambda>p. fst p \<noteq> l1_key e) (map (l1_pair (l1_mem t)) as)"
proof -
  have a: "fst (l1_pair (l1_mem t) a) = l1_key e" using assms(4) by (simp add: l1_pair_def)
  have "x \<noteq> a \<longleftrightarrow> fst (l1_pair (l1_mem t) x) \<noteq> l1_key e" if "x \<in> set as" for x
    using l1_wf_keys [OF assms(1) that assms(3)] a by auto
  then have "filter (\<lambda>x. x \<noteq> a) as = filter (\<lambda>x. fst (l1_pair (l1_mem t) x) \<noteq> l1_key e) as"
    by (intro filter_cong) simp_all
  then show ?thesis using assms(2) by (simp add: distinct_remove1_removeAll removeAll_filter_not_eq filter_map comp_def eq_commute)
qed

lemma l1_rep_distinct: "cinfo_l1_wf t as \<Longrightarrow> distinct (map fst (map (l1_pair (l1_mem t)) as))"
  using l1_wf_keys [of t "set as"] by (auto simp: cinfo_l1_wf_def l1_ordered_def distinct_map inj_on_def)

lemma l1_map_of_present:
  assumes "cinfo_l1_wf t as" "a \<in> set as" "l1_mem t a = Some e"
  shows "map_of (map (l1_pair (l1_mem t)) as) (l1_key e) = Some (l1_hdr e)"
proof -
  have "l1_pair (l1_mem t) a \<in> set (map (l1_pair (l1_mem t)) as)" using assms(2) by simp
  then have "(l1_key e, l1_hdr e) \<in> set (map (l1_pair (l1_mem t)) as)" using assms(3) by (simp add: l1_pair_def)
  then show ?thesis using map_of_is_SomeI [OF l1_rep_distinct [OF assms(1)]] by simp
qed

lemma l1_map_of_absent:
  assumes "cinfo_l1_wf t as" "\<forall>a\<in>set as. map_option l1_key (l1_mem t a) \<noteq> Some k"
  shows "map_of (map (l1_pair (l1_mem t)) as) k = None"
proof -
  have "fst (l1_pair (l1_mem t) a) \<noteq> k" if "a \<in> set as" for a
  proof -
    have "l1_mem t a \<noteq> None" using assms(1) that by (auto simp: cinfo_l1_wf_def)
    then show ?thesis using assms(2) that by (auto simp: l1_pair_def)
  qed
  then show ?thesis by (simp add: map_of_eq_None_iff image_image) blast
qed

text \<open>Promotion of an entry whose header was written.\<close>

lemma l1_promote:
  assumes w: "cinfo_l1_wf t as" and a: "a \<in> set as" and e: "l1_mem t a = Some e"
    and t1: "t1 = t\<lparr>l1_mem := (l1_mem t)(a \<mapsto> e\<lparr>l1_hdr := h\<rparr>)\<rparr>"
  obtains t' where "cinfo_l1_touch t1 a = Some t'"
    "cinfo_l1_rep t' (lru_front (l1_key e) h (map (l1_pair (l1_mem t)) as))" "l1_max t' = l1_max t"
proof -
  have o: "l1_ordered t as" "l1_hashed t (set as)" "dom (l1_mem t) = set as" "distinct as"
    using w by (simp_all add: cinfo_l1_wf_def l1_ordered_def)
  have o1: "l1_ordered t1 as"
  proof -
    have "l1_dll (l1_mem t1) None as None = l1_dll (l1_mem t) None as None" using e t1 by (intro l1_dll_cong) auto
    then show ?thesis using o(1) t1 by (simp add: l1_ordered_def)
  qed
  have h1: "l1_hashed t1 (set as)" by (rule l1_hashed_cong [OF o(2)]) (use e t1 in auto)
  obtain t' where t': "cinfo_l1_touch t1 a = Some t'" "l1_ordered t' (a # remove1 a as)" "l1_keeps_table t1 t'"
    using l1_touch_ok [OF o1 a] .
  have s: "set (a # remove1 a as) = set as" using a o(4) by auto
  have m: "l1_mask t' = l1_mask t" "l1_count t' = l1_count t" "l1_max t' = l1_max t"
    using t'(3) t1 by (simp_all add: l1_keeps_table_def)
  have d: "dom (l1_mem t') = set as" using l1_keeps_table_dom_eq [OF t'(3)] t1 o(3) a by auto
  have "length (a # remove1 a as) = length as" using l1_length_remove1 [OF a] by simp
  then have w': "cinfo_l1_wf t' (a # remove1 a as)"
    unfolding cinfo_l1_wf_def s using t'(2) l1_hashed_keeps [OF h1 t'(3)] d w m by (simp add: cinfo_l1_wf_def)
  have p: "l1_pair (l1_mem t') x = (if x = a then (l1_key e, h) else l1_pair (l1_mem t) x)" for x
    unfolding l1_pair_keeps_table [OF t'(3)] using t1 by (simp add: l1_pair_def)
  have "map (l1_pair (l1_mem t')) (remove1 a as) = map (l1_pair (l1_mem t)) (remove1 a as)"
    using o(4) p by (intro map_cong) auto
  then have "map (l1_pair (l1_mem t')) (a # remove1 a as) = lru_front (l1_key e) h (map (l1_pair (l1_mem t)) as)"
    using p l1_without [OF o(2,4) a e] by (simp add: lru_front_def)
  then show ?thesis using that [OF t'(1)] cinfo_l1_repI [OF w'] m by simp
qed

lemma l1_remove1_last: "distinct (xs @ [a]) \<Longrightarrow> remove1 a (xs @ [a]) = xs"
  by (simp add: remove1_append)

text \<open>Removal of an entry from both structures and from memory.\<close>

lemma l1_forget_ok:
  assumes o: "l1_ordered t as" and h: "l1_hashed t (set as)" and d: "dom (l1_mem t) = set as"
    and a: "a \<in> set as" and e: "l1_mem t a = Some e"
  obtains t' where "l1_forget t a (l1_bucket t (l1_key e)) = Some t'" "l1_ordered t' (remove1 a as)"
    "l1_hashed t' (set (remove1 a as))" "dom (l1_mem t') = set (remove1 a as)"
    "\<forall>x\<in>set (remove1 a as). l1_pair (l1_mem t') x = l1_pair (l1_mem t) x" "l1_count t' = l1_count t - 1" "l1_max t' = l1_max t"
proof -
  obtain t1 where t1: "cinfo_l1_bucket_remove t a (l1_bucket t (l1_key e)) = Some t1" "l1_hashed t1 (set as - {a})" "l1_keeps_order t t1"
    using l1_remove_ok [OF h a e] .
  obtain t2 where t2: "cinfo_l1_lru_unlink t1 a = Some t2" "l1_ordered t2 (remove1 a as)" "l1_keeps_table t1 t2"
    using l1_unlink_ok [OF l1_ordered_keeps [OF o t1(3)] a] .
  have dist: "distinct as" using o by (simp add: l1_ordered_def)
  have s: "set (remove1 a as) = set as - {a}" using dist by simp
  have dom2: "dom (l1_mem t2) = set as" using l1_keeps_table_dom_eq [OF t2(3)] l1_keeps_order_dom [OF t1(3)] d by simp
  then obtain e2 where e2: "l1_mem t2 a = Some e2" using a by blast
  define t' where "t' = t2\<lparr>l1_mem := (l1_mem t2)(a := None), l1_count := l1_count t2 - 1\<rparr>"
  have f: "l1_free a t2 = Some (t2\<lparr>l1_mem := (l1_mem t2)(a := None)\<rparr>)" using e2 by (simp add: l1_free_def)
  have op: "l1_forget t a (l1_bucket t (l1_key e)) = Some t'"
    using t1(1) t2(1) f by (simp add: l1_forget_def t'_def)
  have "l1_hashed t2 (set as - {a})" by (rule l1_hashed_keeps [OF t1(2) t2(3)])
  then have h': "l1_hashed t' (set (remove1 a as))" unfolding s by (rule l1_hashed_cong) (auto simp: t'_def)
  have o': "l1_ordered t' (remove1 a as)" using t2(2) dist by (simp add: l1_ordered_def t'_def)
  have p: "\<forall>x\<in>set (remove1 a as). l1_pair (l1_mem t') x = l1_pair (l1_mem t) x"
  proof
    fix x assume "x \<in> set (remove1 a as)"
    then have "l1_pair (l1_mem t') x = l1_pair (l1_mem t2) x" using s by (auto simp: t'_def l1_pair_def)
    then show "l1_pair (l1_mem t') x = l1_pair (l1_mem t) x"
      by (simp add: l1_pair_keeps_table [OF t2(3)] l1_pair_keeps_order [OF t1(3)])
  qed
  have "dom (l1_mem t') = set (remove1 a as)" using dom2 s by (simp add: t'_def)
  moreover have "l1_count t' = l1_count t - 1" "l1_max t' = l1_max t"
    using t1(3) t2(3) by (simp_all add: t'_def l1_keeps_table_def l1_keeps_order_def)
  ultimately show ?thesis using that op o' h' p by blast
qed

lemma l1_evict_ok:
  assumes o: "l1_ordered t as" and h: "l1_hashed t (set as)" and d: "dom (l1_mem t) = set as" and ne: "as \<noteq> []"
    and c: "l1_count t = of_nat (length as)" "length as = Suc (unat (l1_max t))" "0 < unat (l1_max t)" "unat (l1_max t) \<le> 2 ^ 63"
  obtains t' where "cinfo_l1_evict_tail t = Some t'" "cinfo_l1_wf t' (butlast as)"
    "map (l1_pair (l1_mem t')) (butlast as) = map (l1_pair (l1_mem t)) (butlast as)" "l1_max t' = l1_max t"
proof -
  have tl: "l1_tail t = Some (List.last as)" using o ne by (simp add: l1_ordered_def l1_end_def)
  have a: "List.last as \<in> set as" using ne by simp
  obtain e where e: "l1_mem t (List.last as) = Some e" using a d by blast
  obtain t' where t': "l1_forget t (List.last as) (l1_bucket t (l1_key e)) = Some t'" "l1_ordered t' (remove1 (List.last as) as)"
    "l1_hashed t' (set (remove1 (List.last as) as))" "dom (l1_mem t') = set (remove1 (List.last as) as)"
    "\<forall>x\<in>set (remove1 (List.last as) as). l1_pair (l1_mem t') x = l1_pair (l1_mem t) x"
    "l1_count t' = l1_count t - 1" "l1_max t' = l1_max t"
    using l1_forget_ok [OF o h d a e] .
  have "distinct as" using o by (simp add: l1_ordered_def)
  then have r: "remove1 (List.last as) as = butlast as"
    using ne l1_remove1_last [of "butlast as" "List.last as"] by simp
  have "l1_count t' = of_nat (length (butlast as))" using t'(6) c(1,2) by simp
  then have "cinfo_l1_wf t' (butlast as)" using t' r c by (simp add: cinfo_l1_wf_def)
  moreover have "map (l1_pair (l1_mem t')) (butlast as) = map (l1_pair (l1_mem t)) (butlast as)" using t'(5) r by simp
  ultimately show ?thesis using that [of t'] t'(1,7) tl e by (simp add: cinfo_l1_evict_tail_def)
qed

text \<open>The three operations on the list.\<close>

theorem l1_get_rep:
  assumes r: "cinfo_l1_rep t l"
  shows "map_of l k = None \<Longrightarrow> brix_cinfo_l1_get (Some t) (Some k) (Some out) = Some (NGX_DECLINED, Some out, Some t)"
    and "map_of l k = Some h \<Longrightarrow> \<exists>t'. brix_cinfo_l1_get (Some t) (Some k) (Some out) = Some (NGX_OK, Some h, Some t')
           \<and> cinfo_l1_rep t' (lru_front k h l) \<and> l1_max t' = l1_max t"
proof -
  obtain as where w: "cinfo_l1_wf t as" and l: "l = map (l1_pair (l1_mem t)) as" using r by (auto simp: cinfo_l1_rep_def)
  have "l1_hashed t (set as)" using w by (simp add: cinfo_l1_wf_def)
  then consider (absent) "cinfo_l1_find t k (l1_bucket t k) = Some None" "\<forall>a\<in>set as. map_option l1_key (l1_mem t a) \<noteq> Some k"
    | (present) a e where "cinfo_l1_find t k (l1_bucket t k) = Some (Some a)" "a \<in> set as" "l1_mem t a = Some e" "l1_key e = k"
    by (rule l1_find_ok)
  note found = this
  show "brix_cinfo_l1_get (Some t) (Some k) (Some out) = Some (NGX_DECLINED, Some out, Some t)" if "map_of l k = None"
    using found
  proof cases
    case absent
    then show ?thesis by (simp add: brix_cinfo_l1_get_def)
  next
    case (present a e)
    then show ?thesis using that l1_map_of_present [OF w present(2,3)] l by simp
  qed
  show "\<exists>t'. brix_cinfo_l1_get (Some t) (Some k) (Some out) = Some (NGX_OK, Some h, Some t')
      \<and> cinfo_l1_rep t' (lru_front k h l) \<and> l1_max t' = l1_max t" if m: "map_of l k = Some h"
    using found
  proof cases
    case absent
    then show ?thesis using m l1_map_of_absent [OF w absent(2)] l by simp
  next
    case (present a e)
    have h: "l1_hdr e = h" using m l1_map_of_present [OF w present(2,3)] l present(4) by simp
    have "t = t\<lparr>l1_mem := (l1_mem t)(a \<mapsto> e\<lparr>l1_hdr := h\<rparr>)\<rparr>" using h present(3) by (simp add: fun_upd_idem)
    then obtain t' where "cinfo_l1_touch t a = Some t'" "cinfo_l1_rep t' (lru_front (l1_key e) h l)" "l1_max t' = l1_max t"
      using l1_promote [OF w present(2,3), of t h] l by auto
    then show ?thesis using present h by (simp add: brix_cinfo_l1_get_def)
  qed
qed

theorem l1_drop_rep:
  assumes r: "cinfo_l1_rep t l"
  shows "\<exists>t'. brix_cinfo_l1_drop (Some t) (Some k) = Some (Some t') \<and> cinfo_l1_rep t' (filter (\<lambda>p. fst p \<noteq> k) l) \<and> l1_max t' = l1_max t"
proof -
  obtain as where w: "cinfo_l1_wf t as" and l: "l = map (l1_pair (l1_mem t)) as" using r by (auto simp: cinfo_l1_rep_def)
  have o: "l1_ordered t as" "l1_hashed t (set as)" "dom (l1_mem t) = set as" "distinct as"
    using w by (simp_all add: cinfo_l1_wf_def l1_ordered_def)
  show ?thesis using o(2)
  proof (cases rule: l1_find_ok [where key = k])
    case absent
    have "map_of l k = None" using l1_map_of_absent [OF w absent(2)] l by simp
    then have "filter (\<lambda>p. fst p \<noteq> k) l = l" by (auto simp: map_of_eq_None_iff intro!: filter_True)
    then show ?thesis using absent r by (simp add: brix_cinfo_l1_drop_def)
  next
    case (present a e)
    obtain t' where t': "l1_forget t a (l1_bucket t (l1_key e)) = Some t'" "l1_ordered t' (remove1 a as)"
      "l1_hashed t' (set (remove1 a as))" "dom (l1_mem t') = set (remove1 a as)"
      "\<forall>x\<in>set (remove1 a as). l1_pair (l1_mem t') x = l1_pair (l1_mem t) x" "l1_count t' = l1_count t - 1" "l1_max t' = l1_max t"
      using l1_forget_ok [OF o(1,2,3) present(2,3)] .
    have "length as = Suc (length (remove1 a as))" using l1_length_remove1 [OF present(2)] .
    then have "cinfo_l1_wf t' (remove1 a as)" using t' w by (simp add: cinfo_l1_wf_def)
    moreover have "map (l1_pair (l1_mem t')) (remove1 a as) = filter (\<lambda>p. fst p \<noteq> k) l"
      unfolding l using l1_without [OF o(2,4) present(2,3)] present(4) map_cong [OF refl, of "remove1 a as"] t'(5) by metis
    ultimately have "cinfo_l1_rep t' (filter (\<lambda>p. fst p \<noteq> k) l)" using cinfo_l1_repI by fastforce
    then show ?thesis using present t'(1,7) by (simp add: brix_cinfo_l1_drop_def)
  qed
qed

definition lru_put :: "nat \<Rightarrow> bool \<Rightarrow> bytes \<Rightarrow> brix_cache_cinfo_t \<Rightarrow> (bytes \<times> brix_cache_cinfo_t) list \<Rightarrow> (bytes \<times> brix_cache_cinfo_t) list" where
  "lru_put n ok k h l = (if map_of l k = None \<and> \<not> ok then l else take n (lru_front k h l))"

lemma lru_front_length: "map_of l k \<noteq> None \<Longrightarrow> length (lru_front k h l) \<le> length l"
proof -
  assume "map_of l k \<noteq> None"
  then obtain p where "p \<in> set l" "fst p = k" by (auto simp: map_of_eq_None_iff)
  then have "length (filter (\<lambda>p. fst p \<noteq> k) l) < length l" by (intro length_filter_less) auto
  then show ?thesis by (simp add: lru_front_def)
qed

lemma lru_front_new: "map_of l k = None \<Longrightarrow> lru_front k h l = (k, h) # l"
  by (auto simp: lru_front_def map_of_eq_None_iff intro!: filter_True)

text \<open>The new entry before the bound is looked at.\<close>

lemma l1_link_ok:
  assumes w: "cinfo_l1_wf t as" and a: "a \<notin> set as" and new: "\<forall>x\<in>set as. map_option l1_key (l1_mem t x) \<noteq> Some key"
    and e: "e = \<lparr>l1_key = key, l1_hdr = hdr, l1_hnext = l1_buckets t ! b, l1_prev = None, l1_next = None\<rparr>"
    and b: "b = l1_bucket t key"
    and t1: "t1 = t\<lparr>l1_mem := (l1_mem t)(a \<mapsto> e), l1_buckets := (l1_buckets t)[b := Some a]\<rparr>"
  obtains t2 where "cinfo_l1_lru_push_front t1 a = Some t2" "l1_ordered t2 (a # as)" "l1_hashed t2 (set (a # as))"
    "dom (l1_mem t2) = set (a # as)" "map (l1_pair (l1_mem t2)) (a # as) = (key, hdr) # map (l1_pair (l1_mem t)) as"
    "l1_count t2 = l1_count t" "l1_max t2 = l1_max t"
proof -
  have o: "l1_ordered t as" "l1_hashed t (set as)" "dom (l1_mem t) = set as" using w by (simp_all add: cinfo_l1_wf_def)
  have free: "l1_mem t a = None" using a o(3) by blast
  have o1: "l1_ordered t1 as" using o(1) a t1 by (simp add: l1_ordered_def)
  have "l1_hashed t1 (insert a (set as))"
    unfolding t1 by (rule l1_hashed_insert [OF o(2) free]) (use new e b in auto)
  then have h1: "l1_hashed t1 (set (a # as))" by simp
  have m1: "l1_mem t1 a = Some e" using t1 by simp
  obtain t2 where t2: "cinfo_l1_lru_push_front t1 a = Some t2" "l1_ordered t2 (a # as)" "l1_keeps_table t1 t2"
    using l1_push_ok [OF o1 a m1] .
  have p: "l1_pair (l1_mem t2) x = (if x = a then (key, hdr) else l1_pair (l1_mem t) x)" for x
    unfolding l1_pair_keeps_table [OF t2(3)] using t1 e by (simp add: l1_pair_def)
  have "map (l1_pair (l1_mem t2)) as = map (l1_pair (l1_mem t)) as" using a p by (intro map_cong) auto
  then have mp: "map (l1_pair (l1_mem t2)) (a # as) = (key, hdr) # map (l1_pair (l1_mem t)) as" using p by simp
  have dm: "dom (l1_mem t2) = set (a # as)" using l1_keeps_table_dom_eq [OF t2(3)] t1 o(3) by auto
  have cm: "l1_count t2 = l1_count t" "l1_max t2 = l1_max t" using t2(3) t1 by (simp_all add: l1_keeps_table_def)
  show ?thesis using that [OF t2(1,2) l1_hashed_keeps [OF h1 t2(3)] dm mp cm] .
qed

lemma l1_insert_ok:
  assumes w: "cinfo_l1_wf t as" and new: "\<forall>x\<in>set as. map_option l1_key (l1_mem t x) \<noteq> Some key"
    and alloc: "alloc (dom (l1_mem t)) = Some a" "a \<notin> dom (l1_mem t)"
  obtains t' where "l1_insert alloc True t key hdr = Some t'"
    "cinfo_l1_rep t' (take (unat (l1_max t)) ((key, hdr) # map (l1_pair (l1_mem t)) as))" "l1_max t' = l1_max t"
proof -
  define b where "b = l1_bucket t key"
  define e where "e = \<lparr>l1_key = key, l1_hdr = hdr, l1_hnext = l1_buckets t ! b, l1_prev = None, l1_next = None\<rparr>"
  define t1 where "t1 = t\<lparr>l1_mem := (l1_mem t)(a \<mapsto> e), l1_buckets := (l1_buckets t)[b := Some a]\<rparr>"
  have a: "a \<notin> set as" using alloc(2) w by (simp add: cinfo_l1_wf_def)
  obtain t2 where t2: "cinfo_l1_lru_push_front t1 a = Some t2" "l1_ordered t2 (a # as)" "l1_hashed t2 (set (a # as))"
    "dom (l1_mem t2) = set (a # as)" "map (l1_pair (l1_mem t2)) (a # as) = (key, hdr) # map (l1_pair (l1_mem t)) as"
    "l1_count t2 = l1_count t" "l1_max t2 = l1_max t"
    using l1_link_ok [OF w a new e_def b_def t1_def] .
  define t3 where "t3 = t2\<lparr>l1_count := l1_count t2 + 1\<rparr>"
  have op: "l1_insert alloc True t key hdr = (if l1_count t3 > l1_max t3 then cinfo_l1_evict_tail t3 else Some t3)"
    using alloc(1) t2(1) by (simp add: l1_insert_def t3_def b_def [symmetric] e_def [symmetric] t1_def [symmetric])
  have len: "length as \<le> unat (l1_max t)" "0 < unat (l1_max t)" "unat (l1_max t) \<le> 2 ^ 63" "l1_count t = of_nat (length as)"
    using w by (simp_all add: cinfo_l1_wf_def)
  have c3: "l1_count t3 = of_nat (length (a # as))" using t2(6) len(4) by (simp add: t3_def)
  have lt: "length (a # as) < 2 ^ 64" using len(1,3) by simp
  have "unat (l1_count t3) = length (a # as)" unfolding c3 unsigned_of_nat using take_bit_nat_eq_self [OF lt] by simp
  then have cmp: "l1_count t3 > l1_max t3 \<longleftrightarrow> length as = unat (l1_max t)" using len(1) t2(7) by (auto simp: word_less_nat_alt t3_def)
  have h3: "l1_hashed t3 (set (a # as))" by (rule l1_hashed_cong [OF t2(3)]) (simp_all add: t3_def)
  have o3: "l1_ordered t3 (a # as)" "dom (l1_mem t3) = set (a # as)" "l1_max t3 = l1_max t" "l1_mem t3 = l1_mem t2"
    using t2(2,4,7) by (simp_all add: t3_def l1_ordered_def)
  show ?thesis
  proof (cases "length as = unat (l1_max t)")
    case True
    have "length (a # as) = Suc (unat (l1_max t3))" using True o3(3) by simp
    then obtain t' where t': "cinfo_l1_evict_tail t3 = Some t'" "cinfo_l1_wf t' (butlast (a # as))"
      "map (l1_pair (l1_mem t')) (butlast (a # as)) = map (l1_pair (l1_mem t3)) (butlast (a # as))" "l1_max t' = l1_max t3"
      using l1_evict_ok [OF o3(1) h3 o3(2) _ c3] len(2,3) o3(3) by (metis list.distinct(1))
    have "map (l1_pair (l1_mem t')) (butlast (a # as)) = butlast ((key, hdr) # map (l1_pair (l1_mem t)) as)"
      using t'(3) t2(5) o3(4) by (metis map_butlast)
    also have "\<dots> = take (unat (l1_max t)) ((key, hdr) # map (l1_pair (l1_mem t)) as)" using True by (simp add: butlast_conv_take)
    finally have "cinfo_l1_rep t' (take (unat (l1_max t)) ((key, hdr) # map (l1_pair (l1_mem t)) as))"
      using cinfo_l1_repI [OF t'(2)] by simp
    then show ?thesis using that op cmp True t'(1,4) o3(3) by simp
  next
    case False
    then have "cinfo_l1_wf t3 (a # as)" using h3 o3 c3 len by (simp add: cinfo_l1_wf_def)
    then have "cinfo_l1_rep t3 ((key, hdr) # map (l1_pair (l1_mem t)) as)" using cinfo_l1_repI t2(5) o3(4) by metis
    then show ?thesis using that op cmp False len(1) o3(3) by simp
  qed
qed

theorem l1_put_rep:
  assumes r: "cinfo_l1_rep t l" and fresh: "\<forall>a. alloc (dom (l1_mem t)) = Some a \<longrightarrow> a \<notin> dom (l1_mem t)"
  shows "\<exists>t'. brix_cinfo_l1_put alloc dup (Some t) (Some k) (Some h) = Some (Some t')
    \<and> cinfo_l1_rep t' (lru_put (unat (l1_max t)) (dup \<and> alloc (dom (l1_mem t)) \<noteq> None) k h l) \<and> l1_max t' = l1_max t"
proof -
  obtain as where w: "cinfo_l1_wf t as" and l: "l = map (l1_pair (l1_mem t)) as" using r by (auto simp: cinfo_l1_rep_def)
  have hs: "l1_hashed t (set as)" and len: "length as \<le> unat (l1_max t)" using w by (simp_all add: cinfo_l1_wf_def)
  show ?thesis using hs
  proof (cases rule: l1_find_ok [where key = k])
    case absent
    have none: "map_of l k = None" using l1_map_of_absent [OF w absent(2)] l by simp
    show ?thesis
    proof (cases "dup \<and> alloc (dom (l1_mem t)) \<noteq> None")
      case True
      then obtain a where a: "alloc (dom (l1_mem t)) = Some a" by blast
      obtain t' where "l1_insert alloc True t k h = Some t'"
        "cinfo_l1_rep t' (take (unat (l1_max t)) ((k, h) # map (l1_pair (l1_mem t)) as))" "l1_max t' = l1_max t"
        using l1_insert_ok [where alloc = alloc, OF w absent(2) a] fresh a by blast
      then show ?thesis using True absent(1) none l by (simp add: brix_cinfo_l1_put_def lru_put_def lru_front_new)
    next
      case False
      then have "l1_insert alloc dup t k h = Some t" by (auto simp: l1_insert_def split: option.split)
      then show ?thesis using False absent(1) none r by (auto simp: brix_cinfo_l1_put_def lru_put_def)
    qed
  next
    case (present a e)
    define t1 where "t1 = t\<lparr>l1_mem := (l1_mem t)(a \<mapsto> e\<lparr>l1_hdr := h\<rparr>)\<rparr>"
    obtain t' where t': "cinfo_l1_touch t1 a = Some t'" "cinfo_l1_rep t' (lru_front (l1_key e) h l)" "l1_max t' = l1_max t"
      using l1_promote [OF w present(2,3) t1_def] l by auto
    have some: "map_of l k = Some (l1_hdr e)" using l1_map_of_present [OF w present(2,3)] l present(4) by simp
    have "length (lru_front k h l) \<le> unat (l1_max t)" using lru_front_length [of l k h] some len l by simp
    then show ?thesis using present t' some l1_write_some [OF present(3), of "\<lambda>x. x\<lparr>l1_hdr := h\<rparr>"]
      by (simp add: brix_cinfo_l1_put_def lru_put_def t1_def)
  qed
qed

section \<open>Creation and destruction\<close>

lemma pow2_word: "j < 64 \<Longrightarrow> unat ((2::u64) ^ j) = 2 ^ j"
proof -
  assume j: "j < 64"
  have "unat ((2::u64) ^ j) = unat (of_nat (2 ^ j) :: u64)" by simp
  also have "\<dots> = take_bit 64 (2 ^ j)" unfolding unsigned_of_nat by simp
  also have "\<dots> = 2 ^ j" by (rule take_bit_nat_eq_self) (use power_strict_increasing [OF j, of "2::nat"] in simp)
  finally show ?thesis .
qed

lemma pow2_word_nonzero: "j < 64 \<Longrightarrow> (2::u64) ^ j \<noteq> 0"
  using pow2_word [of j] by auto

lemma pow2_shift: "push_bit 1 ((2::u64) ^ j) = 2 ^ Suc j"
  by (simp add: push_bit_eq_mult)

lemma pow2_loop_returns:
  assumes "unat n \<le> 2 ^ 63" "j \<le> 63" "\<forall>i<j. 2 ^ i < unat n"
  shows "\<exists>k\<le>63. cinfo_l1_pow2_loop n (2 ^ j) = Some (2 ^ k) \<and> unat n \<le> 2 ^ k \<and> (\<forall>i<k. 2 ^ i < unat n)"
  using assms(2,3)
proof (induction "63 - j" arbitrary: j)
  case 0
  then have "\<not> (2::u64) ^ j < n" using assms(1) pow2_word [of j] by (simp add: word_less_nat_alt)
  then show ?case using 0 assms(1) by (intro exI [of _ j]) (simp add: cinfo_l1_pow2_loop.simps)
next
  case (Suc d)
  show ?case
  proof (cases "(2::u64) ^ j < n")
    case True
    then have "2 ^ j < unat n" using pow2_word [of j] Suc.prems by (simp add: word_less_nat_alt)
    then have "\<forall>i<Suc j. 2 ^ i < unat n" using Suc.prems(2) less_Suc_eq by auto
    then show ?thesis using Suc.hyps(1) [of "Suc j"] Suc.hyps(2) True
      by (subst cinfo_l1_pow2_loop.simps) (simp add: pow2_shift mult.commute)
  next
    case False
    then have "unat n \<le> 2 ^ j" using pow2_word [of j] Suc.prems by (simp add: word_less_nat_alt)
    then show ?thesis using False Suc.prems by (intro exI [of _ j]) (simp add: cinfo_l1_pow2_loop.simps)
  qed
qed

lemma pow2_ceil_returns:
  assumes "0 < unat n" "unat n \<le> 2 ^ 63"
  obtains k where "k \<le> 63" "cinfo_l1_pow2_ceil n = Some (2 ^ k)" "unat n \<le> 2 ^ k" "\<forall>i<k. 2 ^ i < unat n"
  using pow2_loop_returns [of n 0] assms by (auto simp: cinfo_l1_pow2_ceil_def)

text \<open>Above the largest power of two the loop has no result.\<close>

lemma pow2_loop_result:
  assumes "cinfo_l1_pow2_loop n p = Some y"
  shows "n \<le> y \<and> (\<exists>k. y = push_bit k p)"
proof (rule cinfo_l1_pow2_loop.raw_induct [where P = "\<lambda>n p y. n \<le> y \<and> (\<exists>k. y = push_bit k p)", OF _ assms])
  fix loop n p y
  assume ih: "\<And>n p y. loop n p = Some y \<Longrightarrow> n \<le> y \<and> (\<exists>k. y = push_bit k p)"
    and s: "(if p < n then loop n (push_bit 1 p) else Some p) = Some (y::u64)"
  show "n \<le> y \<and> (\<exists>k. y = push_bit k p)"
  proof (cases "p < n")
    case True
    then obtain k where "n \<le> y" "y = push_bit k (push_bit 1 p)" using s ih [of n "push_bit 1 p" y] by auto
    then have "n \<le> y" "y = push_bit (k + 1) p" by (simp_all add: push_bit_push_bit)
    then show ?thesis by blast
  next
    case False
    then have "y = push_bit 0 p" "n \<le> y" using s by simp_all
    then show ?thesis by blast
  qed
qed

lemma pow2_ceil_diverges:
  assumes "2 ^ 63 < unat n"
  shows "cinfo_l1_pow2_ceil n = None"
proof (rule ccontr)
  assume "cinfo_l1_pow2_ceil n \<noteq> None"
  then obtain y where "cinfo_l1_pow2_loop n 1 = Some y" by (auto simp: cinfo_l1_pow2_ceil_def)
  then obtain k where y: "n \<le> y" "y = push_bit k 1" using pow2_loop_result by blast
  have "unat y \<le> 2 ^ 63"
  proof (cases "k < 64")
    case True
    then have "unat y = 2 ^ k" using y(2) pow2_word [of k] by (simp add: push_bit_eq_mult)
    also have "\<dots> \<le> 2 ^ 63" using True by (intro power_increasing) simp_all
    finally show ?thesis .
  next
    case False
    then have "y = 0" using y(2) by (simp add: push_bit_eq_mult)
    then show ?thesis by simp
  qed
  then show False using y(1) assms by (simp add: word_le_nat_alt)
qed

lemma l1_create_rep:
  assumes "unat n \<le> 2 ^ 63"
  shows "\<exists>t. brix_cinfo_l1_create n True True True True = Some (Some t) \<and> cinfo_l1_rep t []
    \<and> unat (l1_max t) = (if n = 0 then 4096 else unat n)"
proof -
  define N where "N = (if n = 0 then 4096 else n)"
  have N: "0 < unat N" "unat N \<le> 2 ^ 63" using assms by (simp_all add: unat_gt_0 N_def)
  obtain k where k: "k \<le> 63" "cinfo_l1_pow2_ceil N = Some (2 ^ k)" using pow2_ceil_returns [OF N] .
  define t where "t = \<lparr>l1_mem = (\<lambda>_. None), l1_buckets = replicate (unat ((2::u64) ^ k)) None, l1_mask = 2 ^ k - 1,
    l1_head = None, l1_tail = None, l1_count = 0, l1_max = N\<rparr>"
  have c: "brix_cinfo_l1_create n True True True True = Some (Some t)"
    using k(2) by (simp add: brix_cinfo_l1_create_def t_def N_def [symmetric])
  have "(2::u64) ^ k \<noteq> 0" using pow2_word_nonzero [of k] k(1) by simp
  then have "unat ((2::u64) ^ k - 1) < unat ((2::u64) ^ k)" by (simp add: unat_minus_one unat_gt_0)
  then have h: "l1_hashed t {}" by (auto simp: l1_hashed_def t_def l1_slot_def intro!: exI [of _ "[]"])
  have "cinfo_l1_wf t []" using N h by (simp add: cinfo_l1_wf_def l1_ordered_def t_def)
  then have "cinfo_l1_rep t []" using cinfo_l1_repI [of t "[]"] by simp
  moreover have "unat (l1_max t) = (if n = 0 then 4096 else unat n)" by (simp add: t_def N_def)
  ultimately show ?thesis using c by blast
qed

lemma l1_destroy_loop_frees:
  assumes "l1_dll (l1_mem t) pr as None" "distinct as"
  shows "l1_destroy_loop t (l1_first as None) = Some (\<lambda>a. if a \<in> set as then None else l1_mem t a)"
  using assms
proof (induction as arbitrary: t pr)
  case Nil
  then show ?case by (simp add: l1_destroy_loop.simps)
next
  case (Cons a as)
  obtain e where e: "l1_mem t a = Some e" "l1_next e = l1_first as None" "l1_dll (l1_mem t) (Some a) as None"
    using Cons.prems by (auto split: option.splits)
  define t1 where "t1 = t\<lparr>l1_mem := (l1_mem t)(a := None)\<rparr>"
  have "l1_dll (l1_mem t1) (Some a) as None" using e(3) Cons.prems(2) by (simp add: t1_def)
  then have "l1_destroy_loop t1 (l1_first as None) = Some (\<lambda>x. if x \<in> set as then None else l1_mem t1 x)"
    using Cons by simp
  moreover have "l1_destroy_loop t (l1_first (a # as) None) = l1_destroy_loop t1 (l1_first as None)"
    using e(1,2) by (subst l1_destroy_loop.simps) (simp add: l1_free_def t1_def)
  ultimately show ?case by (auto simp: t1_def)
qed

lemma l1_destroy_rep: "cinfo_l1_rep t l \<Longrightarrow> brix_cinfo_l1_destroy (Some t) = Some (\<lambda>_. None)"
proof -
  assume "cinfo_l1_rep t l"
  then obtain as where "l1_ordered t as" "dom (l1_mem t) = set as" by (auto simp: cinfo_l1_rep_def cinfo_l1_wf_def)
  then have "brix_cinfo_l1_destroy (Some t) = Some (\<lambda>a. if a \<in> set as then None else l1_mem t a)"
    using l1_destroy_loop_frees [of t None as] by (simp add: brix_cinfo_l1_destroy_def l1_ordered_def)
  moreover have "(\<lambda>a. if a \<in> set as then None else l1_mem t a) = (\<lambda>_. None)"
    using \<open>dom (l1_mem t) = set as\<close> by (intro ext) (auto simp: dom_def)
  ultimately show ?thesis by simp
qed

section \<open>The contract\<close>

text \<open>
  What a client of a header cache relies on: it stands for a partial map, an answer is the map's, and an
  insertion or a removal changes the map at most as asked, though any entry may be forgotten.
\<close>

locale header_cache =
  fixes rep :: "'s \<Rightarrow> (bytes \<rightharpoonup> brix_cache_cinfo_t) \<Rightarrow> bool"
    and lookup :: "'s \<Rightarrow> bytes \<Rightarrow> (brix_cache_cinfo_t option \<times> 's) option"
    and enter :: "'s \<Rightarrow> bytes \<Rightarrow> brix_cache_cinfo_t \<Rightarrow> 's option"
    and remove :: "'s \<Rightarrow> bytes \<Rightarrow> 's option"
  assumes lookup_law: "rep s m \<Longrightarrow> \<exists>s'. lookup s k = Some (m k, s') \<and> rep s' m"
    and enter_law: "rep s m \<Longrightarrow> \<exists>s' m'. enter s k h = Some s' \<and> rep s' m' \<and> m' \<subseteq>\<^sub>m m(k \<mapsto> h)"
    and remove_law: "rep s m \<Longrightarrow> \<exists>s'. remove s k = Some s' \<and> rep s' (m(k := None))"
begin

text \<open>A cache that only holds what some store holds keeps doing so when it is written with the store.\<close>

definition agrees :: "'s \<Rightarrow> (bytes \<rightharpoonup> brix_cache_cinfo_t) \<Rightarrow> bool" where
  "agrees s st \<longleftrightarrow> (\<exists>m. rep s m \<and> m \<subseteq>\<^sub>m st)"

lemma agrees_lookup:
  assumes "agrees s st"
  obtains r s' where "lookup s k = Some (r, s')" "agrees s' st" "r \<noteq> None \<Longrightarrow> r = st k"
proof -
  obtain m where m: "rep s m" "m \<subseteq>\<^sub>m st" using assms by (auto simp: agrees_def)
  then obtain s' where "lookup s k = Some (m k, s')" "rep s' m" using lookup_law by blast
  moreover have "m k \<noteq> None \<Longrightarrow> m k = st k" using m(2) by (auto simp: map_le_def dom_def)
  ultimately show ?thesis using that [of "m k" s'] m(2) by (auto simp: agrees_def)
qed

lemma agrees_insert:
  assumes "agrees s st" "st k = Some h"
  obtains s' where "enter s k h = Some s'" "agrees s' st"
proof -
  obtain m where m: "rep s m" "m \<subseteq>\<^sub>m st" using assms(1) by (auto simp: agrees_def)
  then obtain s' m' where s': "enter s k h = Some s'" "rep s' m'" "m' \<subseteq>\<^sub>m m(k \<mapsto> h)" using enter_law by blast
  have "m(k \<mapsto> h) \<subseteq>\<^sub>m st" using m(2) assms(2) by (auto simp: map_le_def)
  then show ?thesis using that [OF s'(1)] s'(2,3) map_le_trans by (auto simp: agrees_def)
qed

lemma agrees_write:
  assumes "agrees s st"
  obtains s' where "enter s k h = Some s'" "agrees s' (st(k \<mapsto> h))"
proof -
  obtain m where m: "rep s m" "m \<subseteq>\<^sub>m st" using assms by (auto simp: agrees_def)
  then obtain s' m' where s': "enter s k h = Some s'" "rep s' m'" "m' \<subseteq>\<^sub>m m(k \<mapsto> h)" using enter_law by blast
  have "m(k \<mapsto> h) \<subseteq>\<^sub>m st(k \<mapsto> h)" using m(2) by (auto simp: map_le_def)
  then show ?thesis using that [OF s'(1)] s'(2,3) map_le_trans by (auto simp: agrees_def)
qed

lemma agrees_remove:
  assumes "agrees s st"
  obtains s' where "remove s k = Some s'" "agrees s' (st(k := v))"
proof -
  obtain m where m: "rep s m" "m \<subseteq>\<^sub>m st" using assms by (auto simp: agrees_def)
  then obtain s' where s': "remove s k = Some s'" "rep s' (m(k := None))" using remove_law by blast
  have "m(k := None) \<subseteq>\<^sub>m st(k := v)" using m(2) by (auto simp: map_le_def)
  then show ?thesis using that [OF s'(1)] s'(2) by (auto simp: agrees_def)
qed

end

text \<open>The table provides it, whatever the allocator does for an insertion.\<close>

definition l1_map_rep :: "cinfo_l1_impl_t \<Rightarrow> (bytes \<rightharpoonup> brix_cache_cinfo_t) \<Rightarrow> bool" where
  "l1_map_rep t m \<longleftrightarrow> (\<exists>l. cinfo_l1_rep t l \<and> m = map_of l)"

definition l1_lookup :: "cinfo_l1_impl_t \<Rightarrow> bytes \<Rightarrow> (brix_cache_cinfo_t option \<times> cinfo_l1_impl_t) option" where
  "l1_lookup t k = (case brix_cinfo_l1_get (Some t) (Some k) (Some cinfo_zero) of
       Some (NGX_OK, h, Some t') \<Rightarrow> Some (h, t') | Some (_, _, Some t') \<Rightarrow> Some (None, t') | _ \<Rightarrow> None)"

definition l1_store :: "(addr set \<Rightarrow> addr) \<Rightarrow> bool \<Rightarrow> bool \<Rightarrow> cinfo_l1_impl_t \<Rightarrow> bytes \<Rightarrow> brix_cache_cinfo_t \<Rightarrow> cinfo_l1_impl_t option" where
  "l1_store alloc c d t k h = Option.bind
     (brix_cinfo_l1_put (\<lambda>S. if c then Some (alloc S) else None) d (Some t) (Some k) (Some h)) id"

definition l1_remove :: "cinfo_l1_impl_t \<Rightarrow> bytes \<Rightarrow> cinfo_l1_impl_t option" where
  "l1_remove t k = Option.bind (brix_cinfo_l1_drop (Some t) (Some k)) id"

definition l1_fresh :: "(addr set \<Rightarrow> addr) \<Rightarrow> bool" where
  "l1_fresh alloc \<longleftrightarrow> (\<forall>S. finite S \<longrightarrow> alloc S \<notin> S)"

lemma map_of_without: "map_of (filter (\<lambda>p. fst p \<noteq> k) l) = (map_of l)(k := None)"
  by (induction l) auto

lemma lru_front_map_of: "map_of (lru_front k h l) = (map_of l)(k \<mapsto> h)"
  by (simp add: lru_front_def map_of_without)

lemma lru_front_map: "map_of l k = Some h \<Longrightarrow> map_of (lru_front k h l) = map_of l"
  by (simp add: lru_front_map_of map_upd_triv)

lemma l1_lookup_rep:
  assumes r: "cinfo_l1_rep t l"
  shows "\<exists>t'. l1_lookup t k = Some (map_of l k, t') \<and> l1_max t' = l1_max t
     \<and> cinfo_l1_rep t' (case map_of l k of None \<Rightarrow> l | Some h \<Rightarrow> lru_front k h l)"
proof (cases "map_of l k")
  case None
  then show ?thesis using l1_get_rep(1) [OF r None, of cinfo_zero] r by (simp add: l1_lookup_def)
next
  case (Some h)
  then show ?thesis using l1_get_rep(2) [OF r Some, of cinfo_zero] by (auto simp: l1_lookup_def)
qed

lemma l1_rep_finite: "cinfo_l1_rep t l \<Longrightarrow> finite (dom (l1_mem t))"
  by (auto simp: cinfo_l1_rep_def cinfo_l1_wf_def)

lemma l1_store_rep:
  assumes "cinfo_l1_rep t l" "l1_fresh alloc"
  shows "\<exists>t'. l1_store alloc c d t k h = Some t' \<and> cinfo_l1_rep t' (lru_put (unat (l1_max t)) (c \<and> d) k h l) \<and> l1_max t' = l1_max t"
  using l1_put_rep [OF assms(1), of "\<lambda>S. if c then Some (alloc S) else None" d k h] l1_rep_finite [OF assms(1)] assms(2)
  by (cases c; cases d) (auto simp: l1_store_def l1_fresh_def)

lemma l1_remove_rep:
  assumes "cinfo_l1_rep t l"
  shows "\<exists>t'. l1_remove t k = Some t' \<and> cinfo_l1_rep t' (filter (\<lambda>p. fst p \<noteq> k) l) \<and> l1_max t' = l1_max t"
  using l1_drop_rep [OF assms, of k] by (auto simp: l1_remove_def)

lemma lru_front_distinct: "distinct (map fst l) \<Longrightarrow> distinct (map fst (lru_front k h l))"
  by (auto simp: lru_front_def distinct_map_filter)

lemma map_of_take_le: "distinct (map fst l) \<Longrightarrow> map_of (take n l) \<subseteq>\<^sub>m map_of l"
proof -
  assume d: "distinct (map fst l)"
  have "map_of (take n l) x = Some y \<Longrightarrow> map_of l x = Some y" for x y
    using d in_set_takeD [of "(x, y)" n l] by (auto dest!: map_of_SomeD intro!: map_of_is_SomeI)
  then show ?thesis by (auto simp: map_le_def dom_def)
qed

lemma cinfo_l1_rep_distinct: "cinfo_l1_rep t l \<Longrightarrow> distinct (map fst l)"
  unfolding cinfo_l1_rep_def using l1_rep_distinct by blast

lemma l1_header_cache: "l1_fresh alloc \<Longrightarrow> header_cache l1_map_rep l1_lookup (l1_store alloc c d) l1_remove"
proof unfold_locales
  fix t m k assume "l1_map_rep t m"
  then obtain l where l: "cinfo_l1_rep t l" "m = map_of l" by (auto simp: l1_map_rep_def)
  have "map_of (case map_of l k of None \<Rightarrow> l | Some h \<Rightarrow> lru_front k h l) = map_of l"
    using lru_front_map [of l k] by (cases "map_of l k") simp_all
  then show "\<exists>t'. l1_lookup t k = Some (m k, t') \<and> l1_map_rep t' m"
    using l1_lookup_rep [OF l(1), of k] l(2) unfolding l1_map_rep_def by metis
next
  fix t m k h assume fresh: "l1_fresh alloc" and "l1_map_rep t m"
  then obtain l where l: "cinfo_l1_rep t l" "m = map_of l" by (auto simp: l1_map_rep_def)
  have "map_of (lru_put (unat (l1_max t)) (c \<and> d) k h l) \<subseteq>\<^sub>m m(k \<mapsto> h)"
    unfolding lru_put_def l(2) using map_of_take_le [OF lru_front_distinct [OF cinfo_l1_rep_distinct [OF l(1)]], of "unat (l1_max t)" k h]
    by (auto simp: lru_front_map_of map_le_def)
  then show "\<exists>s' m'. l1_store alloc c d t k h = Some s' \<and> l1_map_rep s' m' \<and> m' \<subseteq>\<^sub>m m(k \<mapsto> h)"
    using l1_store_rep [OF l(1) fresh, of c d k h] unfolding l1_map_rep_def by blast
next
  fix t m k assume "l1_map_rep t m"
  then obtain l where l: "cinfo_l1_rep t l" "m = map_of l" by (auto simp: l1_map_rep_def)
  show "\<exists>t'. l1_remove t k = Some t' \<and> l1_map_rep t' (m(k := None))"
    using l1_remove_rep [OF l(1), of k] l(2) map_of_without [of k l] unfolding l1_map_rep_def by metis
qed

text \<open>An allocator: the first address above those in use.\<close>

definition l1_next_addr :: "addr set \<Rightarrow> addr" where
  "l1_next_addr S = (if finite S then Suc (Max (insert 0 S)) else 0)"

lemma l1_next_addr_fresh: "finite S \<Longrightarrow> l1_next_addr S \<notin> S"
proof
  assume f: "finite S" and "l1_next_addr S \<in> S"
  then have "l1_next_addr S \<le> Max (insert 0 S)" by (intro Max_ge) simp_all
  then show False using f by (simp add: l1_next_addr_def del: Max_insert)
qed

lemma l1_fresh_next: "l1_fresh l1_next_addr"
  by (simp add: l1_fresh_def l1_next_addr_fresh)

interpretation l1: header_cache l1_map_rep l1_lookup "l1_store l1_next_addr c d" l1_remove for c d
  by (rule l1_header_cache [OF l1_fresh_next])

section \<open>Histories\<close>

datatype l1_op = L1_get bytes | L1_put bytes brix_cache_cinfo_t bool bool | L1_drop bytes

fun l1_op_key :: "l1_op \<Rightarrow> bytes" where
  "l1_op_key (L1_get k) = k"
| "l1_op_key (L1_put k h c d) = k"
| "l1_op_key (L1_drop k) = k"

fun l1_step :: "(addr set \<Rightarrow> addr) \<Rightarrow> l1_op \<Rightarrow> cinfo_l1_impl_t \<Rightarrow> (brix_cache_cinfo_t option \<times> cinfo_l1_impl_t) option" where
  "l1_step alloc (L1_get k) t = l1_lookup t k"
| "l1_step alloc (L1_put k h c d) t = map_option (Pair None) (l1_store alloc c d t k h)"
| "l1_step alloc (L1_drop k) t = map_option (Pair None) (l1_remove t k)"

fun l1_run :: "(addr set \<Rightarrow> addr) \<Rightarrow> l1_op list \<Rightarrow> cinfo_l1_impl_t \<Rightarrow> (brix_cache_cinfo_t option list \<times> cinfo_l1_impl_t) option" where
  "l1_run alloc [] t = Some ([], t)"
| "l1_run alloc (op # ops) t = do { (r, t) \<leftarrow> l1_step alloc op t; (rs, t) \<leftarrow> l1_run alloc ops t; Some (r # rs, t) }"

fun lru_step :: "nat \<Rightarrow> l1_op \<Rightarrow> (bytes \<times> brix_cache_cinfo_t) list \<Rightarrow> brix_cache_cinfo_t option \<times> (bytes \<times> brix_cache_cinfo_t) list" where
  "lru_step n (L1_get k) l = (map_of l k, case map_of l k of None \<Rightarrow> l | Some h \<Rightarrow> lru_front k h l)"
| "lru_step n (L1_put k h c d) l = (None, lru_put n (c \<and> d) k h l)"
| "lru_step n (L1_drop k) l = (None, filter (\<lambda>p. fst p \<noteq> k) l)"

fun lru_run :: "nat \<Rightarrow> l1_op list \<Rightarrow> (bytes \<times> brix_cache_cinfo_t) list \<Rightarrow> brix_cache_cinfo_t option list \<times> (bytes \<times> brix_cache_cinfo_t) list" where
  "lru_run n [] l = ([], l)"
| "lru_run n (op # ops) l = (let (r, l) = lru_step n op l; (rs, l) = lru_run n ops l in (r # rs, l))"

lemma l1_step_rep:
  assumes "cinfo_l1_rep t l" "l1_fresh alloc"
  shows "\<exists>t'. l1_step alloc op t = Some (fst (lru_step (unat (l1_max t)) op l), t')
     \<and> cinfo_l1_rep t' (snd (lru_step (unat (l1_max t)) op l)) \<and> l1_max t' = l1_max t"
proof (cases op)
  case (L1_get k)
  then show ?thesis using l1_lookup_rep [OF assms(1), of k] by auto
next
  case (L1_put k h c d)
  then show ?thesis using l1_store_rep [OF assms, of c d k h] by auto
next
  case (L1_drop k)
  then show ?thesis using l1_remove_rep [OF assms(1), of k] by auto
qed

lemma l1_run_rep:
  assumes "cinfo_l1_rep t l" "l1_fresh alloc" "unat (l1_max t) = n"
  shows "\<exists>t'. l1_run alloc ops t = Some (fst (lru_run n ops l), t') \<and> cinfo_l1_rep t' (snd (lru_run n ops l)) \<and> l1_max t' = l1_max t"
  using assms
proof (induction ops arbitrary: t l)
  case Nil
  then show ?case by simp
next
  case (Cons op ops)
  obtain t1 where t1: "l1_step alloc op t = Some (fst (lru_step n op l), t1)" "cinfo_l1_rep t1 (snd (lru_step n op l))" "l1_max t1 = l1_max t"
    using l1_step_rep [OF Cons.prems(1,2), of op] Cons.prems(3) by auto
  obtain t2 where "l1_run alloc ops t1 = Some (fst (lru_run n ops (snd (lru_step n op l))), t2)"
    "cinfo_l1_rep t2 (snd (lru_run n ops (snd (lru_step n op l))))" "l1_max t2 = l1_max t1"
    using Cons.IH [OF t1(2) Cons.prems(2)] t1(3) Cons.prems(3) by auto
  then show ?case using t1(1,3) by (auto simp: split_beta)
qed

text \<open>
  C30. A table created for \<open>n\<close> entries (0: 4096; creation returns for every bound up to 2 to the 63)
  serves any sequence of lookups, insertions (with or without memory for a new entry) and removals without
  ever using a null or freed pointer or walking for ever; its answers and its contents are those of a list
  of keys and headers in order of use, cut at the bound; and destroying it frees every entry.
\<close>

theorem cinfo_l1_history_refines:
  assumes "unat n \<le> 2 ^ 63" and "\<And>S. finite S \<Longrightarrow> alloc S \<notin> S" and "N = (if n = 0 then 4096 else unat n)"
  shows "\<exists>t t'. brix_cinfo_l1_create n True True True True = Some (Some t)
    \<and> l1_run alloc ops t = Some (fst (lru_run N ops []), t')
    \<and> cinfo_l1_rep t' (snd (lru_run N ops [])) \<and> brix_cinfo_l1_destroy (Some t') = Some (\<lambda>_. None)"
proof -
  obtain t where t: "brix_cinfo_l1_create n True True True True = Some (Some t)" "cinfo_l1_rep t []" "unat (l1_max t) = N"
    using l1_create_rep [OF assms(1)] assms(3) by auto
  have "l1_fresh alloc" using assms(2) by (simp add: l1_fresh_def)
  then obtain t' where "l1_run alloc ops t = Some (fst (lru_run N ops []), t')" "cinfo_l1_rep t' (snd (lru_run N ops []))"
    using l1_run_rep [OF t(2) _ t(3)] by blast
  then show ?thesis using t(1) l1_destroy_rep by blast
qed

definition l1_demo_ops :: "l1_op list" where
  "l1_demo_ops = [L1_put [1] cinfo_zero True True, L1_put [2] (cinfo_zero\<lparr>ci_size := 7\<rparr>) True True, L1_get [1],
     L1_put [3] cinfo_zero True True, L1_get [2], L1_get [1]]"

theorem cinfo_l1_history_refines_witness:
  "\<exists>t t'. brix_cinfo_l1_create 2 True True True True = Some (Some t)
    \<and> l1_run l1_next_addr l1_demo_ops t
        = Some ([None, None, Some cinfo_zero, None, None, Some cinfo_zero], t')
    \<and> cinfo_l1_rep t' [([1], cinfo_zero), ([3], cinfo_zero)] \<and> brix_cinfo_l1_destroy (Some t') = Some (\<lambda>_. None)"
proof -
  have r: "lru_run 2 l1_demo_ops [] = ([None, None, Some cinfo_zero, None, None, Some cinfo_zero], [([1], cinfo_zero), ([3], cinfo_zero)])"
    by (simp add: l1_demo_ops_def lru_put_def lru_front_def)
  have "\<exists>t t'. brix_cinfo_l1_create 2 True True True True = Some (Some t)
    \<and> l1_run l1_next_addr l1_demo_ops t = Some (fst (lru_run 2 l1_demo_ops []), t')
    \<and> cinfo_l1_rep t' (snd (lru_run 2 l1_demo_ops [])) \<and> brix_cinfo_l1_destroy (Some t') = Some (\<lambda>_. None)"
    by (rule cinfo_l1_history_refines) (simp_all add: l1_next_addr_fresh)
  then show ?thesis unfolding r fst_conv snd_conv .
qed


section \<open>How long an entry stays\<close>

definition lru_ahead :: "bytes set \<Rightarrow> bytes \<Rightarrow> brix_cache_cinfo_t \<Rightarrow> (bytes \<times> brix_cache_cinfo_t) list \<Rightarrow> bool" where
  "lru_ahead K k h l \<longleftrightarrow> (\<exists>xs ys. l = xs @ (k, h) # ys \<and> distinct (map fst xs) \<and> fst ` set xs \<subseteq> K)"

lemma lru_ahead_map: "lru_ahead K k h l \<Longrightarrow> k \<notin> K \<Longrightarrow> map_of l k = Some h"
proof -
  assume a: "lru_ahead K k h l" "k \<notin> K"
  then obtain xs ys where l: "l = xs @ (k, h) # ys" "k \<notin> fst ` set xs" unfolding lru_ahead_def by blast
  then have "map_of xs k = None" by (simp add: map_of_eq_None_iff)
  then show ?thesis using l(1) by (simp add: map_add_def)
qed

lemma lru_ahead_without:
  assumes "lru_ahead K k h l" "k' \<noteq> k"
  shows "lru_ahead (K - {k'}) k h (filter (\<lambda>p. fst p \<noteq> k') l)"
proof -
  obtain xs ys where l: "l = xs @ (k, h) # ys" "distinct (map fst xs)" "fst ` set xs \<subseteq> K"
    using assms(1) by (auto simp: lru_ahead_def)
  let ?xs = "filter (\<lambda>p. fst p \<noteq> k') xs"
  have "filter (\<lambda>p. fst p \<noteq> k') l = ?xs @ (k, h) # filter (\<lambda>p. fst p \<noteq> k') ys" using l(1) assms(2) by simp
  moreover have "distinct (map fst ?xs)" "fst ` set ?xs \<subseteq> K - {k'}" using l(2,3) by (auto simp: distinct_map_filter)
  ultimately show ?thesis unfolding lru_ahead_def by blast
qed

lemma lru_ahead_front:
  assumes "lru_ahead K k h l" "k' \<in> K" "k \<notin> K"
  shows "lru_ahead K k h (lru_front k' h' l)"
proof -
  have "k' \<noteq> k" using assms(2,3) by blast
  then obtain xs ys where "filter (\<lambda>p. fst p \<noteq> k') l = xs @ (k, h) # ys" "distinct (map fst xs)" "fst ` set xs \<subseteq> K - {k'}"
    using lru_ahead_without [OF assms(1), of k'] unfolding lru_ahead_def by blast
  then have "lru_front k' h' l = ((k', h') # xs) @ (k, h) # ys" "distinct (map fst ((k', h') # xs))"
    "fst ` set ((k', h') # xs) \<subseteq> K" using assms(2) by (auto simp: lru_front_def)
  then show ?thesis unfolding lru_ahead_def by blast
qed

lemma lru_ahead_take:
  assumes "lru_ahead K k h l" "finite K" "card K < n"
  shows "lru_ahead K k h (take n l)"
proof -
  obtain xs ys where l: "l = xs @ (k, h) # ys" "distinct (map fst xs)" "fst ` set xs \<subseteq> K"
    using assms(1) by (auto simp: lru_ahead_def)
  have "length xs = card (fst ` set xs)" using distinct_card [OF l(2)] by simp
  also have "\<dots> \<le> card K" using l(3) assms(2) by (intro card_mono)
  finally have "length xs < n" using assms(3) by simp
  then obtain j where "n - length xs = Suc j" using less_imp_Suc_add by (metis Suc_diff_Suc)
  then have "take n l = xs @ (k, h) # take j ys" using l(1) \<open>length xs < n\<close> by simp
  then show ?thesis using l(2,3) unfolding lru_ahead_def by blast
qed

lemma lru_ahead_step:
  assumes "lru_ahead K k h l" "l1_op_key op \<in> K" "finite K" "k \<notin> K" "card K < n"
  shows "lru_ahead K k h (snd (lru_step n op l))"
proof (cases op)
  case (L1_get k')
  then show ?thesis using assms lru_ahead_front [of K k h l k'] by (auto split: option.split)
next
  case (L1_put k' h' c d)
  then show ?thesis using assms lru_ahead_take [OF lru_ahead_front [OF assms(1), of k' h']] by (auto simp: lru_put_def)
next
  case (L1_drop k')
  then have "k' \<noteq> k" using assms(2,4) by auto
  then have "lru_ahead (K - {k'}) k h (filter (\<lambda>p. fst p \<noteq> k') l)" using lru_ahead_without [OF assms(1)] by simp
  then show ?thesis using L1_drop unfolding lru_ahead_def by auto
qed

lemma lru_ahead_run:
  "lru_ahead K k h l \<Longrightarrow> \<forall>op\<in>set ops. l1_op_key op \<in> K \<Longrightarrow> finite K \<Longrightarrow> k \<notin> K \<Longrightarrow> card K < n
    \<Longrightarrow> lru_ahead K k h (snd (lru_run n ops l))"
  using lru_ahead_step by (induction ops arbitrary: l) (auto simp: split_beta)

lemma lru_run_append:
  "lru_run n (xs @ ys) l = (fst (lru_run n xs l) @ fst (lru_run n ys (snd (lru_run n xs l))), snd (lru_run n ys (snd (lru_run n xs l))))"
  by (induction xs arbitrary: l) (simp_all add: split_beta)

text \<open>
  A header that was inserted, memory permitting, is still served after any operations on fewer
  other keys than the table's bound, whatever was in the table before.
\<close>

theorem cinfo_l1_recent_hits:
  assumes "unat n \<le> 2 ^ 63" and "\<And>S. finite S \<Longrightarrow> alloc S \<notin> S"
    and "\<forall>op\<in>set ops. l1_op_key op \<in> K" and "finite K" and "k \<notin> K" and "card K < (if n = 0 then 4096 else unat n)"
  shows "\<exists>t rs t'. brix_cinfo_l1_create n True True True True = Some (Some t)
    \<and> l1_run alloc (before @ [L1_put k h True True] @ ops @ [L1_get k]) t = Some (rs, t') \<and> List.last rs = Some h"
proof -
  define N where "N = (if n = 0 then 4096 else unat n)"
  obtain t where t: "brix_cinfo_l1_create n True True True True = Some (Some t)" "cinfo_l1_rep t []" "unat (l1_max t) = N"
    using l1_create_rep [OF assms(1)] N_def by auto
  have "l1_fresh alloc" using assms(2) by (simp add: l1_fresh_def)
  then obtain t' where t': "l1_run alloc (before @ [L1_put k h True True] @ ops @ [L1_get k]) t
      = Some (fst (lru_run N (before @ [L1_put k h True True] @ ops @ [L1_get k]) []), t')"
    using l1_run_rep [OF t(2) _ t(3)] by blast
  define l0 where "l0 = snd (lru_run N before [])"
  have "lru_ahead K k h (lru_front k h l0)" unfolding lru_ahead_def lru_front_def
    by (intro exI [of _ "[]"] exI [of _ "filter (\<lambda>p. fst p \<noteq> k) l0"]) simp
  then have a1: "lru_ahead K k h (lru_put N True k h l0)"
    using lru_ahead_take [of K k h "lru_front k h l0" N] assms(4,6) by (simp add: lru_put_def N_def)
  have "map_of (snd (lru_run N ops (lru_put N True k h l0))) k = Some h"
    using lru_ahead_map [OF lru_ahead_run [OF a1 assms(3,4,5)]] assms(5,6) by (simp add: N_def)
  then have "List.last (fst (lru_run N (before @ [L1_put k h True True] @ ops @ [L1_get k]) [])) = Some h"
    by (simp add: lru_run_append l0_def split_beta)
  then show ?thesis using t(1) t' by blast
qed

theorem cinfo_l1_recent_hits_witness:
  "\<exists>t rs t'. brix_cinfo_l1_create 2 True True True True = Some (Some t)
    \<and> l1_run l1_next_addr ([L1_put [5] cinfo_zero True True] @ [L1_put [1] cinfo_zero True True]
        @ [L1_put [2] cinfo_zero True True, L1_drop [2], L1_get [2]] @ [L1_get [1]]) t = Some (rs, t')
    \<and> List.last rs = Some cinfo_zero"
  by (rule cinfo_l1_recent_hits [where K = "{[2]}"]) (simp_all add: l1_next_addr_fresh)

end
