(* ===== verification/Acc_Authfile.thy ===== *)
theory Acc_Authfile
  imports Acc_Engine "HOL-Library.Monad_Syntax"
begin

text \<open>
  The authorization file parser that builds the tables of \<^verbatim>\<open>Acc_Engine\<close>: the tokenizer
  (\<^verbatim>\<open>authfile_tokenize.c\<close>), the record handlers (\<^verbatim>\<open>authfile_record.c\<close>) and the driver
  (\<^verbatim>\<open>authfile.c\<close>) of \<^verbatim>\<open>src/auth/authz/acc\<close>.

  The file is a list of characters.  A word is copied with a terminating NUL, so a NUL inside it ends the
  C string.  Every allocation asks the environment, which answers by the number of allocations before:
  the code treats most failures as errors but not all.  An error discards the whole generation, so it
  is \<open>None\<close>.  \<open>ngx_hextoi\<close> is a parameter.  While a file is parsed the tables also hold the
  templates and the identity definitions; \<open>truncate\<close> gives the tables of the engine.
\<close>

section \<open>State\<close>

record acc_env =
  ae_alloc :: "nat \<Rightarrow> bool"
  ae_hextoi :: "string \<Rightarrow> int"

text \<open>A definition (\<open>=\<close> record): its selectors, and the capabilities and order of its rule once there is one.\<close>

record acc_iddef_t = brix_acc_idrule_t +
  ir_name :: string
  ir_rule :: int

record acc_authdb_t = brix_acc_tables_t +
  t_list :: brix_acc_named_t
  id_defs :: "acc_iddef_t list"
  rule_count :: nat
  tab_mtime :: u64
  parse_spacechar :: char
  parse_uridecode :: bool

record acc_parse_ctx_t =
  pc_tabs :: acc_authdb_t
  excl_seq :: int
  pc_env :: acc_env
  pc_used :: nat

definition acc_alloc :: "acc_parse_ctx_t \<Rightarrow> bool \<times> acc_parse_ctx_t" where
  "acc_alloc pc = (ae_alloc (pc_env pc) (pc_used pc), pc\<lparr>pc_used := Suc (pc_used pc)\<rparr>)"

abbreviation NUL :: char where "NUL \<equiv> CHR 0x00"
abbreviation NL :: char where "NL \<equiv> CHR 0x0A"
abbreviation CR :: char where "CR \<equiv> CHR 0x0D"
abbreviation TAB :: char where "TAB \<equiv> CHR 0x09"
abbreviation BACKSLASH :: char where "BACKSLASH \<equiv> CHR 0x5C"

definition cstr :: "string \<Rightarrow> string" where
  "cstr s = takeWhile (\<lambda>c. c \<noteq> NUL) s"

section \<open>Tokenizer\<close>

datatype acc_gap = ACC_GAP_EOF | ACC_GAP_EOR | ACC_GAP_WORD
datatype acc_token = ACC_TOK_EOF | ACC_TOK_EOR | ACC_TOK_WORD string

definition acc_tok_bslash_is_cont :: "string \<Rightarrow> string option" where
  "acc_tok_bslash_is_cont p =
     (if 1 < length p \<and> p ! 1 = NL then Some (drop 2 p)
      else if 2 < length p \<and> p ! 1 = CR \<and> p ! 2 = NL then Some (drop 3 p)
      else None)"

lemma bslash_cont_shorter [dest]: "acc_tok_bslash_is_cont p = Some r \<Longrightarrow> length r < length p"
  by (auto simp: acc_tok_bslash_is_cont_def split: if_splits)

function acc_tok_skip_gap :: "string \<Rightarrow> acc_gap \<times> string" where
  "acc_tok_skip_gap p = (case p of
       [] \<Rightarrow> (ACC_GAP_EOF, [])
     | c # s \<Rightarrow>
         if c = CHR '' '' \<or> c = TAB \<or> c = CR then acc_tok_skip_gap s
         else if c = BACKSLASH then (case acc_tok_bslash_is_cont p of Some r \<Rightarrow> acc_tok_skip_gap r | None \<Rightarrow> (ACC_GAP_WORD, p))
         else if c = CHR ''#'' then acc_tok_skip_gap (dropWhile (\<lambda>c. c \<noteq> NL) s)
         else if c = NL then (ACC_GAP_EOR, s)
         else (ACC_GAP_WORD, p))"
  by pat_completeness auto
termination
  by (relation "measure length") (auto simp: length_dropWhile_le less_Suc_eq_le)

declare acc_tok_skip_gap.simps [simp del]

definition acc_sep :: "char \<Rightarrow> bool" where
  "acc_sep c \<longleftrightarrow> c = CHR '' '' \<or> c = TAB \<or> c = NL \<or> c = CR"

definition acc_pstrdup :: "acc_parse_ctx_t \<Rightarrow> string \<Rightarrow> string option \<times> acc_parse_ctx_t" where
  "acc_pstrdup pc s = (let (ok, pc) = acc_alloc pc in (if ok then Some (cstr s) else None, pc))"

definition acc_tok_next :: "acc_parse_ctx_t \<Rightarrow> string \<Rightarrow> acc_token \<times> string \<times> acc_parse_ctx_t" where
  "acc_tok_next pc p = (case acc_tok_skip_gap p of
       (ACC_GAP_EOF, r) \<Rightarrow> (ACC_TOK_EOF, r, pc)
     | (ACC_GAP_EOR, r) \<Rightarrow> (ACC_TOK_EOR, r, pc)
     | (ACC_GAP_WORD, r) \<Rightarrow>
         (case acc_pstrdup pc (takeWhile (\<lambda>c. \<not> acc_sep c) r) of
            (Some w, pc) \<Rightarrow> (ACC_TOK_WORD w, dropWhile (\<lambda>c. \<not> acc_sep c) r, pc)
          | (None, pc) \<Rightarrow> (ACC_TOK_EOF, dropWhile (\<lambda>c. \<not> acc_sep c) r, pc)))"

section \<open>Capabilities of a record\<close>

definition acc_subspace :: "string \<Rightarrow> char \<Rightarrow> string" where
  "acc_subspace name sc = (if sc = NUL then name else map (\<lambda>c. if c = sc then CHR '' '' else c) name)"

fun acc_uri_loop :: "(string \<Rightarrow> int) \<Rightarrow> string \<Rightarrow> string" where
  "acc_uri_loop hextoi (c # a # b # s) =
     (if c = CHR ''%'' \<and> hextoi [a, b] \<ge> 0 then char_of (nat (hextoi [a, b])) # acc_uri_loop hextoi s
      else c # acc_uri_loop hextoi (a # b # s))"
| "acc_uri_loop hextoi s = s"

definition acc_uri_decode :: "acc_parse_ctx_t \<Rightarrow> string \<Rightarrow> string \<times> acc_parse_ctx_t" where
  "acc_uri_decode pc s = (let (ok, pc) = acc_alloc pc
     in (if ok then cstr (acc_uri_loop (ae_hextoi (pc_env pc)) s) else s, pc))"

definition acc_named_prepend ::
    "acc_parse_ctx_t \<Rightarrow> brix_acc_named_t \<Rightarrow> string \<Rightarrow> brix_acc_cap_t list \<Rightarrow> (brix_acc_named_t \<times> acc_parse_ctx_t) option" where
  "acc_named_prepend pc head name caps = (let (ok, pc) = acc_alloc pc in if ok then Some ((name, caps) # head, pc) else None)"

text \<open>The first \<open>@=\<close> of a path.\<close>

fun acc_tmpl_point :: "string \<Rightarrow> nat option" where
  "acc_tmpl_point (a # b # s) = (if a = CHR ''@'' \<and> b = CHR ''='' then Some 0 else map_option Suc (acc_tmpl_point (b # s)))"
| "acc_tmpl_point s = None"

definition acc_cap_path :: "acc_parse_ctx_t \<Rightarrow> string \<Rightarrow> string \<Rightarrow> (brix_acc_cap_t \<times> acc_parse_ctx_t) option" where
  "acc_cap_path pc path privs = (case brix_acc_parse_privs privs of
       None \<Rightarrow> None
     | Some caps \<Rightarrow>
         (let (ok, pc) = acc_alloc pc
          in if \<not> ok then None
             else Some (case acc_tmpl_point path of
                          Some i \<Rightarrow> AccPath path i (length path - i - 2) caps
                        | None \<Rightarrow> AccPath path 0 0 caps, pc)))"

fun acc_build_caps :: "acc_parse_ctx_t \<Rightarrow> string list \<Rightarrow> brix_acc_cap_t list \<Rightarrow> (brix_acc_cap_t list \<times> acc_parse_ctx_t) option" where
  "acc_build_caps pc [] acc = (if acc = [] then None else Some (acc, pc))"
| "acc_build_caps pc (w # ws) acc =
     (if w = [BACKSLASH] then None
      else let escaped = (w \<noteq> [] \<and> hd w = BACKSLASH);
               path = (if escaped then tl w else w);
               istmplt = (\<not> escaped \<and> (path = [] \<or> hd path \<noteq> slash))
           in if istmplt
              then (case brix_acc_named_find (t_list (pc_tabs pc)) (Some path) of
                      None \<Rightarrow> None
                    | Some tcaps \<Rightarrow>
                        (let (ok, pc) = acc_alloc pc
                         in if ok then acc_build_caps pc ws (acc @ [AccTemplate tcaps]) else None))
              else (case ws of
                      [] \<Rightarrow> None
                    | privs # ws' \<Rightarrow>
                        (let (path, pc) = (if parse_uridecode (pc_tabs pc) then acc_uri_decode pc path else (path, pc))
                         in case acc_cap_path pc path privs of
                              None \<Rightarrow> None
                            | Some (cap, pc) \<Rightarrow> acc_build_caps pc ws' (acc @ [cap]))))"

section \<open>Identity definitions and rules\<close>

definition acc_selector_ok :: "char \<Rightarrow> bool" where
  "acc_selector_ok c \<longleftrightarrow> c = CHR ''g'' \<or> c = CHR ''h'' \<or> c = CHR ''o'' \<or> c = CHR ''r'' \<or> c = CHR ''u''"

definition acc_iddef_set :: "acc_parse_ctx_t \<Rightarrow> string option \<Rightarrow> string \<Rightarrow> char \<Rightarrow> string option" where
  "acc_iddef_set pc slot val sel = (if slot \<noteq> None then None
     else Some (if sel \<noteq> CHR ''h'' then acc_subspace val (parse_spacechar (pc_tabs pc)) else val))"

definition acc_iddef_bind_selector :: "acc_parse_ctx_t \<Rightarrow> acc_iddef_t \<Rightarrow> string \<Rightarrow> string \<Rightarrow> acc_iddef_t option" where
  "acc_iddef_bind_selector pc i selw val = (case selw of
       [sel] \<Rightarrow>
         if \<not> acc_selector_ok sel then None
         else if sel = CHR ''g'' then map_option (\<lambda>v. i\<lparr>ir_grp := Some v\<rparr>) (acc_iddef_set pc (ir_grp i) val sel)
         else if sel = CHR ''h'' then map_option (\<lambda>v. i\<lparr>ir_host := Some v\<rparr>) (acc_iddef_set pc (ir_host i) val sel)
         else if sel = CHR ''o'' then map_option (\<lambda>v. i\<lparr>ir_org := Some v\<rparr>) (acc_iddef_set pc (ir_org i) val sel)
         else if sel = CHR ''r'' then map_option (\<lambda>v. i\<lparr>ir_role := Some v\<rparr>) (acc_iddef_set pc (ir_role i) val sel)
         else map_option (\<lambda>v. i\<lparr>ir_user := Some v\<rparr>) (acc_iddef_set pc (ir_user i) val sel)
     | _ \<Rightarrow> None)"

fun acc_iddef_loop :: "acc_parse_ctx_t \<Rightarrow> acc_iddef_t \<Rightarrow> string list \<Rightarrow> acc_iddef_t option" where
  "acc_iddef_loop pc i (s # v # ws) =
     (case acc_iddef_bind_selector pc i s v of None \<Rightarrow> None | Some i \<Rightarrow> acc_iddef_loop pc i ws)"
| "acc_iddef_loop pc i ws = Some i"

text \<open>\<open>INT_MIN\<close> marks a definition without a rule.  \<open>ws\<close> are the words after the name.\<close>

definition acc_record_iddef :: "acc_parse_ctx_t \<Rightarrow> string \<Rightarrow> string list \<Rightarrow> acc_parse_ctx_t option" where
  "acc_record_iddef pc name ws =
     (if length ws mod 2 \<noteq> 0 \<or> length ws < 2 then None
      else if \<exists>i \<in> set (id_defs (pc_tabs pc)). ir_name i = name then None
      else let (ok, pc) = acc_alloc pc
           in if \<not> ok then None
              else case acc_iddef_loop pc \<lparr>ir_user = None, ir_host = None, ir_org = None, ir_role = None, ir_grp = None,
                       ir_caps = [], ir_name = name, ir_rule = - (2 ^ 31)\<rparr> ws of
                     None \<Rightarrow> None
                   | Some i \<Rightarrow> Some (pc\<lparr>pc_tabs := (pc_tabs pc)\<lparr>id_defs := id_defs (pc_tabs pc) @ [i]\<rparr>\<rparr>))"

fun acc_set_rule :: "string \<Rightarrow> brix_acc_cap_t list \<Rightarrow> int \<Rightarrow> acc_iddef_t list \<Rightarrow> acc_iddef_t list" where
  "acc_set_rule name caps rule [] = []"
| "acc_set_rule name caps rule (i # is) =
     (if ir_name i = name then i\<lparr>ir_caps := caps, ir_rule := rule\<rparr> # is else i # acc_set_rule name caps rule is)"

definition acc_record_rule :: "acc_parse_ctx_t \<Rightarrow> string \<Rightarrow> string list \<Rightarrow> bool \<Rightarrow> acc_parse_ctx_t option" where
  "acc_record_rule pc name ws exclusive = (case find (\<lambda>i. ir_name i = name) (id_defs (pc_tabs pc)) of
       None \<Rightarrow> None
     | Some i \<Rightarrow>
         if ir_caps i \<noteq> [] then None
         else (case acc_build_caps pc ws [] of
                 None \<Rightarrow> None
               | Some (caps, pc) \<Rightarrow>
                   Some (pc\<lparr>pc_tabs := (pc_tabs pc)\<lparr>id_defs :=
                              acc_set_rule name caps (if exclusive then excl_seq pc else -1) (id_defs (pc_tabs pc))\<rparr>,
                            excl_seq := if exclusive then excl_seq pc + 1 else excl_seq pc\<rparr>)))"

section \<open>Named records\<close>

datatype acc_head = G_list | H_list | N_list | O_list | R_list | T_list | U_list | D_list

fun acc_head_get :: "acc_head \<Rightarrow> acc_authdb_t \<Rightarrow> brix_acc_named_t" where
  "acc_head_get G_list t = g_list t"
| "acc_head_get H_list t = h_list t"
| "acc_head_get N_list t = n_list t"
| "acc_head_get O_list t = o_list t"
| "acc_head_get R_list t = r_list t"
| "acc_head_get T_list t = t_list t"
| "acc_head_get U_list t = u_list t"
| "acc_head_get D_list t = d_list t"

fun acc_head_set :: "acc_head \<Rightarrow> brix_acc_named_t \<Rightarrow> acc_authdb_t \<Rightarrow> acc_authdb_t" where
  "acc_head_set G_list l t = t\<lparr>g_list := l\<rparr>"
| "acc_head_set H_list l t = t\<lparr>h_list := l\<rparr>"
| "acc_head_set N_list l t = t\<lparr>n_list := l\<rparr>"
| "acc_head_set O_list l t = t\<lparr>o_list := l\<rparr>"
| "acc_head_set R_list l t = t\<lparr>r_list := l\<rparr>"
| "acc_head_set T_list l t = t\<lparr>t_list := l\<rparr>"
| "acc_head_set U_list l t = t\<lparr>u_list := l\<rparr>"
| "acc_head_set D_list l t = t\<lparr>d_list := l\<rparr>"

record acc_named_t =
  an_head :: acc_head
  an_alluser :: bool
  an_anyuser :: bool

definition acc_named_resolve :: "char \<Rightarrow> string \<Rightarrow> acc_named_t option" where
  "acc_named_resolve rtype name =
     (if rtype = CHR ''g'' then Some \<lparr>an_head = G_list, an_alluser = False, an_anyuser = False\<rparr>
      else if rtype = CHR ''n'' then Some \<lparr>an_head = N_list, an_alluser = False, an_anyuser = False\<rparr>
      else if rtype = CHR ''o'' then Some \<lparr>an_head = O_list, an_alluser = False, an_anyuser = False\<rparr>
      else if rtype = CHR ''r'' then Some \<lparr>an_head = R_list, an_alluser = False, an_anyuser = False\<rparr>
      else if rtype = CHR ''t'' then Some \<lparr>an_head = T_list, an_alluser = False, an_anyuser = False\<rparr>
      else if rtype = CHR ''h''
      then Some \<lparr>an_head = (if name \<noteq> [] \<and> hd name = CHR ''.'' then D_list else H_list), an_alluser = False, an_anyuser = False\<rparr>
      else if rtype = CHR ''u''
      then Some \<lparr>an_head = U_list, an_alluser = (name = ''*''), an_anyuser = (name = ''='')\<rparr>
      else None)"

definition acc_named_is_dup :: "acc_authdb_t \<Rightarrow> acc_named_t \<Rightarrow> string \<Rightarrow> bool" where
  "acc_named_is_dup t nc name =
     (if an_alluser nc then z_list t \<noteq> []
      else if an_anyuser nc then x_list t \<noteq> []
      else brix_acc_named_find (acc_head_get (an_head nc) t) (Some name) \<noteq> None)"

definition acc_named_store ::
    "acc_parse_ctx_t \<Rightarrow> acc_named_t \<Rightarrow> string \<Rightarrow> brix_acc_cap_t list \<Rightarrow> acc_parse_ctx_t option" where
  "acc_named_store pc nc name caps =
     (if an_alluser nc then Some (pc\<lparr>pc_tabs := (pc_tabs pc)\<lparr>z_list := caps\<rparr>\<rparr>)
      else if an_anyuser nc then Some (pc\<lparr>pc_tabs := (pc_tabs pc)\<lparr>x_list := caps\<rparr>\<rparr>)
      else case acc_named_prepend pc (acc_head_get (an_head nc) (pc_tabs pc)) name caps of
             None \<Rightarrow> None
           | Some (l, pc) \<Rightarrow> Some (pc\<lparr>pc_tabs := acc_head_set (an_head nc) l (pc_tabs pc)\<rparr>))"

definition acc_record_named :: "acc_parse_ctx_t \<Rightarrow> char \<Rightarrow> string \<Rightarrow> string list \<Rightarrow> acc_parse_ctx_t option" where
  "acc_record_named pc rtype name ws = (case acc_named_resolve rtype name of
       None \<Rightarrow> None
     | Some nc \<Rightarrow>
         (let name = (if rtype = CHR ''g'' \<or> rtype = CHR ''o'' \<or> rtype = CHR ''r''
                         \<or> (rtype = CHR ''u'' \<and> \<not> an_alluser nc \<and> \<not> an_anyuser nc)
                      then acc_subspace name (parse_spacechar (pc_tabs pc)) else name)
          in if acc_named_is_dup (pc_tabs pc) nc name then None
             else case acc_build_caps pc ws [] of
                    None \<Rightarrow> None
                  | Some (caps, pc) \<Rightarrow> acc_named_store pc nc name caps))"

section \<open>The driver\<close>

fun acc_finalize_loop ::
    "acc_iddef_t list \<Rightarrow> brix_acc_idrule_t list \<Rightarrow> brix_acc_idrule_t list \<Rightarrow> brix_acc_idrule_t list \<times> brix_acc_idrule_t list" where
  "acc_finalize_loop [] sx sy = (sx, sy)"
| "acc_finalize_loop (i # is) sx sy =
     (if ir_caps i = [] then acc_finalize_loop is sx sy
      else if ir_rule i \<ge> 0 then acc_finalize_loop is (sx @ [brix_acc_idrule_t.truncate i]) sy
      else acc_finalize_loop is sx (sy @ [brix_acc_idrule_t.truncate i]))"

definition acc_finalize_rules :: "acc_authdb_t \<Rightarrow> acc_authdb_t" where
  "acc_finalize_rules t = (let (sx, sy) = acc_finalize_loop (id_defs t) [] [] in t\<lparr>sx_list := sx, sy_list := sy\<rparr>)"

definition acc_dispatch_record :: "acc_parse_ctx_t \<Rightarrow> string list \<Rightarrow> acc_parse_ctx_t option" where
  "acc_dispatch_record pc w =
     (if length (hd w) \<noteq> 1 then None
      else if length w < 2 then None
      else let rtype = hd (hd w); name = w ! 1; ws = drop 2 w;
               pc = pc\<lparr>pc_tabs := (pc_tabs pc)\<lparr>rule_count := Suc (rule_count (pc_tabs pc))\<rparr>\<rparr>
           in if rtype = CHR ''='' then acc_record_iddef pc name ws
              else if rtype = CHR ''x'' then acc_record_rule pc name ws True
              else if rtype = CHR ''s'' then acc_record_rule pc name ws False
              else if rtype \<in> set ''ghnortu'' then acc_record_named pc rtype name ws
              else None)"

lemma skip_gap_Nil [simp]: "acc_tok_skip_gap [] = (ACC_GAP_EOF, [])"
  by (simp add: acc_tok_skip_gap.simps)

lemma skip_gap_Cons:
  "acc_tok_skip_gap (c # s) =
     (if c = CHR '' '' \<or> c = TAB \<or> c = CR then acc_tok_skip_gap s
      else if c = BACKSLASH
      then (case acc_tok_bslash_is_cont (c # s) of Some r \<Rightarrow> acc_tok_skip_gap r | None \<Rightarrow> (ACC_GAP_WORD, c # s))
      else if c = CHR ''#'' then acc_tok_skip_gap (dropWhile (\<lambda>c. c \<noteq> NL) s)
      else if c = NL then (ACC_GAP_EOR, s) else (ACC_GAP_WORD, c # s))"
  by (subst acc_tok_skip_gap.simps) simp

lemma skip_gap_result:
  "acc_tok_skip_gap p = (g, r) \<Longrightarrow> length r \<le> length p \<and> (g = ACC_GAP_EOR \<longrightarrow> length r < length p)
     \<and> (g = ACC_GAP_WORD \<longrightarrow> r \<noteq> [] \<and> \<not> acc_sep (hd r) \<and> hd r \<noteq> CHR ''#'')"
proof (induction "length p" arbitrary: p rule: less_induct)
  case less
  show ?case
  proof (cases p)
    case Nil
    then show ?thesis using less.prems by auto
  next
    case (Cons c s)
    let ?P = "\<lambda>q. length r \<le> length q \<and> (g = ACC_GAP_EOR \<longrightarrow> length r < length q)
      \<and> (g = ACC_GAP_WORD \<longrightarrow> r \<noteq> [] \<and> \<not> acc_sep (hd r) \<and> hd r \<noteq> CHR ''#'')"
    have step: "?P p" if "acc_tok_skip_gap q = (g, r)" "length q < length p" for q
      using less.hyps [OF that(2,1)] that(2) by auto
    have d: "length (dropWhile (\<lambda>c. c \<noteq> NL) s) < length p" using Cons by (simp add: length_dropWhile_le less_Suc_eq_le)
    have e: "acc_tok_skip_gap (c # s) = (g, r)" using less.prems Cons by simp
    consider "c = CHR '' '' \<or> c = TAB \<or> c = CR" | "c = BACKSLASH" | "c = CHR ''#''" | "c = NL"
      | "\<not> acc_sep c" "c \<noteq> BACKSLASH" "c \<noteq> CHR ''#''" by (auto simp: acc_sep_def)
    then show ?thesis
    proof cases
      case 1
      then show ?thesis using step [of s] e Cons by (simp add: skip_gap_Cons)
    next
      case 2
      show ?thesis
      proof (cases "acc_tok_bslash_is_cont (c # s)")
        case None
        then show ?thesis using 2 e Cons by (auto simp: skip_gap_Cons acc_sep_def)
      next
        case (Some q)
        then have "acc_tok_skip_gap q = (g, r)" using 2 e by (simp add: skip_gap_Cons)
        then show ?thesis using step [of q] bslash_cont_shorter [OF Some] Cons by simp
      qed
    next
      case 3
      then show ?thesis using step [OF _ d] e by (simp add: skip_gap_Cons)
    next
      case 4
      then show ?thesis using e Cons by (auto simp: skip_gap_Cons)
    next
      case 5
      then show ?thesis using e Cons by (auto simp: skip_gap_Cons acc_sep_def)
    qed
  qed
qed

lemmas skip_gap_eor = skip_gap_result [of _ ACC_GAP_EOR, simplified]
lemmas skip_gap_word = skip_gap_result [of _ ACC_GAP_WORD, simplified]

lemma tok_next_shorter:
  "acc_tok_next pc p = (t, r, pc') \<Longrightarrow> t \<noteq> ACC_TOK_EOF \<Longrightarrow> length r < length p"
proof -
  assume n: "acc_tok_next pc p = (t, r, pc')" "t \<noteq> ACC_TOK_EOF"
  obtain g q where g: "acc_tok_skip_gap p = (g, q)" by (cases "acc_tok_skip_gap p")
  show ?thesis
  proof (cases g)
    case ACC_GAP_EOF
    then show ?thesis using n g by (simp add: acc_tok_next_def)
  next
    case ACC_GAP_EOR
    then show ?thesis using n g skip_gap_eor by (auto simp: acc_tok_next_def)
  next
    case ACC_GAP_WORD
    then have q: "length q \<le> length p" "q \<noteq> []" "\<not> acc_sep (hd q)" using skip_gap_word g by simp_all
    have "r = dropWhile (\<lambda>c. \<not> acc_sep c) q"
      using n g ACC_GAP_WORD by (auto simp: acc_tok_next_def split: prod.splits option.splits)
    then have "length r < length q" using q(2,3) by (cases q) (simp_all add: length_dropWhile_le less_Suc_eq_le)
    then show ?thesis using q(1) by simp
  qed
qed

function acc_tokenize_and_dispatch :: "acc_parse_ctx_t \<Rightarrow> string \<Rightarrow> string list \<Rightarrow> acc_parse_ctx_t option" where
  "acc_tokenize_and_dispatch pc p words = (case acc_tok_next pc p of
       (ACC_TOK_WORD w, r, pc) \<Rightarrow> acc_tokenize_and_dispatch pc r (words @ [w])
     | (ACC_TOK_EOR, r, pc) \<Rightarrow>
         (case (if words \<noteq> [] then acc_dispatch_record pc words else Some pc) of
            None \<Rightarrow> None | Some pc \<Rightarrow> acc_tokenize_and_dispatch pc r [])
     | (ACC_TOK_EOF, r, pc) \<Rightarrow> (if words \<noteq> [] then acc_dispatch_record pc words else Some pc))"
  by pat_completeness auto
termination
  by (relation "measure (\<lambda>(pc, p, words). length p)") (auto dest!: tok_next_shorter [OF sym])

declare acc_tokenize_and_dispatch.simps [simp del]

text \<open>The file as the system calls show it: whether it opens, its size and time, and what a read gives.\<close>

record acc_file_t =
  af_open :: bool
  af_info :: "(nat \<times> u64) option"
  af_read :: "string option"

datatype acc_loaded_t = ACC_LOAD_OK string u64 | ACC_LOAD_EMPTY u64 | ACC_LOAD_ERROR

abbreviation BRIX_ACC_AUTHDB_MAX :: nat where "BRIX_ACC_AUTHDB_MAX \<equiv> 1024 * 1024"

definition acc_load_authfile :: "acc_file_t \<Rightarrow> bool \<Rightarrow> acc_loaded_t" where
  "acc_load_authfile f buf_ok =
     (if \<not> af_open f then ACC_LOAD_ERROR
      else case af_info f of
             None \<Rightarrow> ACC_LOAD_ERROR
           | Some (n, mtime) \<Rightarrow>
               if n > BRIX_ACC_AUTHDB_MAX then ACC_LOAD_ERROR
               else if n = 0 then ACC_LOAD_EMPTY mtime
               else if \<not> buf_ok then ACC_LOAD_ERROR
               else case af_read f of
                      None \<Rightarrow> ACC_LOAD_ERROR
                    | Some data \<Rightarrow> if length (take n data) \<noteq> n then ACC_LOAD_ERROR else ACC_LOAD_OK (take n data) mtime)"

definition acc_authdb_zero :: acc_authdb_t where
  "acc_authdb_zero = \<lparr>g_list = [], h_list = [], n_list = [], o_list = [], r_list = [], u_list = [], d_list = [],
     z_list = [], x_list = [], sx_list = [], sy_list = [], t_list = [], id_defs = [], rule_count = 0,
     tab_mtime = 0, parse_spacechar = NUL, parse_uridecode = False\<rparr>"

text \<open>The first four allocations are the pool, the tables, the file buffer and the array of words (whose growth is not counted).\<close>

definition brix_acc_authfile_parse :: "acc_env \<Rightarrow> acc_file_t \<Rightarrow> char \<Rightarrow> bool \<Rightarrow> acc_authdb_t option" where
  "brix_acc_authfile_parse env f spacechar uri_decode =
     (if \<not> ae_alloc env 0 then None
      else if \<not> ae_alloc env 1 then None
      else case acc_load_authfile f (ae_alloc env 2) of
             ACC_LOAD_ERROR \<Rightarrow> None
           | ACC_LOAD_EMPTY mtime \<Rightarrow>
               Some (acc_authdb_zero\<lparr>tab_mtime := mtime, parse_spacechar := spacechar, parse_uridecode := uri_decode\<rparr>)
           | ACC_LOAD_OK buf mtime \<Rightarrow>
               if \<not> ae_alloc env 3 then None
               else (case acc_tokenize_and_dispatch
                  \<lparr>pc_tabs = acc_authdb_zero\<lparr>tab_mtime := mtime, parse_spacechar := spacechar, parse_uridecode := uri_decode\<rparr>,
                   excl_seq = 0, pc_env = env, pc_used = 4\<rparr> buf [] of
                  None \<Rightarrow> None
                | Some pc \<Rightarrow> Some (acc_finalize_rules (pc_tabs pc))))"

end
