(* ===== verification/Acc_Authdb.thy ===== *)
theory Acc_Authdb
  imports Acc_Authfile
begin

text \<open>
  Authorization databases and their text: what a database of records means for the tables of the engine,
  that the parser of \<^verbatim>\<open>src/auth/authz/acc/authfile*.c\<close> reads a written database to exactly that meaning,
  and what it does when a word cannot be copied.
\<close>

section \<open>A database and its text\<close>

text \<open>
  A database as its author thinks of it, and one way to write it down: a record per line, a space after
  each word, a backslash before a path that does not start with a slash, and \<open>sc\<close> for the spaces in
  identity names.
\<close>

datatype acc_item = ItemPath string string | ItemTemplate string

datatype acc_rec =
    RecDef string "(char \<times> string) list"
  | RecRule bool string "acc_item list"
  | RecNamed char string "acc_item list"
  | RecAll "acc_item list"
  | RecAny "acc_item list"

definition acc_spaced :: "char \<Rightarrow> string \<Rightarrow> string" where
  "acc_spaced sc name = (if sc = NUL then name else map (\<lambda>c. if c = CHR '' '' then sc else c) name)"

fun item_words :: "acc_item \<Rightarrow> string list" where
  "item_words (ItemPath p privs) = [if p \<noteq> [] \<and> hd p = slash then p else BACKSLASH # p, privs]"
| "item_words (ItemTemplate n) = [n]"

definition sel_words :: "char \<Rightarrow> char \<times> string \<Rightarrow> string list" where
  "sel_words sc cv = [[fst cv], if fst cv = CHR ''h'' then snd cv else acc_spaced sc (snd cv)]"

definition name_word :: "char \<Rightarrow> char \<Rightarrow> string \<Rightarrow> string" where
  "name_word sc rt name = (if rt \<in> set ''goru'' then acc_spaced sc name else name)"

fun rec_words :: "char \<Rightarrow> acc_rec \<Rightarrow> string list" where
  "rec_words sc (RecDef n ss) = [''='', n] @ concat (map (sel_words sc) ss)"
| "rec_words sc (RecRule ex n its) = [if ex then ''x'' else ''s'', n] @ concat (map item_words its)"
| "rec_words sc (RecNamed rt n its) = [[rt], name_word sc rt n] @ concat (map item_words its)"
| "rec_words sc (RecAll its) = [''u'', ''*''] @ concat (map item_words its)"
| "rec_words sc (RecAny its) = [''u'', ''=''] @ concat (map item_words its)"

definition print_words :: "string list \<Rightarrow> string" where
  "print_words ws = concat (map (\<lambda>w. w @ '' '') ws) @ [NL]"

definition authdb_print :: "char \<Rightarrow> acc_rec list \<Rightarrow> string" where
  "authdb_print sc db = concat (map (\<lambda>r. print_words (rec_words sc r)) db)"

text \<open>What the records mean.  Lists of records are newest first here: a template is one defined before.\<close>

definition acc_path_cap :: "string \<Rightarrow> string \<Rightarrow> brix_acc_cap_t" where
  "acc_path_cap p privs = (case acc_tmpl_point p of
       Some i \<Rightarrow> AccPath p i (length p - i - 2) (the (brix_acc_parse_privs privs))
     | None \<Rightarrow> AccPath p 0 0 (the (brix_acc_parse_privs privs)))"

fun item_cap :: "brix_acc_named_t \<Rightarrow> acc_item \<Rightarrow> brix_acc_cap_t" where
  "item_cap T (ItemPath p privs) = acc_path_cap p privs"
| "item_cap T (ItemTemplate n) = AccTemplate (the (brix_acc_named_find T (Some n)))"

definition rec_head :: "char \<Rightarrow> string \<Rightarrow> acc_head" where
  "rec_head rt n = (if rt = CHR ''g'' then G_list else if rt = CHR ''n'' then N_list else if rt = CHR ''o'' then O_list
     else if rt = CHR ''r'' then R_list else if rt = CHR ''t'' then T_list
     else if rt = CHR ''h'' then (if n \<noteq> [] \<and> hd n = CHR ''.'' then D_list else H_list) else U_list)"

fun acc_entries :: "acc_head \<Rightarrow> acc_rec list \<Rightarrow> brix_acc_named_t" where
  "acc_entries h [] = []"
| "acc_entries h (RecNamed rt n its # es) =
     (if rec_head rt n = h then [(n, map (item_cap (acc_entries T_list es)) its)] else []) @ acc_entries h es"
| "acc_entries h (_ # es) = acc_entries h es"

fun acc_all_caps :: "acc_rec list \<Rightarrow> brix_acc_cap_t list" where
  "acc_all_caps [] = []"
| "acc_all_caps (RecAll its # es) = map (item_cap (acc_entries T_list es)) its"
| "acc_all_caps (_ # es) = acc_all_caps es"

fun acc_any_caps :: "acc_rec list \<Rightarrow> brix_acc_cap_t list" where
  "acc_any_caps [] = []"
| "acc_any_caps (RecAny its # es) = map (item_cap (acc_entries T_list es)) its"
| "acc_any_caps (_ # es) = acc_any_caps es"

fun acc_rule_of :: "string \<Rightarrow> acc_rec list \<Rightarrow> (bool \<times> brix_acc_cap_t list) option" where
  "acc_rule_of name [] = None"
| "acc_rule_of name (RecRule ex n its # es) =
     (if n = name then Some (ex, map (item_cap (acc_entries T_list es)) its) else acc_rule_of name es)"
| "acc_rule_of name (_ # es) = acc_rule_of name es"

fun acc_defs :: "acc_rec list \<Rightarrow> (string \<times> (char \<times> string) list) list" where
  "acc_defs [] = []"
| "acc_defs (RecDef n ss # es) = acc_defs es @ [(n, ss)]"
| "acc_defs (_ # es) = acc_defs es"

definition acc_idrule_of :: "(char \<times> string) list \<Rightarrow> brix_acc_cap_t list \<Rightarrow> brix_acc_idrule_t" where
  "acc_idrule_of ss caps = \<lparr>ir_user = map_of ss CHR ''u'', ir_host = map_of ss CHR ''h'', ir_org = map_of ss CHR ''o'',
     ir_role = map_of ss CHR ''r'', ir_grp = map_of ss CHR ''g'', ir_caps = caps\<rparr>"

definition acc_rules :: "bool \<Rightarrow> acc_rec list \<Rightarrow> brix_acc_idrule_t list" where
  "acc_rules ex es = concat (map (\<lambda>(n, ss). case acc_rule_of n es of
       Some (ex', caps) \<Rightarrow> if ex' = ex then [acc_idrule_of ss caps] else [] | None \<Rightarrow> []) (acc_defs es))"

text \<open>When a record may follow others.\<close>

definition acc_word :: "string \<Rightarrow> bool" where
  "acc_word w \<longleftrightarrow> w \<noteq> [] \<and> (\<forall>c\<in>set w. \<not> acc_sep c \<and> c \<noteq> NUL) \<and> hd w \<noteq> CHR ''#'' \<and> w \<noteq> [BACKSLASH]"

definition spaced_ok :: "char \<Rightarrow> string \<Rightarrow> bool" where
  "spaced_ok sc n \<longleftrightarrow> acc_word (acc_spaced sc n) \<and> acc_subspace (acc_spaced sc n) sc = n"

definition sel_ok :: "char \<Rightarrow> char \<times> string \<Rightarrow> bool" where
  "sel_ok sc cv \<longleftrightarrow> acc_selector_ok (fst cv) \<and> (if fst cv = CHR ''h'' then acc_word (snd cv) else spaced_ok sc (snd cv))"

fun item_ok :: "brix_acc_named_t \<Rightarrow> acc_item \<Rightarrow> bool" where
  "item_ok T (ItemPath p privs) \<longleftrightarrow> p \<noteq> [] \<and> (\<forall>w\<in>set (item_words (ItemPath p privs)). acc_word w)
     \<and> brix_acc_parse_privs privs \<noteq> None"
| "item_ok T (ItemTemplate n) \<longleftrightarrow> acc_word n \<and> hd n \<noteq> slash \<and> hd n \<noteq> BACKSLASH \<and> brix_acc_named_find T (Some n) \<noteq> None"

definition items_ok :: "acc_rec list \<Rightarrow> acc_item list \<Rightarrow> bool" where
  "items_ok es its \<longleftrightarrow> its \<noteq> [] \<and> (\<forall>it\<in>set its. item_ok (acc_entries T_list es) it)"

fun rec_ok :: "char \<Rightarrow> acc_rec list \<Rightarrow> acc_rec \<Rightarrow> bool" where
  "rec_ok sc es (RecDef n ss) \<longleftrightarrow> acc_word n \<and> ss \<noteq> [] \<and> n \<notin> fst ` set (acc_defs es) \<and> distinct (map fst ss)
     \<and> (\<forall>cv\<in>set ss. sel_ok sc cv)"
| "rec_ok sc es (RecRule ex n its) \<longleftrightarrow> acc_word n \<and> n \<in> fst ` set (acc_defs es) \<and> acc_rule_of n es = None \<and> items_ok es its"
| "rec_ok sc es (RecNamed rt n its) \<longleftrightarrow> rt \<in> set ''ghnortu'' \<and> (if rt \<in> set ''goru'' then spaced_ok sc n else acc_word n)
     \<and> (rt = CHR ''u'' \<longrightarrow> acc_spaced sc n \<noteq> ''*'' \<and> acc_spaced sc n \<noteq> ''='')
     \<and> n \<notin> fst ` set (acc_entries (rec_head rt n) es) \<and> items_ok es its"
| "rec_ok sc es (RecAll its) \<longleftrightarrow> acc_all_caps es = [] \<and> items_ok es its"
| "rec_ok sc es (RecAny its) \<longleftrightarrow> acc_any_caps es = [] \<and> items_ok es its"

fun db_ok :: "char \<Rightarrow> acc_rec list \<Rightarrow> bool" where
  "db_ok sc [] \<longleftrightarrow> True"
| "db_ok sc (r # es) \<longleftrightarrow> rec_ok sc es r \<and> db_ok sc es"

section \<open>Reading words\<close>

lemma skip_gap_at_word:
  assumes "acc_word w"
  shows "acc_tok_skip_gap (w @ CHR '' '' # rest) = (ACC_GAP_WORD, w @ CHR '' '' # rest)"
proof -
  obtain c s where w: "w = c # s" using assms by (cases w) (auto simp: acc_word_def)
  have c: "\<not> acc_sep c" "c \<noteq> CHR ''#''" using assms w by (auto simp: acc_word_def)
  have "acc_tok_bslash_is_cont (w @ CHR '' '' # rest) = None" if b: "c = BACKSLASH"
  proof -
    obtain d u where "s = d # u" "\<not> acc_sep d" using assms w b by (cases s) (auto simp: acc_word_def)
    then show ?thesis using w by (auto simp: acc_tok_bslash_is_cont_def acc_sep_def)
  qed
  then show ?thesis using c w by (auto simp: skip_gap_Cons acc_sep_def)
qed

lemma cstr_word: "acc_word w \<Longrightarrow> cstr w = w"
  unfolding cstr_def by (subst takeWhile_eq_all_conv) (auto simp: acc_word_def)

lemma tok_next_word:
  assumes "acc_word w" "ae_alloc (pc_env pc) (pc_used pc)"
  shows "acc_tok_next pc (w @ CHR '' '' # rest) = (ACC_TOK_WORD w, CHR '' '' # rest, pc\<lparr>pc_used := Suc (pc_used pc)\<rparr>)"
proof -
  have "\<forall>c\<in>set w. \<not> acc_sep c" using assms(1) by (simp add: acc_word_def)
  then have "takeWhile (\<lambda>c. \<not> acc_sep c) (w @ CHR '' '' # rest) = w" "dropWhile (\<lambda>c. \<not> acc_sep c) (w @ CHR '' '' # rest) = CHR '' '' # rest"
    by (simp_all add: takeWhile_append2 dropWhile_append2 acc_sep_def)
  then show ?thesis using assms by (simp add: acc_tok_next_def skip_gap_at_word acc_pstrdup_def acc_alloc_def cstr_word)
qed

lemma tok_next_space [simp]: "acc_tok_next pc (CHR '' '' # s) = acc_tok_next pc s"
  by (simp add: acc_tok_next_def skip_gap_Cons)

lemma tok_next_nl [simp]: "acc_tok_next pc (NL # s) = (ACC_TOK_EOR, s, pc)"
  by (simp add: acc_tok_next_def skip_gap_Cons)

lemma tokenize_space: "acc_tokenize_and_dispatch pc (CHR '' '' # s) words = acc_tokenize_and_dispatch pc s words"
  by (subst (1 2) acc_tokenize_and_dispatch.simps) simp

definition alloc_upto :: "acc_env \<Rightarrow> nat \<Rightarrow> bool" where
  "alloc_upto env K \<longleftrightarrow> (\<forall>i<K. ae_alloc env i)"

lemma alloc_uptoD [dest]: "alloc_upto env K \<Longrightarrow> i < K \<Longrightarrow> ae_alloc env i"
  by (simp add: alloc_upto_def)

lemma tokenize_words:
  assumes "\<forall>w\<in>set ws. acc_word w" "alloc_upto (pc_env pc) K" "pc_used pc + length ws \<le> K"
  shows "acc_tokenize_and_dispatch pc (concat (map (\<lambda>w. w @ '' '') ws) @ s) words
     = acc_tokenize_and_dispatch (pc\<lparr>pc_used := pc_used pc + length ws\<rparr>) s (words @ ws)"
  using assms
proof (induction ws arbitrary: pc words)
  case Nil
  then show ?case by simp
next
  case (Cons w ws)
  let ?s = "concat (map (\<lambda>w. w @ '' '') ws) @ s" and ?pc = "pc\<lparr>pc_used := Suc (pc_used pc)\<rparr>"
  have "acc_tokenize_and_dispatch pc (w @ CHR '' '' # ?s) words
      = acc_tokenize_and_dispatch ?pc (CHR '' '' # ?s) (words @ [w])"
    using tok_next_word [of w pc ?s] Cons.prems by (subst acc_tokenize_and_dispatch.simps) (simp add: alloc_uptoD)
  also have "\<dots> = acc_tokenize_and_dispatch ?pc ?s (words @ [w])" by (rule tokenize_space)
  finally show ?case using Cons.IH [of ?pc "words @ [w]"] Cons.prems by simp
qed

lemma tokenize_line:
  assumes "\<forall>w\<in>set ws. acc_word w" "alloc_upto (pc_env pc) K" "pc_used pc + length ws \<le> K" "ws \<noteq> []"
  shows "acc_tokenize_and_dispatch pc (print_words ws @ s) []
     = (case acc_dispatch_record (pc\<lparr>pc_used := pc_used pc + length ws\<rparr>) ws of
          None \<Rightarrow> None | Some pc \<Rightarrow> acc_tokenize_and_dispatch pc s [])"
proof -
  have "acc_tokenize_and_dispatch pc (print_words ws @ s) []
      = acc_tokenize_and_dispatch (pc\<lparr>pc_used := pc_used pc + length ws\<rparr>) (NL # s) ([] @ ws)"
    using tokenize_words [OF assms(1-3), of "NL # s" "[]"] by (simp add: print_words_def)
  also have "\<dots> = (case acc_dispatch_record (pc\<lparr>pc_used := pc_used pc + length ws\<rparr>) ws of
      None \<Rightarrow> None | Some pc \<Rightarrow> acc_tokenize_and_dispatch pc s [])"
    using assms(4) by (subst acc_tokenize_and_dispatch.simps) simp
  finally show ?thesis .
qed

section \<open>Reading records\<close>

fun acc_def_matches :: "acc_rec list \<Rightarrow> acc_iddef_t \<Rightarrow> string \<times> (char \<times> string) list \<Rightarrow> bool" where
  "acc_def_matches es i (n, ss) \<longleftrightarrow> ir_name i = n
     \<and> brix_acc_idrule_t.truncate i = acc_idrule_of ss (case acc_rule_of n es of None \<Rightarrow> [] | Some (_, caps) \<Rightarrow> caps)
     \<and> (case acc_rule_of n es of None \<Rightarrow> True | Some (ex, _) \<Rightarrow> (0 \<le> ir_rule i \<longleftrightarrow> ex))"

definition acc_matches :: "acc_rec list \<Rightarrow> acc_authdb_t \<Rightarrow> bool" where
  "acc_matches es t \<longleftrightarrow> (\<forall>h. acc_head_get h t = acc_entries h es) \<and> z_list t = acc_all_caps es \<and> x_list t = acc_any_caps es
     \<and> list_all2 (acc_def_matches es) (id_defs t) (acc_defs es)"

definition acc_ready :: "char \<Rightarrow> nat \<Rightarrow> acc_parse_ctx_t \<Rightarrow> bool" where
  "acc_ready sc K pc \<longleftrightarrow> alloc_upto (pc_env pc) K \<and> parse_spacechar (pc_tabs pc) = sc \<and> \<not> parse_uridecode (pc_tabs pc) \<and> 0 \<le> excl_seq pc"

lemma item_words_path:
  assumes "item_ok T (ItemPath p privs)" "t_list (pc_tabs pc) = T" "ae_alloc (pc_env pc) (pc_used pc)" "\<not> parse_uridecode (pc_tabs pc)"
  shows "acc_build_caps pc (item_words (ItemPath p privs) @ ws) acc
      = acc_build_caps (pc\<lparr>pc_used := Suc (pc_used pc)\<rparr>) ws (acc @ [acc_path_cap p privs])"
proof -
  obtain c where c: "brix_acc_parse_privs privs = Some c" using assms(1) by auto
  have cap: "acc_cap_path pc p privs = Some (acc_path_cap p privs, pc\<lparr>pc_used := Suc (pc_used pc)\<rparr>)"
    using c assms(3) by (simp add: acc_cap_path_def acc_alloc_def acc_path_cap_def split: option.split)
  show ?thesis
  proof (cases "p \<noteq> [] \<and> hd p = slash")
    case True
    then show ?thesis using cap assms(4) by auto
  next
    case False
    then show ?thesis using cap assms(1,4) by auto
  qed
qed

lemma build_caps_items:
  assumes "\<forall>it\<in>set its. item_ok T it" "t_list (pc_tabs pc) = T" "alloc_upto (pc_env pc) K" "\<not> parse_uridecode (pc_tabs pc)"
    and "pc_used pc + length its \<le> K" and "its \<noteq> [] \<or> acc \<noteq> []"
  shows "acc_build_caps pc (concat (map item_words its)) acc
    = Some (acc @ map (item_cap T) its, pc\<lparr>pc_used := pc_used pc + length its\<rparr>)"
  using assms
proof (induction its arbitrary: pc acc)
  case Nil
  then show ?case by simp
next
  case (Cons it its)
  let ?pc = "pc\<lparr>pc_used := Suc (pc_used pc)\<rparr>"
  have al: "ae_alloc (pc_env pc) (pc_used pc)"
    by (rule alloc_uptoD [OF Cons.prems(3)]) (use Cons.prems(5) in simp)
  have "acc_build_caps pc (item_words it @ concat (map item_words its)) acc
      = acc_build_caps ?pc (concat (map item_words its)) (acc @ [item_cap T it])"
  proof (cases it)
    case (ItemPath p privs)
    then have "item_ok T (ItemPath p privs)" using bspec [OF Cons.prems(1), of it] by (simp del: item_ok.simps)
    from item_words_path [OF this Cons.prems(2) al Cons.prems(4), of "concat (map item_words its)" acc]
    show ?thesis unfolding ItemPath item_cap.simps .
  next
    case (ItemTemplate n)
    then have n: "item_ok T (ItemTemplate n)" using Cons.prems(1) by simp
    then obtain tc where "brix_acc_named_find T (Some n) = Some tc" by auto
    then show ?thesis using n ItemTemplate Cons.prems(2) al by (auto simp: acc_alloc_def)
  qed
  then show ?case using Cons.IH [of ?pc "acc @ [item_cap T it]"] Cons.prems by simp
qed

lemma matches_templates: "acc_matches es t \<Longrightarrow> t_list t = acc_entries T_list es"
  unfolding acc_matches_def by (metis acc_head_get.simps(6))

lemma build_caps_rec:
  assumes "items_ok es its" "acc_matches es (pc_tabs pc)" "acc_ready sc K pc" "pc_used pc + length its \<le> K"
  shows "acc_build_caps pc (concat (map item_words its)) []
    = Some (map (item_cap (acc_entries T_list es)) its, pc\<lparr>pc_used := pc_used pc + length its\<rparr>)"
  using build_caps_items [of its "acc_entries T_list es" pc K "[]"] assms matches_templates
  by (auto simp: items_ok_def acc_ready_def)

lemma named_absent: "brix_acc_named_find l (Some n) = None \<longleftrightarrow> n \<notin> fst ` set l"
  by (force simp: brix_acc_named_find_def find_None_iff)

lemma item_caps_Nil: "items_ok es its \<Longrightarrow> map (item_cap (acc_entries T_list es)) its \<noteq> []"
  by (simp add: items_ok_def)

text \<open>A record that only changes one of the lists of names.\<close>

lemma head_get_set: "acc_head_get h (acc_head_set h' l t) = (if h = h' then l else acc_head_get h t)"
  by (cases h; cases h') simp_all

lemma head_set_frame:
  "z_list (acc_head_set h l t) = z_list t" "x_list (acc_head_set h l t) = x_list t"
  "id_defs (acc_head_set h l t) = id_defs t" "parse_spacechar (acc_head_set h l t) = parse_spacechar t"
  "parse_uridecode (acc_head_set h l t) = parse_uridecode t"
  by (cases h; simp)+

lemma head_get_frame [simp]:
  "acc_head_get h (t\<lparr>rule_count := n\<rparr>) = acc_head_get h t" "acc_head_get h (t\<lparr>z_list := l\<rparr>) = acc_head_get h t"
  "acc_head_get h (t\<lparr>x_list := l\<rparr>) = acc_head_get h t" "acc_head_get h (t\<lparr>id_defs := d\<rparr>) = acc_head_get h t"
  by (cases h; simp)+

lemma matches_count [simp]: "acc_matches es (t\<lparr>rule_count := n\<rparr>) = acc_matches es t"
  by (simp add: acc_matches_def)

lemma ready_count [simp]:
  "acc_ready sc K (pc\<lparr>pc_tabs := (pc_tabs pc)\<lparr>rule_count := n\<rparr>\<rparr>) = acc_ready sc K pc"
  by (simp add: acc_ready_def)

lemma def_matches_named [simp]: "acc_def_matches (RecNamed rt n its # es) = acc_def_matches es"
  by (intro ext) (auto split: prod.split)

lemma def_matches_all [simp]: "acc_def_matches (RecAll its # es) = acc_def_matches es"
  by (intro ext) (auto split: prod.split)

lemma def_matches_any [simp]: "acc_def_matches (RecAny its # es) = acc_def_matches es"
  by (intro ext) (auto split: prod.split)

lemma def_matches_def [simp]: "acc_def_matches (RecDef n ss # es) = acc_def_matches es"
  by (intro ext) (auto split: prod.split)

lemma matches_names: "list_all2 (acc_def_matches es) ds defs \<Longrightarrow> map ir_name ds = map fst defs"
  by (induction rule: list_all2_induct) auto

lemma read_named:
  assumes ok: "rec_ok sc es (RecNamed rt n its)" and m: "acc_matches es (pc_tabs pc)" and r: "acc_ready sc K pc"
    and k: "pc_used pc + length its + 1 \<le> K"
  obtains pc' where "acc_record_named pc rt (name_word sc rt n) (concat (map item_words its)) = Some pc'"
    "acc_matches (RecNamed rt n its # es) (pc_tabs pc')" "acc_ready sc K pc'" "pc_env pc' = pc_env pc"
    "pc_used pc' = pc_used pc + length its + 1"
proof -
  let ?w = "name_word sc rt n" and ?caps = "map (item_cap (acc_entries T_list es)) its"
  have rt: "rt \<in> {CHR ''g'', CHR ''h'', CHR ''n'', CHR ''o'', CHR ''r'', CHR ''t'', CHR ''u''}" using ok by auto
  have sp: "parse_spacechar (pc_tabs pc) = sc" using r by (simp add: acc_ready_def)
  have res: "acc_named_resolve rt ?w = Some \<lparr>an_head = rec_head rt n, an_alluser = False, an_anyuser = False\<rparr>"
    using rt ok by (auto simp: acc_named_resolve_def rec_head_def name_word_def)
  have name: "(if rt = CHR ''g'' \<or> rt = CHR ''o'' \<or> rt = CHR ''r'' \<or> rt = CHR ''u'' then acc_subspace ?w sc else ?w) = n"
    using rt ok by (auto simp: name_word_def spaced_ok_def)
  have hd: "acc_head_get (rec_head rt n) (pc_tabs pc) = acc_entries (rec_head rt n) es" using m by (simp add: acc_matches_def)
  define u where "u = pc_used pc + length its"
  have u: "acc_build_caps pc (concat (map item_words its)) [] = Some (?caps, pc\<lparr>pc_used := u\<rparr>)"
    using build_caps_rec [OF _ m r, of its] ok k by (simp add: u_def)
  have al: "ae_alloc (pc_env pc) u"
    by (rule alloc_uptoD [of _ K]) (use r k u_def in \<open>simp_all add: acc_ready_def\<close>)
  have "acc_record_named pc rt ?w (concat (map item_words its)) =
      (if acc_named_is_dup (pc_tabs pc) \<lparr>an_head = rec_head rt n, an_alluser = False, an_anyuser = False\<rparr> n then None
       else case acc_build_caps pc (concat (map item_words its)) [] of None \<Rightarrow> None
          | Some (caps, pc) \<Rightarrow> acc_named_store pc \<lparr>an_head = rec_head rt n, an_alluser = False, an_anyuser = False\<rparr> n caps)"
    unfolding acc_record_named_def res option.case Let_def acc_named_t.select_convs simp_thms sp name ..
  then have "acc_record_named pc rt ?w (concat (map item_words its))
      = Some (pc\<lparr>pc_used := Suc u, pc_tabs := acc_head_set (rec_head rt n) ((n, ?caps) # acc_entries (rec_head rt n) es) (pc_tabs pc)\<rparr>)"
    using hd u ok al by (simp add: acc_named_is_dup_def named_absent acc_named_store_def
        acc_named_prepend_def acc_alloc_def)
  moreover have "acc_matches (RecNamed rt n its # es) (acc_head_set (rec_head rt n) ((n, ?caps) # acc_entries (rec_head rt n) es) (pc_tabs pc))"
    using m by (simp add: acc_matches_def head_get_set head_set_frame)
  moreover have "acc_ready sc K (pc\<lparr>pc_used := Suc u, pc_tabs := acc_head_set (rec_head rt n) ((n, ?caps) # acc_entries (rec_head rt n) es) (pc_tabs pc)\<rparr>)"
    using r by (simp add: acc_ready_def head_set_frame)
  ultimately show ?thesis using that u_def by simp
qed

lemma read_all:
  assumes ok: "rec_ok sc es (RecAll its)" and m: "acc_matches es (pc_tabs pc)" and r: "acc_ready sc K pc"
    and k: "pc_used pc + length its \<le> K"
  obtains pc' where "acc_record_named pc CHR ''u'' ''*'' (concat (map item_words its)) = Some pc'"
    "acc_matches (RecAll its # es) (pc_tabs pc')" "acc_ready sc K pc'" "pc_env pc' = pc_env pc"
    "pc_used pc' = pc_used pc + length its"
proof -
  let ?caps = "map (item_cap (acc_entries T_list es)) its"
  define u where "u = pc_used pc + length its"
  have u: "acc_build_caps pc (concat (map item_words its)) [] = Some (?caps, pc\<lparr>pc_used := u\<rparr>)"
    using build_caps_rec [OF _ m r, of its] ok k by (simp add: u_def)
  have z: "z_list (pc_tabs pc) = []" using ok m by (simp add: acc_matches_def)
  have "acc_record_named pc CHR ''u'' ''*'' (concat (map item_words its))
      = Some (pc\<lparr>pc_used := u, pc_tabs := (pc_tabs pc)\<lparr>z_list := ?caps\<rparr>\<rparr>)"
    using u z by (simp add: acc_record_named_def acc_named_resolve_def acc_named_is_dup_def acc_named_store_def)
  then show ?thesis using that m r u_def by (simp add: acc_matches_def acc_ready_def)
qed

lemma read_any:
  assumes ok: "rec_ok sc es (RecAny its)" and m: "acc_matches es (pc_tabs pc)" and r: "acc_ready sc K pc"
    and k: "pc_used pc + length its \<le> K"
  obtains pc' where "acc_record_named pc CHR ''u'' ''='' (concat (map item_words its)) = Some pc'"
    "acc_matches (RecAny its # es) (pc_tabs pc')" "acc_ready sc K pc'" "pc_env pc' = pc_env pc"
    "pc_used pc' = pc_used pc + length its"
proof -
  let ?caps = "map (item_cap (acc_entries T_list es)) its"
  define u where "u = pc_used pc + length its"
  have u: "acc_build_caps pc (concat (map item_words its)) [] = Some (?caps, pc\<lparr>pc_used := u\<rparr>)"
    using build_caps_rec [OF _ m r, of its] ok k by (simp add: u_def)
  have x: "x_list (pc_tabs pc) = []" using ok m by (simp add: acc_matches_def)
  have "acc_record_named pc CHR ''u'' ''='' (concat (map item_words its))
      = Some (pc\<lparr>pc_used := u, pc_tabs := (pc_tabs pc)\<lparr>x_list := ?caps\<rparr>\<rparr>)"
    using u x by (simp add: acc_record_named_def acc_named_resolve_def acc_named_is_dup_def acc_named_store_def)
  then show ?thesis using that m r u_def by (simp add: acc_matches_def acc_ready_def)
qed

definition acc_slot :: "char \<Rightarrow> acc_iddef_t \<Rightarrow> string option" where
  "acc_slot c i = (if c = CHR ''g'' then ir_grp i else if c = CHR ''h'' then ir_host i else if c = CHR ''o'' then ir_org i
     else if c = CHR ''r'' then ir_role i else ir_user i)"

definition acc_slot_set :: "char \<Rightarrow> string \<Rightarrow> acc_iddef_t \<Rightarrow> acc_iddef_t" where
  "acc_slot_set c v i = (if c = CHR ''g'' then i\<lparr>ir_grp := Some v\<rparr> else if c = CHR ''h'' then i\<lparr>ir_host := Some v\<rparr>
     else if c = CHR ''o'' then i\<lparr>ir_org := Some v\<rparr> else if c = CHR ''r'' then i\<lparr>ir_role := Some v\<rparr> else i\<lparr>ir_user := Some v\<rparr>)"

lemma acc_slot_set_other: "acc_selector_ok c \<Longrightarrow> acc_selector_ok d \<Longrightarrow> c \<noteq> d \<Longrightarrow> acc_slot d (acc_slot_set c v i) = acc_slot d i"
  by (auto simp: acc_slot_def acc_slot_set_def acc_selector_ok_def)

lemma bind_selector_slot:
  assumes "sel_ok sc (c, v)" "acc_slot c i = None" "parse_spacechar (pc_tabs pc) = sc"
  shows "acc_iddef_bind_selector pc i [c] (if c = CHR ''h'' then v else acc_spaced sc v) = Some (acc_slot_set c v i)"
proof (cases "c = CHR ''h''")
  case True
  then show ?thesis using assms(2) by (simp add: acc_iddef_bind_selector_def acc_slot_def acc_slot_set_def acc_iddef_set_def acc_selector_ok_def)
next
  case False
  then have v: "acc_subspace (acc_spaced sc v) sc = v" using assms(1) by (simp add: sel_ok_def spaced_ok_def)
  consider "c = CHR ''g''" | "c = CHR ''o''" | "c = CHR ''r''" | "c = CHR ''u''"
    using assms(1) False unfolding sel_ok_def acc_selector_ok_def fst_conv by blast
  then show ?thesis
    using assms(2,3) v by cases (simp_all add: acc_iddef_bind_selector_def acc_slot_def acc_slot_set_def acc_iddef_set_def acc_selector_ok_def)
qed

lemma iddef_loop_fold:
  assumes "\<forall>cv\<in>set ss. sel_ok sc cv"
    and "distinct (map fst ss)" "\<forall>c\<in>fst ` set ss. acc_slot c i = None" "parse_spacechar (pc_tabs pc) = sc"
  shows "acc_iddef_loop pc i (concat (map (sel_words sc) ss)) = Some (fold (\<lambda>(c, v). acc_slot_set c v) ss i)"
  using assms
proof (induction ss arbitrary: i)
  case Nil
  then show ?case by simp
next
  case (Cons cv ss)
  obtain c v where cv: "cv = (c, v)" by (cases cv)
  have c: "sel_ok sc (c, v)" "acc_slot c i = None" using Cons.prems(1,3) cv by simp_all
  have cs: "acc_selector_ok c" using c(1) by (simp add: sel_ok_def)
  have ne: "c \<notin> fst ` set ss" using Cons.prems(2) cv by simp
  have "acc_slot d (acc_slot_set c v i) = None" if d: "d \<in> fst ` set ss" for d
  proof -
    obtain w where "(d, w) \<in> set ss" using d by auto
    then have "sel_ok sc (d, w)" using Cons.prems(1) by simp
    then have "acc_selector_ok d" by (simp add: sel_ok_def)
    moreover have "c \<noteq> d" using ne d by blast
    ultimately show ?thesis using acc_slot_set_other [OF cs] Cons.prems(3) d by auto
  qed
  then have i': "\<forall>d\<in>fst ` set ss. acc_slot d (acc_slot_set c v i) = None" by (rule ballI)
  have t: "\<forall>cv\<in>set ss. sel_ok sc cv" "distinct (map fst ss)"
    using Cons.prems(1,2) by simp_all
  have "acc_iddef_loop pc (acc_slot_set c v i) (concat (map (sel_words sc) ss)) = Some (fold (\<lambda>(c, v). acc_slot_set c v) ss (acc_slot_set c v i))"
    by (rule Cons.IH [OF t i' Cons.prems(4)])
  moreover define w where "w = (if c = CHR ''h'' then v else acc_spaced sc v)"
  moreover have "concat (map (sel_words sc) (cv # ss)) = [c] # w # concat (map (sel_words sc) ss)" by (simp add: sel_words_def cv w_def)
  moreover have "acc_iddef_bind_selector pc i [c] w = Some (acc_slot_set c v i)"
    unfolding w_def by (rule bind_selector_slot [OF c Cons.prems(4)])
  ultimately show ?case using cv by (simp only: acc_iddef_loop.simps option.case fold_Cons comp_apply prod.case)
qed

text \<open>Distinct selectors can be set in any order, so the record is the map of its selectors.\<close>

lemma slot_fold:
  assumes "\<forall>cv\<in>set ss. sel_ok sc cv" "distinct (map fst ss)"
  shows "brix_acc_idrule_t.truncate (fold (\<lambda>(c, v). acc_slot_set c v) ss i) =
    \<lparr>ir_user = (case map_of ss CHR ''u'' of None \<Rightarrow> ir_user i | v \<Rightarrow> v), ir_host = (case map_of ss CHR ''h'' of None \<Rightarrow> ir_host i | v \<Rightarrow> v),
     ir_org = (case map_of ss CHR ''o'' of None \<Rightarrow> ir_org i | v \<Rightarrow> v), ir_role = (case map_of ss CHR ''r'' of None \<Rightarrow> ir_role i | v \<Rightarrow> v),
     ir_grp = (case map_of ss CHR ''g'' of None \<Rightarrow> ir_grp i | v \<Rightarrow> v), ir_caps = ir_caps i\<rparr>
    \<and> ir_name (fold (\<lambda>(c, v). acc_slot_set c v) ss i) = ir_name i \<and> ir_rule (fold (\<lambda>(c, v). acc_slot_set c v) ss i) = ir_rule i"
  using assms
proof (induction ss arbitrary: i)
  case Nil
  then show ?case by (simp add: brix_acc_idrule_t.truncate_def)
next
  case (Cons cv ss)
  obtain c v where cv: "cv = (c, v)" by (cases cv)
  have ne: "map_of ss c = None" using Cons.prems(2) cv by (simp add: map_of_eq_None_iff)
  have ok: "c = CHR ''g'' \<or> c = CHR ''h'' \<or> c = CHR ''o'' \<or> c = CHR ''r'' \<or> c = CHR ''u''"
    using Cons.prems(1) cv by (simp add: sel_ok_def acc_selector_ok_def)
  define j where "j = acc_slot_set c v i"
  have t: "\<forall>cv\<in>set ss. sel_ok sc cv" "distinct (map fst ss)" using Cons.prems by simp_all
  note ih = Cons.IH [OF t, of j]
  have f: "fold (\<lambda>(c, v). acc_slot_set c v) (cv # ss) i = fold (\<lambda>(c, v). acc_slot_set c v) ss j"
    by (simp add: cv j_def)
  have keep: "ir_caps j = ir_caps i" "ir_name j = ir_name i" "ir_rule j = ir_rule i" by (simp_all add: j_def acc_slot_set_def)
  show ?case using ok
  proof (elim disjE)
    assume "c = CHR ''g''"
    then show ?thesis unfolding f ih [THEN conjunct1] ih [THEN conjunct2, THEN conjunct1] ih [THEN conjunct2, THEN conjunct2] keep
      using ne cv unfolding j_def by (simp add: acc_slot_set_def cong: option.case_cong)
  next
    assume "c = CHR ''h''"
    then show ?thesis unfolding f ih [THEN conjunct1] ih [THEN conjunct2, THEN conjunct1] ih [THEN conjunct2, THEN conjunct2] keep
      using ne cv unfolding j_def by (simp add: acc_slot_set_def cong: option.case_cong)
  next
    assume "c = CHR ''o''"
    then show ?thesis unfolding f ih [THEN conjunct1] ih [THEN conjunct2, THEN conjunct1] ih [THEN conjunct2, THEN conjunct2] keep
      using ne cv unfolding j_def by (simp add: acc_slot_set_def cong: option.case_cong)
  next
    assume "c = CHR ''r''"
    then show ?thesis unfolding f ih [THEN conjunct1] ih [THEN conjunct2, THEN conjunct1] ih [THEN conjunct2, THEN conjunct2] keep
      using ne cv unfolding j_def by (simp add: acc_slot_set_def cong: option.case_cong)
  next
    assume "c = CHR ''u''"
    then show ?thesis unfolding f ih [THEN conjunct1] ih [THEN conjunct2, THEN conjunct1] ih [THEN conjunct2, THEN conjunct2] keep
      using ne cv unfolding j_def by (simp add: acc_slot_set_def cong: option.case_cong)
  qed
qed

lemma rule_of_defined: "db_ok sc es \<Longrightarrow> acc_rule_of n es = Some r \<Longrightarrow> n \<in> fst ` set (acc_defs es) \<and> snd r \<noteq> []"
proof (induction es)
  case Nil
  then show ?case by simp
next
  case (Cons e es)
  then show ?case by (cases e) (auto split: if_splits simp: items_ok_def image_iff)
qed

lemma length_sel_words: "length (concat (map (sel_words sc) ss)) = 2 * length ss"
  by (induction ss) (simp_all add: sel_words_def)

lemma read_def:
  assumes ok: "rec_ok sc es (RecDef n ss)" and db: "db_ok sc es" and m: "acc_matches es (pc_tabs pc)" and r: "acc_ready sc K pc"
    and k: "pc_used pc + 1 \<le> K"
  obtains pc' where "acc_record_iddef pc n (concat (map (sel_words sc) ss)) = Some pc'"
    "acc_matches (RecDef n ss # es) (pc_tabs pc')" "acc_ready sc K pc'" "pc_env pc' = pc_env pc"
    "pc_used pc' = pc_used pc + 1"
proof -
  define i0 where "i0 = \<lparr>ir_user = None, ir_host = None, ir_org = None, ir_role = None, ir_grp = None,
     ir_caps = [], ir_name = n, ir_rule = - (2 ^ 31)\<rparr>"
  define i where "i = fold (\<lambda>(c, v). acc_slot_set c v) ss i0"
  have new: "n \<notin> fst ` set (acc_defs es)" using ok by simp
  have names: "map ir_name (id_defs (pc_tabs pc)) = map fst (acc_defs es)"
    by (rule matches_names [of es]) (use m in \<open>simp add: acc_matches_def\<close>)
  have al: "ae_alloc (pc_env pc) (pc_used pc)"
    by (rule alloc_uptoD [of _ K]) (use r k in \<open>simp_all add: acc_ready_def\<close>)
  have "\<not> (\<exists>i\<in>set (id_defs (pc_tabs pc)). ir_name i = n)"
  proof
    assume "\<exists>i\<in>set (id_defs (pc_tabs pc)). ir_name i = n"
    then have "n \<in> set (map ir_name (id_defs (pc_tabs pc)))" by auto
    then show False using new names by simp
  qed
  moreover have "acc_iddef_loop (pc\<lparr>pc_used := Suc (pc_used pc)\<rparr>) i0 (concat (map (sel_words sc) ss)) = Some i"
    unfolding i_def by (rule iddef_loop_fold) (use ok r in \<open>simp_all add: acc_slot_def i0_def acc_ready_def\<close>)
  ultimately have op: "acc_record_iddef pc n (concat (map (sel_words sc) ss)) =
      Some (pc\<lparr>pc_used := Suc (pc_used pc), pc_tabs := (pc_tabs pc)\<lparr>id_defs := id_defs (pc_tabs pc) @ [i]\<rparr>\<rparr>)"
    using ok al by (simp add: acc_record_iddef_def length_sel_words acc_alloc_def i0_def Suc_le_eq)
  have sel: "\<forall>cv\<in>set ss. sel_ok sc cv" "distinct (map fst ss)" using ok by simp_all
  have i: "brix_acc_idrule_t.truncate i = acc_idrule_of ss []" "ir_name i = n"
    using slot_fold [OF sel, of i0] by (simp_all add: i_def i0_def acc_idrule_of_def option.case_eq_if)
  have none: "acc_rule_of n es = None" using rule_of_defined [OF db, of n] new by (cases "acc_rule_of n es") auto
  have "acc_matches (RecDef n ss # es) ((pc_tabs pc)\<lparr>id_defs := id_defs (pc_tabs pc) @ [i]\<rparr>)"
    using m i none by (simp add: acc_matches_def list_all2_appendI)
  then show ?thesis using that op r by (simp add: acc_ready_def)
qed

lemma set_rule_names: "map ir_name (acc_set_rule n caps rule is) = map ir_name is"
  by (induction "is") simp_all

lemma set_rule_map:
  "distinct (map ir_name is) \<Longrightarrow> acc_set_rule n caps rule is = map (\<lambda>i. if ir_name i = n then i\<lparr>ir_caps := caps, ir_rule := rule\<rparr> else i) is"
proof (induction "is")
  case Nil
  then show ?case by simp
next
  case (Cons i "is")
  have "map (\<lambda>i. if ir_name i = n then i\<lparr>ir_caps := caps, ir_rule := rule\<rparr> else i) is = is" if n: "ir_name i = n"
  proof (intro map_idI)
    fix x assume x: "x \<in> set is"
    have "ir_name i \<notin> ir_name ` set is" using Cons.prems by simp
    then have "ir_name x \<noteq> n" using imageI [OF x, of ir_name] n by metis
    then show "(if ir_name x = n then x\<lparr>ir_caps := caps, ir_rule := rule\<rparr> else x) = x" by simp
  qed
  then show ?case using Cons by auto
qed

lemma truncate_rule: "brix_acc_idrule_t.truncate (i\<lparr>ir_caps := caps, ir_rule := rule\<rparr>) = (brix_acc_idrule_t.truncate i)\<lparr>ir_caps := caps\<rparr>"
  for i :: acc_iddef_t
  by (simp add: brix_acc_idrule_t.truncate_def)

lemma truncate_caps: "ir_caps (brix_acc_idrule_t.truncate i) = ir_caps i" for i :: acc_iddef_t
  by (simp add: brix_acc_idrule_t.truncate_def)

lemma defs_distinct: "db_ok sc es \<Longrightarrow> distinct (map fst (acc_defs es))"
proof (induction es)
  case Nil
  then show ?case by simp
next
  case (Cons e es)
  then show ?case by (cases e) auto
qed

lemma find_named: "n \<in> set (map ir_name is) \<Longrightarrow> \<exists>i\<in>set is. find (\<lambda>i. ir_name i = n) is = Some i \<and> ir_name i = n"
  by (induction "is") auto

lemma def_matches_caps: "acc_def_matches es i d \<Longrightarrow> ir_caps i = (case acc_rule_of (ir_name i) es of None \<Rightarrow> [] | Some (_, caps) \<Rightarrow> caps)"
  using truncate_caps [of i] by (cases d) (auto simp: acc_idrule_of_def)

lemma def_matches_in: "list_all2 (acc_def_matches es) ds defs \<Longrightarrow> i \<in> set ds \<Longrightarrow> \<exists>d\<in>set defs. acc_def_matches es i d"
  by (induction rule: list_all2_induct) auto

text \<open>A rule completes its definition and no other.\<close>

lemma def_matches_rule:
  assumes "acc_def_matches es i d" "0 \<le> rule \<longleftrightarrow> ex"
  shows "acc_def_matches (RecRule ex n its # es)
    (if ir_name i = n then i\<lparr>ir_caps := map (item_cap (acc_entries T_list es)) its, ir_rule := rule\<rparr> else i) d"
  using assms by (cases d) (auto simp: truncate_rule acc_idrule_of_def)

lemma read_rule:
  assumes ok: "rec_ok sc es (RecRule ex n its)" and db: "db_ok sc es" and m: "acc_matches es (pc_tabs pc)" and r: "acc_ready sc K pc"
    and k: "pc_used pc + length its \<le> K"
  obtains pc' where "acc_record_rule pc n (concat (map item_words its)) ex = Some pc'"
    "acc_matches (RecRule ex n its # es) (pc_tabs pc')" "acc_ready sc K pc'" "pc_env pc' = pc_env pc"
    "pc_used pc' = pc_used pc + length its"
proof -
  let ?caps = "map (item_cap (acc_entries T_list es)) its"
  define rule where "rule = (if ex then excl_seq pc else -1)"
  define seq where "seq = (if ex then excl_seq pc + 1 else excl_seq pc)"
  define ds where "ds = id_defs (pc_tabs pc)"
  define t' where "t' = (pc_tabs pc)\<lparr>id_defs := acc_set_rule n ?caps rule ds\<rparr>"
  have l: "list_all2 (acc_def_matches es) ds (acc_defs es)" using m by (simp add: acc_matches_def ds_def)
  note names = matches_names [OF l]
  have dist: "distinct (map ir_name ds)" unfolding names by (rule defs_distinct [OF db])
  have "n \<in> set (map ir_name ds)" using ok names by simp
  then obtain i where i: "i \<in> set ds" "find (\<lambda>i. ir_name i = n) ds = Some i" "ir_name i = n" using find_named by blast
  have ic: "ir_caps i = []" using def_matches_in [OF l i(1)] def_matches_caps i(3) ok by fastforce
  define u where "u = pc_used pc + length its"
  have u: "acc_build_caps pc (concat (map item_words its)) [] = Some (?caps, pc\<lparr>pc_used := u\<rparr>)"
    using build_caps_rec [OF _ m r, of its] ok k by (simp add: u_def)
  have op: "acc_record_rule pc n (concat (map item_words its)) ex = Some (pc\<lparr>pc_used := u, pc_tabs := t', excl_seq := seq\<rparr>)"
    using i(2) ic u by (simp add: acc_record_rule_def ds_def rule_def t'_def seq_def)
  have sgn: "0 \<le> rule \<longleftrightarrow> ex" using r by (simp add: rule_def acc_ready_def)
  have "list_all2 (acc_def_matches (RecRule ex n its # es)) (acc_set_rule n ?caps rule ds) (acc_defs es)"
    unfolding set_rule_map [OF dist] list_all2_map1
    by (rule list_all2_mono [OF l]) (rule def_matches_rule [OF _ sgn], assumption)
  then have "acc_matches (RecRule ex n its # es) t'" using m by (simp add: acc_matches_def t'_def)
  moreover have "acc_ready sc K (pc\<lparr>pc_used := u, pc_tabs := t', excl_seq := seq\<rparr>)" using r by (simp add: acc_ready_def t'_def seq_def)
  ultimately show ?thesis using that op u_def by simp
qed

text \<open>Any record, from its words.\<close>

lemma rec_words_ok: "rec_ok sc es r \<Longrightarrow> \<forall>w\<in>set (rec_words sc r). acc_word w"
proof (cases r)
  case (RecDef n ss)
  assume ok: "rec_ok sc es r"
  have "acc_word w" if "w \<in> set (sel_words sc cv)" "cv \<in> set ss" for w cv
  proof -
    have s: "sel_ok sc cv" using ok RecDef that(2) by simp
    then have "acc_word [fst cv]" by (auto simp: sel_ok_def acc_selector_ok_def acc_word_def acc_sep_def)
    then show ?thesis using that(1) s by (auto simp: sel_words_def sel_ok_def spaced_ok_def split: if_splits)
  qed
  then show ?thesis using ok RecDef by (auto simp: acc_word_def acc_sep_def)
next
  case (RecRule ex n its)
  assume ok: "rec_ok sc es r"
  have "acc_word w" if "w \<in> set (item_words it)" "item_ok T it" for w it T using that by (cases it) auto
  then show ?thesis using ok RecRule by (auto simp: items_ok_def) (auto simp: acc_word_def acc_sep_def)
next
  case (RecNamed rt n its)
  assume ok: "rec_ok sc es r"
  have "acc_word w" if "w \<in> set (item_words it)" "item_ok T it" for w it T using that by (cases it) auto
  moreover have "acc_word [rt]" using ok RecNamed by (auto simp: acc_word_def acc_sep_def)
  moreover have "acc_word (name_word sc rt n)" using ok RecNamed by (simp add: name_word_def spaced_ok_def split: if_splits)
  ultimately show ?thesis using ok RecNamed by (auto simp: items_ok_def)
next
  case (RecAll its)
  assume ok: "rec_ok sc es r"
  have "acc_word w" if "w \<in> set (item_words it)" "item_ok T it" for w it T using that by (cases it) auto
  then show ?thesis using ok RecAll by (auto simp: items_ok_def) (auto simp: acc_word_def acc_sep_def)
next
  case (RecAny its)
  assume ok: "rec_ok sc es r"
  have "acc_word w" if "w \<in> set (item_words it)" "item_ok T it" for w it T using that by (cases it) auto
  then show ?thesis using ok RecAny by (auto simp: items_ok_def) (auto simp: acc_word_def acc_sep_def)
qed

fun rec_items :: "acc_rec \<Rightarrow> acc_item list" where
  "rec_items (RecDef n ss) = []"
| "rec_items (RecRule ex n its) = its"
| "rec_items (RecNamed rt n its) = its"
| "rec_items (RecAll its) = its"
| "rec_items (RecAny its) = its"

text \<open>The allocations a record takes: its words, a node for each capability, a node for a name or a definition.\<close>

definition rec_cost :: "char \<Rightarrow> acc_rec \<Rightarrow> nat" where
  "rec_cost sc r = length (rec_words sc r) + length (rec_items r)
     + (case r of RecDef _ _ \<Rightarrow> 1 | RecNamed _ _ _ \<Rightarrow> 1 | _ \<Rightarrow> 0)"

definition db_cost :: "char \<Rightarrow> acc_rec list \<Rightarrow> nat" where
  "db_cost sc db = sum_list (map (rec_cost sc) db)"

lemma read_record:
  assumes ok: "rec_ok sc es r" and db: "db_ok sc es" and m: "acc_matches es (pc_tabs pc)" and rd: "acc_ready sc K pc"
    and k: "pc_used pc + rec_cost sc r \<le> K"
  obtains pc' where "acc_dispatch_record (pc\<lparr>pc_used := pc_used pc + length (rec_words sc r)\<rparr>) (rec_words sc r) = Some pc'"
    "acc_matches (r # es) (pc_tabs pc')" "acc_ready sc K pc'" "pc_env pc' = pc_env pc" "pc_used pc' = pc_used pc + rec_cost sc r"
proof -
  define pc1 where "pc1 = pc\<lparr>pc_used := pc_used pc + length (rec_words sc r),
    pc_tabs := (pc_tabs pc)\<lparr>rule_count := Suc (rule_count (pc_tabs pc))\<rparr>\<rparr>"
  have p: "acc_matches es (pc_tabs pc1)" "acc_ready sc K pc1" "pc_env pc1 = pc_env pc"
    "pc_used pc1 = pc_used pc + length (rec_words sc r)" using m rd by (simp_all add: pc1_def acc_ready_def)
  have c: "pc_used pc1 + length (rec_items r) + (case r of RecDef _ _ \<Rightarrow> 1 | RecNamed _ _ _ \<Rightarrow> 1 | _ \<Rightarrow> 0) \<le> K"
    using k p(4) by (simp add: rec_cost_def)
  show ?thesis
  proof (cases r)
    case (RecDef n ss)
    obtain pc' where "acc_record_iddef pc1 n (concat (map (sel_words sc) ss)) = Some pc'" "acc_matches (RecDef n ss # es) (pc_tabs pc')"
      "acc_ready sc K pc'" "pc_env pc' = pc_env pc1" "pc_used pc' = pc_used pc1 + 1"
      by (rule read_def [OF ok [unfolded RecDef] db p(1,2)]) (use c RecDef in simp_all)
    then show ?thesis using that p(3,4) RecDef by (simp add: acc_dispatch_record_def pc1_def rec_cost_def)
  next
    case (RecRule ex n its)
    obtain pc' where "acc_record_rule pc1 n (concat (map item_words its)) ex = Some pc'" "acc_matches (RecRule ex n its # es) (pc_tabs pc')"
      "acc_ready sc K pc'" "pc_env pc' = pc_env pc1" "pc_used pc' = pc_used pc1 + length its"
      by (rule read_rule [OF ok [unfolded RecRule] db p(1,2)]) (use c RecRule in simp_all)
    then show ?thesis using that p(3,4) RecRule by (cases ex) (simp_all add: acc_dispatch_record_def pc1_def rec_cost_def)
  next
    case (RecNamed rt n its)
    obtain pc' where "acc_record_named pc1 rt (name_word sc rt n) (concat (map item_words its)) = Some pc'"
      "acc_matches (RecNamed rt n its # es) (pc_tabs pc')"
      "acc_ready sc K pc'" "pc_env pc' = pc_env pc1" "pc_used pc' = pc_used pc1 + length its + 1"
      by (rule read_named [OF ok [unfolded RecNamed] p(1,2)]) (use c RecNamed in simp_all)
    moreover have "rt \<noteq> CHR ''=''" "rt \<noteq> CHR ''x''" "rt \<noteq> CHR ''s''" "rt \<in> set ''ghnortu''" using ok RecNamed by auto
    ultimately show ?thesis using that p(3,4) RecNamed by (simp add: acc_dispatch_record_def pc1_def rec_cost_def)
  next
    case (RecAll its)
    obtain pc' where "acc_record_named pc1 CHR ''u'' ''*'' (concat (map item_words its)) = Some pc'" "acc_matches (RecAll its # es) (pc_tabs pc')"
      "acc_ready sc K pc'" "pc_env pc' = pc_env pc1" "pc_used pc' = pc_used pc1 + length its"
      by (rule read_all [OF ok [unfolded RecAll] p(1,2)]) (use c RecAll in simp_all)
    then show ?thesis using that p(3,4) RecAll by (simp add: acc_dispatch_record_def pc1_def rec_cost_def)
  next
    case (RecAny its)
    obtain pc' where "acc_record_named pc1 CHR ''u'' ''='' (concat (map item_words its)) = Some pc'" "acc_matches (RecAny its # es) (pc_tabs pc')"
      "acc_ready sc K pc'" "pc_env pc' = pc_env pc1" "pc_used pc' = pc_used pc1 + length its"
      by (rule read_any [OF ok [unfolded RecAny] p(1,2)]) (use c RecAny in simp_all)
    then show ?thesis using that p(3,4) RecAny by (simp add: acc_dispatch_record_def pc1_def rec_cost_def)
  qed
qed

lemma rec_words_Nil: "rec_words sc r \<noteq> []"
  by (cases r) simp_all

lemma read_db:
  assumes "db_ok sc (rev db @ es)" "acc_matches es (pc_tabs pc)" "acc_ready sc K pc" "pc_used pc + db_cost sc db \<le> K"
  shows "\<exists>pc'. acc_tokenize_and_dispatch pc (authdb_print sc db @ s) [] = acc_tokenize_and_dispatch pc' s []
    \<and> acc_matches (rev db @ es) (pc_tabs pc') \<and> acc_ready sc K pc' \<and> pc_env pc' = pc_env pc
    \<and> pc_used pc' = pc_used pc + db_cost sc db"
  using assms
proof (induction db arbitrary: pc es)
  case Nil
  then show ?case by (auto simp: authdb_print_def db_cost_def)
next
  case (Cons r db)
  have ok: "db_ok sc (rev db @ (r # es))" using Cons.prems(1) by simp
  have re: "rec_ok sc es r" "db_ok sc es"
  proof -
    have "db_ok sc (xs @ ys) \<Longrightarrow> db_ok sc ys" for xs ys by (induction xs) auto
    from this [OF ok] show "rec_ok sc es r" "db_ok sc es" by simp_all
  qed
  have k: "pc_used pc + rec_cost sc r \<le> K" "pc_used pc + length (rec_words sc r) \<le> K"
    using Cons.prems(4) by (simp_all add: db_cost_def rec_cost_def)
  obtain pc1 where pc1: "acc_dispatch_record (pc\<lparr>pc_used := pc_used pc + length (rec_words sc r)\<rparr>) (rec_words sc r) = Some pc1"
    "acc_matches (r # es) (pc_tabs pc1)" "acc_ready sc K pc1" "pc_env pc1 = pc_env pc" "pc_used pc1 = pc_used pc + rec_cost sc r"
    by (rule read_record [OF re Cons.prems(2,3) k(1)])
  have "alloc_upto (pc_env pc) K" using Cons.prems(3) by (simp add: acc_ready_def)
  then have "acc_tokenize_and_dispatch pc (print_words (rec_words sc r) @ authdb_print sc db @ s) []
      = acc_tokenize_and_dispatch pc1 (authdb_print sc db @ s) []"
    using tokenize_line [OF rec_words_ok [OF re(1)] _ k(2) rec_words_Nil, of "authdb_print sc db @ s"] pc1(1) by simp
  moreover obtain pc2 where "acc_tokenize_and_dispatch pc1 (authdb_print sc db @ s) [] = acc_tokenize_and_dispatch pc2 s []"
    "acc_matches (rev db @ (r # es)) (pc_tabs pc2)" "acc_ready sc K pc2" "pc_env pc2 = pc_env pc1" "pc_used pc2 = pc_used pc1 + db_cost sc db"
    using Cons.IH [OF ok pc1(2,3)] Cons.prems(4) pc1(5) by (auto simp: db_cost_def)
  ultimately show ?case using pc1(4,5) by (auto simp: authdb_print_def db_cost_def)
qed

lemma finalize_loop_filter:
  "acc_finalize_loop ds sx sy = (sx @ map brix_acc_idrule_t.truncate (filter (\<lambda>i. ir_caps i \<noteq> [] \<and> 0 \<le> ir_rule i) ds),
     sy @ map brix_acc_idrule_t.truncate (filter (\<lambda>i. ir_caps i \<noteq> [] \<and> \<not> 0 \<le> ir_rule i) ds))"
  by (induction ds arbitrary: sx sy) simp_all

lemma finalize_matches:
  assumes "db_ok sc es" "list_all2 (acc_def_matches es) ds defs"
  shows "map brix_acc_idrule_t.truncate (filter (\<lambda>i. ir_caps i \<noteq> [] \<and> (0 \<le> ir_rule i \<longleftrightarrow> ex)) ds)
    = concat (map (\<lambda>(n, ss). case acc_rule_of n es of
       Some (ex', caps) \<Rightarrow> if ex' = ex then [acc_idrule_of ss caps] else [] | None \<Rightarrow> []) defs)"
  using assms(2)
proof (induction rule: list_all2_induct)
  case Nil
  then show ?case by simp
next
  case (Cons i ds d defs)
  obtain n ss where d: "d = (n, ss)" by (cases d)
  have "ir_caps i = (case acc_rule_of n es of None \<Rightarrow> [] | Some (_, caps) \<Rightarrow> caps)" using def_matches_caps [OF Cons(1)] Cons(1) d by simp
  then show ?case using Cons d rule_of_defined [OF assms(1), of n] by (auto split: option.splits)
qed

section \<open>What is parsed\<close>

definition acc_regular :: "string \<Rightarrow> u64 \<Rightarrow> acc_file_t" where
  "acc_regular txt mtime = \<lparr>af_open = True, af_info = Some (length txt, mtime), af_read = Some txt\<rparr>"

definition authdb_means :: "acc_rec list \<Rightarrow> acc_authdb_t \<Rightarrow> bool" where
  "authdb_means db t \<longleftrightarrow> (\<forall>h. acc_head_get h t = acc_entries h (rev db))
     \<and> z_list t = acc_all_caps (rev db) \<and> x_list t = acc_any_caps (rev db)
     \<and> sx_list t = acc_rules True (rev db) \<and> sy_list t = acc_rules False (rev db)"

lemma head_get_finalize [simp]: "acc_head_get h (acc_finalize_rules t) = acc_head_get h t"
  by (cases h) (simp_all add: acc_finalize_rules_def split_beta)

lemma head_get_rules [simp]: "acc_head_get h (t\<lparr>sx_list := a, sy_list := b\<rparr>) = acc_head_get h t"
  by (cases h) simp_all

lemma finalize_means:
  assumes "db_ok sc (rev db)" "acc_matches (rev db) t"
  shows "authdb_means db (acc_finalize_rules t)"
proof -
  have l: "list_all2 (acc_def_matches (rev db)) (id_defs t) (acc_defs (rev db))" using assms(2) by (simp add: acc_matches_def)
  show ?thesis
    using assms(2) finalize_matches [OF assms(1) l, of True] finalize_matches [OF assms(1) l, of False]
    by (simp add: authdb_means_def acc_finalize_rules_def finalize_loop_filter acc_rules_def acc_matches_def)
qed

lemma matches_zero: "acc_matches [] (acc_authdb_zero\<lparr>tab_mtime := m, parse_spacechar := sc, parse_uridecode := ud\<rparr>)"
proof -
  have "acc_head_get h (acc_authdb_zero\<lparr>tab_mtime := m, parse_spacechar := sc, parse_uridecode := ud\<rparr>) = []" for h
    by (cases h) (simp_all add: acc_authdb_zero_def)
  then show ?thesis by (simp add: acc_matches_def acc_authdb_zero_def)
qed

text \<open>Parsing up to a point where the words of the rest cannot be copied.\<close>

lemma parse_prefix:
  assumes ok: "db_ok sc (rev db)" and al: "alloc_upto env (4 + db_cost sc db)"
    and len: "length (authdb_print sc db @ s) \<le> BRIX_ACC_AUTHDB_MAX"
    and rest: "\<And>pc :: acc_parse_ctx_t. pc_env pc = env \<Longrightarrow> pc_used pc = 4 + db_cost sc db \<Longrightarrow> \<exists>u. acc_tokenize_and_dispatch pc s [] = Some (pc\<lparr>pc_used := u\<rparr>)"
  shows "\<exists>t. brix_acc_authfile_parse env (acc_regular (authdb_print sc db @ s) mtime) sc False = Some t \<and> authdb_means db t"
proof -
  let ?t0 = "acc_authdb_zero\<lparr>tab_mtime := mtime, parse_spacechar := sc, parse_uridecode := False\<rparr>"
  define pc where "pc = \<lparr>pc_tabs = ?t0, excl_seq = 0, pc_env = env, pc_used = 4\<rparr>"
  have a: "ae_alloc env 0" "ae_alloc env 1" "ae_alloc env 2" "ae_alloc env 3" using al by (simp_all add: alloc_upto_def)
  show ?thesis
  proof (cases "authdb_print sc db @ s = []")
    case True
    then have "db = []" by (cases db) (auto simp: authdb_print_def print_words_def)
    moreover have "authdb_means [] ?t0" using matches_zero [where m = mtime and sc = sc and ud = False]
      by (simp add: authdb_means_def acc_matches_def acc_rules_def acc_authdb_zero_def)
    ultimately show ?thesis using a True
      by (simp add: brix_acc_authfile_parse_def acc_load_authfile_def acc_regular_def)
  next
    case False
    obtain pc' where pc': "acc_tokenize_and_dispatch pc (authdb_print sc db @ s) [] = acc_tokenize_and_dispatch pc' s []"
      "acc_matches (rev db) (pc_tabs pc')" "pc_env pc' = env" "pc_used pc' = 4 + db_cost sc db"
      using read_db [of sc db "[]" pc "4 + db_cost sc db" s] ok al matches_zero by (auto simp: pc_def acc_ready_def)
    obtain u where u: "acc_tokenize_and_dispatch pc' s [] = Some (pc'\<lparr>pc_used := u\<rparr>)" using rest [OF pc'(3,4)] by blast
    have "acc_load_authfile (acc_regular (authdb_print sc db @ s) mtime) (ae_alloc env 2) = ACC_LOAD_OK (authdb_print sc db @ s) mtime"
      using False len a by (simp add: acc_load_authfile_def acc_regular_def)
    then have "brix_acc_authfile_parse env (acc_regular (authdb_print sc db @ s) mtime) sc False = Some (acc_finalize_rules (pc_tabs pc'))"
      using a pc'(1) u by (simp add: brix_acc_authfile_parse_def pc_def [symmetric])
    then show ?thesis using finalize_means [OF ok pc'(2)] by blast
  qed
qed

lemma parse_whole:
  assumes "db_ok sc (rev db)" "\<forall>i. ae_alloc env i" "length (authdb_print sc db) \<le> BRIX_ACC_AUTHDB_MAX"
  shows "\<exists>t. brix_acc_authfile_parse env (acc_regular (authdb_print sc db) mtime) sc False = Some t \<and> authdb_means db t"
proof -
  have "\<exists>u. acc_tokenize_and_dispatch pc [] [] = Some (pc\<lparr>pc_used := u\<rparr>)" for pc :: acc_parse_ctx_t
    by (subst acc_tokenize_and_dispatch.simps) (auto simp: acc_tok_next_def intro: exI [of _ "pc_used pc"])
  then show ?thesis using parse_prefix [of sc db env "[]" mtime] assms by (simp add: alloc_upto_def)
qed

text \<open>
  C31. A database written down record by record parses, when memory lasts, to tables that mean the database:
  every list of names holds the records of its kind, the latest first, with templates resolved to
  those before; \<open>u *\<close> and \<open>u =\<close> fill their lists; the exclusive and inclusive lists hold, in the order of
  the definitions, each definition that has a rule of that kind, with exactly its selectors and the
  capabilities of the rule.
\<close>

theorem authfile_print_parse:
  assumes "db_ok sc (rev db)" "\<forall>i. ae_alloc env i" "length (authdb_print sc db) \<le> BRIX_ACC_AUTHDB_MAX"
  shows "\<exists>t. brix_acc_authfile_parse env (acc_regular (authdb_print sc db) mtime) sc False = Some t \<and> authdb_means db t"
  by (rule parse_whole [OF assms])

text \<open>
  C32. When the copy of the first word of a record cannot be allocated, the parser takes the failure for
  the end of the file: it succeeds with the tables of the records before, and the rest of the database,
  rules that withhold rights included, is missing.
\<close>

theorem authfile_oom_truncates:
  assumes "db_ok sc (rev db)" "acc_word w" "\<forall>i. ae_alloc env i \<longleftrightarrow> i \<noteq> 4 + db_cost sc db"
    and "length (authdb_print sc db @ w @ '' '' @ rest) \<le> BRIX_ACC_AUTHDB_MAX"
  shows "\<exists>t. brix_acc_authfile_parse env (acc_regular (authdb_print sc db @ w @ '' '' @ rest) mtime) sc False = Some t
    \<and> authdb_means db t"
proof (rule parse_prefix [OF assms(1) _ assms(4)])
  show "alloc_upto env (4 + db_cost sc db)" using assms(3) by (simp add: alloc_upto_def)
  fix pc :: acc_parse_ctx_t assume pc: "pc_env pc = env" "pc_used pc = 4 + db_cost sc db"
  have "acc_tok_next pc (w @ CHR '' '' # rest) = (ACC_TOK_EOF, dropWhile (\<lambda>c. \<not> acc_sep c) (w @ CHR '' '' # rest), pc\<lparr>pc_used := Suc (pc_used pc)\<rparr>)"
    using pc assms(3) by (simp add: acc_tok_next_def skip_gap_at_word [OF assms(2)] acc_pstrdup_def acc_alloc_def)
  then show "\<exists>u. acc_tokenize_and_dispatch pc (w @ '' '' @ rest) [] = Some (pc\<lparr>pc_used := u\<rparr>)"
    by (subst acc_tokenize_and_dispatch.simps) auto
qed

section \<open>Witnesses\<close>

definition authdb_example :: "acc_rec list" where
  "authdb_example = [RecNamed CHR ''t'' ''pub'' [ItemPath ''/p'' ''rl''], RecAll [ItemTemplate ''pub''],
     RecDef ''d'' [(CHR ''u'', ''a b''), (CHR ''h'', ''.ch'')], RecRule True ''d'' [ItemPath ''/x/@=/y'' ''a-d'']]"

lemmas authdb_example_simps = authdb_example_def acc_word_def spaced_ok_def sel_ok_def acc_selector_ok_def items_ok_def
  acc_spaced_def acc_subspace_def acc_sep_def rec_head_def brix_acc_parse_privs_def acc_letter_def brix_acc_named_find_def

lemma authdb_example_ok: "db_ok CHR ''+'' (rev authdb_example)"
  by (simp add: authdb_example_simps)

theorem authfile_print_parse_witness:
  "\<exists>t. brix_acc_authfile_parse \<lparr>ae_alloc = \<lambda>_. True, ae_hextoi = \<lambda>_. -1\<rparr>
      (acc_regular (authdb_print CHR ''+'' authdb_example) 7) CHR ''+'' False = Some t \<and> authdb_means authdb_example t"
  by (rule authfile_print_parse [OF authdb_example_ok])
    (simp_all add: authdb_example_def authdb_print_def print_words_def sel_words_def name_word_def acc_spaced_def)

theorem authfile_oom_truncates_witness:
  "\<exists>t. brix_acc_authfile_parse \<lparr>ae_alloc = \<lambda>i. i \<noteq> 4 + db_cost CHR ''+'' authdb_example, ae_hextoi = \<lambda>_. -1\<rparr>
      (acc_regular (authdb_print CHR ''+'' authdb_example @ ''u'' @ '' '' @ ''guest /secret -a'') 7) CHR ''+'' False = Some t
    \<and> authdb_means authdb_example t"
  by (rule authfile_oom_truncates [OF authdb_example_ok])
    (simp_all add: acc_word_def acc_sep_def authdb_example_def authdb_print_def print_words_def sel_words_def name_word_def acc_spaced_def)

end
