(* ===== verification/Acc_Authsafe.thy ===== *)
theory Acc_Authsafe
  imports Acc_Authdb
begin

text \<open>
  What holds of the tables of any file the parser of \<^verbatim>\<open>src/auth/authz/acc\<close> accepts: names are distinct,
  capabilities are well formed, and no rule applies to everyone; and the entities of requests, what their lists
  say place by place and which records reach a request without credentials.
\<close>

section \<open>Whatever the file\<close>

text \<open>What holds of the tables of every file that parses, with or without memory.\<close>

fun acc_cap_ok :: "brix_acc_cap_t \<Rightarrow> bool" where
  "acc_cap_ok (AccTemplate l) \<longleftrightarrow> l \<noteq> [] \<and> (\<forall>c\<in>set l. acc_cap_ok c)"
| "acc_cap_ok (AccPath p i r caps) \<longleftrightarrow> (i = 0 \<and> r = 0) \<or> (i + 2 + r = length p \<and> take 2 (drop i p) = ''@='')"

definition acc_caps_ok :: "brix_acc_cap_t list \<Rightarrow> bool" where
  "acc_caps_ok l \<longleftrightarrow> (\<forall>c\<in>set l. acc_cap_ok c)"

definition acc_selective :: "brix_acc_idrule_t \<Rightarrow> bool" where
  "acc_selective r \<longleftrightarrow> ir_user r \<noteq> None \<or> ir_host r \<noteq> None \<or> ir_org r \<noteq> None \<or> ir_role r \<noteq> None \<or> ir_grp r \<noteq> None"

definition acc_names_ok :: "brix_acc_named_t \<Rightarrow> bool" where
  "acc_names_ok l \<longleftrightarrow> distinct (map fst l) \<and> (\<forall>(n, c)\<in>set l. c \<noteq> [] \<and> acc_caps_ok c)"

definition acc_tabs_inv :: "acc_authdb_t \<Rightarrow> bool" where
  "acc_tabs_inv t \<longleftrightarrow> (\<forall>h. acc_names_ok (acc_head_get h t)) \<and> acc_caps_ok (z_list t) \<and> acc_caps_ok (x_list t)
     \<and> (\<forall>nc\<in>set (d_list t). fst nc \<noteq> [] \<and> hd (fst nc) = CHR ''.'')
     \<and> (\<forall>i\<in>set (id_defs t). acc_selective (brix_acc_idrule_t.truncate i) \<and> acc_caps_ok (ir_caps i))"

lemma tmpl_point_ok: "acc_tmpl_point p = Some i \<Longrightarrow> i + 2 \<le> length p \<and> take 2 (drop i p) = ''@=''"
proof (induction p arbitrary: i rule: acc_tmpl_point.induct)
  case (1 a b s)
  show ?case
  proof (cases "a = CHR ''@'' \<and> b = CHR ''=''")
    case True
    then show ?thesis using 1(2) by auto
  next
    case False
    then obtain j where "acc_tmpl_point (b # s) = Some j" "i = Suc j" using 1(2) by auto
    then show ?thesis using 1(1) [OF False] by auto
  qed
qed auto

lemma cap_path_ok: "acc_cap_path pc p w = Some (c, pc') \<Longrightarrow> acc_cap_ok c \<and> pc_tabs pc' = pc_tabs pc"
  using tmpl_point_ok [of p] by (auto simp: acc_cap_path_def acc_alloc_def split: option.splits if_splits)

lemma named_find_ok:
  assumes "acc_names_ok l" "brix_acc_named_find l n = Some c"
  shows "c \<noteq> [] \<and> acc_caps_ok c"
proof -
  obtain m where "(m, c) \<in> set l"
    using assms(2) by (auto simp: brix_acc_named_find_def find_Some_iff in_set_conv_nth split: option.splits) fastforce
  then show ?thesis using assms(1) by (auto simp: acc_names_ok_def)
qed

lemma uri_decode_tabs: "pc_tabs (snd (acc_uri_decode pc p)) = pc_tabs pc"
  by (simp add: acc_uri_decode_def acc_alloc_def)

definition acc_item_path :: "acc_parse_ctx_t \<Rightarrow> string \<Rightarrow> string \<times> acc_parse_ctx_t" where
  "acc_item_path pc w = (let path = (if hd w = BACKSLASH then tl w else w)
     in if parse_uridecode (pc_tabs pc) then acc_uri_decode pc path else (path, pc))"

lemma item_path_tabs: "pc_tabs (snd (acc_item_path pc w)) = pc_tabs pc"
  by (simp add: acc_item_path_def uri_decode_tabs Let_def)

lemma build_caps_Cons:
  "acc_build_caps pc (w # ws) acc =
     (if w = [BACKSLASH] then None
      else if w = [] \<or> hd w \<noteq> BACKSLASH \<and> hd w \<noteq> slash
      then (case brix_acc_named_find (t_list (pc_tabs pc)) (Some w) of None \<Rightarrow> None
            | Some tc \<Rightarrow> if ae_alloc (pc_env pc) (pc_used pc)
                then acc_build_caps (pc\<lparr>pc_used := Suc (pc_used pc)\<rparr>) ws (acc @ [AccTemplate tc]) else None)
      else (case ws of [] \<Rightarrow> None
            | pr # vs \<Rightarrow> (case acc_cap_path (snd (acc_item_path pc w)) (fst (acc_item_path pc w)) pr of
                None \<Rightarrow> None | Some (c, pc) \<Rightarrow> acc_build_caps pc vs (acc @ [c]))))"
proof (cases "w = []")
  case True
  then show ?thesis by (simp add: acc_alloc_def split: option.split)
next
  case False
  then show ?thesis
  proof (cases "hd w = BACKSLASH")
    case True
    then show ?thesis using False by (simp add: acc_item_path_def Let_def split_beta split: list.split)
  next
    case b: False
    show ?thesis
    proof (cases "hd w = slash")
      case True
      then show ?thesis using False b by (auto simp: acc_item_path_def Let_def split_beta split: list.split)
    next
      case f: False
      have "w \<noteq> [BACKSLASH]" using b by auto
      then show ?thesis using False b f by (simp add: acc_alloc_def Let_def split: option.split)
    qed
  qed
qed

lemma build_caps_ok:
  "acc_build_caps pc ws acc = Some (caps, pc') \<Longrightarrow> acc_names_ok (t_list (pc_tabs pc)) \<Longrightarrow> acc_caps_ok acc
    \<Longrightarrow> caps \<noteq> [] \<and> acc_caps_ok caps \<and> pc_tabs pc' = pc_tabs pc"
proof (induction "length ws" arbitrary: pc ws acc rule: less_induct)
  case less
  show ?case
  proof (cases ws)
    case Nil
    then show ?thesis using less.prems by (auto split: if_splits)
  next
    case (Cons w us)
    note eq = less.prems(1) [unfolded Cons build_caps_Cons]
    have nb: "w \<noteq> [BACKSLASH]" using eq by auto
    show ?thesis
    proof (cases "w = [] \<or> hd w \<noteq> BACKSLASH \<and> hd w \<noteq> slash")
      case True
      then obtain tc where tc: "brix_acc_named_find (t_list (pc_tabs pc)) (Some w) = Some tc"
        "acc_build_caps (pc\<lparr>pc_used := Suc (pc_used pc)\<rparr>) us (acc @ [AccTemplate tc]) = Some (caps, pc')"
        using eq nb by (simp split: option.splits if_splits)
      have "acc_caps_ok (acc @ [AccTemplate tc])" using named_find_ok [OF less.prems(2) tc(1)] less.prems(3) by (auto simp: acc_caps_ok_def)
      then show ?thesis using less.hyps [OF _ tc(2)] less.prems(2) Cons by simp
    next
      case False
      have e: "(case us of [] \<Rightarrow> None
            | pr # vs \<Rightarrow> (case acc_cap_path (snd (acc_item_path pc w)) (fst (acc_item_path pc w)) pr of
                None \<Rightarrow> None | Some (c, pc) \<Rightarrow> acc_build_caps pc vs (acc @ [c]))) = Some (caps, pc')"
        using eq unfolding if_not_P [OF nb] if_not_P [OF False] .
      then obtain pr vs c pc1 where us: "us = pr # vs"
        and c: "acc_cap_path (snd (acc_item_path pc w)) (fst (acc_item_path pc w)) pr = Some (c, pc1)"
          "acc_build_caps pc1 vs (acc @ [c]) = Some (caps, pc')"
        by (auto split: list.splits option.splits)
      have t: "pc_tabs pc1 = pc_tabs pc" "acc_cap_ok c" using cap_path_ok [OF c(1)] item_path_tabs by simp_all
      then have "acc_caps_ok (acc @ [c])" using less.prems(3) by (auto simp: acc_caps_ok_def)
      then show ?thesis using less.hyps [OF _ c(2)] less.prems(2) t(1) Cons us by simp
    qed
  qed
qed

lemma bind_selective:
  "acc_iddef_bind_selector pc i s v = Some i' \<Longrightarrow> acc_selective (brix_acc_idrule_t.truncate i') \<and> ir_caps i' = ir_caps i \<and> ir_name i' = ir_name i"
proof -
  assume b: "acc_iddef_bind_selector pc i s v = Some i'"
  then obtain sel where s: "s = [sel]" by (auto simp: acc_iddef_bind_selector_def split: list.splits)
  obtain w where "i' \<in> {i\<lparr>ir_grp := Some w\<rparr>, i\<lparr>ir_host := Some w\<rparr>, i\<lparr>ir_org := Some w\<rparr>, i\<lparr>ir_role := Some w\<rparr>, i\<lparr>ir_user := Some w\<rparr>}"
    using b unfolding s acc_iddef_bind_selector_def list.case by (auto split: if_splits)
  then show ?thesis by (auto simp: acc_selective_def brix_acc_idrule_t.truncate_def)
qed

lemma iddef_loop_selective:
  "acc_iddef_loop pc i ws = Some i' \<Longrightarrow> 2 \<le> length ws \<or> acc_selective (brix_acc_idrule_t.truncate i)
    \<Longrightarrow> acc_selective (brix_acc_idrule_t.truncate i') \<and> ir_caps i' = ir_caps i"
proof (induction pc i ws rule: acc_iddef_loop.induct)
  case (1 pc i s v ws)
  obtain j where j: "acc_iddef_bind_selector pc i s v = Some j" "acc_iddef_loop pc j ws = Some i'"
    using 1(2) by (auto split: option.splits)
  then show ?case using 1(1) [OF j] bind_selective [OF j(1)] by simp
qed auto

lemma inv_head: "acc_tabs_inv t \<Longrightarrow> acc_names_ok (acc_head_get h t)"
  by (simp add: acc_tabs_inv_def)

lemma inv_templates: "acc_tabs_inv t \<Longrightarrow> acc_names_ok (t_list t)"
  using inv_head [of t T_list] by simp

lemma inv_count [simp]: "acc_tabs_inv (t\<lparr>rule_count := n\<rparr>) = acc_tabs_inv t"
  by (simp add: acc_tabs_inv_def)

lemma inv_defsD: "acc_tabs_inv t \<Longrightarrow> \<forall>i\<in>set (id_defs t). acc_selective (brix_acc_idrule_t.truncate i) \<and> acc_caps_ok (ir_caps i)"
  by (simp add: acc_tabs_inv_def)

lemma inv_defs:
  assumes "acc_tabs_inv t" "\<forall>i\<in>set ds. acc_selective (brix_acc_idrule_t.truncate i) \<and> acc_caps_ok (ir_caps i)"
  shows "acc_tabs_inv (t\<lparr>id_defs := ds\<rparr>)"
  using assms by (simp add: acc_tabs_inv_def)

lemma head_store_inv:
  assumes inv: "acc_tabs_inv t" and n: "acc_names_ok ((name, caps) # acc_head_get h t)"
    and dom: "h = D_list \<longrightarrow> name \<noteq> [] \<and> hd name = CHR ''.''"
  shows "acc_tabs_inv (acc_head_set h ((name, caps) # acc_head_get h t) t)"
proof -
  have d: "d_list (acc_head_set k l t) = (if k = D_list then l else d_list t)" for k l by (cases k) simp_all
  have "acc_names_ok (acc_head_get k (acc_head_set h ((name, caps) # acc_head_get h t) t))" for k
    using n inv_head [OF inv] by (simp add: head_get_set)
  moreover have "\<forall>nc\<in>set (d_list (acc_head_set h ((name, caps) # acc_head_get h t) t)). fst nc \<noteq> [] \<and> hd (fst nc) = CHR ''.''"
    using inv dom by (cases "h = D_list") (simp_all add: d acc_tabs_inv_def)
  ultimately show ?thesis using inv by (simp add: acc_tabs_inv_def head_set_frame)
qed

lemma named_store_inv:
  assumes inv: "acc_tabs_inv (pc_tabs pc)" and c: "caps \<noteq> []" "acc_caps_ok caps"
    and dom: "an_head nc = D_list \<longrightarrow> name \<noteq> [] \<and> hd name = CHR ''.''"
    and dup: "\<not> acc_named_is_dup (pc_tabs pc) nc name" and s: "acc_named_store pc nc name caps = Some pc'"
  shows "acc_tabs_inv (pc_tabs pc')"
proof -
  consider "an_alluser nc" "pc_tabs pc' = (pc_tabs pc)\<lparr>z_list := caps\<rparr>" | "an_anyuser nc" "pc_tabs pc' = (pc_tabs pc)\<lparr>x_list := caps\<rparr>"
    | "\<not> an_alluser nc" "\<not> an_anyuser nc"
      "pc_tabs pc' = acc_head_set (an_head nc) ((name, caps) # acc_head_get (an_head nc) (pc_tabs pc)) (pc_tabs pc)"
    using s by (auto simp: acc_named_store_def acc_named_prepend_def acc_alloc_def split: if_splits)
  then show ?thesis
  proof cases
    case 3
    have "name \<notin> fst ` set (acc_head_get (an_head nc) (pc_tabs pc))"
      using dup 3(1,2) by (simp add: acc_named_is_dup_def named_absent)
    then have n: "acc_names_ok ((name, caps) # acc_head_get (an_head nc) (pc_tabs pc))"
      using inv_head [OF inv, of "an_head nc"] c by (simp add: acc_names_ok_def)
    show ?thesis using head_store_inv [OF inv n] dom 3(3) by simp
  qed (use inv c in \<open>simp_all add: acc_tabs_inv_def\<close>)
qed

lemma named_resolve_domain:
  "acc_named_resolve rtype name = Some nc \<Longrightarrow> an_head nc = D_list \<Longrightarrow> rtype = CHR ''h'' \<and> name \<noteq> [] \<and> hd name = CHR ''.''"
  by (auto simp: acc_named_resolve_def split: if_splits)

lemma record_named_inv:
  assumes inv: "acc_tabs_inv (pc_tabs pc)" and r: "acc_record_named pc rt name ws = Some pc'"
  shows "acc_tabs_inv (pc_tabs pc')"
proof -
  obtain nc where nc: "acc_named_resolve rt name = Some nc" using r by (cases "acc_named_resolve rt name") (simp_all add: acc_record_named_def)
  define name' where "name' = (if rt = CHR ''g'' \<or> rt = CHR ''o'' \<or> rt = CHR ''r''
      \<or> (rt = CHR ''u'' \<and> \<not> an_alluser nc \<and> \<not> an_anyuser nc)
    then acc_subspace name (parse_spacechar (pc_tabs pc)) else name)"
  have e: "(if acc_named_is_dup (pc_tabs pc) nc name' then None
      else case acc_build_caps pc ws [] of None \<Rightarrow> None | Some (caps, pc) \<Rightarrow> acc_named_store pc nc name' caps) = Some pc'"
    using r unfolding acc_record_named_def nc option.case Let_def name'_def [symmetric] .
  have dup: "\<not> acc_named_is_dup (pc_tabs pc) nc name'" using e by (cases "acc_named_is_dup (pc_tabs pc) nc name'") simp_all
  obtain caps pc1 where s: "acc_build_caps pc ws [] = Some (caps, pc1)" "acc_named_store pc1 nc name' caps = Some pc'"
    using e dup by (cases "acc_build_caps pc ws []") auto
  have c: "caps \<noteq> [] \<and> acc_caps_ok caps \<and> pc_tabs pc1 = pc_tabs pc"
    by (rule build_caps_ok [OF s(1) inv_templates [OF inv]]) (simp add: acc_caps_ok_def)
  have "an_head nc = D_list \<longrightarrow> name' \<noteq> [] \<and> hd name' = CHR ''.''"
    using named_resolve_domain [OF nc] by (auto simp: name'_def)
  then show ?thesis using named_store_inv [of pc1 caps nc name' pc'] inv c dup s(2) by simp
qed

lemma set_rule_inv:
  assumes "\<forall>i\<in>set ds. acc_selective (brix_acc_idrule_t.truncate i) \<and> acc_caps_ok (ir_caps i)" "acc_caps_ok caps"
  shows "\<forall>i\<in>set (acc_set_rule n caps rule ds). acc_selective (brix_acc_idrule_t.truncate i) \<and> acc_caps_ok (ir_caps i)"
  using assms by (induction ds) (auto simp: truncate_rule acc_selective_def)

lemma record_rule_inv:
  assumes inv: "acc_tabs_inv (pc_tabs pc)" and r: "acc_record_rule pc name ws ex = Some pc'"
  shows "acc_tabs_inv (pc_tabs pc')"
proof -
  obtain i where i: "find (\<lambda>i. ir_name i = name) (id_defs (pc_tabs pc)) = Some i"
    using r by (cases "find (\<lambda>i. ir_name i = name) (id_defs (pc_tabs pc))") (simp_all add: acc_record_rule_def)
  have "ir_caps i = []" using r i by (simp add: acc_record_rule_def split: if_splits)
  then obtain caps pc1 where s: "acc_build_caps pc ws [] = Some (caps, pc1)"
    "pc_tabs pc' = (pc_tabs pc1)\<lparr>id_defs := acc_set_rule name caps (if ex then excl_seq pc1 else -1) (id_defs (pc_tabs pc1))\<rparr>"
    using r i by (cases "acc_build_caps pc ws []") (auto simp: acc_record_rule_def)
  have c: "caps \<noteq> [] \<and> acc_caps_ok caps \<and> pc_tabs pc1 = pc_tabs pc"
    by (rule build_caps_ok [OF s(1) inv_templates [OF inv]]) (simp add: acc_caps_ok_def)
  have t: "pc_tabs pc1 = pc_tabs pc" "acc_caps_ok caps" using c by simp_all
  show ?thesis unfolding s(2) t(1) by (rule inv_defs [OF inv set_rule_inv [OF inv_defsD [OF inv] t(2)]])
qed

lemma record_iddef_inv:
  assumes inv: "acc_tabs_inv (pc_tabs pc)" and r: "acc_record_iddef pc name ws = Some pc'"
  shows "acc_tabs_inv (pc_tabs pc')"
proof -
  define i0 where "i0 = \<lparr>ir_user = None, ir_host = None, ir_org = None, ir_role = None, ir_grp = None,
     ir_caps = [], ir_name = name, ir_rule = - (2 ^ 31)\<rparr>"
  obtain i pc1 where i: "acc_iddef_loop pc1 i0 ws = Some i" "2 \<le> length ws"
    "pc_tabs pc' = (pc_tabs pc)\<lparr>id_defs := id_defs (pc_tabs pc) @ [i]\<rparr>"
    using r unfolding acc_record_iddef_def i0_def [symmetric] acc_alloc_def by (auto simp: Let_def split: option.splits if_splits)
  have "acc_selective (brix_acc_idrule_t.truncate i) \<and> ir_caps i = ir_caps i0"
    by (rule iddef_loop_selective [OF i(1)]) (use i(2) in simp)
  then show ?thesis using inv i(3) by (auto simp: acc_tabs_inv_def i0_def acc_caps_ok_def)
qed

lemma dispatch_inv: "acc_tabs_inv (pc_tabs pc) \<Longrightarrow> acc_dispatch_record pc w = Some pc' \<Longrightarrow> acc_tabs_inv (pc_tabs pc')"
  unfolding acc_dispatch_record_def Let_def
  by (auto split: if_splits dest: record_named_inv [rotated] record_rule_inv [rotated] record_iddef_inv [rotated])

lemma tok_next_tabs: "acc_tok_next pc p = (t, r, pc') \<Longrightarrow> pc_tabs pc' = pc_tabs pc"
  by (auto simp: acc_tok_next_def acc_pstrdup_def acc_alloc_def split: prod.splits acc_gap.splits option.splits if_splits)

lemma tokenize_inv:
  "acc_tokenize_and_dispatch pc p words = Some pc' \<Longrightarrow> acc_tabs_inv (pc_tabs pc) \<Longrightarrow> acc_tabs_inv (pc_tabs pc')"
proof (induction "length p" arbitrary: pc p words rule: less_induct)
  case less
  obtain t r pc1 where t: "acc_tok_next pc p = (t, r, pc1)" by (cases "acc_tok_next pc p")
  have i1: "acc_tabs_inv (pc_tabs pc1)" using tok_next_tabs [OF t] less.prems(2) by simp
  note eq = less.prems(1) [unfolded acc_tokenize_and_dispatch.simps [of pc p words] t prod.case]
  have d: "acc_tabs_inv (pc_tabs pc2)" if "(if words \<noteq> [] then acc_dispatch_record pc1 words else Some pc1) = Some pc2" for pc2
    using that i1 dispatch_inv [OF i1] by (auto split: if_splits)
  show ?case
  proof (cases t)
    case ACC_TOK_EOF
    then show ?thesis using eq d by simp
  next
    case ACC_TOK_EOR
    then obtain pc2 where "(if words \<noteq> [] then acc_dispatch_record pc1 words else Some pc1) = Some pc2"
      "acc_tokenize_and_dispatch pc2 r [] = Some pc'" using eq by (auto split: option.splits)
    then show ?thesis using less.hyps tok_next_shorter [OF t] ACC_TOK_EOR d by blast
  next
    case (ACC_TOK_WORD w)
    then have "acc_tokenize_and_dispatch pc1 r (words @ [w]) = Some pc'" using eq by simp
    then show ?thesis using less.hyps tok_next_shorter [OF t] ACC_TOK_WORD i1 by blast
  qed
qed

lemma zero_inv: "acc_tabs_inv (acc_authdb_zero\<lparr>tab_mtime := m, parse_spacechar := sc, parse_uridecode := ud\<rparr>)"
proof -
  have "acc_head_get h (acc_authdb_zero\<lparr>tab_mtime := m, parse_spacechar := sc, parse_uridecode := ud\<rparr>) = []" for h
    by (cases h) (simp_all add: acc_authdb_zero_def)
  then show ?thesis by (simp add: acc_tabs_inv_def acc_names_ok_def acc_caps_ok_def acc_authdb_zero_def)
qed

definition acc_rules_ok :: "acc_authdb_t \<Rightarrow> bool" where
  "acc_rules_ok t \<longleftrightarrow> (\<forall>r\<in>set (sx_list t) \<union> set (sy_list t). acc_selective r \<and> ir_caps r \<noteq> [] \<and> acc_caps_ok (ir_caps r))"

lemma finalize_ok: "acc_tabs_inv t \<Longrightarrow> acc_tabs_inv (acc_finalize_rules t) \<and> acc_rules_ok (acc_finalize_rules t)"
  using truncate_caps
  by (auto simp: acc_tabs_inv_def acc_rules_ok_def acc_finalize_rules_def finalize_loop_filter)

lemma parse_inv: "brix_acc_authfile_parse env f sc ud = Some t \<Longrightarrow> acc_tabs_inv t \<and> acc_rules_ok t"
proof -
  assume p: "brix_acc_authfile_parse env f sc ud = Some t"
  show ?thesis
  proof (cases "acc_load_authfile f (ae_alloc env 2)")
    case (ACC_LOAD_OK buf mtime)
    then obtain pc where pc: "acc_tokenize_and_dispatch
        \<lparr>pc_tabs = acc_authdb_zero\<lparr>tab_mtime := mtime, parse_spacechar := sc, parse_uridecode := ud\<rparr>,
         excl_seq = 0, pc_env = env, pc_used = 4\<rparr> buf [] = Some pc" "t = acc_finalize_rules (pc_tabs pc)"
      using p by (auto simp: brix_acc_authfile_parse_def split: if_splits option.splits)
    then show ?thesis using finalize_ok tokenize_inv [OF pc(1)] zero_inv by simp
  next
    case (ACC_LOAD_EMPTY mtime)
    then have "t = acc_authdb_zero\<lparr>tab_mtime := mtime, parse_spacechar := sc, parse_uridecode := ud\<rparr>"
      using p by (simp add: brix_acc_authfile_parse_def split: if_splits)
    then show ?thesis using zero_inv by (simp add: acc_rules_ok_def acc_authdb_zero_def)
  next
    case ACC_LOAD_ERROR
    then show ?thesis using p by (simp add: brix_acc_authfile_parse_def split: if_splits)
  qed
qed

section \<open>Entities\<close>

text \<open>
  The identity of a request, \<^verbatim>\<open>entity.c\<close>: comma-separated attribute lists are split and paired by
  position.  A field is a string at an address; the place in its list serves as the address.  Any failed
  allocation gives no entity (\<open>pool_ok\<close>).
\<close>

definition brix_identity_trim_ws :: "string \<Rightarrow> string" where
  "brix_identity_trim_ws s = (let blank = (\<lambda>c. c = CHR '' '' \<or> c = TAB)
     in rev (dropWhile blank (rev (dropWhile blank s))))"

definition acc_csv_push_field :: "string \<Rightarrow> string option" where
  "acc_csv_push_field field = (let s = brix_identity_trim_ws field in if s = [] then None else Some s)"

fun acc_csv_loop :: "string \<Rightarrow> string \<Rightarrow> string option list" where
  "acc_csv_loop [] start = [acc_csv_push_field start]"
| "acc_csv_loop (c # p) start =
     (if c = CHR '','' then acc_csv_push_field start # acc_csv_loop p [] else acc_csv_loop p (start @ [c]))"

definition acc_split_csv :: "string option \<Rightarrow> string option list" where
  "acc_split_csv csv = (case csv of None \<Rightarrow> [] | Some s \<Rightarrow> if s = [] then [] else acc_csv_loop s [])"

definition acc_pick :: "string option list \<Rightarrow> nat \<Rightarrow> acc_ptr" where
  "acc_pick l i = (if l = [] then None
     else if length l = 1 then map_option (Pair 0) (l ! 0)
     else if i < length l then map_option (Pair i) (l ! i) else None)"

definition acc_entity_own_scalar :: "string option \<Rightarrow> string \<Rightarrow> string" where
  "acc_entity_own_scalar s sentinel = (case s of None \<Rightarrow> sentinel | Some v \<Rightarrow> if v = [] then sentinel else v)"

definition acc_entity_tuple_count :: "string option list \<Rightarrow> string option list \<Rightarrow> string option list \<Rightarrow> nat" where
  "acc_entity_tuple_count vorgs roles grps =
     (let n = length vorgs; n = (if length roles > n then length roles else n);
          n = (if length grps > n then length grps else n) in if n = 0 then 1 else n)"

definition acc_entity_fill_tuples ::
    "string option list \<Rightarrow> string option list \<Rightarrow> string option list \<Rightarrow> nat \<Rightarrow> brix_acc_attr_t list" where
  "acc_entity_fill_tuples vorgs roles grps n =
     map (\<lambda>i. \<lparr>at_vorg = acc_pick vorgs i, at_role = acc_pick roles i, at_grup = map_option snd (acc_pick grps i)\<rparr>) [0..<n]"

definition brix_acc_entity_build ::
    "bool \<Rightarrow> string option \<Rightarrow> string option \<Rightarrow> bool \<Rightarrow> string option \<Rightarrow> string option \<Rightarrow> string option
     \<Rightarrow> brix_acc_entity_t option" where
  "brix_acc_entity_build pool_ok name host isuser vorg_csv role_csv grp_csv =
     (if \<not> pool_ok then None
      else let vorgs = acc_split_csv vorg_csv; roles = acc_split_csv role_csv; grps = acc_split_csv grp_csv
           in Some \<lparr>en_name = Some (acc_entity_own_scalar name ''*''), en_host = Some (acc_entity_own_scalar host ''?''),
                    en_isuser = (isuser \<and> name \<noteq> None \<and> name \<noteq> Some []),
                    en_tuples = acc_entity_fill_tuples vorgs roles grps (acc_entity_tuple_count vorgs roles grps)\<rparr>)"

text \<open>The fields of a list: what stands between its commas, blanks around it dropped; an empty field is no value.\<close>

definition csv_fields :: "string option \<Rightarrow> string list" where
  "csv_fields csv = (case csv of None \<Rightarrow> [] | Some s \<Rightarrow> map brix_identity_trim_ws (split_on CHR '','' s))"

definition csv_value :: "string \<Rightarrow> string option" where
  "csv_value f = (if f = [] then None else Some f)"

text \<open>What a list says of place \<open>i\<close>: a single field speaks for every place, a longer list for its own.\<close>

definition csv_place :: "string list \<Rightarrow> nat \<Rightarrow> string option" where
  "csv_place fs i = (if length fs = 1 then csv_value (hd fs) else if i < length fs then csv_value (fs ! i) else None)"

lemma csv_loop_split:
  "acc_csv_loop s start = (case split_on CHR '','' s of [] \<Rightarrow> [] | w # ws \<Rightarrow> map acc_csv_push_field ((start @ w) # ws))"
  by (induction s arbitrary: start) (auto split: list.split)

lemma split_csv_fields:
  "acc_split_csv csv = map csv_value (csv_fields csv) \<or> csv_fields csv = [[]] \<and> acc_split_csv csv = []"
proof (cases "csv = Some []")
  case True
  then show ?thesis by (simp add: acc_split_csv_def csv_fields_def brix_identity_trim_ws_def)
next
  case False
  have push: "acc_csv_push_field = csv_value \<circ> brix_identity_trim_ws"
    by (rule ext) (simp add: acc_csv_push_field_def csv_value_def Let_def)
  have "acc_csv_loop s [] = map csv_value (map brix_identity_trim_ws (split_on CHR '','' s))" for s
    by (simp add: csv_loop_split push split: list.split)
  then show ?thesis using False by (auto simp: acc_split_csv_def csv_fields_def split: option.split)
qed

lemma pick_fields: "map_option snd (acc_pick (acc_split_csv csv) i) = csv_place (csv_fields csv) i"
proof -
  have "map_option snd (acc_pick (map csv_value fs) i) = csv_place fs i" for fs :: "string list"
  proof -
    have "map_option snd (map_option (Pair k) v) = v" for k :: nat and v :: "string option" by (cases v) simp_all
    then show ?thesis by (cases fs) (auto simp: acc_pick_def csv_place_def simp flip: list.map)
  qed
  moreover have "csv_place [[]] i = None" by (simp add: csv_place_def csv_value_def)
  moreover have "acc_pick [] i = None" by (simp add: acc_pick_def)
  ultimately show ?thesis using split_csv_fields [of csv] by (elim disjE conjE) simp_all
qed

lemma split_csv_length: "max 1 (length (acc_split_csv csv)) = max 1 (length (csv_fields csv))"
  using split_csv_fields [of csv] by auto

lemma pick_place: "acc_pick l i = Some (k, v) \<Longrightarrow> k < length l \<and> l ! k = Some v"
  by (auto simp: acc_pick_def split: if_splits)

lemma pick_same: "\<not> ptr_differs (acc_pick l i) (acc_pick l j) \<Longrightarrow> acc_pick l i = acc_pick l j"
  using pick_place [of l i] pick_place [of l j]
  by (cases "acc_pick l i"; cases "acc_pick l j") (auto simp: ptr_differs_def)

lemma built_addresses: "acc_addresses_ok \<lparr>en_name = nm, en_host = h, en_isuser = u, en_tuples = acc_entity_fill_tuples vs rs gs n\<rparr>"
  using pick_same by (auto simp: acc_addresses_ok_def acc_entity_fill_tuples_def)

text \<open>
  C35. Whatever the organisation, role and group lists of an identity, the entity has one tuple per place of
  the longest list, and at least one; the tuple of a place holds the field each list has there, without the
  blanks around it, an empty field or a place past the end being no value and a list of a single field
  speaking for every place.  Its strings have the addresses the engine needs to skip repeated ones.
\<close>

theorem entity_pairs_by_position:
  "\<exists>ent. brix_acc_entity_build True name host isuser vorg_csv role_csv grp_csv = Some ent
    \<and> map (\<lambda>a. (map_option snd (at_vorg a), map_option snd (at_role a), at_grup a)) (en_tuples ent)
        = map (\<lambda>i. (csv_place (csv_fields vorg_csv) i, csv_place (csv_fields role_csv) i, csv_place (csv_fields grp_csv) i))
            [0..<Max {1, length (csv_fields vorg_csv), length (csv_fields role_csv), length (csv_fields grp_csv)}]
    \<and> acc_addresses_ok ent"
proof -
  let ?n = "acc_entity_tuple_count (acc_split_csv vorg_csv) (acc_split_csv role_csv) (acc_split_csv grp_csv)"
  have "?n = Max {1, length (acc_split_csv vorg_csv), length (acc_split_csv role_csv), length (acc_split_csv grp_csv)}"
    by (auto simp: acc_entity_tuple_count_def Let_def max_def Suc_le_eq)
  also have "\<dots> = Max {1, length (csv_fields vorg_csv), length (csv_fields role_csv), length (csv_fields grp_csv)}"
    using split_csv_length [of vorg_csv] split_csv_length [of role_csv] split_csv_length [of grp_csv]
    by (simp add: max_def split: if_splits)
  finally have n: "?n = Max {1, length (csv_fields vorg_csv), length (csv_fields role_csv), length (csv_fields grp_csv)}" .
  show ?thesis unfolding n [symmetric]
    by (simp add: brix_acc_entity_build_def built_addresses Let_def) (simp add: acc_entity_fill_tuples_def pick_fields)
qed

theorem entity_pairs_by_position_witness:
  "\<exists>ent. brix_acc_entity_build True (Some ''alice'') None True (Some ''cms, atlas'') (Some ''production'') (Some ''/cms'') = Some ent
    \<and> map (\<lambda>a. (map_option snd (at_vorg a), map_option snd (at_role a), at_grup a)) (en_tuples ent)
        = [(Some ''cms'', Some ''production'', Some ''/cms''), (Some ''atlas'', Some ''production'', Some ''/cms'')]"
  using entity_pairs_by_position [of "Some ''alice''" None True "Some ''cms, atlas''" "Some ''production''" "Some ''/cms''"]
  by (auto simp: csv_fields_def brix_identity_trim_ws_def csv_place_def csv_value_def upt_rec Let_def)


section \<open>What every file gives\<close>

text \<open>
  C33. Whatever the text of the file and whichever allocations fail, tables that come out of the parser
  are well formed: no list holds a name twice, so a lookup cannot pick between records; every record and
  every rule has capabilities; the substitution point of every path lies inside it and splits it at its
  \<open>@=\<close>, so matching never reads outside the string; domain names start with a dot; and no rule, exclusive or inclusive,
  is without a selector, so none applies to everybody.
\<close>

theorem authfile_tables_ok:
  assumes "brix_acc_authfile_parse env f sc ud = Some t"
  shows "(\<forall>h. acc_names_ok (acc_head_get h t)) \<and> acc_caps_ok (z_list t) \<and> acc_caps_ok (x_list t)
    \<and> (\<forall>nc\<in>set (d_list t). fst nc \<noteq> [] \<and> hd (fst nc) = CHR ''.'')
    \<and> (\<forall>r\<in>set (sx_list t) \<union> set (sy_list t). acc_selective r \<and> ir_caps r \<noteq> [] \<and> acc_caps_ok (ir_caps r))"
  using parse_inv [OF assms] by (simp add: acc_tabs_inv_def acc_rules_ok_def)

text \<open>
  What an authorization file has to say to a request that brings no credentials: the tables without the
  user, group, organisation, role and fungible records, and of the rules those that select by host only,
  or by the user name \<open>*\<close> such a request is given.
\<close>

definition anonymous_rule :: "brix_acc_idrule_t \<Rightarrow> bool" where
  "anonymous_rule r \<longleftrightarrow> ir_org r = None \<and> ir_role r = None \<and> ir_grp r = None \<and> ir_user r \<in> {None, Some ''*''}"

definition anonymous_tables :: "brix_acc_tables_t \<Rightarrow> brix_acc_tables_t" where
  "anonymous_tables t = t\<lparr>u_list := [], g_list := [], o_list := [], r_list := [], x_list := [],
     sx_list := filter anonymous_rule (sx_list t), sy_list := filter anonymous_rule (sy_list t)\<rparr>"

lemma anonymous_entity:
  assumes "name \<in> {None, Some []}" "{vorg, role, grp} \<subseteq> {None, Some []}"
  shows "brix_acc_entity_build True name host u vorg role grp =
     Some \<lparr>en_name = Some ''*'', en_host = Some (acc_entity_own_scalar host ''?''), en_isuser = False,
           en_tuples = [\<lparr>at_vorg = None, at_role = None, at_grup = None\<rparr>]\<rparr>"
  using assms by (auto simp: brix_acc_entity_build_def acc_split_csv_def acc_entity_own_scalar_def [of name]
      acc_entity_tuple_count_def acc_entity_fill_tuples_def acc_pick_def)

lemma anonymous_applies:
  "acc_applies r \<lparr>at_vorg = None, at_role = None, at_grup = None\<rparr> (Some ''*'') host \<Longrightarrow> anonymous_rule r"
  by (auto simp: acc_applies_def anonymous_rule_def acc_sel_org_def acc_sel_role_def acc_sel_group_def acc_sel_user_def)

lemma exclusive_filter:
  assumes "\<And>r. \<exists>a \<in> set (en_tuples (ev_ent e)). acc_applies r a (en_name (ev_ent e)) (en_host (ev_ent e)) \<Longrightarrow> Q r"
  shows "acc_exclusive_loop (filter Q rs) e caps = acc_exclusive_loop rs e caps"
  using assms by (induction rs) auto

lemma foldl_filter: "(\<And>r. P r \<Longrightarrow> Q r) \<Longrightarrow>
    foldl (\<lambda>c r. if P r then g r c else c) c (filter Q rs) = foldl (\<lambda>c r. if P r then g r c else c) c rs"
  by (induction rs arbitrary: c) auto

lemma exclusive_tables: "acc_exclusive_loop rs (e\<lparr>ev_tabs := t\<rparr>) caps = acc_exclusive_loop rs e caps"
  by (induction rs) simp_all

lemma anonymous_access:
  assumes "en_name en = Some ''*''" "\<not> en_isuser en" "en_tuples en = [\<lparr>at_vorg = None, at_role = None, at_grup = None\<rparr>]"
  shows "brix_acc_access R (Some (anonymous_tables t)) (Some en) path op = brix_acc_access R (Some t) (Some en) path op"
proof -
  let ?e = "\<lambda>t. \<lparr>ev_tabs = t, ev_ent = en, ev_path = path\<rparr>"
  have applies: "acc_applies r a (en_name en) (en_host en) \<Longrightarrow> anonymous_rule r" if "a \<in> set (en_tuples en)" for r a
    using that anonymous_applies assms(1,3) by simp
  have ex: "acc_match_exclusive (?e (anonymous_tables t)) caps = acc_match_exclusive (?e t) caps" for caps
  proof -
    have "acc_exclusive_loop (filter anonymous_rule (sx_list t)) (?e t) caps = acc_exclusive_loop (sx_list t) (?e t) caps"
      by (rule exclusive_filter) (use applies in auto)
    then show ?thesis
      using exclusive_tables [where t = "anonymous_tables t" and e = "?e t" and rs = "filter anonymous_rule (sx_list t)" and caps = caps]
      by (simp add: acc_match_exclusive_def anonymous_tables_def)
  qed
  have host: "acc_grant_host R (?e (anonymous_tables t)) caps = acc_grant_host R (?e t) caps" for caps
  proof -
    have add: "acc_add_opt cp (?e (anonymous_tables t)) caps = acc_add_opt cp (?e t) caps" for cp caps
      by (simp add: acc_add_opt_def split: option.split)
    have tabs: "z_list (anonymous_tables t) = z_list t" "d_list (anonymous_tables t) = d_list t"
      "h_list (anonymous_tables t) = h_list t" "n_list (anonymous_tables t) = n_list t" by (simp_all add: anonymous_tables_def)
    show ?thesis unfolding acc_grant_host_def Let_def add acc_eval_t.simps tabs by (rule refl)
  qed
  have loop: "acc_grant_tuples (?e s) caps = foldl (\<lambda>c r. if acc_applies r \<lparr>at_vorg = None, at_role = None, at_grup = None\<rparr>
      (en_name en) (en_host en) then snd (brix_acc_cap_privs (ir_caps r) c path None) else c) caps (sy_list s)" for s caps
    using assms by (simp add: acc_grant_tuples_def Let_def cong: if_cong)
  have sy: "sy_list (anonymous_tables t) = filter anonymous_rule (sy_list t)" by (simp add: anonymous_tables_def)
  have tuples: "acc_grant_tuples (?e (anonymous_tables t)) caps = acc_grant_tuples (?e t) caps" for caps
    unfolding loop sy by (rule foldl_filter) (use applies assms(3) in simp)
  show ?thesis using assms(2) by (simp add: brix_acc_access_def ex host tuples acc_grant_user_def Let_def cong: option.case_cong)
qed

text \<open>
  C34. A request without credentials, from any host, is judged by what an authorization file says of its
  host: the decision is that of the tables with every user, group, organisation, role and fungible record
  removed and of the rules only those left that select neither organisation, role nor group, nor a user
  other than the placeholder \<open>*\<close>; and each rule left names a host or that placeholder.  The default,
  host, domain and netgroup records still apply.
\<close>

theorem authfile_anonymous_by_host:
  fixes t :: acc_authdb_t and name host vorg role grp :: "string option" and u :: bool
  assumes p: "brix_acc_authfile_parse env f sc ud = Some t"
    and "name \<in> {None, Some []}" "{vorg, role, grp} \<subseteq> {None, Some []}"
  defines "tabs \<equiv> brix_acc_tables_t.truncate t" and "ent \<equiv> brix_acc_entity_build True name host u vorg role grp"
  shows "brix_acc_access R (Some tabs) ent path op = brix_acc_access R (Some (anonymous_tables tabs)) ent path op
    \<and> (\<forall>r\<in>set (sx_list (anonymous_tables tabs)) \<union> set (sy_list (anonymous_tables tabs)).
         ir_host r \<noteq> None \<or> ir_user r = Some ''*'')"
proof -
  have sel: "\<forall>r\<in>set (sx_list t) \<union> set (sy_list t). acc_selective r"
    using parse_inv [OF p] by (simp add: acc_rules_ok_def)
  have "ir_host r \<noteq> None \<or> ir_user r = Some ''*''" if "acc_selective r" "anonymous_rule r" for r
    using that by (auto simp: acc_selective_def anonymous_rule_def)
  then have "\<forall>r\<in>set (sx_list (anonymous_tables tabs)) \<union> set (sy_list (anonymous_tables tabs)). ir_host r \<noteq> None \<or> ir_user r = Some ''*''"
    using sel by (auto simp: tabs_def anonymous_tables_def brix_acc_tables_t.truncate_def)
  then show ?thesis by (simp add: ent_def anonymous_entity [OF assms(2,3)] anonymous_access)
qed


section \<open>Witnesses\<close>

lemma authdb_example_parses:
  obtains t where "brix_acc_authfile_parse \<lparr>ae_alloc = \<lambda>_. True, ae_hextoi = \<lambda>_. -1\<rparr>
      (acc_regular (authdb_print CHR ''+'' authdb_example) 7) CHR ''+'' False = Some t"
    "authdb_means authdb_example t"
proof -
  have l: "length (authdb_print CHR ''+'' authdb_example) \<le> BRIX_ACC_AUTHDB_MAX"
    by (simp add: authdb_example_def authdb_print_def print_words_def sel_words_def name_word_def acc_spaced_def)
  show thesis using parse_whole [OF authdb_example_ok _ l, of "\<lparr>ae_alloc = \<lambda>_. True, ae_hextoi = \<lambda>_. -1\<rparr>" 7] that by auto
qed

theorem authfile_tables_ok_witness:
  "\<exists>t. brix_acc_authfile_parse \<lparr>ae_alloc = \<lambda>_. True, ae_hextoi = \<lambda>_. -1\<rparr>
      (acc_regular (authdb_print CHR ''+'' authdb_example) 7) CHR ''+'' False = Some t
    \<and> distinct (map fst (acc_head_get T_list t)) \<and> sx_list t \<noteq> [] \<and> (\<forall>r\<in>set (sx_list t). acc_selective r \<and> ir_caps r \<noteq> [])"
proof -
  obtain t where t: "brix_acc_authfile_parse \<lparr>ae_alloc = \<lambda>_. True, ae_hextoi = \<lambda>_. -1\<rparr>
      (acc_regular (authdb_print CHR ''+'' authdb_example) 7) CHR ''+'' False = Some t"
    "authdb_means authdb_example t" by (rule authdb_example_parses)
  have "sx_list t \<noteq> []" using t(2) by (simp add: authdb_means_def acc_rules_def authdb_example_def)
  moreover have "distinct (map fst (acc_head_get T_list t))" using authfile_tables_ok [OF t(1)] unfolding acc_names_ok_def by blast
  ultimately show ?thesis using t(1) authfile_tables_ok [OF t(1)] by (intro exI [of _ t]) simp
qed

theorem authfile_anonymous_by_host_witness:
  "\<exists>t. brix_acc_authfile_parse \<lparr>ae_alloc = \<lambda>_. True, ae_hextoi = \<lambda>_. -1\<rparr>
      (acc_regular (authdb_print CHR ''+'' authdb_example) 7) CHR ''+'' False = Some t
    \<and> sx_list t \<noteq> [] \<and> sx_list (anonymous_tables (brix_acc_tables_t.truncate t)) = []
    \<and> brix_acc_access \<lparr>unixgrp = None, netgrp = None\<rparr> (Some (brix_acc_tables_t.truncate t))
        (brix_acc_entity_build True (Some []) (Some ''n.ch'') False (Some []) (Some []) (Some [])) ''/p/f'' AOP_READ = 0x28"
proof -
  obtain t where t: "brix_acc_authfile_parse \<lparr>ae_alloc = \<lambda>_. True, ae_hextoi = \<lambda>_. -1\<rparr>
      (acc_regular (authdb_print CHR ''+'' authdb_example) 7) CHR ''+'' False = Some t"
    "authdb_means authdb_example t" by (rule authdb_example_parses)
  have h: "\<forall>h. acc_head_get h t = acc_entries h (rev authdb_example)" using t(2) by (simp add: authdb_means_def)
  have hd: "h_list t = []" "d_list t = []" using h [rule_format, of H_list] h [rule_format, of D_list]
    by (simp_all add: authdb_example_def rec_head_def)
  have z: "z_list t = [AccTemplate [AccPath ''/p'' 0 0 \<lparr>pprivs = 0x28, nprivs = 0\<rparr>]]" using t(2)
    by (simp add: authdb_means_def authdb_example_def rec_head_def acc_path_cap_def brix_acc_named_find_def brix_acc_parse_privs_def acc_letter_def)
  have sx: "sx_list t \<noteq> [] \<and> sx_list (anonymous_tables (brix_acc_tables_t.truncate t)) = []
      \<and> sy_list (anonymous_tables (brix_acc_tables_t.truncate t)) = []" using t(2)
    by (simp add: authdb_means_def acc_rules_def authdb_example_def acc_idrule_of_def anonymous_tables_def anonymous_rule_def
        brix_acc_tables_t.truncate_def)
  note ent = anonymous_entity [of "Some []" "Some []" "Some []" "Some []" "Some ''n.ch''" False, simplified]
  have "brix_acc_access \<lparr>unixgrp = None, netgrp = None\<rparr> (Some (brix_acc_tables_t.truncate t))
        (brix_acc_entity_build True (Some []) (Some ''n.ch'') False (Some []) (Some []) (Some [])) ''/p/f'' AOP_READ
      = brix_acc_access \<lparr>unixgrp = None, netgrp = None\<rparr> (Some (anonymous_tables (brix_acc_tables_t.truncate t)))
        (brix_acc_entity_build True (Some []) (Some ''n.ch'') False (Some []) (Some []) (Some [])) ''/p/f'' AOP_READ"
    using authfile_anonymous_by_host [OF t(1)] by simp
  also have "\<dots> = 0x28" unfolding ent brix_acc_access_def using sx hd z
    by (simp add: acc_match_exclusive_def acc_grant_host_def acc_add_opt_def brix_acc_domain_find_def brix_acc_named_find_def
        acc_grant_user_def acc_grant_tuples_def anonymous_tables_def brix_acc_tables_t.truncate_def acc_access2_def brix_acc_test_def
        acc_entity_own_scalar_def Let_def)
  finally show ?thesis using t(1) sx by blast
qed

end
