(* ===== verification/Srv_Select.thy ===== *)
theory Srv_Select
  imports Srv_Registry Http_Range
begin

text \<open>
  Selection of a data server for a path, \<^verbatim>\<open>src/net/manager/registry_select.c\<close> and
  \<^verbatim>\<open>registry_select_sched.c\<close>: covering exports, the score of a server, the ladder of tiers, the affinity
  of paths and the round robin over equally good servers, and the end of a client's retries.  A slot index of
  \<open>-1\<close> is \<open>None\<close>; the cursor of the round robin, a static of the worker, is passed along.
\<close>

unbundle bit_operations_syntax

section \<open>Scores\<close>

definition sched_active :: "brix_srv_state_t \<Rightarrow> bool" where
  "sched_active st \<longleftrightarrow> (sd_cpu (st_sched st) OR sd_io (st_sched st) OR sd_runq (st_sched st)
     OR sd_mem (st_sched st) OR sd_pag (st_sched st) OR sd_space (st_sched st)) \<noteq> 0"

definition sched_machine_num :: "brix_srv_state_t \<Rightarrow> brix_srv_entry_t \<Rightarrow> u64" where
  "sched_machine_num st e = sd_cpu (st_sched st) * ucast (se_load5 e ! 0) + sd_io (st_sched st) * ucast (se_load5 e ! 1)
     + sd_runq (st_sched st) * ucast (se_load5 e ! 2) + sd_mem (st_sched st) * ucast (se_load5 e ! 3)
     + sd_pag (st_sched st) * ucast (se_load5 e ! 4)"

definition sched_machine_den :: "brix_srv_state_t \<Rightarrow> u64" where
  "sched_machine_den st = sd_cpu (st_sched st) + sd_io (st_sched st) + sd_runq (st_sched st) + sd_mem (st_sched st) + sd_pag (st_sched st)"

definition sched_machine_load :: "brix_srv_state_t \<Rightarrow> brix_srv_entry_t \<Rightarrow> u32" where
  "sched_machine_load st e = (if sched_machine_den st = 0 then se_load_pct e
     else ucast (sched_machine_num st e div sched_machine_den st))"

definition srv_sel_over_maxload :: "brix_srv_state_t \<Rightarrow> brix_srv_entry_t \<Rightarrow> bool" where
  "srv_sel_over_maxload st e \<longleftrightarrow> sd_maxload (st_sched st) > 0 \<and> (ucast (sched_machine_load st e) :: u64) > sd_maxload (st_sched st)"

definition srv_sel_metric :: "brix_srv_state_t \<Rightarrow> brix_srv_entry_t \<Rightarrow> bool \<Rightarrow> u32" where
  "srv_sel_metric st e for_write =
     (if \<not> sched_active st
      then let metric = (if for_write then se_free_mb e else se_util_pct e); w = st_load_weight st
           in if w = 0 then metric
              else if for_write then metric - ucast ((ucast metric :: u64) * w * ucast (se_load_pct e) div 10000)
              else ucast (((100 - w) * ucast metric + w * ucast (se_load_pct e)) div 100)
      else if for_write
      then se_free_mb e - ucast ((ucast (se_free_mb e) :: u64) * ucast (sched_machine_load st e) div 200)
      else ucast ((sched_machine_num st e + sd_space (st_sched st) * ucast (se_util_pct e))
                    div (sched_machine_den st + sd_space (st_sched st))))"

section \<open>Exports that cover a path\<close>

text \<open>One token of the export list, and the walk over the list; a token stops at a colon.\<close>

definition srv_token_covers :: "string \<Rightarrow> string \<Rightarrow> bool" where
  "srv_token_covers tok path \<longleftrightarrow> tok \<noteq> [] \<and> (tok = ''/''
     \<or> length path \<ge> length tok \<and> take (length tok) path = tok
       \<and> (last tok = slash \<or> length path = length tok \<or> path ! length tok = slash))"

function srv_path_matches :: "string \<Rightarrow> string \<Rightarrow> bool" where
  "srv_path_matches p path = (if p = [] then False
     else if srv_token_covers (takeWhile (\<lambda>c. c \<noteq> CHR '':'') p) path then True
     else srv_path_matches (drop 1 (dropWhile (\<lambda>c. c \<noteq> CHR '':'') p)) path)"
  by pat_completeness auto
termination
proof (relation "measure (\<lambda>(p, path). length p)")
  fix p path :: string
  assume "p \<noteq> []"
  then have "length p > 0" by simp
  then show "((drop 1 (dropWhile (\<lambda>c. c \<noteq> CHR '':'') p), path), p, path) \<in> measure (\<lambda>(p, path). length p)"
    using length_dropWhile_le [of "\<lambda>c. c \<noteq> CHR '':''" p] unfolding in_measure length_drop split_conv by linarith
qed simp

declare srv_path_matches.simps [simp del]

definition brix_srv_paths_cover :: "string option \<Rightarrow> string option \<Rightarrow> bool" where
  "brix_srv_paths_cover paths path = (case (paths, path) of (Some p, Some q) \<Rightarrow> srv_path_matches p q | _ \<Rightarrow> False)"

section \<open>The ladder\<close>

record srv_sel_tier_t =
  tier_idx :: "nat option"
  tier_val :: u32

abbreviation (input) SRV_SEL_AFFINITY_MAX :: nat where "SRV_SEL_AFFINITY_MAX \<equiv> 64"

record srv_sel_state_t =
  sel_fresh :: srv_sel_tier_t
  sel_any :: srv_sel_tier_t
  sel_over :: srv_sel_tier_t
  sel_peer :: srv_sel_tier_t
  sel_black :: srv_sel_tier_t
  sel_for_write :: bool
  sel_fresh_cands :: "nat list"
  sel_fresh_vals :: "u32 list"

definition srv_sel_tier_init :: "bool \<Rightarrow> srv_sel_tier_t" where
  "srv_sel_tier_init for_write = \<lparr>tier_idx = None, tier_val = (if for_write then 0 else -1)\<rparr>"

definition srv_sel_state_init :: "bool \<Rightarrow> srv_sel_state_t" where
  "srv_sel_state_init for_write = \<lparr>sel_fresh = srv_sel_tier_init for_write, sel_any = srv_sel_tier_init for_write,
     sel_over = srv_sel_tier_init for_write, sel_peer = srv_sel_tier_init for_write, sel_black = srv_sel_tier_init for_write,
     sel_for_write = for_write, sel_fresh_cands = [], sel_fresh_vals = []\<rparr>"

definition srv_sel_metric_better :: "srv_sel_tier_t \<Rightarrow> u32 \<Rightarrow> bool \<Rightarrow> bool" where
  "srv_sel_metric_better tier metric for_write \<longleftrightarrow>
     (if tier_idx tier = None then True else if for_write then metric > tier_val tier else metric < tier_val tier)"

definition srv_sel_tier_offer :: "srv_sel_tier_t \<Rightarrow> nat \<Rightarrow> u32 \<Rightarrow> bool \<Rightarrow> srv_sel_tier_t" where
  "srv_sel_tier_offer tier idx metric for_write =
     (if srv_sel_metric_better tier metric for_write then tier\<lparr>tier_idx := Some idx, tier_val := metric\<rparr> else tier)"

definition srv_is_peer :: "brix_srv_entry_t \<Rightarrow> bool" where
  "srv_is_peer e \<longleftrightarrow> srv_role0 CHR ''P'' e \<and> length (se_role e) = 1"

definition srv_is_stale :: "brix_srv_state_t \<Rightarrow> u64 \<Rightarrow> brix_srv_entry_t \<Rightarrow> bool" where
  "srv_is_stale st now e \<longleftrightarrow> st_stale_after_ms st > 0 \<and> sint (now - se_last_seen e) > sint (st_stale_after_ms st)"

definition srv_sel_state_consider ::
    "brix_srv_state_t \<Rightarrow> u64 \<Rightarrow> srv_sel_state_t \<Rightarrow> nat \<Rightarrow> brix_srv_entry_t \<Rightarrow> bool \<Rightarrow> srv_sel_state_t" where
  "srv_sel_state_consider st now ss idx e is_black =
     (let fw = sel_for_write ss; metric = srv_sel_metric st e fw
      in if is_black then ss\<lparr>sel_black := srv_sel_tier_offer (sel_black ss) idx metric fw\<rparr>
         else if srv_is_peer e then ss\<lparr>sel_peer := srv_sel_tier_offer (sel_peer ss) idx metric fw\<rparr>
         else if fw \<and> sp_enforce (st_space st) \<and> se_space_blocked e
         then ss\<lparr>sel_over := srv_sel_tier_offer (sel_over ss) idx metric fw\<rparr>
         else if srv_sel_over_maxload st e
         then ss\<lparr>sel_over := srv_sel_tier_offer (sel_over ss) idx metric fw\<rparr>
         else let ss = ss\<lparr>sel_any := srv_sel_tier_offer (sel_any ss) idx metric fw\<rparr>
              in if \<not> srv_is_stale st now e
                 then let ss = ss\<lparr>sel_fresh := srv_sel_tier_offer (sel_fresh ss) idx metric fw\<rparr>
                      in if length (sel_fresh_cands ss) < SRV_SEL_AFFINITY_MAX
                         then ss\<lparr>sel_fresh_vals := sel_fresh_vals ss @ [metric], sel_fresh_cands := sel_fresh_cands ss @ [idx]\<rparr>
                         else ss
                 else ss)"

definition srv_sel_path_hash :: "string \<Rightarrow> u32" where
  "srv_sel_path_hash path = foldl (\<lambda>h c. (h XOR of_char c) * 0x01000193) 0x811c9dc5 path"

definition srv_sel_state_winner :: "srv_sel_state_t \<Rightarrow> nat option" where
  "srv_sel_state_winner ss =
     (if tier_idx (sel_fresh ss) \<noteq> None then tier_idx (sel_fresh ss)
      else if tier_idx (sel_any ss) \<noteq> None then tier_idx (sel_any ss)
      else if tier_idx (sel_over ss) \<noteq> None then tier_idx (sel_over ss)
      else if tier_idx (sel_peer ss) \<noteq> None then tier_idx (sel_peer ss)
      else tier_idx (sel_black ss))"

fun srv_band_loop :: "nat list \<Rightarrow> u32 list \<Rightarrow> bool \<Rightarrow> u64 \<Rightarrow> nat list" where
  "srv_band_loop (c # cs) (v # vs) for_write bound =
     (if (if for_write then ucast v \<ge> bound else ucast v \<le> bound) then c # srv_band_loop cs vs for_write bound
      else srv_band_loop cs vs for_write bound)"
| "srv_band_loop _ _ for_write bound = []"

definition srv_fuzz_bound :: "brix_srv_state_t \<Rightarrow> srv_sel_state_t \<Rightarrow> u64" where
  "srv_fuzz_bound st ss = (if sel_for_write ss
     then ucast (tier_val (sel_fresh ss)) * (100 - sd_fuzz (st_sched st)) div 100
     else ucast (tier_val (sel_fresh ss)) * (100 + sd_fuzz (st_sched st)) div 100)"

definition srv_sel_fuzz_pick :: "brix_srv_state_t \<Rightarrow> srv_sel_state_t \<Rightarrow> nat option \<Rightarrow> u64 \<Rightarrow> nat option \<times> u64" where
  "srv_sel_fuzz_pick st ss best cursor =
     (if sd_fuzz (st_sched st) = 0 \<or> length (sel_fresh_cands ss) < 2 \<or> best \<noteq> tier_idx (sel_fresh ss) then (best, cursor)
      else let band = srv_band_loop (sel_fresh_cands ss) (sel_fresh_vals ss) (sel_for_write ss) (srv_fuzz_bound st ss)
           in if length band < 2 then (best, cursor)
              else (Some (band ! (unat cursor mod length band)), cursor + 1))"

fun srv_select_loop ::
    "brix_srv_state_t \<Rightarrow> u64 \<Rightarrow> string \<Rightarrow> bool \<Rightarrow> brix_srv_table_t \<Rightarrow> nat \<Rightarrow> srv_sel_state_t \<Rightarrow> srv_sel_state_t" where
  "srv_select_loop st now path allow [] i ss = ss"
| "srv_select_loop st now path allow (e # es) i ss =
     (if \<not> se_in_use e then srv_select_loop st now path allow es (Suc i) ss
      else if \<not> srv_path_matches (se_paths e) path then srv_select_loop st now path allow es (Suc i) ss
      else if srv_blacked now e \<and> \<not> allow then srv_select_loop st now path allow es (Suc i) ss
      else srv_select_loop st now path allow es (Suc i) (srv_sel_state_consider st now ss i e (srv_blacked now e)))"

definition srv_select_slot :: "brix_srv_state_t \<Rightarrow> u64 \<Rightarrow> string \<Rightarrow> bool \<Rightarrow> bool \<Rightarrow> brix_srv_table_t \<Rightarrow> u64 \<Rightarrow> nat option \<times> u64" where
  "srv_select_slot st now path for_write allow t cursor =
     (let ss = srv_select_loop st now path allow t 0 (srv_sel_state_init for_write);
          best = srv_sel_state_winner ss; n = length (sel_fresh_cands ss)
      in if st_affinity st \<and> n > 1
         then (Some (sel_fresh_cands ss ! (unat (srv_sel_path_hash path) mod n)), cursor)
         else srv_sel_fuzz_pick st ss best cursor)"

definition srv_select_core ::
    "brix_srv_state_t \<Rightarrow> u64 \<Rightarrow> string \<Rightarrow> bool \<Rightarrow> bool \<Rightarrow> nat \<Rightarrow> brix_srv_table_t option \<Rightarrow> u64 \<Rightarrow> (string \<times> u16) option \<times> u64" where
  "srv_select_core st now path for_write allow host_size tbl cursor = (case tbl of
       None \<Rightarrow> (None, cursor)
     | Some t \<Rightarrow> (case srv_select_slot st now path for_write allow t cursor of (best, cursor) \<Rightarrow>
         (map_option (\<lambda>i. (cpystrn host_size (se_host (t ! i)), se_port (t ! i))) best, cursor)))"

definition brix_srv_select where
  "brix_srv_select st now path for_write host_size tbl cursor = srv_select_core st now path for_write False host_size tbl cursor"

definition brix_srv_select_or_blacklisted where
  "brix_srv_select_or_blacklisted st now path for_write host_size tbl cursor = srv_select_core st now path for_write True host_size tbl cursor"

definition brix_srv_count_matching :: "string \<Rightarrow> brix_srv_table_t option \<Rightarrow> nat" where
  "brix_srv_count_matching path tbl = (case tbl of None \<Rightarrow> 0
     | Some t \<Rightarrow> foldl (\<lambda>n e. if \<not> se_in_use e then n else if \<not> srv_path_matches (se_paths e) path then n else n + 1) 0 t)"

fun srv_stage_loop :: "u64 \<Rightarrow> string \<Rightarrow> brix_srv_table_t \<Rightarrow> nat \<Rightarrow> nat option \<Rightarrow> u32 \<Rightarrow> nat option" where
  "srv_stage_loop now path [] i best best_free = best"
| "srv_stage_loop now path (e # es) i best best_free =
     (if \<not> se_in_use e \<or> \<not> se_stage e \<or> srv_role0 CHR ''M'' e \<or> srv_role0 CHR ''R'' e \<or> srv_is_peer e
      then srv_stage_loop now path es (Suc i) best best_free
      else if srv_blacked now e then srv_stage_loop now path es (Suc i) best best_free
      else if \<not> srv_path_matches (se_paths e) path then srv_stage_loop now path es (Suc i) best best_free
      else if best = None \<or> se_free_mb e > best_free then srv_stage_loop now path es (Suc i) (Some i) (se_free_mb e)
      else srv_stage_loop now path es (Suc i) best best_free)"

definition brix_srv_select_stage :: "u64 \<Rightarrow> string \<Rightarrow> nat \<Rightarrow> brix_srv_table_t option \<Rightarrow> (string \<times> u16) option" where
  "brix_srv_select_stage now path host_size tbl = (case tbl of None \<Rightarrow> None
     | Some t \<Rightarrow> map_option (\<lambda>i. (cpystrn host_size (se_host (t ! i)), se_port (t ! i))) (srv_stage_loop now path t 0 None 0))"

section \<open>The end of the retries\<close>

text \<open>The payload up to its length; the opaque string is a C string, so it ends at its first NUL.\<close>

fun str_find :: "string \<Rightarrow> string \<Rightarrow> string option" where
  "str_find pat [] = (if pat = [] then Some [] else None)"
| "str_find pat (c # cs) = (if take (length pat) (c # cs) = pat then Some (c # cs) else str_find pat cs)"

definition srv_opaque :: "string \<Rightarrow> string option" where
  "srv_opaque payload = (case dropWhile (\<lambda>c. c \<noteq> CHR ''?'') payload of
       [] \<Rightarrow> None
     | _ # q \<Rightarrow> let q = (if q \<noteq> [] \<and> last q = CHR 0x00 then butlast q else q)
                in if q = [] \<or> length q \<ge> 1024 then None else Some (takeWhile (\<lambda>c. c \<noteq> CHR 0x00) q))"

definition srv_n_tried :: "string \<Rightarrow> nat option" where
  "srv_n_tried opaque = (case str_find ''tried='' opaque of
       None \<Rightarrow> None
     | Some s \<Rightarrow> let t = drop 6 s
                 in if t = [] \<or> hd t = CHR ''&'' then None
                    else Some (foldl (\<lambda>n c. if c = CHR '','' then n + 1 else n) 1 (takeWhile (\<lambda>c. c \<noteq> CHR ''&'') t)))"

definition brix_manager_tried_exhausted :: "string option \<Rightarrow> string \<Rightarrow> brix_srv_table_t option \<Rightarrow> bool" where
  "brix_manager_tried_exhausted payload clean_path tbl = (case payload of
       None \<Rightarrow> False
     | Some p \<Rightarrow> (case srv_opaque p of
           None \<Rightarrow> False
         | Some q \<Rightarrow> (case srv_n_tried q of
               None \<Rightarrow> False
             | Some n_tried \<Rightarrow> let n_match = brix_srv_count_matching clean_path tbl in n_match > 0 \<and> n_tried \<ge> n_match)))"

text \<open>
  The registry's part of the answer to a stat at a redirector, in \<^verbatim>\<open>protocols/root/read/stat_manager.c\<close>;
  \<open>StatElsewhere\<close> asks the parent or the local storage.
\<close>

datatype stat_answer = StatNotFound | StatRedirect string u16 | StatElsewhere

definition stat_registry_answer ::
    "brix_srv_state_t \<Rightarrow> u64 \<Rightarrow> string option \<Rightarrow> string \<Rightarrow> brix_srv_table_t option \<Rightarrow> u64 \<Rightarrow> stat_answer \<times> u64" where
  "stat_registry_answer st now payload reqpath tbl cursor =
     (if brix_manager_tried_exhausted payload reqpath tbl then (StatNotFound, cursor)
      else case brix_srv_select_or_blacklisted st now reqpath False 256 tbl cursor of
             (Some (h, p), cursor) \<Rightarrow> (StatRedirect h p, cursor)
           | (None, cursor) \<Rightarrow> (StatElsewhere, cursor))"

section \<open>The list of locations\<close>

text \<open>
  \<^verbatim>\<open>registry_health.c\<close> lists the live servers of a path, with \<^verbatim>\<open>core/compat/host_format.c\<close> for the host;
  a text that does not fit \<open>sz\<close> becomes the empty one.
\<close>

definition brix_host_is_ipv6_literal :: "string option \<Rightarrow> bool" where
  "brix_host_is_ipv6_literal host = (case host of None \<Rightarrow> False | Some h \<Rightarrow> h \<noteq> [] \<and> hd h \<noteq> CHR ''['' \<and> CHR '':'' \<in> set h)"

definition brix_format_host_port :: "string option \<Rightarrow> u16 \<Rightarrow> nat \<Rightarrow> string" where
  "brix_format_host_port host port sz = (if sz = 0 then [] else case host of
       None \<Rightarrow> []
     | Some h \<Rightarrow> let out = (if brix_host_is_ipv6_literal host then ''['' @ h @ '']:'' @ dec_print (unat port) else h @ '':'' @ dec_print (unat port))
                 in if length out \<ge> sz then [] else out)"

definition srv_locate_type_char :: "brix_srv_state_t \<Rightarrow> u64 \<Rightarrow> brix_srv_entry_t \<Rightarrow> char" where
  "srv_locate_type_char st now e = (if srv_role0 CHR ''M'' e \<or> srv_role0 CHR ''R'' e
     then if srv_is_stale st now e then CHR ''m'' else CHR ''M''
     else if srv_is_stale st now e then CHR ''s'' else CHR ''S'')"

definition srv_locate_entry :: "brix_srv_state_t \<Rightarrow> u64 \<Rightarrow> bool \<Rightarrow> bool \<Rightarrow> brix_srv_entry_t \<Rightarrow> string" where
  "srv_locate_entry st now for_write first e = (if first then [] else '' '')
     @ [srv_locate_type_char st now e, if for_write then CHR ''w'' else CHR ''r''] @ brix_format_host_port (Some (se_host e)) (se_port e) 288"

fun srv_locate_loop :: "brix_srv_state_t \<Rightarrow> u64 \<Rightarrow> string \<Rightarrow> bool \<Rightarrow> nat \<Rightarrow> brix_srv_table_t \<Rightarrow> string \<Rightarrow> bool \<Rightarrow> string" where
  "srv_locate_loop st now path for_write bufsz [] buf first = buf"
| "srv_locate_loop st now path for_write bufsz (e # es) buf first =
     (if \<not> se_in_use e then srv_locate_loop st now path for_write bufsz es buf first
      else if srv_blacked now e then srv_locate_loop st now path for_write bufsz es buf first
      else if \<not> srv_path_matches (se_paths e) path then srv_locate_loop st now path for_write bufsz es buf first
      else let entry = srv_locate_entry st now for_write first e
           in if length buf + length entry + 1 \<ge> bufsz then buf
              else srv_locate_loop st now path for_write bufsz es (buf @ entry) False)"

definition brix_srv_locate_all :: "brix_srv_state_t \<Rightarrow> u64 \<Rightarrow> string \<Rightarrow> bool \<Rightarrow> nat \<Rightarrow> brix_srv_table_t option \<Rightarrow> string" where
  "brix_srv_locate_all st now path for_write bufsz tbl = (case tbl of None \<Rightarrow> []
     | Some t \<Rightarrow> if bufsz < 2 then [] else srv_locate_loop st now path for_write bufsz t [] True)"

section \<open>What the scan computes\<close>

text \<open>The servers that may be picked, and the tier of each: fresh, stale, over its limits, peer, blacklisted.\<close>

definition srv_candidate :: "u64 \<Rightarrow> string \<Rightarrow> bool \<Rightarrow> brix_srv_entry_t \<Rightarrow> bool" where
  "srv_candidate now path allow e \<longleftrightarrow> se_in_use e \<and> srv_path_matches (se_paths e) path \<and> (srv_blacked now e \<longrightarrow> allow)"

definition srv_tier :: "brix_srv_state_t \<Rightarrow> u64 \<Rightarrow> bool \<Rightarrow> brix_srv_entry_t \<Rightarrow> nat" where
  "srv_tier st now for_write e =
     (if srv_blacked now e then 4 else if srv_is_peer e then 3
      else if (for_write \<and> sp_enforce (st_space st) \<and> se_space_blocked e) \<or> srv_sel_over_maxload st e then 2
      else if srv_is_stale st now e then 1 else 0)"

definition srv_offers :: "brix_srv_state_t \<Rightarrow> bool \<Rightarrow> (brix_srv_entry_t \<Rightarrow> bool) \<Rightarrow> brix_srv_table_t \<Rightarrow> nat \<Rightarrow> (nat \<times> u32) list" where
  "srv_offers st for_write Q t k = map (\<lambda>(i, e). (i, srv_sel_metric st e for_write)) (filter (\<lambda>(i, e). Q e) (enumerate k t))"

definition tier_of_offers :: "bool \<Rightarrow> srv_sel_tier_t \<Rightarrow> (nat \<times> u32) list \<Rightarrow> srv_sel_tier_t" where
  "tier_of_offers for_write tr xs = foldl (\<lambda>tr (i, v). srv_sel_tier_offer tr i v for_write) tr xs"

lemma offers_simps [simp]:
  "srv_offers st fw Q [] k = []"
  "srv_offers st fw Q (e # t) k = (if Q e then (k, srv_sel_metric st e fw) # srv_offers st fw Q t (Suc k) else srv_offers st fw Q t (Suc k))"
  by (simp_all add: srv_offers_def)

lemma tier_of_simps [simp]:
  "tier_of_offers fw tr [] = tr"
  "tier_of_offers fw tr ((i, v) # xs) = tier_of_offers fw (srv_sel_tier_offer tr i v fw) xs"
  "tier_of_offers fw tr (xs @ [(i, v)]) = srv_sel_tier_offer (tier_of_offers fw tr xs) i v fw"
  by (simp_all add: tier_of_offers_def)

lemma in_offers: "(i, v) \<in> set (srv_offers st fw Q t 0) \<longleftrightarrow> i < length t \<and> Q (t ! i) \<and> v = srv_sel_metric st (t ! i) fw"
  by (auto simp: srv_offers_def in_set_enumerate_eq image_iff)

lemma offers_fst: "(i, v) \<in> set (srv_offers st fw Q t k) \<Longrightarrow> k \<le> i"
  by (auto simp: srv_offers_def in_set_enumerate_eq)

lemma offers_sorted: "sorted_wrt (<) (map fst (srv_offers st fw Q t k))"
proof (induction t arbitrary: k)
  case (Cons e t)
  have "k < i" if "i \<in> fst ` set (srv_offers st fw Q t (Suc k))" for i using that offers_fst by fastforce
  then show ?case using Cons [of "Suc k"] by auto
qed simp

text \<open>A tier holds the first of its best offers.\<close>

definition score_le :: "bool \<Rightarrow> u32 \<Rightarrow> u32 \<Rightarrow> bool" where
  "score_le for_write v w \<longleftrightarrow> (if for_write then w \<le> v else v \<le> w)"

definition first_best :: "bool \<Rightarrow> (nat \<times> u32) list \<Rightarrow> nat \<Rightarrow> u32 \<Rightarrow> bool" where
  "first_best for_write xs i v \<longleftrightarrow> (i, v) \<in> set xs \<and> (\<forall>(j, w)\<in>set xs. score_le for_write v w \<and> (w = v \<longrightarrow> i \<le> j))"

lemma tier_of_first_best:
  assumes "sorted_wrt (<) (map fst xs)"
  shows "case tier_idx (tier_of_offers fw (srv_sel_tier_init fw) xs) of None \<Rightarrow> xs = []
     | Some i \<Rightarrow> first_best fw xs i (tier_val (tier_of_offers fw (srv_sel_tier_init fw) xs))"
  using assms
proof (induction xs rule: rev_induct)
  case Nil
  then show ?case by (simp add: srv_sel_tier_init_def)
next
  case (snoc x xs)
  obtain j w where x: "x = (j, w)" by force
  let ?tr = "tier_of_offers fw (srv_sel_tier_init fw) xs"
  have lt: "k < j" if "(k, u) \<in> set xs" for k u
    using snoc.prems that by (fastforce simp: x sorted_wrt_append)
  have IH: "case tier_idx ?tr of None \<Rightarrow> xs = [] | Some i \<Rightarrow> first_best fw xs i (tier_val ?tr)"
    using snoc by (simp add: sorted_wrt_append)
  show ?case
  proof (cases "tier_idx ?tr")
    case None
    then show ?thesis using IH by (simp add: x srv_sel_tier_offer_def srv_sel_metric_better_def first_best_def score_le_def)
  next
    case (Some i)
    then have f: "first_best fw xs i (tier_val ?tr)" using IH by simp
    show ?thesis
    proof (cases "srv_sel_metric_better ?tr w fw")
      case True
      then have "score_le fw w u \<and> u \<noteq> w" if "(k, u) \<in> set xs" for k u
        using f that Some by (fastforce simp: first_best_def srv_sel_metric_better_def score_le_def split: if_splits)
      then have "first_best fw (xs @ [x]) j w" by (auto simp: first_best_def x score_le_def)
      then show ?thesis using True by (simp add: x srv_sel_tier_offer_def)
    next
      case False
      then have "score_le fw (tier_val ?tr) w" using Some by (auto simp: srv_sel_metric_better_def score_le_def split: if_splits)
      moreover have "i \<le> j" using f lt by (fastforce simp: first_best_def)
      ultimately have "first_best fw (xs @ [x]) i (tier_val ?tr)" using f by (auto simp: first_best_def x)
      then show ?thesis using False Some by (simp add: x srv_sel_tier_offer_def)
    qed
  qed
qed

lemma consider_form:
  "srv_sel_state_consider st now ss i e (srv_blacked now e) =
     (let fw = sel_for_write ss; m = srv_sel_metric st e fw; k = srv_tier st now fw e
      in if k = 4 then ss\<lparr>sel_black := srv_sel_tier_offer (sel_black ss) i m fw\<rparr>
         else if k = 3 then ss\<lparr>sel_peer := srv_sel_tier_offer (sel_peer ss) i m fw\<rparr>
         else if k = 2 then ss\<lparr>sel_over := srv_sel_tier_offer (sel_over ss) i m fw\<rparr>
         else if k = 1 then ss\<lparr>sel_any := srv_sel_tier_offer (sel_any ss) i m fw\<rparr>
         else ss\<lparr>sel_any := srv_sel_tier_offer (sel_any ss) i m fw, sel_fresh := srv_sel_tier_offer (sel_fresh ss) i m fw,
             sel_fresh_cands := (if length (sel_fresh_cands ss) < 64 then sel_fresh_cands ss @ [i] else sel_fresh_cands ss),
             sel_fresh_vals := (if length (sel_fresh_cands ss) < 64 then sel_fresh_vals ss @ [m] else sel_fresh_vals ss)\<rparr>)"
  by (simp add: srv_sel_state_consider_def srv_tier_def Let_def)

definition tier_offers :: "brix_srv_state_t \<Rightarrow> u64 \<Rightarrow> string \<Rightarrow> bool \<Rightarrow> bool \<Rightarrow> (nat \<Rightarrow> bool) \<Rightarrow> brix_srv_table_t \<Rightarrow> nat \<Rightarrow> (nat \<times> u32) list" where
  "tier_offers st now path fw allow K t k = srv_offers st fw (\<lambda>e. srv_candidate now path allow e \<and> K (srv_tier st now fw e)) t k"

lemma tier_offers_simps [simp]:
  "tier_offers st now path fw allow K [] k = []"
  "tier_offers st now path fw allow K (e # t) k = (if srv_candidate now path allow e \<and> K (srv_tier st now fw e)
     then (k, srv_sel_metric st e fw) # tier_offers st now path fw allow K t (Suc k) else tier_offers st now path fw allow K t (Suc k))"
  by (simp_all add: tier_offers_def)

lemma take_room: "m < 64 \<Longrightarrow> take (64 - m) (x # xs) = x # take (63 - m) xs"
  by (simp add: take_Cons')

lemma select_loop_form:
  assumes "length (sel_fresh_vals ss) = length (sel_fresh_cands ss)" "length (sel_fresh_cands ss) \<le> 64" "sel_for_write ss = fw"
  shows "srv_select_loop st now path allow t k ss =
    \<lparr>sel_fresh = tier_of_offers fw (sel_fresh ss) (tier_offers st now path fw allow (\<lambda>n. n = 0) t k),
     sel_any = tier_of_offers fw (sel_any ss) (tier_offers st now path fw allow (\<lambda>n. n \<le> 1) t k),
     sel_over = tier_of_offers fw (sel_over ss) (tier_offers st now path fw allow (\<lambda>n. n = 2) t k),
     sel_peer = tier_of_offers fw (sel_peer ss) (tier_offers st now path fw allow (\<lambda>n. n = 3) t k),
     sel_black = tier_of_offers fw (sel_black ss) (tier_offers st now path fw allow (\<lambda>n. n = 4) t k),
     sel_for_write = fw,
     sel_fresh_cands = take 64 (sel_fresh_cands ss @ map fst (tier_offers st now path fw allow (\<lambda>n. n = 0) t k)),
     sel_fresh_vals = take 64 (sel_fresh_vals ss @ map snd (tier_offers st now path fw allow (\<lambda>n. n = 0) t k))\<rparr>"
  using assms
proof (induction t arbitrary: k ss)
  case Nil
  then show ?case by (cases ss) simp
next
  case (Cons e t)
  show ?case
  proof (cases "srv_candidate now path allow e")
    case False
    then have "srv_select_loop st now path allow (e # t) k ss = srv_select_loop st now path allow t (Suc k) ss"
      by (auto simp: srv_candidate_def)
    then show ?thesis using Cons.IH [OF Cons.prems, of "Suc k"] False by simp
  next
    case True
    let ?ss = "srv_sel_state_consider st now ss k e (srv_blacked now e)"
    have s: "srv_select_loop st now path allow (e # t) k ss = srv_select_loop st now path allow t (Suc k) ?ss"
      using True by (auto simp: srv_candidate_def)
    have i: "length (sel_fresh_vals ?ss) = length (sel_fresh_cands ?ss)" "length (sel_fresh_cands ?ss) \<le> 64" "sel_for_write ?ss = fw"
      using Cons.prems by (simp_all add: consider_form Let_def)
    have f: "length (sel_fresh_cands ss) \<noteq> 64 \<Longrightarrow> length (sel_fresh_cands ss) < 64" using Cons.prems(2) by simp
    consider "srv_tier st now fw e = 4" | "srv_tier st now fw e = 3" | "srv_tier st now fw e = 2" | "srv_tier st now fw e = 1"
      | "srv_tier st now fw e = 0" unfolding srv_tier_def by presburger
    then show ?thesis
      unfolding s Cons.IH [OF i] by cases (use Cons.prems True f in \<open>simp_all add: consider_form Let_def not_less take_room\<close>)
  qed
qed

lemma scan_form:
  "srv_select_loop st now path allow t 0 (srv_sel_state_init fw) =
    \<lparr>sel_fresh = tier_of_offers fw (srv_sel_tier_init fw) (tier_offers st now path fw allow (\<lambda>n. n = 0) t 0),
     sel_any = tier_of_offers fw (srv_sel_tier_init fw) (tier_offers st now path fw allow (\<lambda>n. n \<le> 1) t 0),
     sel_over = tier_of_offers fw (srv_sel_tier_init fw) (tier_offers st now path fw allow (\<lambda>n. n = 2) t 0),
     sel_peer = tier_of_offers fw (srv_sel_tier_init fw) (tier_offers st now path fw allow (\<lambda>n. n = 3) t 0),
     sel_black = tier_of_offers fw (srv_sel_tier_init fw) (tier_offers st now path fw allow (\<lambda>n. n = 4) t 0),
     sel_for_write = fw,
     sel_fresh_cands = take 64 (map fst (tier_offers st now path fw allow (\<lambda>n. n = 0) t 0)),
     sel_fresh_vals = take 64 (map snd (tier_offers st now path fw allow (\<lambda>n. n = 0) t 0))\<rparr>"
  by (subst select_loop_form [where fw = fw]) (simp_all add: srv_sel_state_init_def)

section \<open>The winner\<close>

text \<open>The slot at \<open>i\<close> is the first of the best among the candidates whose tier satisfies \<open>K\<close>.\<close>

definition srv_top :: "brix_srv_state_t \<Rightarrow> u64 \<Rightarrow> string \<Rightarrow> bool \<Rightarrow> bool \<Rightarrow> (nat \<Rightarrow> bool) \<Rightarrow> brix_srv_table_t \<Rightarrow> nat \<Rightarrow> bool" where
  "srv_top st now path fw allow K t i \<longleftrightarrow> i < length t \<and> srv_candidate now path allow (t ! i) \<and> K (srv_tier st now fw (t ! i)) \<and>
     (\<forall>j<length t. srv_candidate now path allow (t ! j) \<and> K (srv_tier st now fw (t ! j)) \<longrightarrow>
        score_le fw (srv_sel_metric st (t ! i) fw) (srv_sel_metric st (t ! j) fw)
        \<and> (srv_sel_metric st (t ! j) fw = srv_sel_metric st (t ! i) fw \<longrightarrow> i \<le> j))"

lemma in_tier_offers: "(i, v) \<in> set (tier_offers st now path fw allow K t 0)
    \<longleftrightarrow> i < length t \<and> srv_candidate now path allow (t ! i) \<and> K (srv_tier st now fw (t ! i)) \<and> v = srv_sel_metric st (t ! i) fw"
  unfolding tier_offers_def in_offers by simp

lemma tier_top:
  fixes st now path fw allow K t
  defines "tr \<equiv> tier_of_offers fw (srv_sel_tier_init fw) (tier_offers st now path fw allow K t 0)"
  shows "case tier_idx tr of None \<Rightarrow> \<forall>j<length t. srv_candidate now path allow (t ! j) \<longrightarrow> \<not> K (srv_tier st now fw (t ! j))
     | Some i \<Rightarrow> srv_top st now path fw allow K t i \<and> tier_val tr = srv_sel_metric st (t ! i) fw"
proof -
  let ?xs = "tier_offers st now path fw allow K t 0"
  have b: "case tier_idx tr of None \<Rightarrow> ?xs = [] | Some i \<Rightarrow> first_best fw ?xs i (tier_val tr)"
    unfolding tr_def by (rule tier_of_first_best) (simp add: tier_offers_def offers_sorted)
  show ?thesis
  proof (cases "tier_idx tr")
    case None
    then have x: "?xs = []" using b by simp
    have "\<not> (srv_candidate now path allow (t ! j) \<and> K (srv_tier st now fw (t ! j)))" if "j < length t" for j
      using in_tier_offers [of j "srv_sel_metric st (t ! j) fw" st now path fw allow K t] that unfolding x by simp
    then show ?thesis using None by simp
  next
    case (Some i)
    then have f: "first_best fw ?xs i (tier_val tr)" using b by simp
    then have "(i, tier_val tr) \<in> set ?xs" unfolding first_best_def by blast
    then have i: "i < length t" "srv_candidate now path allow (t ! i)" "K (srv_tier st now fw (t ! i))"
      "tier_val tr = srv_sel_metric st (t ! i) fw" unfolding in_tier_offers by simp_all
    have "score_le fw (tier_val tr) w \<and> (w = tier_val tr \<longrightarrow> i \<le> j)" if "(j, w) \<in> set ?xs" for j w
      using f that unfolding first_best_def by blast
    then have "srv_top st now path fw allow K t i" using i unfolding srv_top_def in_tier_offers by simp
    then show ?thesis using Some i(4) by simp
  qed
qed

lemma srv_tier_le: "srv_tier st now fw e \<le> 4"
  by (simp add: srv_tier_def)

lemma top_tier:
  assumes "srv_top st now path fw allow K t i" "\<And>j. \<lbrakk>j < length t; srv_candidate now path allow (t ! j); K (srv_tier st now fw (t ! j))\<rbrakk> \<Longrightarrow> srv_tier st now fw (t ! j) = n"
  shows "srv_top st now path fw allow (\<lambda>m. m = n) t i"
  using assms unfolding srv_top_def by metis

definition srv_ranked :: "brix_srv_state_t \<Rightarrow> u64 \<Rightarrow> string \<Rightarrow> bool \<Rightarrow> bool \<Rightarrow> brix_srv_table_t \<Rightarrow> nat \<Rightarrow> bool" where
  "srv_ranked st now path fw allow t i \<longleftrightarrow> i < length t \<and> srv_candidate now path allow (t ! i)
     \<and> (\<forall>j<length t. srv_candidate now path allow (t ! j) \<longrightarrow> srv_tier st now fw (t ! i) \<le> srv_tier st now fw (t ! j))"

abbreviation (input) tier_pick where
  "tier_pick st now path fw allow t K \<equiv> tier_idx (tier_of_offers fw (srv_sel_tier_init fw) (tier_offers st now path fw allow K t 0))"

lemma pick_None: "\<lbrakk>tier_pick st now path fw allow t K = None; j < length t; srv_candidate now path allow (t ! j)\<rbrakk>
    \<Longrightarrow> \<not> K (srv_tier st now fw (t ! j))"
  using tier_top [where fw = fw and st = st and now = now and path = path and allow = allow and K = K and t = t] by simp

lemma pick_Some: "tier_pick st now path fw allow t K = Some i \<Longrightarrow> srv_top st now path fw allow K t i"
  using tier_top [where fw = fw and st = st and now = now and path = path and allow = allow and K = K and t = t] by simp

lemma pick_ranked:
  assumes "tier_pick st now path fw allow t K = Some i"
    and "\<And>j. \<lbrakk>j < length t; srv_candidate now path allow (t ! j)\<rbrakk> \<Longrightarrow> n \<le> srv_tier st now fw (t ! j)"
    and "\<And>j. \<lbrakk>j < length t; srv_candidate now path allow (t ! j)\<rbrakk> \<Longrightarrow> K (srv_tier st now fw (t ! j)) \<longleftrightarrow> srv_tier st now fw (t ! j) = n"
  shows "srv_ranked st now path fw allow t i \<and> srv_top st now path fw allow (\<lambda>m. m = srv_tier st now fw (t ! i)) t i"
  using pick_Some [OF assms(1)] assms(2,3) unfolding srv_ranked_def srv_top_def by metis

lemma option_ladder:
  assumes "\<And>i. a = Some i \<Longrightarrow> P" "\<And>i. \<lbrakk>a = None; b = Some i\<rbrakk> \<Longrightarrow> P" "\<And>i. \<lbrakk>a = None; b = None; c = Some i\<rbrakk> \<Longrightarrow> P"
    "\<And>i. \<lbrakk>a = None; b = None; c = None; d = Some i\<rbrakk> \<Longrightarrow> P" "\<lbrakk>a = None; b = None; c = None; d = None\<rbrakk> \<Longrightarrow> P"
  shows P
  using assms by (cases a; cases b; cases c; cases d) blast+

lemma winner_top:
  "case srv_sel_state_winner (srv_select_loop st now path allow t 0 (srv_sel_state_init fw)) of
     None \<Rightarrow> \<forall>j<length t. \<not> srv_candidate now path allow (t ! j)
   | Some i \<Rightarrow> srv_ranked st now path fw allow t i \<and> srv_top st now path fw allow (\<lambda>m. m = srv_tier st now fw (t ! i)) t i"
proof -
  let ?tr = "tier_pick st now path fw allow t"
  have w: "srv_sel_state_winner (srv_select_loop st now path allow t 0 (srv_sel_state_init fw)) =
      (if ?tr (\<lambda>n. n = 0) \<noteq> None then ?tr (\<lambda>n. n = 0) else if ?tr (\<lambda>n. n \<le> 1) \<noteq> None then ?tr (\<lambda>n. n \<le> 1)
       else if ?tr (\<lambda>n. n = 2) \<noteq> None then ?tr (\<lambda>n. n = 2) else if ?tr (\<lambda>n. n = 3) \<noteq> None then ?tr (\<lambda>n. n = 3)
       else ?tr (\<lambda>n. n = 4))"
    unfolding scan_form srv_sel_state_winner_def by simp
  let ?c = "\<lambda>j. j < length t \<and> srv_candidate now path allow (t ! j)"
  let ?k = "\<lambda>j. srv_tier st now fw (t ! j)"
  have z1: "1 \<le> ?k j" if "?tr (\<lambda>n. n = 0) = None" "?c j" for j using pick_None [OF that(1), of j] that(2) by simp
  have z2: "2 \<le> ?k j" if "?tr (\<lambda>n. n \<le> 1) = None" "?c j" for j using pick_None [OF that(1), of j] that(2) by simp
  have z3: "3 \<le> ?k j" if "?tr (\<lambda>n. n \<le> 1) = None" "?tr (\<lambda>n. n = 2) = None" "?c j" for j
    using z2 [OF that(1,3)] pick_None [OF that(2), of j] that(3) by simp
  have z4: "?k j = 4" if "?tr (\<lambda>n. n \<le> 1) = None" "?tr (\<lambda>n. n = 2) = None" "?tr (\<lambda>n. n = 3) = None" "?c j" for j
    using z3 [OF that(1,2,4)] pick_None [OF that(3), of j] that(4) srv_tier_le [of st now fw "t ! j"] by simp
  note R = pick_ranked [where st = st and now = now and path = path and fw = fw and allow = allow and t = t]
  have 0: "?tr (\<lambda>n. n = 0) = Some i \<Longrightarrow> ?thesis" for i using R [of "\<lambda>n. n = 0" i 0] unfolding w by simp
  have e1: "?k j \<le> 1 \<longleftrightarrow> ?k j = 1" if "?tr (\<lambda>n. n = 0) = None" "?c j" for j using z1 [OF that] by simp
  have 1: "\<lbrakk>?tr (\<lambda>n. n = 0) = None; ?tr (\<lambda>n. n \<le> 1) = Some i\<rbrakk> \<Longrightarrow> ?thesis" for i
    using R [of "\<lambda>n. n \<le> 1" i 1] z1 e1 unfolding w by simp
  have 2: "\<lbrakk>?tr (\<lambda>n. n = 0) = None; ?tr (\<lambda>n. n \<le> 1) = None; ?tr (\<lambda>n. n = 2) = Some i\<rbrakk> \<Longrightarrow> ?thesis" for i
    using R [of "\<lambda>n. n = 2" i 2] z2 unfolding w by simp
  have 3: "\<lbrakk>?tr (\<lambda>n. n = 0) = None; ?tr (\<lambda>n. n \<le> 1) = None; ?tr (\<lambda>n. n = 2) = None; ?tr (\<lambda>n. n = 3) = Some i\<rbrakk> \<Longrightarrow> ?thesis" for i
    using R [of "\<lambda>n. n = 3" i 3] z3 unfolding w by simp
  have 4: ?thesis if "?tr (\<lambda>n. n = 0) = None" "?tr (\<lambda>n. n \<le> 1) = None" "?tr (\<lambda>n. n = 2) = None" "?tr (\<lambda>n. n = 3) = None"
  proof (cases "?tr (\<lambda>n. n = 4)")
    case None
    then have "\<not> ?c j" for j using pick_None [OF None, of j] z4 [OF that(2-4), of j] by blast
    then show ?thesis using that None unfolding w by simp
  next
    case (Some i)
    have "srv_ranked st now path fw allow t i \<and> srv_top st now path fw allow (\<lambda>m. m = srv_tier st now fw (t ! i)) t i"
      by (rule R [OF Some, of 4]) (use z4 [OF that(2-4)] in simp_all)
    then show ?thesis unfolding w that Some by simp
  qed
  show ?thesis by (rule option_ladder [OF 0 1 2 3 4])
qed

section \<open>Affinity and the round robin\<close>

abbreviation (input) srv_fresh where
  "srv_fresh st now path fw allow t j \<equiv> j < length t \<and> srv_candidate now path allow (t ! j) \<and> srv_tier st now fw (t ! j) = 0"

lemma band_loop_set:
  "length cs = length vs \<Longrightarrow> set (srv_band_loop cs vs fw bound) = {c. \<exists>v. (c, v) \<in> set (zip cs vs) \<and> (if fw then bound \<le> ucast v else ucast v \<le> bound)}"
  by (induction cs vs rule: list_induct2) auto

lemma zip_takes: "zip (take n (map fst xs)) (take n (map snd xs)) = take n xs"
  by (simp add: take_zip [symmetric] zip_map_fst_snd)

lemma scan_cands: "i \<in> set (sel_fresh_cands (srv_select_loop st now path allow t 0 (srv_sel_state_init fw))) \<Longrightarrow> srv_fresh st now path fw allow t i"
proof -
  assume "i \<in> set (sel_fresh_cands (srv_select_loop st now path allow t 0 (srv_sel_state_init fw)))"
  then have "i \<in> fst ` set (tier_offers st now path fw allow (\<lambda>n. n = 0) t 0)"
    unfolding scan_form by (auto dest: in_set_takeD)
  then obtain v where "(i, v) \<in> set (tier_offers st now path fw allow (\<lambda>n. n = 0) t 0)" by auto
  then show ?thesis unfolding in_tier_offers by simp
qed

lemma scan_band:
  fixes st now path fw allow t
  defines "ss \<equiv> srv_select_loop st now path allow t 0 (srv_sel_state_init fw)"
  assumes "i \<in> set (srv_band_loop (sel_fresh_cands ss) (sel_fresh_vals ss) fw bound)"
  shows "srv_fresh st now path fw allow t i
    \<and> (if fw then bound \<le> ucast (srv_sel_metric st (t ! i) fw) else ucast (srv_sel_metric st (t ! i) fw) \<le> bound)"
proof -
  let ?xs = "tier_offers st now path fw allow (\<lambda>n. n = 0) t 0"
  have c: "sel_fresh_cands ss = take 64 (map fst ?xs)" "sel_fresh_vals ss = take 64 (map snd ?xs)" unfolding ss_def scan_form by simp_all
  have "length (sel_fresh_cands ss) = length (sel_fresh_vals ss)" unfolding c by simp
  then obtain v where v: "(i, v) \<in> set (take 64 ?xs)" "if fw then bound \<le> ucast v else ucast v \<le> bound"
    using assms(2) unfolding band_loop_set [OF \<open>length _ = _\<close>] unfolding c zip_takes by blast
  have "(i, v) \<in> set ?xs" using v(1) by (rule in_set_takeD)
  then show ?thesis using v(2) unfolding in_tier_offers by (cases fw) simp_all
qed

text \<open>Where the pick comes from: the hash of the path, the band around the best fresh score, or the ladder.\<close>

lemma slot_pick:
  fixes st now path fw allow t
  defines "ss \<equiv> srv_select_loop st now path allow t 0 (srv_sel_state_init fw)"
  obtains i where "st_affinity st" "srv_select_slot st now path fw allow t cur = (Some i, cur)" "i \<in> set (sel_fresh_cands ss)"
  | i where "sd_fuzz (st_sched st) \<noteq> 0" "srv_sel_state_winner ss = tier_idx (sel_fresh ss)"
      "srv_select_slot st now path fw allow t cur = (Some i, cur + 1)"
      "i \<in> set (srv_band_loop (sel_fresh_cands ss) (sel_fresh_vals ss) fw (srv_fuzz_bound st ss))"
  | "\<not> (st_affinity st \<and> length (sel_fresh_cands ss) > 1)" "srv_select_slot st now path fw allow t cur = (srv_sel_state_winner ss, cur)"
proof -
  let ?band = "srv_band_loop (sel_fresh_cands ss) (sel_fresh_vals ss) fw (srv_fuzz_bound st ss)"
  have fw: "sel_for_write ss = fw" unfolding ss_def scan_form by simp
  have slot: "srv_select_slot st now path fw allow t cur = (if st_affinity st \<and> length (sel_fresh_cands ss) > 1
      then (Some (sel_fresh_cands ss ! (unat (srv_sel_path_hash path) mod length (sel_fresh_cands ss))), cur)
      else srv_sel_fuzz_pick st ss (srv_sel_state_winner ss) cur)"
    by (simp add: srv_select_slot_def ss_def Let_def)
  show thesis
  proof (cases "st_affinity st \<and> length (sel_fresh_cands ss) > 1")
    case True
    then have "sel_fresh_cands ss ! (unat (srv_sel_path_hash path) mod length (sel_fresh_cands ss)) \<in> set (sel_fresh_cands ss)"
      by (intro nth_mem mod_less_divisor) linarith
    then show thesis using True slot that(1) by simp
  next
    case False
    show thesis
    proof (cases "sd_fuzz (st_sched st) = 0 \<or> length (sel_fresh_cands ss) < 2 \<or> srv_sel_state_winner ss \<noteq> tier_idx (sel_fresh ss) \<or> length ?band < 2")
      case True
      then have "srv_select_slot st now path fw allow t cur = (srv_sel_state_winner ss, cur)"
        using False slot fw by (auto simp: srv_sel_fuzz_pick_def Let_def)
      then show thesis by (rule that(3) [OF False])
    next
      case F: False
      then have "?band ! (unat cur mod length ?band) \<in> set ?band" by (intro nth_mem mod_less_divisor) linarith
      then show thesis using False F slot fw that(2) by (auto simp: srv_sel_fuzz_pick_def Let_def)
    qed
  qed
qed

lemma fresh_ranked: "srv_fresh st now path fw allow t i \<Longrightarrow> srv_ranked st now path fw allow t i"
  by (simp add: srv_ranked_def)

lemma select_ranked:
  "case fst (srv_select_slot st now path fw allow t cur) of None \<Rightarrow> \<forall>j<length t. \<not> srv_candidate now path allow (t ! j)
   | Some i \<Rightarrow> srv_ranked st now path fw allow t i
       \<and> (\<not> st_affinity st \<and> sd_fuzz (st_sched st) = 0 \<longrightarrow> srv_top st now path fw allow (\<lambda>m. m = srv_tier st now fw (t ! i)) t i)"
proof (cases rule: slot_pick [where st = st and now = now and path = path and fw = fw and allow = allow and t = t and cur = cur])
  case (1 i)
  then show ?thesis using fresh_ranked [OF scan_cands [OF 1(3)]] by simp
next
  case (2 i)
  then show ?thesis using fresh_ranked [OF conjunct1 [OF scan_band [OF 2(4)]]] by simp
next
  case 3
  then show ?thesis using winner_top [where st = st and now = now and path = path and fw = fw and allow = allow and t = t] unfolding 3 by (auto split: option.splits)
qed

lemma unat_wide: "unat (ucast v :: u64) = unat v" for v :: u32
proof -
  have "unat v < 2 ^ 32" using unsigned_less [of v, where ?'a = nat] by simp
  then show ?thesis by (simp add: unsigned_ucast_eq take_bit_nat_eq_self)
qed

lemma fresh_best:
  assumes "srv_sel_state_winner (srv_select_loop st now path allow t 0 (srv_sel_state_init fw))
      = tier_idx (sel_fresh (srv_select_loop st now path allow t 0 (srv_sel_state_init fw)))"
    and "srv_fresh st now path fw allow t j"
  obtains i where "srv_top st now path fw allow (\<lambda>n. n = 0) t i"
    and "tier_val (sel_fresh (srv_select_loop st now path allow t 0 (srv_sel_state_init fw))) = srv_sel_metric st (t ! i) fw"
proof -
  let ?tr = "tier_of_offers fw (srv_sel_tier_init fw) (tier_offers st now path fw allow (\<lambda>n. n = 0) t 0)"
  note T = tier_top [where fw = fw and st = st and now = now and path = path and allow = allow and K = "\<lambda>n. n = 0" and t = t]
  show thesis
  proof (cases "tier_idx ?tr")
    case None
    then show thesis using T assms(2) by fastforce
  next
    case (Some i)
    then show thesis using T that [of i] unfolding scan_form by simp
  qed
qed

definition within_band :: "nat \<Rightarrow> bool \<Rightarrow> u32 \<Rightarrow> u32 \<Rightarrow> bool" where
  "within_band f for_write v w \<longleftrightarrow>
     (if for_write then unat w * (100 - f) div 100 \<le> unat v else unat v \<le> unat w * (100 + f) div 100)"

lemma scale_exact:
  fixes w :: u32 and f :: u64
  assumes "f \<le> 200"
  shows "unat (ucast w * f div 100) = unat w * unat f div 100"
proof -
  have f: "unat f \<le> 200" using assms by (simp add: word_le_nat_alt)
  have w: "unat w < 2 ^ 32" using unsigned_less [of w, where ?'a = nat] by simp
  have "unat w * unat f \<le> 2 ^ 32 * 200" using f w by (intro mult_le_mono) simp_all
  then have "unat (ucast w * f) = unat w * unat f" by (simp add: unat_word_ariths unat_wide)
  then show ?thesis by (simp add: unat_div)
qed

lemma bound_band:
  assumes f: "sd_fuzz (st_sched st) \<le> 100" and s: "score_le fw b w" and ss: "sel_for_write ss = fw" "tier_val (sel_fresh ss) = b"
    and v: "if fw then srv_fuzz_bound st ss \<le> ucast v else ucast v \<le> srv_fuzz_bound st ss"
  shows "within_band (unat (sd_fuzz (st_sched st))) fw v w"
proof -
  let ?f = "sd_fuzz (st_sched st)"
  have u: "unat ?f \<le> 100" using f by (simp add: word_le_nat_alt)
  have a: "unat (100 + ?f) = 100 + unat ?f" using u by (simp add: unat_word_ariths)
  have d: "unat (100 - ?f) = 100 - unat ?f" using f by (simp add: unat_sub)
  have la: "100 + ?f \<le> 200" and ld: "100 - ?f \<le> 200" using u a d by (simp_all add: word_le_nat_alt)
  show ?thesis
  proof (cases fw)
    case True
    have "unat (srv_fuzz_bound st ss) \<le> unat v"
      using v True by (simp add: word_le_nat_alt unat_wide)
    moreover have "unat (srv_fuzz_bound st ss) = unat b * (100 - unat ?f) div 100"
      using True ss scale_exact [OF ld] by (simp add: srv_fuzz_bound_def d)
    moreover have "unat w * (100 - unat ?f) div 100 \<le> unat b * (100 - unat ?f) div 100"
      using s True by (intro div_le_mono mult_le_mono) (simp_all add: score_le_def word_le_nat_alt)
    ultimately show ?thesis using True by (simp add: within_band_def)
  next
    case False
    have "unat v \<le> unat (srv_fuzz_bound st ss)"
      using v False by (simp add: word_le_nat_alt unat_wide)
    moreover have "unat (srv_fuzz_bound st ss) = unat b * (100 + unat ?f) div 100"
      using False ss scale_exact [OF la] by (simp add: srv_fuzz_bound_def a)
    moreover have "unat b * (100 + unat ?f) div 100 \<le> unat w * (100 + unat ?f) div 100"
      using s False by (intro div_le_mono mult_le_mono) (simp_all add: score_le_def word_le_nat_alt)
    ultimately show ?thesis using False by (simp add: within_band_def)
  qed
qed

lemma le_band: "score_le fw v w \<Longrightarrow> within_band f fw v w"
proof (cases fw)
  case True
  assume "score_le fw v w"
  then have "unat w \<le> unat v" using True by (simp add: score_le_def word_le_nat_alt)
  then have "unat w * (100 - f) \<le> unat v * 100" by (rule mult_le_mono) simp
  then have "unat w * (100 - f) div 100 \<le> unat v" using div_le_mono [of "unat w * (100 - f)" "unat v * 100" 100] by simp
  then show ?thesis using True by (simp add: within_band_def)
next
  case False
  assume "score_le fw v w"
  then have "unat v \<le> unat w" using False by (simp add: score_le_def word_le_nat_alt)
  then have "unat v * 100 \<le> unat w * (100 + f)" by (rule mult_le_mono) simp
  then have "unat v \<le> unat w * (100 + f) div 100" using div_le_mono [of "unat v * 100" "unat w * (100 + f)" 100] by simp
  then show ?thesis using False by (simp add: within_band_def)
qed

lemma select_band:
  assumes f: "sd_fuzz (st_sched st) \<le> 100" and a: "\<not> st_affinity st" and j: "srv_fresh st now path fw allow t j"
  obtains i where "fst (srv_select_slot st now path fw allow t cur) = Some i" "srv_fresh st now path fw allow t i"
    "within_band (unat (sd_fuzz (st_sched st))) fw (srv_sel_metric st (t ! i) fw) (srv_sel_metric st (t ! j) fw)"
proof (cases rule: slot_pick [where st = st and now = now and path = path and fw = fw and allow = allow and t = t and cur = cur])
  case (1 i)
  then show thesis using a by simp
next
  case (2 i)
  let ?ss = "srv_select_loop st now path allow t 0 (srv_sel_state_init fw)"
  obtain b where b: "srv_top st now path fw allow (\<lambda>n. n = 0) t b" "tier_val (sel_fresh ?ss) = srv_sel_metric st (t ! b) fw"
    using fresh_best [OF 2(2) j] .
  have "score_le fw (srv_sel_metric st (t ! b) fw) (srv_sel_metric st (t ! j) fw)" using b(1) j unfolding srv_top_def by blast
  then have "within_band (unat (sd_fuzz (st_sched st))) fw (srv_sel_metric st (t ! i) fw) (srv_sel_metric st (t ! j) fw)"
    by (rule bound_band [OF f _ _ b(2) conjunct2 [OF scan_band [OF 2(4)]]]) (simp add: scan_form)
  then show thesis using that [of i] 2(3) conjunct1 [OF scan_band [OF 2(4)]] by simp
next
  case 3
  note w = winner_top [where st = st and now = now and path = path and fw = fw and allow = allow and t = t]
  obtain i where i: "srv_sel_state_winner (srv_select_loop st now path allow t 0 (srv_sel_state_init fw)) = Some i"
    using w j by (cases "srv_sel_state_winner (srv_select_loop st now path allow t 0 (srv_sel_state_init fw))") auto
  then have t: "srv_ranked st now path fw allow t i" "srv_top st now path fw allow (\<lambda>m. m = srv_tier st now fw (t ! i)) t i" using w by simp_all
  have fr: "srv_fresh st now path fw allow t i" using t(1) j unfolding srv_ranked_def by fastforce
  have "score_le fw (srv_sel_metric st (t ! i) fw) (srv_sel_metric st (t ! j) fw)" using t(2) fr j unfolding srv_top_def by simp
  then show thesis using that [of i] 3(2) i fr le_band by simp
qed

lemma offers_slots: "map fst (srv_offers st fw Q t 0) = filter (\<lambda>i. Q (t ! i)) [0..<length t]"
proof -
  have "enumerate 0 t = map (\<lambda>i. (i, t ! i)) [0..<length t]"
    using enumerate_map_upt [of 0 "(!) t" "length t"] by (simp add: map_nth)
  then show ?thesis unfolding srv_offers_def by (simp add: filter_map o_def)
qed

lemma affinity_slot:
  assumes a: "st_affinity st" and j: "srv_fresh st now path fw allow t j"
  defines "xs \<equiv> take 64 (filter (\<lambda>i. srv_candidate now path allow (t ! i) \<and> srv_tier st now fw (t ! i) = 0) [0..<length t])"
  shows "xs \<noteq> [] \<and> fst (srv_select_slot st now path fw allow t cur) = Some (xs ! (unat (srv_sel_path_hash path) mod length xs))"
proof -
  let ?ss = "srv_select_loop st now path allow t 0 (srv_sel_state_init fw)"
  have c: "sel_fresh_cands ?ss = xs" unfolding scan_form xs_def tier_offers_def
    by (simp add: offers_slots take_map [symmetric])
  have ne: "xs \<noteq> []" using j unfolding xs_def by (auto simp: filter_empty_conv)
  have fr: "i \<in> set xs" if "srv_ranked st now path fw allow t i" "length xs \<le> 1" for i
  proof -
    have f: "srv_fresh st now path fw allow t i" using that(1) j unfolding srv_ranked_def by fastforce
    let ?l = "filter (\<lambda>i. srv_candidate now path allow (t ! i) \<and> srv_tier st now fw (t ! i) = 0) [0..<length t]"
    have "length ?l \<le> 1" using that(2) unfolding xs_def length_take by linarith
    then have "xs = ?l" unfolding xs_def by simp
    then show ?thesis using f by simp
  qed
  show ?thesis
  proof (cases "length xs > 1")
    case True
    then show ?thesis using a ne c by (simp add: srv_select_slot_def Let_def)
  next
    case False
    have "fst (srv_select_slot st now path fw allow t cur) \<noteq> None"
      using select_ranked [where st = st and now = now and path = path and fw = fw and allow = allow and t = t and cur = cur] j
      by (auto split: option.splits)
    then obtain i where i: "fst (srv_select_slot st now path fw allow t cur) = Some i" by blast
    then have "i \<in> set xs" using fr [of i] False
        select_ranked [where st = st and now = now and path = path and fw = fw and allow = allow and t = t and cur = cur] by simp
    moreover have "length xs = 1" using ne False by (cases xs) simp_all
    ultimately show ?thesis using i ne by (cases xs) simp_all
  qed
qed

section \<open>Counting the tried servers\<close>

lemma count_matching_length: "brix_srv_count_matching path (Some t) = length (filter (\<lambda>e. se_in_use e \<and> srv_path_matches (se_paths e) path) t)"
proof -
  have "foldl (\<lambda>n e. if \<not> se_in_use e then n else if \<not> srv_path_matches (se_paths e) path then n else n + 1) n t
      = n + length (filter (\<lambda>e. se_in_use e \<and> srv_path_matches (se_paths e) path) t)" for n
    by (induction t arbitrary: n) simp_all
  then show ?thesis by (simp add: brix_srv_count_matching_def)
qed

lemma count_commas: "foldl (\<lambda>n c. if c = CHR '','' then n + 1 else n) (n :: nat) s = n + length (filter (\<lambda>c. c = CHR '','') s)"
  by (induction s arbitrary: n) simp_all

lemma join_commas: "\<lbrakk>hs \<noteq> []; \<forall>h\<in>set hs. CHR '','' \<notin> set h\<rbrakk> \<Longrightarrow> 1 + length (filter (\<lambda>c. c = CHR '','') (join_on CHR '','' hs)) = length hs"
proof (induction "CHR '',''" hs rule: join_on.induct)
  case (3 w v ws)
  have "filter (\<lambda>c. c = CHR '','') w = []" using 3(3) by (auto simp: filter_empty_conv)
  then show ?case using 3 by simp
qed (auto simp: filter_empty_conv)

lemma join_chars: "set (join_on c hs) \<subseteq> insert c (\<Union> (set ` set hs))"
  by (induction c hs rule: join_on.induct) auto

lemma join_head: "\<lbrakk>hs \<noteq> []; \<forall>h\<in>set hs. h \<noteq> []\<rbrakk> \<Longrightarrow> join_on c hs \<noteq> [] \<and> hd (join_on c hs) = hd (hd hs)"
  by (induction c hs rule: join_on.induct) simp_all

lemma host_char: "\<lbrakk>brix_net_host_chars_valid h; c \<in> set h\<rbrakk> \<Longrightarrow> c \<noteq> CHR '','' \<and> c \<noteq> CHR ''&'' \<and> c \<noteq> CHR 0x00"
  by (auto simp: brix_net_host_chars_valid_def char_between_def)

text \<open>The opaque part of a request that a client sends on its next attempt.\<close>

lemma opaque_of:
  assumes "CHR ''?'' \<notin> set path" "CHR 0x00 \<notin> set q" "q \<noteq> []" "length q < 1024"
  shows "srv_opaque (path @ CHR ''?'' # q) = Some q"
proof -
  have "dropWhile (\<lambda>c. c \<noteq> CHR ''?'') (path @ CHR ''?'' # q) = CHR ''?'' # q" using assms(1) by (simp add: dropWhile_append)
  moreover have "last q \<noteq> CHR 0x00" using assms(2,3) last_in_set by metis
  moreover have "takeWhile (\<lambda>c. c \<noteq> CHR 0x00) q = q" using assms(2) by (auto simp: takeWhile_eq_all_conv)
  ultimately show ?thesis using assms(3,4) by (simp add: srv_opaque_def Let_def)
qed

text \<open>The first \<open>tried=\<close> of the opaque part stands at its start or after an ampersand.\<close>

lemma str_find_skip:
  "\<lbrakk>pre = [] \<or> last pre = CHR ''&''; \<not> sublist pat pre; CHR ''&'' \<notin> set pat\<rbrakk> \<Longrightarrow> str_find pat (pre @ pat @ s) = Some (pat @ s)"
proof (induction pre)
  case Nil
  show ?case
  proof (cases "pat @ s")
    case (Cons a l)
    have "take (length pat) (pat @ s) = pat" by simp
    then have "take (length pat) (a # l) = pat" unfolding Cons .
    then show ?thesis unfolding append_Nil Cons by simp
  qed simp
next
  case (Cons c cs)
  have "take (length pat) (c # cs @ pat @ s) \<noteq> pat"
  proof
    assume "take (length pat) (c # cs @ pat @ s) = pat"
    then have eq: "take (length pat) (c # cs) @ take (length pat - length (c # cs)) (pat @ s) = pat"
      using take_append [of "length pat" "c # cs" "pat @ s"] by (simp only: append_Cons)
    show False
    proof (cases "length pat \<le> length (c # cs)")
      case True
      then have "take (length pat) (c # cs) = pat" using eq by simp
      then have "prefix pat (c # cs)" using take_is_prefix [of "length pat" "c # cs"] by simp
      then show False using Cons.prems(2) prefix_imp_sublist by blast
    next
      case False
      then have "take (length pat) (c # cs) = c # cs" by simp
      then have "set (c # cs) \<subseteq> set pat" using arg_cong [OF eq, of set] by auto
      moreover have "last (c # cs) \<in> set (c # cs)" by (rule last_in_set) simp
      ultimately show False using Cons.prems(1,3) by auto
    qed
  qed
  then have step: "str_find pat ((c # cs) @ pat @ s) = str_find pat (cs @ pat @ s)" by simp
  have "cs = [] \<or> last cs = CHR ''&''" using Cons.prems(1) by (simp split: if_splits)
  moreover have "\<not> sublist pat cs"
  proof
    assume "sublist pat cs"
    then have "sublist pat (c # cs)" by (simp add: sublist_Cons_right)
    then show False using Cons.prems(2) by contradiction
  qed
  ultimately show ?case unfolding step using Cons.IH Cons.prems(3) by blast
qed

lemma n_tried_of:
  assumes h: "hs \<noteq> []" "\<forall>h\<in>set hs. brix_net_host_chars_valid h" and r: "rest = [] \<or> hd rest = CHR ''&''"
    and p: "pre = [] \<or> last pre = CHR ''&''" "\<not> sublist ''tried='' pre"
  shows "srv_n_tried (pre @ ''tried='' @ join_on CHR '','' hs @ rest) = Some (length hs)"
proof -
  let ?j = "join_on CHR '','' hs"
  have c: "c \<noteq> CHR ''&''" if "c \<in> set ?j" for c using join_chars [of "CHR '',''" hs] that h(2) host_char by fastforce
  have ne: "\<forall>h\<in>set hs. h \<noteq> []" using h(2) by (auto simp: brix_net_host_chars_valid_def)
  have j: "?j \<noteq> []" using join_head [OF h(1) ne] by blast
  have "takeWhile (\<lambda>c. c \<noteq> CHR ''&'') (?j @ rest) = ?j" using r c by (cases rest) (auto simp: takeWhile_append takeWhile_eq_all_conv)
  moreover have "hd (?j @ rest) \<noteq> CHR ''&''" using j c [OF hd_in_set [OF j]] by simp
  moreover have "\<forall>h\<in>set hs. CHR '','' \<notin> set h" using h(2) host_char by blast
  moreover have "str_find ''tried='' (pre @ ''tried='' @ ?j @ rest) = Some (''tried='' @ ?j @ rest)"
    by (rule str_find_skip [OF p]) simp
  ultimately show ?thesis using j join_commas [OF h(1)] unfolding srv_n_tried_def by (simp add: Let_def count_commas)
qed

section \<open>Exports, scores and staging\<close>

text \<open>A list of exports covers what one of its tokens covers: its own path and everything below it.\<close>

lemma token_covers_iff: "srv_token_covers tok path \<longleftrightarrow>
    tok \<noteq> [] \<and> (tok = ''/'' \<or> (\<exists>rest. path = tok @ rest \<and> (last tok = slash \<or> rest = [] \<or> hd rest = slash)))"
proof (cases "length path \<ge> length tok \<and> take (length tok) path = tok")
  case True
  then obtain rest where r: "path = tok @ rest" by (metis append_take_drop_id)
  then show ?thesis by (cases rest) (auto simp: srv_token_covers_def nth_append)
next
  case False
  then show ?thesis by (auto simp: srv_token_covers_def)
qed

lemma matches_split: "srv_path_matches p path \<longleftrightarrow> (\<exists>tok\<in>set (split_on CHR '':'' p). srv_token_covers tok path)"
proof (induction p path rule: srv_path_matches.induct)
  case (1 p path)
  let ?a = "takeWhile (\<lambda>c. c \<noteq> CHR '':'') p" and ?b = "dropWhile (\<lambda>c. c \<noteq> CHR '':'') p"
  have p: "p = ?a @ ?b" by simp
  have a: "CHR '':'' \<notin> set ?a" using set_takeWhileD by fastforce
  have e: "\<not> srv_path_matches [] path" "\<not> srv_token_covers [] path"
    by (simp_all add: srv_path_matches.simps [of "[]"] srv_token_covers_def)
  have r: "srv_path_matches p path \<longleftrightarrow> p \<noteq> [] \<and> (srv_token_covers ?a path \<or> srv_path_matches (drop 1 ?b) path)"
    by (subst srv_path_matches.simps) simp
  show ?case
  proof (cases "?b")
    case Nil
    then have "split_on CHR '':'' p = [?a]" using p a split_on_no by (metis append_Nil2)
    then show ?thesis unfolding r Nil using e by (cases "p = []") simp_all
  next
    case (Cons c b)
    have c: "c = CHR '':''" using hd_dropWhile [of "\<lambda>c. c \<noteq> CHR '':''" p] Cons by simp
    then have s: "split_on CHR '':'' p = ?a # split_on CHR '':'' b" using p Cons split_on_word [OF a, of b] by metis
    have n: "p \<noteq> []" using Cons by auto
    show ?thesis using 1 [OF n] n e unfolding r s Cons by (cases "srv_token_covers ?a path") simp_all
  qed
qed

theorem srv_exports_cover:
  assumes "toks \<noteq> []" "\<forall>tok\<in>set toks. tok \<noteq> [] \<and> CHR '':'' \<notin> set tok"
  shows "srv_path_matches (join_on CHR '':'' toks) path
    \<longleftrightarrow> (\<exists>tok\<in>set toks. tok = ''/'' \<or> (\<exists>rest. path = tok @ rest \<and> (last tok = slash \<or> rest = [] \<or> hd rest = slash)))"
  using assms unfolding matches_split by (simp add: split_join token_covers_iff)

theorem srv_exports_cover_witness: "srv_path_matches ''/db:/data'' ''/data/f'' \<and> \<not> srv_path_matches ''/db:/data'' ''/database''"
  using srv_exports_cover [of "[''/db'', ''/data'']" "''/data/f''"] srv_exports_cover [of "[''/db'', ''/data'']" "''/database''"] by simp

text \<open>The blended score without component weights is the exact quotient: nothing wraps at 32 or 64 bits.\<close>

lemma metric_exact:
  assumes s: "\<not> sched_active st" and w: "st_load_weight st \<le> 100" and l: "se_load_pct e \<le> 100"
  shows "unat (srv_sel_metric st e True)
      = unat (se_free_mb e) - unat (se_free_mb e) * unat (st_load_weight st) * unat (se_load_pct e) div 10000"
proof (cases "st_load_weight st = 0")
  case True
  then show ?thesis using s by (simp add: srv_sel_metric_def Let_def)
next
  case False
  let ?f = "se_free_mb e" and ?w = "st_load_weight st" and ?l = "se_load_pct e"
  have b: "unat ?w \<le> 100" "unat ?l \<le> 100" using w l by (simp_all add: word_le_nat_alt)
  have f: "unat ?f < 2 ^ 32" using unsigned_less [of ?f, where ?'a = nat] by simp
  have fw: "unat ?f * unat ?w \<le> 2 ^ 32 * 100" using f b by (intro mult_le_mono) simp_all
  have fwl: "unat ?f * unat ?w * unat ?l \<le> 2 ^ 32 * 100 * 100" using f b by (intro mult_le_mono) simp_all
  have m: "unat ((ucast ?f :: u64) * ?w * ucast ?l) = unat ?f * unat ?w * unat ?l"
    using fw fwl by (simp add: unat_word_ariths unat_wide)
  have "unat ?f * unat ?w * unat ?l \<le> unat ?f * 100 * 100" using b by (intro mult_le_mono) simp_all
  then have q: "unat ?f * unat ?w * unat ?l div 10000 \<le> unat ?f"
    using div_le_mono [of "unat ?f * unat ?w * unat ?l" "unat ?f * 100 * 100" 10000] by simp
  let ?q = "ucast ((ucast ?f :: u64) * ?w * ucast ?l div 10000) :: u32"
  have u: "unat ?q = unat ?f * unat ?w * unat ?l div 10000" using q f by (simp add: unsigned_ucast_eq take_bit_nat_eq_self unat_div m)
  then have "?q \<le> ?f" using q by (simp add: word_le_nat_alt)
  then show ?thesis using s False u by (simp add: srv_sel_metric_def Let_def unat_sub)
qed

text \<open>The node a recall is sent to has the most free space of those that can stage and may be asked.\<close>

definition srv_stager :: "u64 \<Rightarrow> string \<Rightarrow> brix_srv_entry_t \<Rightarrow> bool" where
  "srv_stager now path e \<longleftrightarrow> se_in_use e \<and> se_stage e \<and> \<not> srv_role0 CHR ''M'' e \<and> \<not> srv_role0 CHR ''R'' e \<and> \<not> srv_is_peer e
     \<and> \<not> srv_blacked now e \<and> srv_path_matches (se_paths e) path"

lemma stage_loop_tier:
  "srv_stage_loop now path t k (tier_idx tr) (tier_val tr) = tier_idx (tier_of_offers True tr
     (map (\<lambda>(i, e). (i, se_free_mb e)) (filter (\<lambda>(i, e). srv_stager now path e) (enumerate k t))))"
proof (induction t arbitrary: k tr)
  case (Cons e t)
  show ?case
  proof (cases "srv_stager now path e")
    case True
    let ?tr = "srv_sel_tier_offer tr k (se_free_mb e) True"
    have "srv_stage_loop now path (e # t) k (tier_idx tr) (tier_val tr) = srv_stage_loop now path t (Suc k) (tier_idx ?tr) (tier_val ?tr)"
      using True by (simp add: srv_stager_def srv_sel_tier_offer_def srv_sel_metric_better_def)
    then show ?thesis using True Cons.IH [of "Suc k" ?tr] by simp
  next
    case False
    then have "srv_stage_loop now path (e # t) k (tier_idx tr) (tier_val tr) = srv_stage_loop now path t (Suc k) (tier_idx tr) (tier_val tr)"
      by (auto simp: srv_stager_def)
    then show ?thesis using False Cons.IH by simp
  qed
qed simp

theorem srv_stage_roomiest:
  "case brix_srv_select_stage now path n (Some t) of None \<Rightarrow> \<forall>e\<in>set t. \<not> srv_stager now path e
   | Some (h, p) \<Rightarrow> \<exists>i<length t. h = take (n - 1) (se_host (t ! i)) \<and> p = se_port (t ! i) \<and> srv_stager now path (t ! i)
       \<and> (\<forall>e\<in>set t. srv_stager now path e \<longrightarrow> se_free_mb e \<le> se_free_mb (t ! i))"
proof -
  let ?xs = "map (\<lambda>(i, e). (i, se_free_mb e)) (filter (\<lambda>(i, e). srv_stager now path e) (enumerate 0 t))"
  have "map fst ?xs = map fst (srv_offers undefined True (srv_stager now path) t 0)" by (simp add: srv_offers_def split_beta o_def)
  then have o: "sorted_wrt (<) (map fst ?xs)" using offers_sorted by metis
  have x: "(i, v) \<in> set ?xs \<longleftrightarrow> i < length t \<and> srv_stager now path (t ! i) \<and> v = se_free_mb (t ! i)" for i v
    by (auto simp: in_set_enumerate_eq image_iff)
  have l: "srv_stage_loop now path t 0 None 0 = tier_idx (tier_of_offers True (srv_sel_tier_init True) ?xs)"
    using stage_loop_tier [of now path t 0 "srv_sel_tier_init True"] by (simp add: srv_sel_tier_init_def)
  note b = tier_of_first_best [OF o, of True]
  show ?thesis
  proof (cases "srv_stage_loop now path t 0 None 0")
    case None
    then have "?xs = []" using b unfolding l by simp
    then have "\<not> srv_stager now path (t ! i)" if "i < length t" for i using x [of i "se_free_mb (t ! i)"] that by simp
    then show ?thesis using None by (simp add: brix_srv_select_stage_def all_set_conv_all_nth)
  next
    case (Some i)
    then obtain v where v: "first_best True ?xs i v" using b unfolding l by simp
    have i: "i < length t" "srv_stager now path (t ! i)" "v = se_free_mb (t ! i)" using v x unfolding first_best_def by blast+
    have "se_free_mb (t ! j) \<le> v" if "j < length t" "srv_stager now path (t ! j)" for j
      using v x [of j "se_free_mb (t ! j)"] that unfolding first_best_def score_le_def by auto
    then show ?thesis using Some i by (auto simp: brix_srv_select_stage_def all_set_conv_all_nth cpystrn_def)
  qed
qed

section \<open>The list of locations fits\<close>

fun srv_locate_text :: "brix_srv_state_t \<Rightarrow> u64 \<Rightarrow> bool \<Rightarrow> bool \<Rightarrow> brix_srv_entry_t list \<Rightarrow> string" where
  "srv_locate_text st now for_write first [] = []"
| "srv_locate_text st now for_write first (e # es) = srv_locate_entry st now for_write first e @ srv_locate_text st now for_write False es"

lemma locate_entry_fits: "length (srv_locate_entry st now fw first e) < 300"
  by (simp add: srv_locate_entry_def brix_format_host_port_def Let_def)

lemma locate_loop_text:
  assumes "length buf < bufsz"
  shows "\<exists>k. srv_locate_loop st now path fw bufsz t buf first = buf @ srv_locate_text st now fw first (take k (filter (srv_candidate now path False) t))
    \<and> length (srv_locate_loop st now path fw bufsz t buf first) < bufsz"
  using assms
proof (induction t arbitrary: buf first)
  case (Cons e t)
  let ?en = "srv_locate_entry st now fw first e"
  consider "srv_candidate now path False e" "length buf + length ?en + 1 < bufsz"
    | "srv_candidate now path False e" "\<not> length buf + length ?en + 1 < bufsz" | "\<not> srv_candidate now path False e" by blast
  then show ?case
  proof cases
    case 1
    have step: "srv_locate_loop st now path fw bufsz (e # t) buf first = srv_locate_loop st now path fw bufsz t (buf @ ?en) False"
      using 1 by (auto simp: srv_candidate_def Let_def)
    obtain k where k: "srv_locate_loop st now path fw bufsz t (buf @ ?en) False
        = (buf @ ?en) @ srv_locate_text st now fw False (take k (filter (srv_candidate now path False) t))"
      "length (srv_locate_loop st now path fw bufsz t (buf @ ?en) False) < bufsz"
      using Cons.IH [of "buf @ ?en" False] 1(2) by auto
    then show ?thesis unfolding step using 1(1) by (intro exI [of _ "Suc k"]) auto
  next
    case 2
    then show ?thesis using Cons.prems by (intro exI [of _ 0]) (auto simp: srv_candidate_def Let_def)
  next
    case 3
    then have step: "srv_locate_loop st now path fw bufsz (e # t) buf first = srv_locate_loop st now path fw bufsz t buf first"
      by (auto simp: srv_candidate_def)
    show ?thesis using Cons.IH [OF Cons.prems] 3 unfolding step by simp
  qed
qed simp

text \<open>The list is made of servers that strict selection could pick, in table order, and leaves room for the terminator.\<close>

theorem srv_locate_fits:
  assumes "2 \<le> bufsz"
  shows "length (brix_srv_locate_all st now path fw bufsz (Some t)) < bufsz
    \<and> (\<exists>k. brix_srv_locate_all st now path fw bufsz (Some t)
         = srv_locate_text st now fw True (take k (filter (srv_candidate now path False) t)))"
  using locate_loop_text [of "[]" bufsz st now path fw t True] assms by (auto simp: brix_srv_locate_all_def)

theorem srv_locate_fits_witness:
  "length (brix_srv_locate_all srv_state_initial 50 ''/d'' False 12 (Some [srv_entry_zero\<lparr>se_host := ''a'', se_paths := ''/'', se_in_use := True\<rparr>])) < 12"
  using srv_locate_fits [of 12 srv_state_initial 50 "''/d''" False "[srv_entry_zero\<lparr>se_host := ''a'', se_paths := ''/'', se_in_use := True\<rparr>]"] by simp

section \<open>Properties\<close>

text \<open>
  C37. Selection is sound and complete for any configuration.  It finds a server exactly when one may be picked: it is
  registered, exports a token that covers the path, and is not blacklisted unless blacklisted ones are allowed.  The
  server it names is of the best tier there is (fresh, then stale, then over its limits, then a peer cluster, then
  blacklisted); without affinity and round robin none of its tier has a better score.
\<close>

theorem srv_select_ranked:
  "case fst (srv_select_core st now path for_write allow n (Some t) cur) of
     None \<Rightarrow> \<forall>e\<in>set t. \<not> srv_candidate now path allow e
   | Some (h, p) \<Rightarrow> \<exists>i<length t. h = take (n - 1) (se_host (t ! i)) \<and> p = se_port (t ! i) \<and> srv_candidate now path allow (t ! i)
       \<and> (\<forall>e\<in>set t. srv_candidate now path allow e \<longrightarrow> srv_tier st now for_write (t ! i) \<le> srv_tier st now for_write e)
       \<and> (\<not> st_affinity st \<and> sd_fuzz (st_sched st) = 0 \<longrightarrow>
            (\<forall>e\<in>set t. srv_candidate now path allow e \<and> srv_tier st now for_write e = srv_tier st now for_write (t ! i) \<longrightarrow>
               score_le for_write (srv_sel_metric st (t ! i) for_write) (srv_sel_metric st e for_write)))"
proof -
  note s = select_ranked [where st = st and now = now and path = path and fw = for_write and allow = allow and t = t and cur = cur]
  obtain r c where r: "srv_select_slot st now path for_write allow t cur = (r, c)" by force
  show ?thesis
  proof (cases r)
    case None
    then show ?thesis using s r by (simp add: srv_select_core_def all_set_conv_all_nth)
  next
    case (Some i)
    then show ?thesis using s r unfolding srv_ranked_def srv_top_def all_set_conv_all_nth
      by (simp add: srv_select_core_def cpystrn_def) blast
  qed
qed

theorem srv_select_ranked_witness:
  "fst (brix_srv_select srv_state_initial 50 ''/d/f'' False 256 (Some
      [srv_entry_zero\<lparr>se_host := ''a'', se_port := 1, se_paths := ''/x:/d'', se_util_pct := 20, se_in_use := True\<rparr>,
       srv_entry_zero\<lparr>se_host := ''b'', se_port := 2, se_paths := ''/d'', se_util_pct := 10, se_in_use := True\<rparr>,
       srv_entry_zero\<lparr>se_host := ''c'', se_port := 3, se_paths := ''/d'', se_in_use := True, se_blacklisted_until := 60\<rparr>]) 0)
     = Some (''b'', 2)"
proof -
  let ?a = "srv_entry_zero\<lparr>se_host := ''a'', se_port := 1, se_paths := ''/x:/d'', se_util_pct := 20, se_in_use := True\<rparr>"
  let ?b = "srv_entry_zero\<lparr>se_host := ''b'', se_port := 2, se_paths := ''/d'', se_util_pct := 10, se_in_use := True\<rparr>"
  let ?c = "srv_entry_zero\<lparr>se_host := ''c'', se_port := 3, se_paths := ''/d'', se_in_use := True, se_blacklisted_until := 60\<rparr>"
  let ?t = "[?a, ?b, ?c]"
  have c: "srv_candidate 50 ''/d/f'' False ?a" "srv_candidate 50 ''/d/f'' False ?b" "\<not> srv_candidate 50 ''/d/f'' False ?c"
    by (simp_all add: srv_candidate_def srv_path_matches.simps srv_token_covers_def srv_blacked_def srv_entry_zero_def)
  have k: "srv_tier srv_state_initial 50 False ?a = 0" "srv_tier srv_state_initial 50 False ?b = 0"
    by (simp_all add: srv_tier_def srv_blacked_def srv_is_peer_def srv_role0_def srv_sel_over_maxload_def srv_is_stale_def
        srv_state_initial_def sched_zero_def srv_entry_zero_def)
  have m: "srv_sel_metric srv_state_initial ?a False = 20" "srv_sel_metric srv_state_initial ?b False = 10"
    by (simp_all add: srv_sel_metric_def sched_active_def srv_state_initial_def sched_zero_def srv_entry_zero_def)
  define t where "t = ?t"
  have t: "length t = 3" "t ! 0 = ?a" "t ! 1 = ?b" "t ! 2 = ?c" by (simp_all add: t_def)
  note s = srv_select_ranked [where st = srv_state_initial and now = 50 and path = "''/d/f''" and for_write = False and allow = False
      and n = 256 and t = t and cur = 0]
  have b: "?b \<in> set t" using t(1,3) nth_mem [of 1 t] by simp
  have "fst (srv_select_core srv_state_initial 50 ''/d/f'' False False 256 (Some t) 0) \<noteq> None"
  proof
    assume "fst (srv_select_core srv_state_initial 50 ''/d/f'' False False 256 (Some t) 0) = None"
    then show False using s b c(2) unfolding \<open>_ = None\<close> option.case by blast
  qed
  then obtain h p where hp: "fst (srv_select_core srv_state_initial 50 ''/d/f'' False False 256 (Some t) 0) = Some (h, p)" by fastforce
  have z: "\<not> st_affinity srv_state_initial" "sd_fuzz (st_sched srv_state_initial) = 0" by (simp_all add: srv_state_initial_def sched_zero_def)
  obtain i where i: "i < length t" "h = take (256 - 1) (se_host (t ! i))" "p = se_port (t ! i)" "srv_candidate 50 ''/d/f'' False (t ! i)"
    "\<forall>e\<in>set t. srv_candidate 50 ''/d/f'' False e \<and> srv_tier srv_state_initial 50 False e = srv_tier srv_state_initial 50 False (t ! i)
       \<longrightarrow> score_le False (srv_sel_metric srv_state_initial (t ! i) False) (srv_sel_metric srv_state_initial e False)"
    using s z unfolding hp option.case prod.case by blast
  have "i = 0 \<or> i = 1 \<or> i = 2" using i(1) t(1) by linarith
  moreover have "i \<noteq> 2" using i(4) c(3) t(4) by metis
  moreover have "i \<noteq> 0"
  proof
    assume "i = 0"
    then have "score_le False 20 10" using bspec [OF i(5) b] c(2) k m t(2) by metis
    then show False by (simp add: score_le_def)
  qed
  ultimately have "i = 1" by blast
  then show ?thesis using hp i(2,3) t(3) unfolding t_def by (simp add: brix_srv_select_def)
qed

text \<open>
  C38. With affinity, while a fresh server exports the path, the pick is a function of the path and of the list of the
  fresh servers that export it, in the order of their slots: of the first 64 of them, the one at the hash of the path
  modulo their number.  Nothing else counts: not their loads, the time, the direction of the request, the servers that are not fresh, which
  slots hold what, nor the cursor of the worker.  So two tables that list the same fresh servers in the same order agree;
  the order matters.
\<close>

definition srv_fresh_nodes ::
    "brix_srv_state_t \<Rightarrow> u64 \<Rightarrow> string \<Rightarrow> bool \<Rightarrow> bool \<Rightarrow> brix_srv_table_t \<Rightarrow> (string \<times> u16) list" where
  "srv_fresh_nodes st now path for_write allow t =
     map (\<lambda>e. (se_host e, se_port e)) (filter (\<lambda>e. srv_candidate now path allow e \<and> srv_tier st now for_write e = 0) t)"

lemma filter_slots: "map (\<lambda>i. f (t ! i)) (filter (\<lambda>i. Q (t ! i)) [0..<length t]) = map f (filter Q t)"
proof -
  have "filter Q t = map ((!) t) (filter (\<lambda>i. Q (t ! i)) [0..<length t])"
    using filter_map [of Q "(!) t" "[0..<length t]"] by (simp add: map_nth o_def)
  then show ?thesis by simp
qed

theorem srv_affinity_by_position:
  assumes "st_affinity st" and nodes_def: "nodes = take 64 (srv_fresh_nodes st now path fw allow t)" and "nodes \<noteq> []"
  shows "fst (srv_select_core st now path fw allow n (Some t) cur)
    = (case nodes ! (unat (srv_sel_path_hash path) mod length nodes) of (h, p) \<Rightarrow> Some (take (n - 1) h, p))"
proof -
  let ?l = "filter (\<lambda>i. srv_candidate now path allow (t ! i) \<and> srv_tier st now fw (t ! i) = 0) [0..<length t]"
  let ?is = "take 64 ?l"
  have "srv_fresh_nodes st now path fw allow t = map (\<lambda>i. (se_host (t ! i), se_port (t ! i))) ?l"
    unfolding srv_fresh_nodes_def by (rule filter_slots [symmetric])
  then have nodes: "nodes = map (\<lambda>i. (se_host (t ! i), se_port (t ! i))) ?is" by (simp only: nodes_def take_map)
  then obtain j where "j \<in> set ?is" using assms(3) by fastforce
  then have j: "srv_fresh st now path fw allow t j" by (auto dest: in_set_takeD)
  define k where "k = unat (srv_sel_path_hash path) mod length nodes"
  have "0 < length nodes" using assms(3) by simp
  then have "k < length nodes" unfolding k_def by (rule mod_less_divisor)
  then have k: "k < length ?is" unfolding nodes length_map .
  have "fst (srv_select_slot st now path fw allow t cur) = Some (?is ! k)"
    using affinity_slot [OF assms(1) j] unfolding k_def nodes length_map by blast
  moreover have "nodes ! k = (se_host (t ! (?is ! k)), se_port (t ! (?is ! k)))" unfolding nodes by (rule nth_map [OF k])
  ultimately show ?thesis unfolding k_def [symmetric] srv_select_core_def by (simp add: split_beta cpystrn_def)
qed

lemma affinity_examples:
  "srv_fresh_nodes (srv_state_initial\<lparr>st_affinity := True\<rparr>) 50 ''/d/f'' False False
      [srv_entry_zero\<lparr>se_host := ''a'', se_paths := ''/d'', se_util_pct := 20, se_in_use := True\<rparr>,
       srv_entry_zero\<lparr>se_host := ''b'', se_paths := ''/d'', se_util_pct := 10, se_in_use := True\<rparr>] = [(''a'', 0), (''b'', 0)]"
  "srv_sel_path_hash ''/d/f'' = 4256769871"
  by (simp_all add: srv_fresh_nodes_def srv_candidate_def srv_path_matches.simps srv_token_covers_def srv_tier_def srv_blacked_def
      srv_is_peer_def srv_role0_def srv_sel_over_maxload_def srv_is_stale_def srv_state_initial_def sched_zero_def srv_entry_zero_def
      srv_sel_path_hash_def)

theorem srv_affinity_by_position_witness:
  "fst (srv_select_core (srv_state_initial\<lparr>st_affinity := True\<rparr>) 50 ''/d/f'' False False 256 (Some
      [srv_entry_zero\<lparr>se_host := ''a'', se_paths := ''/d'', se_util_pct := 20, se_in_use := True\<rparr>,
       srv_entry_zero\<lparr>se_host := ''b'', se_paths := ''/d'', se_util_pct := 10, se_in_use := True\<rparr>]) 7) = Some (''b'', 0)"
  using srv_affinity_by_position [where st = "srv_state_initial\<lparr>st_affinity := True\<rparr>" and now = 50 and path = "''/d/f''" and fw = False
      and allow = False and n = 256 and cur = 7 and t = "[srv_entry_zero\<lparr>se_host := ''a'', se_paths := ''/d'', se_util_pct := 20, se_in_use := True\<rparr>,
       srv_entry_zero\<lparr>se_host := ''b'', se_paths := ''/d'', se_util_pct := 10, se_in_use := True\<rparr>]"]
  by (simp add: affinity_examples flip: numeral_2_eq_2)

text \<open>
  Two managers with the same two fresh servers in the opposite order never agree, for any path.
\<close>

lemma affinity_pair:
  assumes "st_affinity st" "\<forall>e\<in>{e1, e2}. srv_candidate now path allow e \<and> srv_tier st now fw e = 0"
  shows "fst (srv_select_core st now path fw allow n (Some [e1, e2]) cur) =
    (if even (unat (srv_sel_path_hash path)) then Some (take (n - 1) (se_host e1), se_port e1) else Some (take (n - 1) (se_host e2), se_port e2))"
proof -
  have nodes: "take 64 (srv_fresh_nodes st now path fw allow [e1, e2]) = [(se_host e1, se_port e1), (se_host e2, se_port e2)]"
    using assms(2) by (simp add: srv_fresh_nodes_def)
  have j: "srv_fresh st now path fw allow [e1, e2] 0" using assms(2) by simp
  have f: "filter (\<lambda>i. srv_candidate now path allow ([e1, e2] ! i) \<and> srv_tier st now fw ([e1, e2] ! i) = 0) [0..<length [e1, e2]] = [0, 1]"
    using assms(2) by (simp add: upt_rec)
  have "fst (srv_select_slot st now path fw allow [e1, e2] cur) = Some ([0, 1] ! (unat (srv_sel_path_hash path) mod 2))"
    using conjunct2 [OF affinity_slot [OF assms(1) j]] unfolding f by (simp add: numeral_2_eq_2)
  then show ?thesis unfolding srv_select_core_def by (simp add: split_beta cpystrn_def even_iff_mod_2_eq_zero odd_iff_mod_2_eq_one)
qed

theorem srv_affinity_order_matters:
  assumes "st_affinity st" "\<forall>e\<in>{e1, e2}. srv_candidate now path allow e \<and> srv_tier st now fw e = 0"
    and "(take (n - 1) (se_host e1), se_port e1) \<noteq> (take (n - 1) (se_host e2), se_port e2)"
  shows "fst (srv_select_core st now path fw allow n (Some [e1, e2]) cur) \<noteq> fst (srv_select_core st now path fw allow n (Some [e2, e1]) cur')"
proof -
  have "\<forall>e\<in>{e2, e1}. srv_candidate now path allow e \<and> srv_tier st now fw e = 0" using assms(2) by auto
  note p = affinity_pair [OF assms(1,2)] affinity_pair [OF assms(1) this]
  show ?thesis unfolding p using assms(3) by auto
qed

text \<open>
  The round robin stays near the best.  Without affinity, while a fresh server exports the path, the pick is a fresh
  server whose score is within the configured percentage of the score of every fresh one, wherever the cursor stands.
\<close>

theorem srv_fuzz_near_best:
  assumes "sd_fuzz (st_sched st) \<le> 100" "\<not> st_affinity st" "e \<in> set t" "srv_candidate now path allow e" "srv_tier st now fw e = 0"
  shows "\<exists>i<length t. fst (srv_select_core st now path fw allow n (Some t) cur) = Some (take (n - 1) (se_host (t ! i)), se_port (t ! i))
    \<and> srv_candidate now path allow (t ! i) \<and> srv_tier st now fw (t ! i) = 0
    \<and> within_band (unat (sd_fuzz (st_sched st))) fw (srv_sel_metric st (t ! i) fw) (srv_sel_metric st e fw)"
proof -
  obtain j where j: "j < length t" "t ! j = e" using assms(3) by (metis in_set_conv_nth)
  then have "srv_fresh st now path fw allow t j" using assms by simp
  then obtain i where "fst (srv_select_slot st now path fw allow t cur) = Some i" "srv_fresh st now path fw allow t i"
    "within_band (unat (sd_fuzz (st_sched st))) fw (srv_sel_metric st (t ! i) fw) (srv_sel_metric st (t ! j) fw)"
    using select_band [OF assms(1,2)] by metis
  then show ?thesis using j(2) unfolding srv_select_core_def by (intro exI [of _ i]) (simp add: split_beta cpystrn_def)
qed

theorem srv_fuzz_near_best_witness:
  "\<exists>i<2. fst (srv_select_core (srv_state_initial\<lparr>st_sched := sched_zero\<lparr>sd_fuzz := 20\<rparr>\<rparr>) 50 ''/d/f'' False False 256 (Some
      [srv_entry_zero\<lparr>se_host := ''a'', se_port := 1, se_paths := ''/d'', se_util_pct := 50, se_in_use := True\<rparr>,
       srv_entry_zero\<lparr>se_host := ''b'', se_port := 2, se_paths := ''/d'', se_util_pct := 55, se_in_use := True\<rparr>]) 1)
     = Some ([''a'', ''b''] ! i, [1, 2] ! i)"
proof -
  let ?a = "srv_entry_zero\<lparr>se_host := ''a'', se_port := 1, se_paths := ''/d'', se_util_pct := 50, se_in_use := True\<rparr>"
  let ?b = "srv_entry_zero\<lparr>se_host := ''b'', se_port := 2, se_paths := ''/d'', se_util_pct := 55, se_in_use := True\<rparr>"
  let ?st = "srv_state_initial\<lparr>st_sched := sched_zero\<lparr>sd_fuzz := 20\<rparr>\<rparr>"
  have c: "srv_candidate 50 ''/d/f'' False ?a"
    by (simp add: srv_candidate_def srv_path_matches.simps srv_token_covers_def srv_blacked_def srv_entry_zero_def)
  have k: "srv_tier ?st 50 False ?a = 0"
    by (simp add: srv_tier_def srv_blacked_def srv_is_peer_def srv_role0_def srv_sel_over_maxload_def srv_is_stale_def
        srv_state_initial_def sched_zero_def srv_entry_zero_def)
  have f: "sd_fuzz (st_sched ?st) \<le> 100" "\<not> st_affinity ?st" by (simp_all add: srv_state_initial_def)
  obtain i where i: "i < length [?a, ?b]"
    "fst (srv_select_core ?st 50 ''/d/f'' False False 256 (Some [?a, ?b]) 1) = Some (take (256 - 1) (se_host ([?a, ?b] ! i)), se_port ([?a, ?b] ! i))"
    using srv_fuzz_near_best [OF f, of ?a "[?a, ?b]" 50 "''/d/f''" False False 256 1] c k by auto
  then have "i = 0 \<or> i = 1" by auto
  then show ?thesis using i(2) by (intro exI [of _ i]) auto
qed

text \<open>
  A client that names tried servers is told that the file does not exist exactly when it names at least as many
  hosts as servers export the path, blacklisted ones included.  So the retries end, but the hosts are counted, not compared: two
  attempts at one server count as two.
\<close>

theorem srv_tried_counts_names:
  assumes "hs \<noteq> []" "\<forall>h\<in>set hs. brix_net_host_chars_valid h"
    and "pre = [] \<or> last pre = CHR ''&''" "\<not> sublist ''tried='' pre" "rest = [] \<or> hd rest = CHR ''&''" "CHR 0x00 \<notin> set (pre @ rest)"
    and "CHR ''?'' \<notin> set p" "length (pre @ ''tried='' @ join_on CHR '','' hs @ rest) < 1024"
  shows "brix_manager_tried_exhausted (Some (p @ ''?'' @ pre @ ''tried='' @ join_on CHR '','' hs @ rest)) path (Some t)
    \<longleftrightarrow> (\<exists>e\<in>set t. se_in_use e \<and> srv_path_matches (se_paths e) path)
      \<and> length (filter (\<lambda>e. se_in_use e \<and> srv_path_matches (se_paths e) path) t) \<le> length hs"
proof -
  let ?q = "pre @ ''tried='' @ join_on CHR '','' hs @ rest"
  have "c \<noteq> CHR 0x00" if "c \<in> set (join_on CHR '','' hs)" for c
    using join_chars [of "CHR '',''" hs] that assms(2) host_char by fastforce
  then have "CHR 0x00 \<notin> set ?q" using assms(6) by auto
  then have "srv_opaque (p @ CHR ''?'' # ?q) = Some ?q" by (intro opaque_of assms(7,8)) simp_all
  then show ?thesis using n_tried_of [OF assms(1,2,5,3,4)]
    by (auto simp: brix_manager_tried_exhausted_def count_matching_length Let_def filter_empty_conv)
qed

theorem srv_tried_counts_names_witness:
  "brix_manager_tried_exhausted (Some (''/d/f?tried=a,a&x=1'')) ''/d/f'' (Some
     [srv_entry_zero\<lparr>se_host := ''a'', se_paths := ''/d'', se_in_use := True\<rparr>,
      srv_entry_zero\<lparr>se_host := ''b'', se_paths := ''/d'', se_in_use := True\<rparr>])"
  using srv_tried_counts_names [of "[''a'', ''a'']" "[]" "''&x=1''" "''/d/f''" "''/d/f''"
      "[srv_entry_zero\<lparr>se_host := ''a'', se_paths := ''/d'', se_in_use := True\<rparr>,
        srv_entry_zero\<lparr>se_host := ''b'', se_paths := ''/d'', se_in_use := True\<rparr>]"]
  by (simp add: brix_net_host_chars_valid_def char_between_def srv_path_matches.simps srv_token_covers_def srv_entry_zero_def)

text \<open>
  C39. The servers a client names as tried have no say in where it is sent.  For any table, policy, time and cursor, a stat
  at the redirector whose opaque part carries \<open>tried=\<close> with \<open>k\<close> host names, whatever stands before and after it
  (\<open>triedrc=\<close> included), is answered that the file does not exist when at most \<open>k\<close> registered servers export the path, and
  there is one, and otherwise exactly as a first request that names none: the names are counted, and neither compared with each
  other or with the registry nor left out of the selection.
\<close>

theorem srv_tried_only_counted:
  assumes "hs \<noteq> []" "\<forall>h\<in>set hs. brix_net_host_chars_valid h"
    and "pre = [] \<or> last pre = CHR ''&''" "\<not> sublist ''tried='' pre" "rest = [] \<or> hd rest = CHR ''&''" "CHR 0x00 \<notin> set (pre @ rest)"
    and "CHR ''?'' \<notin> set p" "length (pre @ ''tried='' @ join_on CHR '','' hs @ rest) < 1024"
  shows "let servers = filter (\<lambda>e. se_in_use e \<and> srv_path_matches (se_paths e) path) t in
    stat_registry_answer st now (Some (p @ ''?'' @ pre @ ''tried='' @ join_on CHR '','' hs @ rest)) path (Some t) cur
    = (if 0 < length servers \<and> length servers \<le> length hs then (StatNotFound, cur)
       else stat_registry_answer st now None path (Some t) cur)"
proof -
  define servers where "servers = filter (\<lambda>e. se_in_use e \<and> srv_path_matches (se_paths e) path) t"
  have "(\<exists>e\<in>set t. se_in_use e \<and> srv_path_matches (se_paths e) path) \<longleftrightarrow> 0 < length servers"
    by (auto simp: servers_def filter_empty_conv)
  then have "brix_manager_tried_exhausted (Some (p @ ''?'' @ pre @ ''tried='' @ join_on CHR '','' hs @ rest)) path (Some t)
      \<longleftrightarrow> 0 < length servers \<and> length servers \<le> length hs"
    unfolding srv_tried_counts_names [OF assms(1-8)] servers_def by simp
  moreover have "\<not> brix_manager_tried_exhausted None path (Some t)" by (simp add: brix_manager_tried_exhausted_def)
  ultimately show ?thesis unfolding Let_def servers_def [symmetric] stat_registry_answer_def by simp
qed

theorem srv_tried_only_counted_witness:
  "fst (stat_registry_answer srv_state_initial 50 (Some ''/d/f?x=1&tried=a&triedrc=enoent'') ''/d/f'' (Some
     [srv_entry_zero\<lparr>se_host := ''a'', se_port := 1, se_paths := ''/d'', se_in_use := True\<rparr>,
      srv_entry_zero\<lparr>se_host := ''b'', se_port := 1, se_paths := ''/d'', se_util_pct := 5, se_in_use := True\<rparr>]) 0) = StatRedirect ''a'' 1
   \<and> fst (stat_registry_answer srv_state_initial 50 (Some ''/d/f?x=1&tried=a,a&triedrc=enoent,enoent'') ''/d/f'' (Some
     [srv_entry_zero\<lparr>se_host := ''a'', se_port := 1, se_paths := ''/d'', se_in_use := True\<rparr>,
      srv_entry_zero\<lparr>se_host := ''b'', se_port := 1, se_paths := ''/d'', se_util_pct := 5, se_in_use := True\<rparr>]) 0) = StatNotFound"
proof -
  let ?t = "[srv_entry_zero\<lparr>se_host := ''a'', se_port := 1, se_paths := ''/d'', se_in_use := True\<rparr>,
      srv_entry_zero\<lparr>se_host := ''b'', se_port := 1, se_paths := ''/d'', se_util_pct := 5, se_in_use := True\<rparr>]"
  have f: "stat_registry_answer srv_state_initial 50 None ''/d/f'' (Some ?t) 0 = (StatRedirect ''a'' 1, 0)"
    by (simp add: stat_registry_answer_def brix_manager_tried_exhausted_def brix_srv_select_or_blacklisted_def srv_select_core_def
        srv_select_slot_def srv_path_matches.simps srv_token_covers_def srv_blacked_def srv_sel_state_init_def srv_sel_tier_init_def
        srv_sel_state_consider_def srv_sel_metric_def sched_active_def srv_is_peer_def srv_role0_def srv_sel_over_maxload_def
        srv_is_stale_def srv_sel_tier_offer_def srv_sel_metric_better_def srv_sel_state_winner_def srv_sel_fuzz_pick_def Let_def
        cpystrn_def srv_state_initial_def sched_zero_def srv_entry_zero_def)
  have n: "filter (\<lambda>e. se_in_use e \<and> srv_path_matches (se_paths e) ''/d/f'') ?t = ?t"
    by (simp add: srv_path_matches.simps srv_token_covers_def srv_entry_zero_def)
  have h: "brix_net_host_chars_valid ''a''" by (simp add: brix_net_host_chars_valid_def char_between_def)
  have x: "\<not> sublist ''tried='' ''x=1&''" by (simp add: sublist_code)
  show ?thesis
    using srv_tried_only_counted [where hs = "[''a'']" and pre = "''x=1&''" and rest = "''&triedrc=enoent''" and p = "''/d/f''"
        and path = "''/d/f''" and t = ?t and st = srv_state_initial and now = 50 and cur = 0, unfolded n f Let_def]
      srv_tried_only_counted [where hs = "[''a'', ''a'']" and pre = "''x=1&''" and rest = "''&triedrc=enoent,enoent''" and p = "''/d/f''"
        and path = "''/d/f''" and t = ?t and st = srv_state_initial and now = 50 and cur = 0, unfolded n f Let_def] h x by simp
qed

end
