(* ===== verification/Spec2Isabelle.thy ===== *)
theory Spec2Isabelle
  imports Wire_Messages Pgread_Encode Pgw_Fob Root_Framing Token_Scopes Http_Range Acc_Engine Rate_Limit Cta_Service Loc_Cache
    Cache_Meta Cache_Race Cinfo_L1_Lru Acc_Authsafe Srv_Select
begin

text \<open>
  Verification library for the BriX cache (\<^verbatim>\<open>src/\<close>): an nginx module and its tools that serve and cache
  scientific data over XRootD, WebDAV, S3 and CVMFS.

  \<^bold>\<open>The program and its parts.\<close>  A connection receives XRootD frames: a 24-byte header whose length is
  checked against a cap per request kind before the payload is buffered, and a 16-byte body that a table-driven codec
  packs and unpacks.  Paged reads and writes carry a CRC32c in front of every 4096-byte page; a corrupt page
  of a paged write is remembered until the client retransmits it and blocks the close meanwhile.  HTTP front ends
  ask for byte ranges.  A cached file has a metadata record, in an extended attribute or a
  sidecar file, that says which blocks are present, which octets are dirty and which origin the copy is valid for.  Requests are authorised by bearer-token scopes or by the access-control
  engine, and throttled by a token bucket whose state lives in a hash table in shared memory.  The tape
  service takes protobuf requests into a journaled queue and drives them through an executor.  A redirector keeps a
  registry of data servers in shared memory and sends each request to one of them.  The
  library models these parts, bottom up; each theory below names its source files.

  \<^bold>\<open>Theories.\<close>
  \<^item> \<^verbatim>\<open>Brix_Prelude\<close>: word types (\<open>u8\<close> to \<open>u64\<close>), byte strings, big- and little-endian images of words, option and
    list lemmas, and the named collections the component proofs share.
  \<^item> \<^verbatim>\<open>Wire_Codec\<close> (\<^verbatim>\<open>protocols/root/protocol/codec/wire_codec.h\<close>): the field-table engine.  A C struct offset is the pair of
    selector and update of a record field.  The locale \<open>xrdw_message\<close> states what a field table must
    satisfy (fields inside the body, disjoint, all record fields covered) and proves both round trips once.
  \<^item> \<^verbatim>\<open>Wire_Messages\<close> (\<^verbatim>\<open>wire_codec_file.c\<close>, \<^verbatim>\<open>_meta.c\<close>, \<^verbatim>\<open>_ns.c\<close>, \<^verbatim>\<open>_session.c\<close>): every request body as a record with its
    table, pack and unpack; each is an interpretation of \<open>xrdw_message\<close>.
  \<^item> \<^verbatim>\<open>Crc32c\<close> (\<^verbatim>\<open>core/compat/crc32c.c\<close>, \<^verbatim>\<open>crc32c_hw.c\<close>): the bitwise checksum, the SSE4.2 serial and three-stream paths with
    their GF(2) matrices, the ARMv8 path, and the copying variants.  The CPU instructions are parameters; the locale
    \<open>crc_instructions\<close> states their documented meaning and is interpreted on a reference machine.  All paths are
    proved equal to the bitwise checksum.
  \<^item> \<^verbatim>\<open>Page_IO\<close> (\<^verbatim>\<open>core/compat/pgio.c\<close>): encoder, strict decoder and collecting decoder of page units.
  \<^item> \<^verbatim>\<open>Pgread_Encode\<close> (\<^verbatim>\<open>protocols/root/read/pgread_encode.c\<close>): the zero-copy encoder that reads pages straight into the gaps
    of the reply.  The storage driver is a parameter (a sequence of results).  It is proved to produce the octets of \<open>Page_IO\<close>.
  \<^item> \<^verbatim>\<open>Pgw_Fob\<close> (\<^verbatim>\<open>protocols/root/write/pgw_fob.c\<close>): the registry of corrupt pages of an open file.  The locale \<open>bounded_registry\<close>
    is the contract of a bounded set and is interpreted on the table's operations; \<open>fob_page\<close> tells pages apart without the table's keys.
  \<^item> \<^verbatim>\<open>Root_Framing\<close> (\<^verbatim>\<open>recv_frame_bounds.c\<close>, \<^verbatim>\<open>frame_hdr.h\<close>, \<^verbatim>\<open>readv_seg.h\<close>, \<^verbatim>\<open>open_flags.h\<close>, \<^verbatim>\<open>open_request_options.c\<close>): payload caps, headers,
    response bodies, redirects, open options.
  \<^item> \<^verbatim>\<open>Shm_Kv\<close> (\<^verbatim>\<open>core/shm/kv.c\<close>, \<^verbatim>\<open>kv_config.c\<close>): the open-addressing table with linear probing, backward-shift deletion and lazy
    expiry.  The locale \<open>cache_map\<close> is the contract of a bounded map with expiring entries: get, set and delete commute
    with an abstraction to a partial map.  The table is its interpretation \<open>shm_kv\<close>.
  \<^item> \<^verbatim>\<open>Rate_Limit\<close> (\<^verbatim>\<open>core/shm/rate_limit.c\<close>): the token bucket, proved over the laws of \<open>shm_kv\<close> only, and its directive.
  \<^item> \<^verbatim>\<open>Path_Words\<close>: splitting of strings into components, shared by the authorisation theories.
  \<^item> \<^verbatim>\<open>Token_Scopes\<close> (\<^verbatim>\<open>auth/token/scopes.c\<close>): parsing of scope claims, path matching, the canonical-path test and the
    read and write decisions.
  \<^item> \<^verbatim>\<open>Http_Range\<close> (\<^verbatim>\<open>core/compat/range.c\<close>, \<^verbatim>\<open>range_vector.c\<close>): Range and Content-Range headers.  \<open>ngx_atoof\<close> and \<open>ngx_strlchr\<close> are
    parameters with their documented meaning as a hypothesis; \<open>ngx_reference\<close> satisfies it.
  \<^item> \<^verbatim>\<open>Acc_Engine\<close> (\<^verbatim>\<open>auth/authz/acc/privs.c\<close>, \<^verbatim>\<open>capability.c\<close>, \<^verbatim>\<open>tables.c\<close>, \<^verbatim>\<open>access.c\<close>): privileges, capability lists, rules
    and the access decision.  The group and netgroup resolvers are the code's function pointers, as parameters.
  \<^item> \<^verbatim>\<open>Acc_Authfile\<close> (\<^verbatim>\<open>auth/authz/acc/authfile_tokenize.c\<close>, \<^verbatim>\<open>authfile_record.c\<close>, \<^verbatim>\<open>authfile.c\<close>): the tokenizer, the record
    handlers and the driver that build the tables of the engine.  The answers of the allocator and the file are parameters.
  \<^item> \<^verbatim>\<open>Acc_Authdb\<close>: databases as lists of records, their text and their meaning (\<open>authdb_means\<close>), and that the parser reads the
    text to the meaning; what it does when a word cannot be copied.
  \<^item> \<^verbatim>\<open>Acc_Authsafe\<close>: what holds of the tables of any file; the identity of a request (\<^verbatim>\<open>auth/authz/acc/entity.c\<close>) and which
    records (\<open>anonymous_tables\<close>) can say something to a request without credentials.
  \<^item> \<^verbatim>\<open>Cta_Proto\<close> (\<^verbatim>\<open>protocols/ssi/svc_cta/pb_wire.c\<close>, \<^verbatim>\<open>cta_pb.c\<close>): the protobuf messages of the tape service; the table
    of the decoder is a list of rows whose destinations are record updates.
  \<^item> \<^verbatim>\<open>Cta_Queue\<close> (\<^verbatim>\<open>cta_queue.c\<close>): its request table, the state machine, the cancel and the journal with its replay, \<open>sscanf\<close>
    and \<open>fgets\<close> written out.  \<open>cta_reach\<close> is the step relation of the queue under any set of actions.
  \<^item> \<^verbatim>\<open>Cta_Service\<close> (\<^verbatim>\<open>cta_exec.c\<close>, \<^verbatim>\<open>cta_shm.c\<close>, \<^verbatim>\<open>cta_service.c\<close>): executors, locked wrappers and the two-phase request handler.
  \<^item> \<^verbatim>\<open>Slot_Table\<close>: the locale \<open>slot_table\<close>, an array of slots with keys as a bounded map.
  \<^item> \<^verbatim>\<open>Srv_Registry\<close> (\<^verbatim>\<open>net/manager/registry.c\<close>, \<^verbatim>\<open>registry_policy.c\<close>, \<^verbatim>\<open>registry_health.c\<close>,
    \<^verbatim>\<open>registry_select_blacklist.c\<close>): the data servers of a redirector, an interpretation of \<open>slot_table\<close>; \<open>srv_op\<close> lists
    the writers of one node, \<open>srv_event\<close> adds the claims of probes, and \<open>srv_trace\<close> is the abstract relation of histories.
  \<^item> \<^verbatim>\<open>Srv_Select\<close> (\<^verbatim>\<open>registry_select.c\<close>, \<^verbatim>\<open>registry_select_sched.c\<close>, the registry step of
    \<^verbatim>\<open>protocols/root/read/stat_manager.c\<close>): the server a request is sent to, and the end of its retries.
  \<^item> \<^verbatim>\<open>Loc_Cache\<close> (\<^verbatim>\<open>net/manager/loc_cache.c\<close>): the cache of file locations of a redirector.  An answer was announced by the
    node it names (\<open>loc_answers_said\<close>), the last announcement is served (\<open>loc_insert_served\<close>), and a refresh can bring an
    older one back (\<open>loc_refresh_resurrects\<close>).
  \<^item> \<^verbatim>\<open>Xmeta\<close>, \<^verbatim>\<open>Xmeta_Codec\<close> (\<^verbatim>\<open>fs/meta/xmeta.c\<close>, \<^verbatim>\<open>xmeta_encode.c\<close>, \<^verbatim>\<open>xmeta_decode.c\<close>): the metadata record of a cached
    file, its binary image and the proofs about it.  \<open>xmeta_wf\<close> is the invariant of records, \<open>xmeta_norm\<close> what of a record is stored,
    \<open>xmeta_sealed\<close> that every checksum in the octets matches.
  \<^item> \<^verbatim>\<open>Xmeta_Path\<close> (\<^verbatim>\<open>fs/meta/xmeta_path.c\<close>): where the record of a local file is kept.  The locales \<open>record_store\<close> and
    \<open>locked_store\<close> are the contract of a store of records with a lock and are interpreted on the path carrier.
  \<^item> \<^verbatim>\<open>Cache_Info\<close>, \<^verbatim>\<open>Cache_Meta\<close> (\<^verbatim>\<open>fs/cache/cinfo.c\<close>, \<^verbatim>\<open>meta.c\<close>): block map, dirty extent, hit statistics and validity of a
    cached file.  \<open>cinfo_view\<close> is the abstract state; every operation is proved to be a step of it.
  \<^item> \<^verbatim>\<open>Cache_Lock\<close>, \<^verbatim>\<open>Cache_Race\<close>: the same operations as steps (\<open>worker_step\<close>) of concurrent workers under the lock of the file.
  \<^item> \<^verbatim>\<open>Cinfo_L1\<close>, \<^verbatim>\<open>Cinfo_L1_Lru\<close> (\<^verbatim>\<open>fs/cache/cinfo_l1.c\<close>): the in-memory cache of record headers, a chained hash table and an
    intrusive doubly linked list over a heap of nodes; a use of a freed node is \<open>None\<close>.  It refines a list of headers, the
    most recently used first.  The locale \<open>header_cache\<close> is what a client may rely on and is interpreted on it.
  \<^item> This theory holds the properties that span components.

  \<^bold>\<open>What the lemmas show.\<close>  Round trips: request bodies, readv headers, page units, Content-Range, the metadata record, an authorization
  database.  Equivalence: all checksum paths, both zero-copy encoders.  Refinement: the store against a map, the header cache
  against a list by recency, the record carrier against a map from files to records, cache records against their
  abstract steps, the server registry against a bounded map from nodes, the access decision against the union of matching records less their negations.  A restart: the journal
  of the tape queue rebuilds its table.  Concurrency: workers on one cache file leave the record of some sequential order, and none waits
  for ever.  Invariants: the life cycle of a queued request, the close gate, the tables of any authorization file.
  Safety: decoders accept only faithful encodings, ranges stay in the file, redirects
  stay in the caller's buffers, scopes match whole components, admissions stay below the configured rate, a request without
  credentials is judged by the default record and what is said of its host, a redirect names a live server of the best tier.
  Errors: a corrupt page is located, refused opens and directives are characterised, torn and truncated records are refused.  Defects
  of the code, stated as they are: an over-long scope path widens a grant, the queue never releases an entry, a
  request without an owner gets one from its path at a restart, a cancel request cancels only itself, a record attribute that cannot be
  replaced shadows the saved record, an over-large record is saved and lost, a published data file splits the lock, a
  stale size survives new validity metadata, a failed copy of the first word of a record cuts an authorization file short,
  the servers a client names as tried are counted and not left out, affinity depends on the order of the registry, a drain is lifted by a
  probe, a refresh of a location brings an older one back, offsets 2^52 apart share an entry of the close gate.  Termination: deletion
  from the table ends within one pass.

  \<^bold>\<open>State, widths and fuel.\<close>  Operations take and return their state; the store's operations run under the zone
  lock in the code, so each is one function, and interleavings are sequences of operations.  The rate limiter's
  read and write are two operations and the code documents that workers may interleave between them; the admission
  bound is about tests that do not overlap.  C integers are words of their width wherever a wrap or
  a cast can matter; \<open>off_t\<close> values of the range parser are integers, whose bounds are part of the statements.  File contents and \<open>write(2)\<close> are parameters of the tape queue.  The only fuel
  is in the deletion loop of the store (\<open>None\<close> for an unfinished loop); the table's capacity is proved to
  be enough for every well-formed table.  All other loops are total functions.

  \<^bold>\<open>Not modelled.\<close>  nginx itself (pools, events, configuration parsing), system calls, OpenSSL, Kerberos, libcurl, libxml2 and
  jansson, and the code that is glue around them: connection handling, storage drivers, proxies, third-party copy,
  metrics, the client programs and the tools.  Of the parts with logic of their own these are left: path normalisation and URI decoding, macaroon caveats and issuer matching,
  VOMS attribute names, eviction decisions and the data path of the cache,
  the redirect cache of a redirector, WebDAV locks, the S3 signature's canonical request.
\<close>

section \<open>Properties that span components\<close>



end
